(* ===== verification/Prelude777.thy ===== *)
theory Prelude777
  imports Main "HOL-Library.Word" "HOL-Library.Monad_Syntax" "HOL-Library.Signed_Division"
begin

text \<open>
  The vocabulary that the component theories share: the machine integers of the C sources as
  words, bounds-checked array access, the little-endian layout of integers in memory, and the
  generic lemmas on lists, sums and the option monad that the component proofs use.

  An access outside an array is undefined behaviour in C. The checked operations \<open>aget\<close> and
  \<open>aput\<close> return \<open>None\<close> for it, so that a model that returns \<open>Some\<close> has stayed inside its arrays.
\<close>

unbundle bit_operations_syntax

section \<open>Machine integers\<close>

type_synonym u8 = "8 word"
type_synonym u16 = "16 word"
type_synonym u32 = "32 word"
type_synonym u64 = "64 word"

text \<open>The signed types of the sources have the same bits; \<open>sint\<close> reads them as two's complement.\<close>

type_synonym i8 = "8 word"
type_synonym i32 = "32 word"
type_synonym i64 = "64 word"

definition s_lt :: "'a::len word \<Rightarrow> 'a word \<Rightarrow> bool" where
  "s_lt a b \<longleftrightarrow> sint a < sint b"

definition s_le :: "'a::len word \<Rightarrow> 'a word \<Rightarrow> bool" where
  "s_le a b \<longleftrightarrow> sint a \<le> sint b"

text \<open>The two readings of a 64-bit word.\<close>

lemma sint_word64: "sint (w :: i64) = (if uint w < 2 ^ 63 then uint w else uint w - 2 ^ 64)"
proof -
  have "sint (word_of_int (uint w) :: i64) = (uint w + 2 ^ 63) mod 2 ^ 64 - 2 ^ 63"
    unfolding int_word_sint by simp
  then have "sint w = (uint w + 2 ^ 63) mod 2 ^ 64 - 2 ^ 63"
    by (simp only: word_of_int_uint)
  moreover have "0 \<le> uint w" "uint w < 2 ^ 64" using uint_bounded [of w] by simp_all
  moreover have "(uint w + 2 ^ 63) mod 2 ^ 64 = uint w + 2 ^ 63 - 2 ^ 64"
    if "2 ^ 63 \<le> uint w" "uint w < 2 ^ 64"
    using that mod_pos_pos_trivial [of "uint w + 2 ^ 63 - 2 ^ 64" "2 ^ 64"]
    by (simp only: minus_mod_self2) simp
  ultimately show ?thesis by (auto simp: mod_pos_pos_trivial)
qed

named_theorems mem_simps \<open>successful bounds-checked accesses\<close>
named_theorems layout_simps \<open>lengths and contents of little-endian encodings\<close>
named_theorems total_simps \<open>sums over updated arrays\<close>

section \<open>Bounds-checked arrays\<close>

definition aget :: "'a list \<Rightarrow> int \<Rightarrow> 'a option" where
  "aget xs i = (if 0 \<le> i \<and> nat i < length xs then Some (xs ! nat i) else None)"

definition aput :: "'a list \<Rightarrow> int \<Rightarrow> 'a \<Rightarrow> 'a list option" where
  "aput xs i v = (if 0 \<le> i \<and> nat i < length xs then Some (xs[nat i := v]) else None)"

lemma aget_nat [mem_simps]: "i < length xs \<Longrightarrow> aget xs (int i) = Some (xs ! i)"
  by (simp add: aget_def)

lemma aput_nat [mem_simps]: "i < length xs \<Longrightarrow> aput xs (int i) v = Some (xs[i := v])"
  by (simp add: aput_def)

lemma aget_SomeD:
  "aget xs i = Some v \<Longrightarrow> 0 \<le> i \<and> nat i < length xs \<and> v = xs ! nat i"
  by (auto simp: aget_def split: if_splits)

lemma aput_SomeD:
  "aput xs i v = Some ys \<Longrightarrow> 0 \<le> i \<and> nat i < length xs \<and> ys = xs[nat i := v]"
  by (auto simp: aput_def split: if_splits)

lemma aput_length: "aput xs i v = Some ys \<Longrightarrow> length ys = length xs"
  by (auto dest: aput_SomeD)

lemma aget_None_iff: "aget xs i = None \<longleftrightarrow> i < 0 \<or> int (length xs) \<le> i"
  by (auto simp: aget_def)

lemma aput_None_iff: "aput xs i v = None \<longleftrightarrow> i < 0 \<or> int (length xs) \<le> i"
  by (auto simp: aput_def)

text \<open>The first index of a list whose element satisfies a predicate, or \<open>- 1\<close>.\<close>

fun scan :: "('a \<Rightarrow> bool) \<Rightarrow> 'a list \<Rightarrow> int \<Rightarrow> int" where
  "scan P [] i = - 1"
| "scan P (x # xs) i = (if P x then i else scan P xs (i + 1))"

lemma scan_not_found: "0 \<le> i \<Longrightarrow> scan P xs i = - 1 \<longleftrightarrow> (\<forall>x \<in> set xs. \<not> P x)"
  by (induction xs arbitrary: i) auto

lemma scan_found:
  assumes "x \<in> set xs" and "P x"
  shows "\<exists>k < length xs. scan P xs i = i + int k \<and> P (xs ! k) \<and> (\<forall>l < k. \<not> P (xs ! l))"
  using assms
proof (induction xs arbitrary: i)
  case Nil
  then show ?case by simp
next
  case (Cons y ys)
  show ?case
  proof (cases "P y")
    case True
    then show ?thesis by (intro exI [of _ 0]) simp
  next
    case False
    with Cons.prems have "x \<in> set ys" by auto
    with Cons.IH [of "i + 1"] Cons.prems obtain k where k: "k < length ys"
      "scan P ys (i + 1) = i + 1 + int k" "P (ys ! k)" "\<forall>l < k. \<not> P (ys ! l)"
      by blast
    with False show ?thesis
      by (intro exI [of _ "Suc k"]) (auto simp: less_Suc_eq_0_disj)
  qed
qed

lemma scan_ge: "0 \<le> i \<Longrightarrow> - 1 \<le> scan P xs i"
  by (induction xs arbitrary: i) auto

section \<open>Sums over updated arrays\<close>

lemma sum_list_put [total_simps]:
  fixes xs :: "'a::ab_group_add list"
  shows "i < length xs \<Longrightarrow> sum_list (xs[i := v]) = sum_list xs - xs ! i + v"
proof (induction xs arbitrary: i)
  case Nil
  then show ?case by simp
next
  case (Cons x xs)
  then show ?case by (cases i) (auto simp: algebra_simps)
qed

section \<open>Little-endian layout\<close>

definition le_bytes :: "nat \<Rightarrow> 'a::len word \<Rightarrow> u8 list" where
  "le_bytes n x = map (\<lambda>i. ucast (drop_bit (8 * i) x)) [0..<n]"

primrec le_val :: "u8 list \<Rightarrow> 'a::len word" where
  "le_val [] = 0"
| "le_val (b # bs) = ucast b OR push_bit 8 (le_val bs)"

lemma length_le_bytes [simp, layout_simps]: "length (le_bytes n x) = n"
  by (simp add: le_bytes_def)

lemma bit_le_bytes_nth [layout_simps]:
  "i < n \<Longrightarrow> bit (le_bytes n x ! i) k \<longleftrightarrow> k < 8 \<and> bit x (8 * i + k)"
  by (auto simp: le_bytes_def bit_ucast_iff bit_drop_bit_eq ac_simps)

lemma bit_le_val:
  "bit (le_val bs :: 'a::len word) k \<longleftrightarrow>
     k < LENGTH('a) \<and> k div 8 < length bs \<and> bit (bs ! (k div 8)) (k mod 8)"
proof (induction bs arbitrary: k)
  case Nil
  then show ?case by simp
next
  case (Cons b bs)
  have small: "k < 8 \<Longrightarrow> k div 8 = 0 \<and> k mod 8 = k" by simp
  have big: "\<not> k < 8 \<Longrightarrow> k div 8 = Suc ((k - 8) div 8) \<and> (k - 8) mod 8 = k mod 8"
    by (metis le_div_geq le_mod_geq not_less zero_less_numeral)
  have top: "bit b k \<Longrightarrow> k < 8"
    using bit_imp_le_length by fastforce
  show ?case
  proof (cases "k < 8")
    case True
    then show ?thesis using small
      by (auto simp: bit_simps)
  next
    case False
    then show ?thesis using big top Cons.IH [of "k - 8"]
      by (auto simp: bit_simps bit_push_bit_iff)
  qed
qed

lemma le_val_le_bytes:
  "LENGTH('a) \<le> 8 * n \<Longrightarrow> le_val (le_bytes n (x :: 'a::len word)) = x"
proof (rule bit_word_eqI)
  fix k
  assume n: "LENGTH('a) \<le> 8 * n" and k: "k < LENGTH('a)"
  then have "k div 8 < n" by auto
  then show "bit (le_val (le_bytes n x) :: 'a word) k = bit x k"
    using k by (simp add: bit_le_val bit_le_bytes_nth)
qed

lemma le_bytes_le_val:
  assumes "length bs = n" and "8 * n \<le> LENGTH('a)"
  shows "le_bytes n (le_val bs :: 'a::len word) = bs"
proof (rule nth_equalityI)
  show "length (le_bytes n (le_val bs :: 'a word)) = length bs"
    by (simp add: assms)
next
  fix i
  assume "i < length (le_bytes n (le_val bs :: 'a word))"
  then have i: "i < n" by simp
  show "le_bytes n (le_val bs :: 'a word) ! i = bs ! i"
  proof (rule bit_word_eqI)
    fix k
    assume "k < LENGTH(8)"
    then have k: "k < 8" by simp
    then have "8 * i + k < LENGTH('a)" using i assms by linarith
    then show "bit (le_bytes n (le_val bs :: 'a word) ! i) k = bit (bs ! i) k"
      using i k assms(1) by (simp add: bit_le_bytes_nth bit_le_val)
  qed
qed

section \<open>The option monad\<close>

lemma bind_SomeE:
  assumes "m \<bind> f = Some y"
  obtains x where "m = Some x" and "f x = Some y"
  using assms by (cases m) auto

lemma bind_Some_conv: "m \<bind> f = Some y \<longleftrightarrow> (\<exists>x. m = Some x \<and> f x = Some y)"
  by (cases m) auto

text \<open>A loop whose body can fail: the body runs over a list of loop values.\<close>

fun ofold :: "('b \<Rightarrow> 's \<Rightarrow> 's option) \<Rightarrow> 'b list \<Rightarrow> 's \<Rightarrow> 's option" where
  "ofold f [] s = Some s"
| "ofold f (x # xs) s = f x s \<bind> ofold f xs"

lemma ofold_Nil [simp]: "ofold f [] = Some"
  by (rule ext) simp

lemma ofold_append: "ofold f (xs @ ys) s = ofold f xs s \<bind> ofold f ys"
  by (induction xs arbitrary: s) (auto simp: bind_eq_None_conv split: Option.bind_splits)

text \<open>
  The rule for loops: with \<open>I k s\<close> an invariant indexed by the number of iterations left,
  a body that takes every state of the invariant to a state of the next one never fails.
\<close>

lemma ofold_total:
  assumes "I (length xs) s"
    and "\<And>x s k. x \<in> set xs \<Longrightarrow> I (Suc k) s \<Longrightarrow> \<exists>s'. f x s = Some s' \<and> I k s'"
  shows "\<exists>s'. ofold f xs s = Some s' \<and> I 0 s'"
  using assms
proof (induction xs arbitrary: s)
  case Nil
  then show ?case by simp
next
  case (Cons x xs)
  from Cons.prems(2) [of x "length xs" s] Cons.prems(1)
  obtain s1 where s1: "f x s = Some s1" "I (length xs) s1" by auto
  from Cons.IH [OF s1(2)] Cons.prems(2) have "\<exists>s'. ofold f xs s1 = Some s' \<and> I 0 s'"
    by simp
  with s1 show ?case by simp
qed

text \<open>A loop whose body keeps an invariant and never fails.\<close>

lemma ofold_keeps:
  assumes "\<And>x s. x \<in> set xs \<Longrightarrow> I s \<Longrightarrow> \<exists>s'. f x s = Some s' \<and> I s'" and "I s"
  shows "\<exists>s'. ofold f xs s = Some s' \<and> I s'"
  using assms
proof (induction xs arbitrary: s)
  case (Cons x xs)
  obtain s1 where 1: "f x s = Some s1" "I s1" using Cons.prems(1) [of x s] Cons.prems(2) by auto
  have "\<exists>s'. ofold f xs s1 = Some s' \<and> I s'" by (rule Cons.IH) (use Cons.prems(1) 1(2) in auto)
  then show ?case using 1(1) by simp
qed simp

text \<open>
  The contract of a sender and a receiver: what the sender makes of an acceptable value, the
  receiver turns back into that value.
\<close>

locale lossless =
  fixes enc :: "'a \<Rightarrow> 'b option" and dec :: "'b \<Rightarrow> 'a option" and ok :: "'a \<Rightarrow> bool"
  assumes undone: "ok m \<Longrightarrow> \<exists>d. enc m = Some d \<and> dec d = Some m"
begin

lemma distinct_forms: "ok m \<Longrightarrow> ok m' \<Longrightarrow> enc m = enc m' \<Longrightarrow> m = m'"
  using undone [of m] undone [of m'] by auto

lemma all_back: "\<forall>m \<in> set ms. ok m \<Longrightarrow> \<exists>ds. those (map enc ms) = Some ds \<and> those (map dec ds) = Some ms"
proof (induction ms)
  case (Cons m ms)
  then obtain ds where "those (map enc ms) = Some ds" "those (map dec ds) = Some ms" by auto
  moreover obtain d where "enc m = Some d" "dec d = Some m" using undone [of m] Cons.prems by auto
  ultimately show ?case by (auto intro!: exI [of _ "d # ds"])
qed simp

end

end
