(* ===== verification/Bits777.thy ===== *)
theory Bits777
  imports Prelude777
begin

text \<open>
  The bit primitives of \<open>plugins/utils/bits777.c\<close>: the \<open>SETBIT\<close>, \<open>GETBIT\<close> and \<open>CLEARBIT\<close> macros
  on byte arrays, Hamming weights and distances, the Bloom filter over account numbers and
  the table-driven CRC-32. The macros do not check their offset; the laws below hold for
  offsets inside the array.
\<close>

section \<open>Bit arrays\<close>

definition GETBIT :: "u8 list \<Rightarrow> nat \<Rightarrow> u8" where
  "GETBIT bits bitoffset = bits ! (bitoffset div 8) AND push_bit (bitoffset mod 8) 1"

definition SETBIT :: "u8 list \<Rightarrow> nat \<Rightarrow> u8 list" where
  "SETBIT bits bitoffset =
     bits[bitoffset div 8 := bits ! (bitoffset div 8) OR push_bit (bitoffset mod 8) 1]"

definition CLEARBIT :: "u8 list \<Rightarrow> nat \<Rightarrow> u8 list" where
  "CLEARBIT bits bitoffset =
     bits[bitoffset div 8 := bits ! (bitoffset div 8) AND NOT (push_bit (bitoffset mod 8) 1)]"

text \<open>The contract of a bit array: reading after setting and clearing, at offsets below the
  capacity, which no operation changes.\<close>

locale bit_store =
  fixes get :: "'s \<Rightarrow> nat \<Rightarrow> bool"
    and set_at :: "'s \<Rightarrow> nat \<Rightarrow> 's"
    and clear_at :: "'s \<Rightarrow> nat \<Rightarrow> 's"
    and cap :: "'s \<Rightarrow> nat"
  assumes get_set: "i < cap s \<Longrightarrow> j < cap s \<Longrightarrow> get (set_at s i) j \<longleftrightarrow> j = i \<or> get s j"
    and get_clear: "i < cap s \<Longrightarrow> j < cap s \<Longrightarrow> get (clear_at s i) j \<longleftrightarrow> j \<noteq> i \<and> get s j"
    and cap_set: "cap (set_at s i) = cap s"
    and cap_clear: "cap (clear_at s i) = cap s"
begin

lemma cap_fold_set: "cap (fold (\<lambda>i s. set_at s i) is s) = cap s"
  by (induction "is" arbitrary: s) (auto simp: cap_set)

lemma get_fold_set:
  assumes "\<forall>i \<in> set is. i < cap s" and "j < cap s"
  shows "get (fold (\<lambda>i s. set_at s i) is s) j \<longleftrightarrow> j \<in> set is \<or> get s j"
  using assms
proof (induction "is" arbitrary: s)
  case Nil
  then show ?case by simp
next
  case (Cons i "is")
  then have "get (fold (\<lambda>i s. set_at s i) is (set_at s i)) j \<longleftrightarrow> j \<in> set is \<or> get (set_at s i) j"
    by (intro Cons.IH) (auto simp: cap_set)
  with Cons.prems show ?case by (auto simp: get_set)
qed

lemma set_clear_other:
  "i < cap s \<Longrightarrow> j < cap s \<Longrightarrow> k < cap s \<Longrightarrow> k \<noteq> i \<Longrightarrow> k \<noteq> j \<Longrightarrow>
     get (clear_at (set_at s i) j) k \<longleftrightarrow> get s k"
  by (simp add: get_set get_clear cap_set)

end

lemma and_bit_nonzero: "(w :: 'a::len word) AND push_bit k 1 \<noteq> 0 \<longleftrightarrow> bit w k"
  by (simp only: bit_iff_and_push_bit_not_eq_0)

lemma GETBIT_nonzero: "GETBIT bits i \<noteq> 0 \<longleftrightarrow> bit (bits ! (i div 8)) (i mod 8)"
  by (simp only: GETBIT_def and_bit_nonzero)

lemma length_SETBIT [simp, layout_simps]: "length (SETBIT bits i) = length bits"
  by (simp add: SETBIT_def)

lemma length_CLEARBIT [simp, layout_simps]: "length (CLEARBIT bits i) = length bits"
  by (simp add: CLEARBIT_def)

lemma byte_index: "i < 8 * length bits \<Longrightarrow> i div 8 < length (bits :: 'a list)"
  by auto

lemma same_bit: "(i :: nat) div 8 = j div 8 \<Longrightarrow> i mod 8 = j mod 8 \<longleftrightarrow> i = j"
  by (metis div_mod_decomp)

interpretation byte_bits: bit_store "\<lambda>b i. GETBIT b i \<noteq> 0" SETBIT CLEARBIT "\<lambda>b. 8 * length b"
proof unfold_locales
  fix s :: "u8 list" and i j
  assume i: "i < 8 * length s" and j: "j < 8 * length s"
  have m: "j mod 8 < 8" by simp
  show "(GETBIT (SETBIT s i) j \<noteq> 0) = (j = i \<or> GETBIT s j \<noteq> 0)"
    using byte_index [OF i] byte_index [OF j] m
    by (cases "i div 8 = j div 8")
      (auto simp: GETBIT_nonzero SETBIT_def bit_simps nth_list_update dest: same_bit)
  show "(GETBIT (CLEARBIT s i) j \<noteq> 0) = (j \<noteq> i \<and> GETBIT s j \<noteq> 0)"
    using byte_index [OF i] byte_index [OF j] m
    by (cases "i div 8 = j div 8")
      (auto simp: GETBIT_nonzero CLEARBIT_def bit_simps nth_list_update dest: same_bit)
qed simp_all

section \<open>Weights and distances\<close>

definition bitweight :: "u64 \<Rightarrow> nat" where
  "bitweight x = fold (\<lambda>i wt. if push_bit i 1 AND x \<noteq> 0 then wt + 1 else wt) [0..<64] 0"

text \<open>\<open>bits384\<close> is a union: 48 bytes that are also six little-endian 64-bit words.\<close>

type_synonym bits384 = "u8 list"

definition ulongs384 :: "bits384 \<Rightarrow> nat \<Rightarrow> u64" where
  "ulongs384 a i = le_val (take 8 (drop (8 * i) a))"

definition wt384 :: "bits384 \<Rightarrow> bits384 \<Rightarrow> nat" where
  "wt384 a b = fold (\<lambda>i n. n + bitweight (ulongs384 a i XOR ulongs384 b i)) [0..<6] 0"

definition spectrum384 :: "int list \<Rightarrow> bits384 \<Rightarrow> bits384 \<Rightarrow> int list \<times> nat" where
  "spectrum384 spectrum a b =
     fold (\<lambda>i (spectrum, n).
             if GETBIT a i XOR GETBIT b i \<noteq> 0
             then (spectrum[i := spectrum ! i + 1], n + 1) else (spectrum, n))
       [0..<384] (spectrum, 0)"

section \<open>The Bloom filter\<close>

definition NUM_BLOOMPRIMES :: nat where "NUM_BLOOMPRIMES = 8"

definition bloomprimes :: "u64 list" where
  "bloomprimes = [79559, 79631, 79691, 79697, 79811, 79841, 79901, 79997]"

record bloombits =
  hashbits :: "u8 list list"
  pad :: "u8 list"

definition bloom_offset :: "u64 \<Rightarrow> nat \<Rightarrow> nat" where
  "bloom_offset nxt64bits i = unat (nxt64bits mod bloomprimes ! i)"

definition set_bloombits :: "bloombits \<Rightarrow> u64 \<Rightarrow> bloombits" where
  "set_bloombits bloom nxt64bits =
     fold (\<lambda>i b. b\<lparr>hashbits := (hashbits b)[i := SETBIT (hashbits b ! i) (bloom_offset nxt64bits i)]\<rparr>)
       [0..<NUM_BLOOMPRIMES] bloom"

fun in_bloombits_loop :: "bloombits \<Rightarrow> u64 \<Rightarrow> nat list \<Rightarrow> int" where
  "in_bloombits_loop bloom nxt64bits [] = 1"
| "in_bloombits_loop bloom nxt64bits (i # is) =
     (if GETBIT (hashbits bloom ! i) (bloom_offset nxt64bits i) = 0 then 0
      else in_bloombits_loop bloom nxt64bits is)"

definition in_bloombits :: "bloombits \<Rightarrow> u64 \<Rightarrow> int" where
  "in_bloombits bloom nxt64bits = in_bloombits_loop bloom nxt64bits [0..<NUM_BLOOMPRIMES]"

text \<open>
  \<open>merge_bloombits\<close> runs over the whole struct as an array of 64-bit words; a 64-bit OR is the
  OR of its bytes, so the rows and the padding are merged byte by byte.
\<close>

definition merge_bloombits :: "bloombits \<Rightarrow> bloombits \<Rightarrow> bloombits" where
  "merge_bloombits dest src =
     \<lparr>hashbits = map2 (map2 (OR)) (hashbits dest) (hashbits src),
      pad = map2 (OR) (pad dest) (pad src)\<rparr>"

section \<open>CRC-32\<close>

definition crc32_tab :: "u32 list" where
  "crc32_tab =
  [0x00000000, 0x77073096, 0xEE0E612C, 0x990951BA, 0x076DC419, 0x706AF48F,
   0xE963A535, 0x9E6495A3, 0x0EDB8832, 0x79DCB8A4, 0xE0D5E91E, 0x97D2D988,
   0x09B64C2B, 0x7EB17CBD, 0xE7B82D07, 0x90BF1D91, 0x1DB71064, 0x6AB020F2,
   0xF3B97148, 0x84BE41DE, 0x1ADAD47D, 0x6DDDE4EB, 0xF4D4B551, 0x83D385C7,
   0x136C9856, 0x646BA8C0, 0xFD62F97A, 0x8A65C9EC, 0x14015C4F, 0x63066CD9,
   0xFA0F3D63, 0x8D080DF5, 0x3B6E20C8, 0x4C69105E, 0xD56041E4, 0xA2677172,
   0x3C03E4D1, 0x4B04D447, 0xD20D85FD, 0xA50AB56B, 0x35B5A8FA, 0x42B2986C,
   0xDBBBC9D6, 0xACBCF940, 0x32D86CE3, 0x45DF5C75, 0xDCD60DCF, 0xABD13D59,
   0x26D930AC, 0x51DE003A, 0xC8D75180, 0xBFD06116, 0x21B4F4B5, 0x56B3C423,
   0xCFBA9599, 0xB8BDA50F, 0x2802B89E, 0x5F058808, 0xC60CD9B2, 0xB10BE924,
   0x2F6F7C87, 0x58684C11, 0xC1611DAB, 0xB6662D3D, 0x76DC4190, 0x01DB7106,
   0x98D220BC, 0xEFD5102A, 0x71B18589, 0x06B6B51F, 0x9FBFE4A5, 0xE8B8D433,
   0x7807C9A2, 0x0F00F934, 0x9609A88E, 0xE10E9818, 0x7F6A0DBB, 0x086D3D2D,
   0x91646C97, 0xE6635C01, 0x6B6B51F4, 0x1C6C6162, 0x856530D8, 0xF262004E,
   0x6C0695ED, 0x1B01A57B, 0x8208F4C1, 0xF50FC457, 0x65B0D9C6, 0x12B7E950,
   0x8BBEB8EA, 0xFCB9887C, 0x62DD1DDF, 0x15DA2D49, 0x8CD37CF3, 0xFBD44C65,
   0x4DB26158, 0x3AB551CE, 0xA3BC0074, 0xD4BB30E2, 0x4ADFA541, 0x3DD895D7,
   0xA4D1C46D, 0xD3D6F4FB, 0x4369E96A, 0x346ED9FC, 0xAD678846, 0xDA60B8D0,
   0x44042D73, 0x33031DE5, 0xAA0A4C5F, 0xDD0D7CC9, 0x5005713C, 0x270241AA,
   0xBE0B1010, 0xC90C2086, 0x5768B525, 0x206F85B3, 0xB966D409, 0xCE61E49F,
   0x5EDEF90E, 0x29D9C998, 0xB0D09822, 0xC7D7A8B4, 0x59B33D17, 0x2EB40D81,
   0xB7BD5C3B, 0xC0BA6CAD, 0xEDB88320, 0x9ABFB3B6, 0x03B6E20C, 0x74B1D29A,
   0xEAD54739, 0x9DD277AF, 0x04DB2615, 0x73DC1683, 0xE3630B12, 0x94643B84,
   0x0D6D6A3E, 0x7A6A5AA8, 0xE40ECF0B, 0x9309FF9D, 0x0A00AE27, 0x7D079EB1,
   0xF00F9344, 0x8708A3D2, 0x1E01F268, 0x6906C2FE, 0xF762575D, 0x806567CB,
   0x196C3671, 0x6E6B06E7, 0xFED41B76, 0x89D32BE0, 0x10DA7A5A, 0x67DD4ACC,
   0xF9B9DF6F, 0x8EBEEFF9, 0x17B7BE43, 0x60B08ED5, 0xD6D6A3E8, 0xA1D1937E,
   0x38D8C2C4, 0x4FDFF252, 0xD1BB67F1, 0xA6BC5767, 0x3FB506DD, 0x48B2364B,
   0xD80D2BDA, 0xAF0A1B4C, 0x36034AF6, 0x41047A60, 0xDF60EFC3, 0xA867DF55,
   0x316E8EEF, 0x4669BE79, 0xCB61B38C, 0xBC66831A, 0x256FD2A0, 0x5268E236,
   0xCC0C7795, 0xBB0B4703, 0x220216B9, 0x5505262F, 0xC5BA3BBE, 0xB2BD0B28,
   0x2BB45A92, 0x5CB36A04, 0xC2D7FFA7, 0xB5D0CF31, 0x2CD99E8B, 0x5BDEAE1D,
   0x9B64C2B0, 0xEC63F226, 0x756AA39C, 0x026D930A, 0x9C0906A9, 0xEB0E363F,
   0x72076785, 0x05005713, 0x95BF4A82, 0xE2B87A14, 0x7BB12BAE, 0x0CB61B38,
   0x92D28E9B, 0xE5D5BE0D, 0x7CDCEFB7, 0x0BDBDF21, 0x86D3D2D4, 0xF1D4E242,
   0x68DDB3F8, 0x1FDA836E, 0x81BE16CD, 0xF6B9265B, 0x6FB077E1, 0x18B74777,
   0x88085AE6, 0xFF0F6A70, 0x66063BCA, 0x11010B5C, 0x8F659EFF, 0xF862AE69,
   0x616BFFD3, 0x166CCF45, 0xA00AE278, 0xD70DD2EE, 0x4E048354, 0x3903B3C2,
   0xA7672661, 0xD06016F7, 0x4969474D, 0x3E6E77DB, 0xAED16A4A, 0xD9D65ADC,
   0x40DF0B66, 0x37D83BF0, 0xA9BCAE53, 0xDEBB9EC5, 0x47B2CF7F, 0x30B5FFE9,
   0xBDBDF21C, 0xCABAC28A, 0x53B39330, 0x24B4A3A6, 0xBAD03605, 0xCDD70693,
   0x54DE5729, 0x23D967BF, 0xB3667A2E, 0xC4614AB8, 0x5D681B02, 0x2A6F2B94,
   0xB40BBE37, 0xC30C8EA1, 0x5A05DF1B, 0x2D02EF8D]"

fun crc32_loop :: "u32 \<Rightarrow> u8 list \<Rightarrow> u32" where
  "crc32_loop crc [] = crc"
| "crc32_loop crc (p # buf) =
     crc32_loop (crc32_tab ! unat ((crc XOR ucast p) AND 0xFF) XOR drop_bit 8 crc) buf"

definition crc32 :: "u32 \<Rightarrow> u8 list \<Rightarrow> u32" where
  "crc32 crc buf = crc32_loop (crc XOR NOT 0) buf XOR NOT 0"

section \<open>Weights are cardinalities\<close>

lemma fold_count: "fold (\<lambda>i n. if P i then n + 1 else n) xs (n::nat) = n + length (filter P xs)"
  by (induction xs arbitrary: n) auto

lemma length_filter_upt: "length (filter P [0..<n]) = card {i. i < n \<and> P i}"
proof -
  have "length (filter P [0..<n]) = card (set (filter P [0..<n]))"
    by (intro distinct_card [symmetric] distinct_filter distinct_upt)
  moreover have "set (filter P [0..<n]) = {i. i < n \<and> P i}" by auto
  ultimately show ?thesis by simp
qed

lemma bitweight_card: "bitweight x = card {i. i < 64 \<and> bit x i}"
  unfolding bitweight_def fold_count length_filter_upt
  by (simp only: and.commute [of _ x] and_bit_nonzero add_0)

lemma ulongs384_bit:
  assumes "length a = 48" and "i < 6" and "k < 64"
  shows "bit (ulongs384 a i) k \<longleftrightarrow> GETBIT a (64 * i + k) \<noteq> 0"
proof -
  have e: "64 * i + k = k + 8 * (8 * i)" by simp
  have "(64 * i + k) div 8 = 8 * i + k div 8"
    unfolding e by (rule div_mult_self2) simp
  moreover have "(64 * i + k) mod 8 = k mod 8"
    unfolding e by (rule mod_mult_self2)
  moreover have "k div 8 < 8" using assms by auto
  ultimately show ?thesis using assms
    by (simp add: ulongs384_def bit_le_val GETBIT_nonzero)
qed

definition differ384 :: "bits384 \<Rightarrow> bits384 \<Rightarrow> nat \<Rightarrow> bool" where
  "differ384 a b i \<longleftrightarrow> (GETBIT a i \<noteq> 0) \<noteq> (GETBIT b i \<noteq> 0)"

lemma GETBIT_xor_nonzero: "GETBIT a i XOR GETBIT b i \<noteq> 0 \<longleftrightarrow> differ384 a b i"
proof -
  have "GETBIT a i XOR GETBIT b i = (a ! (i div 8) XOR b ! (i div 8)) AND push_bit (i mod 8) 1"
    unfolding GETBIT_def by (rule bit_word_eqI) (auto simp: bit_simps)
  then have "GETBIT a i XOR GETBIT b i \<noteq> 0 \<longleftrightarrow> bit (a ! (i div 8) XOR b ! (i div 8)) (i mod 8)"
    by (simp only: and_bit_nonzero)
  then show ?thesis by (simp add: differ384_def GETBIT_nonzero bit_simps)
qed

lemma card_blocks:
  "card {i. i < 64 * Suc n \<and> P i} = card {i. i < 64 * n \<and> P i} + card {k. k < 64 \<and> P (64 * n + k)}"
proof -
  have "{i. i < 64 * Suc n \<and> P i} =
      {i. i < 64 * n \<and> P i} \<union> (\<lambda>k. 64 * n + k) ` {k. k < 64 \<and> P (64 * n + k)}" (is "?L = ?A \<union> ?B")
  proof (rule set_eqI)
    fix i
    show "i \<in> ?L \<longleftrightarrow> i \<in> ?A \<union> ?B"
    proof (cases "i < 64 * n")
      case True
      then show ?thesis by auto
    next
      case False
      then obtain k where "i = 64 * n + k" by (metis le_add_diff_inverse not_less)
      then show ?thesis by auto
    qed
  qed
  moreover have "card (?A \<union> ?B) = card ?A + card ?B"
    by (rule card_Un_disjoint) auto
  moreover have "card ?B = card {k. k < 64 \<and> P (64 * n + k)}"
    by (rule card_image) (auto simp: inj_on_def)
  ultimately show ?thesis by simp
qed

lemma wt384_blocks:
  assumes "length a = 48" and "length b = 48" and "n \<le> 6"
  shows "fold (\<lambda>i n. n + bitweight (ulongs384 a i XOR ulongs384 b i)) [0..<n] 0 =
    card {i. i < 64 * n \<and> differ384 a b i}"
  using assms(3)
proof (induction n)
  case 0
  then show ?case by simp
next
  case (Suc n)
  then have n: "n < 6" by simp
  have "{k. k < 64 \<and> bit (ulongs384 a n XOR ulongs384 b n) k} =
      {k. k < 64 \<and> differ384 a b (64 * n + k)}"
    using n assms by (auto simp: bit_xor_iff ulongs384_bit differ384_def)
  with Suc show ?case
    unfolding card_blocks by (simp add: bitweight_card)
qed

lemma spectrum384_fold:
  "fold (\<lambda>i (spectrum, n).
      if differ384 a b i
      then (spectrum[i := spectrum ! i + 1], n + 1) else (spectrum, n)) [0..<m] (s :: int list, 0 :: nat) =
   (map (\<lambda>i. s ! i + of_bool (i < m \<and> differ384 a b i)) [0..<length s],
    card {i. i < m \<and> differ384 a b i})"
proof (induction m)
  case 0
  have "s = map (\<lambda>i. s ! i + of_bool (i < 0 \<and> differ384 a b i)) [0..<length s]"
    by (rule nth_equalityI) simp_all
  then show ?case by simp
next
  case (Suc m)
  have split: "{i. i < Suc m \<and> P i} = (if P m then insert m {i. i < m \<and> P i} else {i. i < m \<and> P i})" for P
    by (auto simp: less_Suc_eq)
  show ?case
    unfolding upt_Suc_append [OF le0] fold_append comp_apply Suc fold.simps id_apply split_conv split
    by (cases "differ384 a b m"; cases "m < length s")
      (auto intro!: nth_equalityI simp: nth_list_update list_update_beyond less_Suc_eq)
qed

text \<open>
  \<open>wt384\<close> is the Hamming distance of two 384-bit values, and \<open>spectrum384\<close>, which walks
  the same values bit by bit through \<open>GETBIT\<close>, returns the same number: the word-wise and the
  bit-wise routine agree. It also adds one to the spectrum exactly at the differing offsets.
\<close>

theorem wt384_spectrum384:
  assumes "length a = 48" and "length b = 48" and "length s = 384"
  shows "wt384 a b = card {i. i < 384 \<and> (GETBIT a i \<noteq> 0) \<noteq> (GETBIT b i \<noteq> 0)}
    \<and> snd (spectrum384 s a b) = wt384 a b
    \<and> (\<forall>i < 384. fst (spectrum384 s a b) ! i =
          s ! i + of_bool ((GETBIT a i \<noteq> 0) \<noteq> (GETBIT b i \<noteq> 0)))"
proof -
  have wt: "wt384 a b = card {i. i < 384 \<and> differ384 a b i}"
    using wt384_blocks [OF assms(1,2), of 6] unfolding wt384_def by simp
  have sp: "spectrum384 s a b =
      (map (\<lambda>i. s ! i + of_bool (i < 384 \<and> differ384 a b i)) [0..<length s],
       card {i. i < 384 \<and> differ384 a b i})"
    unfolding spectrum384_def GETBIT_xor_nonzero by (rule spectrum384_fold)
  have "\<forall>i < 384. fst (spectrum384 s a b) ! i = s ! i + of_bool (differ384 a b i)"
  proof (intro allI impI)
    fix i :: nat
    assume i: "i < 384"
    then have "i < length s" using assms(3) by (simp only:)
    with i show "fst (spectrum384 s a b) ! i = s ! i + of_bool (differ384 a b i)"
      unfolding sp by simp
  qed
  moreover have "snd (spectrum384 s a b) = wt384 a b"
    by (simp only: sp wt snd_conv)
  ultimately show ?thesis
    using wt unfolding differ384_def by (intro conjI)
qed

theorem wt384_spectrum384_witness:
  "wt384 (1 # replicate 47 0) (replicate 48 0) =
      card {i. i < 384 \<and> (GETBIT (1 # replicate 47 0) i \<noteq> 0) \<noteq> (GETBIT (replicate 48 0) i \<noteq> 0)}
   \<and> snd (spectrum384 (replicate 384 0) (1 # replicate 47 0) (replicate 48 0)) =
      wt384 (1 # replicate 47 0) (replicate 48 0)"
proof -
  have "length ((1 :: u8) # replicate 47 0) = Suc 47" by (simp only: length_replicate length_Cons)
  then have "length ((1 :: u8) # replicate 47 0) = 48" by (simp only: Suc_numeral semiring_norm)
  moreover have "length (replicate 48 (0 :: u8)) = 48" by (rule length_replicate)
  moreover have "length (replicate 384 (0 :: int)) = 384" by (rule length_replicate)
  ultimately have "length ((1 :: u8) # replicate 47 0) = 48"
    "length (replicate 48 (0 :: u8)) = 48" "length (replicate 384 (0 :: int)) = 384" .
  note conc = wt384_spectrum384 [OF this]
  show ?thesis
    by (rule conjI [OF conc [THEN conjunct1] conc [THEN conjunct2, THEN conjunct1]])
qed

section \<open>The Bloom filter has no false negatives\<close>

definition bloom_wf :: "bloombits \<Rightarrow> bool" where
  "bloom_wf b \<longleftrightarrow> length (hashbits b) = NUM_BLOOMPRIMES
     \<and> (\<forall>row \<in> set (hashbits b). length row = 79997 div 8 + 1) \<and> length (pad b) = 8"

definition bloom_empty :: bloombits where
  "bloom_empty = \<lparr>hashbits = replicate NUM_BLOOMPRIMES (replicate (79997 div 8 + 1) 0),
                  pad = replicate 8 0\<rparr>"

lemma bloomprimes_bounds:
  assumes "i < NUM_BLOOMPRIMES"
  shows "0 < bloomprimes ! i \<and> bloomprimes ! i \<le> 79997"
proof -
  have "\<forall>p \<in> set bloomprimes. 0 < p \<and> p \<le> 79997" by (simp add: bloomprimes_def)
  moreover have "length bloomprimes = NUM_BLOOMPRIMES"
    by (simp add: bloomprimes_def NUM_BLOOMPRIMES_def)
  ultimately show ?thesis using assms by (simp only: nth_mem)
qed

lemma bloom_offset_bound:
  assumes "i < NUM_BLOOMPRIMES"
  shows "bloom_offset x i < 80000"
proof -
  have "x mod bloomprimes ! i < bloomprimes ! i"
    using bloomprimes_bounds [OF assms] by (intro word_mod_less_divisor) simp
  then have "x mod bloomprimes ! i < 79997"
    using bloomprimes_bounds [OF assms] by (blast intro: less_le_trans)
  then have "unat (x mod bloomprimes ! i) < unat (79997 :: u64)"
    by (simp add: word_less_nat_alt)
  then show ?thesis by (simp add: bloom_offset_def)
qed

lemma set_bloombits_rows:
  assumes "length (hashbits b) = NUM_BLOOMPRIMES" and "n \<le> NUM_BLOOMPRIMES"
  shows "fold (\<lambda>i b. b\<lparr>hashbits := (hashbits b)[i := SETBIT (hashbits b ! i) (bloom_offset x i)]\<rparr>)
      [0..<n] b =
    b\<lparr>hashbits := map (\<lambda>i. if i < n then SETBIT (hashbits b ! i) (bloom_offset x i) else hashbits b ! i)
        [0..<NUM_BLOOMPRIMES]\<rparr>"
  using assms(2)
proof (induction n)
  case 0
  then show ?case using assms(1) map_nth [of "hashbits b"] by simp
next
  case (Suc n)
  have "(map (\<lambda>i. if i < n then SETBIT (hashbits b ! i) (bloom_offset x i) else hashbits b ! i)
        [0..<NUM_BLOOMPRIMES])[n := SETBIT (hashbits b ! n) (bloom_offset x n)] =
      map (\<lambda>i. if i < Suc n then SETBIT (hashbits b ! i) (bloom_offset x i) else hashbits b ! i)
        [0..<NUM_BLOOMPRIMES]"
    using Suc.prems by (intro nth_equalityI) (auto simp: nth_list_update less_Suc_eq)
  with Suc show ?case by simp
qed

lemma set_bloombits_row:
  assumes "bloom_wf b" and "i < NUM_BLOOMPRIMES"
  shows "hashbits (set_bloombits b x) ! i = SETBIT (hashbits b ! i) (bloom_offset x i)"
proof -
  have "length (hashbits b) = NUM_BLOOMPRIMES" using assms(1) by (simp add: bloom_wf_def)
  from set_bloombits_rows [OF this order_refl, of x] show ?thesis
    using assms(2) by (simp add: set_bloombits_def)
qed

lemma bloom_wf_set: "bloom_wf b \<Longrightarrow> bloom_wf (set_bloombits b x)"
  using set_bloombits_rows [of b NUM_BLOOMPRIMES x]
  by (auto simp: bloom_wf_def set_bloombits_def)

lemma bloom_wf_row: "bloom_wf b \<Longrightarrow> i < NUM_BLOOMPRIMES \<Longrightarrow> 8 * length (hashbits b ! i) = 80000"
  by (simp add: bloom_wf_def)

lemma in_bloombits_loop_iff:
  "in_bloombits_loop b x is = 1 \<longleftrightarrow> (\<forall>i \<in> set is. GETBIT (hashbits b ! i) (bloom_offset x i) \<noteq> 0)"
  by (induction "is") auto

lemma in_bloombits_iff:
  "in_bloombits b x = 1 \<longleftrightarrow>
     (\<forall>i < NUM_BLOOMPRIMES. GETBIT (hashbits b ! i) (bloom_offset x i) \<noteq> 0)"
  by (auto simp: in_bloombits_def in_bloombits_loop_iff)

lemma in_set_bloombits:
  assumes "bloom_wf b" and "x = y \<or> in_bloombits b x = 1"
  shows "in_bloombits (set_bloombits b y) x = 1"
proof -
  have "GETBIT (SETBIT (hashbits b ! i) (bloom_offset y i)) (bloom_offset x i) \<noteq> 0"
    if i: "i < NUM_BLOOMPRIMES" for i
  proof -
    have "bloom_offset y i < 8 * length (hashbits b ! i)" and "bloom_offset x i < 8 * length (hashbits b ! i)"
      unfolding bloom_wf_row [OF assms(1) i] by (rule bloom_offset_bound [OF i])+
    then show ?thesis using assms(2) i by (auto simp: byte_bits.get_set in_bloombits_iff)
  qed
  then show ?thesis by (simp add: in_bloombits_iff set_bloombits_row [OF assms(1)])
qed

lemma bloom_wf_fold: "bloom_wf b \<Longrightarrow> bloom_wf (fold (\<lambda>y b. set_bloombits b y) ys b)"
  by (induction ys arbitrary: b) (auto intro: bloom_wf_set)

lemma in_fold_set_bloombits:
  "bloom_wf b \<Longrightarrow> x \<in> set ys \<or> in_bloombits b x = 1 \<Longrightarrow>
     in_bloombits (fold (\<lambda>y b. set_bloombits b y) ys b) x = 1"
proof (induction ys arbitrary: b)
  case Nil
  then show ?case by simp
next
  case (Cons y ys)
  have "x \<in> set ys \<or> in_bloombits (set_bloombits b y) x = 1"
    using Cons.prems in_set_bloombits [OF Cons.prems(1), of x y] by auto
  then show ?case using Cons.IH [OF bloom_wf_set [OF Cons.prems(1)]] by simp
qed

lemma in_merge_bloombits:
  assumes "bloom_wf a" and "bloom_wf b" and "in_bloombits a x = 1 \<or> in_bloombits b x = 1"
  shows "in_bloombits (merge_bloombits a b) x = 1"
proof -
  have "GETBIT (hashbits (merge_bloombits a b) ! i) (bloom_offset x i) \<noteq> 0"
    if i: "i < NUM_BLOOMPRIMES" for i
  proof -
    have len: "length (hashbits a) = NUM_BLOOMPRIMES" "length (hashbits b) = NUM_BLOOMPRIMES"
      using assms(1,2) by (simp_all add: bloom_wf_def)
    have rows: "bloom_offset x i < 8 * length (hashbits a ! i)" "bloom_offset x i < 8 * length (hashbits b ! i)"
      unfolding bloom_wf_row [OF assms(1) i] bloom_wf_row [OF assms(2) i]
      by (rule bloom_offset_bound [OF i])+
    have "hashbits (merge_bloombits a b) ! i = map2 (OR) (hashbits a ! i) (hashbits b ! i)"
      using i len by (simp add: merge_bloombits_def)
    then show ?thesis
      using i assms(3) rows [THEN byte_index]
      by (auto simp: in_bloombits_iff GETBIT_nonzero bit_or_iff)
  qed
  then show ?thesis by (simp add: in_bloombits_iff)
qed

lemma bloom_wf_empty: "bloom_wf bloom_empty"
  unfolding bloom_wf_def bloom_empty_def by simp

text \<open>
  C38. The Bloom filter has no false negatives: an account number that was inserted into one
  of two well-formed filters, by any sequence of \<open>set_bloombits\<close>, is reported present by
  \<open>in_bloombits\<close> after the two are merged with \<open>merge_bloombits\<close>, whatever else was inserted.
\<close>

theorem bloom_no_false_negatives:
  assumes "bloom_wf a" and "bloom_wf b" and "x \<in> set xs \<union> set ys"
  shows "in_bloombits (merge_bloombits (fold (\<lambda>y b. set_bloombits b y) xs a)
                                       (fold (\<lambda>y b. set_bloombits b y) ys b)) x = 1"
proof (rule in_merge_bloombits [OF bloom_wf_fold [OF assms(1)] bloom_wf_fold [OF assms(2)]])
  show "in_bloombits (fold (\<lambda>y b. set_bloombits b y) xs a) x = 1
      \<or> in_bloombits (fold (\<lambda>y b. set_bloombits b y) ys b) x = 1"
    using assms by (auto intro: in_fold_set_bloombits)
qed

theorem bloom_no_false_negatives_witness:
  "in_bloombits (merge_bloombits (set_bloombits (set_bloombits bloom_empty 12345) 7) bloom_empty) 7 = 1"
  using bloom_no_false_negatives [OF bloom_wf_empty bloom_wf_empty, of 7 "[12345, 7]" "[]"] by simp

section \<open>The CRC table is the bitwise CRC\<close>

text \<open>The reference: the reflected CRC-32 polynomial, one bit at a time.\<close>

definition crc32_bit :: "u32 \<Rightarrow> u32" where
  "crc32_bit c = (if bit c 0 then 0xEDB88320 XOR drop_bit 1 c else drop_bit 1 c)"

definition crc32_byte :: "u32 \<Rightarrow> u32" where
  "crc32_byte c = (crc32_bit ^^ 8) c"

lemma crc32_bit_xor: "crc32_bit (a XOR b) = crc32_bit a XOR crc32_bit b"
  by (rule bit_word_eqI) (auto simp: crc32_bit_def bit_simps)

lemma crc32_bits_xor: "(crc32_bit ^^ n) (a XOR b) = (crc32_bit ^^ n) a XOR (crc32_bit ^^ n) b"
  by (induction n) (auto simp: crc32_bit_xor)

lemma crc32_bits_high: "(\<And>k. k < n \<Longrightarrow> \<not> bit c k) \<Longrightarrow> (crc32_bit ^^ n) c = drop_bit n c"
proof (induction n)
  case 0
  then show ?case by simp
next
  case (Suc n)
  then have "(crc32_bit ^^ n) c = drop_bit n c" and "\<not> bit c n" by simp_all
  then show ?case by (simp add: crc32_bit_def [of "drop_bit n c"] bit_drop_bit_eq)
qed

lemma crc32_byte_split: "crc32_byte c = crc32_byte (c AND 0xFF) XOR drop_bit 8 c"
proof -
  have low: "c AND 0xFF = take_bit 8 c"
    by (simp add: take_bit_eq_mask mask_eq_exp_minus_1)
  have c: "c = take_bit 8 c XOR push_bit 8 (drop_bit 8 c)"
    by (rule bit_word_eqI) (auto simp: bit_simps)
  have "crc32_byte (push_bit 8 (drop_bit 8 c)) = drop_bit 8 (push_bit 8 (drop_bit 8 c))"
    unfolding crc32_byte_def by (rule crc32_bits_high) (simp add: bit_push_bit_iff)
  also have "\<dots> = drop_bit 8 c"
    by (rule bit_word_eqI) (auto simp: bit_simps dest: bit_imp_le_length)
  finally have high: "crc32_byte (push_bit 8 (drop_bit 8 c)) = drop_bit 8 c" .
  have "crc32_byte c = crc32_byte (take_bit 8 c XOR push_bit 8 (drop_bit 8 c))"
    using c by (rule arg_cong)
  also have "\<dots> = crc32_byte (take_bit 8 c) XOR drop_bit 8 c"
    by (subst high [symmetric]) (simp only: crc32_byte_def crc32_bits_xor)
  finally show ?thesis by (simp only: low)
qed

lemma crc32_byte_unfold: "crc32_byte c = crc32_bit (crc32_bit (crc32_bit (crc32_bit
    (crc32_bit (crc32_bit (crc32_bit (crc32_bit c)))))))"
  by (simp add: crc32_byte_def numeral_eq_Suc)

lemma crc32_basis:
  "crc32_byte 1 = 0x77073096" "crc32_byte 2 = 0xEE0E612C" "crc32_byte 4 = 0x076DC419" "crc32_byte 8 = 0x0EDB8832"
  "crc32_byte 16 = 0x1DB71064" "crc32_byte 32 = 0x3B6E20C8" "crc32_byte 64 = 0x76DC4190" "crc32_byte 128 = 0xEDB88320"
  by (simp_all add: crc32_byte_unfold crc32_bit_def)

definition crc32_entries :: "nat \<Rightarrow> u32 list" where
  "crc32_entries n = map (\<lambda>i. crc32_byte (word_of_nat i)) [0..<2 ^ n]"

lemma word_of_nat_xor_exp:
  assumes "i < 2 ^ n" "n < 32"
  shows "(word_of_nat (2 ^ n + i) :: u32) = 2 ^ n XOR word_of_nat i"
proof -
  have "(2 ^ n :: u32) AND word_of_nat i = 0"
  proof (rule bit_word_eqI)
    fix k assume "k < LENGTH(32)"
    have "\<not> bit i n" using assms(1) by (metis bit_take_bit_iff less_irrefl take_bit_nat_eq_self)
    then show "bit ((2 ^ n :: u32) AND word_of_nat i) k = bit (0 :: u32) k"
      by (auto simp: bit_and_iff bit_exp_iff bit_of_nat_iff)
  qed
  then have "(2 ^ n :: u32) + word_of_nat i = 2 ^ n XOR word_of_nat i"
    by (simp add: disjunctive_xor_eq_or disjunctive_add_eq_or disjunctive_add)
  then show ?thesis by simp
qed

lemma crc32_entries_0: "crc32_entries 0 = [0]"
  by (simp add: crc32_entries_def crc32_byte_unfold crc32_bit_def)

lemma crc32_entries_Suc:
  assumes "n < 32"
  shows "crc32_entries (Suc n) = crc32_entries n @ map ((XOR) (crc32_byte (2 ^ n))) (crc32_entries n)"
proof -
  have "map (\<lambda>i. crc32_byte (word_of_nat i)) [2 ^ n..<2 ^ n + 2 ^ n] =
      map (\<lambda>i. crc32_byte (word_of_nat (2 ^ n + i))) [0..<2 ^ n]"
    unfolding map_add_upt [of "2 ^ n" "2 ^ n", symmetric] map_map
    by (simp only: comp_def add.commute)
  also have "\<dots> = map ((XOR) (crc32_byte (2 ^ n))) (crc32_entries n)"
    unfolding crc32_entries_def map_map
    by (rule map_cong) (simp_all add: word_of_nat_xor_exp [OF _ assms] crc32_byte_def crc32_bits_xor del: of_nat_add)
  finally show ?thesis
    by (simp add: crc32_entries_def mult_2 upt_add_eq_append [of 0])
qed

lemma crc32_tab_entries: "crc32_tab = crc32_entries 8"
proof -
  have e1: "crc32_entries 1 = [0, 0x77073096]"
    using crc32_entries_Suc [of 0] by (simp add: crc32_entries_0 crc32_basis)
  have e2: "crc32_entries 2 = [0, 0x77073096, 0xEE0E612C, 0x990951BA]"
    using crc32_entries_Suc [of 1, unfolded Suc_1 e1 power_one_right crc32_basis] by simp
  note e3 = crc32_entries_Suc [of 2, simplified, unfolded e2 crc32_basis, simplified]
  note e4 = crc32_entries_Suc [of 3, simplified, unfolded e3 crc32_basis, simplified]
  note e5 = crc32_entries_Suc [of 4, simplified, unfolded e4 crc32_basis, simplified]
  note e6 = crc32_entries_Suc [of 5, simplified, unfolded e5 crc32_basis, simplified]
  note e7 = crc32_entries_Suc [of 6, simplified, unfolded e6 crc32_basis, simplified]
  note e8 = crc32_entries_Suc [of 7, simplified, unfolded e7 crc32_basis, simplified]
  show ?thesis by (simp only: crc32_tab_def e8)
qed

lemma crc32_tab_nth: "crc32_tab ! unat (c AND 0xFF) = crc32_byte (c AND 0xFF)"
proof -
  have "unat (c AND 0xFF) \<le> unat (0xFF :: u32)"
    by (rule word_and_le1 [THEN word_le_nat_alt [THEN iffD1]])
  then have "unat (c AND 0xFF) < 2 ^ 8" by simp
  then show ?thesis
    unfolding crc32_tab_entries crc32_entries_def by (simp only: nth_map length_upt nth_upt) simp
qed

fun crc32_ref :: "u32 \<Rightarrow> u8 list \<Rightarrow> u32" where
  "crc32_ref crc [] = crc"
| "crc32_ref crc (p # buf) = crc32_ref (crc32_byte (crc XOR ucast p)) buf"

lemma crc32_step: "crc32_tab ! unat ((crc XOR ucast p) AND 0xFF) XOR drop_bit 8 crc =
    crc32_byte (crc XOR ucast (p :: u8))"
proof -
  have "drop_bit 8 (crc XOR ucast p) = drop_bit 8 crc"
    by (rule bit_word_eqI) (auto simp: bit_simps dest: bit_imp_le_length)
  then show ?thesis
    using crc32_byte_split [of "crc XOR ucast p"] by (simp add: crc32_tab_nth)
qed

text \<open>
  C24. The table-driven \<open>_crc32\<close> computes, for every starting value and every buffer, the
  CRC-32 of the reflected polynomial 0xEDB88320 taken one bit at a time with the usual
  inversion before and after. The 256 entries of \<open>crc32_tab\<close> are checked against it.
\<close>

theorem crc32_bitwise: "crc32 crc buf = crc32_ref (crc XOR NOT 0) buf XOR NOT 0"
proof -
  have "crc32_loop c buf = crc32_ref c buf" for c
    by (induction buf arbitrary: c) (simp_all only: crc32_loop.simps crc32_ref.simps crc32_step)
  then show ?thesis by (simp only: crc32_def)
qed

end
