(* ===== verification/Hostnet777.thy ===== *)
theory Hostnet777
  imports Bits777
begin

text \<open>
  The wire helpers of \<open>plugins/common/hostnet777.c\<close>: \<open>hostnet777_copybits\<close>, which moves fields
  between a packet and the host bit by bit in either direction, the packet header
  \<open>hostnet777_serialize\<close> built from it, the duplicate filter \<open>hostnet777_hashes\<close>, and the
  client slots of a server (\<open>find\<close>, \<open>replace\<close>, \<open>register\<close>).
\<close>

section \<open>Copying bits\<close>

definition copybits_loop :: "u8 list \<Rightarrow> nat \<Rightarrow> u8 list" where
  "copybits_loop src len =
     fold (\<lambda>i dest. if GETBIT src i \<noteq> 0 then SETBIT dest i else dest)
       [0..<8 * len] (replicate len 0)"

text \<open>Both buffers and the returned length; \<open>reverse\<close> exchanges the roles of the two pointers.\<close>

definition hostnet777_copybits ::
    "int \<Rightarrow> u8 list \<Rightarrow> u8 list \<Rightarrow> nat \<Rightarrow> (nat \<times> u8 list \<times> u8 list) option" where
  "hostnet777_copybits reverse dest src len =
     (if len \<le> length dest \<and> len \<le> length src
      then if reverse \<noteq> 0
           then Some (len, dest, copybits_loop dest len @ drop len src)
           else Some (len, copybits_loop src len @ drop len dest, src)
      else None)"

lemma length_copybits_loop: "length (copybits_loop src len) = len"
proof -
  have "length (fold (\<lambda>i dest. if GETBIT src i \<noteq> 0 then SETBIT dest i else dest) xs d) = length d" for xs d
    by (induction xs arbitrary: d) auto
  then show ?thesis by (simp add: copybits_loop_def)
qed

lemma copybits_fold_filter:
  "fold (\<lambda>i dest. if P i then SETBIT dest i else dest) xs d = fold (\<lambda>i d. SETBIT d i) (filter P xs) d"
  by (induction xs arbitrary: d) auto

lemma copybits_loop_eq: "len \<le> length src \<Longrightarrow> copybits_loop src len = take len src"
proof (rule nth_equalityI)
  assume "len \<le> length src"
  then show "length (copybits_loop src len) = length (take len src)"
    by (simp add: length_copybits_loop)
next
  fix n
  assume len: "len \<le> length src" and "n < length (copybits_loop src len)"
  then have n: "n < len" by (simp add: length_copybits_loop)
  show "copybits_loop src len ! n = take len src ! n"
  proof (rule bit_word_eqI)
    fix k
    assume "k < LENGTH(8)"
    then have k: "k < 8" by simp
    let ?j = "8 * n + k"
    have j: "?j < 8 * len" "?j div 8 = n" "?j mod 8 = k" using n k by auto
    let ?z = "replicate len 0 :: u8 list"
    let ?is = "filter (\<lambda>i. GETBIT src i \<noteq> 0) [0..<8 * len]"
    have "GETBIT (fold (\<lambda>i d. SETBIT d i) ?is ?z) ?j \<noteq> 0 \<longleftrightarrow> ?j \<in> set ?is \<or> GETBIT ?z ?j \<noteq> 0"
      by (rule byte_bits.get_fold_set) (use j in auto)
    moreover have "GETBIT ?z ?j = 0"
      using j n by (simp add: GETBIT_def)
    ultimately have "GETBIT (copybits_loop src len) ?j \<noteq> 0 \<longleftrightarrow> GETBIT src ?j \<noteq> 0"
      using j unfolding copybits_loop_def copybits_fold_filter by simp
    then show "bit (copybits_loop src len ! n) k = bit (take len src ! n) k"
      using j n by (simp add: GETBIT_nonzero)
  qed
qed

lemma copybits_loop_all [simp]: "copybits_loop src (length src) = src"
  by (simp add: copybits_loop_eq)

text \<open>
  \<open>hostnet777_copybits\<close>, a loop over single bits, is a memory copy: in both directions it
  moves exactly the first \<open>len\<close> bytes, keeps the rest of the target buffer and the source,
  and returns \<open>len\<close>; the only failure is a buffer shorter than \<open>len\<close>.
\<close>

theorem copybits_is_memcpy:
  assumes "len \<le> length dest" and "len \<le> length src"
  shows "hostnet777_copybits 0 dest src len = Some (len, take len src @ drop len dest, src)
    \<and> (reverse \<noteq> 0 \<longrightarrow>
        hostnet777_copybits reverse dest src len = Some (len, dest, take len dest @ drop len src))"
  using assms by (simp add: hostnet777_copybits_def copybits_loop_eq)

theorem copybits_is_memcpy_witness:
  "hostnet777_copybits 1 [1, 2, 3] [7, 8] 2 = Some (2, [1, 2, 3], [1, 2])
   \<and> hostnet777_copybits 0 [1, 2, 3] [7, 8] 2 = Some (2, [7, 8, 3], [7, 8])"
  using copybits_is_memcpy [of 2 "[1, 2, 3]" "[7, 8]" 1] by simp

section \<open>The packet header\<close>

record hostnet777_hdrbits =
  destbits :: u64
  senderpub :: "u8 list"
  senderbits :: u64
  timestamp :: u32
  sigbits :: "u8 list"

text \<open>One field at an offset of the packet, in the direction \<open>reverse\<close>: the new packet and field.\<close>

definition copy_field :: "int \<Rightarrow> u8 list \<Rightarrow> nat \<Rightarrow> u8 list \<Rightarrow> (u8 list \<times> u8 list) option" where
  "copy_field reverse buf off field =
     do { (_, b, f) \<leftarrow> hostnet777_copybits reverse (drop off buf) field (length field);
          Some (take off buf @ b, f) }"

definition hostnet777_serialize ::
    "int \<Rightarrow> hostnet777_hdrbits \<Rightarrow> u8 list \<Rightarrow> (nat \<times> hostnet777_hdrbits \<times> u8 list) option" where
  "hostnet777_serialize reverse h buf =
     do { (buf, f1) \<leftarrow> copy_field reverse buf 0 (le_bytes 8 (destbits h));
          (buf, f2) \<leftarrow> copy_field reverse buf 8 (senderpub h);
          (buf, f3) \<leftarrow> copy_field reverse buf 40 (le_bytes 8 (senderbits h));
          (buf, f4) \<leftarrow> copy_field reverse buf 48 (le_bytes 4 (timestamp h));
          let h = h\<lparr>destbits := le_val f1, senderpub := f2, senderbits := le_val f3,
                    timestamp := le_val f4\<rparr>;
          if senderbits h \<noteq> 0
          then do { (buf, f5) \<leftarrow> copy_field reverse buf 52 (sigbits h);
                    Some (84, h\<lparr>sigbits := f5\<rparr>, buf) }
          else Some (52, h\<lparr>sigbits := replicate 32 0\<rparr>, buf) }"

definition hdr_wf :: "hostnet777_hdrbits \<Rightarrow> bool" where
  "hdr_wf h \<longleftrightarrow> length (senderpub h) = 32 \<and> length (sigbits h) = 32"

lemma copy_field_out:
  assumes "off + length f \<le> length buf"
  shows "copy_field 0 buf off f = Some (take off buf @ f @ drop (off + length f) buf, f)"
  using assms by (simp add: copy_field_def hostnet777_copybits_def add.commute)

lemma copy_field_in:
  assumes "off + length f \<le> length buf" and "reverse \<noteq> 0"
  shows "copy_field reverse buf off f = Some (buf, take (length f) (drop off buf))"
  using assms by (simp add: copy_field_def hostnet777_copybits_def copybits_loop_eq)

text \<open>The bytes of a header on the wire.\<close>

definition hdr_bytes :: "hostnet777_hdrbits \<Rightarrow> u8 list" where
  "hdr_bytes h = le_bytes 8 (destbits h) @ senderpub h @ le_bytes 8 (senderbits h)
     @ le_bytes 4 (timestamp h) @ (if senderbits h \<noteq> 0 then sigbits h else [])"

lemma le_val_fields [simp]:
  "le_val (le_bytes 8 (x :: u64)) = x" "le_val (le_bytes 4 (t :: u32)) = t"
  by (simp_all add: le_val_le_bytes)

lemma serialize_out:
  assumes "hdr_wf h" and "84 \<le> length buf"
  shows "hostnet777_serialize 0 h buf =
    Some (length (hdr_bytes h),
          h\<lparr>sigbits := if senderbits h \<noteq> 0 then sigbits h else replicate 32 0\<rparr>,
          hdr_bytes h @ drop (length (hdr_bytes h)) buf)"
  using assms
  by (simp add: hostnet777_serialize_def hdr_wf_def hdr_bytes_def copy_field_out)

lemma serialize_in:
  assumes "hdr_wf h" and "hdr_wf g" and "84 \<le> length (hdr_bytes h @ rest)"
  shows "hostnet777_serialize 1 g (hdr_bytes h @ rest) =
    Some (length (hdr_bytes h),
          h\<lparr>sigbits := if senderbits h \<noteq> 0 then sigbits h else replicate 32 0\<rparr>,
          hdr_bytes h @ rest)"
  using assms
  by (simp add: hostnet777_serialize_def hdr_wf_def hdr_bytes_def copy_field_in)

text \<open>
  C33. Header round trip: reading back, into any header, a packet that \<open>hostnet777_serialize\<close>
  wrote gives the written header, consumes as many bytes as were written (84 signed, 52
  unsigned) and leaves the packet alone. An unsigned header (sender 0) loses its signature.
\<close>

theorem serialize_roundtrip:
  assumes "hdr_wf h" and "hdr_wf g" and "84 \<le> length buf"
  shows "\<exists>n buf'. hostnet777_serialize 0 h buf =
        Some (n, h\<lparr>sigbits := if senderbits h \<noteq> 0 then sigbits h else replicate 32 0\<rparr>, buf')
    \<and> n = (if senderbits h \<noteq> 0 then 84 else 52) \<and> length buf' = length buf
    \<and> hostnet777_serialize 1 g buf' =
        Some (n, h\<lparr>sigbits := if senderbits h \<noteq> 0 then sigbits h else replicate 32 0\<rparr>, buf')"
proof -
  have n: "length (hdr_bytes h) = (if senderbits h \<noteq> 0 then 84 else 52)"
    using assms(1) by (simp add: hdr_bytes_def hdr_wf_def)
  let ?buf = "hdr_bytes h @ drop (length (hdr_bytes h)) buf"
  have len: "length ?buf = length buf" using assms(3) n by (simp split: if_splits)
  then have "84 \<le> length ?buf" using assms(3) by (simp only:)
  note out = serialize_out [OF assms(1,3)] and "in" = serialize_in [OF assms(1,2) this]
  show ?thesis
    by (rule exI [of _ "length (hdr_bytes h)"], rule exI [of _ ?buf])
      (intro conjI out n len "in")
qed

theorem serialize_roundtrip_witness:
  "\<exists>n buf'. hostnet777_serialize 0
      \<lparr>destbits = 5, senderpub = replicate 32 1, senderbits = 9, timestamp = 77, sigbits = replicate 32 3\<rparr>
      (replicate 84 0) = Some (n,
        \<lparr>destbits = 5, senderpub = replicate 32 1, senderbits = 9, timestamp = 77, sigbits = replicate 32 3\<rparr>, buf')
    \<and> n = 84"
proof -
  let ?h = "\<lparr>destbits = 5, senderpub = replicate 32 1, senderbits = 9, timestamp = 77,
             sigbits = replicate 32 3\<rparr>"
  have "hdr_wf ?h" by (simp add: hdr_wf_def)
  from serialize_roundtrip [OF this this, of "replicate 84 0"] show ?thesis by auto
qed

section \<open>The duplicate filter\<close>

text \<open>
  \<open>txid\<close> stands for the first 64 bits of the SHA-256 of the message. The shift of a full array
  drops its last entry; an empty array is an access out of bounds.
\<close>

definition hostnet777_hashes :: "(u8 list \<Rightarrow> u64) \<Rightarrow> u64 list \<Rightarrow> u8 list \<Rightarrow> (int \<times> u64 list) option" where
  "hostnet777_hashes txid hashes msg =
     (let h = txid msg; i = scan (\<lambda>x. x = h) hashes 0; firsti = scan (\<lambda>x. x = 0) hashes 0
      in if 0 \<le> i then Some (i, hashes)
         else if 0 \<le> firsti then Some (- 1, hashes[nat firsti := h])
         else if hashes = [] then None
         else Some (- 1, h # butlast hashes))"

lemma scan_nonneg_iff: "0 \<le> scan P xs 0 \<longleftrightarrow> (\<exists>x \<in> set xs. P x)"
  using scan_not_found [of 0 P xs] scan_ge [of 0 P xs] by force

lemma scan_0_lt: "0 \<le> scan P xs 0 \<Longrightarrow> nat (scan P xs 0) < length xs \<and> P (xs ! nat (scan P xs 0))"
  unfolding scan_nonneg_iff using scan_found [of _ xs P 0] by fastforce

text \<open>
  The duplicate filter: a message is reported (with its slot) exactly when its hash is
  stored; otherwise the answer is \<open>- 1\<close> and the hash is stored, so that the same message
  coming again at once is a duplicate. The array keeps its size, and while it has a free
  slot no stored hash is lost.
\<close>

theorem hashes_filters_duplicates:
  assumes "hashes \<noteq> []"
  shows "\<exists>r hashes'. hostnet777_hashes txid hashes msg = Some (r, hashes')
    \<and> (0 \<le> r \<longleftrightarrow> txid msg \<in> set hashes) \<and> (r < 0 \<longrightarrow> r = - 1)
    \<and> txid msg \<in> set hashes' \<and> length hashes' = length hashes
    \<and> (0 \<in> set hashes \<longrightarrow> set hashes - {0} \<subseteq> set hashes')
    \<and> (\<exists>r'. hostnet777_hashes txid hashes' msg = Some (r', hashes') \<and> 0 \<le> r')"
proof -
  have again: "\<exists>r'. hostnet777_hashes txid hs msg = Some (r', hs) \<and> 0 \<le> r'" if "txid msg \<in> set hs" for hs
    using that scan_nonneg_iff [of "\<lambda>x. x = txid msg" hs] by (auto simp: hostnet777_hashes_def Let_def)
  consider (dup) "txid msg \<in> set hashes" | (free) "txid msg \<notin> set hashes" "0 \<in> set hashes"
    | (full) "txid msg \<notin> set hashes" "0 \<notin> set hashes" by blast
  then show ?thesis
  proof cases
    case dup
    from again [OF dup] obtain r where r: "hostnet777_hashes txid hashes msg = Some (r, hashes)" "0 \<le> r"
      by blast
    show ?thesis by (rule exI [of _ r], rule exI [of _ hashes]) (use r dup in auto)
  next
    case free
    let ?i = "nat (scan (\<lambda>x. x = 0) hashes 0)" and ?h = "txid msg"
    have i: "?i < length hashes" "hashes ! ?i = 0"
      using free scan_0_lt [of "\<lambda>x. x = 0" hashes] by (auto simp: scan_nonneg_iff)
    have run: "hostnet777_hashes txid hashes msg = Some (- 1, hashes[?i := ?h])"
      using free by (auto simp: hostnet777_hashes_def Let_def scan_nonneg_iff)
    have mem: "?h \<in> set (hashes[?i := ?h])" using i by (rule_tac set_update_memI)
    have keep: "x \<in> set (hashes[?i := ?h])" if "x \<in> set hashes" "x \<noteq> 0" for x
      using that i by (metis in_set_conv_nth length_list_update nth_list_update_neq)
    show ?thesis using run mem keep free again [OF mem] by auto
  next
    case full
    then have run: "hostnet777_hashes txid hashes msg = Some (- 1, txid msg # butlast hashes)"
      using assms by (auto simp: hostnet777_hashes_def Let_def scan_nonneg_iff)
    show ?thesis using run full assms again [of "txid msg # butlast hashes"] by auto
  qed
qed

theorem hashes_filters_duplicates_witness:
  "\<exists>r hashes'. hostnet777_hashes (\<lambda>m. word_of_nat (length m)) [4, 0] [1, 2, 3] = Some (r, hashes')
     \<and> 3 \<in> set hashes'"
  using hashes_filters_duplicates [of "[4, 0]" "\<lambda>m. word_of_nat (length m)" "[1, 2, 3]"] by auto

end
