(* ===== verification/PangeaTable.thy ===== *)
theory PangeaTable
  imports Prelude777
begin

text \<open>
  The state of a Pangea poker table as one node keeps it (\<open>plugins/common/hostnet777.c\<close>,
  \<open>plugins/games/pangea/pangea777.c\<close>) and the seat bookkeeping: the slots of the table are
  the addresses that bought in (\<open>addrs\<close>), the players of the hand are the active addresses
  (\<open>active\<close>), and \<open>pangea_slot\<close> and \<open>pangea_ind\<close> translate between the two numberings.

  The C structs point at each other (\<open>dp->table\<close> is the \<open>pangea_info\<close>, whose \<open>dp\<close> is the
  \<open>cards777_pubdata\<close>, which contains the \<open>cards777_handinfo\<close>), one of each per table, so the
  records extend one another and every field is read from one state. 64-bit amounts are
  words; small counters (\<open>N\<close>, \<open>numactive\<close>, seats) are natural numbers. \<open>None\<close> is an access
  outside an array.
\<close>

section \<open>Constants and structures\<close>

definition CARDS777_MAXCARDS :: nat where "CARDS777_MAXCARDS = 52"
definition CARDS777_MAXPLAYERS :: nat where "CARDS777_MAXPLAYERS = 9"

definition CARDS777_FOLD :: int where "CARDS777_FOLD = - 1"
definition CARDS777_START :: int where "CARDS777_START = 1"
definition CARDS777_ANTE :: int where "CARDS777_ANTE = 2"
definition CARDS777_SMALLBLIND :: int where "CARDS777_SMALLBLIND = 3"
definition CARDS777_BIGBLIND :: int where "CARDS777_BIGBLIND = 4"
definition CARDS777_CHECK :: int where "CARDS777_CHECK = 5"
definition CARDS777_CALL :: int where "CARDS777_CALL = 6"
definition CARDS777_BET :: int where "CARDS777_BET = 7"
definition CARDS777_RAISE :: int where "CARDS777_RAISE = 8"
definition CARDS777_FULLRAISE :: int where "CARDS777_FULLRAISE = 9"
definition CARDS777_SENTCARDS :: int where "CARDS777_SENTCARDS = 10"
definition CARDS777_ALLIN :: int where "CARDS777_ALLIN = 11"
definition CARDS777_FACEUP :: int where "CARDS777_FACEUP = 12"
definition CARDS777_WINNINGS :: int where "CARDS777_WINNINGS = 13"
definition CARDS777_RAKES :: int where "CARDS777_RAKES = 14"
definition CARDS777_CHANGES :: int where "CARDS777_CHANGES = 15"
definition CARDS777_SNAPSHOT :: int where "CARDS777_SNAPSHOT = 16"

lemmas cards777_consts = CARDS777_FOLD_def CARDS777_START_def CARDS777_ANTE_def
  CARDS777_SMALLBLIND_def CARDS777_BIGBLIND_def CARDS777_CHECK_def CARDS777_CALL_def
  CARDS777_BET_def CARDS777_RAISE_def CARDS777_FULLRAISE_def CARDS777_SENTCARDS_def
  CARDS777_ALLIN_def CARDS777_FACEUP_def CARDS777_WINNINGS_def CARDS777_RAKES_def
  CARDS777_CHANGES_def CARDS777_SNAPSHOT_def CARDS777_MAXCARDS_def CARDS777_MAXPLAYERS_def

type_synonym bits256 = "u8 list"

record cards777_handinfo =
  h_checkprod :: bits256
  h_cardpubs :: "bits256 list"
  h_final :: "bits256 list"
  h_community256 :: "bits256 list"
  h_cards :: "bits256 list list"
  h_othercardpubs :: "u64 list"
  h_havemasks :: "i64 list"
  h_betsize :: i64
  h_hostrake :: i64
  h_pangearake :: i64
  h_lastraise :: i64
  h_bets :: "i64 list"
  h_snapshot :: "i64 list"
  h_won :: "i64 list"
  h_handmask :: u32
  h_lastbettor :: nat
  h_startdecktime :: u32
  h_betstarted :: u32
  h_finished :: u32
  h_encodestarted :: u32
  h_cardi :: int
  h_userinput_starttime :: u32
  h_handranks :: "u32 list"
  h_betstatus :: "i8 list"
  h_actions :: "i8 list"
  h_turnis :: "i8 list"
  h_numactions :: u8
  h_undergun :: nat
  h_community :: "u8 list"
  h_hands :: "u8 list list"

record cards777_pubdata = cards777_handinfo +
  dp_snapshot :: "i64 list"
  dp_maxrake :: u64
  dp_hostrake :: u64
  dp_bigblind :: u64
  dp_ante :: u64
  dp_pangearake :: u64
  dp_summaries :: u64
  dp_mismatches :: u64
  dp_button :: nat
  dp_readymask :: u32
  dp_numhands :: u32
  dp_rakemillis :: u32
  dp_coinstr :: string
  dp_M :: nat
  dp_N :: nat
  dp_numcards :: nat
  dp_newhand :: string
  dp_summary :: "u8 list"

record pangea_info = cards777_pubdata +
  sp_numaddrs :: nat
  sp_balances :: "i64 list"
  sp_isbot :: "u8 list"
  sp_playerpubs :: "bits256 list"
  sp_addrs :: "u64 list"
  sp_active :: "u64 list"
  sp_tableid :: u64
  sp_multisigaddr :: string
  sp_myslot :: int
  sp_myind :: int
  sp_numactive :: nat
  sp_buyinvouts :: "i32 list"
  sp_buyinamounts :: "u64 list"
  sp_buyintxids :: "string list"

record cards777_privdata = pangea_info +
  p_holecards :: "bits256 list"
  p_hole :: "u8 list"
  p_cardis :: "u8 list"
  p_autoshow :: u8
  p_autofold :: u8

text \<open>
  What \<open>pangea_sendcmd\<close> puts on the wire: the command, the destination player (negative for a
  broadcast), the payload and the two integers \<open>cardi\<close> and \<open>turni\<close>. The \<open>newhand\<close> command, which
  is not sent through \<open>pangea_sendcmd\<close>, has the list of active players as well.
\<close>

record pangea_msg =
  m_cmd :: string
  m_dest :: int
  m_data :: "u8 list"
  m_cardi :: int
  m_turni :: int
  m_active :: "u64 list option"

text \<open>A node: the table state, its own slot (\<open>hn->client->H.slot\<close>) and the commands it has sent.\<close>

record pangea_node = cards777_privdata +
  hn_slot :: int
  hn_sent :: "pangea_msg list"

section \<open>Seats\<close>

definition pangea_search :: "'z pangea_info_scheme \<Rightarrow> u64 \<Rightarrow> int" where
  "pangea_search sp nxt64bits = scan (\<lambda>a. a = nxt64bits) (take (sp_numactive sp) (sp_active sp)) 0"

definition pangea_tableaddr :: "'z pangea_info_scheme \<Rightarrow> u64 \<Rightarrow> int" where
  "pangea_tableaddr sp destbits = scan (\<lambda>a. a = destbits) (take (sp_numaddrs sp) (sp_addrs sp)) 0"

definition pangea_slotA :: "'z pangea_info_scheme \<Rightarrow> int" where
  "pangea_slotA sp = 0"

definition pangea_slotB :: "'z pangea_info_scheme \<Rightarrow> int option" where
  "pangea_slotB sp = do { a \<leftarrow> aget (sp_active sp) 1; Some (pangea_search sp a) }"

definition pangea_slot :: "'z pangea_info_scheme \<Rightarrow> int \<Rightarrow> int option" where
  "pangea_slot sp ind = do { a \<leftarrow> aget (sp_active sp) ind; Some (pangea_tableaddr sp a) }"

definition pangea_ind :: "'z pangea_info_scheme \<Rightarrow> int \<Rightarrow> int option" where
  "pangea_ind sp slot = do { a \<leftarrow> aget (sp_addrs sp) slot; Some (pangea_search sp a) }"

definition pangea_lastnode :: "'z pangea_info_scheme \<Rightarrow> int option" where
  "pangea_lastnode sp =
     do { a \<leftarrow> aget (sp_active sp) (int (sp_numactive sp) - 1); Some (pangea_search sp a) }"

definition pangea_nextnode :: "'z pangea_info_scheme \<Rightarrow> int" where
  "pangea_nextnode sp = (if sp_myind sp < int (sp_numactive sp) - 1 then sp_myind sp + 1 else - 1)"

definition pangea_prevnode :: "'z pangea_info_scheme \<Rightarrow> int" where
  "pangea_prevnode sp = (if 0 < sp_myind sp then sp_myind sp - 1 else - 1)"

text \<open>
  \<open>pangea_neworder\<close> with an explicit array of addresses; the null pointer of the C code, which
  stands for the table's own \<open>active\<close> array, is \<open>None\<close>. The result carries the return value.
\<close>

definition pangea_neworder ::
    "'z pangea_info_scheme \<Rightarrow> u64 list option \<Rightarrow> (int \<times> 'z pangea_info_scheme) option" where
  "pangea_neworder sp act =
     do { let (arr, numactive) = (case act of None \<Rightarrow> (sp_active sp, sp_numactive sp)
                                            | Some l \<Rightarrow> (l, length l));
          a0 \<leftarrow> aget arr 0;
          h0 \<leftarrow> aget (sp_addrs sp) 0;
          if a0 \<noteq> h0 then Some (- 1, sp)
          else if length arr < numactive \<or> length (sp_active sp) < numactive then None
          else if \<exists>a \<in> set (drop 1 (take numactive arr)). pangea_tableaddr sp a < 0 then Some (- 1, sp)
          else do {
            let sp1 = sp\<lparr>sp_active := take numactive arr @ drop numactive (sp_active sp),
                         sp_numactive := numactive, dp_N := numactive,
                         dp_M := numactive div 2 + 1\<rparr>;
            ind \<leftarrow> pangea_ind sp1 (sp_myslot sp1);
            Some (int numactive, sp1\<lparr>sp_myind := ind\<rparr>) } }"

definition pangea_inactivate ::
    "'z pangea_info_scheme \<Rightarrow> u64 \<Rightarrow> (int \<times> 'z pangea_info_scheme) option" where
  "pangea_inactivate sp nxt64bits =
     do { let active = filter (\<lambda>a. a \<noteq> nxt64bits) (take (sp_numactive sp) (sp_active sp));
          (_, sp') \<leftarrow> pangea_neworder sp (Some active);
          Some (int (length active), sp') }"

definition pangea_buyins :: "u32 \<Rightarrow> u32 \<Rightarrow> u32 \<times> u32" where
  "pangea_buyins minbuyin maxbuyin =
     (if minbuyin = 0 \<and> maxbuyin = 0 then (100, 1000)
      else let minbuyin = (if minbuyin < 20 then 20 else minbuyin);
               maxbuyin = (if maxbuyin < minbuyin then minbuyin * 4 else maxbuyin);
               maxbuyin = (if maxbuyin > 1000 then 1000 else maxbuyin);
               minbuyin = (if minbuyin > maxbuyin then maxbuyin else minbuyin)
           in (minbuyin, maxbuyin))"

section \<open>Well-formed tables\<close>

definition seats_ok :: "'z pangea_info_scheme \<Rightarrow> bool" where
  "seats_ok sp \<longleftrightarrow> length (sp_addrs sp) = 9 \<and> length (sp_active sp) = 9
     \<and> length (sp_balances sp) = 9
     \<and> sp_numaddrs sp \<le> 9 \<and> 0 < sp_numactive sp \<and> sp_numactive sp \<le> 9
     \<and> dp_N sp = sp_numactive sp
     \<and> distinct (take (sp_numaddrs sp) (sp_addrs sp))
     \<and> distinct (take (sp_numactive sp) (sp_active sp))
     \<and> set (take (sp_numactive sp) (sp_active sp)) \<subseteq> set (take (sp_numaddrs sp) (sp_addrs sp))"

text \<open>A search for the element at a known position of a list without repetitions finds that position.\<close>

lemma scan_eq_distinct:
  assumes "distinct xs" and "k < length xs"
  shows "scan (\<lambda>a. a = xs ! k) xs 0 = int k"
proof -
  obtain l where l: "l < length xs" "scan (\<lambda>a. a = xs ! k) xs 0 = 0 + int l" "xs ! l = xs ! k"
    using scan_found [of "xs ! k" xs "\<lambda>a. a = xs ! k" 0] assms(2) by (metis nth_mem)
  with assms show ?thesis by (simp add: nth_eq_iff_index_eq)
qed

lemma pangea_slot_ok:
  assumes "seats_ok sp" and "i < dp_N sp"
  shows "\<exists>s < sp_numaddrs sp. pangea_slot sp (int i) = Some (int s) \<and> s < 9
    \<and> sp_addrs sp ! s = sp_active sp ! i"
proof -
  have i: "i < length (take (sp_numactive sp) (sp_active sp))"
    using assms by (simp add: seats_ok_def)
  then have "sp_active sp ! i \<in> set (take (sp_numactive sp) (sp_active sp))"
    by (metis i nth_mem nth_take length_take min_less_iff_conj)
  then have "sp_active sp ! i \<in> set (take (sp_numaddrs sp) (sp_addrs sp))"
    using assms by (auto simp: seats_ok_def)
  then obtain s where s: "s < length (take (sp_numaddrs sp) (sp_addrs sp))"
      "take (sp_numaddrs sp) (sp_addrs sp) ! s = sp_active sp ! i"
    by (metis in_set_conv_nth)
  moreover have "distinct (take (sp_numaddrs sp) (sp_addrs sp))"
    using assms by (simp add: seats_ok_def)
  ultimately have "pangea_tableaddr sp (sp_active sp ! i) = int s"
    unfolding pangea_tableaddr_def by (metis scan_eq_distinct)
  moreover have "aget (sp_active sp) (int i) = Some (sp_active sp ! i)"
    using i by (simp add: mem_simps)
  ultimately show ?thesis
    using s assms by (intro exI [of _ s]) (auto simp: pangea_slot_def seats_ok_def)
qed

lemma pangea_ind_ok:
  assumes "seats_ok sp" and "i < dp_N sp" and "s < 9" and "sp_addrs sp ! s = sp_active sp ! i"
  shows "pangea_ind sp (int s) = Some (int i)"
proof -
  let ?xs = "take (sp_numactive sp) (sp_active sp)"
  have i: "i < length ?xs" "?xs ! i = sp_active sp ! i"
    using assms by (simp_all add: seats_ok_def)
  have "pangea_search sp (sp_active sp ! i) = int i"
    unfolding pangea_search_def using scan_eq_distinct [of ?xs i] i assms(1)
    by (simp add: seats_ok_def)
  moreover have "aget (sp_addrs sp) (int s) = Some (sp_active sp ! i)"
    using assms by (simp add: seats_ok_def mem_simps)
  ultimately show ?thesis by (simp add: pangea_ind_def)
qed

text \<open>
  Seats and players are in one-to-one correspondence: on a well-formed table every player
  index has a slot inside the arrays, \<open>pangea_ind\<close> takes that slot back to the player, and
  two players never share a slot.
\<close>

theorem slot_ind_roundtrip:
  assumes "seats_ok sp" and "i < dp_N sp"
  shows "\<exists>s. pangea_slot sp (int i) = Some s \<and> 0 \<le> s \<and> s < int (sp_numaddrs sp)
    \<and> pangea_ind sp s = Some (int i)
    \<and> (\<forall>j < dp_N sp. pangea_slot sp (int j) = Some s \<longrightarrow> j = i)"
proof -
  obtain s where s: "s < sp_numaddrs sp" "pangea_slot sp (int i) = Some (int s)" "s < 9"
      "sp_addrs sp ! s = sp_active sp ! i"
    using pangea_slot_ok [OF assms] by blast
  have ind: "pangea_ind sp (int s) = Some (int i)"
    by (rule pangea_ind_ok [OF assms s(3,4)])
  have "j = i" if j: "j < dp_N sp" "pangea_slot sp (int j) = Some (int s)" for j
  proof -
    obtain t where "pangea_slot sp (int j) = Some (int t)" "sp_addrs sp ! t = sp_active sp ! j" "t < 9"
      using pangea_slot_ok [OF assms(1) j(1)] by blast
    with j have "sp_addrs sp ! s = sp_active sp ! j" by simp
    from pangea_ind_ok [OF assms(1) j(1) s(3) this] ind show ?thesis by simp
  qed
  with s ind show ?thesis by (intro exI [of _ "int s"]) auto
qed

end
