(* ===== verification/PangeaFunds.thy ===== *)
theory PangeaFunds
  imports PangeaTable Hostnet777
begin

text \<open>
  The money of a Pangea table (\<open>plugins/games/pangea/pangeafunds.c\<close>): the hand summary that
  every node appends to, bets, folds and antes, side pots, the rake and the payout.

  Amounts are 64-bit words. The C code mixes \<open>int64_t\<close> and \<open>uint64_t\<close>; a comparison between
  two signed operands is \<open>s_lt\<close> or \<open>s_le\<close>, any other is the unsigned order of words, as C
  converts it. Sums are therefore sums modulo \<open>2 ^ 64\<close>, the arithmetic of the code.
  Output for the console is left out.
\<close>

section \<open>The hand summary\<close>

fun pangea_typestr :: "nat \<Rightarrow> string option" where
  "pangea_typestr t =
     (if t = 255 then Some ''fold'' else if t = 1 then Some ''start'' else if t = 2 then Some ''ante''
      else if t = 3 then Some ''smallblind'' else if t = 4 then Some ''bigblind''
      else if t = 5 then Some ''check'' else if t = 6 then Some ''call'' else if t = 7 then Some ''bet''
      else if t = 8 then Some ''raise'' else if t = 9 then Some ''fullraise''
      else if t = 10 then Some ''sentcards'' else if t = 11 then Some ''allin''
      else if t = 12 then Some ''faceup'' else if t = 13 then Some ''won'' else if t = 14 then Some ''rakes''
      else if t = 15 then Some ''changes'' else if t = 16 then Some ''snapshot'' else None)"

definition SUMMARY_MAX :: nat where "SUMMARY_MAX = 65536"

text \<open>
  An entry of the summary: the type and two arguments. The code then parses the entry and prints a message if it
  differs, and for type 0 it waits for a key; both are left out.
\<close>

definition pangea_summary ::
    "'z pangea_info_scheme \<Rightarrow> int \<Rightarrow> u8 list \<Rightarrow> u8 list \<Rightarrow> 'z pangea_info_scheme option" where
  "pangea_summary dp type arg0 arg1 =
     (let bytes = copybits_loop [word_of_int type] 1 @ copybits_loop arg0 (length arg0)
                  @ copybits_loop arg1 (length arg1)
      in if length (dp_summary dp) + length bytes \<le> SUMMARY_MAX
         then Some (dp\<lparr>dp_summary := dp_summary dp @ bytes\<rparr>) else None)"

text \<open>What \<open>pangea_parsesummary\<close> returns for one item: the type, \<open>valA\<close>, the array \<open>bits64\<close>, the
  card and the new offset; \<open>None\<close> where the C code returns \<open>- 1\<close> or reads past the buffer.\<close>

record summary_item =
  it_type :: u8
  it_valA :: u64
  it_bits64 :: "u8 list"
  it_card :: bits256
  it_len :: nat

definition take_bytes :: "u8 list \<Rightarrow> nat \<Rightarrow> nat \<Rightarrow> u8 list option" where
  "take_bytes summary len n =
     (if len + n \<le> length summary then Some (copybits_loop (drop len summary) n) else None)"

definition summary_size0 :: "u8 \<Rightarrow> nat" where
  "summary_size0 type =
     (if type = word_of_int CARDS777_START \<or> type = word_of_int CARDS777_SNAPSHOT then 4
      else if type = word_of_int CARDS777_CHANGES then 4
      else if type = word_of_int CARDS777_RAKES then 8
      else if type = word_of_int CARDS777_FACEUP then 2 else 1)"

definition summary_valA :: "u8 \<Rightarrow> u8 list \<Rightarrow> u64" where
  "summary_valA type a =
     (if type = word_of_int CARDS777_START \<or> type = word_of_int CARDS777_SNAPSHOT
      then scast (le_val a :: i32) else le_val a)"

definition summary_size1 :: "u8 \<Rightarrow> u64 \<Rightarrow> nat" where
  "summary_size1 type valA =
     (if type = word_of_int CARDS777_FACEUP then 32
      else if type = word_of_int CARDS777_START then 32 * (CARDS777_MAXCARDS + 1)
      else if type = word_of_int CARDS777_SNAPSHOT then 8 * CARDS777_MAXPLAYERS
      else if type = word_of_int CARDS777_CHANGES then 8 * unat (valA AND 0xF) else 8)"

definition pangea_parsesummary :: "u8 list \<Rightarrow> nat \<Rightarrow> summary_item option" where
  "pangea_parsesummary summary len =
     do { t \<leftarrow> take_bytes summary len 1;
          let type = hd t;
          if type = 0 then None
          else do {
            a \<leftarrow> take_bytes summary (len + 1) (summary_size0 type);
            let valA = summary_valA type a;
            b \<leftarrow> take_bytes summary (len + 1 + summary_size0 type) (summary_size1 type valA);
            Some \<lparr>it_type = type, it_valA = valA,
                  it_bits64 = (if type = word_of_int CARDS777_FACEUP then replicate 8 0 else b),
                  it_card = (if type = word_of_int CARDS777_FACEUP then b else replicate 32 0),
                  it_len = len + 1 + summary_size0 type + summary_size1 type valA\<rparr> } }"

section \<open>Bets and folds\<close>

definition pangea_fold :: "'z pangea_info_scheme \<Rightarrow> int \<Rightarrow> 'z pangea_info_scheme option" where
  "pangea_fold dp player =
     do { betstatus \<leftarrow> aput (h_betstatus dp) player (word_of_int CARDS777_FOLD);
          actions \<leftarrow> aput (h_actions dp) player (word_of_int CARDS777_FOLD);
          bet \<leftarrow> aget (h_bets dp) player;
          pangea_summary
            (dp\<lparr>h_handmask := h_handmask dp OR push_bit (nat player) 1,
                h_betstatus := betstatus, h_actions := actions\<rparr>)
            CARDS777_FOLD [word_of_int player] (le_bytes 8 bet) }"

definition pangea_totalbet :: "'z pangea_info_scheme \<Rightarrow> u64" where
  "pangea_totalbet dp = fold (\<lambda>b total. total + b) (take (dp_N dp) (h_bets dp)) 0"

text \<open>The number of players who have not folded, and the first of them (or \<open>- 1\<close>).\<close>

definition pangea_actives :: "'z pangea_info_scheme \<Rightarrow> nat \<times> int" where
  "pangea_actives dp =
     (let st = take (dp_N dp) (h_betstatus dp)
      in (length (filter (\<lambda>s. s \<noteq> word_of_int CARDS777_FOLD) st),
          scan (\<lambda>s. s \<noteq> word_of_int CARDS777_FOLD) st 0))"

text \<open>
  \<open>pangea_bet\<close> in the order of the code: the bet is cut to the player's stack (all-in) or to
  the last raise; it folds if it does not reach the bet size; otherwise the raise is recorded
  and the chips move from the balance to the bets.
\<close>

definition bet_amount ::
    "'z pangea_info_scheme \<Rightarrow> int \<Rightarrow> i64 \<Rightarrow> int \<Rightarrow> (i64 \<times> int \<times> 'z pangea_info_scheme) option" where
  "bet_amount dp player bet action =
     do { (allin, stack) \<leftarrow>
            (if s_lt 0 bet
             then do { slot \<leftarrow> pangea_slot dp player;
                       balance \<leftarrow> aget (sp_balances dp) slot;
                       Some (s_le balance bet, balance) }
             else Some (False, 0));
          if allin
          then do { bs \<leftarrow> aput (h_betstatus dp) player (word_of_int CARDS777_ALLIN);
                    Some (stack, CARDS777_ALLIN, dp\<lparr>h_betstatus := bs\<rparr>) }
          else if s_lt (h_betsize dp) bet \<and> s_lt (h_lastraise dp) bet \<and> s_lt bet (push_bit 1 (h_lastraise dp))
          then Some (h_lastraise dp, CARDS777_RAISE, dp)
          else Some (bet, action, dp) }"

definition bet_raise ::
    "'z pangea_info_scheme \<Rightarrow> int \<Rightarrow> u64 \<Rightarrow> i64 \<Rightarrow> int \<Rightarrow> int \<times> 'z pangea_info_scheme" where
  "bet_raise dp player sumbet bet action =
     (let (action, dp) =
            (if s_le (2 * h_lastraise dp) bet
             then (if action = CARDS777_CHECK then CARDS777_FULLRAISE else action,
                   dp\<lparr>h_lastraise := bet, h_numactions := 0\<rparr>)
             else (action, dp));
          sumbet = sumbet + bet;
          (action, dp) =
            (if sumbet > h_betsize dp
             then let dp = dp\<lparr>h_numactions := 0, h_betsize := sumbet, h_lastbettor := nat player\<rparr>
                  in if sumbet > h_lastraise dp \<and> action = CARDS777_ALLIN
                     then (action, dp\<lparr>h_lastraise := sumbet\<rparr>)
                     else (if action = CARDS777_CHECK then CARDS777_BET else action, dp)
             else (action, dp))
      in (if s_lt 0 bet \<and> action = CARDS777_CHECK then CARDS777_CALL else action, dp))"

definition bet_transfer ::
    "'z pangea_info_scheme \<Rightarrow> int \<Rightarrow> i64 \<Rightarrow> int \<Rightarrow> 'z pangea_info_scheme option" where
  "bet_transfer dp player bet action =
     do { dp \<leftarrow> pangea_summary dp action [word_of_int player] (le_bytes 8 bet);
          slot \<leftarrow> pangea_slot dp player;
          balance \<leftarrow> aget (sp_balances dp) slot;
          balances \<leftarrow> aput (sp_balances dp) slot (balance - bet);
          old \<leftarrow> aget (h_bets dp) slot;
          bets \<leftarrow> aput (h_bets dp) slot (old + bet);
          Some (dp\<lparr>sp_balances := balances, h_bets := bets\<rparr>) }"

definition pangea_bet ::
    "'z pangea_info_scheme \<Rightarrow> int \<Rightarrow> i64 \<Rightarrow> int \<Rightarrow> (int \<times> 'z pangea_info_scheme) option" where
  "pangea_bet dp player bet action =
     (if dp_N dp = 0 then None else
      do { let player = player smod int (dp_N dp);
           status \<leftarrow> aget (h_betstatus dp) player;
           if status = word_of_int CARDS777_ALLIN then Some (CARDS777_ALLIN, dp)
           else if status = word_of_int CARDS777_FOLD then Some (CARDS777_FOLD, dp)
           else do {
             (bet, action, dp) \<leftarrow> bet_amount dp player bet action;
             sumbet \<leftarrow> aget (h_bets dp) player;
             if sumbet + bet < h_betsize dp \<and> action \<noteq> CARDS777_ALLIN
             then do { dp \<leftarrow> pangea_fold dp player; Some (CARDS777_FOLD, dp) }
             else do {
               let (action, dp) = bet_raise dp player sumbet bet action;
               dp \<leftarrow> bet_transfer dp player bet action;
               Some (action, dp) } } })"

section \<open>Antes and blinds\<close>

definition snapshot_bytes :: "u64 list \<Rightarrow> u8 list" where
  "snapshot_bytes xs = concat (map (le_bytes 8) xs)"

definition antes_broke :: "nat \<Rightarrow> 'z pangea_info_scheme \<Rightarrow> 'z pangea_info_scheme option" where
  "antes_broke i dp =
     do { slot \<leftarrow> pangea_slot dp (int i);
          balance \<leftarrow> aget (sp_balances dp) slot;
          if s_le balance 0 then pangea_fold dp (int i) else Some dp }"

definition antes_ante :: "nat \<Rightarrow> 'z pangea_info_scheme \<Rightarrow> 'z pangea_info_scheme option" where
  "antes_ante i dp =
     (if i \<noteq> dp_button dp \<and> i \<noteq> (dp_button dp + 1) mod dp_N dp
      then do { slot \<leftarrow> pangea_slot dp (int i);
                balance \<leftarrow> aget (sp_balances dp) slot;
                if balance < dp_ante dp then pangea_fold dp (int i)
                else do { (_, dp) \<leftarrow> pangea_bet dp (int i) (dp_ante dp) CARDS777_ANTE; Some dp } }
      else Some dp)"

definition antes_active ::
    "nat \<Rightarrow> nat list \<times> 'z pangea_info_scheme \<Rightarrow> (nat list \<times> 'z pangea_info_scheme) option" where
  "antes_active i s =
     (case s of (actives, dp) \<Rightarrow>
      do { let j = (1 + dp_button dp + i) mod dp_N dp;
           let n = length actives;
           let threshold = (if n = 0 then drop_bit 1 (dp_bigblind dp) - 1
                            else if n = 1 then dp_bigblind dp - 1 else 0);
           slot \<leftarrow> pangea_slot dp (int j);
           balance \<leftarrow> aget (sp_balances dp) slot;
           if balance > threshold then Some (actives @ [j], dp)
           else do { dp \<leftarrow> pangea_fold dp (int j); Some (actives, dp) } })"

text \<open>The balances at the start of the hand are stored and written to the summary.\<close>

definition antes_snapshot :: "'z pangea_info_scheme \<Rightarrow> 'z pangea_info_scheme option" where
  "antes_snapshot dp =
     (let n = sp_numaddrs dp
      in if length (sp_balances dp) < n \<or> length (dp_snapshot dp) < n then None
         else let dp = dp\<lparr>dp_snapshot := take n (sp_balances dp) @ drop n (dp_snapshot dp)\<rparr>
              in pangea_summary dp CARDS777_SNAPSHOT (le_bytes 4 (dp_numhands dp - 1))
                   (snapshot_bytes (take n (dp_snapshot dp))))"

definition antes_blinds :: "nat list \<Rightarrow> 'z pangea_info_scheme \<Rightarrow> 'z pangea_info_scheme option" where
  "antes_blinds actives dp =
     (if length actives < 2 then Some dp
      else do {
        (_, dp) \<leftarrow> pangea_bet dp (int (actives ! 0)) (drop_bit 1 (dp_bigblind dp)) CARDS777_SMALLBLIND;
        let dp = dp\<lparr>dp_button := (actives ! 0 + dp_N dp - 1) mod dp_N dp\<rparr>;
        (_, dp) \<leftarrow> pangea_bet dp (int (actives ! 1)) (dp_bigblind dp) CARDS777_BIGBLIND;
        Some dp })"

definition pangea_antes :: "'z pangea_info_scheme \<Rightarrow> 'z pangea_info_scheme option" where
  "pangea_antes dp =
     do { dp \<leftarrow> antes_snapshot dp;
          dp \<leftarrow> ofold antes_broke [0..<dp_N dp] dp;
          dp \<leftarrow> (if dp_ante dp \<noteq> 0 then ofold antes_ante [0..<dp_N dp] dp else Some dp);
          (actives, dp) \<leftarrow> ofold antes_active [0..<dp_N dp] ([], dp);
          antes_blinds actives dp }"

definition txid256 :: "bits256 \<Rightarrow> u64" where
  "txid256 b = le_val (take 8 b)"

definition pangea_checkantes :: "'z pangea_info_scheme \<Rightarrow> 'z pangea_info_scheme option" where
  "pangea_checkantes dp =
     (if length (h_bets dp) < dp_N dp then None
      else if (\<forall>b \<in> set (take (dp_N dp) (h_bets dp)). b = 0) \<and> txid256 (h_checkprod dp) \<noteq> 0
      then pangea_antes dp else Some dp)"

text \<open>
  \<open>pangea_addfunds\<close>: the payload is either an 8-byte amount or JSON; \<open>json\<close> is what the JSON
  library reads from it (amount, txid, multisig address, vout), \<open>None\<close> for a parse error.
\<close>

definition pangea_addfunds ::
    "'z pangea_info_scheme \<Rightarrow> u8 list \<Rightarrow> (u64 \<times> string option \<times> string option \<times> i32) option \<Rightarrow> int
     \<Rightarrow> 'z pangea_info_scheme option" where
  "pangea_addfunds dp data json senderind =
     do { slot \<leftarrow> pangea_slot dp senderind;
          (amount, dp) \<leftarrow>
            (if length data = 8 then Some (le_val data, dp)
             else case json of None \<Rightarrow> Some (0, dp)
                  | Some (amount, txidstr, destaddr, vout) \<Rightarrow>
                      if txidstr \<noteq> None \<and> destaddr \<noteq> None \<and> amount > 0
                         \<and> destaddr = Some (sp_multisigaddr dp)
                      then do { ts \<leftarrow> aput (sp_buyintxids dp) slot (the txidstr);
                                vs \<leftarrow> aput (sp_buyinvouts dp) slot vout;
                                as \<leftarrow> aput (sp_buyinamounts dp) slot amount;
                                Some (amount, dp\<lparr>sp_buyintxids := ts, sp_buyinvouts := vs,
                                                 sp_buyinamounts := as\<rparr>) }
                      else Some (amount, dp));
          balance \<leftarrow> aget (sp_balances dp) slot;
          dp \<leftarrow> (if balance = 0 then do { bs \<leftarrow> aput (sp_balances dp) slot amount;
                                          Some (dp\<lparr>sp_balances := bs\<rparr>) }
                 else Some dp);
          pangea_checkantes dp }"

section \<open>Well-formed tables and their chips\<close>

definition table_ok :: "'z pangea_info_scheme \<Rightarrow> bool" where
  "table_ok dp \<longleftrightarrow> seats_ok dp \<and> length (h_bets dp) = 9 \<and> length (h_betstatus dp) = 9
     \<and> length (h_actions dp) = 9 \<and> length (h_handranks dp) = 9 \<and> length (h_won dp) = 9
     \<and> length (dp_snapshot dp) = 9"

text \<open>All the chips of a table: what the players hold and what they have bet.\<close>

definition chips :: "'z pangea_info_scheme \<Rightarrow> u64" where
  "chips dp = sum_list (sp_balances dp) + sum_list (h_bets dp)"

text \<open>What bets and folds leave alone: the seating and the stakes.\<close>

definition stakes :: "'z pangea_info_scheme \<Rightarrow> nat \<times> nat \<times> u64 list \<times> u64 list \<times> u64 \<times> u64 \<times> nat" where
  "stakes dp = (dp_N dp, sp_numaddrs dp, sp_addrs dp, sp_active dp, dp_bigblind dp, dp_ante dp, dp_button dp)"

text \<open>
  The contract of an operation on a table that may fail: on a well-formed state with room for
  its summary items it succeeds, keeps the state well-formed and the observed value, and
  writes at most \<open>cost\<close> bytes of summary.
\<close>

locale ledger =
  fixes ok :: "'s \<Rightarrow> bool"
    and view :: "'s \<Rightarrow> 'v"
    and used :: "'s \<Rightarrow> nat"
    and cap :: nat
    and valid :: "'a \<Rightarrow> 's \<Rightarrow> bool"
    and step :: "'a \<Rightarrow> 's \<Rightarrow> 's option"
    and cost :: nat
  assumes step_total: "ok s \<Longrightarrow> valid a s \<Longrightarrow> used s + cost \<le> cap \<Longrightarrow>
      \<exists>s'. step a s = Some s' \<and> ok s' \<and> view s' = view s \<and> used s' \<le> used s + cost"
    and valid_view: "ok s \<Longrightarrow> ok s' \<Longrightarrow> view s' = view s \<Longrightarrow> valid a s \<Longrightarrow> valid a s'"
begin

lemma run_total:
  "ok s \<Longrightarrow> \<forall>a \<in> set as. valid a s \<Longrightarrow> used s + cost * length as \<le> cap \<Longrightarrow>
     \<exists>s'. ofold step as s = Some s' \<and> ok s' \<and> view s' = view s \<and> used s' \<le> used s + cost * length as"
proof (induction as arbitrary: s)
  case Nil
  then show ?case by simp
next
  case (Cons a as)
  from Cons.prems have "used s + cost \<le> cap" by simp
  with step_total [of s a] Cons.prems obtain s1 where s1: "step a s = Some s1" "ok s1"
      "view s1 = view s" "used s1 \<le> used s + cost" by auto
  have "\<exists>s'. ofold step as s1 = Some s' \<and> ok s' \<and> view s' = view s1
      \<and> used s' \<le> used s1 + cost * length as"
    using Cons.prems s1 by (intro Cons.IH) (auto intro: valid_view [of s s1])
  then obtain s' where "ofold step as s1 = Some s'" "ok s'" "view s' = view s1"
      "used s' \<le> used s1 + cost * length as" by blast
  with s1 show ?case by auto
qed

end

lemma summary_ok:
  "length (dp_summary dp) + (1 + length a + length b) \<le> SUMMARY_MAX \<Longrightarrow>
     pangea_summary dp type a b =
       Some (dp\<lparr>dp_summary := dp_summary dp @ word_of_int type # a @ b\<rparr>)"
  by (simp add: pangea_summary_def Let_def copybits_loop_eq)

lemma summary_SomeD:
  "pangea_summary dp type a b = Some dp' \<Longrightarrow>
     dp' = dp\<lparr>dp_summary := dp_summary dp @ word_of_int type # a @ b\<rparr>"
  by (auto simp: pangea_summary_def Let_def copybits_loop_eq split: if_splits)

lemma pangea_slot_cong:
  "sp_active dp' = sp_active dp \<Longrightarrow> sp_addrs dp' = sp_addrs dp \<Longrightarrow> sp_numaddrs dp' = sp_numaddrs dp \<Longrightarrow>
     pangea_slot dp' i = pangea_slot dp i"
  by (simp add: pangea_slot_def pangea_tableaddr_def)

lemma table_slot:
  assumes "table_ok dp" and "i < dp_N dp"
  obtains s where "pangea_slot dp (int i) = Some (int s)" and "s < 9" and "s < sp_numaddrs dp"
  using pangea_slot_ok [of dp i] assms by (auto simp: table_ok_def)

lemma table_N: "table_ok dp \<Longrightarrow> 0 < dp_N dp \<and> dp_N dp \<le> 9"
  by (simp add: table_ok_def seats_ok_def)

lemma int_smod_small: "i < n \<Longrightarrow> int i smod int n = int i"
  by (simp add: signed_modulo_int_def sgn_if)

lemma fold_total:
  assumes "table_ok dp" and "i < dp_N dp" and "length (dp_summary dp) + 10 \<le> SUMMARY_MAX"
  shows "\<exists>dp'. pangea_fold dp (int i) = Some dp' \<and> table_ok dp' \<and> chips dp' = chips dp
    \<and> stakes dp' = stakes dp \<and> sp_balances dp' = sp_balances dp \<and> h_bets dp' = h_bets dp
    \<and> h_betstatus dp' = (h_betstatus dp)[i := - 1]
    \<and> length (dp_summary dp') = length (dp_summary dp) + 10"
proof -
  have "i < 9" using assms table_N by fastforce
  then show ?thesis
    using assms unfolding pangea_fold_def
    by (simp add: summary_ok aput_nat aget_nat table_ok_def seats_ok_def chips_def stakes_def cards777_consts)
qed

lemma bet_amount_total:
  assumes "table_ok dp" and "i < dp_N dp"
  shows "\<exists>b a dp'. bet_amount dp (int i) bet action = Some (b, a, dp') \<and> table_ok dp'
    \<and> chips dp' = chips dp \<and> stakes dp' = stakes dp \<and> dp_summary dp' = dp_summary dp
    \<and> h_bets dp' = h_bets dp"
proof -
  obtain s where s: "pangea_slot dp (int i) = Some (int s)" "s < 9"
    using table_slot [OF assms] .
  have "i < 9" using assms table_N by fastforce
  with s assms(1) show ?thesis
    by (simp add: bet_amount_def aget_nat aput_nat table_ok_def seats_ok_def chips_def stakes_def)
qed

lemma bet_raise_frame:
  "bet_raise dp p sumbet bet action = (a, dp') \<Longrightarrow>
     \<exists>l n b q. dp' = dp\<lparr>h_lastraise := l, h_numactions := n, h_betsize := b, h_lastbettor := q\<rparr>"
proof -
  have "\<exists>l n b q. snd (bet_raise dp p sumbet bet action) =
      dp\<lparr>h_lastraise := l, h_numactions := n, h_betsize := b, h_lastbettor := q\<rparr>"
    by (cases dp) (auto simp: bet_raise_def Let_def split: prod.splits if_splits)
  then show "bet_raise dp p sumbet bet action = (a, dp') \<Longrightarrow> ?thesis" by simp
qed

lemma bet_transfer_total:
  assumes "table_ok dp" and "i < dp_N dp" and "length (dp_summary dp) + 10 \<le> SUMMARY_MAX"
  shows "\<exists>dp'. bet_transfer dp (int i) bet action = Some dp' \<and> table_ok dp' \<and> chips dp' = chips dp
    \<and> stakes dp' = stakes dp \<and> length (dp_summary dp') = length (dp_summary dp) + 10"
proof -
  obtain s where s: "pangea_slot dp (int i) = Some (int s)" "s < 9"
    using table_slot [OF assms(1,2)] .
  have "pangea_slot (dp\<lparr>dp_summary := x\<rparr>) (int i) = Some (int s)" for x
    using s(1) by (simp add: pangea_slot_def pangea_tableaddr_def)
  with s(2) assms show ?thesis
    by (simp add: bet_transfer_def summary_ok aget_nat aput_nat table_ok_def seats_ok_def chips_def
        stakes_def total_simps)
qed

lemma bet_total:
  assumes "table_ok dp" and "i < dp_N dp" and "length (dp_summary dp) + 10 \<le> SUMMARY_MAX"
  shows "\<exists>r dp'. pangea_bet dp (int i) bet action = Some (r, dp') \<and> table_ok dp' \<and> chips dp' = chips dp
    \<and> stakes dp' = stakes dp \<and> length (dp_summary dp') \<le> length (dp_summary dp) + 10"
proof -
  have i: "i < 9" and N: "0 < dp_N dp" using assms table_N by fastforce+
  let ?st = "h_betstatus dp ! i"
  have st: "aget (h_betstatus dp) (int i) = Some ?st"
    using i assms(1) by (simp add: aget_nat table_ok_def)
  show ?thesis
  proof (cases "?st = word_of_int CARDS777_ALLIN \<or> ?st = word_of_int CARDS777_FOLD")
    case True
    then show ?thesis
      using N st assms(1)
      by (auto simp: pangea_bet_def int_smod_small [OF assms(2)] Let_def cards777_consts)
  next
    case False
    obtain b a dp1 where a1: "bet_amount dp (int i) bet action = Some (b, a, dp1)" "table_ok dp1"
        "chips dp1 = chips dp" "stakes dp1 = stakes dp" "dp_summary dp1 = dp_summary dp"
      using bet_amount_total [OF assms(1,2)] by metis
    have i1: "i < dp_N dp1" using a1(4) assms(2) by (simp add: stakes_def)
    have room1: "length (dp_summary dp1) + 10 \<le> SUMMARY_MAX" using a1(5) assms(3) by simp
    have sum: "aget (h_bets dp1) (int i) = Some (h_bets dp1 ! i)"
      using i a1(2) by (simp add: aget_nat table_ok_def)
    obtain act dp2 where r: "bet_raise dp1 (int i) (h_bets dp1 ! i) b a = (act, dp2)" by fastforce
    from bet_raise_frame [OF r] a1(2) i1 room1
    have ok2: "table_ok dp2" "i < dp_N dp2" "length (dp_summary dp2) + 10 \<le> SUMMARY_MAX"
        "chips dp2 = chips dp1" "stakes dp2 = stakes dp1" "dp_summary dp2 = dp_summary dp1"
      by (auto simp: table_ok_def seats_ok_def chips_def stakes_def)
    obtain dp3 where t: "bet_transfer dp2 (int i) b act = Some dp3" "table_ok dp3" "chips dp3 = chips dp2"
        "stakes dp3 = stakes dp2" "length (dp_summary dp3) = length (dp_summary dp2) + 10"
      using bet_transfer_total [OF ok2(1,2,3)] by metis
    obtain dpf where f: "pangea_fold dp1 (int i) = Some dpf" "table_ok dpf" "chips dpf = chips dp1"
        "stakes dpf = stakes dp1" "length (dp_summary dpf) = length (dp_summary dp1) + 10"
      using fold_total [OF a1(2) i1 room1] by metis
    show ?thesis
      using False N st a1 sum r t f ok2
      by (simp add: pangea_bet_def int_smod_small [OF assms(2)] Let_def)
  qed
qed

section \<open>Antes and blinds conserve chips\<close>

text \<open>One bet as a step of the ledger: the player, the amount and the kind of action.\<close>

definition bet_step :: "nat \<times> i64 \<times> int \<Rightarrow> 'z pangea_info_scheme \<Rightarrow> 'z pangea_info_scheme option" where
  "bet_step x dp = (case x of (player, bet, action) \<Rightarrow>
     map_option snd (pangea_bet dp (int player) bet action))"

abbreviation chip_view :: "'z pangea_info_scheme \<Rightarrow>
    u64 \<times> nat \<times> nat \<times> u64 list \<times> u64 list \<times> u64 \<times> u64 \<times> nat" where
  "chip_view dp \<equiv> (chips dp, stakes dp)"

abbreviation summary_len :: "'z pangea_info_scheme \<Rightarrow> nat" where
  "summary_len dp \<equiv> length (dp_summary dp)"

lemma valid_stakes: "chip_view s' = chip_view s \<Longrightarrow> i < dp_N s \<Longrightarrow> i < dp_N s'"
  by (simp add: stakes_def)

interpretation bets: ledger table_ok chip_view summary_len SUMMARY_MAX
  "\<lambda>x dp. fst x < dp_N dp" bet_step 10
proof
  fix s :: "'z pangea_info_scheme" and x :: "nat \<times> i64 \<times> int"
  assume "table_ok s" "fst x < dp_N s" "summary_len s + 10 \<le> SUMMARY_MAX"
  from bet_total [OF this, of "fst (snd x)" "snd (snd x)"]
  show "\<exists>s'. bet_step x s = Some s' \<and> table_ok s' \<and> chip_view s' = chip_view s
      \<and> summary_len s' \<le> summary_len s + 10"
    by (auto simp: bet_step_def split: prod.splits)
qed (simp add: stakes_def)

interpretation broke: ledger table_ok chip_view summary_len SUMMARY_MAX
  "\<lambda>i dp. i < dp_N dp" antes_broke 10
proof
  fix s :: "'z pangea_info_scheme" and i :: nat
  assume a: "table_ok s" "i < dp_N s" "summary_len s + 10 \<le> SUMMARY_MAX"
  obtain k where k: "pangea_slot s (int i) = Some (int k)" "k < 9"
    using table_slot [OF a(1,2)] .
  then have "aget (sp_balances s) (int k) = Some (sp_balances s ! k)"
    using a(1) by (simp add: aget_nat table_ok_def seats_ok_def)
  with k a fold_total [OF a] show "\<exists>s'. antes_broke i s = Some s' \<and> table_ok s'
      \<and> chip_view s' = chip_view s \<and> summary_len s' \<le> summary_len s + 10"
    by (auto simp: antes_broke_def)
qed (simp add: stakes_def)

interpretation ante: ledger table_ok chip_view summary_len SUMMARY_MAX
  "\<lambda>i dp. i < dp_N dp" antes_ante 10
proof
  fix s :: "'z pangea_info_scheme" and i :: nat
  assume a: "table_ok s" "i < dp_N s" "summary_len s + 10 \<le> SUMMARY_MAX"
  obtain k where k: "pangea_slot s (int i) = Some (int k)" "k < 9"
    using table_slot [OF a(1,2)] .
  then have "aget (sp_balances s) (int k) = Some (sp_balances s ! k)"
    using a(1) by (simp add: aget_nat table_ok_def seats_ok_def)
  with k a fold_total [OF a] bet_total [OF a, of "dp_ante s" CARDS777_ANTE]
  show "\<exists>s'. antes_ante i s = Some s' \<and> table_ok s'
      \<and> chip_view s' = chip_view s \<and> summary_len s' \<le> summary_len s + 10"
    by (auto simp: antes_ante_def)
qed (simp add: stakes_def)

definition actives_ok :: "nat list \<times> 'z pangea_info_scheme \<Rightarrow> bool" where
  "actives_ok s \<longleftrightarrow> table_ok (snd s) \<and> (\<forall>a \<in> set (fst s). a < dp_N (snd s))"

interpretation active: ledger actives_ok "\<lambda>s. chip_view (snd s)" "\<lambda>s. summary_len (snd s)" SUMMARY_MAX
  "\<lambda>i s. True" antes_active 10
proof
  fix s :: "nat list \<times> 'z pangea_info_scheme" and i :: nat
  obtain acts dp where s: "s = (acts, dp)" by (cases s)
  assume "actives_ok s" "summary_len (snd s) + 10 \<le> SUMMARY_MAX"
  then have a: "table_ok dp" "\<forall>a \<in> set acts. a < dp_N dp" "summary_len dp + 10 \<le> SUMMARY_MAX"
    by (simp_all add: actives_ok_def s)
  let ?j = "(1 + dp_button dp + i) mod dp_N dp"
  have j: "?j < dp_N dp" using table_N [OF a(1)] by simp
  obtain k where k: "pangea_slot dp (int ?j) = Some (int k)" "k < 9"
    using table_slot [OF a(1) j] .
  have b: "aget (sp_balances dp) (int k) = Some (sp_balances dp ! k)"
    using k(2) a(1) by (simp add: aget_nat table_ok_def seats_ok_def)
  from fold_total [OF a(1) j a(3)] obtain dpf where f: "pangea_fold dp (int ?j) = Some dpf"
      "table_ok dpf" "chip_view dpf = chip_view dp" "summary_len dpf = summary_len dp + 10" by auto
  have N: "dp_N dpf = dp_N dp" using f(3) by (simp add: stakes_def)
  have "\<exists>s'. antes_active i (acts, dp) = Some s' \<and> actives_ok s' \<and> chip_view (snd s') = chip_view dp
      \<and> summary_len (snd s') \<le> summary_len dp + 10"
    unfolding antes_active_def split_conv Let_def
    using a j k(1) b f N by (simp add: actives_ok_def)
  then show "\<exists>s'. antes_active i s = Some s' \<and> actives_ok s' \<and> chip_view (snd s') = chip_view (snd s)
      \<and> summary_len (snd s') \<le> summary_len (snd s) + 10"
    by (simp add: s)
qed simp

lemma length_snapshot_bytes: "length (snapshot_bytes xs) = 8 * length xs"
  by (induction xs) (auto simp: snapshot_bytes_def)

lemma antes_snapshot_total:
  assumes "table_ok dp" and "summary_len dp + 77 \<le> SUMMARY_MAX"
  shows "\<exists>dp'. antes_snapshot dp = Some dp' \<and> table_ok dp' \<and> chip_view dp' = chip_view dp
    \<and> summary_len dp' \<le> summary_len dp + 77"
proof -
  have "sp_numaddrs dp \<le> 9" "length (sp_balances dp) = 9" "length (dp_snapshot dp) = 9"
    using assms(1) by (simp_all add: table_ok_def seats_ok_def)
  with assms show ?thesis
    by (simp add: antes_snapshot_def Let_def summary_ok length_snapshot_bytes table_ok_def seats_ok_def
        chips_def stakes_def)
qed

text \<open>The players' part of a view, which moving the button does not change.\<close>

definition players :: "'z pangea_info_scheme \<Rightarrow> nat \<times> u64 list \<times> u64 list" where
  "players dp = (dp_N dp, sp_active dp, sp_addrs dp)"

lemma players_view: "chip_view dp' = chip_view dp \<Longrightarrow> chips dp' = chips dp \<and> players dp' = players dp"
  by (simp add: stakes_def players_def)

lemma antes_blinds_total:
  assumes "table_ok dp" and "\<forall>a \<in> set acts. a < dp_N dp" and "summary_len dp + 20 \<le> SUMMARY_MAX"
  shows "\<exists>dp'. antes_blinds acts dp = Some dp' \<and> table_ok dp' \<and> chips dp' = chips dp
    \<and> players dp' = players dp \<and> summary_len dp' \<le> summary_len dp + 20"
proof (cases "length acts < 2")
  case True
  then show ?thesis using assms by (simp add: antes_blinds_def)
next
  case False
  then have l: "0 < length acts" "1 < length acts" by linarith+
  have a: "acts ! 0 < dp_N dp" "acts ! 1 < dp_N dp"
    using assms(2) nth_mem [OF l(1)] nth_mem [OF l(2)] by blast+
  obtain r dp1 where 1: "pangea_bet dp (int (acts ! 0)) (drop_bit 1 (dp_bigblind dp)) CARDS777_SMALLBLIND
      = Some (r, dp1)" "table_ok dp1" "chip_view dp1 = chip_view dp" "summary_len dp1 \<le> summary_len dp + 10"
    using bet_total [OF assms(1) a(1), of "drop_bit 1 (dp_bigblind dp)" CARDS777_SMALLBLIND] assms(3)
    by auto
  let ?dp = "dp1\<lparr>dp_button := (acts ! 0 + dp_N dp1 - 1) mod dp_N dp1\<rparr>"
  have ok: "table_ok ?dp" and room: "summary_len ?dp + 10 \<le> SUMMARY_MAX" and N: "acts ! 1 < dp_N ?dp"
    and c: "chips ?dp = chips dp" "players ?dp = players dp"
    using 1 a assms by (simp_all add: table_ok_def seats_ok_def stakes_def chips_def players_def)
  obtain r2 dp2 where 2: "pangea_bet ?dp (int (acts ! 1)) (dp_bigblind ?dp) CARDS777_BIGBLIND = Some (r2, dp2)"
      "table_ok dp2" "chip_view dp2 = chip_view ?dp" "summary_len dp2 \<le> summary_len ?dp + 10"
    using bet_total [OF ok N room] by metis
  have "antes_blinds acts dp = Some dp2"
    using False 1(1) 2(1) by (simp add: antes_blinds_def Let_def)
  moreover have "chips dp2 = chips dp" "players dp2 = players dp"
    using players_view [OF 2(3)] c by simp_all
  ultimately show ?thesis using 1 2 by simp
qed

lemma antes_players_total:
  assumes "table_ok dp" and "summary_len dp + 270 \<le> SUMMARY_MAX"
  shows "\<exists>acts dp'. do { dp \<leftarrow> ofold antes_broke [0..<dp_N dp] dp;
          dp \<leftarrow> (if dp_ante dp \<noteq> 0 then ofold antes_ante [0..<dp_N dp] dp else Some dp);
          ofold antes_active [0..<dp_N dp] ([], dp) } = Some (acts, dp')
    \<and> table_ok dp' \<and> (\<forall>a \<in> set acts. a < dp_N dp') \<and> chip_view dp' = chip_view dp
    \<and> summary_len dp' \<le> summary_len dp + 270"
proof -
  have N: "dp_N dp \<le> 9" using table_N [OF assms(1)] by simp
  obtain dp2 where 2: "ofold antes_broke [0..<dp_N dp] dp = Some dp2" "table_ok dp2"
      "chip_view dp2 = chip_view dp" "summary_len dp2 \<le> summary_len dp + 90"
    using broke.run_total [OF assms(1), of "[0..<dp_N dp]"] N assms(2) by fastforce
  have N2: "dp_N dp2 \<le> 9" using N 2(3) by (simp add: stakes_def)
  have "\<exists>s. ofold antes_ante [0..<dp_N dp2] dp2 = Some s \<and> table_ok s
      \<and> chip_view s = chip_view dp2 \<and> summary_len s \<le> summary_len dp2 + 10 * length [0..<dp_N dp2]"
    by (rule ante.run_total [OF 2(2)]) (use 2(4) N2 assms(2) in auto)
  then obtain s where "ofold antes_ante [0..<dp_N dp2] dp2 = Some s" "table_ok s"
      "chip_view s = chip_view dp2" "summary_len s \<le> summary_len dp2 + 90" using N2 by fastforce
  then obtain dp3 where 3: "(if dp_ante dp2 \<noteq> 0 then ofold antes_ante [0..<dp_N dp2] dp2 else Some dp2) = Some dp3"
      "table_ok dp3" "chip_view dp3 = chip_view dp2" "summary_len dp3 \<le> summary_len dp2 + 90"
    using 2(2) by (cases "dp_ante dp2 = 0") auto
  have N3: "dp_N dp3 \<le> 9" using N2 3(3) by (simp add: stakes_def)
  let ?s0 = "([] :: nat list, dp3)"
  have "\<exists>s'. ofold antes_active [0..<dp_N dp3] ?s0 = Some s' \<and> actives_ok s'
      \<and> chip_view (snd s') = chip_view (snd ?s0)
      \<and> summary_len (snd s') \<le> summary_len (snd ?s0) + 10 * length [0..<dp_N dp3]"
    by (rule active.run_total) (use 3 2(4) N3 assms(2) in \<open>auto simp: actives_ok_def\<close>)
  then obtain acts dp4 where 4: "ofold antes_active [0..<dp_N dp3] ([], dp3) = Some (acts, dp4)"
      "table_ok dp4" "\<forall>a \<in> set acts. a < dp_N dp4" "chip_view dp4 = chip_view dp3"
      "summary_len dp4 \<le> summary_len dp3 + 90"
    using N3 by (auto simp: actives_ok_def)
  have "chip_view dp4 = chip_view dp" by (simp only: 4(4) 3(3) 2(3))
  moreover have "summary_len dp4 \<le> summary_len dp + 270" using 4(5) 3(4) 2(4) by linarith
  ultimately show ?thesis
    using 4(2,3) by (intro exI [of _ acts] exI [of _ dp4]) (simp only: 2(1) 3(1) 4(1) bind.bind_lunit simp_thms)
qed

lemma antes_total:
  assumes "table_ok dp" and "summary_len dp + 400 \<le> SUMMARY_MAX"
  shows "\<exists>dp'. pangea_antes dp = Some dp' \<and> table_ok dp' \<and> chips dp' = chips dp
    \<and> players dp' = players dp \<and> summary_len dp' \<le> summary_len dp + 400"
proof -
  have "summary_len dp + 77 \<le> SUMMARY_MAX" using assms(2) by simp
  from antes_snapshot_total [OF assms(1) this] obtain dp1 where 1: "antes_snapshot dp = Some dp1"
      "table_ok dp1" "chip_view dp1 = chip_view dp" "summary_len dp1 \<le> summary_len dp + 77" by blast
  then have "summary_len dp1 + 270 \<le> SUMMARY_MAX" using assms(2) by simp
  from antes_players_total [OF 1(2) this] obtain acts dp2 where 2: "do {
          dp \<leftarrow> ofold antes_broke [0..<dp_N dp1] dp1;
          dp \<leftarrow> (if dp_ante dp \<noteq> 0 then ofold antes_ante [0..<dp_N dp] dp else Some dp);
          ofold antes_active [0..<dp_N dp] ([], dp) } = Some (acts, dp2)" "table_ok dp2"
      "\<forall>a \<in> set acts. a < dp_N dp2" "chip_view dp2 = chip_view dp1"
      "summary_len dp2 \<le> summary_len dp1 + 270" by blast
  then have "summary_len dp2 + 20 \<le> SUMMARY_MAX" using 1(4) assms(2) by simp
  from antes_blinds_total [OF 2(2,3) this] obtain dp3 where 3: "antes_blinds acts dp2 = Some dp3"
      "table_ok dp3" "chips dp3 = chips dp2" "players dp3 = players dp2"
      "summary_len dp3 \<le> summary_len dp2 + 20" by blast
  have "pangea_antes dp = Some dp3"
    using 1(1) 2(1) 3(1) unfolding pangea_antes_def by (auto elim!: bind_SomeE)
  moreover have "chips dp3 = chips dp" "players dp3 = players dp"
    using 3(3,4) players_view [OF 2(4)] players_view [OF 1(3)] by simp_all
  moreover have "summary_len dp3 \<le> summary_len dp + 400" using 3(5) 2(5) 1(4) by linarith
  ultimately show ?thesis using 3(2) by blast
qed

section \<open>Example table\<close>

text \<open>
  A three-handed table for the witnesses: slots 0 to 2 hold the addresses 100, 200 and 300.
  \<open>demo_table bal act\<close> has the given balances and active addresses.
\<close>

definition demo_table :: "i64 list \<Rightarrow> u64 list \<Rightarrow> pangea_node" where
  "demo_table bal act = \<lparr>
     h_checkprod = replicate 32 1, h_cardpubs = [], h_final = [], h_community256 = replicate 5 [],
     h_cards = replicate 9 [], h_othercardpubs = replicate 9 0, h_havemasks = replicate 9 0,
     h_betsize = 0, h_hostrake = 0, h_pangearake = 0, h_lastraise = 0, h_bets = replicate 9 0,
     h_snapshot = replicate 10 0, h_won = replicate 9 0, h_handmask = 0, h_lastbettor = 0,
     h_startdecktime = 0, h_betstarted = 1, h_finished = 0, h_encodestarted = 0, h_cardi = 6,
     h_userinput_starttime = 0, h_handranks = replicate 9 0, h_betstatus = replicate 9 0,
     h_actions = replicate 9 0, h_turnis = replicate 9 0, h_numactions = 0, h_undergun = 0,
     h_community = replicate 5 255, h_hands = replicate 9 (replicate 7 255),
     dp_snapshot = replicate 9 0, dp_maxrake = 0, dp_hostrake = 0, dp_bigblind = 10, dp_ante = 0,
     dp_pangearake = 0, dp_summaries = 0, dp_mismatches = 0, dp_button = 0, dp_readymask = 0,
     dp_numhands = 1, dp_rakemillis = 10, dp_coinstr = ''NXT'', dp_M = 2, dp_N = length act,
     dp_numcards = 52, dp_newhand = [], dp_summary = [],
     sp_numaddrs = 3, sp_balances = bal @ replicate (9 - length bal) 0, sp_isbot = replicate 9 0,
     sp_playerpubs = replicate 9 [], sp_addrs = [100, 200, 300, 0, 0, 0, 0, 0, 0],
     sp_active = act @ replicate (9 - length act) 0, sp_tableid = 7, sp_multisigaddr = ''addr'',
     sp_myslot = 0, sp_myind = 0, sp_numactive = length act, sp_buyinvouts = replicate 9 0,
     sp_buyinamounts = replicate 9 0, sp_buyintxids = replicate 9 [],
     p_holecards = replicate 2 [], p_hole = [255, 255], p_cardis = [255, 255], p_autoshow = 0,
     p_autofold = 0, hn_slot = 0, hn_sent = []\<rparr>"

lemma demo_table_ok:
  assumes "length bal \<le> 9" and "length act \<le> 9" and "act \<noteq> []" and "distinct act" and "set act \<subseteq> {100, 200, 300}"
  shows "table_ok (demo_table bal act)"
  using assms by (auto simp: table_ok_def seats_ok_def demo_table_def)

lemma demo_table_simps [simp]:
  "chips (demo_table bal act) = sum_list bal" "dp_summary (demo_table bal act) = []"
  "dp_N (demo_table bal act) = length act"
  by (simp_all add: chips_def demo_table_def sum_list_replicate)

section \<open>Properties\<close>

theorem slot_ind_roundtrip_witness:
  "\<exists>s. pangea_slot (demo_table [100, 200, 300] [100, 300]) (int 1) = Some s
    \<and> pangea_ind (demo_table [100, 200, 300] [100, 300]) s = Some (int 1)"
proof -
  have "seats_ok (demo_table [100, 200, 300] [100, 300])"
    using demo_table_ok [of "[100, 200, 300]" "[100, 300]"] by (simp add: table_ok_def)
  from slot_ind_roundtrip [OF this, of 1] show ?thesis by auto
qed

text \<open>
  C4. Conservation of chips while betting: on a well-formed table with room in the summary,
  every sequence of bets, by any players, of any amounts (also negative or larger than the
  stack) and of any kind, runs without leaving an array, keeps the table well-formed, and
  keeps the sum of all balances and all bets. Each bet writes at most 10 summary bytes.
\<close>

theorem bets_conserve_chips:
  fixes dp :: "'z pangea_info_scheme"
  assumes "table_ok dp" and "\<forall>b \<in> set bs. fst b < dp_N dp"
    and "length (dp_summary dp) + 10 * length bs \<le> SUMMARY_MAX"
  shows "\<exists>dp'. ofold bet_step bs dp = Some dp' \<and> table_ok dp' \<and> chips dp' = chips dp
    \<and> dp_N dp' = dp_N dp \<and> length (dp_summary dp') \<le> length (dp_summary dp) + 10 * length bs"
proof -
  obtain dp' where d: "ofold bet_step bs dp = Some dp'" "table_ok dp'" "chip_view dp' = chip_view dp"
      "summary_len dp' \<le> summary_len dp + 10 * length bs"
    using bets.run_total [OF assms] by blast
  then have "chips dp' = chips dp" "dp_N dp' = dp_N dp" by (simp_all add: stakes_def)
  with d show ?thesis by blast
qed

theorem bets_conserve_chips_witness:
  "\<exists>dp'. ofold bet_step [(0, 20, CARDS777_CHECK), (1, 500, CARDS777_CHECK), (2, - 5, CARDS777_CHECK)]
       (demo_table [100, 200, 300] [100, 200, 300]) = Some dp' \<and> chips dp' = 600"
proof -
  let ?t = "demo_table [100, 200, 300] [100, 200, 300]"
  have "table_ok ?t" by (rule demo_table_ok) simp_all
  from bets_conserve_chips [OF this, of "[(0, 20, CARDS777_CHECK), (1, 500, CARDS777_CHECK), (2, - 5, CARDS777_CHECK)]"]
  obtain dp' where "ofold bet_step [(0, 20, CARDS777_CHECK), (1, 500, CARDS777_CHECK), (2, - 5, CARDS777_CHECK)] ?t
      = Some dp'" "chips dp' = chips ?t"
    by (auto simp: SUMMARY_MAX_def)
  then show ?thesis by simp
qed

text \<open>
  The start of a hand conserves chips: on a well-formed table \<open>pangea_antes\<close> (snapshot,
  folding players without funds, antes and both blinds) always completes, keeps the players
  and the chips, and writes at most 400 bytes of summary.
\<close>

theorem antes_conserve_chips:
  assumes "table_ok dp" and "length (dp_summary dp) + 400 \<le> SUMMARY_MAX"
  shows "\<exists>dp'. pangea_antes dp = Some dp' \<and> table_ok dp' \<and> chips dp' = chips dp
    \<and> dp_N dp' = dp_N dp \<and> sp_active dp' = sp_active dp
    \<and> length (dp_summary dp') \<le> length (dp_summary dp) + 400"
  using antes_total [OF assms] by (auto simp: players_def)

theorem antes_conserve_chips_witness:
  "\<exists>dp'. pangea_antes (demo_table [100, 200, 0] [100, 200, 300]) = Some dp' \<and> chips dp' = 300"
proof -
  let ?t = "demo_table [100, 200, 0] [100, 200, 300]"
  have "table_ok ?t" by (rule demo_table_ok) simp_all
  from antes_conserve_chips [OF this] have "\<exists>dp'. pangea_antes ?t = Some dp' \<and> chips dp' = chips ?t"
    by (auto simp: SUMMARY_MAX_def)
  then show ?thesis by simp
qed

lemma negative_not_below:
  "s_lt bet 0 \<Longrightarrow> s_le 0 betsize \<Longrightarrow> \<not> (bet :: i64) < betsize"
  using uint_bounded [of bet] uint_bounded [of betsize]
  by (auto simp: s_lt_def s_le_def word_less_def sint_word64 split: if_splits)

lemma bet_transfer_effect:
  assumes "table_ok dp" and "pangea_slot dp (int i) = Some (int s)" and "s < 9"
    and "length (dp_summary dp) + 10 \<le> SUMMARY_MAX"
  shows "\<exists>dp'. bet_transfer dp (int i) bet action = Some dp'
    \<and> sp_balances dp' = (sp_balances dp)[s := sp_balances dp ! s - bet]
    \<and> h_bets dp' = (h_bets dp)[s := h_bets dp ! s + bet]"
proof -
  have "pangea_slot (dp\<lparr>dp_summary := x\<rparr>) (int i) = Some (int s)" for x
    using assms(2) by (simp add: pangea_slot_def pangea_tableaddr_def)
  with assms show ?thesis
    by (simp add: bet_transfer_def summary_ok aget_nat aput_nat table_ok_def seats_ok_def)
qed

text \<open>
  Nothing checks the sign of a bet (the amount arrives as an unsigned number from the
  network and is passed on as \<open>int64_t\<close>): a player in the hand who has not bet yet and
  announces a negative amount is neither refused nor folded. The amount is booked: the
  player's balance grows by it, the pot owes it, and every other seat is unchanged.
\<close>

theorem negative_bet_pays_the_player:
  assumes "table_ok dp" and "i < dp_N dp" and "pangea_slot dp (int i) = Some (int s)"
    and "length (dp_summary dp) + 10 \<le> SUMMARY_MAX"
    and "h_betstatus dp ! i \<noteq> word_of_int CARDS777_ALLIN" and "h_betstatus dp ! i \<noteq> word_of_int CARDS777_FOLD"
    and "h_bets dp ! i = 0" and "s_lt bet 0" and "s_le 0 (h_betsize dp)"
  shows "\<exists>r dp'. pangea_bet dp (int i) bet action = Some (r, dp')
    \<and> sp_balances dp' = (sp_balances dp)[s := sp_balances dp ! s - bet]
    \<and> h_bets dp' = (h_bets dp)[s := h_bets dp ! s + bet]"
proof -
  have i: "i < 9" and N: "0 < dp_N dp" using assms(1,2) table_N by fastforce+
  have s: "s < 9" using table_slot [OF assms(1,2)] assms(3) by force
  have st: "aget (h_betstatus dp) (int i) = Some (h_betstatus dp ! i)"
    and sum: "aget (h_bets dp) (int i) = Some 0"
    using i assms(1,7) by (simp_all add: aget_nat table_ok_def)
  have "\<not> s_lt 0 bet" "\<not> s_lt (h_betsize dp) bet"
    using assms(8,9) by (simp_all add: s_lt_def s_le_def)
  then have amt: "bet_amount dp (int i) bet action = Some (bet, action, dp)"
    by (simp add: bet_amount_def)
  obtain act dp2 where r: "bet_raise dp (int i) 0 bet action = (act, dp2)" by fastforce
  from bet_raise_frame [OF r] have fr: "sp_balances dp2 = sp_balances dp" "h_bets dp2 = h_bets dp"
      "dp_summary dp2 = dp_summary dp" "pangea_slot dp2 (int i) = Some (int s)" "table_ok dp2"
    using assms(1,3) by (auto simp: pangea_slot_def pangea_tableaddr_def table_ok_def seats_ok_def)
  from bet_transfer_effect [OF fr(5,4) s, of bet act] assms(4) fr
  obtain dp3 where "bet_transfer dp2 (int i) bet act = Some dp3"
      "sp_balances dp3 = (sp_balances dp)[s := sp_balances dp ! s - bet]"
      "h_bets dp3 = (h_bets dp)[s := h_bets dp ! s + bet]" by auto
  with N st sum amt r assms(5,6) negative_not_below [OF assms(8,9)] show ?thesis
    by (simp add: pangea_bet_def int_smod_small [OF assms(2)] Let_def)
qed

theorem negative_bet_pays_the_player_witness:
  "\<exists>r dp'. pangea_bet (demo_table [100, 200, 300] [100, 200, 300]) (int 2) (- 5) CARDS777_CHECK = Some (r, dp')
    \<and> sp_balances dp' ! 2 = 305"
proof -
  let ?t = "demo_table [100, 200, 300] [100, 200, 300]"
  have ok: "table_ok ?t" by (rule demo_table_ok) simp_all
  have slot: "pangea_slot ?t (int 2) = Some (int 2)"
    by (simp add: pangea_slot_def pangea_tableaddr_def demo_table_def aget_def numeral_3_eq_3)
  have "h_betstatus ?t ! 2 = 0" "h_bets ?t ! 2 = 0" "h_betsize ?t = 0"
      "sp_balances ?t = [100, 200, 300] @ replicate 6 0"
    by (simp_all add: demo_table_def)
  moreover from this negative_bet_pays_the_player [OF ok _ slot, of "- 5" CARDS777_CHECK]
  obtain r dp' where "pangea_bet ?t (int 2) (- 5) CARDS777_CHECK = Some (r, dp')"
      "sp_balances dp' = (sp_balances ?t)[2 := sp_balances ?t ! 2 - (- 5)]"
    by (auto simp: SUMMARY_MAX_def cards777_consts s_lt_def s_le_def)
  ultimately show ?thesis by simp
qed

text \<open>
  Bets are read and written under different numbers: \<open>pangea_bet\<close> compares the bet of the
  player index with the bet size but adds the new bet under the slot. When the player and its
  slot differ, as after a player before it left, no bet is ever booked under the player's own
  number: \<open>bets[i]\<close> is the same after the bet, whatever its amount and kind.
\<close>

theorem bet_booked_under_slot:
  assumes "table_ok dp" and "i < dp_N dp" and "pangea_slot dp (int i) = Some (int s)" and "s \<noteq> i"
    and "length (dp_summary dp) + 10 \<le> SUMMARY_MAX"
  shows "\<exists>r dp'. pangea_bet dp (int i) bet action = Some (r, dp') \<and> h_bets dp' ! i = h_bets dp ! i"
proof (cases "h_betstatus dp ! i = word_of_int CARDS777_ALLIN \<or> h_betstatus dp ! i = word_of_int CARDS777_FOLD")
  case True
  then show ?thesis
    using table_N [OF assms(1)] assms(1,2)
    by (auto simp: pangea_bet_def int_smod_small [OF assms(2)] Let_def cards777_consts aget_nat table_ok_def)
next
  case False
  have i: "i < 9" and N: "0 < dp_N dp" using assms(1,2) table_N by fastforce+
  have s: "s < 9" using table_slot [OF assms(1,2)] assms(3) by force
  have st: "aget (h_betstatus dp) (int i) = Some (h_betstatus dp ! i)"
    using i assms(1) by (simp add: aget_nat table_ok_def)
  obtain b a dp1 where a1: "bet_amount dp (int i) bet action = Some (b, a, dp1)" "table_ok dp1"
      "stakes dp1 = stakes dp" "dp_summary dp1 = dp_summary dp" "h_bets dp1 = h_bets dp"
    using bet_amount_total [OF assms(1,2)] by metis
  then have 1: "i < dp_N dp1" "length (dp_summary dp1) + 10 \<le> SUMMARY_MAX"
      "pangea_slot dp1 (int i) = Some (int s)"
    using assms(2,3,5) pangea_slot_cong [of dp1 dp] by (simp_all add: stakes_def)
  have sum: "aget (h_bets dp1) (int i) = Some (h_bets dp1 ! i)"
    using i a1(2) by (simp add: aget_nat table_ok_def)
  obtain act dp2 where r: "bet_raise dp1 (int i) (h_bets dp1 ! i) b a = (act, dp2)" by fastforce
  from bet_raise_frame [OF r] have fr: "h_bets dp2 = h_bets dp1" "dp_summary dp2 = dp_summary dp1"
      "pangea_slot dp2 (int i) = Some (int s)" "table_ok dp2"
    using a1(2) 1(3) by (auto simp: pangea_slot_def pangea_tableaddr_def table_ok_def seats_ok_def)
  from bet_transfer_effect [OF fr(4,3) s, of b act] 1(2) fr
  obtain dp3 where "bet_transfer dp2 (int i) b act = Some dp3" "h_bets dp3 = (h_bets dp2)[s := h_bets dp2 ! s + b]"
    by auto
  with fold_total [OF a1(2) 1(1,2)] False N st a1 sum r fr assms(4) show ?thesis
    by (auto simp: pangea_bet_def int_smod_small [OF assms(2)] Let_def)
qed

theorem bet_booked_under_slot_witness:
  "\<exists>r dp'. pangea_bet (demo_table [100, 200, 300] [100, 300]) (int 1) 20 CARDS777_CHECK = Some (r, dp')
    \<and> h_bets dp' ! 1 = 0"
proof -
  let ?t = "demo_table [100, 200, 300] [100, 300]"
  have ok: "table_ok ?t" by (rule demo_table_ok) simp_all
  have slot: "pangea_slot ?t (int 1) = Some (int 2)"
    by (simp add: pangea_slot_def pangea_tableaddr_def demo_table_def aget_def numeral_3_eq_3)
  have "h_bets ?t ! 1 = 0" by (simp add: demo_table_def)
  with bet_booked_under_slot [OF ok _ slot, of 20 CARDS777_CHECK] show ?thesis
    by (auto simp: SUMMARY_MAX_def)
qed

end
