(* ===== verification/PangeaPots.thy ===== *)
theory PangeaPots
  imports PangeaFunds
begin

text \<open>
  Side pots, rake and payout (\<open>pangea_winnings\<close>, \<open>pangea_sidepots\<close>, \<open>pangea_splitpot\<close> of
  \<open>plugins/games/pangea/pangeafunds.c\<close>).
\<close>

section \<open>Rake and payout\<close>

definition SATOSHIDEN :: u64 where "SATOSHIDEN = 100000000"
definition PANGEA_MINRAKE_MILLIS :: int where "PANGEA_MINRAKE_MILLIS = 5"
definition PANGEA_BTCMAXRAKE :: u64 where "PANGEA_BTCMAXRAKE = SATOSHIDEN div 100"
definition PANGEA_MAXRAKE :: u64 where "PANGEA_MAXRAKE = 3 * SATOSHIDEN"

text \<open>
  The split for each winner, the Pangea rake and the host rake. There are at most 9 winners, so that \<open>1000 * numwinners\<close>
  is the same in the 32 bits of the code and in 64.
\<close>

definition pangea_winnings :: "u64 \<Rightarrow> nat \<Rightarrow> int \<Rightarrow> u64 \<Rightarrow> u64 \<times> u64 \<times> u64" where
  "pangea_winnings tot numwinners rakemillis maxrake =
     (let w = word_of_nat numwinners;
          (split, pangearake) =
            (if numwinners > 0
             then let split = (tot * word_of_int (1000 - rakemillis)) div (1000 * w);
                      pangearake = tot - split * w
                  in if pangearake > maxrake
                     then let split = (tot - maxrake) div w in (split, tot - split * w)
                     else (split, pangearake)
             else (0, tot));
          rake = (if rakemillis > PANGEA_MINRAKE_MILLIS
                  then (pangearake * word_of_int (rakemillis - PANGEA_MINRAKE_MILLIS))
                         div word_of_int rakemillis
                  else 0)
      in (split, pangearake - rake, rake))"

definition folded :: "'z pangea_info_scheme \<Rightarrow> nat \<Rightarrow> bool" where
  "folded dp j \<longleftrightarrow> h_betstatus dp ! j = word_of_int CARDS777_FOLD"

text \<open>The smallest bet of a row among the players who have not folded (0 if there is none).\<close>

definition sidepots_minbet :: "'z pangea_info_scheme \<Rightarrow> u64 list \<Rightarrow> u64" where
  "sidepots_minbet dp row =
     fold (\<lambda>j minbet. if row ! j \<noteq> 0 \<and> \<not> folded dp j \<and> (minbet = 0 \<or> row ! j < minbet)
                      then row ! j else minbet) [0..<dp_N dp] 0"

definition sidepots_nonz :: "'z pangea_info_scheme \<Rightarrow> u64 list \<Rightarrow> u64 \<Rightarrow> nat" where
  "sidepots_nonz dp row minbet =
     length (filter (\<lambda>j. row ! j > minbet \<and> \<not> folded dp j) [0..<dp_N dp])"

definition clip_row :: "nat \<Rightarrow> u64 \<Rightarrow> u64 list \<Rightarrow> u64 list" where
  "clip_row N minbet row =
     map (\<lambda>j. if j < N \<and> row ! j > minbet then minbet else row ! j) [0..<length row]"

definition excess_row :: "nat \<Rightarrow> u64 \<Rightarrow> u64 list \<Rightarrow> u64 list \<Rightarrow> u64 list" where
  "excess_row N minbet row next_row =
     map (\<lambda>j. if j < N \<and> row ! j > minbet then row ! j - minbet else next_row ! j) [0..<length next_row]"

function sidepots_loop ::
    "'z pangea_info_scheme \<Rightarrow> nat \<Rightarrow> u64 list list \<Rightarrow> (nat \<times> u64 list list) option" where
  "sidepots_loop dp n sidepots =
     (let row = sidepots ! n; minbet = sidepots_minbet dp row
      in if sidepots_nonz dp row minbet = 0 then Some (n + 1, sidepots)
         else if length sidepots \<le> n + 1 then None
         else let sidepots = sidepots[n + 1 := excess_row (dp_N dp) minbet row (sidepots ! (n + 1)),
                                      n := clip_row (dp_N dp) minbet row]
              in if n + 1 \<ge> dp_N dp then Some (n + 1, sidepots)
                 else sidepots_loop dp (n + 1) sidepots)"
  by pat_completeness auto
termination
  by (relation "measure (\<lambda>(dp, n, sidepots). dp_N dp - n)") auto

declare sidepots_loop.simps [simp del]

text \<open>The number of side pots and the 9 by 9 array of contributions.\<close>

definition pangea_sidepots ::
    "'z pangea_info_scheme \<Rightarrow> i64 list \<Rightarrow> (nat \<times> u64 list list) option" where
  "pangea_sidepots dp bets =
     (if length bets < dp_N dp \<or> CARDS777_MAXPLAYERS < dp_N dp \<or> length (h_betstatus dp) < dp_N dp then None
      else sidepots_loop dp 0
             ((take (dp_N dp) bets @ replicate (CARDS777_MAXPLAYERS - dp_N dp) 0)
              # replicate (CARDS777_MAXPLAYERS - 1) (replicate CARDS777_MAXPLAYERS 0)))"

definition pot_total :: "'z pangea_info_scheme \<Rightarrow> u64 list \<Rightarrow> u64" where
  "pot_total dp sidepot =
     fold (\<lambda>j tot. if sidepot ! j \<noteq> 0 then tot + sidepot ! j else tot) [0..<dp_N dp] 0"

definition pot_bestrank :: "'z pangea_info_scheme \<Rightarrow> u64 list \<Rightarrow> u32" where
  "pot_bestrank dp sidepot =
     fold (\<lambda>j best. if sidepot ! j \<noteq> 0 \<and> \<not> folded dp j \<and> h_handranks dp ! j > best
                    then h_handranks dp ! j else best) [0..<dp_N dp] 0"

definition pot_winners :: "'z pangea_info_scheme \<Rightarrow> u64 list \<Rightarrow> nat list" where
  "pot_winners dp sidepot =
     filter (\<lambda>j. \<not> folded dp j \<and> sidepot ! j > 0 \<and> h_handranks dp ! j = pot_bestrank dp sidepot)
       [0..<dp_N dp]"

definition maxrakes :: "u64 list" where
  "maxrakes = [0, 0, 1, 2, 2, 3, 3, 3, 3, 3]"

text \<open>The cap on the rake of one pot, from the number of players who have bet.\<close>

definition splitpot_maxrake :: "'z pangea_info_scheme \<Rightarrow> u64 option" where
  "splitpot_maxrake dp =
     do { let n = length (filter (\<lambda>b. s_lt 0 b) (take (dp_N dp) (h_bets dp)));
          m \<leftarrow> aget maxrakes (int n);
          let maxrake = m * dp_bigblind dp;
          Some (if maxrake > dp_maxrake dp
                then let maxrake = dp_maxrake dp
                     in if dp_coinstr dp = ''BTC'' \<and> maxrake < PANGEA_BTCMAXRAKE then PANGEA_BTCMAXRAKE
                        else if maxrake < PANGEA_MAXRAKE then PANGEA_MAXRAKE else maxrake
                else maxrake) }"

definition pay_winner :: "u64 \<Rightarrow> nat \<Rightarrow> 'z pangea_info_scheme \<Rightarrow> 'z pangea_info_scheme option" where
  "pay_winner split w dp =
     do { dp \<leftarrow> pangea_summary dp CARDS777_WINNINGS [word_of_nat w] (le_bytes 8 split);
          slot \<leftarrow> pangea_slot dp (int w);
          balance \<leftarrow> aget (sp_balances dp) slot;
          balances \<leftarrow> aput (sp_balances dp) slot (balance + split);
          old \<leftarrow> aget (h_won dp) (int w);
          won \<leftarrow> aput (h_won dp) (int w) (old + split);
          Some (dp\<lparr>sp_balances := balances, h_won := won\<rparr>) }"

text \<open>The host rake of the pot, the accumulated Pangea rake and the new state.\<close>

definition pangea_splitpot ::
    "u64 \<Rightarrow> u64 list \<Rightarrow> int \<Rightarrow> 'z pangea_info_scheme \<Rightarrow> (u64 \<times> u64 \<times> 'z pangea_info_scheme) option" where
  "pangea_splitpot pangearake_acc sidepot rakemillis dp =
     (if length sidepot < dp_N dp \<or> length (h_betstatus dp) < dp_N dp \<or> length (h_handranks dp) < dp_N dp
      then None
      else let winners = pot_winners dp sidepot
           in if winners = [] then Some (0, pangearake_acc, dp)
              else do { maxrake \<leftarrow> splitpot_maxrake dp;
                        let (split, pangearake, rake) =
                          pangea_winnings (pot_total dp sidepot) (length winners) rakemillis maxrake;
                        dp \<leftarrow> ofold (pay_winner split) winners dp;
                        Some (rake, pangearake_acc + pangearake, dp) })"

section \<open>The rake\<close>

lemma winnings_balance:
  "pangea_winnings tot n r m = (split, prake, rake) \<Longrightarrow> split * word_of_nat n + rake + prake = tot"
  by (auto simp: pangea_winnings_def Let_def split: if_splits)

lemma unat64_less: "unat (x :: u64) < 2 ^ 64"
  using unsigned_less [of x] by simp

lemma unat64_mult: "unat x * unat y < 2 ^ 64 \<Longrightarrow> unat (x * y :: u64) = unat x * unat y"
  by (simp add: unat_word_ariths)

lemma unat64_of_nat: "n < 2 ^ 64 \<Longrightarrow> unat (word_of_nat n :: u64) = n"
  by (simp add: unat_of_nat)

lemma div_mult_unat:
  fixes x w :: u64
  shows "unat ((x div w) * w) = unat x div unat w * unat w"
proof -
  have "unat x div unat w * unat w \<le> unat x" by simp
  also have "\<dots> < 2 ^ 64" by (rule unat64_less)
  finally show ?thesis by (simp only: unat64_mult unat_div)
qed

lemma first_split_le:
  fixes tot :: u64
  assumes n: "0 < n" "1000 * n < 2 ^ 64" and r: "0 \<le> r" "r \<le> 1000"
  shows "unat ((tot * word_of_int (1000 - r)) div (1000 * word_of_nat n)) * n \<le> unat tot"
proof -
  let ?k = "nat (1000 - r)"
  have "(1000 * word_of_nat n :: u64) = word_of_nat (1000 * n)" by simp
  then have w: "unat (1000 * word_of_nat n :: u64) = 1000 * n"
    using n(2) by (simp only: unat64_of_nat)
  have "(word_of_int (1000 - r) :: u64) = word_of_nat ?k" using r by simp
  then have "unat (tot * word_of_int (1000 - r)) = unat (tot * word_of_nat ?k)" by simp
  also have "\<dots> \<le> unat tot * unat (word_of_nat ?k :: u64)"
    by (simp add: unat_word_ariths)
  also have "\<dots> = unat tot * ?k" using r by (subst unat64_of_nat) auto
  also have "\<dots> \<le> unat tot * 1000" using r by (intro mult_le_mono2) simp
  finally have "unat (tot * word_of_int (1000 - r)) div (1000 * n) \<le> (unat tot * 1000) div (1000 * n)"
    by (rule div_le_mono)
  also have "\<dots> = unat tot div n" by (simp add: mult.commute [of _ 1000])
  finally have "unat (tot * word_of_int (1000 - r)) div (1000 * n) * n \<le> unat tot div n * n"
    by (rule mult_le_mono1)
  also have "\<dots> \<le> unat tot" by simp
  finally show ?thesis by (simp add: unat_div w)
qed

text \<open>What a pot pays in rake: never more than the cap and the indivisible rest.\<close>

lemma winnings_rake_bound:
  assumes n: "0 < n" "1000 * n < 2 ^ 64" and r: "0 \<le> r" "r \<le> 1000"
    and w: "pangea_winnings tot n r m = (split, prake, rake)"
  shows "unat split * n \<le> unat tot" and "unat tot < unat split * n + unat m + n"
proof -
  let ?w = "word_of_nat n :: u64"
  let ?s1 = "(tot * word_of_int (1000 - r)) div (1000 * ?w)"
  let ?s2 = "(tot - m) div ?w"
  have wn: "unat ?w = n" using n(2) by (simp add: unat64_of_nat)
  have s1: "unat ?s1 * n \<le> unat tot" by (rule first_split_le [OF n r])
  then have s1w: "unat (?s1 * ?w) = unat ?s1 * n"
    using unat64_less [of tot] by (simp add: unat64_mult wn)
  have r1: "unat (tot - ?s1 * ?w) = unat tot - unat ?s1 * n"
    using s1 s1w by (subst unat_sub) (simp_all add: word_le_nat_alt)
  have split: "split = (if tot - ?s1 * ?w > m then ?s2 else ?s1)"
    using w n(1) by (auto simp: pangea_winnings_def Let_def split: if_splits)
  show "unat split * n \<le> unat tot" and "unat tot < unat split * n + unat m + n"
  proof -
    have "unat split * n \<le> unat tot \<and> unat tot < unat split * n + unat m + n"
    proof (cases "tot - ?s1 * ?w > m")
      case True
      then have "unat m < unat tot - unat ?s1 * n" using r1 by (simp add: word_less_nat_alt)
      then have m: "unat (tot - m) = unat tot - unat m" "unat m \<le> unat tot"
        by (simp_all add: unat_sub word_le_nat_alt)
      have s: "unat split = (unat tot - unat m) div n" using True split by (simp add: unat_div m wn)
      have "(unat tot - unat m) div n * n \<le> unat tot - unat m" by simp
      moreover have "unat tot - unat m < (unat tot - unat m) div n * n + n"
        using mod_less_divisor [OF n(1), of "unat tot - unat m"] div_mult_mod_eq [of "unat tot - unat m" n] by linarith
      ultimately show ?thesis using m(2) unfolding s by linarith
    next
      case False
      then have "unat tot - unat ?s1 * n \<le> unat m" using r1 by (simp add: word_less_nat_alt)
      then show ?thesis using s1 n(1) False split by simp
    qed
    then show "unat split * n \<le> unat tot" and "unat tot < unat split * n + unat m + n" by simp_all
  qed
qed


section \<open>Side pots\<close>

text \<open>The players still in the hand who have chips in a pot.\<close>

definition pot_players :: "'z pangea_info_scheme \<Rightarrow> u64 list \<Rightarrow> nat set" where
  "pot_players dp row = {j. j < dp_N dp \<and> \<not> folded dp j \<and> row ! j \<noteq> 0}"

definition level :: "'z pangea_info_scheme \<Rightarrow> u64 list \<Rightarrow> bool" where
  "level dp row \<longleftrightarrow> (\<forall>i \<in> pot_players dp row. \<forall>j \<in> pot_players dp row. row ! i = row ! j)"

lemma finite_pot_players [simp]: "finite (pot_players dp row)"
  by (rule finite_subset [of _ "{..<dp_N dp}"]) (auto simp: pot_players_def)

lemma minbet_fold:
  fixes v :: "'i \<Rightarrow> u64" and m0 :: u64
  assumes r: "r = fold (\<lambda>j m. if v j \<noteq> 0 \<and> P j \<and> (m = 0 \<or> v j < m) then v j else m) js m0"
  shows "(m0 \<noteq> 0 \<longrightarrow> r \<noteq> 0 \<and> r \<le> m0) \<and> (\<forall>j \<in> set js. v j \<noteq> 0 \<and> P j \<longrightarrow> r \<noteq> 0 \<and> r \<le> v j)
    \<and> (r = m0 \<or> (\<exists>j \<in> set js. v j = r \<and> P j \<and> v j \<noteq> 0))"
  using r
proof (induction js arbitrary: m0)
  case Nil
  then show ?case by simp
next
  case (Cons j js)
  let ?m = "if v j \<noteq> 0 \<and> P j \<and> (m0 = 0 \<or> v j < m0) then v j else m0"
  from Cons.prems have "r = fold (\<lambda>j m. if v j \<noteq> 0 \<and> P j \<and> (m = 0 \<or> v j < m) then v j else m) js ?m"
    by simp
  note IH = Cons.IH [OF this]
  show ?case
  proof (intro conjI impI ballI)
    assume "m0 \<noteq> 0"
    then have "?m \<noteq> 0 \<and> ?m \<le> m0" by auto
    with IH show "r \<noteq> 0" "r \<le> m0" by (auto intro: order_trans)
  next
    fix k assume k: "k \<in> set (j # js)" "v k \<noteq> 0 \<and> P k"
    show "r \<noteq> 0"
    proof (cases "k = j")
      case True
      with k have "?m \<noteq> 0" by auto
      then show ?thesis using IH by blast
    next
      case False
      then show ?thesis using IH k by auto
    qed
    show "r \<le> v k"
    proof (cases "k = j")
      case True
      with k have "?m \<noteq> 0 \<and> ?m \<le> v j" by auto
      then show ?thesis using IH True order_trans by blast
    next
      case False
      then show ?thesis using IH k by auto
    qed
  next
    show "r = m0 \<or> (\<exists>j \<in> set (j # js). v j = r \<and> P j \<and> v j \<noteq> 0)"
      using IH by (cases "v j \<noteq> 0 \<and> P j \<and> (m0 = 0 \<or> v j < m0)") auto
  qed
qed

lemma minbet_least:
  "j \<in> pot_players dp row \<Longrightarrow> sidepots_minbet dp row \<noteq> 0 \<and> sidepots_minbet dp row \<le> row ! j"
  using minbet_fold [OF sidepots_minbet_def [of dp row]]
  by (auto simp: pot_players_def)

lemma minbet_reached:
  "pot_players dp row \<noteq> {} \<Longrightarrow> \<exists>j \<in> pot_players dp row. row ! j = sidepots_minbet dp row"
  using minbet_fold [OF sidepots_minbet_def [of dp row]]
  by (fastforce simp: pot_players_def)

lemma nonz_zero_iff:
  "sidepots_nonz dp row m = 0 \<longleftrightarrow> (\<forall>j \<in> pot_players dp row. row ! j \<le> m)"
  by (force simp: sidepots_nonz_def pot_players_def filter_empty_conv)

lemma nonz_zero_level:
  assumes "sidepots_nonz dp row (sidepots_minbet dp row) = 0"
  shows "level dp row"
proof -
  have "row ! j = sidepots_minbet dp row" if "j \<in> pot_players dp row" for j
    using that assms minbet_least [OF that] by (auto simp: nonz_zero_iff intro: antisym)
  then show ?thesis by (simp add: level_def)
qed

lemma clip_nth: "j < length row \<Longrightarrow> clip_row N m row ! j = (if j < N \<and> m < row ! j then m else row ! j)"
  by (simp add: clip_row_def)

lemma excess_nth:
  "j < length nxt \<Longrightarrow> excess_row N m row nxt ! j = (if j < N \<and> m < row ! j then row ! j - m else nxt ! j)"
  by (simp add: excess_row_def)

lemma length_clip [simp]: "length (clip_row N m row) = length row"
  by (simp add: clip_row_def)

lemma length_excess [simp]: "length (excess_row N m row nxt) = length nxt"
  by (simp add: excess_row_def)

lemma clip_players:
  assumes "dp_N dp \<le> length row" and "m \<noteq> 0"
  shows "pot_players dp (clip_row (dp_N dp) m row) = pot_players dp row"
  using assms by (auto simp: pot_players_def clip_nth split: if_splits)

lemma clip_level:
  assumes "dp_N dp \<le> length row" and "m = sidepots_minbet dp row" and "m \<noteq> 0"
  shows "level dp (clip_row (dp_N dp) m row)"
proof -
  have "clip_row (dp_N dp) m row ! j = m" if "j \<in> pot_players dp row" for j
    using that minbet_least [OF that] assms by (auto simp: clip_nth pot_players_def intro: antisym)
  then show ?thesis by (simp add: level_def clip_players [OF assms(1,3)])
qed

lemma excess_players:
  assumes "dp_N dp \<le> 9" "length row = 9"
  shows "pot_players dp (excess_row (dp_N dp) m row (replicate 9 0)) = {j \<in> pot_players dp row. m < row ! j}"
  using assms by (auto simp: pot_players_def excess_nth split: if_splits)

lemma excess_fewer:
  assumes "dp_N dp \<le> 9" "length row = 9" and "sidepots_nonz dp row m \<noteq> 0" and m: "m = sidepots_minbet dp row"
  shows "pot_players dp (excess_row (dp_N dp) m row (replicate 9 0)) \<noteq> {}"
    and "card (pot_players dp (excess_row (dp_N dp) m row (replicate 9 0))) < card (pot_players dp row)"
    and "m \<noteq> 0"
proof -
  let ?A = "pot_players dp row"
  have e: "pot_players dp (excess_row (dp_N dp) m row (replicate 9 0)) = {j \<in> ?A. m < row ! j}"
    by (rule excess_players [OF assms(1,2)])
  from assms(3) obtain i where i: "i \<in> ?A" "m < row ! i" by (auto simp: nonz_zero_iff not_le)
  with e show "pot_players dp (excess_row (dp_N dp) m row (replicate 9 0)) \<noteq> {}" by auto
  show "m \<noteq> 0" using minbet_least [OF i(1)] m by simp
  obtain k where "k \<in> ?A" "row ! k = m" using minbet_reached [of dp row] i m by auto
  then have "{j \<in> ?A. m < row ! j} \<subset> ?A" by auto
  then show "card (pot_players dp (excess_row (dp_N dp) m row (replicate 9 0))) < card ?A"
    unfolding e by (intro psubset_card_mono) simp_all
qed

text \<open>A 9 by 9 array whose rows after row \<open>n\<close> are zero.\<close>

definition matrix_ok :: "nat \<Rightarrow> u64 list list \<Rightarrow> bool" where
  "matrix_ok n m \<longleftrightarrow> length m = 9 \<and> (\<forall>k < 9. length (m ! k) = 9) \<and> (\<forall>k. n < k \<longrightarrow> k < 9 \<longrightarrow> m ! k = replicate 9 0)"

definition column :: "u64 list list \<Rightarrow> nat \<Rightarrow> u64" where
  "column m j = (\<Sum>k < 9. m ! k ! j)"

lemma column_step:
  assumes m: "length m = 9" "Suc n < 9" "j < 9" "length (m ! n) = 9" "m ! Suc n = replicate 9 0"
  shows "column (m[Suc n := excess_row N b (m ! n) (m ! Suc n), n := clip_row N b (m ! n)]) j = column m j"
proof -
  let ?c = "clip_row N b (m ! n)" and ?e = "excess_row N b (m ! n) (m ! Suc n)"
  let ?m = "m[Suc n := ?e, n := ?c]"
  have sub: "column x j = x ! n ! j + x ! Suc n ! j + (\<Sum>k \<in> {..<9} - {n, Suc n}. x ! k ! j)" for x
  proof -
    have "column x j = sum (\<lambda>k. x ! k ! j) {n, Suc n} + sum (\<lambda>k. x ! k ! j) ({..<9} - {n, Suc n})"
      unfolding column_def using m(2) by (subst sum.subset_diff [of "{n, Suc n}"]) (auto simp: add.commute)
    then show ?thesis by simp
  qed
  have "(\<Sum>k \<in> {..<9} - {n, Suc n}. ?m ! k ! j) = (\<Sum>k \<in> {..<9} - {n, Suc n}. m ! k ! j)"
    by (rule sum.cong) auto
  moreover have "?m ! n = ?c" "?m ! Suc n = ?e" using m by (simp_all add: nth_list_update)
  moreover have "?c ! j + ?e ! j = m ! n ! j + m ! Suc n ! j"
    using m by (simp add: clip_nth excess_nth)
  ultimately show ?thesis by (simp only: sub)
qed

lemma matrix_step:
  assumes "matrix_ok n m" and "Suc n < 9"
  shows "matrix_ok (Suc n) (m[Suc n := excess_row N b (m ! n) (m ! Suc n), n := clip_row N b (m ! n)])"
  using assms by (auto simp: matrix_ok_def nth_list_update)

lemma sidepots_loop_ok:
  assumes "dp_N dp \<le> 9" and "n < dp_N dp" and "matrix_ok n m"
    and "card (pot_players dp (m ! n)) \<le> dp_N dp - n" and "pot_players dp (m ! n) \<noteq> {}"
  shows "\<exists>n' m'. sidepots_loop dp n m = Some (n', m') \<and> n < n' \<and> n' \<le> dp_N dp \<and> matrix_ok (n' - 1) m'
    \<and> (\<forall>k < n. m' ! k = m ! k) \<and> (\<forall>j < 9. column m' j = column m j)
    \<and> (\<forall>k. n \<le> k \<and> k < n' \<longrightarrow> level dp (m' ! k) \<and> pot_players dp (m' ! k) \<noteq> {})"
  using assms
proof (induction "dp_N dp - n" arbitrary: n m rule: less_induct)
  case less
  let ?row = "m ! n" and ?b = "sidepots_minbet dp (m ! n)"
  show ?case
  proof (cases "sidepots_nonz dp ?row ?b = 0")
    case True
    have "sidepots_loop dp n m = Some (Suc n, m)"
      using True by (simp add: sidepots_loop.simps [of dp n m] Let_def)
    moreover have "level dp ?row" using True by (rule nonz_zero_level)
    moreover have "\<forall>k. n \<le> k \<and> k < Suc n \<longrightarrow> k = n" by auto
    ultimately show ?thesis
      using less.prems by (intro exI [of _ "Suc n"] exI [of _ m]) (metis Suc_leI diff_Suc_1 lessI)
  next
    case False
    have row: "length ?row = 9" "length m = 9" using less.prems(1-3) by (auto simp: matrix_ok_def)
    let ?e = "excess_row (dp_N dp) ?b ?row (replicate 9 0)"
    have e: "pot_players dp ?e \<noteq> {}" "card (pot_players dp ?e) < card (pot_players dp ?row)" "?b \<noteq> 0"
      using excess_fewer [OF less.prems(1) row(1) False] by auto
    then have "0 < card (pot_players dp ?e)" by (simp add: card_gt_0_iff)
    with e(2) less.prems(4) have n: "Suc n < dp_N dp" by linarith
    then have n9: "Suc n < 9" using less.prems(1) by simp
    then have nx: "m ! Suc n = replicate 9 0" using less.prems(3) by (simp add: matrix_ok_def)
    define m1 where "m1 = m[Suc n := excess_row (dp_N dp) ?b ?row (m ! Suc n), n := clip_row (dp_N dp) ?b ?row]"
    have step: "sidepots_loop dp n m = sidepots_loop dp (Suc n) m1"
      using False n n9 row by (simp add: sidepots_loop.simps [of dp n m] Let_def m1_def)
    have m1: "m1 ! Suc n = ?e" "m1 ! n = clip_row (dp_N dp) ?b ?row" "\<forall>k < n. m1 ! k = m ! k"
      using row n9 by (simp_all add: m1_def nth_list_update nx)
    have col: "\<forall>j < 9. column m1 j = column m j"
      unfolding m1_def using column_step row n9 nx by blast
    have c: "level dp (m1 ! n)" "pot_players dp (m1 ! n) \<noteq> {}"
      using clip_level [of dp ?row ?b] clip_players [of dp ?row ?b] row less.prems(1,5) e(3)
      unfolding m1(2) by simp_all
    have ok1: "matrix_ok (Suc n) m1" unfolding m1_def by (rule matrix_step [OF less.prems(3) n9])
    have "card (pot_players dp (m1 ! Suc n)) \<le> dp_N dp - Suc n"
      using e(2) less.prems(4) unfolding m1(1) by linarith
    moreover have "pot_players dp (m1 ! Suc n) \<noteq> {}" using e(1) unfolding m1(1) .
    moreover have "dp_N dp - Suc n < dp_N dp - n" using n by simp
    ultimately obtain n' m' where IH: "sidepots_loop dp (Suc n) m1 = Some (n', m')" "Suc n < n'" "n' \<le> dp_N dp"
        "matrix_ok (n' - 1) m'" "\<forall>k < Suc n. m' ! k = m1 ! k" "\<forall>j < 9. column m' j = column m1 j"
        "\<forall>k. Suc n \<le> k \<and> k < n' \<longrightarrow> level dp (m' ! k) \<and> pot_players dp (m' ! k) \<noteq> {}"
      using less.hyps [of "Suc n" m1] less.prems(1) n ok1 by blast
    have "level dp (m' ! k) \<and> pot_players dp (m' ! k) \<noteq> {}" if "n \<le> k" "k < n'" for k
      using that IH(5,7) c by (cases "k = n") auto
    with IH step m1(3) col show ?thesis by (intro exI [of _ n'] exI [of _ m']) auto
  qed
qed

text \<open>The array that the loop starts from: the bets in row 0.\<close>

definition first_rows :: "nat \<Rightarrow> u64 list \<Rightarrow> u64 list list" where
  "first_rows N bets = (take N bets @ replicate (9 - N) 0) # replicate 8 (replicate 9 0)"

lemma first_rows_ok:
  assumes "N \<le> 9" and "N \<le> length bets"
  shows "matrix_ok 0 (first_rows N bets)" and "j < N \<Longrightarrow> column (first_rows N bets) j = bets ! j"
proof -
  have nth: "first_rows N bets ! k = (if k = 0 then take N bets @ replicate (9 - N) 0 else replicate 9 0)" if "k < 9" for k
    using that by (cases k) (simp_all add: first_rows_def)
  have l: "length (first_rows N bets) = 9" by (simp add: first_rows_def)
  then show "matrix_ok 0 (first_rows N bets)" using nth assms by (simp add: matrix_ok_def)
  show "column (first_rows N bets) j = bets ! j" if j: "j < N"
  proof -
    have "column (first_rows N bets) j = (\<Sum>k < 9 :: nat. if k = 0 then bets ! j else 0)"
      unfolding column_def by (rule sum.cong) (use j assms nth in \<open>auto simp: nth_append\<close>)
    then show ?thesis by simp
  qed
qed

lemma column_rows:
  assumes "matrix_ok (n - 1) m" and "0 < n" and "n \<le> 9" and "j < 9"
  shows "column m j = (\<Sum>k < n. m ! k ! j)"
proof -
  have "column m j = (\<Sum>k \<in> {..<n}. m ! k ! j) + (\<Sum>k \<in> {..<9} - {..<n}. m ! k ! j)"
    unfolding column_def using assms(3) by (subst sum.subset_diff [of "{..<n}"]) (auto simp: add.commute)
  moreover have "(\<Sum>k \<in> {..<9} - {..<n}. m ! k ! j) = 0"
    using assms by (intro sum.neutral) (auto simp: matrix_ok_def)
  ultimately show ?thesis by simp
qed

lemma sidepots_ok:
  assumes ok: "table_ok dp" and len: "dp_N dp \<le> length bets" and some: "pot_players dp bets \<noteq> {}"
  shows "\<exists>n m. pangea_sidepots dp bets = Some (n, m) \<and> 0 < n \<and> n \<le> dp_N dp
    \<and> length m = 9 \<and> (\<forall>k < n. length (m ! k) = 9)
    \<and> (\<forall>j < dp_N dp. (\<Sum>k < n. m ! k ! j) = bets ! j)
    \<and> (\<forall>k < n. level dp (m ! k) \<and> pot_players dp (m ! k) \<noteq> {})"
proof -
  let ?N = "dp_N dp" and ?m0 = "first_rows (dp_N dp) bets"
  have N: "0 < ?N" "?N \<le> 9" "length (h_betstatus dp) = 9"
    using table_N [OF ok] ok by (simp_all add: table_ok_def)
  have start: "pangea_sidepots dp bets = sidepots_loop dp 0 ?m0"
    using N len by (simp add: pangea_sidepots_def first_rows_def CARDS777_MAXPLAYERS_def)
  have row0: "pot_players dp (?m0 ! 0) = pot_players dp bets"
    using N len by (auto simp: pot_players_def first_rows_def nth_append)
  have "pot_players dp bets \<subseteq> {..<?N}" by (auto simp: pot_players_def)
  then have "card (pot_players dp bets) \<le> ?N" using card_mono [of "{..<?N}"] by simp
  then obtain n m where r: "sidepots_loop dp 0 ?m0 = Some (n, m)" "0 < n" "n \<le> ?N" "matrix_ok (n - 1) m"
      "\<forall>j < 9. column m j = column ?m0 j" "\<forall>k. k < n \<longrightarrow> level dp (m ! k) \<and> pot_players dp (m ! k) \<noteq> {}"
    using sidepots_loop_ok [OF N(2,1) first_rows_ok(1) [OF N(2) len]] some row0 by auto
  have "(\<Sum>k < n. m ! k ! j) = bets ! j" if "j < ?N" for j
    using that r(5) column_rows [OF r(4,2), of j] first_rows_ok(2) [OF N(2) len that] r(3) N(2) by simp
  moreover have "length m = 9" "\<forall>k < n. length (m ! k) = 9" using r(3,4) N(2) by (auto simp: matrix_ok_def)
  ultimately show ?thesis using start r by auto
qed

section \<open>Payout\<close>

lemma pot_total_sum: "pot_total dp row = (\<Sum>j < dp_N dp. row ! j)"
proof -
  have "fold (\<lambda>j t. if row ! j \<noteq> 0 then t + row ! j else t) [0..<n] t = t + (\<Sum>j < n. row ! j)" for n and t :: u64
    by (induction n arbitrary: t) (auto simp: add.assoc)
  then show ?thesis by (simp add: pot_total_def)
qed

lemma bestrank_fold:
  fixes v :: "'i \<Rightarrow> u32" and m0 :: u32
  assumes "r = fold (\<lambda>j best. if Q j \<and> P j \<and> v j > best then v j else best) js m0"
  shows "m0 \<le> r \<and> (\<forall>j \<in> set js. Q j \<and> P j \<longrightarrow> v j \<le> r) \<and> (r = m0 \<or> (\<exists>j \<in> set js. Q j \<and> P j \<and> v j = r))"
  using assms
proof (induction js arbitrary: m0)
  case Nil
  then show ?case by simp
next
  case (Cons j js)
  let ?m = "if Q j \<and> P j \<and> v j > m0 then v j else m0"
  have m: "m0 \<le> ?m" "Q j \<and> P j \<Longrightarrow> v j \<le> ?m" by auto
  from Cons.prems have "r = fold (\<lambda>j best. if Q j \<and> P j \<and> v j > best then v j else best) js ?m" by simp
  note IH = Cons.IH [OF this]
  then have "r = m0 \<or> (\<exists>k \<in> set (j # js). Q k \<and> P k \<and> v k = r)"
    by (cases "Q j \<and> P j \<and> v j > m0") auto
  moreover have "m0 \<le> r" using IH m(1) order_trans by blast
  moreover have "v k \<le> r" if "k \<in> set (j # js)" "Q k \<and> P k" for k
  proof (cases "k \<in> set js")
    case True
    then show ?thesis using IH that(2) by blast
  next
    case False
    with that have "v k \<le> ?m" using m(2) by simp
    also have "?m \<le> r" using IH by (rule conjunct1)
    finally show ?thesis .
  qed
  ultimately show ?case by blast
qed

text \<open>The winners of a pot are its players with the best rank, and there is one if the pot has a player.\<close>

lemma pot_winners_best:
  "set (pot_winners dp row) = {j \<in> pot_players dp row. \<forall>i \<in> pot_players dp row. h_handranks dp ! i \<le> h_handranks dp ! j}"
  and pot_winners_nonempty: "pot_players dp row \<noteq> {} \<Longrightarrow> pot_winners dp row \<noteq> []"
proof -
  let ?r = "pot_bestrank dp row"
  note b = bestrank_fold [OF pot_bestrank_def [of dp row]]
  have ub: "h_handranks dp ! j \<le> ?r" if "j \<in> pot_players dp row" for j
    using that b by (auto simp: pot_players_def)
  have reach: "\<exists>j \<in> pot_players dp row. h_handranks dp ! j = ?r" if "pot_players dp row \<noteq> {}"
  proof -
    from b consider "?r = 0" | j where "j \<in> pot_players dp row" "h_handranks dp ! j = ?r"
      by (auto simp: pot_players_def)
    then show ?thesis
    proof cases
      case 1
      with that ub show ?thesis by fastforce
    next
      case 2
      then show ?thesis by blast
    qed
  qed
  have w: "set (pot_winners dp row) = {j \<in> pot_players dp row. h_handranks dp ! j = ?r}"
    by (auto simp: pot_winners_def pot_players_def word_gt_0)
  then show "pot_players dp row \<noteq> {} \<Longrightarrow> pot_winners dp row \<noteq> []" using reach by fastforce
  show "set (pot_winners dp row) = {j \<in> pot_players dp row. \<forall>i \<in> pot_players dp row. h_handranks dp ! i \<le> h_handranks dp ! j}"
    unfolding w using ub reach by (auto, metis (no_types, lifting) antisym empty_iff)
qed

text \<open>What the payout leaves alone.\<close>

definition pot_frame :: "'z pangea_info_scheme \<Rightarrow> _" where
  "pot_frame dp = (stakes dp, h_bets dp, h_betstatus dp, h_handranks dp, dp_snapshot dp, dp_maxrake dp, dp_coinstr dp)"

lemma pay_winner_total:
  assumes "table_ok dp" and "w < dp_N dp" and "summary_len dp + 10 \<le> SUMMARY_MAX"
  shows "\<exists>dp'. pay_winner split w dp = Some dp' \<and> table_ok dp' \<and> pot_frame dp' = pot_frame dp
    \<and> sum_list (sp_balances dp') = sum_list (sp_balances dp) + split
    \<and> h_won dp' = (h_won dp)[w := h_won dp ! w + split]
    \<and> summary_len dp' = summary_len dp + 10
    \<and> (\<forall>s < 9. sp_balances dp' ! s = sp_balances dp ! s + (if pangea_slot dp (int w) = Some (int s) then split else 0))"
proof -
  obtain s where s: "pangea_slot dp (int w) = Some (int s)" "s < 9"
    using table_slot [OF assms(1,2)] .
  have "w < 9" using assms table_N by fastforce
  moreover have "pangea_slot (dp\<lparr>dp_summary := x\<rparr>) (int w) = Some (int s)" for x
    using s(1) by (simp add: pangea_slot_def pangea_tableaddr_def)
  ultimately show ?thesis
    using s assms by (auto simp: pay_winner_def summary_ok aget_nat aput_nat table_ok_def seats_ok_def pot_frame_def
        stakes_def total_simps nth_list_update)
qed

lemma pot_frame_slot: "pot_frame dp' = pot_frame dp \<Longrightarrow> pangea_slot dp' i = pangea_slot dp i"
  by (simp add: pot_frame_def stakes_def pangea_slot_def pangea_tableaddr_def)

lemma slot_inj:
  assumes "table_ok dp" and "i < dp_N dp" and "j < dp_N dp" and "pangea_slot dp (int i) = Some s" and "pangea_slot dp (int j) = Some s"
  shows "i = j"
  using slot_ind_roundtrip [of dp i] assms by (auto simp: table_ok_def)

lemma pay_winners_total:
  assumes "table_ok dp" and "\<forall>w \<in> set ws. w < dp_N dp" and "distinct ws" and "summary_len dp + 10 * length ws \<le> SUMMARY_MAX"
  shows "\<exists>dp'. ofold (pay_winner split) ws dp = Some dp' \<and> table_ok dp' \<and> pot_frame dp' = pot_frame dp
    \<and> sum_list (sp_balances dp') = sum_list (sp_balances dp) + split * word_of_nat (length ws)
    \<and> (\<forall>j < 9. h_won dp' ! j = h_won dp ! j + (if j \<in> set ws then split else 0))
    \<and> summary_len dp' = summary_len dp + 10 * length ws
    \<and> (\<forall>s < 9. sp_balances dp' ! s = sp_balances dp ! s + (if \<exists>w \<in> set ws. pangea_slot dp (int w) = Some (int s) then split else 0))"
  using assms
proof (induction ws arbitrary: dp)
  case Nil
  then show ?case by simp
next
  case (Cons w ws)
  then obtain dp1 where 1: "pay_winner split w dp = Some dp1" "table_ok dp1" "pot_frame dp1 = pot_frame dp"
      "sum_list (sp_balances dp1) = sum_list (sp_balances dp) + split"
      "h_won dp1 = (h_won dp)[w := h_won dp ! w + split]" "summary_len dp1 = summary_len dp + 10"
      "\<forall>s < 9. sp_balances dp1 ! s = sp_balances dp ! s + (if pangea_slot dp (int w) = Some (int s) then split else 0)"
    using pay_winner_total [of dp w split] by auto
  have N: "dp_N dp1 = dp_N dp" using 1(3) by (simp add: pot_frame_def stakes_def)
  with Cons.IH [of dp1] Cons.prems 1 obtain dp' where 2: "ofold (pay_winner split) ws dp1 = Some dp'" "table_ok dp'"
      "pot_frame dp' = pot_frame dp1"
      "sum_list (sp_balances dp') = sum_list (sp_balances dp1) + split * word_of_nat (length ws)"
      "\<forall>j < 9. h_won dp' ! j = h_won dp1 ! j + (if j \<in> set ws then split else 0)"
      "summary_len dp' = summary_len dp1 + 10 * length ws"
      "\<forall>s < 9. sp_balances dp' ! s = sp_balances dp1 ! s + (if \<exists>w \<in> set ws. pangea_slot dp1 (int w) = Some (int s) then split else 0)" by auto
  have "sp_balances dp' ! s = sp_balances dp ! s + (if \<exists>w \<in> set (w # ws). pangea_slot dp (int w) = Some (int s) then split else 0)" if "s < 9" for s
  proof -
    have "\<not> (pangea_slot dp (int w) = Some (int s) \<and> (\<exists>w' \<in> set ws. pangea_slot dp (int w') = Some (int s)))"
      using slot_inj [OF Cons.prems(1), of w] Cons.prems(2,3) by auto
    then show ?thesis using 1(7) 2(7) that pot_frame_slot [OF 1(3)] by auto
  qed
  note bal = this
  have "h_won dp' ! j = h_won dp ! j + (if j \<in> set (w # ws) then split else 0)" if "j < 9" for j
    using 2(5) that 1(5) Cons.prems(1,3) by (cases "j = w") (auto simp: table_ok_def)
  with 1 2 bal show ?case by (simp add: algebra_simps)
qed

lemma maxrake_total: "table_ok dp \<Longrightarrow> \<exists>m. splitpot_maxrake dp = Some m"
proof -
  assume ok: "table_ok dp"
  have "length (filter (\<lambda>b. s_lt 0 b) (take (dp_N dp) (h_bets dp))) \<le> length (take (dp_N dp) (h_bets dp))"
    by (rule length_filter_le)
  also have "\<dots> \<le> 9" using table_N [OF ok] by (simp add: min.coboundedI2)
  finally have "length (filter (\<lambda>b. s_lt 0 b) (take (dp_N dp) (h_bets dp))) < length maxrakes"
    by (simp add: maxrakes_def)
  then show ?thesis by (simp add: splitpot_maxrake_def aget_nat Let_def)
qed

lemma splitpot_total:
  assumes "table_ok dp" and "length row = 9" and "pot_players dp row \<noteq> {}" and "summary_len dp + 90 \<le> SUMMARY_MAX"
  shows "\<exists>split rake prake dp'. pangea_splitpot acc row r dp = Some (rake, prake, dp') \<and> table_ok dp'
    \<and> pot_frame dp' = pot_frame dp \<and> summary_len dp' \<le> summary_len dp + 90
    \<and> sum_list (sp_balances dp') + rake + prake = sum_list (sp_balances dp) + acc + pot_total dp row
    \<and> (\<forall>j < 9. h_won dp' ! j = h_won dp ! j + (if j \<in> set (pot_winners dp row) then split else 0))
    \<and> (\<forall>s < 9. sp_balances dp' ! s = sp_balances dp ! s + (if \<exists>w \<in> set (pot_winners dp row). pangea_slot dp (int w) = Some (int s) then split else 0))
    \<and> (\<exists>m p. splitpot_maxrake dp = Some m \<and> pangea_winnings (pot_total dp row) (length (pot_winners dp row)) r m = (split, p, rake) \<and> prake = acc + p)"
proof -
  let ?ws = "pot_winners dp row"
  have N: "dp_N dp \<le> 9" using table_N [OF assms(1)] by simp
  obtain m where m: "splitpot_maxrake dp = Some m" using maxrake_total [OF assms(1)] by blast
  obtain split prake rake where w: "pangea_winnings (pot_total dp row) (length ?ws) r m = (split, prake, rake)"
    by (metis prod_cases3)
  have ws: "\<forall>w \<in> set ?ws. w < dp_N dp" by (auto simp: pot_winners_def)
  have "length ?ws \<le> length [0..<dp_N dp]" unfolding pot_winners_def by (rule length_filter_le)
  then have "length ?ws \<le> 9" using N by simp
  moreover from this obtain dp' where p: "ofold (pay_winner split) ?ws dp = Some dp'" "table_ok dp'" "pot_frame dp' = pot_frame dp"
      "sum_list (sp_balances dp') = sum_list (sp_balances dp) + split * word_of_nat (length ?ws)"
      "\<forall>j < 9. h_won dp' ! j = h_won dp ! j + (if j \<in> set ?ws then split else 0)"
      "summary_len dp' = summary_len dp + 10 * length ?ws"
      "\<forall>s < 9. sp_balances dp' ! s = sp_balances dp ! s + (if \<exists>w \<in> set ?ws. pangea_slot dp (int w) = Some (int s) then split else 0)"
    using pay_winners_total [OF assms(1) ws _, of split] assms(4) by (auto simp: pot_winners_def)
  moreover have "pangea_splitpot acc row r dp = Some (rake, acc + prake, dp')"
    using pot_winners_nonempty [OF assms(3)] m w p(1) assms(1,2) N by (simp add: pangea_splitpot_def table_ok_def)
  moreover have "sum_list (sp_balances dp') + rake + (acc + prake) = sum_list (sp_balances dp) + acc + pot_total dp row"
    unfolding p(4) using winnings_balance [OF w] by (simp add: algebra_simps)
  ultimately show ?thesis using m w by (intro exI [of _ split] exI [of _ rake] exI [of _ "acc + prake"] exI [of _ dp']) auto
qed

section \<open>Properties\<close>

text \<open>
  C32. The rake is capped: with a rake between 0 and 1000 per mille, the winners never get more
  than the pot, and what they do not get is less than the cap plus the number of winners (the
  cap and the remainder of the division), also when the product \<open>total * (1000 - rakemillis)\<close>
  wraps around.
\<close>

theorem rake_capped:
  assumes "0 < n" "1000 * n < 2 ^ 64" and "0 \<le> r" "r \<le> 1000"
  shows "case pangea_winnings tot n r m of (split, prake, rake) \<Rightarrow>
    unat split * n \<le> unat tot \<and> unat tot - unat split * n < unat m + n"
proof (cases "pangea_winnings tot n r m")
  case (fields split prake rake)
  with winnings_rake_bound [OF assms fields] show ?thesis by simp
qed

theorem rake_capped_witness:
  "case pangea_winnings 1000000 3 10 500 of (split, prake, rake) \<Rightarrow> unat split * 3 \<le> 1000000"
  using rake_capped [of 3 10 1000000 500] by (auto split: prod.splits)

text \<open>
  C16. Side pots partition the bets. When a player who has not folded has chips in the pot,
  \<open>pangea_sidepots\<close> finishes inside its 9 by 9 array with at least one and at most \<open>N\<close> pots;
  the pots of every player add up to the player's bet; every pot has a player who has not
  folded; and in each pot all players who have not folded have put in the same amount.
\<close>

theorem sidepots_partition_bets:
  assumes "table_ok dp" and "dp_N dp \<le> length bets"
    and "j < dp_N dp" "\<not> folded dp j" "bets ! j \<noteq> 0"
  shows "\<exists>n m. pangea_sidepots dp bets = Some (n, m) \<and> 0 < n \<and> n \<le> dp_N dp
    \<and> (\<forall>j < dp_N dp. (\<Sum>k < n. m ! k ! j) = bets ! j)
    \<and> (\<forall>k < n. level dp (m ! k) \<and> pot_players dp (m ! k) \<noteq> {})"
proof -
  have "pot_players dp bets \<noteq> {}" using assms by (auto simp: pot_players_def)
  from sidepots_ok [OF assms(1,2) this] show ?thesis by blast
qed

theorem sidepots_partition_bets_witness:
  "\<exists>n m. pangea_sidepots (demo_table [0, 0, 0] [100, 200, 300]) [50, 80, 80, 0, 0, 0, 0, 0, 0] = Some (n, m)
    \<and> (\<Sum>k < n. m ! k ! 1) = 80"
proof -
  let ?t = "demo_table [0, 0, 0] [100, 200, 300]"
  have ok: "table_ok ?t" by (rule demo_table_ok) simp_all
  have "\<not> folded ?t 0" by (simp add: folded_def demo_table_def cards777_consts)
  with sidepots_partition_bets [OF ok, of "[50, 80, 80, 0, 0, 0, 0, 0, 0]" 0] show ?thesis by force
qed

text \<open>The players of a pot whose hand no other player of the pot beats.\<close>

definition best_hands :: "'z pangea_info_scheme \<Rightarrow> u64 list \<Rightarrow> nat set" where
  "best_hands dp row = {j \<in> pot_players dp row. \<forall>i \<in> pot_players dp row. h_handranks dp ! i \<le> h_handranks dp ! j}"

text \<open>
  C15. The payout of one pot. When a player of the pot has not folded, \<open>pangea_splitpot\<close> completes, and there is one
  share such that the seats of the best hands of the pot, those that no other player of the pot beats, gain exactly
  that share, every other seat keeps its balance, and the winnings of the players are booked likewise. Shares and
  both rakes add up to the pot. With a rake of 0 to 1000 per mille the winners get all of the pot but less than
  the cap of the rake plus one unit per winner.
\<close>

theorem splitpot_pays_best_hands:
  assumes "table_ok dp" and "length row = 9" and "j \<in> pot_players dp row" and "summary_len dp + 90 \<le> SUMMARY_MAX"
  shows "\<exists>split rake prake dp' maxrake. pangea_splitpot acc row r dp = Some (rake, prake, dp') \<and> table_ok dp' \<and> splitpot_maxrake dp = Some maxrake
    \<and> (\<forall>s < 9. sp_balances dp' ! s = sp_balances dp ! s + (if \<exists>j \<in> best_hands dp row. pangea_slot dp (int j) = Some (int s) then split else 0))
    \<and> (\<forall>j < 9. h_won dp' ! j = h_won dp ! j + (if j \<in> best_hands dp row then split else 0))
    \<and> split * word_of_nat (card (best_hands dp row)) + rake + (prake - acc) = (\<Sum>j < dp_N dp. row ! j)
    \<and> (0 \<le> r \<and> r \<le> 1000 \<longrightarrow> unat split * card (best_hands dp row) \<le> unat (\<Sum>j < dp_N dp. row ! j)
         \<and> unat (\<Sum>j < dp_N dp. row ! j) < unat split * card (best_hands dp row) + unat maxrake + card (best_hands dp row))"
proof -
  have ne: "pot_players dp row \<noteq> {}" using assms(3) by blast
  let ?ws = "pot_winners dp row"
  have ws: "set ?ws = best_hands dp row" by (simp add: pot_winners_best best_hands_def)
  have "distinct ?ws" by (simp add: pot_winners_def)
  then have card: "card (best_hands dp row) = length ?ws" using ws distinct_card by metis
  have "length ?ws \<le> length [0..<dp_N dp]" unfolding pot_winners_def by (rule length_filter_le)
  then have n: "0 < length ?ws" "1000 * length ?ws < 2 ^ 64" using pot_winners_nonempty [OF ne] table_N [OF assms(1)] by simp_all
  obtain split rake prake dp' m p where s: "pangea_splitpot acc row r dp = Some (rake, prake, dp')" "table_ok dp'"
      "\<forall>j < 9. h_won dp' ! j = h_won dp ! j + (if j \<in> set ?ws then split else 0)"
      "\<forall>s < 9. sp_balances dp' ! s = sp_balances dp ! s + (if \<exists>w \<in> set ?ws. pangea_slot dp (int w) = Some (int s) then split else 0)"
      "splitpot_maxrake dp = Some m" "pangea_winnings (pot_total dp row) (length ?ws) r m = (split, p, rake)" "prake = acc + p"
    using splitpot_total [OF assms(1,2) ne assms(4), of acc r] by blast
  have "split * word_of_nat (length ?ws) + rake + (prake - acc) = (\<Sum>j < dp_N dp. row ! j)"
    using winnings_balance [OF s(6)] s(7) by (simp add: pot_total_sum)
  moreover have "unat split * length ?ws \<le> unat (\<Sum>j < dp_N dp. row ! j)
      \<and> unat (\<Sum>j < dp_N dp. row ! j) < unat split * length ?ws + unat m + length ?ws" if "0 \<le> r \<and> r \<le> 1000"
    using winnings_rake_bound [OF n _ _ s(6)] that by (simp add: pot_total_sum)
  ultimately show ?thesis using s(1-5) ws card by auto
qed

theorem splitpot_pays_best_hands_witness:
  "\<exists>split rake prake dp' maxrake. pangea_splitpot 0 [50, 50, 50, 0, 0, 0, 0, 0, 0] 10
        ((demo_table [10, 20, 30] [100, 200, 300])\<lparr>h_handranks := [100, 300, 200, 0, 0, 0, 0, 0, 0]\<rparr>) = Some (rake, prake, dp')
      \<and> h_won dp' ! 1 = split \<and> h_won dp' ! 2 = 0 \<and> split + rake + prake = 150 \<and> unat split \<le> 150 \<and> 150 < unat split + unat (maxrake :: u64) + 1"
proof -
  let ?d = "demo_table [10, 20, 30] [100, 200, 300]" and ?r = "[50, 50, 50, 0, 0, 0, 0, 0, 0] :: u64 list"
  let ?t = "?d\<lparr>h_handranks := [100, 300, 200, 0, 0, 0, 0, 0, 0]\<rparr>"
  have "table_ok ?d" by (rule demo_table_ok) simp_all
  then have ok: "table_ok ?t" by (simp add: table_ok_def seats_ok_def)
  have N: "dp_N ?t = 3" "h_won ?t = replicate 9 0" "summary_len ?t = 0" by (simp_all add: demo_table_def)
  have "pot_players ?t ?r = {0, 1, 2}" by (auto simp: pot_players_def folded_def demo_table_def cards777_consts less_Suc_eq numeral_3_eq_3)
  then have b: "best_hands ?t ?r = {1}" "0 \<in> pot_players ?t ?r" by (auto simp: best_hands_def)
  have sum: "(\<Sum>j < dp_N ?t. ?r ! j) = 150" by (simp add: N(1) numeral_3_eq_3)
  have l: "length ?r = 9" and room: "summary_len ?t + 90 \<le> SUMMARY_MAX"
    using N(3) by (simp_all add: SUMMARY_MAX_def)
  obtain split rake prake dp' maxrake where w: "pangea_splitpot 0 ?r 10 ?t = Some (rake, prake, dp')" "splitpot_maxrake ?t = Some maxrake"
      "\<forall>j < 9. h_won dp' ! j = h_won ?t ! j + (if j \<in> best_hands ?t ?r then split else 0)"
      "split * word_of_nat (card (best_hands ?t ?r)) + rake + (prake - 0) = (\<Sum>j < dp_N ?t. ?r ! j)"
      "0 \<le> (10 :: int) \<and> 10 \<le> (1000 :: int) \<longrightarrow> unat split * card (best_hands ?t ?r) \<le> unat (\<Sum>j < dp_N ?t. ?r ! j)
        \<and> unat (\<Sum>j < dp_N ?t. ?r ! j) < unat split * card (best_hands ?t ?r) + unat maxrake + card (best_hands ?t ?r)"
    using splitpot_pays_best_hands [OF ok l b(2) room, where acc = 0 and r = 10] by (elim exE conjE) (rule that, assumption+)
  have "h_won dp' ! 1 = split" "h_won dp' ! 2 = 0" using w(3) [rule_format, of 1] w(3) [rule_format, of 2] by (simp_all add: b(1) N(2))
  then show ?thesis using w(1,4,5) unfolding sum b(1) by (intro exI [of _ split] exI [of _ rake] exI [of _ prake] exI [of _ dp'] exI [of _ maxrake]) simp
qed

end
