(* ===== verification/Poker777.thy ===== *)
theory Poker777
  imports Prelude777 "HOL-Library.Multiset"
begin

text \<open>
  The poker hand evaluator (\<open>plugins/games/pangea/poker.c\<close>): the tables of the 52 cards, the
  five-card score, the seven-card flush and score, the brute-force seven-card score, the
  descriptions of cards and hands, and the card pile operations.

  Cards are bytes, scores and masks are 32-bit words. A read outside a table or of a character
  that has not been written is \<open>None\<close>.
\<close>

section \<open>Scores and tables\<close>

definition RANK_SHL :: nat where "RANK_SHL = 27"
definition SUBR_SHL :: nat where "SUBR_SHL = 13"
definition SUBR_SHLMASK :: u32 where "SUBR_SHLMASK = push_bit SUBR_SHL 1 - 1"

definition STRAIGHT_FLUSH_SCORE :: u32 where "STRAIGHT_FLUSH_SCORE = push_bit RANK_SHL 8"
definition FOUR_KIND_SCORE :: u32 where "FOUR_KIND_SCORE = push_bit RANK_SHL 7"
definition FULL_HOUSE_SCORE :: u32 where "FULL_HOUSE_SCORE = push_bit RANK_SHL 6"
definition FLUSH_SCORE :: u32 where "FLUSH_SCORE = push_bit RANK_SHL 5"
definition STRAIGHT_SCORE :: u32 where "STRAIGHT_SCORE = push_bit RANK_SHL 4"
definition THREE_KIND_SCORE :: u32 where "THREE_KIND_SCORE = push_bit RANK_SHL 3"
definition TWO_PAIR_SCORE :: u32 where "TWO_PAIR_SCORE = push_bit RANK_SHL 2"
definition TWO_KIND_SCORE :: u32 where "TWO_KIND_SCORE = push_bit RANK_SHL 1"

lemmas score_defs = RANK_SHL_def SUBR_SHL_def SUBR_SHLMASK_def STRAIGHT_FLUSH_SCORE_def FOUR_KIND_SCORE_def
  FULL_HOUSE_SCORE_def FLUSH_SCORE_def STRAIGHT_SCORE_def THREE_KIND_SCORE_def TWO_PAIR_SCORE_def
  TWO_KIND_SCORE_def

definition handstrs :: "string list" where
  "handstrs = [''high card'', ''one pair'', ''two pair'', ''three of a kind'', ''straight'', ''flush'',
     ''full house'', ''four of a kind'', ''straight flush'', ''err'', ''err'', ''err'', ''err'', ''err'', ''err'', ''err'']"

definition kickerstrs :: "string list" where
  "kickerstrs = ['''', ''kickers'', ''kicker'', ''kickers'', ''high'', ''high'', ''full of'', ''kicker'', ''high'',
     ''err'', ''err'', ''err'', ''err'', ''err'', ''err'', ''err'']"

definition CardValue :: "u32 list" where
  "CardValue =
    [0, 1, 2, 3, 4, 5, 6, 7, 8, 9, 10, 11, 12,
     0, 1, 2, 3, 4, 5, 6, 7, 8, 9, 10, 11, 12,
     0, 1, 2, 3, 4, 5, 6, 7, 8, 9, 10, 11, 12,
     0, 1, 2, 3, 4, 5, 6, 7, 8, 9, 10, 11, 12]"

definition CardSuit :: "u32 list" where
  "CardSuit =
    [1, 1, 1, 1, 1, 1, 1, 1, 1, 1, 1, 1, 1,
     2, 2, 2, 2, 2, 2, 2, 2, 2, 2, 2, 2, 2,
     4, 4, 4, 4, 4, 4, 4, 4, 4, 4, 4, 4, 4,
     8, 8, 8, 8, 8, 8, 8, 8, 8, 8, 8, 8, 8]"

definition CardSuitIdx :: "u32 list" where
  "CardSuitIdx =
    [0, 0, 0, 0, 0, 0, 0, 0, 0, 0, 0, 0, 0,
     1, 1, 1, 1, 1, 1, 1, 1, 1, 1, 1, 1, 1,
     2, 2, 2, 2, 2, 2, 2, 2, 2, 2, 2, 2, 2,
     3, 3, 3, 3, 3, 3, 3, 3, 3, 3, 3, 3, 3]"

definition CardMask :: "u32 list" where
  "CardMask =
    [1, 2, 4, 8, 0x10, 0x20, 0x40, 0x80, 0x100, 0x200, 0x400, 0x800, 0x1000,
     1, 2, 4, 8, 0x10, 0x20, 0x40, 0x80, 0x100, 0x200, 0x400, 0x800, 0x1000,
     1, 2, 4, 8, 0x10, 0x20, 0x40, 0x80, 0x100, 0x200, 0x400, 0x800, 0x1000,
     1, 2, 4, 8, 0x10, 0x20, 0x40, 0x80, 0x100, 0x200, 0x400, 0x800, 0x1000]"

text \<open>\<open>tab[h[i]]\<close>\<close>

definition card_at :: "'a list \<Rightarrow> u8 list \<Rightarrow> nat \<Rightarrow> 'a option" where
  "card_at tab h i = do { c \<leftarrow> aget h (int i); aget tab (int (unat c)) }"

text \<open>\<open>x & (x - 1)\<close>, which clears the lowest set bit.\<close>

definition rip :: "u32 \<Rightarrow> u32" where
  "rip x = x AND (x - 1)"

text \<open>
  The masks of the ranks that occur at least once, twice, three and four times. The C code
  unrolls the loop and leaves out the masks that are still zero.
\<close>

definition kinds_step :: "u32 \<Rightarrow> u32 \<times> u32 \<times> u32 \<times> u32 \<Rightarrow> u32 \<times> u32 \<times> u32 \<times> u32" where
  "kinds_step c m = (case m of (m1, m2, m3, m4) \<Rightarrow>
     (m1 OR c, m2 OR (c AND m1), m3 OR (c AND m2), m4 OR (c AND m3)))"

definition kinds :: "u32 list \<Rightarrow> u32 \<times> u32 \<times> u32 \<times> u32" where
  "kinds cs = fold kinds_step cs (0, 0, 0, 0)"

section \<open>Five cards\<close>

definition FiveCardDrawScoreFast :: "u32 \<Rightarrow> u32 \<Rightarrow> u32 \<Rightarrow> u32 \<Rightarrow> u32 \<Rightarrow> u32 \<Rightarrow> u32" where
  "FiveCardDrawScoreFast c0 c1 c2 c3 c4 u =
     (let u = rip u;
          (m1, m2, m3, m4) = kinds [c0, c1, c2, c3, c4]
      in if m2 = 0
         then let z = rip m1 XOR m1; y = push_bit 5 z - z
              in if m1 = 0x100F
                 then (if u \<noteq> 0 then STRAIGHT_SCORE + 0xF else STRAIGHT_FLUSH_SCORE + 0xF)
                 else if y = m1
                 then (if u \<noteq> 0 then STRAIGHT_SCORE + m1 else STRAIGHT_FLUSH_SCORE + m1)
                 else if u \<noteq> 0 then m1 else FLUSH_SCORE + m1
         else let m1 = m1 AND NOT m2
              in if m3 = 0
                 then (if m2 AND (m2 - 1) = 0 then TWO_KIND_SCORE + push_bit SUBR_SHL m2 + m1
                       else TWO_PAIR_SCORE + push_bit SUBR_SHL m2 + m1)
                 else let m2 = m2 AND NOT m3
                      in if m4 = 0
                         then (if m2 = 0 then THREE_KIND_SCORE + push_bit SUBR_SHL m3 + m1
                               else FULL_HOUSE_SCORE + push_bit SUBR_SHL m3 + m2)
                         else FOUR_KIND_SCORE + push_bit SUBR_SHL m4 + m1)"

definition FiveCardDrawScore :: "u8 list \<Rightarrow> u32 option" where
  "FiveCardDrawScore h =
     do { u0 \<leftarrow> card_at CardSuit h 0; u1 \<leftarrow> card_at CardSuit h 1; u2 \<leftarrow> card_at CardSuit h 2;
          u3 \<leftarrow> card_at CardSuit h 3; u4 \<leftarrow> card_at CardSuit h 4;
          c0 \<leftarrow> card_at CardMask h 0; c1 \<leftarrow> card_at CardMask h 1; c2 \<leftarrow> card_at CardMask h 2;
          c3 \<leftarrow> card_at CardMask h 3; c4 \<leftarrow> card_at CardMask h 4;
          Some (FiveCardDrawScoreFast c0 c1 c2 c3 c4 (u0 OR u1 OR u2 OR u3 OR u4)) }"

section \<open>Seven cards\<close>

definition LG2TAB :: "int list" where
  "LG2TAB = [- 1, 0, 1, - 1, 2, - 1, - 1, - 1, 3]"

definition flush_add :: "u8 list \<Rightarrow> u32 list \<Rightarrow> nat \<Rightarrow> u32 list \<times> int list \<Rightarrow> (u32 list \<times> int list) option" where
  "flush_add h c k s = (case s of (f, cc) \<Rightarrow>
     do { i \<leftarrow> card_at CardSuitIdx h k;
          ck \<leftarrow> aget c (int k);
          fi \<leftarrow> aget f (uint i);
          f \<leftarrow> aput f (uint i) (fi OR ck);
          ci \<leftarrow> aget cc (uint i);
          cc \<leftarrow> aput cc (uint i) (ci - 1);
          Some (f, cc) })"

text \<open>The loop that keeps the five highest cards of the flush suit.\<close>

function flush_top :: "int \<Rightarrow> u32 \<Rightarrow> u32" where
  "flush_top cc t = (if cc < - 1 then flush_top (cc + 1) (rip t) else t)"
  by pat_completeness auto
termination
  by (relation "measure (\<lambda>(cc, t). nat (- cc))") auto

declare flush_top.simps [simp del]

definition SevenCardDrawFlush :: "u8 list \<Rightarrow> u32 list \<Rightarrow> u32 option" where
  "SevenCardDrawFlush h c =
     do { (f, cc) \<leftarrow> ofold (flush_add h c) [0..<7] (replicate 4 0, replicate 4 4);
          if ((cc ! 0 OR cc ! 1) OR (cc ! 2 OR cc ! 3)) < 0
          then do {
            let s = drop_bit 3 (((cc ! 0 AND 8) OR (cc ! 1 AND 16)) OR ((cc ! 2 AND 32) OR (cc ! 3 AND 64)));
            s \<leftarrow> aget LG2TAB s;
            fs \<leftarrow> aget f s;
            ccs \<leftarrow> aget cc s;
            Some (fs OR push_bit SUBR_SHL (flush_top ccs fs)) }
          else Some 0 }"

definition SevenCardDrawFlushScore :: "u32 \<Rightarrow> u32" where
  "SevenCardDrawFlushScore f = FLUSH_SCORE + drop_bit SUBR_SHL f"

text \<open>\<open>u = (v << k) - 1; u &= ~(u >> l)\<close>: for a single bit \<open>v\<close> and \<open>l = k\<close>, the run of \<open>k\<close> bits from \<open>v\<close> on.\<close>

definition bit_run :: "nat \<Rightarrow> nat \<Rightarrow> u32 \<Rightarrow> u32" where
  "bit_run k l v = (let u = push_bit k v - 1 in u AND NOT (drop_bit l u))"

text \<open>
  What a run of \<open>k\<close> cards (7, 6 or 5) scores: the straight flush, which is looked for in the
  intersection of the flush and the run, the flush, or the straight.
\<close>

definition run_score :: "nat \<Rightarrow> u32 \<Rightarrow> u32 \<Rightarrow> u32" where
  "run_score k f u =
     (if f \<noteq> 0
      then let s = f AND u; w = bit_run k 5 (rip s XOR s); t = drop_bit 1 w; v = drop_bit 2 w
           in if w AND s = w then STRAIGHT_FLUSH_SCORE + w
              else if 6 \<le> k \<and> t AND s = t then STRAIGHT_FLUSH_SCORE + t
              else if 7 \<le> k \<and> v AND s = v then STRAIGHT_FLUSH_SCORE + v
              else if 0x100F AND f = 0x100F then STRAIGHT_FLUSH_SCORE + 0xF
              else SevenCardDrawFlushScore f
      else STRAIGHT_SCORE + (u AND NOT (drop_bit 5 u)))"

text \<open>The loop that keeps the highest bit.\<close>

lemma rip_less: "m \<noteq> 0 \<Longrightarrow> rip m < m"
proof -
  assume m: "m \<noteq> 0"
  then have "unat m \<noteq> 0" by (simp add: unat_eq_0)
  then have "m - 1 < m" using unat_minus_one [OF m] by (simp add: word_less_nat_alt)
  moreover have "rip m \<le> m - 1" unfolding rip_def by (simp add: word_and_le1)
  ultimately show ?thesis by simp
qed

function top_bit :: "u32 \<Rightarrow> u32" where
  "top_bit m = (if rip m \<noteq> 0 then top_bit (rip m) else m)"
  by pat_completeness auto
termination
proof (relation "measure unat")
  fix m :: u32
  assume "rip m \<noteq> 0"
  then have "m \<noteq> 0" by (auto simp: rip_def)
  then show "(rip m, m) \<in> measure unat" using rip_less by (simp add: word_less_nat_alt)
qed simp

declare top_bit.simps [simp del]

text \<open>The score without a straight: kinds and flushes.\<close>

definition kinds_score :: "u32 list \<Rightarrow> u32 \<Rightarrow> u32" where
  "kinds_score c f =
     (let (m1, m2, m3, m4) = kinds c; m1 = m1 AND NOT m2
      in if m3 = 0
         then (if f \<noteq> 0 then SevenCardDrawFlushScore f
               else if m2 \<noteq> 0
               then let s = rip m2
                    in if s = 0 then TWO_KIND_SCORE + push_bit SUBR_SHL m2 + rip (rip m1)
                       else if rip s \<noteq> 0
                       then TWO_PAIR_SCORE + push_bit SUBR_SHL s + rip (m1 OR (m2 XOR s))
                       else TWO_PAIR_SCORE + push_bit SUBR_SHL m2 + rip (rip m1)
               else rip (rip m1))
         else if m4 \<noteq> 0
         then FOUR_KIND_SCORE + push_bit SUBR_SHL m4 + top_bit (m1 OR (m2 AND NOT m4))
         else if m2 AND NOT m3 = 0
         then let t = rip m3
              in if t \<noteq> 0 then FULL_HOUSE_SCORE + push_bit SUBR_SHL t + (m3 XOR t)
                 else if f \<noteq> 0 then SevenCardDrawFlushScore f
                 else THREE_KIND_SCORE + push_bit SUBR_SHL m3 + rip (rip m1)
         else let m2 = m2 AND NOT m3; t = rip m2; t = (if t = 0 then m2 else t)
              in FULL_HOUSE_SCORE + push_bit SUBR_SHL m3 + t)"

text \<open>The run of five cards that the third test looks at: from the lowest, the second or the third card on.\<close>

definition run5 :: "u32 \<Rightarrow> u32 \<Rightarrow> u32 \<Rightarrow> u32" where
  "run5 t s v =
     (let u = bit_run 5 5 v
      in if u AND t \<noteq> u
         then let s' = rip s; u = bit_run 5 5 (s XOR s')
              in if u AND t \<noteq> u then bit_run 5 5 (s' XOR rip s') else u
         else u)"

definition seven_score :: "u32 list \<Rightarrow> u32 \<Rightarrow> u32 \<Rightarrow> u32" where
  "seven_score c f t =
     (let s = rip t; v = s XOR t; u = bit_run 7 7 v
      in if u AND t = u then run_score 7 f u
         else let u = bit_run 6 6 v; u = (if u AND t \<noteq> u then bit_run 6 6 (rip s XOR s) else u)
              in if u AND t = u then run_score 6 f u
                 else let u = run5 t s v
                      in if u AND t = u then run_score 5 f u
                         else if 0x100F AND t = 0x100F
                         then (if f \<noteq> 0
                               then (if 0x100F AND f = 0x100F then STRAIGHT_FLUSH_SCORE + 0xF
                                     else SevenCardDrawFlushScore f)
                               else STRAIGHT_SCORE + 0xF)
                         else kinds_score c f)"

definition SevenCardDrawScore :: "u8 list \<Rightarrow> u32 option" where
  "SevenCardDrawScore h =
     do { c0 \<leftarrow> card_at CardMask h 0; c1 \<leftarrow> card_at CardMask h 1; c2 \<leftarrow> card_at CardMask h 2;
          c3 \<leftarrow> card_at CardMask h 3; c4 \<leftarrow> card_at CardMask h 4; c5 \<leftarrow> card_at CardMask h 5;
          c6 \<leftarrow> card_at CardMask h 6;
          f \<leftarrow> SevenCardDrawFlush h [c0, c1, c2, c3, c4, c5, c6];
          Some (seven_score [c0, c1, c2, c3, c4, c5, c6] f
                  (((c0 OR c1) OR (c2 OR c3)) OR (c4 OR c5 OR c6))) }"

text \<open>The copy loops of the brute-force score: \<open>h2[k - d] = h[k]\<close>.\<close>

definition copy_cards :: "u8 list \<Rightarrow> int \<Rightarrow> nat list \<Rightarrow> u8 list \<Rightarrow> u8 list option" where
  "copy_cards h d ks h2 = ofold (\<lambda>k h2. do { c \<leftarrow> aget h (int k); aput h2 (int k - d) c }) ks h2"

definition slow_inner :: "u8 list \<Rightarrow> nat \<Rightarrow> nat \<Rightarrow> u32 \<times> u8 list \<Rightarrow> (u32 \<times> u8 list) option" where
  "slow_inner h i j s = (case s of (m, h2) \<Rightarrow>
     do { h2 \<leftarrow> copy_cards h 1 [i + 1..<j] h2;
          h2 \<leftarrow> copy_cards h 2 [j + 1..<7] h2;
          r \<leftarrow> FiveCardDrawScore h2;
          Some (if r > m then r else m, h2) })"

definition slow_outer :: "u8 list \<Rightarrow> nat \<Rightarrow> u32 \<times> u8 list \<Rightarrow> (u32 \<times> u8 list) option" where
  "slow_outer h i s = (case s of (m, h2) \<Rightarrow>
     do { h2 \<leftarrow> copy_cards h 0 [0..<i] h2; ofold (slow_inner h i) [i + 1..<7] (m, h2) })"

text \<open>The array \<open>h2\<close> is not initialised; every entry is written before it is read.\<close>

definition SevenCardDrawScoreSlow :: "u8 list \<Rightarrow> u8 list \<Rightarrow> u32 option" where
  "SevenCardDrawScoreSlow uninit h = map_option fst (ofold (slow_outer h) [0..<6] (0, uninit))"

section \<open>Card piles\<close>

record CardPileType =
  pile_len :: nat
  pile_entry :: "u8 list"

text \<open>
  \<open>Shuffle\<close> with the results of \<open>rand()\<close> as a list: the rejection loop takes numbers until one is
  below the largest multiple of the range; \<open>None\<close> if the list ends first.
\<close>

fun draw_below :: "nat \<Rightarrow> nat list \<Rightarrow> (nat \<times> nat list) option" where
  "draw_below k [] = None"
| "draw_below k (j # rands) = (if j \<ge> k then draw_below k rands else Some (j, rands))"

definition shuffle_step :: "nat \<Rightarrow> nat \<Rightarrow> CardPileType \<times> nat list \<Rightarrow> (CardPileType \<times> nat list) option" where
  "shuffle_step RAND_MAX i s = (case s of (c, rands) \<Rightarrow>
     do { let n = pile_len c - i;
          (j, rands) \<leftarrow> draw_below ((RAND_MAX div n) * n) rands;
          let j = i + j mod n;
          t \<leftarrow> aget (pile_entry c) (int i);
          x \<leftarrow> aget (pile_entry c) (int j);
          e \<leftarrow> aput (pile_entry c) (int i) x;
          e \<leftarrow> aput e (int j) t;
          Some (c\<lparr>pile_entry := e\<rparr>, rands) })"

definition Shuffle :: "nat \<Rightarrow> CardPileType \<Rightarrow> nat list \<Rightarrow> (CardPileType \<times> nat list) option" where
  "Shuffle RAND_MAX c rands = ofold (shuffle_step RAND_MAX) [0..<pile_len c - 1] (c, rands)"

fun deal_loop :: "nat \<Rightarrow> nat \<Rightarrow> CardPileType \<Rightarrow> CardPileType \<Rightarrow> (nat \<times> CardPileType \<times> CardPileType) option" where
  "deal_loop i 0 h d = Some (i, h, d)"
| "deal_loop i (Suc n) h d =
     (if 0 < pile_len d
      then do { let d = d\<lparr>pile_len := pile_len d - 1\<rparr>;
                x \<leftarrow> aget (pile_entry d) (int (pile_len d));
                e \<leftarrow> aput (pile_entry h) (int (pile_len h)) x;
                deal_loop (i + 1) n (h\<lparr>pile_entry := e, pile_len := pile_len h + 1\<rparr>) d }
      else Some (i, h, d))"

definition Deal :: "CardPileType \<Rightarrow> CardPileType \<Rightarrow> nat \<Rightarrow> (nat \<times> CardPileType \<times> CardPileType) option" where
  "Deal h d n = deal_loop 0 n h d"

definition InitDeck :: CardPileType where
  "InitDeck = \<lparr>pile_len = 52, pile_entry = map word_of_nat [0..<52]\<rparr>"

section \<open>Names of cards and hands\<close>

text \<open>The name of a card and the return value.\<close>

definition cardstr :: "u8 \<Rightarrow> (string \<times> u8) option" where
  "cardstr c =
     do { let suit = unat c div 13; let c = c mod 13;
          suitc \<leftarrow> aget [CHR ''C'', CHR ''D'', CHR ''H'', CHR ''S''] (int suit);
          cardc \<leftarrow> aget ''A234567890JQK'' (int (unat c));
          Some (if c = 9 then ''10'' @ [suitc] else [cardc, suitc], c) }"

text \<open>\<open>DisplayCard\<close> appends a blank and the card's name.\<close>

definition DisplayCard :: "u8 \<Rightarrow> string \<Rightarrow> string option" where
  "DisplayCard c out =
     do { v \<leftarrow> aget CardValue (uint c);
          su \<leftarrow> aget CardSuit (uint c);
          a \<leftarrow> aget ''        1    '' (uint v);
          b \<leftarrow> aget ''234567890JQKA'' (uint v);
          d \<leftarrow> aget [None, Some (CHR ''c''), Some (CHR ''d''), None, Some (CHR ''h''), None, None, None, Some (CHR ''s'')] (uint su);
          Some (out @ '' '' @ [a, b] @ (case d of None \<Rightarrow> [] | Some x \<Rightarrow> [x])) }"

definition set_cardstr :: "u32 \<Rightarrow> string" where
  "set_cardstr c =
     (let c = drop_bit 1 c
      in concat (map (\<lambda>i. if push_bit i 1 AND c \<noteq> 0
                          then [''        1    '' ! i, ''234567890JQKA'' ! i, CHR '' ''] else []) (rev [0..<13])))"

text \<open>
  The characters of a description: position \<open>i\<close> of a string that ends with a zero byte; what lies
  behind the zero byte was never written.
\<close>

definition char_at :: "string \<Rightarrow> nat \<Rightarrow> char option" where
  "char_at s i = aget (s @ [CHR 0x00]) (int i)"

definition pair_at :: "string \<Rightarrow> nat \<Rightarrow> string option" where
  "pair_at s i = do { a \<leftarrow> char_at s i; b \<leftarrow> char_at s (i + 1); Some [a, b] }"

definition handstr_text :: "u32 \<Rightarrow> bool \<Rightarrow> string option" where
  "handstr_text score verbose =
     do { let cardstr = set_cardstr (drop_bit SUBR_SHL score AND SUBR_SHLMASK);
          let cardstr2 = set_cardstr (score AND SUBR_SHLMASK);
          let kickerstr = kickerstrs ! unat (drop_bit RANK_SHL score AND 15);
          let str = handstrs ! unat (drop_bit RANK_SHL score AND 15);
          if kickerstr = ''high''
          then do { p \<leftarrow> pair_at cardstr2 0; Some (p @ '' high '' @ str) }
          else if str = ''full house''
          then do { p \<leftarrow> pair_at cardstr 0; q \<leftarrow> pair_at cardstr2 0;
                    Some (if verbose then p @ '' full of '' @ q else ''fullhouse '' @ p @ '' '' @ q) }
          else if str = ''three of a kind''
          then do { p \<leftarrow> pair_at cardstr 0;
                    if verbose
                    then do { q \<leftarrow> pair_at cardstr2 0; r \<leftarrow> pair_at cardstr2 3;
                              Some (''set of '' @ p @ '' with kickers '' @ q @ '' '' @ r) }
                    else Some (''trip '' @ p) }
          else if str = ''two pair''
          then do { p \<leftarrow> pair_at cardstr 0; q \<leftarrow> pair_at cardstr 3;
                    if verbose
                    then do { r \<leftarrow> pair_at cardstr2 0;
                              Some (''two pair '' @ p @ '' and '' @ q @ '' with '' @ r @ '' kicker'') }
                    else Some (''two pairs '' @ p @ '' '' @ q) }
          else if str = ''one pair''
          then do { p \<leftarrow> pair_at cardstr 0;
                    if verbose
                    then do { q \<leftarrow> pair_at cardstr2 0; Some (''pair of '' @ p @ '' with '' @ q @ '' kicker'') }
                    else Some (''pair '' @ p) }
          else Some (if verbose then str @ '' '' @ cardstr @ '' '' @ kickerstr @ '' '' @ cardstr2
                     else cardstr2) }"

text \<open>
  \<open>set_handstr\<close>: the score and, as a second component, the description it writes (\<open>None\<close> inside if
  it is built from characters that were never written).
\<close>

definition set_handstr :: "u8 list \<Rightarrow> bool \<Rightarrow> (u32 \<times> string option) option" where
  "set_handstr cards verbose =
     (if length cards < 7 then None
      else if \<exists>c \<in> set (take 7 cards). c \<ge> 52 then Some (0, Some [])
      else do { score \<leftarrow> SevenCardDrawScore cards; Some (score, handstr_text score verbose) })"

section \<open>Bits of masks\<close>

lemma mask_of_card:
  assumes "c < (52 :: nat)"
  shows "CardMask ! c = push_bit (c mod 13) 1" and "CardSuit ! c = push_bit (c div 13) 1"
proof -
  have "list_all (\<lambda>c. CardMask ! c = push_bit (c mod 13) 1 \<and> CardSuit ! c = push_bit (c div 13) 1) [0..<52]"
    by code_simp
  then have "\<forall>c \<in> set [0..<52]. CardMask ! c = push_bit (c mod 13) 1 \<and> CardSuit ! c = push_bit (c div 13) 1"
    by (simp only: list_all_iff)
  with assms show "CardMask ! c = push_bit (c mod 13) 1" and "CardSuit ! c = push_bit (c div 13) 1"
    by (auto simp del: upt.simps)
qed

text \<open>Below the lowest set bit \<open>k\<close> everything is zero; \<open>rip\<close> clears exactly bit \<open>k\<close>.\<close>

definition lowest :: "u32 \<Rightarrow> nat \<Rightarrow> bool" where
  "lowest m k \<longleftrightarrow> bit m k \<and> (\<forall>i < k. \<not> bit m i)"

lemma lowest_exists: "m \<noteq> 0 \<Longrightarrow> \<exists>k. lowest m k"
proof -
  assume "m \<noteq> 0"
  then have "\<exists>k. bit m k" by (metis bit_0_eq bot_apply bot_bool_def bit_eq_iff)
  then show ?thesis unfolding lowest_def using exists_least_iff [of "bit m"] by blast
qed

lemma bit_rip:
  assumes "lowest m k"
  shows "bit (rip m) j \<longleftrightarrow> bit m j \<and> j \<noteq> k"
proof -
  define A where "A = push_bit (Suc k) (drop_bit (Suc k) m)"
  have k: "k < 32" using assms bit_imp_le_length [of m k] by (simp add: lowest_def)
  have A: "bit A i \<longleftrightarrow> Suc k \<le> i \<and> bit m i" for i
    unfolding A_def by (simp only: bit_push_bit_iff bit_drop_bit_eq comp_def) (auto dest: bit_imp_le_length)
  have "m = A OR push_bit k 1"
  proof (rule bit_word_eqI)
    fix i assume "i < LENGTH(32)"
    then have "i < 32" by simp
    moreover have "bit m k" "\<And>i. i < k \<Longrightarrow> \<not> bit m i" using assms by (auto simp: lowest_def)
    ultimately show "bit m i = bit (A OR push_bit k 1) i"
      unfolding bit_or_iff A by (cases i k rule: linorder_cases) (auto simp: bit_exp_iff)
  qed
  also have "\<dots> = A + push_bit k 1"
    by (rule disjunctive_add_eq_or [symmetric]) (rule bit_word_eqI, auto simp: A bit_and_iff bit_exp_iff)
  finally have "m - 1 = A + (push_bit k 1 - 1)" by simp
  also have "push_bit k 1 - 1 = (mask k :: u32)" by (simp add: mask_eq_exp_minus_1 push_bit_of_1)
  also have "A + mask k = A OR mask k"
    by (rule disjunctive_add_eq_or) (rule bit_word_eqI, auto simp: A bit_and_iff bit_mask_iff)
  finally have m1: "m - 1 = A OR mask k" .
  show ?thesis
    unfolding rip_def bit_and_iff m1 bit_or_iff A
    using assms by (auto simp: lowest_def bit_mask_iff dest: bit_imp_le_length)
qed

lemma rip_zero_iff: "m \<noteq> 0 \<Longrightarrow> rip m = 0 \<longleftrightarrow> (\<forall>i j. bit m i \<longrightarrow> bit m j \<longrightarrow> i = j)"
proof -
  assume "m \<noteq> 0"
  then obtain k where k: "lowest m k" using lowest_exists by blast
  have "rip m = 0 \<longleftrightarrow> (\<forall>j. \<not> (bit m j \<and> j \<noteq> k))"
    by (metis bit_rip [OF k] bit_0_eq bot_apply bot_bool_def bit_eq_iff)
  then show ?thesis using k unfolding lowest_def by blast
qed

lemma rip_xor: "lowest m k \<Longrightarrow> rip m XOR m = push_bit k 1"
  by (rule bit_word_eqI) (auto simp: bit_xor_iff bit_rip bit_exp_iff lowest_def)

lemma kinds_bits:
  assumes "kinds cs = (m1, m2, m3, m4)" and "n = length (filter (\<lambda>c. bit c j) cs)"
  shows "bit m1 j \<longleftrightarrow> 1 \<le> n" "bit m2 j \<longleftrightarrow> 2 \<le> n" "bit m3 j \<longleftrightarrow> 3 \<le> n" "bit m4 j \<longleftrightarrow> 4 \<le> n"
proof -
  have "case fold kinds_step cs (a1, a2, a3, a4) of (m1, m2, m3, m4) \<Rightarrow>
      (bit m1 j \<longleftrightarrow> 1 \<le> n0 + length (filter (\<lambda>c. bit c j) cs)) \<and> (bit m2 j \<longleftrightarrow> 2 \<le> n0 + length (filter (\<lambda>c. bit c j) cs))
      \<and> (bit m3 j \<longleftrightarrow> 3 \<le> n0 + length (filter (\<lambda>c. bit c j) cs)) \<and> (bit m4 j \<longleftrightarrow> 4 \<le> n0 + length (filter (\<lambda>c. bit c j) cs))"
    if "bit a1 j \<longleftrightarrow> 1 \<le> n0" "bit a2 j \<longleftrightarrow> 2 \<le> n0" "bit a3 j \<longleftrightarrow> 3 \<le> n0" "bit a4 j \<longleftrightarrow> 4 \<le> n0"
    for a1 a2 a3 a4 n0
    using that
  proof (induction cs arbitrary: a1 a2 a3 a4 n0)
    case Nil
    then show ?case by simp
  next
    case (Cons c cs)
    let ?n = "n0 + (if bit c j then 1 else 0)"
    have s: "bit (a1 OR c) j \<longleftrightarrow> 1 \<le> ?n" "bit (a2 OR (c AND a1)) j \<longleftrightarrow> 2 \<le> ?n"
        "bit (a3 OR (c AND a2)) j \<longleftrightarrow> 3 \<le> ?n" "bit (a4 OR (c AND a3)) j \<longleftrightarrow> 4 \<le> ?n"
      using Cons.prems by (auto simp: bit_or_iff bit_and_iff)
    have l: "?n + length (filter (\<lambda>c. bit c j) cs) = n0 + length (filter (\<lambda>c. bit c j) (c # cs))" by simp
    show ?case using Cons.IH [OF s] unfolding l by (simp add: kinds_step_def)
  qed
  from this [of 0 0 0 0 0] assms
  show "bit m1 j \<longleftrightarrow> 1 \<le> n" "bit m2 j \<longleftrightarrow> 2 \<le> n" "bit m3 j \<longleftrightarrow> 3 \<le> n" "bit m4 j \<longleftrightarrow> 4 \<le> n"
    unfolding kinds_def by simp_all
qed

section \<open>The category of a five-card hand\<close>

definition ranks :: "u8 list \<Rightarrow> nat list" where
  "ranks h = map (\<lambda>c. unat c mod 13) h"

definition suits :: "u8 list \<Rightarrow> nat list" where
  "suits h = map (\<lambda>c. unat c div 13) h"

definition is_flush :: "u8 list \<Rightarrow> bool" where
  "is_flush h \<longleftrightarrow> (\<forall>s \<in> set (suits h). \<forall>t \<in> set (suits h). s = t)"

text \<open>Five ranks in a row; the highest rank also counts below the lowest.\<close>

definition is_straight :: "u8 list \<Rightarrow> bool" where
  "is_straight h \<longleftrightarrow> set (ranks h) = {0, 1, 2, 3, 12} \<or> (\<exists>k \<in> set (ranks h). set (ranks h) = {k, k + 1, k + 2, k + 3, k + 4})"

definition of_kind :: "nat \<Rightarrow> u8 list \<Rightarrow> nat set" where
  "of_kind n h = {r \<in> set (ranks h). count_list (ranks h) r = n}"

definition five_category :: "u8 list \<Rightarrow> nat" where
  "five_category h =
     (if is_straight h \<and> is_flush h then 8
      else if of_kind 4 h \<noteq> {} then 7
      else if of_kind 3 h \<noteq> {} \<and> of_kind 2 h \<noteq> {} then 6
      else if is_flush h then 5
      else if is_straight h then 4
      else if of_kind 3 h \<noteq> {} then 3
      else if card (of_kind 2 h) = 2 then 2
      else if of_kind 2 h \<noteq> {} then 1 else 0)"

lemma category_div:
  fixes k x :: u32
  assumes "unat k < 16" and "unat x < 2 ^ 27"
  shows "unat (push_bit 27 k + x) div 2 ^ 27 = unat k"
proof -
  have "unat (push_bit 27 k) = unat k * 2 ^ 27"
    using assms(1) by (simp add: push_bit_eq_mult unat_word_ariths)
  then have "unat (push_bit 27 k + x) = unat k * 2 ^ 27 + unat x"
    using assms by (simp add: unat_word_ariths)
  then show ?thesis using assms(2) by simp
qed

text \<open>A mask of ranks has no bit above 12.\<close>

definition rankmask :: "u32 \<Rightarrow> bool" where
  "rankmask m \<longleftrightarrow> (\<forall>j. bit m j \<longrightarrow> j < 13)"

lemma rankmask_less: "rankmask m \<Longrightarrow> unat m < 2 ^ 13"
proof -
  assume "rankmask m"
  then have "m = take_bit 13 m" by (intro bit_word_eqI) (auto simp: rankmask_def bit_take_bit_iff)
  then have "unat m = take_bit 13 (unat m)" by (metis unsigned_take_bit_eq)
  then show ?thesis by (metis take_bit_nat_less_exp)
qed

lemma sub_less:
  assumes "rankmask a" and "rankmask b"
  shows "unat (push_bit 13 a + b) < 2 ^ 27"
proof -
  have "unat (push_bit 13 a) = unat a * 2 ^ 13"
    using rankmask_less [OF assms(1)] by (simp add: push_bit_eq_mult unat_word_ariths)
  then have "unat (push_bit 13 a + b) = unat a * 2 ^ 13 + unat b"
    using rankmask_less [OF assms(1)] rankmask_less [OF assms(2)] by (simp add: unat_word_ariths)
  then show ?thesis using rankmask_less [OF assms(1)] rankmask_less [OF assms(2)] by simp
qed

lemma count_filter_bits:
  "length (filter (\<lambda>c. bit c j) (map (\<lambda>r. push_bit r (1 :: u32)) rs)) = (if j < 32 then count_list rs j else 0)"
  by (induction rs) (auto simp: bit_exp_iff dest: bit_imp_le_length)

lemma five_eval:
  assumes "length h = 5" and "\<forall>c \<in> set h. c < 52"
  shows "\<exists>u. FiveCardDrawScore h = Some (FiveCardDrawScoreFast (push_bit (ranks h ! 0) 1) (push_bit (ranks h ! 1) 1)
      (push_bit (ranks h ! 2) 1) (push_bit (ranks h ! 3) 1) (push_bit (ranks h ! 4) 1) u)
    \<and> (\<forall>j. bit u j \<longleftrightarrow> j \<in> set (suits h))"
proof -
  obtain h0 h1 h2 h3 h4 where h: "h = [h0, h1, h2, h3, h4]"
    using assms(1) by (auto simp: numeral_eq_Suc length_Suc_conv)
  have c: "unat x < 52" if "x \<in> set h" for x using assms(2) that by (auto simp: word_less_nat_alt)
  have l: "length CardMask = 52" "length CardSuit = 52" by (simp_all add: CardMask_def CardSuit_def)
  have at: "card_at CardMask h i = Some (push_bit (ranks h ! i) 1) \<and> card_at CardSuit h i = Some (push_bit (suits h ! i) 1)"
    if "i < 5" for i
  proof -
    have "unat (h ! i) < 52" using c [of "h ! i"] that assms(1) by simp
    then show ?thesis
      using that assms(1) l mask_of_card [of "unat (h ! i)"]
      by (simp only: card_at_def aget_nat bind.bind_lunit ranks_def suits_def nth_map)
  qed
  let ?u = "push_bit (suits h ! 0) 1 OR push_bit (suits h ! 1) 1 OR push_bit (suits h ! 2) 1 OR push_bit (suits h ! 3) 1
      OR push_bit (suits h ! 4) (1 :: u32)"
  have "FiveCardDrawScore h = Some (FiveCardDrawScoreFast (push_bit (ranks h ! 0) 1) (push_bit (ranks h ! 1) 1)
      (push_bit (ranks h ! 2) 1) (push_bit (ranks h ! 3) 1) (push_bit (ranks h ! 4) 1) ?u)"
    using at [of 0] at [of 1] at [of 2] at [of 3] at [of 4]
    unfolding FiveCardDrawScore_def by simp
  moreover have "bit ?u j \<longleftrightarrow> j \<in> set (suits h)" for j
  proof -
    have "unat x div 13 < 32" if "x \<in> set h" for x using c [OF that] by linarith
    then have "\<forall>x \<in> set (suits h). x < 32" by (auto simp: suits_def)
    then show ?thesis unfolding h suits_def by (auto simp: bit_or_iff bit_exp_iff)
  qed
  ultimately show ?thesis by blast
qed

lemma card_eq_suit_rank: "unat c mod 13 = unat d mod 13 \<Longrightarrow> unat c div 13 = unat d div 13 \<Longrightarrow> (c :: u8) = d"
  by (metis div_mult_mod_eq unsigned_word_eqI)

lemma flush_distinct_ranks:
  assumes "distinct h" and "is_flush h"
  shows "distinct (ranks h)"
proof -
  have "inj_on (\<lambda>c. unat c mod 13) (set h)"
    using assms(2) by (auto simp: inj_on_def is_flush_def suits_def intro: card_eq_suit_rank)
  then show ?thesis using assms(1) by (simp add: ranks_def distinct_map)
qed

lemma straight_distinct_ranks:
  assumes "length h = 5" and "is_straight h"
  shows "distinct (ranks h)"
proof -
  have "card (set (ranks h)) = 5" using assms(2) by (auto simp: is_straight_def)
  then show ?thesis using assms(1) by (intro card_distinct) (simp add: ranks_def)
qed

lemma count_list_full: "count_list xs x = length xs \<Longrightarrow> \<forall>y \<in> set xs. y = x"
proof (induction xs)
  case (Cons y ys)
  then show ?case using count_le_length [of ys x] by (auto split: if_splits)
qed simp

lemma count_list_distinct: "distinct xs \<Longrightarrow> count_list xs x \<le> 1"
  by (induction xs) auto

lemma at_most_four:
  assumes h: "length h = 5" "distinct h" "\<forall>c \<in> set h. c < 52"
  shows "count_list (ranks h) r \<le> 4"
proof (rule ccontr)
  assume "\<not> count_list (ranks h) r \<le> 4"
  then have "count_list (ranks h) r = length (ranks h)"
    using count_le_length [of "ranks h" r] h(1) by (simp add: ranks_def)
  then have "\<forall>y \<in> set (ranks h). y = r" by (rule count_list_full)
  then have r: "\<forall>x \<in> set h. unat x mod 13 = r" by (simp add: ranks_def)
  then have "inj_on (\<lambda>c. unat c div 13) (set h)" by (auto simp: inj_on_def intro: card_eq_suit_rank)
  then have "card ((\<lambda>c. unat c div 13) ` set h) = 5" using h by (simp add: card_image distinct_card)
  moreover have "(\<lambda>c. unat c div 13) ` set h \<subseteq> {0, 1, 2, 3}"
    using h(3) by (auto simp: word_less_nat_alt)
  ultimately show False using card_mono [of "{0, 1, 2, 3 :: nat}" "(\<lambda>c. unat c div 13) ` set h"] by simp
qed

lemma of_kind_empty_iff: "0 < n \<Longrightarrow> of_kind n h = {} \<longleftrightarrow> (\<forall>j. count_list (ranks h) j \<noteq> n)"
  using count_list_0_iff [of "ranks h"] unfolding of_kind_def by (metis (mono_tags, lifting) empty_Collect_eq less_irrefl)

lemma rank_counts:
  assumes "length h = 5" and "S \<subseteq> set (ranks h)" and "\<forall>r \<in> S. n \<le> count_list (ranks h) r"
  shows "n * card S \<le> 5"
proof -
  have "n * card S \<le> sum (count_list (ranks h)) S"
    using sum_bounded_below [of S n "count_list (ranks h)"] assms(3) by (simp add: mult.commute)
  also have "\<dots> \<le> sum (count_list (ranks h)) (set (ranks h))" using assms(2) by (intro sum_mono2) auto
  also have "\<dots> = 5" using assms(1) by (simp add: sum_count_set ranks_def)
  finally show ?thesis .
qed

text \<open>The masks and the counts.\<close>

lemma kinds_counts:
  assumes h: "length h = 5" "\<forall>c \<in> set h. c < 52"
    and k: "kinds [push_bit (ranks h ! 0) 1, push_bit (ranks h ! 1) 1, push_bit (ranks h ! 2) 1,
      push_bit (ranks h ! 3) 1, push_bit (ranks h ! 4) 1] = (m1, m2, m3, m4)"
  shows "bit m1 j \<longleftrightarrow> 1 \<le> count_list (ranks h) j" "bit m2 j \<longleftrightarrow> 2 \<le> count_list (ranks h) j"
    "bit m3 j \<longleftrightarrow> 3 \<le> count_list (ranks h) j" "bit m4 j \<longleftrightarrow> 4 \<le> count_list (ranks h) j"
proof -
  obtain h0 h1 h2 h3 h4 where hh: "h = [h0, h1, h2, h3, h4]"
    using h(1) by (auto simp: numeral_eq_Suc length_Suc_conv)
  have l: "[push_bit (ranks h ! 0) 1, push_bit (ranks h ! 1) 1, push_bit (ranks h ! 2) 1,
      push_bit (ranks h ! 3) 1, push_bit (ranks h ! 4) 1] = map (\<lambda>r. push_bit r (1 :: u32)) (ranks h)"
    unfolding hh ranks_def by simp
  have "\<not> j < 32 \<Longrightarrow> j \<notin> set (ranks h)" by (auto simp: ranks_def)
  then have "\<not> j < 32 \<Longrightarrow> count_list (ranks h) j = 0" by simp
  then have "count_list (ranks h) j = length (filter (\<lambda>c. bit c j) (map (\<lambda>r. push_bit r (1 :: u32)) (ranks h)))"
    unfolding count_filter_bits by simp
  from kinds_bits [OF k [unfolded l] this]
  show "bit m1 j \<longleftrightarrow> 1 \<le> count_list (ranks h) j" "bit m2 j \<longleftrightarrow> 2 \<le> count_list (ranks h) j"
    "bit m3 j \<longleftrightarrow> 3 \<le> count_list (ranks h) j" "bit m4 j \<longleftrightarrow> 4 \<le> count_list (ranks h) j" .
qed

lemma word_zero_iff: "(m :: u32) = 0 \<longleftrightarrow> (\<forall>j. \<not> bit m j)"
  by (metis bit_0_eq bot_apply bot_bool_def bit_eq_iff)

lemma word_eq_iff_bits: "(a :: u32) = b \<longleftrightarrow> (\<forall>j. bit a j \<longleftrightarrow> bit b j)"
  by (metis bit_eq_iff)

lemma wheel_bits: "bit (0x100F :: u32) j \<longleftrightarrow> j \<in> {0, 1, 2, 3, 12}"
proof (cases "j < 32")
  case True
  have "list_all (\<lambda>j. bit (0x100F :: u32) j \<longleftrightarrow> j \<in> {0, 1, 2, 3, 12}) [0..<32]" by code_simp
  then have "\<forall>j \<in> set [0..<32]. bit (0x100F :: u32) j \<longleftrightarrow> j \<in> {0, 1, 2, 3, 12}" by (simp only: list_all_iff)
  with True show ?thesis by (auto simp del: upt.simps)
next
  case False
  then show ?thesis using bit_imp_le_length [of "0x100F :: u32" j] by auto
qed

lemma run_bits: "bit (push_bit 5 (push_bit k 1) - push_bit k 1 :: u32) j \<longleftrightarrow> k \<le> j \<and> j < k + 5 \<and> j < 32"
proof -
  have "push_bit 5 (push_bit k 1) - push_bit k 1 = push_bit k (mask 5 :: u32)"
    by (simp add: push_bit_eq_mult mask_eq_exp_minus_1 algebra_simps)
  then show ?thesis by (simp only: bit_push_bit_iff bit_mask_iff) auto
qed

lemma straight_test:
  assumes "\<forall>j. bit m j \<longleftrightarrow> j \<in> set (ranks h)" and "h \<noteq> []"
  shows "m = 0x100F \<or> push_bit 5 (rip m XOR m) - (rip m XOR m) = m \<longleftrightarrow> is_straight h"
proof -
  have "ranks h \<noteq> []" using assms(2) by (simp add: ranks_def)
  then have "m \<noteq> 0" using assms(1) word_zero_iff [of m] by (metis last_in_set)
  then obtain k where k: "lowest m k" using lowest_exists by blast
  have kr: "k \<in> set (ranks h)" "\<forall>j \<in> set (ranks h). k \<le> j" using k assms(1) by (auto simp: lowest_def not_less [symmetric])
  have lt: "j < 13" if "j \<in> set (ranks h)" for j using that by (auto simp: ranks_def)
  have w: "m = 0x100F \<longleftrightarrow> set (ranks h) = {0, 1, 2, 3, 12}"
    unfolding word_eq_iff_bits wheel_bits assms(1) [rule_format] by blast
  have "push_bit 5 (rip m XOR m) - (rip m XOR m) = m \<longleftrightarrow> (\<forall>j. (k \<le> j \<and> j < k + 5 \<and> j < 32) \<longleftrightarrow> j \<in> set (ranks h))"
    unfolding rip_xor [OF k] word_eq_iff_bits run_bits assms(1) [rule_format] ..
  also have "\<dots> \<longleftrightarrow> set (ranks h) = {k, k + 1, k + 2, k + 3, k + 4}"
  proof -
    have "{j. k \<le> j \<and> j < k + 5 \<and> j < 32} = {k, k + 1, k + 2, k + 3, k + 4}" using lt [OF kr(1)] by auto
    then show ?thesis by blast
  qed
  also have "\<dots> \<longleftrightarrow> (\<exists>k \<in> set (ranks h). set (ranks h) = {k, k + 1, k + 2, k + 3, k + 4})"
    using kr by (auto simp: set_eq_iff)
  finally show ?thesis using w by (simp add: is_straight_def)
qed

lemma rankmask_counts:
  "(\<And>j. bit m j \<Longrightarrow> n \<le> count_list (ranks h) j) \<Longrightarrow> 0 < n \<Longrightarrow> rankmask m"
proof -
  assume b: "\<And>j. bit m j \<Longrightarrow> n \<le> count_list (ranks h) j" and n: "0 < n"
  have "j < 13" if "bit m j" for j
  proof -
    have "j \<in> set (ranks h)" using b [OF that] n by (metis count_list_0_iff not_le)
    then show ?thesis by (auto simp: ranks_def)
  qed
  then show ?thesis by (simp add: rankmask_def)
qed

lemma rankmask_and: "rankmask a \<Longrightarrow> rankmask (a AND b)"
  by (simp add: rankmask_def bit_and_iff)

text \<open>Hands without a pair.\<close>

lemma category_no_pair:
  assumes h: "length h = 5" "\<forall>c \<in> set h. c < 52" and u: "\<forall>j. bit u j \<longleftrightarrow> j \<in> set (suits h)"
    and k: "kinds [push_bit (ranks h ! 0) 1, push_bit (ranks h ! 1) 1, push_bit (ranks h ! 2) 1,
      push_bit (ranks h ! 3) 1, push_bit (ranks h ! 4) 1] = (m1, m2, m3, m4)" and m2: "m2 = 0"
  shows "unat (FiveCardDrawScoreFast (push_bit (ranks h ! 0) 1) (push_bit (ranks h ! 1) 1)
      (push_bit (ranks h ! 2) 1) (push_bit (ranks h ! 3) 1) (push_bit (ranks h ! 4) 1) u) div 2 ^ 27 = five_category h"
proof -
  note bits = kinds_counts [OF h k]
  have le: "count_list (ranks h) j < 2" for j using bits(2) [of j] m2 by simp
  have m1: "\<forall>j. bit m1 j \<longleftrightarrow> j \<in> set (ranks h)"
    using bits(1) count_list_0_iff [of "ranks h"] by (metis less_one not_le)
  have rm: "unat m1 < 2 ^ 13" "unat m1 < 2 ^ 27"
    using rankmask_less [OF rankmask_counts [of m1 1 h]] bits(1) by simp_all
  have "h \<noteq> []" using h(1) by auto
  note st = straight_test [OF m1 this]
  have ne: "suits h \<noteq> []" using h(1) by (auto simp: suits_def)
  then have "u \<noteq> 0" using u word_zero_iff [of u] by (metis last_in_set)
  then have fl: "rip u = 0 \<longleftrightarrow> is_flush h"
    unfolding rip_zero_iff [OF \<open>u \<noteq> 0\<close>] is_flush_def u [rule_format] by blast
  have kind: "of_kind 4 h = {}" "of_kind 3 h = {}" "of_kind 2 h = {}"
    using le by (auto simp: of_kind_def) (metis less_irrefl numeral_less_iff semiring_norm(76,81) order.strict_trans)+
  have "five_category h = (if is_straight h \<and> is_flush h then 8 else if is_flush h then 5 else if is_straight h then 4 else 0)"
    by (simp add: five_category_def kind)
  moreover have "unat (push_bit 27 8 + x :: u32) div 2 ^ 27 = 8" "unat (push_bit 27 5 + x :: u32) div 2 ^ 27 = 5"
      "unat (push_bit 27 4 + x :: u32) div 2 ^ 27 = 4" if "unat x < 2 ^ 27" for x
    using category_div [of 8 x] category_div [of 5 x] category_div [of 4 x] that by simp_all
  ultimately show ?thesis
    using st fl m2 k rm unfolding FiveCardDrawScoreFast_def k Let_def split_conv score_defs
    by (auto simp del: push_bit_numeral)
qed

text \<open>Hands with a pair: no straight, no flush, and the counts decide.\<close>

lemma category_pair:
  assumes h: "length h = 5" "distinct h" "\<forall>c \<in> set h. c < 52"
    and k: "kinds [push_bit (ranks h ! 0) 1, push_bit (ranks h ! 1) 1, push_bit (ranks h ! 2) 1,
      push_bit (ranks h ! 3) 1, push_bit (ranks h ! 4) 1] = (m1, m2, m3, m4)" and m2: "m2 \<noteq> 0"
  shows "unat (FiveCardDrawScoreFast (push_bit (ranks h ! 0) 1) (push_bit (ranks h ! 1) 1)
      (push_bit (ranks h ! 2) 1) (push_bit (ranks h ! 3) 1) (push_bit (ranks h ! 4) 1) u) div 2 ^ 27 = five_category h"
proof -
  let ?n = "count_list (ranks h)"
  note bits = kinds_counts [OF h(1,3) k]
  have mem: "j \<in> set (ranks h)" if "0 < ?n j" for j using that by (metis count_list_0_iff less_irrefl)
  have four: "?n j \<le> 4" for j by (rule at_most_four [OF h])
  obtain p where p: "2 \<le> ?n p" using m2 bits(2) word_zero_iff [of m2] by blast
  have "\<not> distinct (ranks h)"
  proof
    assume "distinct (ranks h)"
    then have "?n p \<le> 1" by (rule count_list_distinct)
    with p show False by simp
  qed
  then have nsf: "\<not> is_straight h" "\<not> is_flush h"
    using straight_distinct_ranks [OF h(1)] flush_distinct_ranks [OF h(2)] by blast+
  have rm: "rankmask m1" "rankmask m2" "rankmask m3" "rankmask m4"
    using rankmask_counts [of m1 1 h] rankmask_counts [of m2 2 h] rankmask_counts [of m3 3 h] rankmask_counts [of m4 4 h] bits
    by simp_all
  have k4: "m4 = 0 \<longleftrightarrow> of_kind 4 h = {}"
  proof -
    have "4 \<le> ?n j \<longleftrightarrow> ?n j = 4" for j using four [of j] by auto
    then show ?thesis by (simp add: word_zero_iff [of m4] bits(4) of_kind_empty_iff)
  qed
  have k3: "m3 = 0 \<longleftrightarrow> of_kind 3 h = {}" if "m4 = 0"
  proof -
    have "3 \<le> ?n j \<longleftrightarrow> ?n j = 3" for j using that bits(4) [of j] by auto
    then show ?thesis by (simp add: word_zero_iff [of m3] bits(3) of_kind_empty_iff)
  qed
  have k34: "m4 = 0" if "m3 = 0"
  proof -
    have "\<not> bit m4 j" for j using that bits(3) [of j] bits(4) [of j] by simp
    then show ?thesis by (simp add: word_zero_iff)
  qed
  have k2: "m2 AND NOT m3 = 0 \<longleftrightarrow> of_kind 2 h = {}"
  proof -
    have nk: "bit (m2 AND NOT m3) j \<longleftrightarrow> ?n j = 2" for j
      using bits(2) [of j] bits(3) [of j] bit_imp_le_length [of m2 j] by (auto simp: bit_and_iff bit_not_iff)
    show ?thesis unfolding word_zero_iff nk by (simp add: of_kind_empty_iff)
  qed
  have k22: "of_kind 2 h \<noteq> {} \<and> (m2 AND (m2 - 1) = 0 \<longleftrightarrow> card (of_kind 2 h) \<noteq> 2)" if z: "m3 = 0"
  proof -
    have b: "bit m2 j \<longleftrightarrow> j \<in> of_kind 2 h" for j
      using bits(2) [of j] bits(3) [of j] z mem [of j] by (auto simp: of_kind_def)
    have fin: "finite (of_kind 2 h)" by (simp add: of_kind_def)
    have ne: "of_kind 2 h \<noteq> {}" using p b bits(2) by blast
    have "2 * card (of_kind 2 h) \<le> 5" by (rule rank_counts [OF h(1)]) (auto simp: of_kind_def)
    moreover have "card (of_kind 2 h) \<noteq> 0" using ne fin by simp
    ultimately have "card (of_kind 2 h) \<noteq> 2 \<longleftrightarrow> card (of_kind 2 h) = 1" by linarith
    also have "\<dots> \<longleftrightarrow> (\<forall>i \<in> of_kind 2 h. \<forall>j \<in> of_kind 2 h. i = j)" using ne fin by (metis card_1_singleton_iff card_le_Suc0_iff_eq One_nat_def card_0_eq le_Suc_eq le_0_eq)
    finally show ?thesis using ne rip_zero_iff [OF m2] b by (auto simp: rip_def)
  qed
  have d: "unat (push_bit 27 7 + (push_bit 13 a + b) :: u32) div 2 ^ 27 = 7" "unat (push_bit 27 6 + (push_bit 13 a + b) :: u32) div 2 ^ 27 = 6"
      "unat (push_bit 27 3 + (push_bit 13 a + b) :: u32) div 2 ^ 27 = 3" "unat (push_bit 27 2 + (push_bit 13 a + b) :: u32) div 2 ^ 27 = 2"
      "unat (push_bit 27 1 + (push_bit 13 a + b) :: u32) div 2 ^ 27 = 1" if "rankmask a" "rankmask b" for a b
    using category_div [of 7 "push_bit 13 a + b"] category_div [of 6 "push_bit 13 a + b"] category_div [of 3 "push_bit 13 a + b"]
      category_div [of 2 "push_bit 13 a + b"] category_div [of 1 "push_bit 13 a + b"] sub_less [OF that] by simp_all
  note r = rm rankmask_and [OF rm(1)] rankmask_and [OF rm(2)]
  show ?thesis
  proof (cases "m3 = 0")
    case True
    with k22 k34 k3 k4 nsf d(4,5) [OF r(2,5)] m2 show ?thesis
      unfolding FiveCardDrawScoreFast_def k Let_def split_conv score_defs five_category_def add.assoc
      by (auto simp del: push_bit_numeral push_bit_of_1)
  next
    case False
    with k2 k3 k4 nsf d(1) [OF r(4,5)] d(2) [OF r(3,6)] d(3) [OF r(3,5)] m2 show ?thesis
      unfolding FiveCardDrawScoreFast_def k Let_def split_conv score_defs five_category_def add.assoc
      by (auto simp del: push_bit_numeral push_bit_of_1)
  qed
qed

section \<open>Properties of the evaluator\<close>

text \<open>
  C18. The five-card evaluator ranks hands correctly: for every hand of five different cards of
  the 52, the score exists and its leading digit is the category of the hand in the standard
  order (8 straight flush, 7 four of a kind, 6 full house, 5 flush, 4 straight, 3 three of a
  kind, 2 two pairs, 1 one pair, 0 high card), so that a hand of a better category always has
  the larger score.
\<close>

theorem five_card_category:
  assumes "length h = 5" and "distinct h" and "\<forall>c \<in> set h. c < 52"
  shows "\<exists>s. FiveCardDrawScore h = Some s \<and> unat s div 2 ^ 27 = five_category h"
proof -
  obtain u where u: "FiveCardDrawScore h = Some (FiveCardDrawScoreFast (push_bit (ranks h ! 0) 1) (push_bit (ranks h ! 1) 1)
      (push_bit (ranks h ! 2) 1) (push_bit (ranks h ! 3) 1) (push_bit (ranks h ! 4) 1) u)"
      "\<forall>j. bit u j \<longleftrightarrow> j \<in> set (suits h)"
    using five_eval [OF assms(1,3)] by blast
  obtain m1 m2 m3 m4 where k: "kinds [push_bit (ranks h ! 0) 1, push_bit (ranks h ! 1) 1, push_bit (ranks h ! 2) 1,
      push_bit (ranks h ! 3) 1, push_bit (ranks h ! 4) 1] = (m1, m2, m3, m4)" by (metis prod_cases4)
  show ?thesis
    using u category_no_pair [OF assms(1,3) u(2) k] category_pair [OF assms k, of u] by blast
qed

theorem five_card_category_witness:
  "\<exists>s. FiveCardDrawScore [12, 13, 27, 41, 3] = Some s \<and> unat s div 2 ^ 27 = 4"
proof -
  have "five_category [12, 13, 27, 41, 3] = 4" by code_simp
  with five_card_category [of "[12, 13, 27, 41, 3]"] show ?thesis by simp
qed

section \<open>The brute-force score\<close>

text \<open>The five cards that remain when the cards at two positions are skipped.\<close>

definition skip2 :: "u8 list \<Rightarrow> nat \<Rightarrow> nat \<Rightarrow> u8 list" where
  "skip2 h i j = take i h @ take (j - i - 1) (drop (i + 1) h) @ drop (j + 1) h"

lemma copy_cards_eq:
  assumes "d \<le> a" "a \<le> b" "b \<le> length h" "b - d \<le> length h2"
  shows "copy_cards h (int d) [a..<b] h2 = Some (take (a - d) h2 @ take (b - a) (drop a h) @ drop (b - d) h2)"
  using assms
proof (induction b)
  case 0
  then show ?case by (simp add: copy_cards_def)
next
  case (Suc b)
  show ?case
  proof (cases "a = Suc b")
    case True
    then show ?thesis by (simp add: copy_cards_def)
  next
    case False
    then have ab: "a \<le> b" using Suc.prems by simp
    let ?x = "take (a - d) h2 @ take (b - a) (drop a h) @ drop (b - d) h2"
    have l: "length ?x = length h2" using Suc.prems ab by simp
    have "copy_cards h (int d) [a..<Suc b] h2 = aput ?x (int b - int d) (h ! b)"
      using Suc ab unfolding copy_cards_def upt_Suc
      by (simp add: ofold_append aget_nat bind_runit)
    also have "int b - int d = int (b - d)" using Suc.prems ab by simp
    also have "aput ?x (int (b - d)) (h ! b) = Some (?x[b - d := h ! b])"
      using Suc.prems ab l by (intro aput_nat) simp
    also have "?x[b - d := h ! b] = take (a - d) h2 @ take (Suc b - a) (drop a h) @ drop (Suc b - d) h2"
    proof (rule nth_equalityI)
      show "length (?x[b - d := h ! b]) = length (take (a - d) h2 @ take (Suc b - a) (drop a h) @ drop (Suc b - d) h2)"
        using Suc.prems ab by simp
      fix i assume "i < length (?x[b - d := h ! b])"
      then have "i < length h2" using l by simp
      then show "?x[b - d := h ! b] ! i = (take (a - d) h2 @ take (Suc b - a) (drop a h) @ drop (Suc b - d) h2) ! i"
        using Suc.prems ab l by (auto simp: nth_list_update nth_append)
    qed
    finally show ?thesis .
  qed
qed

lemma slow_inner_eq:
  assumes h: "length h = 7" "length h2 = 5" "take i h2 = take i h" "i < j" "j < 7"
    and s: "FiveCardDrawScore (skip2 h i j) = Some r"
  shows "slow_inner h i j (m, h2) = Some (max m r, skip2 h i j)"
proof -
  let ?x = "take i h2 @ take (j - Suc i) (drop (i + 1) h) @ drop (j - 1) h2"
  have 1: "copy_cards h (int 1) [i + 1..<j] h2 = Some ?x"
    using h by (subst copy_cards_eq) simp_all
  have 2: "copy_cards h (int 2) [j + 1..<7] ?x = Some (skip2 h i j)"
    using h by (subst copy_cards_eq) (auto simp: skip2_def)
  show ?thesis
    using 1 2 s by (auto simp: slow_inner_def max_def)
qed

lemma skip2_len: "length h = 7 \<Longrightarrow> i < j \<Longrightarrow> j < 7 \<Longrightarrow> length (skip2 h i j) = 5"
  by (simp add: skip2_def)

lemma skip2_take: "length h = 7 \<Longrightarrow> i < j \<Longrightarrow> j < 7 \<Longrightarrow> take i (skip2 h i j) = take i h"
  by (simp add: skip2_def)

lemma slow_inner_loop:
  assumes len: "length h = 7" and sc: "\<And>i j. i < j \<Longrightarrow> j < 7 \<Longrightarrow> FiveCardDrawScore (skip2 h i j) = Some (sc i j)"
    and "length h2 = 5" "take i h2 = take i h" "\<forall>j \<in> set js. i < j \<and> j < 7"
  shows "\<exists>h2'. ofold (slow_inner h i) js (m, h2) = Some (fold max (map (sc i) js) m, h2')
    \<and> length h2' = 5"
  using assms(3-5)
proof (induction js arbitrary: m h2)
  case (Cons j js)
  then have "slow_inner h i j (m, h2) = Some (max m (sc i j), skip2 h i j)"
    using slow_inner_eq [OF len _ _ _ _ sc] by simp
  with Cons.IH [of "skip2 h i j" "max m (sc i j)"] Cons.prems skip2_len [OF len] skip2_take [OF len]
  show ?case by (simp add: max.commute)
qed simp

lemma slow_outer_loop:
  assumes len: "length h = 7" and sc: "\<And>i j. i < j \<Longrightarrow> j < 7 \<Longrightarrow> FiveCardDrawScore (skip2 h i j) = Some (sc i j)"
    and "length h2 = 5" "\<forall>i \<in> set is. i < 6"
  shows "\<exists>h2'. ofold (slow_outer h) is (m, h2) = Some (fold max (concat (map (\<lambda>i. map (sc i) [i + 1..<7]) is)) m, h2')"
  using assms(3,4)
proof (induction "is" arbitrary: m h2)
  case (Cons i "is")
  let ?x = "take i h @ drop i h2"
  have "copy_cards h (int 0) [0..<i] h2 = Some ?x"
    using Cons.prems len by (subst copy_cards_eq) simp_all
  then have c: "copy_cards h 0 [0..<i] h2 = Some ?x" by simp
  have "length ?x = 5" "take i ?x = take i h" using Cons.prems len by simp_all
  from slow_inner_loop [OF len sc this, of "[i + 1..<7]" m] obtain h3 where
    h3: "ofold (slow_inner h i) [i + 1..<7] (m, ?x) = Some (fold max (map (sc i) [i + 1..<7]) m, h3)" "length h3 = 5"
    by auto
  from Cons.IH [OF h3(2), of "fold max (map (sc i) [i + 1..<7]) m"] Cons.prems
  obtain h4 where "ofold (slow_outer h) is (fold max (map (sc i) [i + 1..<7]) m, h3) =
      Some (fold max (concat (map (\<lambda>i. map (sc i) [i + 1..<7]) is)) (fold max (map (sc i) [i + 1..<7]) m), h4)"
    by auto
  with c h3 show ?case by (simp add: slow_outer_def [of h i "(m, h2)"] del: upt.simps)
qed simp

lemma fold_max_bounds:
  fixes xs :: "u32 list"
  shows "m \<le> fold max xs m \<and> (\<forall>x \<in> set xs. x \<le> fold max xs m) \<and> (fold max xs m = m \<or> fold max xs m \<in> set xs)"
proof (induction xs arbitrary: m)
  case (Cons x xs)
  from Cons [of "max x m"] show ?case by (auto simp: max_def split: if_splits)
qed simp

lemma five_valid: "length h = 5 \<Longrightarrow> \<forall>c \<in> set h. c < 52 \<Longrightarrow> \<exists>s. FiveCardDrawScore h = Some s"
  using five_eval by blast

lemma skip2_set: "set (skip2 h i j) \<subseteq> set h"
  by (auto simp: skip2_def dest: in_set_takeD in_set_dropD)

text \<open>
  C23. The brute-force evaluator takes the best five of seven cards: it completes for all seven
  valid cards whatever the temporary array holds at the start, its result is the score of some
  five of the cards, and no choice of five cards scores more.
\<close>

theorem slow_score_is_best_of_seven:
  assumes "length h = 7" and "\<forall>c \<in> set h. c < 52" and "length uninit = 5"
  shows "\<exists>m. SevenCardDrawScoreSlow uninit h = Some m
    \<and> (\<exists>i j. i < j \<and> j < 7 \<and> FiveCardDrawScore (skip2 h i j) = Some m)
    \<and> (\<forall>i j s. i < j \<and> j < 7 \<and> FiveCardDrawScore (skip2 h i j) = Some s \<longrightarrow> s \<le> m)"
proof -
  define sc where "sc i j = the (FiveCardDrawScore (skip2 h i j))" for i j
  have sc: "FiveCardDrawScore (skip2 h i j) = Some (sc i j)" if "i < j" "j < 7" for i j
  proof -
    have "\<forall>c \<in> set (skip2 h i j). c < 52" using skip2_set [of h i j] assms(2) by blast
    from five_valid [OF skip2_len [OF assms(1) that] this] show ?thesis by (auto simp: sc_def)
  qed
  let ?xs = "concat (map (\<lambda>i. map (sc i) [i + 1..<7]) [0..<6])"
  let ?m = "fold max ?xs 0"
  have "\<forall>i \<in> set [0..<6]. i < (6 :: nat)" by simp
  from slow_outer_loop [OF assms(1) sc assms(3) this, of 0]
  have "SevenCardDrawScoreSlow uninit h = Some ?m"
    by (auto simp: SevenCardDrawScoreSlow_def simp del: upt.simps)
  moreover have mem: "x \<in> set ?xs \<longleftrightarrow> (\<exists>i j. i < j \<and> j < 7 \<and> x = sc i j)" for x
  proof
    assume "x \<in> set ?xs"
    then obtain i j where "i + 1 \<le> j" "j < 7" "x = sc i j" by (auto simp del: upt.simps)
    then show "\<exists>i j. i < j \<and> j < 7 \<and> x = sc i j" by (metis Suc_eq_plus1 Suc_le_eq)
  next
    assume "\<exists>i j. i < j \<and> j < 7 \<and> x = sc i j"
    then obtain i j where ij: "i < j" "j < 7" "x = sc i j" by blast
    then have "i \<in> set [0..<6]" "x \<in> set (map (sc i) [i + 1..<7])" by (auto simp del: upt.simps)
    then show "x \<in> set ?xs" by (auto simp del: upt.simps)
  qed
  have ub: "sc i j \<le> ?m" if "i < j" "j < 7" for i j
    using fold_max_bounds [of 0 ?xs] mem that by blast
  moreover have at: "\<exists>i j. i < j \<and> j < 7 \<and> sc i j = ?m"
  proof (cases "?m = 0")
    case True
    then have "sc 0 1 = ?m" using ub [of 0 1] by simp
    then show ?thesis by (intro exI [of _ 0] exI [of _ 1]) simp
  next
    case False
    then have "?m \<in> set ?xs" using fold_max_bounds [of 0 ?xs] by blast
    from mem [THEN iffD1, OF this] show ?thesis by metis
  qed
  moreover obtain i j where ij: "i < j" "j < 7" "sc i j = ?m" using at by blast
  then have "FiveCardDrawScore (skip2 h i j) = Some ?m" using sc [OF ij(1,2)] by (simp only:)
  moreover have "s \<le> ?m" if "i < j \<and> j < 7 \<and> FiveCardDrawScore (skip2 h i j) = Some s" for i j s
    using that ub [of i j] sc [of i j] by (simp only: option.inject)
  ultimately show ?thesis using ij(1,2) by (intro exI [of _ ?m]) blast
qed


theorem slow_score_is_best_of_seven_witness:
  "\<exists>m. SevenCardDrawScoreSlow [0, 0, 0, 0, 0] [12, 13, 27, 41, 3, 20, 31] = Some m
    \<and> (\<exists>i j. i < j \<and> j < 7 \<and> FiveCardDrawScore (skip2 [12, 13, 27, 41, 3, 20, 31] i j) = Some m)"
  using slow_score_is_best_of_seven [of "[12, 13, 27, 41, 3, 20, 31]" "[0, 0, 0, 0, 0]"] by auto

text \<open>
  Card names and card values disagree: \<open>cardstr\<close> names the first card of a suit the ace and
  the last the king, while the evaluator counts the first as the lowest card and lets the last
  also stand below it. So ten, jack, queen, king and ace of one suit score as a mere flush, and
  king, ace, two, three and four score as a straight flush.
\<close>

theorem ace_is_scored_low:
  "map (map_option fst \<circ> cardstr) [9, 10, 11, 12, 0, 1, 2, 3] =
     map Some [''10C'', ''JC'', ''QC'', ''KC'', ''AC'', ''2C'', ''3C'', ''4C'']
   \<and> map_option (drop_bit 27) (FiveCardDrawScore [9, 10, 11, 12, 0]) = Some 5
   \<and> map_option (drop_bit 27) (FiveCardDrawScore [12, 0, 1, 2, 3]) = Some 8"
  by code_simp

text \<open>
  The description of a pair of the first card (named the ace) is built from memory that was
  never written: \<open>set_cardstr\<close> shifts the mask of ranks by one place, so the lowest rank has no
  characters at all.
\<close>

theorem pair_of_aces_not_described:
  "\<exists>score. set_handstr [0, 13, 3, 18, 33, 47, 22] verbose = Some (score, None)"
proof -
  have "SevenCardDrawScore [0, 13, 3, 18, 33, 47, 22] = Some 134226816" by code_simp
  moreover have "handstr_text 134226816 True = None" "handstr_text 134226816 False = None" by code_simp+
  ultimately show ?thesis by (cases verbose) (simp_all add: set_handstr_def)
qed

section \<open>Card piles\<close>

definition pile :: "CardPileType \<Rightarrow> u8 list" where
  "pile c = take (pile_len c) (pile_entry c)"

definition pile_ok :: "CardPileType \<Rightarrow> bool" where
  "pile_ok c \<longleftrightarrow> length (pile_entry c) = 52 \<and> pile_len c \<le> 52"

lemma deal_loop_ok:
  assumes "pile_ok h" and "pile_ok d" and "pile_len h + min n (pile_len d) \<le> 52"
  shows "\<exists>h' d'. deal_loop i n h d = Some (i + min n (pile_len d), h', d') \<and> pile_ok h' \<and> pile_ok d'
    \<and> pile h' = pile h @ rev (drop (pile_len d - n) (pile d)) \<and> pile d' = take (pile_len d - n) (pile d)"
  using assms
proof (induction n arbitrary: i h d)
  case 0
  then show ?case by (simp add: pile_def)
next
  case (Suc n)
  show ?case
  proof (cases "pile_len d")
    case 0
    then show ?thesis using Suc.prems by (simp add: pile_def)
  next
    case (Suc m)
    let ?d = "d\<lparr>pile_len := m\<rparr>" and ?x = "pile_entry d ! m"
    let ?h = "h\<lparr>pile_entry := (pile_entry h)[pile_len h := ?x], pile_len := pile_len h + 1\<rparr>"
    have m: "m < 52" "length (pile_entry d) = 52" "length (pile_entry h) = 52" "pile_len h < 52"
      using Suc Suc.prems by (auto simp: pile_ok_def)
    have step: "deal_loop i (Suc n) h d = deal_loop (i + 1) n ?h ?d"
      using Suc m by (simp add: aget_nat aput_nat)
    have ok: "pile_ok ?h" "pile_ok ?d" "pile_len ?h + min n (pile_len ?d) \<le> 52"
      using Suc Suc.prems m by (auto simp: pile_ok_def)
    have ph: "pile ?h = pile h @ [?x]" using m by (simp add: pile_def take_Suc_conv_app_nth take_update_cancel)
    have pd: "pile d = pile ?d @ [?x]" using m Suc by (simp add: pile_def take_Suc_conv_app_nth)
    from Suc.IH [OF ok, of "i + 1"] show ?thesis
      unfolding step ph pd using Suc m by (auto simp: pile_def min_def)
  qed
qed

lemma shuffle_step_ok:
  assumes "pile_ok c" and "i < pile_len c" and "shuffle_step R i (c, rands) = Some (c', rands')"
  shows "pile_ok c' \<and> pile_len c' = pile_len c \<and> mset (pile c') = mset (pile c)"
proof -
  let ?n = "pile_len c - i"
  from assms(3) obtain j where j: "c' = c\<lparr>pile_entry := (pile_entry c)[i := pile_entry c ! (i + j mod ?n), i + j mod ?n := pile_entry c ! i]\<rparr>"
    by (auto simp: shuffle_step_def Let_def bind_Some_conv nat_int_add dest!: aget_SomeD aput_SomeD)
  let ?k = "i + j mod ?n"
  have k: "?k < pile_len c" using assms(2) by (metis add_diff_inverse_nat mod_less_divisor nat_add_left_cancel_less not_less_iff_gr_or_eq zero_less_diff)
  have "pile c' = (pile c)[i := pile c ! ?k, ?k := pile c ! i]"
    using assms(1,2) k unfolding j by (simp add: pile_def take_update_swap)
  moreover have "mset ((pile c)[i := pile c ! ?k, ?k := pile c ! i]) = mset (pile c)"
    using assms(1,2) k by (intro mset_swap) (simp_all add: pile_def pile_ok_def)
  ultimately show ?thesis using assms(1) unfolding j by (simp add: pile_ok_def)
qed

lemma shuffle_ok:
  assumes "pile_ok c" and "\<forall>i \<in> set is. i < pile_len c" and "ofold (shuffle_step R) is (c, rands) = Some (c', rands')"
  shows "pile_ok c' \<and> pile_len c' = pile_len c \<and> mset (pile c') = mset (pile c)"
  using assms
proof (induction "is" arbitrary: c rands)
  case (Cons i "is")
  then obtain c1 r1 where 1: "shuffle_step R i (c, rands) = Some (c1, r1)" "ofold (shuffle_step R) is (c1, r1) = Some (c', rands')"
    by (auto elim!: bind_SomeE)
  from shuffle_step_ok [OF _ _ 1(1)] Cons.prems Cons.IH [OF _ _ 1(2)] show ?case by simp
qed simp

text \<open>A number that is at most \<open>RAND_MAX - 52\<close> ends every rejection loop.\<close>

lemma draw_below_ends:
  assumes "\<forall>j. P j \<longrightarrow> j < k" and "0 < length (filter P rands)"
  shows "\<exists>j rands'. draw_below k rands = Some (j, rands') \<and> j < k \<and> length (filter P rands) \<le> Suc (length (filter P rands'))"
  using assms(2)
proof (induction rands)
  case (Cons j rands)
  then show ?case using assms(1) by (cases "j < k") (auto split: if_splits)
qed simp

lemma multiple_above:
  assumes "0 < n" and "n \<le> 52" and "52 \<le> R" and "j \<le> R - 52"
  shows "j < R div n * (n :: nat)"
proof -
  have "R = R div n * n + R mod n" "R mod n < n" using assms(1) by simp_all
  then show ?thesis using assms(2-4) by linarith
qed

lemma shuffle_step_total:
  assumes "pile_ok c" and "i < pile_len c" and "52 \<le> R" and "0 < length (filter (\<lambda>j. j \<le> R - 52) rands)"
  shows "\<exists>c' rands'. shuffle_step R i (c, rands) = Some (c', rands')
    \<and> length (filter (\<lambda>j. j \<le> R - 52) rands) \<le> Suc (length (filter (\<lambda>j. j \<le> R - 52) rands'))"
proof -
  let ?n = "pile_len c - i"
  have n: "0 < ?n" "?n \<le> 52" "length (pile_entry c) = 52" "pile_len c \<le> 52" using assms(1,2) by (auto simp: pile_ok_def)
  obtain j rands' where d: "draw_below (R div ?n * ?n) rands = Some (j, rands')"
      "length (filter (\<lambda>j. j \<le> R - 52) rands) \<le> Suc (length (filter (\<lambda>j. j \<le> R - 52) rands'))"
    using draw_below_ends [OF _ assms(4), of "R div ?n * ?n"] multiple_above [OF n(1,2) assms(3)] by blast
  have "j mod ?n < ?n" using n(1) by simp
  then have "i + j mod ?n < pile_len c" using assms(2) by linarith
  then have "i + j mod ?n < 52" "i < 52" using n(4) assms(2) by linarith+
  then show ?thesis using d n(3)
    by (simp add: shuffle_step_def Let_def aget_nat aput_nat flip: of_nat_add of_nat_mod)
qed

lemma shuffle_total:
  assumes "pile_ok c" and "\<forall>i \<in> set is. i < pile_len c" and "52 \<le> R" and "length is \<le> length (filter (\<lambda>j. j \<le> R - 52) rands)"
  shows "\<exists>c' rands'. ofold (shuffle_step R) is (c, rands) = Some (c', rands')"
  using assms
proof (induction "is" arbitrary: c rands)
  case (Cons i "is")
  have "i < pile_len c" "0 < length (filter (\<lambda>j. j \<le> R - 52) rands)" using Cons.prems(2,4) by auto
  from shuffle_step_total [OF Cons.prems(1) this(1) Cons.prems(3) this(2)] obtain c1 r1 where 1: "shuffle_step R i (c, rands) = Some (c1, r1)"
      "length (filter (\<lambda>j. j \<le> R - 52) rands) \<le> Suc (length (filter (\<lambda>j. j \<le> R - 52) r1))" by blast
  note k = shuffle_step_ok [OF Cons.prems(1) _ 1(1)]
  have "\<exists>c' rands'. ofold (shuffle_step R) is (c1, r1) = Some (c', rands')"
    using Cons.prems(2-4) k 1(2) by (intro Cons.IH) auto
  then show ?case using 1(1) by simp
qed simp

text \<open>
  C36. Cards are neither lost nor duplicated. If, of the numbers that \<open>rand\<close> will return, as many as the pile has
  cards but one are at most \<open>RAND_MAX - 52\<close>, the rejection loops of \<open>Shuffle\<close> all end, inside the array, and the pile is permuted.
  Dealing then takes cards from the end of the deck, puts them on the hand, and returns how many there were; hand and deck
  together hold the same cards as before.
\<close>

theorem piles_keep_cards:
  assumes "pile_ok h" and "pile_ok d" and "pile_len h + n \<le> 52"
    and "52 \<le> R" and "pile_len d - 1 \<le> length (filter (\<lambda>j. j \<le> R - 52) rands)"
  shows "\<exists>d1 rands' h' d2. Shuffle R d rands = Some (d1, rands') \<and> pile_ok d1 \<and> mset (pile d1) = mset (pile d)
    \<and> Deal h d1 n = Some (min n (pile_len d), h', d2) \<and> pile_ok h' \<and> pile_ok d2
    \<and> pile h' = pile h @ rev (drop (pile_len d - n) (pile d1)) \<and> pile d2 = take (pile_len d - n) (pile d1)
    \<and> mset (pile h') + mset (pile d2) = mset (pile h) + mset (pile d)"
proof -
  have i: "\<forall>i \<in> set [0..<pile_len d - 1]. i < pile_len d" by auto
  obtain d1 rands' where sh: "Shuffle R d rands = Some (d1, rands')"
    using shuffle_total [OF assms(2) i assms(4), of rands] assms(5) unfolding Shuffle_def by auto
  from shuffle_ok [OF assms(2) i sh [unfolded Shuffle_def]]
  have s: "pile_ok d1" "pile_len d1 = pile_len d" "mset (pile d1) = mset (pile d)" by blast+
  have "pile_len h + min n (pile_len d1) \<le> 52" using assms(3) by linarith
  from deal_loop_ok [OF assms(1) s(1) this, of 0] obtain h' d2 where
    D: "Deal h d1 n = Some (min n (pile_len d), h', d2)" "pile_ok h'" "pile_ok d2"
    "pile h' = pile h @ rev (drop (pile_len d - n) (pile d1))" "pile d2 = take (pile_len d - n) (pile d1)"
    by (auto simp: Deal_def s(2))
  have split: "mset (take (pile_len d - n) (pile d1)) + mset (drop (pile_len d - n) (pile d1)) = mset (pile d1)"
    by (metis append_take_drop_id mset_append)
  have "mset (pile h') + mset (pile d2) = mset (pile h) + (mset (take (pile_len d - n) (pile d1)) + mset (drop (pile_len d - n) (pile d1)))"
    unfolding D(4,5) by (simp only: mset_append mset_rev ac_simps)
  then have "mset (pile h') + mset (pile d2) = mset (pile h) + mset (pile d)" by (simp only: split s(3))
  with D sh s(1,3) show ?thesis by blast
qed

theorem piles_keep_cards_witness:
  "\<exists>d1 rands' h' d2. Shuffle 100 (InitDeck\<lparr>pile_len := 3\<rparr>) [100, 99, 7, 40] = Some (d1, rands')
    \<and> Deal \<lparr>pile_len = 0, pile_entry = replicate 52 0\<rparr> d1 2 = Some (2, h', d2) \<and> mset (pile h') + mset (pile d2) = {#0, 1, 2#}"
proof -
  let ?h = "\<lparr>pile_len = 0, pile_entry = replicate 52 0\<rparr>" and ?d = "InitDeck\<lparr>pile_len := 3\<rparr>"
  have ok: "pile_ok ?h" "pile_ok ?d" "pile ?h = []" "mset (pile ?d) = {#0, 1, 2#}"
    by (simp_all add: pile_ok_def InitDeck_def pile_def upt_rec)
  show ?thesis using piles_keep_cards [OF ok(1,2), of 2 100 "[100, 99, 7, 40]"] ok(3,4) by (fastforce simp: InitDeck_def)
qed

end
