(* ===== verification/PangeaHand.thy ===== *)
theory PangeaHand
  imports PangeaPots Poker777 Bits777
begin

text \<open>
  The protocol of a hand (\<open>plugins/games/pangea/pangeafunds.c\<close>, \<open>pangea777.c\<close>): the handlers a
  node runs for the commands it receives, from the start of the betting to the payout.

  A command is the JSON object of the network message, with its payload decoded. The clock and
  the random numbers of the bot are arguments. A handler returns the C return value and the new
  node; \<open>None\<close> is an access outside an array. Messages are appended to \<open>hn_sent\<close>.
\<close>

section \<open>Commands and messages\<close>

record pangea_cmd =
  c_senderind :: int
  c_turni :: int
  c_cardi :: int
  c_data :: "u8 list"
  c_dest :: int
  c_active :: "u64 list option"

definition pangea_sendcmd ::
    "string \<Rightarrow> int \<Rightarrow> u8 list \<Rightarrow> int \<Rightarrow> int \<Rightarrow> 'z pangea_node_scheme \<Rightarrow> 'z pangea_node_scheme option" where
  "pangea_sendcmd cmdstr destplayer data cardi turni hn =
     do { _ \<leftarrow> pangea_ind hn (hn_slot hn);
          _ \<leftarrow> (if destplayer < 0 then Some []
                else do { slot \<leftarrow> pangea_slot hn destplayer; aget (sp_playerpubs hn) slot });
          Some (hn\<lparr>hn_sent := hn_sent hn @
                 [\<lparr>m_cmd = cmdstr, m_dest = destplayer, m_data = data, m_cardi = cardi, m_turni = turni, m_active = None\<rparr>]\<rparr>) }"

definition snapshot_payload :: "'z pangea_info_scheme \<Rightarrow> u8 list" where
  "snapshot_payload dp = snapshot_bytes (take (dp_N dp + 1) (h_snapshot dp))"

definition pangea_sendsummary :: "'z pangea_node_scheme \<Rightarrow> 'z pangea_node_scheme option" where
  "pangea_sendsummary hn = pangea_sendcmd ''summary'' (- 1) (dp_summary hn) 0 0 hn"

section \<open>The end of a hand\<close>

text \<open>
  The payout, the entries in the summary and the message of the host. The reports that the host prints at the end, the
  status of the table and the summary as JSON, are left out.
\<close>

definition finish_pot ::
    "int \<Rightarrow> u64 list \<Rightarrow> u64 \<times> u64 \<times> 'z pangea_info_scheme \<Rightarrow> (u64 \<times> u64 \<times> 'z pangea_info_scheme) option" where
  "finish_pot rakemillis row s = (case s of (rake, pangearake, dp) \<Rightarrow>
     do { (r, p, dp) \<leftarrow> pangea_splitpot pangearake row rakemillis dp; Some (rake + r, p, dp) })"

text \<open>The new balances of the players and the masks of those who went broke or came back.\<close>

definition finish_change ::
    "'z pangea_info_scheme \<Rightarrow> nat \<Rightarrow> u64 list \<times> u16 \<times> u16 \<Rightarrow> (u64 list \<times> u16 \<times> u16) option" where
  "finish_change dp j s = (case s of (balances, busted, rebuy) \<Rightarrow>
     do { slot \<leftarrow> pangea_slot dp (int j);
          b \<leftarrow> aget (sp_balances dp) slot;
          old \<leftarrow> aget (dp_snapshot dp) slot;
          Some (balances @ [b],
                if s_lt 0 old \<and> s_le b 0 then busted OR push_bit j 1 else busted,
                if \<not> (s_lt 0 old \<and> s_le b 0) \<and> s_le old 0 \<and> s_lt 0 b then rebuy OR push_bit j 1 else rebuy) })"

definition pangea_finish :: "u32 \<Rightarrow> 'z pangea_node_scheme \<Rightarrow> 'z pangea_node_scheme option" where
  "pangea_finish now hn =
     (if h_finished hn \<noteq> 0 then Some hn
      else do {
        (n, sidepots) \<leftarrow> pangea_sidepots hn (h_bets hn);
        c0 \<leftarrow> aget (h_community hn) 0;
        let rakemillis = (if c0 = 0xff then 0 else sint (dp_rakemillis hn));
        (rake, pangearake, hn) \<leftarrow> ofold (finish_pot rakemillis) (take n sidepots) (0, 0, hn);
        let hn = hn\<lparr>dp_hostrake := dp_hostrake hn + rake, dp_pangearake := dp_pangearake hn + pangearake,
                    h_hostrake := rake, h_pangearake := pangearake, h_finished := now\<rparr>;
        (balances, busted, rebuy) \<leftarrow> ofold (finish_change hn) [0..<dp_N hn] ([], 0, 0);
        let changes = (push_bit 20 (ucast rebuy) OR push_bit 4 (ucast busted) OR (word_of_nat (dp_N hn) AND 0xf) :: u32);
        hn \<leftarrow> pangea_summary hn CARDS777_CHANGES (le_bytes 4 changes) (snapshot_bytes balances);
        hn \<leftarrow> pangea_summary hn CARDS777_RAKES (le_bytes 8 rake) (le_bytes 8 pangearake);
        if hn_slot hn = pangea_slotA hn then pangea_sendsummary hn else Some hn })"

definition pangea_lastman :: "u32 \<Rightarrow> 'z pangea_node_scheme \<Rightarrow> (int \<times> 'z pangea_node_scheme) option" where
  "pangea_lastman now hn =
     (if h_betstarted hn \<noteq> 0 \<and> fst (pangea_actives hn) \<le> 1
      then (if h_finished hn \<noteq> 0 then Some (1, hn)
            else do { hn \<leftarrow> pangea_finish now hn; Some (1, hn) })
      else Some (0, hn))"

section \<open>Betting rounds\<close>

definition pangea_startbets :: "int \<Rightarrow> 'z pangea_node_scheme \<Rightarrow> 'z pangea_node_scheme option" where
  "pangea_startbets cardi hn =
     (if dp_N hn = 0 \<or> length (h_bets hn) < dp_N hn \<or> length (h_snapshot hn) < dp_N hn then None
      else do {
        let hn = hn\<lparr>h_betstarted := (if h_betstarted hn = 0 then 1 else h_betstarted hn + 1),
                    h_numactions := 0, h_cardi := cardi,
                    h_actions := replicate (length (h_actions hn)) 0,
                    h_turnis := replicate (length (h_turnis hn)) 0xff,
                    h_undergun := (dp_button hn + 3) mod dp_N hn\<rparr>;
        hn \<leftarrow> (if cardi > int (dp_N hn * 2)
               then Some (hn\<lparr>h_snapshot := take (dp_N hn) (h_bets hn) @ drop (dp_N hn) (h_snapshot hn)\<rparr>)
               else pangea_checkantes hn);
        snap \<leftarrow> aput (h_snapshot hn) (int (dp_N hn)) (h_betsize hn);
        let hn = hn\<lparr>h_snapshot := snap\<rparr>;
        pangea_sendcmd ''turn'' (- 1) (snapshot_payload hn) cardi (int (h_undergun hn)) hn })"

text \<open>The largest bet, compared with the signed entry converted to unsigned.\<close>

definition max_bet :: "'z pangea_info_scheme \<Rightarrow> u64" where
  "max_bet dp = fold (\<lambda>b betsize. if b > betsize then b else betsize) (take (dp_N dp) (h_bets dp)) 0"

definition pangea_turn :: "pangea_cmd \<Rightarrow> 'z pangea_node_scheme \<Rightarrow> (int \<times> 'z pangea_node_scheme) option" where
  "pangea_turn c hn =
     do { turnis \<leftarrow> aput (h_turnis hn) (c_senderind c) (word_of_int (c_turni c));
          let hn = hn\<lparr>h_turnis := turnis\<rparr>;
          if c_senderind c = 0
          then do {
            let hn = hn\<lparr>h_cardi := c_cardi c, h_betstarted := 1, h_undergun := nat (c_turni c mod 256)\<rparr>;
            if hn_slot hn \<noteq> pangea_slotA hn
            then do {
              hn \<leftarrow> pangea_checkantes hn;
              if length (h_bets hn) < dp_N hn \<or> length (h_snapshot hn) < dp_N hn then None
              else do {
                let hn = hn\<lparr>h_snapshot := take (dp_N hn) (h_bets hn) @ drop (dp_N hn) (h_snapshot hn)\<rparr>;
                snap \<leftarrow> aput (h_snapshot hn) (int (dp_N hn)) (max_bet hn);
                let hn = hn\<lparr>h_snapshot := snap\<rparr>;
                hn \<leftarrow> pangea_sendcmd ''confirmturn'' (- 1) (snapshot_payload hn) (c_cardi c) (c_turni c) hn;
                Some (0, hn) } }
            else Some (0, hn) }
          else Some (0, hn) }"

text \<open>The decision of a bot, from two random numbers: the amount and the action it announces.\<close>

definition pangea_bot_choice ::
    "int \<Rightarrow> int \<Rightarrow> u64 \<Rightarrow> 'z pangea_node_scheme \<Rightarrow> (u64 \<times> int) option" where
  "pangea_bot_choice rand1 rand2 betsize hn =
     do { ind \<leftarrow> pangea_ind hn (hn_slot hn);
          sumbet \<leftarrow> aget (h_bets hn) ind;
          balance \<leftarrow> aget (sp_balances hn) (hn_slot hn);
          let n = fst (pangea_actives hn);
          let r = rand1 smod 100;
          if r < 1 then Some (balance, CARDS777_ALLIN)
          else do {
            (amount, action) \<leftarrow>
              (if betsize = sumbet
               then (if n = 0 then None
                     else if r < 100 div int n
                     then Some (if rand2 smod 100 < 10 then push_bit 1 (h_lastraise hn) else h_lastraise hn, 1)
                     else Some (0, 0))
               else if betsize > sumbet
               then (if 1 + pangea_totalbet hn = 0 then None else
                     let amount = betsize - sumbet; tot = pangea_totalbet hn;
                         threshold = (300 * amount) div (1 + tot); n = int n + 1; rn = word_of_int (r sdiv n) :: u64
                     in if rn > threshold
                        then (if rn > 3 * threshold \<and> amount < h_lastraise hn * 2
                              then Some (h_lastraise hn * 2, 2) else Some (amount, 1))
                        else if amount < sumbet div 10 \<or> amount \<le> SATOSHIDEN then Some (amount, CARDS777_CALL)
                        else Some (0, CARDS777_FOLD))
               else Some (0, 0));
            Some (if amount > balance then (balance, CARDS777_ALLIN) else (amount, action)) } }"

definition pangea_bot ::
    "int \<Rightarrow> int \<Rightarrow> int \<Rightarrow> u64 \<Rightarrow> 'z pangea_node_scheme \<Rightarrow> 'z pangea_node_scheme option" where
  "pangea_bot rand1 rand2 cardi betsize hn =
     do { (amount, action) \<leftarrow> pangea_bot_choice rand1 rand2 betsize hn;
          pangea_sendcmd ''action'' (- 1) (le_bytes 8 amount) cardi action hn }"

text \<open>
  \<open>pangea_confirmturn\<close> in its three parts: a client takes over the host's snapshot; the host,
  once all players have confirmed, broadcasts the bet size; the player under the gun acts, lets
  its bot act, or waits for its user. The bet size found in the first two parts is passed on.
\<close>

definition confirm_snapshot :: "pangea_cmd \<Rightarrow> 'z pangea_node_scheme \<Rightarrow> (u64 \<times> 'z pangea_node_scheme) option" where
  "confirm_snapshot c hn =
     (if c_senderind c = 0 \<and> hn_slot hn \<noteq> pangea_slotA hn
      then (if length (c_data c) < 8 * (dp_N hn + 1) \<or> length (h_snapshot hn) < dp_N hn + 1 then None
            else let snap = map (\<lambda>i. le_val (take 8 (drop (8 * i) (c_data c)))) [0..<dp_N hn + 1];
                     hn = hn\<lparr>h_undergun := nat (c_turni c mod 256), h_cardi := c_cardi c,
                             h_snapshot := snap @ drop (dp_N hn + 1) (h_snapshot hn), h_betsize := max_bet hn\<rparr>
                 in Some (max_bet hn, hn))
      else Some (0, hn))"

definition confirm_all :: "pangea_cmd \<Rightarrow> u64 \<Rightarrow> 'z pangea_node_scheme \<Rightarrow> (u64 \<times> 'z pangea_node_scheme) option" where
  "confirm_all c betsize hn =
     (if length (h_turnis hn) < dp_N hn then None
      else if hn_slot hn = pangea_slotA hn \<and> (\<forall>t \<in> set (take (dp_N hn) (h_turnis hn)). sint t = c_turni c)
      then do { snap \<leftarrow> aput (h_snapshot hn) (int (dp_N hn)) (max_bet hn);
                let hn = hn\<lparr>h_betsize := max_bet hn, h_snapshot := snap\<rparr>;
                hn \<leftarrow> (if c_senderind c \<noteq> 0
                       then pangea_sendcmd ''confirmturn'' (- 1) (snapshot_payload hn) (h_cardi hn) (int (h_undergun hn)) hn
                       else Some hn);
                Some (h_betsize hn, hn) }
      else Some (betsize, hn))"

definition confirm_act ::
    "u32 \<Rightarrow> int \<Rightarrow> int \<Rightarrow> pangea_cmd \<Rightarrow> u64 \<Rightarrow> 'z pangea_node_scheme \<Rightarrow> 'z pangea_node_scheme option" where
  "confirm_act now rand1 rand2 c betsize hn =
     do { ind \<leftarrow> pangea_ind hn (hn_slot hn);
          if c_senderind c = 0 \<and> int (h_undergun hn) = ind
          then do {
            isbot \<leftarrow> aget (sp_isbot hn) (hn_slot hn);
            status \<leftarrow> aget (h_betstatus hn) ind;
            if isbot \<noteq> 0 then pangea_bot rand1 rand2 (c_cardi c) betsize hn
            else if status = word_of_int CARDS777_FOLD \<or> status = word_of_int CARDS777_ALLIN
            then pangea_sendcmd ''action'' (- 1) (le_bytes 8 (0 :: u64)) (c_cardi c) 0 hn
            else if p_autofold hn \<noteq> 0
            then pangea_sendcmd ''action'' (- 1) (le_bytes 8 (0 :: u64)) (c_cardi c) 0 hn
            else Some (hn\<lparr>h_userinput_starttime := now, h_cardi := c_cardi c, h_betsize := betsize\<rparr>) }
          else Some hn }"

definition pangea_confirmturn ::
    "u32 \<Rightarrow> int \<Rightarrow> int \<Rightarrow> pangea_cmd \<Rightarrow> 'z pangea_node_scheme \<Rightarrow> (int \<times> 'z pangea_node_scheme) option" where
  "pangea_confirmturn now rand1 rand2 c hn =
     do { (betsize, hn) \<leftarrow> confirm_snapshot c hn;
          turnis \<leftarrow> aput (h_turnis hn) (c_senderind c) (word_of_int (c_turni c));
          (betsize, hn) \<leftarrow> confirm_all c betsize (hn\<lparr>h_turnis := turnis\<rparr>);
          hn \<leftarrow> confirm_act now rand1 rand2 c betsize hn;
          Some (0, hn) }"

section \<open>Actions\<close>

text \<open>The host skips the players who have folded or are all-in.\<close>

fun skip_players :: "nat list \<Rightarrow> nat \<Rightarrow> 'z pangea_info_scheme \<Rightarrow> (nat \<times> 'z pangea_info_scheme) option" where
  "skip_players [] j dp = Some (j, dp)"
| "skip_players (i # is) j dp =
     do { let j = (h_undergun dp + i) mod dp_N dp;
          status \<leftarrow> aget (h_betstatus dp) (int j);
          if status = word_of_int CARDS777_FOLD \<or> status = word_of_int CARDS777_ALLIN
          then do { actions \<leftarrow> aput (h_actions dp) (int j) status;
                    skip_players is j (dp\<lparr>h_actions := actions, h_numactions := h_numactions dp + 1\<rparr>) }
          else Some (j, dp) }"

text \<open>The number of community cards on the table: those before the first that is missing.\<close>

definition community_cards :: "'z pangea_info_scheme \<Rightarrow> nat" where
  "community_cards dp = length (takeWhile (\<lambda>c. c \<noteq> 0xff) (take 5 (h_community dp)))"

text \<open>The encrypted card that the host sends round for decoding, with an empty audit trail.\<close>

definition send_decode :: "int \<Rightarrow> 'z pangea_node_scheme \<Rightarrow> 'z pangea_node_scheme option" where
  "send_decode cardi hn =
     do { f \<leftarrow> aget (h_final hn) (cardi * int (dp_N hn));
          pangea_sendcmd ''decoded'' (- 1) (f @ replicate (32 * (dp_N hn - 1)) 0) cardi (int (dp_N hn) - 1) hn }"

definition next_street :: "'z pangea_node_scheme \<Rightarrow> 'z pangea_node_scheme option" where
  "next_street hn =
     (let i = community_cards hn; cardi = h_cardi hn; N = dp_N hn
      in if i = 0 then ofold send_decode [cardi, cardi + 1, cardi + 2] hn
         else if i = 3 \<or> i = 4 then send_decode cardi hn
         else if length (h_betstatus hn) < N then None
         else let k = length (takeWhile (\<lambda>i. h_betstatus hn ! ((h_lastbettor hn + i) mod N) = word_of_int CARDS777_FOLD) [0..<N]);
                  j = (h_lastbettor hn + min k (N - 1)) mod N;
                  hn = hn\<lparr>h_undergun := j\<rparr>
              in pangea_sendcmd ''showdown'' (- 1) (le_bytes 8 (h_betsize hn)) (int (N * 2 + 5)) (int j) hn)"

definition action_host :: "'z pangea_node_scheme \<Rightarrow> 'z pangea_node_scheme option" where
  "action_host hn =
     do { (j, hn) \<leftarrow> skip_players [0..<dp_N hn] 0 hn;
          let hn = hn\<lparr>h_undergun := j\<rparr>;
          if unat (h_numactions hn) < dp_N hn
          then pangea_sendcmd ''turn'' (- 1) (snapshot_payload hn) (h_cardi hn) (int (h_undergun hn)) hn
          else next_street hn }"

definition pangea_action :: "u32 \<Rightarrow> pangea_cmd \<Rightarrow> 'z pangea_node_scheme \<Rightarrow> (int \<times> 'z pangea_node_scheme) option" where
  "pangea_action now c hn =
     (if length (c_data c) < 8 \<or> dp_N hn = 0 then None
      else if c_senderind c \<noteq> int (h_undergun hn) then Some (- 1, hn)
      else do {
        (_, hn) \<leftarrow> pangea_bet hn (c_senderind c) (le_val (take 8 (c_data c))) CARDS777_CHECK;
        actions \<leftarrow> aput (h_actions hn) (c_senderind c) (word_of_int (c_turni c));
        let hn = hn\<lparr>h_actions := actions, h_undergun := (h_undergun hn + 1) mod dp_N hn,
                    h_numactions := h_numactions hn + 1\<rparr>;
        (r, hn) \<leftarrow> pangea_lastman now hn;
        if r > 0 then Some (0, hn)
        else do { hn \<leftarrow> (if hn_slot hn = pangea_slotA hn then action_host hn else Some hn); Some (0, hn) } })"

section \<open>Showdown\<close>

definition pangea_myrank :: "'z pangea_info_scheme \<Rightarrow> int \<Rightarrow> int option" where
  "pangea_myrank dp senderind =
     do { myrank \<leftarrow> aget (h_handranks dp) senderind;
          if length (h_handranks dp) < dp_N dp then None
          else if \<exists>i \<in> set [0..<dp_N dp]. int i \<noteq> senderind \<and> h_handranks dp ! i > myrank then Some (- 1)
          else Some (if myrank \<noteq> 0 then 1 else 0) }"

definition showdown_reveal :: "pangea_cmd \<Rightarrow> 'z pangea_node_scheme \<Rightarrow> 'z pangea_node_scheme option" where
  "showdown_reveal c hn =
     do { ind \<leftarrow> pangea_ind hn (hn_slot hn);
          status \<leftarrow> aget (h_betstatus hn) ind;
          action \<leftarrow> aget (h_actions hn) ind;
          if status \<noteq> word_of_int CARDS777_FOLD
             \<and> (p_autoshow hn \<noteq> 0 \<and> action \<noteq> word_of_int CARDS777_SENTCARDS
                \<or> c_turni c = ind \<and> int (h_lastbettor hn) = ind)
          then do {
            rank \<leftarrow> pangea_myrank hn ind;
            if p_autoshow hn = 0 \<and> rank < 0
            then pangea_sendcmd ''action'' (- 1) (le_bytes 8 (0 :: u64)) (c_cardi c) CARDS777_FOLD hn
            else do {
              card0 \<leftarrow> aget (p_holecards hn) 0; i0 \<leftarrow> aget (p_cardis hn) 0;
              card1 \<leftarrow> aget (p_holecards hn) 1; i1 \<leftarrow> aget (p_cardis hn) 1;
              hn \<leftarrow> pangea_sendcmd ''faceup'' (- 1) card0 (uint i0) ind hn;
              hn \<leftarrow> pangea_sendcmd ''faceup'' (- 1) card1 (uint i1) ind hn;
              actions \<leftarrow> aput (h_actions hn) ind (word_of_int CARDS777_SENTCARDS);
              Some (hn\<lparr>h_actions := actions\<rparr>) } }
          else Some hn }"

text \<open>The host asks the next player; \<open>True\<close> means that all players have been asked.\<close>

fun showdown_next :: "nat \<Rightarrow> 'z pangea_info_scheme \<Rightarrow> (bool \<times> 'z pangea_info_scheme) option" where
  "showdown_next 0 dp = Some (False, dp)"
| "showdown_next (Suc n) dp =
     (let u = (h_undergun dp + 1) mod dp_N dp; dp = dp\<lparr>h_undergun := u\<rparr>
      in if u = h_lastbettor dp then Some (True, dp)
         else do { status \<leftarrow> aget (h_betstatus dp) (int u);
                   if status \<noteq> word_of_int CARDS777_FOLD then Some (False, dp) else showdown_next n dp })"

definition pangea_showdown :: "u32 \<Rightarrow> pangea_cmd \<Rightarrow> 'z pangea_node_scheme \<Rightarrow> (int \<times> 'z pangea_node_scheme) option" where
  "pangea_showdown now c hn =
     do { hn \<leftarrow> showdown_reveal c hn;
          (r, hn) \<leftarrow> pangea_lastman now hn;
          if r > 0 then Some (0, hn)
          else if hn_slot hn = pangea_slotA hn \<and> c_senderind c \<noteq> 0
          then do { (asked, hn) \<leftarrow> showdown_next (dp_N hn) hn;
                    if asked then Some (0, hn)
                    else do { hn \<leftarrow> pangea_sendcmd ''showdown'' (- 1) (le_bytes 8 (h_betsize hn)) (c_cardi c) (int (h_undergun hn)) hn;
                              Some (0, hn) } }
          else Some (0, hn) }"

section \<open>Cards\<close>

text \<open>
  \<open>pangea_rank\<close> copies the community cards into the player's hand up to the first card that is
  missing; with all seven cards it stores the score.
\<close>

fun rank_copy :: "nat list \<Rightarrow> u8 list \<Rightarrow> u8 list \<Rightarrow> (bool \<times> u8 list) option" where
  "rank_copy [] community hand = Some (True, hand)"
| "rank_copy (i # is) community hand =
     do { hand \<leftarrow> (if i < 5 then do { x \<leftarrow> aget community (int i); aput hand (int i) x } else Some hand);
          y \<leftarrow> aget hand (int i);
          if y = 0xff then Some (False, hand) else rank_copy is community hand }"

definition pangea_rank :: "int \<Rightarrow> 'z pangea_info_scheme \<Rightarrow> (u32 \<times> 'z pangea_info_scheme) option" where
  "pangea_rank senderind dp =
     do { rank \<leftarrow> aget (h_handranks dp) senderind;
          if rank \<noteq> 0 then Some (rank, dp)
          else do {
            hand \<leftarrow> aget (h_hands dp) senderind;
            (complete, hand) \<leftarrow> rank_copy [0..<7] (h_community dp) hand;
            hands \<leftarrow> aput (h_hands dp) senderind hand;
            let dp = dp\<lparr>h_hands := hands\<rparr>;
            if complete
            then do { (score, _) \<leftarrow> set_handstr hand False;
                      ranks \<leftarrow> aput (h_handranks dp) senderind score;
                      Some (score, dp\<lparr>h_handranks := ranks, h_handmask := h_handmask dp OR push_bit (nat senderind) 1\<rparr>) }
            else Some (rank, dp) } }"

definition pangea_facedown :: "pangea_cmd \<Rightarrow> 'z pangea_node_scheme \<Rightarrow> (int \<times> 'z pangea_node_scheme) option" where
  "pangea_facedown c hn =
     (if length (c_data c) \<noteq> 4 then Some (- 1, hn)
      else if c_turni c > 0 \<and> (c_cardi c < 0 \<or> 64 \<le> c_cardi c) then None
      else do {
        mask \<leftarrow> aget (h_havemasks hn) (c_senderind c);
        masks \<leftarrow> (if c_turni c > 0
                  then aput (h_havemasks hn) (c_senderind c) (mask OR push_bit (nat (c_cardi c)) 1)
                  else Some (h_havemasks hn));
        if length masks < dp_N hn then None
        else do {
          let hn = hn\<lparr>h_havemasks := masks\<rparr>;
          let n = length (filter (\<lambda>m. bitweight m = 2) (take (dp_N hn) masks));
          hn \<leftarrow> (if hn_slot hn = pangea_slotA hn \<and> n = dp_N hn
                 then pangea_startbets (int (dp_N hn * 2)) hn else Some hn);
          Some (0, hn) } })"

definition faceup_community ::
    "pangea_cmd \<Rightarrow> u8 \<Rightarrow> 'z pangea_node_scheme \<Rightarrow> 'z pangea_node_scheme option" where
  "faceup_community c x hn =
     do { let k = c_cardi c - int (dp_N hn * 2);
          community \<leftarrow> aput (h_community hn) k x;
          hands \<leftarrow> ofold (\<lambda>i hands. do { h \<leftarrow> aget hands (int i); h \<leftarrow> aput h k x; aput hands (int i) h })
                    [0..<dp_N hn] (h_hands hn);
          c256 \<leftarrow> aput (h_community256 hn) k (c_data c);
          let hn = hn\<lparr>h_community := community, h_hands := hands, h_community256 := c256\<rparr>;
          ind \<leftarrow> pangea_ind hn (hn_slot hn);
          hn \<leftarrow> (if c_senderind c = ind then do { (_, hn) \<leftarrow> pangea_rank (c_senderind c) hn; Some hn } else Some hn);
          if hn_slot hn = pangea_slotA hn \<and> c_cardi c \<ge> int (dp_N hn * 2 + 2) \<and> c_cardi c < int (dp_N hn * 2 + 5)
          then pangea_startbets (c_cardi c + 1) hn else Some hn }"

definition faceup_hole :: "pangea_cmd \<Rightarrow> u8 \<Rightarrow> 'z pangea_node_scheme \<Rightarrow> 'z pangea_node_scheme option" where
  "faceup_hole c x hn =
     (if c_cardi c < int (dp_N hn * 2)
      then do { let k = c_cardi c sdiv int (dp_N hn);
                cards \<leftarrow> aget (h_cards hn) (c_senderind c);
                cards \<leftarrow> aput cards k (c_data c);
                cards \<leftarrow> aput (h_cards hn) (c_senderind c) cards;
                hand \<leftarrow> aget (h_hands hn) (c_senderind c);
                hand \<leftarrow> aput hand (5 + k) x;
                hands \<leftarrow> aput (h_hands hn) (c_senderind c) hand;
                (_, hn) \<leftarrow> pangea_rank (c_senderind c) (hn\<lparr>h_cards := cards, h_hands := hands\<rparr>);
                Some hn }
      else Some hn)"

definition pangea_faceup :: "pangea_cmd \<Rightarrow> 'z pangea_node_scheme \<Rightarrow> (int \<times> 'z pangea_node_scheme) option" where
  "pangea_faceup c hn =
     (if length (c_data c) \<noteq> 32 then Some (- 1, hn)
      else if c_turni c \<ge> 0
      then do {
        let tmp = (push_bit 8 (word_of_int (c_cardi c)) OR (word_of_int (c_turni c) AND 0xff) :: u16);
        let x = c_data c ! 1;
        hn \<leftarrow> pangea_summary hn CARDS777_FACEUP (le_bytes 2 tmp) (c_data c);
        hn \<leftarrow> (if c_cardi c \<ge> int (dp_N hn * 2) \<and> c_cardi c < int (dp_N hn * 2 + 5)
               then faceup_community c x hn else faceup_hole c x hn);
        Some (0, hn) }
      else Some (0, hn))"

definition pangea_final :: "pangea_cmd \<Rightarrow> 'z pangea_node_scheme \<Rightarrow> (int \<times> 'z pangea_node_scheme) option" where
  "pangea_final c hn =
     (let n = dp_numcards hn * dp_N hn
      in if length (c_data c) \<noteq> n * 32 then Some (- 1, hn)
         else if length (h_final hn) < n then None
         else Some (0, hn\<lparr>h_final := map (\<lambda>i. take 32 (drop (32 * i) (c_data c))) [0..<n] @ drop n (h_final hn)\<rparr>))"

definition pangea_ping :: "pangea_cmd \<Rightarrow> 'z pangea_node_scheme \<Rightarrow> (int \<times> 'z pangea_node_scheme) option" where
  "pangea_ping c hn =
     (if length (c_data c) < 8 then None
      else do { pubs \<leftarrow> aput (h_othercardpubs hn) (c_senderind c) (le_val (take 8 (c_data c)));
                Some (0, hn\<lparr>h_othercardpubs := pubs\<rparr>) })"

text \<open>Reading and writing the audit trail of one card: \<open>N\<close> entries from \<open>(cardi * N + destplayer) * N\<close> on.\<close>

definition pangea_rwaudit ::
    "bool \<Rightarrow> bits256 list \<Rightarrow> bits256 list \<Rightarrow> nat \<Rightarrow> nat \<Rightarrow> nat \<Rightarrow> (bits256 list \<times> bits256 list) option" where
  "pangea_rwaudit saveflag audit audits cardi destplayer N =
     (let k = (cardi * N + destplayer) * N
      in if length audits < k + N \<or> length audit < N then None
         else if saveflag then Some (audit, take k audits @ take N audit @ drop (k + N) audits)
         else Some (take N (drop k audits) @ drop N audit, audits))"

definition pangea_clearhand :: "'z pangea_node_scheme \<Rightarrow> 'z pangea_node_scheme option" where
  "pangea_clearhand hn =
     (if length (h_final hn) < dp_N hn * dp_numcards hn \<or> length (h_cardpubs hn) < 1 + dp_numcards hn then None
      else Some (hn\<lparr>h_checkprod := replicate 32 0, h_community256 := replicate 5 (replicate 32 0),
             h_cards := replicate 9 (replicate 2 (replicate 32 0)), h_othercardpubs := replicate 9 0,
             h_havemasks := replicate 9 0, h_betsize := 0, h_hostrake := 0, h_pangearake := 0, h_lastraise := 0,
             h_bets := replicate 9 0, h_snapshot := replicate 10 0, h_won := replicate 9 0, h_handmask := 0,
             h_lastbettor := 0, h_startdecktime := 0, h_betstarted := 0, h_finished := 0, h_encodestarted := 0,
             h_cardi := 0, h_userinput_starttime := 0, h_handranks := replicate 9 0, h_betstatus := replicate 9 0,
             h_actions := replicate 9 0, h_turnis := replicate 9 0, h_numactions := 0, h_undergun := 0,
             h_final := replicate (dp_N hn * dp_numcards hn) (replicate 32 0) @ drop (dp_N hn * dp_numcards hn) (h_final hn),
             h_cardpubs := replicate (1 + dp_numcards hn) (replicate 32 0) @ drop (1 + dp_numcards hn) (h_cardpubs hn),
             h_community := replicate 5 0xff, h_hands := replicate 9 (replicate 7 0xff),
             p_hole := replicate 2 0xff, p_cardis := replicate 2 0xff,
             p_holecards := replicate 2 (replicate 32 0)\<rparr>))"

text \<open>
  \<open>pangea_newhand\<close>; \<open>pubkeys\<close> is \<open>cards777_pubkeys\<close>, which multiplies the card keys on the curve
  (the vendored curve25519 code).
\<close>

definition newhand_order :: "pangea_cmd \<Rightarrow> 'z pangea_node_scheme \<Rightarrow> 'z pangea_node_scheme option" where
  "newhand_order c hn =
     (if hn_slot hn \<noteq> 0
      then do { hn \<leftarrow> pangea_clearhand hn; (_, hn) \<leftarrow> pangea_neworder hn (c_active c); Some hn }
      else Some hn)"

definition pangea_newhand ::
    "(bits256 list \<Rightarrow> nat \<Rightarrow> bits256 \<Rightarrow> bits256) \<Rightarrow> pangea_cmd \<Rightarrow> 'z pangea_node_scheme
     \<Rightarrow> (int \<times> 'z pangea_node_scheme) option" where
  "pangea_newhand pubkeys c hn =
     (let n = dp_numcards hn + 1
      in if length (c_data c) \<noteq> n * 32 then Some (- 1, hn)
         else do {
           hn \<leftarrow> newhand_order c hn;
           if dp_N hn = 0 \<or> length (h_cardpubs hn) < n then None
           else do {
             let hn = hn\<lparr>dp_button := unat (dp_numhands hn) mod dp_N hn, dp_numhands := dp_numhands hn + 1,
                         h_cardpubs := map (\<lambda>i. take 32 (drop (32 * i) (c_data c))) [0..<n] @ drop n (h_cardpubs hn)\<rparr>;
             let hn = hn\<lparr>h_checkprod := pubkeys (h_cardpubs hn) (dp_numcards hn) (h_cardpubs hn ! dp_numcards hn),
                         dp_summary := [], dp_summaries := 0, dp_mismatches := 0\<rparr>;
             hn \<leftarrow> (if sp_myind hn \<ge> 0
                    then do {
                      hn \<leftarrow> pangea_summary hn CARDS777_START (le_bytes 4 (dp_numhands hn - 1)) (concat (take n (h_cardpubs hn)));
                      pangea_sendcmd ''gotdeck'' (- 1) (take 8 (h_checkprod hn)) (h_cardi hn)
                        (uint (h_userinput_starttime hn)) hn }
                    else Some hn);
             Some (0, hn) } })"

definition pangea_statusstr :: "i8 \<Rightarrow> string" where
  "pangea_statusstr status =
     (if status = word_of_int CARDS777_FOLD then ''folded''
      else if status = word_of_int CARDS777_ALLIN then ''ALLin'' else ''active'')"

definition PANGEA_USERTIMEOUT :: u32 where "PANGEA_USERTIMEOUT = 60"

definition pangea_countdown :: "u32 \<Rightarrow> 'z pangea_info_scheme \<Rightarrow> int \<Rightarrow> int" where
  "pangea_countdown now dp player =
     (if int (h_undergun dp) = player \<and> h_userinput_starttime dp \<noteq> 0
      then sint (h_userinput_starttime dp + PANGEA_USERTIMEOUT - now) else - 1)"

section \<open>The payout conserves funds\<close>

text \<open>A payout changes nothing but the summary, the balances and the winnings.\<close>

definition payout_frame :: "'z pangea_info_scheme \<Rightarrow> 'z pangea_info_scheme \<Rightarrow> bool" where
  "payout_frame dp dp' \<longleftrightarrow> (\<exists>s b w. dp' = dp\<lparr>dp_summary := s, sp_balances := b, h_won := w\<rparr>)"

lemma payout_frame_refl: "payout_frame dp dp"
  unfolding payout_frame_def by (intro exI [of _ "dp_summary dp"] exI [of _ "sp_balances dp"] exI [of _ "h_won dp"]) simp

lemma payout_frame_trans: "payout_frame a b \<Longrightarrow> payout_frame b c \<Longrightarrow> payout_frame a c"
  unfolding payout_frame_def by force

lemma pay_winner_frame: "pay_winner split w dp = Some dp' \<Longrightarrow> payout_frame dp dp'"
  unfolding pay_winner_def payout_frame_def by (force elim!: bind_SomeE dest!: summary_SomeD)

lemma pay_winners_frame: "ofold (pay_winner split) ws dp = Some dp' \<Longrightarrow> payout_frame dp dp'"
  by (induction ws arbitrary: dp)
    (auto simp: bind_Some_conv payout_frame_refl intro: payout_frame_trans pay_winner_frame)

lemma splitpot_frame: "pangea_splitpot acc row r dp = Some (x, y, dp') \<Longrightarrow> payout_frame dp dp'"
  by (auto simp: pangea_splitpot_def Let_def payout_frame_refl split: if_splits prod.splits
      elim!: bind_SomeE intro: pay_winners_frame)

lemma finish_pots_frame: "ofold (finish_pot r) rows (a, b, dp) = Some (x, y, dp') \<Longrightarrow> payout_frame dp dp'"
  by (induction rows arbitrary: a b dp)
    (auto simp: finish_pot_def bind_Some_conv payout_frame_refl split: prod.splits
      intro: payout_frame_trans splitpot_frame)

lemma frame_fields:
  assumes "payout_frame dp dp'"
  shows "pot_frame dp' = pot_frame dp" "stakes dp' = stakes dp" "dp_N dp' = dp_N dp"
    "dp_hostrake dp' = dp_hostrake dp" "dp_pangearake dp' = dp_pangearake dp" "h_bets dp' = h_bets dp"
  using assms by (auto simp: payout_frame_def pot_frame_def stakes_def)

lemma pot_players_frame: "pot_frame dp' = pot_frame dp \<Longrightarrow> pot_players dp' row = pot_players dp row"
  by (simp add: pot_frame_def stakes_def pot_players_def folded_def)

lemma finish_pots_total:
  assumes "table_ok dp" and "\<forall>row \<in> set rows. length row = 9 \<and> pot_players dp row \<noteq> {}"
    and "summary_len dp + 90 * length rows \<le> SUMMARY_MAX"
  shows "\<exists>rake prake dp'. ofold (finish_pot r) rows (a, b, dp) = Some (rake, prake, dp') \<and> table_ok dp'
    \<and> summary_len dp' \<le> summary_len dp + 90 * length rows
    \<and> sum_list (sp_balances dp') + rake + prake = sum_list (sp_balances dp) + a + b + (\<Sum>row \<leftarrow> rows. pot_total dp row)"
  using assms
proof (induction rows arbitrary: a b dp)
  case Nil
  then show ?case by simp
next
  case (Cons row rows)
  then have row: "length row = 9" "pot_players dp row \<noteq> {}" "summary_len dp + 90 \<le> SUMMARY_MAX" by simp_all
  from splitpot_total [OF Cons.prems(1) row, of b r] obtain rake prake dp1 where
    1: "pangea_splitpot b row r dp = Some (rake, prake, dp1)" "table_ok dp1" "pot_frame dp1 = pot_frame dp"
      "summary_len dp1 \<le> summary_len dp + 90"
      "sum_list (sp_balances dp1) + rake + prake = sum_list (sp_balances dp) + b + pot_total dp row" by auto
  have "pot_total dp1 x = pot_total dp x" for x using 1(3) by (simp add: pot_total_sum pot_frame_def stakes_def)
  moreover have "\<forall>row \<in> set rows. length row = 9 \<and> pot_players dp1 row \<noteq> {}"
    using Cons.prems(2) pot_players_frame [OF 1(3)] by simp
  moreover have "summary_len dp1 + 90 * length rows \<le> SUMMARY_MAX" using 1(4) Cons.prems(3) by simp
  ultimately obtain rake' prake' dp' where 2: "ofold (finish_pot r) rows (a + rake, prake, dp1) = Some (rake', prake', dp')"
      "table_ok dp'" "summary_len dp' \<le> summary_len dp1 + 90 * length rows"
      "sum_list (sp_balances dp') + rake' + prake' = sum_list (sp_balances dp1) + (a + rake) + prake + (\<Sum>row \<leftarrow> rows. pot_total dp row)"
    using Cons.IH [OF 1(2), of "a + rake" prake] by auto
  have "sum_list (sp_balances dp') + rake' + prake' = sum_list (sp_balances dp) + a + b + (\<Sum>row \<leftarrow> row # rows. pot_total dp row)"
    using 2(4) 1(5) by (simp add: algebra_simps)
  with 1 2 show ?case by (auto simp: finish_pot_def [of r row "(a, b, dp)"])
qed

lemma finish_changes_total:
  assumes "table_ok dp" and "\<forall>j \<in> set js. j < dp_N dp"
  shows "\<exists>bs x y. ofold (finish_change dp) js (bs0, x0, y0) = Some (bs, x, y) \<and> length bs = length bs0 + length js"
  using assms(2)
proof (induction js arbitrary: bs0 x0 y0)
  case (Cons j js)
  then have "j < dp_N dp" by simp
  then obtain s where s: "pangea_slot dp (int j) = Some (int s)" "s < 9"
    using table_slot [OF assms(1)] by blast
  then have "aget (sp_balances dp) (int s) = Some (sp_balances dp ! s)" "aget (dp_snapshot dp) (int s) = Some (dp_snapshot dp ! s)"
    using assms(1) by (simp_all add: aget_nat table_ok_def seats_ok_def)
  with s obtain x1 y1 where "finish_change dp j (bs0, x0, y0) = Some (bs0 @ [sp_balances dp ! s], x1, y1)"
    by (simp add: finish_change_def)
  with Cons.IH [of "bs0 @ [sp_balances dp ! s]" x1 y1] Cons.prems show ?case by auto
qed simp

text \<open>A node of a table that is being played: all seats are taken by players.\<close>

definition node_ok :: "'z pangea_node_scheme \<Rightarrow> bool" where
  "node_ok hn \<longleftrightarrow> table_ok hn \<and> sp_numaddrs hn = dp_N hn \<and> length (h_community hn) = 5
     \<and> length (h_snapshot hn) = 10 \<and> length (h_turnis hn) = 9 \<and> length (sp_playerpubs hn) = 9
     \<and> 0 \<le> hn_slot hn \<and> hn_slot hn < 9 \<and> drop (dp_N hn) (h_bets hn) = replicate (9 - dp_N hn) 0"

lemma sendcmd_total:
  assumes "seats_ok hn" and "0 \<le> hn_slot hn" and "hn_slot hn < 9" and "dest < 0"
  shows "\<exists>m. pangea_sendcmd cmd dest data cardi turni hn = Some (hn\<lparr>hn_sent := hn_sent hn @ [m]\<rparr>)"
proof -
  have "aget (sp_addrs hn) (hn_slot hn) = Some (sp_addrs hn ! nat (hn_slot hn))"
    using assms by (simp add: aget_def seats_ok_def)
  with assms(4) show ?thesis by (auto simp: pangea_sendcmd_def pangea_ind_def)
qed

text \<open>The funds on a table: the balances, the bets of the hand and the rakes of all hands.\<close>

definition funds :: "'z pangea_info_scheme \<Rightarrow> u64" where
  "funds dp = chips dp + dp_hostrake dp + dp_pangearake dp"

lemma sum_rows:
  assumes "length bets = 9" and "N \<le> 9" and "drop N bets = replicate (9 - N) (0 :: u64)"
    and "n \<le> length m" and "\<forall>j < N. (\<Sum>k < n. m ! k ! j) = bets ! j"
  shows "(\<Sum>row \<leftarrow> take n m. \<Sum>j < N. row ! j) = sum_list bets"
proof -
  have "(\<Sum>row \<leftarrow> take n m. \<Sum>j < N. row ! j) = (\<Sum>k < n. \<Sum>j < N. m ! k ! j)"
    using assms(4) by (simp add: sum_list_sum_nth atLeast0LessThan min_absorb2)
  also have "\<dots> = (\<Sum>j < N. \<Sum>k < n. m ! k ! j)" by (rule sum.swap)
  also have "\<dots> = (\<Sum>j < N. bets ! j)" using assms(5) by simp
  also have "\<dots> = sum_list (take N bets)"
    using assms(1,2) by (simp add: sum_list_sum_nth atLeast0LessThan min_absorb2)
  also have "\<dots> = sum_list (take N bets @ drop N bets)" using assms(3) by (simp add: sum_list_replicate)
  finally show ?thesis by simp
qed

lemma sidepots_none:
  assumes "table_ok dp" and "dp_N dp \<le> length bets" and "pot_players dp bets = {}"
  shows "pangea_sidepots dp bets = Some (1, first_rows (dp_N dp) bets)"
    and "pot_players dp (first_rows (dp_N dp) bets ! 0) = {}"
proof -
  let ?m = "first_rows (dp_N dp) bets"
  have N: "dp_N dp \<le> 9" "length (h_betstatus dp) = 9"
    using table_N [OF assms(1)] assms(1) by (simp_all add: table_ok_def)
  show p: "pot_players dp (?m ! 0) = {}"
    using assms(2,3) N by (auto simp: pot_players_def first_rows_def nth_append)
  then have "sidepots_nonz dp (?m ! 0) b = 0" for b by (simp add: nonz_zero_iff)
  then have "sidepots_loop dp 0 ?m = Some (1, ?m)" by (simp add: sidepots_loop.simps [of dp 0] Let_def)
  then show "pangea_sidepots dp bets = Some (1, ?m)"
    using N assms(2) by (simp add: pangea_sidepots_def first_rows_def CARDS777_MAXPLAYERS_def)
qed

lemma splitpot_none:
  assumes "table_ok dp" and "length row = 9" and "pot_players dp row = {}"
  shows "pangea_splitpot acc row r dp = Some (0, acc, dp)"
proof -
  have "pot_winners dp row = []" using pot_winners_best [of dp row] assms(3) by simp
  then show ?thesis using assms(1,2) table_N [OF assms(1)] by (simp add: pangea_splitpot_def table_ok_def)
qed

text \<open>Sharing out the pots never fails, and shares out all bets if a player of the hand has chips in it.\<close>

lemma finish_rows_total:
  assumes ok: "node_ok hn" and room: "summary_len hn + 810 \<le> SUMMARY_MAX"
  shows "\<exists>n m rake prake h1. pangea_sidepots hn (h_bets hn) = Some (n, m)
    \<and> ofold (finish_pot r) (take n m) (0, 0, hn) = Some (rake, prake, h1) \<and> table_ok h1
    \<and> summary_len h1 \<le> summary_len hn + 810
    \<and> (pot_players hn (h_bets hn) \<noteq> {} \<longrightarrow> sum_list (sp_balances h1) + rake + prake = chips hn)"
proof -
  have tok: "table_ok hn" using ok by (simp add: node_ok_def)
  have N: "dp_N hn \<le> 9" "length (h_bets hn) = 9" "dp_N hn \<le> length (h_bets hn)"
    using table_N [OF tok] tok by (simp_all add: table_ok_def)
  show ?thesis
  proof (cases "pot_players hn (h_bets hn) = {}")
    case True
    let ?m = "first_rows (dp_N hn) (h_bets hn)"
    note none = sidepots_none [OF tok N(3) True]
    have "length (?m ! 0) = 9" using N by (simp add: first_rows_def)
    moreover have "take 1 ?m = [?m ! 0]" by (simp add: first_rows_def)
    ultimately have "ofold (finish_pot r) (take 1 ?m) (0, 0, hn) = Some (0, 0, hn)"
      using splitpot_none [OF tok _ none(2)] by (simp add: finish_pot_def)
    then show ?thesis using none(1) tok True by auto
  next
    case False
    obtain n m where m: "pangea_sidepots hn (h_bets hn) = Some (n, m)" "n \<le> dp_N hn" "length m = 9"
        "\<forall>k < n. length (m ! k) = 9" "\<forall>j < dp_N hn. (\<Sum>k < n. m ! k ! j) = h_bets hn ! j"
        "\<forall>k < n. pot_players hn (m ! k) \<noteq> {}"
      using sidepots_ok [OF tok N(3) False] by blast
    have n: "n \<le> 9" "n \<le> length m" using m(2,3) N(1) by simp_all
    have rows: "\<forall>row \<in> set (take n m). length row = 9 \<and> pot_players hn row \<noteq> {}"
      using m(4,6) n(2) by (auto simp: in_set_conv_nth)
    have "summary_len hn + 90 * length (take n m) \<le> SUMMARY_MAX" using n room by simp
    from finish_pots_total [OF tok rows this, of r 0 0] obtain rake prake h1 where
      1: "ofold (finish_pot r) (take n m) (0, 0, hn) = Some (rake, prake, h1)" "table_ok h1"
        "summary_len h1 \<le> summary_len hn + 90 * length (take n m)"
        "sum_list (sp_balances h1) + rake + prake = sum_list (sp_balances hn) + (\<Sum>row \<leftarrow> take n m. pot_total hn row)" by auto
    have "(\<Sum>row \<leftarrow> take n m. pot_total hn row) = sum_list (h_bets hn)"
      unfolding pot_total_sum using ok N(1,2) n(2) m(5) by (intro sum_rows) (simp_all add: node_ok_def)
    with 1(4) have "sum_list (sp_balances h1) + rake + prake = chips hn" by (simp add: chips_def)
    moreover have "summary_len h1 \<le> summary_len hn + 810" using 1(3) n by simp
    ultimately show ?thesis using m(1) 1(1,2) by blast
  qed
qed

lemma finish_total:
  assumes ok: "node_ok hn" and fin: "h_finished hn = 0" and room: "summary_len hn + 910 \<le> SUMMARY_MAX"
  shows "\<exists>hn'. pangea_finish now hn = Some hn' \<and> node_ok hn' \<and> h_finished hn' = now
    \<and> (pot_players hn (h_bets hn) \<noteq> {} \<longrightarrow>
         sum_list (sp_balances hn') + dp_hostrake hn' + dp_pangearake hn' = funds hn)"
proof -
  have N: "dp_N hn \<le> 9" using ok table_N by (auto simp: node_ok_def)
  have c0: "aget (h_community hn) 0 = Some (h_community hn ! 0)" using ok by (simp add: node_ok_def aget_def)
  let ?r = "if h_community hn ! 0 = 0xff then 0 else sint (dp_rakemillis hn)"
  have room': "summary_len hn + 810 \<le> SUMMARY_MAX" using room by simp
  obtain n m rake prake h1 where m: "pangea_sidepots hn (h_bets hn) = Some (n, m)" and
    1: "ofold (finish_pot ?r) (take n m) (0, 0, hn) = Some (rake, prake, h1)" "table_ok h1"
      "summary_len h1 \<le> summary_len hn + 810"
    and bal: "pot_players hn (h_bets hn) \<noteq> {} \<longrightarrow> sum_list (sp_balances h1) + rake + prake = chips hn"
    using finish_rows_total [OF ok room', of ?r] by blast
  obtain s b w where h1: "h1 = hn\<lparr>dp_summary := s, sp_balances := b, h_won := w\<rparr>"
    using finish_pots_frame [OF 1(1)] by (auto simp: payout_frame_def)
  define h2 where "h2 = h1\<lparr>dp_hostrake := dp_hostrake h1 + rake, dp_pangearake := dp_pangearake h1 + prake,
      h_hostrake := rake, h_pangearake := prake, h_finished := now\<rparr>"
  have t2: "table_ok h2" using 1(2) by (simp add: h2_def table_ok_def seats_ok_def)
  have N2: "dp_N h2 = dp_N hn" and len2: "summary_len h2 \<le> summary_len hn + 810"
    using 1(3) by (simp_all add: h2_def h1)
  obtain bs x y where c: "ofold (finish_change h2) [0..<dp_N h2] ([], 0, 0) = Some (bs, x, y)" "length bs = dp_N h2"
    using finish_changes_total [OF t2, of "[0..<dp_N h2]" "[]" 0 0] by auto
  let ?ch = "push_bit 20 (ucast y) OR push_bit 4 (ucast x) OR (word_of_nat (dp_N h2) AND 0xf) :: u32"
  have "\<exists>S. (pangea_summary h2 CARDS777_CHANGES (le_bytes 4 ?ch) (snapshot_bytes bs)
      \<bind> (\<lambda>hn. pangea_summary hn CARDS777_RAKES (le_bytes 8 rake) (le_bytes 8 prake))) = Some (h2\<lparr>dp_summary := S\<rparr>)"
    using len2 room N c(2) N2 by (auto simp: summary_ok length_snapshot_bytes)
  then obtain S where S: "(pangea_summary h2 CARDS777_CHANGES (le_bytes 4 ?ch) (snapshot_bytes bs)
      \<bind> (\<lambda>hn. pangea_summary hn CARDS777_RAKES (le_bytes 8 rake) (le_bytes 8 prake))) = Some (h2\<lparr>dp_summary := S\<rparr>)" by blast
  define h4 where "h4 = h2\<lparr>dp_summary := S\<rparr>"
  have ok4: "node_ok h4"
    using ok t2 by (auto simp: h4_def h2_def h1 node_ok_def table_ok_def seats_ok_def)
  then have "seats_ok h4" "0 \<le> hn_slot h4" "hn_slot h4 < 9" by (simp_all add: node_ok_def table_ok_def)
  from sendcmd_total [OF this, of "- 1" "''summary''" "dp_summary h4" 0 0]
  obtain msg where msg: "pangea_sendsummary h4 = Some (h4\<lparr>hn_sent := hn_sent h4 @ [msg]\<rparr>)"
    by (auto simp: pangea_sendsummary_def)
  define sent where "sent = (if hn_slot h4 = pangea_slotA h4 then hn_sent h4 @ [msg] else hn_sent h4)"
  have last: "(if hn_slot h4 = pangea_slotA h4 then pangea_sendsummary h4 else Some h4) = Some (h4\<lparr>hn_sent := sent\<rparr>)"
    by (simp add: sent_def msg)
  have "pangea_finish now hn = Some (h4\<lparr>hn_sent := sent\<rparr>)"
  proof -
    obtain h3 where 3: "pangea_summary h2 CARDS777_CHANGES (le_bytes 4 ?ch) (snapshot_bytes bs) = Some h3"
        "pangea_summary h3 CARDS777_RAKES (le_bytes 8 rake) (le_bytes 8 prake) = Some h4"
      using S by (auto simp: h4_def elim!: bind_SomeE)
    have N21: "dp_N h2 = dp_N h1" by (simp add: h2_def)
    show ?thesis
      using fin m c0 1(1) c(1) [unfolded N21] 3 [unfolded N21] last unfolding pangea_finish_def
      by (simp add: Let_def h2_def [symmetric])
  qed
  moreover have "node_ok (h4\<lparr>hn_sent := sent\<rparr>)" using ok4 by (auto simp: node_ok_def table_ok_def seats_ok_def)
  moreover have "pot_players hn (h_bets hn) \<noteq> {} \<longrightarrow> sum_list (sp_balances h4) + dp_hostrake h4 + dp_pangearake h4 = funds hn"
    using bal by (auto simp: h4_def h2_def h1 funds_def algebra_simps)
  ultimately show ?thesis by (auto simp: h4_def h2_def)
qed

section \<open>Actions conserve funds\<close>

text \<open>A bet changes nothing but the amounts, the statuses and the summary.\<close>

definition bet_rest :: "'z pangea_info_scheme \<Rightarrow> 'z pangea_info_scheme" where
  "bet_rest dp = dp\<lparr>h_handmask := 0, h_betstatus := [], h_actions := [], dp_summary := [], h_lastraise := 0,
     h_numactions := 0, h_betsize := 0, h_lastbettor := 0, sp_balances := [], h_bets := []\<rparr>"

lemma fold_rest: "pangea_fold dp p = Some dp' \<Longrightarrow> bet_rest dp' = bet_rest dp \<and> h_bets dp' = h_bets dp"
  by (auto simp: pangea_fold_def bet_rest_def elim!: bind_SomeE dest!: summary_SomeD)

lemma bet_amount_rest: "bet_amount dp p bet action = Some (b, a, dp') \<Longrightarrow> bet_rest dp' = bet_rest dp \<and> h_bets dp' = h_bets dp"
  by (auto simp: bet_amount_def bet_rest_def bind_Some_conv split: if_splits)

lemma bet_raise_rest: "bet_raise dp p sb bet action = (a, dp') \<Longrightarrow> bet_rest dp' = bet_rest dp \<and> h_bets dp' = h_bets dp"
  by (drule bet_raise_frame) (auto simp: bet_rest_def)

lemma bet_transfer_rest:
  "bet_transfer dp p bet action = Some dp' \<Longrightarrow> bet_rest dp' = bet_rest dp
     \<and> (\<exists>s v. pangea_slot dp p = Some s \<and> h_bets dp' = (h_bets dp)[nat s := v])"
  by (auto simp: bet_transfer_def bet_rest_def pangea_slot_def pangea_tableaddr_def elim!: bind_SomeE dest!: summary_SomeD aput_SomeD)

lemma rest_slot: "bet_rest dp' = bet_rest dp \<Longrightarrow> pangea_slot dp' p = pangea_slot dp p"
proof -
  assume "bet_rest dp' = bet_rest dp"
  then have "pangea_slot (bet_rest dp') p = pangea_slot (bet_rest dp) p" by simp
  then show ?thesis by (simp add: bet_rest_def pangea_slot_def pangea_tableaddr_def)
qed

lemma bet_rest_bets:
  assumes "pangea_bet dp p bet action = Some (r, dp')"
  shows "bet_rest dp' = bet_rest dp \<and> (h_bets dp' = h_bets dp
     \<or> (\<exists>s v. pangea_slot dp (p smod int (dp_N dp)) = Some s \<and> h_bets dp' = (h_bets dp)[nat s := v]))"
proof -
  let ?p = "p smod int (dp_N dp)"
  consider (same) "dp' = dp"
    | (fold) b a dp1 where "bet_amount dp ?p bet action = Some (b, a, dp1)" "pangea_fold dp1 ?p = Some dp'"
    | (go) b a dp1 sb a' dp2 where "bet_amount dp ?p bet action = Some (b, a, dp1)"
        "bet_raise dp1 ?p sb b a = (a', dp2)" "bet_transfer dp2 ?p b a' = Some dp'"
    using assms by (auto simp: pangea_bet_def Let_def split: if_splits prod.splits elim!: bind_SomeE)
  then show ?thesis
  proof cases
    case fold
    then show ?thesis using fold_rest [OF fold(2)] bet_amount_rest [OF fold(1)] by simp
  next
    case go
    have "pangea_slot dp2 ?p = pangea_slot dp ?p"
      using rest_slot bet_raise_rest [OF go(2)] bet_amount_rest [OF go(1)] by metis
    then show ?thesis using bet_transfer_rest [OF go(3)] bet_raise_rest [OF go(2)] bet_amount_rest [OF go(1)] by auto
  qed simp
qed

lemma node_bet:
  assumes ok: "node_ok hn" and i: "i < dp_N hn" and room: "summary_len hn + 10 \<le> SUMMARY_MAX"
  shows "\<exists>r hn'. pangea_bet hn (int i) bet action = Some (r, hn') \<and> node_ok hn' \<and> funds hn' = funds hn
    \<and> bet_rest hn' = bet_rest hn \<and> summary_len hn' \<le> summary_len hn + 10"
proof -
  have tok: "table_ok hn" using ok by (simp add: node_ok_def)
  obtain r hn' where b: "pangea_bet hn (int i) bet action = Some (r, hn')" "table_ok hn'" "chips hn' = chips hn"
      "stakes hn' = stakes hn" "summary_len hn' \<le> summary_len hn + 10"
    using bet_total [OF tok i room, of bet action] by blast
  note rest = bet_rest_bets [OF b(1), unfolded int_smod_small [OF i]]
  obtain s where s: "pangea_slot hn (int i) = Some (int s)" "s < sp_numaddrs hn" using table_slot [OF tok i] by blast
  have f: "f (bet_rest hn') = f (bet_rest hn)" for f using rest by simp
  have "drop (dp_N hn) (h_bets hn') = drop (dp_N hn) (h_bets hn)"
    using rest s ok by (auto simp: node_ok_def)
  then have "node_ok hn'"
    using ok b(2,4) f [of h_community] f [of h_snapshot] f [of h_turnis] f [of sp_playerpubs] f [of hn_slot]
    by (simp add: node_ok_def stakes_def bet_rest_def)
  moreover have "funds hn' = funds hn"
    using b(3) f [of dp_hostrake] f [of dp_pangearake] by (simp add: funds_def bet_rest_def)
  ultimately show ?thesis using b rest by blast
qed

text \<open>The table after the hand is over, or while it goes on.\<close>

definition hand_settled :: "'z pangea_node_scheme \<Rightarrow> 'z pangea_node_scheme \<Rightarrow> bool" where
  "hand_settled hn hn' \<longleftrightarrow> sum_list (sp_balances hn') + dp_hostrake hn' + dp_pangearake hn' = funds hn"

lemma lastman_total:
  assumes ok: "node_ok hn" and fin: "h_finished hn = 0" and room: "summary_len hn + 910 \<le> SUMMARY_MAX"
  shows "\<exists>r hn'. pangea_lastman now hn = Some (r, hn') \<and> node_ok hn' \<and>
    (r = 0 \<and> hn' = hn \<or>
     r = 1 \<and> h_finished hn' = now \<and> fst (pangea_actives hn) \<le> 1 \<and> (pot_players hn (h_bets hn) \<noteq> {} \<longrightarrow> hand_settled hn hn'))"
proof (cases "h_betstarted hn \<noteq> 0 \<and> fst (pangea_actives hn) \<le> 1")
  case True
  with finish_total [OF assms, of now] fin show ?thesis by (auto simp: pangea_lastman_def hand_settled_def)
next
  case False
  then have "pangea_lastman now hn = Some (0, hn)" by (auto simp: pangea_lastman_def)
  with ok show ?thesis by blast
qed

text \<open>The host reads encrypted cards from \<open>cardi\<close> on.\<close>

definition deck_ready :: "'z pangea_info_scheme \<Rightarrow> bool" where
  "deck_ready dp \<longleftrightarrow> 0 \<le> h_cardi dp \<and> (h_cardi dp + 2) * int (dp_N dp) < int (length (h_final dp))"

text \<open>What the host's part of an action leaves alone: everything that concerns money.\<close>

definition money :: "'z pangea_info_scheme \<Rightarrow> _" where
  "money dp = (sp_balances dp, h_bets dp, dp_hostrake dp, dp_pangearake dp, h_finished dp, dp_summary dp)"

lemma skip_players_total:
  assumes "node_ok hn" and "j0 < dp_N hn"
  shows "\<exists>j hn'. skip_players is j0 hn = Some (j, hn') \<and> j < dp_N hn' \<and> node_ok hn' \<and> money hn' = money hn
    \<and> h_cardi hn' = h_cardi hn \<and> h_final hn' = h_final hn \<and> dp_N hn' = dp_N hn"
  using assms
proof (induction "is" arbitrary: j0 hn)
  case Nil
  then show ?case by simp
next
  case (Cons i "is")
  let ?j = "(h_undergun hn + i) mod dp_N hn"
  have N: "0 < dp_N hn" "dp_N hn \<le> 9" using Cons.prems(1) table_N by (auto simp: node_ok_def)
  then have j: "?j < dp_N hn" "?j < 9" by (simp, metis le_trans mod_less_divisor not_less)
  let ?st = "h_betstatus hn ! ?j"
  have st: "aget (h_betstatus hn) (int ?j) = Some ?st" and ac: "aput (h_actions hn) (int ?j) ?st = Some ((h_actions hn)[?j := ?st])"
    using j(2) Cons.prems(1) by (simp_all only: aget_nat aput_nat node_ok_def table_ok_def)
  let ?h = "hn\<lparr>h_actions := (h_actions hn)[?j := ?st], h_numactions := h_numactions hn + 1\<rparr>"
  have "node_ok ?h" using Cons.prems(1) by (auto simp: node_ok_def table_ok_def seats_ok_def)
  from Cons.IH [OF this, of ?j] j(1) obtain k hn' where IH: "skip_players is ?j ?h = Some (k, hn')" "k < dp_N hn'" "node_ok hn'"
      "money hn' = money hn" "h_cardi hn' = h_cardi hn" "h_final hn' = h_final hn" "dp_N hn' = dp_N hn"
    by (auto simp: money_def)
  show ?case
    using st ac IH Cons.prems(1) j(1) by (simp add: Let_def)
qed

lemma node_send:
  assumes "node_ok hn" and "dest < 0"
  shows "\<exists>hn'. pangea_sendcmd cmd dest data cardi turni hn = Some hn' \<and> node_ok hn' \<and> money hn' = money hn
    \<and> h_cardi hn' = h_cardi hn \<and> h_final hn' = h_final hn \<and> dp_N hn' = dp_N hn"
proof -
  from assms obtain m where "pangea_sendcmd cmd dest data cardi turni hn = Some (hn\<lparr>hn_sent := hn_sent hn @ [m]\<rparr>)"
    using sendcmd_total [of hn dest cmd data cardi turni] by (auto simp: node_ok_def table_ok_def)
  moreover have "node_ok (hn\<lparr>hn_sent := hn_sent hn @ [m]\<rparr>)"
    using assms(1) by (auto simp: node_ok_def table_ok_def seats_ok_def)
  ultimately show ?thesis by (simp add: money_def)
qed

lemma send_decode_total:
  assumes "node_ok hn" and "0 \<le> cardi" and "cardi * int (dp_N hn) < int (length (h_final hn))"
  shows "\<exists>hn'. send_decode cardi hn = Some hn' \<and> node_ok hn' \<and> money hn' = money hn
    \<and> h_cardi hn' = h_cardi hn \<and> h_final hn' = h_final hn \<and> dp_N hn' = dp_N hn"
proof -
  have "0 \<le> cardi * int (dp_N hn)" using assms(2) by simp
  then have "aget (h_final hn) (cardi * int (dp_N hn)) \<noteq> None" using assms(3) by (simp add: aget_None_iff)
  then obtain f where "aget (h_final hn) (cardi * int (dp_N hn)) = Some f" by blast
  with node_send [OF assms(1), of "- 1"] show ?thesis by (simp add: send_decode_def)
qed

lemma next_street_total:
  assumes ok: "node_ok hn" and d: "deck_ready hn"
  shows "\<exists>hn'. next_street hn = Some hn' \<and> node_ok hn' \<and> money hn' = money hn"
proof -
  let ?c = "h_cardi hn"
  have c: "0 \<le> ?c" "?c * int (dp_N hn) \<le> (?c + 1) * int (dp_N hn)" "(?c + 1) * int (dp_N hn) \<le> (?c + 2) * int (dp_N hn)"
      "(?c + 2) * int (dp_N hn) < int (length (h_final hn))"
    using d by (auto simp: deck_ready_def intro: mult_right_mono)
  consider (flop) "community_cards hn = 0" | (one) "community_cards hn = 3 \<or> community_cards hn = 4"
    | (last) "community_cards hn \<noteq> 0" "community_cards hn \<noteq> 3" "community_cards hn \<noteq> 4" by blast
  then show ?thesis
  proof cases
    case flop
    obtain h1 where 1: "send_decode ?c hn = Some h1" "node_ok h1" "money h1 = money hn" "h_final h1 = h_final hn" "dp_N h1 = dp_N hn"
      using send_decode_total [OF ok, of ?c] c by auto
    obtain h2 where 2: "send_decode (?c + 1) h1 = Some h2" "node_ok h2" "money h2 = money hn" "h_final h2 = h_final hn" "dp_N h2 = dp_N hn"
      using send_decode_total [OF 1(2), of "?c + 1"] c 1 by auto
    obtain h3 where 3: "send_decode (?c + 2) h2 = Some h3" "node_ok h3" "money h3 = money hn"
      using send_decode_total [OF 2(2), of "?c + 2"] c 2 by auto
    from flop 1(1) 2(1) 3 show ?thesis by (simp add: next_street_def Let_def)
  next
    case one
    then show ?thesis using send_decode_total [OF ok, of ?c] c by (auto simp: next_street_def Let_def)
  next
    case last
    let ?k = "length (takeWhile (\<lambda>i. h_betstatus hn ! ((h_lastbettor hn + i) mod dp_N hn) = word_of_int CARDS777_FOLD) [0..<dp_N hn])"
    let ?j = "(h_lastbettor hn + min ?k (dp_N hn - 1)) mod dp_N hn"
    let ?h = "hn\<lparr>h_undergun := ?j\<rparr>"
    have N: "\<not> length (h_betstatus hn) < dp_N hn" using ok table_N by (fastforce simp: node_ok_def table_ok_def)
    have "node_ok ?h" using ok by (auto simp: node_ok_def table_ok_def seats_ok_def)
    from node_send [OF this, of "- 1" "''showdown''" "le_bytes 8 (h_betsize ?h)" "int (dp_N hn * 2 + 5)" "int ?j"]
    show ?thesis using last N by (auto simp: next_street_def Let_def money_def)
  qed
qed

lemma action_host_total:
  assumes ok: "node_ok hn" and d: "deck_ready hn"
  shows "\<exists>hn'. action_host hn = Some hn' \<and> node_ok hn' \<and> money hn' = money hn"
proof -
  have "0 < dp_N hn" using ok table_N by (auto simp: node_ok_def)
  from skip_players_total [OF ok this, of "[0..<dp_N hn]"] obtain j h1 where
    1: "skip_players [0..<dp_N hn] 0 hn = Some (j, h1)" "node_ok h1" "money h1 = money hn"
      "h_cardi h1 = h_cardi hn" "h_final h1 = h_final hn" "dp_N h1 = dp_N hn" by blast
  let ?h = "h1\<lparr>h_undergun := j\<rparr>"
  have ok2: "node_ok ?h" using 1(2) by (auto simp: node_ok_def table_ok_def seats_ok_def)
  have "deck_ready ?h" using d 1 by (simp add: deck_ready_def)
  from next_street_total [OF ok2 this] obtain h2 where 2: "next_street ?h = Some h2" "node_ok h2" "money h2 = money ?h" by blast
  from node_send [OF ok2, of "- 1" "''turn''" "snapshot_payload ?h" "h_cardi ?h" "int j"] obtain h3 where
    3: "pangea_sendcmd ''turn'' (- 1) (snapshot_payload ?h) (h_cardi ?h) (int j) ?h = Some h3" "node_ok h3" "money h3 = money ?h" by auto
  have "money ?h = money hn" using 1(3) by (simp add: money_def)
  with 1(1) 2 3 show ?thesis by (auto simp: action_host_def Let_def)
qed

lemma action_booked:
  assumes ok: "node_ok hn" and i: "h_undergun hn < dp_N hn" and room: "summary_len hn + 10 \<le> SUMMARY_MAX"
  shows "\<exists>r h1. pangea_bet hn (int (h_undergun hn)) bet CARDS777_CHECK = Some (r, h1) \<and>
    (\<exists>acts. aput (h_actions h1) (int (h_undergun hn)) x = Some acts \<and>
      (let h2 = h1\<lparr>h_actions := acts, h_undergun := (h_undergun h1 + 1) mod dp_N h1, h_numactions := h_numactions h1 + 1\<rparr>
       in node_ok h2 \<and> funds h2 = funds hn \<and> h_finished h2 = h_finished hn \<and> summary_len h2 \<le> summary_len hn + 10
          \<and> (deck_ready hn \<longrightarrow> deck_ready h2) \<and> hn_slot h2 = hn_slot hn))"
proof -
  obtain r h1 where 1: "pangea_bet hn (int (h_undergun hn)) bet CARDS777_CHECK = Some (r, h1)" "node_ok h1"
      "funds h1 = funds hn" "bet_rest h1 = bet_rest hn" "summary_len h1 \<le> summary_len hn + 10"
    using node_bet [OF ok i room] by blast
  have f: "f (bet_rest h1) = f (bet_rest hn)" for f using 1(4) by simp
  have "h_undergun hn < 9" "length (h_actions h1) = 9"
    using i ok 1(2) table_N [of hn] by (auto simp: node_ok_def table_ok_def)
  then have a: "aput (h_actions h1) (int (h_undergun hn)) x = Some ((h_actions h1)[h_undergun hn := x])"
    by (simp add: aput_nat)
  let ?h = "h1\<lparr>h_actions := (h_actions h1)[h_undergun hn := x], h_undergun := (h_undergun h1 + 1) mod dp_N h1,
      h_numactions := h_numactions h1 + 1\<rparr>"
  have "node_ok ?h" using 1(2) by (auto simp: node_ok_def table_ok_def seats_ok_def)
  moreover have "funds ?h = funds hn" using 1(3) by (simp add: funds_def chips_def)
  moreover have "h_finished ?h = h_finished hn" "hn_slot ?h = hn_slot hn" "deck_ready hn \<longrightarrow> deck_ready ?h"
    using f [of h_finished] f [of hn_slot] f [of h_cardi] f [of dp_N] f [of h_final] by (simp_all add: bet_rest_def deck_ready_def)
  ultimately show ?thesis using 1(1,5) a by (intro exI [of _ r] exI [of _ h1]) (simp add: Let_def)
qed

lemma money_funds: "money a = money b \<Longrightarrow> funds a = funds b \<and> h_finished a = h_finished b"
  by (simp add: money_def funds_def chips_def)

text \<open>
  C2. An action keeps the money together. On a table that is being played, the player under the
  gun may announce any amount: the handler completes, on the host including the next request it
  sends, and the table stays well-formed. Either the hand goes on and balances, bets and rakes
  add up to what they were; or at most one player is left, the hand is over, and, if that player
  has chips in the pot, the balances and rakes now hold everything that balances, bets and rakes
  held before. An action out of turn is refused and changes nothing.
\<close>

theorem action_keeps_funds:
  assumes ok: "node_ok hn" and fin: "h_finished hn = 0" and i: "h_undergun hn < dp_N hn"
    and len: "8 \<le> length (c_data c)" and room: "summary_len hn + 920 \<le> SUMMARY_MAX" and deck: "deck_ready hn"
  shows "(c_senderind c \<noteq> int (h_undergun hn) \<longrightarrow> pangea_action now c hn = Some (- 1, hn)) \<and>
    (c_senderind c = int (h_undergun hn) \<longrightarrow>
      (\<exists>hn'. pangea_action now c hn = Some (0, hn') \<and> node_ok hn' \<and>
        (h_finished hn' = 0 \<and> funds hn' = funds hn \<or>
         h_finished hn' = now \<and>
         (\<exists>r h1. pangea_bet hn (c_senderind c) (le_val (take 8 (c_data c))) CARDS777_CHECK = Some (r, h1) \<and>
            fst (pangea_actives h1) \<le> 1 \<and> (pot_players h1 (h_bets h1) \<noteq> {} \<longrightarrow> hand_settled hn hn')))))"
proof (intro conjI impI)
  have N: "dp_N hn \<noteq> 0" using i by simp
  assume "c_senderind c \<noteq> int (h_undergun hn)"
  then show "pangea_action now c hn = Some (- 1, hn)" using len N by (simp add: pangea_action_def)
next
  assume s: "c_senderind c = int (h_undergun hn)"
  have N: "dp_N hn \<noteq> 0" using i by simp
  have "summary_len hn + 10 \<le> SUMMARY_MAX" using room by simp
  from action_booked [OF ok i this, of "le_val (take 8 (c_data c))" "word_of_int (c_turni c)"] obtain r h1 acts where
    1: "pangea_bet hn (int (h_undergun hn)) (le_val (take 8 (c_data c))) CARDS777_CHECK = Some (r, h1)"
      "aput (h_actions h1) (int (h_undergun hn)) (word_of_int (c_turni c)) = Some acts" and
    h2: "let h2 = h1\<lparr>h_actions := acts, h_undergun := (h_undergun h1 + 1) mod dp_N h1, h_numactions := h_numactions h1 + 1\<rparr>
       in node_ok h2 \<and> funds h2 = funds hn \<and> h_finished h2 = h_finished hn \<and> summary_len h2 \<le> summary_len hn + 10
          \<and> (deck_ready hn \<longrightarrow> deck_ready h2) \<and> hn_slot h2 = hn_slot hn" by blast
  define h2 where "h2 = h1\<lparr>h_actions := acts, h_undergun := (h_undergun h1 + 1) mod dp_N h1, h_numactions := h_numactions h1 + 1\<rparr>"
  have 2: "node_ok h2" "funds h2 = funds hn" "h_finished h2 = 0" "summary_len h2 + 910 \<le> SUMMARY_MAX" "deck_ready h2"
    using h2 fin room deck unfolding h2_def [symmetric] Let_def by auto
  have act: "pangea_action now c hn = do { (r, hn) \<leftarrow> pangea_lastman now h2;
      if r > 0 then Some (0, hn)
      else do { hn \<leftarrow> (if hn_slot hn = pangea_slotA hn then action_host hn else Some hn); Some (0, hn) } }"
    using s len N 1 by (simp add: pangea_action_def h2_def Let_def)
  from lastman_total [OF 2(1,3,4), of now] obtain q h3 where l: "pangea_lastman now h2 = Some (q, h3)" "node_ok h3"
      "q = 0 \<and> h3 = h2 \<or> q = 1 \<and> h_finished h3 = now \<and> fst (pangea_actives h2) \<le> 1
        \<and> (pot_players h2 (h_bets h2) \<noteq> {} \<longrightarrow> hand_settled h2 h3)" by blast
  from l(3) show "\<exists>hn'. pangea_action now c hn = Some (0, hn') \<and> node_ok hn' \<and>
        (h_finished hn' = 0 \<and> funds hn' = funds hn \<or>
         h_finished hn' = now \<and>
         (\<exists>r h1. pangea_bet hn (c_senderind c) (le_val (take 8 (c_data c))) CARDS777_CHECK = Some (r, h1) \<and>
            fst (pangea_actives h1) \<le> 1 \<and> (pot_players h1 (h_bets h1) \<noteq> {} \<longrightarrow> hand_settled hn hn')))"
  proof (elim disjE conjE)
    assume "q = 0" "h3 = h2"
    moreover obtain h4 where "action_host h2 = Some h4" "node_ok h4" "money h4 = money h2"
      using action_host_total [OF 2(1,5)] by blast
    ultimately show ?thesis using act l(1) 2 money_funds [of h4 h2] by (cases "hn_slot h2 = pangea_slotA h2") auto
  next
    assume q: "q = 1" "h_finished h3 = now" "fst (pangea_actives h2) \<le> 1" "pot_players h2 (h_bets h2) \<noteq> {} \<longrightarrow> hand_settled h2 h3"
    have "pot_players h2 (h_bets h2) = pot_players h1 (h_bets h1)" "pangea_actives h2 = pangea_actives h1"
      by (simp_all add: h2_def pot_players_def folded_def pangea_actives_def)
    with q(3,4) 1(1) s 2(2) have "\<exists>r h1. pangea_bet hn (c_senderind c) (le_val (take 8 (c_data c))) CARDS777_CHECK = Some (r, h1) \<and>
            fst (pangea_actives h1) \<le> 1 \<and> (pot_players h1 (h_bets h1) \<noteq> {} \<longrightarrow> hand_settled hn h3)"
      by (intro exI [of _ r] exI [of _ h1]) (simp add: hand_settled_def)
    then show ?thesis using act l(1,2) q(1,2) by simp
  qed
qed


text \<open>
  C3. The end of a hand pays out everything: when the hand of a table in play is finished, by the
  last player or at the showdown, \<open>pangea_finish\<close> completes; if a player who has not folded has
  chips in the pot, the new balances, the host rake and the Pangea rake add up to the old
  balances, bets and rakes; and a second call changes nothing.
\<close>

theorem finish_pays_everything:
  assumes "node_ok hn" and "h_finished hn = 0" and "pot_players hn (h_bets hn) \<noteq> {}"
    and "summary_len hn + 910 \<le> SUMMARY_MAX" and "now \<noteq> 0"
  shows "\<exists>hn'. pangea_finish now hn = Some hn' \<and> node_ok hn' \<and> hand_settled hn hn'
    \<and> pangea_finish later hn' = Some hn'"
proof -
  from finish_total [OF assms(1,2,4), of now] assms(3) obtain hn' where
    "pangea_finish now hn = Some hn'" "node_ok hn'" "h_finished hn' = now" "hand_settled hn hn'"
    by (auto simp: hand_settled_def)
  with assms(5) show ?thesis by (auto simp: pangea_finish_def)
qed

text \<open>A hand of the example table: all three players have bet 20 and the second has folded.\<close>

definition demo_hand :: pangea_node where
  "demo_hand = (demo_table [50, 60, 70] [100, 200, 300])\<lparr>h_bets := [20, 20, 20, 0, 0, 0, 0, 0, 0],
     h_final := replicate 156 [], h_betstatus := [0, 255, 0, 0, 0, 0, 0, 0, 0], h_betsize := 20\<rparr>"

lemma demo_hand_ok: "node_ok demo_hand" "deck_ready demo_hand"
proof -
  have "table_ok (demo_table [50, 60, 70] [100, 200, 300])" by (rule demo_table_ok) simp_all
  then have "table_ok demo_hand" by (auto simp: demo_hand_def table_ok_def seats_ok_def)
  moreover have "sp_numaddrs demo_hand = 3" "dp_N demo_hand = 3" "length (h_community demo_hand) = 5"
      "length (h_snapshot demo_hand) = 10" "length (h_turnis demo_hand) = 9" "length (sp_playerpubs demo_hand) = 9"
      "hn_slot demo_hand = 0" "drop 3 (h_bets demo_hand) = replicate 6 0"
    by (simp_all add: demo_hand_def demo_table_def eval_nat_numeral)
  ultimately show "node_ok demo_hand" by (simp add: node_ok_def)
  show "deck_ready demo_hand" by (simp add: deck_ready_def demo_hand_def demo_table_def)
qed

theorem finish_pays_everything_witness:
  "\<exists>hn'. pangea_finish 7 demo_hand = Some hn' \<and> sum_list (sp_balances hn') + dp_hostrake hn' + dp_pangearake hn' = 240"
proof -
  have "0 \<in> pot_players demo_hand (h_bets demo_hand)"
    by (simp add: pot_players_def folded_def demo_hand_def cards777_consts)
  then have p: "pot_players demo_hand (h_bets demo_hand) \<noteq> {}" by blast
  have f: "h_finished demo_hand = 0" "summary_len demo_hand = 0" "funds demo_hand = 240"
    by (simp_all add: demo_hand_def demo_table_def funds_def chips_def sum_list_replicate)
  show ?thesis
    using finish_pays_everything [OF demo_hand_ok(1) f(1) p, of 7 0] f by (auto simp: SUMMARY_MAX_def hand_settled_def)
qed

theorem action_keeps_funds_witness:
  "\<exists>hn'. pangea_action 7 \<lparr>c_senderind = 0, c_turni = 0, c_cardi = 6, c_data = replicate 8 0, c_dest = - 1, c_active = None\<rparr> demo_hand
     = Some (0, hn') \<and> node_ok hn'"
proof -
  have "h_finished demo_hand = 0" "h_undergun demo_hand = 0" "dp_N demo_hand = 3" "summary_len demo_hand = 0"
    by (simp_all add: demo_hand_def demo_table_def)
  with action_keeps_funds [OF demo_hand_ok(1) _ _ _ _ demo_hand_ok(2),
      of "\<lparr>c_senderind = 0, c_turni = 0, c_cardi = 6, c_data = replicate 8 0, c_dest = - 1, c_active = None\<rparr>" 7]
  show ?thesis by (auto simp: SUMMARY_MAX_def)
qed

end
