(* ===== verification/Utils777.thy ===== *)
theory Utils777
  imports Bits777 "HOL-Library.Multiset"
begin

text \<open>
  The utility functions of \<open>plugins/utils/utils777.c\<close>: quoting, copying and stripping of strings,
  hexadecimal and base-32 conversion, the small sets of integers kept in zero-terminated arrays,
  comparators and sorting, byte-wise integers, and calendar dates.

  A C string is a list of characters without the terminating zero; the functions that read a
  buffer by index take the memory from the pointer on, terminator included, and are \<open>None\<close> when
  they read or write outside it. For the functions that test for it, a null pointer has the same
  result as the empty string. Console output is left out.
\<close>

section \<open>Prime numbers\<close>

definition smallprimes :: "nat list" where
  "smallprimes = [
     2, 3, 5, 7, 11, 13, 17, 19, 23, 29,
     31, 37, 41, 43, 47, 53, 59, 61, 67, 71,
     73, 79, 83, 89, 97, 101, 103, 107, 109, 113,
     127, 131, 137, 139, 149, 151, 157, 163, 167, 173,
     179, 181, 191, 193, 197, 199, 211, 223, 227, 229,
     233, 239, 241, 251, 257, 263, 269, 271, 277, 281,
     283, 293, 307, 311, 313, 317, 331, 337, 347, 349,
     353, 359, 367, 373, 379, 383, 389, 397, 401, 409,
     419, 421, 431, 433, 439, 443, 449, 457, 461, 463,
     467, 479, 487, 491, 499, 503, 509, 521, 523, 541,
     547, 557, 563, 569, 571, 577, 587, 593, 599, 601,
     607, 613, 617, 619, 631, 641, 643, 647, 653, 659,
     661, 673, 677, 683, 691, 701, 709, 719, 727, 733,
     739, 743, 751, 757, 761, 769, 773, 787, 797, 809,
     811, 821, 823, 827, 829, 839, 853, 857, 859, 863,
     877, 881, 883, 887, 907, 911, 919, 929, 937, 941,
     947, 953, 967, 971, 977, 983, 991, 997]"

section \<open>Strings\<close>

definition QUOTE :: char where "QUOTE = CHR 0x22"
definition BACKSLASH :: char where "BACKSLASH = CHR 0x5C"

definition stringifyM :: "string \<Rightarrow> string" where
  "stringifyM str =
     (if str = [] then str
      else [QUOTE] @ concat (map (\<lambda>c. if c = QUOTE then [BACKSLASH, QUOTE] else [c]) str) @ [QUOTE])"

fun unescape :: "string \<Rightarrow> string" where
  "unescape [] = []"
| "unescape [c] = [c]"
| "unescape (c # d # s) =
     (if c = BACKSLASH \<and> d \<in> {CHR ''t'', CHR ''n'', CHR ''b'', CHR ''r''} then unescape s
      else if c = BACKSLASH \<and> d = QUOTE then QUOTE # unescape s
      else c # unescape (d # s))"

definition unstringify :: "string \<Rightarrow> string" where
  "unstringify str =
     (if str = [] then str
      else if hd str = QUOTE \<and> last str = QUOTE then unescape (tl (butlast str))
      else unescape str)"

text \<open>
  \<open>safecopy\<close>: the return value and the destination buffer of \<open>len\<close> bytes; a null source is \<open>None\<close>.
\<close>

definition safecopy :: "string option \<Rightarrow> nat \<Rightarrow> int \<times> string" where
  "safecopy src len =
     (case src of None \<Rightarrow> (- 1, replicate len (CHR 0x00))
      | Some s \<Rightarrow> let dest = take len s @ replicate (len - length s) (CHR 0x00)
                  in if len \<le> length s then (- 1, dest) else (int (length s), dest))"

definition is_digit :: "char \<Rightarrow> bool" where
  "is_digit c \<longleftrightarrow> 48 \<le> (of_char c :: nat) \<and> of_char c \<le> (57 :: nat)"

definition is_lower :: "char \<Rightarrow> bool" where
  "is_lower c \<longleftrightarrow> 97 \<le> (of_char c :: nat) \<and> of_char c \<le> (122 :: nat)"

definition is_upper :: "char \<Rightarrow> bool" where
  "is_upper c \<longleftrightarrow> 65 \<le> (of_char c :: nat) \<and> of_char c \<le> (90 :: nat)"

definition hex_upper :: "nat \<Rightarrow> char" where
  "hex_upper n = (if n < 10 then char_of (48 + n) else char_of (55 + n))"

text \<open>\<open>sprintf(esc,"%%%02X",c)\<close>: a character above 127 is negative and prints as eight digits.\<close>

definition escape_char :: "char \<Rightarrow> string" where
  "escape_char c =
     (let n = of_char c :: nat; digits = [hex_upper (n div 16), hex_upper (n mod 16)]
      in CHR ''%'' # (if n < 128 then digits else ''FFFFFF'' @ digits))"

definition escape_code :: "string \<Rightarrow> string" where
  "escape_code str = concat (map (\<lambda>c. if is_digit c \<or> is_lower c \<or> is_upper c then [c] else escape_char c) str)"

definition is_zeroes :: "string \<Rightarrow> bool" where
  "is_zeroes str \<longleftrightarrow> (\<forall>c \<in> set str. c = CHR ''0'')"

definition has_backslash :: "string \<Rightarrow> bool" where
  "has_backslash str \<longleftrightarrow> (\<exists>c \<in> set str. c = BACKSLASH)"

definition touppercase :: "string \<Rightarrow> string" where
  "touppercase str = map (\<lambda>c. if is_lower c then char_of (of_char c - 32 :: nat) else c) str"

definition tolowercase :: "string \<Rightarrow> string" where
  "tolowercase str = map (\<lambda>c. if is_upper c then char_of (of_char c + 32 :: nat) else c) str"

definition is_white :: "char \<Rightarrow> bool" where
  "is_white c \<longleftrightarrow> c \<in> {CHR '' '', CHR 0x0A, CHR 0x0D, CHR 0x09, CHR 0x08}"

text \<open>The stripped string; the return value is its length.\<close>

definition stripwhite :: "string \<Rightarrow> char \<Rightarrow> string" where
  "stripwhite buf accept = filter (\<lambda>c. c = accept \<or> \<not> is_white c) buf"

definition stripstr :: "string \<Rightarrow> nat \<Rightarrow> string option" where
  "stripstr buf len =
     (if length buf < len then None
      else Some (filter (\<lambda>c. c \<notin> {CHR '' '', CHR 0x0A, CHR 0x0D, CHR 0x09, QUOTE}) (take len buf)))"

definition clonestr :: "string \<Rightarrow> string" where
  "clonestr str = (if str = [] then ''<nullstr>'' else str)"

definition safechar64 :: "nat \<Rightarrow> char" where
  "safechar64 x =
     (let x = x mod 64
      in if x < 26 then char_of (x + 97) else if x < 52 then char_of (x + 65 - 26)
         else if x < 62 then char_of (x + 48 - 52) else if x = 62 then CHR ''_'' else CHR ''-'')"

definition is_decimalstr :: "string \<Rightarrow> nat" where
  "is_decimalstr str = (if \<forall>c \<in> set str. is_digit c then length str else 0)"

definition char_byte :: "char \<Rightarrow> u8" where
  "char_byte c = word_of_nat (of_char c)"

definition stringbits :: "string \<Rightarrow> u64" where
  "stringbits str =
     (let n = min (length str) 8
      in fold (\<lambda>i bits. push_bit 8 bits OR ucast (char_byte (str ! i))) (rev [0..<n]) 0)"

section \<open>Hexadecimal\<close>

definition reverse_hexstr :: "string \<Rightarrow> string option" where
  "reverse_hexstr str =
     (let n = length str
      in ofold (\<lambda>i r. do { a \<leftarrow> aget str (int i);
                           r \<leftarrow> aput r (int n - 2 - int i) a;
                           b \<leftarrow> aget (str @ [CHR 0x00]) (int i + 1);
                           aput r (int n - 1 - int i) b })
           (map ((*) 2) [0..<(n + 1) div 2]) (replicate n (CHR 0x00)))"

definition hexbyte :: "u8 \<Rightarrow> char" where
  "hexbyte c =
     (let c = unat (c AND 0xf)
      in if c < 10 then char_of (48 + c) else if c < 16 then char_of (97 + c - 10) else CHR 0x00)"

definition unhex :: "char \<Rightarrow> int" where
  "unhex c =
     (if is_digit c then of_char c - 48
      else if 97 \<le> (of_char c :: int) \<and> of_char c \<le> (102 :: int) then of_char c - 97 + 10 else - 1)"

definition is_hexstr :: "string \<Rightarrow> bool" where
  "is_hexstr str \<longleftrightarrow> str \<noteq> [] \<and> (\<forall>c \<in> set str. 0 \<le> unhex c)"

definition decode_hexpair :: "char \<Rightarrow> char \<Rightarrow> u8" where
  "decode_hexpair a b = push_bit 4 (word_of_int (unhex a)) OR word_of_int (unhex b)"

text \<open>The string that starts at a pointer: the memory up to the first zero.\<close>

definition cstr :: "string \<Rightarrow> string" where
  "cstr mem = takeWhile (\<lambda>c. c \<noteq> CHR 0x00) mem"

definition decode_pairs :: "nat \<Rightarrow> string \<Rightarrow> u8 list option" where
  "decode_pairs n hex =
     (if length hex < 2 * n then None
      else Some (map (\<lambda>i. decode_hexpair (hex ! (i * 2)) (hex ! (i * 2 + 1))) [0..<n]))"

text \<open>The return value and the bytes written; \<open>hex\<close> is the memory from the pointer on.\<close>

definition decode_hex :: "nat \<Rightarrow> string \<Rightarrow> (nat \<times> u8 list) option" where
  "decode_hex n hex =
     (if \<not> is_hexstr (cstr hex) then Some (n, replicate n 0)
      else do {
        odd_len \<leftarrow> (if n = 0 then Some True
                    else do { y \<leftarrow> aget hex (int (n * 2 + 1));
                              if y = CHR 0x00 then do { x \<leftarrow> aget hex (int (n * 2)); Some (x \<noteq> CHR 0x00) }
                              else Some False });
        if odd_len
        then do { bs \<leftarrow> decode_pairs n (tl hex); Some (n + 1, word_of_int (unhex (hd hex)) # bs) }
        else do { bs \<leftarrow> decode_pairs n hex; Some (n, bs) } })"

definition init_hexbytes_noT :: "u8 list \<Rightarrow> nat \<times> string" where
  "init_hexbytes_noT message =
     (if message = [] then (1, [])
      else (length message * 2 + 1,
            concat (map (\<lambda>m. [hexbyte (drop_bit 4 m AND 0xf), hexbyte (m AND 0xf)]) message)))"

text \<open>The bytes of a hexadecimal string of even length; \<open>None\<close> outside is a failed access, inside the null pointer.\<close>

definition conv_datastr :: "string \<Rightarrow> (u8 list option) option" where
  "conv_datastr datastr =
     (let s = cstr datastr
      in if s \<noteq> [] \<and> is_hexstr s \<and> 1 < length s \<and> even (length s)
         then do { (_, bytes) \<leftarrow> decode_hex (length s div 2) datastr; Some (Some bytes) }
         else Some None)"

section \<open>Base 32\<close>

definition base32byte :: "int \<Rightarrow> int" where
  "base32byte val = (if val < 26 then 65 + val else if val < 32 then 50 + val - 26 else - 1)"

definition unbase32 :: "char \<Rightarrow> int" where
  "unbase32 c =
     (if is_upper c then of_char c - 65
      else if 50 \<le> (of_char c :: int) \<and> of_char c \<le> (55 :: int) then of_char c - 50 + 26 else - 1)"

text \<open>
  One character of \<open>init_base32\<close>: five bits of the token are set in the four bytes of the integer
  \<open>val5\<close>, at the offset of the token and not of the character.
\<close>

definition base32_bits :: "u8 list \<Rightarrow> nat \<Rightarrow> u8 list option" where
  "base32_bits token offset =
     ofold (\<lambda>j val5. if length token \<le> (offset + j) div 8 then None
                     else if GETBIT token (offset + j) \<noteq> 0
                     then (if length val5 \<le> (offset + j) div 8 then None else Some (SETBIT val5 (offset + j)))
                     else Some val5) [0..<5] (replicate 4 0)"

definition init_base32 :: "u8 list \<Rightarrow> nat \<Rightarrow> int list option" where
  "init_base32 token len =
     ofold (\<lambda>i tokenstr. do { val5 \<leftarrow> base32_bits token (5 * i);
                              Some (tokenstr @ [base32byte (sint (le_val val5 :: i32))]) }) [0..<len] []"

text \<open>\<open>decode_base32\<close>: the return value and the token buffer.\<close>

definition base32_store :: "nat \<Rightarrow> u8 list \<Rightarrow> u8 list option" where
  "base32_store offset token =
     (let val5 = replicate 4 0
      in ofold (\<lambda>j token. if length token \<le> (offset + j) div 8 then None
                          else Some (if GETBIT val5 j \<noteq> 0 then SETBIT token (offset + j)
                                     else CLEARBIT token (offset + j))) [0..<5] token)"

fun decode_base32_loop :: "string \<Rightarrow> nat \<Rightarrow> u8 list \<Rightarrow> (int \<times> u8 list) option" where
  "decode_base32_loop [] offset token =
     do { token \<leftarrow> ofold (\<lambda>k token. if length token \<le> k div 8 then None else Some (CLEARBIT token k))
                      [offset..<8 * ((offset + 7) div 8)] token;
          Some (int (8 * ((offset + 7) div 8)), token) }"
| "decode_base32_loop (c # tokenstr) offset token =
     (if 0 \<le> unbase32 c
      then do { token \<leftarrow> base32_store offset token; decode_base32_loop tokenstr (offset + 5) token }
      else Some (- 1, token))"

definition decode_base32 :: "u8 list \<Rightarrow> string \<Rightarrow> (int \<times> u8 list) option" where
  "decode_base32 token tokenstr = decode_base32_loop tokenstr 0 token"

section \<open>Small sets of integers\<close>

text \<open>
  The search of \<open>find_uint16\<close>, \<open>find_uint32\<close> and \<open>find_uint64\<close>, which differ only in the type:
  the return value and the empty slot. Zero marks the end of the used slots.
\<close>

fun find_uint :: "'a::len word list \<Rightarrow> 'a word \<Rightarrow> int \<Rightarrow> int \<times> int" where
  "find_uint [] val i = (- 1, - 1)"
| "find_uint (x # nums) val i =
     (if x = 0 then (- 1, i) else if x = val then (i, - 1) else find_uint nums val (i + 1))"

definition add_uint :: "'a::len word list \<Rightarrow> 'a word \<Rightarrow> int \<times> 'a word list" where
  "add_uint nums val =
     (let (i, emptyslot) = find_uint nums val 0
      in if 0 \<le> i then (i, nums)
         else if 0 \<le> emptyslot then (emptyslot, nums[nat emptyslot := val]) else (- 1, nums))"

definition remove_uint :: "'a::len word list \<Rightarrow> 'a word \<Rightarrow> int \<times> 'a word list" where
  "remove_uint nums val =
     (let (i, emptyslot) = find_uint nums val 0
      in if 0 \<le> i then (i, nums[nat i := 0]) else (- 1, nums))"

definition find_uint16 :: "u16 list \<Rightarrow> u16 \<Rightarrow> int \<times> int" where
  "find_uint16 nums val = find_uint nums val 0"
definition add_uint16 :: "u16 list \<Rightarrow> u16 \<Rightarrow> int \<times> u16 list" where
  "add_uint16 = add_uint"
definition remove_uint16 :: "u16 list \<Rightarrow> u16 \<Rightarrow> int \<times> u16 list" where
  "remove_uint16 = remove_uint"

definition find_uint32 :: "u32 list \<Rightarrow> u32 \<Rightarrow> int \<times> int" where
  "find_uint32 nums val = find_uint nums val 0"
definition add_uint32 :: "u32 list \<Rightarrow> u32 \<Rightarrow> int \<times> u32 list" where
  "add_uint32 = add_uint"
definition remove_uint32 :: "u32 list \<Rightarrow> u32 \<Rightarrow> int \<times> u32 list" where
  "remove_uint32 = remove_uint"

definition find_uint64 :: "u64 list \<Rightarrow> u64 \<Rightarrow> int \<times> int" where
  "find_uint64 nums val = find_uint nums val 0"
definition add_uint64 :: "u64 list \<Rightarrow> u64 \<Rightarrow> int \<times> u64 list" where
  "add_uint64 = add_uint"
definition remove_uint64 :: "u64 list \<Rightarrow> u64 \<Rightarrow> int \<times> u64 list" where
  "remove_uint64 = remove_uint"

section \<open>Comparing\<close>

text \<open>The comparison functions that are passed to \<open>qsort\<close>; each reads an integer at the start of an element.\<close>

definition increasing_uint32 :: "u32 \<Rightarrow> u32 \<Rightarrow> int" where
  "increasing_uint32 a b = (if b > a then - 1 else if b < a then 1 else 0)"

definition increasing_uint64 :: "u64 \<Rightarrow> u64 \<Rightarrow> int" where
  "increasing_uint64 a b = (if b > a then - 1 else if b < a then 1 else 0)"

definition decreasing_uint64 :: "u64 \<Rightarrow> u64 \<Rightarrow> int" where
  "decreasing_uint64 a b = (if b > a then 1 else if b < a then - 1 else 0)"

definition decreasing_unsignedint64 :: "u64 \<Rightarrow> u64 \<Rightarrow> int" where
  "decreasing_unsignedint64 a b = (if b > a then 1 else if b < a then - 1 else 0)"

definition decreasing_signedint64 :: "i64 \<Rightarrow> i64 \<Rightarrow> int" where
  "decreasing_signedint64 a b = (if s_lt a b then 1 else if s_lt b a then - 1 else 0)"

section \<open>Integers byte by byte\<close>

text \<open>The buffer and the new offset.\<close>

fun emit_bytes :: "nat \<Rightarrow> u64 \<Rightarrow> int \<Rightarrow> u8 list \<Rightarrow> u8 list option" where
  "emit_bytes 0 x pos data = Some data"
| "emit_bytes (Suc n) x pos data =
     do { data \<leftarrow> aput data pos (ucast (x AND 0xff)); emit_bytes n (drop_bit 8 x) (pos + 1) data }"

definition emit_uint :: "u8 list \<Rightarrow> int \<Rightarrow> u64 \<Rightarrow> nat \<Rightarrow> (int \<times> u8 list) option" where
  "emit_uint data offset x n = do { data \<leftarrow> emit_bytes n x offset data; Some (offset + int n, data) }"

text \<open>The new offset and the value, reduced to the width of the destination.\<close>

definition decode_uint :: "nat \<Rightarrow> u8 list \<Rightarrow> int \<Rightarrow> (int \<times> u64) option" where
  "decode_uint n data offset =
     (if n = 1 then do { b \<leftarrow> aget data offset; Some (offset + 1, ucast b) }
      else do { x \<leftarrow> ofold (\<lambda>i x. do { b \<leftarrow> aget data (offset + int n - int i); Some (push_bit 8 x OR ucast b) })
                       [0..<n] 0;
                Some (if n = 2 then (offset + 2, take_bit 16 x) else if n = 4 then (offset + 4, take_bit 32 x)
                      else if n = 8 then (offset + 8, x) else (- 1, 0)) })"

section \<open>Dates\<close>

definition is_DST :: "int \<Rightarrow> bool" where
  "is_DST datenum =
     (let month = (datenum sdiv 100) smod 100; day = datenum smod 100
      in if 4 \<le> month \<and> month \<le> 9 then True else if month = 3 \<and> day \<ge> 29 then True
         else if month = 10 \<and> day < 25 then True else False)"

definition extract_datenum :: "int \<Rightarrow> int \<times> int \<times> int \<times> int" where
  "extract_datenum datenum =
     (let year = datenum sdiv 10000; month = (datenum sdiv 100) smod 100; day = datenum smod 100
      in (year, month, day,
          if 2000 \<le> year \<and> year \<le> 2038 \<and> 1 \<le> month \<and> month \<le> 12 \<and> 1 \<le> day \<and> day \<le> 31 then datenum else - 1))"

definition calc_datenum :: "int \<Rightarrow> int \<Rightarrow> int \<Rightarrow> int" where
  "calc_datenum year month day = year * 10000 + month * 100 + day"

definition lastday :: "int list" where
  "lastday = [0, 31, 28, 31, 30, 31, 30, 31, 31, 30, 31, 30, 31]"

text \<open>The day before: year, month, day and the date number; \<open>Inl\<close> is the return value \<open>- 1\<close>.\<close>

definition ecb_decrdate :: "int \<Rightarrow> (int + int \<times> int \<times> int \<times> int) option" where
  "ecb_decrdate datenum =
     (let year = datenum sdiv 10000; month = (datenum sdiv 100) smod 100; day = datenum smod 100 - 1
      in if day \<le> 0
         then let month = month - 1; (year, month) = (if month \<le> 0 then (year - 1, 12) else (year, month))
              in if month = 12 \<and> (datenum sdiv 100) smod 100 - 1 \<le> 0 \<and> year < 2000 then Some (Inl (- 1))
                 else do { d \<leftarrow> aget lastday month;
                           let day = (if month = 2 \<and> year smod 4 = 0 then d + 1 else d);
                           Some (Inr (year, month, day, calc_datenum year month day)) }
         else Some (Inr (year, month, day, calc_datenum year month day)))"

section \<open>Hexadecimal round trip\<close>

lemma unhex_hexbyte:
  assumes "c < (16 :: u8)"
  shows "unhex (hexbyte c) = uint c" and "hexbyte c \<noteq> CHR 0x00"
proof -
  define n where "n = unat c"
  have n: "n < 16" using assms by (simp add: n_def word_less_nat_alt)
  have "c AND 0xf = take_bit 4 c" by (simp add: take_bit_eq_mask mask_eq_exp_minus_1)
  then have "unat (c AND 0xf) = take_bit 4 (unat c)" by (simp only: unsigned_take_bit_eq)
  then have "unat (c AND 0xf) = n" using n by (simp add: n_def take_bit_eq_mod)
  then have h: "hexbyte c = (if n < 10 then char_of (48 + n) else char_of (97 + n - 10))"
    using n by (simp add: hexbyte_def Let_def n_def)
  have o: "(of_char (hexbyte c) :: nat) = (if n < 10 then 48 + n else 87 + n)"
    using n by (simp add: h)
  have i: "(of_char (hexbyte c) :: int) = (if n < 10 then 48 + int n else 87 + int n)"
    using o of_nat_of_char [of "hexbyte c", where ?'a = int] by auto
  have "uint c = int n" by (simp add: n_def)
  then show "unhex (hexbyte c) = uint c" using n unfolding unhex_def is_digit_def o i by auto
  show "hexbyte c \<noteq> CHR 0x00"
  proof
    assume "hexbyte c = CHR 0x00"
    then have "(of_char (hexbyte c) :: nat) = 0" by simp
    then show False using o by (simp split: if_splits)
  qed
qed

lemma nibble_less: "x AND 0xf < (16 :: u8)"
proof -
  have "x AND 0xf \<le> 0xf" by (simp add: word_and_le1)
  also have "\<dots> < 16" by simp
  finally show ?thesis .
qed

lemma nibbles: "push_bit 4 (drop_bit 4 m AND 0xf) OR (m AND 0xf) = (m :: u8)"
proof (rule bit_word_eqI)
  fix k assume "k < LENGTH(8)"
  then have k: "k < 8" by simp
  have f: "bit (0xf :: u8) i \<longleftrightarrow> i < 4" for i
  proof -
    have "(0xf :: u8) = mask 4" by (simp add: mask_eq_exp_minus_1)
    then show ?thesis by (simp only: bit_mask_iff) (auto simp: possible_bit_def)
  qed
  show "bit (push_bit 4 (drop_bit 4 m AND 0xf) OR (m AND 0xf)) k = bit m k"
    unfolding bit_or_iff bit_and_iff bit_push_bit_iff bit_drop_bit_eq f comp_def using k by (auto simp: possible_bit_def)
qed

lemma hexpair_roundtrip:
  "decode_hexpair (hexbyte (drop_bit 4 m AND 0xf)) (hexbyte (m AND 0xf)) = m"
  "0 \<le> unhex (hexbyte (x AND 0xf))" "hexbyte (x AND 0xf) \<noteq> CHR 0x00"
  by (simp_all only: decode_hexpair_def unhex_hexbyte [OF nibble_less] word_of_int_uint nibbles) simp_all

definition hexdigits :: "u8 list \<Rightarrow> string" where
  "hexdigits msg = concat (map (\<lambda>m. [hexbyte (drop_bit 4 m AND 0xf), hexbyte (m AND 0xf)]) msg)"

lemma length_hexdigits [simp]: "length (hexdigits msg) = 2 * length msg"
  by (induction msg) (auto simp: hexdigits_def)

lemma hexdigits_nth:
  "i < length msg \<Longrightarrow> hexdigits msg ! (i * 2) = hexbyte (drop_bit 4 (msg ! i) AND 0xf)
     \<and> hexdigits msg ! (i * 2 + 1) = hexbyte (msg ! i AND 0xf)"
proof (induction msg arbitrary: i)
  case (Cons m msg)
  then show ?case by (cases i) (auto simp: hexdigits_def)
qed simp

lemma hexdigits_set: "\<forall>c \<in> set (hexdigits msg). 0 \<le> unhex c \<and> c \<noteq> CHR 0x00"
  by (auto simp: hexdigits_def hexpair_roundtrip)

lemma decode_pairs_hexdigits: "decode_pairs (length msg) (hexdigits msg @ rest) = Some msg"
proof -
  have "map (\<lambda>i. decode_hexpair ((hexdigits msg @ rest) ! (i * 2)) ((hexdigits msg @ rest) ! (i * 2 + 1))) [0..<length msg] = msg"
  proof (rule nth_equalityI)
    fix i assume "i < length (map (\<lambda>i. decode_hexpair ((hexdigits msg @ rest) ! (i * 2)) ((hexdigits msg @ rest) ! (i * 2 + 1))) [0..<length msg])"
    then have i: "i < length msg" by simp
    then have "i * 2 < length (hexdigits msg)" "i * 2 + 1 < length (hexdigits msg)" by simp_all
    then show "map (\<lambda>i. decode_hexpair ((hexdigits msg @ rest) ! (i * 2)) ((hexdigits msg @ rest) ! (i * 2 + 1))) [0..<length msg] ! i = msg ! i"
      using i hexdigits_nth [OF i] by (simp add: nth_append hexpair_roundtrip)
  qed simp
  then show ?thesis by (simp add: decode_pairs_def)
qed

lemma cstr_hexdigits: "cstr (hexdigits msg @ CHR 0x00 # rest) = hexdigits msg"
  unfolding cstr_def using hexdigits_set by (subst takeWhile_append2) auto

lemma hex_back:
  assumes "msg \<noteq> []"
  shows "decode_hex (length msg) (snd (init_hexbytes_noT msg) @ CHR 0x00 # j # rest) = Some (length msg, msg)"
proof -
  let ?s = "hexdigits msg @ CHR 0x00 # j # rest"
  have s: "snd (init_hexbytes_noT msg) = hexdigits msg"
    using assms by (simp add: init_hexbytes_noT_def hexdigits_def)
  have "hexdigits msg \<noteq> []" using assms by (cases msg) (simp_all add: hexdigits_def)
  then have h: "is_hexstr (cstr ?s)" using hexdigits_set by (simp add: cstr_hexdigits is_hexstr_def)
  have a: "aget ?s (int (length msg * 2 + 1)) = Some j" "aget ?s (int (length msg * 2)) = Some (CHR 0x00)"
    by (subst aget_nat; simp add: nth_append mult.commute)+
  have "length msg \<noteq> 0" using assms by simp
  with h a show ?thesis
    unfolding s decode_hex_def using decode_pairs_hexdigits [of msg "CHR 0x00 # j # rest"] by auto
qed

text \<open>
  C39. Hexadecimal round trip: a message of at least one byte, printed by \<open>init_hexbytes_noT\<close>, is
  read back by \<open>decode_hex\<close> byte for byte, whatever lies behind the terminator. (The test for an
  odd number of digits reads one byte behind the terminator, which has to be readable.)
\<close>

theorem hex_roundtrip:
  assumes "msg \<noteq> []"
  shows "decode_hex (length msg) (snd (init_hexbytes_noT msg) @ CHR 0x00 # j # rest) = Some (length msg, msg)"
  by (rule hex_back [OF assms])

theorem hex_roundtrip_witness:
  "decode_hex 2 (snd (init_hexbytes_noT [0xAB, 0x07]) @ [CHR 0x00, CHR ''x'']) = Some (2, [0xAB, 0x07])"
  using hex_roundtrip [of "[0xAB, 0x07]" "CHR ''x''" "[]"] by (simp add: numeral_2_eq_2)

text \<open>
  \<open>decode_hex\<close> given exactly the string and its terminator, as \<open>init_hexbytes_noT\<close> wrote them,
  reads one byte outside the buffer.
\<close>

theorem decode_hex_reads_past_terminator:
  assumes "msg \<noteq> []"
  shows "decode_hex (length msg) (snd (init_hexbytes_noT msg) @ [CHR 0x00]) = None"
proof -
  have s: "snd (init_hexbytes_noT msg) = hexdigits msg"
    using assms by (simp add: init_hexbytes_noT_def hexdigits_def)
  have "hexdigits msg \<noteq> []" using assms by (cases msg) (simp_all add: hexdigits_def)
  then have "is_hexstr (cstr (hexdigits msg @ [CHR 0x00]))" using hexdigits_set by (simp add: cstr_hexdigits is_hexstr_def)
  moreover have "aget (hexdigits msg @ [CHR 0x00]) (int (length msg * 2 + 1)) = None" by (simp add: aget_None_iff)
  ultimately show ?thesis using assms by (simp add: s decode_hex_def)
qed

theorem decode_hex_reads_past_terminator_witness:
  "decode_hex 1 (snd (init_hexbytes_noT [0xAB]) @ [CHR 0x00]) = None"
  using decode_hex_reads_past_terminator [of "[0xAB]"] by simp

section \<open>Quoting\<close>

lemma unescape_plain: "c \<noteq> BACKSLASH \<Longrightarrow> unescape (c # s) = c # unescape s"
  by (cases s) auto

lemma unescape_escaped:
  "BACKSLASH \<notin> set s \<Longrightarrow> unescape (concat (map (\<lambda>c. if c = QUOTE then [BACKSLASH, QUOTE] else [c]) s)) = s"
proof (induction s)
  case (Cons c s)
  have "QUOTE \<notin> {CHR ''t'', CHR ''n'', CHR ''b'', CHR ''r''}" by (simp add: QUOTE_def)
  with Cons show ?case by (auto simp: unescape_plain)
qed simp

text \<open>
  Quoting round trip: a string without backslashes is restored by \<open>unstringify\<close> from its quoted
  form, quotes inside the string included.
\<close>

theorem stringify_roundtrip:
  assumes "\<not> has_backslash str"
  shows "unstringify (stringifyM str) = str"
proof (cases "str = []")
  case False
  let ?e = "concat (map (\<lambda>c. if c = QUOTE then [BACKSLASH, QUOTE] else [c]) str)"
  have "stringifyM str = QUOTE # ?e @ [QUOTE]" using False by (simp add: stringifyM_def)
  then have "unstringify (stringifyM str) = unescape ?e" by (simp add: unstringify_def)
  also have "\<dots> = str" using assms by (intro unescape_escaped) (auto simp: has_backslash_def)
  finally show ?thesis .
qed (simp add: unstringify_def stringifyM_def)

theorem stringify_roundtrip_witness: "unstringify (stringifyM [CHR ''a'', QUOTE, CHR ''b'']) = [CHR ''a'', QUOTE, CHR ''b'']"
  using stringify_roundtrip [of "[CHR ''a'', QUOTE, CHR ''b'']"] by (simp add: has_backslash_def BACKSLASH_def QUOTE_def)

section \<open>Small sets of integers\<close>

text \<open>The used slots of an array come first, without repetitions; the set of an array is what they hold.\<close>

definition compact :: "'a::len word list \<Rightarrow> bool" where
  "compact nums \<longleftrightarrow> distinct (takeWhile (\<lambda>x. x \<noteq> 0) nums) \<and> set (dropWhile (\<lambda>x. x \<noteq> 0) nums) \<subseteq> {0}"

definition members :: "'a::len word list \<Rightarrow> 'a word set" where
  "members nums = set (takeWhile (\<lambda>x. x \<noteq> 0) nums)"

lemma find_uint_spec:
  "find_uint nums val i =
     (let used = takeWhile (\<lambda>x. x \<noteq> 0) nums; k = length (takeWhile (\<lambda>x. x \<noteq> val) used)
      in if k < length used then (i + int k, - 1)
         else if length used < length nums then (- 1, i + int (length used)) else (- 1, - 1))"
  by (induction nums arbitrary: i) (auto simp: Let_def)

lemma takeWhile_found: "length (takeWhile (\<lambda>x. x \<noteq> v) xs) < length xs \<longleftrightarrow> v \<in> set xs"
  by (induction xs) auto

lemma add_uint_new:
  assumes "val \<noteq> 0" and "val \<notin> members nums" and "n = length (takeWhile (\<lambda>x. x \<noteq> 0) nums)" and "n < length nums"
  shows "add_uint nums val = (int n, nums[n := val])"
  using assms by (auto simp: add_uint_def find_uint_spec Let_def takeWhile_found members_def)

lemma compact_split:
  assumes "compact nums" and "n = length (takeWhile (\<lambda>x. x \<noteq> 0) nums)"
  shows "nums = takeWhile (\<lambda>x. x \<noteq> 0) nums @ replicate (length nums - n) 0"
proof -
  have "length (dropWhile (\<lambda>x. x \<noteq> 0) nums) = length nums - n"
    using length_append [of "takeWhile (\<lambda>x. x \<noteq> 0) nums" "dropWhile (\<lambda>x. x \<noteq> 0) nums"] assms(2)
    unfolding takeWhile_dropWhile_id by linarith
  moreover have "dropWhile (\<lambda>x. x \<noteq> 0) nums = replicate (length (dropWhile (\<lambda>x. x \<noteq> 0) nums)) 0"
    using assms(1) by (intro replicate_length_same [symmetric]) (auto simp only: compact_def)
  ultimately show ?thesis by (metis takeWhile_dropWhile_id)
qed


text \<open>
  The contract of such an array as a set: a search finds exactly the members, an addition inserts
  its value or, when the array is full, reports it and changes nothing.
\<close>

locale slot_set =
  fixes ok :: "'s \<Rightarrow> bool" and elems :: "'s \<Rightarrow> 'e set" and capacity :: "'s \<Rightarrow> nat"
    and valid :: "'e \<Rightarrow> bool" and find :: "'s \<Rightarrow> 'e \<Rightarrow> int" and add :: "'s \<Rightarrow> 'e \<Rightarrow> int \<times> 's"
  assumes finite_elems: "ok s \<Longrightarrow> finite (elems s)"
    and find_iff: "ok s \<Longrightarrow> valid v \<Longrightarrow> 0 \<le> find s v \<longleftrightarrow> v \<in> elems s"
    and add_ok: "ok s \<Longrightarrow> valid v \<Longrightarrow> card (insert v (elems s)) \<le> capacity s \<Longrightarrow>
      0 \<le> fst (add s v) \<and> ok (snd (add s v)) \<and> elems (snd (add s v)) = insert v (elems s)"
    and add_capacity: "ok s \<Longrightarrow> valid v \<Longrightarrow> capacity (snd (add s v)) = capacity s"
begin

lemma add_all:
  assumes "ok s" and "\<forall>v \<in> set vs. valid v" and "card (elems s \<union> set vs) \<le> capacity s"
  shows "ok (fold (\<lambda>v s. snd (add s v)) vs s) \<and> elems (fold (\<lambda>v s. snd (add s v)) vs s) = elems s \<union> set vs"
  using assms
proof (induction vs arbitrary: s)
  case Nil
  then show ?case by simp
next
  case (Cons v vs)
  have "card (insert v (elems s)) \<le> card (elems s \<union> set (v # vs))"
    using Cons.prems(1) by (intro card_mono) (auto simp: finite_elems)
  then have a: "ok (snd (add s v))" "elems (snd (add s v)) = insert v (elems s)"
    using add_ok [of s v] Cons.prems by auto
  have "insert v (elems s) \<union> set vs = elems s \<union> set (v # vs)" by auto
  then show ?case using Cons.IH [OF a(1)] a Cons.prems by (simp add: add_capacity)
qed

lemma find_added:
  assumes "ok s" and "\<forall>v \<in> set vs. valid v" and "card (elems s \<union> set vs) \<le> capacity s" and "valid w"
  shows "0 \<le> find (fold (\<lambda>v s. snd (add s v)) vs s) w \<longleftrightarrow> w \<in> elems s \<or> w \<in> set vs"
  using add_all [OF assms(1-3)] find_iff [OF _ assms(4)] by simp

end

lemma find_uint_members: "val \<noteq> 0 \<Longrightarrow> 0 \<le> fst (find_uint nums val 0) \<longleftrightarrow> val \<in> members nums"
  by (auto simp: find_uint_spec Let_def takeWhile_found members_def)

lemma add_uint_old: "val \<in> members nums \<Longrightarrow> 0 \<le> fst (add_uint nums val) \<and> snd (add_uint nums val) = nums"
  by (auto simp: add_uint_def find_uint_spec Let_def takeWhile_found members_def)

lemma compact_snoc:
  assumes "compact nums" and "val \<noteq> 0" and "val \<notin> members nums"
    and "n = length (takeWhile (\<lambda>x. x \<noteq> 0) nums)" and "n < length nums"
  shows "compact (nums[n := val])" and "members (nums[n := val]) = insert val (members nums)"
proof -
  let ?u = "takeWhile (\<lambda>x. x \<noteq> 0) nums"
  have nz: "\<forall>x \<in> set ?u. x \<noteq> 0" by (metis set_takeWhileD)
  obtain m where m: "length nums - n = Suc m" using assms(5) by (metis Suc_diff_Suc)
  have "nums[n := val] = (?u @ replicate (Suc m) 0)[n := val]"
    using compact_split [OF assms(1,4)] m by simp
  also have "\<dots> = ?u @ val # replicate m 0" using assms(4) by (simp add: list_update_append)
  finally have e: "nums[n := val] = (?u @ [val]) @ replicate m 0" by simp
  have t: "takeWhile (\<lambda>x. x \<noteq> 0) (nums[n := val]) = ?u @ [val]"
    unfolding e using nz assms(2) by (subst takeWhile_append2) (auto simp: takeWhile_eq_Nil_iff)
  have d: "dropWhile (\<lambda>x. x \<noteq> 0) (nums[n := val]) = replicate m 0"
    unfolding e using nz assms(2) by (subst dropWhile_append2) (auto simp: dropWhile_eq_self_iff)
  show "compact (nums[n := val])" using assms(1,3) t d by (auto simp: compact_def members_def)
  show "members (nums[n := val]) = insert val (members nums)" by (simp add: members_def t)
qed

lemma compact_card: "compact nums \<Longrightarrow> card (members nums) = length (takeWhile (\<lambda>x. x \<noteq> 0) nums)"
  by (simp add: members_def compact_def distinct_card)

lemma add_uint_ok:
  assumes "compact nums" and "val \<noteq> 0" and "card (insert val (members nums)) \<le> length nums"
  shows "0 \<le> fst (add_uint nums val) \<and> compact (snd (add_uint nums val)) \<and> members (snd (add_uint nums val)) = insert val (members nums)"
proof (cases "val \<in> members nums")
  case True
  with add_uint_old [OF True] assms show ?thesis by (simp add: insert_absorb)
next
  case False
  define n where "n = length (takeWhile (\<lambda>x. x \<noteq> 0) nums)"
  have "finite (members nums)" by (simp add: members_def)
  then have "n < length nums" using assms False by (simp add: compact_card n_def)
  with compact_snoc [OF assms(1,2) False n_def] add_uint_new [OF assms(2) False n_def] show ?thesis by simp
qed

lemma add_uint_length: "length (snd (add_uint nums val)) = length nums"
  by (simp add: add_uint_def split: prod.split)

lemma finite_members: "finite (members nums)"
  by (simp add: members_def)

lemmas slot_set_laws = find_uint_members add_uint_ok add_uint_length finite_members

interpretation u16_set: slot_set compact members length "\<lambda>v. v \<noteq> 0" "\<lambda>s v. fst (find_uint16 s v)" add_uint16
  by unfold_locales (simp_all add: find_uint16_def add_uint16_def slot_set_laws)

interpretation u32_set: slot_set compact members length "\<lambda>v. v \<noteq> 0" "\<lambda>s v. fst (find_uint32 s v)" add_uint32
  by unfold_locales (simp_all add: find_uint32_def add_uint32_def slot_set_laws)

interpretation u64_set: slot_set compact members length "\<lambda>v. v \<noteq> 0" "\<lambda>s v. fst (find_uint64 s v)" add_uint64
  by unfold_locales (simp_all add: find_uint64_def add_uint64_def slot_set_laws)

text \<open>
  An array with the used slots in front behaves as a set under additions: after any sequence
  of additions of nonzero values whose distinct members fit, \<open>find_uint64\<close> finds exactly the old
  members and the added values.
\<close>

theorem uint64_set_additions:
  assumes "compact nums" and "\<forall>v \<in> set vs. v \<noteq> 0" and "card (members nums \<union> set vs) \<le> length nums" and "w \<noteq> 0"
  shows "0 \<le> fst (find_uint64 (fold (\<lambda>v s. snd (add_uint64 s v)) vs nums) w) \<longleftrightarrow> w \<in> members nums \<or> w \<in> set vs"
  using assms by (rule u64_set.find_added)

theorem uint64_set_additions_witness:
  "0 \<le> fst (find_uint64 (fold (\<lambda>v s. snd (add_uint64 s v)) [7, 9, 7] [5, 0, 0]) 9)"
  using uint64_set_additions [of "[5, 0, 0]" "[7, 9, 7]" 9] by (simp add: compact_def members_def insert_commute)

text \<open>
  A removal hides members: it zeroes the slot of its value, and every member in a later slot
  is lost to searches, since a search stops at the first zero.
\<close>

theorem remove_uint32_hides_later_members:
  assumes "compact (xs @ a # b # ys)" and "a \<noteq> 0" and "b \<noteq> 0" and "\<forall>x \<in> set xs. x \<noteq> 0"
  shows "0 \<le> fst (find_uint32 (xs @ a # b # ys) b) \<and> fst (find_uint32 (snd (remove_uint32 (xs @ a # b # ys) a)) b) = - 1"
proof -
  have t: "takeWhile (\<lambda>x. x \<noteq> 0) (xs @ a # b # ys) = xs @ a # b # takeWhile (\<lambda>x. x \<noteq> 0) ys"
    using assms(2-4) by (subst takeWhile_append2) auto
  then have d: "a \<notin> set xs" "b \<notin> set xs" using assms(1) by (auto simp: compact_def)
  then have "takeWhile (\<lambda>x. x \<noteq> a) (xs @ a # zs) = xs" for zs by (subst takeWhile_append2) auto
  then have r: "snd (remove_uint32 (xs @ a # b # ys) a) = xs @ 0 # b # ys"
    by (simp add: remove_uint32_def remove_uint_def find_uint_spec t Let_def)
  have "takeWhile (\<lambda>x. x \<noteq> 0) (xs @ 0 # b # ys) = xs" using assms(4) by (subst takeWhile_append2) auto
  then have "fst (find_uint32 (xs @ 0 # b # ys) b) = - 1"
    using d by (simp add: find_uint32_def find_uint_spec Let_def takeWhile_found)
  moreover have "0 \<le> fst (find_uint32 (xs @ a # b # ys) b)"
    using assms(3) by (simp add: find_uint32_def find_uint_members members_def t)
  ultimately show ?thesis by (simp add: r)
qed

theorem remove_uint32_hides_later_members_witness:
  "fst (find_uint32 (snd (remove_uint32 [5, 7, 0] 5)) 7) = - 1"
  using remove_uint32_hides_later_members [of "[]" 5 7 "[0]"] by (simp add: compact_def)

section \<open>Comparison functions\<close>

text \<open>
  What a comparison function promises to \<open>qsort\<close>: its sign is the order of a key. So it orders the elements
  linearly, and swapping the arguments swaps the sign.
\<close>

locale comparator =
  fixes cmp :: "'a \<Rightarrow> 'a \<Rightarrow> int" and key :: "'a \<Rightarrow> 'k::linorder"
  assumes cmp_key: "cmp x y \<le> 0 \<longleftrightarrow> key x \<le> key y"
    and cmp_swap: "cmp y x = - cmp x y"
begin

lemma cmp_trans: "cmp x y \<le> 0 \<Longrightarrow> cmp y z \<le> 0 \<Longrightarrow> cmp x z \<le> 0"
  using order_trans by (simp add: cmp_key)

lemma cmp_equal: "cmp x y = 0 \<longleftrightarrow> key x = key y"
  using cmp_key [of x y] cmp_key [of y x] cmp_swap [of y x] by auto

end

interpretation inc32: comparator increasing_uint32 "\<lambda>x. uint x"
  by unfold_locales (auto simp: increasing_uint32_def word_less_def word_le_def not_less)

interpretation inc64: comparator increasing_uint64 "\<lambda>x. uint x"
  by unfold_locales (auto simp: increasing_uint64_def word_less_def word_le_def not_less)

interpretation dec64: comparator decreasing_uint64 "\<lambda>x. - uint x"
  by unfold_locales (auto simp: decreasing_uint64_def word_less_def word_le_def not_less)

interpretation udec64: comparator decreasing_unsignedint64 "\<lambda>x. - uint x"
  by unfold_locales (auto simp: decreasing_unsignedint64_def word_less_def word_le_def not_less)

interpretation sdec64: comparator decreasing_signedint64 "\<lambda>x. - sint x"
  by unfold_locales (auto simp: decreasing_signedint64_def s_lt_def not_less)

section \<open>Bytes of an integer\<close>

lemma le_bytes_Suc: "le_bytes (Suc n) x = ucast (x AND 0xff) # le_bytes n (drop_bit 8 (x :: u64))"
proof -
  have "bit (0xff :: u64) k \<longleftrightarrow> k < 8" for k
  proof -
    have "(0xff :: u64) = mask 8" by (simp add: mask_eq_exp_minus_1)
    then show ?thesis by (simp only: bit_mask_iff) (auto simp: possible_bit_def)
  qed
  then have a: "(ucast (x AND 0xff) :: u8) = ucast x"
    by (intro bit_word_eqI) (auto simp: bit_ucast_iff bit_and_iff)
  show ?thesis
    unfolding le_bytes_def a by (simp add: upt_conv_Cons map_Suc_upt [symmetric] add.commute del: upt_Suc)
qed

lemma emit_bytes_spec:
  "length old = n \<Longrightarrow> emit_bytes n x (int (length pre)) (pre @ old @ post) = Some (pre @ le_bytes n x @ post)"
proof (induction n arbitrary: x pre old)
  case 0
  then show ?case by (simp add: le_bytes_def)
next
  case (Suc n)
  then obtain o1 old' where o: "old = o1 # old'" "length old' = n" by (cases old) auto
  let ?b = "ucast (x AND 0xff) :: u8"
  have "aput (pre @ old @ post) (int (length pre)) ?b = Some ((pre @ [?b]) @ old' @ post)"
    by (simp add: o(1) aput_nat)
  moreover have "int (length pre) + 1 = int (length (pre @ [?b]))" by simp
  ultimately show ?case using Suc.IH [OF o(2), of "drop_bit 8 x" "pre @ [?b]"]
    by (simp add: le_bytes_Suc add.commute)
qed

lemma le_val_snoc_fold: "fold (\<lambda>b x. push_bit 8 x OR ucast b) (rev bs) 0 = (le_val bs :: u64)"
  by (induction bs) (auto simp: or.commute)

lemma ofold_read:
  assumes "\<forall>i \<in> set is. aget data (f i) = Some (g i)"
  shows "ofold (\<lambda>i x. do { b \<leftarrow> aget data (f i); Some (h b x) }) is x = Some (fold (\<lambda>i. h (g i)) is x)"
  using assms by (induction "is" arbitrary: x) auto

lemma decode_loop:
  assumes "length bs = n"
  shows "ofold (\<lambda>i x. do { b \<leftarrow> aget (pre @ a # bs @ post) (int (length pre) + int n - int i); Some (push_bit 8 x OR ucast b) }) [0..<n] 0
         = Some (le_val bs :: u64)"
proof -
  have "\<forall>i \<in> set [0..<n]. aget (pre @ a # bs @ post) (int (length pre) + int n - int i) = Some (rev bs ! i)"
  proof
    fix i assume "i \<in> set [0..<n]"
    then have i: "i < n" by simp
    then have "int (length pre) + int n - int i = int (length pre + (n - i))" by simp
    moreover have "n - i = Suc (n - Suc i)" using i by simp
    then have n: "(pre @ a # bs @ post) ! (length pre + (n - i)) = bs ! (n - Suc i)"
      using i assms by (simp only: nth_append_length_plus) (simp add: nth_append)
    moreover have "length pre + (n - i) < length (pre @ a # bs @ post)" using i assms by simp
    ultimately show "aget (pre @ a # bs @ post) (int (length pre) + int n - int i) = Some (rev bs ! i)"
      using i assms by (simp only: aget_nat n rev_nth)
  qed
  then have "ofold (\<lambda>i x. do { b \<leftarrow> aget (pre @ a # bs @ post) (int (length pre) + int n - int i); Some (push_bit 8 x OR ucast b) }) [0..<n] (0 :: u64)
     = Some (fold (\<lambda>i x. push_bit 8 x OR ucast (rev bs ! i)) [0..<n] 0)"
    by (rule ofold_read)
  also have "fold (\<lambda>i x. push_bit 8 x OR ucast (rev bs ! i)) [0..<n] (0 :: u64) = fold (\<lambda>b x. push_bit 8 x OR ucast b) (map ((!) (rev bs)) [0..<n]) 0"
    by (simp add: fold_map comp_def)
  also have "map ((!) (rev bs)) [0..<n] = rev bs" using assms map_nth [of "rev bs"] by simp
  finally show ?thesis by (simp only: le_val_snoc_fold)
qed

text \<open>
  \<open>emit_uint\<close> stores eight bytes and \<open>_decode_uint\<close> does not read them back: it reads one byte
  further on, so the result is the number shifted down by one byte, with the byte behind it on top.
\<close>

theorem decode_uint_off_by_one:
  assumes "length old = 8"
  shows "\<exists>data. emit_uint (pre @ old @ c # post) (int (length pre)) x 8 = Some (int (length pre) + 8, data)
    \<and> decode_uint 8 data (int (length pre)) = Some (int (length pre) + 8, drop_bit 8 x OR push_bit 56 (ucast c))"
proof -
  let ?bs = "le_bytes 7 (drop_bit 8 x) @ [c]"
  let ?a = "ucast (x AND 0xff) :: u8"
  have "le_bytes (Suc 7) x = ?a # le_bytes 7 (drop_bit 8 x)" by (rule le_bytes_Suc)
  then have d: "le_bytes 8 x @ c # post = ?a # ?bs @ post" by simp
  have v: "(le_val ?bs :: u64) = drop_bit 8 x OR push_bit 56 (ucast c)"
  proof (rule bit_word_eqI)
    fix k assume "k < LENGTH(64)"
    then have k: "k < 64" by simp
    have top: "bit x m \<Longrightarrow> m < 64" for m using bit_imp_le_length [of x m] by simp
    show "bit (le_val ?bs :: u64) k = bit (drop_bit 8 x OR push_bit 56 (ucast c) :: u64) k"
    proof (cases "k < 56")
      case True
      then have "k div 8 < 7" by auto
      then show ?thesis using True k
        by (simp add: bit_le_val nth_append bit_le_bytes_nth bit_or_iff bit_push_bit_iff bit_drop_bit_eq)
    next
      case False
      then have "k div 8 = 7" "k mod 8 = k - 56" using k by presburger+
      moreover have "\<not> bit x (8 + k)" using top [of "8 + k"] False by auto
      ultimately show ?thesis using False k
        by (auto simp: bit_le_val nth_append bit_or_iff bit_push_bit_iff bit_drop_bit_eq bit_ucast_iff)
    qed
  qed
  have "emit_uint (pre @ old @ c # post) (int (length pre)) x 8 = Some (int (length pre) + 8, pre @ ?a # ?bs @ post)"
    using emit_bytes_spec [OF assms, of x pre "c # post"] by (simp add: emit_uint_def d)
  moreover have "decode_uint 8 (pre @ ?a # ?bs @ post) (int (length pre)) = Some (int (length pre) + 8, le_val ?bs)"
    using decode_loop [of ?bs 8 pre ?a post] by (simp add: decode_uint_def del: upt.simps upt_Suc)
  ultimately show ?thesis unfolding v by blast
qed

theorem decode_uint_off_by_one_witness:
  "\<exists>data. emit_uint [0, 0, 0, 0, 0, 0, 0, 0, 0] 0 0x1234 8 = Some (8, data) \<and> decode_uint 8 data 0 = Some (8, 0x12)"
  using decode_uint_off_by_one [of "[0, 0, 0, 0, 0, 0, 0, 0]" "[]" 0 "[]" "0x1234"]
  by simp

section \<open>The calendar\<close>

definition leap :: "int \<Rightarrow> bool" where
  "leap y \<longleftrightarrow> y mod 4 = 0 \<and> (y mod 100 \<noteq> 0 \<or> y mod 400 = 0)"

definition month_days :: "int \<Rightarrow> int \<Rightarrow> int" where
  "month_days y m = (if m = 2 then (if leap y then 29 else 28) else if m \<in> {4, 6, 9, 11} then 30 else 31)"

definition valid_date :: "int \<times> int \<times> int \<Rightarrow> bool" where
  "valid_date = (\<lambda>(y, m, d). 1 \<le> m \<and> m \<le> 12 \<and> 1 \<le> d \<and> d \<le> month_days y m)"

text \<open>The next day of the Gregorian calendar.\<close>

definition next_day :: "int \<times> int \<times> int \<Rightarrow> int \<times> int \<times> int" where
  "next_day = (\<lambda>(y, m, d). if d < month_days y m then (y, m, d + 1) else if m < 12 then (y, m + 1, 1) else (y + 1, 1, 1))"

lemma sdiv_pos: "0 \<le> (a :: int) \<Longrightarrow> 0 < b \<Longrightarrow> a sdiv b = a div b \<and> a smod b = a mod b"
  by (cases "a = 0") (auto simp: signed_divide_int_def signed_modulo_int_def)

lemma datenum_fields:
  assumes "0 \<le> y" and "0 \<le> m" and "m < 100" and "0 \<le> d" and "d < 100"
  shows "calc_datenum y m d sdiv 10000 = y" and "(calc_datenum y m d sdiv 100) smod 100 = m" and "calc_datenum y m d smod 100 = d"
proof -
  have e: "calc_datenum y m d = d + 100 * (m + 100 * y)" by (simp add: calc_datenum_def)
  have h: "(d + 100 * k) mod 100 = d" "(d + 100 * k) div 100 = k" "(m + 100 * k) mod 100 = m" "(m + 100 * k) div 100 = k" for k
    using assms by simp_all
  have "calc_datenum y m d mod 100 = d" "calc_datenum y m d div 100 = m + 100 * y"
    unfolding e by (simp_all only: h)
  moreover have "calc_datenum y m d div (100 * 100) = y" unfolding e
    using zdiv_zmult2_eq [of 100 "d + 100 * (m + 100 * y)" 100] by (simp only: h)
  moreover have "0 \<le> calc_datenum y m d" using assms by (simp add: calc_datenum_def)
  moreover have "0 \<le> m + 100 * y" using assms by simp
  ultimately show "calc_datenum y m d sdiv 10000 = y" "(calc_datenum y m d sdiv 100) smod 100 = m" "calc_datenum y m d smod 100 = d"
    by (simp_all add: sdiv_pos h)
qed

lemma lastday_month:
  assumes "1 \<le> m" and "m \<le> 12" and "2000 \<le> y" and "y < 2100"
  shows "\<exists>l. aget lastday m = Some l \<and> (if m = 2 \<and> y smod 4 = 0 then l + 1 else l) = month_days y m"
proof -
  have "m = 1 \<or> m = 2 \<or> m = 3 \<or> m = 4 \<or> m = 5 \<or> m = 6 \<or> m = 7 \<or> m = 8 \<or> m = 9 \<or> m = 10 \<or> m = 11 \<or> m = 12"
    using assms(1,2) by presburger
  moreover have "y smod 4 = y mod 4" using assms by (simp add: sdiv_pos)
  moreover have "leap y \<longleftrightarrow> y mod 4 = 0" using assms(3,4) unfolding leap_def by presburger
  ultimately show ?thesis by (auto simp: month_days_def lastday_def aget_def)
qed

text \<open>
  \<open>ecb_decrdate\<close> is the previous calendar day: on every valid date of the years 2000 to 2099
  except 1 January 2000 it returns a valid date whose next day is the given one, with the matching
  date number; on 1 January 2000 it reports the error.
\<close>

theorem decrdate_is_previous_day:
  assumes "valid_date (y, m, d)" and "2000 \<le> y" and "y < 2100" and "(y, m, d) \<noteq> (2000, 1, 1)"
  shows "ecb_decrdate (calc_datenum 2000 1 1) = Some (Inl (- 1))
    \<and> (\<exists>y' m' d'. ecb_decrdate (calc_datenum y m d) = Some (Inr (y', m', d', calc_datenum y' m' d'))
         \<and> valid_date (y', m', d') \<and> next_day (y', m', d') = (y, m, d))"
proof
  have "month_days y m \<le> 31" by (simp add: month_days_def)
  then have b: "1 \<le> m" "m \<le> 12" "1 \<le> d" "d \<le> 31" using assms(1) by (auto simp: valid_date_def)
  then have f: "calc_datenum y m d sdiv 10000 = y" "(calc_datenum y m d sdiv 100) smod 100 = m" "calc_datenum y m d smod 100 = d"
    using assms(2) by (auto intro!: datenum_fields)
  show "ecb_decrdate (calc_datenum 2000 1 1) = Some (Inl (- 1))"
    using datenum_fields [of 2000 1 1] by (simp add: ecb_decrdate_def)
  consider "1 < d" | "d = 1" "1 < m" | "d = 1" "m = 1" "2000 < y" using b assms(2,4) by fastforce
  then show "\<exists>y' m' d'. ecb_decrdate (calc_datenum y m d) = Some (Inr (y', m', d', calc_datenum y' m' d'))
      \<and> valid_date (y', m', d') \<and> next_day (y', m', d') = (y, m, d)"
  proof cases
    case 1
    then have "ecb_decrdate (calc_datenum y m d) = Some (Inr (y, m, d - 1, calc_datenum y m (d - 1)))"
      by (simp add: ecb_decrdate_def f Let_def)
    then show ?thesis using assms(1) 1 by (auto simp: valid_date_def next_day_def)
  next
    case 2
    then obtain l where l: "aget lastday (m - 1) = Some l"
      "(if m - 1 = 2 \<and> y smod 4 = 0 then l + 1 else l) = month_days y (m - 1)"
      using lastday_month [of "m - 1" y] b assms by auto
    have "1 \<le> month_days y (m - 1)" by (simp add: month_days_def)
    moreover have "ecb_decrdate (calc_datenum y m d) = Some (Inr (y, m - 1, month_days y (m - 1), calc_datenum y (m - 1) (month_days y (m - 1))))"
      unfolding l(2) [symmetric] using f [unfolded 2(1)] 2 l(1) by (simp add: ecb_decrdate_def Let_def)
    ultimately show ?thesis using 2 b by (auto simp: valid_date_def next_day_def)
  next
    case 3
    then obtain l where l: "aget lastday 12 = Some l" "l = 31"
      using lastday_month [of 12 y] assms by (auto simp: month_days_def)
    then have "ecb_decrdate (calc_datenum y m d) = Some (Inr (y - 1, 12, 31, calc_datenum (y - 1) 12 31))"
      using f [unfolded 3(1,2)] 3 by (simp add: ecb_decrdate_def Let_def)
    then show ?thesis using 3 by (simp add: valid_date_def next_day_def month_days_def)
  qed
qed

theorem decrdate_is_previous_day_witness:
  "\<exists>y' m' d'. ecb_decrdate 20160301 = Some (Inr (y', m', d', calc_datenum y' m' d')) \<and> next_day (y', m', d') = (2016, 3, 1)"
proof -
  have "valid_date (2016, 3, 1)" "calc_datenum 2016 3 1 = 20160301"
    by (simp_all add: valid_date_def month_days_def calc_datenum_def)
  then show ?thesis using decrdate_is_previous_day [of 2016 3 1] by auto
qed

end
