(* ===== verification/Queue777.thy ===== *)
theory Queue777
  imports Utils777
begin

text \<open>
  The message queues and the arena allocator of \<open>plugins/common/system777.c\<close>. A queue is an
  intrusive doubly linked list (the macros of \<open>plugins/includes/utlist.h\<close>) in an explicit heap:
  \<open>next\<close> of the last item is null, \<open>prev\<close> of the first item is the last item. Null or freed
  pointers, a failed assertion and a mutex that is already locked give \<open>None\<close>; the operations
  run under the mutex of their queue, so a sequence of whole operations is what other threads
  can observe.

  The lemmas show that the linked list implements a first-in first-out list of items, and that
  blocks of an arena are disjoint.
\<close>

section \<open>Linked lists\<close>

type_synonym addr = nat

record queueitem =
  q_next :: addr
  q_prev :: addr
  q_payload :: "u8 list"

type_synonym heap = "addr \<Rightarrow> queueitem option"

definition rd :: "heap \<Rightarrow> addr \<Rightarrow> queueitem option" where
  "rd h a = (if a = 0 then None else h a)"

definition upd :: "heap \<Rightarrow> addr \<Rightarrow> (queueitem \<Rightarrow> queueitem) \<Rightarrow> heap option" where
  "upd h a f = do { it \<leftarrow> rd h a; Some (h(a := Some (f it))) }"

definition set_next :: "addr \<Rightarrow> queueitem \<Rightarrow> queueitem" where
  "set_next a it = it\<lparr>q_next := a\<rparr>"

definition set_prev :: "addr \<Rightarrow> queueitem \<Rightarrow> queueitem" where
  "set_prev a it = it\<lparr>q_prev := a\<rparr>"

text \<open>The macros: the new head pointer and heap.\<close>

definition DL_APPEND :: "heap \<Rightarrow> addr \<Rightarrow> addr \<Rightarrow> (addr \<times> heap) option" where
  "DL_APPEND h head add =
     (if head \<noteq> 0
      then do { hd1 \<leftarrow> rd h head;
                h \<leftarrow> upd h add (set_prev (q_prev hd1));
                hd2 \<leftarrow> rd h head;
                h \<leftarrow> upd h (q_prev hd2) (set_next add);
                h \<leftarrow> upd h head (set_prev add);
                h \<leftarrow> upd h add (set_next 0);
                Some (head, h) }
      else do { h \<leftarrow> upd h add (set_prev add);
                h \<leftarrow> upd h add (set_next 0);
                Some (add, h) })"

definition DL_DELETE :: "heap \<Rightarrow> addr \<Rightarrow> addr \<Rightarrow> (addr \<times> heap) option" where
  "DL_DELETE h head del =
     do { d \<leftarrow> rd h del;
          if q_prev d = 0 then None
          else if q_prev d = del then Some (0, h)
          else if del = head
          then do { h \<leftarrow> upd h (q_next d) (set_prev (q_prev d));
                    d \<leftarrow> rd h del;
                    Some (q_next d, h) }
          else do { h \<leftarrow> upd h (q_prev d) (set_next (q_next d));
                    d \<leftarrow> rd h del;
                    h \<leftarrow> (if q_next d \<noteq> 0 then upd h (q_next d) (set_prev (q_prev d))
                         else upd h head (set_prev (q_prev d)));
                    Some (head, h) } }"

partial_function (option) DL_COUNT :: "heap \<Rightarrow> addr \<Rightarrow> nat \<Rightarrow> nat option" where
  "DL_COUNT h el counter =
     (if el = 0 then Some counter
      else do { it \<leftarrow> rd h el; DL_COUNT h (q_next it) (Suc counter) })"

section \<open>Queues\<close>

record queue_t =
  ql_list :: addr
  ql_locked :: bool
  ql_initflag :: bool
  ql_name :: string

text \<open>Creation of items; the address is the one \<open>calloc\<close> returned.\<close>

definition new_queueitem :: "heap \<Rightarrow> addr \<Rightarrow> string \<Rightarrow> heap" where
  "new_queueitem h a str =
     h(a := Some \<lparr>q_next = 0, q_prev = 0, q_payload = map char_byte str @ [0]\<rparr>)"

definition queuedata :: "heap \<Rightarrow> addr \<Rightarrow> u8 list \<Rightarrow> heap" where
  "queuedata h a data = h(a := Some \<lparr>q_next = 0, q_prev = 0, q_payload = data\<rparr>)"

definition lock_queue :: "queue_t \<Rightarrow> queue_t option" where
  "lock_queue queue =
     (let queue = (if \<not> ql_initflag queue then queue\<lparr>ql_initflag := True, ql_locked := False\<rparr> else queue)
      in if ql_locked queue then None else Some (queue\<lparr>ql_locked := True\<rparr>))"

definition unlock_queue :: "queue_t \<Rightarrow> queue_t" where
  "unlock_queue queue = queue\<lparr>ql_locked := False\<rparr>"

definition queue_enqueue :: "string \<Rightarrow> heap \<times> queue_t \<Rightarrow> addr \<Rightarrow> (heap \<times> queue_t) option" where
  "queue_enqueue name = (\<lambda>(h, queue) item.
     let queue = (if ql_list queue = 0 \<and> name \<noteq> [] then queue\<lparr>ql_name := snd (safecopy (Some name) 31)\<rparr> else queue)
     in if item = 0 then Some (h, queue)
        else do { queue \<leftarrow> lock_queue queue;
                  (head, h) \<leftarrow> DL_APPEND h (ql_list queue) item;
                  Some (h, unlock_queue (queue\<lparr>ql_list := head\<rparr>)) })"

text \<open>The item; with the offset flag the caller gets the address of the payload behind the links.\<close>

definition queue_dequeue :: "heap \<times> queue_t \<Rightarrow> (addr \<times> heap \<times> queue_t) option" where
  "queue_dequeue = (\<lambda>(h, queue).
     do { queue \<leftarrow> lock_queue queue;
          (item, head, h) \<leftarrow> (if ql_list queue \<noteq> 0
                             then do { (head, h) \<leftarrow> DL_DELETE h (ql_list queue) (ql_list queue);
                                       Some (ql_list queue, head, h) }
                             else Some (0, 0, h));
          Some (item, h, unlock_queue (queue\<lparr>ql_list := head\<rparr>)) })"

text \<open>
  The loop of \<open>queue_delete\<close> compares the payload of the item with itself; the early return
  leaves the mutex locked.
\<close>

partial_function (option) queue_delete_loop ::
    "heap \<Rightarrow> queue_t \<Rightarrow> addr \<Rightarrow> nat \<Rightarrow> (addr \<times> heap \<times> queue_t) option" where
  "queue_delete_loop h queue item copysize =
     (if item = 0 then Some (0, h, unlock_queue queue)
      else do { it \<leftarrow> rd h item;
                if length (q_payload it) < copysize then None
                else if take copysize (q_payload it) = take copysize (q_payload it)
                then do { (head, h) \<leftarrow> DL_DELETE h (ql_list queue) item;
                          Some (item, h, queue\<lparr>ql_list := head\<rparr>) }
                else queue_delete_loop h queue (q_next it) copysize })"

definition queue_delete :: "heap \<times> queue_t \<Rightarrow> nat \<Rightarrow> (addr \<times> heap \<times> queue_t) option" where
  "queue_delete = (\<lambda>(h, queue) copysize.
     do { queue \<leftarrow> lock_queue queue; queue_delete_loop h queue (ql_list queue) copysize })"

partial_function (option) queue_free_loop :: "heap \<Rightarrow> addr \<Rightarrow> addr \<Rightarrow> (addr \<times> heap) option" where
  "queue_free_loop h head item =
     (if item = 0 then Some (head, h)
      else do { (head, h) \<leftarrow> DL_DELETE h head item;
                let h = h(item := None);
                it \<leftarrow> rd h item;
                queue_free_loop h head (q_next it) })"

definition queue_free :: "heap \<times> queue_t \<Rightarrow> (heap \<times> queue_t) option" where
  "queue_free = (\<lambda>(h, queue).
     do { queue \<leftarrow> lock_queue queue;
          (head, h) \<leftarrow> queue_free_loop h (ql_list queue) (ql_list queue);
          Some (h, unlock_queue (queue\<lparr>ql_list := head\<rparr>)) })"

definition queue_size :: "heap \<times> queue_t \<Rightarrow> (nat \<times> heap \<times> queue_t) option" where
  "queue_size = (\<lambda>(h, queue).
     do { queue \<leftarrow> lock_queue queue;
          n \<leftarrow> DL_COUNT h (ql_list queue) 0;
          Some (n, h, unlock_queue queue) })"

section \<open>The arena allocator\<close>

text \<open>The memory at \<open>ptr\<close> is a list of bytes; a returned pointer is an offset into it.\<close>

record alloc_space =
  as_used :: int
  as_size :: int
  as_alignflag :: bool
  as_bytes :: "u8 list"

definition clear_range :: "u8 list \<Rightarrow> int \<Rightarrow> int \<Rightarrow> u8 list option" where
  "clear_range bytes p n =
     (if n = 0 then Some bytes
      else if p < 0 \<or> n < 0 \<or> int (length bytes) < p + n then None
      else Some (take (nat p) bytes @ replicate (nat n) 0 @ drop (nat (p + n)) bytes))"

definition clear_alloc_space :: "alloc_space \<Rightarrow> bool \<Rightarrow> alloc_space option" where
  "clear_alloc_space mem alignflag =
     do { bytes \<leftarrow> clear_range (as_bytes mem) 0 (as_size mem);
          Some (mem\<lparr>as_bytes := bytes, as_used := 0, as_alignflag := alignflag\<rparr>) }"

definition rewind_alloc_space :: "alloc_space \<Rightarrow> i32 \<Rightarrow> alloc_space option" where
  "rewind_alloc_space mem flags =
     do { mem \<leftarrow> (if flags AND 1 \<noteq> 0 then clear_alloc_space mem True else Some (mem\<lparr>as_used := 0\<rparr>));
          Some (mem\<lparr>as_alignflag := (flags AND NOT 1 \<noteq> 0)\<rparr>) }"

text \<open>With the caller's memory; the other branch allocates the memory behind the structure.\<close>

definition init_alloc_space :: "alloc_space \<Rightarrow> u8 list \<Rightarrow> int \<Rightarrow> i32 \<Rightarrow> alloc_space option" where
  "init_alloc_space mem ptr sz flags = rewind_alloc_space (mem\<lparr>as_size := sz, as_bytes := ptr\<rparr>) flags"

text \<open>When the arena is full the function sleeps forever, which is \<open>None\<close>.\<close>

definition memalloc :: "alloc_space \<Rightarrow> int \<Rightarrow> bool \<Rightarrow> (int \<times> alloc_space) option" where
  "memalloc mem sz clearflag =
     (if as_used mem + sz > as_size mem then None
      else do { let ptr = as_used mem;
                let used = as_used mem + sz;
                bytes \<leftarrow> (if clearflag then clear_range (as_bytes mem) ptr sz else Some (as_bytes mem));
                let used = (if as_alignflag mem \<and> used AND 0xf \<noteq> 0 then used + (0x10 - (used AND 0xf)) else used);
                Some (ptr, mem\<lparr>as_used := used, as_bytes := bytes\<rparr>) })"

section \<open>The list a queue holds\<close>

definition dl_next :: "addr list \<Rightarrow> nat \<Rightarrow> addr" where
  "dl_next xs i = (if Suc i < length xs then xs ! Suc i else 0)"

definition dl_prev :: "addr list \<Rightarrow> nat \<Rightarrow> addr" where
  "dl_prev xs i = (if i = 0 then xs ! (length xs - 1) else xs ! (i - 1))"

definition dl :: "heap \<Rightarrow> addr \<Rightarrow> addr list \<Rightarrow> bool" where
  "dl h head xs \<longleftrightarrow> distinct xs \<and> 0 \<notin> set xs \<and> head = (if xs = [] then 0 else xs ! 0)
     \<and> (\<forall>i < length xs. \<exists>it. h (xs ! i) = Some it \<and> q_next it = dl_next xs i \<and> q_prev it = dl_prev xs i)"

text \<open>An operation on links changes no payload and allocates nothing.\<close>

definition same_data :: "heap \<Rightarrow> heap \<Rightarrow> bool" where
  "same_data h h' \<longleftrightarrow> (\<forall>a. map_option q_payload (h' a) = map_option q_payload (h a))"

lemma upd_Some: "a \<noteq> 0 \<Longrightarrow> h a = Some it \<Longrightarrow> upd h a f = Some (h(a := Some (f it)))"
  by (simp add: upd_def rd_def)

lemma rd_Some: "a \<noteq> 0 \<Longrightarrow> rd h a = h a"
  by (simp add: rd_def)

lemma same_data_refl: "same_data h h"
  by (simp add: same_data_def)

lemma same_data_trans: "same_data h h1 \<Longrightarrow> same_data h1 h2 \<Longrightarrow> same_data h h2"
  by (simp add: same_data_def)

lemma same_data_upd: "h a = Some it \<Longrightarrow> q_payload it' = q_payload it \<Longrightarrow> same_data h (h(a := Some it'))"
  by (simp add: same_data_def)

lemma dl_nodeD:
  assumes "dl h head xs" and "i < length xs"
  obtains it where "h (xs ! i) = Some it" and "q_next it = dl_next xs i" and "q_prev it = dl_prev xs i" and "xs ! i \<noteq> 0"
  using assms by (metis dl_def nth_mem)

lemma DL_APPEND_ok:
  assumes "dl h head xs" and "a \<noteq> 0" and "a \<notin> set xs" and "h a = Some ia"
  shows "\<exists>head' h'. DL_APPEND h head a = Some (head', h') \<and> dl h' head' (xs @ [a]) \<and> same_data h h'"
proof (cases "xs = []")
  case True
  then have "head = 0" using assms(1) by (simp add: dl_def)
  let ?h = "h(a := Some (set_next 0 (set_prev a ia)))"
  have "DL_APPEND h head a = Some (a, ?h)"
    using \<open>head = 0\<close> assms by (simp add: DL_APPEND_def upd_Some)
  moreover have "dl ?h a ([] @ [a])"
    using assms(2) by (simp add: dl_def dl_next_def dl_prev_def set_next_def set_prev_def)
  moreover have "same_data h ?h"
    using assms(4) by (rule same_data_upd) (simp add: set_next_def set_prev_def)
  ultimately show ?thesis using True by blast
next
  case False
  define n where "n = length xs"
  let ?l = "xs ! (n - 1)"
  have n: "0 < n" using False by (simp add: n_def)
  have head: "head = xs ! 0" "xs ! 0 \<noteq> 0" "xs ! 0 \<noteq> a" "?l \<noteq> 0" "?l \<noteq> a" "distinct xs"
    using assms(1,3) n by (auto simp: dl_def n_def in_set_conv_nth)
  obtain i0 where i0: "h (xs ! 0) = Some i0" "q_prev i0 = ?l"
    using dl_nodeD [OF assms(1), of 0] n by (auto simp: n_def dl_prev_def)
  obtain il where il: "h ?l = Some il" using dl_nodeD [OF assms(1), of "n - 1"] n by (auto simp: n_def)
  define h4 where "h4 = (\<lambda>x. if x = a then Some (set_next 0 (set_prev ?l ia))
     else map_option (\<lambda>it. (if x = xs ! 0 then set_prev a else id) ((if x = ?l then set_next a else id) it)) (h x))"
  have app: "DL_APPEND h head a = Some (head, h4)"
  proof -
    let ?h2 = "h(a := Some (set_prev ?l ia), ?l := Some (set_next a il))"
    obtain ih where ih: "?h2 (xs ! 0) = Some ih" "ih = (if xs ! 0 = ?l then set_next a il else i0)"
      using i0 head by auto
    have "DL_APPEND h head a = Some (head, ?h2(xs ! 0 := Some (set_prev a ih), a := Some (set_next 0 (set_prev ?l ia))))"
      using head i0 il assms ih(1) by (auto simp: DL_APPEND_def upd_Some rd_Some)
    also have "?h2(xs ! 0 := Some (set_prev a ih), a := Some (set_next 0 (set_prev ?l ia))) = h4"
      unfolding h4_def ih(2) using head i0 il by (auto simp: fun_eq_iff option.map_ident option.map_id)
    finally show ?thesis .
  qed
  have "dl h4 head (xs @ [a])"
    unfolding dl_def
  proof (intro conjI allI impI)
    fix i assume "i < length (xs @ [a])"
    then consider "i < n" | "i = n" by (auto simp: n_def less_Suc_eq)
    then show "\<exists>it. h4 ((xs @ [a]) ! i) = Some it \<and> q_next it = dl_next (xs @ [a]) i \<and> q_prev it = dl_prev (xs @ [a]) i"
    proof cases
      case 1
      obtain it where it: "h (xs ! i) = Some it" "q_next it = dl_next xs i" "q_prev it = dl_prev xs i"
        using dl_nodeD [OF assms(1), of i] 1 by (auto simp: n_def)
      have "xs ! i \<noteq> a" using 1 assms(3) by (auto simp: n_def)
      moreover have "xs ! i = ?l \<longleftrightarrow> i = n - 1" "xs ! i = xs ! 0 \<longleftrightarrow> i = 0"
        using 1 n head(6) by (simp_all add: nth_eq_iff_index_eq n_def)
      ultimately show ?thesis using 1 n it
        by (auto simp: h4_def n_def dl_next_def dl_prev_def nth_append set_next_def set_prev_def)
    next
      case 2
      then show ?thesis using n by (simp add: h4_def n_def dl_next_def dl_prev_def nth_append set_next_def set_prev_def)
    qed
  qed (use assms head n in \<open>auto simp: dl_def nth_append n_def\<close>)
  moreover have "same_data h h4"
    using assms(4) by (auto simp: same_data_def h4_def set_next_def set_prev_def option.map_comp comp_def intro!: option.map_cong)
  ultimately show ?thesis using app by blast
qed

lemma DL_DELETE_head:
  assumes "dl h head (x # xs)"
  shows "\<exists>head' h'. DL_DELETE h head x = Some (head', h') \<and> dl h' head' xs \<and> same_data h h'"
proof -
  obtain ix where ix: "h x = Some ix" "q_next ix = dl_next (x # xs) 0" "q_prev ix = dl_prev (x # xs) 0" "x \<noteq> 0"
    using dl_nodeD [OF assms, of 0] by auto
  have d: "distinct (x # xs)" "0 \<notin> set (x # xs)" "head = x" using assms by (auto simp: dl_def)
  show ?thesis
  proof (cases xs)
    case Nil
    then have "DL_DELETE h head x = Some (0, h)" using ix by (simp add: DL_DELETE_def rd_Some dl_prev_def)
    then show ?thesis using Nil by (auto simp: dl_def same_data_refl)
  next
    case (Cons y ys)
    define l where "l = xs ! (length xs - 1)"
    have px: "q_prev ix = l" "q_next ix = y" using ix(2,3) Cons by (simp_all add: dl_prev_def dl_next_def l_def)
    have "l \<in> set xs" unfolding l_def using Cons by (intro nth_mem) simp
    then have l: "l \<noteq> 0" "l \<noteq> x" using d by (metis list.set_intros(2), metis distinct.simps(2))
    have y: "y \<noteq> 0" "y \<noteq> x" using d Cons by auto
    obtain iy where iy: "h y = Some iy" "q_next iy = dl_next (x # xs) 1"
      using dl_nodeD [OF assms, of 1] Cons by auto
    let ?h = "h(y := Some (set_prev l iy))"
    have "DL_DELETE h head x = Some (y, ?h)"
      using ix(1,4) px l y iy(1) d(3) by (simp add: DL_DELETE_def upd_Some rd_Some)
    moreover have "same_data h ?h" using iy(1) by (rule same_data_upd) (simp add: set_prev_def)
    moreover have "dl ?h y xs"
      unfolding dl_def
    proof (intro conjI allI impI)
      fix i assume i: "i < length xs"
      obtain it where it: "h (xs ! i) = Some it" "q_next it = dl_next (x # xs) (Suc i)" "q_prev it = dl_prev (x # xs) (Suc i)"
        using dl_nodeD [OF assms, of "Suc i"] i by auto
      have "xs ! i = y \<longleftrightarrow> i = 0" using nth_eq_iff_index_eq [of xs i 0] i d(1) Cons by auto
      then show "\<exists>it. ?h (xs ! i) = Some it \<and> q_next it = dl_next xs i \<and> q_prev it = dl_prev xs i"
        using it iy l_def Cons by (cases i) (auto simp: dl_next_def dl_prev_def set_prev_def)
    qed (use d Cons in auto)
    ultimately show ?thesis by blast
  qed
qed

lemma DL_COUNT_ok:
  assumes "dl h head xs" and "i \<le> length xs"
  shows "DL_COUNT h (if i < length xs then xs ! i else 0) c = Some (c + (length xs - i))"
  using assms(2)
proof (induction "length xs - i" arbitrary: i c)
  case 0
  then show ?case by (simp add: DL_COUNT.simps)
next
  case (Suc k)
  then have i: "i < length xs" by simp
  obtain it where "h (xs ! i) = Some it" "q_next it = dl_next xs i" "xs ! i \<noteq> 0"
    using dl_nodeD [OF assms(1) i] by blast
  moreover have "DL_COUNT h (dl_next xs i) (Suc c) = Some (Suc c + (length xs - Suc i))"
    using Suc.hyps(1) [of "Suc i" "Suc c"] Suc.hyps(2) i by (simp add: dl_next_def)
  ultimately show ?case using i by (simp add: DL_COUNT.simps [of h "xs ! i"] rd_Some)
qed

section \<open>Queues are first-in first-out\<close>

text \<open>Whole operations on a queue, in the order in which the mutex lets them through.\<close>

datatype 'a qop = Enq 'a | Deq | Count

fun run_ops :: "('s \<Rightarrow> 'a \<Rightarrow> 's option) \<Rightarrow> ('s \<Rightarrow> ('a \<times> 's) option) \<Rightarrow> ('s \<Rightarrow> (nat \<times> 's) option)
    \<Rightarrow> 'a qop list \<Rightarrow> 's \<Rightarrow> (('a + nat) list \<times> 's) option" where
  "run_ops enq deq cnt [] s = Some ([], s)"
| "run_ops enq deq cnt (Enq a # ops) s = do { s \<leftarrow> enq s a; run_ops enq deq cnt ops s }"
| "run_ops enq deq cnt (Deq # ops) s =
     do { (a, s) \<leftarrow> deq s; (rs, s) \<leftarrow> run_ops enq deq cnt ops s; Some (Inl a # rs, s) }"
| "run_ops enq deq cnt (Count # ops) s =
     do { (n, s) \<leftarrow> cnt s; (rs, s) \<leftarrow> run_ops enq deq cnt ops s; Some (Inr n # rs, s) }"

text \<open>The specification: a list; \<open>null\<close> is what an empty queue returns.\<close>

fun fifo_run :: "'a \<Rightarrow> 'a qop list \<Rightarrow> 'a list \<Rightarrow> ('a + nat) list \<times> 'a list" where
  "fifo_run null [] xs = ([], xs)"
| "fifo_run null (Enq a # ops) xs = fifo_run null ops (xs @ [a])"
| "fifo_run null (Deq # ops) xs =
     (let (rs, ys) = fifo_run null ops (tl xs) in (Inl (if xs = [] then null else hd xs) # rs, ys))"
| "fifo_run null (Count # ops) xs = (let (rs, ys) = fifo_run null ops xs in (Inr (length xs) # rs, ys))"

text \<open>An item is enqueued only when it is not in the queue.\<close>

fun fresh_ops :: "'a set \<Rightarrow> 'a qop list \<Rightarrow> 'a list \<Rightarrow> bool" where
  "fresh_ops A [] xs \<longleftrightarrow> True"
| "fresh_ops A (Enq a # ops) xs \<longleftrightarrow> a \<in> A \<and> a \<notin> set xs \<and> fresh_ops A ops (xs @ [a])"
| "fresh_ops A (Deq # ops) xs \<longleftrightarrow> fresh_ops A ops (tl xs)"
| "fresh_ops A (Count # ops) xs \<longleftrightarrow> fresh_ops A ops xs"

locale fifo =
  fixes repr :: "'s \<Rightarrow> 'a list \<Rightarrow> bool" and items :: "'s \<Rightarrow> 'a set" and null :: 'a
    and enq :: "'s \<Rightarrow> 'a \<Rightarrow> 's option" and deq :: "'s \<Rightarrow> ('a \<times> 's) option" and cnt :: "'s \<Rightarrow> (nat \<times> 's) option"
  assumes enq_law: "repr s xs \<Longrightarrow> a \<in> items s \<Longrightarrow> a \<notin> set xs \<Longrightarrow>
      \<exists>s'. enq s a = Some s' \<and> repr s' (xs @ [a]) \<and> items s' = items s"
    and deq_law: "repr s xs \<Longrightarrow>
      \<exists>s'. deq s = Some (if xs = [] then null else hd xs, s') \<and> repr s' (tl xs) \<and> items s' = items s"
    and cnt_law: "repr s xs \<Longrightarrow> \<exists>s'. cnt s = Some (length xs, s') \<and> repr s' xs \<and> items s' = items s"
begin

lemma refines_list:
  assumes "repr s xs" and "fresh_ops (items s) ops xs"
  shows "\<exists>s'. run_ops enq deq cnt ops s = Some (fst (fifo_run null ops xs), s') \<and> repr s' (snd (fifo_run null ops xs))"
  using assms
proof (induction ops arbitrary: s xs)
  case (Cons op ops)
  show ?case
  proof (cases op)
    case (Enq a)
    with enq_law [OF Cons.prems(1), of a] Cons.prems(2) obtain s1 where
      "enq s a = Some s1" "repr s1 (xs @ [a])" "items s1 = items s" by auto
    with Cons.IH [of s1 "xs @ [a]"] Cons.prems(2) Enq show ?thesis by auto
  next
    case Deq
    obtain s1 where "deq s = Some (if xs = [] then null else hd xs, s1)" "repr s1 (tl xs)" "items s1 = items s"
      using deq_law [OF Cons.prems(1)] by blast
    with Cons.IH [of s1 "tl xs"] Cons.prems(2) Deq show ?thesis by (auto simp: Let_def split: prod.splits)
  next
    case Count
    obtain s1 where "cnt s = Some (length xs, s1)" "repr s1 xs" "items s1 = items s"
      using cnt_law [OF Cons.prems(1)] by blast
    with Cons.IH [of s1 xs] Cons.prems(2) Count show ?thesis by (auto simp: Let_def split: prod.splits)
  qed
qed simp

end

text \<open>A queue at rest holds a list: its mutex is free and its links represent the list.\<close>

definition queue_repr :: "heap \<times> queue_t \<Rightarrow> addr list \<Rightarrow> bool" where
  "queue_repr = (\<lambda>(h, q) xs. dl h (ql_list q) xs \<and> (ql_initflag q \<longrightarrow> \<not> ql_locked q))"

definition queue_items :: "heap \<times> queue_t \<Rightarrow> addr set" where
  "queue_items = (\<lambda>(h, q). {a. a \<noteq> 0 \<and> h a \<noteq> None})"

lemma same_data_items: "same_data h h' \<Longrightarrow> queue_items (h', q') = queue_items (h, q)"
proof -
  assume "same_data h h'"
  then have "map_option q_payload (h' a) = map_option q_payload (h a)" for a by (simp add: same_data_def)
  then have "(\<exists>y. h' a = Some y) \<longleftrightarrow> (\<exists>y. h a = Some y)" for a by (metis map_option_eq_Some)
  then show ?thesis by (simp add: queue_items_def)
qed

lemma lock_ok: "(ql_initflag q \<longrightarrow> \<not> ql_locked q) \<Longrightarrow> lock_queue q = Some (q\<lparr>ql_initflag := True, ql_locked := True\<rparr>)"
  by (cases q) (auto simp: lock_queue_def)

interpretation linked: fifo queue_repr queue_items 0 "queue_enqueue name" queue_dequeue queue_size
proof
  fix s xs a
  assume r: "queue_repr s xs" and a: "a \<in> queue_items s" "a \<notin> set xs"
  obtain h q where s: "s = (h, q)" by (cases s)
  obtain ia where ia: "a \<noteq> 0" "h a = Some ia" using a by (auto simp: s queue_items_def)
  from r have d: "dl h (ql_list q) xs" and l: "ql_initflag q \<longrightarrow> \<not> ql_locked q" by (auto simp: s queue_repr_def)
  obtain head' h' where h': "DL_APPEND h (ql_list q) a = Some (head', h')" "dl h' head' (xs @ [a])" "same_data h h'"
    using DL_APPEND_ok [OF d ia(1) a(2) ia(2)] by blast
  define q1 where "q1 = (if ql_list q = 0 \<and> name \<noteq> [] then q\<lparr>ql_name := snd (safecopy (Some name) 31)\<rparr> else q)"
  have q1: "ql_list q1 = ql_list q" "ql_initflag q1 \<longrightarrow> \<not> ql_locked q1" using l by (simp_all add: q1_def)
  have "queue_enqueue name s a = Some (h', unlock_queue (q1\<lparr>ql_initflag := True, ql_locked := True, ql_list := head'\<rparr>))"
    unfolding s queue_enqueue_def prod.case q1_def [symmetric] Let_def using ia(1) h'(1) lock_ok [OF q1(2)] q1(1) by simp
  then show "\<exists>s'. queue_enqueue name s a = Some s' \<and> queue_repr s' (xs @ [a]) \<and> queue_items s' = queue_items s"
    using h'(2) same_data_items [OF h'(3)] by (simp add: s queue_repr_def unlock_queue_def)
next
  fix s xs
  assume r: "queue_repr s xs"
  obtain h q where s: "s = (h, q)" by (cases s)
  from r have d: "dl h (ql_list q) xs" and l: "ql_initflag q \<longrightarrow> \<not> ql_locked q" by (auto simp: s queue_repr_def)
  show "\<exists>s'. queue_dequeue s = Some (if xs = [] then 0 else hd xs, s') \<and> queue_repr s' (tl xs) \<and> queue_items s' = queue_items s"
  proof (cases xs)
    case Nil
    then show ?thesis using d l by (auto simp: s queue_dequeue_def lock_ok dl_def queue_repr_def unlock_queue_def queue_items_def)
  next
    case (Cons x ys)
    then have x: "ql_list q = x" "x \<noteq> 0" using d by (auto simp: dl_def)
    obtain head' h' where h': "DL_DELETE h (ql_list q) x = Some (head', h')" "dl h' head' ys" "same_data h h'"
      using DL_DELETE_head [OF d [unfolded Cons]] by blast
    then show ?thesis using Cons x l same_data_items [OF h'(3)]
      by (simp add: s queue_dequeue_def lock_ok queue_repr_def unlock_queue_def)
  qed
next
  fix s xs
  assume r: "queue_repr s xs"
  obtain h q where s: "s = (h, q)" by (cases s)
  from r have d: "dl h (ql_list q) xs" and l: "ql_initflag q \<longrightarrow> \<not> ql_locked q" by (auto simp: s queue_repr_def)
  have "ql_list q = (if 0 < length xs then xs ! 0 else 0)" using d by (simp add: dl_def)
  then have "DL_COUNT h (ql_list q) 0 = Some (length xs)" using DL_COUNT_ok [OF d, of 0 0] by simp
  then show "\<exists>s'. queue_size s = Some (length xs, s') \<and> queue_repr s' xs \<and> queue_items s' = queue_items s"
    using l d by (simp add: s queue_size_def lock_ok queue_repr_def unlock_queue_def queue_items_def)
qed

text \<open>
  C19. The message queues are first-in first-out. From any queue at rest, every sequence of
  enqueue, dequeue and size operations, whose items are allocated and not already queued, runs
  without a fault or a deadlock on the linked list and returns what the same operations return on
  a plain list; an empty queue gives the null pointer.
\<close>

theorem queue_is_fifo:
  assumes "queue_repr s xs" and "fresh_ops (queue_items s) ops xs"
  shows "\<exists>s'. run_ops (queue_enqueue name) queue_dequeue queue_size ops s = Some (fst (fifo_run 0 ops xs), s')
    \<and> queue_repr s' (snd (fifo_run 0 ops xs))"
  using assms by (rule linked.refines_list)

definition demo_queue :: "heap \<times> queue_t" where
  "demo_queue = (queuedata (queuedata Map.empty 16 [1, 2]) 48 [3],
                 \<lparr>ql_list = 0, ql_locked = False, ql_initflag = False, ql_name = []\<rparr>)"

theorem queue_is_fifo_witness:
  "\<exists>s'. run_ops (queue_enqueue ''q'') queue_dequeue queue_size [Enq 48, Enq 16, Count, Deq, Deq, Deq] demo_queue
     = Some ([Inr 2, Inl 48, Inl 16, Inl 0], s')"
proof -
  have r: "queue_repr demo_queue []" by (simp add: demo_queue_def queue_repr_def dl_def)
  have "fresh_ops (queue_items demo_queue) [Enq 48, Enq 16, Count, Deq, Deq, Deq] []"
    by (simp add: demo_queue_def queue_items_def queuedata_def)
  from queue_is_fifo [OF r this, of "''q''"] show ?thesis by auto
qed

text \<open>
  C40. \<open>queue_delete\<close> and \<open>queue_free\<close> do not do their work on a queue that is not empty:
  \<open>queue_delete\<close> always takes the first item, because it compares the item with itself, and
  returns with the mutex locked, so that the next operation waits forever; \<open>queue_free\<close> reads an
  item that it has just freed.
\<close>

theorem queue_delete_and_free_fail:
  assumes "queue_repr (h, q) (x # xs)" and "\<forall>it. h x = Some it \<longrightarrow> copysize \<le> length (q_payload it)"
  shows "(\<exists>s'. queue_delete (h, q) copysize = Some (x, s') \<and> queue_dequeue s' = None) \<and> queue_free (h, q) = None"
proof -
  from assms(1) have d: "dl h (ql_list q) (x # xs)" and l: "ql_initflag q \<longrightarrow> \<not> ql_locked q" by (auto simp: queue_repr_def)
  then have x: "ql_list q = x" "x \<noteq> 0" by (auto simp: dl_def)
  obtain it where it: "h x = Some it" using dl_nodeD [OF d, of 0] by auto
  obtain head' h' where h': "DL_DELETE h x x = Some (head', h')"
    using DL_DELETE_head [OF d] x by auto
  have "queue_delete (h, q) copysize = Some (x, h', q\<lparr>ql_initflag := True, ql_locked := True, ql_list := head'\<rparr>)"
    using x l it h' assms(2) by (simp add: queue_delete_def lock_ok queue_delete_loop.simps rd_Some)
  moreover have "queue_free (h, q) = None"
    using x l h' by (simp add: queue_free_def lock_ok queue_free_loop.simps rd_def)
  ultimately show ?thesis by (auto simp: queue_dequeue_def lock_queue_def)
qed

theorem queue_delete_and_free_fail_witness:
  "\<exists>s. queue_repr s [48] \<and> (\<exists>s'. queue_delete s 1 = Some (48, s') \<and> queue_dequeue s' = None) \<and> queue_free s = None"
proof -
  let ?h = "Map.empty(48 := Some \<lparr>q_next = 0, q_prev = 48, q_payload = [3]\<rparr>) :: heap"
  let ?q = "\<lparr>ql_list = 48, ql_locked = False, ql_initflag = True, ql_name = []\<rparr>"
  have "queue_repr (?h, ?q) [48]" by (simp add: queue_repr_def dl_def dl_next_def dl_prev_def)
  with queue_delete_and_free_fail [OF this, of 1] show ?thesis by auto
qed

section \<open>Blocks of an arena\<close>

fun memalloc_all :: "int list \<Rightarrow> bool \<Rightarrow> alloc_space \<Rightarrow> ((int \<times> int) list \<times> alloc_space) option" where
  "memalloc_all [] clearflag mem = Some ([], mem)"
| "memalloc_all (n # ns) clearflag mem =
     do { (p, mem) \<leftarrow> memalloc mem n clearflag; (ps, mem) \<leftarrow> memalloc_all ns clearflag mem; Some ((p, n) # ps, mem) }"

definition arena_ok :: "alloc_space \<Rightarrow> bool" where
  "arena_ok mem \<longleftrightarrow> 0 \<le> as_used mem \<and> as_size mem \<le> int (length (as_bytes mem)) \<and> (as_alignflag mem \<longrightarrow> as_used mem mod 16 = 0)"

lemma and_15: "(x :: int) AND 15 = x mod 16"
proof -
  have "x AND mask 4 = take_bit 4 x" by (simp add: take_bit_eq_mask)
  then show ?thesis by (simp add: mask_eq_exp_minus_1 take_bit_eq_mod)
qed

definition round16 :: "int \<Rightarrow> int" where
  "round16 n = n + (- n) mod 16"

lemma round16: "n \<le> round16 n" "round16 n mod 16 = 0" "round16 n < n + 16"
  by (simp_all add: round16_def) presburger

lemma round16_code: "(if n AND 0xf \<noteq> 0 then n + (0x10 - (n AND 0xf)) else n) = round16 n"
  by (simp add: round16_def and_15 zmod_zminus1_eq_if)

lemma clear_range_ok:
  assumes "0 \<le> p" and "0 \<le> n" and "p + n \<le> int (length bytes)"
  shows "\<exists>b. clear_range bytes p n = Some b \<and> length b = length bytes"
proof (cases "n = 0")
  case False
  then show ?thesis using assms by (simp add: clear_range_def nat_add_distrib)
qed (simp add: clear_range_def)

lemma memalloc_ok:
  assumes "arena_ok mem" and "0 \<le> n" and "as_used mem + n \<le> as_size mem"
  shows "\<exists>mem'. memalloc mem n clearflag = Some (as_used mem, mem') \<and> arena_ok mem'
    \<and> as_used mem' = (if as_alignflag mem then round16 (as_used mem + n) else as_used mem + n)
    \<and> as_size mem' = as_size mem \<and> as_alignflag mem' = as_alignflag mem"
proof -
  obtain bytes where b: "(if clearflag then clear_range (as_bytes mem) (as_used mem) n else Some (as_bytes mem)) = Some bytes"
      "length bytes = length (as_bytes mem)"
    using clear_range_ok [of "as_used mem" n "as_bytes mem"] assms unfolding arena_ok_def
    by (metis dual_order.trans)
  define u where "u = (if as_alignflag mem then round16 (as_used mem + n) else as_used mem + n)"
  have "(if as_alignflag mem \<and> (as_used mem + n) AND 0xf \<noteq> 0 then as_used mem + n + (0x10 - ((as_used mem + n) AND 0xf)) else as_used mem + n) = u"
    using round16_code [of "as_used mem + n"] by (auto simp: u_def)
  then have "memalloc mem n clearflag = Some (as_used mem, mem\<lparr>as_used := u, as_bytes := bytes\<rparr>)"
    using assms(3) b(1) by (simp add: memalloc_def Let_def)
  moreover have "0 \<le> u" "as_alignflag mem \<longrightarrow> u mod 16 = 0"
    using assms round16 [of "as_used mem + n"] by (auto simp: u_def arena_ok_def)
  ultimately show ?thesis using assms(1) b(2) by (auto simp: arena_ok_def u_def)
qed

lemma memalloc_all_ok:
  assumes "arena_ok mem" and "\<forall>n \<in> set ns. 0 \<le> n" and "memalloc_all ns clearflag mem = Some (ps, mem')"
  shows "arena_ok mem' \<and> sorted_wrt (\<lambda>(p, n) (q, m). p + n \<le> q) ps
    \<and> (\<forall>(p, n) \<in> set ps. as_used mem \<le> p \<and> p + n \<le> as_size mem \<and> (as_alignflag mem \<longrightarrow> p mod 16 = 0))"
  using assms
proof (induction ns arbitrary: mem ps)
  case (Cons n ns)
  then obtain p mem1 ps1 where 1: "memalloc mem n clearflag = Some (p, mem1)" "memalloc_all ns clearflag mem1 = Some (ps1, mem')" "ps = (p, n) # ps1"
    by (auto simp: bind_Some_conv)
  have fit: "as_used mem + n \<le> as_size mem" using 1(1) by (auto simp: memalloc_def split: if_splits)
  from memalloc_ok [OF Cons.prems(1) _ fit, of clearflag] Cons.prems(2) 1(1) have m: "p = as_used mem" "arena_ok mem1"
    "as_used mem1 = (if as_alignflag mem then round16 (as_used mem + n) else as_used mem + n)" "as_size mem1 = as_size mem" "as_alignflag mem1 = as_alignflag mem"
    by auto
  have "as_used mem + n \<le> as_used mem1" using m(3) round16(1) [of "as_used mem + n"] by simp
  with Cons.IH [OF m(2) _ 1(2)] Cons.prems m fit show ?case by (fastforce simp: 1(3) arena_ok_def)
qed simp

text \<open>
  C37. Blocks of an arena do not overlap: any sequence of allocations from a well-formed arena
  returns blocks inside the arena, each one behind the previous one, at multiples of 16 when the
  arena is aligned; an arena with room for the rounded sizes serves all requests.
\<close>

theorem arena_blocks_disjoint:
  assumes "arena_ok mem" and "\<forall>n \<in> set ns. 0 \<le> n" and "as_used mem + sum_list (map round16 ns) \<le> as_size mem"
  shows "\<exists>ps mem'. memalloc_all ns clearflag mem = Some (ps, mem') \<and> arena_ok mem' \<and> map snd ps = ns
    \<and> sorted_wrt (\<lambda>(p, n) (q, m). p + n \<le> q) ps
    \<and> (\<forall>(p, n) \<in> set ps. 0 \<le> p \<and> p + n \<le> as_size mem \<and> (as_alignflag mem \<longrightarrow> p mod 16 = 0))"
proof -
  have "\<exists>ps mem'. memalloc_all ns clearflag mem = Some (ps, mem') \<and> map snd ps = ns"
    using assms
  proof (induction ns arbitrary: mem)
    case (Cons n ns)
    have nn: "0 \<le> sum_list (map round16 ns)"
      using Cons.prems(2) round16(1) by (intro sum_list_nonneg) (auto intro: order_trans)
    then have fit: "as_used mem + n \<le> as_size mem" using Cons.prems(3) round16(1) [of n] by simp
    obtain mem1 where m: "memalloc mem n clearflag = Some (as_used mem, mem1)" "arena_ok mem1"
      "as_used mem1 = (if as_alignflag mem then round16 (as_used mem + n) else as_used mem + n)" "as_size mem1 = as_size mem"
      using memalloc_ok [OF Cons.prems(1) _ fit, of clearflag] Cons.prems(2) by auto
    have "as_used mem1 \<le> as_used mem + round16 n"
    proof (cases "as_alignflag mem")
      case True
      then obtain k where k: "as_used mem = 16 * k" using Cons.prems(1) by (auto simp: arena_ok_def)
      have "(- (16 * k + n)) mod 16 = (- n) mod 16" by (metis add_uminus_conv_diff minus_add_distrib mod_mult_self4 mult_minus_right)
      then show ?thesis using True m(3) by (simp add: k round16_def)
    qed (use m(3) round16(1) [of n] in simp)
    then have "as_used mem1 + sum_list (map round16 ns) \<le> as_size mem1" using Cons.prems(3) m(4) by simp
    from Cons.IH [OF m(2) _ this] Cons.prems(2) m(1) show ?case by auto
  qed simp
  then obtain ps mem' where "memalloc_all ns clearflag mem = Some (ps, mem')" "map snd ps = ns" by blast
  moreover note all = memalloc_all_ok [OF assms(1,2) this(1)]
  have "\<forall>(p, n) \<in> set ps. 0 \<le> p \<and> p + n \<le> as_size mem \<and> (as_alignflag mem \<longrightarrow> p mod 16 = 0)"
  proof (rule ballI, clarify)
    fix p n assume "(p, n) \<in> set ps"
    with all have "as_used mem \<le> p \<and> p + n \<le> as_size mem \<and> (as_alignflag mem \<longrightarrow> p mod 16 = 0)" by blast
    then show "0 \<le> p \<and> p + n \<le> as_size mem \<and> (as_alignflag mem \<longrightarrow> p mod 16 = 0)"
      using assms(1) by (simp add: arena_ok_def)
  qed
  ultimately show ?thesis using all by blast
qed

theorem arena_blocks_disjoint_witness:
  "\<exists>ps mem'. memalloc_all [5, 20] True \<lparr>as_used = 0, as_size = 64, as_alignflag = True, as_bytes = replicate 64 1\<rparr> = Some (ps, mem') \<and> map snd ps = [5, 20]"
  using arena_blocks_disjoint [of "\<lparr>as_used = 0, as_size = 64, as_alignflag = True, as_bytes = replicate 64 1\<rparr>" "[5, 20]" True]
  by (auto simp: arena_ok_def round16_def)

end
