(* ===== verification/PangeaWire.thy ===== *)
theory PangeaWire
  imports PangeaHand Utils777
begin

text \<open>
  The compressed hexadecimal encoding of Pangea's \<open>preflop\<close> messages and the start of a hand on
  the host (\<open>plugins/games/pangea/pangea777.c\<close>): runs of up to 16 zero bytes become two
  characters. The theorems show when decoding gives the data back, that otherwise zeros follow
  that come from reading behind the data, and that a decoder without a length check writes outside
  its buffer.

  Memory from a pointer on is a list; \<open>None\<close> is an access outside it.
\<close>

section \<open>Encoding\<close>

function zero_run :: "u8 list \<Rightarrow> nat \<Rightarrow> nat \<Rightarrow> nat option" where
  "zero_run data i j =
     (if 16 \<le> j then Some j
      else do { b \<leftarrow> aget data (int (i + j)); if b \<noteq> 0 then Some j else zero_run data i (j + 1) })"
  by pat_completeness auto
termination
  by (relation "measure (\<lambda>(data, i, j). 16 - j)") auto

declare zero_run.simps [simp del]

function zbuf_loop :: "u8 list \<Rightarrow> nat \<Rightarrow> nat \<Rightarrow> string option" where
  "zbuf_loop data datalen i =
     (if datalen \<le> i then Some []
      else do { b \<leftarrow> aget data (int i);
                if b \<noteq> 0
                then do { z \<leftarrow> zbuf_loop data datalen (i + 1);
                          Some (hexbyte (drop_bit 4 b AND 0xf) # hexbyte (b AND 0xf) # z) }
                else do { j \<leftarrow> zero_run data i 1;
                          z \<leftarrow> zbuf_loop data datalen (i + (j - 1) + 1);
                          Some (CHR ''Z'' # char_of (65 + j) # z) } })"
  by pat_completeness auto
termination
  by (relation "measure (\<lambda>(data, datalen, i). datalen - i)") auto

declare zbuf_loop.simps [simp del]

text \<open>The characters written before the terminator; the return value is their number.\<close>

definition pangea_zbuf :: "u8 list \<Rightarrow> nat \<Rightarrow> string option" where
  "pangea_zbuf data datalen = zbuf_loop data datalen 0"

section \<open>Decoding\<close>

text \<open>A \<open>char\<close> is signed: the run length of a character above 127 is negative, and no zero is written.\<close>

definition run_length :: "char \<Rightarrow> nat" where
  "run_length c = (if (of_char c :: nat) < 128 then of_char c - 65 else 0)"

text \<open>The buffer has \<open>cap\<close> bytes, of which \<open>buf\<close> are written.\<close>

function unzbuf_loop :: "nat \<Rightarrow> u8 list \<Rightarrow> string \<Rightarrow> nat \<Rightarrow> nat \<Rightarrow> u8 list option" where
  "unzbuf_loop cap buf hexstr len i =
     (if len \<le> i then Some buf
      else do { c \<leftarrow> aget hexstr (int i);
                d \<leftarrow> aget hexstr (int i + 1);
                let out = (if c = CHR ''Z'' then replicate (run_length d) 0 else [decode_hexpair c d]);
                if cap < length buf + length out then None
                else unzbuf_loop cap (buf @ out) hexstr len (i + 2) })"
  by pat_completeness auto
termination
  by (relation "measure (\<lambda>(cap, buf, hexstr, len, i). len - i)") auto

declare unzbuf_loop.simps [simp del]

definition pangea_unzbuf :: "nat \<Rightarrow> string \<Rightarrow> nat \<Rightarrow> u8 list option" where
  "pangea_unzbuf cap hexstr len = unzbuf_loop cap [] hexstr len 0"

section \<open>Decoding undoes encoding\<close>

fun unz :: "string \<Rightarrow> u8 list" where
  "unz (c # d # z) = (if c = CHR ''Z'' then replicate (run_length d) 0 else [decode_hexpair c d]) @ unz z"
| "unz _ = []"

lemma unzbuf_unz:
  assumes "even (length z)" and "length buf + length (unz z) \<le> cap"
  shows "unzbuf_loop cap buf (pre @ z @ post) (length pre + length z) (length pre) = Some (buf @ unz z)"
  using assms
proof (induction z arbitrary: pre buf rule: unz.induct)
  case (1 c d z)
  let ?out = "if c = CHR ''Z'' then replicate (run_length d) 0 else [decode_hexpair c d]"
  have "aget (pre @ (c # d # z) @ post) (int (length pre)) = Some c" by (simp add: aget_nat)
  moreover have "aget (pre @ (c # d # z) @ post) (int (length pre) + 1) = Some d"
    using aget_nat [of "length pre + 1" "pre @ (c # d # z) @ post"] by (simp add: nth_append add.commute)
  moreover have "unzbuf_loop cap (buf @ ?out) ((pre @ [c, d]) @ z @ post) (length (pre @ [c, d]) + length z) (length (pre @ [c, d]))
      = Some ((buf @ ?out) @ unz z)"
    by (rule 1(1)) (use 1(2,3) in auto)
  ultimately show ?case using 1(3)
    by (subst unzbuf_loop.simps) (simp add: Let_def)
qed (simp_all add: unzbuf_loop.simps)

lemma zero_run_spec:
  assumes "i + 15 < length mem" and "1 \<le> j" and "j \<le> 16" and "\<forall>k < j. mem ! (i + k) = 0"
  shows "\<exists>r. zero_run mem i j = Some r \<and> j \<le> r \<and> r \<le> 16 \<and> (\<forall>k < r. mem ! (i + k) = 0)"
  using assms(2-4)
proof (induction "16 - j" arbitrary: j)
  case 0
  then have "zero_run mem i j = Some j" by (subst zero_run.simps) simp
  with 0 show ?case by blast
next
  case (Suc n)
  then have j: "j < 16" by simp
  then have a: "aget mem (int (i + j)) = Some (mem ! (i + j))" using assms(1) by (intro aget_nat) simp
  show ?case
  proof (cases "mem ! (i + j) = 0")
    case True
    have "\<forall>k < j + 1. mem ! (i + k) = 0" using Suc.prems(3) True by (auto simp: less_Suc_eq)
    moreover have "n = 16 - (j + 1)" using Suc.hyps(2) by simp
    ultimately obtain r where
      "zero_run mem i (j + 1) = Some r" "j + 1 \<le> r" "r \<le> 16" "\<forall>k < r. mem ! (i + k) = 0"
      using Suc.hyps(1) [of "j + 1"] j by auto
    then show ?thesis using True a j by (auto simp: zero_run.simps [of mem i j])
  next
    case False
    then show ?thesis using a j Suc.prems by (auto simp: zero_run.simps [of mem i j])
  qed
qed

lemma unz_hex: "unz (hexbyte (drop_bit 4 b AND 0xf) # hexbyte (b AND 0xf) # z) = b # unz z"
proof -
  have "unhex (CHR ''Z'') = - 1" by (simp add: unhex_def is_digit_def)
  then have "hexbyte (drop_bit 4 b AND 0xf) \<noteq> CHR ''Z''" using hexpair_roundtrip(2) [of "drop_bit 4 b"] by auto
  then show ?thesis by (simp add: hexpair_roundtrip)
qed

lemma run_length_of: "j \<le> 16 \<Longrightarrow> run_length (char_of (65 + j)) = j"
  by (simp add: run_length_def)

lemma zbuf_loop_spec:
  assumes "i \<le> datalen" and "datalen + 15 \<le> length mem"
  shows "\<exists>z k. zbuf_loop mem datalen i = Some z \<and> unz z = take (datalen - i) (drop i mem) @ replicate k 0 \<and> k \<le> 15
    \<and> even (length z) \<and> length z \<le> 2 * (datalen - i) \<and> (k = 0 \<or> mem ! (datalen - 1) = 0 \<and> mem ! datalen = 0)
    \<and> take k (drop datalen mem) = replicate k 0"
  using assms(1)
proof (induction "datalen - i" arbitrary: i rule: less_induct)
  case less
  show ?case
  proof (cases "i = datalen")
    case True
    then have "zbuf_loop mem datalen i = Some []" by (subst zbuf_loop.simps) simp
    then show ?thesis using True by (intro exI [of _ "[]"] exI [of _ 0]) simp
  next
    case False
    then have i: "i < datalen" "i < length mem" using less.prems assms(2) by auto
    then have a: "aget mem (int i) = Some (mem ! i)" by (simp add: aget_nat)
    have dr: "take (datalen - i) (drop i mem) = mem ! i # take (datalen - (i + 1)) (drop (i + 1) mem)"
      using i by (simp add: Cons_nth_drop_Suc [symmetric] take_Cons' Suc_diff_Suc)
    show ?thesis
    proof (cases "mem ! i = 0")
      case False
      have "datalen - (i + 1) < datalen - i" "i + 1 \<le> datalen" using i by auto
      from less.hyps [OF this] obtain z k where z: "zbuf_loop mem datalen (i + 1) = Some z"
        "unz z = take (datalen - (i + 1)) (drop (i + 1) mem) @ replicate k 0" "k \<le> 15" "even (length z)" "length z \<le> 2 * (datalen - (i + 1))"
          "k = 0 \<or> mem ! (datalen - 1) = 0 \<and> mem ! datalen = 0" "take k (drop datalen mem) = replicate k 0"
        by auto
      let ?z = "hexbyte (drop_bit 4 (mem ! i) AND 0xf) # hexbyte (mem ! i AND 0xf) # z"
      have "zbuf_loop mem datalen i = Some ?z" using False a i z(1) by (simp add: zbuf_loop.simps [of mem datalen i])
      moreover have "unz ?z = take (datalen - i) (drop i mem) @ replicate k 0" unfolding unz_hex dr z(2) by simp
      moreover have "length ?z \<le> 2 * (datalen - i)" "even (length ?z)" using z(4,5) i by auto
      ultimately show ?thesis using z(3,6,7) by blast
    next
      case True
      from zero_run_spec [of i mem 1] i assms(2) True obtain r where r: "zero_run mem i 1 = Some r" "1 \<le> r" "r \<le> 16"
        "\<forall>k < r. mem ! (i + k) = 0" by auto
      have loop: "zbuf_loop mem datalen i = do { z \<leftarrow> zbuf_loop mem datalen (i + r); Some (CHR ''Z'' # char_of (65 + r) # z) }"
        using True a i r(1,2) by (simp add: zbuf_loop.simps [of mem datalen i])
      have uz: "unz (CHR ''Z'' # char_of (65 + r) # z) = replicate r 0 @ unz z" for z
        by (simp add: run_length_of [OF r(3)])
      define m where "m = min r (datalen - i)"
      have zs: "take m (drop i mem) = replicate m 0"
        using r(4) i assms(2) by (intro nth_equalityI) (auto simp: m_def)
      show ?thesis
      proof (cases "i + r \<le> datalen")
        case True
        then have m: "m = r" by (simp add: m_def)
        have "datalen - (i + r) < datalen - i" using r(2) i by simp
        from less.hyps [OF this True] obtain z k where z: "zbuf_loop mem datalen (i + r) = Some z"
          "unz z = take (datalen - (i + r)) (drop (i + r) mem) @ replicate k 0" "k \<le> 15" "even (length z)" "length z \<le> 2 * (datalen - (i + r))"
          "k = 0 \<or> mem ! (datalen - 1) = 0 \<and> mem ! datalen = 0" "take k (drop datalen mem) = replicate k 0"
          by auto
        have "take (datalen - i) (drop i mem) = take r (drop i mem) @ take (datalen - (i + r)) (drop (i + r) mem)"
          using take_add [of r "datalen - (i + r)" "drop i mem"] True by (simp add: add.commute)
        then have "unz (CHR ''Z'' # char_of (65 + r) # z) = take (datalen - i) (drop i mem) @ replicate k 0"
          unfolding uz z(2) using zs m by simp
        moreover have "length (CHR ''Z'' # char_of (65 + r) # z) \<le> 2 * (datalen - i)" "even (length (CHR ''Z'' # char_of (65 + r) # z))"
          using z(4,5) r(2) True by auto
        ultimately show ?thesis using loop z(1,3,6,7) by auto
      next
        case False
        then have "zbuf_loop mem datalen (i + r) = Some []" by (simp add: zbuf_loop.simps [of mem datalen "i + r"])
        moreover have "unz [CHR ''Z'', char_of (65 + r)] = take (datalen - i) (drop i mem) @ replicate (i + r - datalen) 0"
        proof -
          have "m = datalen - i" "r = m + (i + r - datalen)" using False i by (auto simp: m_def)
          then show ?thesis using uz [of "[]"] zs by (metis append_Nil2 replicate_add unz.simps(2))
        qed
        moreover have "mem ! (datalen - 1) = 0" "mem ! datalen = 0"
          using r(4) [rule_format, of "datalen - 1 - i"] r(4) [rule_format, of "datalen - i"] False i by simp_all
        moreover have "take (i + r - datalen) (drop datalen mem) = replicate (i + r - datalen) 0"
        proof (rule nth_equalityI)
          show l: "length (take (i + r - datalen) (drop datalen mem)) = length (replicate (i + r - datalen) (0 :: u8))"
            using r(3) i assms(2) False by auto
          show "take (i + r - datalen) (drop datalen mem) ! q = replicate (i + r - datalen) 0 ! q" if "q < length (take (i + r - datalen) (drop datalen mem))" for q
            using that r(4) [rule_format, of "datalen - i + q"] i assms(2) by auto
        qed
        ultimately show ?thesis using loop r(3) i by (intro exI [of _ "[CHR ''Z'', char_of (65 + r)]"] exI [of _ "i + r - datalen"]) auto
      qed
    qed
  qed
qed

text \<open>A message that does not end in a zero byte comes out exactly as it went in.\<close>

lemma zbuf_exact:
  assumes "15 \<le> length behind" and "data \<noteq> []" and "last data \<noteq> 0" and "length data \<le> cap"
  shows "\<exists>z. pangea_zbuf (data @ behind) (length data) = Some z \<and> pangea_unzbuf cap (z @ CHR 0x00 # rest) (length z) = Some data"
proof -
  from zbuf_loop_spec [of 0 "length data" "data @ behind"] assms(1) obtain z k where
    z: "zbuf_loop (data @ behind) (length data) 0 = Some z" "unz z = data @ replicate k 0" "even (length z)"
      "k = 0 \<or> (data @ behind) ! (length data - 1) = 0"
    by auto
  have "(data @ behind) ! (length data - 1) = last data" using assms(2) by (simp add: nth_append last_conv_nth)
  with z(4) assms(3) have "unz z = data" using z(2) by simp
  then have "pangea_unzbuf cap (z @ CHR 0x00 # rest) (length z) = Some data"
    using unzbuf_unz [OF z(3), of "[]" cap "[]" "CHR 0x00 # rest"] assms(4) by (simp add: pangea_unzbuf_def)
  with z(1) show ?thesis by (auto simp: pangea_zbuf_def)
qed

text \<open>
  C35. The encoding of \<open>preflop\<close> messages. When 15 bytes behind the data can be read, \<open>pangea_zbuf\<close> writes at most two
  characters per byte, and \<open>pangea_unzbuf\<close>, into a buffer with 15 spare bytes, gives back the data and \<open>k\<close> of the bytes behind them,
  all zeros. If the last byte of the data or the one behind it is not zero, \<open>k\<close> is 0 and the data come back exactly; else
  up to 15 zeros can follow, and the data that arrive can be longer than those that were sent.
\<close>

theorem zbuf_roundtrip:
  assumes "15 \<le> length behind" and "length data + 15 \<le> cap"
  shows "\<exists>z k. pangea_zbuf (data @ behind) (length data) = Some z \<and> length z \<le> 2 * length data \<and> k \<le> 15
    \<and> pangea_unzbuf cap (z @ CHR 0x00 # rest) (length z) = Some (data @ take k behind) \<and> take k behind = replicate k 0
    \<and> (data = [] \<or> last data \<noteq> 0 \<or> hd behind \<noteq> 0 \<longrightarrow> k = 0)"
proof -
  from zbuf_loop_spec [of 0 "length data" "data @ behind"] assms(1) obtain z k where
    z: "zbuf_loop (data @ behind) (length data) 0 = Some z" "unz z = data @ replicate k 0" "k \<le> 15" "even (length z)" "length z \<le> 2 * length data"
      "k = 0 \<or> (data @ behind) ! (length data - 1) = 0 \<and> (data @ behind) ! length data = 0" "take k (drop (length data) (data @ behind)) = replicate k 0"
      "data = [] \<longrightarrow> k = 0"
    by (cases "data = []") (auto simp: zbuf_loop.simps [of behind 0 0])
  have b: "behind \<noteq> []" using assms(1) by auto
  have "(data @ behind) ! length data = hd behind" using b by (simp add: nth_append hd_conv_nth)
  moreover have "(data @ behind) ! (length data - 1) = last data" if "data \<noteq> []" using that by (simp add: nth_append last_conv_nth)
  ultimately have "data = [] \<or> last data \<noteq> 0 \<or> hd behind \<noteq> 0 \<longrightarrow> k = 0" using z(6,8) by auto
  moreover have "pangea_unzbuf cap (z @ CHR 0x00 # rest) (length z) = Some (unz z)"
    using unzbuf_unz [OF z(4), of "[]" cap "[]" "CHR 0x00 # rest"] z(2,3) assms(2) by (simp add: pangea_unzbuf_def)
  ultimately show ?thesis using z(1-3,5,7) by (auto simp: pangea_zbuf_def)
qed

theorem zbuf_roundtrip_witness:
  "\<exists>z. pangea_zbuf ([1, 0, 0, 7] @ replicate 15 0) 4 = Some z \<and> pangea_unzbuf 19 (z @ [CHR 0x00]) (length z) = Some [1, 0, 0, 7]"
proof -
  obtain z k where "pangea_zbuf ([1, 0, 0, 7] @ replicate 15 0) (length [1, 0, 0, 7 :: u8]) = Some z"
     "pangea_unzbuf 19 (z @ [CHR 0x00]) (length z) = Some ([1, 0, 0, 7] @ take k (replicate 15 0))" "k = 0"
    using zbuf_roundtrip [of "replicate 15 0" "[1, 0, 0, 7]" 19 "[]"] by auto
  then show ?thesis by (intro exI [of _ z]) (simp add: eval_nat_numeral)
qed

lemma unzbuf_flood:
  assumes "cap < length buf + 61 * n" and "length buf \<le> cap"
  shows "unzbuf_loop cap buf (pre @ concat (replicate n ''Z~'')) (length pre + 2 * n) (length pre) = None"
  using assms
proof (induction n arbitrary: pre buf)
  case (Suc n)
  let ?s = "pre @ concat (replicate (Suc n) ''Z~'')"
  have "aget ?s (int (length pre)) = Some (CHR ''Z'')" by (simp add: aget_nat)
  moreover have "aget ?s (int (length pre) + 1) = Some (CHR ''~'')"
    using aget_nat [of "length pre + 1" ?s] by (simp add: nth_append add.commute)
  moreover have "run_length (CHR ''~'') = 61" by (simp add: run_length_def)
  ultimately have u: "unzbuf_loop cap buf ?s (length pre + 2 * Suc n) (length pre)
      = (if cap < length buf + 61 then None else unzbuf_loop cap (buf @ replicate 61 0) ?s (length pre + 2 * Suc n) (length pre + 2))"
    by (subst unzbuf_loop.simps) simp
  show ?case
  proof (cases "cap < length buf + 61")
    case False
    with Suc.IH [of "buf @ replicate 61 0" "pre @ ''Z~''"] Suc.prems show ?thesis unfolding u by simp
  qed (use u in simp)
qed simp

text \<open>
  A \<open>preflop\<close> message can write behind the buffer of \<open>pangea_poll\<close>, whatever its size: the
  decoder takes the number of characters from the message, and each pair of characters can stand
  for 61 zeros.
\<close>

theorem unzbuf_overflows:
  "\<exists>hexstr. length hexstr = 2 * (cap + 1) \<and> pangea_unzbuf cap hexstr (length hexstr) = None"
proof -
  let ?s = "concat (replicate (cap + 1) ''Z~'')"
  have "length ?s = 2 * (cap + 1)" by (simp add: length_concat sum_list_replicate)
  moreover have "pangea_unzbuf cap ?s (2 * (cap + 1)) = None"
    using unzbuf_flood [of cap "[]" "cap + 1" "[]"] by (simp add: pangea_unzbuf_def)
  ultimately show ?thesis by metis
qed

end
