(* ===== verification/Huffstream777.thy ===== *)
theory Huffstream777
  imports Bits777
begin

text \<open>
  The bit streams of \<open>plugins/utils/huffstream.c\<close>: a buffer that is written and read bit by bit,
  and the variable-length integer codes on top of it.

  The stream keeps a byte pointer and a mask index beside the bit offset, as the C struct does;
  the invariant \<open>huff_ok\<close> says that they agree. Offsets are natural numbers (the buffers are below
  2 to the 28 bytes, so the 32-bit offsets do not wrap; \<open>hseek\<close> is reduced to 32 bits). \<open>None\<close> is an
  access outside the buffer. Where the C code combines several calls of \<open>hgetbit\<close> in one
  expression they are taken from left to right.
\<close>

section \<open>Streams\<close>

record huffstream =
  hp_ptr :: nat
  hp_buf :: "u8 list"
  hp_bitoffset :: nat
  hp_maski :: nat
  hp_endpos :: nat
  hp_allocsize :: nat

definition huffmasks :: "u8 list" where
  "huffmasks = [1, 2, 4, 8, 16, 32, 64, 128]"

definition huffoppomasks :: "u8 list" where
  "huffoppomasks = [0xfe, 0xfd, 0xfb, 0xf7, 0xef, 0xdf, 0xbf, 0x7f]"

definition init_HUFF :: "huffstream \<Rightarrow> nat \<Rightarrow> u8 list \<Rightarrow> huffstream" where
  "init_HUFF hp allocsize buf = hp\<lparr>hp_buf := buf, hp_ptr := 0, hp_allocsize := allocsize, hp_bitoffset := 0\<rparr>"

definition hconv_bitlen :: "nat \<Rightarrow> nat" where
  "hconv_bitlen bitlen = (let len = bitlen div 8 in if bitlen mod 8 \<noteq> 0 then len + 1 else len)"

definition hupdate_internals :: "huffstream \<Rightarrow> int \<times> huffstream" where
  "hupdate_internals hp =
     (let (retval, hp) = (if hp_bitoffset hp div 8 > hp_allocsize hp
                          then (- 1, hp\<lparr>hp_bitoffset := hp_allocsize hp * 8 - 1\<rparr>) else (0, hp));
          hp = (if hp_bitoffset hp > hp_endpos hp then hp\<lparr>hp_endpos := hp_bitoffset hp\<rparr> else hp)
      in (retval, hp\<lparr>hp_ptr := hp_bitoffset hp div 8, hp_maski := hp_bitoffset hp mod 8\<rparr>))"

datatype seekmode = SEEK_SET | SEEK_CUR | SEEK_END

definition hseek :: "huffstream \<Rightarrow> int \<Rightarrow> seekmode \<Rightarrow> int \<times> huffstream" where
  "hseek hp offset mode =
     (let base = (case mode of SEEK_END \<Rightarrow> hp_endpos hp | SEEK_SET \<Rightarrow> 0 | SEEK_CUR \<Rightarrow> hp_bitoffset hp);
          (r, hp) = hupdate_internals (hp\<lparr>hp_bitoffset := nat ((offset + int base) mod 2 ^ 32)\<rparr>)
      in if r < 0 then (- 1, hp) else (0, hp))"

definition hrewind :: "huffstream \<Rightarrow> int \<times> huffstream" where
  "hrewind hp = hseek hp 0 SEEK_SET"

definition hclear :: "huffstream \<Rightarrow> bool \<Rightarrow> huffstream option" where
  "hclear hp clearbuf =
     (let (_, hp) = hupdate_internals (hp\<lparr>hp_bitoffset := 0\<rparr>); hp = hp\<lparr>hp_endpos := 0\<rparr>
      in if \<not> clearbuf then Some hp
         else if length (hp_buf hp) < hp_allocsize hp then None
         else Some (hp\<lparr>hp_buf := replicate (hp_allocsize hp) 0 @ drop (hp_allocsize hp) (hp_buf hp)\<rparr>))"

definition hgetbit :: "huffstream \<Rightarrow> (int \<times> huffstream) option" where
  "hgetbit hp =
     (if hp_bitoffset hp < hp_endpos hp
      then do { byte \<leftarrow> aget (hp_buf hp) (int (hp_ptr hp));
                mask \<leftarrow> aget huffmasks (int (hp_maski hp));
                let b = (if byte AND mask \<noteq> 0 then 1 else 0);
                let hp = hp\<lparr>hp_maski := hp_maski hp + 1, hp_bitoffset := hp_bitoffset hp + 1\<rparr>;
                Some (b, if hp_maski hp = 8 then hp\<lparr>hp_maski := 0, hp_ptr := hp_ptr hp + 1\<rparr> else hp) }
      else Some (- 1, hp))"

definition hputbit :: "huffstream \<Rightarrow> bool \<Rightarrow> (int \<times> huffstream) option" where
  "hputbit hp b =
     do { byte \<leftarrow> aget (hp_buf hp) (int (hp_ptr hp));
          mask \<leftarrow> aget huffmasks (int (hp_maski hp));
          oppo \<leftarrow> aget huffoppomasks (int (hp_maski hp));
          buf \<leftarrow> aput (hp_buf hp) (int (hp_ptr hp)) (if b then byte OR mask else byte AND oppo);
          let hp = hp\<lparr>hp_buf := buf, hp_maski := hp_maski hp + 1\<rparr>;
          let hp = (if hp_maski hp \<ge> 8 then hp\<lparr>hp_maski := 0, hp_ptr := hp_ptr hp + 1\<rparr> else hp);
          let hp = hp\<lparr>hp_bitoffset := hp_bitoffset hp + 1\<rparr>;
          let hp = (if hp_bitoffset hp > hp_endpos hp then hp\<lparr>hp_endpos := hp_bitoffset hp\<rparr> else hp);
          Some (if hp_bitoffset hp div 8 \<ge> hp_allocsize hp
                then (- 1, snd (hupdate_internals (hp\<lparr>hp_bitoffset := hp_bitoffset hp - 1\<rparr>)))
                else (0, hp)) }"

fun hwrite_loop :: "nat \<Rightarrow> u64 \<Rightarrow> huffstream \<Rightarrow> (bool \<times> huffstream) option" where
  "hwrite_loop 0 codebits hp = Some (True, hp)"
| "hwrite_loop (Suc n) codebits hp =
     do { (r, hp) \<leftarrow> hputbit hp (codebits AND 1 \<noteq> 0);
          if r < 0 then Some (False, hp) else hwrite_loop n (drop_bit 1 codebits) hp }"

definition hwrite :: "u64 \<Rightarrow> nat \<Rightarrow> huffstream \<Rightarrow> (int \<times> huffstream) option" where
  "hwrite codebits numbits hp =
     do { (done, hp) \<leftarrow> hwrite_loop numbits codebits hp; Some (if done then int numbits else - 1, hp) }"

text \<open>The number of bits read and their value, the first bit on top.\<close>

fun hread_loop :: "nat \<Rightarrow> nat \<Rightarrow> u64 \<Rightarrow> huffstream \<Rightarrow> (nat \<times> u64 \<times> huffstream) option" where
  "hread_loop 0 i codebits hp = Some (i, codebits, hp)"
| "hread_loop (Suc n) i codebits hp =
     do { let codebits = push_bit 1 codebits;
          (b, hp) \<leftarrow> hgetbit hp;
          if b < 0 then Some (i, codebits, hp) else hread_loop n (i + 1) (codebits OR word_of_int b) hp }"

definition hread :: "nat \<Rightarrow> huffstream \<Rightarrow> (nat \<times> u64 \<times> huffstream) option" where
  "hread numbits hp = hread_loop numbits 0 0 hp"

text \<open>\<open>hmemcpy\<close>: copying out of the stream (no source) or into it (a source).\<close>

definition hmemcpy :: "u8 list option \<Rightarrow> huffstream \<Rightarrow> nat \<Rightarrow> (int \<times> u8 list \<times> huffstream) option" where
  "hmemcpy src hp datalen =
     (if hp_bitoffset hp mod 8 \<noteq> 0 \<or> hp_bitoffset hp div 8 + datalen > hp_allocsize hp then Some (- 1, [], hp)
      else if length (hp_buf hp) < hp_ptr hp + datalen then None
      else do { (dest, hp) \<leftarrow>
                  (case src of None \<Rightarrow> Some (take datalen (drop (hp_ptr hp) (hp_buf hp)), hp)
                   | Some bytes \<Rightarrow> if length bytes < datalen then None
                       else Some ([], hp\<lparr>hp_buf := take (hp_ptr hp) (hp_buf hp) @ take datalen bytes
                                              @ drop (hp_ptr hp + datalen) (hp_buf hp)\<rparr>));
                let hp = hp\<lparr>hp_ptr := hp_ptr hp + datalen, hp_bitoffset := hp_bitoffset hp + datalen * 8\<rparr>;
                let hp = (if hp_bitoffset hp > hp_endpos hp then hp\<lparr>hp_endpos := hp_bitoffset hp\<rparr> else hp);
                Some (int datalen, dest, hp) })"

fun bitsize_loop :: "nat \<Rightarrow> u64 \<Rightarrow> int" where
  "bitsize_loop 0 x = - 1"
| "bitsize_loop (Suc i) x = (if push_bit i 1 AND x \<noteq> 0 then int i + 1 else bitsize_loop i x)"

definition hcalc_bitsize :: "u64 \<Rightarrow> int" where
  "hcalc_bitsize x = (if x = 0 then 1 else bitsize_loop 64 x)"

section \<open>Integer codes\<close>

definition hemit_bits :: "huffstream \<Rightarrow> u32 \<Rightarrow> nat \<Rightarrow> (nat \<times> huffstream) option" where
  "hemit_bits hp val numbits =
     do { hp \<leftarrow> ofold (\<lambda>i hp. do { (_, hp) \<leftarrow> hputbit hp (val AND push_bit i 1 \<noteq> 0); Some hp }) [0..<numbits] hp;
          Some (numbits, hp) }"

definition hdecode_bits :: "huffstream \<Rightarrow> nat \<Rightarrow> (nat \<times> u32 \<times> huffstream) option" where
  "hdecode_bits hp numbits =
     do { (val, hp) \<leftarrow> ofold (\<lambda>i (val, hp). do { (b, hp) \<leftarrow> hgetbit hp;
                                               Some (if b \<noteq> 0 then val OR push_bit i 1 else val, hp) })
                        [0..<numbits] (0, hp);
          Some (numbits, val, hp) }"

text \<open>A tag and a value.\<close>

definition emit_tagged :: "huffstream \<Rightarrow> u32 \<Rightarrow> nat \<Rightarrow> u32 \<Rightarrow> nat \<Rightarrow> (nat \<times> huffstream) option" where
  "emit_tagged hp tag taglen val numbits =
     do { (n, hp) \<leftarrow> hemit_bits hp tag taglen; (m, hp) \<leftarrow> hemit_bits hp val numbits; Some (n + m, hp) }"

definition hemit_smallbits :: "huffstream \<Rightarrow> u16 \<Rightarrow> (nat \<times> huffstream) option" where
  "hemit_smallbits hp val =
     (if val \<ge> 4
      then if val < 2 ^ 5 then emit_tagged hp 4 3 (ucast val) 5
           else if val < 2 ^ 8 then emit_tagged hp 5 3 (ucast val) 8
           else if val < 2 ^ 12 then emit_tagged hp 6 3 (ucast val) 12
           else emit_tagged hp 7 3 (ucast val) 16
      else hemit_bits hp (ucast val) 3)"

definition hcalc_smallsize :: "u16 \<Rightarrow> nat" where
  "hcalc_smallsize val =
     (if val \<ge> 4
      then if val < 2 ^ 5 then 8 else if val < 2 ^ 8 then 11 else if val < 2 ^ 12 then 15 else 19
      else 3)"

text \<open>Several bits combined in one expression, the first as the lowest.\<close>

fun getbits :: "nat \<Rightarrow> nat \<Rightarrow> huffstream \<Rightarrow> (int \<times> huffstream) option" where
  "getbits 0 i hp = Some (0, hp)"
| "getbits (Suc n) i hp =
     do { (b, hp) \<leftarrow> hgetbit hp; (v, hp) \<leftarrow> getbits n (i + 1) hp; Some (push_bit i b OR v, hp) }"

definition hdecode_smallbits :: "huffstream \<Rightarrow> (nat \<times> u16 \<times> huffstream) option" where
  "hdecode_smallbits hp =
     do { (val, hp) \<leftarrow> getbits 3 0 hp;
          if val < 4 then Some (3, word_of_int val, hp)
          else do { (n, s, hp) \<leftarrow> hdecode_bits hp (if val = 4 then 5 else if val = 5 then 8 else if val = 6 then 12 else 16);
                    Some (3 + n, ucast s, hp) } }"

definition hemit_varbits :: "huffstream \<Rightarrow> u32 \<Rightarrow> (nat \<times> huffstream) option" where
  "hemit_varbits hp val =
     (if val \<ge> 10
      then if val < 2 ^ 8 then emit_tagged hp 10 4 val 8
           else if val < 2 ^ 10 then emit_tagged hp 11 4 val 10
           else if val < 2 ^ 13 then emit_tagged hp 12 4 val 13
           else if val < 2 ^ 16 then emit_tagged hp 13 4 val 16
           else if val < 2 ^ 20 then emit_tagged hp 14 4 val 20
           else emit_tagged hp 15 4 val 32
      else hemit_bits hp val 4)"

definition hdecode_varbits :: "huffstream \<Rightarrow> (nat \<times> u32 \<times> huffstream) option" where
  "hdecode_varbits hp =
     do { (val, hp) \<leftarrow> getbits 4 0 hp;
          if val < 10 then Some (4, word_of_int val, hp)
          else do { (n, v, hp) \<leftarrow> hdecode_bits hp (if val = 10 then 8 else if val = 11 then 10 else if val = 12 then 13
                                                  else if val = 13 then 16 else if val = 14 then 20 else 32);
                    Some (4 + n, v, hp) } }"

definition hemit_svarbits :: "huffstream \<Rightarrow> u32 \<Rightarrow> (nat \<times> huffstream) option" where
  "hemit_svarbits hp val =
     (if val < 2 ^ 16 then do { (_, hp) \<leftarrow> hputbit hp False; hemit_smallbits hp (ucast val) }
      else do { (_, hp) \<leftarrow> hputbit hp True; hemit_varbits hp val })"

definition hdecode_svarbits :: "huffstream \<Rightarrow> (nat \<times> u32 \<times> huffstream) option" where
  "hdecode_svarbits hp =
     do { (b, hp) \<leftarrow> hgetbit hp;
          if b = 0 then do { (n, sval, hp) \<leftarrow> hdecode_smallbits hp; Some (n, ucast sval, hp) }
          else hdecode_varbits hp }"

definition hemit_valuebits :: "huffstream \<Rightarrow> u64 \<Rightarrow> (nat \<times> huffstream) option" where
  "hemit_valuebits hp v =
     do { (n, hp) \<leftarrow> hemit_varbits hp (ucast (v AND 0xffffffff));
          (m, hp) \<leftarrow> hemit_varbits hp (ucast (drop_bit 32 v AND 0xffffffff));
          Some (n + m, hp) }"

definition hdecode_valuebits :: "huffstream \<Rightarrow> (nat \<times> u64 \<times> huffstream) option" where
  "hdecode_valuebits hp =
     do { (n, a, hp) \<leftarrow> hdecode_varbits hp; (m, b, hp) \<leftarrow> hdecode_varbits hp;
          Some (n + m, ucast a OR push_bit 32 (ucast b), hp) }"

section \<open>What a stream holds\<close>

definition hbit :: "huffstream \<Rightarrow> nat \<Rightarrow> bool" where
  "hbit hp k \<longleftrightarrow> bit (hp_buf hp ! (k div 8)) (k mod 8)"

definition huff_ok :: "huffstream \<Rightarrow> bool" where
  "huff_ok hp \<longleftrightarrow> hp_ptr hp = hp_bitoffset hp div 8 \<and> hp_maski hp = hp_bitoffset hp mod 8
     \<and> hp_bitoffset hp < 8 * hp_allocsize hp \<and> hp_allocsize hp \<le> length (hp_buf hp)
     \<and> hp_bitoffset hp \<le> hp_endpos hp \<and> hp_allocsize hp < 2 ^ 28"

text \<open>The stream \<open>hp'\<close> is \<open>hp\<close> after the bits \<open>bs\<close> have been written at the current position.\<close>

definition wrote :: "huffstream \<Rightarrow> bool list \<Rightarrow> huffstream \<Rightarrow> bool" where
  "wrote hp bs hp' \<longleftrightarrow> huff_ok hp' \<and> hp_allocsize hp' = hp_allocsize hp
     \<and> hp_bitoffset hp' = hp_bitoffset hp + length bs
     \<and> hp_endpos hp' = max (hp_endpos hp) (hp_bitoffset hp')
     \<and> (\<forall>k < 8 * hp_allocsize hp. hbit hp' k =
          (if hp_bitoffset hp \<le> k \<and> k < hp_bitoffset hp + length bs then bs ! (k - hp_bitoffset hp) else hbit hp k))"

text \<open>The next bits of a stream, and the stream behind them.\<close>

definition next_bits :: "huffstream \<Rightarrow> bool list \<Rightarrow> bool" where
  "next_bits hp bs \<longleftrightarrow> huff_ok hp \<and> hp_bitoffset hp + length bs < 8 * hp_allocsize hp
     \<and> hp_bitoffset hp + length bs \<le> hp_endpos hp \<and> (\<forall>k < length bs. hbit hp (hp_bitoffset hp + k) = bs ! k)"

definition skip_bits :: "nat \<Rightarrow> huffstream \<Rightarrow> huffstream" where
  "skip_bits n hp = hp\<lparr>hp_bitoffset := hp_bitoffset hp + n, hp_ptr := (hp_bitoffset hp + n) div 8,
                       hp_maski := (hp_bitoffset hp + n) mod 8\<rparr>"

lemma masks: "i < 8 \<Longrightarrow> huffmasks ! i = push_bit i 1 \<and> huffoppomasks ! i = NOT (push_bit i 1)"
proof -
  have "\<forall>i \<in> set [0..<8]. huffmasks ! i = push_bit i 1 \<and> huffoppomasks ! i = NOT (push_bit i 1)" by code_simp
  then show "i < 8 \<Longrightarrow> huffmasks ! i = push_bit i 1 \<and> huffoppomasks ! i = NOT (push_bit i 1)" by simp
qed

lemma and_bit_iff: "(val :: 'a::len word) AND push_bit i 1 \<noteq> 0 \<longleftrightarrow> bit val i"
proof
  assume "val AND push_bit i 1 \<noteq> 0"
  then obtain k where "bit (val AND push_bit i 1) k" by (metis bit_eqI bit_0_eq bot_apply bot_bool_def)
  then show "bit val i" by (auto simp: bit_and_iff bit_push_bit_iff bit_1_iff bit_exp_iff)
next
  assume "bit val i"
  moreover from this have "i < LENGTH('a)" by (rule bit_imp_le_length)
  ultimately have "bit (val AND push_bit i 1) i" by (simp add: bit_and_iff bit_push_bit_iff bit_1_iff bit_exp_iff)
  then show "val AND push_bit i 1 \<noteq> 0" by auto
qed

lemma next_byte: "Suc n mod 8 = (if Suc (n mod 8) = 8 then 0 else Suc (n mod 8))"
    "Suc n div 8 = (if Suc (n mod 8) = 8 then Suc (n div 8) else n div 8)"
  by presburger+

lemma hputbit_ok:
  assumes "huff_ok hp" and "hp_bitoffset hp + 1 < 8 * hp_allocsize hp"
  shows "\<exists>hp'. hputbit hp b = Some (0, hp') \<and> wrote hp [b] hp'"
proof -
  define p where "p = hp_bitoffset hp div 8"
  define m where "m = hp_bitoffset hp mod 8"
  have f: "hp_ptr hp = p" "hp_maski hp = m" "p < length (hp_buf hp)" "m < 8" "p < hp_allocsize hp"
    using assms by (auto simp: huff_ok_def p_def m_def)
  define byte where "byte = hp_buf hp ! p"
  define v where "v = (if b then byte OR push_bit m 1 else byte AND NOT (push_bit m 1))"
  have vb: "bit v k \<longleftrightarrow> (if k = m then b else bit byte k)" if "k < 8" for k
    using that f(4) by (auto simp: v_def bit_or_iff bit_and_iff bit_not_iff bit_push_bit_iff bit_1_iff bit_exp_iff)
  define hp' where "hp' = hp\<lparr>hp_buf := (hp_buf hp)[p := v], hp_maski := (hp_bitoffset hp + 1) mod 8,
     hp_ptr := (hp_bitoffset hp + 1) div 8, hp_bitoffset := hp_bitoffset hp + 1,
     hp_endpos := max (hp_endpos hp) (hp_bitoffset hp + 1)\<rparr>"
  have m8: "length huffmasks = 8" "length huffoppomasks = 8" by (simp_all add: huffmasks_def huffoppomasks_def)
  have "\<not> hp_allocsize hp \<le> (hp_bitoffset hp + 1) div 8" using assms(2) by auto
  then have "hputbit hp b = Some (0, hp')"
    using f masks [OF f(4)] m8
    by (auto simp: hputbit_def aget_nat aput_nat Let_def hp'_def v_def byte_def max_def next_byte p_def [symmetric] m_def [symmetric])
  moreover have "hbit hp' k = (if k = hp_bitoffset hp then b else hbit hp k)" if "k < 8 * hp_allocsize hp" for k
  proof -
    have "k = hp_bitoffset hp \<longleftrightarrow> k div 8 = p \<and> k mod 8 = m" unfolding p_def m_def by (metis div_mult_mod_eq)
    then show ?thesis using vb [of "k mod 8"] f(3) by (auto simp: hbit_def hp'_def byte_def nth_list_update)
  qed
  moreover have "huff_ok hp'" using assms by (auto simp: huff_ok_def hp'_def max_def)
  ultimately show ?thesis by (auto simp: wrote_def hp'_def)
qed

lemma hgetbit_ok:
  assumes "next_bits hp (b # bs)"
  shows "hgetbit hp = Some (if b then 1 else 0, skip_bits 1 hp) \<and> next_bits (skip_bits 1 hp) bs"
proof -
  define p where "p = hp_bitoffset hp div 8"
  define m where "m = hp_bitoffset hp mod 8"
  have f: "hp_ptr hp = p" "hp_maski hp = m" "p < length (hp_buf hp)" "m < 8" "hp_bitoffset hp < hp_endpos hp"
    using assms by (auto simp: next_bits_def huff_ok_def p_def m_def)
  have "hbit hp (hp_bitoffset hp) = b" using assms by (auto simp: next_bits_def)
  then have b: "bit (hp_buf hp ! p) m = b" by (simp add: hbit_def p_def m_def)
  have a: "hp_buf hp ! p AND push_bit m 1 \<noteq> 0 \<longleftrightarrow> b" by (simp only: and_bit_iff b)
  have "length huffmasks = 8" by (simp add: huffmasks_def)
  then have "hgetbit hp = Some (if b then 1 else 0, skip_bits 1 hp)"
    using f masks [OF f(4)] a
    by (auto simp: hgetbit_def aget_nat Let_def skip_bits_def next_byte p_def [symmetric] m_def [symmetric])
  moreover have "next_bits (skip_bits 1 hp) bs"
  proof -
    have "hbit hp (hp_bitoffset hp + 1 + k) = bs ! k" if "k < length bs" for k
      using assms that by (auto simp: next_bits_def dest: spec [of _ "Suc k"])
    then show ?thesis using assms by (auto simp: next_bits_def huff_ok_def skip_bits_def hbit_def)
  qed
  ultimately show ?thesis by blast
qed

section \<open>Writing and reading lists of bits\<close>

lemma wrote_Nil: "huff_ok hp \<Longrightarrow> wrote hp [] hp"
  by (auto simp: wrote_def huff_ok_def)

lemma wrote_append:
  assumes "wrote hp bs h1" and "wrote h1 cs h2"
  shows "wrote hp (bs @ cs) h2"
proof -
  have "hbit h2 k = (if hp_bitoffset hp \<le> k \<and> k < hp_bitoffset hp + length (bs @ cs) then (bs @ cs) ! (k - hp_bitoffset hp) else hbit hp k)"
    if "k < 8 * hp_allocsize hp" for k
    using assms that by (auto simp: wrote_def nth_append)
  then show ?thesis using assms by (auto simp: wrote_def)
qed

lemma wrote_room: "wrote hp bs hp' \<Longrightarrow> huff_ok hp' \<and> hp_allocsize hp' = hp_allocsize hp \<and> hp_bitoffset hp' = hp_bitoffset hp + length bs"
  by (simp add: wrote_def)

lemma ofold_map: "ofold f (map g xs) s = ofold (\<lambda>x. f (g x)) xs s"
  by (induction xs arbitrary: s) (auto cong: Option.bind_cong)

lemma putbits_ok:
  assumes "huff_ok hp" and "hp_bitoffset hp + length bs < 8 * hp_allocsize hp"
  shows "\<exists>hp'. ofold (\<lambda>b hp. do { (_, hp) \<leftarrow> hputbit hp b; Some hp }) bs hp = Some hp' \<and> wrote hp bs hp'"
  using assms
proof (induction bs arbitrary: hp)
  case Nil
  then show ?case by (simp add: wrote_Nil)
next
  case (Cons b bs)
  obtain h1 where 1: "hputbit hp b = Some (0, h1)" "wrote hp [b] h1"
    using hputbit_ok [of hp b] Cons.prems by auto
  from Cons.IH [of h1] wrote_room [OF 1(2)] Cons.prems obtain h2 where
    2: "ofold (\<lambda>b hp. do { (_, hp) \<leftarrow> hputbit hp b; Some hp }) bs h1 = Some h2" "wrote h1 bs h2" by auto
  from wrote_append [OF 1(2) 2(2)] 1(1) 2(1) show ?case by simp
qed

text \<open>The lowest bits of a word, the lowest first.\<close>

definition lsb :: "nat \<Rightarrow> 'a::len word \<Rightarrow> bool list" where
  "lsb n v = map (bit v) [0..<n]"

lemma length_lsb [simp]: "length (lsb n v) = n"
  by (simp add: lsb_def)

lemma hemit_bits_ok:
  assumes "huff_ok hp" and "hp_bitoffset hp + n < 8 * hp_allocsize hp"
  shows "\<exists>hp'. hemit_bits hp val n = Some (n, hp') \<and> wrote hp (lsb n val) hp'"
proof -
  obtain hp' where "ofold (\<lambda>b hp. do { (_, hp) \<leftarrow> hputbit hp b; Some hp }) (lsb n val) hp = Some hp'" "wrote hp (lsb n val) hp'"
    using putbits_ok [of hp "lsb n val"] assms by auto
  then show ?thesis by (simp add: hemit_bits_def and_bit_iff lsb_def ofold_map del: push_bit_of_1)
qed

lemma emit_tagged_ok:
  assumes "huff_ok hp" and "hp_bitoffset hp + (t + n) < 8 * hp_allocsize hp"
  shows "\<exists>hp'. emit_tagged hp tag t val n = Some (t + n, hp') \<and> wrote hp (lsb t tag @ lsb n val) hp'"
proof -
  obtain h1 where 1: "hemit_bits hp tag t = Some (t, h1)" "wrote hp (lsb t tag) h1"
    using hemit_bits_ok [of hp t tag] assms by auto
  obtain h2 where 2: "hemit_bits h1 val n = Some (n, h2)" "wrote h1 (lsb n val) h2"
    using hemit_bits_ok [of h1 n val] wrote_room [OF 1(2)] assms by auto
  show ?thesis using 1(1) 2(1) wrote_append [OF 1(2) 2(2)] by (simp add: emit_tagged_def)
qed

lemma skip_skip: "skip_bits n (skip_bits m hp) = skip_bits (m + n) hp"
  by (simp add: skip_bits_def add.assoc)

lemma skip_0: "huff_ok hp \<Longrightarrow> skip_bits 0 hp = hp"
  by (simp add: skip_bits_def huff_ok_def)

lemma next_bits_append: "next_bits hp (bs @ cs) \<Longrightarrow> next_bits (skip_bits (length bs) hp) cs"
proof (induction bs arbitrary: hp)
  case Nil
  then show ?case by (simp add: skip_0 next_bits_def)
next
  case (Cons b bs)
  then show ?case using hgetbit_ok [of hp b "bs @ cs"] Cons.IH [of "skip_bits 1 hp"] by (simp add: skip_skip)
qed

lemma next_bits_prefix: "next_bits hp (bs @ cs) \<Longrightarrow> next_bits hp bs"
  by (auto simp: next_bits_def nth_append)

lemma getbits_ok:
  "next_bits hp (bs @ cs) \<Longrightarrow> getbits (length bs) i hp = Some (push_bit i (horner_sum of_bool 2 bs), skip_bits (length bs) hp)"
proof (induction bs arbitrary: hp i)
  case Nil
  then show ?case by (simp add: skip_0 next_bits_def)
next
  case (Cons b bs)
  have 1: "hgetbit hp = Some (of_bool b, skip_bits 1 hp)" "next_bits (skip_bits 1 hp) (bs @ cs)"
    using hgetbit_ok [of hp b "bs @ cs"] Cons.prems by simp_all
  let ?v = "horner_sum of_bool 2 bs :: int"
  have "push_bit i (of_bool b) OR push_bit (i + 1) ?v = push_bit i (of_bool b OR push_bit 1 ?v)"
    by (simp add: push_bit_or)
  also have "of_bool b OR push_bit 1 ?v = of_bool b + 2 * ?v"
    by (cases b) (simp_all add: push_bit_eq_mult one_or_eq)
  finally show ?case using 1 Cons.IH [OF 1(2), of "i + 1"] by (simp add: skip_skip)
qed

lemma getbits_lsb:
  "next_bits hp (lsb n (v :: 'a::len word) @ cs) \<Longrightarrow> getbits n 0 hp = Some (take_bit n (uint v), skip_bits n hp)"
proof -
  have "lsb n v = map (bit (uint v)) [0..<n]" by (auto simp: lsb_def bit_uint_iff dest: bit_imp_le_length)
  then have "horner_sum of_bool 2 (lsb n v) = take_bit n (uint v)" by (simp add: horner_sum_bit_eq_take_bit)
  then show "next_bits hp (lsb n v @ cs) \<Longrightarrow> getbits n 0 hp = Some (take_bit n (uint v), skip_bits n hp)"
    using getbits_ok [of hp "lsb n v" cs 0] by simp
qed

lemma take_bit_step: "(if bit v m then take_bit m v OR push_bit m 1 else take_bit m v) = take_bit (Suc m) (v :: 'a::len word)"
  by (rule bit_word_eqI) (auto simp: bit_take_bit_iff bit_or_iff bit_push_bit_iff bit_1_iff bit_exp_iff less_Suc_eq)

lemma hdecode_bits_ok:
  assumes "next_bits hp (lsb n v @ cs)"
  shows "hdecode_bits hp n = Some (n, take_bit n v, skip_bits n hp)"
proof -
  let ?f = "\<lambda>i (val, hp). do { (b, hp) \<leftarrow> hgetbit hp; Some (if b \<noteq> 0 then val OR push_bit i 1 else val, hp) }"
  have "m \<le> n \<Longrightarrow> ofold ?f [0..<m] (0 :: u32, hp) = Some (take_bit m v, skip_bits m hp)" for m
  proof (induction m)
    case 0
    then show ?case using assms by (simp add: skip_0 next_bits_def)
  next
    case (Suc m)
    have "[0..<n] = [0..<m] @ m # [Suc m..<n]"
      using upt_add_eq_append [of 0 m "n - m"] upt_conv_Cons [of m n] Suc.prems by simp
    then have "lsb n v = lsb m v @ bit v m # map (bit v) [Suc m..<n]" by (simp add: lsb_def)
    then have "next_bits (skip_bits m hp) (bit v m # map (bit v) [Suc m..<n] @ cs)"
      using next_bits_append [of hp "lsb m v" "bit v m # map (bit v) [Suc m..<n] @ cs"] assms by simp
    from hgetbit_ok [OF this] Suc show ?case
      using take_bit_step [of v m] by (auto simp: ofold_append skip_skip simp del: push_bit_of_1)
  qed
  from this [of n] show ?thesis by (simp add: hdecode_bits_def)
qed

section \<open>Integer codes\<close>

lemma take_bit_small: "(v :: 'a::len word) < 2 ^ n \<Longrightarrow> n < LENGTH('a) \<Longrightarrow> take_bit n v = v"
  by (simp add: take_bit_eq_mod mod_word_less)

lemma tagged_decode:
  assumes "next_bits hp ((lsb t (tag :: u32) @ lsb n val) @ cs)"
  shows "getbits t 0 hp = Some (take_bit t (uint tag), skip_bits t hp)"
    and "hdecode_bits (skip_bits t hp) n = Some (n, take_bit n val, skip_bits (t + n) hp)"
proof -
  show "getbits t 0 hp = Some (take_bit t (uint tag), skip_bits t hp)"
    using getbits_lsb [of hp t tag "lsb n val @ cs"] assms by simp
  have "next_bits (skip_bits t hp) (lsb n val @ cs)"
    using next_bits_append [of hp "lsb t tag" "lsb n val @ cs"] assms by simp
  from hdecode_bits_ok [OF this] show "hdecode_bits (skip_bits t hp) n = Some (n, take_bit n val, skip_bits (t + n) hp)"
    by (simp add: skip_skip)
qed

definition small_code :: "u16 \<Rightarrow> bool list" where
  "small_code val =
     (if val \<ge> 4
      then if val < 2 ^ 5 then lsb 3 (4 :: u32) @ lsb 5 (ucast val :: u32)
           else if val < 2 ^ 8 then lsb 3 (5 :: u32) @ lsb 8 (ucast val :: u32)
           else if val < 2 ^ 12 then lsb 3 (6 :: u32) @ lsb 12 (ucast val :: u32)
           else lsb 3 (7 :: u32) @ lsb 16 (ucast val :: u32)
      else lsb 3 (ucast val :: u32))"

definition var_code :: "u32 \<Rightarrow> bool list" where
  "var_code val =
     (if val \<ge> 10
      then if val < 2 ^ 8 then lsb 4 (10 :: u32) @ lsb 8 val
           else if val < 2 ^ 10 then lsb 4 (11 :: u32) @ lsb 10 val
           else if val < 2 ^ 13 then lsb 4 (12 :: u32) @ lsb 13 val
           else if val < 2 ^ 16 then lsb 4 (13 :: u32) @ lsb 16 val
           else if val < 2 ^ 20 then lsb 4 (14 :: u32) @ lsb 20 val
           else lsb 4 (15 :: u32) @ lsb 32 val
      else lsb 4 val)"

definition svar_code :: "u32 \<Rightarrow> bool list" where
  "svar_code val = (if val < 2 ^ 16 then False # small_code (ucast val) else True # var_code val)"

definition value_code :: "u64 \<Rightarrow> bool list" where
  "value_code v = var_code (ucast v) @ var_code (ucast (drop_bit 32 v))"

text \<open>
  The contract of a code for integers in a bit stream: emitting a value writes its code words at
  the current position, and decoding a stream that goes on with a code word returns the value and
  moves behind the word.
\<close>

locale stream_code =
  fixes emit :: "huffstream \<Rightarrow> 'v \<Rightarrow> (nat \<times> huffstream) option"
    and decode :: "huffstream \<Rightarrow> (nat \<times> 'v \<times> huffstream) option"
    and code :: "'v \<Rightarrow> bool list"
  assumes emit_law: "huff_ok hp \<Longrightarrow> hp_bitoffset hp + length (code v) < 8 * hp_allocsize hp \<Longrightarrow>
      \<exists>n hp'. emit hp v = Some (n, hp') \<and> wrote hp (code v) hp'"
    and decode_law: "next_bits hp (code v @ bs) \<Longrightarrow> \<exists>n. decode hp = Some (n, v, skip_bits (length (code v)) hp)"

fun emit_all :: "(huffstream \<Rightarrow> 'v \<Rightarrow> (nat \<times> huffstream) option) \<Rightarrow> 'v list \<Rightarrow> huffstream \<Rightarrow> huffstream option" where
  "emit_all emit [] hp = Some hp"
| "emit_all emit (v # vs) hp = do { (_, hp) \<leftarrow> emit hp v; emit_all emit vs hp }"

fun decode_all :: "(huffstream \<Rightarrow> (nat \<times> 'v \<times> huffstream) option) \<Rightarrow> nat \<Rightarrow> huffstream \<Rightarrow> 'v list option" where
  "decode_all decode 0 hp = Some []"
| "decode_all decode (Suc n) hp = do { (_, v, hp) \<leftarrow> decode hp; vs \<leftarrow> decode_all decode n hp; Some (v # vs) }"

definition seek_to :: "nat \<Rightarrow> huffstream \<Rightarrow> huffstream" where
  "seek_to p hp = hp\<lparr>hp_bitoffset := p, hp_ptr := p div 8, hp_maski := p mod 8\<rparr>"

lemma hseek_back:
  assumes "huff_ok hp" and "p \<le> hp_bitoffset hp"
  shows "hseek hp (int p) SEEK_SET = (0, seek_to p hp)"
proof -
  have "p < 2 ^ 31" using assms by (auto simp: huff_ok_def)
  then have "nat (int p mod 2 ^ 32) = p" by simp
  moreover have "\<not> p div 8 > hp_allocsize hp" "p \<le> hp_endpos hp" using assms by (auto simp: huff_ok_def)
  ultimately show ?thesis by (simp add: hseek_def hupdate_internals_def Let_def seek_to_def)
qed

lemma seek_next_bits:
  assumes "huff_ok hp" and "wrote hp bs hp'" and "hp_bitoffset hp + length bs < 8 * hp_allocsize hp"
  shows "next_bits (snd (hseek hp' (int (hp_bitoffset hp)) SEEK_SET)) bs"
proof -
  have "hp_bitoffset hp \<le> hp_bitoffset hp'" "huff_ok hp'" using assms(2) by (auto simp: wrote_def)
  then have "snd (hseek hp' (int (hp_bitoffset hp)) SEEK_SET) = seek_to (hp_bitoffset hp) hp'" by (simp add: hseek_back)
  moreover have "next_bits (seek_to (hp_bitoffset hp) hp') bs"
    using assms by (auto simp: next_bits_def wrote_def seek_to_def huff_ok_def hbit_def)
  ultimately show ?thesis by simp
qed

context stream_code
begin

lemma emit_all_ok:
  assumes "huff_ok hp" and "hp_bitoffset hp + length (concat (map code vs)) < 8 * hp_allocsize hp"
  shows "\<exists>hp'. emit_all emit vs hp = Some hp' \<and> wrote hp (concat (map code vs)) hp'"
  using assms
proof (induction vs arbitrary: hp)
  case Nil
  then show ?case by (simp add: wrote_Nil)
next
  case (Cons v vs)
  then obtain n h1 where 1: "emit hp v = Some (n, h1)" "wrote hp (code v) h1"
    using emit_law [of hp v] by auto
  from Cons.IH [of h1] wrote_room [OF 1(2)] Cons.prems obtain h2 where
    2: "emit_all emit vs h1 = Some h2" "wrote h1 (concat (map code vs)) h2" by auto
  from 1(1) 2(1) wrote_append [OF 1(2) 2(2)] show ?case by simp
qed

lemma decode_all_ok: "next_bits hp (concat (map code vs)) \<Longrightarrow> decode_all decode (length vs) hp = Some vs"
proof (induction vs arbitrary: hp)
  case (Cons v vs)
  then obtain n where "decode hp = Some (n, v, skip_bits (length (code v)) hp)"
    using decode_law [of hp v] by auto
  moreover have "next_bits (skip_bits (length (code v)) hp) (concat (map code vs))"
    using next_bits_append [of hp "code v"] Cons.prems by simp
  ultimately show ?case using Cons.IH by simp
qed simp

lemma roundtrip:
  assumes "huff_ok hp" and "hp_bitoffset hp + length (concat (map code vs)) < 8 * hp_allocsize hp"
  shows "\<exists>hp'. emit_all emit vs hp = Some hp' \<and> huff_ok hp'
    \<and> decode_all decode (length vs) (snd (hseek hp' (int (hp_bitoffset hp)) SEEK_SET)) = Some vs"
proof -
  obtain hp' where h: "emit_all emit vs hp = Some hp'" "wrote hp (concat (map code vs)) hp'"
    using emit_all_ok [OF assms] by blast
  from decode_all_ok [OF seek_next_bits [OF assms(1) h(2) assms(2)]] h show ?thesis by (simp add: wrote_def)
qed

end

lemma emit_ex:
  "huff_ok hp \<Longrightarrow> hp_bitoffset hp + (t + n) < 8 * hp_allocsize hp \<Longrightarrow>
     \<exists>m hp'. emit_tagged hp tag t val n = Some (m, hp') \<and> wrote hp (lsb t tag @ lsb n val) hp'"
  "huff_ok hp \<Longrightarrow> hp_bitoffset hp + n < 8 * hp_allocsize hp \<Longrightarrow>
     \<exists>m hp'. hemit_bits hp val n = Some (m, hp') \<and> wrote hp (lsb n val) hp'"
  using emit_tagged_ok hemit_bits_ok by blast+

lemma small_emit:
  assumes "huff_ok hp" and "hp_bitoffset hp + length (small_code v) < 8 * hp_allocsize hp"
  shows "\<exists>n hp'. hemit_smallbits hp v = Some (n, hp') \<and> wrote hp (small_code v) hp'"
  using assms unfolding hemit_smallbits_def small_code_def by (auto intro!: emit_ex split: if_splits)

lemma var_emit:
  assumes "huff_ok hp" and "hp_bitoffset hp + length (var_code v) < 8 * hp_allocsize hp"
  shows "\<exists>n hp'. hemit_varbits hp v = Some (n, hp') \<and> wrote hp (var_code v) hp'"
  using assms unfolding hemit_varbits_def var_code_def by (auto intro!: emit_ex split: if_splits)

lemma u16_via_u32: "(v :: u16) < 2 ^ n \<or> n = 16 \<Longrightarrow> n \<le> 16 \<Longrightarrow> ucast (take_bit n (ucast v :: u32)) = v"
proof -
  assume v: "v < 2 ^ n \<or> n = 16" and n: "n \<le> 16"
  have "(ucast (take_bit n (ucast v :: u32)) :: u16) = take_bit n v"
    by (rule bit_word_eqI) (auto simp: bit_ucast_iff bit_take_bit_iff)
  moreover have "take_bit n v = v"
  proof (cases "n = 16")
    case True
    then show ?thesis by (intro bit_word_eqI) (simp add: bit_take_bit_iff)
  next
    case False
    then show ?thesis using v n by (intro take_bit_small) auto
  qed
  ultimately show ?thesis by simp
qed

lemma small_code_cases:
  obtains (tagged) tag n where "tag \<in> {(4 :: u32, 5), (5, 8), (6, 12), (7, 16 :: nat)}" "n = snd tag"
      "small_code v = lsb 3 (fst tag) @ lsb n (ucast v :: u32)" "v < 2 ^ n \<or> n = 16"
    | (plain) "small_code v = lsb 3 (ucast v :: u32)" "v < 4"
proof (cases "4 \<le> v")
  case True
  consider "v < 2 ^ 5" | "\<not> v < 2 ^ 5" "v < 2 ^ 8" | "\<not> v < 2 ^ 5" "\<not> v < 2 ^ 8" "v < 2 ^ 12" | "\<not> v < 2 ^ 5" "\<not> v < 2 ^ 8" "\<not> v < 2 ^ 12" by blast
  then show ?thesis
  proof cases
    case 1
    with True show ?thesis by (intro tagged [of "(4, 5)" 5]) (simp_all add: small_code_def)
  next
    case 2
    with True show ?thesis by (intro tagged [of "(5, 8)" 8]) (simp_all add: small_code_def)
  next
    case 3
    with True show ?thesis by (intro tagged [of "(6, 12)" 12]) (simp_all add: small_code_def)
  next
    case 4
    with True show ?thesis by (intro tagged [of "(7, 16)" 16]) (simp_all add: small_code_def)
  qed
next
  case False
  then have "small_code v = lsb 3 (ucast v :: u32)" unfolding small_code_def by (rule if_not_P)
  with False show ?thesis by (intro plain) simp_all
qed

lemma small_decode:
  assumes "next_bits hp (small_code v @ bs)"
  shows "\<exists>n. hdecode_smallbits hp = Some (n, v, skip_bits (length (small_code v)) hp)"
proof -
  show ?thesis
  proof (cases rule: small_code_cases [of v])
    case (tagged tag n)
    have "next_bits hp ((lsb 3 (fst tag) @ lsb n (ucast v :: u32)) @ bs)" using assms tagged by simp
    note d = tagged_decode [OF this]
    have v: "ucast (take_bit n (ucast v :: u32)) = v" using tagged by (intro u16_via_u32) auto
    have l: "length (small_code v) = 3 + n" by (simp add: tagged(3))
    from tagged(1,2) show ?thesis using d v unfolding l by (auto simp: hdecode_smallbits_def)
  next
    case plain
    have "take_bit 3 (uint (ucast v :: u32)) = uint v"
      using plain(2) by (simp add: take_bit_eq_mod unsigned_ucast_eq word_less_def)
    moreover have "uint v < 4" using plain(2) by (simp add: word_less_def)
    ultimately show ?thesis using getbits_lsb [of hp 3 "ucast v :: u32" bs] assms plain(1) by (simp add: hdecode_smallbits_def)
  qed
qed

lemma var_code_cases:
  obtains (tagged) tag n where "tag \<in> {(10 :: u32, 8), (11, 10), (12, 13), (13, 16), (14, 20), (15, 32 :: nat)}" "n = snd tag"
      "var_code v = lsb 4 (fst tag) @ lsb n v" "v < 2 ^ n \<or> n = 32"
    | (plain) "var_code v = lsb 4 v" "v < 10"
proof (cases "10 \<le> v")
  case True
  consider "v < 2 ^ 8" | "\<not> v < 2 ^ 8" "v < 2 ^ 10" | "\<not> v < 2 ^ 8" "\<not> v < 2 ^ 10" "v < 2 ^ 13" | "\<not> v < 2 ^ 8" "\<not> v < 2 ^ 10" "\<not> v < 2 ^ 13" "v < 2 ^ 16" | "\<not> v < 2 ^ 8" "\<not> v < 2 ^ 10" "\<not> v < 2 ^ 13" "\<not> v < 2 ^ 16" "v < 2 ^ 20" | "\<not> v < 2 ^ 8" "\<not> v < 2 ^ 10" "\<not> v < 2 ^ 13" "\<not> v < 2 ^ 16" "\<not> v < 2 ^ 20" by blast
  then show ?thesis
  proof cases
    case 1
    with True show ?thesis by (intro tagged [of "(10, 8)" 8]) (simp_all add: var_code_def)
  next
    case 2
    with True show ?thesis by (intro tagged [of "(11, 10)" 10]) (simp_all add: var_code_def)
  next
    case 3
    with True show ?thesis by (intro tagged [of "(12, 13)" 13]) (simp_all add: var_code_def)
  next
    case 4
    with True show ?thesis by (intro tagged [of "(13, 16)" 16]) (simp_all add: var_code_def)
  next
    case 5
    with True show ?thesis by (intro tagged [of "(14, 20)" 20]) (simp_all add: var_code_def)
  next
    case 6
    with True show ?thesis by (intro tagged [of "(15, 32)" 32]) (simp_all add: var_code_def)
  qed
next
  case False
  then have "var_code v = lsb 4 v" unfolding var_code_def by (rule if_not_P)
  with False show ?thesis by (intro plain) simp_all
qed

lemma var_decode:
  assumes "next_bits hp (var_code v @ bs)"
  shows "\<exists>n. hdecode_varbits hp = Some (n, v, skip_bits (length (var_code v)) hp)"
proof -
  show ?thesis
  proof (cases rule: var_code_cases [of v])
    case (tagged tag n)
    have "next_bits hp ((lsb 4 (fst tag) @ lsb n v) @ bs)" using assms tagged by simp
    note d = tagged_decode [OF this]
    have v: "take_bit n v = v"
    proof (cases "n = 32")
      case True
      then show ?thesis by (intro bit_word_eqI) (simp add: bit_take_bit_iff)
    next
      case False
      then show ?thesis using tagged by (intro take_bit_small) auto
    qed
    have l: "length (var_code v) = 4 + n" by (simp add: tagged(3))
    from tagged(1,2) show ?thesis using d v unfolding l by (auto simp: hdecode_varbits_def)
  next
    case plain
    have "take_bit 4 (uint v) = uint v" "uint v < 10"
      using plain(2) by (simp_all add: take_bit_eq_mod word_less_def)
    then show ?thesis using getbits_lsb [of hp 4 v bs] assms plain(1) by (simp add: hdecode_varbits_def)
  qed
qed

interpretation small: stream_code hemit_smallbits hdecode_smallbits small_code
  by unfold_locales (use small_emit small_decode in blast)+

interpretation var: stream_code hemit_varbits hdecode_varbits var_code
  by unfold_locales (use var_emit var_decode in blast)+

lemma svar_emit:
  assumes "huff_ok hp" and "hp_bitoffset hp + length (svar_code v) < 8 * hp_allocsize hp"
  shows "\<exists>n hp'. hemit_svarbits hp v = Some (n, hp') \<and> wrote hp (svar_code v) hp'"
proof -
  define b where "b = (\<not> v < 2 ^ 16)"
  obtain h1 where 1: "hputbit hp b = Some (0, h1)" "wrote hp [b] h1"
    using hputbit_ok [of hp b] assms by (auto simp: svar_code_def split: if_splits)
  note r = wrote_room [OF 1(2)]
  show ?thesis
  proof (cases b)
    case True
    then obtain n h2 where "hemit_varbits h1 v = Some (n, h2)" "wrote h1 (var_code v) h2"
      using var_emit [of h1 v] r assms by (auto simp: svar_code_def b_def)
    then show ?thesis using True 1 wrote_append [OF 1(2)] by (auto simp: hemit_svarbits_def svar_code_def b_def)
  next
    case False
    then obtain n h2 where "hemit_smallbits h1 (ucast v) = Some (n, h2)" "wrote h1 (small_code (ucast v)) h2"
      using small_emit [of h1 "ucast v"] r assms by (auto simp: svar_code_def b_def)
    then show ?thesis using False 1 wrote_append [OF 1(2)] by (auto simp: hemit_svarbits_def svar_code_def b_def)
  qed
qed

lemma svar_decode:
  assumes "next_bits hp (svar_code v @ bs)"
  shows "\<exists>n. hdecode_svarbits hp = Some (n, v, skip_bits (length (svar_code v)) hp)"
proof (cases "v < 2 ^ 16")
  case True
  then have "next_bits hp (False # small_code (ucast v) @ bs)" using assms by (simp add: svar_code_def)
  note g = hgetbit_ok [OF this]
  obtain n where "hdecode_smallbits (skip_bits 1 hp) = Some (n, ucast v, skip_bits (length (small_code (ucast v))) (skip_bits 1 hp))"
    using small_decode [of "skip_bits 1 hp" "ucast v" bs] g by blast
  moreover have "(ucast (ucast v :: u16) :: u32) = v"
  proof -
    have "(ucast (ucast v :: u16) :: u32) = take_bit 16 v" by (rule bit_word_eqI) (auto simp: bit_ucast_iff bit_take_bit_iff)
    then show ?thesis using take_bit_small [of v 16] True by simp
  qed
  ultimately show ?thesis using g True by (simp add: hdecode_svarbits_def svar_code_def skip_skip)
next
  case False
  then have "next_bits hp (True # var_code v @ bs)" using assms by (simp add: svar_code_def)
  note g = hgetbit_ok [OF this]
  obtain n where "hdecode_varbits (skip_bits 1 hp) = Some (n, v, skip_bits (length (var_code v)) (skip_bits 1 hp))"
    using var_decode [of "skip_bits 1 hp" v bs] g by blast
  then show ?thesis using g False by (simp add: hdecode_svarbits_def svar_code_def skip_skip)
qed

interpretation svar: stream_code hemit_svarbits hdecode_svarbits svar_code
  by unfold_locales (use svar_emit svar_decode in blast)+

lemma low_half: "(ucast (v AND 0xffffffff) :: u32) = ucast (v :: u64)"
proof -
  have "v AND 0xffffffff = take_bit 32 v" by (simp add: take_bit_eq_mask mask_eq_exp_minus_1)
  then show ?thesis by (intro bit_word_eqI) (simp add: bit_ucast_iff bit_take_bit_iff)
qed

lemma halves: "(ucast (ucast v :: u32) :: u64) OR push_bit 32 (ucast (ucast (drop_bit 32 v) :: u32)) = v"
  by (rule bit_word_eqI) (auto simp: bit_or_iff bit_push_bit_iff bit_ucast_iff bit_drop_bit_eq)

lemma value_emit:
  assumes "huff_ok hp" and "hp_bitoffset hp + length (value_code v) < 8 * hp_allocsize hp"
  shows "\<exists>n hp'. hemit_valuebits hp v = Some (n, hp') \<and> wrote hp (value_code v) hp'"
proof -
  obtain n h1 where 1: "hemit_varbits hp (ucast v) = Some (n, h1)" "wrote hp (var_code (ucast v)) h1"
    using var_emit [of hp "ucast v"] assms by (auto simp: value_code_def)
  obtain m h2 where 2: "hemit_varbits h1 (ucast (drop_bit 32 v)) = Some (m, h2)" "wrote h1 (var_code (ucast (drop_bit 32 v))) h2"
    using var_emit [of h1 "ucast (drop_bit 32 v)"] wrote_room [OF 1(2)] assms by (auto simp: value_code_def)
  show ?thesis using 1(1) 2(1) wrote_append [OF 1(2) 2(2)] by (simp add: hemit_valuebits_def low_half value_code_def)
qed

lemma value_decode:
  assumes "next_bits hp (value_code v @ bs)"
  shows "\<exists>n. hdecode_valuebits hp = Some (n, v, skip_bits (length (value_code v)) hp)"
proof -
  have a: "next_bits hp (var_code (ucast v) @ var_code (ucast (drop_bit 32 v)) @ bs)" using assms by (simp add: value_code_def)
  obtain n where 1: "hdecode_varbits hp = Some (n, ucast v, skip_bits (length (var_code (ucast v))) hp)" using var_decode [OF a] by blast
  obtain m where 2: "hdecode_varbits (skip_bits (length (var_code (ucast v))) hp)
      = Some (m, ucast (drop_bit 32 v), skip_bits (length (value_code v)) hp)"
    using var_decode [OF next_bits_append [OF a]] by (auto simp: skip_skip value_code_def)
  show ?thesis using 1 2 halves [of v] by (simp add: hdecode_valuebits_def)
qed

interpretation value_bits: stream_code hemit_valuebits hdecode_valuebits value_code
  by unfold_locales (use value_emit value_decode in blast)+

section \<open>Properties\<close>

text \<open>
  C34. The integer codes can be undone: any list of 32-bit numbers written with \<open>hemit_svarbits\<close> and
  any list of 64-bit values written with \<open>hemit_valuebits\<close> at some position of a stream with room
  for them are read back, after seeking to that position, by \<open>hdecode_svarbits\<close> and
  \<open>hdecode_valuebits\<close>.
\<close>

theorem integer_codes_roundtrip:
  assumes "huff_ok hp" and "hp_bitoffset hp + length (concat (map svar_code us)) < 8 * hp_allocsize hp"
    and "hp_bitoffset hp + length (concat (map value_code vs)) < 8 * hp_allocsize hp"
  shows "(\<exists>hp'. emit_all hemit_svarbits us hp = Some hp' \<and> huff_ok hp'
      \<and> decode_all hdecode_svarbits (length us) (snd (hseek hp' (int (hp_bitoffset hp)) SEEK_SET)) = Some us)
    \<and> (\<exists>hp'. emit_all hemit_valuebits vs hp = Some hp' \<and> huff_ok hp'
      \<and> decode_all hdecode_valuebits (length vs) (snd (hseek hp' (int (hp_bitoffset hp)) SEEK_SET)) = Some vs)"
  using svar.roundtrip [OF assms(1,2)] value_bits.roundtrip [OF assms(1,3)] by blast

definition demo_stream :: huffstream where
  "demo_stream = \<lparr>hp_ptr = 0, hp_buf = replicate 40 0, hp_bitoffset = 0, hp_maski = 0, hp_endpos = 0, hp_allocsize = 40\<rparr>"

theorem integer_codes_roundtrip_witness:
  "\<exists>hp'. emit_all hemit_valuebits [5, 0x100000003] demo_stream = Some hp'
     \<and> decode_all hdecode_valuebits 2 (snd (hseek hp' 0 SEEK_SET)) = Some [5, 0x100000003]"
proof -
  have "huff_ok demo_stream" "hp_bitoffset demo_stream = 0" "hp_allocsize demo_stream = 40"
    by (simp_all add: huff_ok_def demo_stream_def)
  moreover have "length (concat (map value_code [5, 0x100000003])) < 320"
    by (simp add: value_code_def var_code_def drop_bit_eq_div)
  ultimately show ?thesis
    using integer_codes_roundtrip [of demo_stream "[]" "[5, 0x100000003]"] by (auto simp: numeral_2_eq_2)
qed

lemma hread_loop_ok:
  "next_bits hp (bs @ cs) \<Longrightarrow> hread_loop (length bs) i acc hp
     = Some (i + length bs, fold (\<lambda>b c. push_bit 1 c OR (if b then 1 else 0)) bs acc, skip_bits (length bs) hp)"
proof (induction bs arbitrary: hp i acc)
  case Nil
  then show ?case by (simp add: skip_0 next_bits_def)
next
  case (Cons b bs)
  have 1: "hgetbit hp = Some (if b then 1 else 0, skip_bits 1 hp)" "next_bits (skip_bits 1 hp) (bs @ cs)"
    using hgetbit_ok [of hp b "bs @ cs"] Cons.prems by simp_all
  show ?case using 1(1) Cons.IH [OF 1(2)] by (cases b) (simp_all add: Let_def skip_skip)
qed

lemma bit_shift_in: "bit (push_bit 1 c OR (if b then 1 else 0) :: u64) k \<longleftrightarrow> k < 64 \<and> (case k of 0 \<Rightarrow> b | Suc j \<Rightarrow> bit c j)"
  unfolding bit_or_iff bit_push_bit_iff by (auto simp: bit_1_iff possible_bit_def split: nat.split)

lemma bit_fold_msb:
  "length bs \<le> 64 \<Longrightarrow> bit (fold (\<lambda>b c. push_bit 1 c OR (if b then 1 else 0)) bs (0 :: u64)) k
     \<longleftrightarrow> k < length bs \<and> bs ! (length bs - 1 - k)"
proof (induction bs arbitrary: k rule: rev_induct)
  case (snoc b bs)
  let ?c = "fold (\<lambda>b c. push_bit 1 c OR (if b then 1 else 0)) bs (0 :: u64)"
  have f: "fold (\<lambda>b c. push_bit 1 c OR (if b then 1 else 0)) (bs @ [b]) (0 :: u64) = push_bit 1 ?c OR (if b then 1 else 0)"
    by (simp only: fold_append fold_simps comp_apply)
  show ?case
  proof (cases k)
    case 0
    then show ?thesis unfolding f bit_shift_in by (simp only: nat.case) simp
  next
    case (Suc j)
    have "bit ?c j \<longleftrightarrow> j < length bs \<and> bs ! (length bs - 1 - j)" using snoc by simp
    then show ?thesis unfolding f bit_shift_in Suc nat.case using snoc.prems by (auto simp: nth_append)
  qed
qed simp

lemma hwrite_loop_ok:
  assumes "huff_ok hp" and "hp_bitoffset hp + n < 8 * hp_allocsize hp"
  shows "\<exists>hp'. hwrite_loop n x hp = Some (True, hp') \<and> wrote hp (lsb n x) hp'"
  using assms
proof (induction n arbitrary: x hp)
  case 0
  then show ?case by (simp add: lsb_def wrote_Nil)
next
  case (Suc n)
  have b: "x AND 1 \<noteq> 0 \<longleftrightarrow> bit x 0" using and_bit_iff [of x 0] by simp
  obtain h1 where 1: "hputbit hp (bit x 0) = Some (0, h1)" "wrote hp [bit x 0] h1"
    using hputbit_ok [of hp "bit x 0"] Suc.prems by auto
  from Suc.IH [of h1 "drop_bit 1 x"] wrote_room [OF 1(2)] Suc.prems obtain h2 where
    2: "hwrite_loop n (drop_bit 1 x) h1 = Some (True, h2)" "wrote h1 (lsb n (drop_bit 1 x)) h2" by auto
  have "lsb (Suc n) x = [bit x 0] @ lsb n (drop_bit 1 x)"
    by (simp add: lsb_def upt_conv_Cons map_Suc_upt [symmetric] bit_drop_bit_eq comp_def del: upt_Suc)
  then show ?case using 1(1) 2(1) wrote_append [OF 1(2) 2(2)] by (auto simp: b)
qed

text \<open>
  \<open>hread\<close> does not undo \<open>hwrite\<close>: the writer starts with the lowest bit and the reader takes the
  first bit as the highest, so up to 64 bits come back in reverse order.
\<close>

theorem hread_reverses_hwrite:
  assumes "huff_ok hp" and "hp_bitoffset hp + n < 8 * hp_allocsize hp" and "n \<le> 64"
  shows "\<exists>hp' x' hp''. hwrite x n hp = Some (int n, hp')
    \<and> hread n (snd (hseek hp' (int (hp_bitoffset hp)) SEEK_SET)) = Some (n, x', hp'')
    \<and> (\<forall>k. bit x' k \<longleftrightarrow> k < n \<and> bit x (n - 1 - k))"
proof -
  obtain hp' where h: "hwrite_loop n x hp = Some (True, hp')" "wrote hp (lsb n x) hp'"
    using hwrite_loop_ok [OF assms(1,2)] by blast
  let ?h = "snd (hseek hp' (int (hp_bitoffset hp)) SEEK_SET)" and ?x = "fold (\<lambda>b c. push_bit 1 c OR (if b then 1 else 0)) (lsb n x) (0 :: u64)"
  have "next_bits ?h (lsb n x @ [])" using seek_next_bits [OF assms(1) h(2)] assms(2) by simp
  from hread_loop_ok [OF this, of 0 0] have "hread n ?h = Some (n, ?x, skip_bits n ?h)" by (simp add: hread_def)
  moreover have "bit ?x k \<longleftrightarrow> k < n \<and> bit x (n - 1 - k)" for k
    using bit_fold_msb [of "lsb n x" k] assms(3) by (auto simp: lsb_def)
  moreover have "hwrite x n hp = Some (int n, hp')" using h(1) by (simp add: hwrite_def)
  ultimately show ?thesis by blast
qed

theorem hread_reverses_hwrite_witness:
  "\<exists>hp' x' hp''. hwrite 1 3 demo_stream = Some (3, hp') \<and> hread 3 (snd (hseek hp' 0 SEEK_SET)) = Some (3, x', hp'') \<and> bit x' 2"
proof -
  have "huff_ok demo_stream" "hp_bitoffset demo_stream = 0" "hp_allocsize demo_stream = 40"
    by (simp_all add: huff_ok_def demo_stream_def)
  then obtain hp' x' hp'' where "hwrite 1 3 demo_stream = Some (3, hp')" "hread 3 (snd (hseek hp' 0 SEEK_SET)) = Some (3, x', hp'')"
      "\<forall>k. bit x' k \<longleftrightarrow> k < 3 \<and> bit (1 :: u64) (3 - 1 - k)"
    using hread_reverses_hwrite [of demo_stream 3 1] by auto
  then show ?thesis by auto
qed

text \<open>
  A full stream leads outside its buffer: writing the last bit reports an error but leaves the
  end of the stream behind that bit; one bit can then be read, and the next write goes to the byte
  behind the buffer.
\<close>

theorem full_stream_writes_outside:
  assumes "huff_ok hp" and "hp_bitoffset hp + 1 = 8 * hp_allocsize hp" and "length (hp_buf hp) = hp_allocsize hp"
    and "hp_endpos hp \<le> 8 * hp_allocsize hp"
  shows "\<exists>h1 r h2. hputbit hp b = Some (- 1, h1) \<and> hgetbit h1 = Some (r, h2) \<and> 0 \<le> r \<and> hputbit h2 c = None"
proof -
  obtain p where p: "hp_allocsize hp = p + 1" using assms(2) by (cases "hp_allocsize hp") auto
  then have o: "hp_bitoffset hp = 8 * p + 7" using assms(2) by simp
  then have "hp_bitoffset hp div 8 = p" "hp_bitoffset hp mod 8 = 7" by simp_all
  then have m: "hp_ptr hp = p" "hp_maski hp = 7" "p + 1 = hp_allocsize hp" "hp_bitoffset hp = 8 * p + 7"
    using assms(1) p o by (simp_all add: huff_ok_def)
  define v where "v = (if b then hp_buf hp ! p OR huffmasks ! 7 else hp_buf hp ! p AND huffoppomasks ! 7)"
  define h1 where "h1 = hp\<lparr>hp_buf := (hp_buf hp)[p := v], hp_endpos := 8 * p + 8\<rparr>"
  have l: "length huffmasks = 8" "length huffoppomasks = 8" by (simp_all add: huffmasks_def huffoppomasks_def)
  have e: "hp_endpos hp \<le> 8 * p + 8" using assms(4) p by simp
  have "aget (hp_buf hp) (int p) = Some (hp_buf hp ! p)" "aput (hp_buf hp) (int p) v = Some ((hp_buf hp)[p := v])"
    "aget huffmasks 7 = Some (huffmasks ! 7)" "aget huffoppomasks 7 = Some (huffoppomasks ! 7)"
    using p assms(3) l by (simp_all add: aget_def aput_def)
  then have "hputbit hp b = Some (- 1, h1)"
    using m(1,2,4) p e by (cases "hp_endpos hp = 8 * p + 8") (simp_all add: hputbit_def Let_def v_def hupdate_internals_def h1_def)
  moreover obtain r h2 where "hgetbit h1 = Some (r, h2)" "0 \<le> r" "hp_ptr h2 = p + 1" "length (hp_buf h2) = p + 1"
    using m(1,2,4) p assms(3) l by (simp add: hgetbit_def h1_def aget_def Let_def)
  moreover from this(3,4) have "aget (hp_buf h2) (int (hp_ptr h2)) = None" by (simp add: aget_None_iff)
  then have "hputbit h2 c = None" by (simp add: hputbit_def)
  ultimately show ?thesis by blast
qed

theorem full_stream_writes_outside_witness:
  "\<exists>h1 r h2. hputbit \<lparr>hp_ptr = 0, hp_buf = [0], hp_bitoffset = 7, hp_maski = 7, hp_endpos = 7, hp_allocsize = 1\<rparr> True = Some (- 1, h1)
     \<and> hgetbit h1 = Some (r, h2) \<and> 0 \<le> r \<and> hputbit h2 False = None"
  using full_stream_writes_outside [of "\<lparr>hp_ptr = 0, hp_buf = [0], hp_bitoffset = 7, hp_maski = 7, hp_endpos = 7, hp_allocsize = 1\<rparr>" True False]
  by (simp add: huff_ok_def)

lemma bitsize_loop_spec:
  assumes "x \<noteq> 0" and "\<forall>k. i \<le> k \<longrightarrow> \<not> bit x k"
  shows "\<exists>n. bitsize_loop i x = int n + 1 \<and> bit x n \<and> (\<forall>k. n < k \<longrightarrow> \<not> bit x k)"
  using assms(2)
proof (induction i)
  case 0
  then have "x = 0" by (intro bit_word_eqI) simp
  with assms(1) show ?case by simp
next
  case (Suc i)
  have a: "push_bit i 1 AND x \<noteq> 0 \<longleftrightarrow> bit x i" using and_bit_iff [of x i] by (simp only: and.commute)
  show ?case
  proof (cases "bit x i")
    case True
    then show ?thesis using a Suc.prems by (intro exI [of _ i]) (auto simp del: push_bit_of_1)
  next
    case False
    then have "\<forall>k. i \<le> k \<longrightarrow> \<not> bit x k" using Suc.prems by (metis Suc_leI le_neq_implies_less)
    with Suc.IH a False show ?thesis by (simp del: push_bit_of_1)
  qed
qed

text \<open>
  \<open>hcalc_bitsize\<close> is the length of a number in binary: the number fits into that many bits and,
  unless it is zero, into no fewer.
\<close>

theorem bitsize_is_binary_length:
  "\<exists>n. hcalc_bitsize x = int n \<and> 0 < n \<and> unat x < 2 ^ n \<and> (x = 0 \<or> 2 ^ (n - 1) \<le> unat x)"
proof (cases "x = 0")
  case False
  have "\<forall>k. 64 \<le> k \<longrightarrow> \<not> bit x k" by (auto dest: bit_imp_le_length)
  from bitsize_loop_spec [OF False this] obtain n where n: "bitsize_loop 64 x = int n + 1" "bit x n" "\<forall>k. n < k \<longrightarrow> \<not> bit x k" by blast
  have "take_bit (Suc n) (unat x) = unat x"
    using n(3) by (intro bit_eqI) (auto simp: bit_take_bit_iff bit_unsigned_iff less_Suc_eq_le not_less [symmetric])
  then have "unat x < 2 ^ Suc n" by (metis take_bit_nat_less_exp)
  moreover have "2 ^ n \<le> unat x"
  proof -
    have "bit (unat x) n" using n(2) by (auto simp: bit_unsigned_iff dest: bit_imp_le_length)
    then show ?thesis by (metis bit_iff_odd div_less even_zero not_le)
  qed
  ultimately show ?thesis using False n(1) by (intro exI [of _ "Suc n"]) (simp add: hcalc_bitsize_def)
qed (auto simp: hcalc_bitsize_def intro: exI [of _ 1])

end
