(* ===== verification/Ramcoder777.thy ===== *)
theory Ramcoder777
  imports Huffstream777 Complex_Main
begin

text \<open>
  The adaptive arithmetic coder of \<open>plugins/utils/ramcoder.c\<close>, through which \<open>hostnet777\<close> sends
  every message: 257 symbols (the bytes and an end mark), 16-bit interval bounds, and cumulative
  frequencies that are halved when their sum reaches 2 to the 14.

  The fields of the coder are words of the widths of the C struct. \<open>None\<close> is an access outside an
  array, a division by zero or a loop that never ends. Console output is left out.
\<close>

section \<open>The coder\<close>

record ramcoder =
  rc_cumulativeProb :: u32
  rc_lower :: u16
  rc_upper :: u16
  rc_code :: u16
  rc_underflowBits :: u16
  rc_lastsymbol :: u16
  rc_upper_lastsymbol :: u16
  rc_counter :: u16
  rc_ranges :: "u16 list"

definition RAMMASK_BIT :: "nat \<Rightarrow> u16" where
  "RAMMASK_BIT x = push_bit (16 - (1 + x)) 1"

definition RAMCODER_FINALIZE :: nat where "RAMCODER_FINALIZE = 1"
definition RAMCODER_PUTBITS :: nat where "RAMCODER_PUTBITS = 2"
definition RAMCODER_MAXSYMBOLS :: u16 where "RAMCODER_MAXSYMBOLS = 0x100"

text \<open>
  The seed raises the initial frequency of a symbol; \<open>sizeof(seed)\<close> is the size of a pointer, so
  only the first 64 symbols are raised.
\<close>

definition seed_weight :: "u8 list \<Rightarrow> nat \<Rightarrow> u16" where
  "seed_weight seed i = 1 + 256 * (if i \<le> 64 \<and> GETBIT seed (i - 1) \<noteq> 0 then 1 else 0)"

definition init_ranges :: "u8 list \<Rightarrow> nat \<Rightarrow> u16 list \<Rightarrow> u16 list option" where
  "init_ranges seed i ranges =
     do { r \<leftarrow> aget ranges (int i - 1); aput ranges (int i) (r + seed_weight seed i) }"

definition init_total :: "u16 list \<Rightarrow> nat \<Rightarrow> u32 \<Rightarrow> u32 option" where
  "init_total ranges i cum =
     do { a \<leftarrow> aget ranges (int i); b \<leftarrow> aget ranges (int i - 1); Some (cum + (ucast a - ucast b)) }"

definition init_code :: "nat \<Rightarrow> u16 \<times> huffstream \<Rightarrow> (u16 \<times> huffstream) option" where
  "init_code i s = (case s of (code, hp) \<Rightarrow>
     do { (b, hp) \<leftarrow> hgetbit hp; Some (push_bit 1 code OR word_of_int b, hp) })"

definition init_ramcoder ::
    "ramcoder \<Rightarrow> huffstream option \<Rightarrow> u8 list \<Rightarrow> (ramcoder \<times> huffstream option) option" where
  "init_ramcoder coder hp seed =
     do { let coder = (if rc_lastsymbol coder = 0
                       then coder\<lparr>rc_lastsymbol := RAMCODER_MAXSYMBOLS, rc_upper_lastsymbol := RAMCODER_MAXSYMBOLS + 1\<rparr>
                       else coder);
          let lst = unat (rc_upper_lastsymbol coder);
          ranges \<leftarrow> aput (rc_ranges coder) 0 0;
          ranges \<leftarrow> ofold (init_ranges seed) [1..<lst + 1] ranges;
          cum \<leftarrow> ofold (init_total ranges) [1..<lst + 1] 0;
          let coder = coder\<lparr>rc_cumulativeProb := cum, rc_lower := 0, rc_code := 0, rc_underflowBits := 0,
                            rc_ranges := ranges, rc_upper := 0xffff\<rparr>;
          case hp of None \<Rightarrow> Some (coder, None)
          | Some hp \<Rightarrow> do { (code, hp) \<leftarrow> ofold init_code [0..<16] (0, hp);
                            Some (coder\<lparr>rc_code := code\<rparr>, Some hp) } }"

section \<open>Bits in and out\<close>

definition ramcoder_state :: "ramcoder \<Rightarrow> int" where
  "ramcoder_state coder =
     (if rc_upper coder AND RAMMASK_BIT 0 = rc_lower coder AND RAMMASK_BIT 0 then 0
      else if rc_lower coder AND RAMMASK_BIT 1 \<noteq> 0 \<and> rc_upper coder AND RAMMASK_BIT 1 = 0 then 1
      else - 1)"

definition ramcoder_normalize :: "ramcoder \<Rightarrow> ramcoder" where
  "ramcoder_normalize coder =
     coder\<lparr>rc_lower := rc_lower coder AND NOT (RAMMASK_BIT 0 OR RAMMASK_BIT 1),
           rc_upper := rc_upper coder OR RAMMASK_BIT 1\<rparr>"

definition ramcoder_shiftbits :: "ramcoder \<Rightarrow> ramcoder" where
  "ramcoder_shiftbits coder =
     coder\<lparr>rc_lower := push_bit 1 (rc_lower coder), rc_upper := push_bit 1 (rc_upper coder) OR 1\<rparr>"

definition put_many :: "nat \<Rightarrow> bool \<Rightarrow> huffstream \<Rightarrow> huffstream option" where
  "put_many n b hp = ofold (\<lambda>b hp. do { (_, hp) \<leftarrow> hputbit hp b; Some hp }) (replicate n b) hp"

partial_function (option) ramcoder_putbits ::
    "nat \<Rightarrow> huffstream \<Rightarrow> ramcoder \<Rightarrow> bool \<Rightarrow> (nat \<times> huffstream \<times> ramcoder) option" where
  "ramcoder_putbits numbits hp coder flushflag =
     (if ramcoder_state coder = 1
      then let coder = ramcoder_normalize (coder\<lparr>rc_underflowBits := rc_underflowBits coder + 1\<rparr>)
           in ramcoder_putbits numbits hp (ramcoder_shiftbits coder) flushflag
      else if ramcoder_state coder = 0
      then do { let msb = (rc_upper coder AND RAMMASK_BIT 0 \<noteq> 0);
                (_, hp) \<leftarrow> hputbit hp msb;
                hp \<leftarrow> put_many (unat (rc_underflowBits coder)) (\<not> msb) hp;
                ramcoder_putbits (numbits + 1 + unat (rc_underflowBits coder)) hp
                  (ramcoder_shiftbits (coder\<lparr>rc_underflowBits := 0\<rparr>)) flushflag }
      else if flushflag
      then do { let b = (rc_lower coder AND RAMMASK_BIT 1 \<noteq> 0);
                (_, hp) \<leftarrow> hputbit hp b;
                hp \<leftarrow> put_many (unat (rc_underflowBits coder + 1)) (\<not> b) hp;
                Some (numbits + 1 + unat (rc_underflowBits coder + 1), hp, coder\<lparr>rc_underflowBits := 0\<rparr>) }
      else Some (numbits, hp, coder))"

partial_function (option) ramcoder_getbits ::
    "nat \<Rightarrow> huffstream \<Rightarrow> ramcoder \<Rightarrow> (nat \<times> huffstream \<times> ramcoder) option" where
  "ramcoder_getbits numbits hp coder =
     (if ramcoder_state coder \<noteq> 0 \<and> ramcoder_state coder \<noteq> 1 then Some (numbits, hp, coder)
      else do { let coder = (if ramcoder_state coder = 1
                             then (ramcoder_normalize coder)\<lparr>rc_code := rc_code coder XOR RAMMASK_BIT 1\<rparr> else coder);
                let coder = ramcoder_shiftbits coder;
                let coder = coder\<lparr>rc_code := push_bit 1 (rc_code coder)\<rparr>;
                (nextBit, hp) \<leftarrow> hgetbit hp;
                if nextBit \<ge> 0
                then ramcoder_getbits (numbits + 1) hp (coder\<lparr>rc_code := rc_code coder OR word_of_int nextBit\<rparr>)
                else Some (numbits, hp, coder) })"

declare ramcoder_putbits.simps [code] and ramcoder_getbits.simps [code]

section \<open>Symbols\<close>

function bsearch_loop :: "u16 \<Rightarrow> u16 list \<Rightarrow> int \<Rightarrow> int \<Rightarrow> int option" where
  "bsearch_loop probability ranges first lst =
     (if lst \<ge> first
      then do { let middle = first + (lst - first) div 2;
                a \<leftarrow> aget ranges middle;
                if probability < a then bsearch_loop probability ranges first (middle - 1)
                else do { b \<leftarrow> aget ranges (middle + 1);
                          if probability \<ge> b then bsearch_loop probability ranges (middle + 1) lst
                          else Some middle } }
      else Some (- 1))"
  by pat_completeness auto
termination
  by (relation "measure (\<lambda>(probability, ranges, first, lst). nat (lst + 1 - first))") auto

declare bsearch_loop.simps [simp del]

definition ramdecoder_bsearch :: "u16 \<Rightarrow> ramcoder \<Rightarrow> int option" where
  "ramdecoder_bsearch probability coder =
     bsearch_loop probability (rc_ranges coder) 0 (int (unat (rc_upper_lastsymbol coder)))"

definition scale_symbol :: "int \<Rightarrow> ramcoder \<Rightarrow> ramcoder option" where
  "scale_symbol symbol coder =
     do { let range = (ucast (rc_upper coder) - ucast (rc_lower coder) + 1 :: u32);
          hi \<leftarrow> aget (rc_ranges coder) (symbol + 1);
          lo \<leftarrow> aget (rc_ranges coder) symbol;
          if rc_cumulativeProb coder = 0 then None
          else Some (coder\<lparr>rc_upper := rc_lower coder + ucast ((ucast hi * range) div rc_cumulativeProb coder) - 1,
                           rc_lower := rc_lower coder + ucast ((ucast lo * range) div rc_cumulativeProb coder)\<rparr>) }"

definition bump_range :: "nat \<Rightarrow> u16 list \<Rightarrow> u16 list option" where
  "bump_range i ranges = do { r \<leftarrow> aget ranges (int i); aput ranges (int i) (r + 1) }"

text \<open>One step of the halving: the frequencies, the old cumulative frequency of the symbol before, and the new sum.\<close>

definition halve_range :: "nat \<Rightarrow> u16 list \<times> u16 \<times> u32 \<Rightarrow> (u16 list \<times> u16 \<times> u32) option" where
  "halve_range i s = (case s of (ranges, original, cum) \<Rightarrow>
     do { r \<leftarrow> aget ranges (int i);
          p \<leftarrow> aget ranges (int i - 1);
          let delta = r - original;
          let v = (if delta \<le> 2 then p + 1 else p + delta div 2);
          ranges \<leftarrow> aput ranges (int i) v;
          Some (ranges, r, cum + (ucast v - ucast p)) })"

definition update_model :: "int \<Rightarrow> ramcoder \<Rightarrow> ramcoder option" where
  "update_model symbol coder =
     do { let lst = unat (rc_upper_lastsymbol coder);
          let cum = rc_cumulativeProb coder + 1;
          ranges \<leftarrow> ofold bump_range [nat (symbol + 1)..<lst + 1] (rc_ranges coder);
          (ranges, cum) \<leftarrow> (if cum \<ge> 2 ^ 14
                           then do { (ranges, _, cum) \<leftarrow> ofold halve_range [1..<lst + 1] (ranges, 0, 0); Some (ranges, cum) }
                           else Some (ranges, cum));
          Some (coder\<lparr>rc_ranges := ranges, rc_cumulativeProb := cum, rc_counter := rc_counter coder + 1\<rparr>) }"

definition ramcoder_update ::
    "int \<Rightarrow> ramcoder \<Rightarrow> bool \<Rightarrow> nat \<Rightarrow> huffstream \<Rightarrow> (nat \<times> huffstream \<times> ramcoder) option" where
  "ramcoder_update symbol coder updateprobs putflags hp =
     do { coder \<leftarrow> scale_symbol symbol coder;
          coder \<leftarrow> (if updateprobs then update_model symbol coder else Some coder);
          if putflags \<noteq> 0 then ramcoder_putbits 0 hp coder (odd putflags) else ramcoder_getbits 0 hp coder }"

section \<open>Encoding and decoding\<close>

fun ramcoder_emit :: "nat \<Rightarrow> huffstream \<Rightarrow> ramcoder \<Rightarrow> bool \<Rightarrow> u8 list \<Rightarrow> (nat \<times> huffstream \<times> ramcoder) option" where
  "ramcoder_emit numbits hp coder updateprobs [] = Some (numbits, hp, coder)"
| "ramcoder_emit numbits hp coder updateprobs (c # buf) =
     do { (n, hp, coder) \<leftarrow> ramcoder_update (uint c) coder updateprobs RAMCODER_PUTBITS hp;
          ramcoder_emit (numbits + n) hp coder updateprobs buf }"

text \<open>The coder that the encoder and the decoder put on their stack when they are given none.\<close>

definition stack_coder :: ramcoder where
  "stack_coder = \<lparr>rc_cumulativeProb = 0, rc_lower = 0, rc_upper = 0, rc_code = 0, rc_underflowBits = 0,
     rc_lastsymbol = 0, rc_upper_lastsymbol = 0, rc_counter = 0, rc_ranges = replicate 258 0\<rparr>"

text \<open>The symbols that have become more frequent than the average, as the next seed.\<close>

definition new_seed :: "ramcoder \<Rightarrow> u8 list option" where
  "new_seed coder =
     (if rc_upper_lastsymbol coder = 0 then None
      else let threshold = unat (rc_cumulativeProb coder) div unat (rc_upper_lastsymbol coder)
           in ofold (\<lambda>i seed. do { a \<leftarrow> aget (rc_ranges coder) (int i);
                                  b \<leftarrow> aget (rc_ranges coder) (int i - 1);
                                  if uint a - uint b > int threshold
                                  then (if (i - 1) div 8 < length seed then Some (SETBIT seed (i - 1)) else None)
                                  else Some seed }) [1..<unat (rc_upper_lastsymbol coder) + 1] (replicate 32 0))"

definition encode_message :: "bool \<Rightarrow> u8 list \<Rightarrow> huffstream \<Rightarrow> u8 list \<Rightarrow> (huffstream \<times> ramcoder) option" where
  "encode_message updateprobs buf hp seed =
     do { let (_, hp) = hrewind hp;
          (coder, _) \<leftarrow> init_ramcoder stack_coder None seed;
          (_, hp, coder) \<leftarrow> ramcoder_emit 0 hp coder updateprobs buf;
          (_, hp, coder) \<leftarrow> ramcoder_update (uint (rc_lastsymbol coder)) coder updateprobs RAMCODER_PUTBITS hp;
          (_, hp, coder) \<leftarrow> ramcoder_update (uint (rc_lastsymbol coder)) coder updateprobs
                              (RAMCODER_PUTBITS + RAMCODER_FINALIZE) hp;
          Some (hp, coder) }"

definition ramcoder_encoder ::
    "ramcoder option \<Rightarrow> bool \<Rightarrow> u8 list \<Rightarrow> huffstream \<Rightarrow> u8 list \<Rightarrow> (u8 list \<times> huffstream \<times> ramcoder) option" where
  "ramcoder_encoder coder updateprobs buf hp seed =
     do { (hp, coder) \<leftarrow> (case coder of None \<Rightarrow> encode_message updateprobs buf hp seed
                          | Some coder \<Rightarrow> do { (_, hp, coder) \<leftarrow> ramcoder_emit 0 hp coder updateprobs buf; Some (hp, coder) });
          seed \<leftarrow> new_seed coder;
          Some (seed, hp, coder) }"

definition RAMDECODER_UNSCALED :: "ramcoder \<Rightarrow> u32 option" where
  "RAMDECODER_UNSCALED coder =
     (let range = ucast (rc_upper coder) - ucast (rc_lower coder) + 1
      in if range = 0 then None
         else Some (((ucast (rc_code coder) - ucast (rc_lower coder) + 1) * rc_cumulativeProb coder - 1) div range))"

definition ramcoder_decode :: "ramcoder \<Rightarrow> bool \<Rightarrow> huffstream \<Rightarrow> (int \<times> huffstream \<times> ramcoder) option" where
  "ramcoder_decode coder updateprobs hp =
     do { p \<leftarrow> RAMDECODER_UNSCALED coder;
          ind \<leftarrow> ramdecoder_bsearch (ucast p) coder;
          if ind < 0 \<or> ind = uint (rc_lastsymbol coder) then Some (- 1, hp, coder)
          else do { (_, hp, coder) \<leftarrow> ramcoder_update ind coder updateprobs 0 hp; Some (ind, hp, coder) } }"

fun decoder_loop :: "nat \<Rightarrow> ramcoder \<Rightarrow> bool \<Rightarrow> huffstream \<Rightarrow> u8 list option" where
  "decoder_loop 0 coder updateprobs hp = Some []"
| "decoder_loop (Suc n) coder updateprobs hp =
     do { (val, hp, coder) \<leftarrow> ramcoder_decode coder updateprobs hp;
          if val < 0 then Some []
          else do { buf \<leftarrow> decoder_loop n coder updateprobs hp; Some (word_of_int val # buf) } }"

text \<open>The bytes written to the buffer of \<open>maxlen\<close> bytes; the return value is their number.\<close>

definition ramcoder_decoder ::
    "ramcoder option \<Rightarrow> bool \<Rightarrow> nat \<Rightarrow> huffstream \<Rightarrow> u8 list \<Rightarrow> u8 list option" where
  "ramcoder_decoder coder updateprobs maxlen hp seed =
     do { (coder, hp) \<leftarrow> (case coder of Some coder \<Rightarrow> Some (coder, hp)
                          | None \<Rightarrow> do { (coder, hp) \<leftarrow> init_ramcoder stack_coder (Some (snd (hrewind hp))) seed;
                                         hp \<leftarrow> hp; Some (coder, hp) });
          decoder_loop maxlen coder updateprobs hp }"

section \<open>What the coder emits\<close>

text \<open>
  Renormalising an interval is a sequence of events: a settled bit is put out, or the interval
  lies around the middle and the decision is postponed. A postponed decision becomes the
  opposite of the next settled bit.
\<close>

datatype ev = Out bool | Under

fun bitsof :: "nat \<Rightarrow> ev list \<Rightarrow> bool list" where
  "bitsof k [] = []"
| "bitsof k (Out b # es) = b # replicate k (\<not> b) @ bitsof 0 es"
| "bitsof k (Under # es) = bitsof (Suc k) es"

fun pend :: "nat \<Rightarrow> ev list \<Rightarrow> nat" where
  "pend k [] = k"
| "pend k (Out b # es) = pend 0 es"
| "pend k (Under # es) = pend (Suc k) es"

fun settled :: "ev list \<Rightarrow> bool" where
  "settled [] = False"
| "settled [e] = (e \<noteq> Under)"
| "settled (e # es) = settled es"

lemma bitsof_append: "bitsof k (es @ fs) = bitsof k es @ bitsof (pend k es) fs"
  by (induction k es rule: bitsof.induct) auto

lemma pend_append: "pend k (es @ fs) = pend (pend k es) fs"
  by (induction k es rule: bitsof.induct) auto

lemma pend_le: "pend k es \<le> k + length es"
  by (induction k es rule: bitsof.induct) auto

lemma settled_Cons: "settled (e # es) \<longleftrightarrow> (if es = [] then e \<noteq> Under else settled es)"
  by (cases es) auto

lemma settled_append: "settled fs \<Longrightarrow> settled (es @ fs)"
  by (induction es) (auto simp: settled_Cons)

lemma length_bitsof: "length (bitsof k es) + pend k es = k + length es"
  by (induction k es rule: bitsof.induct) auto

lemma pend_settled: "settled es \<Longrightarrow> pend k es = 0"
  by (induction k es rule: bitsof.induct) (auto simp: settled_Cons split: if_splits)

lemma bitsof_pending:
  assumes "settled es"
  obtains b G where "bitsof 0 es = b # G" and "\<And>k. bitsof k es = b # replicate k (\<not> b) @ G"
  using assms
proof (induction es arbitrary: thesis)
  case (Cons e es)
  show ?case
  proof (cases e)
    case (Out b)
    then show ?thesis using Cons.prems(1) [of b "bitsof 0 es"] by simp
  next
    case Under
    then have "settled es" using Cons.prems(2) by (auto simp: settled_Cons split: if_splits)
    then obtain b G where "bitsof 0 es = b # G" "\<And>k. bitsof k es = b # replicate k (\<not> b) @ G" using Cons.IH by blast
    then show ?thesis using Under Cons.prems(1) [of b "(\<not> b) # G"] by (simp add: replicate_app_Cons_same)
  qed
qed simp

text \<open>A list of bits as a binary fraction.\<close>

fun bval :: "bool list \<Rightarrow> real" where
  "bval [] = 0"
| "bval (b # bs) = (of_bool b + bval bs) / 2"

lemma bval_Under: "settled es \<Longrightarrow> bval (bitsof 0 (Under # es)) = 1 / 4 + bval (bitsof 0 es) / 2"
  by (erule bitsof_pending) (auto simp: field_simps)

section \<open>Intervals\<close>

definition next_ev :: "nat \<Rightarrow> nat \<Rightarrow> ev option" where
  "next_ev l u = (if 2 ^ 15 \<le> l \<longleftrightarrow> 2 ^ 15 \<le> u then Some (Out (2 ^ 15 \<le> u))
     else if 2 ^ 14 \<le> l \<and> u < 3 * 2 ^ 14 then Some Under else None)"

fun shift_ev :: "ev \<Rightarrow> nat \<Rightarrow> nat" where
  "shift_ev (Out b) x = 2 * (x - of_bool b * 2 ^ 15)"
| "shift_ev Under x = 2 * (x - 2 ^ 14)"

definition valid_iv :: "nat \<Rightarrow> nat \<Rightarrow> bool" where
  "valid_iv l u \<longleftrightarrow> l \<le> u \<and> u < 2 ^ 16"

lemma shift_valid:
  assumes "valid_iv l u" and "next_ev l u = Some e"
  shows "valid_iv (shift_ev e l) (shift_ev e u + 1)" and "shift_ev e u + 1 - shift_ev e l = 2 * (u - l) + 1"
  using assms by (auto simp: valid_iv_def next_ev_def split: if_splits)

function renorm :: "nat \<Rightarrow> nat \<Rightarrow> ev list \<times> nat \<times> nat" where
  "renorm l u =
     (if \<not> valid_iv l u then ([], l, u)
      else case next_ev l u of None \<Rightarrow> ([], l, u)
           | Some e \<Rightarrow> (let (es, l', u') = renorm (shift_ev e l) (shift_ev e u + 1) in (e # es, l', u')))"
  by pat_completeness auto
termination
proof (relation "measure (\<lambda>(l, u). 2 ^ 16 - (u - l))")
  fix l u e
  assume "\<not> \<not> valid_iv l u" "next_ev l u = Some e"
  then have v: "valid_iv l u" by simp
  note s = shift_valid [OF v \<open>next_ev l u = Some e\<close>]
  have "u - l < 2 ^ 16" using v by (auto simp: valid_iv_def)
  with s(2) show "((shift_ev e l, shift_ev e u + 1), l, u) \<in> measure (\<lambda>(l, u). 2 ^ 16 - (u - l))" by simp
qed simp

declare renorm.simps [simp del]

lemma renorm_cases:
  assumes "valid_iv l u"
  shows "next_ev l u = None \<Longrightarrow> renorm l u = ([], l, u)"
    and "next_ev l u = Some e \<Longrightarrow> renorm l u = (let (es, l', u') = renorm (shift_ev e l) (shift_ev e u + 1) in (e # es, l', u'))"
  using assms by (simp_all add: renorm.simps [of l u])

lemma iv_induct [consumes 1, case_names stop step]:
  assumes "valid_iv l u"
    and "\<And>l u. valid_iv l u \<Longrightarrow> next_ev l u = None \<Longrightarrow> P l u"
    and "\<And>l u e. valid_iv l u \<Longrightarrow> next_ev l u = Some e \<Longrightarrow> valid_iv (shift_ev e l) (shift_ev e u + 1)
        \<Longrightarrow> P (shift_ev e l) (shift_ev e u + 1) \<Longrightarrow> P l u"
  shows "P l u"
  using assms(1)
proof (induction "2 ^ 16 - (u - l)" arbitrary: l u rule: less_induct)
  case less
  show ?case
  proof (cases "next_ev l u")
    case None
    then show ?thesis using assms(2) less.prems by blast
  next
    case (Some e)
    note s = shift_valid [OF less.prems Some]
    have "u - l < 2 ^ 16" using less.prems by (auto simp: valid_iv_def)
    then have "2 ^ 16 - (shift_ev e u + 1 - shift_ev e l) < 2 ^ 16 - (u - l)" using s(2) by simp
    from less.hyps [OF this s(1)] show ?thesis using assms(3) [OF less.prems Some s(1)] by blast
  qed
qed

lemma renorm_result:
  assumes "valid_iv l u"
  shows "case renorm l u of (es, l', u') \<Rightarrow> valid_iv l' u' \<and> next_ev l' u' = None \<and> u' - l' + 1 = (u - l + 1) * 2 ^ length es"
  using assms
proof (induction rule: iv_induct)
  case (stop l u)
  then show ?case by (simp add: renorm_cases)
next
  case (step l u e)
  have s: "Suc (shift_ev e u) - shift_ev e l = 2 * (u - l) + 1" using shift_valid(2) [OF step(1,2)] by simp
  show ?case using step(4) renorm_cases(2) [OF step(1,2)] by (auto simp: Let_def s algebra_simps split: prod.splits)
qed

lemma next_None: "valid_iv l u \<Longrightarrow> next_ev l u = None \<Longrightarrow> l < 2 ^ 15 \<and> 2 ^ 15 \<le> u \<and> (l < 2 ^ 14 \<or> 3 * 2 ^ 14 \<le> u) \<and> 2 ^ 14 < u - l + 1"
  by (auto simp: next_ev_def valid_iv_def split: if_splits)

definition inside :: "nat \<Rightarrow> nat \<Rightarrow> ev list \<Rightarrow> bool" where
  "inside l u es \<longleftrightarrow> real l / 2 ^ 16 \<le> bval (bitsof 0 es) \<and> bval (bitsof 0 es) + 1 / 2 ^ length es \<le> (real u + 1) / 2 ^ 16"

lemma inside_step:
  assumes "valid_iv l u" and "next_ev l u = Some e" and "settled es" and "inside (shift_ev e l) (shift_ev e u + 1) es"
  shows "inside l u (e # es)"
proof (cases e)
  case (Out b)
  then show ?thesis using assms by (auto simp: inside_def next_ev_def valid_iv_def field_simps of_nat_diff split: if_splits)
next
  case Under
  then have u: "2 ^ 14 \<le> l" "2 ^ 14 \<le> u" using assms by (auto simp: next_ev_def valid_iv_def split: if_splits)
  show ?thesis using assms(4) u unfolding inside_def Under bval_Under [OF assms(3)]
    by (auto simp: field_simps of_nat_diff)
qed

lemma inside_renorm:
  assumes "valid_iv l u" and "renorm l u = (es, l', u')" and "settled fs" and "inside l' u' fs"
  shows "inside l u (es @ fs)"
  using assms
proof (induction arbitrary: es rule: iv_induct)
  case (stop l u)
  then show ?case by (simp add: renorm_cases)
next
  case (step l u e)
  then obtain es' where e: "renorm (shift_ev e l) (shift_ev e u + 1) = (es', l', u')" "es = e # es'"
    by (auto simp: renorm_cases(2) [OF step(1,2)] Let_def split: prod.splits)
  have "inside (shift_ev e l) (shift_ev e u + 1) (es' @ fs)" using step(4) [OF e(1)] step by blast
  from inside_step [OF step(1,2) settled_append [OF \<open>settled fs\<close>] this] e(2) show ?case by simp
qed

text \<open>The flush at the end puts out one bit and postponed opposites, one more than are pending.\<close>

definition flush_evs :: "nat \<Rightarrow> ev list" where
  "flush_evs l = [Under, Out (2 ^ 14 \<le> l)]"

lemma inside_flush: "valid_iv l u \<Longrightarrow> next_ev l u = None \<Longrightarrow> inside l u (flush_evs l)"
  by (auto dest!: next_None simp: inside_def flush_evs_def)

lemma inside_mono: "inside l u es \<Longrightarrow> l0 \<le> l \<Longrightarrow> u \<le> u0 \<Longrightarrow> inside l0 u0 es"
  unfolding inside_def by (meson divide_right_mono of_nat_mono order_trans add_right_mono zero_le_numeral zero_le_power)

text \<open>The register of the decoder: the first sixteen bits.\<close>

fun wval :: "bool list \<Rightarrow> nat" where
  "wval [] = 0"
| "wval (b # bs) = of_bool b * 2 ^ length bs + wval bs"

lemma wval_bound: "wval bs < 2 ^ length bs"
  by (induction bs) (auto simp: of_bool_def)

lemma bval_bound: "0 \<le> bval bs \<and> bval bs < 1"
  by (induction bs) auto

lemma bval_wval: "bval (bs @ cs) = real (wval bs) / 2 ^ length bs + bval cs / 2 ^ length bs"
  by (induction bs) (auto simp: field_simps of_bool_def)

lemma inside_code:
  assumes "inside l u es" and "bitsof 0 es = bs @ cs" and "length bs = 16"
  shows "l \<le> wval bs \<and> wval bs \<le> u"
proof -
  have v: "bval (bitsof 0 es) = real (wval bs) / 2 ^ 16 + bval cs / 2 ^ 16" using bval_wval [of bs cs] assms(2,3) by simp
  have c: "0 \<le> bval cs" "bval cs < 1" using bval_bound by blast+
  have "real l < real (wval bs) + 1" using assms(1) c(2) unfolding inside_def v by (simp add: field_simps)
  moreover have "real (wval bs) < real u + 1"
  proof -
    have "(0 :: real) < 1 / 2 ^ length es" by simp
    moreover have "real (wval bs) / 2 ^ 16 + bval cs / 2 ^ 16 + 1 / 2 ^ length es \<le> (real u + 1) / 2 ^ 16"
      using assms(1) unfolding inside_def v by blast
    moreover have "0 \<le> bval cs / 2 ^ 16" using c(1) by simp
    ultimately have "real (wval bs) / 2 ^ 16 < (real u + 1) / 2 ^ 16" by linarith
    then show ?thesis by (simp add: field_simps)
  qed
  ultimately show ?thesis by linarith
qed

section \<open>Registers\<close>

lemma bit_unat: "bit (x :: u16) n \<longleftrightarrow> odd (unat x div 2 ^ n)"
proof -
  have "bit x n \<longleftrightarrow> bit (unat x) n" by (simp add: bit_unsigned_iff)
  then show ?thesis by (simp add: bit_iff_odd)
qed

lemma odd_div: "(y :: nat) < 2 * d \<Longrightarrow> odd (y div d) \<longleftrightarrow> d \<le> y"
  by (cases "y < d") (auto simp: le_div_geq)

lemma u16_bound: "unat (x :: u16) < 2 ^ 16"
  using unsigned_less [of x] by simp

lemma top_bit: "bit (x :: u16) 15 \<longleftrightarrow> 2 ^ 15 \<le> unat x"
  using odd_div [of "unat x" "2 ^ 15"] u16_bound [of x] by (simp add: bit_unat)

lemma second_bit:
  "unat (x :: u16) < 2 ^ 15 \<Longrightarrow> bit x 14 \<longleftrightarrow> 2 ^ 14 \<le> unat x"
  "2 ^ 15 \<le> unat x \<Longrightarrow> bit x 14 \<longleftrightarrow> 3 * 2 ^ 14 \<le> unat x"
proof -
  show "unat x < 2 ^ 15 \<Longrightarrow> bit x 14 \<longleftrightarrow> 2 ^ 14 \<le> unat x"
    using odd_div [of "unat x" "2 ^ 14"] by (simp add: bit_unat)
  assume a: "2 ^ 15 \<le> unat x"
  define z where "z = unat x - 2 ^ 15"
  have z: "unat x = z + 2 * 2 ^ 14" "z < 2 * 2 ^ 14" using a u16_bound [of x] by (simp_all add: z_def)
  then have "unat x div 2 ^ 14 = z div 2 ^ 14 + 2" by simp
  then show "bit x 14 \<longleftrightarrow> 3 * 2 ^ 14 \<le> unat x" using odd_div [OF z(2)] z(1) by (simp add: bit_unat)
qed

lemma bit_mask: "bit (RAMMASK_BIT i) n \<longleftrightarrow> n < 16 \<and> n = 16 - (1 + i)"
  by (auto simp: RAMMASK_BIT_def bit_push_bit_iff bit_1_iff bit_exp_iff)

lemma mask_and: "(x :: u16) AND RAMMASK_BIT i = (if bit x (16 - (1 + i)) then RAMMASK_BIT i else 0)"
  by (rule bit_word_eqI) (auto simp: RAMMASK_BIT_def bit_and_iff bit_push_bit_iff bit_1_iff bit_exp_iff)

lemma mask_nonzero: "i < 16 \<Longrightarrow> RAMMASK_BIT i \<noteq> 0"
proof -
  assume "i < 16"
  then have "bit (RAMMASK_BIT i) (16 - (1 + i))" by (simp add: RAMMASK_BIT_def bit_push_bit_iff bit_1_iff bit_exp_iff)
  then show ?thesis by auto
qed

lemma mask_test: "i < 16 \<Longrightarrow> x AND RAMMASK_BIT i \<noteq> 0 \<longleftrightarrow> bit x (16 - (1 + i))"
  using mask_nonzero [of i] by (simp add: mask_and)

definition lo :: "ramcoder \<Rightarrow> nat" where "lo c = unat (rc_lower c)"
definition hi :: "ramcoder \<Rightarrow> nat" where "hi c = unat (rc_upper c)"

lemma state_ev:
  assumes "valid_iv (lo c) (hi c)"
  shows "ramcoder_state c = (case next_ev (lo c) (hi c) of Some (Out b) \<Rightarrow> 0 | Some Under \<Rightarrow> 1 | None \<Rightarrow> - 1)"
proof -
  have eq: "rc_upper c AND RAMMASK_BIT 0 = rc_lower c AND RAMMASK_BIT 0 \<longleftrightarrow> (2 ^ 15 \<le> hi c \<longleftrightarrow> 2 ^ 15 \<le> lo c)"
    using mask_nonzero [of 0] by (auto simp: mask_and top_bit lo_def hi_def)
  show ?thesis
  proof (cases "2 ^ 15 \<le> lo c \<longleftrightarrow> 2 ^ 15 \<le> hi c")
    case True
    then show ?thesis using eq by (auto simp: ramcoder_state_def next_ev_def)
  next
    case False
    then have m: "lo c < 2 ^ 15" "2 ^ 15 \<le> hi c" using assms by (auto simp: valid_iv_def)
    have "rc_lower c AND RAMMASK_BIT 1 \<noteq> 0 \<longleftrightarrow> 2 ^ 14 \<le> lo c"
      using mask_test [of 1 "rc_lower c"] second_bit(1) [of "rc_lower c"] m(1) by (simp add: lo_def)
    moreover have "rc_upper c AND RAMMASK_BIT 1 = 0 \<longleftrightarrow> hi c < 3 * 2 ^ 14"
      using mask_test [of 1 "rc_upper c"] second_bit(2) [of "rc_upper c"] m(2) by (auto simp: hi_def not_le)
    ultimately show ?thesis using eq m by (simp add: ramcoder_state_def next_ev_def)
  qed
qed

lemma upper_msb: "rc_upper c AND RAMMASK_BIT 0 \<noteq> 0 \<longleftrightarrow> 2 ^ 15 \<le> hi c"
  using mask_test [of 0 "rc_upper c"] top_bit [of "rc_upper c"] by (simp add: hi_def)

lemma shl: "push_bit 1 x = (2 * x :: u16)"
  by simp

lemma unat_shift: "unat (2 * x :: u16) = (2 * unat x) mod 2 ^ 16" "unat (2 * x + 1 :: u16) = (2 * unat x + 1) mod 2 ^ 16"
proof -
  have "2 * x = word_of_nat (2 * unat x)" "2 * x + 1 = word_of_nat (2 * unat x + 1)" by simp_all
  then show "unat (2 * x) = (2 * unat x) mod 2 ^ 16" "unat (2 * x + 1) = (2 * unat x + 1) mod 2 ^ 16"
    by (simp_all only: unsigned_of_nat take_bit_eq_mod) simp_all
qed

lemma push_or: "push_bit 1 x OR (if b then 1 else 0) = (2 * x + of_bool b :: u16)"
proof (cases b)
  case True
  have "2 * x AND 1 = 0" by (simp add: and_one_eq mod_2_eq_odd)
  then show ?thesis using True by (simp add: disjunctive_add_eq_or [symmetric] mult.commute)
qed simp

lemma shift_Out:
  assumes "valid_iv (lo c) (hi c)" and "next_ev (lo c) (hi c) = Some (Out b)"
  shows "lo (ramcoder_shiftbits c) = shift_ev (Out b) (lo c)" "hi (ramcoder_shiftbits c) = shift_ev (Out b) (hi c) + 1"
proof -
  have b: "2 ^ 15 \<le> lo c \<longleftrightarrow> b" "2 ^ 15 \<le> hi c \<longleftrightarrow> b" using assms(2) by (auto simp: next_ev_def split: if_splits)
  have m: "(2 * y + d) mod 2 ^ 16 = 2 * (y - of_bool (2 ^ 15 \<le> y) * 2 ^ 15) + d" if "y < 2 ^ 16" "d \<le> 1" for y d :: nat
  proof (cases "2 ^ 15 \<le> y")
    case True
    then have "2 * y + d = 2 * (y - 2 ^ 15) + d + 2 ^ 16" by simp
    then have "(2 * y + d) mod 2 ^ 16 = (2 * (y - 2 ^ 15) + d) mod 2 ^ 16" by (simp only: mod_add_self2)
    also have "\<dots> = 2 * (y - 2 ^ 15) + d" using that by (intro mod_less) simp
    finally show ?thesis using True by simp
  next
    case False
    then show ?thesis using that by simp
  qed
  have "lo (ramcoder_shiftbits c) = unat (2 * rc_lower c)" "hi (ramcoder_shiftbits c) = unat (2 * rc_upper c + 1)"
    unfolding lo_def hi_def ramcoder_shiftbits_def using push_or [of "rc_upper c" True] by (simp_all add: mult.commute)
  then have "lo (ramcoder_shiftbits c) = (2 * lo c + 0) mod 2 ^ 16" "hi (ramcoder_shiftbits c) = (2 * hi c + 1) mod 2 ^ 16"
    by (simp_all only: unat_shift lo_def hi_def add_0_right)
  then show "lo (ramcoder_shiftbits c) = shift_ev (Out b) (lo c)" "hi (ramcoder_shiftbits c) = shift_ev (Out b) (hi c) + 1"
    using m [of "lo c" 0] m [of "hi c" 1] u16_bound [of "rc_lower c"] u16_bound [of "rc_upper c"] b by (simp_all add: lo_def hi_def)
qed

lemma shift_Under:
  assumes "valid_iv (lo c) (hi c)" and "next_ev (lo c) (hi c) = Some Under"
  shows "lo (ramcoder_shiftbits (ramcoder_normalize c)) = shift_ev Under (lo c)"
    and "hi (ramcoder_shiftbits (ramcoder_normalize c)) = shift_ev Under (hi c) + 1"
proof -
  have b: "2 ^ 14 \<le> lo c" "lo c < 2 ^ 15" "2 ^ 15 \<le> hi c" "hi c < 3 * 2 ^ 14"
    using assms by (auto simp: next_ev_def valid_iv_def split: if_splits)
  have "rc_lower c AND NOT (RAMMASK_BIT 0 OR RAMMASK_BIT 1) = take_bit 14 (rc_lower c)"
    by (rule bit_word_eqI) (auto simp: bit_and_iff bit_not_iff bit_or_iff bit_take_bit_iff bit_mask)
  then have "lo (ramcoder_shiftbits (ramcoder_normalize c)) = unat (2 * take_bit 14 (rc_lower c))"
    unfolding lo_def ramcoder_shiftbits_def ramcoder_normalize_def by (simp add: mult.commute)
  also have "\<dots> = (2 * (lo c mod 2 ^ 14)) mod 2 ^ 16"
    by (simp only: unat_shift unsigned_take_bit_eq lo_def) (simp only: take_bit_eq_mod)
  also have "lo c mod 2 ^ 14 = lo c - 2 ^ 14" using b(1,2) by (simp add: le_mod_geq)
  also have "(2 * (lo c - 2 ^ 14)) mod 2 ^ 16 = 2 * (lo c - 2 ^ 14)" using b(2) by (intro mod_less) simp
  finally show "lo (ramcoder_shiftbits (ramcoder_normalize c)) = shift_ev Under (lo c)" by simp
  have "\<not> bit (rc_upper c) 14" using second_bit(2) [of "rc_upper c"] b(3,4) by (simp add: hi_def)
  then have "rc_upper c AND RAMMASK_BIT 1 = 0" by (simp add: mask_and)
  then have "rc_upper c OR RAMMASK_BIT 1 = rc_upper c + RAMMASK_BIT 1" by (simp add: disjunctive_add_eq_or)
  moreover have "RAMMASK_BIT 1 = 2 ^ 14" by (simp add: RAMMASK_BIT_def)
  ultimately have "hi (ramcoder_shiftbits (ramcoder_normalize c)) = unat (2 * (rc_upper c + 2 ^ 14) + 1)"
    unfolding hi_def ramcoder_shiftbits_def ramcoder_normalize_def using push_or [of "rc_upper c + 2 ^ 14" True] by simp
  also have "\<dots> = (2 * unat (rc_upper c + 2 ^ 14) + 1) mod 2 ^ 16" by (rule unat_shift)
  also have "unat (rc_upper c + 2 ^ 14) = hi c + 2 ^ 14"
  proof -
    have "rc_upper c + 2 ^ 14 = word_of_nat (hi c + 2 ^ 14)" by (simp add: hi_def)
    then show ?thesis using b(4) by (simp only: unsigned_of_nat take_bit_eq_mod) simp
  qed
  also have "(2 * (hi c + 2 ^ 14) + 1) mod 2 ^ 16 = 2 * (hi c - 2 ^ 14) + 1"
  proof -
    have "2 * (hi c + 2 ^ 14) + 1 = (2 * (hi c - 2 ^ 14) + 1) + 2 ^ 16" using b(3) by simp
    then have "(2 * (hi c + 2 ^ 14) + 1) mod 2 ^ 16 = (2 * (hi c - 2 ^ 14) + 1) mod 2 ^ 16" by (simp only: mod_add_self2)
    also have "\<dots> = 2 * (hi c - 2 ^ 14) + 1" using b(4) by (intro mod_less) simp
    finally show ?thesis .
  qed
  finally show "hi (ramcoder_shiftbits (ramcoder_normalize c)) = shift_ev Under (hi c) + 1" by simp
qed

lemma shift_frame:
  "rc_underflowBits (ramcoder_shiftbits c) = rc_underflowBits c" "rc_underflowBits (ramcoder_normalize c) = rc_underflowBits c"
  "lo (c\<lparr>rc_underflowBits := k\<rparr>) = lo c" "hi (c\<lparr>rc_underflowBits := k\<rparr>) = hi c"
  "lo (c\<lparr>rc_code := k'\<rparr>) = lo c" "hi (c\<lparr>rc_code := k'\<rparr>) = hi c"
  by (simp_all add: ramcoder_shiftbits_def ramcoder_normalize_def lo_def hi_def)

text \<open>Everything but the interval, the register and the pending bits: what renormalising leaves alone.\<close>

definition model :: "ramcoder \<Rightarrow> u32 \<times> u16 \<times> u16 \<times> u16 \<times> u16 list" where
  "model c = (rc_cumulativeProb c, rc_lastsymbol c, rc_upper_lastsymbol c, rc_counter c, rc_ranges c)"

lemma model_frame [simp]:
  "model (ramcoder_shiftbits c) = model c" "model (ramcoder_normalize c) = model c"
  "model (c\<lparr>rc_underflowBits := k\<rparr>) = model c" "model (c\<lparr>rc_code := k'\<rparr>) = model c"
  by (simp_all add: model_def ramcoder_shiftbits_def ramcoder_normalize_def)

section \<open>The coder puts the events out\<close>

lemma put_run:
  assumes "huff_ok hp" and "hp_bitoffset hp + 1 + n < 8 * hp_allocsize hp"
  shows "\<exists>h1 h2. hputbit hp b = Some (0, h1) \<and> put_many n d h1 = Some h2 \<and> wrote hp (b # replicate n d) h2"
proof -
  obtain h1 where 1: "hputbit hp b = Some (0, h1)" "wrote hp [b] h1" using hputbit_ok [OF assms(1)] assms(2) by auto
  obtain h2 where 2: "put_many n d h1 = Some h2" "wrote h1 (replicate n d) h2"
    unfolding put_many_def using putbits_ok [of h1 "replicate n d"] wrote_room [OF 1(2)] assms(2) by auto
  show ?thesis using 1(1) 2(1) wrote_append [OF 1(2) 2(2)] by auto
qed

lemma put_Under:
  assumes "valid_iv (lo c) (hi c)" and "next_ev (lo c) (hi c) = Some Under"
  shows "ramcoder_putbits m hp c f = ramcoder_putbits m hp (ramcoder_shiftbits (ramcoder_normalize (c\<lparr>rc_underflowBits := rc_underflowBits c + 1\<rparr>))) f"
  using state_ev [OF assms(1)] assms(2) by (simp add: ramcoder_putbits.simps [of m hp c f] Let_def)

lemma put_Out:
  assumes "valid_iv (lo c) (hi c)" and "next_ev (lo c) (hi c) = Some (Out b)"
    and "hputbit hp b = Some (r, h1)" and "put_many (unat (rc_underflowBits c)) (\<not> b) h1 = Some h2"
  shows "ramcoder_putbits m hp c f = ramcoder_putbits (m + 1 + unat (rc_underflowBits c)) h2 (ramcoder_shiftbits (c\<lparr>rc_underflowBits := 0\<rparr>)) f"
proof -
  have "rc_upper c AND RAMMASK_BIT 0 \<noteq> 0 \<longleftrightarrow> b" using upper_msb [of c] assms(2) by (auto simp: next_ev_def split: if_splits)
  then show ?thesis using state_ev [OF assms(1)] assms(2-) by (simp add: ramcoder_putbits.simps [of m hp c f] Let_def)
qed

lemma put_stop:
  assumes "valid_iv (lo c) (hi c)" and "next_ev (lo c) (hi c) = None"
  shows "ramcoder_putbits m hp c False = Some (m, hp, c)"
    and "hputbit hp (2 ^ 14 \<le> lo c) = Some (r, h1) \<Longrightarrow> put_many (unat (rc_underflowBits c + 1)) (\<not> 2 ^ 14 \<le> lo c) h1 = Some h2
      \<Longrightarrow> ramcoder_putbits m hp c True = Some (m + 1 + unat (rc_underflowBits c + 1), h2, c\<lparr>rc_underflowBits := 0\<rparr>)"
proof -
  have s: "ramcoder_state c = - 1" using state_ev [OF assms(1)] assms(2) by simp
  have "lo c < 2 ^ 15" using next_None [OF assms] by simp
  then have "rc_lower c AND RAMMASK_BIT 1 \<noteq> 0 \<longleftrightarrow> 2 ^ 14 \<le> lo c"
    using mask_test [of 1 "rc_lower c"] second_bit(1) [of "rc_lower c"] by (simp add: lo_def)
  then show "hputbit hp (2 ^ 14 \<le> lo c) = Some (r, h1) \<Longrightarrow> put_many (unat (rc_underflowBits c + 1)) (\<not> 2 ^ 14 \<le> lo c) h1 = Some h2
      \<Longrightarrow> ramcoder_putbits m hp c True = Some (m + 1 + unat (rc_underflowBits c + 1), h2, c\<lparr>rc_underflowBits := 0\<rparr>)"
    using s by (simp add: ramcoder_putbits.simps [of m hp c True] Let_def)
  show "ramcoder_putbits m hp c False = Some (m, hp, c)"
    using s by (simp add: ramcoder_putbits.simps [of m hp c False])
qed

lemma unat_u16_Suc: "unat x + 1 < 2 ^ 16 \<Longrightarrow> unat (x + 1 :: u16) = unat x + 1"
proof -
  assume a: "unat x + 1 < 2 ^ 16"
  have "x + 1 = word_of_nat (unat x + 1)" by simp
  then show ?thesis using a by (simp only: unsigned_of_nat take_bit_eq_mod) simp
qed

definition coder_after :: "ramcoder \<Rightarrow> nat \<Rightarrow> nat \<Rightarrow> nat \<Rightarrow> ramcoder \<Rightarrow> bool" where
  "coder_after c l u k c' \<longleftrightarrow> lo c' = l \<and> hi c' = u \<and> unat (rc_underflowBits c') = k \<and> model c' = model c"

lemma putbits_sim:
  assumes "valid_iv l u" and "lo c = l" "hi c = u" and "renorm l u = (es, l', u')"
    and "unat (rc_underflowBits c) + length es + 1 < 2 ^ 16" and "huff_ok hp"
    and "hp_bitoffset hp + unat (rc_underflowBits c) + length es + 2 < 8 * hp_allocsize hp"
  shows "\<exists>n hp' c'. ramcoder_putbits m hp c f = Some (n, hp', c')
    \<and> wrote hp (bitsof (unat (rc_underflowBits c)) (es @ (if f then flush_evs l' else []))) hp'
    \<and> coder_after c l' u' (if f then 0 else pend (unat (rc_underflowBits c)) es) c'"
  using assms
proof (induction arbitrary: c m hp es rule: iv_induct)
  case (stop l u)
  then have e: "es = []" "l' = l" "u' = u" by (simp_all add: renorm_cases)
  have v: "valid_iv (lo c) (hi c)" "next_ev (lo c) (hi c) = None" using stop by simp_all
  show ?case
  proof (cases f)
    case True
    have k: "unat (rc_underflowBits c + 1) = Suc (unat (rc_underflowBits c))" using stop.prems e by (simp add: unat_u16_Suc)
    obtain h1 h2 where h: "hputbit hp (2 ^ 14 \<le> l) = Some (0, h1)" "put_many (unat (rc_underflowBits c + 1)) (\<not> 2 ^ 14 \<le> l) h1 = Some h2"
        "wrote hp ((2 ^ 14 \<le> l) # replicate (unat (rc_underflowBits c + 1)) (\<not> 2 ^ 14 \<le> l)) h2"
      using put_run [of hp "unat (rc_underflowBits c + 1)" "2 ^ 14 \<le> l" "\<not> 2 ^ 14 \<le> l"] stop.prems e k by auto
    show ?thesis using put_stop(2) [OF v, of hp 0 h1 h2 m] h stop.prems(1) True e k stop.prems(2)
      by (simp add: flush_evs_def coder_after_def shift_frame)
  next
    case False
    then show ?thesis using put_stop(1) [OF v, of m hp] stop.prems e by (simp add: coder_after_def wrote_Nil)
  qed
next
  case (step l u e)
  then obtain es' where es: "renorm (shift_ev e l) (shift_ev e u + 1) = (es', l', u')" "es = e # es'"
    by (auto simp: renorm_cases(2) [OF step(1,2)] Let_def split: prod.splits)
  have v: "valid_iv (lo c) (hi c)" "next_ev (lo c) (hi c) = Some e" using step by simp_all
  show ?case
  proof (cases e)
    case Under
    define d where "d = ramcoder_shiftbits (ramcoder_normalize (c\<lparr>rc_underflowBits := rc_underflowBits c + 1\<rparr>))"
    have k: "unat (rc_underflowBits d) = Suc (unat (rc_underflowBits c))"
      using step.prems es by (simp add: d_def shift_frame unat_u16_Suc)
    have "lo d = shift_ev e l" "hi d = shift_ev e u + 1"
      using shift_Under [of "c\<lparr>rc_underflowBits := rc_underflowBits c + 1\<rparr>"] v Under step.prems(1,2) by (simp_all add: shift_frame d_def)
    from step.IH [OF this es(1), of hp m, unfolded k] step.prems es obtain n hp' c' where
      "ramcoder_putbits m hp d f = Some (n, hp', c')"
      "wrote hp (bitsof (Suc (unat (rc_underflowBits c))) (es' @ (if f then flush_evs l' else []))) hp'"
      "coder_after d l' u' (if f then 0 else pend (Suc (unat (rc_underflowBits c))) es') c'" by auto
    moreover have "model d = model c" by (simp add: d_def)
    moreover have "ramcoder_putbits m hp c f = ramcoder_putbits m hp d f" using put_Under [of c m hp f] v Under by (simp add: d_def)
    ultimately show ?thesis using Under es(2) by (simp add: coder_after_def)
  next
    case (Out b)
    define k where "k = unat (rc_underflowBits c)"
    obtain h1 h2 where h: "hputbit hp b = Some (0, h1)" "put_many k (\<not> b) h1 = Some h2" "wrote hp (b # replicate k (\<not> b)) h2"
      using put_run [of hp k b "\<not> b"] step.prems es by (auto simp: k_def)
    define d where "d = ramcoder_shiftbits (c\<lparr>rc_underflowBits := 0\<rparr>)"
    have z: "unat (rc_underflowBits d) = 0" by (simp add: d_def shift_frame)
    have "lo d = shift_ev e l" "hi d = shift_ev e u + 1"
      using shift_Out [of "c\<lparr>rc_underflowBits := 0\<rparr>" b] v Out step.prems(1,2) by (simp_all add: shift_frame d_def)
    from step.IH [OF this es(1), of h2 "m + 1 + k", unfolded z] step.prems es wrote_room [OF h(3)] obtain n hp' c' where
      r: "ramcoder_putbits (m + 1 + k) h2 d f = Some (n, hp', c')" "wrote h2 (bitsof 0 (es' @ (if f then flush_evs l' else []))) hp'"
      "coder_after d l' u' (if f then 0 else pend 0 es') c'" by (auto simp: k_def)
    moreover have "model d = model c" by (simp add: d_def)
    moreover have "ramcoder_putbits m hp c f = ramcoder_putbits (m + 1 + k) h2 d f"
      using put_Out [of c b hp 0 h1 h2 m f] v Out h by (simp add: d_def k_def)
    ultimately show ?thesis using Out es(2) wrote_append [OF h(3) r(2)] by (simp add: coder_after_def k_def)
  qed
qed

section \<open>The decoder takes the events in\<close>

lemma unat_u16_add: "unat x + y < 2 ^ 16 \<Longrightarrow> unat (x + word_of_nat y :: u16) = unat x + y"
proof -
  assume a: "unat x + y < 2 ^ 16"
  have "x + word_of_nat y = word_of_nat (unat x + y)" by simp
  then show ?thesis using a by (simp only: unsigned_of_nat take_bit_eq_mod) simp
qed

lemma xor_second:
  assumes "unat x = of_bool b * 2 ^ 15 + of_bool (\<not> b) * 2 ^ 14 + r" and "r < 2 ^ 14"
  shows "unat (x XOR RAMMASK_BIT 1) = of_bool b * 2 ^ 15 + of_bool b * 2 ^ 14 + r"
proof -
  have m: "RAMMASK_BIT 1 = word_of_nat (2 ^ 14)" by (simp add: RAMMASK_BIT_def)
  have s: "bit x 14 \<longleftrightarrow> \<not> b" using assms second_bit [of x] by (cases b) auto
  show ?thesis
  proof (cases b)
    case True
    then have "x XOR RAMMASK_BIT 1 = x OR RAMMASK_BIT 1" "x AND RAMMASK_BIT 1 = 0" using s
      by (auto intro!: bit_word_eqI simp: bit_xor_iff bit_or_iff bit_and_iff bit_mask)
    then have "x XOR RAMMASK_BIT 1 = x + word_of_nat (2 ^ 14)" using m by (metis disjunctive_add_eq_or)
    then show ?thesis using True assms unat_u16_add [of x "2 ^ 14"] by simp
  next
    case False
    define y where "y = x XOR RAMMASK_BIT 1"
    have "y OR RAMMASK_BIT 1 = x" "y AND RAMMASK_BIT 1 = 0" using s False unfolding y_def
      by (auto intro!: bit_word_eqI simp: bit_xor_iff bit_or_iff bit_and_iff bit_mask)
    then have x: "x = y + word_of_nat (2 ^ 14)" using m by (metis disjunctive_add_eq_or)
    then have "y = x - word_of_nat (2 ^ 14)" by simp
    also have "\<dots> = word_of_nat r" 
    proof -
      have "x = word_of_nat (unat x)" by simp
      also have "\<dots> = word_of_nat (2 ^ 14 + r)" using assms(1) False by simp
      finally show ?thesis by simp
    qed
    finally have "unat y = r" using assms(2) by (simp only: unsigned_of_nat take_bit_eq_mod) simp
    then show ?thesis using False by (simp add: y_def)
  qed
qed

lemma wval_snoc: "wval (bs @ [b]) = 2 * wval bs + of_bool b"
  by (induction bs) (auto simp: of_bool_def)

lemma take_Suc_16: "16 \<le> length B \<Longrightarrow> take 16 B = take 15 B @ [B ! 15] \<and> drop 15 B = B ! 15 # drop 16 B"
  using take_Suc_conv_app_nth [of 15 B] Cons_nth_drop_Suc [of 15 B] by simp

lemma code_shift:
  assumes "unat x = of_bool b * 2 ^ 15 + wval (take 15 B)" and "16 \<le> length B"
  shows "unat (push_bit 1 x OR word_of_int (if B ! 15 then 1 else 0) :: u16) = wval (take 16 B)"
proof -
  have w: "wval (take 15 B) < 2 ^ 15" using wval_bound [of "take 15 B"] assms(2) by simp
  have "push_bit 1 x OR word_of_int (if B ! 15 then 1 else 0) = 2 * x + of_bool (B ! 15)"
    using push_or [of x "B ! 15"] by (cases "B ! 15") simp_all
  also have "unat \<dots> = (2 * unat x + of_bool (B ! 15)) mod 2 ^ 16" using unat_shift [of x] by (cases "B ! 15") simp_all
  also have "\<dots> = (of_bool b * 2 ^ 16 + (2 * wval (take 15 B) + of_bool (B ! 15))) mod 2 ^ 16" by (simp add: assms(1))
  also have "\<dots> = 2 * wval (take 15 B) + of_bool (B ! 15)" using w by (cases b) (auto simp: mod_add_self1 of_bool_def)
  finally show ?thesis using take_Suc_16 [OF assms(2)] by (simp add: wval_snoc)
qed

definition get_step :: "ramcoder \<Rightarrow> ramcoder" where
  "get_step c = (if ramcoder_state c = 1 then (ramcoder_normalize c)\<lparr>rc_code := rc_code c XOR RAMMASK_BIT 1\<rparr> else c)"

lemma getbits_step:
  assumes "valid_iv (lo c) (hi c)" and "next_ev (lo c) (hi c) = Some e" and "hgetbit hp = Some (if b then 1 else 0, h1)"
  shows "ramcoder_getbits m hp c = ramcoder_getbits (m + 1) h1 ((ramcoder_shiftbits (get_step c))\<lparr>rc_code :=
      push_bit 1 (rc_code (get_step c)) OR word_of_int (if b then 1 else 0)\<rparr>)"
proof -
  have "\<not> (ramcoder_state c \<noteq> 0 \<and> ramcoder_state c \<noteq> 1)" using state_ev [OF assms(1)] assms(2) by (cases e) auto
  then show ?thesis using assms(3) unfolding get_step_def
    by (auto simp: ramcoder_getbits.simps [of m hp c] Let_def ramcoder_shiftbits_def)
qed

lemma get_step_interval:
  assumes "valid_iv (lo c) (hi c)" and "next_ev (lo c) (hi c) = Some e"
  shows "lo (ramcoder_shiftbits (get_step c)) = shift_ev e (lo c) \<and> hi (ramcoder_shiftbits (get_step c)) = shift_ev e (hi c) + 1"
proof (cases e)
  case (Out b)
  then have "get_step c = c" using state_ev [OF assms(1)] assms(2) by (simp add: get_step_def)
  then show ?thesis using shift_Out [of c b] assms Out by simp
next
  case Under
  have "lo (ramcoder_shiftbits (d\<lparr>rc_code := k\<rparr>)) = lo (ramcoder_shiftbits d)"
    "hi (ramcoder_shiftbits (d\<lparr>rc_code := k\<rparr>)) = hi (ramcoder_shiftbits d)" for d k
    by (simp_all add: ramcoder_shiftbits_def lo_def hi_def)
  then show ?thesis using shift_Under [of c] assms Under state_ev [OF assms(1)] by (simp add: get_step_def)
qed

lemma get_step_code:
  assumes "valid_iv (lo c) (hi c)" and "next_ev (lo c) (hi c) = Some e" and "settled es" and "16 \<le> length es"
    and "unat (rc_code c) = wval (take 16 (bitsof 0 (e # es)))"
  shows "\<exists>b. unat (rc_code (get_step c)) = of_bool b * 2 ^ 15 + wval (take 15 (bitsof 0 es))"
    and "drop 16 (bitsof 0 (e # es)) = bitsof 0 es ! 15 # drop 16 (bitsof 0 es)"
proof -
  let ?B = "bitsof 0 es"
  have l: "16 \<le> length ?B" using length_bitsof [of 0 es] pend_settled [OF assms(3)] assms(4) by simp
  show "\<exists>b. unat (rc_code (get_step c)) = of_bool b * 2 ^ 15 + wval (take 15 ?B)"
  proof (cases e)
    case (Out b)
    then have "get_step c = c" using state_ev [OF assms(1)] assms(2) by (simp add: get_step_def)
    then show ?thesis using assms(5) Out l by (intro exI [of _ b]) (simp add: take_Cons')
  next
    case Under
    obtain b G where B: "?B = b # G" "\<And>k. bitsof k es = b # replicate k (\<not> b) @ G" using bitsof_pending [OF assms(3)] by blast
    have g: "length (take 14 G) = 14" using l B(1) by simp
    have "take 16 (bitsof 0 (e # es)) = b # (\<not> b) # take 14 G" using B(2) [of 1] Under by simp
    then have "unat (rc_code c) = of_bool b * 2 ^ 15 + of_bool (\<not> b) * 2 ^ 14 + wval (take 14 G)" using assms(5) g by simp
    from xor_second [OF this] wval_bound [of "take 14 G"] g
    have "unat (rc_code c XOR RAMMASK_BIT 1) = of_bool b * 2 ^ 15 + of_bool b * 2 ^ 14 + wval (take 14 G)" by simp
    moreover have "rc_code (get_step c) = rc_code c XOR RAMMASK_BIT 1"
      using state_ev [OF assms(1)] assms(2) Under by (simp add: get_step_def)
    moreover have "wval (take 15 ?B) = of_bool b * 2 ^ 14 + wval (take 14 G)" using B(1) g by simp
    ultimately show ?thesis by (intro exI [of _ b]) simp
  qed
  show "drop 16 (bitsof 0 (e # es)) = bitsof 0 es ! 15 # drop 16 (bitsof 0 es)"
  proof (cases e)
    case (Out b)
    then show ?thesis using take_Suc_16 [OF l] by simp
  next
    case Under
    obtain b G where B: "?B = b # G" "\<And>k. bitsof k es = b # replicate k (\<not> b) @ G" using bitsof_pending [OF assms(3)] by blast
    then have "drop 16 (bitsof 0 (e # es)) = drop 15 ?B" using Under B(2) [of 1] by simp
    then show ?thesis using take_Suc_16 [OF l] by simp
  qed
qed

definition window :: "ramcoder \<Rightarrow> huffstream \<Rightarrow> ev list \<Rightarrow> bool" where
  "window c hp es \<longleftrightarrow> unat (rc_code c) = wval (take 16 (bitsof 0 es)) \<and> next_bits hp (butlast (drop 16 (bitsof 0 es)))"

lemma getbits_sim:
  assumes "valid_iv l u" and "lo c = l" "hi c = u" and "renorm l u = (es, l', u')"
    and "settled fs" and "17 \<le> length fs" and "window c hp (es @ fs)"
  shows "\<exists>n hp' c'. ramcoder_getbits m hp c = Some (n, hp', c') \<and> lo c' = l' \<and> hi c' = u' \<and> model c' = model c \<and> window c' hp' fs"
  using assms
proof (induction arbitrary: c m hp es rule: iv_induct)
  case (stop l u)
  then have "es = []" "l' = l" "u' = u" by (simp_all add: renorm_cases)
  moreover have "ramcoder_state c = - 1" using state_ev [of c] stop by simp
  ultimately show ?case using stop.prems by (simp add: ramcoder_getbits.simps [of m hp c])
next
  case (step l u e)
  then obtain es' where es: "renorm (shift_ev e l) (shift_ev e u + 1) = (es', l', u')" "es = e # es'"
    by (auto simp: renorm_cases(2) [OF step(1,2)] Let_def split: prod.splits)
  let ?es = "es' @ fs"
  have v: "valid_iv (lo c) (hi c)" "next_ev (lo c) (hi c) = Some e" using step by simp_all
  have cl: "settled ?es" "16 \<le> length ?es" using settled_append [OF \<open>settled fs\<close>] step.prems by simp_all
  then have l: "16 \<le> length (bitsof 0 ?es)" and l17: "drop 16 (bitsof 0 ?es) \<noteq> []"
    using length_bitsof [of 0 ?es] pend_settled [of ?es] step.prems by simp_all
  have "unat (rc_code c) = wval (take 16 (bitsof 0 (e # ?es)))" using step.prems es(2) by (simp add: window_def)
  note g = get_step_code [OF v cl this]
  let ?b = "bitsof 0 ?es ! 15"
  define d where "d = (ramcoder_shiftbits (get_step c))\<lparr>rc_code := push_bit 1 (rc_code (get_step c)) OR word_of_int (if ?b then 1 else 0)\<rparr>"
  have "next_bits hp (?b # butlast (drop 16 (bitsof 0 ?es)))" using step.prems es(2) g(2) l17 by (simp add: window_def)
  from hgetbit_ok [OF this] have h: "hgetbit hp = Some (if ?b then 1 else 0, skip_bits 1 hp)" "next_bits (skip_bits 1 hp) (butlast (drop 16 (bitsof 0 ?es)))"
    by simp_all
  from g(1) code_shift [OF _ l] have "window d (skip_bits 1 hp) ?es" using h(2) by (auto simp: window_def d_def)
  moreover have "lo d = shift_ev e l" "hi d = shift_ev e u + 1"
    using get_step_interval [OF v] step.prems(1,2) by (simp_all add: d_def shift_frame)
  moreover have "ramcoder_getbits m hp c = ramcoder_getbits (m + 1) (skip_bits 1 hp) d" using getbits_step [OF v h(1), of m] by (simp add: d_def)
  moreover have "model d = model c" by (simp add: d_def get_step_def)
  ultimately show ?case using step.IH [of d es' "skip_bits 1 hp" "m + 1"] es(1) step.prems by simp
qed

end
