(* ===== verification/RamcoderSymbols.thy ===== *)
theory RamcoderSymbols
  imports Ramcoder777
begin

text \<open>
  How the arithmetic coder of \<open>plugins/utils/ramcoder.c\<close> codes one symbol: the frequencies and
  their halving, the search of the decoder, the scaling of the interval, and what one symbol costs.
\<close>

section \<open>The frequencies\<close>

definition freqs :: "ramcoder \<Rightarrow> nat list" where
  "freqs c = map unat (rc_ranges c)"

text \<open>A list of cumulative frequencies: 257 symbols, each with a positive frequency.\<close>

definition cum_ok :: "nat list \<Rightarrow> bool" where
  "cum_ok R \<longleftrightarrow> length R = 258 \<and> R ! 0 = 0 \<and> (\<forall>i < 257. R ! i < R ! Suc i)"

definition model_ok :: "ramcoder \<Rightarrow> bool" where
  "model_ok c \<longleftrightarrow> cum_ok (freqs c) \<and> freqs c ! 257 = unat (rc_cumulativeProb c) \<and> unat (rc_cumulativeProb c) < 2 ^ 14
     \<and> rc_lastsymbol c = 256 \<and> rc_upper_lastsymbol c = 257"

lemma cum_mono: "cum_ok R \<Longrightarrow> i \<le> j \<Longrightarrow> j \<le> 257 \<Longrightarrow> R ! i \<le> R ! j"
proof (induction j)
  case (Suc j)
  show ?case
  proof (cases "i = Suc j")
    case False
    then have "R ! i \<le> R ! j" using Suc by simp
    moreover have "R ! j < R ! Suc j" using Suc.prems by (simp add: cum_ok_def)
    ultimately show ?thesis by simp
  qed simp
qed simp

lemma ofold_bump:
  assumes "a \<le> b" and "b \<le> length rs"
  shows "ofold bump_range [a..<b] rs = Some (map (\<lambda>i. rs ! i + of_bool (a \<le> i \<and> i < b)) [0..<length rs])"
  using assms
proof (induction b rule: dec_induct)
  case base
  then show ?case by (auto intro!: nth_equalityI)
next
  case (step b)
  let ?r = "map (\<lambda>i. rs ! i + of_bool (a \<le> i \<and> i < b)) [0..<length rs]"
  have "bump_range b ?r = Some (?r[b := rs ! b + 1])" using step.prems by (simp add: bump_range_def mem_simps)
  moreover have "?r[b := rs ! b + 1] = map (\<lambda>i. rs ! i + of_bool (a \<le> i \<and> i < Suc b)) [0..<length rs]"
    using step by (auto intro!: nth_equalityI simp: nth_list_update less_Suc_eq)
  ultimately show ?case using step by (simp add: ofold_append)
qed

text \<open>One halving step on natural numbers, and the halved frequencies.\<close>

fun halved :: "nat list \<Rightarrow> nat \<Rightarrow> nat" where
  "halved R 0 = R ! 0"
| "halved R (Suc i) = halved R i + (if R ! Suc i - R ! i \<le> 2 then 1 else (R ! Suc i - R ! i) div 2)"

lemma halved_bounds:
  assumes "cum_ok R" and "i \<le> 257"
  shows "halved R i \<le> R ! i \<and> 2 * halved R i \<le> R ! i + i \<and> R ! i \<le> 2 * halved R i + i"
  using assms(2)
proof (induction i)
  case 0
  have "R ! 0 = 0" using assms(1) by (simp add: cum_ok_def)
  then show ?case by simp
next
  case (Suc i)
  define d where "d = R ! Suc i - R ! i"
  have "R ! i < R ! Suc i" using assms(1) Suc.prems by (simp add: cum_ok_def)
  then have d: "R ! Suc i = R ! i + d" "1 \<le> d" by (simp_all add: d_def)
  have h: "halved R (Suc i) = halved R i + (if d \<le> 2 then 1 else d div 2)" by (simp add: d_def)
  show ?case
    using Suc.IH Suc.prems d unfolding h by auto
qed

lemma unat_add_small: "unat x + unat y < 2 ^ LENGTH('a) \<Longrightarrow> unat (x + y :: 'a::len word) = unat x + unat y"
  by (metis unat_add_lem)

lemma unat_sub_small: "unat y \<le> unat x \<Longrightarrow> unat (x - y :: 'a::len word) = unat x - unat y"
  by (simp add: unat_sub word_le_nat_alt)

lemma unat_ucast_32: "unat (ucast (x :: u16) :: u32) = unat x"
  using u16_bound [of x] by (simp add: unsigned_ucast_eq take_bit_nat_eq_self)

lemma halve_step:
  fixes p r v orig :: u16
  assumes "unat orig < unat r" and "unat p \<le> unat orig" and "unat cum = unat p"
  defines "v \<equiv> if r - orig \<le> 2 then p + 1 else p + (r - orig) div 2"
  shows "unat v = unat p + (if unat r - unat orig \<le> 2 then 1 else (unat r - unat orig) div 2)"
    and "unat (cum + (ucast v - ucast p) :: u32) = unat v"
proof -
  have d: "unat (r - orig) = unat r - unat orig" using assms(1) by (simp add: unat_sub_small)
  have r: "unat r < 2 ^ 16" by (rule u16_bound)
  have le: "r - orig \<le> 2 \<longleftrightarrow> unat r - unat orig \<le> 2" using d by (simp add: word_le_nat_alt)
  have h: "unat ((r - orig) div 2) = (unat r - unat orig) div 2" using d by (simp add: unat_div)
  show v: "unat v = unat p + (if unat r - unat orig \<le> 2 then 1 else (unat r - unat orig) div 2)"
  proof (cases "unat r - unat orig \<le> 2")
    case True
    then show ?thesis using le assms(1,2) r unat_u16_Suc [of p] by (simp add: v_def)
  next
    case False
    have "unat p + (unat r - unat orig) div 2 < 2 ^ 16" using assms(1,2) r by linarith
    then show ?thesis using False le h unat_add_small [of p "(r - orig) div 2"] by (simp add: v_def)
  qed
  then have "unat p \<le> unat v" by simp
  then have "unat (ucast v - ucast p :: u32) = unat v - unat p"
    using unat_sub_small [of "ucast p :: u32" "ucast v"] by (simp only: unat_ucast_32)
  then show "unat (cum + (ucast v - ucast p) :: u32) = unat v"
    using unat_add_small [of cum "ucast v - ucast p"] assms(3) \<open>unat p \<le> unat v\<close> u16_bound [of v] by simp
qed

lemma ofold_halve:
  assumes "cum_ok (map unat rs)" and "m \<le> 257"
  shows "\<exists>rs' cum. ofold halve_range [1..<Suc m] (rs, 0, 0) = Some (rs', rs ! m, cum) \<and> length rs' = 258
    \<and> (\<forall>i < 258. if i \<le> m then unat (rs' ! i) = halved (map unat rs) i else rs' ! i = rs ! i)
    \<and> unat cum = halved (map unat rs) m"
  using assms(2)
proof (induction m)
  case 0
  then show ?case using assms(1) by (auto simp: cum_ok_def unsigned_eq_0_iff intro!: exI [of _ rs] exI [of _ "0 :: u32"])
next
  case (Suc m)
  let ?R = "map unat rs"
  have l: "length rs = 258" using assms(1) by (simp add: cum_ok_def)
  from Suc obtain rs' cum where IH: "ofold halve_range [1..<Suc m] (rs, 0, 0) = Some (rs', rs ! m, cum)" "length rs' = 258"
      "\<forall>i < 258. if i \<le> m then unat (rs' ! i) = halved ?R i else rs' ! i = rs ! i" "unat cum = halved ?R m" by auto
  define v where "v = (if rs ! Suc m - rs ! m \<le> 2 then rs' ! m + 1 else rs' ! m + (rs ! Suc m - rs ! m) div 2)"
  have p: "unat (rs' ! m) = halved ?R m" "rs' ! Suc m = rs ! Suc m" using IH(3) Suc.prems by auto
  have s: "unat (rs ! m) < unat (rs ! Suc m)" using assms(1) Suc.prems l by (auto simp: cum_ok_def)
  have b: "unat (rs' ! m) \<le> unat (rs ! m)" using halved_bounds [OF assms(1), of m] p Suc.prems l by simp
  note st = halve_step [OF s b, of cum, folded v_def]
  have v: "unat v = halved ?R (Suc m)" using st(1) IH(4) p Suc.prems l by simp
  have "halve_range (Suc m) (rs', rs ! m, cum) = Some (rs'[Suc m := v], rs ! Suc m, cum + (ucast v - ucast (rs' ! m)))"
    using IH(2) p(2) Suc.prems aget_nat [of m rs'] aget_nat [of "Suc m" rs'] aput_nat [of "Suc m" rs' v]
    by (simp add: halve_range_def Let_def v_def [symmetric])
  then have "ofold halve_range [1..<Suc (Suc m)] (rs, 0, 0) = Some (rs'[Suc m := v], rs ! Suc m, cum + (ucast v - ucast (rs' ! m)))"
    using IH(1) by (simp add: ofold_append)
  moreover have "\<forall>i < 258. if i \<le> Suc m then unat (rs'[Suc m := v] ! i) = halved ?R i else rs'[Suc m := v] ! i = rs ! i"
    using IH(2,3) v Suc.prems by (auto simp: nth_list_update le_Suc_eq)
  ultimately show ?case using st(2) IH(2,4) p(1) v by simp
qed

definition bumped :: "nat \<Rightarrow> nat list \<Rightarrow> nat list" where
  "bumped s R = map (\<lambda>i. R ! i + of_bool (s < i)) [0..<258]"

lemma bumped_ok: "cum_ok R \<Longrightarrow> cum_ok (bumped s R)"
  by (auto simp: cum_ok_def bumped_def of_bool_def)

lemma halved_ok: "cum_ok R \<Longrightarrow> cum_ok (map (halved R) [0..<258])"
  by (auto simp: cum_ok_def)

definition end_freq :: "ramcoder \<Rightarrow> nat" where
  "end_freq c = freqs c ! 257 - freqs c ! 256"

text \<open>The frequencies after a symbol: its own and all later sums grow, and at the limit all are halved.\<close>

definition next_freqs :: "nat \<Rightarrow> nat list \<Rightarrow> nat list" where
  "next_freqs s R = (if R ! 257 + 1 < 2 ^ 14 then bumped s R else map (halved (bumped s R)) [0..<258])"

lemma map_unat_bump:
  assumes "length (rs :: u16 list) = 258" and "\<forall>i < 258. unat (rs ! i) < 2 ^ 14"
  shows "map unat (map (\<lambda>i. rs ! i + of_bool (s + 1 \<le> i \<and> i < 258)) [0..<length rs]) = bumped s (map unat rs)"
proof (rule nth_equalityI)
  fix i assume "i < length (map unat (map (\<lambda>i. rs ! i + of_bool (s + 1 \<le> i \<and> i < 258)) [0..<length rs]))"
  then have i: "i < 258" using assms(1) by simp
  then have "unat (rs ! i) + 1 < 2 ^ 16" using assms(2) by (auto dest!: spec [of _ i])
  then have "unat (rs ! i + of_bool (s + 1 \<le> i)) = unat (rs ! i) + of_bool (s < i)" using unat_u16_Suc [of "rs ! i"] by auto
  then show "map unat (map (\<lambda>i. rs ! i + of_bool (s + 1 \<le> i \<and> i < 258)) [0..<length rs]) ! i = bumped s (map unat rs) ! i"
    using i assms(1) by (simp add: bumped_def)
qed (use assms in \<open>simp add: bumped_def\<close>)

lemma model_small: "model_ok c \<Longrightarrow> i \<le> 257 \<Longrightarrow> freqs c ! i < 2 ^ 14"
  using cum_mono [of "freqs c" i 257] by (simp add: model_ok_def)

lemma update_freqs:
  assumes "model_ok c" and "s \<le> 256"
  shows "\<exists>rs cum. update_model (int s) c = Some (c\<lparr>rc_ranges := rs, rc_cumulativeProb := cum, rc_counter := rc_counter c + 1\<rparr>)
    \<and> map unat rs = next_freqs s (freqs c) \<and> unat cum = next_freqs s (freqs c) ! 257"
proof -
  have l: "length (rc_ranges c) = 258" and u: "unat (rc_upper_lastsymbol c) = 257" and m: "cum_ok (freqs c)"
    using assms(1) by (auto simp: model_ok_def cum_ok_def freqs_def)
  have sm: "\<forall>i < 258. unat (rc_ranges c ! i) < 2 ^ 14" using model_small [OF assms(1)] l by (auto simp: freqs_def)
  define rs where "rs = map (\<lambda>i. rc_ranges c ! i + of_bool (s + 1 \<le> i \<and> i < 258)) [0..<length (rc_ranges c)]"
  have R: "map unat rs = bumped s (freqs c)" using map_unat_bump [OF l sm] by (simp add: rs_def freqs_def)
  have b: "ofold bump_range [nat (int s + 1)..<unat (rc_upper_lastsymbol c) + 1] (rc_ranges c) = Some rs"
    using ofold_bump [of "s + 1" 258 "rc_ranges c"] l assms(2) unfolding u rs_def by (simp add: nat_add_distrib del: upt_Suc)
  have u1: "[1..<258] = [1..<unat (rc_upper_lastsymbol c) + 1]" using u by simp
  have c: "unat (rc_cumulativeProb c) = freqs c ! 257" "unat (rc_cumulativeProb c) < 2 ^ 14" using assms(1) by (auto simp: model_ok_def)
  have c1: "unat (rc_cumulativeProb c + 1) = bumped s (freqs c) ! 257" "unat (rc_cumulativeProb c + 1) = freqs c ! 257 + 1"
    using c unat_add_small [of "rc_cumulativeProb c" 1] assms(2) by (simp_all add: bumped_def)
  have lim: "2 ^ 14 \<le> rc_cumulativeProb c + 1 \<longleftrightarrow> \<not> freqs c ! 257 + 1 < 2 ^ 14" using c1(2) by (simp add: word_le_nat_alt not_less)
  show ?thesis
  proof (cases "freqs c ! 257 + 1 < 2 ^ 14")
    case True
    then show ?thesis using b R c1 lim by (auto simp: update_model_def Let_def next_freqs_def)
  next
    case False
    have "cum_ok (map unat rs)" using R bumped_ok [OF m] by simp
    from ofold_halve [OF this, of 257] obtain rs' cum where h: "ofold halve_range [1..<258] (rs, 0, 0) = Some (rs', rs ! 257, cum)"
        "length rs' = 258" "\<forall>i < 258. unat (rs' ! i) = halved (map unat rs) i" "unat cum = halved (map unat rs) 257" by (auto simp del: upt_rec_numeral)
    have "map unat rs' = map (halved (bumped s (freqs c))) [0..<258]" using h(2,3) R by (auto intro!: nth_equalityI)
    then show ?thesis using b h(1,4) [unfolded u1] R lim False by (auto simp: update_model_def Let_def next_freqs_def)
  qed
qed

lemma next_freqs_ok:
  assumes "cum_ok R" and "R ! 257 < 2 ^ 14" and "s \<le> 256"
  shows "cum_ok (next_freqs s R)" and "next_freqs s R ! 257 < 2 ^ 14"
    and "min (R ! 257 + 1) 8000 \<le> next_freqs s R ! 257"
    and "next_freqs s R ! 257 \<le> R ! 257 + 1"
    and "next_freqs s R ! 257 - next_freqs s R ! 256 \<le> R ! 257 - R ! 256 + of_bool (s = 256)"
proof -
  have b: "bumped s R ! 257 = R ! 257 + 1" "bumped s R ! 256 = R ! 256 + of_bool (s < 256)" using assms(3) by (simp_all add: bumped_def)
  note hb = halved_bounds [OF bumped_ok [OF assms(1), of s], of 257]
  have "R ! i < R ! Suc i" if "i < 257" for i using assms(1) that by (simp add: cum_ok_def)
  from this [of 256] have s: "R ! 256 < R ! 257" by simp
  have h: "halved (bumped s R) 257 = halved (bumped s R) 256 + (if bumped s R ! 257 - bumped s R ! 256 \<le> 2 then 1 else (bumped s R ! 257 - bumped s R ! 256) div 2)"
    using halved.simps(2) [of "bumped s R" 256] by simp
  show "cum_ok (next_freqs s R)" by (simp add: next_freqs_def bumped_ok halved_ok assms(1))
  show "next_freqs s R ! 257 < 2 ^ 14" using b(1) hb assms(2) by (auto simp: next_freqs_def)
  show "min (R ! 257 + 1) 8000 \<le> next_freqs s R ! 257" using b(1) hb assms(2) by (auto simp: next_freqs_def)
  show "next_freqs s R ! 257 \<le> R ! 257 + 1" using b(1) hb by (auto simp: next_freqs_def)
  show "next_freqs s R ! 257 - next_freqs s R ! 256 \<le> R ! 257 - R ! 256 + of_bool (s = 256)"
    using b h s assms(3) by (auto simp: next_freqs_def of_bool_def)
qed

lemma update_model_ok:
  assumes "model_ok c" and "s \<le> 256"
  shows "\<exists>c'. update_model (int s) c = Some c' \<and> model_ok c' \<and> lo c' = lo c \<and> hi c' = hi c \<and> rc_code c' = rc_code c
    \<and> rc_underflowBits c' = rc_underflowBits c
    \<and> min (unat (rc_cumulativeProb c) + 1) 8000 \<le> unat (rc_cumulativeProb c') \<and> unat (rc_cumulativeProb c') \<le> unat (rc_cumulativeProb c) + 1
    \<and> end_freq c' \<le> end_freq c + of_bool (s = 256)"
proof -
  have m: "cum_ok (freqs c)" "freqs c ! 257 < 2 ^ 14" "freqs c ! 257 = unat (rc_cumulativeProb c)" using assms(1) by (auto simp: model_ok_def)
  obtain rs cum where u: "update_model (int s) c = Some (c\<lparr>rc_ranges := rs, rc_cumulativeProb := cum, rc_counter := rc_counter c + 1\<rparr>)"
      "map unat rs = next_freqs s (freqs c)" "unat cum = next_freqs s (freqs c) ! 257" using update_freqs [OF assms] by blast
  define c' where "c' = c\<lparr>rc_ranges := rs, rc_cumulativeProb := cum, rc_counter := rc_counter c + 1\<rparr>"
  have f: "freqs c' = next_freqs s (freqs c)" using u(2) by (simp add: freqs_def c'_def)
  note n = next_freqs_ok [OF m(1,2) assms(2)]
  have "model_ok c'" using n(1,2) assms(1) u(3) f by (simp add: model_ok_def c'_def)
  moreover have "end_freq c' \<le> end_freq c + of_bool (s = 256)" using n(5) f by (simp add: end_freq_def)
  moreover have "min (unat (rc_cumulativeProb c) + 1) 8000 \<le> unat (rc_cumulativeProb c')" using n(3) m(3) u(3) by (simp add: c'_def)
  moreover have "unat (rc_cumulativeProb c') \<le> unat (rc_cumulativeProb c) + 1" using n(4) m(3) u(3) by (simp add: c'_def)
  moreover have "lo c' = lo c" "hi c' = hi c" "rc_code c' = rc_code c" "rc_underflowBits c' = rc_underflowBits c"
    by (simp_all add: c'_def lo_def hi_def)
  ultimately show ?thesis using u(1) by (metis c'_def)
qed

lemma bsearch_finds:
  assumes c: "cum_ok (map unat rs)" and s: "s \<le> 256" "unat (rs ! s) \<le> unat p" "unat p < unat (rs ! Suc s)"
  shows "0 \<le> f \<Longrightarrow> f \<le> int s \<Longrightarrow> int s \<le> lst \<Longrightarrow> lst \<le> 257 \<Longrightarrow> bsearch_loop p rs f lst = Some (int s)"
proof (induction "nat (lst + 1 - f)" arbitrary: f lst rule: less_induct)
  case less
  define m where "m = nat (f + (lst - f) div 2)"
  have m: "f + (lst - f) div 2 = int m" "f \<le> int m" "int m \<le> lst" "m \<le> 257" using less.prems by (auto simp: m_def)
  have l: "length rs = 258" using c by (simp add: cum_ok_def)
  have mono: "unat (rs ! i) \<le> unat (rs ! j)" if "i \<le> j" "j \<le> 257" for i j using cum_mono [OF c that] that l by simp
  have a: "aget rs (int m) = Some (rs ! m)" using m(4) l by (simp add: mem_simps)
  consider (left) "s < m" | (right) "m < s" | (here) "m = s" by linarith
  then show ?case
  proof cases
    case left
    then have "unat p < unat (rs ! m)" using mono [of "Suc s" m] s(3) m(4) by simp
    moreover have "bsearch_loop p rs f (int m - 1) = Some (int s)" using less.hyps [of "int m - 1" f] less.prems left m by simp
    ultimately show ?thesis using m a less.prems by (simp add: bsearch_loop.simps [of p rs f] word_less_nat_alt)
  next
    case right
    then have "unat (rs ! m) \<le> unat p" "unat (rs ! Suc m) \<le> unat p" using mono [of m s] mono [of "Suc m" s] s(1,2) by simp_all
    moreover have "aget rs (int m + 1) = Some (rs ! Suc m)" using aget_nat [of "Suc m" rs] l right s(1) by (simp add: add.commute)
    moreover have "bsearch_loop p rs (int m + 1) lst = Some (int s)" using less.hyps [of lst "int m + 1"] less.prems right m by simp
    ultimately show ?thesis using m a less.prems by (simp add: bsearch_loop.simps [of p rs f] word_less_nat_alt word_le_nat_alt not_less)
  next
    case here
    moreover have "aget rs (int m + 1) = Some (rs ! Suc m)" using aget_nat [of "Suc m" rs] l here s(1) by (simp add: add.commute)
    ultimately show ?thesis using m a s less.prems
      by (simp add: bsearch_loop.simps [of p rs f] word_less_nat_alt word_le_nat_alt not_less not_le)
  qed
qed

section \<open>Scaling\<close>

definition width :: "ramcoder \<Rightarrow> nat" where
  "width c = hi c - lo c + 1"

definition cutpoint :: "ramcoder \<Rightarrow> nat \<Rightarrow> nat" where
  "cutpoint c s = freqs c ! s * width c div unat (rc_cumulativeProb c)"

text \<open>A coder between two symbols.\<close>

definition coder_ok :: "ramcoder \<Rightarrow> bool" where
  "coder_ok c \<longleftrightarrow> model_ok c \<and> valid_iv (lo c) (hi c) \<and> next_ev (lo c) (hi c) = None"

lemma coder_bounds:
  assumes "coder_ok c"
  shows "2 ^ 14 < width c" "width c \<le> 2 ^ 16" "0 < unat (rc_cumulativeProb c)" "unat (rc_cumulativeProb c) < 2 ^ 14"
    "lo c + width c = hi c + 1" "hi c < 2 ^ 16"
proof -
  have v: "valid_iv (lo c) (hi c)" "next_ev (lo c) (hi c) = None" "model_ok c" using assms by (simp_all add: coder_ok_def)
  show "2 ^ 14 < width c" "width c \<le> 2 ^ 16" "lo c + width c = hi c + 1" "hi c < 2 ^ 16"
    using next_None [OF v(1,2)] v(1) by (auto simp: width_def valid_iv_def)
  have m: "cum_ok (freqs c)" using v(3) by (simp add: model_ok_def)
  then have "\<forall>i < 257. freqs c ! i < freqs c ! Suc i" by (simp add: cum_ok_def)
  then have "freqs c ! 0 < freqs c ! Suc 0" "freqs c ! Suc 0 \<le> freqs c ! 257" using cum_mono [OF m, of "Suc 0" 257] by simp_all
  then show "0 < unat (rc_cumulativeProb c)" using v(3) by (simp add: model_ok_def)
  show "unat (rc_cumulativeProb c) < 2 ^ 14" using v(3) by (simp add: model_ok_def)
qed

lemma cut_bounds:
  assumes "coder_ok c" and "s \<le> 256"
  shows "cutpoint c s < cutpoint c (Suc s)" "cutpoint c (Suc s) \<le> width c"
    and "cutpoint c (Suc s) - cutpoint c s \<le> (freqs c ! Suc s - freqs c ! s) * width c div unat (rc_cumulativeProb c) + 1"
proof -
  define C w a b where "C = unat (rc_cumulativeProb c)" and "w = width c" and "a = freqs c ! s" and "b = freqs c ! Suc s"
  note cb = coder_bounds [OF assms(1)]
  have C: "0 < C" "C < w" using cb by (simp_all add: C_def w_def)
  have m: "model_ok c" using assms(1) by (simp add: coder_ok_def)
  then have ab: "a < b" "b \<le> C" using assms(2) cum_mono [of "freqs c" "Suc s" 257] by (auto simp: model_ok_def cum_ok_def a_def b_def C_def)
  have "a * w + C \<le> b * w"
  proof -
    have "(a + 1) * w \<le> b * w" using ab by (intro mult_le_mono1) simp
    then show ?thesis using C by simp
  qed
  then have "(a * w + C) div C \<le> b * w div C" by (rule div_le_mono)
  then have "a * w div C + 1 \<le> b * w div C" using C by simp
  then show "cutpoint c s < cutpoint c (Suc s)" by (simp add: cutpoint_def a_def b_def w_def C_def)
  have "b * w div C \<le> C * w div C" using ab by (intro div_le_mono mult_le_mono1)
  then show "cutpoint c (Suc s) \<le> width c" using C by (simp add: cutpoint_def b_def w_def C_def)
  have "a * w mod C + (b - a) * w mod C < 2 * C" using mod_less_divisor [OF C(1), of "a * w"] mod_less_divisor [OF C(1), of "(b - a) * w"] by linarith
  from less_mult_imp_div_less [OF this] have d2: "(a * w mod C + (b - a) * w mod C) div C \<le> 1" by simp
  have "b * w = a * w + (b - a) * w" using ab by (simp add: diff_mult_distrib)
  then have "b * w div C \<le> a * w div C + (b - a) * w div C + 1"
    using div_add1_eq [of "a * w" "(b - a) * w" C] d2 by simp
  then show "cutpoint c (Suc s) - cutpoint c s \<le> (freqs c ! Suc s - freqs c ! s) * width c div unat (rc_cumulativeProb c) + 1"
    by (simp add: cutpoint_def a_def b_def w_def C_def)
qed

lemma unat_mult_small: "unat x * unat y < 2 ^ LENGTH('a) \<Longrightarrow> unat (x * y :: 'a::len word) = unat x * unat y"
  by (metis unat_mult_lem)

lemma mult_bound_30: "a < 2 ^ 14 \<Longrightarrow> w \<le> 2 ^ 16 \<Longrightarrow> a * w < (2 :: nat) ^ 32"
proof -
  assume "a < 2 ^ 14" "w \<le> 2 ^ 16"
  then have "a * w \<le> 2 ^ 14 * 2 ^ 16" by (intro mult_le_mono) simp_all
  then show ?thesis by simp
qed

lemma range_width:
  assumes "valid_iv (lo c) (hi c)"
  shows "unat (ucast (rc_upper c) - ucast (rc_lower c) + 1 :: u32) = width c"
proof -
  have "unat (ucast (rc_upper c) - ucast (rc_lower c) :: u32) = hi c - lo c"
    using unat_sub_small [of "ucast (rc_lower c) :: u32" "ucast (rc_upper c)"] assms by (simp add: unat_ucast_32 lo_def hi_def valid_iv_def)
  then show ?thesis using unat_add_small [of "ucast (rc_upper c) - ucast (rc_lower c) :: u32" 1] assms
    by (auto simp: width_def valid_iv_def)
qed

lemma unat_of_nat_16: "n < 2 ^ 16 \<Longrightarrow> unat (word_of_nat n :: u16) = n"
  by (simp only: unsigned_of_nat take_bit_eq_mod) simp

lemma scale_ok:
  assumes "coder_ok c" and "s \<le> 256"
  shows "\<exists>c'. scale_symbol (int s) c = Some c' \<and> lo c' = lo c + cutpoint c s \<and> hi c' = lo c + cutpoint c (Suc s) - 1
    \<and> model c' = model c \<and> rc_code c' = rc_code c \<and> rc_underflowBits c' = rc_underflowBits c"
proof -
  note cb = coder_bounds [OF assms(1)] and cu = cut_bounds [OF assms]
  have m: "model_ok c" and v: "valid_iv (lo c) (hi c)" using assms(1) by (simp_all add: coder_ok_def)
  have l: "length (rc_ranges c) = 258" using m by (simp add: model_ok_def cum_ok_def freqs_def)
  define r where "r = (ucast (rc_upper c) - ucast (rc_lower c) + 1 :: u32)"
  have r: "unat r = width c" using range_width [OF v] by (simp add: r_def)
  define q where "q i = (ucast (rc_ranges c ! i) * r) div rc_cumulativeProb c" for i
  have q: "unat (q i) = cutpoint c i" if "i \<le> 257" for i
  proof -
    have f: "unat (rc_ranges c ! i) = freqs c ! i" using that l by (simp add: freqs_def)
    have "unat (ucast (rc_ranges c ! i) * r) = freqs c ! i * width c"
      using unat_mult_small [of "ucast (rc_ranges c ! i) :: u32" r] mult_bound_30 [OF model_small [OF m that] cb(2)]
      by (simp add: unat_ucast_32 r f)
    then show ?thesis by (simp add: q_def unat_div cutpoint_def)
  qed
  have e: "rc_lower c + ucast (q i) = word_of_nat (lo c + cutpoint c i)" if "i \<le> 257" for i
    using q [OF that, symmetric] by (simp add: lo_def)
  have "lo c + cutpoint c (Suc s) = Suc (lo c + cutpoint c (Suc s) - 1)" using cu(1) by simp
  then have "rc_lower c + ucast (q (Suc s)) - 1 = word_of_nat (lo c + cutpoint c (Suc s) - 1)"
    using e [of "Suc s"] assms(2) by (metis Suc_le_mono add_diff_cancel_right' of_nat_Suc add.commute eval_nat_numeral(3))
  then have "unat (rc_lower c + ucast (q (Suc s)) - 1) = lo c + cutpoint c (Suc s) - 1" "unat (rc_lower c + ucast (q s)) = lo c + cutpoint c s"
    using e [of s] assms(2) cu(1,2) cb(5,6) by (simp_all only: unat_of_nat_16)
  moreover have "aget (rc_ranges c) (int s + 1) = Some (rc_ranges c ! Suc s)" "aget (rc_ranges c) (int s) = Some (rc_ranges c ! s)"
    using aget_nat [of "Suc s" "rc_ranges c"] aget_nat [of s "rc_ranges c"] l assms(2) by (simp_all add: add.commute)
  moreover have "rc_cumulativeProb c \<noteq> 0" using cb(3) by auto
  ultimately show ?thesis by (simp add: scale_symbol_def Let_def r_def [symmetric] q_def [symmetric] lo_def hi_def model_def)
qed

lemma unscaled_ok:
  assumes "coder_ok c" and "s \<le> 256" and "lo c + cutpoint c s \<le> unat (rc_code c)" and "unat (rc_code c) < lo c + cutpoint c (Suc s)"
  shows "\<exists>p. RAMDECODER_UNSCALED c = Some p \<and> freqs c ! s \<le> unat p \<and> unat p < freqs c ! Suc s"
proof -
  define C w d where "C = unat (rc_cumulativeProb c)" and "w = width c" and "d = unat (rc_code c) - lo c"
  note cb = coder_bounds [OF assms(1)] and cu = cut_bounds [OF assms(1,2)]
  have v: "valid_iv (lo c) (hi c)" using assms(1) by (simp add: coder_ok_def)
  have dw: "d < w" "cutpoint c s \<le> d" "d < cutpoint c (Suc s)" using assms(3,4) cu(2) by (auto simp: d_def w_def)
  have "unat (ucast (rc_code c) - ucast (rc_lower c) :: u32) = d"
    using unat_sub_small [of "ucast (rc_lower c) :: u32" "ucast (rc_code c)"] assms(3) by (simp add: unat_ucast_32 lo_def d_def)
  then have d1: "unat (ucast (rc_code c) - ucast (rc_lower c) + 1 :: u32) = d + 1"
    using unat_add_small [of "ucast (rc_code c) - ucast (rc_lower c) :: u32" 1] dw(1) cb(2) by (simp add: w_def)
  have b: "C * (d + 1) < 2 ^ 32" using mult_bound_30 [of C "d + 1"] cb(2,4) dw(1) by (simp add: C_def w_def)
  then have m: "unat ((ucast (rc_code c) - ucast (rc_lower c) + 1) * rc_cumulativeProb c :: u32) = (d + 1) * C"
    using unat_mult_small [of "ucast (rc_code c) - ucast (rc_lower c) + 1 :: u32" "rc_cumulativeProb c"] d1 by (simp add: C_def mult.commute)
  have C: "0 < C" using cb(3) by (simp add: C_def)
  then have "1 \<le> (d + 1) * C" by (simp add: Suc_le_eq)
  then have u: "unat ((ucast (rc_code c) - ucast (rc_lower c) + 1) * rc_cumulativeProb c - 1 :: u32) = (d + 1) * C - 1"
    using unat_sub_small [of 1 "(ucast (rc_code c) - ucast (rc_lower c) + 1) * rc_cumulativeProb c :: u32"] m by simp
  define p where "p = ((ucast (rc_code c) - ucast (rc_lower c) + 1) * rc_cumulativeProb c - 1) div (ucast (rc_upper c) - ucast (rc_lower c) + 1 :: u32)"
  have w: "0 < w" "unat (ucast (rc_upper c) - ucast (rc_lower c) + 1 :: u32) = w" using cb(1) range_width [OF v] by (simp_all add: w_def)
  have p: "unat p = ((d + 1) * C - 1) div w" using u w by (simp add: p_def unat_div)
  have "RAMDECODER_UNSCALED c = Some p" using w by (auto simp: RAMDECODER_UNSCALED_def Let_def p_def)
  moreover have "freqs c ! s \<le> unat p"
  proof -
    have "freqs c ! s * w < (d + 1) * C" using dw(2) C by (simp add: cutpoint_def w_def [symmetric] C_def [symmetric] div_less_iff_less_mult [symmetric] less_Suc_eq_le del: mult_Suc)
    then have "freqs c ! s * w \<le> (d + 1) * C - 1" by simp
    then show ?thesis using w(1) p by (simp add: less_eq_div_iff_mult_less_eq)
  qed
  moreover have "unat p < freqs c ! Suc s"
  proof -
    have "(d + 1) * C \<le> freqs c ! Suc s * w" using dw(3) C by (simp add: cutpoint_def w_def [symmetric] C_def [symmetric] less_eq_div_iff_mult_less_eq [symmetric] Suc_le_eq del: mult_Suc)
    then have "(d + 1) * C - 1 < freqs c ! Suc s * w" using C by (simp add: less_eq_Suc_le)
    then show ?thesis using w(1) p by (simp add: div_less_iff_less_mult)
  qed
  ultimately show ?thesis by blast
qed

lemma search_ok:
  assumes "coder_ok c" and "s \<le> 256" and "lo c + cutpoint c s \<le> unat (rc_code c)" and "unat (rc_code c) < lo c + cutpoint c (Suc s)"
  shows "(do { p \<leftarrow> RAMDECODER_UNSCALED c; ramdecoder_bsearch (ucast p) c }) = Some (int s)"
proof -
  obtain p where p: "RAMDECODER_UNSCALED c = Some p" "freqs c ! s \<le> unat p" "unat p < freqs c ! Suc s" using unscaled_ok [OF assms] by blast
  have m: "model_ok c" using assms(1) by (simp add: coder_ok_def)
  then have l: "length (rc_ranges c) = 258" "cum_ok (map unat (rc_ranges c))" "unat (rc_upper_lastsymbol c) = 257"
    by (auto simp: model_ok_def cum_ok_def freqs_def)
  have "unat p < 2 ^ 16" using p(3) model_small [OF m, of "Suc s"] assms(2) by simp
  then have "unat (ucast p :: u16) = unat p" by (simp add: unsigned_ucast_eq take_bit_nat_eq_self)
  then have "bsearch_loop (ucast p) (rc_ranges c) 0 257 = Some (int s)"
    using p(2,3) l assms(2) by (intro bsearch_finds) (simp_all add: freqs_def)
  then show ?thesis using p(1) l(3) by (simp add: ramdecoder_bsearch_def)
qed

section \<open>One symbol\<close>

definition twin :: "ramcoder \<Rightarrow> ramcoder \<Rightarrow> bool" where
  "twin c d \<longleftrightarrow> rc_lower d = rc_lower c \<and> rc_upper d = rc_upper c \<and> model d = model c"

definition prep :: "nat \<Rightarrow> ramcoder \<Rightarrow> ramcoder option" where
  "prep s c = scale_symbol (int s) c \<bind> update_model (int s)"

lemma model_cong:
  assumes "model d = model c"
  shows "model_ok d = model_ok c" "freqs d = freqs c" "rc_cumulativeProb d = rc_cumulativeProb c" "end_freq d = end_freq c"
  using assms by (auto simp: model_def model_ok_def freqs_def end_freq_def)

lemma twin_same: "twin c d \<Longrightarrow> lo d = lo c \<and> hi d = hi c \<and> cutpoint d s = cutpoint c s \<and> coder_ok d = coder_ok c"
  using model_cong [of d c] by (auto simp: twin_def lo_def hi_def cutpoint_def width_def coder_ok_def)

lemma twinI: "lo d = lo c \<Longrightarrow> hi d = hi c \<Longrightarrow> model d = model c \<Longrightarrow> twin c d"
  by (auto simp: twin_def lo_def hi_def unsigned_word_eqI)

lemma twin_eq: "twin c d \<longleftrightarrow> d = c\<lparr>rc_code := rc_code d, rc_underflowBits := rc_underflowBits d\<rparr>"
  by (cases c, cases d) (auto simp: twin_def model_def)

lemma prep_coded:
  "prep s (c\<lparr>rc_code := x, rc_underflowBits := k\<rparr>) = map_option (\<lambda>c. c\<lparr>rc_code := x, rc_underflowBits := k\<rparr>) (prep s c)"
  by (auto simp: prep_def scale_symbol_def update_model_def Let_def map_option_bind o_def split: bind_split option.splits if_splits prod.splits
        intro!: Option.bind_cong)

lemma prep_ok:
  assumes "coder_ok c" and "s \<le> 256"
  shows "\<exists>c'. prep s c = Some c' \<and> model_ok c' \<and> lo c' = lo c + cutpoint c s \<and> hi c' = lo c + cutpoint c (Suc s) - 1
    \<and> rc_code c' = rc_code c \<and> rc_underflowBits c' = rc_underflowBits c
    \<and> min (unat (rc_cumulativeProb c) + 1) 8000 \<le> unat (rc_cumulativeProb c') \<and> unat (rc_cumulativeProb c') \<le> unat (rc_cumulativeProb c) + 1
    \<and> end_freq c' \<le> end_freq c + of_bool (s = 256)"
proof -
  obtain c1 where c1: "scale_symbol (int s) c = Some c1" "lo c1 = lo c + cutpoint c s" "hi c1 = lo c + cutpoint c (Suc s) - 1"
      "model c1 = model c" "rc_code c1 = rc_code c" "rc_underflowBits c1 = rc_underflowBits c" using scale_ok [OF assms] by blast
  have "model_ok c1" using model_cong [OF c1(4)] assms(1) by (simp add: coder_ok_def)
  from update_model_ok [OF this assms(2)] show ?thesis
    using c1 model_cong [OF c1(4)] by (auto simp: prep_def)
qed

text \<open>The coder \<open>c\<close> has coded the symbol \<open>s\<close> with the events \<open>es\<close> and is now \<open>c'\<close>.\<close>

definition coded :: "ramcoder \<Rightarrow> nat \<Rightarrow> ev list \<Rightarrow> ramcoder \<Rightarrow> bool" where
  "coded c s es c' \<longleftrightarrow> (\<exists>c2. prep s c = Some c2 \<and> renorm (lo c2) (hi c2) = (es, lo c', hi c') \<and> model c' = model c2)"

lemma coded_ok:
  assumes "coded c s es c'" and "coder_ok c" and "s \<le> 256"
  shows "coder_ok c'" "width c' = (cutpoint c (Suc s) - cutpoint c s) * 2 ^ length es" "unat (rc_cumulativeProb c') \<le> unat (rc_cumulativeProb c) + 1"
    "min (unat (rc_cumulativeProb c) + 1) 8000 \<le> unat (rc_cumulativeProb c')" "end_freq c' \<le> end_freq c + of_bool (s = 256)"
proof -
  obtain c2 where c2: "prep s c = Some c2" "renorm (lo c2) (hi c2) = (es, lo c', hi c')" "model c' = model c2"
    using assms(1) by (auto simp: coded_def)
  have p: "model_ok c2" "lo c2 = lo c + cutpoint c s" "hi c2 = lo c + cutpoint c (Suc s) - 1"
    "min (unat (rc_cumulativeProb c) + 1) 8000 \<le> unat (rc_cumulativeProb c2)" "unat (rc_cumulativeProb c2) \<le> unat (rc_cumulativeProb c) + 1" "end_freq c2 \<le> end_freq c + of_bool (s = 256)"
    using prep_ok [OF assms(2,3)] c2(1) by auto
  note cu = cut_bounds [OF assms(2,3)] and cb = coder_bounds [OF assms(2)]
  have v: "valid_iv (lo c2) (hi c2)" "hi c2 - lo c2 + 1 = cutpoint c (Suc s) - cutpoint c s"
    using p(2,3) cu(1,2) cb(5,6) by (auto simp: valid_iv_def)
  have r: "valid_iv (lo c') (hi c')" "next_ev (lo c') (hi c') = None" "hi c' - lo c' + 1 = (cutpoint c (Suc s) - cutpoint c s) * 2 ^ length es"
    using renorm_result [OF v(1), unfolded v(2)] c2(2) by simp_all
  show "coder_ok c'" using r(1,2) p(1) model_cong(1) [OF c2(3)] by (simp add: coder_ok_def)
  show "width c' = (cutpoint c (Suc s) - cutpoint c s) * 2 ^ length es" using r(3) by (simp add: width_def)
  show "unat (rc_cumulativeProb c') \<le> unat (rc_cumulativeProb c) + 1" "min (unat (rc_cumulativeProb c) + 1) 8000 \<le> unat (rc_cumulativeProb c')" "end_freq c' \<le> end_freq c + of_bool (s = 256)"
    using p(4-) model_cong [OF c2(3)] by simp_all
qed

lemma coded_inside:
  assumes "coded c s es c'" and "coder_ok c" and "s \<le> 256" and "settled fs" and "inside (lo c') (hi c') fs"
  shows "inside (lo c + cutpoint c s) (lo c + cutpoint c (Suc s) - 1) (es @ fs)" and "inside (lo c) (hi c) (es @ fs)"
proof -
  obtain c2 where c2: "prep s c = Some c2" "renorm (lo c2) (hi c2) = (es, lo c', hi c')" using assms(1) by (auto simp: coded_def)
  have p: "lo c2 = lo c + cutpoint c s" "hi c2 = lo c + cutpoint c (Suc s) - 1" using prep_ok [OF assms(2,3)] c2(1) by auto
  note cu = cut_bounds [OF assms(2,3)] and cb = coder_bounds [OF assms(2)]
  have "valid_iv (lo c2) (hi c2)" using p cu(1,2) cb(5,6) by (auto simp: valid_iv_def)
  from inside_renorm [OF this c2(2) assms(4,5)] show i: "inside (lo c + cutpoint c s) (lo c + cutpoint c (Suc s) - 1) (es @ fs)" by (simp add: p)
  show "inside (lo c) (hi c) (es @ fs)" using inside_mono [OF i, of "lo c" "hi c"] cu(1,2) cb(5) by simp
qed

text \<open>
  How many events a symbol can cost: always at most 16, and on average at most 14 as long as the
  sum of the frequencies is at most 2 to the 13. The width of the interval is the account.
\<close>

definition rate :: "nat \<Rightarrow> ramcoder \<Rightarrow> nat \<Rightarrow> bool" where
  "rate r c n \<longleftrightarrow> r = 16 \<or> r = 14 \<and> unat (rc_cumulativeProb c) + n \<le> 2 ^ 13"

lemma coded_rate:
  assumes "coded c s es c'" and "coder_ok c" and "s \<le> 256" and "rate r c (Suc n)"
  shows "width c * 2 ^ length es \<le> width c' * 2 ^ r" and "rate r c' n"
proof -
  note ok = coded_ok [OF assms(1-3)] and cu = cut_bounds [OF assms(2,3)] and cb = coder_bounds [OF assms(2)]
  define k where "k = cutpoint c (Suc s) - cutpoint c s"
  have "width c \<le> k * 2 ^ r"
  proof (cases "r = 16")
    case True
    have "1 * 2 ^ 16 \<le> k * 2 ^ 16" using cu(1) by (intro mult_le_mono1) (simp add: k_def)
    then show ?thesis using cb(2) True by simp
  next
    case False
    then have r: "r = 14" "unat (rc_cumulativeProb c) \<le> 2 ^ 13" using assms(4) by (auto simp: rate_def)
    have "freqs c ! s < freqs c ! Suc s" using assms(2,3) by (auto simp: coder_ok_def model_ok_def cum_ok_def)
    then have "freqs c ! s * width c + width c \<le> freqs c ! Suc s * width c" using mult_le_mono1 [of "freqs c ! s + 1" "freqs c ! Suc s" "width c"] by simp
    from div_le_mono [OF this, of "unat (rc_cumulativeProb c)"]
    have "cutpoint c s + width c div unat (rc_cumulativeProb c) \<le> cutpoint c (Suc s)"
      unfolding cutpoint_def by (rule order_trans [rotated]) (subst div_add1_eq, simp)
    moreover have "width c div 2 ^ 13 \<le> width c div unat (rc_cumulativeProb c)" using r(2) cb(3) by (intro div_le_mono2)
    ultimately have "width c div 2 ^ 13 \<le> k" by (simp add: k_def)
    moreover have "width c < (width c div 2 ^ 13 + 1) * 2 ^ 13" by (simp add: dividend_less_div_times)
    moreover have "2 \<le> width c div 2 ^ 13" using cb(1) div_le_mono [of "2 ^ 14" "width c" "2 ^ 13"] by simp
    ultimately have "width c \<le> k * 2 ^ 14" by simp
    then show ?thesis using r(1) by simp
  qed
  then have "width c * 2 ^ length es \<le> k * 2 ^ r * 2 ^ length es" by (rule mult_le_mono1)
  then show "width c * 2 ^ length es \<le> width c' * 2 ^ r" using ok(2) by (simp add: k_def ac_simps)
  show "rate r c' n" using assms(4) ok(3) by (auto simp: rate_def)
qed

definition room :: "nat \<Rightarrow> nat \<Rightarrow> ramcoder \<Rightarrow> huffstream \<Rightarrow> bool" where
  "room r n c hp \<longleftrightarrow> rate r c n \<and> (\<forall>e. width c * 2 ^ e \<le> 2 ^ (16 + r * n) \<longrightarrow>
     unat (rc_underflowBits c) + e + 1 < 2 ^ 16 \<and> hp_bitoffset hp + unat (rc_underflowBits c) + e + 2 < 8 * hp_allocsize hp)"

lemma room_now:
  assumes "room r (Suc n) c hp" and "coded c s es c'" and "coder_ok c" and "s \<le> 256"
  shows "unat (rc_underflowBits c) + length es + 1 < 2 ^ 16" "hp_bitoffset hp + unat (rc_underflowBits c) + length es + 2 < 8 * hp_allocsize hp"
proof -
  have "width c' * 2 ^ r \<le> 2 ^ 16 * 2 ^ (r * Suc n)" using coder_bounds(2) [OF coded_ok(1) [OF assms(2-4)]] by (intro mult_le_mono) simp_all
  moreover have "width c * 2 ^ length es \<le> width c' * 2 ^ r" using coded_rate(1) [OF assms(2-4), of r n] assms(1) by (simp add: room_def)
  ultimately have "width c * 2 ^ length es \<le> 2 ^ (16 + r * Suc n)" unfolding power_add by (rule order_trans [rotated])
  then show "unat (rc_underflowBits c) + length es + 1 < 2 ^ 16" "hp_bitoffset hp + unat (rc_underflowBits c) + length es + 2 < 8 * hp_allocsize hp"
    using assms(1) by (auto simp: room_def)
qed

lemma room_step:
  assumes "room r (Suc n) c hp" and "coded c s es c'" and "coder_ok c" and "s \<le> 256"
    and "hp_bitoffset hp' + unat (rc_underflowBits c') = hp_bitoffset hp + unat (rc_underflowBits c) + length es"
    and "unat (rc_underflowBits c') \<le> unat (rc_underflowBits c) + length es" and "hp_allocsize hp' = hp_allocsize hp"
  shows "room r n c' hp'"
proof -
  have r: "rate r c (Suc n)" using assms(1) by (simp add: room_def)
  note cr = coded_rate [OF assms(2-4) r]
  have "width c * 2 ^ (length es + e) \<le> 2 ^ (16 + r * Suc n)" if "width c' * 2 ^ e \<le> 2 ^ (16 + r * n)" for e
  proof -
    have "width c * 2 ^ (length es + e) \<le> width c' * 2 ^ r * 2 ^ e" using mult_le_mono1 [OF cr(1), of "2 ^ e"] by (simp add: power_add ac_simps)
    also have "\<dots> \<le> 2 ^ (16 + r * n) * 2 ^ r" using mult_le_mono1 [OF that, of "2 ^ r"] by (simp add: ac_simps)
    finally show ?thesis by (simp add: power_add ac_simps)
  qed
  then have "unat (rc_underflowBits c) + (length es + e) + 1 < 2 ^ 16 \<and> hp_bitoffset hp + unat (rc_underflowBits c) + (length es + e) + 2 < 8 * hp_allocsize hp"
    if "width c' * 2 ^ e \<le> 2 ^ (16 + r * n)" for e using that assms(1) unfolding room_def by blast
  then show ?thesis using cr(2) assms(5-) unfolding room_def by (metis (no_types, lifting) add.assoc add_le_mono1 le_less_trans)
qed

lemma enc_step:
  assumes "coder_ok c" and "s \<le> 256" and "room r (Suc n) c hp" and "huff_ok hp" and "g \<noteq> 0"
  shows "\<exists>n hp' c' es. ramcoder_update (int s) c True g hp = Some (n, hp', c') \<and> coded c s es c'
    \<and> wrote hp (bitsof (unat (rc_underflowBits c)) (es @ (if odd g then flush_evs (lo c') else []))) hp'
    \<and> unat (rc_underflowBits c') = (if odd g then 0 else pend (unat (rc_underflowBits c)) es)"
proof -
  obtain c2 where c2: "prep s c = Some c2" "rc_underflowBits c2 = rc_underflowBits c" "lo c2 = lo c + cutpoint c s" "hi c2 = lo c + cutpoint c (Suc s) - 1"
    using prep_ok [OF assms(1,2)] by auto
  obtain es l' u' where r: "renorm (lo c2) (hi c2) = (es, l', u')" by (cases "renorm (lo c2) (hi c2)") auto
  have v: "valid_iv (lo c2) (hi c2)" using c2 cut_bounds [OF assms(1,2)] coder_bounds [OF assms(1)] by (auto simp: valid_iv_def)
  obtain c0 where c0: "lo c0 = l'" "hi c0 = u'" "model c0 = model c2"
  proof -
    have "l' < 2 ^ 16" "u' < 2 ^ 16" using renorm_result [OF v] r by (auto simp: valid_iv_def)
    then show ?thesis using that [of "c2\<lparr>rc_lower := word_of_nat l', rc_upper := word_of_nat u'\<rparr>"]
      by (simp add: lo_def hi_def unat_of_nat_16 model_def)
  qed
  have "coded c s es c0" using c2(1) r c0 by (auto simp: coded_def)
  note rn = room_now [OF assms(3) this assms(1,2)]
  then obtain n hp' c' where p: "ramcoder_putbits 0 hp c2 (odd g) = Some (n, hp', c')"
      "wrote hp (bitsof (unat (rc_underflowBits c2)) (es @ (if odd g then flush_evs l' else []))) hp'"
      "coder_after c2 l' u' (if odd g then 0 else pend (unat (rc_underflowBits c2)) es) c'"
    using putbits_sim [OF v refl refl r _ assms(4), of 0 "odd g"] c2(2) by auto
  have "ramcoder_update (int s) c True g hp = Some (n, hp', c')"
    using c2(1) p(1) assms(5) by (auto simp: ramcoder_update_def prep_def split: bind_splits)
  moreover have "coded c s es c'" using c2(1) r p(3) by (auto simp: coded_def coder_after_def)
  ultimately show ?thesis using p(2,3) c2(2) by (auto simp: coder_after_def)
qed

end
