(* ===== verification/RamcoderMessages.thy ===== *)
theory RamcoderMessages
  imports RamcoderSymbols
begin

text \<open>
  Whole messages through the arithmetic coder: the encoder and the decoder of
  \<open>plugins/utils/ramcoder.c\<close> undo each other, and so do the compression in
  \<open>hostnet777_sendmsg\<close> and the expansion in \<open>hostnet777_decrypt\<close>.
\<close>

lemma window_code:
  assumes "window d hp es" and "settled es" and "16 \<le> length es" and "inside l u es"
  shows "l \<le> unat (rc_code d) \<and> unat (rc_code d) \<le> u"
proof -
  have "16 \<le> length (bitsof 0 es)" using length_bitsof [of 0 es] pend_settled [OF assms(2)] assms(3) by simp
  then show ?thesis using inside_code [OF assms(4), of "take 16 (bitsof 0 es)" "drop 16 (bitsof 0 es)"] assms(1) by (simp add: window_def)
qed

lemma found:
  assumes "coder_ok c" and "s \<le> 256" and "twin c d" and "coded c s es c'"
    and "settled fs" and "16 \<le> length (es @ fs)" and "inside (lo c') (hi c') fs" and "window d hp (es @ fs)"
  shows "(do { p \<leftarrow> RAMDECODER_UNSCALED d; ramdecoder_bsearch (ucast p) d }) = Some (int s)"
proof -
  have t: "lo d = lo c" "cutpoint d s = cutpoint c s" "cutpoint d (Suc s) = cutpoint c (Suc s)" "coder_ok d"
    using twin_same [OF assms(3)] assms(1) by auto
  have "inside (lo c + cutpoint c s) (lo c + cutpoint c (Suc s) - 1) (es @ fs)" using coded_inside(1) [OF assms(4,1,2,5,7)] .
  then have "lo c + cutpoint c s \<le> unat (rc_code d)" "unat (rc_code d) \<le> lo c + cutpoint c (Suc s) - 1"
    using window_code [OF assms(8) settled_append [OF assms(5)] assms(6)] by auto
  then show ?thesis using cut_bounds(1) [OF assms(1,2)] t assms(2) by (intro search_ok) auto
qed

lemma dec_end:
  assumes "coder_ok c" and "twin c d" and "coded c 256 es c'"
    and "settled fs" and "16 \<le> length (es @ fs)" and "inside (lo c') (hi c') fs" and "window d hp (es @ fs)"
  shows "ramcoder_decode d True hp = Some (- 1, hp, d)"
proof -
  have "rc_lastsymbol d = 256" using twin_same [OF assms(2)] assms(1) by (simp add: coder_ok_def model_ok_def)
  then show ?thesis using found [OF assms(1) _ assms(2-)] by (auto simp: ramcoder_decode_def split: bind_splits)
qed

lemma dec_step:
  assumes "coder_ok c" and "s < 256" and "twin c d" and "coded c s es c'"
    and "settled fs" and "17 \<le> length fs" and "inside (lo c') (hi c') fs" and "window d hp (es @ fs)"
  shows "\<exists>hp' d'. ramcoder_decode d True hp = Some (int s, hp', d') \<and> twin c' d' \<and> window d' hp' fs"
proof -
  have s: "s \<le> 256" using assms(2) by simp
  have t: "coder_ok d" using twin_same [OF assms(3)] assms(1) by simp
  obtain c2 where c2: "prep s c = Some c2" "renorm (lo c2) (hi c2) = (es, lo c', hi c')" "model c' = model c2"
    using assms(4) by (auto simp: coded_def)
  define d2 where "d2 = c2\<lparr>rc_code := rc_code d, rc_underflowBits := rc_underflowBits d\<rparr>"
  have d2: "prep s d = Some d2" using prep_coded [where s = s and c = c and x = "rc_code d" and k = "rc_underflowBits d"] c2(1) assms(3) unfolding d2_def by (metis option.simps(9) twin_eq)
  have i: "lo d2 = lo c2" "hi d2 = hi c2" "model d2 = model c2" "rc_code d2 = rc_code d" by (simp_all add: d2_def lo_def hi_def model_def)
  have w: "window d2 hp (es @ fs)" using assms(8) i(4) by (simp add: window_def)
  have v: "valid_iv (lo c2) (hi c2)"
    using prep_ok [OF assms(1) s] c2(1) cut_bounds [OF assms(1) s] coder_bounds [OF assms(1)] by (auto simp: valid_iv_def)
  obtain n hp' d' where g: "ramcoder_getbits 0 hp d2 = Some (n, hp', d')" "lo d' = lo c'" "hi d' = hi c'" "model d' = model d2" "window d' hp' fs"
    using getbits_sim [OF v i(1,2) c2(2) assms(5,6) w, of 0] by blast
  have u: "ramcoder_update (int s) d True 0 hp = Some (n, hp', d')"
    using d2 g(1) by (auto simp: ramcoder_update_def prep_def split: bind_splits)
  have "rc_lastsymbol d = 256" using t by (simp add: coder_ok_def model_ok_def)
  then have "int s \<noteq> uint (rc_lastsymbol d)" using assms(2) by simp
  then have "ramcoder_decode d True hp = Some (int s, hp', d')"
    using found [OF assms(1) s assms(3-5) _ assms(7,8)] assms(6) u by (auto simp: ramcoder_decode_def split: bind_splits)
  moreover have "twin c' d'" using g(2-4) c2(3) i(3) by (intro twinI) simp_all
  ultimately show ?thesis using g(5) by blast
qed

section \<open>Messages\<close>

lemma u8_bound: "unat (b :: u8) < 256"
proof -
  have "unat b < 2 ^ LENGTH(8)" by (rule unsigned_less)
  then show ?thesis by simp
qed

inductive coded_all :: "ramcoder \<Rightarrow> nat list \<Rightarrow> ev list \<Rightarrow> ramcoder \<Rightarrow> bool" where
  coded_Nil: "coded_all c [] [] c"
| coded_Cons: "coded c s es c1 \<Longrightarrow> coded_all c1 ss fs c2 \<Longrightarrow> coded_all c (s # ss) (es @ fs) c2"

lemma coded_all_ok:
  assumes "coded_all c ss es c'" and "coder_ok c" and "\<forall>s \<in> set ss. s < 256"
  shows "coder_ok c' \<and> min (unat (rc_cumulativeProb c)) 8000 \<le> unat (rc_cumulativeProb c') \<and> end_freq c' \<le> end_freq c"
  using assms
proof (induction rule: coded_all.induct)
  case (coded_Cons c s es c1 ss fs c2)
  have s: "s \<le> 256" "s \<noteq> 256" using coded_Cons.prems by auto
  note ok = coded_ok [OF coded_Cons(1) coded_Cons.prems(1) s(1)]
  have "coder_ok c2 \<and> min (unat (rc_cumulativeProb c1)) 8000 \<le> unat (rc_cumulativeProb c2) \<and> end_freq c2 \<le> end_freq c1"
    using coded_Cons.IH [OF ok(1)] coded_Cons.prems(2) by simp
  then show ?case using ok(4,5) s(2) by auto
qed simp

lemma coded_all_inside:
  assumes "coded_all c ss es c'" and "coder_ok c" and "\<forall>s \<in> set ss. s < 256" and "settled fs" and "inside (lo c') (hi c') fs"
  shows "inside (lo c) (hi c) (es @ fs)"
  using assms
proof (induction rule: coded_all.induct)
  case (coded_Cons c s es c1 ss gs c2)
  have s: "s \<le> 256" using coded_Cons.prems by auto
  have "coder_ok c1" using coded_ok(1) [OF coded_Cons(1) coded_Cons.prems(1) s] .
  then have "inside (lo c1) (hi c1) (gs @ fs)" using coded_Cons by simp
  then show ?case using coded_inside(2) [OF coded_Cons(1) coded_Cons.prems(1) s settled_append] coded_Cons.prems(3) by simp
qed simp

lemma enc_all:
  assumes "coder_ok c" and "huff_ok hp" and "room r (length buf + n) c hp"
  shows "\<exists>k hp' c' es. ramcoder_emit m hp c True buf = Some (k, hp', c') \<and> room r n c' hp' \<and> coded_all c (map unat buf) es c'
    \<and> wrote hp (bitsof (unat (rc_underflowBits c)) es) hp' \<and> unat (rc_underflowBits c') = pend (unat (rc_underflowBits c)) es"
  using assms
proof (induction buf arbitrary: c hp m)
  case Nil
  then show ?case by (auto simp: wrote_Nil intro!: exI [of _ "[] :: ev list"] coded_Nil)
next
  case (Cons b buf)
  have b: "unat b \<le> 256" using u8_bound [of b] by simp
  obtain k h1 c1 es where 1: "ramcoder_update (int (unat b)) c True RAMCODER_PUTBITS hp = Some (k, h1, c1)" "coded c (unat b) es c1"
      "wrote hp (bitsof (unat (rc_underflowBits c)) es) h1" "unat (rc_underflowBits c1) = pend (unat (rc_underflowBits c)) es"
    using enc_step [OF Cons.prems(1) b _ Cons.prems(2), of r "length buf + n" RAMCODER_PUTBITS] Cons.prems(3) by (auto simp: RAMCODER_PUTBITS_def)
  note ok = coded_ok [OF 1(2) Cons.prems(1) b]
  have len: "length (bitsof (unat (rc_underflowBits c)) es) + unat (rc_underflowBits c1) = unat (rc_underflowBits c) + length es"
    using length_bitsof [of "unat (rc_underflowBits c)" es] 1(4) by simp
  note w = wrote_room [OF 1(3)]
  have "room r (length buf + n) c1 h1"
    using room_step [OF _ 1(2) Cons.prems(1) b, of r "length buf + n" hp h1] Cons.prems(3) w len pend_le [of "unat (rc_underflowBits c)" es] 1(4) by simp
  then obtain n' h2 c2 fs where 2: "ramcoder_emit (m + k) h1 c1 True buf = Some (n', h2, c2)" "room r n c2 h2" "coded_all c1 (map unat buf) fs c2"
      "wrote h1 (bitsof (unat (rc_underflowBits c1)) fs) h2" "unat (rc_underflowBits c2) = pend (unat (rc_underflowBits c1)) fs"
    using Cons.IH [OF ok(1), of h1 "m + k"] w by blast
  have "ramcoder_emit m hp c True (b # buf) = Some (n', h2, c2)" using 1(1) 2(1) by simp
  moreover have "coded_all c (map unat (b # buf)) (es @ fs) c2" using coded_Cons [OF 1(2) 2(3)] by simp
  moreover have "wrote hp (bitsof (unat (rc_underflowBits c)) (es @ fs)) h2"
    using wrote_append [OF 1(3) 2(4)] 1(4) by (simp add: bitsof_append)
  ultimately show ?case using 1(4) 2(2,5) by (auto simp: pend_append)
qed

lemma dec_all:
  assumes "coded_all c ss es c'" and "coder_ok c" and "\<forall>s \<in> set ss. s < 256" and "twin c d"
    and "settled fs" and "17 \<le> length fs" and "inside (lo c') (hi c') fs" and "window d hp (es @ fs)" and "length ss \<le> m"
  shows "\<exists>hp' d'. twin c' d' \<and> window d' hp' fs
    \<and> decoder_loop m d True hp = map_option ((@) (map word_of_nat ss)) (decoder_loop (m - length ss) d' True hp')"
  using assms
proof (induction arbitrary: d hp m rule: coded_all.induct)
  case (coded_Nil c)
  then show ?case by (auto simp: option.map_id0 [unfolded id_def])
next
  case (coded_Cons c s es c1 ss gs c2)
  have s: "s < 256" "s \<le> 256" using coded_Cons.prems by auto
  have ok: "coder_ok c1" using coded_ok(1) [OF coded_Cons(1) coded_Cons.prems(1) s(2)] .
  have i: "inside (lo c1) (hi c1) (gs @ fs)" using coded_all_inside [OF coded_Cons(2) ok] coded_Cons.prems by simp
  obtain m' where m: "m = Suc m'" "length ss \<le> m'" using coded_Cons.prems by (cases m) auto
  obtain h1 d1 where 1: "ramcoder_decode d True hp = Some (int s, h1, d1)" "twin c1 d1" "window d1 h1 (gs @ fs)"
    using dec_step [OF coded_Cons.prems(1) s(1) coded_Cons.prems(3) coded_Cons(1) settled_append [of fs gs] _ i, of hp] coded_Cons.prems by auto
  from coded_Cons.IH [OF ok _ 1(2) coded_Cons.prems(4,5,6) 1(3) m(2)] coded_Cons.prems(2) obtain hp' d' where
    2: "twin c2 d'" "window d' hp' fs" "decoder_loop m' d1 True h1 = map_option ((@) (map word_of_nat ss)) (decoder_loop (m' - length ss) d' True hp')" by auto
  have "decoder_loop m d True hp = map_option ((@) (map word_of_nat (s # ss))) (decoder_loop (m - length (s # ss)) d' True hp')"
    using 1(1) 2(3) m(1) by (cases "decoder_loop (m' - length ss) d' True hp'") auto
  then show ?case using 2(1,2) by blast
qed

section \<open>The first model\<close>

definition seed_sum :: "u8 list \<Rightarrow> nat \<Rightarrow> nat" where
  "seed_sum seed i = (\<Sum>j = 1..i. unat (seed_weight seed j))"

text \<open>How many of the symbols that a seed can raise it does raise.\<close>

definition seed_count :: "u8 list \<Rightarrow> nat" where
  "seed_count seed = length (filter (\<lambda>i. GETBIT seed i \<noteq> 0) [0..<64])"

lemma weight: "unat (seed_weight seed j) = (if j \<le> 64 \<and> GETBIT seed (j - 1) \<noteq> 0 then 257 else 1)"
  by (simp add: seed_weight_def)

lemma seed_sum_Suc: "seed_sum seed (Suc i) = seed_sum seed i + unat (seed_weight seed (Suc i))"
  by (simp add: seed_sum_def)

lemma seed_sum_low: "i \<le> 64 \<Longrightarrow> seed_sum seed i = i + 256 * length (filter (\<lambda>i. GETBIT seed i \<noteq> 0) [0..<i])"
  by (induction i) (auto simp: seed_sum_def weight)

lemma seed_sum_high: "seed_sum seed (64 + i) = 64 + i + 256 * seed_count seed"
proof (induction i)
  case 0
  show ?case using seed_sum_low [of 64 seed] by (simp add: seed_count_def)
next
  case (Suc i)
  then show ?case using seed_sum_Suc [of seed "64 + i"] by (simp add: weight)
qed

lemma seed_sum_mono: "i \<le> j \<Longrightarrow> seed_sum seed i \<le> seed_sum seed j"
  by (induction j rule: dec_induct) (auto simp: seed_sum_Suc)

lemma init_ranges_fold:
  assumes "seed_sum seed 257 < 2 ^ 14" and "m \<le> 257" and "length rs = 258" and "rs ! 0 = 0"
  shows "\<exists>rs'. ofold (init_ranges seed) [1..<Suc m] rs = Some rs' \<and> length rs' = 258 \<and> (\<forall>i \<le> m. unat (rs' ! i) = seed_sum seed i)"
  using assms(2)
proof (induction m)
  case 0
  then show ?case using assms(3,4) by (simp add: seed_sum_def)
next
  case (Suc m)
  then obtain rs' where IH: "ofold (init_ranges seed) [1..<Suc m] rs = Some rs'" "length rs' = 258" "\<forall>i \<le> m. unat (rs' ! i) = seed_sum seed i"
    by auto
  have "seed_sum seed (Suc m) < 2 ^ 16" using seed_sum_mono [of "Suc m" 257 seed] Suc.prems assms(1) by simp
  then have "unat (rs' ! m) + unat (seed_weight seed (Suc m)) < 2 ^ LENGTH(16)" using IH(3) by (simp add: seed_sum_Suc)
  from unat_add_small [OF this] have v: "unat (rs' ! m + seed_weight seed (Suc m)) = seed_sum seed (Suc m)" using IH(3) by (simp add: seed_sum_Suc)
  have "init_ranges seed (Suc m) rs' = Some (rs'[Suc m := rs' ! m + seed_weight seed (Suc m)])"
    using IH(2) Suc.prems aget_nat [of m rs'] aput_nat [of "Suc m" rs'] by (simp add: init_ranges_def)
  then have "ofold (init_ranges seed) [1..<Suc (Suc m)] rs = Some (rs'[Suc m := rs' ! m + seed_weight seed (Suc m)])"
    using IH(1) by (simp add: ofold_append)
  moreover have "\<forall>i \<le> Suc m. unat (rs'[Suc m := rs' ! m + seed_weight seed (Suc m)] ! i) = seed_sum seed i"
    using IH(2,3) v Suc.prems by (auto simp: nth_list_update le_Suc_eq)
  ultimately show ?case using IH(2) by simp
qed

lemma init_total_fold:
  assumes "seed_sum seed 257 < 2 ^ 14" and "m \<le> 257" and "length rs = 258" and "\<forall>i \<le> 257. unat (rs ! i) = seed_sum seed i"
  shows "\<exists>cum. ofold (init_total rs) [1..<Suc m] 0 = Some cum \<and> unat cum = seed_sum seed m"
  using assms(2)
proof (induction m)
  case 0
  show ?case by (simp add: seed_sum_def)
next
  case (Suc m)
  then obtain cum where IH: "ofold (init_total rs) [1..<Suc m] 0 = Some cum" "unat cum = seed_sum seed m" by auto
  have s: "unat (rs ! m) = seed_sum seed m" "unat (rs ! Suc m) = seed_sum seed (Suc m)" "seed_sum seed m \<le> seed_sum seed (Suc m)"
    using assms(4) Suc.prems by (simp_all add: seed_sum_mono)
  then have "unat (ucast (rs ! Suc m) - ucast (rs ! m) :: u32) = seed_sum seed (Suc m) - seed_sum seed m"
    using unat_sub_small [of "ucast (rs ! m) :: u32" "ucast (rs ! Suc m)"] by (simp add: unat_ucast_32)
  moreover have "seed_sum seed (Suc m) < 2 ^ 32" using seed_sum_mono [of "Suc m" 257 seed] Suc.prems assms(1) by simp
  ultimately have "unat (cum + (ucast (rs ! Suc m) - ucast (rs ! m))) = seed_sum seed (Suc m)"
    using IH(2) s(3) unat_add_small [of cum "ucast (rs ! Suc m) - ucast (rs ! m)"] by simp
  moreover have "init_total rs (Suc m) cum = Some (cum + (ucast (rs ! Suc m) - ucast (rs ! m)))"
    using assms(3) Suc.prems aget_nat [of m rs] aget_nat [of "Suc m" rs] by (simp add: init_total_def)
  ultimately show ?case using IH(1) by (simp add: ofold_append)
qed

definition first_coder :: "u16 list \<Rightarrow> u32 \<Rightarrow> ramcoder" where
  "first_coder rs cum = \<lparr>rc_cumulativeProb = cum, rc_lower = 0, rc_upper = 0xffff, rc_code = 0, rc_underflowBits = 0,
     rc_lastsymbol = 256, rc_upper_lastsymbol = 257, rc_counter = 0, rc_ranges = rs\<rparr>"

lemma init_ok:
  assumes "seed_count seed \<le> 62"
  shows "\<exists>c. init_ramcoder stack_coder None seed = Some (c, None) \<and> coder_ok c \<and> rc_underflowBits c = 0
    \<and> unat (rc_cumulativeProb c) = 257 + 256 * seed_count seed \<and> end_freq c = 1 \<and> lo c = 0 \<and> hi c = 0xffff
    \<and> (\<forall>hp. init_ramcoder stack_coder (Some hp) seed = do { (code, hp) \<leftarrow> ofold init_code [0..<16] (0, hp); Some (c\<lparr>rc_code := code\<rparr>, Some hp) })"
proof -
  have sum: "seed_sum seed 257 = 257 + 256 * seed_count seed" "seed_sum seed 256 = 256 + 256 * seed_count seed"
    using seed_sum_high [of seed 193] seed_sum_high [of seed 192] by simp_all
  then have b: "seed_sum seed 257 < 2 ^ 14" using assms by simp
  obtain rs where rs: "ofold (init_ranges seed) [1..<258] (replicate 258 0) = Some rs" "length rs = 258" "\<forall>i \<le> 257. unat (rs ! i) = seed_sum seed i"
    using init_ranges_fold [OF b order_refl, of "replicate 258 0"] by (auto simp del: upt_rec_numeral)
  obtain cum where cum: "ofold (init_total rs) [1..<258] 0 = Some cum" "unat cum = seed_sum seed 257"
    using init_total_fold [OF b order_refl rs(2,3)] by (auto simp del: upt_rec_numeral)
  define c where "c = first_coder rs cum"
  have f: "freqs c ! i = seed_sum seed i" if "i \<le> 257" for i using that rs(2,3) by (simp add: freqs_def c_def first_coder_def)
  have "cum_ok (freqs c)" unfolding cum_ok_def
    using f rs(2) by (auto simp: seed_sum_Suc weight freqs_def c_def first_coder_def) (simp add: seed_sum_def)
  then have "model_ok c" using f [of 257] cum(2) b by (simp add: model_ok_def c_def first_coder_def)
  moreover have v: "lo c = 0" "hi c = 0xffff" by (simp_all add: lo_def hi_def c_def first_coder_def)
  ultimately have "coder_ok c" by (simp add: coder_ok_def valid_iv_def next_ev_def)
  moreover have "end_freq c = 1" using f [of 257] f [of 256] sum by (simp add: end_freq_def)
  moreover have "aput (replicate 258 (0 :: u16)) 0 0 = Some (replicate 258 0)" by (simp add: aput_def list_update_same_conv)
  then have "init_ramcoder stack_coder None seed = Some (c, None)"
    "\<forall>hp. init_ramcoder stack_coder (Some hp) seed = do { (code, hp) \<leftarrow> ofold init_code [0..<16] (0, hp); Some (c\<lparr>rc_code := code\<rparr>, Some hp) }"
    using rs(1) cum(1)
    by (simp_all add: init_ramcoder_def stack_coder_def RAMCODER_MAXSYMBOLS_def Let_def c_def first_coder_def del: upt_rec_numeral upt_Suc)
  ultimately show ?thesis using v cum(2) sum by (auto simp: c_def first_coder_def)
qed

section \<open>The end of a message\<close>

text \<open>The end mark is rare, so the two end marks are long enough to fill the register of the decoder.\<close>

lemma end_events:
  assumes "coded c 256 es c'" and "coder_ok c" and "end_freq c \<le> f" and "f \<le> 2" and "769 \<le> unat (rc_cumulativeProb c)"
  shows "9 \<le> length es + f"
proof (rule ccontr)
  assume "\<not> 9 \<le> length es + f"
  then have p: "(2 :: nat) ^ length es \<le> 2 ^ (8 - f)" by (intro power_increasing) simp_all
  note cb = coder_bounds [OF assms(2)] and cu = cut_bounds [OF assms(2), of 256] and co = coded_ok [OF assms(1,2)]
  have "end_freq c * width c \<le> f * 2 ^ 16" using assms(3) cb(2) by (intro mult_le_mono)
  then have "end_freq c * width c div unat (rc_cumulativeProb c) \<le> f * 2 ^ 16 div unat (rc_cumulativeProb c)" by (rule div_le_mono)
  also have "\<dots> \<le> f * 2 ^ 16 div 769" using assms(5) by (intro div_le_mono2) simp_all
  finally have "end_freq c * width c div unat (rc_cumulativeProb c) + 1 \<le> f * 2 ^ 16 div 769 + 1" by simp
  moreover have "cutpoint c (Suc 256) - cutpoint c 256 \<le> end_freq c * width c div unat (rc_cumulativeProb c) + 1"
    using cu(3) by (simp add: end_freq_def)
  ultimately have "cutpoint c (Suc 256) - cutpoint c 256 \<le> f * 2 ^ 16 div 769 + 1" by linarith
  then have "(cutpoint c (Suc 256) - cutpoint c 256) * 2 ^ length es \<le> (f * 2 ^ 16 div 769 + 1) * 2 ^ (8 - f)" using p by (rule mult_le_mono)
  moreover have "f = 0 \<or> f = 1 \<or> f = 2" using assms(4) by auto
  ultimately show False using co(2) coder_bounds(1) [OF co(1)] by auto
qed

lemma init_code_ok:
  assumes "next_bits hp (bs @ cs)" and "length xs = length bs" and "unat x * 2 ^ length bs + wval bs < 2 ^ 16"
  shows "\<exists>y. ofold init_code xs (x, hp) = Some (y, skip_bits (length bs) hp) \<and> unat y = unat x * 2 ^ length bs + wval bs"
  using assms
proof (induction bs arbitrary: x hp xs)
  case Nil
  then show ?case by (simp add: skip_0 next_bits_def)
next
  case (Cons b bs)
  obtain z zs where xs: "xs = z # zs" "length zs = length bs" using Cons.prems(2) by (cases xs) auto
  have g: "hgetbit hp = Some (if b then 1 else 0, skip_bits 1 hp)" "next_bits (skip_bits 1 hp) (bs @ cs)"
    using hgetbit_ok [of hp b "bs @ cs"] Cons.prems(1) by simp_all
  define y where "y = (push_bit 1 x OR word_of_int (if b then 1 else 0) :: u16)"
  have e: "(2 * unat x + of_bool b) * 2 ^ length bs + wval bs = unat x * 2 ^ length (b # bs) + wval (b # bs)"
    by (cases b) (simp_all add: algebra_simps)
  have "a \<le> a * 2 ^ length bs + wval bs" for a :: nat by (simp add: trans_le_add1)
  from this [of "2 * unat x + of_bool b"] have "2 * unat x + of_bool b < 2 ^ 16" using Cons.prems(3) unfolding e by (rule le_less_trans)
  moreover have "y = 2 * x + of_bool b" using push_or [of x b] by (cases b) (simp_all add: y_def)
  ultimately have y: "unat y = 2 * unat x + of_bool b" using unat_shift [of x] by (cases b) simp_all
  obtain w where "ofold init_code zs (y, skip_bits 1 hp) = Some (w, skip_bits (length bs) (skip_bits 1 hp))"
      "unat w = unat y * 2 ^ length bs + wval bs"
    using Cons.IH [OF g(2) xs(2), of y] e y Cons.prems(3) by auto
  moreover have "init_code z (x, hp) = Some (y, skip_bits 1 hp)" using g(1) by (simp add: init_code_def y_def)
  ultimately show ?case using e y xs(1) by (auto simp: skip_skip)
qed

lemma read_window:
  assumes "next_bits hp (butlast (bitsof 0 es))" and "settled es" and "17 \<le> length es"
  shows "\<exists>y hp'. ofold init_code [0..<16] (0, hp) = Some (y, hp') \<and> (\<forall>c. window (c\<lparr>rc_code := y\<rparr>) hp' es)"
proof -
  let ?b = "take 16 (bitsof 0 es)"
  have l: "length ?b = 16" using length_bitsof [of 0 es] pend_settled [OF assms(2)] assms(3) by simp
  have "drop 16 (bitsof 0 es) \<noteq> []" using length_bitsof [of 0 es] pend_settled [OF assms(2)] assms(3) by simp
  then have "butlast (bitsof 0 es) = ?b @ butlast (drop 16 (bitsof 0 es))" using butlast_append [of ?b "drop 16 (bitsof 0 es)"] by simp
  then have n: "next_bits hp (?b @ butlast (drop 16 (bitsof 0 es)))" using assms(1) by simp
  obtain y where "ofold init_code [0..<16] (0, hp) = Some (y, skip_bits 16 hp)" "unat y = wval ?b"
    using init_code_ok [OF n, of "[0..<16]" 0] wval_bound [of ?b] l by auto
  moreover have "next_bits (skip_bits 16 hp) (butlast (drop 16 (bitsof 0 es)))" using next_bits_append [OF n] l by simp
  ultimately show ?thesis by (auto simp: window_def)
qed

lemma hrewind_eq: "hrewind hp = (0, seek_to 0 hp)"
  by (simp add: hrewind_def hseek_def hupdate_internals_def seek_to_def)

lemma encode_ok:
  assumes "huff_ok (seek_to 0 hp)" and "seed_count seed \<le> 62" and "init_ramcoder stack_coder None seed = Some (c, None)"
    and "rate r c (length buf + 2)" and "r * (length buf + 2) + 1 < 2 ^ 16" and "r * (length buf + 2) + 2 < 8 * hp_allocsize hp"
  shows "\<exists>c1 c2 c3 hp' es e1 e2. encode_message True buf hp seed = Some (hp', c3)
    \<and> coded_all c (map unat buf) es c1 \<and> coded c1 256 e1 c2 \<and> coded c2 256 e2 c3
    \<and> wrote (seek_to 0 hp) (bitsof 0 (es @ e1 @ e2 @ flush_evs (lo c3))) hp'"
proof -
  have ok: "huff_ok (seek_to 0 hp)" "hp_bitoffset (seek_to 0 hp) = 0" "hp_allocsize (seek_to 0 hp) = hp_allocsize hp"
    using assms(1) by (simp_all add: seek_to_def)
  have c: "coder_ok c" "rc_underflowBits c = 0" "width c = 2 ^ 16" using init_ok [OF assms(2)] assms(3) by (auto simp: width_def)
  have "e \<le> r * (length buf + 2)" if "(2 :: nat) ^ 16 * 2 ^ e \<le> 2 ^ (16 + r * (length buf + 2))" for e
    using that unfolding power_add [symmetric] by (simp only: power_increasing_iff)
  then have rm: "room r (length buf + 2) c (seek_to 0 hp)" unfolding room_def using assms(4-6) ok c by (auto simp only: unsigned_0 add_0) (metis add_le_mono1 le_less_trans)+
  have t: "\<forall>s \<in> set (map unat buf). s < 256" using u8_bound by auto
  obtain n h1 c1 es where 1: "ramcoder_emit 0 (seek_to 0 hp) c True buf = Some (n, h1, c1)" "room r 2 c1 h1" "coded_all c (map unat buf) es c1"
      "wrote (seek_to 0 hp) (bitsof 0 es) h1" "unat (rc_underflowBits c1) = pend 0 es"
    using enc_all [OF c(1) ok(1) rm, of 0] c(2) by auto
  have c1: "coder_ok c1" using coded_all_ok [OF 1(3) c(1) t] by blast
  obtain n' h2 c2 e1 where 2: "ramcoder_update (int 256) c1 True RAMCODER_PUTBITS h1 = Some (n', h2, c2)" "coded c1 256 e1 c2"
      "wrote h1 (bitsof (pend 0 es) e1) h2" "unat (rc_underflowBits c2) = pend (pend 0 es) e1"
    using enc_step [OF c1, of 256 r 1 h1 RAMCODER_PUTBITS] 1(2,5) wrote_room [OF 1(4)] by (auto simp: RAMCODER_PUTBITS_def numeral_2_eq_2)
  have c2: "coder_ok c2" using coded_ok(1) [OF 2(2) c1] by simp
  have "room r 1 c2 h2"
    using room_step [OF _ 2(2) c1, of r 1 h1 h2] 1(2,5) 2(4) wrote_room [OF 2(3)] length_bitsof [of "pend 0 es" e1] pend_le [of "pend 0 es" e1]
    by (simp add: numeral_2_eq_2)
  then obtain n'' h3 c3 e2 where 3: "ramcoder_update (int 256) c2 True (RAMCODER_PUTBITS + RAMCODER_FINALIZE) h2 = Some (n'', h3, c3)" "coded c2 256 e2 c3"
      "wrote h2 (bitsof (pend (pend 0 es) e1) (e2 @ flush_evs (lo c3))) h3"
    using enc_step [OF c2, of 256 r 0 h2 "RAMCODER_PUTBITS + RAMCODER_FINALIZE"] 2(4) wrote_room [OF 2(3)] by (auto simp: RAMCODER_PUTBITS_def RAMCODER_FINALIZE_def)
  have l: "uint (rc_lastsymbol c1) = int 256" "uint (rc_lastsymbol c2) = int 256" using c1 c2 by (simp_all add: coder_ok_def model_ok_def)
  have "encode_message True buf hp seed = Some (h3, c3)" using assms(3) 1(1) 2(1) 3(1) l by (simp add: encode_message_def hrewind_eq)
  moreover have "wrote (seek_to 0 hp) (bitsof 0 (es @ e1 @ e2 @ flush_evs (lo c3))) h3"
    using wrote_append [OF 1(4) wrote_append [OF 2(3) 3(3)]] by (simp add: bitsof_append)
  ultimately show ?thesis using 1(3) 2(2) 3(2) by blast
qed

text \<open>A frequent end mark would be recorded behind the 32 bytes of the new seed; with two raised symbols it is too rare.\<close>

lemma new_seed_ok:
  assumes "model_ok c" and "end_freq c * 257 \<le> unat (rc_cumulativeProb c)"
  shows "\<exists>seed. new_seed c = Some seed"
proof -
  have u: "rc_upper_lastsymbol c = 257" "length (rc_ranges c) = 258" using assms(1) by (auto simp: model_ok_def cum_ok_def freqs_def)
  define f where "f i seed = (do { a \<leftarrow> aget (rc_ranges c) (int i); b \<leftarrow> aget (rc_ranges c) (int i - 1);
      if uint a - uint b > int (unat (rc_cumulativeProb c) div 257)
      then (if (i - 1) div 8 < length seed then Some (SETBIT seed (i - 1)) else None) else Some seed })" for i and seed :: "u8 list"
  have "\<exists>seed'. f i seed = Some seed' \<and> length seed' = 32" if i: "i \<in> set [1..<258]" and l: "length seed = 32" for i seed
  proof -
    have a: "aget (rc_ranges c) (int i) = Some (rc_ranges c ! i)" "aget (rc_ranges c) (int i - 1) = Some (rc_ranges c ! (i - 1))"
      using aget_nat [of i "rc_ranges c"] aget_nat [of "i - 1" "rc_ranges c"] i u(2) by (auto simp: of_nat_diff)
    show ?thesis
    proof (cases "i = 257")
      case True
      have f: "unat (rc_ranges c ! 257) = freqs c ! 257" "unat (rc_ranges c ! 256) = freqs c ! 256" using u(2) by (simp_all add: freqs_def)
      have "end_freq c \<le> unat (rc_cumulativeProb c) div 257" using assms(2) by (simp add: less_eq_div_iff_mult_less_eq)
      then have "\<not> uint (rc_ranges c ! 257) - uint (rc_ranges c ! 256) > int (unat (rc_cumulativeProb c) div 257)"
        unfolding end_freq_def f [symmetric] unfolding uint_nat by linarith
      then show ?thesis using True a l by (simp add: f_def)
    next
      case False
      then have "(i - 1) div 8 < 32" using i by auto
      then show ?thesis using a l by (simp add: f_def SETBIT_def)
    qed
  qed
  from ofold_keeps [of "[1..<258]" "\<lambda>s. length s = 32" f "replicate 32 0", OF this] obtain seed where "ofold f [1..<258] (replicate 32 0) = Some seed"
    by (auto simp del: upt_rec_numeral)
  moreover have "new_seed c = ofold f [1..<258] (replicate 32 0)"
    using u(1) by (simp add: new_seed_def Let_def f_def [abs_def] del: upt_rec_numeral upt_Suc)
  ultimately show ?thesis by auto
qed

lemma next_bits_butlast: "next_bits hp bs \<Longrightarrow> next_bits hp (butlast bs)"
  by (auto simp: next_bits_def nth_butlast)

lemma decode_ok:
  assumes "seed_count seed \<le> 62" and "2 \<le> seed_count seed" and "init_ramcoder stack_coder None seed = Some (c, None)" and "length buf \<le> maxlen"
    and "coded_all c (map unat buf) es c1" and "coded c1 256 e1 c2" and "coded c2 256 e2 c3"
    and "next_bits (snd (hrewind hp)) (butlast (bitsof 0 (es @ e1 @ e2 @ flush_evs (lo c3))))"
  shows "ramcoder_decoder None True maxlen hp seed = Some buf" and "\<exists>seed. new_seed c3 = Some seed"
proof -
  have i: "coder_ok c" "unat (rc_cumulativeProb c) = 257 + 256 * seed_count seed" "end_freq c = 1"
    and init: "\<And>hp. init_ramcoder stack_coder (Some hp) seed = do { (code, hp) \<leftarrow> ofold init_code [0..<16] (0, hp); Some (c\<lparr>rc_code := code\<rparr>, Some hp) }"
    using init_ok [OF assms(1)] assms(3) by auto
  have t: "\<forall>s \<in> set (map unat buf). s < 256" using u8_bound by auto
  have c1: "coder_ok c1" "end_freq c1 \<le> 1" "769 \<le> unat (rc_cumulativeProb c1)" using coded_all_ok [OF assms(5) i(1) t] i assms(2) by auto
  have c2: "coder_ok c2" "end_freq c2 \<le> 2" "770 \<le> unat (rc_cumulativeProb c2)" using coded_ok [OF assms(6) c1(1) order_refl] c1 by auto
  have c3: "coder_ok c3" "end_freq c3 \<le> 3" "771 \<le> unat (rc_cumulativeProb c3)" using coded_ok [OF assms(7) c2(1) order_refl] c2 by auto
  show "\<exists>seed. new_seed c3 = Some seed" using c3 by (intro new_seed_ok) (auto simp: coder_ok_def)
  define fs where "fs = e1 @ e2 @ flush_evs (lo c3)"
  have cl: "settled (flush_evs (lo c3))" "settled (e2 @ flush_evs (lo c3))" "settled fs" "settled (es @ fs)" by (simp_all add: fs_def flush_evs_def settled_append)
  have len: "17 \<le> length fs" "17 \<le> length (es @ fs)"
    using end_events [OF assms(6) c1(1,2)] end_events [OF assms(7) c2(1,2)] c1 c2 by (simp_all add: fs_def flush_evs_def)
  have "inside (lo c3) (hi c3) (flush_evs (lo c3))" using c3(1) by (simp add: coder_ok_def inside_flush)
  from coded_inside(2) [OF assms(7) c2(1) order_refl cl(1) this] have in2: "inside (lo c2) (hi c2) (e2 @ flush_evs (lo c3))" .
  from coded_inside(2) [OF assms(6) c1(1) order_refl cl(2) this] have in1: "inside (lo c1) (hi c1) fs" by (simp add: fs_def)
  obtain y h0 where y: "ofold init_code [0..<16] (0, snd (hrewind hp)) = Some (y, h0)" "window (c\<lparr>rc_code := y\<rparr>) h0 (es @ fs)"
    using read_window [OF assms(8)] cl len by (auto simp: fs_def)
  have "twin c (c\<lparr>rc_code := y\<rparr>)" by (simp add: twin_def)
  from dec_all [OF assms(5) i(1) t this cl(3) len(1) in1 y(2), of maxlen] assms(4) obtain h1 d1 where
    d: "twin c1 d1" "window d1 h1 fs" "decoder_loop maxlen (c\<lparr>rc_code := y\<rparr>) True h0 = map_option ((@) buf) (decoder_loop (maxlen - length buf) d1 True h1)"
    by (auto simp: o_def)
  have "decoder_loop k d1 True h1 = Some []" for k
    using dec_end [OF c1(1) d(1) assms(6) cl(2) _ in2, of h1] d(2) len(1) by (cases k) (auto simp: fs_def)
  then show "ramcoder_decoder None True maxlen hp seed = Some buf" using d(3) y(1) init by (simp add: ramcoder_decoder_def)
qed

text \<open>
  C22. The arithmetic coder can be undone, under four conditions: the seed raises between 2 and 62 of the first 64
  symbols (with fewer the encoder can write behind its seed), the message has at most 4000 bytes, the stream has two
  bytes for every byte of the message and five more, and the decoder may return as many bytes as the message has. Then
  the encoder finishes without a fault, and the decoder, given the same seed, gives back the message.
\<close>

theorem message_roundtrip:
  assumes "huff_ok hp" and "2 * length buf + 5 \<le> hp_allocsize hp" and "length buf \<le> 4000" and "length buf \<le> maxlen"
    and "2 \<le> seed_count seed" and "seed_count seed \<le> 62"
  shows "\<exists>seed' hp' c. ramcoder_encoder None True buf hp seed = Some (seed', hp', c) \<and> ramcoder_decoder None True maxlen hp' seed = Some buf"
proof -
  have ok: "huff_ok (seek_to 0 hp)" using assms(1) by (auto simp: huff_ok_def seek_to_def)
  obtain c where c: "init_ramcoder stack_coder None seed = Some (c, None)" using init_ok [OF assms(6)] by blast
  obtain c1 c2 c3 hp' es e1 e2 where e: "encode_message True buf hp seed = Some (hp', c3)"
      "coded_all c (map unat buf) es c1" "coded c1 256 e1 c2" "coded c2 256 e2 c3"
      and w: "wrote (seek_to 0 hp) (bitsof 0 (es @ e1 @ e2 @ flush_evs (lo c3))) hp'"
    using encode_ok [OF ok assms(6) c, of 16 buf] assms(2,3) by (auto simp: rate_def)
  have "next_bits (seek_to 0 hp') (bitsof 0 (es @ e1 @ e2 @ flush_evs (lo c3)))"
    using w assms(1) by (auto simp: next_bits_def wrote_def seek_to_def huff_ok_def hbit_def)
  then have "next_bits (snd (hrewind hp')) (butlast (bitsof 0 (es @ e1 @ e2 @ flush_evs (lo c3))))" by (simp add: hrewind_eq next_bits_butlast)
  from decode_ok [OF assms(6,5) c assms(4) e(2-) this] show ?thesis using e(1) by (auto simp: ramcoder_encoder_def)
qed

section \<open>Messages between hosts\<close>

text \<open>
  How \<open>hostnet777_sendmsg\<close> compresses a message before it encrypts it, and how \<open>hostnet777_decrypt\<close>
  expands it. The streams are uninitialised variables \<open>H\<close>; the seed raises the hexadecimal digits.
\<close>

definition hostnet_seed :: "u8 list" where
  "hostnet_seed = fold (\<lambda>i seed. SETBIT seed i) ([48..<58] @ [97..<103]) (replicate 32 0)"

definition hostnet_compress :: "huffstream \<Rightarrow> u8 list \<Rightarrow> u8 list option" where
  "hostnet_compress H msg =
     do { let data = replicate (length msg * 2) 0;
          (_, hp, _) \<leftarrow> ramcoder_encoder None True msg (init_HUFF H (length msg * 2) data) hostnet_seed;
          Some (take (hconv_bitlen (hp_bitoffset hp)) (hp_buf hp)) }"

definition hostnet_expand :: "huffstream \<Rightarrow> u8 list \<Rightarrow> nat \<Rightarrow> u8 list option" where
  "hostnet_expand H buf maxlen =
     ramcoder_decoder None True maxlen ((init_HUFF H (length buf) buf)\<lparr>hp_endpos := length buf * 8\<rparr>) hostnet_seed"

lemma hostnet_seed_count: "seed_count hostnet_seed = 10"
proof -
  have "filter (\<lambda>i. GETBIT hostnet_seed i \<noteq> 0) [0..<64] = [48..<58]" by code_simp
  then show ?thesis by (simp add: seed_count_def)
qed

lemma hconv_bounds: "n \<le> 8 * hconv_bitlen n" "hconv_bitlen n \<le> n div 8 + 1"
  by (auto simp: hconv_bitlen_def Let_def)

lemma compress_expand:
  assumes "16 \<le> length msg" and "length msg \<le> 4000" and "length msg \<le> maxlen"
  shows "\<exists>data. hostnet_compress H msg = Some data \<and> hostnet_expand H' data maxlen = Some msg"
proof -
  define h where "h = init_HUFF H (length msg * 2) (replicate (length msg * 2) 0)"
  have ok: "huff_ok (seek_to 0 h)" "hp_allocsize h = length msg * 2" using assms by (auto simp: h_def init_HUFF_def seek_to_def huff_ok_def)
  have s: "2 \<le> seed_count hostnet_seed" "seed_count hostnet_seed \<le> 62" by (simp_all add: hostnet_seed_count)
  obtain c where c: "init_ramcoder stack_coder None hostnet_seed = Some (c, None)" "unat (rc_cumulativeProb c) = 2817"
    using init_ok [OF s(2)] by (auto simp: hostnet_seed_count)
  obtain c1 c2 c3 hp es e1 e2 where e: "encode_message True msg h hostnet_seed = Some (hp, c3)"
      "coded_all c (map unat msg) es c1" "coded c1 256 e1 c2" "coded c2 256 e2 c3"
      and w: "wrote (seek_to 0 h) (bitsof 0 (es @ e1 @ e2 @ flush_evs (lo c3))) hp"
    using encode_ok [OF ok(1) s(2) c(1), of 14 msg] ok(2) c(2) assms by (auto simp: rate_def)
  define bs where "bs = bitsof 0 (es @ e1 @ e2 @ flush_evs (lo c3))"
  define data where "data = take (hconv_bitlen (hp_bitoffset hp)) (hp_buf hp)"
  define g where "g = seek_to 0 ((init_HUFF H' (length data) data)\<lparr>hp_endpos := length data * 8\<rparr>)"
  have b: "hp_bitoffset hp = length bs" "huff_ok hp" "\<forall>k < length bs. hbit hp k = bs ! k" "length bs < 8 * (length msg * 2)" "length msg * 2 \<le> length (hp_buf hp)"
    using w ok(2) by (auto simp: wrote_def bs_def seek_to_def huff_ok_def)
  have l: "length data = hconv_bitlen (length bs)" using hconv_bounds(2) [of "length bs"] b by (simp add: data_def)
  have "0 < length bs" using length_bitsof [of 0 "es @ e1 @ e2 @ flush_evs (lo c3)"] pend_settled [of "es @ e1 @ e2 @ flush_evs (lo c3)"]
    by (auto simp: bs_def settled_append flush_evs_def)
  then have "0 < hconv_bitlen (length bs)" "length bs - 1 < 8 * hconv_bitlen (length bs)" using hconv_bounds(1) [of "length bs"] by linarith+
  moreover have "hbit g k = hbit hp k" if "k < length bs" for k
    using that hconv_bounds(1) [of "length bs"] b(1) by (auto simp: hbit_def g_def seek_to_def init_HUFF_def data_def)
  ultimately have "next_bits g (butlast bs)"
    using b(3,4) l hconv_bounds [of "length bs"] assms(2) by (auto simp: next_bits_def huff_ok_def g_def seek_to_def init_HUFF_def nth_butlast)
  then have "ramcoder_decoder None True maxlen ((init_HUFF H' (length data) data)\<lparr>hp_endpos := length data * 8\<rparr>) hostnet_seed = Some msg"
    and "\<exists>seed. new_seed c3 = Some seed"
    using decode_ok [OF s(2,1) c(1) assms(3) e(2-), of "(init_HUFF H' (length data) data)\<lparr>hp_endpos := length data * 8\<rparr>"]
    by (simp_all add: hrewind_eq g_def bs_def)
  then show ?thesis using e(1) by (auto simp: hostnet_compress_def hostnet_expand_def ramcoder_encoder_def Let_def h_def [symmetric] data_def)
qed

interpretation hostnet: lossless "hostnet_compress H" "\<lambda>data. hostnet_expand H' data maxlen"
    "\<lambda>msg. 16 \<le> length msg \<and> length msg \<le> 4000 \<and> length msg \<le> maxlen"
  by unfold_locales (simp add: compress_expand)

text \<open>Different messages have different compressed forms.\<close>

lemma compressed_distinct:
  assumes "16 \<le> length m" "length m \<le> 4000" and "16 \<le> length m'" "length m' \<le> 4000" and "hostnet_compress H m = hostnet_compress H m'"
  shows "m = m'"
  using hostnet.distinct_forms [of m 4000 m' H] assms by auto

text \<open>
  C5. What a host compresses, another host expands to the same messages: for messages of 16 to
  4000 bytes the compressed form fits into the buffer of twice the length, whatever the
  uninitialised stream variables hold on both sides.
\<close>

theorem hostnet_message_roundtrip:
  assumes "\<forall>msg \<in> set msgs. 16 \<le> length msg \<and> length msg \<le> 4000 \<and> length msg \<le> maxlen"
  shows "\<exists>datas. those (map (hostnet_compress H) msgs) = Some datas \<and> those (map (\<lambda>data. hostnet_expand H' data maxlen) datas) = Some msgs"
  using assms by (rule hostnet.all_back)

theorem message_roundtrip_witness:
  "\<exists>seed' hp' c. ramcoder_encoder None True [48, 200, 97] demo_stream hostnet_seed = Some (seed', hp', c)
     \<and> ramcoder_decoder None True 10 hp' hostnet_seed = Some [48, 200, 97]"
  by (rule message_roundtrip) (simp_all add: huff_ok_def demo_stream_def hostnet_seed_count)

theorem hostnet_message_roundtrip_witness:
  "\<exists>datas. those (map (hostnet_compress demo_stream) [replicate 16 48, replicate 20 200]) = Some datas
     \<and> those (map (\<lambda>data. hostnet_expand demo_stream data 100) datas) = Some [replicate 16 48, replicate 20 200]"
  by (rule hostnet_message_roundtrip) simp

end
