(* ===== verification/Cards777.thy ===== *)
theory Cards777
  imports PangeaTable "HOL-Library.Multiset"
begin

text \<open>
  The cards of \<open>plugins/games/cards777.c\<close>: nobody knows the deck. The host makes a key pair for
  every card and encrypts its private key for every player; each of the other players shuffles the
  encrypted cards and puts a layer of its own random factors on them; a card is dealt by letting
  these players take their layers off in reverse order, after which only its owner can decrypt it.

  The arithmetic of the curve and of its field (\<open>fexpand\<close>, \<open>fcontract\<close>, \<open>fmul\<close>, \<open>crecip\<close>,
  \<open>cmult\<close>, \<open>curve25519\<close>, \<open>curve25519_shared\<close>) and SHA-256 come from vendored code; they are a
  record of operations that the definitions take as an argument. Random bytes, secrets and keys
  are arguments as well. A 256-bit value is a list of 32 bytes. \<open>None\<close> is an access outside an
  array, or random numbers running out.
\<close>

section \<open>Operations of the curve\<close>

record 'f curve_ops =
  fexpand :: "bits256 \<Rightarrow> 'f"
  fcontract :: "'f \<Rightarrow> bits256"
  fmul :: "'f \<Rightarrow> 'f \<Rightarrow> 'f"
  crecip :: "'f \<Rightarrow> 'f"
  cmult :: "bits256 \<Rightarrow> 'f \<Rightarrow> 'f \<times> 'f"
  curve25519 :: "bits256 \<Rightarrow> bits256 \<Rightarrow> bits256"
  curve25519_shared :: "bits256 \<Rightarrow> bits256 \<Rightarrow> bits256"
  vcalc_sha256 :: "u8 list \<Rightarrow> u8 list"

definition curve25519_basepoint9 :: bits256 where
  "curve25519_basepoint9 = 9 # replicate 31 0"

definition txid :: "bits256 \<Rightarrow> u64" where
  "txid b = le_val (take 8 b)"

definition public_key :: "'f curve_ops \<Rightarrow> bits256 \<Rightarrow> bits256" where
  "public_key cv privkey = curve25519 cv privkey curve25519_basepoint9"

section \<open>One card\<close>

definition cards777_initcrypt :: "'f curve_ops \<Rightarrow> bits256 \<Rightarrow> bits256 \<Rightarrow> bits256 \<Rightarrow> bool \<Rightarrow> bits256" where
  "cards777_initcrypt cv data privkey pubkey invert =
     (let hexp = fexpand cv (curve25519_shared cv privkey pubkey);
          hexp = (if invert then crecip cv hexp else hexp)
      in fcontract cv (fmul cv (fexpand cv data) hexp))"

fun cardpriv_loop :: "'f curve_ops \<Rightarrow> bits256 \<Rightarrow> bits256 list \<Rightarrow> bits256 \<Rightarrow> bits256" where
  "cardpriv_loop cv playerpriv [] cipher = replicate 32 0"
| "cardpriv_loop cv playerpriv (pub # cardpubs) cipher =
     (let cardpriv = cards777_initcrypt cv cipher playerpriv pub True
      in if curve25519 cv cardpriv curve25519_basepoint9 = pub then cardpriv
         else cardpriv_loop cv playerpriv cardpubs cipher)"

definition cards777_cardpriv :: "'f curve_ops \<Rightarrow> bits256 \<Rightarrow> bits256 list \<Rightarrow> nat \<Rightarrow> bits256 \<Rightarrow> bits256 option" where
  "cards777_cardpriv cv playerpriv cardpubs numcards cipher =
     (if length cardpubs < numcards then None else Some (cardpriv_loop cv playerpriv (take numcards cardpubs) cipher))"

definition cards777_checkcard ::
    "'f curve_ops \<Rightarrow> bits256 \<Rightarrow> bits256 list \<Rightarrow> nat \<Rightarrow> bits256 \<Rightarrow> (int \<times> bits256) option" where
  "cards777_checkcard cv playerpriv cardpubs numcards cipher =
     do { cardpriv \<leftarrow> cards777_cardpriv cv playerpriv cardpubs numcards cipher;
          if txid cardpriv \<noteq> 0 then do { x \<leftarrow> aget cardpriv 1; Some (uint x, cardpriv) }
          else Some (- 1, replicate 32 0) }"

definition cards777_validate ::
    "'f curve_ops \<Rightarrow> bits256 \<Rightarrow> bits256 \<Rightarrow> bits256 list \<Rightarrow> nat \<Rightarrow> bits256 \<Rightarrow> int option" where
  "cards777_validate cv cardpriv fin audit numplayers playerpub =
     do { a0 \<leftarrow> aget audit 0;
          if length audit < numplayers then None
          else do {
            let val = fold (\<lambda>i val. fmul cv (fexpand cv (audit ! i)) val) (rev [1..<numplayers]) (fexpand cv fin);
            let checkcard = fcontract cv val;
            if checkcard \<noteq> a0 then Some (- 1)
            else do {
              let ver = cards777_initcrypt cv cardpriv cardpriv playerpub False;
              if checkcard \<noteq> ver then Some (- 1)
              else do { x \<leftarrow> aget cardpriv 1; Some (uint x) } } } }"

section \<open>Shuffling and layers\<close>

definition perm_step :: "nat \<Rightarrow> nat \<times> u8 \<Rightarrow> int list \<times> int list \<Rightarrow> (int list \<times> int list) option" where
  "perm_step numcards ix s = (case (ix, s) of ((i, x), (permi, desti)) \<Rightarrow>
     do { let pos = unat x mod (numcards - 1 - i + 1);
          p \<leftarrow> aget desti (int pos);
          l \<leftarrow> aget desti (int numcards - 1 - int i);
          desti \<leftarrow> aput desti (int pos) l;
          desti \<leftarrow> aput desti (int numcards - 1 - int i) (- 1);
          Some (permi @ [p], desti) })"

definition card_permutation :: "u8 list \<Rightarrow> nat \<Rightarrow> int list option" where
  "card_permutation rnd numcards =
     (if numcards > CARDS777_MAXCARDS \<or> length rnd < numcards then None
      else do { let desti = map int [0..<numcards] @ replicate (CARDS777_MAXCARDS - numcards) 0;
                (permi, _) \<leftarrow> ofold (perm_step numcards) (zip [0..<numcards] rnd) ([], desti);
                Some permi })"

definition cards777_shuffle :: "u8 list \<Rightarrow> bits256 list \<Rightarrow> nat \<Rightarrow> nat \<Rightarrow> bits256 list option" where
  "cards777_shuffle rnd cards numcards N =
     do { permi \<leftarrow> card_permutation rnd numcards;
          those (concat (map (\<lambda>p. map (\<lambda>j. aget cards (p * int N + int j)) [0..<N]) permi)) }"

definition layer_card :: "'f curve_ops \<Rightarrow> bits256 \<Rightarrow> bits256 \<Rightarrow> bits256 \<times> bits256" where
  "layer_card cv secret incard =
     (let (x, z) = cmult cv secret (fexpand cv curve25519_basepoint9);
          x_z = fmul cv x (crecip cv z);
          z_x = crecip cv x_z
      in (fcontract cv (fmul cv z_x (fexpand cv incard)), fcontract cv x_z))"

definition cards777_layer ::
    "'f curve_ops \<Rightarrow> bits256 list \<Rightarrow> bits256 list \<Rightarrow> nat \<Rightarrow> nat \<Rightarrow> (bits256 list \<times> bits256 list) option" where
  "cards777_layer cv secrets incards numcards N =
     (if length secrets < numcards * N \<or> length incards < numcards * N then None
      else let r = map2 (layer_card cv) (take (numcards * N) secrets) (take (numcards * N) incards)
           in Some (map fst r, map snd r))"

text \<open>
  \<open>cards777_encode\<close>: the layered cards, the factors, the shares of the factors and the shuffled
  cards, which replace the cards that came in. \<open>shares\<close> is \<open>calc_shares\<close> of the vendored
  secret-sharing library. The self-test of the shares at the end of the function has no effect on
  these arrays; its callers ignore the pointer that the function returns.
\<close>

definition cards777_encode ::
    "'f curve_ops \<Rightarrow> (u8 list \<Rightarrow> nat \<Rightarrow> nat \<Rightarrow> u8 list) \<Rightarrow> u8 list \<Rightarrow> bits256 list \<Rightarrow> nat \<Rightarrow> bits256 list \<Rightarrow> nat \<Rightarrow> nat
     \<Rightarrow> (bits256 list \<times> bits256 list \<times> u8 list \<times> bits256 list) option" where
  "cards777_encode cv shares rnd secrets M ciphers numcards N =
     do { shuffled \<leftarrow> cards777_shuffle rnd ciphers numcards N;
          (encoded, xoverz) \<leftarrow> cards777_layer cv secrets shuffled numcards N;
          Some (encoded, xoverz, shares (concat xoverz) M N, shuffled @ drop (numcards * N) ciphers) }"

fun decode_loop :: "'f curve_ops \<Rightarrow> nat list \<Rightarrow> bits256 list \<Rightarrow> nat \<Rightarrow> bits256 \<Rightarrow> bits256 list \<Rightarrow> nat \<Rightarrow> (bits256 \<times> bits256) option" where
  "decode_loop cv [] xoverz destplayer cipher outcards N = Some (replicate 32 0, replicate 32 0)"
| "decode_loop cv (i # is) xoverz destplayer cipher outcards N =
     do { let ind = int i * int N + int destplayer;
          c \<leftarrow> aget outcards ind;
          if c = cipher
          then do { x \<leftarrow> aget xoverz ind;
                    Some (x, fcontract cv (fmul cv (fexpand cv x) (fexpand cv cipher))) }
          else decode_loop cv is xoverz destplayer cipher outcards N }"

text \<open>The factor that was used, for the audit, and the card without the layer.\<close>

definition cards777_decode ::
    "'f curve_ops \<Rightarrow> bits256 list \<Rightarrow> nat \<Rightarrow> bits256 \<Rightarrow> bits256 list \<Rightarrow> nat \<Rightarrow> nat \<Rightarrow> (bits256 \<times> bits256) option" where
  "cards777_decode cv xoverz destplayer cipher outcards numcards N =
     decode_loop cv [0..<numcards] xoverz destplayer cipher outcards N"

section \<open>The deck\<close>

definition clamp_hash :: "u8 list \<Rightarrow> u8 list" where
  "clamp_hash hash = (let hash = hash[0 := hash ! 0 AND 0xf8]; hash = hash[31 := hash ! 31 AND 0x7f]
     in hash[31 := hash ! 31 OR 64])"

definition hash_product :: "'f curve_ops \<Rightarrow> bits256 \<Rightarrow> 'f \<Rightarrow> 'f" where
  "hash_product cv pubkey prd = fmul cv prd (fexpand cv (clamp_hash (vcalc_sha256 cv pubkey)))"

definition cards777_pubkeys :: "'f curve_ops \<Rightarrow> bits256 list \<Rightarrow> nat \<Rightarrow> bits256 option" where
  "cards777_pubkeys cv pubkeys numcards =
     (if length pubkeys < numcards then None
      else let bp = fexpand cv curve25519_basepoint9
           in Some (fcontract cv (fold (hash_product cv) (take numcards pubkeys) (fmul cv bp (crecip cv bp)))))"

text \<open>
  The loop of \<open>cards777_initdeck\<close> over the random private keys: a key whose second byte is the
  number of a card that is still missing becomes the key of that card.
\<close>

fun initdeck_loop ::
    "'f curve_ops \<Rightarrow> nat \<Rightarrow> bits256 list \<Rightarrow> bits256 list \<Rightarrow> u64 \<Rightarrow> bits256 list \<Rightarrow> bits256 list \<Rightarrow> 'f
     \<Rightarrow> (bits256 list \<times> bits256 list \<times> 'f) option" where
  "initdeck_loop cv numcards playerpubs keys msk cards cardpubs prd =
     (if msk = push_bit numcards 1 - 1 then Some (cards, cardpubs, prd)
      else case keys of [] \<Rightarrow> None
      | privkey # keys \<Rightarrow>
          do { x \<leftarrow> aget privkey 1;
               let i = unat x;
               let pubkey = public_key cv privkey;
               if i < numcards \<and> \<not> bit msk i
               then initdeck_loop cv numcards playerpubs keys (msk OR push_bit i 1)
                      (cards @ map (\<lambda>pub. cards777_initcrypt cv privkey privkey pub False) playerpubs)
                      (cardpubs @ [pubkey]) (hash_product cv pubkey prd)
               else initdeck_loop cv numcards playerpubs keys msk cards cardpubs prd })"

declare initdeck_loop.simps [simp del]

text \<open>The encrypted cards, the public keys of the cards and the product of their hashes.\<close>

definition cards777_initdeck ::
    "'f curve_ops \<Rightarrow> bits256 list \<Rightarrow> nat \<Rightarrow> bits256 list \<Rightarrow> (bits256 list \<times> bits256 list \<times> bits256) option" where
  "cards777_initdeck cv keys numcards playerpubs =
     do { let bp = fexpand cv curve25519_basepoint9;
          (cards, cardpubs, prd) \<leftarrow> initdeck_loop cv numcards playerpubs keys 0 [] [] (fmul cv bp (crecip cv bp));
          Some (cards, cardpubs, fcontract cv prd) }"


section \<open>What the code relies on\<close>

definition nonzero :: "'f curve_ops \<Rightarrow> 'f \<Rightarrow> bool" where
  "nonzero cv a \<longleftrightarrow> fcontract cv a \<noteq> replicate 32 0"

definition canonical :: "'f curve_ops \<Rightarrow> bits256 \<Rightarrow> bool" where
  "canonical cv x \<longleftrightarrow> fcontract cv (fexpand cv x) = x"

text \<open>
  The documented behaviour of the vendored field arithmetic: multiplication is commutative and
  associative, expanding a contracted element loses nothing, \<open>crecip\<close> is the inverse of a nonzero
  element; and of the curve: both sides of a key exchange compute the same secret.
\<close>

definition curve_ok :: "'f curve_ops \<Rightarrow> bool" where
  "curve_ok cv \<longleftrightarrow>
     (\<forall>a b. fcontract cv (fmul cv a b) = fcontract cv (fmul cv b a)) \<and>
     (\<forall>a b c. fcontract cv (fmul cv (fmul cv a b) c) = fcontract cv (fmul cv a (fmul cv b c))) \<and>
     (\<forall>a b. fcontract cv (fmul cv (fexpand cv (fcontract cv a)) b) = fcontract cv (fmul cv a b)) \<and>
     (\<forall>a. fcontract cv (fexpand cv (fcontract cv a)) = fcontract cv a) \<and>
     (\<forall>a b. nonzero cv a \<longrightarrow> fcontract cv (fmul cv (crecip cv a) (fmul cv a b)) = fcontract cv b) \<and>
     (\<forall>a. nonzero cv a \<longrightarrow> nonzero cv (crecip cv a)) \<and>
     (\<forall>s t. curve25519_shared cv s (public_key cv t) = curve25519_shared cv t (public_key cv s))"

lemma curve_laws:
  assumes "curve_ok cv"
  shows mul_commute: "fcontract cv (fmul cv a b) = fcontract cv (fmul cv b a)"
    and mul_assoc: "fcontract cv (fmul cv (fmul cv a b) c) = fcontract cv (fmul cv a (fmul cv b c))"
    and mul_reduced: "fcontract cv (fmul cv (fexpand cv (fcontract cv a)) b) = fcontract cv (fmul cv a b)"
    and contract_again: "fcontract cv (fexpand cv (fcontract cv a)) = fcontract cv a"
    and mul_inverse: "nonzero cv a \<Longrightarrow> fcontract cv (fmul cv (crecip cv a) (fmul cv a b)) = fcontract cv b"
    and crecip_nonzero: "nonzero cv a \<Longrightarrow> nonzero cv (crecip cv a)"
    and shared_commute: "curve25519_shared cv s (public_key cv t) = curve25519_shared cv t (public_key cv s)"
  using assms unfolding curve_ok_def by blast+

lemma mul_cancel:
  assumes "curve_ok cv" and "nonzero cv a"
  shows "fcontract cv (fmul cv a (fmul cv (crecip cv a) b)) = fcontract cv b"
proof -
  have "fcontract cv (fmul cv a (fmul cv (crecip cv a) b)) = fcontract cv (fmul cv (fmul cv a (crecip cv a)) b)"
    using mul_assoc [OF assms(1)] by simp
  also have "\<dots> = fcontract cv (fmul cv (fexpand cv (fcontract cv (fmul cv a (crecip cv a)))) b)" using mul_reduced [OF assms(1)] by simp
  also have "\<dots> = fcontract cv (fmul cv (fexpand cv (fcontract cv (fmul cv (crecip cv a) a))) b)" using mul_commute [OF assms(1), of a "crecip cv a"] by simp
  also have "\<dots> = fcontract cv (fmul cv (fmul cv (crecip cv a) a) b)" using mul_reduced [OF assms(1)] by simp
  also have "\<dots> = fcontract cv (fmul cv (crecip cv a) (fmul cv a b))" using mul_assoc [OF assms(1)] by simp
  finally show ?thesis using mul_inverse [OF assms] by simp
qed

section \<open>Encrypting for a player\<close>

lemma initcrypt_undone:
  assumes "curve_ok cv" and "canonical cv data" and "nonzero cv (fexpand cv (curve25519_shared cv a (public_key cv b)))"
  shows "cards777_initcrypt cv (cards777_initcrypt cv data a (public_key cv b) False) b (public_key cv a) True = data"
proof -
  let ?h = "fexpand cv (curve25519_shared cv a (public_key cv b))" and ?d = "fexpand cv data"
  have "cards777_initcrypt cv (cards777_initcrypt cv data a (public_key cv b) False) b (public_key cv a) True
      = fcontract cv (fmul cv (fexpand cv (fcontract cv (fmul cv ?d ?h))) (crecip cv ?h))"
    using shared_commute [OF assms(1), of a b] by (simp add: cards777_initcrypt_def)
  also have "\<dots> = fcontract cv (fmul cv (fmul cv ?d ?h) (crecip cv ?h))" using mul_reduced [OF assms(1)] by simp
  also have "\<dots> = fcontract cv (fmul cv (crecip cv ?h) (fmul cv ?d ?h))" using mul_commute [OF assms(1)] by simp
  also have "\<dots> = fcontract cv (fmul cv (fmul cv (crecip cv ?h) ?d) ?h)" using mul_assoc [OF assms(1)] by simp
  also have "\<dots> = fcontract cv (fmul cv ?h (fmul cv (crecip cv ?h) ?d))" using mul_commute [OF assms(1)] by simp
  also have "\<dots> = data" using mul_cancel [OF assms(1,3)] assms(2) by (simp add: canonical_def)
  finally show ?thesis .
qed

section \<open>Layers\<close>

text \<open>The factor of a secret: the quotient of the coordinates of a point.\<close>

definition factor :: "'f curve_ops \<Rightarrow> bits256 \<Rightarrow> 'f" where
  "factor cv secret = (case cmult cv secret (fexpand cv curve25519_basepoint9) of (x, z) \<Rightarrow> fmul cv x (crecip cv z))"

lemma layer_card_eq: "layer_card cv secret c = (fcontract cv (fmul cv (crecip cv (factor cv secret)) (fexpand cv c)), fcontract cv (factor cv secret))"
  by (simp add: layer_card_def factor_def Let_def split: prod.splits)

lemma unlayer:
  assumes "curve_ok cv" and "canonical cv c" and "nonzero cv (factor cv secret)" and "layer_card cv secret c = (e, x)"
  shows "fcontract cv (fmul cv (fexpand cv x) (fexpand cv e)) = c"
proof -
  let ?f = "factor cv secret"
  have "fcontract cv (fmul cv (fexpand cv x) (fexpand cv e)) = fcontract cv (fmul cv ?f (fexpand cv e))"
    using assms(4) mul_reduced [OF assms(1)] by (auto simp: layer_card_eq)
  also have "\<dots> = fcontract cv (fmul cv (fexpand cv e) ?f)" using mul_commute [OF assms(1)] by simp
  also have "\<dots> = fcontract cv (fmul cv (fmul cv (crecip cv ?f) (fexpand cv c)) ?f)" using assms(4) mul_reduced [OF assms(1)] by (auto simp: layer_card_eq)
  also have "\<dots> = fcontract cv (fmul cv ?f (fmul cv (crecip cv ?f) (fexpand cv c)))" using mul_commute [OF assms(1)] by simp
  finally show ?thesis using mul_cancel [OF assms(1,3)] assms(2) by (simp add: canonical_def)
qed


section \<open>The permutation\<close>

lemma take_out:
  assumes "pos < m" and "m \<le> length xs"
  shows "add_mset (xs ! pos) (mset (take (m - 1) (xs[pos := xs ! (m - 1)]))) = mset (take m xs)"
proof -
  obtain k where k: "m = Suc k" using assms(1) by (cases m) auto
  let ?t = "take k xs"
  have t: "take m xs = ?t @ [xs ! k]" using assms(2) k by (simp add: take_Suc_conv_app_nth)
  show ?thesis
  proof (cases "pos = k")
    case True
    then show ?thesis using t k by simp
  next
    case False
    then have p: "pos < k" "pos < length ?t" using assms k by auto
    have "take k (xs[pos := xs ! k]) = ?t[pos := xs ! k]" by (simp add: take_update_swap)
    moreover have "mset (?t[pos := xs ! k]) = add_mset (xs ! k) (mset ?t - {#?t ! pos#})" using p(2) by (rule mset_update)
    moreover have "xs ! pos \<in># mset ?t" using p by (metis nth_mem nth_take set_mset_mset)
    ultimately show ?thesis using t k p(1) by (simp add: add_mset_commute)
  qed
qed

lemma perm_step_ok:
  assumes "length desti = 52" and "n \<le> 52" and "i < n"
  shows "\<exists>desti'. perm_step n (i, x) (permi, desti) = Some (permi @ [desti ! (unat x mod (n - i))], desti') \<and> length desti' = 52
    \<and> add_mset (desti ! (unat x mod (n - i))) (mset (take (n - Suc i) desti')) = mset (take (n - i) desti)"
proof -
  let ?m = "n - i" let ?p = "unat x mod ?m"
  have m: "0 < ?m" "?m \<le> 52" "n - 1 - i + 1 = ?m" "int n - 1 - int i = int (?m - 1)" using assms by auto
  have p: "?p < ?m" using m by simp
  let ?d = "desti[?p := desti ! (?m - 1)]" let ?d' = "?d[?m - 1 := - 1]"
  have l: "?p < length desti" "?m - 1 < length desti" "?m - 1 < length ?d" using m p assms(1) by (simp_all only: length_list_update) linarith+
  have a: "aget desti (int ?p) = Some (desti ! ?p)" "aget desti (int (?m - 1)) = Some (desti ! (?m - 1))"
    "aput desti (int ?p) (desti ! (?m - 1)) = Some ?d" "aput ?d (int (?m - 1)) (- 1) = Some ?d'"
    by (rule aget_nat [OF l(1)], rule aget_nat [OF l(2)], rule aput_nat [OF l(1)], rule aput_nat [OF l(3)])
  have "perm_step n (i, x) (permi, desti) = Some (permi @ [desti ! ?p], ?d')"
    unfolding perm_step_def prod.case m(3,4) Let_def using a by simp
  moreover have "add_mset (desti ! ?p) (mset (take (n - Suc i) ?d')) = mset (take ?m desti)"
  proof -
    have e: "n - Suc i = ?m - 1" "take (?m - 1) ?d' = take (?m - 1) ?d" by simp_all
    show ?thesis unfolding e by (rule take_out [OF p]) (use m(2) assms(1) in linarith)
  qed
  ultimately show ?thesis using assms(1) by (intro exI [of _ ?d']) (simp only: length_list_update)
qed

lemma perm_fold:
  assumes "length rnd \<ge> n" and "n \<le> 52" and "i \<le> n"
  shows "\<exists>permi desti. ofold (perm_step n) (zip [0..<i] rnd) ([], map int [0..<n] @ replicate (52 - n) 0) = Some (permi, desti)
    \<and> length desti = 52 \<and> mset permi + mset (take (n - i) desti) = mset (map int [0..<n])"
  using assms(3)
proof (induction i)
  case 0
  then show ?case using assms(2) by simp
next
  case (Suc i)
  then obtain permi desti where IH: "ofold (perm_step n) (zip [0..<i] rnd) ([], map int [0..<n] @ replicate (52 - n) 0) = Some (permi, desti)"
      "length desti = 52" "mset permi + mset (take (n - i) desti) = mset (map int [0..<n])" by auto
  obtain desti' where s: "perm_step n (i, rnd ! i) (permi, desti) = Some (permi @ [desti ! (unat (rnd ! i) mod (n - i))], desti')" "length desti' = 52"
      "add_mset (desti ! (unat (rnd ! i) mod (n - i))) (mset (take (n - Suc i) desti')) = mset (take (n - i) desti)"
    using perm_step_ok [OF IH(2) assms(2), of i] Suc.prems by auto
  have "zip [0..<Suc i] rnd = zip [0..<i] rnd @ [(i, rnd ! i)]"
    using Suc.prems assms(1) by (intro nth_equalityI) (auto simp: nth_append less_Suc_eq)
  moreover have "mset (permi @ [desti ! (unat (rnd ! i) mod (n - i))]) + mset (take (n - Suc i) desti') = mset (map int [0..<n])"
    unfolding IH(3) [symmetric] s(3) [symmetric] by simp
  ultimately show ?case using IH(1) s(1,2) by (simp add: ofold_append)
qed

lemma card_permutation_ok:
  assumes "length rnd \<ge> n" and "n \<le> 52"
  shows "\<exists>permi. card_permutation rnd n = Some permi \<and> mset permi = mset (map int [0..<n])"
proof -
  obtain permi desti where p: "ofold (perm_step n) (zip [0..<n] rnd) ([], map int [0..<n] @ replicate (52 - n) 0) = Some (permi, desti)"
      "mset permi = mset (map int [0..<n])" using perm_fold [OF assms order_refl] by auto
  then show ?thesis using assms by (simp add: card_permutation_def CARDS777_MAXCARDS_def)
qed


text \<open>The ciphers of one player, by position in the deck.\<close>

definition at :: "nat \<Rightarrow> 'a list \<Rightarrow> nat \<Rightarrow> nat \<Rightarrow> 'a" where
  "at N cs i j = cs ! (i * N + j)"

lemma index_bound: "i < n \<Longrightarrow> j < N \<Longrightarrow> i * N + j < n * (N :: nat)"
proof -
  assume "i < n" "j < N"
  then have "i * N + j < (i + 1) * N" "(i + 1) * N \<le> n * N" by (simp, intro mult_le_mono1, simp)
  then show ?thesis by simp
qed

lemma those_Some: "(\<And>x. x \<in> set xs \<Longrightarrow> f x = Some (g x)) \<Longrightarrow> those (map f xs) = Some (map g xs)"
  by (induction xs) auto

lemma those_Some_append: "those xs = Some as \<Longrightarrow> those ys = Some bs \<Longrightarrow> those (xs @ ys) = Some (as @ bs)"
  by (induction xs arbitrary: as) (auto split: option.splits)

lemma those_concat:
  "\<forall>x \<in> set xs. \<forall>y \<in> set ys. f x y = Some (g x y) \<Longrightarrow> those (concat (map (\<lambda>x. map (f x) ys) xs)) = Some (concat (map (\<lambda>x. map (g x) ys) xs))"
  by (induction xs) (auto intro!: those_Some_append those_Some)

lemma concat_blocks:
  assumes "\<And>x. x \<in> set xs \<Longrightarrow> length (f x) = N" and "i < length xs" and "j < N"
  shows "concat (map f xs) ! (i * N + j) = f (xs ! i) ! j"
  using assms
proof (induction xs arbitrary: i)
  case (Cons x xs)
  show ?case
  proof (cases i)
    case 0
    then show ?thesis using Cons.prems by (simp add: nth_append)
  next
    case (Suc k)
    have "concat (map f xs) ! (k * N + j) = f (xs ! k) ! j" using Cons.IH [of k] Cons.prems Suc by simp
    moreover have "i * N + j = length (f x) + (k * N + j)" using Cons.prems(1) [of x] Suc by simp
    ultimately show ?thesis using Suc by (simp add: nth_append)
  qed
qed simp

lemma shuffle_permutes:
  assumes "length rnd \<ge> n" and "n \<le> 52" and "length cards = n * N"
  shows "\<exists>sh \<pi>. cards777_shuffle rnd cards n N = Some sh \<and> length sh = n * N \<and> bij_betw \<pi> {..<n} {..<n}
    \<and> (\<forall>i < n. \<forall>j < N. at N sh i j = at N cards (\<pi> i) j)"
proof -
  obtain permi where p: "card_permutation rnd n = Some permi" "mset permi = mset (map int [0..<n])" using card_permutation_ok [OF assms(1,2)] by blast
  have l: "length permi = n" and st: "set permi = int ` {..<n}" and d: "distinct permi"
    using p(2) by (metis length_map length_upt mset_eq_length minus_nat.diff_0, metis mset_eq_setD set_map atLeast0LessThan atLeast_upt lessThan_atLeast0 set_upt,
      metis distinct_map distinct_upt inj_on_of_nat mset_eq_imp_distinct_iff)
  define \<pi> where "\<pi> i = nat (permi ! i)" for i
  have \<pi>: "\<pi> i < n" "permi ! i = int (\<pi> i)" if "i < n" for i
    using st that l nth_mem [of i permi] by (auto simp: \<pi>_def)
  have "inj_on \<pi> {..<n}" using d l \<pi>(2) by (auto intro!: inj_onI simp: distinct_conv_nth)
  moreover have "\<pi> ` {..<n} \<subseteq> {..<n}" using \<pi>(1) by auto
  ultimately have b: "bij_betw \<pi> {..<n} {..<n}" by (simp add: bij_betw_def endo_inj_surj)
  let ?g = "\<lambda>p. map (\<lambda>j. cards ! (nat p * N + j)) [0..<N]"
  have "aget cards (q * int N + int j) = Some (cards ! (nat q * N + j))" if q: "q \<in> set permi" and j: "j < N" for q j
  proof -
    obtain k where "q = int k" "k < n" using q st by auto
    then show ?thesis using aget_nat [of "k * N + j" cards] index_bound [of k n j N] j assms(3) by simp
  qed
  then have "those (concat (map (\<lambda>p. map (\<lambda>j. aget cards (p * int N + int j)) [0..<N]) permi)) = Some (concat (map ?g permi))"
    by (intro those_concat) simp
  moreover have "length (concat (map ?g permi)) = n * N" using l by (simp add: length_concat o_def sum_list_triv)
  moreover have "at N (concat (map ?g permi)) i j = at N cards (\<pi> i) j" if "i < n" "j < N" for i j
    using concat_blocks [of permi ?g N i j] that l by (simp add: at_def \<pi>_def)
  ultimately show ?thesis using p(1) b by (intro exI [of _ "concat (map ?g permi)"] exI [of _ \<pi>]) (simp add: cards777_shuffle_def)
qed

lemma decode_finds:
  assumes "distinct (map (\<lambda>i. at N enc i j) is)" and "i \<in> set is" and "\<forall>k \<in> set is. k * N + j < length enc" and "length xo = length enc"
  shows "decode_loop cv is xo j (at N enc i j) enc N = Some (at N xo i j, fcontract cv (fmul cv (fexpand cv (at N xo i j)) (fexpand cv (at N enc i j))))"
  using assms
proof (induction "is")
  case (Cons k "is")
  have k: "k * N + j < length enc" using Cons.prems(3) by simp
  then have g: "aget enc (int k * int N + int j) = Some (at N enc k j)" "aget xo (int k * int N + int j) = Some (at N xo k j)"
    using aget_nat [of "k * N + j" enc] aget_nat [of "k * N + j" xo] Cons.prems(4) by (simp_all add: at_def)
  show ?case
  proof (cases "i = k")
    case True
    then show ?thesis using g by simp
  next
    case False
    then have "at N enc k j \<noteq> at N enc i j" using Cons.prems(1,2) by (auto simp: image_iff)
    then show ?thesis using g Cons False by simp
  qed
qed simp


section \<open>All layers\<close>

text \<open>
  The players after the host encode the deck one after the other (the messages \<open>encoded\<close>), each
  with its random bytes and secrets; a card goes back through them, the last player first (the
  messages \<open>preflop\<close> and \<open>decoded\<close>).
\<close>

fun encode_chain ::
    "'f curve_ops \<Rightarrow> (u8 list \<Rightarrow> nat \<Rightarrow> nat \<Rightarrow> u8 list) \<Rightarrow> nat \<Rightarrow> nat \<Rightarrow> nat \<Rightarrow> (u8 list \<times> bits256 list) list \<Rightarrow> bits256 list
     \<Rightarrow> ((bits256 list \<times> bits256 list) list \<times> bits256 list) option" where
  "encode_chain cv shares M n N [] cards = Some ([], cards)"
| "encode_chain cv shares M n N ((rnd, secrets) # players) cards =
     do { (outcards, xoverz, _, _) \<leftarrow> cards777_encode cv shares rnd secrets M cards n N;
          (layers, fin) \<leftarrow> encode_chain cv shares M n N players outcards;
          Some ((outcards, xoverz) # layers, fin) }"

fun decode_chain ::
    "'f curve_ops \<Rightarrow> nat \<Rightarrow> nat \<Rightarrow> (bits256 list \<times> bits256 list) list \<Rightarrow> nat \<Rightarrow> bits256 \<Rightarrow> bits256 option" where
  "decode_chain cv n N [] j cipher = Some cipher"
| "decode_chain cv n N ((outcards, xoverz) # layers) j cipher =
     do { cipher \<leftarrow> decode_chain cv n N layers j cipher;
          (_, cipher) \<leftarrow> cards777_decode cv xoverz j cipher outcards n N;
          Some cipher }"

text \<open>No two ciphers that one player sends out for the same receiver are equal.\<close>

definition distinct_columns :: "nat \<Rightarrow> nat \<Rightarrow> bits256 list \<Rightarrow> bool" where
  "distinct_columns n N outcards \<longleftrightarrow> (\<forall>j < N. distinct (map (\<lambda>i. at N outcards i j) [0..<n]))"

definition player_ok :: "'f curve_ops \<Rightarrow> nat \<Rightarrow> nat \<Rightarrow> u8 list \<times> bits256 list \<Rightarrow> bool" where
  "player_ok cv n N p \<longleftrightarrow> n \<le> length (fst p) \<and> n * N \<le> length (snd p) \<and> (\<forall>s \<in> set (snd p). nonzero cv (factor cv s))"

lemma encode_undone:
  assumes "curve_ok cv" and "n \<le> 52" and "length cards = n * N" and "\<forall>c \<in> set cards. canonical cv c" and "player_ok cv n N (rnd, secrets)"
  shows "\<exists>enc xo sh ciphers \<pi>. cards777_encode cv shares rnd secrets M cards n N = Some (enc, xo, sh, ciphers) \<and> length enc = n * N
    \<and> (\<forall>c \<in> set enc. canonical cv c) \<and> bij_betw \<pi> {..<n} {..<n}
    \<and> (distinct_columns n N enc \<longrightarrow> (\<forall>i < n. \<forall>j < N. \<exists>x. cards777_decode cv xo j (at N enc i j) enc n N = Some (x, at N cards (\<pi> i) j)))"
proof -
  have r: "n \<le> length rnd" "n * N \<le> length secrets" "\<forall>s \<in> set secrets. nonzero cv (factor cv s)" using assms(5) by (simp_all add: player_ok_def)
  obtain sh \<pi> where s: "cards777_shuffle rnd cards n N = Some sh" "length sh = n * N" "bij_betw \<pi> {..<n} {..<n}"
      "\<forall>i < n. \<forall>j < N. at N sh i j = at N cards (\<pi> i) j" using shuffle_permutes [OF r(1) assms(2,3)] by blast
  let ?r = "map2 (layer_card cv) (take (n * N) secrets) sh" let ?enc = "map fst ?r" and ?xo = "map snd ?r"
  have l: "cards777_layer cv secrets sh n N = Some (?enc, ?xo)" "length ?enc = n * N" "length ?xo = n * N"
    using s(2) r(2) by (simp_all add: cards777_layer_def Let_def)
  have "\<forall>c \<in> set ?enc. canonical cv c" using contract_again [OF assms(1)] by (auto simp: set_zip layer_card_eq canonical_def)
  moreover have "cards777_decode cv ?xo j (at N ?enc i j) ?enc n N = Some (at N ?xo i j, at N cards (\<pi> i) j)"
    if d: "distinct_columns n N ?enc" and i: "i < n" and j: "j < N" for i j
  proof -
    have k: "i * N + j < n * N" using index_bound [OF i j] .
    have "\<pi> i < n" using s(3) i by (auto simp: bij_betw_def)
    then have "at N sh i j = at N cards (\<pi> i) j" "canonical cv (at N cards (\<pi> i) j)"
      using s(4) i j assms(3,4) index_bound [of "\<pi> i" n j N] by (auto simp: at_def)
    moreover have "layer_card cv (secrets ! (i * N + j)) (at N sh i j) = (at N ?enc i j, at N ?xo i j)" using k s(2) r(2) by (simp add: at_def)
    moreover have "nonzero cv (factor cv (secrets ! (i * N + j)))" using r k by auto
    ultimately have u: "fcontract cv (fmul cv (fexpand cv (at N ?xo i j)) (fexpand cv (at N ?enc i j))) = at N cards (\<pi> i) j"
      using unlayer [OF assms(1), of "at N sh i j"] by metis
    have "\<forall>k \<in> set [0..<n]. k * N + j < length ?enc" unfolding l(2) using index_bound [OF _ j] by auto
    from decode_finds [of N ?enc j "[0..<n]" i ?xo cv, OF _ _ this] d i j l(2,3) u show ?thesis
      by (simp add: distinct_columns_def cards777_decode_def)
  qed
  ultimately show ?thesis using s(1,3) l(1,2) by (fastforce simp: cards777_encode_def)
qed

lemma chain_ok:
  assumes "curve_ok cv" and "n \<le> 52" and "length cards = n * N" and "\<forall>c \<in> set cards. canonical cv c" and "\<forall>p \<in> set players. player_ok cv n N p"
  shows "\<exists>layers fin \<pi>. encode_chain cv shares M n N players cards = Some (layers, fin) \<and> length fin = n * N \<and> bij_betw \<pi> {..<n} {..<n}
    \<and> ((\<forall>l \<in> set layers. distinct_columns n N (fst l)) \<longrightarrow> (\<forall>i < n. \<forall>j < N. decode_chain cv n N layers j (at N fin i j) = Some (at N cards (\<pi> i) j)))"
  using assms(3-)
proof (induction players arbitrary: cards)
  case Nil
  have "bij_betw id {..<n} {..<n}" by simp
  then show ?case using Nil.prems by (intro exI [of _ "[] :: (bits256 list \<times> bits256 list) list"] exI [of _ cards] exI [of _ id]) (simp add: bij_betw_def)
next
  case (Cons p players)
  obtain rnd secrets where p: "p = (rnd, secrets)" by (cases p)
  obtain enc xo sh ciphers \<pi> where e: "cards777_encode cv shares rnd secrets M cards n N = Some (enc, xo, sh, ciphers)" "length enc = n * N"
      "\<forall>c \<in> set enc. canonical cv c" "bij_betw \<pi> {..<n} {..<n}"
      "distinct_columns n N enc \<longrightarrow> (\<forall>i < n. \<forall>j < N. \<exists>x. cards777_decode cv xo j (at N enc i j) enc n N = Some (x, at N cards (\<pi> i) j))"
    using encode_undone [OF assms(1,2) Cons.prems(1,2), of rnd secrets shares M] Cons.prems(3) p by auto
  obtain layers fin \<sigma> where c: "encode_chain cv shares M n N players enc = Some (layers, fin)" "length fin = n * N" "bij_betw \<sigma> {..<n} {..<n}"
      "(\<forall>l \<in> set layers. distinct_columns n N (fst l)) \<longrightarrow> (\<forall>i < n. \<forall>j < N. decode_chain cv n N layers j (at N fin i j) = Some (at N enc (\<sigma> i) j))"
    using Cons.IH [OF e(2,3)] Cons.prems(3) by (metis list.set_intros(2))
  have b: "bij_betw (\<pi> \<circ> \<sigma>) {..<n} {..<n}" using c(3) e(4) by (rule bij_betw_trans)
  have "decode_chain cv n N ((enc, xo) # layers) j (at N fin i j) = Some (at N cards ((\<pi> \<circ> \<sigma>) i) j)"
    if d: "\<forall>l \<in> set ((enc, xo) # layers). distinct_columns n N (fst l)" and i: "i < n" and j: "j < N" for i j
  proof -
    have "\<sigma> i < n" using c(3) i by (auto simp: bij_betw_def)
    then obtain x where "cards777_decode cv xo j (at N enc (\<sigma> i) j) enc n N = Some (x, at N cards (\<pi> (\<sigma> i)) j)" using e(5) d j by force
    then show ?thesis using c(4) d i j by simp
  qed
  moreover have "encode_chain cv shares M n N (p # players) cards = Some ((enc, xo) # layers, fin)" using e(1) c(1) p by simp
  ultimately show ?case using c(2) b by blast
qed


section \<open>The deck of the host\<close>

definition second_byte :: "bits256 \<Rightarrow> nat" where
  "second_byte key = unat (key ! 1)"

lemma full_mask_bit: "n \<le> 52 \<Longrightarrow> bit (push_bit n 1 - 1 :: u64) k \<longleftrightarrow> k < n"
proof -
  assume "n \<le> 52"
  moreover have "push_bit n 1 - 1 = (mask n :: u64)" by (simp add: mask_eq_exp_minus_1)
  ultimately show ?thesis by (auto simp: bit_mask_iff)
qed

lemma initdeck_loop_ok:
  assumes "n \<le> 52" and "\<forall>k \<in> set keys. 1 < length k" and "\<forall>i. bit msk i \<longleftrightarrow> i \<in> second_byte ` set done_keys"
    and "distinct (map second_byte done_keys)" and "second_byte ` set done_keys \<subseteq> {..<n}"
    and "{..<n} \<subseteq> second_byte ` (set done_keys \<union> set keys)"
    and "cards = concat (map (\<lambda>k. map (\<lambda>pub. cards777_initcrypt cv k k pub False) pubs) done_keys)"
    and "cardpubs = map (public_key cv) done_keys" and "prd = fold (hash_product cv) cardpubs prd0"
  shows "\<exists>ks. initdeck_loop cv n pubs keys msk cards cardpubs prd
      = Some (concat (map (\<lambda>k. map (\<lambda>pub. cards777_initcrypt cv k k pub False) pubs) ks), map (public_key cv) ks,
              fold (hash_product cv) (map (public_key cv) ks) prd0)
    \<and> distinct (map second_byte ks) \<and> second_byte ` set ks = {..<n} \<and> set ks \<subseteq> set done_keys \<union> set keys"
  using assms(2-)
proof (induction keys arbitrary: msk done_keys cards cardpubs prd)
  case Nil
  then have e: "second_byte ` set done_keys = {..<n}" by auto
  then have "msk = push_bit n 1 - 1" using Nil.prems(2) full_mask_bit [OF assms(1)] by (intro bit_word_eqI) auto
  then show ?case using Nil.prems e by (auto simp: initdeck_loop.simps)
next
  case (Cons key keys)
  show ?case
  proof (cases "msk = push_bit n 1 - 1")
    case True
    then have "second_byte ` set done_keys = {..<n}" using Cons.prems(2) full_mask_bit [OF assms(1)] by auto
    then show ?thesis using True Cons.prems by (auto simp: initdeck_loop.simps)
  next
    case False
    have x: "aget key 1 = Some (key ! 1)" using Cons.prems(1) aget_nat [of 1 key] by simp
    show ?thesis
    proof (cases "second_byte key < n \<and> \<not> bit msk (second_byte key)")
      case True
      have nd: "second_byte key \<notin> second_byte ` set done_keys" using True Cons.prems(2) by simp
      have "second_byte key < 64" using True assms(1) by simp
      then have b: "\<forall>i. bit (msk OR push_bit (second_byte key) 1) i \<longleftrightarrow> i \<in> second_byte ` set (done_keys @ [key])"
        using Cons.prems(2) by (auto simp: bit_or_iff bit_push_bit_iff bit_1_iff bit_exp_iff)
      have s: "initdeck_loop cv n pubs (key # keys) msk cards cardpubs prd = initdeck_loop cv n pubs keys (msk OR push_bit (second_byte key) 1)
          (cards @ map (\<lambda>pub. cards777_initcrypt cv key key pub False) pubs) (cardpubs @ [public_key cv key]) (hash_product cv (public_key cv key) prd)"
        using False x True by (subst initdeck_loop.simps) (simp add: second_byte_def Let_def)
      show ?thesis unfolding s using Cons.IH [OF _ b] Cons.prems nd True by auto
    next
      case skip: False
      then have "second_byte key \<in> second_byte ` set done_keys \<or> \<not> second_byte key < n" using Cons.prems(2) by auto
      then have c: "{..<n} \<subseteq> second_byte ` (set done_keys \<union> set keys)" using Cons.prems(5) by auto
      have s: "initdeck_loop cv n pubs (key # keys) msk cards cardpubs prd = initdeck_loop cv n pubs keys msk cards cardpubs prd"
        using False x skip by (subst initdeck_loop.simps) (auto simp: second_byte_def Let_def)
      show ?thesis unfolding s using Cons.IH [OF _ Cons.prems(2,3,4) c Cons.prems(6-8)] Cons.prems(1) by auto
    qed
  qed
qed


section \<open>A fair deal\<close>

text \<open>The keys of the cards as the host draws them, and the players' keys.\<close>

definition keys_ok :: "'f curve_ops \<Rightarrow> nat \<Rightarrow> bits256 list \<Rightarrow> bits256 list \<Rightarrow> bool" where
  "keys_ok cv n keys privs \<longleftrightarrow> {..<n} \<subseteq> second_byte ` set keys \<and>
     (\<forall>k \<in> set keys. length k = 32 \<and> canonical cv k \<and> txid k \<noteq> 0 \<and>
        (\<forall>p \<in> set privs. nonzero cv (fexpand cv (curve25519_shared cv k (public_key cv p)))))"

text \<open>No cipher can be opened with the key of another card.\<close>

definition no_false_match :: "'f curve_ops \<Rightarrow> bits256 list \<Rightarrow> bits256 list \<Rightarrow> bool" where
  "no_false_match cv keys privs \<longleftrightarrow> (\<forall>k \<in> set keys. \<forall>k' \<in> set keys. \<forall>p \<in> set privs. k \<noteq> k' \<longrightarrow>
     public_key cv (cards777_initcrypt cv (cards777_initcrypt cv k k (public_key cv p) False) p (public_key cv k') True) \<noteq> public_key cv k')"

lemma cardpriv_finds:
  assumes "curve_ok cv" and "canonical cv k" and "nonzero cv (fexpand cv (curve25519_shared cv k (public_key cv p)))"
    and "k \<in> set ks" and "p \<in> set privs" and "no_false_match cv keys privs" and "set ks \<subseteq> set keys"
  shows "cardpriv_loop cv p (map (public_key cv) ks) (cards777_initcrypt cv k k (public_key cv p) False) = k"
  using assms(4,7)
proof (induction ks)
  case (Cons k' ks)
  let ?c = "cards777_initcrypt cv k k (public_key cv p) False"
  show ?case
  proof (cases "k' = k")
    case True
    then show ?thesis using initcrypt_undone [OF assms(1-3)] by (simp add: public_key_def Let_def)
  next
    case False
    then have "public_key cv (cards777_initcrypt cv ?c p (public_key cv k') True) \<noteq> public_key cv k'"
      using assms(5,6) Cons.prems by (auto simp: no_false_match_def)
    then show ?thesis using Cons False by (simp add: public_key_def Let_def)
  qed
qed simp

lemma fair_deal:
  assumes curve: "curve_ok cv" and n: "n \<le> 52" and keys: "keys_ok cv n keys privs" and match: "no_false_match cv keys privs"
    and players: "\<forall>p \<in> set players. player_ok cv n (length privs) p"
  shows "\<exists>cards cardpubs chk layers fin. cards777_initdeck cv keys n (map (public_key cv) privs) = Some (cards, cardpubs, chk)
    \<and> cards777_pubkeys cv cardpubs n = Some chk
    \<and> encode_chain cv shares M n (length privs) players cards = Some (layers, fin) \<and> length cards = n * length privs
    \<and> length cardpubs = n \<and> length fin = n * length privs \<and> (\<forall>c \<in> set cards. \<exists>a. c = fcontract cv a)
    \<and> ((\<forall>l \<in> set layers. distinct_columns n (length privs) (fst l)) \<longrightarrow>
        (\<exists>\<sigma>. bij_betw \<sigma> {..<n} {..<n} \<and> (\<forall>i < n. \<forall>j < length privs. \<exists>cipher key.
           decode_chain cv n (length privs) layers j (fin ! (i * length privs + j)) = Some cipher
           \<and> cards777_checkcard cv (privs ! j) cardpubs n cipher = Some (int (\<sigma> i), key))))"
proof -
  let ?N = "length privs" and ?bp = "fexpand cv curve25519_basepoint9"
  let ?enc = "\<lambda>k. map (\<lambda>pub. cards777_initcrypt cv k k pub False) (map (public_key cv) privs)"
  have k1: "\<forall>k \<in> set keys. 1 < length k" "{..<n} \<subseteq> second_byte ` (set [] \<union> set keys)" using keys by (auto simp: keys_ok_def)
  obtain ks where ks: "initdeck_loop cv n (map (public_key cv) privs) keys 0 [] [] (fmul cv ?bp (crecip cv ?bp))
        = Some (concat (map ?enc ks), map (public_key cv) ks, fold (hash_product cv) (map (public_key cv) ks) (fmul cv ?bp (crecip cv ?bp)))"
      "distinct (map second_byte ks)" "second_byte ` set ks = {..<n}" "set ks \<subseteq> set keys"
    using initdeck_loop_ok [OF n k1(1) _ _ _ k1(2), of 0 "[]" cv "map (public_key cv) privs" "[]" "fmul cv ?bp (crecip cv ?bp)" "fmul cv ?bp (crecip cv ?bp)"] by auto
  have len: "length ks = n" using ks(2,3) by (metis card_lessThan distinct_card length_map set_map)
  define cards where "cards = concat (map ?enc ks)"
  have cl: "length cards = n * ?N" using len by (simp add: cards_def length_concat o_def sum_list_triv)
  have at: "at ?N cards i j = cards777_initcrypt cv (ks ! i) (ks ! i) (public_key cv (privs ! j)) False" if "i < n" "j < ?N" for i j
    using concat_blocks [of ks ?enc ?N i j] that len by (simp add: at_def cards_def)
  have "\<forall>c \<in> set cards. canonical cv c" using contract_again [OF curve] by (auto simp: cards_def cards777_initcrypt_def canonical_def Let_def)
  from chain_ok [OF curve n cl this players] obtain layers fin \<pi> where ch: "encode_chain cv shares M n ?N players cards = Some (layers, fin)" "length fin = n * ?N"
      "bij_betw \<pi> {..<n} {..<n}"
      "\<forall>l \<in> set layers. distinct_columns n ?N (fst l) \<Longrightarrow> \<forall>i < n. \<forall>j < ?N. decode_chain cv n ?N layers j (at ?N fin i j) = Some (at ?N cards (\<pi> i) j)"
    by blast
  define \<sigma> where "\<sigma> i = second_byte (ks ! \<pi> i)" for i
  have "(\<lambda>i. second_byte (ks ! i)) ` {..<n} = second_byte ` set ks" using len by (auto simp: in_set_conv_nth intro!: imageI)
  then have "bij_betw (\<lambda>i. second_byte (ks ! i)) {..<n} {..<n}" using ks(2,3) len by (auto simp: bij_betw_def distinct_conv_nth inj_on_def)
  from bij_betw_trans [OF ch(3) this] have b: "bij_betw \<sigma> {..<n} {..<n}" by (simp add: \<sigma>_def [abs_def] o_def)
  have dec: "\<exists>cipher key. decode_chain cv n ?N layers j (fin ! (i * ?N + j)) = Some cipher
      \<and> cards777_checkcard cv (privs ! j) (map (public_key cv) ks) n cipher = Some (int (\<sigma> i), key)"
    if d: "\<forall>l \<in> set layers. distinct_columns n ?N (fst l)" and i: "i < n" and j: "j < ?N" for i j
  proof -
    let ?k = "ks ! \<pi> i" and ?p = "privs ! j"
    have pi: "\<pi> i < n" using ch(3) i by (auto simp: bij_betw_def)
    then have k: "?k \<in> set ks" "?k \<in> set keys" "?p \<in> set privs" using ks(4) len j by auto
    then have g: "canonical cv ?k" "txid ?k \<noteq> 0" "1 < length ?k" "nonzero cv (fexpand cv (curve25519_shared cv ?k (public_key cv ?p)))"
      using keys by (auto simp: keys_ok_def)
    have "cards777_checkcard cv ?p (map (public_key cv) ks) n (cards777_initcrypt cv ?k ?k (public_key cv ?p) False) = Some (int (\<sigma> i), ?k)"
      using cardpriv_finds [OF curve g(1,4) k(1,3) match ks(4)] len g(2,3) aget_nat [of 1 ?k]
      by (simp add: cards777_checkcard_def cards777_cardpriv_def \<sigma>_def second_byte_def)
    then show ?thesis using ch(4) [OF d] i j at [OF pi j] by (auto simp: at_def)
  qed
  let ?chk = "fcontract cv (fold (hash_product cv) (map (public_key cv) ks) (fmul cv ?bp (crecip cv ?bp)))"
  have init: "cards777_initdeck cv keys n (map (public_key cv) privs) = Some (cards, map (public_key cv) ks, ?chk)"
    using ks(1) by (simp add: cards777_initdeck_def Let_def cards_def)
  have chk: "cards777_pubkeys cv (map (public_key cv) ks) n = Some ?chk" using len by (simp add: cards777_pubkeys_def Let_def)
  have canon: "\<forall>c \<in> set cards. \<exists>a. c = fcontract cv a" by (auto simp: cards_def cards777_initcrypt_def Let_def)
  show ?thesis
  proof (rule exI [of _ cards], rule exI [of _ "map (public_key cv) ks"], rule exI [of _ ?chk], rule exI [of _ layers], rule exI [of _ fin],
      intro conjI impI init chk ch(1,2) cl canon)
    show "length (map (public_key cv) ks) = n" using len by simp
  next
    assume "\<forall>l \<in> set layers. distinct_columns n ?N (fst l)"
    then show "\<exists>\<sigma>. bij_betw \<sigma> {..<n} {..<n} \<and> (\<forall>i < n. \<forall>j < ?N. \<exists>cipher key. decode_chain cv n ?N layers j (fin ! (i * ?N + j)) = Some cipher
        \<and> cards777_checkcard cv (privs ! j) (map (public_key cv) ks) n cipher = Some (int (\<sigma> i), key))"
      using b dec by (intro exI [of _ \<sigma>]) blast
  qed
qed

text \<open>
  C6. The deal is fair. If the host has drawn keys for all cards and every other player shuffles
  and layers the deck, then every position of the final deck, taken back through all layers, gives
  each player the same card, and the positions hold every card exactly once. The checksum of the
  deck is the one that the players compute from the public keys.
\<close>

theorem deal_is_fair:
  assumes curve: "curve_ok cv" and n: "n \<le> 52" and keys: "keys_ok cv n keys privs" and match: "no_false_match cv keys privs"
    and players: "\<forall>p \<in> set players. player_ok cv n (length privs) p"
  shows "\<exists>cards cardpubs chk layers fin. cards777_initdeck cv keys n (map (public_key cv) privs) = Some (cards, cardpubs, chk)
    \<and> cards777_pubkeys cv cardpubs n = Some chk
    \<and> encode_chain cv shares M n (length privs) players cards = Some (layers, fin)
    \<and> ((\<forall>l \<in> set layers. distinct_columns n (length privs) (fst l)) \<longrightarrow>
        (\<exists>\<sigma>. bij_betw \<sigma> {..<n} {..<n} \<and> (\<forall>i < n. \<forall>j < length privs. \<exists>cipher key.
           decode_chain cv n (length privs) layers j (fin ! (i * length privs + j)) = Some cipher
           \<and> cards777_checkcard cv (privs ! j) cardpubs n cipher = Some (int (\<sigma> i), key))))"
  using fair_deal [OF assms, of shares M] by blast

text \<open>A small field in place of the field of the curve: the numbers modulo 11.\<close>

definition small_byte :: "nat \<Rightarrow> bits256" where
  "small_byte a = (if a mod 11 = 0 then replicate 32 0 else 1 # word_of_nat (a mod 11 - 1) # replicate 29 0 @ [1])"

definition small_val :: "bits256 \<Rightarrow> nat" where
  "small_val b = (if b ! 0 = 0 then 0 else (unat (b ! 1) + 1) mod 11)"

definition small_curve :: "nat curve_ops" where
  "small_curve = \<lparr>fexpand = small_val, fcontract = small_byte, fmul = (\<lambda>a b. a * b), crecip = (\<lambda>a. (a mod 11) ^ 9),
     cmult = (\<lambda>secret bp. (small_val secret, 1)), curve25519 = (\<lambda>s bp. s),
     curve25519_shared = (\<lambda>s p. small_byte (small_val s * small_val p)), vcalc_sha256 = (\<lambda>b. b)\<rparr>"

lemma small_val_byte: "small_val (small_byte a) = a mod 11"
proof (cases "a mod 11 = 0")
  case False
  have "a mod 11 - 1 < 2 ^ 8" by (rule order_le_less_trans [of _ 11]) (simp_all add: less_imp_diff_less less_imp_le)
  then have "unat (word_of_nat (a mod 11 - 1) :: u8) = a mod 11 - 1" by (simp only: unsigned_of_nat take_bit_eq_mod) simp
  then show ?thesis using False by (simp add: small_val_def small_byte_def)
qed (simp add: small_val_def small_byte_def)

lemma small_byte_mod: "a mod 11 = b mod 11 \<Longrightarrow> small_byte a = small_byte b"
  by (simp add: small_byte_def)

lemma small_zero: "small_byte a = replicate 32 0 \<longleftrightarrow> a mod 11 = 0"
proof -
  have "replicate 32 (0 :: u8) = 0 # replicate 31 0" by (simp add: replicate_Suc [symmetric] del: replicate_Suc)
  then show ?thesis by (auto simp: small_byte_def)
qed

lemma small_inverse:
  fixes a :: nat
  assumes "a mod 11 \<noteq> 0"
  shows "(a mod 11) ^ 9 * a mod 11 = 1"
proof -
  define x where "x = a mod 11"
  have "x < 11" "x \<noteq> 0" using assms by (simp_all add: x_def)
  then have "x \<in> {1, 2, 3, 4, 5, 6, 7, 8, 9, 10}" by simp arith
  then have "x ^ 9 * x mod 11 = 1" by auto
  then show ?thesis by (simp add: x_def mod_mult_right_eq)
qed

lemma small_recip:
  fixes a b :: nat
  assumes "a mod 11 \<noteq> 0"
  shows "(a mod 11) ^ 9 * (a * b) mod 11 = b mod 11" and "(a mod 11) ^ 9 mod 11 \<noteq> 0"
proof -
  have "(a mod 11) ^ 9 * (a * b) mod 11 = ((a mod 11) ^ 9 * a mod 11) * b mod 11" by (simp only: mult.assoc mod_mult_left_eq)
  then show "(a mod 11) ^ 9 * (a * b) mod 11 = b mod 11" using small_inverse [OF assms] by simp
  show "(a mod 11) ^ 9 mod 11 \<noteq> 0"
  proof
    assume "(a mod 11) ^ 9 mod 11 = 0"
    then have "(a mod 11) ^ 9 * a mod 11 = 0" by (metis mod_mult_left_eq mult_0 mod_0)
    then show False using small_inverse [OF assms] by simp
  qed
qed

lemma small_ops:
  "fexpand small_curve = small_val" "fcontract small_curve = small_byte" "fmul small_curve = (\<lambda>a b. a * b)"
  "crecip small_curve = (\<lambda>a. (a mod 11) ^ 9)" "cmult small_curve = (\<lambda>secret bp. (small_val secret, 1))"
  "curve25519 small_curve = (\<lambda>s bp. s)" "curve25519_shared small_curve = (\<lambda>s p. small_byte (small_val s * small_val p))"
  "vcalc_sha256 small_curve = (\<lambda>b. b)"
  by (simp_all add: small_curve_def)

lemma small_curve_ok: "curve_ok small_curve"
proof -
  have "small_byte (a * b) = small_byte (b * a)" "small_byte (a * b * c) = small_byte (a * (b * c))" for a b c by (simp_all only: ac_simps)
  moreover have "small_byte (small_val (small_byte a) * b) = small_byte (a * b)" "small_byte (small_val (small_byte a)) = small_byte a" for a b
    unfolding small_val_byte by (intro small_byte_mod, simp add: mod_mult_left_eq)+
  moreover have "a mod 11 \<noteq> 0 \<Longrightarrow> small_byte ((a mod 11) ^ 9 * (a * b)) = small_byte b" for a b by (intro small_byte_mod small_recip)
  ultimately show ?thesis unfolding curve_ok_def nonzero_def public_key_def small_ops small_zero
    using small_recip(2) by (simp add: mult.commute)
qed


lemma small_key:
  assumes "a mod 11 \<noteq> 0"
  shows "length (small_byte a) = 32" "canonical small_curve (small_byte a)" "txid (small_byte a) \<noteq> 0" "second_byte (small_byte a) = a mod 11 - 1"
proof -
  show "length (small_byte a) = 32" by (simp add: small_byte_def)
  show "canonical small_curve (small_byte a)" unfolding canonical_def small_ops small_val_byte by (rule small_byte_mod) simp
  have "bit (txid (small_byte a)) 0" unfolding txid_def bit_le_val using assms by (simp add: small_byte_def)
  then show "txid (small_byte a) \<noteq> 0" by (metis bit_0_eq bot_apply bot_bool_def)
  have "a mod 11 - 1 < 11" by (simp add: less_imp_diff_less)
  then have "unat (word_of_nat (a mod 11 - 1) :: u8) = a mod 11 - 1"
    by (simp add: unsigned_of_nat take_bit_eq_mod)
  then show "second_byte (small_byte a) = a mod 11 - 1" using assms by (simp add: second_byte_def small_byte_def)
qed

lemma small_eq: "small_byte a = small_byte b \<longleftrightarrow> a mod 11 = b mod 11"
  using small_byte_mod small_val_byte by metis

lemma small_crypt:
  "cards777_initcrypt small_curve (small_byte d) (small_byte a) (small_byte b) True = small_byte (d mod 11 * ((a mod 11 * (b mod 11)) mod 11 mod 11) ^ 9)"
  "cards777_initcrypt small_curve (small_byte d) (small_byte a) (small_byte b) False = small_byte (d mod 11 * ((a mod 11 * (b mod 11)) mod 11))"
  unfolding cards777_initcrypt_def small_ops Let_def small_val_byte by simp_all

definition small_keys :: "bits256 list" where
  "small_keys = [small_byte 2, small_byte 3, small_byte 1]"

definition small_privs :: "bits256 list" where
  "small_privs = [small_byte 3, small_byte 5]"

definition small_players :: "(u8 list \<times> bits256 list) list" where
  "small_players = [([1, 0], map small_byte [4, 4, 4, 4])]"

lemma small_bytes: "aget (small_byte 1) 1 = Some 0" "aget (small_byte 2) 1 = Some 1" "aget (small_byte 3) 1 = Some 2"
  "aget (small_byte 4) 1 = Some 3" "aget (small_byte 5) 1 = Some 4"
  by (simp_all add: small_byte_def aget_def)

lemma small_layer: "layer_card small_curve (small_byte a) (small_byte c) = (small_byte ((a mod 11) ^ 9 * (c mod 11)), small_byte a)"
  unfolding layer_card_eq factor_def small_ops small_val_byte by (simp add: small_eq)

lemma small_deck:
  "\<exists>chk. cards777_initdeck small_curve small_keys 2 (map (public_key small_curve) small_privs)
     = Some ([small_byte 1, small_byte 9, small_byte 3, small_byte 5], [small_byte 2, small_byte 1], chk)"
  unfolding cards777_initdeck_def small_keys_def small_privs_def
  by (simp add: initdeck_loop.simps small_bytes small_ops public_key_def small_crypt small_eq push_bit_eq_mult bit_iff_odd Let_def del: One_nat_def)

lemma small_shuffle:
  "cards777_shuffle [1, 0] [small_byte 1, small_byte 9, small_byte 3, small_byte 5] 2 2 = Some (map small_byte [3, 5, 1, 9])"
  unfolding cards777_shuffle_def card_permutation_def
  by (simp add: perm_step_def aget_def aput_def CARDS777_MAXCARDS_def upt_rec numeral_2_eq_2)

lemma small_layers:
  "\<exists>xo. encode_chain small_curve (\<lambda>_ _ _. []) 2 2 2 small_players [small_byte 1, small_byte 9, small_byte 3, small_byte 5]
     = Some ([(map small_byte [9, 4, 3, 5], xo)], map small_byte [9, 4, 3, 5])"
  unfolding small_players_def encode_chain.simps cards777_encode_def small_shuffle
  by (simp add: cards777_layer_def small_layer small_eq)

lemma small_distinct: "distinct_columns 2 2 (map small_byte [9, 4, 3, 5])"
  by (simp add: distinct_columns_def at_def small_eq upt_rec less_2_cases_iff)

theorem deal_is_fair_witness:
  "\<exists>cards cardpubs chk layers fin \<sigma>. cards777_initdeck small_curve small_keys 2 (map (public_key small_curve) small_privs) = Some (cards, cardpubs, chk)
    \<and> cards777_pubkeys small_curve cardpubs 2 = Some chk
    \<and> encode_chain small_curve (\<lambda>_ _ _. []) 2 2 2 small_players cards = Some (layers, fin)
    \<and> bij_betw \<sigma> {..<2 :: nat} {..<2}
    \<and> (\<exists>cipher key. decode_chain small_curve 2 2 layers 1 (fin ! 1) = Some cipher
         \<and> cards777_checkcard small_curve (small_privs ! 1) cardpubs 2 cipher = Some (int (\<sigma> 0), key))"
proof -
  have "{..<2} \<subseteq> second_byte ` set small_keys"
    using small_key(4) [of 1] small_key(4) [of 2] by (auto simp: image_iff less_2_cases_iff small_keys_def)
  then have k: "keys_ok small_curve 2 small_keys small_privs" unfolding keys_ok_def
    using small_key [of 1] small_key [of 2] small_key [of 3] by (simp add: small_ops nonzero_def public_key_def small_zero small_val_byte small_keys_def small_privs_def)
  have m: "no_false_match small_curve small_keys small_privs"
    unfolding no_false_match_def public_key_def small_ops small_keys_def small_privs_def by (simp add: small_crypt small_eq)
  have l: "length small_privs = 2" "(2 :: nat) \<le> 52" by (simp_all add: small_privs_def)
  have p: "\<forall>p \<in> set small_players. player_ok small_curve 2 (length small_privs) p"
    by (simp add: player_ok_def nonzero_def factor_def small_ops small_zero small_val_byte small_players_def l)
  obtain chk xo where c: "cards777_initdeck small_curve small_keys 2 (map (public_key small_curve) small_privs)
       = Some ([small_byte 1, small_byte 9, small_byte 3, small_byte 5], [small_byte 2, small_byte 1], chk)"
     "encode_chain small_curve (\<lambda>_ _ _. []) 2 2 2 small_players [small_byte 1, small_byte 9, small_byte 3, small_byte 5]
       = Some ([(map small_byte [9, 4, 3, 5], xo)], map small_byte [9, 4, 3, 5])"
    using small_deck small_layers by blast
  obtain cards cardpubs chk' layers fin where d: "cards777_initdeck small_curve small_keys 2 (map (public_key small_curve) small_privs) = Some (cards, cardpubs, chk')"
      "cards777_pubkeys small_curve cardpubs 2 = Some chk'" "encode_chain small_curve (\<lambda>_ _ _. []) 2 2 2 small_players cards = Some (layers, fin)"
      "(\<forall>l \<in> set layers. distinct_columns 2 2 (fst l)) \<longrightarrow> (\<exists>\<sigma>. bij_betw \<sigma> {..<2} {..<2} \<and> (\<forall>i < 2. \<forall>j < 2. \<exists>cipher key.
         decode_chain small_curve 2 2 layers j (fin ! (i * 2 + j)) = Some cipher
         \<and> cards777_checkcard small_curve (small_privs ! j) cardpubs 2 cipher = Some (int (\<sigma> i), key)))"
    using deal_is_fair [OF small_curve_ok l(2) k m p, of "\<lambda>_ _ _. []" 2, unfolded l(1)] by blast
  have "layers = [(map small_byte [9, 4, 3, 5], xo)]" using c d(1,3) by auto
  then have "\<forall>l \<in> set layers. distinct_columns 2 2 (fst l)" using small_distinct by simp
  with d(4) obtain \<sigma> where s: "bij_betw \<sigma> {..<2} {..<2}" "\<forall>i < 2. \<forall>j < 2. \<exists>cipher key.
         decode_chain small_curve 2 2 layers j (fin ! (i * 2 + j)) = Some cipher
         \<and> cards777_checkcard small_curve (small_privs ! j) cardpubs 2 cipher = Some (int (\<sigma> i), key)" by blast
  have "\<exists>cipher key. decode_chain small_curve 2 2 layers 1 (fin ! 1) = Some cipher
         \<and> cards777_checkcard small_curve (small_privs ! 1) cardpubs 2 cipher = Some (int (\<sigma> 0), key)"
    using s(2) [rule_format, of 0 1] by simp
  with d(1-3) s(1) show ?thesis by blast
qed

end
