(* ===== verification/PangeaDeal.thy ===== *)
theory PangeaDeal
  imports PangeaWire Cards777
begin

text \<open>
  Dealing (\<open>plugins/games/pangea/pangea777.c\<close>): the handlers that pass the deck from player to
  player (\<open>encoded\<close>), take the hole cards back through the players (\<open>preflop\<close>), hand them out
  (\<open>card\<close>) and open the community cards (\<open>decoded\<close>).

  The curve operations, the secret sharing and the random numbers are arguments, as in the theory
  of the cards. The arrays \<open>audits\<close>, \<open>outcards\<close> and \<open>xoverz\<close> follow one another in memory
  (\<open>cards777_allocpriv\<close>). \<open>None\<close> is an access outside an array. The self-checks of
  \<open>pangea_preflop\<close> (decoding what was just encoded) have no effect and are left out.
\<close>

section \<open>State\<close>

record deal_node = pangea_node +
  p_audits :: "bits256 list"
  p_outcards :: "bits256 list"
  p_xoverz :: "bits256 list"
  p_allshares :: "u8 list"
  hn_privkey :: bits256

text \<open>A payload as an array of 256-bit values.\<close>

definition blocks :: "nat \<Rightarrow> u8 list \<Rightarrow> bits256 list" where
  "blocks n data = map (\<lambda>i. take 32 (drop (32 * i) data)) [0..<n]"

text \<open>\<open>pangea_rwaudit\<close> on the node's own array, with the \<open>int\<close> indices of the callers.\<close>

definition read_audit :: "int \<Rightarrow> int \<Rightarrow> 'z deal_node_scheme \<Rightarrow> bits256 list option" where
  "read_audit cardi destplayer hn =
     (if cardi < 0 \<or> destplayer < 0 then None
      else do { (audit, _) \<leftarrow> pangea_rwaudit False (replicate (dp_N hn) (replicate 32 0)) (p_audits hn)
                                (nat cardi) (nat destplayer) (dp_N hn);
                Some audit })"

definition save_audit :: "bits256 list \<Rightarrow> int \<Rightarrow> int \<Rightarrow> 'z deal_node_scheme \<Rightarrow> 'z deal_node_scheme option" where
  "save_audit audit cardi destplayer hn =
     (if cardi < 0 \<or> destplayer < 0 then None
      else do { (_, audits) \<leftarrow> pangea_rwaudit True audit (p_audits hn) (nat cardi) (nat destplayer) (dp_N hn);
                Some (hn\<lparr>p_audits := audits\<rparr>) })"

section \<open>Receiving a card\<close>

definition pangea_card ::
    "'f curve_ops \<Rightarrow> u8 list \<Rightarrow> int \<Rightarrow> int \<Rightarrow> 'z deal_node_scheme \<Rightarrow> (int \<times> 'z deal_node_scheme) option" where
  "pangea_card cv data cardi dest hn =
     (let N = dp_N hn
      in if length data \<noteq> 32 * N then Some (- 1, hn)
         else do {
           hn \<leftarrow> save_audit (blocks N data) cardi dest hn;
           audit \<leftarrow> read_audit cardi dest hn;
           a0 \<leftarrow> aget audit 0;
           ind \<leftarrow> pangea_ind hn (hn_slot hn);
           (card, cardpriv) \<leftarrow> cards777_checkcard cv (hn_privkey hn) (h_cardpubs hn) (dp_numcards hn) a0;
           (validcard, hn) \<leftarrow>
             (if card \<ge> 0
              then do {
                let selector = cardi div int N;
                holecards \<leftarrow> aput (p_holecards hn) selector cardpriv;
                cardis \<leftarrow> aput (p_cardis hn) selector (word_of_int cardi);
                x \<leftarrow> aget cardpriv 1;
                hole \<leftarrow> aput (p_hole hn) selector x;
                hand \<leftarrow> aget (h_hands hn) ind;
                hand \<leftarrow> aput hand (5 + selector) x;
                hands \<leftarrow> aput (h_hands hn) ind hand;
                let hn = hn\<lparr>p_holecards := holecards, p_cardis := cardis, p_hole := hole, h_hands := hands\<rparr>;
                f \<leftarrow> aget (h_final hn) (cardi * int N + ind);
                pub \<leftarrow> aget (sp_playerpubs hn) (hn_slot hn);
                _ \<leftarrow> cards777_validate cv cardpriv f audit N pub;
                Some (1, hn) }
              else Some (- 1, hn));
           hn \<leftarrow> (if cardi < int (N * 2)
                  then pangea_sendcmd ''facedown'' (- 1) (le_bytes 4 (word_of_int cardi :: u32)) cardi validcard hn
                  else pangea_sendcmd ''faceup'' (- 1) cardpriv cardi 0xff hn);
           Some (0, hn) })"

section \<open>Taking a layer off\<close>

text \<open>
  One card of the audit arrays through \<open>cards777_decode\<close>: the first entry of its audit is the
  cipher, the factor goes into the entry of this player.
\<close>

definition decode_audit :: "'f curve_ops \<Rightarrow> int \<Rightarrow> int \<Rightarrow> 'z deal_node_scheme \<Rightarrow> (bits256 list \<times> 'z deal_node_scheme) option" where
  "decode_audit cv cardi destplayer hn =
     do { audit \<leftarrow> read_audit cardi destplayer hn;
          a0 \<leftarrow> aget audit 0;
          (seed, cipher) \<leftarrow> cards777_decode cv (p_xoverz hn) (nat destplayer) a0 (p_outcards hn) (dp_numcards hn) (dp_N hn);
          audit \<leftarrow> aput audit (sp_myind hn) seed;
          audit \<leftarrow> aput audit 0 cipher;
          hn \<leftarrow> save_audit audit cardi destplayer hn;
          Some (audit, hn) }"

definition pangea_decoded :: "'f curve_ops \<Rightarrow> pangea_cmd \<Rightarrow> 'z deal_node_scheme \<Rightarrow> (int \<times> 'z deal_node_scheme) option" where
  "pangea_decoded cv c hn =
     (let N = dp_N hn; cardi = c_cardi c
      in if length (c_data c) \<noteq> 32 * N then Some (- 1, hn)
         else if cardi < int (N * 2) \<or> cardi \<ge> int (N * 2 + 5) then Some (- 1, hn)
         else do {
           destplayer \<leftarrow> pangea_ind hn 0;
           hn \<leftarrow> save_audit (blocks N (c_data c)) cardi destplayer hn;
           audit \<leftarrow> read_audit cardi destplayer hn;
           ind \<leftarrow> pangea_ind hn (hn_slot hn);
           if c_turni c \<noteq> ind then Some (0, hn)
           else if hn_slot hn \<noteq> pangea_slotA hn
           then do { (audit, hn) \<leftarrow> decode_audit cv cardi destplayer hn;
                     hn \<leftarrow> pangea_sendcmd ''decoded'' (- 1) (concat audit) cardi (pangea_prevnode hn) hn;
                     Some (0, hn) }
           else do {
             a0 \<leftarrow> aget audit 0;
             (card, cardpriv) \<leftarrow> cards777_checkcard cv (hn_privkey hn) (h_cardpubs hn) (dp_numcards hn) a0;
             if card < 0 then Some (0, hn)
             else do {
               f \<leftarrow> aget (h_final hn) (cardi * int N + destplayer);
               pub \<leftarrow> aget (sp_playerpubs hn) (hn_slot hn);
               _ \<leftarrow> cards777_validate cv cardpriv f audit N pub;
               hn \<leftarrow> pangea_sendcmd ''faceup'' (- 1) cardpriv cardi (if txid cardpriv \<noteq> 0 then 0xff else - 1) hn;
               Some (0, hn) } } })"

section \<open>Hole cards\<close>

text \<open>All cards of the preflop through the layers of this player.\<close>

definition decode_step :: "'f curve_ops \<Rightarrow> nat \<times> nat \<Rightarrow> 'z deal_node_scheme \<Rightarrow> 'z deal_node_scheme option" where
  "decode_step cv cd hn = do { (_, hn) \<leftarrow> decode_audit cv (int (fst cd)) (int (snd cd)) hn; Some hn }"

definition preflop_pass :: "'f curve_ops \<Rightarrow> nat \<Rightarrow> 'z deal_node_scheme \<Rightarrow> 'z deal_node_scheme option" where
  "preflop_pass cv datalen hn =
     do { let N = dp_N hn;
          hn \<leftarrow> ofold (decode_step cv) (List.product [0..<N * 2] [0..<N]) hn;
          z \<leftarrow> pangea_zbuf (concat (p_audits hn) @ concat (p_outcards hn)) datalen;
          pangea_sendcmd ''preflop'' (pangea_prevnode hn) (map of_char z) (int (N * 2 * N)) (- 1) hn }"

text \<open>
  The second player takes the last layer off and hands out the cards, two rounds from the button
  on. \<open>dest\<close> is the destination in the message that is being handled, which \<open>pangea_card\<close> reads
  again.
\<close>

definition deal_card :: "'f curve_ops \<Rightarrow> int \<Rightarrow> nat \<Rightarrow> 'z deal_node_scheme \<Rightarrow> 'z deal_node_scheme option" where
  "deal_card cv dest cardi hn =
     do { let N = dp_N hn;
          let destplayer = (dp_button hn + cardi mod N) mod N;
          (audit, hn) \<leftarrow> decode_audit cv (int cardi) (int destplayer) hn;
          ind \<leftarrow> pangea_ind hn (hn_slot hn);
          if int destplayer = ind
          then do { (_, hn) \<leftarrow> pangea_card cv (concat audit) (int cardi) dest hn; Some hn }
          else pangea_sendcmd ''card'' (int destplayer) (concat audit) (int cardi) (- 1) hn }"

definition preflop_deal :: "'f curve_ops \<Rightarrow> int \<Rightarrow> 'z deal_node_scheme \<Rightarrow> 'z deal_node_scheme option" where
  "preflop_deal cv dest hn = (if dp_N hn = 0 then None else ofold (deal_card cv dest) [0..<dp_N hn * 2] hn)"

definition pangea_preflop :: "'f curve_ops \<Rightarrow> u8 list \<Rightarrow> int \<Rightarrow> 'z deal_node_scheme \<Rightarrow> (int \<times> 'z deal_node_scheme) option" where
  "pangea_preflop cv data dest hn =
     (let N = dp_N hn; n = 2 * N * (N * N)
      in if length data \<noteq> n * 32 then Some (- 1, hn)
         else if length (p_audits hn) < n then None
         else do {
           let hn = hn\<lparr>p_audits := blocks n data @ drop n (p_audits hn)\<rparr>;
           slotB \<leftarrow> pangea_slotB hn;
           hn \<leftarrow> (if hn_slot hn \<noteq> pangea_slotA hn \<and> hn_slot hn \<noteq> slotB
                  then preflop_pass cv (n * 32) hn else preflop_deal cv dest hn);
           Some (0, hn) })"

section \<open>The deck on its way\<close>

text \<open>The last player starts the audits with the ciphers of the final deck.\<close>

definition start_audit :: "nat \<times> nat \<Rightarrow> 'z deal_node_scheme \<Rightarrow> 'z deal_node_scheme option" where
  "start_audit cd hn =
     do { let cardi = int (fst cd);
          let destplayer = int (snd cd);
          audit \<leftarrow> read_audit cardi destplayer hn;
          f \<leftarrow> aget (h_final hn) (cardi * int (dp_N hn) + destplayer);
          audit \<leftarrow> aput audit 0 f;
          save_audit audit cardi destplayer hn }"

definition encoded_last :: "'f curve_ops \<Rightarrow> int \<Rightarrow> 'z deal_node_scheme \<Rightarrow> 'z deal_node_scheme option" where
  "encoded_last cv dest hn =
     (let N = dp_N hn; n = dp_numcards hn * N; m = 2 * N * (N * N)
      in if length (h_final hn) < n \<or> length (p_outcards hn) < n then None
         else do {
           let hn = hn\<lparr>h_final := take n (p_outcards hn) @ drop n (h_final hn)\<rparr>;
           hn \<leftarrow> pangea_sendcmd ''final'' (- 1) (concat (take n (p_outcards hn))) (int n) (- 1) hn;
           hn \<leftarrow> ofold start_audit (List.product [0..<N * 2] [0..<N]) hn;
           (_, hn) \<leftarrow> pangea_preflop cv (concat (take m (p_audits hn))) dest hn;
           Some hn })"

definition pangea_encoded ::
    "'f curve_ops \<Rightarrow> (u8 list \<Rightarrow> nat \<Rightarrow> nat \<Rightarrow> u8 list) \<Rightarrow> u8 list \<Rightarrow> bits256 list \<Rightarrow> u8 list \<Rightarrow> int \<Rightarrow> 'z deal_node_scheme
     \<Rightarrow> (int \<times> 'z deal_node_scheme) option" where
  "pangea_encoded cv shares rnd secrets data dest hn =
     (let N = dp_N hn; n = dp_numcards hn * N
      in if length data \<noteq> n * 32 then Some (- 1, hn)
         else do {
           ind \<leftarrow> pangea_ind hn (hn_slot hn);
           if ind < 0 \<or> length (p_outcards hn) < n \<or> length (p_xoverz hn) < n then None
           else do {
             (encoded, xoverz, allshares, _) \<leftarrow> cards777_encode cv shares rnd secrets (dp_M hn) (blocks n data) (dp_numcards hn) N;
             let hn = hn\<lparr>p_outcards := encoded @ drop n (p_outcards hn), p_xoverz := xoverz @ drop n (p_xoverz hn),
                         p_allshares := allshares\<rparr>;
             hn \<leftarrow> (if ind > 0
                    then (if ind < int (sp_numactive hn) - 1
                          then pangea_sendcmd ''encoded'' (pangea_nextnode hn) (concat (take n (p_outcards hn))) (int n) (- 1) hn
                          else encoded_last cv dest hn)
                    else Some hn);
             Some (0, hn) } })"

end
