(* ===== verification/PangeaServer.thy ===== *)
theory PangeaServer
  imports PangeaDeal
begin

text \<open>
  The host of a table and the message loop of every node (\<open>plugins/games/pangea/pangea777.c\<close>):
  new decks, the start of the encoding, players who report ready or are added, hand summaries,
  and \<open>pangea_poll\<close>, which decodes a message and runs its handler.

  A message is the JSON object that the JSON library has parsed. Clocks, random numbers, the
  coin-specific address functions and the JSON text of a hand history are arguments. Of the text
  in \<open>dp->newhand\<close> only the command name is kept: the code tests whether it is empty.
\<close>

section \<open>State\<close>

record server_node = deal_node +
  dp_minbuyin :: u32
  dp_maxbuyin :: u32
  sp_btcpub :: "u8 list"
  sp_btcpubkeys :: "string list"
  sp_coinaddrs :: "string list"
  sp_redeemScript :: string
  sp_scriptPubKey :: string

text \<open>
  The environment of a step: the time, the random numbers, the memory that \<open>malloc\<close> returned and
  the memory behind the JSON string.
\<close>

record 'f step_env =
  e_curve :: "'f curve_ops"
  e_shares :: "u8 list \<Rightarrow> nat \<Rightarrow> nat \<Rightarrow> u8 list"
  e_now :: u32
  e_rand1 :: int
  e_rand2 :: int
  e_rnd :: "u8 list"
  e_secrets :: "bits256 list"
  e_keys :: "bits256 list"
  e_fresh :: "u8 list"
  e_behind :: string
  e_btc_coinaddr :: "string \<Rightarrow> string \<Rightarrow> string"
  e_create_MofN :: "string \<Rightarrow> string list \<Rightarrow> nat \<Rightarrow> nat \<Rightarrow> string \<times> string \<times> string"
  e_dispsummary :: "u8 list \<Rightarrow> string option"
  e_fundsjson :: "u8 list \<Rightarrow> (u64 \<times> string option \<times> string option \<times> i32) option"

section \<open>A new deck\<close>

definition newdeck_msg :: "u64 list \<Rightarrow> u8 list \<Rightarrow> pangea_msg" where
  "newdeck_msg active data = \<lparr>m_cmd = ''newhand'', m_dest = - 1, m_data = data, m_cardi = 0, m_turni = 0, m_active = Some active\<rparr>"

definition pangea_sendnewdeck :: "u32 \<Rightarrow> pangea_msg \<Rightarrow> 'z server_node_scheme \<Rightarrow> 'z server_node_scheme" where
  "pangea_sendnewdeck now m hn = hn\<lparr>hn_sent := hn_sent hn @ [m], h_startdecktime := now\<rparr>"

definition player_pub :: "'z server_node_scheme \<Rightarrow> nat \<Rightarrow> bits256 option" where
  "player_pub hn i = do { slot \<leftarrow> pangea_slot hn (int i); aget (sp_playerpubs hn) slot }"

definition player_balance :: "'z server_node_scheme \<Rightarrow> nat \<Rightarrow> i64 option" where
  "player_balance hn i = do { slot \<leftarrow> pangea_slot hn (int i); aget (sp_balances hn) slot }"

text \<open>The list of broke players that \<open>pangea_newdeck\<close> collects is not used, but the balances are read.\<close>

definition pangea_newdeck :: "'f step_env \<Rightarrow> 'z server_node_scheme \<Rightarrow> (int \<times> 'z server_node_scheme) option" where
  "pangea_newdeck e hn =
     do { hn \<leftarrow> pangea_clearhand hn;
          _ \<leftarrow> those (map (player_balance hn) [0..<dp_N hn]);
          (_, hn) \<leftarrow> pangea_neworder hn None;
          playerpubs \<leftarrow> those (map (player_pub hn) [0..<dp_N hn]);
          let n = dp_numcards hn;
          let N = dp_N hn;
          (cards, cardpubs, checkprod) \<leftarrow> cards777_initdeck (e_curve e) (e_keys e) n playerpubs;
          if length (p_outcards hn) < n * N \<or> length (h_cardpubs hn) < n + 1 \<or> length (sp_active hn) < N then None
          else do {
            let hn = hn\<lparr>p_outcards := cards @ drop (n * N) (p_outcards hn), h_checkprod := checkprod,
                        h_cardpubs := cardpubs @ checkprod # drop (n + 1) (h_cardpubs hn), dp_newhand := ''newhand''\<rparr>;
            Some (0, pangea_sendnewdeck (e_now e)
                       (newdeck_msg (take N (sp_active hn)) (concat (take (n + 1) (h_cardpubs hn)))) hn) } }"

text \<open>With one player left who has funds the table is over; the balance of that player is only printed.\<close>

definition pangea_anotherhand :: "'f step_env \<Rightarrow> 'z server_node_scheme \<Rightarrow> (int \<times> 'z server_node_scheme) option" where
  "pangea_anotherhand e hn =
     (if length (sp_balances hn) < sp_numaddrs hn then None
      else let funded = filter (\<lambda>i. sp_balances hn ! i \<noteq> 0) [0..<sp_numaddrs hn]
           in if length funded = 1
              then do { _ \<leftarrow> player_balance hn (hd funded); Some (1, hn) }
              else do { (_, hn) \<leftarrow> pangea_newdeck e hn; Some (int (length funded), hn) })"

definition pangea_checkstart :: "u32 \<Rightarrow> 'z server_node_scheme \<Rightarrow> 'z server_node_scheme option" where
  "pangea_checkstart now hn =
     (if txid (h_checkprod hn) \<noteq> 0 \<and> dp_newhand hn \<noteq> [] \<and> h_encodestarted hn = 0
      then (if length (h_othercardpubs hn) < dp_N hn then None
            else if \<forall>p \<in> set (take (dp_N hn) (h_othercardpubs hn)). p = txid (h_checkprod hn)
            then do {
              let n = dp_N hn * dp_numcards hn;
              slotB \<leftarrow> pangea_slotB hn;
              if length (p_outcards hn) < n then None
              else pangea_sendcmd ''encoded'' slotB (concat (take n (p_outcards hn))) (int n) (- 1)
                     (hn\<lparr>h_encodestarted := now, dp_newhand := ''encoded''\<rparr>) }
            else Some hn)
      else Some hn)"

definition pangea_gotdeck :: "u32 \<Rightarrow> pangea_cmd \<Rightarrow> 'z server_node_scheme \<Rightarrow> (int \<times> 'z server_node_scheme) option" where
  "pangea_gotdeck now c hn =
     (if length (c_data c) < 8 then None
      else do { pubs \<leftarrow> aput (h_othercardpubs hn) (c_senderind c) (le_val (take 8 (c_data c)));
                hn \<leftarrow> pangea_checkstart now (hn\<lparr>h_othercardpubs := pubs\<rparr>);
                Some (0, hn) })"

section \<open>Players\<close>

definition pangea_ready :: "'f step_env \<Rightarrow> pangea_cmd \<Rightarrow> 'z server_node_scheme \<Rightarrow> (int \<times> 'z server_node_scheme) option" where
  "pangea_ready e c hn =
     do { slot \<leftarrow> pangea_slot hn (c_senderind c);
          if slot < 0 \<or> 31 < slot then None
          else do {
            let hn = hn\<lparr>dp_readymask := dp_readymask hn OR push_bit (nat slot) 1\<rparr>;
            hn \<leftarrow> (if length (c_data c) = 33
                   then do { let hexstr = snd (init_hexbytes_noT (c_data c));
                             ks \<leftarrow> aput (sp_btcpubkeys hn) slot hexstr;
                             as \<leftarrow> aput (sp_coinaddrs hn) slot (e_btc_coinaddr e (dp_coinstr hn) hexstr);
                             Some (hn\<lparr>sp_btcpubkeys := ks, sp_coinaddrs := as\<rparr>) }
                   else Some hn);
            if \<forall>i \<in> set [0..<dp_N hn]. bit (dp_readymask hn) i
            then do {
              hn \<leftarrow> (if hn_slot hn = pangea_slotA hn \<and> c_senderind c \<noteq> 0
                     then pangea_sendcmd ''ready'' (- 1) (sp_btcpub hn) 0 0 hn else Some hn);
              keys \<leftarrow> those (map (\<lambda>i. do { s \<leftarrow> pangea_slot hn (int i); aget (sp_btcpubkeys hn) s }) [0..<dp_N hn]);
              let (redeem, script, addr) = e_create_MofN e (dp_coinstr hn) keys (dp_M hn) (dp_N hn);
              Some (0, hn\<lparr>sp_redeemScript := redeem, sp_scriptPubKey := script, sp_multisigaddr := addr\<rparr>) }
            else Some (0, hn) } }"

text \<open>
  \<open>pangea_addplayer\<close> on a client; on the host the same changes are followed by the exchange of
  the server's socket and a message with the table description. The address of the new player is
  computed from its public key by the NXT account functions.
\<close>

definition pangea_addplayer :: "u64 \<Rightarrow> bits256 \<Rightarrow> 'z server_node_scheme \<Rightarrow> (int \<times> 'z server_node_scheme) option" where
  "pangea_addplayer nxt64bits clientpub hn =
     (if length (sp_addrs hn) < sp_numaddrs hn \<or> length (sp_balances hn) < sp_numaddrs hn then None
      else if nxt64bits \<in> set (take (sp_numaddrs hn) (sp_addrs hn)) then Some (- 1, hn)
      else let broke = filter (\<lambda>i. s_le (sp_balances hn ! i) 0) [0..<sp_numaddrs hn]
           in if broke = [] \<or> int (sp_numactive hn) \<ge> int (sp_numaddrs hn) - 1 then Some (- 1, hn)
              else do {
                let openslot = last broke;
                addrs \<leftarrow> aput (sp_addrs hn) (int openslot) nxt64bits;
                pubs \<leftarrow> aput (sp_playerpubs hn) (int openslot) clientpub;
                active \<leftarrow> aput (sp_active hn) (int (sp_numactive hn)) nxt64bits;
                let hn = hn\<lparr>dp_readymask := dp_readymask hn AND NOT (push_bit openslot 1), sp_addrs := addrs,
                            sp_playerpubs := pubs, sp_active := active, sp_numactive := sp_numactive hn + 1\<rparr>;
                (_, hn) \<leftarrow> pangea_neworder hn None;
                Some (0, hn) })"

section \<open>Hand summaries\<close>

definition summary_matches :: "'f step_env \<Rightarrow> u8 list \<Rightarrow> 'z server_node_scheme \<Rightarrow> bool" where
  "summary_matches e data hn \<longleftrightarrow> length data = length (dp_summary hn) \<and>
     (data = dp_summary hn \<or> (case (e_dispsummary e (dp_summary hn), e_dispsummary e data) of
        (Some a, Some b) \<Rightarrow> a = b | _ \<Rightarrow> False))"

definition pangea_gotsummary :: "'f step_env \<Rightarrow> pangea_cmd \<Rightarrow> 'z server_node_scheme \<Rightarrow> (int \<times> 'z server_node_scheme) option" where
  "pangea_gotsummary e c hn =
     (if c_senderind c < 0 \<or> 63 < c_senderind c then None
      else do {
        let m = push_bit (nat (c_senderind c)) 1;
        let hn = (if summary_matches e (c_data c) hn then hn\<lparr>dp_summaries := dp_summaries hn OR m\<rparr>
                  else hn\<lparr>dp_mismatches := dp_mismatches hn OR m\<rparr>);
        hn \<leftarrow> (if c_senderind c = 0 \<and> hn_slot hn \<noteq> pangea_slotA hn then pangea_sendsummary hn else Some hn);
        if dp_mismatches hn OR dp_summaries hn = push_bit (dp_N hn) 1 - 1 \<and> hn_slot hn = 0
        then do { (_, hn) \<leftarrow> pangea_anotherhand e (hn\<lparr>dp_mismatches := 0, dp_summaries := 0\<rparr>); Some (0, hn) }
        else Some (0, hn) })"

section \<open>The state of the host\<close>

definition PANGEA_HANDGAP :: u32 where "PANGEA_HANDGAP = 30"

definition buyins_paid :: "'z server_node_scheme \<Rightarrow> bool option" where
  "buyins_paid hn =
     do { bs \<leftarrow> those (map (player_balance hn) [0..<dp_N hn]);
          Some (\<forall>b \<in> set bs. \<not> b < ucast (dp_minbuyin hn) * dp_bigblind hn \<and> \<not> b > ucast (dp_maxbuyin hn) * dp_bigblind hn) }"

definition pangea_serverstate :: "'f step_env \<Rightarrow> 'z server_node_scheme \<Rightarrow> 'z server_node_scheme option" where
  "pangea_serverstate e hn =
     do { hn \<leftarrow> (if h_finished hn \<noteq> 0 \<and> e_now e > h_finished hn + PANGEA_HANDGAP
                 then do { (_, hn) \<leftarrow> pangea_anotherhand e hn; Some hn } else Some hn);
          if h_betstarted hn = 0 \<and> dp_newhand hn = []
          then (if length (h_havemasks hn) < dp_N hn then None
                else if length (filter (\<lambda>m. bitweight m = 2) (take (dp_N hn) (h_havemasks hn))) < dp_N hn
                then do { paid \<leftarrow> buyins_paid hn;
                          if paid \<and> dp_numhands hn < 2 \<and> e_now e > h_startdecktime hn + 60
                          then do { (_, hn) \<leftarrow> pangea_newdeck e hn; Some hn } else Some hn }
                else Some hn)
          else pangea_checkstart (e_now e) hn }"

section \<open>The message loop\<close>

record pangea_json =
  j_cmd :: "string option"
  j_myind :: int
  j_turni :: int
  j_cardi :: int
  j_dest :: int
  j_n :: nat
  j_data :: "string option"
  j_active :: "u64 list option"

text \<open>
  The payload: \<open>None\<close> inside means that the message is dropped. A string whose length does not fit
  leaves the fresh buffer as it is, and the handler runs on it; a missing string is a null pointer.
\<close>

definition poll_data :: "'f step_env \<Rightarrow> nat \<Rightarrow> pangea_json \<Rightarrow> (u8 list option) option" where
  "poll_data e maxlen j =
     (case j_data j of
        None \<Rightarrow> if j_cmd j = Some ''preflop'' then (if length (e_fresh e) < j_n j then None else Some (Some (take (j_n j) (e_fresh e)))) else None
      | Some hexstr \<Rightarrow>
          if j_cmd j = Some ''preflop''
          then do { data \<leftarrow> pangea_unzbuf maxlen (hexstr @ CHR 0x00 # e_behind e) (j_n j); Some (Some data) }
          else if length hexstr = j_n j * 2
          then (if j_n j > maxlen then Some None
                else do { (_, data) \<leftarrow> decode_hex (j_n j) (hexstr @ CHR 0x00 # e_behind e); Some (Some (take (j_n j) data)) })
          else (if length (e_fresh e) < j_n j then None else Some (Some (take (j_n j) (e_fresh e)))))"

definition run_handler :: "'f step_env \<Rightarrow> string \<Rightarrow> pangea_cmd \<Rightarrow> 'z server_node_scheme \<Rightarrow> 'z server_node_scheme option" where
  "run_handler e cmd c hn = map_option snd
     (if cmd = ''newhand'' then pangea_newhand (\<lambda>pubs n _. the (cards777_pubkeys (e_curve e) pubs n)) c hn
      else if cmd = ''ping'' then pangea_ping c hn
      else if cmd = ''gotdeck'' then pangea_gotdeck (e_now e) c hn
      else if cmd = ''ready'' then pangea_ready e c hn
      else if cmd = ''encoded'' then pangea_encoded (e_curve e) (e_shares e) (e_rnd e) (e_secrets e) (c_data c) (c_dest c) hn
      else if cmd = ''final'' then pangea_final c hn
      else if cmd = ''addfunds'' then map_option (Pair 0) (pangea_addfunds hn (c_data c) (e_fundsjson e (c_data c)) (c_senderind c))
      else if cmd = ''preflop'' then pangea_preflop (e_curve e) (c_data c) (c_dest c) hn
      else if cmd = ''decoded'' then pangea_decoded (e_curve e) c hn
      else if cmd = ''card'' then pangea_card (e_curve e) (c_data c) (c_cardi c) (c_dest c) hn
      else if cmd = ''facedown'' then pangea_facedown c hn
      else if cmd = ''faceup'' then pangea_faceup c hn
      else if cmd = ''turn'' then pangea_turn c hn
      else if cmd = ''confirmturn'' then pangea_confirmturn (e_now e) (e_rand1 e) (e_rand2 e) c hn
      else if cmd = ''action'' then pangea_action (e_now e) c hn
      else if cmd = ''showdown'' then pangea_showdown (e_now e) c hn
      else if cmd = ''summary'' then pangea_gotsummary e c hn
      else Some (0, hn))"

definition pangea_poll :: "'f step_env \<Rightarrow> pangea_json \<Rightarrow> 'z server_node_scheme \<Rightarrow> 'z server_node_scheme option" where
  "pangea_poll e j hn =
     (if j_myind j < 0 \<or> j_myind j \<ge> int (dp_N hn) then Some hn
      else if sp_myind hn < 0 then Some hn
      else do {
        data \<leftarrow> poll_data e (32 * (dp_N hn * dp_N hn * dp_numcards hn)) j;
        case (data, j_cmd j) of
          (Some d, Some cmd) \<Rightarrow>
            run_handler e cmd \<lparr>c_senderind = j_myind j, c_turni = j_turni j, c_cardi = j_cardi j, c_data = d,
                               c_dest = j_dest j, c_active = j_active j\<rparr> hn
        | _ \<Rightarrow> Some hn })"

text \<open>One round of \<open>pangea_idle\<close> for a node: a message, if there is one, the end of the hand, the state of the host.\<close>

definition pangea_idle :: "'f step_env \<Rightarrow> pangea_json option \<Rightarrow> 'z server_node_scheme \<Rightarrow> 'z server_node_scheme option" where
  "pangea_idle e msg hn =
     do { hn \<leftarrow> (case msg of None \<Rightarrow> Some hn | Some j \<Rightarrow> pangea_poll e j hn);
          hn \<leftarrow> (if h_handmask hn = push_bit (dp_N hn) 1 - 1 \<and> h_finished hn = 0
                 then pangea_finish (e_now e) hn else Some hn);
          if hn_slot hn = pangea_slotA hn then pangea_serverstate e hn else Some hn }"

end
