(* ===== verification/PangeaNetwork.thy ===== *)
theory PangeaNetwork
  imports PangeaServer
begin

text \<open>
  The nodes of a table together while a hand is dealt. A step delivers any one of the messages in
  flight to its receiver, which runs \<open>pangea_poll\<close> on it and sends its answers; messages may
  overtake one another. The messages of the deal are those of the commands \<open>encoded\<close>, \<open>final\<close>, \<open>preflop\<close>,
  \<open>card\<close> and \<open>facedown\<close>, with which a player who got a card tells all nodes. When the host has heard of all
  hole cards it takes the antes and blinds and opens the betting (\<open>pangea_startbets\<close>); its \<open>turn\<close> messages are
  collected in \<open>n_later\<close> and not delivered here. The buffer in which \<open>pangea_sendcmd\<close> prints a
  message is not modelled: a message has the room it needs.

  The theorem is about tables of 2 to 9 players with good secrets, no colliding ciphers and, from three players on, a
  \<open>preflop\<close> message whose last factor does not end in a zero byte, and a host whose summary of the hand has 800
  bytes of room for each player. It says that every schedule comes to an
  end, that no node ever reads or writes outside its arrays, and that at the end all players hold their two
  cards, all of them different.
\<close>

section \<open>Messages in flight\<close>

text \<open>The JSON object that \<open>pangea_sendcmd\<close> writes, as the receiver reads it.\<close>

definition json_of :: "nat \<Rightarrow> pangea_msg \<Rightarrow> pangea_json" where
  "json_of sender m = \<lparr>j_cmd = Some (m_cmd m), j_myind = int sender, j_turni = m_turni m, j_cardi = m_cardi m, j_dest = m_dest m,
     j_n = length (m_data m),
     j_data = Some (if m_cmd m = ''preflop'' then map (\<lambda>b. char_of (unat b)) (m_data m) else snd (init_hexbytes_noT (m_data m))),
     j_active = m_active m\<rparr>"

type_synonym packet = "nat \<times> nat \<times> pangea_msg"

record deal_net =
  n_nodes :: "server_node list"
  n_flight :: "packet list"
  n_later :: "packet list"

text \<open>\<open>hostnet777_msg\<close>: a broadcast reaches every node, the sender included.\<close>

definition receivers :: "nat \<Rightarrow> pangea_msg \<Rightarrow> nat list" where
  "receivers N m = (if m_dest m < 0 then [0..<N] else [nat (m_dest m)])"

definition packets :: "nat \<Rightarrow> nat \<Rightarrow> pangea_msg list \<Rightarrow> packet list" where
  "packets N sender ms = concat (map (\<lambda>m. map (\<lambda>r. (r, sender, m)) (receivers N m)) ms)"

definition deal_cmd :: "pangea_msg \<Rightarrow> bool" where
  "deal_cmd m \<longleftrightarrow> m_cmd m \<in> {''encoded'', ''final'', ''preflop'', ''card'', ''facedown''}"

definition deliver :: "(nat \<Rightarrow> 'f step_env) \<Rightarrow> nat \<Rightarrow> deal_net \<Rightarrow> deal_net option" where
  "deliver env k s =
     do { (d, sender, m) \<leftarrow> aget (n_flight s) (int k);
          hn \<leftarrow> aget (n_nodes s) (int d);
          hn' \<leftarrow> pangea_poll (env d) (json_of sender m) hn;
          let out = packets (length (n_nodes s)) d (hn_sent hn');
          Some \<lparr>n_nodes = (n_nodes s)[d := hn'\<lparr>hn_sent := []\<rparr>],
                n_flight = take k (n_flight s) @ drop (Suc k) (n_flight s) @ filter (\<lambda>(_, _, m). deal_cmd m) out,
                n_later = n_later s @ filter (\<lambda>(_, _, m). \<not> deal_cmd m) out\<rparr> }"

text \<open>A run delivers messages in some order; \<open>runs env s n t\<close>: \<open>n\<close> deliveries lead from \<open>s\<close> to \<open>t\<close>.\<close>

inductive runs :: "(nat \<Rightarrow> 'f step_env) \<Rightarrow> deal_net \<Rightarrow> nat \<Rightarrow> deal_net \<Rightarrow> bool" for env s where
  start: "runs env s 0 s"
| step: "runs env s n t \<Longrightarrow> k < length (n_flight t) \<Longrightarrow> deliver env k t = Some u \<Longrightarrow> runs env s (Suc n) u"

section \<open>A table that is being dealt\<close>

text \<open>What does not change while a hand is dealt, and what the theory of the cards gives.\<close>

record 'f deal_ctx =
  x_curve :: "'f curve_ops"
  x_shares :: "u8 list \<Rightarrow> nat \<Rightarrow> nat \<Rightarrow> u8 list"
  x_M :: nat
  x_n :: nat
  x_N :: nat
  x_button :: nat
  x_cardpubs :: "bits256 list"
  x_privs :: "bits256 list"
  x_cards :: "bits256 list"
  x_layers :: "(bits256 list \<times> bits256 list) list"
  x_env :: "nat \<Rightarrow> 'f step_env"

definition deck :: "'f deal_ctx \<Rightarrow> nat \<Rightarrow> bits256 list" where
  "deck x i = (if i = 0 then x_cards x else fst (x_layers x ! (i - 1)))"

definition factors :: "'f deal_ctx \<Rightarrow> nat \<Rightarrow> bits256 list" where
  "factors x i = snd (x_layers x ! (i - 1))"

text \<open>Card \<open>c\<close> of the final deck for player \<open>j\<close> after the layers above \<open>i\<close> have been taken off.\<close>

definition peeled :: "'f deal_ctx \<Rightarrow> nat \<Rightarrow> nat \<Rightarrow> nat \<Rightarrow> bits256 option" where
  "peeled x i c j = decode_chain (x_curve x) (x_n x) (x_N x) (drop i (x_layers x)) j (deck x (x_N x - 1) ! (c * x_N x + j))"

definition receiver :: "'f deal_ctx \<Rightarrow> nat \<Rightarrow> nat" where
  "receiver x c = (x_button x + c mod x_N x) mod x_N x"

definition ctx_ok :: "'f deal_ctx \<Rightarrow> (nat \<Rightarrow> nat) \<Rightarrow> bool" where
  "ctx_ok x \<sigma> \<longleftrightarrow> 2 \<le> x_N x \<and> x_N x \<le> 9 \<and> 2 * x_N x < x_n x \<and> x_n x \<le> 52
     \<and> length (x_layers x) = x_N x - 1 \<and> length (x_privs x) = x_N x
     \<and> (\<forall>a. length (fcontract (x_curve x) a) = 32)
     \<and> (\<forall>i. e_curve (x_env x i) = x_curve x \<and> e_shares (x_env x i) = x_shares x \<and> e_behind (x_env x i) \<noteq> [])
     \<and> (\<forall>i < x_N x. length (deck x i) = x_n x * x_N x \<and> (\<forall>b \<in> set (deck x i). length b = 32))
     \<and> (\<forall>i. 0 < i \<and> i < x_N x \<longrightarrow> length (factors x i) = x_n x * x_N x \<and> (\<forall>b \<in> set (factors x i). length b = 32)
          \<and> (\<exists>sh cs. cards777_encode (x_curve x) (x_shares x) (e_rnd (x_env x i)) (e_secrets (x_env x i)) (x_M x) (deck x (i - 1)) (x_n x) (x_N x)
              = Some (deck x i, factors x i, sh, cs)))
     \<and> distinct_columns (x_n x) (x_N x) (deck x (x_N x - 1))
     \<and> (2 < x_N x \<longrightarrow> last (factors x (x_N x - 1) ! (2 * x_N x * x_N x - 1)) \<noteq> 0)
     \<and> (\<forall>c < x_n x. \<forall>j < x_N x. \<exists>v key. peeled x 0 c j = Some v
          \<and> cards777_checkcard (x_curve x) (x_privs x ! j) (x_cardpubs x) (x_n x) v = Some (int (\<sigma> c), key))"

definition seat_ok :: "'f deal_ctx \<Rightarrow> nat \<Rightarrow> 'z server_node_scheme \<Rightarrow> bool" where
  "seat_ok x i hn \<longleftrightarrow> dp_N hn = x_N x \<and> sp_numactive hn = x_N x \<and> sp_numaddrs hn = x_N x \<and> dp_numcards hn = x_n x \<and> dp_M hn = x_M x
     \<and> length (sp_addrs hn) = 9 \<and> length (sp_active hn) = 9 \<and> take (x_N x) (sp_active hn) = take (x_N x) (sp_addrs hn)
     \<and> distinct (take (x_N x) (sp_addrs hn)) \<and> length (sp_playerpubs hn) = 9
     \<and> hn_slot hn = int i \<and> sp_myind hn = int i \<and> (i = 1 \<longrightarrow> dp_button hn = x_button x)
     \<and> x_n x \<le> length (h_cardpubs hn) \<and> take (x_n x) (h_cardpubs hn) = x_cardpubs x \<and> hn_privkey hn = x_privs x ! i
     \<and> length (p_outcards hn) = x_n x * x_N x \<and> length (p_xoverz hn) = x_n x * x_N x \<and> length (h_final hn) = x_n x * x_N x
     \<and> length (p_audits hn) = x_n x * x_N x * x_N x \<and> (\<forall>b \<in> set (p_audits hn). length b = 32)
     \<and> length (p_hole hn) = 2 \<and> length (p_cardis hn) = 2 \<and> length (p_holecards hn) = 2
     \<and> length (h_hands hn) = 9 \<and> (\<forall>h \<in> set (h_hands hn). length h = 7)
     \<and> length (h_havemasks hn) = 9 \<and> length (h_bets hn) = 9 \<and> length (h_betstatus hn) = 9 \<and> length (h_actions hn) = 9
     \<and> length (h_handranks hn) = 9 \<and> length (h_won hn) = 9 \<and> length (dp_snapshot hn) = 9 \<and> length (sp_balances hn) = 9
     \<and> length (h_snapshot hn) = 10"

definition layered :: "'f deal_ctx \<Rightarrow> nat \<Rightarrow> 'z server_node_scheme \<Rightarrow> bool" where
  "layered x i hn \<longleftrightarrow> p_outcards hn = deck x i \<and> p_xoverz hn = factors x i"

definition has_card :: "'f deal_ctx \<Rightarrow> (nat \<Rightarrow> nat) \<Rightarrow> server_node list \<Rightarrow> nat \<Rightarrow> bool" where
  "has_card x \<sigma> nodes c \<longleftrightarrow> unat (p_hole (nodes ! receiver x c) ! (c div x_N x)) = \<sigma> c"

section \<open>Seats\<close>

lemma ctxD:
  assumes "ctx_ok x \<sigma>"
  shows "2 \<le> x_N x" "x_N x \<le> 9" "2 * x_N x < x_n x" "x_n x \<le> 52" "length (x_layers x) = x_N x - 1"
    "\<And>a. length (fcontract (x_curve x) a) = 32" "0 < x_N x" "x_N x * 2 \<le> x_n x"
    "e_curve (x_env x i) = x_curve x" "e_shares (x_env x i) = x_shares x" "e_behind (x_env x i) \<noteq> []"
    "i < x_N x \<Longrightarrow> length (deck x i) = x_n x * x_N x" "i < x_N x \<Longrightarrow> \<forall>b \<in> set (deck x i). length b = 32"
    "0 < i \<Longrightarrow> i < x_N x \<Longrightarrow> length (factors x i) = x_n x * x_N x"
    "0 < i \<Longrightarrow> i < x_N x \<Longrightarrow> \<forall>b \<in> set (factors x i). length b = 32"
  using assms by (auto simp: ctx_ok_def)

lemma seatD:
  assumes "seat_ok x i hn"
  shows "dp_N hn = x_N x" "sp_numactive hn = x_N x" "sp_numaddrs hn = x_N x" "dp_numcards hn = x_n x" "dp_M hn = x_M x"
    "length (sp_addrs hn) = 9" "length (sp_active hn) = 9" "take (x_N x) (sp_active hn) = take (x_N x) (sp_addrs hn)"
    "distinct (take (x_N x) (sp_addrs hn))" "length (sp_playerpubs hn) = 9" "hn_slot hn = int i" "sp_myind hn = int i"
    "i = 1 \<Longrightarrow> dp_button hn = x_button x" "take (x_n x) (h_cardpubs hn) = x_cardpubs x" "x_n x \<le> length (h_cardpubs hn)" "hn_privkey hn = x_privs x ! i"
    "length (p_outcards hn) = x_n x * x_N x" "length (p_xoverz hn) = x_n x * x_N x" "length (h_final hn) = x_n x * x_N x"
    "length (p_audits hn) = x_n x * x_N x * x_N x" "\<forall>b \<in> set (p_audits hn). length b = 32"
    "length (p_hole hn) = 2" "length (p_cardis hn) = 2" "length (p_holecards hn) = 2" "length (h_hands hn) = 9"
    "\<forall>h \<in> set (h_hands hn). length h = 7" "length (h_havemasks hn) = 9" "length (h_snapshot hn) = 10" "length (h_bets hn) = 9"
  using assms by (simp_all add: seat_ok_def)

lemma seat_ind:
  assumes "ctx_ok x \<sigma>" and "seat_ok x i hn" and "j < x_N x"
  shows "pangea_ind hn (int j) = Some (int j)" "pangea_slot hn (int j) = Some (int j)"
proof -
  note h = seatD [OF assms(2)] ctxD(2) [OF assms(1)]
  have e: "sp_active hn ! j = sp_addrs hn ! j" using h(8) assms(3) by (metis nth_take)
  have "scan (\<lambda>a. a = sp_addrs hn ! j) (take (x_N x) (sp_addrs hn)) 0 = int j"
    using scan_eq_distinct [OF h(9), of j] assms(3) h by simp
  then show "pangea_ind hn (int j) = Some (int j)" "pangea_slot hn (int j) = Some (int j)"
    using h assms(3) e by (simp_all add: pangea_ind_def pangea_slot_def pangea_search_def pangea_tableaddr_def aget_nat)
qed

lemma seat_slotB:
  assumes "ctx_ok x \<sigma>" and "seat_ok x i hn"
  shows "pangea_slotB hn = Some 1"
proof -
  have j: "1 < x_N x" using ctxD(1) [OF assms(1)] by simp
  have "sp_active hn ! 1 = sp_addrs hn ! 1" using seatD(8) [OF assms(2)] j by (metis nth_take)
  then show ?thesis using seat_ind(1) [OF assms j] seatD(6,7) [OF assms(2)] by (simp add: pangea_slotB_def pangea_ind_def aget_def)
qed

lemma seat_send:
  assumes "ctx_ok x \<sigma>" and "seat_ok x i hn" and "i < x_N x" and "dest < int (x_N x)"
  shows "pangea_sendcmd cmd dest data cardi turni hn = Some (hn\<lparr>hn_sent := hn_sent hn @
    [\<lparr>m_cmd = cmd, m_dest = dest, m_data = data, m_cardi = cardi, m_turni = turni, m_active = None\<rparr>]\<rparr>)"
proof -
  have "pangea_ind hn (hn_slot hn) = Some (int i)" using seat_ind(1) [OF assms(1,2,3)] seatD(11) [OF assms(2)] by simp
  moreover have "\<exists>p. pangea_slot hn dest \<bind> aget (sp_playerpubs hn) = Some p" if "0 \<le> dest"
  proof -
    have d: "nat dest < x_N x" using assms(4) that by linarith
    then have "pangea_slot hn dest = Some dest" using seat_ind(2) [OF assms(1,2) d] that by simp
    then show ?thesis using d ctxD(2) [OF assms(1)] seatD(10) [OF assms(2)] that by (auto simp: aget_def)
  qed
  ultimately show ?thesis by (auto simp: pangea_sendcmd_def bind_Some_conv)
qed

section \<open>Blocks of the audit array\<close>

definition block :: "nat \<Rightarrow> 'a list \<Rightarrow> nat \<Rightarrow> 'a list" where
  "block N A k = take N (drop (k * N) A)"

definition put_block :: "nat \<Rightarrow> 'a list \<Rightarrow> nat \<Rightarrow> 'a list \<Rightarrow> 'a list" where
  "put_block N A k a = take (k * N) A @ a @ drop (k * N + N) A"

lemma block_room: "k < m \<Longrightarrow> m * N \<le> length A \<Longrightarrow> k * N + N \<le> length (A :: 'a list)"
  using mult_le_mono1 [of "Suc k" m N] by (simp add: add.commute)

lemma length_block [simp]: "k < m \<Longrightarrow> m * N \<le> length A \<Longrightarrow> length (block N A k) = N"
  using block_room [of k m N A] by (simp add: block_def)

lemma length_put_block [simp]: "k < m \<Longrightarrow> m * N \<le> length A \<Longrightarrow> length a = N \<Longrightarrow> length (put_block N A k a) = length A"
  using block_room [of k m N A] by (simp add: put_block_def)

lemma block_put_block:
  assumes "k < m" and "k' < m" and "m * N \<le> length A" and "length a = N"
  shows "block N (put_block N A k a) k' = (if k' = k then a else block N A k')"
proof -
  have r: "k * N + N \<le> length A" "k' * N + N \<le> length A" using assms block_room by blast+
  consider "k' = k" | "k' < k" | "k < k'" by linarith
  then show ?thesis
  proof cases
    case 1
    then show ?thesis using r assms(4) by (simp add: block_def put_block_def)
  next
    case 2
    then have "k' * N + N \<le> k * N" using mult_le_mono1 [of "Suc k'" k N] by (simp add: add.commute)
    then show ?thesis using 2 r by (simp add: block_def put_block_def take_drop)
  next
    case 3
    then have "k * N + N \<le> k' * N" using mult_le_mono1 [of "Suc k" k' N] by (simp add: add.commute)
    then show ?thesis using 3 r assms(4) by (simp add: block_def put_block_def)
  qed
qed

lemma set_put_block: "set (put_block N A k a) \<subseteq> set A \<union> set a"
  by (auto simp: put_block_def dest: in_set_takeD in_set_dropD)

lemma set_block: "set (block N A k) \<subseteq> set A"
  by (auto simp: block_def dest: in_set_takeD in_set_dropD)

lemma card_index: "c < n \<Longrightarrow> d < N \<Longrightarrow> c * N + d < n * (N :: nat)"
  using index_bound [of c n d N] by simp

lemma audit_room:
  assumes "ctx_ok x \<sigma>" and "seat_ok x i hn" and "c < x_n x" and "d < x_N x"
  shows "(c * x_N x + d) * x_N x + x_N x \<le> length (p_audits hn)" "c * x_N x + d < x_n x * x_N x"
    "x_n x * x_N x * x_N x \<le> length (p_audits hn)"
proof -
  show "c * x_N x + d < x_n x * x_N x" using card_index [OF assms(3,4)] .
  show "x_n x * x_N x * x_N x \<le> length (p_audits hn)" using seatD(20) [OF assms(2)] by simp
  with \<open>c * x_N x + d < x_n x * x_N x\<close> show "(c * x_N x + d) * x_N x + x_N x \<le> length (p_audits hn)" by (rule block_room)
qed

lemma read_audit_ok:
  assumes "ctx_ok x \<sigma>" and "seat_ok x i hn" and "c < x_n x" and "d < x_N x"
  shows "read_audit (int c) (int d) hn = Some (block (x_N x) (p_audits hn) (c * x_N x + d))"
  using audit_room [OF assms] seatD(1) [OF assms(2)] by (simp add: read_audit_def pangea_rwaudit_def block_def Let_def)

lemma save_audit_ok:
  assumes "ctx_ok x \<sigma>" and "seat_ok x i hn" and "c < x_n x" and "d < x_N x" and "length a = x_N x"
  shows "save_audit a (int c) (int d) hn = Some (hn\<lparr>p_audits := put_block (x_N x) (p_audits hn) (c * x_N x + d) a\<rparr>)"
  using audit_room [OF assms(1-4)] seatD(1) [OF assms(2)] assms(5) by (simp add: save_audit_def pangea_rwaudit_def put_block_def Let_def)

section \<open>One layer\<close>

lemma decode_loop_some:
  assumes "\<And>a. length (fcontract cv a) = 32" and "\<forall>k \<in> set ks. k * N + d < length out" and "length xo = length out"
    and "\<forall>b \<in> set xo. length b = 32"
  shows "\<exists>seed v. decode_loop cv ks xo d cipher out N = Some (seed, v) \<and> length seed = 32 \<and> length v = 32"
  using assms(2)
proof (induction ks)
  case (Cons k ks)
  have k: "k * N + d < length out" using Cons.prems by simp
  then have g: "aget out (int k * int N + int d) = Some (out ! (k * N + d))" "aget xo (int k * int N + int d) = Some (xo ! (k * N + d))"
    using aget_nat [of "k * N + d" out] aget_nat [of "k * N + d" xo] assms(3) by simp_all
  have "xo ! (k * N + d) \<in> set xo" using k assms(3) by simp
  with Cons g assms(1,4) show ?case by auto
qed simp

lemma decode_some:
  assumes "ctx_ok x \<sigma>" and "0 < i" and "i < x_N x" and "d < x_N x"
  shows "\<exists>seed v. cards777_decode (x_curve x) (factors x i) d cipher (deck x i) (x_n x) (x_N x) = Some (seed, v)
    \<and> length seed = 32 \<and> length v = 32"
  unfolding cards777_decode_def
  using decode_loop_some [OF ctxD(6) [OF assms(1)], of "[0..<x_n x]" "x_N x" d "deck x i" "factors x i" cipher]
    ctxD(12) [OF assms(1,3)] ctxD(14,15) [OF assms(1,2,3)] card_index [OF _ assms(4)] by fastforce

text \<open>The last player finds each cipher of its own deck at its own place, so the audit gets the factor from there.\<close>

lemma decode_own:
  assumes "ctx_ok x \<sigma>" and "0 < i" and "i < x_N x" and "c < x_n x" and "d < x_N x" and "i = x_N x - 1"
  shows "\<exists>v. cards777_decode (x_curve x) (factors x i) d (deck x i ! (c * x_N x + d)) (deck x i) (x_n x) (x_N x) = Some (factors x i ! (c * x_N x + d), v)"
proof -
  have "distinct (map (\<lambda>k. at (x_N x) (deck x i) k d) [0..<x_n x])"
    using assms by (simp add: ctx_ok_def distinct_columns_def)
  from decode_finds [OF this, of c "factors x i" "x_curve x"] show ?thesis
    using assms(4) ctxD(12) [OF assms(1,3)] ctxD(14) [OF assms(1,2,3)] card_index [OF _ assms(5)]
    by (simp add: cards777_decode_def at_def)
qed

lemma peeled_step:
  assumes "ctx_ok x \<sigma>" and "0 < i" and "i < x_N x"
  shows "peeled x (i - 1) c d = do { v \<leftarrow> peeled x i c d;
    (_, v) \<leftarrow> cards777_decode (x_curve x) (factors x i) d v (deck x i) (x_n x) (x_N x); Some v }"
proof -
  have "drop (i - 1) (x_layers x) = x_layers x ! (i - 1) # drop i (x_layers x)"
    using assms(2,3) ctxD(5) [OF assms(1)] by (metis Cons_nth_drop_Suc One_nat_def Suc_pred diff_less_mono less_Suc_eq_0_disj less_one not_less_eq)
  moreover have "x_layers x ! (i - 1) = (deck x i, factors x i)" using assms(2) by (simp add: deck_def factors_def)
  ultimately show ?thesis by (simp add: peeled_def)
qed

text \<open>One card through the layer of player \<open>i\<close>.\<close>

lemma decode_audit_ok:
  assumes ctx: "ctx_ok x \<sigma>" and seat: "seat_ok x i hn" and lay: "layered x i hn" and i: "0 < i" "i < x_N x" and c: "c < x_n x" "d < x_N x"
    and head: "peeled x i c d = Some (block (x_N x) (p_audits hn) (c * x_N x + d) ! 0)"
  shows "\<exists>a seed. decode_audit (x_curve x) (int c) (int d) hn = Some (a, hn\<lparr>p_audits := put_block (x_N x) (p_audits hn) (c * x_N x + d) a\<rparr>)
    \<and> length a = x_N x \<and> peeled x (i - 1) c d = Some (a ! 0) \<and> length (a ! 0) = 32 \<and> length seed = 32
    \<and> a = (block (x_N x) (p_audits hn) (c * x_N x + d)) [i := seed, 0 := a ! 0]
    \<and> (i = x_N x - 1 \<longrightarrow> seed = factors x i ! (c * x_N x + d))"
proof -
  let ?b = "block (x_N x) (p_audits hn) (c * x_N x + d)"
  have len: "length ?b = x_N x" using audit_room [OF ctx seat c] by (intro length_block)
  obtain seed v where d: "cards777_decode (x_curve x) (factors x i) d (?b ! 0) (deck x i) (x_n x) (x_N x) = Some (seed, v)"
      "length seed = 32" "length v = 32"
    using decode_some [OF ctx i c(2)] by blast
  let ?a = "?b [i := seed, 0 := v]"
  have a: "length ?a = x_N x" "?a ! 0 = v" using len i by simp_all
  have "aget ?b 0 = Some (?b ! 0)" "aput ?b (int i) seed = Some (?b [i := seed])" "aput (?b [i := seed]) 0 v = Some ?a"
    using len i by (simp_all add: aget_def aput_def)
  then have "decode_audit (x_curve x) (int c) (int d) hn = Some (?a, hn\<lparr>p_audits := put_block (x_N x) (p_audits hn) (c * x_N x + d) ?a\<rparr>)"
    using read_audit_ok [OF ctx seat c] save_audit_ok [OF ctx seat c a(1)] d(1) lay seatD(1,4,12) [OF seat]
    by (simp add: decode_audit_def layered_def)
  moreover have "peeled x (i - 1) c d = Some v" using peeled_step [OF ctx i] head d(1) by simp
  moreover have "seed = factors x i ! (c * x_N x + d)" if "i = x_N x - 1"
  proof -
    have "peeled x i c d = Some (deck x i ! (c * x_N x + d))" using that ctxD(5) [OF ctx] by (simp add: peeled_def)
    then show ?thesis using decode_own [OF ctx i c] that head d(1) by simp
  qed
  ultimately show ?thesis using a d(2,3) by (intro exI [of _ ?a] exI [of _ seed]) simp
qed

section \<open>All cards of the preflop\<close>

lemma seat_audits: "seat_ok x i hn \<Longrightarrow> length A = x_n x * x_N x * x_N x \<Longrightarrow> \<forall>b \<in> set A. length b = 32 \<Longrightarrow> seat_ok x i (hn\<lparr>p_audits := A\<rparr>)"
  by (simp add: seat_ok_def)

lemma layered_audits [simp]: "layered x i (hn\<lparr>p_audits := A\<rparr>) = layered x i hn"
  by (simp add: layered_def)

lemma seat_put_block:
  assumes "ctx_ok x \<sigma>" and "seat_ok x i hn" and "c < x_n x" and "d < x_N x" and "length a = x_N x" and "\<forall>b \<in> set a. length b = 32"
  shows "seat_ok x i (hn\<lparr>p_audits := put_block (x_N x) (p_audits hn) (c * x_N x + d) a\<rparr>)"
proof (rule seat_audits [OF assms(2)])
  show "length (put_block (x_N x) (p_audits hn) (c * x_N x + d) a) = x_n x * x_N x * x_N x"
    using length_put_block [OF audit_room(2,3) [OF assms(1-4)] assms(5)] seatD(20) [OF assms(2)] by simp
  show "\<forall>b \<in> set (put_block (x_N x) (p_audits hn) (c * x_N x + d) a). length b = 32"
    using set_put_block [of "x_N x" "p_audits hn" "c * x_N x + d" a] seatD(21) [OF assms(2)] assms(6) by blast
qed

lemma index_inj: "d < N \<Longrightarrow> d' < N \<Longrightarrow> c * N + d = c' * N + (d' :: nat) \<Longrightarrow> c = c' \<and> d = d'"
  by (metis add.commute add_right_cancel div_less div_mult_self3 less_nat_zero_code mod_less mod_mult_self3 mult_cancel2)

definition heads :: "'f deal_ctx \<Rightarrow> nat \<Rightarrow> bits256 list \<Rightarrow> (nat \<times> nat) set \<Rightarrow> bool" where
  "heads x i A cs \<longleftrightarrow> (\<forall>(c, d) \<in> cs. peeled x i c d = Some (block (x_N x) A (c * x_N x + d) ! 0))"

text \<open>The entry of the last player is its factor once that player has taken its layer off.\<close>

definition tails :: "'f deal_ctx \<Rightarrow> bits256 list \<Rightarrow> (nat \<times> nat) set \<Rightarrow> bool" where
  "tails x A cs \<longleftrightarrow> (\<forall>(c, d) \<in> cs. block (x_N x) A (c * x_N x + d) ! (x_N x - 1) = factors x (x_N x - 1) ! (c * x_N x + d))"

lemma block_other:
  assumes "ctx_ok x \<sigma>" and "seat_ok x i hn" and "c < x_n x" "d < x_N x" "c' < x_n x" "d' < x_N x" and "length a = x_N x" and "(c', d') \<noteq> (c, d)"
  shows "block (x_N x) (put_block (x_N x) (p_audits hn) (c * x_N x + d) a) (c' * x_N x + d') = block (x_N x) (p_audits hn) (c' * x_N x + d')"
  using block_put_block [OF audit_room(2) [OF assms(1-4)] audit_room(2) [OF assms(1,2,5,6)] audit_room(3) [OF assms(1-4)] assms(7)]
    index_inj [OF assms(4,6), of c c'] assms(8) by auto

lemma block_same:
  assumes "ctx_ok x \<sigma>" and "seat_ok x i hn" and "c < x_n x" "d < x_N x" and "length a = x_N x"
  shows "block (x_N x) (put_block (x_N x) (p_audits hn) (c * x_N x + d) a) (c * x_N x + d) = a"
  using block_put_block [OF audit_room(2) [OF assms(1-4)] audit_room(2) [OF assms(1-4)] audit_room(3) [OF assms(1-4)] assms(5)] by simp

lemma audit_bytes:
  assumes "ctx_ok x \<sigma>" and "seat_ok x i hn" and "length s = 32" and "length v = 32"
  shows "\<forall>b \<in> set ((block (x_N x) (p_audits hn) k) [j := s, l := v]). length b = 32"
proof -
  have "set ((block (x_N x) (p_audits hn) k) [j := s, l := v]) \<subseteq> insert v (insert s (set (block (x_N x) (p_audits hn) k)))"
    by (meson insert_mono order_trans set_update_subset_insert)
  then show ?thesis using set_block [of "x_N x" "p_audits hn" k] seatD(21) [OF assms(2)] assms(3,4) by blast
qed

text \<open>A loop over cards that rewrites the block of each card once.\<close>

lemma block_fold:
  assumes ctx: "ctx_ok x \<sigma>" and "seat_ok x i (hn\<lparr>p_audits := A\<rparr>)" and "distinct L" and "set L \<subseteq> {..<x_n x} \<times> {..<x_N x}"
    and step: "\<And>c d A'. (c, d) \<in> set L \<Longrightarrow> seat_ok x i (hn\<lparr>p_audits := A'\<rparr>)
      \<Longrightarrow> block (x_N x) A' (c * x_N x + d) = block (x_N x) A (c * x_N x + d)
      \<Longrightarrow> \<exists>a. f (c, d) (hn\<lparr>p_audits := A'\<rparr>) = Some (hn\<lparr>p_audits := put_block (x_N x) A' (c * x_N x + d) a\<rparr>)
            \<and> length a = x_N x \<and> (\<forall>b \<in> set a. length b = 32) \<and> P c d a"
  shows "\<exists>B. ofold f L (hn\<lparr>p_audits := A\<rparr>) = Some (hn\<lparr>p_audits := B\<rparr>) \<and> seat_ok x i (hn\<lparr>p_audits := B\<rparr>)
    \<and> (\<forall>(c, d) \<in> set L. P c d (block (x_N x) B (c * x_N x + d)))
    \<and> (\<forall>c < x_n x. \<forall>d < x_N x. (c, d) \<notin> set L \<longrightarrow> block (x_N x) B (c * x_N x + d) = block (x_N x) A (c * x_N x + d))"
  using assms(2-)
proof (induction L arbitrary: A)
  case (Cons cd L)
  let ?N = "x_N x"
  obtain c d where cd: "cd = (c, d)" "c < x_n x" "d < ?N" using Cons.prems(3) by (cases cd) auto
  obtain a where a: "f (c, d) (hn\<lparr>p_audits := A\<rparr>) = Some (hn\<lparr>p_audits := put_block ?N A (c * ?N + d) a\<rparr>)"
      "length a = ?N" "\<forall>b \<in> set a. length b = 32" "P c d a" using Cons.prems(4) [of c d A] Cons.prems(1) cd(1) by auto
  let ?A = "put_block ?N A (c * ?N + d) a"
  have seat: "seat_ok x i (hn\<lparr>p_audits := ?A\<rparr>)" using seat_put_block [OF ctx Cons.prems(1) cd(2,3) a(2,3)] by simp
  have same: "block ?N ?A (c * ?N + d) = a" using block_same [OF ctx Cons.prems(1) cd(2,3) a(2)] by simp
  have oth: "block ?N ?A (c' * ?N + d') = block ?N A (c' * ?N + d')" if "c' < x_n x" "d' < ?N" "(c', d') \<noteq> (c, d)" for c' d'
    using block_other [OF ctx Cons.prems(1) cd(2,3) that(1,2) a(2) that(3)] by simp
  have L: "(c', d') \<in> set L \<Longrightarrow> c' < x_n x \<and> d' < ?N \<and> (c', d') \<noteq> (c, d)" for c' d' using Cons.prems(2,3) cd(1) by auto
  have "\<exists>B. ofold f L (hn\<lparr>p_audits := ?A\<rparr>) = Some (hn\<lparr>p_audits := B\<rparr>) \<and> seat_ok x i (hn\<lparr>p_audits := B\<rparr>)
      \<and> (\<forall>(c, d) \<in> set L. P c d (block ?N B (c * ?N + d)))
      \<and> (\<forall>c < x_n x. \<forall>d < ?N. (c, d) \<notin> set L \<longrightarrow> block ?N B (c * ?N + d) = block ?N ?A (c * ?N + d))"
  proof (rule Cons.IH [OF seat])
    fix c' d' A' assume s: "(c', d') \<in> set L" "seat_ok x i (hn\<lparr>p_audits := A'\<rparr>)" "block ?N A' (c' * ?N + d') = block ?N ?A (c' * ?N + d')"
    then have "block ?N A' (c' * ?N + d') = block ?N A (c' * ?N + d')" using oth [of c' d'] L [of c' d'] by simp
    then show "\<exists>a. f (c', d') (hn\<lparr>p_audits := A'\<rparr>) = Some (hn\<lparr>p_audits := put_block ?N A' (c' * ?N + d') a\<rparr>) \<and> length a = ?N \<and> (\<forall>b \<in> set a. length b = 32) \<and> P c' d' a"
      using Cons.prems(4) [of c' d' A'] s by simp
  qed (use Cons.prems in auto)
  then obtain B where B: "ofold f L (hn\<lparr>p_audits := ?A\<rparr>) = Some (hn\<lparr>p_audits := B\<rparr>)" "seat_ok x i (hn\<lparr>p_audits := B\<rparr>)"
      "\<forall>(c, d) \<in> set L. P c d (block ?N B (c * ?N + d))"
      "\<forall>c < x_n x. \<forall>d < ?N. (c, d) \<notin> set L \<longrightarrow> block ?N B (c * ?N + d) = block ?N ?A (c * ?N + d)" by blast
  have "block ?N B (c * ?N + d) = a" using B(4) Cons.prems(2) cd same by auto
  with B(3) a(4) cd(1) have "\<forall>(c, d) \<in> set (cd # L). P c d (block ?N B (c * ?N + d))" by auto
  moreover have "\<forall>c' < x_n x. \<forall>d' < ?N. (c', d') \<notin> set (cd # L) \<longrightarrow> block ?N B (c' * ?N + d') = block ?N A (c' * ?N + d')"
    using B(4) oth cd(1) by auto
  ultimately show ?case using B(1,2) a(1) cd(1) by (intro exI [of _ B]) simp
next
  case Nil
  then show ?case by (intro exI [of _ A]) simp
qed

lemma pass_fold:
  assumes ctx: "ctx_ok x \<sigma>" and i: "0 < i" "i < x_N x" and seat: "seat_ok x i hn" and lay: "layered x i hn"
    and L: "distinct L" "set L \<subseteq> {..<x_n x} \<times> {..<x_N x}" and hd: "heads x i (p_audits hn) (set L)"
    and tl: "i = x_N x - 1 \<or> tails x (p_audits hn) (set L)"
  shows "\<exists>A. ofold (decode_step (x_curve x)) L hn = Some (hn\<lparr>p_audits := A\<rparr>) \<and> seat_ok x i (hn\<lparr>p_audits := A\<rparr>)
    \<and> heads x (i - 1) A (set L) \<and> tails x A (set L)"
proof -
  let ?N = "x_N x" let ?P = "\<lambda>c d a. peeled x (i - 1) c d = Some (a ! 0) \<and> a ! (?N - 1) = factors x (?N - 1) ! (c * ?N + d)"
  have "\<exists>a. decode_step (x_curve x) (c, d) (hn\<lparr>p_audits := A\<rparr>) = Some (hn\<lparr>p_audits := put_block ?N A (c * ?N + d) a\<rparr>)
      \<and> length a = ?N \<and> (\<forall>b \<in> set a. length b = 32) \<and> ?P c d a"
    if cd: "(c, d) \<in> set L" and s: "seat_ok x i (hn\<lparr>p_audits := A\<rparr>)" and b: "block ?N A (c * ?N + d) = block ?N (p_audits hn) (c * ?N + d)" for c d A
  proof -
    let ?h = "hn\<lparr>p_audits := A\<rparr>"
    have c: "c < x_n x" "d < ?N" using cd L(2) by auto
    have "peeled x i c d = Some (block ?N (p_audits ?h) (c * ?N + d) ! 0)" using hd cd b by (auto simp: heads_def)
    from decode_audit_ok [OF ctx s _ i c this] lay obtain a seed where
      a: "decode_audit (x_curve x) (int c) (int d) ?h = Some (a, hn\<lparr>p_audits := put_block ?N A (c * ?N + d) a\<rparr>)"
        "length a = ?N" "peeled x (i - 1) c d = Some (a ! 0)" "length (a ! 0) = 32" "length seed = 32"
        "a = (block ?N A (c * ?N + d)) [i := seed, 0 := a ! 0]" "i = ?N - 1 \<longrightarrow> seed = factors x i ! (c * ?N + d)" by auto
    have "\<forall>b \<in> set a. length b = 32" using audit_bytes [OF ctx s a(5,4), of "c * ?N + d" i 0] a(6) by simp
    moreover have "a ! (?N - 1) = (if i = ?N - 1 then seed else block ?N (p_audits hn) (c * ?N + d) ! (?N - 1))"
      using i length_block [OF audit_room(2,3) [OF ctx s c]] b by (subst a(6)) auto
    then have "a ! (?N - 1) = factors x (?N - 1) ! (c * ?N + d)" using a(7) tl cd by (auto simp: tails_def)
    ultimately show ?thesis using a(1-3) by (intro exI [of _ a]) (simp add: decode_step_def)
  qed
  from block_fold [OF ctx _ L, where i = i and hn = hn and A = "p_audits hn" and f = "decode_step (x_curve x)" and P = ?P] this seat
  obtain B where "ofold (decode_step (x_curve x)) L hn = Some (hn\<lparr>p_audits := B\<rparr>)" "seat_ok x i (hn\<lparr>p_audits := B\<rparr>)"
      "\<forall>(c, d) \<in> set L. ?P c d (block ?N B (c * ?N + d))" by auto
  then show ?thesis by (intro exI [of _ B]) (auto simp: heads_def tails_def)
qed

lemma start_fold:
  assumes ctx: "ctx_ok x \<sigma>" and seat: "seat_ok x i hn" and L: "distinct L" "set L \<subseteq> {..<x_n x} \<times> {..<x_N x}"
    and fin: "h_final hn = deck x (x_N x - 1)"
  shows "\<exists>A. ofold start_audit L hn = Some (hn\<lparr>p_audits := A\<rparr>) \<and> seat_ok x i (hn\<lparr>p_audits := A\<rparr>) \<and> heads x (x_N x - 1) A (set L)"
proof -
  let ?N = "x_N x" let ?P = "\<lambda>c d a. a ! 0 = deck x (?N - 1) ! (c * ?N + d)"
  have N: "0 < ?N" "?N - 1 < ?N" using ctxD(7) [OF ctx] by simp_all
  have "\<exists>a. start_audit (c, d) (hn\<lparr>p_audits := A\<rparr>) = Some (hn\<lparr>p_audits := put_block ?N A (c * ?N + d) a\<rparr>)
      \<and> length a = ?N \<and> (\<forall>b \<in> set a. length b = 32) \<and> ?P c d a"
    if cd: "(c, d) \<in> set L" and s: "seat_ok x i (hn\<lparr>p_audits := A\<rparr>)" for c d A
  proof -
    let ?h = "hn\<lparr>p_audits := A\<rparr>" and ?b = "block ?N A (c * ?N + d)" and ?f = "deck x (?N - 1) ! (c * ?N + d)"
    have c: "c < x_n x" "d < ?N" using cd L(2) by auto
    have len: "length ?b = ?N" using length_block [OF audit_room(2,3) [OF ctx s c]] by simp
    have k: "c * ?N + d < length (h_final ?h)" using seatD(19) [OF s] card_index [OF c] by simp
    have "?f \<in> set (deck x (?N - 1))" using k fin by simp
    then have "length ?f = 32" using ctxD(13) [OF ctx N(2)] by blast
    then have b32: "\<forall>b \<in> set (?b [0 := ?f]). length b = 32"
      using set_update_subset_insert [of ?b 0 ?f] set_block [of ?N A "c * ?N + d"] seatD(21) [OF s] by fastforce
    have "aget (h_final ?h) (int c * int ?N + int d) = Some ?f" using aget_nat [OF k] fin by simp
    moreover have "aput ?b 0 ?f = Some (?b [0 := ?f])" using len N(1) by (simp add: aput_def)
    moreover have "length (?b [0 := ?f]) = ?N" using len by simp
    ultimately show ?thesis using read_audit_ok [OF ctx s c] save_audit_ok [OF ctx s c, of "?b [0 := ?f]"] b32 len N(1) seatD(1) [OF s]
      by (intro exI [of _ "?b [0 := ?f]"]) (simp add: start_audit_def Let_def)
  qed
  from block_fold [OF ctx _ L, where i = i and hn = hn and A = "p_audits hn" and f = start_audit and P = ?P] this seat
  obtain B where "ofold start_audit L hn = Some (hn\<lparr>p_audits := B\<rparr>)" "seat_ok x i (hn\<lparr>p_audits := B\<rparr>)"
      "\<forall>(c, d) \<in> set L. ?P c d (block ?N B (c * ?N + d))" by auto
  then show ?thesis using ctxD(5) [OF ctx] by (intro exI [of _ B]) (auto simp: heads_def peeled_def)
qed

section \<open>Payloads\<close>

lemma length_blocks [simp]: "length (blocks n data) = n"
  by (simp add: blocks_def)

lemma blocks_bytes: "length data = 32 * n \<Longrightarrow> \<forall>b \<in> set (blocks n data). length b = 32"
  by (auto simp: blocks_def)

lemma blocks_concat:
  "\<forall>b \<in> set A. length b = 32 \<Longrightarrow> blocks (length A) (concat A) = A"
proof (induction A)
  case (Cons a A)
  have "[0..<length (a # A)] = 0 # map Suc [0..<length A]" by (simp add: upt_conv_Cons map_Suc_upt del: upt_Suc)
  then have "blocks (length (a # A)) (concat (a # A)) = take 32 (a @ concat A) # map (\<lambda>i. take 32 (drop (32 * Suc i) (a @ concat A))) [0..<length A]"
    by (simp add: blocks_def del: upt_Suc)
  also have "\<dots> = a # blocks (length A) (concat A)" using Cons.prems by (simp add: blocks_def)
  finally show ?case using Cons by simp
qed (simp add: blocks_def)

lemma length_concat_32: "\<forall>b \<in> set A. length b = 32 \<Longrightarrow> length (concat A) = 32 * length A"
  by (induction A) auto

lemma char_byte: "char_of (unat (of_char c :: u8)) = c"
proof -
  have "(of_char c :: u8) = word_of_nat (of_char c)" by (simp add: of_nat_of_char)
  then have "unat (of_char c :: u8) = of_char c mod 256" by (simp add: unsigned_of_nat take_bit_eq_mod)
  then show ?thesis by simp
qed

lemma poll_hex:
  assumes "m_cmd m \<noteq> ''preflop''" and "m_data m \<noteq> []" and "length (m_data m) \<le> maxlen" and "e_behind e \<noteq> []"
  shows "poll_data e maxlen (json_of s m) = Some (Some (m_data m))"
proof -
  obtain j r where b: "e_behind e = j # r" using assms(4) by (cases "e_behind e") auto
  have "length (snd (init_hexbytes_noT (m_data m))) = length (m_data m) * 2"
    using assms(2) length_hexdigits [of "m_data m"] by (simp add: init_hexbytes_noT_def hexdigits_def)
  moreover have "decode_hex (length (m_data m)) (snd (init_hexbytes_noT (m_data m)) @ CHR 0x00 # e_behind e) = Some (length (m_data m), m_data m)"
    unfolding b using hex_back [OF assms(2)] by simp
  ultimately show ?thesis using assms(1,3) by (simp add: poll_data_def json_of_def)
qed

section \<open>A player gets a card\<close>

lemma checkcard_own:
  assumes "seat_ok x i hn"
  shows "cards777_checkcard cv p (h_cardpubs hn) (x_n x) v = cards777_checkcard cv p (x_cardpubs x) (x_n x) v"
proof -
  have "length (x_cardpubs x) = x_n x" using seatD(14,15) [OF assms] by (metis length_take min_absorb2)
  then show ?thesis using seatD(14,15) [OF assms] by (simp add: cards777_checkcard_def cards777_cardpriv_def)
qed

lemma checkcard_byte:
  assumes "cards777_checkcard cv p pubs n v = Some (int k, key)"
  shows "\<exists>w. aget key 1 = Some w \<and> unat w = k"
proof -
  have u: "uint (w :: u8) = int k \<Longrightarrow> unat w = k" for w by (metis nat_int unat_eq_nat_uint)
  obtain key' where k: "cards777_cardpriv cv p pubs n v = Some key'"
      "(if txid key' \<noteq> 0 then aget key' 1 \<bind> (\<lambda>x. Some (uint x, key')) else Some (- 1, replicate 32 0)) = Some (int k, key)"
    using assms unfolding cards777_checkcard_def by (rule bind_SomeE)
  from k(2) have "aget key' 1 \<bind> (\<lambda>x. Some (uint x, key')) = Some (int k, key)" by (auto split: if_splits)
  then show ?thesis using u by (cases "aget key' 1") auto
qed

lemma validate_total:
  assumes "aget key 1 = Some w" and "0 < length audit" and "N \<le> length audit"
  shows "\<exists>r. cards777_validate cv key f audit N pub = Some r"
  using assms by (auto simp: cards777_validate_def Let_def aget_def)

lemma hand_update: "\<forall>h \<in> set hs. length h = 7 \<Longrightarrow> length h' = 7 \<Longrightarrow> \<forall>h \<in> set (hs [i := h']). length h = 7"
  using set_update_subset_insert [of hs i h'] by auto

text \<open>What a player tells the others about a card it has got.\<close>

definition facedown_msg :: "nat \<Rightarrow> pangea_msg \<Rightarrow> bool" where
  "facedown_msg c m \<longleftrightarrow> m_cmd m = ''facedown'' \<and> m_dest m = - 1 \<and> length (m_data m) = 4 \<and> m_cardi m = int c"

definition facedown_packet :: "'f deal_ctx \<Rightarrow> packet \<Rightarrow> bool" where
  "facedown_packet x p \<longleftrightarrow> (case p of (d, sender, m) \<Rightarrow> d < x_N x \<and> sender < x_N x \<and> (\<exists>c < x_N x * 2. facedown_msg c m))"

lemma card_ok:
  assumes ctx: "ctx_ok x \<sigma>" and seat: "seat_ok x j hn" and c: "c < x_N x * 2" "receiver x c = j"
    and data: "length data = 32 * x_N x" "peeled x 0 c j = Some (blocks (x_N x) data ! 0)"
  shows "\<exists>hn' m w. pangea_card (x_curve x) data (int c) (int j) hn = Some (0, hn') \<and> seat_ok x j hn'
    \<and> p_outcards hn' = p_outcards hn \<and> p_xoverz hn' = p_xoverz hn \<and> p_hole hn' = (p_hole hn) [c div x_N x := w] \<and> unat w = \<sigma> c
    \<and> hn_sent hn' = hn_sent hn @ [m] \<and> facedown_msg c m \<and> dp_summary hn' = dp_summary hn \<and> p_audits hn' = put_block (x_N x) (p_audits hn) (c * x_N x + j) (blocks (x_N x) data)"
proof -
  let ?N = "x_N x" and ?a = "blocks (x_N x) data" and ?k = "c div x_N x"
  have N: "0 < ?N" "?N \<le> 9" "c < x_n x" using ctxD(7,2,8) [OF ctx] c(1) by simp_all
  have j: "j < ?N" using c(2) N(1) by (auto simp: receiver_def)
  have k: "?k < 2" using c(1) N(1) by (simp add: div_less_iff_less_mult mult.commute)
  let ?A = "put_block ?N (p_audits hn) (c * ?N + j) ?a" let ?h = "hn\<lparr>p_audits := ?A\<rparr>"
  have sv: "save_audit ?a (int c) (int j) hn = Some ?h" by (rule save_audit_ok [OF ctx seat N(3) j]) simp
  have seat1: "seat_ok x j ?h" by (rule seat_put_block [OF ctx seat N(3) j]) (use blocks_bytes data(1) in auto)
  have rd: "read_audit (int c) (int j) ?h = Some ?a"
    using read_audit_ok [OF ctx seat1 N(3) j] block_same [OF ctx seat N(3) j, of ?a] by simp
  obtain v key where v: "peeled x 0 c j = Some v" "cards777_checkcard (x_curve x) (x_privs x ! j) (x_cardpubs x) (x_n x) v = Some (int (\<sigma> c), key)"
    using ctx N(3) j unfolding ctx_ok_def by blast
  then have chk: "cards777_checkcard (x_curve x) (hn_privkey ?h) (h_cardpubs ?h) (x_n x) (?a ! 0) = Some (int (\<sigma> c), key)"
    using data(2) seatD(16) [OF seat1] by (simp add: checkcard_own [OF seat])
  obtain w where w: "aget key 1 = Some w" "unat w = \<sigma> c" using checkcard_byte [OF v(2)] by blast
  note s = seatD [OF seat1]
  have ind: "pangea_ind ?h (hn_slot ?h) = Some (int j)" using seat_ind(1) [OF ctx seat1 j] s(11) by simp
  have a0: "aget ?a 0 = Some (?a ! 0)" using N(1) by (simp add: aget_def)
  have sel: "int c div int ?N = int ?k" by (simp add: zdiv_int)
  let ?hand = "h_hands hn ! j" let ?hand' = "?hand [5 + ?k := w]"
  have hand: "length ?hand = 7" using s(25,26) j N(2) by simp
  have p5: "(5 :: int) + int ?k = int (5 + ?k)" by simp
  have upd: "aput (p_holecards hn) (int ?k) key = Some ((p_holecards hn) [?k := key])"
      "aput (p_cardis hn) (int ?k) (word_of_nat c) = Some ((p_cardis hn) [?k := word_of_nat c])" "aput (p_hole hn) (int ?k) w = Some ((p_hole hn) [?k := w])"
      "aget (h_hands hn) (int j) = Some ?hand" "aput ?hand (5 + int ?k) w = Some ?hand'" "aput (h_hands hn) (int j) ?hand' = Some ((h_hands hn) [j := ?hand'])"
    using s(22-25) k j N(2) hand aput_nat [of "5 + ?k" ?hand w] unfolding p5 by (simp_all add: aput_nat aget_nat)
  define h2 where "h2 = ?h\<lparr>p_holecards := (p_holecards hn) [?k := key], p_cardis := (p_cardis hn) [?k := word_of_nat c],
      p_hole := (p_hole hn) [?k := w], h_hands := (h_hands hn) [j := ?hand']\<rparr>"
  have h2: "h_final h2 = h_final hn" "sp_playerpubs h2 = sp_playerpubs hn" "hn_slot h2 = hn_slot hn" by (simp_all add: h2_def)
  have seat2: "seat_ok x j h2" using seat1 hand_update [OF s(26), of ?hand' j] hand unfolding h2_def by (simp add: seat_ok_def)
  have f: "aget (h_final h2) (int c * int ?N + int j) = Some (h_final h2 ! (c * ?N + j))"
    using aget_nat [of "c * ?N + j" "h_final h2"] seatD(19) [OF seat2] card_index [OF N(3) j] by simp
  have pub: "aget (sp_playerpubs h2) (hn_slot h2) = Some (sp_playerpubs h2 ! j)"
    using seatD(10,11) [OF seat2] j N(2) by (simp add: aget_nat)
  obtain r where r: "cards777_validate (x_curve x) key (h_final h2 ! (c * ?N + j)) ?a ?N (sp_playerpubs h2 ! j) = Some r"
    using validate_total [OF w(1), of ?a ?N "x_curve x"] N(1) by auto
  let ?m = "\<lparr>m_cmd = ''facedown'', m_dest = - 1, m_data = le_bytes 4 (word_of_int (int c) :: u32), m_cardi = int c, m_turni = 1, m_active = None\<rparr>"
  have snd: "pangea_sendcmd ''facedown'' (- 1) (le_bytes 4 (word_of_int (int c) :: u32)) (int c) 1 h2 = Some (h2\<lparr>hn_sent := hn_sent h2 @ [?m]\<rparr>)"
    using seat_send [OF ctx seat2 j] by simp
  have "pangea_card (x_curve x) data (int c) (int j) hn = Some (0, h2\<lparr>hn_sent := hn_sent h2 @ [?m]\<rparr>)"
    unfolding pangea_card_def using sv rd chk ind a0 sel upd w(1) f [unfolded h2] pub [unfolded h2] r [unfolded h2] snd seatD(1,4) [OF seat] data(1) c(1)
    by (simp add: h2_def [symmetric] Let_def)
  moreover have "seat_ok x j (h2\<lparr>hn_sent := hn_sent h2 @ [?m]\<rparr>)" using seat2 by (simp add: seat_ok_def)
  ultimately show ?thesis using w(2)
    by (intro exI [of _ "h2\<lparr>hn_sent := hn_sent h2 @ [?m]\<rparr>"] exI [of _ ?m] exI [of _ w]) (simp add: h2_def facedown_msg_def)
qed

section \<open>The second player hands out the cards\<close>

definition card_packet :: "'f deal_ctx \<Rightarrow> nat \<Rightarrow> packet \<Rightarrow> bool" where
  "card_packet x c p \<longleftrightarrow> (case p of (d, sender, m) \<Rightarrow> d = receiver x c \<and> sender < x_N x \<and> m_cmd m = ''card'' \<and> m_dest m = int d
     \<and> m_cardi m = int c \<and> length (m_data m) = 32 * x_N x \<and> peeled x 0 c d = Some (blocks (x_N x) (m_data m) ! 0))"

lemma receiver_less: "0 < x_N x \<Longrightarrow> receiver x c < x_N x"
  by (simp add: receiver_def)

lemma receiver_inj:
  assumes "receiver x c = receiver x c'" and "c div x_N x = c' div x_N x"
  shows "c = c'"
proof -
  obtain q1 q2 where "x_button x + c mod x_N x + x_N x * q1 = x_button x + c' mod x_N x + x_N x * q2"
    using assms(1) unfolding receiver_def nat_mod_eq_iff by blast
  then have "c mod x_N x + x_N x * q1 = c' mod x_N x + x_N x * q2" by simp
  then have "(c mod x_N x) mod x_N x = (c' mod x_N x) mod x_N x" unfolding nat_mod_eq_iff by blast
  then have "c mod x_N x = c' mod x_N x" by simp
  then show ?thesis using assms(2) by (metis div_mult_mod_eq)
qed

text \<open>What the second player has done after the cards \<open>cs\<close>: messages for the others, its own cards in place.\<close>

definition dealt :: "'f deal_ctx \<Rightarrow> (nat \<Rightarrow> nat) \<Rightarrow> nat list \<Rightarrow> server_node \<Rightarrow> server_node \<Rightarrow> pangea_msg list \<Rightarrow> bool" where
  "dealt x \<sigma> cs hn hn' ms \<longleftrightarrow> seat_ok x 1 hn' \<and> p_outcards hn' = p_outcards hn \<and> p_xoverz hn' = p_xoverz hn \<and> hn_sent hn' = hn_sent hn @ ms
     \<and> (\<forall>m \<in> set (filter deal_cmd ms). \<exists>c \<in> set cs. card_packet x c (receiver x c, 1, m) \<or> facedown_msg c m)
     \<and> (\<forall>c \<in> set cs. receiver x c \<noteq> 1 \<longrightarrow> (\<exists>m \<in> set (filter deal_cmd ms). card_packet x c (receiver x c, 1, m)))
     \<and> (\<forall>c \<in> set cs. receiver x c = 1 \<longrightarrow> unat (p_hole hn' ! (c div x_N x)) = \<sigma> c)
     \<and> (\<forall>k. (\<forall>c \<in> set cs. receiver x c = 1 \<longrightarrow> c div x_N x \<noteq> k) \<longrightarrow> p_hole hn' ! k = p_hole hn ! k)
     \<and> length (filter deal_cmd ms) \<le> length cs"

lemma deal_card_ok:
  assumes ctx: "ctx_ok x \<sigma>" and seat: "seat_ok x 1 hn" and lay: "layered x 1 hn" and c: "c < x_N x * 2"
    and head: "peeled x 1 c (receiver x c) = Some (block (x_N x) (p_audits hn) (c * x_N x + receiver x c) ! 0)"
  shows "\<exists>hn' ms. deal_card (x_curve x) 1 c hn = Some hn' \<and> dealt x \<sigma> [c] hn hn' ms
    \<and> (\<forall>c' < x_n x. \<forall>d < x_N x. c' \<noteq> c \<longrightarrow> block (x_N x) (p_audits hn') (c' * x_N x + d) = block (x_N x) (p_audits hn) (c' * x_N x + d))"
proof -
  let ?N = "x_N x" and ?j = "receiver x c"
  have N: "0 < ?N" "1 < ?N" "c < x_n x" using ctxD(1,8) [OF ctx] c by simp_all
  have j: "?j < ?N" by (rule receiver_less [OF N(1)])
  obtain a seed where a: "decode_audit (x_curve x) (int c) (int ?j) hn = Some (a, hn\<lparr>p_audits := put_block ?N (p_audits hn) (c * ?N + ?j) a\<rparr>)"
      "length a = ?N" "peeled x 0 c ?j = Some (a ! 0)" "length (a ! 0) = 32" "length seed = 32"
      "a = (block ?N (p_audits hn) (c * ?N + ?j)) [1 := seed, 0 := a ! 0]"
    using decode_audit_ok [OF ctx seat lay _ N(2,3) j head] by auto
  let ?h = "hn\<lparr>p_audits := put_block ?N (p_audits hn) (c * ?N + ?j) a\<rparr>"
  have a32: "\<forall>b \<in> set a. length b = 32" using audit_bytes [OF ctx seat a(5,4)] a(6) by metis
  have seat1: "seat_ok x 1 ?h" by (rule seat_put_block [OF ctx seat N(3) j a(2) a32])
  have bl: "blocks ?N (concat a) = a" "length (concat a) = 32 * ?N" using blocks_concat [OF a32] length_concat_32 [OF a32] a(2) by simp_all
  have ind: "pangea_ind ?h (hn_slot ?h) = Some 1" using seat_ind(1) [OF ctx seat1 N(2)] seatD(11) [OF seat1] by simp
  have start: "deal_card (x_curve x) 1 c hn = (if ?j = 1 then do { (_, hn) \<leftarrow> pangea_card (x_curve x) (concat a) (int c) 1 ?h; Some hn }
      else pangea_sendcmd ''card'' (int ?j) (concat a) (int c) (- 1) ?h)"
    using a(1) ind seatD(1,13) [OF seat] by (simp add: deal_card_def receiver_def Let_def)
  have oth: "block ?N (put_block ?N (p_audits hn) (c * ?N + ?j) a) (c' * ?N + d) = block ?N (p_audits hn) (c' * ?N + d)"
    if "c' < x_n x" "d < ?N" "c' \<noteq> c" for c' d using block_other [OF ctx seat N(3) j that(1,2) a(2)] that(3) by simp
  show ?thesis
  proof (cases "?j = 1")
    case True
    have "peeled x 0 c 1 = Some (blocks ?N (concat a) ! 0)" using a(3) bl(1) True by simp
    from card_ok [OF ctx seat1 c True bl(2) this] obtain hn' m w where k: "pangea_card (x_curve x) (concat a) (int c) 1 ?h = Some (0, hn')" "seat_ok x 1 hn'"
        "p_outcards hn' = p_outcards hn" "p_xoverz hn' = p_xoverz hn" "p_hole hn' = (p_hole hn) [c div ?N := w]" "unat w = \<sigma> c"
        "hn_sent hn' = hn_sent hn @ [m]" "facedown_msg c m" "p_audits hn' = put_block ?N (p_audits ?h) (c * ?N + 1) (blocks ?N (concat a))" by auto
    have "c div ?N < 2" using c N(1) by (simp add: div_less_iff_less_mult mult.commute)
    then have "dealt x \<sigma> [c] hn hn' [m]" using k True seatD(22) [OF seat] by (auto simp: dealt_def)
    moreover have "block ?N (p_audits hn') (c' * ?N + d) = block ?N (p_audits hn) (c' * ?N + d)" if "c' < x_n x" "d < ?N" "c' \<noteq> c" for c' d
      unfolding k(9) using block_other [OF ctx seat1 N(3,2) that(1,2), of "blocks ?N (concat a)"] that oth [OF that] by simp
    ultimately show ?thesis using start True k(1) by auto
  next
    case False
    let ?m = "\<lparr>m_cmd = ''card'', m_dest = int ?j, m_data = concat a, m_cardi = int c, m_turni = - 1, m_active = None\<rparr>"
    have "pangea_sendcmd ''card'' (int ?j) (concat a) (int c) (- 1) ?h = Some (?h\<lparr>hn_sent := hn_sent hn @ [?m]\<rparr>)"
      using seat_send [OF ctx seat1 N(2), of "int ?j"] j by simp
    moreover have "card_packet x c (?j, 1, ?m)" using N(2) bl a(3) by (simp add: card_packet_def)
    then have "dealt x \<sigma> [c] hn (?h\<lparr>hn_sent := hn_sent hn @ [?m]\<rparr>) [?m]" using seat1 False by (simp add: dealt_def seat_ok_def deal_cmd_def)
    ultimately show ?thesis using start False oth by (intro exI [of _ "?h\<lparr>hn_sent := hn_sent hn @ [?m]\<rparr>"] exI [of _ "[?m]"]) simp
  qed
qed

lemma dealt_Cons:
  assumes "dealt x \<sigma> [c] hn h1 ms" and "dealt x \<sigma> cs h1 h2 ms'" and "c \<notin> set cs"
  shows "dealt x \<sigma> (c # cs) hn h2 (ms @ ms')"
proof -
  have "unat (p_hole h2 ! (c div x_N x)) = \<sigma> c" if "receiver x c = 1"
  proof -
    have "\<forall>c' \<in> set cs. receiver x c' = 1 \<longrightarrow> c' div x_N x \<noteq> c div x_N x" using receiver_inj [of x _ c] that assms(3) by metis
    then have "p_hole h2 ! (c div x_N x) = p_hole h1 ! (c div x_N x)" using assms(2) unfolding dealt_def by blast
    then show ?thesis using assms(1) that by (simp add: dealt_def)
  qed
  moreover have "p_hole h2 ! k = p_hole hn ! k" if "\<forall>c' \<in> set (c # cs). receiver x c' = 1 \<longrightarrow> c' div x_N x \<noteq> k" for k
    using assms(1,2) that by (simp add: dealt_def)
  ultimately show ?thesis using assms(1,2) by (simp add: dealt_def) blast
qed

lemma deal_fold:
  assumes ctx: "ctx_ok x \<sigma>" and "seat_ok x 1 hn" and "layered x 1 hn" and "distinct cs" and "\<forall>c \<in> set cs. c < x_N x * 2"
    and "heads x 1 (p_audits hn) ((\<lambda>c. (c, receiver x c)) ` set cs)"
  shows "\<exists>hn' ms. ofold (deal_card (x_curve x) 1) cs hn = Some hn' \<and> dealt x \<sigma> cs hn hn' ms"
  using assms(2-)
proof (induction cs arbitrary: hn)
  case Nil
  then show ?case by (intro exI [of _ hn] exI [of _ "[]"]) (simp add: dealt_def)
next
  case (Cons c cs)
  let ?N = "x_N x"
  have N: "0 < ?N" "?N * 2 \<le> x_n x" by (rule ctxD [OF ctx])+
  have "peeled x 1 c (receiver x c) = Some (block ?N (p_audits hn) (c * ?N + receiver x c) ! 0)" using Cons.prems(5) by (simp add: heads_def)
  moreover have "c < ?N * 2" using Cons.prems(4) by simp
  ultimately obtain h1 ms where 1: "deal_card (x_curve x) 1 c hn = Some h1" "dealt x \<sigma> [c] hn h1 ms"
      "\<forall>c' < x_n x. \<forall>d < ?N. c' \<noteq> c \<longrightarrow> block ?N (p_audits h1) (c' * ?N + d) = block ?N (p_audits hn) (c' * ?N + d)"
    using deal_card_ok [OF ctx Cons.prems(1,2)] by blast
  have "seat_ok x 1 h1" "layered x 1 h1" using 1(2) Cons.prems(2) by (simp_all add: dealt_def layered_def)
  moreover have "heads x 1 (p_audits h1) ((\<lambda>c. (c, receiver x c)) ` set cs)"
    unfolding heads_def
  proof clarify
    fix c' assume c': "c' \<in> set cs"
    then have "c' < x_n x" "c' \<noteq> c" using Cons.prems(3,4) N(2) by fastforce+
    then have "block ?N (p_audits h1) (c' * ?N + receiver x c') = block ?N (p_audits hn) (c' * ?N + receiver x c')"
      using 1(3) receiver_less [OF N(1)] by blast
    then show "peeled x 1 c' (receiver x c') = Some (block ?N (p_audits h1) (c' * ?N + receiver x c') ! 0)"
      using Cons.prems(5) c' by (simp add: heads_def)
  qed
  ultimately obtain h2 ms' where 2: "ofold (deal_card (x_curve x) 1) cs h1 = Some h2" "dealt x \<sigma> cs h1 h2 ms'"
    using Cons.IH [of h1] Cons.prems(3,4) by auto
  have "dealt x \<sigma> (c # cs) hn h2 (ms @ ms')" using dealt_Cons [OF 1(2) 2(2)] Cons.prems(3) by simp
  then show ?case using 1(1) 2(1) by auto
qed

section \<open>The handlers of the dealing\<close>

abbreviation hole_cards :: "'f deal_ctx \<Rightarrow> (nat \<times> nat) set" where
  "hole_cards x \<equiv> {..<x_N x * 2} \<times> {..<x_N x}"

abbreviation preflop_len :: "'f deal_ctx \<Rightarrow> nat" where
  "preflop_len x \<equiv> 2 * x_N x * (x_N x * x_N x)"

text \<open>The audits of a \<open>preflop\<close> message for player \<open>i\<close>.\<close>

definition preflop_data :: "'f deal_ctx \<Rightarrow> nat \<Rightarrow> u8 list \<Rightarrow> bool" where
  "preflop_data x i data \<longleftrightarrow> length data = 32 * preflop_len x \<and> heads x i (blocks (preflop_len x) data) (hole_cards x)
     \<and> (i = x_N x - 1 \<or> tails x (blocks (preflop_len x) data) (hole_cards x))"

lemma block_prefix:
  assumes "c < N * 2" and "d < N" and "length A = 2 * N * (N * N)"
  shows "block N (A @ B) (c * N + d) = block N A (c * N + d)"
proof -
  have "c * N + d < 2 * N * N" using card_index [OF assms(1,2)] by (simp add: mult.commute mult.left_commute)
  then have "(c * N + d) * N + N \<le> length A" using block_room [of "c * N + d" "2 * N * N" N A] assms(3) by (simp add: mult.assoc)
  then show ?thesis by (simp add: block_def)
qed

lemma heads_prefix:
  assumes "length A = preflop_len x"
  shows "heads x i (A @ B) (hole_cards x) = heads x i A (hole_cards x)" "tails x (A @ B) (hole_cards x) = tails x A (hole_cards x)"
  using block_prefix [OF _ _ assms] by (auto simp: heads_def tails_def)

lemma preflop_room:
  assumes "ctx_ok x \<sigma>"
  shows "preflop_len x + 1 \<le> x_n x * x_N x * x_N x"
proof -
  have "Suc (2 * x_N x) * (x_N x * x_N x) \<le> x_n x * (x_N x * x_N x)" using ctxD(3) [OF assms] by (intro mult_le_mono1) simp
  moreover have "Suc (2 * x_N x) * (x_N x * x_N x) = preflop_len x + x_N x * x_N x" by simp
  moreover have "1 \<le> x_N x * x_N x" using ctxD(7) [OF assms] by (simp add: Suc_le_eq)
  ultimately show ?thesis unfolding mult.assoc [of "x_n x"] by linarith
qed

definition preflop_packet :: "'f deal_ctx \<Rightarrow> nat \<Rightarrow> packet \<Rightarrow> bool" where
  "preflop_packet x i p \<longleftrightarrow> (case p of (d, sender, m) \<Rightarrow> d = i \<and> sender < x_N x \<and> m_cmd m = ''preflop'' \<and> m_dest m = int i
     \<and> (\<exists>data. preflop_data x i data \<and> (\<forall>rest. pangea_unzbuf (32 * (x_N x * x_N x * x_n x))
          (map (\<lambda>b. char_of (unat b)) (m_data m) @ CHR 0x00 # rest) (length (m_data m)) = Some data)))"

lemma preflop_installed:
  assumes "ctx_ok x \<sigma>" and "seat_ok x i hn" and "length data = 32 * preflop_len x"
  shows "seat_ok x i (hn\<lparr>p_audits := blocks (preflop_len x) data @ drop (preflop_len x) (p_audits hn)\<rparr>)"
    "preflop_len x \<le> length (p_audits hn)"
proof -
  have l: "preflop_len x \<le> length (p_audits hn)" using preflop_room [OF assms(1)] seatD(20) [OF assms(2)] by linarith
  then show "preflop_len x \<le> length (p_audits hn)" .
  show "seat_ok x i (hn\<lparr>p_audits := blocks (preflop_len x) data @ drop (preflop_len x) (p_audits hn)\<rparr>)"
  proof (rule seat_audits [OF assms(2)])
    show "length (blocks (preflop_len x) data @ drop (preflop_len x) (p_audits hn)) = x_n x * x_N x * x_N x"
      using l seatD(20) [OF assms(2)] by simp
    show "\<forall>b \<in> set (blocks (preflop_len x) data @ drop (preflop_len x) (p_audits hn)). length b = 32"
      using blocks_bytes [OF assms(3)] seatD(21) [OF assms(2)] by (auto dest: in_set_dropD)
  qed
qed

lemma hole_cards_list: "set (List.product [0..<x_N x * 2] [0..<x_N x]) = hole_cards x" "distinct (List.product [0..<x_N x * 2] [0..<x_N x])"
  by (auto simp: distinct_product)

text \<open>The bytes of the audits as they go on the wire.\<close>

lemma preflop_wire:
  assumes ctx: "ctx_ok x \<sigma>" and seat: "seat_ok x i hn" and heads: "heads x j (p_audits hn) (hole_cards x)" and tails: "tails x (p_audits hn) (hole_cards x)"
    and three: "2 < x_N x"
  shows "\<exists>z. pangea_zbuf (concat (p_audits hn) @ concat (p_outcards hn)) (preflop_len x * 32) = Some z
    \<and> (\<exists>data. preflop_data x j data \<and> (\<forall>rest. pangea_unzbuf (32 * (x_N x * x_N x * x_n x)) (z @ CHR 0x00 # rest) (length z) = Some data))"
proof -
  let ?m = "preflop_len x" and ?A = "p_audits hn" let ?B = "take (preflop_len x) (p_audits hn)"
  note s = seatD(20,21) [OF seat] and room = preflop_room [OF ctx]
  have B: "length ?B = ?m" "\<forall>b \<in> set ?B. length b = 32" using s room by (auto dest: in_set_takeD)
  define data where "data = concat ?B"
  define behind where "behind = concat (drop ?m ?A) @ concat (p_outcards hn)"
  have len: "length data = 32 * ?m" using length_concat_32 [OF B(2)] B(1) by (simp add: data_def)
  have bl: "blocks ?m data = ?B" using blocks_concat [OF B(2)] B(1) by (simp add: data_def)
  have split: "?A = ?B @ drop ?m ?A" by simp
  have hd: "heads x j ?B (hole_cards x)" "tails x ?B (hole_cards x)"
    using heads tails heads_prefix(1) [OF B(1), of j "drop ?m ?A"] heads_prefix(2) [OF B(1), of "drop ?m ?A"] by simp_all
  have pd: "preflop_data x j data" using len bl hd by (simp add: preflop_data_def)
  have N: "0 < x_N x" "1 < x_N x" using ctxD(1) [OF ctx] by simp_all
  have k: "(x_N x * 2 - 1) * x_N x + (x_N x - 1) = 2 * x_N x * x_N x - 1" using N(1) by (simp add: algebra_simps diff_mult_distrib)
  have pos: "0 < ?m" using N(1) by simp
  have "(2 * x_N x * x_N x - 1) * x_N x + (x_N x - 1) = ?m - 1" using N(1) by (simp add: algebra_simps diff_mult_distrib)
  then have "block (x_N x) ?B (2 * x_N x * x_N x - 1) ! (x_N x - 1) = ?B ! (?m - 1)" using N B(1) pos by (simp add: block_def)
  moreover have "(x_N x * 2 - 1, x_N x - 1) \<in> hole_cards x" using N by simp
  from bspec [OF hd(2) [unfolded tails_def] this] have "block (x_N x) ?B ((x_N x * 2 - 1) * x_N x + (x_N x - 1)) ! (x_N x - 1) = factors x (x_N x - 1) ! ((x_N x * 2 - 1) * x_N x + (x_N x - 1))"
    by (simp only: case_prod_conv)
  ultimately have "?B ! (?m - 1) = factors x (x_N x - 1) ! (2 * x_N x * x_N x - 1)" unfolding k by simp
  then have "last (?B ! (?m - 1)) \<noteq> 0" using ctx three by (simp add: ctx_ok_def)
  moreover have ne: "?B \<noteq> []" using B(1) pos by (metis length_greater_0_conv)
  moreover have "last ?B = ?B ! (?m - 1)" using last_conv_nth [OF ne] B(1) by simp
  moreover have "last ?B \<noteq> []" using last_in_set [OF ne] B(2) by fastforce
  moreover have "concat ?B = concat (butlast ?B) @ last ?B" using append_butlast_last_id [OF ne] by (metis concat_append concat.simps append_Nil2)
  ultimately have last: "last data \<noteq> 0" "data \<noteq> []" unfolding data_def by simp_all
  have "\<forall>b \<in> set (drop ?m ?A). length b = 32" using s(2) by (auto dest: in_set_dropD)
  from length_concat_32 [OF this] have "32 \<le> length (concat (drop ?m ?A))" using s(1) room by (simp only: length_drop)
  then have beh: "15 \<le> length behind" by (simp add: behind_def)
  have cap: "length data \<le> 32 * (x_N x * x_N x * x_n x)" using len ctxD(3) [OF ctx] by simp
  have mem: "concat ?A @ concat (p_outcards hn) = data @ behind" unfolding data_def behind_def by (subst split) (simp only: concat_append append_assoc)
  obtain z where z: "pangea_zbuf (data @ behind) (length data) = Some z" using zbuf_exact [OF beh last(2,1) cap] by blast
  have "pangea_unzbuf (32 * (x_N x * x_N x * x_n x)) (z @ CHR 0x00 # rest) (length z) = Some data" for rest
    using zbuf_exact [OF beh last(2,1) cap, of rest] z by auto
  then show ?thesis using z mem len pd by (metis mult.commute)
qed

text \<open>What every handler of the dealing keeps: the seat and, once it is there, the layer of the player.\<close>

definition same_layer :: "'z server_node_scheme \<Rightarrow> 'z server_node_scheme \<Rightarrow> bool" where
  "same_layer hn hn' \<longleftrightarrow> p_outcards hn' = p_outcards hn \<and> p_xoverz hn' = p_xoverz hn"

lemma preflop_pass_ok:
  assumes ctx: "ctx_ok x \<sigma>" and seat: "seat_ok x i hn" and lay: "layered x i hn" and i: "1 < i" "i < x_N x" and data: "preflop_data x i data"
  shows "\<exists>hn' m. pangea_preflop (x_curve x) data dest hn = Some (0, hn') \<and> seat_ok x i hn' \<and> same_layer hn hn' \<and> p_hole hn' = p_hole hn
    \<and> hn_sent hn' = hn_sent hn @ [m] \<and> preflop_packet x (i - 1) (i - 1, i, m)"
proof -
  let ?m = "preflop_len x" let ?h = "hn\<lparr>p_audits := blocks ?m data @ drop ?m (p_audits hn)\<rparr>"
  have len: "length data = 32 * ?m" using data by (simp add: preflop_data_def)
  note inst = preflop_installed [OF ctx seat len]
  have hd: "heads x i (p_audits ?h) (hole_cards x)" "i = x_N x - 1 \<or> tails x (p_audits ?h) (hole_cards x)"
    using data heads_prefix(1) [of "blocks ?m data" x i] heads_prefix(2) [of "blocks ?m data" x] by (auto simp: preflop_data_def)
  have sub: "hole_cards x \<subseteq> {..<x_n x} \<times> {..<x_N x}" using ctxD(8) [OF ctx] by auto
  have i0: "0 < i" using i by simp
  from pass_fold [OF ctx i0 i(2) inst(1), of "List.product [0..<x_N x * 2] [0..<x_N x]", unfolded hole_cards_list(1), OF _ hole_cards_list(2) sub hd] lay
  obtain A where A: "ofold (decode_step (x_curve x)) (List.product [0..<x_N x * 2] [0..<x_N x]) ?h = Some (hn\<lparr>p_audits := A\<rparr>)"
      "seat_ok x i (hn\<lparr>p_audits := A\<rparr>)" "heads x (i - 1) A (hole_cards x)" "tails x A (hole_cards x)" by auto
  let ?h' = "hn\<lparr>p_audits := A\<rparr>"
  obtain z d' where z: "pangea_zbuf (concat A @ concat (p_outcards hn)) (?m * 32) = Some z" "preflop_data x (i - 1) d'"
      "\<forall>rest. pangea_unzbuf (32 * (x_N x * x_N x * x_n x)) (z @ CHR 0x00 # rest) (length z) = Some d'"
    using preflop_wire [OF ctx A(2), of "i - 1"] A(3,4) i by auto
  have prev: "pangea_prevnode ?h' = int (i - 1)" using seatD(12) [OF seat] i by (simp add: pangea_prevnode_def of_nat_diff)
  define msg where "msg = \<lparr>m_cmd = ''preflop'', m_dest = int (i - 1), m_data = map of_char z, m_cardi = int (x_N x * 2 * x_N x), m_turni = - 1, m_active = None\<rparr>"
  have "int (i - 1) < int (x_N x)" using i by simp
  from seat_send [OF ctx A(2) i(2) this] have snd: "pangea_sendcmd ''preflop'' (int (i - 1)) (map of_char z) (int (x_N x * 2 * x_N x)) (- 1) ?h'
      = Some (?h'\<lparr>hn_sent := hn_sent hn @ [msg]\<rparr>)" by (simp add: msg_def)
  have N: "dp_N ?h = x_N x" "hn_slot ?h = int i" using seatD(1,11) [OF inst(1)] by simp_all
  have "preflop_pass (x_curve x) (?m * 32) ?h = Some (?h'\<lparr>hn_sent := hn_sent hn @ [msg]\<rparr>)"
    unfolding preflop_pass_def N(1) Let_def A(1) using z(1) snd prev N(1) by simp
  moreover have "pangea_slotB ?h = Some 1" by (rule seat_slotB [OF ctx inst(1)])
  moreover have "length data = ?m * 32" "dp_N hn = x_N x" using len N(1) by simp_all
  ultimately have "pangea_preflop (x_curve x) data dest hn = Some (0, ?h'\<lparr>hn_sent := hn_sent hn @ [msg]\<rparr>)"
    using inst(2) N(2) i by (simp add: pangea_preflop_def Let_def pangea_slotA_def)
  moreover have "map (\<lambda>b. char_of (unat b)) (m_data msg) = z" "length (m_data msg) = length z" by (simp_all add: msg_def o_def char_byte)
  then have "preflop_packet x (i - 1) (i - 1, i, msg)"
    using z(2,3) i unfolding preflop_packet_def by (auto simp: msg_def)
  moreover have "seat_ok x i (?h'\<lparr>hn_sent := hn_sent hn @ [msg]\<rparr>)" using A(2) by (simp add: seat_ok_def)
  ultimately show ?thesis by (intro exI [of _ "?h'\<lparr>hn_sent := hn_sent hn @ [msg]\<rparr>"] exI [of _ msg]) (simp add: same_layer_def)
qed

lemma preflop_deal_ok:
  assumes ctx: "ctx_ok x \<sigma>" and seat: "seat_ok x 1 hn" and lay: "layered x 1 hn" and data: "preflop_data x 1 data"
  shows "\<exists>hn' ms. pangea_preflop (x_curve x) data 1 hn = Some (0, hn') \<and> dealt x \<sigma> [0..<x_N x * 2] hn hn' ms"
proof -
  let ?m = "preflop_len x" let ?h = "hn\<lparr>p_audits := blocks ?m data @ drop ?m (p_audits hn)\<rparr>"
  have len: "length data = 32 * ?m" using data by (simp add: preflop_data_def)
  note inst = preflop_installed [OF ctx seat len]
  have N: "dp_N ?h = x_N x" "hn_slot ?h = 1" "0 < x_N x" using seatD(1,11) [OF inst(1)] ctxD(7) [OF ctx] by simp_all
  have hd: "heads x 1 (p_audits ?h) (hole_cards x)"
    using data heads_prefix(1) [of "blocks ?m data" x 1] by (auto simp: preflop_data_def)
  then have "heads x 1 (p_audits ?h) ((\<lambda>c. (c, receiver x c)) ` set [0..<x_N x * 2])" using receiver_less [OF N(3)] by (auto simp: heads_def)
  then obtain hn' ms where d: "ofold (deal_card (x_curve x) 1) [0..<x_N x * 2] ?h = Some hn'" "dealt x \<sigma> [0..<x_N x * 2] ?h hn' ms"
    using deal_fold [OF ctx inst(1), of "[0..<x_N x * 2]"] lay by auto
  moreover have "pangea_slotB ?h = Some 1" by (rule seat_slotB [OF ctx inst(1)])
  moreover have "length data = ?m * 32" "dp_N hn = x_N x" using len N(1) by simp_all
  moreover have "preflop_deal (x_curve x) 1 ?h = Some hn'" unfolding preflop_deal_def N(1) using d(1) N(3) by simp
  ultimately have "pangea_preflop (x_curve x) data 1 hn = Some (0, hn')"
    using inst(2) N(2) by (simp add: pangea_preflop_def Let_def pangea_slotA_def)
  moreover have "dealt x \<sigma> [0..<x_N x * 2] hn hn' ms" using d(2) by (simp add: dealt_def)
  ultimately show ?thesis by blast
qed

lemma final_ok:
  assumes "ctx_ok x \<sigma>" and "seat_ok x i hn" and "length (c_data c) = 32 * (x_n x * x_N x)"
  shows "\<exists>hn'. pangea_final c hn = Some (0, hn') \<and> seat_ok x i hn' \<and> same_layer hn hn' \<and> p_hole hn' = p_hole hn \<and> hn_sent hn' = hn_sent hn
    \<and> dp_summary hn' = dp_summary hn"
  using assms seatD(1,4,19) [OF assms(2)] by (simp add: pangea_final_def Let_def same_layer_def mult.commute) (simp add: seat_ok_def)

section \<open>The deck goes round\<close>

definition encoded_packet :: "'f deal_ctx \<Rightarrow> nat \<Rightarrow> packet \<Rightarrow> bool" where
  "encoded_packet x i p \<longleftrightarrow> (case p of (d, sender, m) \<Rightarrow> d = i \<and> sender < x_N x \<and> m_cmd m = ''encoded'' \<and> m_dest m = int i
     \<and> m_data m = concat (deck x (i - 1)))"

definition final_packet :: "'f deal_ctx \<Rightarrow> packet \<Rightarrow> bool" where
  "final_packet x p \<longleftrightarrow> (case p of (d, sender, m) \<Rightarrow> d < x_N x \<and> sender < x_N x \<and> m_cmd m = ''final'' \<and> length (m_data m) = 32 * (x_n x * x_N x))"

lemma deck_bytes:
  assumes "ctx_ok x \<sigma>" and "i < x_N x"
  shows "length (concat (deck x i)) = 32 * (x_n x * x_N x)" "blocks (x_n x * x_N x) (concat (deck x i)) = deck x i"
  using length_concat_32 [OF ctxD(13) [OF assms]] blocks_concat [OF ctxD(13) [OF assms]] ctxD(12) [OF assms] by simp_all

text \<open>Common to all players: the layer is put on; then the deck is sent on.\<close>

lemma encoded_start:
  assumes ctx: "ctx_ok x \<sigma>" and seat: "seat_ok x i hn" and i: "0 < i" "i < x_N x"
  shows "\<exists>sh. let h = hn\<lparr>p_outcards := deck x i, p_xoverz := factors x i, p_allshares := sh\<rparr> in
    seat_ok x i h \<and> layered x i h
    \<and> pangea_encoded (x_curve x) (x_shares x) (e_rnd (x_env x i)) (e_secrets (x_env x i)) (concat (deck x (i - 1))) dest hn
      = do { h \<leftarrow> (if i < x_N x - 1 then pangea_sendcmd ''encoded'' (int (i + 1)) (concat (deck x i)) (int (x_n x * x_N x)) (- 1) h
                   else encoded_last (x_curve x) dest h); Some (0, h) }"
proof -
  let ?N = "x_N x" and ?n = "x_n x"
  have i1: "i - 1 < ?N" using i by simp
  obtain sh cs where e: "cards777_encode (x_curve x) (x_shares x) (e_rnd (x_env x i)) (e_secrets (x_env x i)) (x_M x) (deck x (i - 1)) ?n ?N
      = Some (deck x i, factors x i, sh, cs)" using ctx i unfolding ctx_ok_def by blast
  let ?h = "hn\<lparr>p_outcards := deck x i, p_xoverz := factors x i, p_allshares := sh\<rparr>"
  have len: "length (deck x i) = ?n * ?N" "length (factors x i) = ?n * ?N" using ctxD(12) [OF ctx i(2)] ctxD(14) [OF ctx i] by simp_all
  have ind: "pangea_ind hn (hn_slot hn) = Some (int i)" using seat_ind(1) [OF ctx seat i(2)] seatD(11) [OF seat] by simp
  have nx: "i < ?N - 1 \<Longrightarrow> pangea_nextnode ?h = int (i + 1)" using seatD(2,12) [OF seat] by (simp add: pangea_nextnode_def)
  have d: "length (concat (deck x (i - 1))) = ?n * ?N * 32" "blocks (?n * ?N) (concat (deck x (i - 1))) = deck x (i - 1)"
    using deck_bytes [OF ctx i1] by simp_all
  have lt: "(int i < int ?N - 1) = (i < ?N - 1)" by arith
  have "pangea_encoded (x_curve x) (x_shares x) (e_rnd (x_env x i)) (e_secrets (x_env x i)) (concat (deck x (i - 1))) dest hn
      = do { h \<leftarrow> (if i < ?N - 1 then pangea_sendcmd ''encoded'' (int (i + 1)) (concat (deck x i)) (int (?n * ?N)) (- 1) ?h
                   else encoded_last (x_curve x) dest ?h); Some (0, h) }"
    unfolding pangea_encoded_def using seatD(1,2,4,5,17,18) [OF seat] ind e len d nx i(1) lt by (simp add: Let_def)
  moreover have "seat_ok x i ?h" using seat len by (simp add: seat_ok_def)
  ultimately show ?thesis by (intro exI [of _ sh]) (simp add: layered_def)
qed

lemma encoded_next_ok:
  assumes ctx: "ctx_ok x \<sigma>" and seat: "seat_ok x i hn" and i: "0 < i" "i < x_N x - 1"
  shows "\<exists>hn' m. pangea_encoded (x_curve x) (x_shares x) (e_rnd (x_env x i)) (e_secrets (x_env x i)) (concat (deck x (i - 1))) dest hn = Some (0, hn')
    \<and> seat_ok x i hn' \<and> layered x i hn' \<and> p_hole hn' = p_hole hn \<and> hn_sent hn' = hn_sent hn @ [m] \<and> encoded_packet x (i + 1) (i + 1, i, m)"
proof -
  have i2: "i < x_N x" "int (i + 1) < int (x_N x)" using i by simp_all
  obtain sh where sh: "let h = hn\<lparr>p_outcards := deck x i, p_xoverz := factors x i, p_allshares := sh\<rparr> in
      seat_ok x i h \<and> layered x i h
      \<and> pangea_encoded (x_curve x) (x_shares x) (e_rnd (x_env x i)) (e_secrets (x_env x i)) (concat (deck x (i - 1))) dest hn
      = do { h \<leftarrow> (if i < x_N x - 1 then pangea_sendcmd ''encoded'' (int (i + 1)) (concat (deck x i)) (int (x_n x * x_N x)) (- 1) h
                   else encoded_last (x_curve x) dest h); Some (0, h) }"
    using encoded_start [OF ctx seat i(1) i2(1)] by blast
  let ?h = "hn\<lparr>p_outcards := deck x i, p_xoverz := factors x i, p_allshares := sh\<rparr>"
  have h: "seat_ok x i ?h" "layered x i ?h" "pangea_encoded (x_curve x) (x_shares x) (e_rnd (x_env x i)) (e_secrets (x_env x i)) (concat (deck x (i - 1))) dest hn
      = do { h \<leftarrow> pangea_sendcmd ''encoded'' (int (i + 1)) (concat (deck x i)) (int (x_n x * x_N x)) (- 1) ?h; Some (0, h) }"
    using sh i(2) by (simp_all add: Let_def)
  let ?m = "\<lparr>m_cmd = ''encoded'', m_dest = int (i + 1), m_data = concat (deck x i), m_cardi = int (x_n x * x_N x), m_turni = - 1, m_active = None\<rparr>"
  have "pangea_sendcmd ''encoded'' (int (i + 1)) (concat (deck x i)) (int (x_n x * x_N x)) (- 1) ?h = Some (?h\<lparr>hn_sent := hn_sent hn @ [?m]\<rparr>)"
    using seat_send [OF ctx h(1) i2] by simp
  moreover have "seat_ok x i (?h\<lparr>hn_sent := hn_sent hn @ [?m]\<rparr>)" "layered x i (?h\<lparr>hn_sent := hn_sent hn @ [?m]\<rparr>)"
    using h(1,2) by (simp_all add: seat_ok_def layered_def)
  ultimately show ?thesis using h(3) i by (intro exI [of _ "?h\<lparr>hn_sent := hn_sent hn @ [?m]\<rparr>"] exI [of _ ?m]) (simp add: encoded_packet_def)
qed

text \<open>The last player announces the final deck and starts the preflop.\<close>

lemma encoded_last_ok:
  assumes ctx: "ctx_ok x \<sigma>" and seat: "seat_ok x i hn" and lay: "layered x i hn" and i: "i = x_N x - 1"
  shows "\<exists>h f data. encoded_last (x_curve x) dest hn = do { (_, h) \<leftarrow> pangea_preflop (x_curve x) data dest h; Some h }
    \<and> seat_ok x i h \<and> same_layer hn h \<and> p_hole h = p_hole hn \<and> hn_sent h = hn_sent hn @ [f]
    \<and> m_cmd f = ''final'' \<and> m_dest f = - 1 \<and> length (m_data f) = 32 * (x_n x * x_N x) \<and> preflop_data x i data"
proof -
  let ?N = "x_N x" let ?n = "x_n x * x_N x" and ?m = "preflop_len x"
  have N: "0 < ?N" "i < ?N" using ctxD(7) [OF ctx] i by simp_all
  note s = seatD [OF seat]
  let ?f = "\<lparr>m_cmd = ''final'', m_dest = - 1, m_data = concat (deck x i), m_cardi = int ?n, m_turni = - 1, m_active = None\<rparr>"
  let ?h = "hn\<lparr>h_final := deck x i, hn_sent := hn_sent hn @ [?f]\<rparr>"
  have out: "take ?n (p_outcards hn) = deck x i" "take ?n (p_outcards hn) @ drop ?n (h_final hn) = deck x i"
    using lay s(17,19) by (simp_all add: layered_def)
  have seat1: "seat_ok x i (hn\<lparr>h_final := deck x i\<rparr>)" "seat_ok x i ?h" using seat ctxD(12) [OF ctx N(2)] by (simp_all add: seat_ok_def)
  have snd: "pangea_sendcmd ''final'' (- 1) (concat (deck x i)) (int ?n) (- 1) (hn\<lparr>h_final := deck x i\<rparr>) = Some ?h"
    using seat_send [OF ctx seat1(1) N(2)] by simp
  have sub: "set (List.product [0..<?N * 2] [0..<?N]) \<subseteq> {..<x_n x} \<times> {..<?N}" unfolding hole_cards_list(1) using ctxD(8) [OF ctx] by auto
  obtain A where A: "ofold start_audit (List.product [0..<?N * 2] [0..<?N]) ?h = Some (?h\<lparr>p_audits := A\<rparr>)" "seat_ok x i (?h\<lparr>p_audits := A\<rparr>)"
      "heads x i A (hole_cards x)" using start_fold [OF ctx seat1(2) hole_cards_list(2) sub] i unfolding hole_cards_list(1) by auto
  let ?h' = "?h\<lparr>p_audits := A\<rparr>" let ?B = "take ?m A"
  have B: "length ?B = ?m" "\<forall>b \<in> set ?B. length b = 32"
    using seatD(20,21) [OF A(2)] preflop_room [OF ctx] by (auto dest: in_set_takeD)
  have "heads x i ?B (hole_cards x)" using A(3) heads_prefix(1) [OF B(1), of i "drop ?m A"] by simp
  then have pd: "preflop_data x i (concat ?B)"
    using length_concat_32 [OF B(2)] blocks_concat [OF B(2)] B(1) i by (simp add: preflop_data_def)
  have "encoded_last (x_curve x) dest hn = do { (_, h) \<leftarrow> pangea_preflop (x_curve x) (concat ?B) dest ?h'; Some h }"
    unfolding encoded_last_def using s(1,4,17,19) out snd A(1) by (simp add: Let_def)
  then show ?thesis using A(2) pd deck_bytes(1) [OF ctx N(2)]
    by (intro exI [of _ ?h'] exI [of _ ?f] exI [of _ "concat ?B"]) (simp add: same_layer_def)
qed

section \<open>The betting opens\<close>

text \<open>Antes and blinds change nothing but the amounts, the statuses, the snapshot, the button and the summary.\<close>

definition antes_rest :: "'z pangea_info_scheme \<Rightarrow> 'z pangea_info_scheme" where
  "antes_rest dp = (bet_rest dp)\<lparr>dp_snapshot := [], dp_button := 0\<rparr>"

lemma antes_rest_bet: "bet_rest dp' = bet_rest dp \<Longrightarrow> antes_rest dp' = antes_rest dp"
  by (simp add: antes_rest_def)

lemma ofold_same:
  assumes "\<And>a s s'. f a s = Some s' \<Longrightarrow> g s' = g s" and "ofold f as s = Some s'"
  shows "g s' = g s"
  using assms(2) by (induction "as" arbitrary: s) (auto simp: bind_Some_conv assms(1))

lemma antes_broke_rest: "antes_broke i dp = Some dp' \<Longrightarrow> antes_rest dp' = antes_rest dp"
  by (auto simp: antes_broke_def split: if_splits elim!: bind_SomeE dest!: fold_rest intro!: antes_rest_bet)

lemma antes_ante_rest: "antes_ante i dp = Some dp' \<Longrightarrow> antes_rest dp' = antes_rest dp"
  by (auto simp: antes_ante_def split: if_splits elim!: bind_SomeE dest!: fold_rest bet_rest_bets intro!: antes_rest_bet)

lemma antes_active_rest: "antes_active i s = Some s' \<Longrightarrow> antes_rest (snd s') = antes_rest (snd s)"
  by (auto simp: antes_active_def Let_def split: prod.splits if_splits elim!: bind_SomeE dest!: fold_rest intro!: antes_rest_bet)

lemma antes_snapshot_rest: "antes_snapshot dp = Some dp' \<Longrightarrow> antes_rest dp' = antes_rest dp"
  by (auto simp: antes_snapshot_def Let_def antes_rest_def bet_rest_def split: if_splits dest!: summary_SomeD)

lemma antes_blinds_rest:
  assumes "antes_blinds acts dp = Some dp'"
  shows "antes_rest dp' = antes_rest dp"
proof (cases "length acts < 2")
  case False
  then obtain r1 d1 r2 where "pangea_bet dp (int (acts ! 0)) (drop_bit 1 (dp_bigblind dp)) CARDS777_SMALLBLIND = Some (r1, d1)"
      "pangea_bet (d1\<lparr>dp_button := (acts ! 0 + dp_N d1 - 1) mod dp_N d1\<rparr>) (int (acts ! 1)) (dp_bigblind d1) CARDS777_BIGBLIND = Some (r2, dp')"
    using assms by (auto simp: antes_blinds_def bind_Some_conv Let_def)
  then have "antes_rest d1 = antes_rest dp" "antes_rest dp' = antes_rest (d1\<lparr>dp_button := (acts ! 0 + dp_N d1 - 1) mod dp_N d1\<rparr>)"
    using bet_rest_bets antes_rest_bet by blast+
  then show ?thesis by (simp add: antes_rest_def bet_rest_def)
qed (use assms in \<open>simp add: antes_blinds_def\<close>)

lemma antes_rest_antes:
  assumes "pangea_antes dp = Some dp'"
  shows "antes_rest dp' = antes_rest dp"
proof -
  obtain d1 d2 d3 d4 acts where "antes_snapshot dp = Some d1" "ofold antes_broke [0..<dp_N d1] d1 = Some d2"
      "(if dp_ante d2 \<noteq> 0 then ofold antes_ante [0..<dp_N d2] d2 else Some d2) = Some d3"
      "ofold antes_active [0..<dp_N d3] ([], d3) = Some (acts, d4)" "antes_blinds acts d4 = Some dp'"
    using assms by (auto simp: pangea_antes_def bind_Some_conv)
  note d = this
  have "antes_rest d2 = antes_rest d1" by (rule ofold_same [where g = antes_rest, OF antes_broke_rest d(2)])
  moreover have "antes_rest d3 = antes_rest d2"
    using d(3) ofold_same [where g = antes_rest, OF antes_ante_rest] by (auto split: if_splits)
  moreover have "antes_rest (snd (acts, d4)) = antes_rest (snd ([] :: nat list, d3))"
    by (rule ofold_same [where g = "\<lambda>s. antes_rest (snd s)", OF antes_active_rest d(4)])
  ultimately show ?thesis using antes_snapshot_rest [OF d(1)] antes_blinds_rest [OF d(5)] by simp
qed

lemma antes_frame:
  assumes "antes_rest dp' = antes_rest dp"
  shows "\<exists>hm bs as su lr na bz lb ba be sn bu. dp' = dp\<lparr>h_handmask := hm, h_betstatus := bs, h_actions := as, dp_summary := su, h_lastraise := lr,
     h_numactions := na, h_betsize := bz, h_lastbettor := lb, sp_balances := ba, h_bets := be, dp_snapshot := sn, dp_button := bu\<rparr>"
proof -
  have "dp' = (antes_rest dp')\<lparr>h_handmask := h_handmask dp', h_betstatus := h_betstatus dp', h_actions := h_actions dp', dp_summary := dp_summary dp',
     h_lastraise := h_lastraise dp', h_numactions := h_numactions dp', h_betsize := h_betsize dp', h_lastbettor := h_lastbettor dp',
     sp_balances := sp_balances dp', h_bets := h_bets dp', dp_snapshot := dp_snapshot dp', dp_button := dp_button dp'\<rparr>"
    by (simp add: antes_rest_def bet_rest_def)
  then show ?thesis unfolding assms by (simp add: antes_rest_def bet_rest_def) blast
qed

lemma seat_table:
  assumes "ctx_ok x \<sigma>" and "seat_ok x i hn"
  shows "table_ok hn"
  using ctxD(2,7) [OF assms(1)] assms(2) by (simp add: table_ok_def seats_ok_def seat_ok_def)

lemma checkantes_ok:
  assumes ctx: "ctx_ok x \<sigma>" and seat: "seat_ok x 0 hn" and room: "summary_len hn + 400 \<le> SUMMARY_MAX"
  shows "\<exists>hn'. pangea_checkantes hn = Some hn' \<and> seat_ok x 0 hn' \<and> p_outcards hn' = p_outcards hn \<and> p_xoverz hn' = p_xoverz hn
    \<and> p_hole hn' = p_hole hn \<and> hn_sent hn' = hn_sent hn \<and> summary_len hn' \<le> summary_len hn + 400"
proof (cases "(\<forall>b \<in> set (take (dp_N hn) (h_bets hn)). b = 0) \<and> txid256 (h_checkprod hn) \<noteq> 0")
  case True
  have N: "\<not> length (h_bets hn) < dp_N hn" using seatD(1,29) [OF seat] ctxD(2) [OF ctx] by simp
  obtain hn' where a: "pangea_antes hn = Some hn'" "table_ok hn'" "summary_len hn' \<le> summary_len hn + 400"
    using antes_total [OF seat_table [OF ctx seat] room] by blast
  from antes_frame [OF antes_rest_antes [OF a(1)]] obtain hm bs as su lr na bz lb ba be sn bu where
    f: "hn' = hn\<lparr>h_handmask := hm, h_betstatus := bs, h_actions := as, dp_summary := su, h_lastraise := lr,
     h_numactions := na, h_betsize := bz, h_lastbettor := lb, sp_balances := ba, h_bets := be, dp_snapshot := sn, dp_button := bu\<rparr>" by blast
  have "seat_ok x 0 hn'" using seat a(2) unfolding f by (simp add: seat_ok_def table_ok_def seats_ok_def)
  moreover have "pangea_checkantes hn = Some hn'" unfolding pangea_checkantes_def if_not_P [OF N] if_P [OF True] by (rule a(1))
  moreover have "p_outcards hn' = p_outcards hn" "p_xoverz hn' = p_xoverz hn" "p_hole hn' = p_hole hn" "hn_sent hn' = hn_sent hn"
    unfolding f by simp_all
  ultimately show ?thesis using a(3) by blast
next
  case False
  have N: "\<not> length (h_bets hn) < dp_N hn" using seatD(1,29) [OF seat] ctxD(2) [OF ctx] by simp
  have "pangea_checkantes hn = Some hn" unfolding pangea_checkantes_def if_not_P [OF N] if_not_P [OF False] ..
  then show ?thesis using seat by simp
qed

lemma startbets_ok:
  assumes ctx: "ctx_ok x \<sigma>" and seat: "seat_ok x 0 hn" and room: "summary_len hn + 400 \<le> SUMMARY_MAX"
  shows "\<exists>hn' m. pangea_startbets (int (x_N x * 2)) hn = Some hn' \<and> seat_ok x 0 hn' \<and> same_layer hn hn' \<and> p_hole hn' = p_hole hn
    \<and> hn_sent hn' = hn_sent hn @ [m] \<and> \<not> deal_cmd m \<and> summary_len hn' \<le> summary_len hn + 400"
proof -
  let ?N = "x_N x"
  have N: "0 < ?N" "?N \<le> 9" using ctxD(2,7) [OF ctx] by simp_all
  note s = seatD [OF seat]
  define h1 where "h1 = hn\<lparr>h_betstarted := (if h_betstarted hn = 0 then 1 else h_betstarted hn + 1), h_numactions := 0, h_cardi := int (?N * 2),
      h_actions := replicate (length (h_actions hn)) 0, h_turnis := replicate (length (h_turnis hn)) 0xff, h_undergun := (dp_button hn + 3) mod dp_N hn\<rparr>"
  have h1: "seat_ok x 0 h1" "summary_len h1 = summary_len hn" "p_outcards h1 = p_outcards hn" "p_xoverz h1 = p_xoverz hn" "p_hole h1 = p_hole hn"
      "hn_sent h1 = hn_sent hn" "dp_N h1 = ?N" using seat s(1) by (simp_all add: h1_def seat_ok_def)
  obtain h2 where h2: "pangea_checkantes h1 = Some h2" "seat_ok x 0 h2" "p_outcards h2 = p_outcards h1" "p_xoverz h2 = p_xoverz h1"
      "p_hole h2 = p_hole h1" "hn_sent h2 = hn_sent h1" "summary_len h2 \<le> summary_len h1 + 400"
    using checkantes_ok [OF ctx h1(1)] room h1(2) by auto
  let ?h3 = "h2\<lparr>h_snapshot := (h_snapshot h2)[?N := h_betsize h2]\<rparr>"
  have put: "aput (h_snapshot h2) (int ?N) (h_betsize h2) = Some ((h_snapshot h2)[?N := h_betsize h2])"
    using seatD(28) [OF h2(2)] N by (simp add: aput_nat)
  have h3: "seat_ok x 0 ?h3" using h2(2) by (simp add: seat_ok_def)
  let ?m = "\<lparr>m_cmd = ''turn'', m_dest = - 1, m_data = snapshot_payload ?h3, m_cardi = int (?N * 2), m_turni = int (h_undergun ?h3), m_active = None\<rparr>"
  have snd: "pangea_sendcmd ''turn'' (- 1) (snapshot_payload ?h3) (int (?N * 2)) (int (h_undergun ?h3)) ?h3 = Some (?h3\<lparr>hn_sent := hn_sent ?h3 @ [?m]\<rparr>)"
    using seat_send [OF ctx h3 N(1)] by simp
  have "\<not> (dp_N hn = 0 \<or> length (h_bets hn) < dp_N hn \<or> length (h_snapshot hn) < dp_N hn)" using s(1,28,29) N by simp
  then have "pangea_startbets (int (?N * 2)) hn = Some (?h3\<lparr>hn_sent := hn_sent ?h3 @ [?m]\<rparr>)"
    unfolding pangea_startbets_def Let_def h1_def [symmetric]
    using h1(7) h2(1) put snd seatD(1) [OF h2(2)] by (simp add: Let_def)
  moreover have "seat_ok x 0 (?h3\<lparr>hn_sent := hn_sent ?h3 @ [?m]\<rparr>)" using h3 by (simp add: seat_ok_def)
  ultimately show ?thesis using h1 h2
    by (intro exI [of _ "?h3\<lparr>hn_sent := hn_sent ?h3 @ [?m]\<rparr>"] exI [of _ ?m]) (simp add: same_layer_def deal_cmd_def)
qed

lemma facedown_ok:
  assumes ctx: "ctx_ok x \<sigma>" and seat: "seat_ok x d hn" and c: "length (c_data c) = 4" "c_senderind c = int sender" "sender < x_N x" "c_cardi c = int k" "k < x_N x * 2"
    and room: "d = 0 \<Longrightarrow> summary_len hn + 400 \<le> SUMMARY_MAX"
  shows "\<exists>hn' ms. pangea_facedown c hn = Some (0, hn') \<and> seat_ok x d hn' \<and> same_layer hn hn' \<and> p_hole hn' = p_hole hn
    \<and> hn_sent hn' = hn_sent hn @ ms \<and> filter deal_cmd ms = [] \<and> summary_len hn' \<le> summary_len hn + (if d = 0 then 400 else 0)"
proof -
  let ?N = "x_N x"
  have N: "?N \<le> 9" using ctxD(2) [OF ctx] .
  note s = seatD [OF seat]
  have g: "aget (h_havemasks hn) (int sender) = Some (h_havemasks hn ! sender)" using s(27) c(3) N by (simp add: aget_nat)
  obtain masks where m: "(if c_turni c > 0 then aput (h_havemasks hn) (c_senderind c) (h_havemasks hn ! sender OR push_bit (nat (c_cardi c)) 1)
      else Some (h_havemasks hn)) = Some masks" "length masks = 9"
    using s(27) c(2,3) N by (cases "c_turni c > 0") (simp_all add: aput_nat)
  let ?h = "hn\<lparr>h_havemasks := masks\<rparr>"
  have h: "seat_ok x d ?h" "\<not> length masks < dp_N hn" using seat m(2) s(1) N by (simp_all add: seat_ok_def)
  let ?go = "hn_slot ?h = pangea_slotA ?h \<and> length (filter (\<lambda>m. bitweight m = 2) (take (dp_N ?h) masks)) = dp_N ?h"
  have bit: "\<not> (c_turni c > 0 \<and> (c_cardi c < 0 \<or> 64 \<le> c_cardi c))" using c(4,5) N by simp
  have f: "pangea_facedown c hn = do { hn \<leftarrow> (if ?go then pangea_startbets (int (dp_N ?h * 2)) ?h else Some ?h); Some (0, hn) }"
    unfolding pangea_facedown_def if_not_P [OF bit] using h(2) by (simp add: c(1,2) g m Let_def split del: if_split)
  show ?thesis
  proof (cases ?go)
    case True
    then have d: "d = 0" using s(11) by (simp add: pangea_slotA_def)
    obtain hn' m where b: "pangea_startbets (int (?N * 2)) ?h = Some hn'" "seat_ok x 0 hn'" "same_layer ?h hn'" "p_hole hn' = p_hole ?h"
        "hn_sent hn' = hn_sent ?h @ [m]" "\<not> deal_cmd m" "summary_len hn' \<le> summary_len ?h + 400"
      using startbets_ok [OF ctx h(1) [unfolded d]] room [OF d] by auto
    then have "pangea_facedown c hn = Some (0, hn')" unfolding f if_P [OF True] using s(1) by simp
    then show ?thesis using b d by (intro exI [of _ hn'] exI [of _ "[m]"]) (simp add: same_layer_def)
  next
    case False
    then show ?thesis unfolding f if_not_P [OF False] using h(1) by (intro exI [of _ ?h] exI [of _ "[]"]) (simp add: same_layer_def)
  qed
qed

section \<open>Delivering a message\<close>

lemma poll_run:
  assumes ctx: "ctx_ok x \<sigma>" and seat: "seat_ok x i hn" and "sender < x_N x"
    and "poll_data (x_env x i) (32 * (x_N x * x_N x * x_n x)) (json_of sender m) = Some (Some d)"
  shows "pangea_poll (x_env x i) (json_of sender m) hn = run_handler (x_env x i) (m_cmd m)
    \<lparr>c_senderind = int sender, c_turni = m_turni m, c_cardi = m_cardi m, c_data = d, c_dest = m_dest m, c_active = m_active m\<rparr> hn"
  using assms(3,4) seatD(1,4,12) [OF seat] by (simp add: pangea_poll_def json_of_def)

text \<open>Payloads of the dealing that travel in hexadecimal fit the buffer of the receiver.\<close>

lemma poll_deck:
  assumes ctx: "ctx_ok x \<sigma>" and "m_cmd m \<noteq> ''preflop''" and "length (m_data m) = 32 * k" and "0 < k" and "k \<le> x_n x * x_N x"
  shows "poll_data (x_env x i) (32 * (x_N x * x_N x * x_n x)) (json_of sender m) = Some (Some (m_data m))"
proof (rule poll_hex [OF assms(2)])
  show "m_data m \<noteq> []" using assms(3,4) by auto
  have "x_n x * x_N x * 1 \<le> x_n x * x_N x * x_N x" using ctxD(7) [OF ctx] by (intro mult_le_mono2) simp
  with assms(5) have "k \<le> x_n x * x_N x * x_N x" by linarith
  then show "length (m_data m) \<le> 32 * (x_N x * x_N x * x_n x)" using assms(3) by (simp add: ac_simps)
  show "e_behind (x_env x i) \<noteq> []" by (rule ctxD(11) [OF ctx])
qed

lemma poll_final:
  assumes ctx: "ctx_ok x \<sigma>" and seat: "seat_ok x i hn" and p: "final_packet x (i, sender, m)"
  shows "\<exists>hn'. pangea_poll (x_env x i) (json_of sender m) hn = Some hn' \<and> seat_ok x i hn' \<and> same_layer hn hn' \<and> p_hole hn' = p_hole hn
    \<and> hn_sent hn' = hn_sent hn \<and> dp_summary hn' = dp_summary hn"
proof -
  have m: "sender < x_N x" "m_cmd m = ''final''" "length (m_data m) = 32 * (x_n x * x_N x)" using p by (simp_all add: final_packet_def)
  have k: "0 < x_n x * x_N x" using ctxD(3,7) [OF ctx] by simp
  have "poll_data (x_env x i) (32 * (x_N x * x_N x * x_n x)) (json_of sender m) = Some (Some (m_data m))"
    by (rule poll_deck [OF ctx _ m(3) k]) (use m(2) in simp_all)
  from poll_run [OF ctx seat m(1) this] obtain c where "pangea_poll (x_env x i) (json_of sender m) hn = map_option snd (pangea_final c hn)"
      "c_data c = m_data m" using m(2) by (simp add: run_handler_def)
  then show ?thesis using final_ok [OF ctx seat, of c] m(3) by auto
qed

lemma poll_card:
  assumes ctx: "ctx_ok x \<sigma>" and seat: "seat_ok x j hn" and p: "card_packet x c (j, sender, m)" and c: "c < x_N x * 2"
  shows "\<exists>hn' m' w. pangea_poll (x_env x j) (json_of sender m) hn = Some hn' \<and> seat_ok x j hn' \<and> same_layer hn hn'
    \<and> p_hole hn' = (p_hole hn) [c div x_N x := w] \<and> unat w = \<sigma> c \<and> hn_sent hn' = hn_sent hn @ [m'] \<and> facedown_msg c m'
    \<and> dp_summary hn' = dp_summary hn"
proof -
  have m: "sender < x_N x" "m_cmd m = ''card''" "length (m_data m) = 32 * x_N x" "receiver x c = j" "m_dest m = int j" "m_cardi m = int c"
      "peeled x 0 c j = Some (blocks (x_N x) (m_data m) ! 0)" using p by (auto simp: card_packet_def)
  have k: "x_N x \<le> x_n x * x_N x" using ctxD(3,7) [OF ctx] by simp
  have "poll_data (x_env x j) (32 * (x_N x * x_N x * x_n x)) (json_of sender m) = Some (Some (m_data m))"
    by (rule poll_deck [OF ctx _ m(3) ctxD(7) [OF ctx] k]) (use m(2) in simp)
  from poll_run [OF ctx seat m(1) this] have "pangea_poll (x_env x j) (json_of sender m) hn
      = map_option snd (pangea_card (x_curve x) (m_data m) (int c) (int j) hn)"
    using m(2,5,6) ctxD(9) [OF ctx] by (simp add: run_handler_def)
  then show ?thesis using card_ok [OF ctx seat c m(4,3,7)] by (auto simp: same_layer_def)
qed

lemma poll_facedown:
  assumes ctx: "ctx_ok x \<sigma>" and seat: "seat_ok x d hn" and p: "facedown_packet x (d, sender, m)"
    and room: "d = 0 \<Longrightarrow> summary_len hn + 400 \<le> SUMMARY_MAX"
  shows "\<exists>hn' ms. pangea_poll (x_env x d) (json_of sender m) hn = Some hn' \<and> seat_ok x d hn' \<and> same_layer hn hn' \<and> p_hole hn' = p_hole hn
    \<and> hn_sent hn' = hn_sent hn @ ms \<and> filter deal_cmd ms = [] \<and> summary_len hn' \<le> summary_len hn + (if d = 0 then 400 else 0)"
proof -
  obtain k where m: "sender < x_N x" "m_cmd m = ''facedown''" "length (m_data m) = 4" "m_cardi m = int k" "k < x_N x * 2"
    using p by (auto simp: facedown_packet_def facedown_msg_def)
  have "1 \<le> x_N x * x_N x * x_n x" using ctxD(3,7) [OF ctx] by (simp add: Suc_le_eq)
  then have "length (m_data m) \<le> 32 * (x_N x * x_N x * x_n x)" using m(3) by linarith
  then have "poll_data (x_env x d) (32 * (x_N x * x_N x * x_n x)) (json_of sender m) = Some (Some (m_data m))"
    using poll_hex [of m "32 * (x_N x * x_N x * x_n x)" "x_env x d" sender] m(2,3) ctxD(11) [OF ctx] by force
  from poll_run [OF ctx seat m(1) this] have "pangea_poll (x_env x d) (json_of sender m) hn = map_option snd (pangea_facedown
      \<lparr>c_senderind = int sender, c_turni = m_turni m, c_cardi = m_cardi m, c_data = m_data m, c_dest = m_dest m, c_active = m_active m\<rparr> hn)"
    using m(2) by (simp add: run_handler_def)
  then show ?thesis
    using facedown_ok [OF ctx seat, of "\<lparr>c_senderind = int sender, c_turni = m_turni m, c_cardi = m_cardi m, c_data = m_data m, c_dest = m_dest m, c_active = m_active m\<rparr>" sender k] m room
    by fastforce
qed

lemma poll_preflop:
  assumes ctx: "ctx_ok x \<sigma>" and seat: "seat_ok x i hn" and p: "preflop_packet x i (i, sender, m)"
  shows "\<exists>data. preflop_data x i data \<and> pangea_poll (x_env x i) (json_of sender m) hn = map_option snd (pangea_preflop (x_curve x) data (int i) hn)"
proof -
  obtain data where m: "sender < x_N x" "m_cmd m = ''preflop''" "m_dest m = int i" "preflop_data x i data"
      "\<forall>rest. pangea_unzbuf (32 * (x_N x * x_N x * x_n x)) (map (\<lambda>b. char_of (unat b)) (m_data m) @ CHR 0x00 # rest) (length (m_data m)) = Some data"
    using p by (auto simp: preflop_packet_def)
  have "poll_data (x_env x i) (32 * (x_N x * x_N x * x_n x)) (json_of sender m) = Some (Some data)"
    using m(2,5) by (simp add: poll_data_def json_of_def)
  from poll_run [OF ctx seat m(1) this] show ?thesis using m(2-4) ctxD(9) [OF ctx] by (intro exI [of _ data]) (simp add: run_handler_def)
qed

lemma poll_encoded:
  assumes ctx: "ctx_ok x \<sigma>" and seat: "seat_ok x i hn" and p: "encoded_packet x i (i, sender, m)" and i: "0 < i" "i < x_N x"
  shows "pangea_poll (x_env x i) (json_of sender m) hn = map_option snd
    (pangea_encoded (x_curve x) (x_shares x) (e_rnd (x_env x i)) (e_secrets (x_env x i)) (concat (deck x (i - 1))) (int i) hn)"
proof -
  have m: "sender < x_N x" "m_cmd m = ''encoded''" "m_dest m = int i" "m_data m = concat (deck x (i - 1))" using p by (simp_all add: encoded_packet_def)
  have k: "0 < x_n x * x_N x" using ctxD(3,7) [OF ctx] by simp
  have "i - 1 < x_N x" using i by simp
  from deck_bytes(1) [OF ctx this] have len: "length (m_data m) = 32 * (x_n x * x_N x)" using m(4) by simp
  have "poll_data (x_env x i) (32 * (x_N x * x_N x * x_n x)) (json_of sender m) = Some (Some (m_data m))"
    by (rule poll_deck [OF ctx _ len k]) (use m(2) in simp_all)
  from poll_run [OF ctx seat m(1) this] show ?thesis using m(2-4) ctxD(9,10) [OF ctx] by (simp add: run_handler_def)
qed

section \<open>Weights\<close>

text \<open>The number of deliveries that a message in flight can still lead to.\<close>

definition weight :: "nat \<Rightarrow> packet \<Rightarrow> nat" where
  "weight N p = (case p of (d, _, m) \<Rightarrow>
     if m_cmd m = ''encoded'' then 5 * N + 2 * N * N - d else if m_cmd m = ''preflop'' then 2 * N + 2 * N * N + d
     else if m_cmd m = ''card'' then N + 1 else 1)"

text \<open>The number of \<open>facedown\<close> messages to the host that it can still lead to; each may open the betting.\<close>

definition host_weight :: "nat \<Rightarrow> packet \<Rightarrow> nat" where
  "host_weight N p = (case p of (d, _, m) \<Rightarrow>
     if m_cmd m = ''encoded'' \<or> m_cmd m = ''preflop'' then 2 * N else if m_cmd m = ''card'' then 1
     else if m_cmd m = ''facedown'' \<and> d = 0 then 1 else 0)"

lemma weights:
  "encoded_packet x i p \<Longrightarrow> weight N p = 5 * N + 2 * N * N - i" "preflop_packet x i p \<Longrightarrow> weight N p = 2 * N + 2 * N * N + i"
  "final_packet x p \<Longrightarrow> weight N p = 1" "card_packet x c p \<Longrightarrow> weight N p = N + 1" "facedown_packet x p \<Longrightarrow> weight N p = 1"
  by (cases p, auto simp: weight_def encoded_packet_def preflop_packet_def final_packet_def card_packet_def facedown_packet_def facedown_msg_def)+

lemma host_weights:
  "encoded_packet x i p \<Longrightarrow> host_weight N p = 2 * N" "preflop_packet x i p \<Longrightarrow> host_weight N p = 2 * N"
  "final_packet x p \<Longrightarrow> host_weight N p = 0" "card_packet x c p \<Longrightarrow> host_weight N p = 1"
  "facedown_packet x p \<Longrightarrow> host_weight N p = of_bool (fst p = 0)"
  by (cases p, auto simp: host_weight_def encoded_packet_def preflop_packet_def final_packet_def card_packet_def facedown_packet_def facedown_msg_def)+

lemma packets_append: "packets N d (ms @ ms') = packets N d ms @ packets N d ms'"
  by (simp add: packets_def)

lemma packets_filter: "filter (\<lambda>(_, _, m). deal_cmd m) (packets N d ms) = packets N d (filter deal_cmd ms)"
  by (induction ms) (auto simp: packets_def filter_map o_def)

lemma packets_one: "m_dest m = int k \<Longrightarrow> packets N d [m] = [(k, d, m)]"
  by (simp add: packets_def receivers_def)

lemma packets_broadcast: "m_dest m = - 1 \<Longrightarrow> packets N d [m] = map (\<lambda>r. (r, d, m)) [0..<N]"
  by (simp add: packets_def receivers_def)

lemma packets_mem: "p \<in> set (packets N d ms) \<longleftrightarrow> (\<exists>m \<in> set ms. p \<in> set (packets N d [m]))"
  by (auto simp: packets_def)

lemma packets_sum: "(\<Sum>p \<leftarrow> packets N d ms. f p) = (\<Sum>m \<leftarrow> ms. \<Sum>p \<leftarrow> packets N d [m]. f p)"
proof (induction ms)
  case (Cons m ms)
  then show ?case using packets_append [of N d "[m]" ms] by simp
qed (simp add: packets_def)

lemma sum_ones: "\<forall>p \<in> set ps. f p = 1 \<Longrightarrow> (\<Sum>p \<leftarrow> ps. f p) = length ps"
  by (induction ps) auto

lemma sum_bound: "\<forall>m \<in> set ms. f m \<le> k \<Longrightarrow> (\<Sum>m \<leftarrow> ms. f m) \<le> length ms * (k :: nat)"
  by (induction ms) auto

text \<open>The copies of a \<open>facedown\<close> message.\<close>

lemma facedown_packets:
  assumes "0 < x_N x" and "facedown_msg c m" and "c < x_N x * 2" and "d < x_N x"
  shows "\<forall>p \<in> set (packets (x_N x) d [m]). facedown_packet x p" "(\<Sum>p \<leftarrow> packets (x_N x) d [m]. weight (x_N x) p) = x_N x"
    "(\<Sum>p \<leftarrow> packets (x_N x) d [m]. host_weight (x_N x) p) = 1" "deal_cmd m"
proof -
  let ?N = "x_N x"
  have pk: "packets ?N d [m] = map (\<lambda>r. (r, d, m)) [0..<?N]" using assms(2) by (simp add: facedown_msg_def packets_broadcast)
  show all: "\<forall>p \<in> set (packets ?N d [m]). facedown_packet x p" using assms(2-4) by (auto simp: pk facedown_packet_def)
  then have "\<forall>p \<in> set (packets ?N d [m]). weight ?N p = 1" using weights(5) by blast
  from sum_ones [OF this] show "(\<Sum>p \<leftarrow> packets ?N d [m]. weight ?N p) = ?N" by (simp add: pk)
  have "host_weight ?N (r, d, m) = of_bool (r = 0)" for r using assms(2) by (simp add: host_weight_def facedown_msg_def)
  then have "(\<Sum>p \<leftarrow> packets ?N d [m]. host_weight ?N p) = (\<Sum>r \<leftarrow> [0..<?N]. of_bool (r = 0))" by (simp add: pk o_def)
  also have "\<dots> = 1" using assms(1) by (subst upt_conv_Cons) (simp_all add: sum_list_0)
  finally show "(\<Sum>p \<leftarrow> packets ?N d [m]. host_weight ?N p) = 1" .
  show "deal_cmd m" using assms(2) by (simp add: facedown_msg_def deal_cmd_def)
qed

lemma dealt_packets:
  assumes "dealt x \<sigma> [0..<x_N x * 2] hn hn' ms" and N: "1 < x_N x"
  shows "\<forall>p \<in> set (packets (x_N x) 1 (filter deal_cmd ms)). (\<exists>c < x_N x * 2. card_packet x c p) \<or> facedown_packet x p"
    "\<forall>c < x_N x * 2. receiver x c \<noteq> 1 \<longrightarrow> (\<exists>p \<in> set (packets (x_N x) 1 (filter deal_cmd ms)). card_packet x c p)"
    "(\<Sum>p \<leftarrow> packets (x_N x) 1 (filter deal_cmd ms). weight (x_N x) p) \<le> 2 * x_N x + 2 * x_N x * x_N x"
    "(\<Sum>p \<leftarrow> packets (x_N x) 1 (filter deal_cmd ms). host_weight (x_N x) p) \<le> 2 * x_N x"
proof -
  let ?ms = "filter deal_cmd ms" let ?N = "x_N x"
  have c: "\<forall>m \<in> set ?ms. \<exists>c < ?N * 2. card_packet x c (receiver x c, 1, m) \<or> facedown_msg c m"
    using assms(1) unfolding dealt_def by (metis atLeastLessThan_iff set_upt)
  have one: "packets ?N 1 [m] = [(receiver x c, 1, m)]" if "card_packet x c (receiver x c, 1, m)" for c m
    using that packets_one by (simp add: card_packet_def)
  have len: "length ?ms \<le> ?N * 2" using assms(1) by (simp add: dealt_def)
  have each: "(\<forall>p \<in> set (packets ?N 1 [m]). (\<exists>c < ?N * 2. card_packet x c p) \<or> facedown_packet x p)
      \<and> (\<Sum>p \<leftarrow> packets ?N 1 [m]. weight ?N p) \<le> ?N + 1 \<and> (\<Sum>p \<leftarrow> packets ?N 1 [m]. host_weight ?N p) \<le> 1" if "m \<in> set ?ms" for m
  proof -
    from bspec [OF c that] obtain c where "c < ?N * 2" "card_packet x c (receiver x c, 1, m) \<or> facedown_msg c m" by blast
    then consider (card) "card_packet x c (receiver x c, 1, m)" "c < ?N * 2" | (down) "facedown_msg c m" "c < ?N * 2" by blast
    then show ?thesis
    proof cases
      case card
      then show ?thesis using one weights(4) [OF card(1), of ?N] host_weights(4) [OF card(1), of ?N] by auto
    next
      case down
      moreover have "0 < ?N" using N by simp
      ultimately show ?thesis using facedown_packets [OF _ down N] by auto
    qed
  qed
  show "\<forall>p \<in> set (packets ?N 1 ?ms). (\<exists>c < ?N * 2. card_packet x c p) \<or> facedown_packet x p"
  proof
    fix p assume "p \<in> set (packets ?N 1 ?ms)"
    then obtain m where "m \<in> set ?ms" "p \<in> set (packets ?N 1 [m])" unfolding packets_mem [of p ?N 1 ?ms] ..
    then show "(\<exists>c < ?N * 2. card_packet x c p) \<or> facedown_packet x p" using each by blast
  qed
  show "\<forall>c < ?N * 2. receiver x c \<noteq> 1 \<longrightarrow> (\<exists>p \<in> set (packets ?N 1 ?ms). card_packet x c p)"
  proof clarify
    fix c' assume "c' < ?N * 2" "receiver x c' \<noteq> 1"
    moreover have "\<forall>c \<in> set [0..<?N * 2]. receiver x c \<noteq> 1 \<longrightarrow> (\<exists>m \<in> set ?ms. card_packet x c (receiver x c, 1, m))"
      using assms(1) unfolding dealt_def by blast
    ultimately obtain m where m: "m \<in> set ?ms" "card_packet x c' (receiver x c', 1, m)" by auto
    then have "(receiver x c', 1, m) \<in> set (packets ?N 1 ?ms)" using one [OF m(2)] packets_mem [of _ ?N 1 ?ms] by force
    with m(2) show "\<exists>p \<in> set (packets ?N 1 ?ms). card_packet x c' p" by blast
  qed
  have "(\<Sum>p \<leftarrow> packets ?N 1 ?ms. weight ?N p) \<le> length ?ms * (?N + 1)" unfolding packets_sum [of _ ?N 1 ?ms] by (rule sum_bound) (use each in blast)
  also have "\<dots> \<le> ?N * 2 * (?N + 1)" using len by (rule mult_le_mono1)
  finally show "(\<Sum>p \<leftarrow> packets ?N 1 ?ms. weight ?N p) \<le> 2 * ?N + 2 * ?N * ?N" by (simp add: algebra_simps)
  have "(\<Sum>p \<leftarrow> packets ?N 1 ?ms. host_weight ?N p) \<le> length ?ms * 1" unfolding packets_sum [of _ ?N 1 ?ms] by (rule sum_bound) (use each in blast)
  then show "(\<Sum>p \<leftarrow> packets ?N 1 ?ms. host_weight ?N p) \<le> 2 * ?N" using len by simp
qed

section \<open>The invariant of the dealing\<close>

definition nodes_ok :: "'f deal_ctx \<Rightarrow> server_node list \<Rightarrow> bool" where
  "nodes_ok x nodes \<longleftrightarrow> length nodes = x_N x \<and> (\<forall>i < x_N x. seat_ok x i (nodes ! i) \<and> hn_sent (nodes ! i) = [])"

definition all_layered :: "'f deal_ctx \<Rightarrow> nat \<Rightarrow> server_node list \<Rightarrow> bool" where
  "all_layered x n nodes \<longleftrightarrow> (\<forall>i. 0 < i \<and> i < n \<longrightarrow> layered x i (nodes ! i))"

text \<open>The three phases: the deck goes round, the hole cards come back, they are handed out.\<close>

definition encoding :: "'f deal_ctx \<Rightarrow> server_node list \<Rightarrow> packet list \<Rightarrow> bool" where
  "encoding x nodes flight \<longleftrightarrow> (\<exists>i p. 0 < i \<and> i < x_N x \<and> flight = [p] \<and> encoded_packet x i p \<and> all_layered x i nodes)"

definition passing :: "'f deal_ctx \<Rightarrow> server_node list \<Rightarrow> packet list \<Rightarrow> bool" where
  "passing x nodes flight \<longleftrightarrow> all_layered x (x_N x) nodes \<and> (\<exists>i ps p qs. 0 < i \<and> i < x_N x - 1 \<and> flight = ps @ p # qs
     \<and> preflop_packet x i p \<and> (\<forall>q \<in> set (ps @ qs). final_packet x q))"

definition handing :: "'f deal_ctx \<Rightarrow> (nat \<Rightarrow> nat) \<Rightarrow> server_node list \<Rightarrow> packet list \<Rightarrow> bool" where
  "handing x \<sigma> nodes flight \<longleftrightarrow> all_layered x (x_N x) nodes
     \<and> (\<forall>q \<in> set flight. final_packet x q \<or> (\<exists>c < x_N x * 2. card_packet x c q) \<or> facedown_packet x q)
     \<and> (\<forall>c < x_N x * 2. has_card x \<sigma> nodes c \<or> (\<exists>q \<in> set flight. card_packet x c q))"

definition deal_inv :: "'f deal_ctx \<Rightarrow> (nat \<Rightarrow> nat) \<Rightarrow> deal_net \<Rightarrow> bool" where
  "deal_inv x \<sigma> s \<longleftrightarrow> nodes_ok x (n_nodes s)
     \<and> (encoding x (n_nodes s) (n_flight s) \<or> passing x (n_nodes s) (n_flight s) \<or> handing x \<sigma> (n_nodes s) (n_flight s))"

definition work :: "'f deal_ctx \<Rightarrow> deal_net \<Rightarrow> nat" where
  "work x s = (\<Sum>p \<leftarrow> n_flight s. weight (x_N x) p)"

definition host_work :: "'f deal_ctx \<Rightarrow> deal_net \<Rightarrow> nat" where
  "host_work x s = (\<Sum>p \<leftarrow> n_flight s. host_weight (x_N x) p)"

text \<open>The summary of the host has room for the antes and blinds of all these messages.\<close>

definition summary_room :: "'f deal_ctx \<Rightarrow> deal_net \<Rightarrow> bool" where
  "summary_room x s \<longleftrightarrow> summary_len (n_nodes s ! 0) + 400 * host_work x s \<le> SUMMARY_MAX"

definition shrinks :: "'f deal_ctx \<Rightarrow> deal_net \<Rightarrow> deal_net \<Rightarrow> bool" where
  "shrinks x s t \<longleftrightarrow> work x t < work x s \<and> summary_len (n_nodes t ! 0) + 400 * host_work x t \<le> summary_len (n_nodes s ! 0) + 400 * host_work x s"

lemma summary_room_shrinks: "summary_room x s \<Longrightarrow> shrinks x s t \<Longrightarrow> summary_room x t"
  by (simp add: summary_room_def shrinks_def)

lemma seat_clear [simp]: "seat_ok x i (hn\<lparr>hn_sent := ms\<rparr>) = seat_ok x i hn" "layered x i (hn\<lparr>hn_sent := ms\<rparr>) = layered x i hn"
  by (simp_all add: seat_ok_def layered_def)

lemma nth_put: "i < length xs \<Longrightarrow> xs [d := v] ! i = (if d = i then v else xs ! i)"
  by auto

lemma nodes_put: "nodes_ok x nodes \<Longrightarrow> seat_ok x d hn \<Longrightarrow> nodes_ok x (nodes [d := hn\<lparr>hn_sent := []\<rparr>])"
  by (auto simp: nodes_ok_def nth_put)

lemma layered_put:
  "all_layered x n nodes \<Longrightarrow> length nodes = x_N x \<Longrightarrow> n \<le> x_N x \<Longrightarrow> 0 < d \<and> d < n \<longrightarrow> layered x d hn \<Longrightarrow> all_layered x n (nodes [d := hn\<lparr>hn_sent := []\<rparr>])"
  by (auto simp: all_layered_def nth_put)

lemma layered_same: "same_layer hn hn' \<Longrightarrow> layered x i hn \<Longrightarrow> layered x i hn'"
  by (simp add: same_layer_def layered_def)

text \<open>A delivery, given what the receiver answers.\<close>

lemma deliver_eq:
  assumes "n_flight s = ps @ (d, sender, m) # qs" and "d < length (n_nodes s)" and "pangea_poll (env d) (json_of sender m) (n_nodes s ! d) = Some hn"
  shows "\<exists>later. deliver env (length ps) s = Some \<lparr>n_nodes = (n_nodes s) [d := hn\<lparr>hn_sent := []\<rparr>],
    n_flight = ps @ qs @ packets (length (n_nodes s)) d (filter deal_cmd (hn_sent hn)), n_later = later\<rparr>"
  using assms by (simp add: deliver_def aget_nat Let_def packets_filter)

lemma summary_put:
  assumes "0 < length nodes" and "dp_summary hn = dp_summary (nodes ! d)"
  shows "dp_summary (nodes [d := hn\<lparr>hn_sent := []\<rparr>] ! 0) = dp_summary (nodes ! 0)"
  using assms by (cases "d = 0") simp_all

text \<open>The final deck is only stored.\<close>

lemma deliver_final:
  assumes ctx: "ctx_ok x \<sigma>" and ok: "nodes_ok x (n_nodes s)" and fl: "n_flight s = ps @ p # qs" and p: "final_packet x p"
  shows "\<exists>d hn later. deliver (x_env x) (length ps) s = Some \<lparr>n_nodes = (n_nodes s) [d := hn\<lparr>hn_sent := []\<rparr>], n_flight = ps @ qs, n_later = later\<rparr>
    \<and> seat_ok x d hn \<and> same_layer (n_nodes s ! d) hn \<and> p_hole hn = p_hole (n_nodes s ! d) \<and> d < x_N x
    \<and> dp_summary ((n_nodes s) [d := hn\<lparr>hn_sent := []\<rparr>] ! 0) = dp_summary (n_nodes s ! 0)"
proof -
  obtain d sender m where pd: "p = (d, sender, m)" by (cases p)
  have d: "d < x_N x" using p pd by (simp add: final_packet_def)
  have n: "length (n_nodes s) = x_N x" "seat_ok x d (n_nodes s ! d)" "hn_sent (n_nodes s ! d) = []" using ok d by (simp_all add: nodes_ok_def)
  obtain hn where h: "pangea_poll (x_env x d) (json_of sender m) (n_nodes s ! d) = Some hn" "seat_ok x d hn" "same_layer (n_nodes s ! d) hn"
      "p_hole hn = p_hole (n_nodes s ! d)" "hn_sent hn = []" "dp_summary hn = dp_summary (n_nodes s ! d)" using poll_final [OF ctx n(2), of sender m] p pd n(3) by auto
  obtain later where "deliver (x_env x) (length ps) s = Some \<lparr>n_nodes = (n_nodes s) [d := hn\<lparr>hn_sent := []\<rparr>], n_flight = ps @ qs, n_later = later\<rparr>"
    using deliver_eq [of s ps d sender m qs "x_env x" hn] fl pd d n(1) h(1,5) by (auto simp: packets_def)
  moreover have "0 < length (n_nodes s)" using n(1) d by simp
  ultimately show ?thesis using h d summary_put [of "n_nodes s" hn d] by blast
qed

lemma has_card_put:
  assumes "length nodes = x_N x" and "d < x_N x" and "p_hole hn = p_hole (nodes ! d)"
  shows "has_card x \<sigma> (nodes [d := hn\<lparr>hn_sent := []\<rparr>]) c = has_card x \<sigma> nodes c"
  using assms by (simp add: has_card_def nth_list_update)

lemma shrinks_split:
  assumes "n_flight s = ps @ p # qs" and "n_flight t = ps @ qs @ out" and "(\<Sum>p \<leftarrow> out. weight (x_N x) p) < weight (x_N x) p"
    and "(\<Sum>p \<leftarrow> out. host_weight (x_N x) p) + k \<le> host_weight (x_N x) p" and "summary_len (n_nodes t ! 0) \<le> summary_len (n_nodes s ! 0) + 400 * k"
  shows "shrinks x s t"
  using assms by (simp add: shrinks_def work_def host_work_def)

lemma dealt_hands:
  assumes ctx: "ctx_ok x \<sigma>" and ok: "length nodes = x_N x" and lay: "all_layered x (x_N x) nodes" and l1: "layered x 1 hn"
    and d: "dealt x \<sigma> [0..<x_N x * 2] h0 hn ms" and fs: "\<forall>q \<in> set fs. final_packet x q"
  shows "handing x \<sigma> (nodes [1 := hn\<lparr>hn_sent := []\<rparr>]) (fs @ packets (x_N x) 1 (filter deal_cmd ms))"
proof -
  have N: "1 < x_N x" using ctxD(1) [OF ctx] by simp
  note pk = dealt_packets [OF d N]
  have "all_layered x (x_N x) (nodes [1 := hn\<lparr>hn_sent := []\<rparr>])" by (rule layered_put [OF lay ok]) (use l1 in simp_all)
  moreover have "has_card x \<sigma> (nodes [1 := hn\<lparr>hn_sent := []\<rparr>]) c" if "c < x_N x * 2" "receiver x c = 1" for c
    using d that N ok by (simp add: dealt_def has_card_def)
  ultimately show ?thesis unfolding handing_def using pk(1,2) fs by (metis UnE UnI2 set_append)
qed

lemma handing_final:
  assumes ctx: "ctx_ok x \<sigma>" and ok: "nodes_ok x (n_nodes s)" and h: "handing x \<sigma> (n_nodes s) (n_flight s)" and k: "n_flight s = ps @ p # qs"
    and p: "final_packet x p"
  shows "\<exists>t. deliver (x_env x) (length ps) s = Some t \<and> deal_inv x \<sigma> t \<and> shrinks x s t"
proof -
  let ?N = "x_N x"
  have len: "length (n_nodes s) = ?N" and lay: "all_layered x ?N (n_nodes s)" using ok h by (simp_all add: nodes_ok_def handing_def)
  obtain d hn later where dl: "deliver (x_env x) (length ps) s = Some \<lparr>n_nodes = (n_nodes s) [d := hn\<lparr>hn_sent := []\<rparr>], n_flight = ps @ qs, n_later = later\<rparr>"
      (is "_ = Some ?t") "seat_ok x d hn" "same_layer (n_nodes s ! d) hn" "p_hole hn = p_hole (n_nodes s ! d)" "d < ?N"
      "dp_summary ((n_nodes s) [d := hn\<lparr>hn_sent := []\<rparr>] ! 0) = dp_summary (n_nodes s ! 0)"
    using deliver_final [OF ctx ok k p] by auto
  have "all_layered x ?N (n_nodes ?t)" using layered_put [OF lay len, of d hn] lay layered_same [OF dl(3)] by (auto simp: all_layered_def)
  moreover have "\<not> card_packet x c p" for c using p by (cases p) (auto simp: card_packet_def final_packet_def)
  ultimately have "handing x \<sigma> (n_nodes ?t) (n_flight ?t)"
    using h k has_card_put [OF len dl(5,4)] unfolding handing_def by auto
  moreover have "shrinks x s ?t" by (rule shrinks_split [OF k, of _ "[]" _ 0]) (use weights(3) [OF p] host_weights(3) [OF p] dl(6) in simp_all)
  ultimately show ?thesis using dl(1) nodes_put [OF ok dl(2)] unfolding deal_inv_def by auto
qed

text \<open>A player stores its card and keeps the one that it has.\<close>

lemma has_card_stored:
  assumes len: "length nodes = x_N x" "length (p_hole (nodes ! d)) = 2" and d: "d = receiver x c" "d < x_N x"
    and hn: "p_hole hn = (p_hole (nodes ! d)) [c div x_N x := w]" "unat w = \<sigma> c" and c: "c < x_N x * 2"
  shows "has_card x \<sigma> (nodes [d := hn\<lparr>hn_sent := []\<rparr>]) c" "has_card x \<sigma> nodes c' \<Longrightarrow> has_card x \<sigma> (nodes [d := hn\<lparr>hn_sent := []\<rparr>]) c'"
proof -
  have sel: "c div x_N x < 2" using c by (simp add: less_mult_imp_div_less mult.commute)
  show own: "has_card x \<sigma> (nodes [d := hn\<lparr>hn_sent := []\<rparr>]) c" using hn d sel len by (simp add: has_card_def)
  show "has_card x \<sigma> (nodes [d := hn\<lparr>hn_sent := []\<rparr>]) c'" if h: "has_card x \<sigma> nodes c'"
  proof (cases "receiver x c' = d \<and> c' \<noteq> c")
    case True
    then have "c' div x_N x \<noteq> c div x_N x" using receiver_inj [of x c' c] d(1) by auto
    then show ?thesis using h True hn(1) d(2) len by (simp add: has_card_def)
  next
    case False
    then show ?thesis using h own by (cases "c' = c") (auto simp: has_card_def)
  qed
qed

lemma handing_card:
  assumes ctx: "ctx_ok x \<sigma>" and ok: "nodes_ok x (n_nodes s)" and h: "handing x \<sigma> (n_nodes s) (n_flight s)" and k: "n_flight s = ps @ p # qs"
    and c: "c < x_N x * 2" "card_packet x c p"
  shows "\<exists>t. deliver (x_env x) (length ps) s = Some t \<and> deal_inv x \<sigma> t \<and> shrinks x s t"
proof -
  let ?N = "x_N x"
  obtain d sender m where pd: "p = (d, sender, m)" by (cases p)
  have len: "length (n_nodes s) = ?N" and lay: "all_layered x ?N (n_nodes s)" using ok h by (simp_all add: nodes_ok_def handing_def)
  have dr: "d = receiver x c" "d < ?N" using c(2) pd receiver_less [OF ctxD(7) [OF ctx]] by (simp_all add: card_packet_def)
  have n: "seat_ok x d (n_nodes s ! d)" "hn_sent (n_nodes s ! d) = []" using ok dr(2) by (simp_all add: nodes_ok_def)
  obtain hn m' w where hn: "pangea_poll (x_env x d) (json_of sender m) (n_nodes s ! d) = Some hn" "seat_ok x d hn" "same_layer (n_nodes s ! d) hn"
      "p_hole hn = (p_hole (n_nodes s ! d)) [c div ?N := w]" "unat w = \<sigma> c" "hn_sent hn = [m']" "facedown_msg c m'"
      "dp_summary hn = dp_summary (n_nodes s ! d)"
    using poll_card [OF ctx n(1) c(2) [unfolded pd] c(1)] n(2) by auto
  note fd = facedown_packets [where x = x, OF ctxD(7) [OF ctx] hn(7) c(1) dr(2)]
  obtain later where dl: "deliver (x_env x) (length ps) s = Some \<lparr>n_nodes = (n_nodes s) [d := hn\<lparr>hn_sent := []\<rparr>], n_flight = ps @ qs @ packets ?N d [m'], n_later = later\<rparr>"
      (is "_ = Some ?t") using deliver_eq [of s ps d sender m qs "x_env x" hn] k pd dr(2) len hn(1,6) fd(4) by auto
  note got = has_card_stored [where \<sigma> = \<sigma>, OF len seatD(22) [OF n(1)] dr hn(4,5) c(1)]
  have one: "card_packet x c' p \<Longrightarrow> c' = c" for c' using c(2) pd by (simp add: card_packet_def)
  have "all_layered x ?N (n_nodes ?t)" using layered_put [OF lay len, of d hn] lay layered_same [OF hn(3)] by (auto simp: all_layered_def)
  moreover have "has_card x \<sigma> (n_nodes ?t) c' \<or> (\<exists>q \<in> set (n_flight ?t). card_packet x c' q)" if "c' < ?N * 2" for c'
  proof (cases "card_packet x c' p")
    case True
    then show ?thesis using one got(1) by simp
  next
    case False
    then show ?thesis using h k that got(2) unfolding handing_def by auto
  qed
  ultimately have "handing x \<sigma> (n_nodes ?t) (n_flight ?t)" using h k fd(1) unfolding handing_def by auto
  moreover have "shrinks x s ?t"
    by (rule shrinks_split [OF k, of _ "packets ?N d [m']" _ 0])
      (use weights(4) [OF c(2)] host_weights(4) [OF c(2)] fd(2,3) summary_put [OF _ hn(8)] len dr(2) in simp_all)
  ultimately show ?thesis using dl nodes_put [OF ok hn(2)] unfolding deal_inv_def by auto
qed

lemma handing_facedown:
  assumes ctx: "ctx_ok x \<sigma>" and ok: "nodes_ok x (n_nodes s)" and h: "handing x \<sigma> (n_nodes s) (n_flight s)" and k: "n_flight s = ps @ p # qs"
    and p: "facedown_packet x p" and room: "summary_room x s"
  shows "\<exists>t. deliver (x_env x) (length ps) s = Some t \<and> deal_inv x \<sigma> t \<and> shrinks x s t"
proof -
  let ?N = "x_N x"
  obtain d sender m where pd: "p = (d, sender, m)" by (cases p)
  have d: "d < ?N" using p pd by (simp add: facedown_packet_def)
  have len: "length (n_nodes s) = ?N" and lay: "all_layered x ?N (n_nodes s)" using ok h by (simp_all add: nodes_ok_def handing_def)
  have n: "seat_ok x d (n_nodes s ! d)" "hn_sent (n_nodes s ! d) = []" using ok d by (simp_all add: nodes_ok_def)
  have "d = 0 \<Longrightarrow> summary_len (n_nodes s ! d) + 400 \<le> SUMMARY_MAX"
    using room k host_weights(5) [OF p, of ?N] pd by (simp add: summary_room_def host_work_def)
  from poll_facedown [OF ctx n(1) p [unfolded pd] this] obtain hn ms where
    hn: "pangea_poll (x_env x d) (json_of sender m) (n_nodes s ! d) = Some hn" "seat_ok x d hn" "same_layer (n_nodes s ! d) hn"
      "p_hole hn = p_hole (n_nodes s ! d)" "hn_sent hn = ms" "filter deal_cmd ms = []"
      "summary_len hn \<le> summary_len (n_nodes s ! d) + (if d = 0 then 400 else 0)" using n(2) by auto
  obtain later where dl: "deliver (x_env x) (length ps) s = Some \<lparr>n_nodes = (n_nodes s) [d := hn\<lparr>hn_sent := []\<rparr>], n_flight = ps @ qs, n_later = later\<rparr>"
      (is "_ = Some ?t") using deliver_eq [of s ps d sender m qs "x_env x" hn] k pd d len hn(1,5,6) by (auto simp: packets_def)
  have "all_layered x ?N (n_nodes ?t)" using layered_put [OF lay len, of d hn] lay layered_same [OF hn(3)] by (auto simp: all_layered_def)
  moreover have "\<not> card_packet x c p" for c using p by (cases p) (auto simp: card_packet_def facedown_packet_def facedown_msg_def)
  ultimately have "handing x \<sigma> (n_nodes ?t) (n_flight ?t)"
    using h k has_card_put [OF len d hn(4)] unfolding handing_def by auto
  moreover have "summary_len (n_nodes ?t ! 0) \<le> summary_len (n_nodes s ! 0) + 400 * of_bool (d = 0)"
    using hn(7) len d by (cases "d = 0") simp_all
  then have "shrinks x s ?t"
    by (intro shrinks_split [OF k, of _ "[]" _ "of_bool (d = 0)"]) (use weights(5) [OF p] host_weights(5) [OF p] pd in simp_all)
  ultimately show ?thesis using dl nodes_put [OF ok hn(2)] unfolding deal_inv_def by auto
qed

lemma step_handing:
  assumes "ctx_ok x \<sigma>" and "nodes_ok x (n_nodes s)" and "handing x \<sigma> (n_nodes s) (n_flight s)" and "n_flight s = ps @ p # qs" and "summary_room x s"
  shows "\<exists>t. deliver (x_env x) (length ps) s = Some t \<and> deal_inv x \<sigma> t \<and> shrinks x s t"
  using handing_final [OF assms(1-4)] handing_card [OF assms(1-4)] handing_facedown [OF assms(1-4) _ assms(5)] assms(3,4) by (auto simp: handing_def)

lemma split_twice:
  assumes "xs @ a # ys = xs' @ b # ys'"
  shows "xs = xs' \<and> a = b \<and> ys = ys' \<or> (\<exists>zs. xs = xs' @ b # zs \<and> ys' = zs @ a # ys) \<or> (\<exists>zs. xs' = xs @ a # zs \<and> ys = zs @ b # ys')"
  using assms by (auto simp: append_eq_append_conv2 append_eq_Cons_conv Cons_eq_append_conv)

text \<open>A player who takes its layer off, and is not the second player, passes the hole cards on.\<close>

lemma passed_on:
  assumes ctx: "ctx_ok x \<sigma>" and ok: "nodes_ok x nodes" and lay: "all_layered x (x_N x) (nodes [i := hn\<lparr>hn_sent := []\<rparr>])"
    and i: "1 < i" "i < x_N x" and m: "preflop_packet x (i - 1) (i - 1, i, m)" and fs: "\<forall>q \<in> set fs. final_packet x q"
  shows "passing x (nodes [i := hn\<lparr>hn_sent := []\<rparr>]) (fs @ [(i - 1, i, m)])"
  unfolding passing_def using lay i m fs
  by (intro conjI exI [of _ "i - 1"] exI [of _ fs] exI [of _ "(i - 1, i, m)"] exI [of _ "[] :: packet list"]) simp_all

lemma preflop_cmd: "preflop_packet x i (d, sender, m) \<Longrightarrow> deal_cmd m \<and> m_dest m = int i \<and> d = i \<and> m_cmd m = ''preflop''"
  by (auto simp: preflop_packet_def deal_cmd_def)

lemma step_preflop:
  assumes ctx: "ctx_ok x \<sigma>" and ok: "nodes_ok x (n_nodes s)" and lay: "all_layered x (x_N x) (n_nodes s)"
    and k: "n_flight s = ps @ (i, sender, m) # qs" and i: "0 < i" "i < x_N x - 1" and p: "preflop_packet x i (i, sender, m)"
    and fs: "\<forall>q \<in> set (ps @ qs). final_packet x q"
  shows "\<exists>t. deliver (x_env x) (length ps) s = Some t \<and> deal_inv x \<sigma> t \<and> shrinks x s t"
proof -
  let ?N = "x_N x" and ?hn = "n_nodes s ! i"
  have n: "length (n_nodes s) = ?N" "seat_ok x i ?hn" "hn_sent ?hn = []" "layered x i ?hn" "i < ?N" "i < length (n_nodes s)"
    using ok i lay by (simp_all add: nodes_ok_def all_layered_def)
  obtain data where data: "preflop_data x i data"
      "pangea_poll (x_env x i) (json_of sender m) ?hn = map_option snd (pangea_preflop (x_curve x) data (int i) ?hn)"
    using poll_preflop [OF ctx n(2) p] by blast
  note cmd = preflop_cmd [OF p]
  show ?thesis
  proof (cases "i = 1")
    case True
    obtain hn ms where h: "pangea_preflop (x_curve x) data 1 ?hn = Some (0, hn)" "dealt x \<sigma> [0..<?N * 2] ?hn hn ms"
      using preflop_deal_ok [OF ctx] n(2,4) data(1) True by blast
    then have hs: "hn_sent hn = ms" "seat_ok x i hn" "layered x i hn" using n(3,4) True by (simp_all add: dealt_def layered_def)
    obtain later where dl: "deliver (x_env x) (length ps) s = Some \<lparr>n_nodes = (n_nodes s) [i := hn\<lparr>hn_sent := []\<rparr>],
        n_flight = ps @ qs @ packets ?N i (filter deal_cmd ms), n_later = later\<rparr>" (is "_ = Some ?t")
      using deliver_eq [OF k n(6), of "x_env x" hn] data(2) h(1) hs(1) True n(1) by auto
    have "handing x \<sigma> (n_nodes ?t) ((ps @ qs) @ packets ?N i (filter deal_cmd ms))"
      using dealt_hands [OF ctx n(1) lay _ h(2) fs] hs(3) True by simp
    moreover have "1 < ?N" using i True by simp
    note pk = dealt_packets(3,4) [OF h(2) this]
    have "shrinks x s ?t"
      by (rule shrinks_split [OF k, of _ "packets ?N i (filter deal_cmd ms)" _ 0]) (use weights(2) [OF p, of ?N] host_weights(2) [OF p, of ?N] pk True in simp_all)
    ultimately show ?thesis using dl nodes_put [OF ok hs(2)] unfolding deal_inv_def by auto
  next
    case False
    then have i1: "1 < i" "int (i - 1) = int i - 1" using i(1) by simp_all
    obtain hn m' where h: "pangea_preflop (x_curve x) data (int i) ?hn = Some (0, hn)" "seat_ok x i hn" "same_layer ?hn hn"
        "hn_sent hn = [m']" "preflop_packet x (i - 1) (i - 1, i, m')"
      using preflop_pass_ok [OF ctx n(2,4) i1(1) n(5) data(1)] n(3) by fastforce
    note cmd' = preflop_cmd [OF h(5)]
    obtain later where dl: "deliver (x_env x) (length ps) s = Some \<lparr>n_nodes = (n_nodes s) [i := hn\<lparr>hn_sent := []\<rparr>],
        n_flight = ps @ qs @ [(i - 1, i, m')], n_later = later\<rparr>" (is "_ = Some ?t")
      using deliver_eq [OF k n(6), of "x_env x" hn] data(2) h(1,4) cmd' packets_one [of m' "i - 1"] by auto
    have "all_layered x ?N (n_nodes ?t)" using layered_put [OF lay n(1), of i hn] layered_same [OF h(3) n(4)] by simp
    then have "passing x (n_nodes ?t) (n_flight ?t)"
      using passed_on [OF ctx ok _ i1(1) n(5) h(5) fs, of hn] by simp
    moreover have "shrinks x s ?t"
      by (rule shrinks_split [OF k, of _ "[(i - 1, i, m')]" _ 0])
        (use weights(2) [OF p] weights(2) [OF h(5)] host_weights(2) [OF p] host_weights(2) [OF h(5)] i1 in simp_all)
    ultimately show ?thesis using dl nodes_put [OF ok h(2)] unfolding deal_inv_def by auto
  qed
qed

lemma step_passing:
  assumes ctx: "ctx_ok x \<sigma>" and ok: "nodes_ok x (n_nodes s)" and h: "passing x (n_nodes s) (n_flight s)" and k: "n_flight s = ps @ p # qs"
  shows "\<exists>t. deliver (x_env x) (length ps) s = Some t \<and> deal_inv x \<sigma> t \<and> shrinks x s t"
proof -
  obtain i ps' p' qs' where f: "0 < i" "i < x_N x - 1" "n_flight s = ps' @ p' # qs'" "preflop_packet x i p'" "\<forall>q \<in> set (ps' @ qs'). final_packet x q"
    and lay: "all_layered x (x_N x) (n_nodes s)" using h by (auto simp: passing_def)
  show ?thesis
  proof (cases "ps = ps' \<and> p = p' \<and> qs = qs'")
    case True
    obtain sender m where "p = (i, sender, m)" using f(4) True by (cases p) (auto simp: preflop_packet_def)
    then show ?thesis using step_preflop [OF ctx ok lay _ f(1,2)] k f(4,5) True by simp
  next
    case False
    then consider zs where "ps = ps' @ p' # zs" "qs' = zs @ p # qs" | zs where "ps' = ps @ p # zs" "qs = zs @ p' # qs'"
      using split_twice [of ps p qs ps' p' qs'] k f(3) by auto
    then have "final_packet x p \<and> (\<exists>us vs. ps @ qs = us @ p' # vs \<and> (\<forall>q \<in> set (us @ vs). final_packet x q))"
    proof cases
      case (1 zs)
      then show ?thesis using f(5) by (intro conjI exI [of _ ps'] exI [of _ "zs @ qs"]) auto
    next
      case (2 zs)
      then show ?thesis using f(5) by (intro conjI exI [of _ "ps @ zs"] exI [of _ qs']) auto
    qed
    then obtain us vs where fin: "final_packet x p" "ps @ qs = us @ p' # vs" "\<forall>q \<in> set (us @ vs). final_packet x q" by blast
    have len: "length (n_nodes s) = x_N x" using ok by (simp add: nodes_ok_def)
    obtain d hn later where dl: "deliver (x_env x) (length ps) s = Some \<lparr>n_nodes = (n_nodes s) [d := hn\<lparr>hn_sent := []\<rparr>], n_flight = ps @ qs, n_later = later\<rparr>"
        (is "_ = Some ?t") "seat_ok x d hn" "same_layer (n_nodes s ! d) hn" "p_hole hn = p_hole (n_nodes s ! d)" "d < x_N x"
        "dp_summary ((n_nodes s) [d := hn\<lparr>hn_sent := []\<rparr>] ! 0) = dp_summary (n_nodes s ! 0)"
      using deliver_final [OF ctx ok k fin(1)] by auto
    have "all_layered x (x_N x) (n_nodes ?t)" using layered_put [OF lay len, of d hn] lay layered_same [OF dl(3)] by (auto simp: all_layered_def)
    then have "passing x (n_nodes ?t) (n_flight ?t)" unfolding passing_def using f(1,2,4) fin(2,3)
      by (intro conjI exI [of _ i] exI [of _ us] exI [of _ p'] exI [of _ vs]) simp_all
    moreover have "shrinks x s ?t"
      by (rule shrinks_split [OF k, of _ "[]" _ 0]) (use weights(3) [OF fin(1)] host_weights(3) [OF fin(1)] dl(6) in simp_all)
    ultimately show ?thesis using dl(1) nodes_put [OF ok dl(2)] unfolding deal_inv_def by auto
  qed
qed

lemma encoded_final_ok:
  assumes ctx: "ctx_ok x \<sigma>" and seat: "seat_ok x i hn" and i: "i = x_N x - 1"
  shows "\<exists>h f data. pangea_encoded (x_curve x) (x_shares x) (e_rnd (x_env x i)) (e_secrets (x_env x i)) (concat (deck x (i - 1))) dest hn
      = do { (_, h) \<leftarrow> pangea_preflop (x_curve x) data dest h; Some (0, h) }
    \<and> seat_ok x i h \<and> layered x i h \<and> hn_sent h = hn_sent hn @ [f]
    \<and> m_cmd f = ''final'' \<and> m_dest f = - 1 \<and> length (m_data f) = 32 * (x_n x * x_N x) \<and> preflop_data x i data"
proof -
  have i': "0 < i" "i < x_N x" using ctxD(1) [OF ctx] i by simp_all
  obtain sh where "let h = hn\<lparr>p_outcards := deck x i, p_xoverz := factors x i, p_allshares := sh\<rparr> in
      seat_ok x i h \<and> layered x i h
      \<and> pangea_encoded (x_curve x) (x_shares x) (e_rnd (x_env x i)) (e_secrets (x_env x i)) (concat (deck x (i - 1))) dest hn
      = do { h \<leftarrow> (if i < x_N x - 1 then pangea_sendcmd ''encoded'' (int (i + 1)) (concat (deck x i)) (int (x_n x * x_N x)) (- 1) h
                   else encoded_last (x_curve x) dest h); Some (0, h) }"
    using encoded_start [OF ctx seat i'] by blast
  then obtain h1 where h1: "seat_ok x i h1" "layered x i h1" "hn_sent h1 = hn_sent hn"
      "pangea_encoded (x_curve x) (x_shares x) (e_rnd (x_env x i)) (e_secrets (x_env x i)) (concat (deck x (i - 1))) dest hn
       = do { h \<leftarrow> encoded_last (x_curve x) dest h1; Some (0, h) }" using i by (auto simp: Let_def)
  obtain h f data where h: "encoded_last (x_curve x) dest h1 = do { (_, h) \<leftarrow> pangea_preflop (x_curve x) data dest h; Some h }"
      "seat_ok x i h" "same_layer h1 h" "hn_sent h = hn_sent h1 @ [f]" "m_cmd f = ''final''" "m_dest f = - 1"
      "length (m_data f) = 32 * (x_n x * x_N x)" "preflop_data x i data" using encoded_last_ok [OF ctx h1(1,2) i, of dest] by blast
  have "pangea_encoded (x_curve x) (x_shares x) (e_rnd (x_env x i)) (e_secrets (x_env x i)) (concat (deck x (i - 1))) dest hn
      = do { (_, h) \<leftarrow> pangea_preflop (x_curve x) data dest h; Some (0, h) }"
    unfolding h1(4) h(1) by (cases "pangea_preflop (x_curve x) data dest h") auto
  then show ?thesis using h layered_same [OF h(3) h1(2)] h1(3) by auto
qed

text \<open>The copies of the final deck that the last player sends out.\<close>

lemma final_broadcast:
  assumes "ctx_ok x \<sigma>" and "i < x_N x" and "m_cmd f = ''final''" and "m_dest f = - 1" and "length (m_data f) = 32 * (x_n x * x_N x)"
  shows "\<forall>q \<in> set (packets (x_N x) i [f]). final_packet x q" "(\<Sum>p \<leftarrow> packets (x_N x) i [f]. weight (x_N x) p) = x_N x" "deal_cmd f"
    "(\<Sum>p \<leftarrow> packets (x_N x) i [f]. host_weight (x_N x) p) = 0"
proof -
  show all: "\<forall>q \<in> set (packets (x_N x) i [f]). final_packet x q"
    using assms by (auto simp: packets_broadcast final_packet_def)
  then show "(\<Sum>p \<leftarrow> packets (x_N x) i [f]. weight (x_N x) p) = x_N x"
    using sum_ones [of "packets (x_N x) i [f]" "weight (x_N x)"] weights(3) assms(4) by (metis (no_types, lifting) length_map length_upt minus_nat.diff_0 packets_broadcast)
  show "deal_cmd f" using assms(3) by (simp add: deal_cmd_def)
  show "(\<Sum>p \<leftarrow> packets (x_N x) i [f]. host_weight (x_N x) p) = 0" using all host_weights(3) sum_bound [of "packets (x_N x) i [f]" "host_weight (x_N x)" 0] by fastforce
qed

lemma encoded_last_poll:
  assumes ctx: "ctx_ok x \<sigma>" and seat: "seat_ok x i hn" "hn_sent hn = []" and p: "encoded_packet x i (i, sender, m)" and i: "i = x_N x - 1"
  shows "\<exists>h f data. pangea_poll (x_env x i) (json_of sender m) hn = map_option snd (pangea_preflop (x_curve x) data (int i) h)
    \<and> seat_ok x i h \<and> layered x i h \<and> hn_sent h = [f] \<and> m_cmd f = ''final'' \<and> m_dest f = - 1
    \<and> length (m_data f) = 32 * (x_n x * x_N x) \<and> preflop_data x i data"
proof -
  have N: "0 < i" "i < x_N x" using ctxD(1) [OF ctx] i by simp_all
  obtain h f data where e: "pangea_encoded (x_curve x) (x_shares x) (e_rnd (x_env x i)) (e_secrets (x_env x i)) (concat (deck x (i - 1))) (int i) hn
      = do { (_, h) \<leftarrow> pangea_preflop (x_curve x) data (int i) h; Some (0, h) }"
    and h: "seat_ok x i h" "layered x i h" "hn_sent h = [f]" "m_cmd f = ''final''" "m_dest f = - 1"
      "length (m_data f) = 32 * (x_n x * x_N x)" "preflop_data x i data"
    using encoded_final_ok [OF ctx seat(1) i, of "int i"] seat(2) by auto
  have "pangea_poll (x_env x i) (json_of sender m) hn = map_option snd (pangea_preflop (x_curve x) data (int i) h)"
    unfolding poll_encoded [OF ctx seat(1) p N] e by (cases "pangea_preflop (x_curve x) data (int i) h") auto
  then show ?thesis using h by blast
qed

text \<open>The delivery that ends the encoding, and the two ways the deal goes on from it.\<close>

lemma deliver_last:
  assumes "n_flight s = [(i, sender, m)]" and "i < length (n_nodes s)" and "pangea_poll (env i) (json_of sender m) (n_nodes s ! i) = Some hn"
    and "hn_sent hn = f # ms" and "deal_cmd f"
  shows "\<exists>later. deliver env 0 s = Some \<lparr>n_nodes = (n_nodes s) [i := hn\<lparr>hn_sent := []\<rparr>],
    n_flight = packets (length (n_nodes s)) i [f] @ packets (length (n_nodes s)) i (filter deal_cmd ms), n_later = later\<rparr>"
  using deliver_eq [of s "[]" i sender m "[]" env hn] assms packets_append [of "length (n_nodes s)" i "[f]" "filter deal_cmd ms"] by simp

lemma layered_last:
  "all_layered x i nodes \<Longrightarrow> i = x_N x - 1 \<Longrightarrow> length nodes = x_N x \<Longrightarrow> layered x i hn \<Longrightarrow> all_layered x (x_N x) (nodes [i := hn\<lparr>hn_sent := []\<rparr>])"
  by (auto simp: all_layered_def nth_put)

lemma encoded_last_deals:
  assumes ctx: "ctx_ok x \<sigma>" and ok: "nodes_ok x (n_nodes s)" and lay: "all_layered x 1 (n_nodes s)" and N: "x_N x = 2"
    and k: "n_flight s = [(1, sender, m)]" and p: "encoded_packet x 1 (1, sender, m)"
    and e: "pangea_poll (x_env x 1) (json_of sender m) (n_nodes s ! 1) = map_option snd (pangea_preflop (x_curve x) data 1 h)"
      "seat_ok x 1 h" "layered x 1 h" "hn_sent h = [f]" "m_cmd f = ''final''" "m_dest f = - 1"
      "length (m_data f) = 32 * (x_n x * x_N x)" "preflop_data x 1 data"
  shows "\<exists>t. deliver (x_env x) 0 s = Some t \<and> deal_inv x \<sigma> t \<and> shrinks x s t"
proof -
  have len: "length (n_nodes s) = 2" using ok N by (simp add: nodes_ok_def)
  note fin = final_broadcast [OF ctx _ e(5-7), of 1]
  obtain hn ms where h: "pangea_preflop (x_curve x) data 1 h = Some (0, hn)" "dealt x \<sigma> [0..<x_N x * 2] h hn ms"
    using preflop_deal_ok [OF ctx e(2,3,8)] by blast
  then have hs: "hn_sent hn = f # ms" "seat_ok x 1 hn" "layered x 1 hn" using e(3,4) by (simp_all add: dealt_def layered_def)
  let ?fs = "packets 2 1 [f]" and ?cs = "packets 2 1 (filter deal_cmd ms)"
  obtain later where dl: "deliver (x_env x) 0 s = Some \<lparr>n_nodes = (n_nodes s) [1 := hn\<lparr>hn_sent := []\<rparr>], n_flight = ?fs @ ?cs, n_later = later\<rparr>"
      (is "_ = Some ?t") using deliver_last [OF k _ _ hs(1) fin(3), of "x_env x"] e(1) h(1) len N by auto
  have "handing x \<sigma> ((n_nodes ?t) [1 := hn\<lparr>hn_sent := []\<rparr>]) (?fs @ packets (x_N x) 1 (filter deal_cmd ms))"
    by (rule dealt_hands [OF ctx _ _ hs(3) h(2)]) (use layered_last [OF lay _ _ hs(3)] fin(1) N len in simp_all)
  then have "handing x \<sigma> (n_nodes ?t) (n_flight ?t)" using N by simp
  moreover have "shrinks x s ?t"
    by (rule shrinks_split [of s "[]" "(1, sender, m)" "[]" _ "?fs @ ?cs" _ 0])
      (use k weights(1) [OF p, of 2] host_weights(1) [OF p, of 2] dealt_packets(3,4) [OF h(2)] fin(2,4) N in \<open>simp_all del: sum_list_eq_0_iff\<close>)
  ultimately show ?thesis using dl nodes_put [OF ok hs(2)] unfolding deal_inv_def by auto
qed

lemma encoded_last_passes:
  assumes ctx: "ctx_ok x \<sigma>" and ok: "nodes_ok x (n_nodes s)" and lay: "all_layered x i (n_nodes s)" and i: "1 < i" "i = x_N x - 1"
    and k: "n_flight s = [(i, sender, m)]" and p: "encoded_packet x i (i, sender, m)"
    and e: "pangea_poll (x_env x i) (json_of sender m) (n_nodes s ! i) = map_option snd (pangea_preflop (x_curve x) data (int i) h)"
      "seat_ok x i h" "layered x i h" "hn_sent h = [f]" "m_cmd f = ''final''" "m_dest f = - 1"
      "length (m_data f) = 32 * (x_n x * x_N x)" "preflop_data x i data"
  shows "\<exists>t. deliver (x_env x) 0 s = Some t \<and> deal_inv x \<sigma> t \<and> shrinks x s t"
proof -
  let ?N = "x_N x" and ?fs = "packets (x_N x) i [f]"
  have len: "length (n_nodes s) = ?N" and iN: "i < ?N" using ok i by (simp_all add: nodes_ok_def)
  note fin = final_broadcast [OF ctx iN e(5-7)]
  obtain hn m' where h: "pangea_preflop (x_curve x) data (int i) h = Some (0, hn)" "seat_ok x i hn" "same_layer h hn"
      "hn_sent hn = [f, m']" "preflop_packet x (i - 1) (i - 1, i, m')"
    using preflop_pass_ok [OF ctx e(2,3) i(1) iN e(8)] e(4) by fastforce
  note cmd = preflop_cmd [OF h(5)]
  have one: "packets ?N i (filter deal_cmd [m']) = [(i - 1, i, m')]" using packets_one [of m' "i - 1"] cmd by simp
  obtain later where dl: "deliver (x_env x) 0 s = Some \<lparr>n_nodes = (n_nodes s) [i := hn\<lparr>hn_sent := []\<rparr>], n_flight = ?fs @ [(i - 1, i, m')], n_later = later\<rparr>"
      (is "_ = Some ?t") using deliver_last [OF k _ _ h(4) fin(3), of "x_env x"] e(1) h(1) len iN one by auto
  have "all_layered x ?N (n_nodes ?t)" using layered_last [OF lay i(2) len layered_same [OF h(3) e(3)]] by simp
  then have "passing x (n_nodes ?t) (n_flight ?t)" using passed_on [OF ctx ok _ i(1) iN h(5) fin(1)] by simp
  moreover have "?N + (2 * ?N + 2 * ?N * ?N + (i - 1)) < 5 * ?N + 2 * ?N * ?N - i" "n_nodes ?t ! 0 = n_nodes s ! 0" using i by simp_all
  then have "shrinks x s ?t"
    by (intro shrinks_split [of s "[]" "(i, sender, m)" "[]" _ "?fs @ [(i - 1, i, m')]" _ 0])
      (use k weights(1) [OF p, of ?N] weights(2) [OF h(5), of ?N] host_weights(1) [OF p, of ?N] host_weights(2) [OF h(5), of ?N] fin(2,4) in \<open>simp_all del: sum_list_eq_0_iff\<close>)
  ultimately show ?thesis using dl nodes_put [OF ok h(2)] unfolding deal_inv_def by auto
qed

lemma step_encoded_last:
  assumes ctx: "ctx_ok x \<sigma>" and ok: "nodes_ok x (n_nodes s)" and lay: "all_layered x i (n_nodes s)"
    and k: "n_flight s = [(i, sender, m)]" and p: "encoded_packet x i (i, sender, m)" and i: "i = x_N x - 1"
  shows "\<exists>t. deliver (x_env x) 0 s = Some t \<and> deal_inv x \<sigma> t \<and> shrinks x s t"
proof -
  have N: "0 < i" "i < x_N x" using ctxD(1) [OF ctx] i by simp_all
  have n: "seat_ok x i (n_nodes s ! i)" "hn_sent (n_nodes s ! i) = []" using ok N by (simp_all add: nodes_ok_def)
  obtain h f data where e: "pangea_poll (x_env x i) (json_of sender m) (n_nodes s ! i) = map_option snd (pangea_preflop (x_curve x) data (int i) h)"
      "seat_ok x i h" "layered x i h" "hn_sent h = [f]" "m_cmd f = ''final''" "m_dest f = - 1"
      "length (m_data f) = 32 * (x_n x * x_N x)" "preflop_data x i data"
    using encoded_last_poll [OF ctx n p i] by blast
  show ?thesis
  proof (cases "i = 1")
    case True
    then show ?thesis using encoded_last_deals [OF ctx ok _ _ _ _ _ _ _ _ e(5-7)] lay k p e i N by simp
  next
    case False
    then show ?thesis using encoded_last_passes [OF ctx ok lay _ i k p e] N by simp
  qed
qed

lemma step_encoded_next:
  assumes ctx: "ctx_ok x \<sigma>" and ok: "nodes_ok x (n_nodes s)" and lay: "all_layered x i (n_nodes s)"
    and k: "n_flight s = [(i, sender, m)]" and p: "encoded_packet x i (i, sender, m)" and i: "0 < i" "i < x_N x - 1"
  shows "\<exists>t. deliver (x_env x) 0 s = Some t \<and> deal_inv x \<sigma> t \<and> shrinks x s t"
proof -
  let ?hn = "n_nodes s ! i"
  have n: "length (n_nodes s) = x_N x" "i < x_N x" "seat_ok x i ?hn" "hn_sent ?hn = []" using ok i by (simp_all add: nodes_ok_def)
  obtain hn m' where h: "pangea_encoded (x_curve x) (x_shares x) (e_rnd (x_env x i)) (e_secrets (x_env x i)) (concat (deck x (i - 1))) (int i) ?hn = Some (0, hn)"
      "seat_ok x i hn" "layered x i hn" "hn_sent hn = [m']" "encoded_packet x (i + 1) (i + 1, i, m')"
    using encoded_next_ok [OF ctx n(3) i, of "int i"] n(4) by auto
  have m': "deal_cmd m'" "m_dest m' = int (i + 1)" using h(5) by (simp_all add: encoded_packet_def deal_cmd_def)
  have poll: "pangea_poll (x_env x i) (json_of sender m) ?hn = Some hn" using poll_encoded [OF ctx n(3) p i(1) n(2)] h(1) by simp
  obtain later where dl: "deliver (x_env x) 0 s = Some \<lparr>n_nodes = (n_nodes s) [i := hn\<lparr>hn_sent := []\<rparr>], n_flight = [(i + 1, i, m')], n_later = later\<rparr>"
      (is "_ = Some ?t") using deliver_eq [of s "[]" i sender m "[]" "x_env x" hn] k n(1,2) poll h(4) m'(1) packets_one [OF m'(2)] by auto
  have "all_layered x (i + 1) (n_nodes ?t)" using lay h(3) n(1,2) by (auto simp: all_layered_def nth_put less_Suc_eq)
  then have "encoding x (n_nodes ?t) (n_flight ?t)" using h(5) i unfolding encoding_def by (intro exI [of _ "i + 1"]) simp
  moreover have "shrinks x s ?t"
    by (rule shrinks_split [of s "[]" "(i, sender, m)" "[]" _ "[(i + 1, i, m')]" _ 0])
      (use k weights(1) [OF p, of "x_N x"] weights(1) [OF h(5), of "x_N x"] host_weights(1) [OF p, of "x_N x"] host_weights(1) [OF h(5), of "x_N x"] n(2) i in simp_all)
  ultimately show ?thesis using dl nodes_put [OF ok h(2)] unfolding deal_inv_def by auto
qed

lemma step_encoding:
  assumes ctx: "ctx_ok x \<sigma>" and ok: "nodes_ok x (n_nodes s)" and h: "encoding x (n_nodes s) (n_flight s)"
  shows "\<exists>t. deliver (x_env x) 0 s = Some t \<and> deal_inv x \<sigma> t \<and> shrinks x s t"
proof -
  obtain i p where p: "0 < i" "i < x_N x" "n_flight s = [p]" "encoded_packet x i p" "all_layered x i (n_nodes s)" using h by (auto simp: encoding_def)
  obtain sender m where pd: "p = (i, sender, m)" using p(4) by (cases p) (auto simp: encoded_packet_def)
  show ?thesis
  proof (cases "i < x_N x - 1")
    case True
    then show ?thesis using step_encoded_next [OF ctx ok p(5) _ _ p(1)] p(3,4) pd by simp
  next
    case False
    then have "i = x_N x - 1" using p(2) by simp
    then show ?thesis using step_encoded_last [OF ctx ok p(5)] p(3,4) pd by simp
  qed
qed

text \<open>Whichever message arrives next, it is accepted, the deal keeps its invariant, and less remains to be done.\<close>

lemma step_ok:
  assumes ctx: "ctx_ok x \<sigma>" and inv: "deal_inv x \<sigma> s" and room: "summary_room x s" and k: "k < length (n_flight s)"
  shows "\<exists>t. deliver (x_env x) k s = Some t \<and> deal_inv x \<sigma> t \<and> shrinks x s t"
proof -
  note split = id_take_nth_drop [OF k]
  have len: "length (take k (n_flight s)) = k" using k by simp
  have ok: "nodes_ok x (n_nodes s)" using inv by (simp add: deal_inv_def)
  consider "encoding x (n_nodes s) (n_flight s)" | "passing x (n_nodes s) (n_flight s)" | "handing x \<sigma> (n_nodes s) (n_flight s)"
    using inv by (auto simp: deal_inv_def)
  then show ?thesis
  proof cases
    case 1
    then have "k = 0" using k by (auto simp: encoding_def)
    then show ?thesis using step_encoding [OF ctx ok 1] by simp
  next
    case 2
    then show ?thesis using step_passing [OF ctx ok 2 split] len by simp
  next
    case 3
    then show ?thesis using step_handing [OF ctx ok 3 split room] len by simp
  qed
qed


section \<open>Every schedule\<close>

lemma runs_inv:
  assumes ctx: "ctx_ok x \<sigma>" and inv: "deal_inv x \<sigma> s" "summary_room x s" and r: "runs (x_env x) s n t"
  shows "deal_inv x \<sigma> t \<and> summary_room x t \<and> n + work x t \<le> work x s"
  using r
proof (induction rule: runs.induct)
  case (step n t k u)
  then have "deal_inv x \<sigma> u \<and> shrinks x t u" using step_ok [OF ctx, of t k] by auto
  then show ?case using step.IH summary_room_shrinks by (auto simp: shrinks_def)
qed (use inv in simp)

lemma runs_end:
  assumes ctx: "ctx_ok x \<sigma>" and inv: "deal_inv x \<sigma> s" "summary_room x s" and r: "runs (x_env x) s n t"
  shows "\<exists>n' t'. runs (x_env x) s n' t' \<and> n_flight t' = []"
  using r
proof (induction "work x t" arbitrary: n t rule: less_induct)
  case less
  show ?case
  proof (cases "n_flight t")
    case Nil
    then show ?thesis using less.prems by blast
  next
    case (Cons p ps)
    then obtain u where "deliver (x_env x) 0 t = Some u" "work x u < work x t"
      using step_ok [OF ctx, of t 0] runs_inv [OF ctx inv less.prems] by (auto simp: shrinks_def)
    then show ?thesis using less.hyps runs.step [OF less.prems, of 0 u] Cons by auto
  qed
qed

lemma inv_end: "deal_inv x \<sigma> t \<Longrightarrow> n_flight t = [] \<Longrightarrow> c < 2 * x_N x \<Longrightarrow> has_card x \<sigma> (n_nodes t) c"
  by (auto simp: deal_inv_def encoding_def passing_def handing_def)

section \<open>The deck that is dealt\<close>

text \<open>
  A table whose host has made a deck and whose players draw good secrets: 2 to 9 players, at most 52 cards and more
  than two for each player. Two assumptions are about luck: no two ciphers that a player sends out for the same
  receiver are equal, and, with three or more players, the one factor of the last player that ends the \<open>preflop\<close>
  message, the one of the last hole card for the last player, does not end in a zero byte. When it does, which happens
  in about one of 256 deals, the receiver may decode more bytes than were sent and
  refuses the message, and the hand stops. With two players no such message is sent.
\<close>

definition dealable :: "'f deal_ctx \<Rightarrow> bits256 list \<Rightarrow> bool" where
  "dealable x keys \<longleftrightarrow> curve_ok (x_curve x) \<and> (\<forall>a. length (fcontract (x_curve x) a) = 32)
     \<and> 2 \<le> x_N x \<and> x_N x \<le> 9 \<and> 2 * x_N x < x_n x \<and> x_n x \<le> 52 \<and> length (x_privs x) = x_N x
     \<and> keys_ok (x_curve x) (x_n x) keys (x_privs x) \<and> no_false_match (x_curve x) keys (x_privs x)
     \<and> (\<forall>i. e_curve (x_env x i) = x_curve x \<and> e_shares (x_env x i) = x_shares x \<and> e_behind (x_env x i) \<noteq> [])
     \<and> (\<forall>i. 0 < i \<and> i < x_N x \<longrightarrow> player_ok (x_curve x) (x_n x) (x_N x) (e_rnd (x_env x i), e_secrets (x_env x i)))
     \<and> (\<exists>chk. cards777_initdeck (x_curve x) keys (x_n x) (map (public_key (x_curve x)) (x_privs x)) = Some (x_cards x, x_cardpubs x, chk))
     \<and> (\<exists>fin. encode_chain (x_curve x) (x_shares x) (x_M x) (x_n x) (x_N x)
          (map (\<lambda>i. (e_rnd (x_env x i), e_secrets (x_env x i))) [1..<x_N x]) (x_cards x) = Some (x_layers x, fin))
     \<and> (\<forall>l \<in> set (x_layers x). distinct_columns (x_n x) (x_N x) (fst l))
     \<and> (2 < x_N x \<longrightarrow> last (factors x (x_N x - 1) ! (2 * x_N x * x_N x - 1)) \<noteq> 0)"

text \<open>The host has a deck whose checksum all players have confirmed; it starts the encoding.\<close>

definition host_ready :: "'f deal_ctx \<Rightarrow> 'z server_node_scheme \<Rightarrow> bool" where
  "host_ready x hn \<longleftrightarrow> p_outcards hn = x_cards x \<and> txid (h_checkprod hn) \<noteq> 0 \<and> dp_newhand hn \<noteq> [] \<and> h_encodestarted hn = 0
     \<and> x_N x \<le> length (h_othercardpubs hn) \<and> (\<forall>p \<in> set (take (x_N x) (h_othercardpubs hn)). p = txid (h_checkprod hn))
     \<and> summary_len hn + 800 * x_N x \<le> SUMMARY_MAX"

definition start_deal :: "u32 \<Rightarrow> server_node list \<Rightarrow> deal_net option" where
  "start_deal now nodes =
     do { hn \<leftarrow> aget nodes 0;
          hn \<leftarrow> pangea_checkstart now hn;
          Some \<lparr>n_nodes = nodes[0 := hn\<lparr>hn_sent := []\<rparr>], n_flight = packets (length nodes) 0 (hn_sent hn), n_later = []\<rparr> }"

lemma encode_shape:
  assumes "cards777_encode cv shares rnd secrets M cards n N = Some (enc, xo, sh, cs)"
  shows "length enc = n * N" "length xo = n * N" "\<forall>b \<in> set enc \<union> set xo. b \<in> range (fcontract cv)"
proof -
  obtain shuffled where l: "cards777_layer cv secrets shuffled n N = Some (enc, xo)" using assms by (auto simp: cards777_encode_def split: bind_splits)
  then show "length enc = n * N" "length xo = n * N" by (auto simp: cards777_layer_def Let_def split: if_splits)
  show "\<forall>b \<in> set enc \<union> set xo. b \<in> range (fcontract cv)"
    using l by (auto simp: cards777_layer_def Let_def layer_card_eq set_zip split: if_splits)
qed

lemma chain_layers:
  assumes "encode_chain cv shares M n N ps cards = Some (layers, fin)"
  shows "length layers = length ps \<and> fin = (if layers = [] then cards else fst (last layers)) \<and> (\<forall>i < length ps. \<exists>sh cs.
    cards777_encode cv shares (fst (ps ! i)) (snd (ps ! i)) M (if i = 0 then cards else fst (layers ! (i - 1))) n N
      = Some (fst (layers ! i), snd (layers ! i), sh, cs))"
  using assms
proof (induction ps arbitrary: cards layers)
  case (Cons p ps)
  obtain rnd secrets where p: "p = (rnd, secrets)" by (cases p)
  obtain enc xo sh cs layers' where e: "cards777_encode cv shares rnd secrets M cards n N = Some (enc, xo, sh, cs)"
      "encode_chain cv shares M n N ps enc = Some (layers', fin)" "layers = (enc, xo) # layers'"
    using Cons.prems p by (auto split: bind_splits)
  note IH = Cons.IH [OF e(2)]
  have "\<exists>sh cs. cards777_encode cv shares (fst ((p # ps) ! i)) (snd ((p # ps) ! i)) M (if i = 0 then cards else fst (layers ! (i - 1))) n N
      = Some (fst (layers ! i), snd (layers ! i), sh, cs)" if "i < Suc (length ps)" for i
  proof (cases i)
    case 0
    then show ?thesis using e(1,3) p by simp
  next
    case (Suc k)
    then have "(if i = 0 then cards else fst (layers ! (i - 1))) = (if k = 0 then enc else fst (layers' ! (k - 1)))" using e(3) by (cases k) simp_all
    moreover have "\<exists>sh cs. cards777_encode cv shares (fst (ps ! k)) (snd (ps ! k)) M (if k = 0 then enc else fst (layers' ! (k - 1))) n N
      = Some (fst (layers' ! k), snd (layers' ! k), sh, cs)" using IH that Suc by simp
    ultimately show ?thesis using Suc e(3) by simp
  qed
  then show ?case using IH e(3) by auto
qed simp

lemma dealable_layer:
  assumes d: "dealable x keys" and i: "0 < i" "i < x_N x"
  shows "\<exists>sh cs. cards777_encode (x_curve x) (x_shares x) (e_rnd (x_env x i)) (e_secrets (x_env x i)) (x_M x) (deck x (i - 1)) (x_n x) (x_N x)
    = Some (deck x i, factors x i, sh, cs)"
proof -
  let ?ps = "map (\<lambda>i. (e_rnd (x_env x i), e_secrets (x_env x i))) [1..<x_N x]"
  obtain fin where "encode_chain (x_curve x) (x_shares x) (x_M x) (x_n x) (x_N x) ?ps (x_cards x) = Some (x_layers x, fin)"
    using d by (auto simp: dealable_def)
  note c = chain_layers [OF this]
  have "i - 1 < length ?ps" "?ps ! (i - 1) = (e_rnd (x_env x i), e_secrets (x_env x i))" using i nth_upt [of 1 "i - 1" "x_N x"] by simp_all
  moreover have "(if i - 1 = 0 then x_cards x else fst (x_layers x ! (i - 1 - 1))) = deck x (i - 1)" "fst (x_layers x ! (i - 1)) = deck x i"
    "snd (x_layers x ! (i - 1)) = factors x i" using i(1) by (simp_all add: deck_def factors_def)
  moreover have "\<exists>sh cs. cards777_encode (x_curve x) (x_shares x) (fst (?ps ! (i - 1))) (snd (?ps ! (i - 1))) (x_M x)
      (if i - 1 = 0 then x_cards x else fst (x_layers x ! (i - 1 - 1))) (x_n x) (x_N x)
    = Some (fst (x_layers x ! (i - 1)), snd (x_layers x ! (i - 1)), sh, cs)" using c calculation(1) by blast
  ultimately show ?thesis by simp
qed


lemma dealable_sizes:
  assumes d: "dealable x keys" and i: "0 < i" "i < x_N x"
  shows "length (deck x i) = x_n x * x_N x" "length (factors x i) = x_n x * x_N x"
    "\<forall>b \<in> set (deck x i) \<union> set (factors x i). length b = 32"
proof -
  obtain sh cs where "cards777_encode (x_curve x) (x_shares x) (e_rnd (x_env x i)) (e_secrets (x_env x i)) (x_M x) (deck x (i - 1)) (x_n x) (x_N x)
    = Some (deck x i, factors x i, sh, cs)" using dealable_layer [OF assms] by blast
  note e = encode_shape [OF this]
  have l: "\<And>a. length (fcontract (x_curve x) a) = 32" using d by (simp add: dealable_def)
  show "length (deck x i) = x_n x * x_N x" "length (factors x i) = x_n x * x_N x" using e(1,2) by simp_all
  show "\<forall>b \<in> set (deck x i) \<union> set (factors x i). length b = 32"
    using e(3) l by (metis imageE)
qed

lemma dealable_deck:
  assumes d: "dealable x keys"
  shows "length (x_layers x) = x_N x - 1" "length (x_cards x) = x_n x * x_N x" "\<forall>b \<in> set (x_cards x). length b = 32"
    "\<exists>\<sigma>. bij_betw \<sigma> {..<x_n x} {..<x_n x} \<and> (\<forall>c < x_n x. \<forall>j < x_N x. \<exists>v key. peeled x 0 c j = Some v
      \<and> cards777_checkcard (x_curve x) (x_privs x ! j) (x_cardpubs x) (x_n x) v = Some (int (\<sigma> c), key))"
proof -
  let ?cv = "x_curve x" and ?ps = "map (\<lambda>i. (e_rnd (x_env x i), e_secrets (x_env x i))) [1..<x_N x]"
  have h: "curve_ok ?cv" "x_n x \<le> 52" "keys_ok ?cv (x_n x) keys (x_privs x)" "no_false_match ?cv keys (x_privs x)"
      "\<forall>l \<in> set (x_layers x). distinct_columns (x_n x) (x_N x) (fst l)" "length (x_privs x) = x_N x" "2 \<le> x_N x" "\<And>a. length (fcontract ?cv a) = 32"
    using d by (simp_all add: dealable_def)
  have ps: "\<forall>p \<in> set ?ps. player_ok ?cv (x_n x) (length (x_privs x)) p" using d by (auto simp: dealable_def)
  obtain chk fin where e: "cards777_initdeck ?cv keys (x_n x) (map (public_key ?cv) (x_privs x)) = Some (x_cards x, x_cardpubs x, chk)"
      "encode_chain ?cv (x_shares x) (x_M x) (x_n x) (x_N x) ?ps (x_cards x) = Some (x_layers x, fin)" using d by (auto simp: dealable_def)
  note c = chain_layers [OF e(2)]
  then show l: "length (x_layers x) = x_N x - 1" by simp
  have fin: "fin = deck x (x_N x - 1)" using c l h(7) by (auto simp: deck_def last_conv_nth numeral_2_eq_2 simp del: length_map)
  note f = fair_deal [OF h(1-4) ps, of "x_shares x" "x_M x", unfolded e(1) h(6), simplified, unfolded e(2) [unfolded One_nat_def], simplified]
  show "length (x_cards x) = x_n x * x_N x" "\<forall>b \<in> set (x_cards x). length b = 32" using f h(8) by auto
  show "\<exists>\<sigma>. bij_betw \<sigma> {..<x_n x} {..<x_n x} \<and> (\<forall>c < x_n x. \<forall>j < x_N x. \<exists>v key. peeled x 0 c j = Some v
      \<and> cards777_checkcard (x_curve x) (x_privs x ! j) (x_cardpubs x) (x_n x) v = Some (int (\<sigma> c), key))"
    using f h(5) unfolding peeled_def fin [symmetric] drop_0 by simp
qed

lemma dealable_ctx:
  assumes d: "dealable x keys"
  shows "\<exists>\<sigma>. bij_betw \<sigma> {..<x_n x} {..<x_n x} \<and> ctx_ok x \<sigma>"
proof -
  note dk = dealable_deck [OF d] and sz = dealable_sizes [OF d]
  obtain \<sigma> where \<sigma>: "bij_betw \<sigma> {..<x_n x} {..<x_n x}" "\<forall>c < x_n x. \<forall>j < x_N x. \<exists>v key. peeled x 0 c j = Some v
      \<and> cards777_checkcard (x_curve x) (x_privs x ! j) (x_cardpubs x) (x_n x) v = Some (int (\<sigma> c), key)" using dk(4) by blast
  have deck: "length (deck x i) = x_n x * x_N x \<and> (\<forall>b \<in> set (deck x i). length b = 32)" if "i < x_N x" for i
    using dk(2,3) sz [of i] that by (cases "i = 0") (simp_all add: deck_def)
  have fac: "\<forall>i. 0 < i \<and> i < x_N x \<longrightarrow> (\<forall>b \<in> set (factors x i). length b = 32)" using sz(3) by blast
  have "length (x_layers x) = x_N x - 1" "2 \<le> x_N x" using d dk(1) by (simp_all add: dealable_def)
  then have "distinct_columns (x_n x) (x_N x) (deck x (x_N x - 1))"
    using d nth_mem [of "x_N x - 1 - 1" "x_layers x"] by (auto simp: dealable_def deck_def)
  then have "ctx_ok x \<sigma>" unfolding ctx_ok_def
    using d dk(1) deck sz(2) fac dealable_layer [OF d] \<sigma>(2) by (simp add: dealable_def)
  then show ?thesis using \<sigma>(1) by blast
qed

lemma start_deal_ok:
  assumes ctx: "ctx_ok x \<sigma>" and ok: "nodes_ok x nodes" and h: "host_ready x (nodes ! 0)"
  shows "\<exists>s. start_deal now nodes = Some s \<and> deal_inv x \<sigma> s \<and> summary_room x s \<and> work x s < 5 * x_N x + 2 * x_N x * x_N x"
proof -
  let ?hn = "nodes ! 0" and ?hn' = "(nodes ! 0)\<lparr>h_encodestarted := now, dp_newhand := ''encoded''\<rparr>"
  have N: "0 < x_N x" "1 < x_N x" "length nodes = x_N x" using ctxD(1) [OF ctx] ok by (simp_all add: nodes_ok_def)
  have seat: "seat_ok x 0 ?hn" "hn_sent ?hn = []" using ok N by (simp_all add: nodes_ok_def)
  then have seat': "seat_ok x 0 ?hn'" by (simp add: seat_ok_def)
  let ?m = "\<lparr>m_cmd = ''encoded'', m_dest = 1, m_data = concat (x_cards x), m_cardi = int (x_N x * x_n x), m_turni = - 1, m_active = None\<rparr>"
  have len: "length (x_cards x) = x_N x * x_n x" using seatD(17) [OF seat(1)] h by (simp add: host_ready_def mult.commute)
  have "pangea_checkstart now ?hn = Some (?hn'\<lparr>hn_sent := [?m]\<rparr>)"
    using h seat_slotB [OF ctx seat(1)] seat_send [OF ctx seat' N(1), of 1 "''encoded''" "concat (x_cards x)" "int (x_N x * x_n x)" "- 1"] seat(2) N(2) len
    by (simp add: pangea_checkstart_def host_ready_def seatD(1) [OF seat(1)] seatD(4) [OF seat(1)])
  then have s: "start_deal now nodes = Some \<lparr>n_nodes = nodes[0 := ?hn'\<lparr>hn_sent := []\<rparr>], n_flight = [(1, 0, ?m)], n_later = []\<rparr>" (is "_ = Some ?s")
    using aget_nat [of 0 nodes] N packets_one [of ?m 1] by (simp add: start_deal_def)
  have p: "encoded_packet x 1 (1, 0, ?m)" using N by (simp add: encoded_packet_def deck_def)
  have "encoding x (n_nodes ?s) (n_flight ?s)" using p N(2) by (auto simp: encoding_def all_layered_def)
  then have "deal_inv x \<sigma> ?s" using nodes_put [OF ok seat'] by (simp add: deal_inv_def)
  moreover have "work x ?s < 5 * x_N x + 2 * x_N x * x_N x" using weights(1) [OF p, of "x_N x"] N(1) by (simp add: work_def)
  moreover have "summary_room x ?s" using h host_weights(1) [OF p, of "x_N x"] N by (simp add: summary_room_def host_work_def host_ready_def)
  ultimately show ?thesis using s by blast
qed

text \<open>
  C1. Every dealable hand is dealt to the end. A hand is \<open>dealable\<close> with 2 to 9 players, a deck of at most 52
  cards that has more than two for each player, card keys that match no other card, factors that are not zero, no two
  equal ciphers for one receiver, and,
  with three or more players, a factor at the end of the \<open>preflop\<close> message that does not end in a zero byte.
  When the players have confirmed the deck, the host starts the encoding
  (\<open>pangea_checkstart\<close>), its summary of the hand having 800 bytes of room for each player. Then, in whatever order
  the network delivers the messages of the deal (\<open>encoded\<close>, \<open>final\<close>, \<open>preflop\<close>, \<open>card\<close> and \<open>facedown\<close>; the
  \<open>turn\<close> messages of the betting that the host opens on the last \<open>facedown\<close> are set aside): fewer than
  \<open>5 * N + 2 * N * N\<close> deliveries happen; every message in flight can be delivered, its handler neither reading
  nor writing outside an array, the taking of the antes and blinds included; a state with no message in flight is reached; and in every such
  state each player holds its two cards, the positions \<open>c\<close> and \<open>c + N\<close> of one shuffle of the
  deck, so that no card is held twice.
\<close>

theorem every_deal_completes:
  assumes "dealable x keys" and "nodes_ok x nodes" and "host_ready x (nodes ! 0)"
  shows "\<exists>s \<sigma>. start_deal now nodes = Some s \<and> bij_betw \<sigma> {..<x_n x} {..<x_n x}
    \<and> (\<forall>n t. runs (x_env x) s n t \<longrightarrow> n < 5 * x_N x + 2 * x_N x * x_N x
         \<and> (\<forall>k < length (n_flight t). \<exists>u. deliver (x_env x) k t = Some u)
         \<and> (n_flight t = [] \<longrightarrow> (\<forall>c < 2 * x_N x. has_card x \<sigma> (n_nodes t) c)))
    \<and> (\<exists>n t. runs (x_env x) s n t \<and> n_flight t = [])"
proof -
  obtain \<sigma> where \<sigma>: "bij_betw \<sigma> {..<x_n x} {..<x_n x}" "ctx_ok x \<sigma>" using dealable_ctx [OF assms(1)] by blast
  obtain s where s: "start_deal now nodes = Some s" "deal_inv x \<sigma> s" "summary_room x s" "work x s < 5 * x_N x + 2 * x_N x * x_N x" using start_deal_ok [OF \<sigma>(2) assms(2,3)] by blast
  have "n < 5 * x_N x + 2 * x_N x * x_N x \<and> (\<forall>k < length (n_flight t). \<exists>u. deliver (x_env x) k t = Some u)
      \<and> (n_flight t = [] \<longrightarrow> (\<forall>c < 2 * x_N x. has_card x \<sigma> (n_nodes t) c))" if "runs (x_env x) s n t" for n t
    using runs_inv [OF \<sigma>(2) s(2,3) that] step_ok [OF \<sigma>(2), of t] inv_end [of x \<sigma> t] s(4) by fastforce
  then show ?thesis using \<sigma>(1) s(1) runs_end [OF \<sigma>(2) s(2,3) runs.start] by blast
qed

section \<open>A small table\<close>

text \<open>Two players with five cards, over the small field.\<close>

definition small_card_keys :: "bits256 list" where
  "small_card_keys = map small_byte [1, 2, 3, 4, 5]"

definition small_env :: "nat \<Rightarrow> nat step_env" where
  "small_env i = \<lparr>e_curve = small_curve, e_shares = (\<lambda>_ _ _. []), e_now = 1, e_rand1 = 0, e_rand2 = 0, e_rnd = [1, 0, 1, 0, 0],
     e_secrets = map small_byte [4, 4, 4, 4, 4, 4, 4, 4, 4, 4], e_keys = [], e_fresh = [], e_behind = ''x'',
     e_btc_coinaddr = (\<lambda>_ _. []), e_create_MofN = (\<lambda>_ _ _ _. ([], [], [])), e_dispsummary = (\<lambda>_. None), e_fundsjson = (\<lambda>_. None)\<rparr>"

definition small_ctx :: "nat deal_ctx" where
  "small_ctx = \<lparr>x_curve = small_curve, x_shares = (\<lambda>_ _ _. []), x_M = 2, x_n = 5, x_N = 2, x_button = 1, x_cardpubs = small_card_keys,
     x_privs = small_privs, x_cards = map small_byte [3, 5, 1, 9, 5, 1, 4, 3, 9, 4],
     x_layers = [(map small_byte [3, 5, 9, 4, 5, 1, 1, 9, 4, 3], map small_byte [4, 4, 4, 4, 4, 4, 4, 4, 4, 4])], x_env = small_env\<rparr>"

definition small_node :: "nat \<Rightarrow> server_node" where
  "small_node i = \<lparr>
     h_checkprod = replicate 32 1, h_cardpubs = small_card_keys @ [small_byte 1], h_final = replicate 10 [], h_community256 = replicate 5 [],
     h_cards = replicate 9 [], h_othercardpubs = replicate 9 (txid (replicate 32 1)), h_havemasks = replicate 9 0,
     h_betsize = 0, h_hostrake = 0, h_pangearake = 0, h_lastraise = 0, h_bets = replicate 9 0,
     h_snapshot = replicate 10 0, h_won = replicate 9 0, h_handmask = 0, h_lastbettor = 0,
     h_startdecktime = 0, h_betstarted = 0, h_finished = 0, h_encodestarted = 0, h_cardi = 0,
     h_userinput_starttime = 0, h_handranks = replicate 9 0, h_betstatus = replicate 9 0,
     h_actions = replicate 9 0, h_turnis = replicate 9 0, h_numactions = 0, h_undergun = 0,
     h_community = replicate 5 255, h_hands = replicate 9 (replicate 7 255),
     dp_snapshot = replicate 9 0, dp_maxrake = 0, dp_hostrake = 0, dp_bigblind = 10, dp_ante = 0,
     dp_pangearake = 0, dp_summaries = 0, dp_mismatches = 0, dp_button = 1, dp_readymask = 3,
     dp_numhands = 1, dp_rakemillis = 10, dp_coinstr = ''NXT'', dp_M = 2, dp_N = 2,
     dp_numcards = 5, dp_newhand = ''newhand'', dp_summary = [],
     sp_numaddrs = 2, sp_balances = replicate 9 100, sp_isbot = replicate 9 0,
     sp_playerpubs = replicate 9 [], sp_addrs = [100, 200, 0, 0, 0, 0, 0, 0, 0],
     sp_active = [100, 200, 0, 0, 0, 0, 0, 0, 0], sp_tableid = 7, sp_multisigaddr = ''addr'',
     sp_myslot = int i, sp_myind = int i, sp_numactive = 2, sp_buyinvouts = replicate 9 0,
     sp_buyinamounts = replicate 9 0, sp_buyintxids = replicate 9 [],
     p_holecards = replicate 2 [], p_hole = [255, 255], p_cardis = [255, 255], p_autoshow = 0,
     p_autofold = 0, hn_slot = int i, hn_sent = [],
     p_audits = replicate 20 (replicate 32 0), p_outcards = (if i = 0 then x_cards small_ctx else replicate 10 []), p_xoverz = replicate 10 [], p_allshares = [],
     hn_privkey = small_privs ! i,
     dp_minbuyin = 10, dp_maxbuyin = 100, sp_btcpub = [], sp_btcpubkeys = replicate 9 [], sp_coinaddrs = replicate 9 [],
     sp_redeemScript = [], sp_scriptPubKey = []\<rparr>"

definition small_nodes :: "server_node list" where
  "small_nodes = [small_node 0, small_node 1]"

lemma small_seat: "i < 2 \<Longrightarrow> seat_ok small_ctx i (small_node i)"
  by (simp add: seat_ok_def small_node_def small_ctx_def small_card_keys_def)

lemma small_nodes_ok: "nodes_ok small_ctx small_nodes" "host_ready small_ctx (small_nodes ! 0)"
proof -
  have "x_N small_ctx = 2" "hn_sent (small_node i) = []" for i by (simp_all add: small_ctx_def small_node_def)
  then show "nodes_ok small_ctx small_nodes"
    using small_seat by (simp add: nodes_ok_def small_nodes_def less_2_cases_iff imp_disjL all_conj_distrib)
  have "bit (txid (replicate 32 1)) 0" unfolding txid_def bit_le_val by simp
  then have "txid (replicate 32 1) \<noteq> 0" by (metis bit_0_eq bot_apply bot_bool_def)
  then show "host_ready small_ctx (small_nodes ! 0)"
    by (simp add: host_ready_def small_nodes_def small_node_def small_ctx_def SUMMARY_MAX_def)
qed

lemma small_initdeck:
  "\<exists>chk. cards777_initdeck small_curve small_card_keys 5 (map (public_key small_curve) small_privs)
     = Some (map small_byte [3, 5, 1, 9, 5, 1, 4, 3, 9, 4], small_card_keys, chk)"
  unfolding cards777_initdeck_def small_card_keys_def small_privs_def
  by (simp add: initdeck_loop.simps small_bytes small_ops public_key_def small_crypt small_eq push_bit_eq_mult bit_iff_odd Let_def del: One_nat_def)

lemma small_shuffle5:
  "cards777_shuffle [1, 0, 1, 0, 0] (map small_byte [3, 5, 1, 9, 5, 1, 4, 3, 9, 4]) 5 2 = Some (map small_byte [1, 9, 3, 5, 9, 4, 4, 3, 5, 1])"
  unfolding cards777_shuffle_def card_permutation_def
  by (simp add: perm_step_def aget_def aput_def CARDS777_MAXCARDS_def upt_rec)

lemma small_chain:
  "encode_chain small_curve (\<lambda>_ _ _. []) 2 5 2 [([1, 0, 1, 0, 0], map small_byte [4, 4, 4, 4, 4, 4, 4, 4, 4, 4])] (map small_byte [3, 5, 1, 9, 5, 1, 4, 3, 9, 4])
     = Some (x_layers small_ctx, map small_byte [3, 5, 9, 4, 5, 1, 1, 9, 4, 3])"
  unfolding encode_chain.simps cards777_encode_def small_shuffle5
  by (simp add: cards777_layer_def small_layer small_eq small_ctx_def)


lemma small_keys5:
  "keys_ok small_curve 5 small_card_keys small_privs" "no_false_match small_curve small_card_keys small_privs"
proof -
  have "second_byte ` set small_card_keys = {0, 1, 2, 3, 4}"
    using small_key(4) [of 1] small_key(4) [of 2] small_key(4) [of 3] small_key(4) [of 4] small_key(4) [of 5] by (simp add: small_card_keys_def)
  then have "{..<5} \<subseteq> second_byte ` set small_card_keys" by auto
  then show "keys_ok small_curve 5 small_card_keys small_privs" unfolding keys_ok_def
    using small_key [of 1] small_key [of 2] small_key [of 3] small_key [of 4] small_key [of 5]
    by (simp add: small_ops nonzero_def public_key_def small_zero small_val_byte small_card_keys_def small_privs_def)
  show "no_false_match small_curve small_card_keys small_privs"
    unfolding no_false_match_def public_key_def small_ops small_card_keys_def small_privs_def by (simp add: small_crypt small_eq)
qed

lemma small_columns: "distinct_columns 5 2 (map small_byte [3, 5, 9, 4, 5, 1, 1, 9, 4, 3])"
  by (simp add: distinct_columns_def at_def small_eq upt_rec less_2_cases_iff imp_disjL all_conj_distrib)

lemma small_dealable: "dealable small_ctx small_card_keys"
proof -
  have f: "x_curve small_ctx = small_curve" "x_shares small_ctx = (\<lambda>_ _ _. [])" "x_M small_ctx = 2" "x_n small_ctx = 5" "x_N small_ctx = 2" "x_privs small_ctx = small_privs"
    "x_cardpubs small_ctx = small_card_keys" "x_env small_ctx = small_env" "x_cards small_ctx = map small_byte [3, 5, 1, 9, 5, 1, 4, 3, 9, 4]"
    "length small_privs = 2" "fcontract small_curve = small_byte" by (simp_all add: small_ctx_def small_privs_def small_ops)
  have len: "\<forall>a. length (small_byte a) = 32" by (simp add: small_byte_def)
  have env: "e_curve (small_env i) = small_curve" "e_shares (small_env i) = (\<lambda>_ _ _. [])" "e_behind (small_env i) \<noteq> []" "e_rnd (small_env i) = [1, 0, 1, 0, 0]"
    "e_secrets (small_env i) = map small_byte [4, 4, 4, 4, 4, 4, 4, 4, 4, 4]" for i by (simp_all add: small_env_def)
  have ps: "player_ok small_curve 5 2 (e_rnd (small_env i), e_secrets (small_env i))" for i
    by (simp add: player_ok_def nonzero_def factor_def small_ops small_zero small_val_byte env)
  have m: "map (\<lambda>i. (e_rnd (small_env i), e_secrets (small_env i))) [1..<2] = [([1, 0, 1, 0, 0], map small_byte [4, 4, 4, 4, 4, 4, 4, 4, 4, 4])]"
    by (simp add: upt_rec env)
  have "\<forall>l \<in> set (x_layers small_ctx). distinct_columns 5 2 (fst l)"
    using small_columns by (simp add: small_ctx_def)
  then show ?thesis unfolding dealable_def f m
    using small_curve_ok len small_keys5 env ps small_initdeck small_chain by simp
qed

theorem every_deal_completes_witness:
  "dealable small_ctx small_card_keys \<and> nodes_ok small_ctx small_nodes \<and> host_ready small_ctx (small_nodes ! 0)
    \<and> (\<exists>s \<sigma> n t. start_deal 1 small_nodes = Some s \<and> bij_betw \<sigma> {..<5 :: nat} {..<5} \<and> runs small_env s n t \<and> n < 18 \<and> n_flight t = []
        \<and> has_card small_ctx \<sigma> (n_nodes t) 0 \<and> has_card small_ctx \<sigma> (n_nodes t) 3)"
proof -
  have "x_n small_ctx = 5" "x_N small_ctx = 2" "x_env small_ctx = small_env" by (simp_all add: small_ctx_def)
  from every_deal_completes [OF small_dealable small_nodes_ok, of 1, unfolded this]
  obtain s \<sigma> n t where "start_deal 1 small_nodes = Some s" "bij_betw \<sigma> {..<5} {..<5}" "runs small_env s n t" "n_flight t = []"
      "n < 5 * 2 + 2 * 2 * 2 \<and> (n_flight t = [] \<longrightarrow> (\<forall>c < 2 * 2. has_card small_ctx \<sigma> (n_nodes t) c))" by blast
  then have "start_deal 1 small_nodes = Some s \<and> bij_betw \<sigma> {..<5 :: nat} {..<5} \<and> runs small_env s n t \<and> n < 18 \<and> n_flight t = []
      \<and> has_card small_ctx \<sigma> (n_nodes t) 0 \<and> has_card small_ctx \<sigma> (n_nodes t) 3" by simp
  then show ?thesis using small_dealable small_nodes_ok by blast
qed

end
