(* ===== verification/Cointx.thy ===== *)
theory Cointx
  imports Utils777
begin

text \<open>
  Coin transactions (\<open>plugins/coins/cointx.c\<close>): the Bitcoin wire format with variable-length
  integers, inputs and outputs, written into a byte buffer and read back from a hexadecimal
  string.

  A \<open>char\<close> array of a structure is the string that it holds; behind it the array is zero, as the
  code leaves it. \<open>None\<close> is an access outside an array. The bytes of the stack buffer behind the
  decoded transaction and the byte behind the terminator of a string are arguments, as is SHA-256.
\<close>

section \<open>Data\<close>

definition MAX_COINTX_INPUTS :: nat where "MAX_COINTX_INPUTS = 256"
definition MAX_COINTX_OUTPUTS :: nat where "MAX_COINTX_OUTPUTS = 256"

record rawvin =
  txidstr :: string
  vin_vout :: u16

record rawvout =
  vout_coinaddr :: string
  script :: string
  vout_value :: u64

record cointx_input =
  vin_tx :: rawvin
  vin_coinaddr :: string
  sigs :: string
  vin_value :: u64
  sequence :: u32
  vin_used :: u8

record cointx_info =
  tx_version :: u32
  tx_timestamp :: u32
  numinputs :: u32
  numoutputs :: u32
  inputs :: "cointx_input list"
  outputs :: "rawvout list"
  nlocktime :: u32

text \<open>The sizes of the arrays \<open>txidstr\<close>, \<open>sigs\<close> and \<open>script\<close>.\<close>

definition TXIDSTR_SIZE :: nat where "TXIDSTR_SIZE = 128"
definition SIGS_SIZE :: nat where "SIGS_SIZE = 4096"
definition SCRIPT_SIZE :: nat where "SCRIPT_SIZE = 2048"

definition zero_input :: cointx_input where
  "zero_input = \<lparr>vin_tx = \<lparr>txidstr = [], vin_vout = 0\<rparr>, vin_coinaddr = [], sigs = [], vin_value = 0, sequence = 0, vin_used = 0\<rparr>"

definition zero_output :: rawvout where
  "zero_output = \<lparr>vout_coinaddr = [], script = [], vout_value = 0\<rparr>"

text \<open>The contents of an array that holds a string, and reading and writing a byte buffer.\<close>

definition char_array :: "nat \<Rightarrow> string \<Rightarrow> string" where
  "char_array cap s = s @ replicate (cap - length s) (CHR 0x00)"

definition peek :: "u8 list \<Rightarrow> int \<Rightarrow> nat \<Rightarrow> u8 list option" where
  "peek data offset n = (if 0 \<le> offset \<and> nat offset + n \<le> length data then Some (take n (drop (nat offset) data)) else None)"

definition poke :: "u8 list \<Rightarrow> nat \<Rightarrow> u8 list \<Rightarrow> (u8 list \<times> nat) option" where
  "poke data offset bs =
     (if offset + length bs \<le> length data then Some (take offset data @ bs @ drop (offset + length bs) data, offset + length bs) else None)"

section \<open>Integers\<close>

definition hdecode_varint :: "u8 list \<Rightarrow> int \<Rightarrow> int \<Rightarrow> (u64 \<times> int) option" where
  "hdecode_varint ptr offset mappedsize =
     (if offset < 0 \<or> offset \<ge> mappedsize then Some (0, - 1)
      else do {
        c \<leftarrow> aget ptr offset;
        let offset = offset + 1;
        if c = 0xfd
        then (if offset + 2 > mappedsize then Some (0, - 1) else do { bs \<leftarrow> peek ptr offset 2; Some (le_val bs, offset + 2) })
        else if c = 0xfe
        then (if offset + 4 > mappedsize then Some (0, - 1) else do { bs \<leftarrow> peek ptr offset 4; Some (le_val bs, offset + 4) })
        else if c = 0xff
        then (if offset + 8 > mappedsize then Some (0, - 1) else do { bs \<leftarrow> peek ptr offset 8; Some (le_val bs, offset + 8) })
        else Some (ucast c, offset) })"

definition hcalc_varint :: "u64 \<Rightarrow> u8 list" where
  "hcalc_varint x =
     (if x < 0xfd then [ucast (x AND 0xff)]
      else if x \<le> 0xffff then 0xfd # le_bytes 2 (ucast x :: u16)
      else if x \<le> 0xffffffff then 0xfe # le_bytes 4 (ucast x :: u32)
      else 0xff # le_bytes 8 x)"

definition emit_uint32 :: "u8 list \<Rightarrow> nat \<Rightarrow> u32 \<Rightarrow> (u8 list \<times> nat) option" where
  "emit_uint32 data offset x = poke data offset (le_bytes 4 x)"

definition decode_uint32 :: "u8 list \<Rightarrow> int \<Rightarrow> int \<Rightarrow> (u32 \<times> int) option" where
  "decode_uint32 data offset len =
     do { bs \<leftarrow> peek data offset 4;
          Some (le_val bs, if offset + 4 > len then - 1 else offset + 4) }"

section \<open>Inputs and outputs\<close>

text \<open>\<open>init_hexbytes_noT\<close> from a buffer into a \<open>char\<close> array of the given size.\<close>

definition hex_field :: "nat \<Rightarrow> u8 list \<Rightarrow> int \<Rightarrow> nat \<Rightarrow> string option" where
  "hex_field cap data offset n =
     do { bs \<leftarrow> peek data offset n;
          let (len, s) = init_hexbytes_noT bs;
          if len \<le> cap then Some s else None }"

text \<open>A negative offset is a failed decoding.\<close>

definition decode_vin :: "u8 list \<Rightarrow> int \<Rightarrow> int \<Rightarrow> (cointx_input \<times> int) option" where
  "decode_vin data offset len =
     do { bs \<leftarrow> peek data offset 32;
          let vin = zero_input\<lparr>vin_tx := \<lparr>txidstr = snd (init_hexbytes_noT (rev bs)), vin_vout = 0\<rparr>\<rparr>;
          (vout, offset) \<leftarrow> decode_uint32 data (offset + 32) len;
          if offset < 0 then Some (vin, - 1)
          else do {
            let vin = vin\<lparr>vin_tx := (vin_tx vin)\<lparr>vin_vout := ucast vout\<rparr>\<rparr>;
            (siglen, offset) \<leftarrow> hdecode_varint data offset len;
            if offset < 0 \<or> unat siglen > SIGS_SIZE then Some (vin, - 1)
            else do {
              s \<leftarrow> hex_field SIGS_SIZE data offset (unat siglen);
              (seq, offset) \<leftarrow> decode_uint32 data (offset + uint siglen) len;
              Some (vin\<lparr>sigs := s, sequence := seq\<rparr>, offset) } } }"

text \<open>\<open>decode_hex\<close> from a \<open>char\<close> array into the buffer.\<close>

definition poke_hex :: "u8 list \<Rightarrow> nat \<Rightarrow> nat \<Rightarrow> nat \<Rightarrow> string \<Rightarrow> (u8 list \<times> nat) option" where
  "poke_hex data offset n cap s =
     (if n = 0 then Some (data, offset)
      else do { (_, bs) \<leftarrow> decode_hex n (char_array cap s);
                (data, _) \<leftarrow> poke data offset bs;
                Some (data, offset + n) })"

definition emit_cointx_input :: "u8 list \<Rightarrow> nat \<Rightarrow> cointx_input \<Rightarrow> (u8 list \<times> nat) option" where
  "emit_cointx_input data offset vin =
     do { (_, revdata) \<leftarrow> decode_hex 32 (char_array TXIDSTR_SIZE (txidstr (vin_tx vin)));
          (data, offset) \<leftarrow> (if length revdata \<noteq> 32 then None else poke data offset (rev revdata));
          (data, offset) \<leftarrow> emit_uint32 data offset (ucast (vin_vout (vin_tx vin)));
          let siglen = length (sigs vin) div 2;
          (data, offset) \<leftarrow> poke data offset (hcalc_varint (of_nat siglen));
          (data, offset) \<leftarrow> poke_hex data offset siglen SIGS_SIZE (sigs vin);
          emit_uint32 data offset (sequence vin) }"

definition emit_cointx_output :: "u8 list \<Rightarrow> nat \<Rightarrow> rawvout \<Rightarrow> (u8 list \<times> nat) option" where
  "emit_cointx_output data offset vout =
     do { (data, offset) \<leftarrow> emit_uint32 data offset (ucast (vout_value vout));
          (data, offset) \<leftarrow> emit_uint32 data offset (ucast (drop_bit 32 (vout_value vout)));
          let scriptlen = length (script vout) div 2;
          (data, offset) \<leftarrow> poke data offset (hcalc_varint (of_nat scriptlen));
          poke_hex data offset scriptlen SCRIPT_SIZE (script vout) }"

definition decode_vout :: "u8 list \<Rightarrow> int \<Rightarrow> int \<Rightarrow> (rawvout \<times> int) option" where
  "decode_vout data offset len =
     do { (low, offset) \<leftarrow> decode_uint32 data offset len;
          if offset < 0 then Some (zero_output, - 1)
          else do {
            (high, offset) \<leftarrow> decode_uint32 data offset len;
            if offset < 0 then Some (zero_output, - 1)
            else do {
              let vout = zero_output\<lparr>vout_value := push_bit 32 (ucast high) OR ucast low\<rparr>;
              (scriptlen, offset) \<leftarrow> hdecode_varint data offset len;
              if offset < 0 \<or> unat scriptlen > SCRIPT_SIZE then Some (vout, - 1)
              else do {
                s \<leftarrow> hex_field SCRIPT_SIZE data offset (unat scriptlen);
                Some (vout\<lparr>script := s\<rparr>, offset + uint scriptlen) } } } }"

section \<open>Transactions\<close>

text \<open>The loops over inputs and outputs; writing ends early when it has passed the limit.\<close>

fun emit_items :: "(u8 list \<Rightarrow> nat \<Rightarrow> 'a \<Rightarrow> (u8 list \<times> nat) option) \<Rightarrow> nat \<Rightarrow> 'a list \<Rightarrow> u8 list \<Rightarrow> nat \<Rightarrow> (u8 list \<times> nat option) option" where
  "emit_items emit maxlen [] data offset = Some (data, Some offset)"
| "emit_items emit maxlen (x # xs) data offset =
     do { (data, offset) \<leftarrow> emit data offset x;
          if offset > maxlen then Some (data, None) else emit_items emit maxlen xs data offset }"

fun decode_items :: "(u8 list \<Rightarrow> int \<Rightarrow> int \<Rightarrow> ('a \<times> int) option) \<Rightarrow> nat \<Rightarrow> u8 list \<Rightarrow> int \<Rightarrow> int \<Rightarrow> ('a list \<times> int) option option" where
  "decode_items decode 0 data offset len = Some (Some ([], offset))"
| "decode_items decode (Suc n) data offset len =
     do { (x, offset) \<leftarrow> decode data offset len;
          if offset < 0 then Some None
          else do { r \<leftarrow> decode_items decode n data offset len;
                    Some (map_option (\<lambda>(xs, offset). (x # xs, offset)) r) } }"

text \<open>\<open>None\<close> inside stands for the return value \<open>- 1\<close>.\<close>

definition emit_cointxdata :: "u8 list \<Rightarrow> nat \<Rightarrow> cointx_info \<Rightarrow> bool \<Rightarrow> (u8 list \<times> nat option) option" where
  "emit_cointxdata data maxlen cointx oldtx =
     (if length (inputs cointx) < unat (numinputs cointx) \<or> length (outputs cointx) < unat (numoutputs cointx) then None
      else do {
        (data, offset) \<leftarrow> emit_uint32 data 0 (tx_version cointx);
        (data, offset) \<leftarrow> (if \<not> oldtx then emit_uint32 data offset (tx_timestamp cointx) else Some (data, offset));
        (data, offset) \<leftarrow> poke data offset (hcalc_varint (ucast (numinputs cointx)));
        (data, r) \<leftarrow> emit_items emit_cointx_input maxlen (take (unat (numinputs cointx)) (inputs cointx)) data offset;
        case r of None \<Rightarrow> Some (data, None)
        | Some offset \<Rightarrow> do {
            (data, offset) \<leftarrow> poke data offset (hcalc_varint (ucast (numoutputs cointx)));
            (data, r) \<leftarrow> emit_items emit_cointx_output maxlen (take (unat (numoutputs cointx)) (outputs cointx)) data offset;
            case r of None \<Rightarrow> Some (data, None)
            | Some offset \<Rightarrow> do {
                (data, offset) \<leftarrow> emit_uint32 data offset (nlocktime cointx);
                Some (data, Some offset) } } })"

text \<open>
  \<open>_emit_cointx\<close>: the hexadecimal string and the return value. After a failed call the length
  \<open>- 1\<close> is passed on to \<open>init_hexbytes_noT\<close>, which writes in front of the string.
\<close>

definition emit_cointx_hex :: "nat \<Rightarrow> cointx_info \<Rightarrow> bool \<Rightarrow> (string \<times> int) option" where
  "emit_cointx_hex len cointx oldtx =
     do { (data, r) \<leftarrow> emit_cointxdata (replicate len 0) len cointx oldtx;
          case r of
            None \<Rightarrow> if - 1 < int (len div 2) - 1 then None else Some ([], - 1)
          | Some offset \<Rightarrow>
              if int offset < int (len div 2) - 1 then Some (snd (init_hexbytes_noT (take offset data)), int offset)
              else Some ([], - 1) }"

text \<open>\<open>emit_cointx\<close>: the buffer, the return value and the double hash that is signed.\<close>

definition emit_cointx ::
    "(u8 list \<Rightarrow> u8 list) \<Rightarrow> u8 list \<Rightarrow> nat \<Rightarrow> cointx_info \<Rightarrow> bool \<Rightarrow> u32 \<Rightarrow> u8 list \<Rightarrow> (u8 list \<times> int \<times> u8 list) option" where
  "emit_cointx calc_sha256 data maxlen cointx oldtx hashtype hash2 =
     do { (data, r) \<leftarrow> emit_cointxdata data maxlen cointx oldtx;
          case r of
            None \<Rightarrow> Some (data, - 1, hash2)
          | Some offset \<Rightarrow>
              if offset > maxlen then Some (data, - 1, hash2)
              else if hashtype \<noteq> 0
              then do { (data, _) \<leftarrow> emit_uint32 data offset hashtype;
                        Some (data, int offset, calc_sha256 (calc_sha256 (take (offset + 4) data))) }
              else Some (data, int offset, hash2) }"

text \<open>The string, which loses a pair of zeros at its end when the transaction is printed without them.\<close>

definition validate_decoderawtransaction :: "string \<Rightarrow> cointx_info \<Rightarrow> bool \<Rightarrow> (bool \<times> string) option" where
  "validate_decoderawtransaction hexstr cointx oldtx =
     do { (checkstr, _) \<leftarrow> emit_cointx_hex (length hexstr * 2) cointx oldtx;
          let hlen = length hexstr;
          if checkstr = hexstr then Some (True, hexstr)
          else if length checkstr + 2 = hlen \<and> hexstr ! (hlen - 1) = hexstr ! (hlen - 2) \<and> hexstr ! (hlen - 1) = CHR ''0''
          then Some (False, take (hlen - 2) hexstr)
          else Some (False, hexstr) }"

definition RAWTX_BUFSIZE :: nat where "RAWTX_BUFSIZE = 8192"

text \<open>\<open>behind\<close> is the memory behind the string, \<open>stack\<close> the stack buffer before it is filled. \<open>None\<close> inside is the null pointer.\<close>

definition decode_rawtransaction :: "string \<Rightarrow> u8 list \<Rightarrow> string \<Rightarrow> bool \<Rightarrow> (cointx_info option \<times> string) option" where
  "decode_rawtransaction behind stack hexstr oldtx =
     (if length hexstr \<ge> RAWTX_BUFSIZE * 2 - 1 \<or> \<not> is_hexstr hexstr \<or> odd (length hexstr) then Some (None, hexstr)
      else do {
        let len = length hexstr div 2;
        (_, bs) \<leftarrow> decode_hex len (hexstr @ CHR 0x00 # behind);
        (data, _) \<leftarrow> poke stack 0 bs;
        let len = int len;
        (version, offset) \<leftarrow> decode_uint32 data 0 len;
        (timestamp, offset) \<leftarrow> (if \<not> oldtx then decode_uint32 data offset len else Some (0, offset));
        (n, offset) \<leftarrow> hdecode_varint data offset len;
        if unat n > MAX_COINTX_INPUTS then Some (None, hexstr)
        else do {
          r \<leftarrow> decode_items decode_vin (unat n) data offset len;
          case r of None \<Rightarrow> Some (None, hexstr)
          | Some (vins, offset) \<Rightarrow> do {
              (m, offset) \<leftarrow> hdecode_varint data offset len;
              if unat m > MAX_COINTX_OUTPUTS then Some (None, hexstr)
              else do {
                r \<leftarrow> decode_items decode_vout (unat m) data offset len;
                case r of None \<Rightarrow> Some (None, hexstr)
                | Some (vouts, offset) \<Rightarrow> do {
                    (lock, offset) \<leftarrow> decode_uint32 data offset len;
                    let cointx = \<lparr>tx_version = version, tx_timestamp = timestamp, numinputs = ucast n, numoutputs = ucast m,
                          inputs = vins @ replicate (MAX_COINTX_INPUTS - length vins) zero_input,
                          outputs = vouts @ replicate (MAX_COINTX_OUTPUTS - length vouts) zero_output, nlocktime = lock\<rparr>;
                    (_, hexstr) \<leftarrow> validate_decoderawtransaction hexstr cointx oldtx;
                    Some (Some cointx, hexstr) } } } } })"

section \<open>Buffers\<close>

lemma poke_poke: "poke data offset a \<bind> (\<lambda>(data, offset). poke data offset b) = poke data offset (a @ b)"
  by (auto simp: poke_def ac_simps)

lemma poke_then: "poke data offset a = Some (data', offset') \<Longrightarrow> poke data' offset' b = poke data offset (a @ b)"
  using poke_poke [of data offset a b] by simp

lemma poke_some: "offset + length bs \<le> length data \<Longrightarrow> \<exists>data'. poke data offset bs = Some (data', offset + length bs) \<and> length data' = length data"
  by (simp add: poke_def)

lemma peek_at: "peek (pre @ bs @ post) (int (length pre)) (length bs) = Some bs"
  by (simp add: peek_def)

text \<open>
  The contract of a part of a transaction: it is written as a string of bytes, and these bytes are
  read back, wherever they stand in the buffer.
\<close>

locale wire_format =
  fixes emit :: "u8 list \<Rightarrow> nat \<Rightarrow> 'a \<Rightarrow> (u8 list \<times> nat) option"
    and decode :: "u8 list \<Rightarrow> int \<Rightarrow> int \<Rightarrow> ('a \<times> int) option"
    and bytes :: "'a \<Rightarrow> u8 list" and ok :: "'a \<Rightarrow> bool"
  assumes emit_bytes: "ok x \<Longrightarrow> offset + length (bytes x) \<le> length data \<Longrightarrow> emit data offset x = poke data offset (bytes x)"
    and decode_bytes: "ok x \<Longrightarrow> int (length pre + length (bytes x)) \<le> len
      \<Longrightarrow> decode (pre @ bytes x @ post) (int (length pre)) len = Some (x, int (length pre + length (bytes x)))"
begin

lemma emit_items_bytes:
  assumes "\<forall>x \<in> set xs. ok x" and "offset + length (concat (map bytes xs)) \<le> maxlen" and "maxlen \<le> length data"
  shows "emit_items emit maxlen xs data offset = do { (data, offset) \<leftarrow> poke data offset (concat (map bytes xs)); Some (data, Some offset) }"
  using assms
proof (induction xs arbitrary: data offset)
  case Nil
  then show ?case by (simp add: poke_def)
next
  case (Cons x xs)
  have len: "offset + length (bytes x) \<le> length data" "offset + length (bytes x) + length (concat (map bytes xs)) \<le> maxlen" using Cons.prems by simp_all
  obtain data' where p: "poke data offset (bytes x) = Some (data', offset + length (bytes x))" "length data' = length data"
    using poke_some [OF len(1)] by blast
  have "emit_items emit maxlen xs data' (offset + length (bytes x))
      = do { (data, offset) \<leftarrow> poke data' (offset + length (bytes x)) (concat (map bytes xs)); Some (data, Some offset) }"
    by (rule Cons.IH) (use Cons.prems len(2) p(2) in simp_all)
  then show ?case using Cons.prems emit_bytes [of x offset data] len(1) p(1) poke_then [OF p(1)] len(2) by simp
qed

lemma decode_items_bytes:
  assumes "\<forall>x \<in> set xs. ok x" and "int (length pre + length (concat (map bytes xs))) \<le> len"
  shows "decode_items decode (length xs) (pre @ concat (map bytes xs) @ post) (int (length pre)) len
    = Some (Some (xs, int (length pre + length (concat (map bytes xs)))))"
  using assms
proof (induction xs arbitrary: pre)
  case (Cons x xs)
  have "decode (pre @ bytes x @ concat (map bytes xs) @ post) (int (length pre)) len = Some (x, int (length pre + length (bytes x)))"
    by (rule decode_bytes) (use Cons.prems in simp_all)
  moreover have "decode_items decode (length xs) ((pre @ bytes x) @ concat (map bytes xs) @ post) (int (length (pre @ bytes x))) len
      = Some (Some (xs, int (length (pre @ bytes x) + length (concat (map bytes xs)))))"
    by (rule Cons.IH) (use Cons.prems in simp_all)
  ultimately show ?case by (simp add: add.assoc)
qed simp

end

section \<open>Integers on the wire\<close>

lemma uint32_bytes:
  "int (length pre + 4) \<le> len \<Longrightarrow> decode_uint32 (pre @ le_bytes 4 x @ post) (int (length pre)) len = Some (x, int (length pre + 4))"
  using peek_at [of pre "le_bytes 4 x" post] by (simp add: decode_uint32_def le_val_le_bytes)

lemma le_val_narrow:
  assumes "unat (x :: u64) < 2 ^ LENGTH('a)" and "LENGTH('a) = 8 * n"
  shows "le_val (le_bytes n (ucast x :: 'a::len word)) = x"
proof (rule bit_word_eqI)
  fix k assume k: "k < LENGTH(64)"
  have "k < LENGTH('a)" if "bit x k"
  proof (rule ccontr)
    assume "\<not> k < LENGTH('a)"
    then have "(2 :: nat) ^ LENGTH('a) \<le> 2 ^ k" by (simp add: power_increasing)
    then have "unat x < 2 ^ k" using assms(1) by linarith
    then have "\<not> bit (unat x) k" by (simp add: bit_iff_odd)
    then show False using that by (simp add: bit_unsigned_iff)
  qed
  moreover have "k < LENGTH('a) \<longleftrightarrow> k div 8 < n" using assms(2) by (simp add: less_mult_imp_div_less mult.commute div_less_iff_less_mult)
  ultimately show "bit (le_val (le_bytes n (ucast x :: 'a word)) :: u64) k = bit x k"
    using k by (auto simp: bit_le_val bit_le_bytes_nth bit_ucast_iff)
qed

lemma varint_length: "0 < length (hcalc_varint x)" "length (hcalc_varint x) \<le> 9"
  by (simp_all add: hcalc_varint_def)

lemma varint_bytes:
  assumes "int (length pre + length (hcalc_varint x)) \<le> len"
  shows "hdecode_varint (pre @ hcalc_varint x @ post) (int (length pre)) len = Some (x, int (length pre + length (hcalc_varint x)))"
proof -
  have first: "aget (pre @ (b # bs) @ post) (int (length pre)) = Some b" for b bs by (simp add: aget_def)
  have rest: "peek (pre @ (b # bs) @ post) (int (length pre) + 1) (length bs) = Some bs" for b bs
    using peek_at [of "pre @ [b]" bs post] by (simp add: add.commute)
  have lt: "int (length pre) < len" using assms varint_length(1) [of x] by linarith
  consider "x < 0xfd" | "\<not> x < 0xfd" "x \<le> 0xffff" | "\<not> x \<le> 0xffff" "x \<le> 0xffffffff" | "\<not> x \<le> 0xffffffff" by fastforce
  then show ?thesis
  proof cases
    case 1
    then have u: "unat x < 253" by (simp add: word_less_nat_alt)
    have "x AND 0xff = take_bit 8 x" by (simp add: take_bit_eq_mask mask_eq_exp_minus_1)
    then have low: "unat (ucast (x AND 0xff) :: u8) = unat x"
      using u by (simp add: unsigned_ucast_eq take_bit_eq_mod unat_mod)
    have "unat (ucast (y :: u8) :: u64) = unat y" for y using unsigned_less [of y, where ?'a = nat] by (simp add: unsigned_ucast_eq take_bit_eq_mod)
    then have "(ucast (ucast (x AND 0xff) :: u8) :: u64) = x" using low by (intro word_unat_eq_iff [THEN iffD2]) metis
    moreover have "(ucast (x AND 0xff) :: u8) \<notin> {0xfd, 0xfe, 0xff}" using low u by auto
    ultimately show ?thesis using 1 lt first [of _ "[]"] by (simp add: hdecode_varint_def hcalc_varint_def)
  next
    case 2
    then have u: "unat x < 2 ^ LENGTH(16)" by (simp add: word_le_nat_alt)
    let ?bs = "le_bytes 2 (ucast x :: u16)"
    have e: "hcalc_varint x = 0xfd # ?bs" using 2 by (simp add: hcalc_varint_def)
    have "peek (pre @ (0xfd # ?bs) @ post) (int (length pre) + 1) 2 = Some ?bs" using rest [of "0xfd" ?bs] by simp
    then show ?thesis using assms lt first [of "0xfd" ?bs] le_val_narrow [OF u, of 2] unfolding e by (simp add: hdecode_varint_def)
  next
    case 3
    then have n: "\<not> x < 0xfd" "unat x < 2 ^ LENGTH(32)" by (auto simp: word_le_nat_alt word_less_nat_alt)
    let ?bs = "le_bytes 4 (ucast x :: u32)"
    have e: "hcalc_varint x = 0xfe # ?bs" using 3 n by (simp add: hcalc_varint_def)
    have "peek (pre @ (0xfe # ?bs) @ post) (int (length pre) + 1) 4 = Some ?bs" using rest [of "0xfe" ?bs] by simp
    then show ?thesis using assms lt first [of "0xfe" ?bs] le_val_narrow [OF n(2), of 4] unfolding e by (simp add: hdecode_varint_def)
  next
    case 4
    then have n: "\<not> x < 0xfd" "\<not> x \<le> 0xffff" by (auto simp: word_le_nat_alt word_less_nat_alt)
    let ?bs = "le_bytes 8 x"
    have e: "hcalc_varint x = 0xff # ?bs" using 4 n by (simp add: hcalc_varint_def)
    have "peek (pre @ (0xff # ?bs) @ post) (int (length pre) + 1) 8 = Some ?bs" using rest [of "0xff" ?bs] by simp
    then show ?thesis using assms lt first [of "0xff" ?bs] le_val_le_bytes [of 8 x] unfolding e by (simp add: hdecode_varint_def)
  qed
qed

section \<open>Hexadecimal fields\<close>

definition hex_text :: "string \<Rightarrow> bool" where
  "hex_text s \<longleftrightarrow> even (length s) \<and> (\<forall>c \<in> set s. 0 \<le> unhex c)"

fun hex_bytes :: "string \<Rightarrow> u8 list" where
  "hex_bytes (a # b # s) = decode_hexpair a b # hex_bytes s"
| "hex_bytes _ = []"

lemma hexbyte_nat:
  assumes "k < 16"
  shows "hexbyte (word_of_nat k) = char_of (if k < 10 then 48 + k else 87 + k)"
proof -
  have "(word_of_nat k :: u8) AND 0xf = take_bit 4 (word_of_nat k)" by (simp add: take_bit_eq_mask mask_eq_exp_minus_1)
  then have "unat ((word_of_nat k :: u8) AND 0xf) = take_bit 4 (unat (word_of_nat k :: u8))" by (simp only: unsigned_take_bit_eq)
  then have "unat ((word_of_nat k :: u8) AND 0xf) = k" using assms by (simp add: unsigned_of_nat take_bit_eq_mod)
  then show ?thesis using assms by (simp add: hexbyte_def Let_def)
qed

lemma hex_char:
  assumes "0 \<le> unhex c"
  shows "\<exists>k < 16. c = hexbyte (word_of_nat k) \<and> unhex c = int k"
proof -
  define n :: nat where "n = of_char c"
  have c: "c = char_of n" "(of_char c :: int) = int n" using of_nat_of_char [of c, where ?'a = int] by (simp_all add: n_def)
  have n: "48 \<le> n \<and> n \<le> 57 \<or> 97 \<le> n \<and> n \<le> 102"
    using assms c(2) by (auto simp: unhex_def is_digit_def n_def [symmetric] split: if_splits)
  let ?k = "if n \<le> 57 then n - 48 else n - 87"
  have "?k < 16" "c = hexbyte (word_of_nat ?k)" using n c(1) hexbyte_nat [of ?k] by auto
  moreover have "unhex c = int ?k" using n c(2) by (auto simp: unhex_def is_digit_def n_def [symmetric])
  ultimately show ?thesis by blast
qed

lemma hexpair_back:
  assumes "0 \<le> unhex a" and "0 \<le> unhex b"
  shows "hexbyte (drop_bit 4 (decode_hexpair a b) AND 0xf) = a" "hexbyte (decode_hexpair a b AND 0xf) = b"
proof -
  obtain i j where i: "i < 16" "a = hexbyte (word_of_nat i)" "unhex a = int i" and j: "j < 16" "b = hexbyte (word_of_nat j)" "unhex b = int j"
    using hex_char [OF assms(1)] hex_char [OF assms(2)] by blast
  let ?i = "word_of_nat i :: u8" and ?j = "word_of_nat j :: u8"
  have e: "decode_hexpair a b = push_bit 4 ?i OR ?j" using i(3) j(3) by (simp add: decode_hexpair_def)
  have f: "(0xf :: u8) = mask 4" by (simp add: mask_eq_exp_minus_1)
  have high: "\<not> bit (m :: nat) k" if "m < 16" "4 \<le> k" for m k
    using order_less_le_trans [OF that(1), of "2 ^ k"] power_increasing [OF that(2), of "2 :: nat"] by (simp add: bit_iff_odd)
  have small: "\<not> bit j (4 + k)" "bit i k \<Longrightarrow> k < 4" "bit j k \<Longrightarrow> k < 4" for k
    using high [OF i(1), of k] high [OF j(1), of k] high [OF j(1), of "4 + k"] by (auto simp: not_le [symmetric])
  have "drop_bit 4 (push_bit 4 ?i OR ?j) AND mask 4 = ?i"
    by (rule bit_word_eqI) (use small in \<open>auto simp: bit_simps possible_bit_def\<close>)
  moreover have "(push_bit 4 ?i OR ?j) AND mask 4 = ?j"
    by (rule bit_word_eqI) (use small in \<open>auto simp: bit_simps possible_bit_def\<close>)
  ultimately show "hexbyte (drop_bit 4 (decode_hexpair a b) AND 0xf) = a" "hexbyte (decode_hexpair a b AND 0xf) = b"
    unfolding e f using i(2) j(2) by simp_all
qed

lemma hexdigits_hex_bytes: "hex_text s \<Longrightarrow> hexdigits (hex_bytes s) = s"
proof (induction s rule: hex_bytes.induct)
  case (1 a b s)
  then show ?case using hexpair_back [of a b] by (simp add: hex_text_def hexdigits_def)
qed (auto simp: hex_text_def hexdigits_def)

lemma length_hex_bytes: "length (hex_bytes s) = length s div 2"
  by (induction s rule: hex_bytes.induct) auto

lemma print_hex: "snd (init_hexbytes_noT bs) = hexdigits bs" "fst (init_hexbytes_noT bs) = 2 * length bs + 1"
  by (simp_all add: init_hexbytes_noT_def hexdigits_def)

lemma decode_hex_array:
  assumes "hex_text s" and "s \<noteq> []" and "length s + 2 \<le> cap"
  shows "\<exists>n. decode_hex (length s div 2) (char_array cap s) = Some (n, hex_bytes s)"
proof -
  have "cap - length s = Suc (Suc (cap - length s - 2))" using assms(3) by simp
  then have "char_array cap s = s @ CHR 0x00 # CHR 0x00 # replicate (cap - length s - 2) (CHR 0x00)" unfolding char_array_def by (metis replicate_Suc)
  moreover have "hex_bytes s \<noteq> []" using assms(1,2) length_hex_bytes [of s] hexdigits_hex_bytes [OF assms(1)] by (auto simp: hexdigits_def)
  ultimately show ?thesis
    using hex_back [of "hex_bytes s" "CHR 0x00" "replicate (cap - length s - 2) (CHR 0x00)"] hexdigits_hex_bytes [OF assms(1)]
    by (simp add: print_hex length_hex_bytes)
qed

lemma poke_hex_bytes:
  assumes "hex_text s" and "length s + 2 \<le> cap" and "offset \<le> length data"
  shows "poke_hex data offset (length s div 2) cap s = poke data offset (hex_bytes s)"
proof (cases "s = []")
  case True
  then show ?thesis using assms(3) by (simp add: poke_hex_def poke_def)
next
  case False
  have "length s div 2 \<noteq> 0" using False assms(1) by (cases s rule: hex_bytes.cases) (auto simp: hex_text_def)
  then show ?thesis using decode_hex_array [OF assms(1) False assms(2)] length_hex_bytes [of s] by (auto simp: poke_hex_def poke_def)
qed

lemma hex_field_at: "2 * length bs < cap \<Longrightarrow> hex_field cap (pre @ bs @ post) (int (length pre)) (length bs) = Some (hexdigits bs)"
  using peek_at [of pre bs post] by (simp add: hex_field_def print_hex split: prod.splits) (metis fst_conv snd_conv print_hex Suc_leI add.commute plus_1_eq_Suc)

text \<open>Writing several fields one after the other.\<close>

lemma poke_seq:
  assumes "offset + length (a @ b) \<le> length data"
    and "\<And>data'. length data' = length data \<Longrightarrow> f data' (offset + length a) = poke data' (offset + length a) b"
  shows "poke data offset a \<bind> (\<lambda>(data, offset). f data offset) = poke data offset (a @ b)"
proof -
  obtain data' where p: "poke data offset a = Some (data', offset + length a)" "length data' = length data" using poke_some [of offset a data] assms(1) by auto
  then show ?thesis using assms(2) [OF p(2)] poke_then [OF p(1)] by simp
qed

section \<open>Inputs and outputs on the wire\<close>

definition vin_bytes :: "cointx_input \<Rightarrow> u8 list" where
  "vin_bytes vin = rev (hex_bytes (txidstr (vin_tx vin))) @ le_bytes 4 (ucast (vin_vout (vin_tx vin)) :: u32)
     @ hcalc_varint (of_nat (length (sigs vin) div 2)) @ hex_bytes (sigs vin) @ le_bytes 4 (sequence vin)"

definition vin_ok :: "cointx_input \<Rightarrow> bool" where
  "vin_ok vin \<longleftrightarrow> hex_text (txidstr (vin_tx vin)) \<and> length (txidstr (vin_tx vin)) = 64
     \<and> hex_text (sigs vin) \<and> length (sigs vin) < SIGS_SIZE - 1 \<and> vin_coinaddr vin = [] \<and> vin_value vin = 0 \<and> vin_used vin = 0"

definition vout_bytes :: "rawvout \<Rightarrow> u8 list" where
  "vout_bytes vout = le_bytes 4 (ucast (vout_value vout) :: u32) @ le_bytes 4 (ucast (drop_bit 32 (vout_value vout)) :: u32)
     @ hcalc_varint (of_nat (length (script vout) div 2)) @ hex_bytes (script vout)"

definition vout_ok :: "rawvout \<Rightarrow> bool" where
  "vout_ok vout \<longleftrightarrow> hex_text (script vout) \<and> length (script vout) < SCRIPT_SIZE - 1 \<and> vout_coinaddr vout = []"

lemma emit_vin:
  assumes ok: "vin_ok vin" and len: "offset + length (vin_bytes vin) \<le> length data"
  shows "emit_cointx_input data offset vin = poke data offset (vin_bytes vin)"
proof -
  let ?t = "txidstr (vin_tx vin)" and ?n = "length (sigs vin) div 2"
  have t: "length (hex_bytes ?t) = 32" "?t \<noteq> []" "hex_text ?t" "length ?t div 2 = 32" using ok by (auto simp: vin_ok_def length_hex_bytes)
  obtain k where h: "decode_hex 32 (char_array TXIDSTR_SIZE ?t) = Some (k, hex_bytes ?t)"
    using decode_hex_array [OF t(3,2), of TXIDSTR_SIZE] ok t(4) by (auto simp: vin_ok_def TXIDSTR_SIZE_def)
  have s: "hex_text (sigs vin)" "length (sigs vin) + 2 \<le> SIGS_SIZE" using ok by (auto simp: vin_ok_def)
  have "emit_cointx_input data offset vin = poke data offset (rev (hex_bytes ?t)) \<bind> (\<lambda>(data, offset).
      poke data offset (le_bytes 4 (ucast (vin_vout (vin_tx vin)) :: u32)) \<bind> (\<lambda>(data, offset).
      poke data offset (hcalc_varint (of_nat ?n)) \<bind> (\<lambda>(data, offset).
      poke_hex data offset ?n SIGS_SIZE (sigs vin) \<bind> (\<lambda>(data, offset). poke data offset (le_bytes 4 (sequence vin))))))"
    using h t(1) by (simp add: emit_cointx_input_def emit_uint32_def Let_def)
  also have "\<dots> = poke data offset (vin_bytes vin)" unfolding vin_bytes_def
    by (intro poke_seq) (use len poke_hex_bytes [OF s] in \<open>auto simp: vin_bytes_def intro!: poke_seq\<close>)
  finally show ?thesis .
qed

lemma decode_vin_at:
  assumes ok: "vin_ok vin" and len: "int (length pre + length (vin_bytes vin)) \<le> len"
  shows "decode_vin (pre @ vin_bytes vin @ post) (int (length pre)) len = Some (vin, int (length pre + length (vin_bytes vin)))"
proof -
  define t n where "t = rev (hex_bytes (txidstr (vin_tx vin)))" and "n = (of_nat (length (sigs vin) div 2) :: u64)"
  define v q where "v = (ucast (vin_vout (vin_tx vin)) :: u32)" and "q = hex_bytes (sigs vin)"
  let ?D = "pre @ t @ le_bytes 4 v @ hcalc_varint n @ q @ le_bytes 4 (sequence vin) @ post"
  have D: "pre @ vin_bytes vin @ post = ?D" by (simp add: vin_bytes_def t_def n_def v_def q_def)
  have lens: "length t = 32" "unat n = length q" "length q < 2048" "length (vin_bytes vin) = 32 + 4 + length (hcalc_varint n) + length q + 4"
    using ok by (auto simp: t_def n_def q_def vin_bytes_def length_hex_bytes vin_ok_def SIGS_SIZE_def unsigned_of_nat take_bit_eq_mod)
  have un: "uint n = int (length q)" using lens(2) by (metis uint_nat)
  have txt1: "hexdigits q = sigs vin" "hexdigits (rev t) = txidstr (vin_tx vin)" using ok hexdigits_hex_bytes by (auto simp: vin_ok_def q_def t_def)
  have 1: "peek ?D (int (length pre)) 32 = Some t" using peek_at [of pre t] lens(1) by simp
  have 2: "decode_uint32 ?D (int (length pre) + 32) len = Some (v, int (length pre) + 36)"
    using uint32_bytes [of "pre @ t" len v "hcalc_varint n @ q @ le_bytes 4 (sequence vin) @ post"] len lens by simp
  have 3: "hdecode_varint ?D (int (length pre) + 36) len = Some (n, int (length pre) + 36 + int (length (hcalc_varint n)))"
    using varint_bytes [of "pre @ t @ le_bytes 4 v" n len "q @ le_bytes 4 (sequence vin) @ post"] len lens by simp
  have 4: "hex_field SIGS_SIZE ?D (int (length pre) + 36 + int (length (hcalc_varint n))) (length q) = Some (sigs vin)"
    using hex_field_at [of q SIGS_SIZE "pre @ t @ le_bytes 4 v @ hcalc_varint n" "le_bytes 4 (sequence vin) @ post"] lens txt1(1)
    by (simp add: SIGS_SIZE_def add.assoc)
  have 5: "decode_uint32 ?D (int (length pre) + 36 + int (length (hcalc_varint n)) + int (length q)) len
      = Some (sequence vin, int (length pre + length (vin_bytes vin)))"
    using uint32_bytes [of "pre @ t @ le_bytes 4 v @ hcalc_varint n @ q" len "sequence vin" post] len lens by (simp add: ac_simps)
  have "(ucast v :: u16) = vin_vout (vin_tx vin)" by (rule bit_word_eqI) (auto simp: v_def bit_simps)
  then show ?thesis unfolding D decode_vin_def using 1 2 3 4 5 lens un txt1 ok
    by (simp add: print_hex SIGS_SIZE_def zero_input_def vin_ok_def)
qed

lemma emit_vout:
  assumes ok: "vout_ok vout" and len: "offset + length (vout_bytes vout) \<le> length data"
  shows "emit_cointx_output data offset vout = poke data offset (vout_bytes vout)"
proof -
  have s: "hex_text (script vout)" "length (script vout) + 2 \<le> SCRIPT_SIZE" using ok by (auto simp: vout_ok_def)
  show ?thesis unfolding emit_cointx_output_def emit_uint32_def Let_def vout_bytes_def
    by (intro poke_seq) (use len poke_hex_bytes [OF s] in \<open>auto simp: vout_bytes_def intro!: poke_seq\<close>)
qed

lemma two_halves: "push_bit 32 (ucast (ucast (drop_bit 32 x) :: u32)) OR ucast (ucast x :: u32) = (x :: u64)"
  by (rule bit_word_eqI) (auto simp: bit_simps)

lemma decode_vout_at:
  assumes ok: "vout_ok vout" and len: "int (length pre + length (vout_bytes vout)) \<le> len"
  shows "decode_vout (pre @ vout_bytes vout @ post) (int (length pre)) len = Some (vout, int (length pre + length (vout_bytes vout)))"
proof -
  define n q where "n = (of_nat (length (script vout) div 2) :: u64)" and "q = hex_bytes (script vout)"
  define l h where "l = (ucast (vout_value vout) :: u32)" and "h = (ucast (drop_bit 32 (vout_value vout)) :: u32)"
  let ?D = "pre @ le_bytes 4 l @ le_bytes 4 h @ hcalc_varint n @ q @ post"
  have D: "pre @ vout_bytes vout @ post = ?D" by (simp add: vout_bytes_def n_def l_def h_def q_def)
  have lens: "unat n = length q" "length q < 1024" "length (vout_bytes vout) = 8 + length (hcalc_varint n) + length q"
    using ok by (auto simp: n_def q_def vout_bytes_def length_hex_bytes vout_ok_def SCRIPT_SIZE_def unsigned_of_nat take_bit_eq_mod)
  have un: "uint n = int (length q)" using lens(1) by (metis uint_nat)
  have q: "hexdigits q = script vout" using ok hexdigits_hex_bytes by (auto simp: vout_ok_def q_def)
  have 1: "decode_uint32 ?D (int (length pre)) len = Some (l, int (length pre) + 4)"
    using uint32_bytes [of pre len l "le_bytes 4 h @ hcalc_varint n @ q @ post"] len lens by simp
  have 2: "decode_uint32 ?D (int (length pre) + 4) len = Some (h, int (length pre) + 8)"
    using uint32_bytes [of "pre @ le_bytes 4 l" len h "hcalc_varint n @ q @ post"] len lens by simp
  have 3: "hdecode_varint ?D (int (length pre) + 8) len = Some (n, int (length pre) + 8 + int (length (hcalc_varint n)))"
    using varint_bytes [of "pre @ le_bytes 4 l @ le_bytes 4 h" n len "q @ post"] len lens by simp
  have 4: "hex_field SCRIPT_SIZE ?D (int (length pre) + 8 + int (length (hcalc_varint n))) (length q) = Some (script vout)"
    using hex_field_at [of q SCRIPT_SIZE "pre @ le_bytes 4 l @ le_bytes 4 h @ hcalc_varint n" post] lens q
    by (simp add: SCRIPT_SIZE_def add.assoc)
  have "push_bit 32 (ucast h) OR ucast l = vout_value vout" unfolding h_def l_def by (rule two_halves)
  then show ?thesis unfolding D decode_vout_def using 1 2 3 4 lens un ok
    by (simp add: SCRIPT_SIZE_def zero_output_def vout_ok_def)
qed

interpretation wire_vin: wire_format emit_cointx_input decode_vin vin_bytes vin_ok
  by unfold_locales (rule emit_vin, assumption+, rule decode_vin_at, assumption+)

interpretation wire_vout: wire_format emit_cointx_output decode_vout vout_bytes vout_ok
  by unfold_locales (rule emit_vout, assumption+, rule decode_vout_at, assumption+)

section \<open>Whole transactions\<close>

text \<open>The specification: the bytes of a transaction, one field after the other.\<close>

definition tx_inputs :: "cointx_info \<Rightarrow> cointx_input list" where
  "tx_inputs tx = take (unat (numinputs tx)) (inputs tx)"

definition tx_outputs :: "cointx_info \<Rightarrow> rawvout list" where
  "tx_outputs tx = take (unat (numoutputs tx)) (outputs tx)"

definition tx_bytes :: "cointx_info \<Rightarrow> bool \<Rightarrow> u8 list" where
  "tx_bytes tx oldtx = le_bytes 4 (tx_version tx) @ (if oldtx then [] else le_bytes 4 (tx_timestamp tx))
     @ hcalc_varint (ucast (numinputs tx)) @ concat (map vin_bytes (tx_inputs tx))
     @ hcalc_varint (ucast (numoutputs tx)) @ concat (map vout_bytes (tx_outputs tx)) @ le_bytes 4 (nlocktime tx)"

definition tx_ok :: "cointx_info \<Rightarrow> bool \<Rightarrow> bool" where
  "tx_ok tx oldtx \<longleftrightarrow> unat (numinputs tx) \<le> MAX_COINTX_INPUTS \<and> unat (numoutputs tx) \<le> MAX_COINTX_OUTPUTS
     \<and> (\<forall>vin \<in> set (tx_inputs tx). vin_ok vin) \<and> (\<forall>vout \<in> set (tx_outputs tx). vout_ok vout)
     \<and> length (inputs tx) = MAX_COINTX_INPUTS \<and> length (outputs tx) = MAX_COINTX_OUTPUTS
     \<and> (\<forall>vin \<in> set (drop (unat (numinputs tx)) (inputs tx)). vin = zero_input)
     \<and> (\<forall>vout \<in> set (drop (unat (numoutputs tx)) (outputs tx)). vout = zero_output)
     \<and> (oldtx \<longrightarrow> tx_timestamp tx = 0)"

text \<open>A buffer whose beginning has been written.\<close>

definition filled :: "u8 list \<Rightarrow> u8 list \<Rightarrow> u8 list" where
  "filled data pre = pre @ drop (length pre) data"

lemma filled_simps [simp]: "filled data [] = data" "length pre \<le> length data \<Longrightarrow> length (filled data pre) = length data"
  "take (length pre) (filled data pre) = pre"
  by (simp_all add: filled_def)

lemma poke_filled:
  "length pre + length bs \<le> length data \<Longrightarrow> poke (filled data pre) (length pre) bs = Some (filled data (pre @ bs), length pre + length bs)"
  by (simp add: poke_def filled_def add.commute)

lemma emit_items_filled:
  assumes "wire_format emit decode bytes ok" and "\<forall>x \<in> set xs. ok x" and "length pre + length (concat (map bytes xs)) \<le> maxlen" and "maxlen \<le> length data"
  shows "emit_items emit maxlen xs (filled data pre) (length pre)
    = Some (filled data (pre @ concat (map bytes xs)), Some (length pre + length (concat (map bytes xs))))"
  using wire_format.emit_items_bytes [OF assms(1,2,3), of "filled data pre"] assms(3,4) poke_filled [of pre "concat (map bytes xs)" data] by simp

lemma emit_tx:
  assumes ok: "tx_ok tx oldtx" and len: "length (tx_bytes tx oldtx) \<le> maxlen" "maxlen \<le> length data"
  shows "emit_cointxdata data maxlen tx oldtx = Some (filled data (tx_bytes tx oldtx), Some (length (tx_bytes tx oldtx)))"
proof -
  define a b where "a = le_bytes 4 (tx_version tx) @ (if oldtx then [] else le_bytes 4 (tx_timestamp tx)) @ hcalc_varint (ucast (numinputs tx))"
    and "b = a @ concat (map vin_bytes (tx_inputs tx)) @ hcalc_varint (ucast (numoutputs tx))"
  have e: "tx_bytes tx oldtx = b @ concat (map vout_bytes (tx_outputs tx)) @ le_bytes 4 (nlocktime tx)" by (simp add: tx_bytes_def a_def b_def)
  have la: "length a \<le> length data" "length b + length (concat (map vout_bytes (tx_outputs tx))) + 4 \<le> maxlen" using len by (simp_all add: e b_def)
  let ?v = "le_bytes 4 (tx_version tx)" let ?t = "?v @ (if oldtx then [] else le_bytes 4 (tx_timestamp tx))"
  have 1: "emit_uint32 data 0 (tx_version tx) = Some (filled data ?v, length ?v)"
      "(if \<not> oldtx then emit_uint32 (filled data ?v) (length ?v) (tx_timestamp tx) else Some (filled data ?v, length ?v)) = Some (filled data ?t, length ?t)"
      "poke (filled data ?t) (length ?t) (hcalc_varint (ucast (numinputs tx))) = Some (filled data a, length a)"
    using la(1) poke_filled [of "[]" ?v data] poke_filled [of ?v "le_bytes 4 (tx_timestamp tx)" data] poke_filled [of ?t "hcalc_varint (ucast (numinputs tx))" data]
    by (auto simp: emit_uint32_def a_def)
  have 2: "emit_items emit_cointx_input maxlen (tx_inputs tx) (filled data a) (length a)
      = Some (filled data (a @ concat (map vin_bytes (tx_inputs tx))), Some (length a + length (concat (map vin_bytes (tx_inputs tx)))))"
    by (rule emit_items_filled [OF wire_vin.wire_format_axioms]) (use ok len la in \<open>simp_all add: tx_ok_def b_def\<close>)
  have 3: "poke (filled data (a @ concat (map vin_bytes (tx_inputs tx)))) (length a + length (concat (map vin_bytes (tx_inputs tx)))) (hcalc_varint (ucast (numoutputs tx)))
      = Some (filled data b, length b)"
    using poke_filled [of "a @ concat (map vin_bytes (tx_inputs tx))" "hcalc_varint (ucast (numoutputs tx))" data] la len(2) by (simp add: b_def)
  have 4: "emit_items emit_cointx_output maxlen (tx_outputs tx) (filled data b) (length b)
      = Some (filled data (b @ concat (map vout_bytes (tx_outputs tx))), Some (length b + length (concat (map vout_bytes (tx_outputs tx)))))"
    by (rule emit_items_filled [OF wire_vout.wire_format_axioms]) (use ok len la in \<open>simp_all add: tx_ok_def\<close>)
  have 5: "emit_uint32 (filled data (b @ concat (map vout_bytes (tx_outputs tx)))) (length b + length (concat (map vout_bytes (tx_outputs tx)))) (nlocktime tx)
      = Some (filled data (tx_bytes tx oldtx), length (tx_bytes tx oldtx))"
    using poke_filled [of "b @ concat (map vout_bytes (tx_outputs tx))" "le_bytes 4 (nlocktime tx)" data] la len(2) by (simp add: emit_uint32_def e)
  have n: "\<not> (length (inputs tx) < unat (numinputs tx) \<or> length (outputs tx) < unat (numoutputs tx))" using ok by (simp add: tx_ok_def)
  show ?thesis unfolding emit_cointxdata_def tx_inputs_def [symmetric] tx_outputs_def [symmetric]
    by (simp only: n if_False 1 2 3 4 5 Option.bind.simps prod.case option.case)
qed

lemma emit_hex:
  assumes "tx_ok tx oldtx" and "length (tx_bytes tx oldtx) + 1 < len div 2"
  shows "emit_cointx_hex len tx oldtx = Some (hexdigits (tx_bytes tx oldtx), int (length (tx_bytes tx oldtx)))"
proof -
  let ?n = "length (tx_bytes tx oldtx)"
  have l: "?n \<le> len" "int ?n < int (len div 2) - 1" using assms(2) by linarith+
  have "emit_cointxdata (replicate len 0) len tx oldtx = Some (filled (replicate len 0) (tx_bytes tx oldtx), Some ?n)"
    by (rule emit_tx [OF assms(1) l(1)]) simp
  then show ?thesis using l(2) by (simp add: emit_cointx_hex_def print_hex)
qed

lemma inputs_back: "tx_ok tx oldtx \<Longrightarrow> tx_inputs tx @ replicate (MAX_COINTX_INPUTS - length (tx_inputs tx)) zero_input = inputs tx"
  "tx_ok tx oldtx \<Longrightarrow> tx_outputs tx @ replicate (MAX_COINTX_OUTPUTS - length (tx_outputs tx)) zero_output = outputs tx"
proof -
  have tail: "take n xs @ replicate (m - length (take n xs)) z = xs" if "length xs = m" "n \<le> m" "\<forall>x \<in> set (drop n xs). x = z" for n m xs and z :: 'x
  proof -
    have "drop n xs = replicate (m - n) z" using that by (metis length_drop replicate_eqI)
    then show ?thesis using that append_take_drop_id [of n xs] by simp
  qed
  show "tx_ok tx oldtx \<Longrightarrow> tx_inputs tx @ replicate (MAX_COINTX_INPUTS - length (tx_inputs tx)) zero_input = inputs tx"
    unfolding tx_inputs_def by (rule tail) (simp_all add: tx_ok_def)
  show "tx_ok tx oldtx \<Longrightarrow> tx_outputs tx @ replicate (MAX_COINTX_OUTPUTS - length (tx_outputs tx)) zero_output = outputs tx"
    unfolding tx_outputs_def by (rule tail) (simp_all add: tx_ok_def)
qed

lemma u32_wide: "unat (ucast (x :: u32) :: u64) = unat x" "(ucast (ucast x :: u64) :: u32) = x"
proof -
  show "unat (ucast x :: u64) = unat x" using unsigned_less [of x, where ?'a = nat] by (simp add: unsigned_ucast_eq take_bit_eq_mod)
  show "(ucast (ucast x :: u64) :: u32) = x" by (rule bit_word_eqI) (auto simp: bit_simps)
qed

text \<open>The fields of a transaction at the beginning of a buffer.\<close>

lemma decode_fields:
  fixes tx oldtx rest
  defines "a \<equiv> le_bytes 4 (tx_version tx) @ (if oldtx then [] else le_bytes 4 (tx_timestamp tx))"
  defines "b \<equiv> a @ hcalc_varint (ucast (numinputs tx))"
  defines "c \<equiv> b @ concat (map vin_bytes (tx_inputs tx))"
  defines "d \<equiv> c @ hcalc_varint (ucast (numoutputs tx))"
  defines "e \<equiv> d @ concat (map vout_bytes (tx_outputs tx))"
  defines "data \<equiv> tx_bytes tx oldtx @ rest" and "len \<equiv> int (length (tx_bytes tx oldtx))"
  assumes ok: "tx_ok tx oldtx"
  shows "decode_uint32 data 0 len = Some (tx_version tx, 4)"
    "(if \<not> oldtx then decode_uint32 data 4 len else Some (0, 4)) = Some (tx_timestamp tx, int (length a))"
    "hdecode_varint data (int (length a)) len = Some (ucast (numinputs tx), int (length b))"
    "decode_items decode_vin (unat (numinputs tx)) data (int (length b)) len = Some (Some (tx_inputs tx, int (length c)))"
    "hdecode_varint data (int (length c)) len = Some (ucast (numoutputs tx), int (length d))"
    "decode_items decode_vout (unat (numoutputs tx)) data (int (length d)) len = Some (Some (tx_outputs tx, int (length e)))"
    "decode_uint32 data (int (length e)) len = Some (nlocktime tx, len)"
proof -
  let ?l = "le_bytes 4 (nlocktime tx)" and ?vi = "concat (map vin_bytes (tx_inputs tx))" and ?vo = "concat (map vout_bytes (tx_outputs tx))"
  have D: "data = e @ ?l @ rest" "data = d @ ?vo @ ?l @ rest" "data = c @ hcalc_varint (ucast (numoutputs tx)) @ ?vo @ ?l @ rest"
      "data = b @ ?vi @ hcalc_varint (ucast (numoutputs tx)) @ ?vo @ ?l @ rest"
      "data = a @ hcalc_varint (ucast (numinputs tx)) @ ?vi @ hcalc_varint (ucast (numoutputs tx)) @ ?vo @ ?l @ rest"
    by (simp_all add: data_def tx_bytes_def a_def b_def c_def d_def e_def)
  have L: "len = int (length e) + 4" "length d \<le> length e" "length c \<le> length d" "length b \<le> length c" "length a \<le> length b" "4 \<le> length a"
    by (simp_all add: len_def tx_bytes_def a_def b_def c_def d_def e_def)
  show "decode_uint32 data 0 len = Some (tx_version tx, 4)"
    using uint32_bytes [of "[]" len "tx_version tx"] L by (simp add: D(5) a_def)
  show "(if \<not> oldtx then decode_uint32 data 4 len else Some (0, 4)) = Some (tx_timestamp tx, int (length a))"
    using uint32_bytes [of "le_bytes 4 (tx_version tx)" len "tx_timestamp tx"] L ok by (cases oldtx) (simp_all add: D(5) a_def tx_ok_def)
  show "hdecode_varint data (int (length a)) len = Some (ucast (numinputs tx), int (length b))"
    using varint_bytes [of a "ucast (numinputs tx)" len] L unfolding D(5) by (simp add: b_def)
  show "hdecode_varint data (int (length c)) len = Some (ucast (numoutputs tx), int (length d))"
    using varint_bytes [of c "ucast (numoutputs tx)" len] L unfolding D(3) by (simp add: d_def)
  show "decode_uint32 data (int (length e)) len = Some (nlocktime tx, len)"
    using uint32_bytes [of e len "nlocktime tx"] L unfolding D(1) by simp
  have n: "length (tx_inputs tx) = unat (numinputs tx)" "length (tx_outputs tx) = unat (numoutputs tx)"
    using ok by (simp_all add: tx_inputs_def tx_outputs_def tx_ok_def)
  show "decode_items decode_vin (unat (numinputs tx)) data (int (length b)) len = Some (Some (tx_inputs tx, int (length c)))"
    using wire_vin.decode_items_bytes [of "tx_inputs tx" b len] ok L n(1) unfolding D(4) by (simp add: tx_ok_def c_def)
  show "decode_items decode_vout (unat (numoutputs tx)) data (int (length d)) len = Some (Some (tx_outputs tx, int (length e)))"
    using wire_vout.decode_items_bytes [of "tx_outputs tx" d len] ok L n(2) unfolding D(2) by (simp add: tx_ok_def e_def)
qed

lemma tx_bytes_long: "9 < length (tx_bytes tx oldtx)"
  using varint_length(1) [of "ucast (numinputs tx)"] varint_length(1) [of "ucast (numoutputs tx)"]
  unfolding tx_bytes_def length_append length_le_bytes by linarith

lemma validate_same:
  assumes "tx_ok tx oldtx"
  shows "validate_decoderawtransaction (hexdigits (tx_bytes tx oldtx)) tx oldtx = Some (True, hexdigits (tx_bytes tx oldtx))"
  using emit_hex [OF assms, of "length (hexdigits (tx_bytes tx oldtx)) * 2"] tx_bytes_long [of tx oldtx]
  by (simp add: validate_decoderawtransaction_def)

lemma decode_tx:
  assumes ok: "tx_ok tx oldtx" and size: "length (tx_bytes tx oldtx) < RAWTX_BUFSIZE" and stack: "length stack = RAWTX_BUFSIZE" and behind: "behind \<noteq> []"
  shows "decode_rawtransaction behind stack (hexdigits (tx_bytes tx oldtx)) oldtx = Some (Some tx, hexdigits (tx_bytes tx oldtx))"
proof -
  let ?bs = "tx_bytes tx oldtx" let ?h = "hexdigits ?bs"
  have ne: "?bs \<noteq> []" "?h \<noteq> []" using tx_bytes_long [of tx oldtx] by (auto simp: hexdigits_def concat_eq_Nil_conv)
  then have guard: "\<not> (length ?h \<ge> RAWTX_BUFSIZE * 2 - 1 \<or> \<not> is_hexstr ?h \<or> odd (length ?h))"
    using size hexdigits_set by (auto simp: is_hexstr_def RAWTX_BUFSIZE_def)
  obtain j r where "behind = j # r" using behind by (cases behind) auto
  then have dec: "decode_hex (length ?bs) (?h @ CHR 0x00 # behind) = Some (length ?bs, ?bs)" using hex_back [OF ne(1)] by (simp add: print_hex)
  have put: "poke stack 0 ?bs = Some (?bs @ drop (length ?bs) stack, length ?bs)" using size stack by (simp add: poke_def)
  have n: "\<not> unat (numinputs tx) > MAX_COINTX_INPUTS" "\<not> unat (numoutputs tx) > MAX_COINTX_OUTPUTS"
    using ok by (simp_all add: tx_ok_def)
  note f = decode_fields [OF ok, of "drop (length ?bs) stack"]
  note bk = inputs_back [OF ok]
  have tx: "\<lparr>tx_version = tx_version tx, tx_timestamp = tx_timestamp tx, numinputs = numinputs tx, numoutputs = numoutputs tx,
      inputs = inputs tx, outputs = outputs tx, nlocktime = nlocktime tx\<rparr> = tx" by simp
  have half: "length ?h div 2 = length ?bs" by simp
  show ?thesis unfolding decode_rawtransaction_def Let_def half
    by (simp only: guard if_False dec put f n u32_wide bk tx validate_same [OF ok] Option.bind.simps prod.case option.case)
qed

text \<open>
  C9. Transactions survive the wire. A transaction with lower-case hexadecimal identifiers, scripts
  and signatures that fit their arrays and with at most 256 inputs and outputs is written as the
  concatenation of its fields (version, time stamp, counted inputs, counted outputs, lock time),
  and \<open>_decode_rawtransaction\<close> reads the same transaction back from the string, which its own
  check then accepts; neither leaves its buffers.
\<close>

theorem cointx_roundtrip:
  assumes "tx_ok tx oldtx" and "length (tx_bytes tx oldtx) < RAWTX_BUFSIZE" and "length (tx_bytes tx oldtx) + 1 < len div 2"
    and "length stack = RAWTX_BUFSIZE" and "behind \<noteq> []"
  shows "\<exists>hexstr. emit_cointx_hex len tx oldtx = Some (hexstr, int (length (tx_bytes tx oldtx))) \<and> hexstr = hexdigits (tx_bytes tx oldtx)
    \<and> decode_rawtransaction behind stack hexstr oldtx = Some (Some tx, hexstr)
    \<and> validate_decoderawtransaction hexstr tx oldtx = Some (True, hexstr)"
  using emit_hex [OF assms(1,3)] decode_tx [OF assms(1,2,4,5)] validate_same [OF assms(1)] by blast

text \<open>A transaction with one input and one output.\<close>

definition sample_tx :: cointx_info where
  "sample_tx = \<lparr>tx_version = 1, tx_timestamp = 7, numinputs = 1, numoutputs = 1,
     inputs = \<lparr>vin_tx = \<lparr>txidstr = replicate 64 (CHR ''a''), vin_vout = 3\<rparr>, vin_coinaddr = [], sigs = ''00ff'', vin_value = 0, sequence = 0xffffffff, vin_used = 0\<rparr>
       # replicate 255 zero_input,
     outputs = \<lparr>vout_coinaddr = [], script = ''76a9'', vout_value = 0x100000002\<rparr> # replicate 255 zero_output, nlocktime = 0\<rparr>"

lemma sample_ok: "tx_ok sample_tx False" "length (tx_bytes sample_tx False) = 68"
proof -
  have u: "0 \<le> unhex (CHR ''a'')" "0 \<le> unhex (CHR ''0'')" "0 \<le> unhex (CHR ''f'')" "0 \<le> unhex (CHR ''7'')" "0 \<le> unhex (CHR ''6'')" "0 \<le> unhex (CHR ''9'')"
    by (simp_all add: unhex_def is_digit_def)
  have t: "tx_inputs sample_tx = [\<lparr>vin_tx = \<lparr>txidstr = replicate 64 (CHR ''a''), vin_vout = 3\<rparr>, vin_coinaddr = [], sigs = ''00ff'', vin_value = 0, sequence = 0xffffffff, vin_used = 0\<rparr>]"
    "tx_outputs sample_tx = [\<lparr>vout_coinaddr = [], script = ''76a9'', vout_value = 0x100000002\<rparr>]"
    by (simp_all add: tx_inputs_def tx_outputs_def sample_tx_def)
  show "tx_ok sample_tx False" unfolding tx_ok_def t
    by (simp add: sample_tx_def vin_ok_def vout_ok_def hex_text_def u MAX_COINTX_INPUTS_def MAX_COINTX_OUTPUTS_def SIGS_SIZE_def SCRIPT_SIZE_def)
  show "length (tx_bytes sample_tx False) = 68" unfolding tx_bytes_def t
    by (simp add: vin_bytes_def vout_bytes_def length_hex_bytes hcalc_varint_def sample_tx_def)
qed

theorem cointx_roundtrip_witness:
  "\<exists>hexstr. emit_cointx_hex 1000 sample_tx False = Some (hexstr, 68)
    \<and> decode_rawtransaction ''x'' (replicate RAWTX_BUFSIZE 0) hexstr False = Some (Some sample_tx, hexstr)"
proof -
  have "\<exists>hexstr. emit_cointx_hex 1000 sample_tx False = Some (hexstr, int (length (tx_bytes sample_tx False))) \<and> hexstr = hexdigits (tx_bytes sample_tx False)
    \<and> decode_rawtransaction ''x'' (replicate RAWTX_BUFSIZE 0) hexstr False = Some (Some sample_tx, hexstr)
    \<and> validate_decoderawtransaction hexstr sample_tx False = Some (True, hexstr)"
    by (rule cointx_roundtrip [OF sample_ok(1)]) (simp_all add: sample_ok(2) RAWTX_BUFSIZE_def)
  then show ?thesis by (auto simp: sample_ok(2))
qed

end
