(* ===== verification/Ramkv777.thy ===== *)
theory Ramkv777
  imports Prelude777
begin

text \<open>
  The in-memory key-value store (\<open>plugins/KV/ramkv777.c\<close>). The hash table of \<open>uthash\<close> is the
  list of its items in the order in which they were added, the order of \<open>HASH_ITER\<close>; a value
  pointer is the bytes from it to the end of the item. Locking a mutex that is locked gives
  \<open>None\<close>, as does a key that is shorter than the key size of the store. The running SHA-256
  state is a parameter: \<open>upd\<close> takes the state and the next bytes to the new state and the hash so
  far. \<open>ramkv777_write\<close> and \<open>ramkv777_read\<close> use the store before they test it for null and are
  defined on stores, the other operations on pointers.
\<close>

section \<open>Data\<close>

record ramkv777_item =
  it_key :: "u8 list"
  it_value :: "u8 list"
  it_valuesize :: u16
  it_rawind :: u32

record 's ramkv777 =
  kv_name :: string
  threadsafe :: bool
  kv_locked :: bool
  kv_table :: "ramkv777_item list"
  kv_state :: 's
  kv_sha256 :: "u8 list"
  numkeys :: i32
  keysize :: nat
  kvind :: u8

type_synonym 's sha_update = "'s \<Rightarrow> u8 list \<Rightarrow> 's \<times> u8 list"

text \<open>The pointers that \<open>ramkv777_write\<close> returns.\<close>

datatype kvptr = ItemPtr | ValuePtr

definition ACCTS777_MAXRAMKVS :: u32 where "ACCTS777_MAXRAMKVS = 8"

text \<open>\<open>HASH_FIND\<close>, \<open>HASH_DELETE\<close> and a change of the item that was found.\<close>

fun hash_find :: "u8 list \<Rightarrow> ramkv777_item list \<Rightarrow> ramkv777_item option" where
  "hash_find key [] = None"
| "hash_find key (it # tab) = (if it_key it = key then Some it else hash_find key tab)"

fun hash_delete :: "u8 list \<Rightarrow> ramkv777_item list \<Rightarrow> ramkv777_item list" where
  "hash_delete key [] = []"
| "hash_delete key (it # tab) = (if it_key it = key then tab else it # hash_delete key tab)"

fun hash_change :: "u8 list \<Rightarrow> (ramkv777_item \<Rightarrow> ramkv777_item) \<Rightarrow> ramkv777_item list \<Rightarrow> ramkv777_item list" where
  "hash_change key f [] = []"
| "hash_change key f (it # tab) = (if it_key it = key then f it # tab else it # hash_change key f tab)"

section \<open>Operations\<close>

definition ramkv777_lock :: "'s ramkv777 \<Rightarrow> 's ramkv777 option" where
  "ramkv777_lock kv =
     (if threadsafe kv then (if kv_locked kv then None else Some (kv\<lparr>kv_locked := True\<rparr>)) else Some kv)"

definition ramkv777_unlock :: "'s ramkv777 \<Rightarrow> 's ramkv777" where
  "ramkv777_unlock kv = (if threadsafe kv then kv\<lparr>kv_locked := False\<rparr> else kv)"

definition key_bytes :: "'s ramkv777 \<Rightarrow> u8 list \<Rightarrow> u8 list option" where
  "key_bytes kv key = (if length key < keysize kv then None else Some (take (keysize kv) key))"

definition update_sha256 :: "'s sha_update \<Rightarrow> u8 list \<Rightarrow> 's ramkv777 \<Rightarrow> 's ramkv777" where
  "update_sha256 upd bytes kv = (case upd (kv_state kv) bytes of (st, hash) \<Rightarrow> kv\<lparr>kv_state := st, kv_sha256 := hash\<rparr>)"

fun ramkv777_delete :: "'s ramkv777 option \<Rightarrow> u8 list \<Rightarrow> ('s ramkv777 option \<times> int) option" where
  "ramkv777_delete None key = Some (None, - 1)"
| "ramkv777_delete (Some kv) key =
     do { kv \<leftarrow> ramkv777_lock kv;
          key \<leftarrow> key_bytes kv key;
          let (kv, retval) =
            (case hash_find key (kv_table kv) of
               None \<Rightarrow> (kv, - 1)
             | Some _ \<Rightarrow> (kv\<lparr>kv_table := hash_delete key (kv_table kv)\<rparr>, 0));
          kv \<leftarrow> ramkv777_lock kv;
          Some (Some kv, retval) }"

definition new_item :: "'s ramkv777 \<Rightarrow> u8 list \<Rightarrow> u8 list \<Rightarrow> ramkv777_item" where
  "new_item kv key value =
     \<lparr>it_key = key, it_value = value, it_valuesize = of_nat (length value),
      it_rawind = (numkeys kv * ACCTS777_MAXRAMKVS) OR ucast (kvind kv)\<rparr>"

definition write_new :: "'s sha_update \<Rightarrow> 's ramkv777 \<Rightarrow> u8 list \<Rightarrow> u8 list \<Rightarrow> 's ramkv777 \<times> kvptr" where
  "write_new upd kv key value =
     (let item = new_item kv key value;
          kv = kv\<lparr>numkeys := numkeys kv + 1, kv_table := kv_table kv @ [item]\<rparr>;
          kv = update_sha256 upd value (update_sha256 upd key kv)
      in (ramkv777_unlock kv, ValuePtr))"

definition ramkv777_write :: "'s sha_update \<Rightarrow> 's ramkv777 \<Rightarrow> u8 list \<Rightarrow> u8 list \<Rightarrow> ('s ramkv777 \<times> kvptr) option" where
  "ramkv777_write upd kv key value =
     do { kv \<leftarrow> ramkv777_lock kv;
          key \<leftarrow> key_bytes kv key;
          case hash_find key (kv_table kv) of
            Some item \<Rightarrow>
              if length value = unat (it_valuesize item)
              then (let kv = (if take (length value) (it_value item) \<noteq> value
                              then (update_sha256 upd value (update_sha256 upd key kv))
                                     \<lparr>kv_table := hash_change key (\<lambda>it. it\<lparr>it_value := value @ drop (length value) (it_value it)\<rparr>) (kv_table kv)\<rparr>
                              else kv)
                    in Some (ramkv777_unlock kv, ItemPtr))
              else Some (write_new upd (update_sha256 upd key (kv\<lparr>kv_table := hash_delete key (kv_table kv)\<rparr>)) key value)
          | None \<Rightarrow> Some (write_new upd kv key value) }"

text \<open>The value size and, unless the key is missing, the bytes at the value pointer.\<close>

definition ramkv777_read :: "'s ramkv777 \<Rightarrow> u8 list \<Rightarrow> ('s ramkv777 \<times> u16 \<times> u8 list option) option" where
  "ramkv777_read kv key =
     do { kv \<leftarrow> ramkv777_lock kv;
          key \<leftarrow> key_bytes kv key;
          let kv' = ramkv777_unlock kv;
          case hash_find key (kv_table kv) of
            Some item \<Rightarrow> Some (kv', it_valuesize item, Some (it_value item))
          | None \<Rightarrow> Some (kv', 0, None) }"

text \<open>
  The iterator gets the key, the value and its size and returns \<open>None\<close> for a null pointer, which
  goes on; it works on a state \<open>'a\<close> of its own and does not change the store.
\<close>

fun iterate_items :: "('a \<Rightarrow> u8 list \<Rightarrow> u8 list \<Rightarrow> u16 \<Rightarrow> 'a \<times> 'r option) \<Rightarrow> ramkv777_item list \<Rightarrow> 'a \<Rightarrow> 'a \<times> 'r option" where
  "iterate_items f [] args = (args, None)"
| "iterate_items f (item # tab) args =
     (case f args (it_key item) (it_value item) (it_valuesize item) of
        (args, Some r) \<Rightarrow> (args, Some r)
      | (args, None) \<Rightarrow> iterate_items f tab args)"

fun ramkv777_iterate ::
    "'s ramkv777 option \<Rightarrow> ('a \<Rightarrow> u8 list \<Rightarrow> u8 list \<Rightarrow> u16 \<Rightarrow> 'a \<times> 'r option) \<Rightarrow> 'a \<Rightarrow> ('s ramkv777 option \<times> 'a \<times> 'r option) option" where
  "ramkv777_iterate None f args = Some (None, args, None)"
| "ramkv777_iterate (Some kv) f args =
     do { kv \<leftarrow> ramkv777_lock kv;
          let (args, r) = iterate_items f (kv_table kv) args;
          Some (Some (ramkv777_unlock kv), args, r) }"

text \<open>\<open>start\<close> is the state and the hash of \<open>update_sha256\<close> without input; the store is zeroed.\<close>

definition ramkv777_init :: "'s \<times> u8 list \<Rightarrow> u8 \<Rightarrow> string \<Rightarrow> nat \<Rightarrow> bool \<Rightarrow> 's ramkv777" where
  "ramkv777_init start ind name ksize safe =
     \<lparr>kv_name = name, threadsafe = safe, kv_locked = False, kv_table = [], kv_state = fst start,
      kv_sha256 = snd start, numkeys = 0, keysize = ksize, kvind = ind\<rparr>"

fun clone_items :: "'s sha_update \<Rightarrow> ramkv777_item list \<Rightarrow> 's ramkv777 \<Rightarrow> int \<Rightarrow> ('s ramkv777 \<times> int) option" where
  "clone_items upd [] clone n = Some (clone, n)"
| "clone_items upd (item # tab) clone n =
     do { (clone, _) \<leftarrow> ramkv777_write upd clone (it_key item) (take (unat (it_valuesize item)) (it_value item));
          clone_items upd tab clone (n + 1) }"

fun ramkv777_clone :: "'s sha_update \<Rightarrow> 's ramkv777 \<Rightarrow> 's ramkv777 option \<Rightarrow> ('s ramkv777 \<times> int) option" where
  "ramkv777_clone upd clone None = Some (clone, 0)"
| "ramkv777_clone upd clone (Some kv) = clone_items upd (kv_table kv) clone 0"

section \<open>The table as a map\<close>

lemma hash_find_change [simp]:
  "(\<And>it. it_key (f it) = it_key it) \<Longrightarrow> hash_find k (hash_change key f tab) = (if k = key then map_option f (hash_find k tab) else hash_find k tab)"
  by (induction tab) auto

lemma keys_change [simp]: "(\<And>it. it_key (f it) = it_key it) \<Longrightarrow> map it_key (hash_change key f tab) = map it_key tab"
  by (induction tab) auto

lemma keys_delete: "map it_key (hash_delete key tab) = remove1 key (map it_key tab)"
  by (induction tab) auto

lemma hash_find_None: "hash_find k tab = None \<longleftrightarrow> k \<notin> it_key ` set tab"
  by (induction tab) auto

lemma hash_find_Some: "hash_find k tab = Some it \<Longrightarrow> it \<in> set tab \<and> it_key it = k"
  by (induction tab) (auto split: if_splits)

lemma hash_find_append: "hash_find k (tab @ tab') = (case hash_find k tab of None \<Rightarrow> hash_find k tab' | Some it \<Rightarrow> Some it)"
  by (induction tab) auto

lemma hash_find_delete:
  "distinct (map it_key tab) \<Longrightarrow> hash_find k (hash_delete key tab) = (if k = key then None else hash_find k tab)"
  by (induction tab) (auto simp: hash_find_None)

lemma set_hash_delete: "set (hash_delete key tab) \<subseteq> set tab"
  by (induction tab) auto

lemma set_hash_change: "set (hash_change key f tab) \<subseteq> set tab \<union> f ` {it \<in> set tab. it_key it = key}"
  by (induction tab) auto

lemma hash_find_member: "distinct (map it_key tab) \<Longrightarrow> it \<in> set tab \<Longrightarrow> hash_find (it_key it) tab = Some it"
  by (induction tab) (auto simp: rev_image_eqI)

section \<open>A store is a map\<close>

text \<open>A store at rest: no key occurs twice, the mutex is free and the sizes are those of the values.\<close>

definition item_ok :: "nat \<Rightarrow> ramkv777_item \<Rightarrow> bool" where
  "item_ok ks it \<longleftrightarrow> length (it_key it) = ks \<and> length (it_value it) = unat (it_valuesize it)"

definition kv_ok :: "nat \<Rightarrow> 's ramkv777 \<Rightarrow> bool" where
  "kv_ok ks kv \<longleftrightarrow> keysize kv = ks \<and> \<not> kv_locked kv \<and> distinct (map it_key (kv_table kv)) \<and> (\<forall>it \<in> set (kv_table kv). item_ok ks it)"

definition kv_map :: "'s ramkv777 \<Rightarrow> u8 list \<rightharpoonup> u8 list" where
  "kv_map kv k = map_option it_value (hash_find k (kv_table kv))"

lemma sha_fields [simp]:
  "kv_table (update_sha256 upd b kv) = kv_table kv" "keysize (update_sha256 upd b kv) = keysize kv"
  "kv_locked (update_sha256 upd b kv) = kv_locked kv" "threadsafe (update_sha256 upd b kv) = threadsafe kv"
  "numkeys (update_sha256 upd b kv) = numkeys kv" "kvind (update_sha256 upd b kv) = kvind kv"
  by (simp_all add: update_sha256_def split: prod.splits)

lemma lock_fields:
  assumes "\<not> kv_locked kv"
  obtains kv1 where "ramkv777_lock kv = Some kv1" "kv_table kv1 = kv_table kv" "keysize kv1 = keysize kv" "threadsafe kv1 = threadsafe kv"
    "numkeys kv1 = numkeys kv" "kvind kv1 = kvind kv" "kv_locked kv1 = threadsafe kv"
  using assms that [of "kv\<lparr>kv_locked := True\<rparr>"] that [of kv] by (cases "threadsafe kv") (simp_all add: ramkv777_lock_def)

lemma unlock_fields [simp]:
  "kv_table (ramkv777_unlock kv) = kv_table kv" "keysize (ramkv777_unlock kv) = keysize kv" "threadsafe (ramkv777_unlock kv) = threadsafe kv"
  "numkeys (ramkv777_unlock kv) = numkeys kv" "kvind (ramkv777_unlock kv) = kvind kv"
  "kv_locked (ramkv777_unlock kv) \<longleftrightarrow> kv_locked kv \<and> \<not> threadsafe kv"
  by (simp_all add: ramkv777_unlock_def)

lemma new_item_ok: "length key = ks \<Longrightarrow> length value < 2 ^ 16 \<Longrightarrow> item_ok ks (new_item kv key value)"
  by (simp add: item_ok_def new_item_def unat_of_nat take_bit_nat_eq_self)

lemma write_new_ok:
  assumes "keysize kv = ks" "kv_locked kv = threadsafe kv" "distinct (map it_key (kv_table kv))" "\<forall>it \<in> set (kv_table kv). item_ok ks it"
    and "length key = ks" "length value < 2 ^ 16" "hash_find key (kv_table kv) = None"
  shows "\<exists>kv'. write_new upd kv key value = (kv', ValuePtr) \<and> kv_ok ks kv' \<and> threadsafe kv' = threadsafe kv \<and> kv_map kv' = (kv_map kv)(key \<mapsto> value)"
proof -
  have "hash_find k (kv_table kv @ [new_item kv key value]) = (if k = key then Some (new_item kv key value) else hash_find k (kv_table kv))" for k
    using assms(7) by (auto simp: hash_find_append new_item_def split: option.splits)
  moreover have "key \<notin> it_key ` set (kv_table kv)" using assms(7) by (simp add: hash_find_None)
  moreover have "it_key (new_item kv key value) = key" "it_value (new_item kv key value) = value" by (simp_all add: new_item_def)
  ultimately show ?thesis using assms(1-4) new_item_ok [OF assms(5,6), of kv]
    by (auto simp: write_new_def Let_def kv_ok_def kv_map_def fun_eq_iff)
qed

text \<open>
  What a write returns, told from the map: the item when the key is there with a value of the same size, else the value.
\<close>

definition write_result :: "(u8 list \<rightharpoonup> u8 list) \<Rightarrow> u8 list \<Rightarrow> u8 list \<Rightarrow> kvptr" where
  "write_result m k v = (case m k of Some v0 \<Rightarrow> if length v0 = length v then ItemPtr else ValuePtr | None \<Rightarrow> ValuePtr)"

lemma write_ok:
  assumes k: "kv_ok ks kv" and "length key \<ge> ks" and v: "length value < 2 ^ 16"
  shows "\<exists>kv'. ramkv777_write upd kv key value = Some (kv', write_result (kv_map kv) (take ks key) value) \<and> kv_ok ks kv'
    \<and> threadsafe kv' = threadsafe kv \<and> kv_map kv' = (kv_map kv)(take ks key \<mapsto> value)"
proof -
  from k have k': "keysize kv = ks" "distinct (map it_key (kv_table kv))" "\<forall>it \<in> set (kv_table kv). item_ok ks it" "\<not> kv_locked kv"
    by (auto simp: kv_ok_def)
  from lock_fields [OF k'(4)] obtain kv1 where kv1: "ramkv777_lock kv = Some kv1" "kv_table kv1 = kv_table kv" "keysize kv1 = ks"
    "threadsafe kv1 = threadsafe kv" "kv_locked kv1 = threadsafe kv" using k'(1) by metis
  define key' where "key' = take ks key"
  have key': "key_bytes kv1 key = Some key'" "length key' = ks" using assms(2) by (auto simp: key_bytes_def kv1(3) key'_def)
  have same: "kv_map kv1 = kv_map kv" by (simp add: kv_map_def kv1(2) fun_eq_iff)
  note run = ramkv777_write_def kv1(1) key'(1)
  show ?thesis
  proof (cases "hash_find key' (kv_table kv)")
    case None
    with write_new_ok [of kv1 ks key' "value" upd] k' kv1 key' v obtain kv' where
      "write_new upd kv1 key' value = (kv', ValuePtr)" "kv_ok ks kv'" "threadsafe kv' = threadsafe kv" "kv_map kv' = (kv_map kv1)(key' \<mapsto> value)"
      by auto
    moreover have "write_result (kv_map kv) key' value = ValuePtr" using None by (simp add: write_result_def kv_map_def)
    ultimately show ?thesis using None by (auto simp: run kv1(2) same key'_def)
  next
    case (Some item)
    note it = hash_find_Some [OF Some]
    have wr: "write_result (kv_map kv) key' value = (if length value = unat (it_valuesize item) then ItemPtr else ValuePtr)"
      using k'(3) it Some by (auto simp: write_result_def kv_map_def item_ok_def)
    show ?thesis
    proof (cases "length value = unat (it_valuesize item)")
      case False
      let ?kv2 = "update_sha256 upd key' (kv1\<lparr>kv_table := hash_delete key' (kv_table kv1)\<rparr>)"
      have d: "hash_find key' (kv_table ?kv2) = None" using k'(2) by (simp add: kv1(2) hash_find_delete)
      have "kv_map ?kv2 = (kv_map kv)(key' := None)" using k'(2) by (auto simp: kv_map_def kv1(2) hash_find_delete fun_eq_iff)
      moreover have "\<forall>it \<in> set (kv_table ?kv2). item_ok ks it" using k'(3) set_hash_delete [of key' "kv_table kv"] by (auto simp: kv1(2))
      ultimately obtain kv' where "write_new upd ?kv2 key' value = (kv', ValuePtr)" "kv_ok ks kv'" "threadsafe kv' = threadsafe kv" "kv_map kv' = (kv_map kv)(key' \<mapsto> value)"
        using write_new_ok [of ?kv2 ks key' "value" upd] kv1 key' v d k'(2) by (auto simp: keys_delete)
      with False Some wr show ?thesis by (auto simp: run kv1(2) key'_def)
    next
      case True
      have len: "length (it_value item) = length value" using k'(3) it True by (auto simp: item_ok_def)
      define kv2 where "kv2 = (if take (length value) (it_value item) \<noteq> value
        then (update_sha256 upd value (update_sha256 upd key' kv1))\<lparr>kv_table := hash_change key' (\<lambda>it. it\<lparr>it_value := value @ drop (length value) (it_value it)\<rparr>) (kv_table kv1)\<rparr> else kv1)"
      have "ramkv777_write upd kv key value = Some (ramkv777_unlock kv2, ItemPtr)" using Some True by (simp add: run kv1(2) kv2_def Let_def)
      moreover have "kv_map kv2 = (kv_map kv)(key' \<mapsto> value)"
        using len Some by (auto simp: kv2_def kv_map_def kv1(2) fun_eq_iff)
      moreover have "\<forall>it \<in> set (kv_table kv2). item_ok ks it"
      proof -
        have i: "it = item" if "it \<in> set (kv_table kv)" "it_key it = key'" for it using hash_find_member [OF k'(2) that(1)] that(2) Some by simp
        have "item_ok ks (item\<lparr>it_value := value @ drop (length value) (it_value item)\<rparr>)" using k'(3) it len by (auto simp: item_ok_def)
        with k'(3) i show ?thesis
          using set_hash_change [of key' "\<lambda>it. it\<lparr>it_value := value @ drop (length value) (it_value it)\<rparr>" "kv_table kv"] by (auto simp: kv2_def kv1(2) subset_iff)
      qed
      moreover have "map it_key (kv_table kv2) = map it_key (kv_table kv)" "keysize kv2 = ks" "threadsafe kv2 = threadsafe kv" "kv_locked kv2 = threadsafe kv"
        using kv1 by (auto simp: kv2_def)
      ultimately show ?thesis using k'(2) wr True by (auto simp: kv_ok_def kv_map_def fun_eq_iff key'_def)
    qed
  qed
qed

lemma read_ok:
  assumes "kv_ok ks kv" and "length key \<ge> ks"
  shows "ramkv777_read kv key = Some (kv, (case kv_map kv (take ks key) of None \<Rightarrow> 0 | Some v \<Rightarrow> of_nat (length v)), kv_map kv (take ks key))"
proof -
  have k: "keysize kv = ks" "\<not> kv_locked kv" "\<forall>it \<in> set (kv_table kv). item_ok ks it" using assms(1) by (auto simp: kv_ok_def)
  have "length (it_value it) = unat (it_valuesize it)" if "hash_find (take ks key) (kv_table kv) = Some it" for it
    using k(3) hash_find_Some [OF that] by (auto simp: item_ok_def)
  then show ?thesis using k(1,2) assms(2)
    by (auto simp: ramkv777_read_def ramkv777_lock_def ramkv777_unlock_def key_bytes_def kv_map_def split: option.splits)
qed

lemma delete_ok:
  assumes "kv_ok ks kv" and "length key \<ge> ks" and "\<not> threadsafe kv"
  shows "\<exists>kv'. ramkv777_delete (Some kv) key = Some (Some kv', if kv_map kv (take ks key) = None then - 1 else 0) \<and> kv_ok ks kv'
    \<and> threadsafe kv' = threadsafe kv \<and> kv_map kv' = (kv_map kv)(take ks key := None)"
proof -
  have k: "keysize kv = ks" "\<not> kv_locked kv" "distinct (map it_key (kv_table kv))" "\<forall>it \<in> set (kv_table kv). item_ok ks it"
    using assms(1) by (auto simp: kv_ok_def)
  have "kv_map (kv\<lparr>kv_table := hash_delete (take ks key) (kv_table kv)\<rparr>) = (kv_map kv)(take ks key := None)"
    using k(3) by (auto simp: kv_map_def hash_find_delete fun_eq_iff)
  moreover have "kv_map kv = (kv_map kv)(take ks key := None)" if "hash_find (take ks key) (kv_table kv) = None"
    using that by (auto simp: kv_map_def fun_eq_iff)
  ultimately show ?thesis using k assms(2,3) set_hash_delete [of "take ks key" "kv_table kv"]
    by (auto simp: ramkv777_lock_def key_bytes_def kv_ok_def keys_delete kv_map_def subset_iff split: option.splits)
qed

lemma store_init_ok: "kv_ok ks (ramkv777_init start ind name ks safe)" "kv_map (ramkv777_init start ind name ks safe) = Map.empty"
  by (simp_all add: kv_ok_def ramkv777_init_def kv_map_def fun_eq_iff)

lemma delete_deadlocks: "threadsafe kv \<Longrightarrow> ramkv777_delete (Some kv) key = None"
  by (auto simp: ramkv777_lock_def key_bytes_def split: option.splits)

text \<open>Sequences of operations with what they return, on a store and on a map.\<close>

datatype ('k, 'v) kvop = Put 'k 'v | Get 'k | Del 'k

datatype ('v, 'p) kvres = Written 'p | Got "'v option" | Deleted bool

fun run_store :: "('s \<Rightarrow> 'k \<Rightarrow> 'v \<Rightarrow> ('s \<times> 'p) option) \<Rightarrow> ('s \<Rightarrow> 'k \<Rightarrow> ('s \<times> 'v option) option) \<Rightarrow> ('s \<Rightarrow> 'k \<Rightarrow> ('s \<times> bool) option)
    \<Rightarrow> ('k, 'v) kvop list \<Rightarrow> 's \<Rightarrow> ('s \<times> ('v, 'p) kvres list) option" where
  "run_store put get del [] s = Some (s, [])"
| "run_store put get del (Put k v # ops) s =
     do { (s, p) \<leftarrow> put s k v; (s, rs) \<leftarrow> run_store put get del ops s; Some (s, Written p # rs) }"
| "run_store put get del (Get k # ops) s =
     do { (s, v) \<leftarrow> get s k; (s, rs) \<leftarrow> run_store put get del ops s; Some (s, Got v # rs) }"
| "run_store put get del (Del k # ops) s =
     do { (s, b) \<leftarrow> del s k; (s, rs) \<leftarrow> run_store put get del ops s; Some (s, Deleted b # rs) }"

fun run_map :: "(('k \<rightharpoonup> 'v) \<Rightarrow> 'k \<Rightarrow> 'v \<Rightarrow> 'p) \<Rightarrow> ('k, 'v) kvop list \<Rightarrow> ('k \<rightharpoonup> 'v) \<Rightarrow> ('k \<rightharpoonup> 'v) \<times> ('v, 'p) kvres list" where
  "run_map res [] m = (m, [])"
| "run_map res (Put k v # ops) m = (let (m', rs) = run_map res ops (m(k \<mapsto> v)) in (m', Written (res m k v) # rs))"
| "run_map res (Get k # ops) m = (let (m', rs) = run_map res ops m in (m', Got (m k) # rs))"
| "run_map res (Del k # ops) m = (let (m', rs) = run_map res ops (m(k := None)) in (m', Deleted (m k \<noteq> None) # rs))"

fun op_legal :: "('k \<Rightarrow> bool) \<Rightarrow> ('v \<Rightarrow> bool) \<Rightarrow> ('k, 'v) kvop \<Rightarrow> bool" where
  "op_legal kok vok (Put k v) \<longleftrightarrow> kok k \<and> vok v"
| "op_legal kok vok (Get k) \<longleftrightarrow> kok k"
| "op_legal kok vok (Del k) \<longleftrightarrow> kok k"

fun is_del :: "('k, 'v) kvop \<Rightarrow> bool" where
  "is_del (Del k) \<longleftrightarrow> True"
| "is_del _ \<longleftrightarrow> False"

text \<open>The contract of a store whose deletions may wait forever (\<open>hangs\<close>).\<close>

locale kv_store =
  fixes ok :: "'s \<Rightarrow> bool" and view :: "'s \<Rightarrow> 'k \<rightharpoonup> 'v" and kok :: "'k \<Rightarrow> bool" and vok :: "'v \<Rightarrow> bool" and hangs :: bool
    and put :: "'s \<Rightarrow> 'k \<Rightarrow> 'v \<Rightarrow> ('s \<times> 'p) option" and res :: "('k \<rightharpoonup> 'v) \<Rightarrow> 'k \<Rightarrow> 'v \<Rightarrow> 'p"
    and get :: "'s \<Rightarrow> 'k \<Rightarrow> ('s \<times> 'v option) option" and del :: "'s \<Rightarrow> 'k \<Rightarrow> ('s \<times> bool) option"
  assumes put_law: "ok s \<Longrightarrow> kok k \<Longrightarrow> vok v \<Longrightarrow> \<exists>s'. put s k v = Some (s', res (view s) k v) \<and> ok s' \<and> view s' = (view s)(k \<mapsto> v)"
    and get_law: "ok s \<Longrightarrow> kok k \<Longrightarrow> \<exists>s'. get s k = Some (s', view s k) \<and> ok s' \<and> view s' = view s"
    and del_law: "ok s \<Longrightarrow> kok k \<Longrightarrow> \<not> hangs \<Longrightarrow> \<exists>s'. del s k = Some (s', view s k \<noteq> None) \<and> ok s' \<and> view s' = (view s)(k := None)"
    and del_hangs: "ok s \<Longrightarrow> kok k \<Longrightarrow> hangs \<Longrightarrow> del s k = None"
begin

lemma refines_map:
  assumes "ok s" and "view s = m" and "\<forall>op \<in> set ops. op_legal kok vok op" and "\<not> (hangs \<and> (\<exists>op \<in> set ops. is_del op))"
  shows "\<exists>s'. run_store put get del ops s = Some (s', snd (run_map res ops m)) \<and> ok s' \<and> view s' = fst (run_map res ops m)"
  using assms
proof (induction ops arbitrary: s m)
  case (Cons op ops)
  then have rest: "\<forall>op \<in> set ops. op_legal kok vok op" "\<not> (hangs \<and> (\<exists>op \<in> set ops. is_del op))" by auto
  show ?case
  proof (cases op)
    case (Put k v)
    with put_law [OF Cons.prems(1), of k v] Cons.prems(2,3) obtain s1 where
      s1: "put s k v = Some (s1, res m k v)" "ok s1" "view s1 = m(k \<mapsto> v)" by auto
    from Cons.IH [of s1 "m(k \<mapsto> v)"] s1(2,3) rest s1(1) Put show ?thesis by (auto simp: Let_def simp del: fun_upd_apply split: prod.splits)
  next
    case (Get k)
    with get_law [OF Cons.prems(1), of k] Cons.prems(2,3) obtain s1 where
      s1: "get s k = Some (s1, m k)" "ok s1" "view s1 = m" by auto
    from Cons.IH [of s1 m] s1(2,3) rest s1(1) Get show ?thesis by (auto simp: Let_def split: prod.splits)
  next
    case (Del k)
    with del_law [OF Cons.prems(1), of k] Cons.prems(2,3,4) obtain s1 where
      s1: "del s k = Some (s1, m k \<noteq> None)" "ok s1" "view s1 = m(k := None)" by auto
    from Cons.IH [of s1 "m(k := None)"] s1(2,3) rest s1(1) Del show ?thesis by (auto simp: Let_def simp del: fun_upd_apply split: prod.splits)
  qed
qed simp

lemma deletion_hangs:
  assumes "ok s" and "\<forall>op \<in> set ops. op_legal kok vok op" and "hangs" and "\<exists>op \<in> set ops. is_del op"
  shows "run_store put get del ops s = None"
  using assms
proof (induction ops arbitrary: s)
  case (Cons op ops)
  show ?case
  proof (cases op)
    case (Put k v)
    then obtain s1 p where "put s k v = Some (s1, p)" "ok s1" using put_law [OF Cons.prems(1), of k v] Cons.prems(2) by auto
    then show ?thesis using Cons.IH [of s1] Cons.prems Put by auto
  next
    case (Get k)
    then obtain s1 v where "get s k = Some (s1, v)" "ok s1" using get_law [OF Cons.prems(1), of k] Cons.prems(2) by auto
    then show ?thesis using Cons.IH [of s1] Cons.prems Get by auto
  next
    case (Del k)
    then show ?thesis using del_hangs [OF Cons.prems(1), of k] Cons.prems(2,3) by simp
  qed
qed simp

end

text \<open>The operations of a store, with the return values that a caller uses.\<close>

definition kv_get :: "'s ramkv777 \<Rightarrow> u8 list \<Rightarrow> ('s ramkv777 \<times> u8 list option) option" where
  "kv_get kv k = map_option (\<lambda>(kv, n, r). (kv, map_option (take (unat n)) r)) (ramkv777_read kv k)"

definition kv_del :: "'s ramkv777 \<Rightarrow> u8 list \<Rightarrow> ('s ramkv777 \<times> bool) option" where
  "kv_del kv k = do { (kv, r) \<leftarrow> ramkv777_delete (Some kv) k; kv \<leftarrow> kv; Some (kv, r = 0) }"

lemma value_sizes: "kv_ok ks kv \<Longrightarrow> kv_map kv k = Some v \<Longrightarrow> length v < 2 ^ 16"
  using unsigned_less [where ?'a = nat and ?'b = 16] by (force simp: kv_ok_def kv_map_def item_ok_def dest!: hash_find_Some)

interpretation ramkv: kv_store "\<lambda>kv. kv_ok ks kv \<and> threadsafe kv = safe" kv_map "\<lambda>k. length k = ks" "\<lambda>v. length v < 2 ^ 16" safe
  "ramkv777_write upd" write_result kv_get kv_del for ks safe upd
proof (unfold_locales, goal_cases)
  case (1 s k v)
  with write_ok [of ks s k v upd] show ?case by auto
next
  case (2 s k)
  with read_ok [of ks s k] value_sizes [of ks s k] show ?case
    by (auto simp: kv_get_def unat_of_nat take_bit_nat_eq_self split: option.splits)
next
  case (3 s k)
  with delete_ok [of ks s k] show ?case by (auto simp: kv_del_def simp del: ramkv777_delete.simps)
next
  case (4 s k)
  with delete_deadlocks [of s k] show ?case by (simp add: kv_del_def del: ramkv777_delete.simps)
qed

text \<open>
  C20. From an empty store on, for keys of the key size and values below 65536 bytes: a sequence of writes and reads
  and, when the store has no mutex, deletions returns what a map from keys to values returns, and at the end the
  store holds the same map. A write returns the item instead of the value exactly when the key is there with a value
  of the same size. On a store with a mutex a sequence with a deletion never comes to its end.
\<close>

theorem ramkv_refines_map:
  assumes "\<forall>op \<in> set ops. op_legal (\<lambda>k. length k = ks) (\<lambda>v. length v < 2 ^ 16) op"
  shows "if safe \<and> (\<exists>op \<in> set ops. is_del op)
    then run_store (ramkv777_write upd) kv_get kv_del ops (ramkv777_init start ind name ks safe) = None
    else \<exists>kv. run_store (ramkv777_write upd) kv_get kv_del ops (ramkv777_init start ind name ks safe) = Some (kv, snd (run_map write_result ops Map.empty))
      \<and> kv_map kv = fst (run_map write_result ops Map.empty)"
proof -
  let ?kv = "ramkv777_init start ind name ks safe"
  have k: "kv_ok ks ?kv \<and> threadsafe ?kv = safe" using store_init_ok(1) [of ks start ind name safe] by (simp add: ramkv777_init_def)
  show ?thesis
  proof (cases "safe \<and> (\<exists>op \<in> set ops. is_del op)")
    case True
    then show ?thesis using ramkv.deletion_hangs [OF k assms] by simp
  next
    case False
    then show ?thesis using ramkv.refines_map [OF k store_init_ok(2) assms False] by auto
  qed
qed

theorem ramkv_refines_map_witness:
  "(\<exists>kv. run_store (ramkv777_write (\<lambda>s b. (s, []))) kv_get kv_del [Put [1] [2, 3], Put [1] [4], Put [1] [5], Get [1], Del [1], Get [1]] (ramkv777_init ((), []) 0 ''kv'' 1 False)
      = Some (kv, [Written ValuePtr, Written ValuePtr, Written ItemPtr, Got (Some [5]), Deleted True, Got None]))
   \<and> run_store (ramkv777_write (\<lambda>s b. (s, []))) kv_get kv_del [Put [1] [2, 3], Del [1]] (ramkv777_init ((), []) 0 ''kv'' 1 True) = None"
  using ramkv_refines_map [of "[Put [1] [2, 3], Put [1] [4], Put [1] [5], Get [1], Del [1], Get [1]]" 1 False "\<lambda>s b. (s, [])" "((), [])" 0 "''kv''"]
    ramkv_refines_map [of "[Put [1] [2, 3], Del [1]]" 1 True "\<lambda>s b. (s, [])" "((), [])" 0 "''kv''"]
  by (fastforce simp: write_result_def)

section \<open>Cloning\<close>

lemma clone_items_ok:
  assumes "kv_ok ks clone" and "\<forall>it \<in> set tab. item_ok ks it" and "distinct (map it_key tab)"
  shows "\<exists>clone'. clone_items upd tab clone n = Some (clone', n + int (length tab)) \<and> kv_ok ks clone'
    \<and> kv_map clone' = (\<lambda>k. case hash_find k tab of None \<Rightarrow> kv_map clone k | Some it \<Rightarrow> Some (it_value it))"
  using assms
proof (induction tab arbitrary: clone n)
  case Nil
  then show ?case by auto
next
  case (Cons it tab)
  have it: "length (it_key it) = ks" "length (it_value it) = unat (it_valuesize it)" using Cons.prems(2) by (auto simp: item_ok_def)
  then have "length (it_value it) < 2 ^ 16" using unsigned_less [where ?'a = nat and ?'b = 16, of "it_valuesize it"] by simp
  with write_ok [OF Cons.prems(1), of "it_key it" "it_value it" upd] it obtain clone1 p where c1:
    "ramkv777_write upd clone (it_key it) (it_value it) = Some (clone1, p)" "kv_ok ks clone1"
    "kv_map clone1 = (kv_map clone)(it_key it \<mapsto> it_value it)" by auto
  from Cons.IH [OF c1(2), of "n + 1"] Cons.prems(2,3) obtain clone2 where c2:
    "clone_items upd tab clone1 (n + 1) = Some (clone2, n + 1 + int (length tab))" "kv_ok ks clone2"
    "kv_map clone2 = (\<lambda>k. case hash_find k tab of None \<Rightarrow> kv_map clone1 k | Some it \<Rightarrow> Some (it_value it))" by auto
  have "hash_find (it_key it) tab = None" using Cons.prems(3) by (auto simp: hash_find_None)
  with c1 c2 it show ?case by (auto simp: fun_eq_iff split: option.splits)
qed

lemma clone_same_map:
  assumes "kv_ok ks kv"
  shows "\<exists>clone. ramkv777_clone upd (ramkv777_init start ind name ks safe) (Some kv) = Some (clone, int (length (kv_table kv)))
    \<and> kv_ok ks clone \<and> kv_map clone = kv_map kv"
proof -
  have "\<exists>clone. clone_items upd (kv_table kv) (ramkv777_init start ind name ks safe) 0 = Some (clone, 0 + int (length (kv_table kv)))
    \<and> kv_ok ks clone \<and> kv_map clone = (\<lambda>k. case hash_find k (kv_table kv) of None \<Rightarrow> kv_map (ramkv777_init start ind name ks safe) k | Some it \<Rightarrow> Some (it_value it))"
    using assms by (intro clone_items_ok store_init_ok(1)) (auto simp: kv_ok_def)
  moreover have "(\<lambda>k. case hash_find k (kv_table kv) of None \<Rightarrow> kv_map (ramkv777_init start ind name ks safe) k | Some it \<Rightarrow> Some (it_value it)) = kv_map kv"
    by (rule ext) (simp add: store_init_ok(2) kv_map_def split: option.split)
  ultimately show ?thesis by simp
qed

end
