(* ===== verification/Peggy777.thy ===== *)
theory Peggy777
  imports Utils777 Ramkv777
begin

text \<open>
  Pegged assets (\<open>plugins/peggy\<close>): prices, units that lock coins against a peg, their redemption
  and the books of the pools, the bank and the reserves.

  All amounts are 64-bit words with the wrap-around of the machine; comparison and division follow
  the C types, signed or unsigned, of the operands. \<open>None\<close> is an access outside an array, a
  division by zero or the one overflow of a signed division. A pointer to a peg is its index among
  the contracts, a pointer to a table of prices its index among the priced pegs. Output on the
  console is not modelled.
\<close>

section \<open>Integers\<close>

type_synonym i16 = "16 word"

definition sdiv64 :: "i64 \<Rightarrow> i64 \<Rightarrow> i64 option" where
  "sdiv64 a b = (if b = 0 \<or> a = - (2 ^ 63) \<and> b = - 1 then None else Some (word_of_int (sint a sdiv sint b)))"

definition udiv64 :: "u64 \<Rightarrow> u64 \<Rightarrow> u64 option" where
  "udiv64 a b = (if b = 0 then None else Some (a div b))"

definition umod64 :: "u64 \<Rightarrow> u64 \<Rightarrow> u64 option" where
  "umod64 a b = (if b = 0 then None else Some (a mod b))"

definition SATOSHIDEN :: u64 where "SATOSHIDEN = 100000000"
definition PRICE_RESOLUTION_ROOT :: i64 where "PRICE_RESOLUTION_ROOT = 3163"
definition PRICE_RESOLUTION :: i64 where "PRICE_RESOLUTION = 10004569"
definition PRICE_RESOLUTION_MAXPVAL :: i64 where "PRICE_RESOLUTION_MAXPVAL = 3037000500"
definition PRICE_RESOLUTION_MAXUNITS :: i16 where "PRICE_RESOLUTION_MAXUNITS = 9219"
definition PEGGY_MINUTE :: u32 where "PEGGY_MINUTE = 60"
definition PEGGY_DAYTICKS :: u32 where "PEGGY_DAYTICKS = 86400"
definition PEGGY_MINEXTRADAYS :: u64 where "PEGGY_MINEXTRADAYS = 3"
definition PEGGY_MARGINLOCKDAYS :: u16 where "PEGGY_MARGINLOCKDAYS = 30"
definition PEGGY_MARGINGAPDAYS :: u16 where "PEGGY_MARGINGAPDAYS = 7"
definition PEGGY_RATE_777 :: i64 where "PEGGY_RATE_777 = 2052"

definition SCALED_PRICE :: "i64 \<Rightarrow> i64 \<Rightarrow> i64 option" where
  "SCALED_PRICE val scale = sdiv64 (scale * val) PRICE_RESOLUTION"

section \<open>Data\<close>

record peggy_time =
  pt_blocknum :: u32
  pt_blocktimestamp :: u32

record peggy_units =
  un_num :: i64
  un_numoppo :: i64

record peggy_margin =
  mg_deposits :: i64
  mg_margindeposits :: i64
  mg_marginvalue :: i64

record peggy_description =
  ds_name :: string
  ds_assetbits :: u64
  ds_id :: i16
  ds_baseid :: i16
  ds_relid :: i16
  ds_hasprice :: i8
  ds_enabled :: i8

record peggy_pool =
  pl_funds :: peggy_margin
  pl_liability :: peggy_units
  pl_quorum :: u64
  pl_decisionthreshold :: u64
  pl_mainunitsize :: u64

record peggy_lock =
  lk_peg :: i16
  lk_denom :: i16
  lk_minlockdays :: u16
  lk_maxlockdays :: u16
  lk_clonesmear :: u16
  lk_mixrange :: u16
  lk_redemptiongapdays :: u16
  lk_extralockdays :: u8
  lk_margin :: u8

record peggy_unit =
  u_estimated_interest :: i64
  u_costbasis :: i64
  u_amount :: i64
  u_marginamount :: i64
  u_timestamp :: u32
  u_dailyrate :: i16
  u_baseid :: u8
  u_relid :: u8
  u_lock :: peggy_lock
  u_lockhash :: "u8 list"

text \<open>\<open>pg_baseprices\<close> and \<open>pg_relprices\<close> are pointers to the prices of a priced peg.\<close>

record peggy =
  pg_name :: peggy_description
  pg_pool :: peggy_pool
  pg_lockparms :: peggy_lock
  pg_maxsupply :: i64
  pg_maxnetbalance :: i64
  pg_spread :: i64
  pg_mindenomination :: i64
  pg_genesisprice :: i64
  pg_price :: i64
  pg_dayprice :: i64
  pg_day :: u32
  pg_genesistime :: u32
  pg_maxdailyrate :: u32
  pg_unitincr :: u32
  pg_dayprices :: "u32 list"
  pg_baseprices :: nat
  pg_relprices :: "nat option"
  pg_RTminute :: i32

record peggy_entry =
  en_total :: i64
  en_costbasis :: i64
  en_royalty :: i64
  en_fee :: i64
  en_estimated_interest :: i64
  en_interest_unlocked :: i64
  en_interestpaid :: i64
  en_supplydiff :: i64
  en_denomination :: i64
  en_dailyrate :: i16
  en_baseid :: i16
  en_relid :: i16
  en_polarity :: i16
  en_supply :: peggy_units
  en_price :: i64
  en_oppoprice :: i64

record peggy_balances =
  bl_funds :: peggy_margin
  bl_privatebetfees :: i64
  bl_crypto777_royalty :: i64
  bl_APRfund :: i64
  bl_APRfund_reserved :: i64

text \<open>
  The account books that units need: the units and, unless it is null, the store of hash
  addresses.
\<close>

record 's accts777_info =
  ac_units :: "peggy_unit list"
  ac_hashaddrs :: "'s ramkv777 option"

record 's peggy_info =
  ps_bank :: peggy_balances
  ps_basereserves :: "peggy_balances list"
  ps_interesttenths :: i32
  ps_posboost :: i32
  ps_negpenalty :: i32
  ps_feediv :: i32
  ps_feemult :: i32
  ps_contracts :: "peggy list"
  ps_prices :: "u32 list list"
  ps_accts :: "'s accts777_info"

definition zero_units :: peggy_units where "zero_units = \<lparr>un_num = 0, un_numoppo = 0\<rparr>"

definition zero_entry :: peggy_entry where
  "zero_entry = \<lparr>en_total = 0, en_costbasis = 0, en_royalty = 0, en_fee = 0, en_estimated_interest = 0, en_interest_unlocked = 0,
     en_interestpaid = 0, en_supplydiff = 0, en_denomination = 0, en_dailyrate = 0, en_baseid = 0, en_relid = 0, en_polarity = 0,
     en_supply = zero_units, en_price = 0, en_oppoprice = 0\<rparr>"

text \<open>The sign extensions of C.\<close>

abbreviation from16 :: "i16 \<Rightarrow> i64" where "from16 x \<equiv> scast x"
abbreviation from32 :: "i32 \<Rightarrow> i64" where "from32 x \<equiv> scast x"

section \<open>Interest\<close>

definition dailyrates :: "i32 list" where
  "dailyrates = [0, 27, 55, 82, 110, 137, 164, 192, 219, 246, 273, 300, 327, 355, 382, 409, 436, 463, 489, 516, 543, 570, 597,
    624, 651, 677, 704, 731, 757, 784, 811, 837, 864, 890, 917, 943, 970, 996, 1023, 1049, 1076, 1102, 1128, 1155, 1181, 1207,
    1233, 1259, 1286, 1312, 1338, 1364, 1390, 1416, 1442, 1468, 1494, 1520, 1546, 1572, 1598, 1624, 1649, 1675, 1701, 1727, 1752,
    1778, 1804, 1830, 1855, 1881, 1906, 1932, 1957, 1983, 2008, 2034, 2059, 2085, 2110, 2136, 2161, 2186, 2212, 2237, 2262, 2287,
    2313, 2338, 2363, 2388, 2413, 2438, 2463, 2488, 2513, 2538, 2563, 2588, 2613]"

definition peggy_aprpercs :: "i64 \<Rightarrow> int" where
  "peggy_aprpercs dailyrate =
     (if dailyrate = PEGGY_RATE_777 then 777 else if dailyrate = - PEGGY_RATE_777 then - 777
      else let i = scan (\<lambda>(lo, hi). s_le (scast (lo :: i32)) dailyrate \<and> s_lt dailyrate (scast (hi :: i32))) (zip dailyrates (tl dailyrates)) 0
           in if i < 0 then 0 else i * 10)"

fun compound_loop :: "nat \<Rightarrow> i64 \<Rightarrow> i64 \<Rightarrow> i64 option" where
  "compound_loop 0 dailyrate compounded = Some compounded"
| "compound_loop (Suc n) dailyrate compounded =
     do { d \<leftarrow> SCALED_PRICE compounded dailyrate; compound_loop n dailyrate (compounded + d) }"

definition peggy_compound :: "i64 \<Rightarrow> i64 \<Rightarrow> i32 \<Rightarrow> i64 option" where
  "peggy_compound satoshis dailyrate n =
     (if dailyrate = 0 then Some satoshis
      else do { c \<leftarrow> compound_loop (nat (sint n)) dailyrate satoshis; Some (if s_lt c 0 then 0 else c) })"

section \<open>The books\<close>

definition peggy_updatemargin :: "peggy_margin \<Rightarrow> i64 \<Rightarrow> u8 \<Rightarrow> i64 \<Rightarrow> peggy_margin" where
  "peggy_updatemargin funds satoshis margin amount =
     (if margin = 0 then funds\<lparr>mg_deposits := mg_deposits funds + satoshis\<rparr>
      else funds\<lparr>mg_margindeposits := mg_margindeposits funds + amount, mg_marginvalue := mg_marginvalue funds + amount * ucast margin\<rparr>)"

definition peggy_thanks_you :: "'s peggy_info \<Rightarrow> i64 \<Rightarrow> 's peggy_info" where
  "peggy_thanks_you PEGS tip = PEGS\<lparr>ps_bank := (ps_bank PEGS)\<lparr>bl_crypto777_royalty := bl_crypto777_royalty (ps_bank PEGS) + tip\<rparr>\<rparr>"

text \<open>Updates of the funds of a peg, of the bank and of a reserve.\<close>

definition upd_peg :: "nat \<Rightarrow> (peggy \<Rightarrow> peggy) \<Rightarrow> 's peggy_info \<Rightarrow> 's peggy_info option" where
  "upd_peg p f PEGS = do { PEG \<leftarrow> aget (ps_contracts PEGS) (int p); Some (PEGS\<lparr>ps_contracts := (ps_contracts PEGS)[p := f PEG]\<rparr>) }"

definition upd_pool :: "(peggy_pool \<Rightarrow> peggy_pool) \<Rightarrow> peggy \<Rightarrow> peggy" where
  "upd_pool f PEG = PEG\<lparr>pg_pool := f (pg_pool PEG)\<rparr>"

definition upd_bank :: "(peggy_balances \<Rightarrow> peggy_balances) \<Rightarrow> 's peggy_info \<Rightarrow> 's peggy_info" where
  "upd_bank f PEGS = PEGS\<lparr>ps_bank := f (ps_bank PEGS)\<rparr>"

definition upd_reserve :: "i16 \<Rightarrow> (peggy_margin \<Rightarrow> peggy_margin) \<Rightarrow> 's peggy_info \<Rightarrow> 's peggy_info option" where
  "upd_reserve i f PEGS =
     do { b \<leftarrow> aget (ps_basereserves PEGS) (sint i);
          Some (PEGS\<lparr>ps_basereserves := (ps_basereserves PEGS)[nat (sint i) := b\<lparr>bl_funds := f (bl_funds b)\<rparr>]\<rparr>) }"

text \<open>The part of \<open>peggy_changereserve\<close> that splits the fee: the new bank, the fee kept and the fee that replenishes the pool.\<close>

definition split_fee :: "'s peggy_info \<Rightarrow> peggy \<Rightarrow> peggy_entry \<Rightarrow> (peggy_balances \<times> u64 \<times> u64) option" where
  "split_fee PEGS PEG entry =
     (let bank = (ps_bank PEGS)\<lparr>bl_APRfund_reserved := bl_APRfund_reserved (ps_bank PEGS) + (en_estimated_interest entry - en_interest_unlocked entry)\<rparr>
      in if s_lt 0 (mg_deposits (pl_funds (pg_pool PEG))) \<and> s_lt 0 (mg_deposits (bl_funds bank))
         then (if s_lt (bl_APRfund bank) 0 then Some (bank\<lparr>bl_APRfund := bl_APRfund bank + en_fee entry\<rparr>, 0, 0)
               else do { q \<leftarrow> sdiv64 (en_fee entry) (from32 (ps_feediv PEGS));
                         let fee = q * from32 (ps_feemult PEGS);
                         Some (bank\<lparr>bl_APRfund := bl_APRfund bank + ((en_fee entry - fee) - en_interestpaid entry)\<rparr>, fee, 0) })
         else Some (bank, 0, en_fee entry))"

definition peggy_changereserve ::
    "'s peggy_info \<Rightarrow> nat \<Rightarrow> i64 \<Rightarrow> peggy_entry \<Rightarrow> i64 \<Rightarrow> u8 \<Rightarrow> i64 \<Rightarrow> 's peggy_info option" where
  "peggy_changereserve PEGS p dir entry satoshis margin marginamount =
     do { PEG \<leftarrow> aget (ps_contracts PEGS) (int p);
          (bank, fee, replenish) \<leftarrow> split_fee PEGS PEG entry;
          let PEGS = peggy_thanks_you (PEGS\<lparr>ps_bank := bank\<rparr>) (en_royalty entry + fee);
          PEGS \<leftarrow> upd_peg p (upd_pool (\<lambda>pl. pl\<lparr>pl_funds := peggy_updatemargin (pl_funds pl) (satoshis + replenish) margin marginamount\<rparr>)) PEGS;
          let PEGS = upd_bank (\<lambda>b. b\<lparr>bl_funds := peggy_updatemargin (bl_funds b) (satoshis + replenish) margin marginamount\<rparr>) PEGS;
          PEGS \<leftarrow> upd_reserve (en_baseid entry) (\<lambda>f. peggy_updatemargin f (dir * satoshis) margin (dir * marginamount)) PEGS;
          PEGS \<leftarrow> upd_reserve (en_relid entry) (\<lambda>f. peggy_updatemargin f (- dir * satoshis) margin (- dir * marginamount)) PEGS;
          upd_peg p (upd_pool (\<lambda>pl. pl\<lparr>pl_liability :=
            (if s_lt (en_polarity entry) 0
             then (pl_liability pl)\<lparr>un_numoppo := un_numoppo (pl_liability pl) + dir * en_denomination entry\<rparr>
             else (pl_liability pl)\<lparr>un_num := un_num (pl_liability pl) + dir * en_denomination entry\<rparr>)\<rparr>)) PEGS }"

section \<open>Prices\<close>

text \<open>The loop that fills the gap before a new price; the table and the minute at which it stops.\<close>

fun fill_back :: "nat \<Rightarrow> u32 \<Rightarrow> u32 list \<Rightarrow> (u32 list \<times> int) option" where
  "fill_back 0 pval prices = Some (prices, - 1)"
| "fill_back (Suc minute) pval prices =
     (if minute = 0 then Some (prices, 0)
      else do { q \<leftarrow> aget prices (int minute);
                if q = 0 then fill_back minute pval (prices[minute := pval]) else Some (prices, int minute) })"

definition peggy_setprice :: "'s peggy_info \<Rightarrow> nat \<Rightarrow> i64 \<Rightarrow> i32 \<Rightarrow> ('s peggy_info \<times> int) option" where
  "peggy_setprice PEGS p price minute =
     do { PEG \<leftarrow> aget (ps_contracts PEGS) (int p);
          if ds_hasprice (pg_name PEG) = 0 then Some (PEGS, sint minute)
          else do {
            let price = (if s_lt PRICE_RESOLUTION_MAXPVAL price then PRICE_RESOLUTION_MAXPVAL else if s_le price 0 then 0 else price);
            prices \<leftarrow> aget (ps_prices PEGS) (int (pg_baseprices PEG));
            old \<leftarrow> aget prices (sint minute);
            let pval = (if old \<noteq> 0 then drop_bit 1 (ucast (price + ucast old) :: u32) else ucast price);
            let PEG = (if old = 0 \<and> s_lt (pg_RTminute PEG) minute then PEG\<lparr>pg_RTminute := minute\<rparr> else PEG);
            (prices, stop) \<leftarrow> fill_back (nat (sint minute)) pval (prices[nat (sint minute) := pval]);
            Some (PEGS\<lparr>ps_contracts := (ps_contracts PEGS)[p := PEG], ps_prices := (ps_prices PEGS)[pg_baseprices PEG := prices]\<rparr>, stop) } }"

definition peggy_shortprice :: "peggy \<Rightarrow> i64 \<Rightarrow> i64 option" where
  "peggy_shortprice PEG price = (if price \<noteq> 0 then sdiv64 (PRICE_RESOLUTION * pg_genesisprice PEG) price else Some 0)"

text \<open>The search for the last price; behind the first minute it leaves the table.\<close>

fun last_price :: "u32 list \<Rightarrow> nat \<Rightarrow> (u32 \<times> nat) option" where
  "last_price prices minute =
     do { q \<leftarrow> aget prices (int minute);
          if q \<noteq> 0 then Some (q, minute)
          else case minute of 0 \<Rightarrow> None | Suc m \<Rightarrow> last_price prices m }"

definition peggy_price :: "'s peggy_info \<Rightarrow> peggy \<Rightarrow> i32 \<Rightarrow> i64 option" where
  "peggy_price PEGS PEG minute =
     do { let minute = (if minute = pg_RTminute PEG then minute - 1 else minute);
          prices \<leftarrow> aget (ps_prices PEGS) (int (pg_baseprices PEG));
          (q, m) \<leftarrow> (if s_lt minute 0 then None else last_price prices (nat (sint minute)));
          if ds_hasprice (pg_name PEG) \<noteq> 0 then Some (ucast q)
          else do {
            r \<leftarrow> pg_relprices PEG;
            rels \<leftarrow> aget (ps_prices PEGS) (int r);
            rel \<leftarrow> aget rels (int m);
            if rel = 0 then Some 0
            else if s_lt (ucast q) PRICE_RESOLUTION_MAXPVAL then sdiv64 (PRICE_RESOLUTION * ucast q) (ucast rel)
            else do { x \<leftarrow> sdiv64 (PRICE_RESOLUTION_ROOT * ucast q) (ucast rel); Some (PRICE_RESOLUTION_ROOT * x) } } }"

definition peggy_aveprice :: "peggy \<Rightarrow> i32 \<Rightarrow> i32 \<Rightarrow> i64 option" where
  "peggy_aveprice PEG day width =
     do { (total, n) \<leftarrow> ofold (\<lambda>i (total, n).
             do { q \<leftarrow> aget (pg_dayprices PEG) (sint day + i);
                  Some (if q \<noteq> 0 then (total + ucast q, n + 1) else (total, n)) }) [0..sint width - 1] (0 :: i64, 0 :: i64);
          if n \<noteq> 0 then sdiv64 total n else Some total }"

definition peggy_satoshis :: "bool \<Rightarrow> i16 \<Rightarrow> i64 \<Rightarrow> i64 \<Rightarrow> u64 option" where
  "peggy_satoshis short denomination price oppoprice =
     (if short
      then do { satoshi \<leftarrow> sdiv64 (oppoprice * price) PRICE_RESOLUTION_ROOT;
                udiv64 ((SATOSHIDEN div PRICE_RESOLUTION_ROOT) * (satoshi * from16 denomination)) PRICE_RESOLUTION }
      else udiv64 (SATOSHIDEN * from16 denomination * price) PRICE_RESOLUTION)"

definition peggy_poolmainunits ::
    "peggy_entry \<Rightarrow> i64 \<Rightarrow> bool \<Rightarrow> i64 \<Rightarrow> i64 \<Rightarrow> i64 \<Rightarrow> u64 \<Rightarrow> i16 \<Rightarrow> (peggy_entry \<times> u64) option" where
  "peggy_poolmainunits entry dir short price oppoprice spread poolincr denomunits =
     do { costbasis \<leftarrow> peggy_satoshis short denomunits price oppoprice;
          fee \<leftarrow> (if (en_baseid entry \<noteq> 0 \<or> en_relid entry \<noteq> 0) \<and> spread \<noteq> 0 then SCALED_PRICE price spread else Some 0);
          let price = price + dir * fee;
          satoshis \<leftarrow> peggy_satoshis short denomunits price oppoprice;
          rest \<leftarrow> umod64 satoshis poolincr;
          let dir = (if rest = 0 then 0 else dir);
          let mainunits = dir + satoshis div poolincr;
          let total = poolincr * mainunits;
          Some (entry\<lparr>en_denomination := from16 denomunits, en_costbasis := costbasis, en_total := total, en_fee := total - costbasis\<rparr>, total) }"

definition peggy_pairabs :: "i64 \<Rightarrow> i64 \<Rightarrow> i64" where
  "peggy_pairabs basebalance relbalance =
     (let b = (if s_lt basebalance 0 then - basebalance else basebalance)
      in if s_lt relbalance 0 then b - relbalance else b + relbalance)"

section \<open>Limits\<close>

definition peggy_lockrate :: "peggy_entry \<Rightarrow> 's peggy_info \<Rightarrow> peggy \<Rightarrow> u64 \<Rightarrow> u16 \<Rightarrow> (peggy_entry \<times> i64) option" where
  "peggy_lockrate entry PEGS PEG satoshis numdays =
     (let both = un_num (en_supply entry) + un_numoppo (en_supply entry)
      in if both = 0 then Some (entry\<lparr>en_dailyrate := 0\<rparr>, 0)
         else do {
           let diff = un_numoppo (en_supply entry) - un_num (en_supply entry);
           let entry = entry\<lparr>en_supplydiff := (if s_lt diff 0 then - diff else diff)\<rparr>;
           let prod = ucast (pg_maxdailyrate PEG) * diff;
           let prod = (if s_lt 0 prod then prod * from32 (ps_posboost PEGS) else prod);
           q \<leftarrow> sdiv64 prod both;
           base \<leftarrow> aget dailyrates (sint (ps_interesttenths PEGS));
           let rate = q + from32 base;
           let rate = (if s_lt PEGGY_RATE_777 rate then PEGGY_RATE_777 else if s_lt rate (- PEGGY_RATE_777) then - PEGGY_RATE_777 else rate);
           rate \<leftarrow> (if s_lt prod 0 \<and> s_lt 0 rate then sdiv64 rate (from32 (ps_negpenalty PEGS)) else Some rate);
           compounded \<leftarrow> peggy_compound satoshis rate (ucast numdays);
           needed \<leftarrow> sdiv64 ((compounded - satoshis) * 3) 2;
           if s_lt (bl_APRfund (ps_bank PEGS)) (bl_APRfund_reserved (ps_bank PEGS) + needed)
           then Some (entry\<lparr>en_dailyrate := 0\<rparr>, 0)
           else Some (entry\<lparr>en_estimated_interest := needed, en_dailyrate := ucast rate\<rparr>, rate) })"

definition peggy_islegal_amount ::
    "peggy_entry \<Rightarrow> 's peggy_info \<Rightarrow> peggy \<Rightarrow> i64 \<Rightarrow> i32 \<Rightarrow> u8 \<Rightarrow> i64 \<Rightarrow> (peggy_entry \<times> bool) option" where
  "peggy_islegal_amount entry PEGS PEG satoshis numdays margin price =
     do { entry \<leftarrow> (if margin = 0 then do { (entry, rate) \<leftarrow> peggy_lockrate entry PEGS PEG satoshis (ucast numdays);
                                            Some (entry\<lparr>en_dailyrate := ucast rate\<rparr>) }
                    else Some entry);
          if en_baseid entry = en_relid entry \<or> ds_id (pg_name PEG) = 0 then Some (entry, True)
          else if pg_maxsupply PEG < (mg_deposits (pl_funds (pg_pool PEG)) + mg_marginvalue (pl_funds (pg_pool PEG))) + satoshis then Some (entry, False)
          else do {
            base \<leftarrow> aget (ps_basereserves PEGS) (sint (en_baseid entry));
            rel \<leftarrow> aget (ps_basereserves PEGS) (sint (en_relid entry));
            let b = mg_deposits (bl_funds base);
            let r = mg_deposits (bl_funds rel);
            if s_le (peggy_pairabs (b + satoshis) (r - satoshis)) (peggy_pairabs b r) then Some (entry, True)
            else do {
              d \<leftarrow> (if pg_maxnetbalance PEG \<noteq> 0 then sdiv64 (price * en_supplydiff entry) PRICE_RESOLUTION else Some 0);
              Some (entry, \<not> (pg_maxnetbalance PEG \<noteq> 0 \<and> pg_maxnetbalance PEG div SATOSHIDEN < d)) } } }"

definition calc_nxt64bits :: "string \<Rightarrow> u64" where
  "calc_nxt64bits s =
     (if length s \<ge> 22 \<or> s = ''0'' \<or> s = ''false'' then 0
      else let neg = (s \<noteq> [] \<and> hd s = CHR ''-''); digits = (if neg then tl s else s);
               v = fold (\<lambda>c v. v * 10 + (word_of_nat (of_char c) - 48)) digits 0
           in if \<exists>c \<in> set digits. \<not> is_digit c then 0 else if neg then - v else v)"

definition peggy_assetbits :: "string \<Rightarrow> u64" where
  "peggy_assetbits s = (if is_decimalstr s \<noteq> 0 then calc_nxt64bits s else stringbits s)"

definition peggy_findpair :: "'s peggy_info \<Rightarrow> string \<Rightarrow> nat option" where
  "peggy_findpair PEGS s =
     (let bits = peggy_assetbits s; i = scan (\<lambda>PEG. ds_assetbits (pg_name PEG) = bits) (ps_contracts PEGS) 0
      in if bits = 0 \<or> i < 0 then None else Some (nat i))"

definition peggy_found :: "peggy \<Rightarrow> bool \<Rightarrow> peggy_entry" where
  "peggy_found PEG short =
     (let l = pl_liability (pg_pool PEG)
      in if \<not> short
         then zero_entry\<lparr>en_polarity := 1, en_baseid := ds_baseid (pg_name PEG), en_relid := ds_relid (pg_name PEG), en_supply := l\<rparr>
         else zero_entry\<lparr>en_polarity := - 1, en_baseid := ds_relid (pg_name PEG), en_relid := ds_baseid (pg_name PEG),
                en_supply := \<lparr>un_num = un_numoppo l, un_numoppo = un_num l\<rparr>\<rparr>)"

text \<open>\<open>peggy_find\<close>: the contract of that name, if there is one, and its entry.\<close>

definition peggy_find :: "'s peggy_info \<Rightarrow> string \<Rightarrow> bool \<Rightarrow> (nat \<times> peggy_entry) option" where
  "peggy_find PEGS s short = map_option (\<lambda>p. (p, peggy_found (ps_contracts PEGS ! p) short)) (peggy_findpair PEGS s)"

definition peggy_findpeg :: "'s peggy_info \<Rightarrow> i32 \<Rightarrow> (nat \<times> peggy_entry) option" where
  "peggy_findpeg PEGS peg =
     (let short = s_lt peg 0; p = (if short then sint (- peg) else sint peg)
      in do { PEG \<leftarrow> aget (ps_contracts PEGS) p; Some (nat p, peggy_found PEG short) })"

definition peggy_calcspread :: "i64 \<Rightarrow> i32 \<Rightarrow> i64 option" where
  "peggy_calcspread spread lockdays = (if s_lt lockdays 30 then Some spread else sdiv64 (30 * spread) (from32 lockdays))"

section \<open>Units\<close>

definition upd_accts :: "('s accts777_info \<Rightarrow> 's accts777_info) \<Rightarrow> 's peggy_info \<Rightarrow> 's peggy_info" where
  "upd_accts f PEGS = PEGS\<lparr>ps_accts := f (ps_accts PEGS)\<rparr>"

definition peggy_delete :: "nat \<Rightarrow> 's accts777_info \<Rightarrow> 's accts777_info" where
  "peggy_delete i accts = accts\<lparr>ac_units := butlast ((ac_units accts)[i := last (ac_units accts)])\<rparr>"

definition peggy_addunit :: "peggy_unit \<Rightarrow> u8 list \<Rightarrow> 's accts777_info \<Rightarrow> 's accts777_info" where
  "peggy_addunit U lockhash accts = accts\<lparr>ac_units := ac_units accts @ [U\<lparr>u_lockhash := lockhash\<rparr>]\<rparr>"

text \<open>
  \<open>peggy_match\<close>. The first unit with that peg and lock period decides; with a store of hash
  addresses a value of the size of a pointer would be taken for a unit and read past its end.
\<close>

definition unit_fits :: "i32 \<Rightarrow> u16 \<Rightarrow> peggy_unit \<Rightarrow> bool" where
  "unit_fits peg lockdays U \<longleftrightarrow>
     (scast (lk_peg (u_lock U)) :: i32) = peg \<and> lk_minlockdays (u_lock U) \<le> lockdays \<and> lockdays \<le> lk_maxlockdays (u_lock U)"

definition sizeof_pointer :: u16 where "sizeof_pointer = 8"

definition peggy_match :: "'s accts777_info \<Rightarrow> i32 \<Rightarrow> u8 list \<Rightarrow> u16 \<Rightarrow> ('s accts777_info \<times> nat option) option" where
  "peggy_match accts peg lockhash lockdays =
     (case ac_hashaddrs accts of
        None \<Rightarrow>
          let i = scan (unit_fits peg lockdays) (ac_units accts) 0
          in Some (accts, if i < 0 then None else if u_lockhash (ac_units accts ! nat i) = lockhash then Some (nat i) else None)
      | Some kv \<Rightarrow>
          do { (kv, n, v) \<leftarrow> ramkv777_read kv lockhash;
               if v \<noteq> None \<and> n = sizeof_pointer then None else Some (accts\<lparr>ac_hashaddrs := Some kv\<rparr>, None) })"

text \<open>The lock of a new unit: the checks for margin trading and the limits of the peg.\<close>

definition margin_lock :: "peggy_entry \<Rightarrow> peggy \<Rightarrow> i16 \<Rightarrow> peggy_lock \<Rightarrow> peggy_lock option" where
  "margin_lock entry PEG denom lock =
     (if lk_margin lock \<noteq> 0
      then if lk_maxlockdays lock > PEGGY_MARGINLOCKDAYS \<or> lk_margin lock > lk_margin (pg_lockparms PEG) \<or> s_lt denom (ucast (lk_margin lock))
              \<or> s_lt (un_numoppo (en_supply entry)) (from16 denom + un_num (en_supply entry))
           then None
           else Some (lock\<lparr>lk_redemptiongapdays := PEGGY_MARGINGAPDAYS\<rparr>)
      else Some (lock\<lparr>lk_redemptiongapdays := lk_redemptiongapdays (pg_lockparms PEG)\<rparr>))"

definition limit_lock :: "peggy_lock \<Rightarrow> peggy_lock \<Rightarrow> peggy_lock" where
  "limit_lock parms lock =
     (let lock = (if lk_maxlockdays lock \<le> lk_maxlockdays parms then lock\<lparr>lk_maxlockdays := lk_maxlockdays parms\<rparr> else lock);
          lock = (if lk_minlockdays parms \<le> lk_minlockdays lock then lock\<lparr>lk_minlockdays := lk_minlockdays parms\<rparr> else lock);
          lock = (if lk_maxlockdays lock < lk_minlockdays lock then lock\<lparr>lk_minlockdays := lk_maxlockdays lock\<rparr> else lock);
          lock = (if lk_clonesmear parms < lk_clonesmear lock then lock\<lparr>lk_clonesmear := lk_clonesmear parms\<rparr> else lock)
      in if lk_mixrange parms < lk_mixrange lock then lock\<lparr>lk_mixrange := lk_mixrange parms\<rparr> else lock)"

definition zero_lock :: peggy_lock where
  "zero_lock = \<lparr>lk_peg = 0, lk_denom = 0, lk_minlockdays = 0, lk_maxlockdays = 0, lk_clonesmear = 0, lk_mixrange = 0,
     lk_redemptiongapdays = 0, lk_extralockdays = 0, lk_margin = 0\<rparr>"

definition zero_unit :: peggy_unit where
  "zero_unit = \<lparr>u_estimated_interest = 0, u_costbasis = 0, u_amount = 0, u_marginamount = 0, u_timestamp = 0, u_dailyrate = 0,
     u_baseid = 0, u_relid = 0, u_lock = zero_lock, u_lockhash = replicate 32 0\<rparr>"

text \<open>\<open>peggy_setunit\<close>: the unit, the entry and the price of the unit, 0 when it is refused.\<close>

definition peggy_setunit ::
    "peggy_entry \<Rightarrow> 's peggy_info \<Rightarrow> peggy_time \<Rightarrow> nat \<Rightarrow> u64 \<Rightarrow> peggy_lock \<Rightarrow> (peggy_unit \<times> peggy_entry \<times> u64) option" where
  "peggy_setunit entry PEGS T p seed lock =
     do { PEG \<leftarrow> aget (ps_contracts PEGS) (int p);
          let U = zero_unit\<lparr>u_lock := lock\<rparr>;
          let short = s_lt (lk_denom lock) 0;
          let denom = (if short then - lk_denom lock else lk_denom lock);
          if s_le PRICE_RESOLUTION_MAXUNITS denom then Some (U, entry, 0)
          else case margin_lock entry PEG denom lock of
            None \<Rightarrow> Some (U, entry, 0)
          | Some lock \<Rightarrow> do {
              let parms = pg_lockparms PEG;
              let lock = limit_lock parms lock;
              extra \<leftarrow> umod64 seed (ucast (lk_extralockdays parms));
              let lock = lock\<lparr>lk_extralockdays := ucast (PEGGY_MINEXTRADAYS + extra)\<rparr>;
              oppo \<leftarrow> peggy_shortprice PEG (pg_dayprice PEG);
              let entry = entry\<lparr>en_price := pg_dayprice PEG, en_oppoprice := oppo\<rparr>;
              let lock = lock\<lparr>lk_peg := ds_id (pg_name PEG) * (if short then - 1 else 1)\<rparr>;
              spread \<leftarrow> peggy_calcspread (pg_spread PEG) (ucast (lk_minlockdays lock) + ucast (lk_extralockdays lock));
              (entry, _) \<leftarrow> peggy_poolmainunits entry 1 short (en_price entry) (en_oppoprice entry) spread (pl_mainunitsize (pg_pool PEG)) denom;
              let U = U\<lparr>u_lock := lock, u_timestamp := pt_blocktimestamp T, u_baseid := ucast (en_baseid entry), u_relid := ucast (en_relid entry),
                        u_costbasis := en_costbasis entry\<rparr>;
              let numdays = (ucast (if short then lk_minlockdays lock else lk_maxlockdays lock) :: i32) + ucast (lk_extralockdays parms);
              (entry, legal) \<leftarrow> peggy_islegal_amount entry PEGS PEG (en_total entry) numdays (lk_margin lock) (en_price entry);
              Some (U, entry, if legal then en_total entry else 0) } }"

text \<open>\<open>peggy_createunit\<close>; \<open>readonly\<close> stands for a pointer \<open>readU\<close> that is not null.\<close>

definition peggy_createunit ::
    "'s peggy_info \<Rightarrow> peggy_time \<Rightarrow> bool \<Rightarrow> u64 \<Rightarrow> string option \<Rightarrow> u8 list \<Rightarrow> peggy_lock \<Rightarrow> u64 \<Rightarrow> u64 \<Rightarrow> ('s peggy_info \<times> u64) option" where
  "peggy_createunit PEGS T readonly seed pegname lockhash lock amount marginamount =
     (let short = s_lt (lk_denom lock) 0; denomination = (if short then - lk_denom lock else lk_denom lock)
      in if s_le PRICE_RESOLUTION_MAXUNITS denomination then Some (PEGS, 0)
         else do {
           found \<leftarrow> (case pegname of
               Some s \<Rightarrow> Some (peggy_find PEGS s short)
             | None \<Rightarrow> let peg = abs (sint (lk_peg lock)); short = (if s_lt (lk_peg lock) 0 then \<not> short else short)
                       in if int (length (ps_contracts PEGS)) \<le> peg then Some None
                          else Some (peggy_find PEGS (ds_name (pg_name (ps_contracts PEGS ! nat peg))) short));
           case found of
             None \<Rightarrow> Some (PEGS, 0)
           | Some (p, entry) \<Rightarrow> do {
               (U, entry, satoshis) \<leftarrow> peggy_setunit entry PEGS T p seed lock;
               if satoshis = 0 \<or> readonly then Some (PEGS, satoshis)
               else if lk_margin lock = 0 \<and> satoshis \<le> amount \<or> satoshis \<le> marginamount * ucast (lk_margin lock)
               then do {
                 let U = U\<lparr>u_estimated_interest := en_estimated_interest entry, u_amount := amount, u_marginamount := marginamount\<rparr>;
                 PEGS \<leftarrow> peggy_changereserve PEGS p 1 entry (en_costbasis entry) (lk_margin lock) marginamount;
                 Some (upd_accts (peggy_addunit U lockhash) PEGS, satoshis) }
               else Some (PEGS, 0) } })"

section \<open>Redemption\<close>

text \<open>The interest of a redeemed unit.\<close>

definition redeem_interest :: "peggy_entry \<Rightarrow> peggy_unit \<Rightarrow> u64 \<Rightarrow> u64 \<Rightarrow> i32 \<Rightarrow> peggy_entry option" where
  "redeem_interest entry U satoshis poolincr days =
     (if u_estimated_interest U = 0 then Some entry
      else do {
        c \<leftarrow> peggy_compound satoshis (from16 (u_dailyrate U)) days;
        let interest = c - satoshis;
        q \<leftarrow> udiv64 interest poolincr;
        let paid = q * poolincr;
        let paid = (if s_lt (u_estimated_interest U) paid then u_estimated_interest U else paid);
        Some (entry\<lparr>en_interestpaid := paid, en_royalty := en_royalty entry + (interest - paid), en_interest_unlocked := u_estimated_interest U\<rparr>) })"

text \<open>The satoshis are at most what the pool holds; the comparison is unsigned.\<close>

definition redeem_limit :: "peggy_margin \<Rightarrow> peggy_entry \<Rightarrow> u8 \<Rightarrow> u64 \<Rightarrow> u64" where
  "redeem_limit funds entry margin satoshis =
     (if margin = 0
      then if mg_deposits funds < satoshis then mg_deposits funds
           else if satoshis + en_interestpaid entry \<le> mg_deposits funds then satoshis + en_interestpaid entry else satoshis
      else if mg_margindeposits funds < satoshis then mg_margindeposits funds else satoshis)"

definition peggy_redeemhash :: "'s peggy_info \<Rightarrow> peggy_time \<Rightarrow> peggy_unit \<Rightarrow> i32 \<Rightarrow> (peggy_entry \<times> i64) option" where
  "peggy_redeemhash PEGS T U lockdays =
     do { (p, entry) \<leftarrow> peggy_findpeg PEGS (scast (lk_peg (u_lock U)));
          PEG \<leftarrow> aget (ps_contracts PEGS) (int p);
          let poolincr = pl_mainunitsize (pg_pool PEG);
          let delta = (pt_blocktimestamp T - u_timestamp U) div PEGGY_DAYTICKS;
          let lockdays = lockdays + ucast (lk_extralockdays (u_lock U));
          if s_lt delta lockdays then Some (entry, 0)
          else if s_lt (lockdays + ucast (lk_redemptiongapdays (u_lock U))) delta then Some (entry, - 1)
          else do {
            let stamp = u_timestamp U + lockdays * PEGGY_DAYTICKS;
            n \<leftarrow> sdiv64 (u_costbasis U) (ucast (pg_unitincr PEG));
            let n = (ucast n :: i32);
            let stamp = (if s_lt 0 n then stamp - word_of_int (sint (n * PEGGY_DAYTICKS) sdiv 2) else stamp);
            let n = (if s_lt 0 n then n else 1);
            price \<leftarrow> peggy_aveprice PEG ((stamp - pg_genesistime PEG) div PEGGY_DAYTICKS) n;
            oppo \<leftarrow> (if s_lt (en_polarity entry) 0 then peggy_shortprice PEG price else Some 0);
            spread \<leftarrow> peggy_calcspread (pg_spread PEG) lockdays;
            (entry, satoshis) \<leftarrow> peggy_poolmainunits entry (- 1) (s_lt (en_polarity entry) 0) price oppo spread poolincr (lk_denom (u_lock U));
            let entry = entry\<lparr>en_costbasis := u_costbasis U\<rparr>;
            entry \<leftarrow> redeem_interest entry U satoshis poolincr (lockdays + ucast (lk_extralockdays (u_lock U)));
            Some (entry, redeem_limit (pl_funds (pg_pool PEG)) entry (lk_margin (u_lock U)) satoshis) } }"

text \<open>\<open>lockhash_of\<close> is \<open>acct777_lockhash\<close>, an iterated hash over the elliptic curve.\<close>

definition peggy_redeem ::
    "(u8 list \<Rightarrow> u16 \<Rightarrow> u8 \<Rightarrow> u8 list) \<Rightarrow> 's peggy_info \<Rightarrow> peggy_time \<Rightarrow> bool \<Rightarrow> string \<Rightarrow> i32 \<Rightarrow> u8 list \<Rightarrow> u16 \<Rightarrow> u8 \<Rightarrow> ('s peggy_info \<times> u64) option" where
  "peggy_redeem lockhash_of PEGS T readonly pegname polarity pubkey lockdays chainlen =
     (case peggy_findpair PEGS pegname of
        None \<Rightarrow> Some (PEGS, 0)
      | Some p \<Rightarrow> do {
          PEG \<leftarrow> aget (ps_contracts PEGS) (int p);
          let peg = scast (ds_id (pg_name PEG)) * polarity;
          (accts, m) \<leftarrow> peggy_match (ps_accts PEGS) peg (lockhash_of pubkey lockdays chainlen) lockdays;
          let PEGS = upd_accts (\<lambda>_. accts) PEGS;
          case m of
            None \<Rightarrow> Some (PEGS, 0)
          | Some i \<Rightarrow> do {
              let U = ac_units (ps_accts PEGS) ! i;
              (entry, satoshis) \<leftarrow> peggy_redeemhash PEGS T U (ucast lockdays);
              let satoshis = (if s_lt satoshis 0 then 0 else satoshis);
              if readonly then Some (PEGS, satoshis)
              else do {
                PEGS \<leftarrow> peggy_changereserve PEGS p (- 1) entry satoshis (lk_margin (u_lock U)) (u_marginamount U);
                Some (upd_accts (peggy_delete i) PEGS, satoshis) } } })"

section \<open>Double entry\<close>

text \<open>
  The imbalance of the books in one kind of funds: the sum of the reserves, and what the bank holds
  beyond the sum of the pools.
\<close>

definition fund_kinds :: "(peggy_margin \<Rightarrow> i64) list" where
  "fund_kinds = [mg_deposits, mg_margindeposits, mg_marginvalue]"

definition imbalance :: "'s peggy_info \<Rightarrow> (i64 \<times> i64) list" where
  "imbalance PEGS = map (\<lambda>f. (sum_list (map (f \<circ> bl_funds) (ps_basereserves PEGS)),
     f (bl_funds (ps_bank PEGS)) - sum_list (map (f \<circ> pl_funds \<circ> pg_pool) (ps_contracts PEGS)))) fund_kinds"

definition change_of :: "(peggy_margin \<Rightarrow> i64) \<Rightarrow> i64 \<Rightarrow> u8 \<Rightarrow> i64 \<Rightarrow> i64" where
  "change_of f s margin a = f (peggy_updatemargin \<lparr>mg_deposits = 0, mg_margindeposits = 0, mg_marginvalue = 0\<rparr> s margin a)"

lemma updatemargin_change: "f \<in> set fund_kinds \<Longrightarrow> f (peggy_updatemargin m s margin a) = f m + change_of f s margin a"
  by (auto simp: fund_kinds_def change_of_def peggy_updatemargin_def)

lemma change_opposite: "f \<in> set fund_kinds \<Longrightarrow> change_of f (- d * s) margin (- d * a) = - change_of f (d * s) margin (d * a)"
  by (auto simp: fund_kinds_def change_of_def peggy_updatemargin_def)

lemma imbalance_eqI:
  assumes "\<And>f. f \<in> set fund_kinds \<Longrightarrow> sum_list (map (f \<circ> bl_funds) (ps_basereserves PEGS')) = sum_list (map (f \<circ> bl_funds) (ps_basereserves PEGS))"
    and "\<And>f. f \<in> set fund_kinds \<Longrightarrow> f (bl_funds (ps_bank PEGS')) - sum_list (map (f \<circ> pl_funds \<circ> pg_pool) (ps_contracts PEGS'))
      = f (bl_funds (ps_bank PEGS)) - sum_list (map (f \<circ> pl_funds \<circ> pg_pool) (ps_contracts PEGS))"
  shows "imbalance PEGS' = imbalance PEGS"
  using assms by (simp add: imbalance_def)

lemma upd_reserve_sum:
  assumes "upd_reserve i g PEGS = Some PEGS'" and "f \<in> set fund_kinds" and "\<And>m. f (g m) = f m + d"
  shows "sum_list (map (f \<circ> bl_funds) (ps_basereserves PEGS')) = sum_list (map (f \<circ> bl_funds) (ps_basereserves PEGS)) + d"
  using assms by (auto simp: upd_reserve_def bind_Some_conv map_update sum_list_put dest!: aget_SomeD)

lemma upd_reserve_rest:
  "upd_reserve i g PEGS = Some PEGS' \<Longrightarrow> ps_bank PEGS' = ps_bank PEGS \<and> ps_contracts PEGS' = ps_contracts PEGS \<and> ps_accts PEGS' = ps_accts PEGS
    \<and> length (ps_basereserves PEGS') = length (ps_basereserves PEGS)"
  by (auto simp: upd_reserve_def bind_Some_conv)

lemma upd_peg_sum:
  fixes f :: "peggy_margin \<Rightarrow> i64"
  assumes "upd_peg p g PEGS = Some PEGS'" and "\<And>PEG. f (pl_funds (pg_pool (g PEG))) = f (pl_funds (pg_pool PEG)) + d"
  shows "sum_list (map (f \<circ> pl_funds \<circ> pg_pool) (ps_contracts PEGS')) = sum_list (map (f \<circ> pl_funds \<circ> pg_pool) (ps_contracts PEGS)) + d"
  using assms by (auto simp: upd_peg_def bind_Some_conv map_update sum_list_put dest!: aget_SomeD)

lemma upd_peg_rest:
  "upd_peg p g PEGS = Some PEGS' \<Longrightarrow> ps_bank PEGS' = ps_bank PEGS \<and> ps_basereserves PEGS' = ps_basereserves PEGS \<and> ps_accts PEGS' = ps_accts PEGS
    \<and> length (ps_contracts PEGS') = length (ps_contracts PEGS)"
  by (auto simp: upd_peg_def bind_Some_conv)

lemma split_fee_funds: "split_fee PEGS PEG entry = Some (bank, fee, replenish) \<Longrightarrow> bl_funds bank = bl_funds (ps_bank PEGS)"
  by (auto simp: split_fee_def Let_def bind_Some_conv split: if_splits)

text \<open>Every booking keeps the balance.\<close>

lemma changereserve_balance:
  assumes "peggy_changereserve PEGS p dir entry satoshis margin marginamount = Some PEGS'"
  shows "imbalance PEGS' = imbalance PEGS"
proof -
  let ?in = "\<lambda>r. upd_pool (\<lambda>pl. pl\<lparr>pl_funds := peggy_updatemargin (pl_funds pl) (satoshis + r) margin marginamount\<rparr>)"
  let ?li = "upd_pool (\<lambda>pl. pl\<lparr>pl_liability :=
            (if s_lt (en_polarity entry) 0
             then (pl_liability pl)\<lparr>un_numoppo := un_numoppo (pl_liability pl) + dir * en_denomination entry\<rparr>
             else (pl_liability pl)\<lparr>un_num := un_num (pl_liability pl) + dir * en_denomination entry\<rparr>)\<rparr>)"
  from assms obtain PEG bank fee r P1 P2 P3 where
    s: "split_fee PEGS PEG entry = Some (bank, fee, r)"
    and 1: "upd_peg p (?in r) (peggy_thanks_you (PEGS\<lparr>ps_bank := bank\<rparr>) (en_royalty entry + fee)) = Some P1"
    and 2: "upd_reserve (en_baseid entry) (\<lambda>f. peggy_updatemargin f (dir * satoshis) margin (dir * marginamount))
        (upd_bank (\<lambda>b. b\<lparr>bl_funds := peggy_updatemargin (bl_funds b) (satoshis + r) margin marginamount\<rparr>) P1) = Some P2"
    and 3: "upd_reserve (en_relid entry) (\<lambda>f. peggy_updatemargin f (- dir * satoshis) margin (- dir * marginamount)) P2 = Some P3"
    and 4: "upd_peg p ?li P3 = Some PEGS'"
    unfolding peggy_changereserve_def Let_def by (elim bind_SomeE) (auto elim!: bind_SomeE)
  note rest = upd_peg_rest [OF 1] upd_reserve_rest [OF 2] upd_reserve_rest [OF 3] upd_peg_rest [OF 4]
  show ?thesis
  proof (rule imbalance_eqI)
    fix f assume f: "f \<in> set fund_kinds"
    have "sum_list (map (f \<circ> bl_funds) (ps_basereserves P3))
        = sum_list (map (f \<circ> bl_funds) (ps_basereserves P2)) + change_of f (- dir * satoshis) margin (- dir * marginamount)"
      by (rule upd_reserve_sum [OF 3 f]) (simp only: updatemargin_change [OF f])
    moreover have "sum_list (map (f \<circ> bl_funds) (ps_basereserves P2))
        = sum_list (map (f \<circ> bl_funds) (ps_basereserves (upd_bank (\<lambda>b. b\<lparr>bl_funds := peggy_updatemargin (bl_funds b) (satoshis + r) margin marginamount\<rparr>) P1)))
          + change_of f (dir * satoshis) margin (dir * marginamount)"
      by (rule upd_reserve_sum [OF 2 f]) (simp only: updatemargin_change [OF f])
    ultimately show "sum_list (map (f \<circ> bl_funds) (ps_basereserves PEGS')) = sum_list (map (f \<circ> bl_funds) (ps_basereserves PEGS))"
      using rest change_opposite [OF f, of dir satoshis margin marginamount] by (simp add: upd_bank_def peggy_thanks_you_def)
    have "sum_list (map (f \<circ> pl_funds \<circ> pg_pool) (ps_contracts PEGS')) = sum_list (map (f \<circ> pl_funds \<circ> pg_pool) (ps_contracts P3)) + 0"
      by (rule upd_peg_sum [OF 4]) (simp add: upd_pool_def)
    moreover have "sum_list (map (f \<circ> pl_funds \<circ> pg_pool) (ps_contracts P1))
        = sum_list (map (f \<circ> pl_funds \<circ> pg_pool) (ps_contracts (peggy_thanks_you (PEGS\<lparr>ps_bank := bank\<rparr>) (en_royalty entry + fee)))) + change_of f (satoshis + r) margin marginamount"
      by (rule upd_peg_sum [OF 1]) (simp add: upd_pool_def updatemargin_change [OF f])
    ultimately show "f (bl_funds (ps_bank PEGS')) - sum_list (map (f \<circ> pl_funds \<circ> pg_pool) (ps_contracts PEGS'))
      = f (bl_funds (ps_bank PEGS)) - sum_list (map (f \<circ> pl_funds \<circ> pg_pool) (ps_contracts PEGS))"
      using rest split_fee_funds [OF s] by (simp add: upd_bank_def peggy_thanks_you_def updatemargin_change [OF f])
  qed
qed

lemma upd_accts_books [simp]: "imbalance (upd_accts g PEGS) = imbalance PEGS"
  by (simp add: upd_accts_def imbalance_def)

lemma thanks_you_balance: "imbalance (peggy_thanks_you PEGS tip) = imbalance PEGS"
  by (simp add: peggy_thanks_you_def imbalance_def fund_kinds_def)

lemma createunit_balance:
  "peggy_createunit PEGS T readonly seed pegname lockhash lock amount marginamount = Some (PEGS', satoshis) \<Longrightarrow> imbalance PEGS' = imbalance PEGS"
  by (auto simp: peggy_createunit_def Let_def bind_Some_conv changereserve_balance split: if_splits option.splits)

lemma redeem_balance:
  assumes "peggy_redeem lockhash_of PEGS T readonly pegname polarity pubkey lockdays chainlen = Some (PEGS', satoshis)"
  shows "imbalance PEGS' = imbalance PEGS"
proof (cases "peggy_findpair PEGS pegname")
  case None
  then show ?thesis using assms by (simp add: peggy_redeem_def)
next
  case (Some p)
  from assms Some obtain PEG accts m where m: "aget (ps_contracts PEGS) (int p) = Some PEG"
    "peggy_match (ps_accts PEGS) (scast (ds_id (pg_name PEG)) * polarity) (lockhash_of pubkey lockdays chainlen) lockdays = Some (accts, m)"
    by (auto simp: peggy_redeem_def Let_def bind_Some_conv)
  define P where "P = upd_accts (\<lambda>_. accts) PEGS"
  have P: "imbalance P = imbalance PEGS" by (simp add: P_def)
  note run = assms [unfolded peggy_redeem_def Some option.case m Option.bind.simps prod.case Let_def, folded P_def]
  show ?thesis
  proof (cases m)
    case None
    then show ?thesis using run P by simp
  next
    case (Some i)
    obtain entry sat where e: "peggy_redeemhash P T (ac_units (ps_accts P) ! i) (ucast lockdays) = Some (entry, sat)"
      using run Some by (auto elim!: bind_SomeE)
    show ?thesis
    proof (cases readonly)
      case True
      then show ?thesis using run P by (simp add: Some e)
    next
      case False
      then show ?thesis using run P by (auto simp: Some e elim!: bind_SomeE dest: changereserve_balance)
    qed
  qed
qed

end
