(* ===== verification/PeggyConsensus.thy ===== *)
theory PeggyConsensus
  imports Peggy777 "HOL-Library.Multiset"
begin

text \<open>
  Prices by vote (\<open>plugins/peggy/peggy777.c\<close>): the smoothed price of a peg, the choice of the vote
  that a majority tolerates, the settlement of bets on the price of a day and the calls of margins.
\<close>

section \<open>Data\<close>

definition PEGGY_NUMCOEFFS :: nat where "PEGGY_NUMCOEFFS = 539"

record peggy_bet =
  bt_prediction :: i64
  bt_distbet :: u64
  bt_dirbet :: u64
  bt_payout :: u64
  bt_shares :: u64
  bt_dist :: u64
  bt_timestamp :: u32
  bt_minutes :: u32

record peggy_vote =
  vt_pval :: i32
  vt_tolerance :: i32

definition peggy_smooth_coeffs :: "u64 list" where
  "peggy_smooth_coeffs =
    [962714545, 962506087, 962158759, 961672710, 961048151, 960285354, 959384649, 958346426, 957171134, 955859283, 954411438, 952828225, 951110328,
    949258485, 947273493, 945156207, 942907532, 940528434, 938019929, 935383089, 932619036, 929728945, 926714044, 923575608, 920314964, 916933485,
    913432593, 909813756, 906078486, 902228342, 898264923, 894189872, 890004874, 885711650, 881311964, 876807614, 872200436, 867492300, 862685110,
    857780804, 852781347, 847688737, 842505000, 837232189, 831872382, 826427681, 820900212, 815292123, 809605581, 803842772, 798005901, 792097186,
    786118864, 780073180, 773962395, 767788778, 761554609, 755262175, 748913768, 742511686, 736058231, 729555707, 723006417, 716412665, 709776755,
    703100984, 696387648, 689639036, 682857428, 676045100, 669204315, 662337327, 655446378, 648533696, 641601496, 634651978, 627687325, 620709702,
    613721256, 606724115, 599720386, 592712154, 585701482, 578690411, 571680955, 564675105, 557674825, 550682053, 543698699, 536726645, 529767743,
    522823816, 515896658, 508988029, 502099660, 495233249, 488390461, 481572928, 474782249, 468019988, 461287675, 454586804, 447918836, 441285195,
    434687268, 428126409, 421603932, 415121117, 408679208, 402279408, 395922888, 389610779, 383344175, 377124134, 370951677, 364827785, 358753406,
    352729449, 346756785, 340836251, 334968645, 329154729, 323395230, 317690838, 312042206, 306449955, 300914667, 295436891, 290017141, 284655897,
    279353604, 274110676, 268927490, 263804394, 258741701, 253739694, 248798623, 243918709, 239100140, 234343077, 229647649, 225013957, 220442073,
    215932043, 211483883, 207097585, 202773112, 198510404, 194309373, 190169909, 186091877, 182075118, 178119452, 174224676, 170390565, 166616873,
    162903335, 159249664, 155655556, 152120688, 148644718, 145227287, 141868021, 138566528, 135322401, 132135218, 129004542, 125929924, 122910901,
    119946997, 117037723, 114182582, 111381062, 108632643, 105936795, 103292978, 100700645, 98159238, 95668194, 93226942, 90834903, 88491495,
    86196126, 83948203, 81747126, 79592292, 77483092, 75418916, 73399150, 71423178, 69490383, 67600142, 65751837, 63944844, 62178541, 60452305,
    58765515, 57117547, 55507781, 53935597, 52400377, 50901505, 49438366, 48010349, 46616844, 45257246, 43930951, 42637360, 41375878, 40145912,
    38946876, 37778185, 36639262, 35529533, 34448428, 33395384, 32369842, 31371249, 30399057, 29452725, 28531717, 27635503, 26763558, 25915365,
    25090413, 24288196, 23508216, 22749980, 22013003, 21296806, 20600917, 19924870, 19268206, 18630475, 18011231, 17410035, 16826458, 16260073,
    15710466, 15177224, 14659944, 14158231, 13671694, 13199950, 12742625, 12299348, 11869759, 11453500, 11050225, 10659590, 10281262, 9914910,
    9560213, 9216856, 8884529, 8562931, 8251764, 7950739, 7659571, 7377984, 7105706, 6842471, 6588020, 6342099, 6104460, 5874861, 5653066, 5438844,
    5231969, 5032221, 4839386, 4653254, 4473620, 4300287, 4133059, 3971747, 3816167, 3666139, 3521488, 3382043, 3247640, 3118115, 2993313, 2873079,
    2757266, 2645728, 2538325, 2434919, 2335380, 2239575, 2147382, 2058677, 1973342, 1891262, 1812325, 1736424, 1663453, 1593311, 1525898, 1461118,
    1398879, 1339091, 1281666, 1226519, 1173569, 1122736, 1073944, 1027117, 982185, 939076, 897725, 858065, 820033, 783568, 748612, 715108, 682999,
    652233, 622759, 594527, 567488, 541597, 516808, 493079, 470368, 448635, 427841, 407948, 388921, 370725, 353326, 336692, 320792, 305596, 291075,
    277202, 263950, 251292, 239204, 227663, 216646, 206130, 196094, 186517, 177381, 168667, 160356, 152430, 144874, 137671, 130806, 124264, 118031,
    112093, 106437, 101050, 95921, 91039, 86391, 81968, 77759, 73755, 69945, 66322, 62877, 59602, 56488, 53528, 50716, 48043, 45505, 43093, 40803,
    38629, 36564, 34604, 32745, 30980, 29305, 27717, 26211, 24782, 23428, 22144, 20927, 19774, 18681, 17646, 16665, 15737, 14857, 14025, 13237,
    12491, 11786, 11118, 10487, 9890, 9325, 8791, 8287, 7810, 7359, 6933, 6531, 6151, 5792, 5453, 5133, 4831, 4547, 4278, 4024, 3785, 3560, 3347,
    3147, 2958, 2779, 2612, 2454, 2305, 2164, 2032, 1908, 1791, 1681, 1577, 1480, 1388, 1302, 1221, 1145, 1073, 1006, 942, 883, 827, 775, 725, 679,
    636, 595, 557, 521, 487, 456, 426, 399, 373, 348, 325, 304, 284, 265, 248, 231, 216, 202, 188, 175, 164, 153, 142, 133, 124, 115, 107, 100, 93,
    87, 81, 75, 70, 65, 61, 56, 53, 49, 45, 42, 39, 36, 34, 31, 29, 27, 25, 23, 22, 20, 19, 17, 16, 15, 14, 13, 12, 11, 10, 9, 9, 8, 7, 7, 6, 6, 5,
    5, 5, 4, 4, 4, 3, 3, 3, 3, 2, 2, 2, 2, 2, 2, 2, 1, 1, 1, 1, 1, 1, 1, 1, 1, 1, 1, 1, 1, 0, 0]"

definition Peggy_inds :: "int list" where
  "Peggy_inds =
    [289, 404, 50, 490, 59, 208, 87, 508, 366, 288, 13, 38, 159, 440, 120, 480, 361, 104, 534, 195, 300, 362, 489, 108, 143, 220, 131, 244, 133, 473,
    315, 439, 210, 456, 219, 352, 153, 444, 397, 491, 286, 479, 519, 384, 126, 369, 155, 427, 373, 360, 135, 297, 256, 506, 322, 425, 501, 251, 75,
    18, 420, 537, 443, 438, 407, 145, 173, 78, 340, 240, 422, 160, 329, 32, 127, 128, 415, 495, 372, 522, 60, 238, 129, 364, 471, 140, 171, 215, 378,
    292, 432, 526, 252, 389, 459, 350, 233, 408, 433, 51, 423, 19, 62, 115, 211, 22, 247, 197, 530, 7, 492, 5, 53, 318, 313, 283, 169, 464, 224, 282,
    514, 385, 228, 175, 494, 237, 446, 105, 150, 338, 346, 510, 6, 348, 89, 63, 536, 442, 414, 209, 216, 227, 380, 72, 319, 259, 305, 334, 236, 103,
    400, 176, 267, 355, 429, 134, 257, 527, 111, 287, 386, 15, 392, 535, 405, 23, 447, 399, 291, 112, 74, 36, 435, 434, 330, 520, 335, 201, 478, 17,
    162, 483, 33, 130, 436, 395, 93, 298, 498, 511, 66, 487, 218, 65, 309, 419, 48, 214, 377, 409, 462, 139, 349, 4, 513, 497, 394, 170, 307, 241,
    185, 454, 29, 367, 465, 194, 398, 301, 229, 212, 477, 303, 39, 524, 451, 116, 532, 30, 344, 85, 186, 202, 517, 531, 515, 230, 331, 466, 147, 426,
    234, 304, 64, 100, 416, 336, 199, 383, 200, 166, 258, 95, 188, 246, 136, 90, 68, 45, 312, 354, 184, 314, 518, 326, 401, 269, 217, 512, 81, 88,
    272, 14, 413, 328, 393, 198, 226, 381, 161, 474, 353, 337, 294, 295, 302, 505, 137, 207, 249, 46, 98, 27, 458, 482, 262, 253, 71, 25, 0, 40, 525,
    122, 341, 107, 80, 165, 243, 168, 250, 375, 151, 503, 124, 52, 343, 371, 206, 178, 528, 232, 424, 163, 273, 191, 149, 493, 177, 144, 193, 388, 1,
    412, 265, 457, 255, 475, 223, 41, 430, 76, 102, 132, 96, 97, 316, 472, 213, 263, 3, 317, 324, 274, 396, 486, 254, 205, 285, 101, 21, 279, 58,
    467, 271, 92, 538, 516, 235, 332, 117, 500, 529, 113, 445, 390, 358, 79, 34, 488, 245, 83, 509, 203, 476, 496, 347, 280, 12, 84, 485, 323, 452,
    10, 146, 391, 293, 86, 94, 523, 299, 91, 164, 363, 402, 110, 321, 181, 138, 192, 469, 351, 276, 308, 277, 428, 182, 260, 55, 152, 157, 382, 121,
    507, 225, 61, 431, 31, 106, 327, 154, 16, 49, 499, 73, 70, 449, 460, 187, 24, 248, 311, 275, 158, 387, 125, 67, 284, 35, 463, 190, 179, 266, 376,
    221, 42, 26, 290, 357, 268, 43, 167, 99, 374, 242, 156, 239, 403, 339, 183, 320, 180, 306, 379, 441, 20, 481, 141, 77, 484, 69, 410, 502, 172,
    417, 118, 461, 261, 47, 333, 450, 296, 453, 368, 359, 437, 421, 264, 504, 281, 270, 114, 278, 56, 406, 448, 411, 521, 418, 470, 123, 455, 148,
    356, 468, 109, 204, 533, 365, 8, 345, 174, 370, 28, 57, 11, 2, 231, 310, 196, 119, 82, 325, 44, 342, 37, 189, 142, 222, 9, 54]"

section \<open>Smoothing\<close>

text \<open>The weighted sum over the last minutes, until the first minute is reached.\<close>

fun smooth_loop :: "'s peggy_info \<Rightarrow> peggy \<Rightarrow> i32 \<Rightarrow> (nat \<times> u64) list \<Rightarrow> u64 \<Rightarrow> u64 \<Rightarrow> (u64 \<times> u64) option" where
  "smooth_loop PEGS PEG minute [] acc den = Some (acc, den)"
| "smooth_loop PEGS PEG minute ((i, c) # cs) acc den =
     (let j = minute - of_nat i
      in if s_lt 0 j
         then do { q \<leftarrow> peggy_price PEGS PEG j;
                   if q \<noteq> 0 then smooth_loop PEGS PEG minute cs (acc + c * q) (den + c) else smooth_loop PEGS PEG minute cs acc den }
         else Some (acc, den))"

definition peggy_newprice :: "'s peggy_info \<Rightarrow> nat \<Rightarrow> peggy_time \<Rightarrow> u32 \<Rightarrow> ('s peggy_info \<times> i64) option" where
  "peggy_newprice PEGS p T newpval =
     do { PEG \<leftarrow> aget (ps_contracts PEGS) (int p);
          gap \<leftarrow> sdiv64 (pg_spread PEG * ucast newpval) PRICE_RESOLUTION;
          if newpval = 0 then Some (PEGS, 0)
          else do {
            let c = peggy_smooth_coeffs ! 0;
            let minute = (pt_blocktimestamp T - pg_genesistime PEG) div PEGGY_MINUTE;
            (total, den) \<leftarrow> smooth_loop PEGS PEG minute (enumerate 1 (tl peggy_smooth_coeffs)) (c * ucast newpval) c;
            newprice \<leftarrow> (if den \<noteq> 0
              then (let price = total div den; diff = price - ucast newpval; diff = (if s_lt diff 0 then - diff else diff)
                    in if diff < gap then Some price else sdiv64 (price * 7 + ucast newpval) 8)
              else Some (ucast newpval));
            (PEGS, _) \<leftarrow> peggy_setprice PEGS p newprice minute;
            Some (PEGS, newprice) } }"

section \<open>Bets\<close>

definition sign64 :: "i64 \<Rightarrow> i64" where
  "sign64 x = (if s_lt x 0 then - 1 else if s_lt 0 x then 1 else 0)"

text \<open>\<open>1\<close> for a bet in the direction of the price, \<open>- 1\<close> for one in the opposite direction.\<close>

definition bet_side :: "i64 \<Rightarrow> i64 \<Rightarrow> peggy_bet \<Rightarrow> i64" where
  "bet_side prevprice newprice b =
     (if bt_dirbet b = 0 then 0 else sign64 (newprice - prevprice) * sign64 (bt_prediction b - prevprice))"

definition open_bet :: "peggy_time \<Rightarrow> i64 \<Rightarrow> i64 \<Rightarrow> peggy_bet \<Rightarrow> peggy_bet" where
  "open_bet T prevprice newprice b =
     (let minutes = (pt_blocktimestamp T - bt_timestamp b) div PEGGY_MINUTE;
          d = newprice - bt_prediction b; d = (if s_lt d 0 then - d else d)
      in b\<lparr>bt_minutes := minutes,
           bt_shares := (if s_lt 0 (bet_side prevprice newprice b) then bt_dirbet b * ucast minutes else 0),
           bt_dist := (if bt_distbet b \<noteq> 0 then d + 1 else 0),
           bt_payout := 0\<rparr>)"

definition best_dist :: "peggy_bet list \<Rightarrow> u64" where
  "best_dist bets = fold (\<lambda>b best. if bt_distbet b \<noteq> 0 \<and> (best = 0 \<or> s_lt (bt_dist b) best) then bt_dist b else best) bets 0"

definition pay_dist :: "u64 \<Rightarrow> u64 \<Rightarrow> u64 \<Rightarrow> peggy_bet \<Rightarrow> peggy_bet option" where
  "pay_dist best losing winning b =
     (if bt_dist b = best then do { x \<leftarrow> udiv64 (bt_distbet b * losing) winning; Some (b\<lparr>bt_payout := bt_distbet b + x\<rparr>) } else Some b)"

definition pay_dir :: "u64 \<Rightarrow> u64 \<Rightarrow> peggy_bet \<Rightarrow> peggy_bet option" where
  "pay_dir oppobets matchshares b =
     (if bt_shares b \<noteq> 0 then do { x \<leftarrow> udiv64 (bt_shares b * oppobets) matchshares; Some (b\<lparr>bt_payout := bt_dirbet b + x\<rparr>) } else Some b)"

text \<open>
  \<open>peggy_gamblers\<close>: the books, the settled bets and the return value, which stays 0; without bets
  (a null pointer) nothing happens.
\<close>

definition peggy_gamblers ::
    "'s peggy_info \<Rightarrow> peggy_time \<Rightarrow> i64 \<Rightarrow> i64 \<Rightarrow> peggy_bet list option \<Rightarrow> ('s peggy_info \<times> peggy_bet list option \<times> u64) option" where
  "peggy_gamblers PEGS T prevprice newprice ptr =
     (case ptr of
        None \<Rightarrow> Some (PEGS, None, 0)
      | Some bets \<Rightarrow> do {
          let totalbets = sum_list (map (\<lambda>b. bt_dirbet b + bt_distbet b) bets);
          let side = bet_side prevprice newprice;
          let opened = map (open_bet T prevprice newprice) bets;
          let matchshares = sum_list (map (\<lambda>b. if s_lt 0 (side b) then bt_dirbet b * ucast (1 + bt_minutes b) else 0) opened);
          let oppobets = sum_list (map (\<lambda>b. if s_lt (side b) 0 then bt_dirbet b else 0) opened);
          let best = best_dist opened;
          let winning = sum_list (map (\<lambda>b. if bt_dist b = best then bt_distbet b else 0) opened);
          let losing = sum_list (map (\<lambda>b. if bt_dist b = best then 0 else bt_distbet b) opened);
          bets \<leftarrow> those (map (pay_dist best losing (winning + winning div 100)) opened);
          bets \<leftarrow> those (map (pay_dir oppobets (matchshares + matchshares div 100)) bets);
          let payout = sum_list (map bt_payout bets);
          Some (upd_bank (\<lambda>b. b\<lparr>bl_privatebetfees := bl_privatebetfees b + (totalbets - payout)\<rparr>) PEGS, Some bets, 0) })"

section \<open>Margin calls\<close>

text \<open>One unit; a unit that is called is replaced by the last one, which is then passed over.\<close>

definition margincall_step ::
    "i64 \<Rightarrow> i64 \<Rightarrow> nat \<Rightarrow> 's peggy_info \<times> nat \<Rightarrow> ('s peggy_info \<times> nat) option" where
  "margincall_step newprice shortprice i s =
     (case s of (PEGS, p) \<Rightarrow>
       if length (ac_units (ps_accts PEGS)) \<le> i then Some (PEGS, p)
       else do {
         PEG \<leftarrow> aget (ps_contracts PEGS) (int p);
         let U = ac_units (ps_accts PEGS) ! i;
         let margin = lk_margin (u_lock U);
         if margin \<noteq> 0 \<and> (ds_id (pg_name PEG) = lk_peg (u_lock U) \<or> (scast (ds_id (pg_name PEG)) :: i32) = - scast (lk_peg (u_lock U)))
         then do {
           (p, entry) \<leftarrow> peggy_findpeg PEGS (scast (lk_peg (u_lock U)));
           PEG \<leftarrow> aget (ps_contracts PEGS) (int p);
           (entry, satoshis) \<leftarrow> peggy_poolmainunits entry (- 1) (s_lt (en_polarity entry) 0) newprice shortprice (pg_spread PEG) (pl_mainunitsize (pg_pool PEG)) (lk_denom (u_lock U));
           let gain = from16 (en_polarity entry) * (satoshis - u_costbasis U);
           threshold \<leftarrow> sdiv64 (- u_costbasis U) (ucast margin);
           if s_lt gain threshold
           then do { PEGS \<leftarrow> peggy_changereserve PEGS p (- 1) entry satoshis margin (u_marginamount U);
                     Some (upd_accts (peggy_delete i) PEGS, p) }
           else Some (PEGS, p) }
         else Some (PEGS, p) })"

definition peggy_margincalls :: "'s peggy_info \<Rightarrow> nat \<Rightarrow> i64 \<Rightarrow> i64 \<Rightarrow> 's peggy_info option" where
  "peggy_margincalls PEGS p newprice shortprice =
     map_option fst (ofold (margincall_step newprice shortprice) [0..<length (ac_units (ps_accts PEGS))] (PEGS, p))"

section \<open>Consensus\<close>

text \<open>Whether a vote is within the tolerance of another one.\<close>

definition tolerates :: "peggy_vote \<Rightarrow> peggy_vote \<Rightarrow> bool" where
  "tolerates vj vi \<longleftrightarrow>
     vt_pval vj \<noteq> 0 \<and> (let d = (scast (vt_pval vi - vt_pval vj) :: i64); d = (if s_lt d 0 then - d else d) in s_le d (scast (vt_tolerance vj)))"

text \<open>The weight of a vote, counted until it is more than half of the total.\<close>

fun weight_loop :: "nat \<Rightarrow> peggy_vote \<Rightarrow> peggy_vote list \<Rightarrow> nat \<Rightarrow> nat" where
  "weight_loop half vi [] weight = weight"
| "weight_loop half vi (vj # vs) weight =
     (if tolerates vj vi then (if weight + 1 > half then weight + 1 else weight_loop half vi vs (weight + 1)) else weight_loop half vi vs weight)"

text \<open>The vote that is looked at in round \<open>k\<close>.\<close>

definition vote_index :: "nat \<Rightarrow> u32 \<Rightarrow> nat \<Rightarrow> nat" where
  "vote_index numvotes start k =
     (let ind = (if numvotes = PEGGY_NUMCOEFFS then nat (Peggy_inds ! (unat (of_nat k + start) mod PEGGY_NUMCOEFFS)) else unat (start + of_nat k))
      in ind mod numvotes)"

text \<open>
  The search. The weight is kept from one round to the next when the vote is zero; \<open>weight\<close> is its
  value before the first round, which the code does not set.
\<close>

fun find_vote :: "peggy_vote list \<Rightarrow> nat \<Rightarrow> u32 \<Rightarrow> nat list \<Rightarrow> nat \<Rightarrow> nat option" where
  "find_vote votes half start [] weight = None"
| "find_vote votes half start (k # ks) weight =
     (let i = vote_index (length votes) start k;
          weight = (if vt_pval (votes ! i) \<noteq> 0 then weight_loop half (votes ! i) votes 0 else weight)
      in if weight > half then Some i else find_vote votes half start ks weight)"

text \<open>The mean of the minutes of the day that has ended.\<close>

definition day_mean :: "'s peggy_info \<Rightarrow> peggy \<Rightarrow> i64 option" where
  "day_mean PEGS PEG =
     do { (total, n) \<leftarrow> ofold (\<lambda>i (total, n).
             do { q \<leftarrow> peggy_price PEGS PEG (pg_day PEG * 1440 + of_nat i);
                  Some (if q \<noteq> 0 then (total + q, n + 1) else (total, n)) }) [0..<1440] (0 :: i64, 0 :: i64);
          if n \<noteq> 0 then sdiv64 total n else Some total }"

text \<open>The new day: bets are settled, the price of the day is set and missing days before it are filled.\<close>

definition change_day ::
    "'s peggy_info \<Rightarrow> nat \<Rightarrow> peggy_time \<Rightarrow> peggy_bet list option \<Rightarrow> u32 \<Rightarrow> ('s peggy_info \<times> peggy_bet list option) option" where
  "change_day PEGS p T bets day =
     do { PEG \<leftarrow> aget (ps_contracts PEGS) (int p);
          (PEGS, bets, _) \<leftarrow> peggy_gamblers PEGS T (pg_dayprice PEG) (pg_price PEG) bets;
          dayprice \<leftarrow> day_mean PEGS PEG;
          ds \<leftarrow> aput (pg_dayprices PEG) (sint day) (ucast dayprice);
          (ds, _) \<leftarrow> fill_back (nat (sint day)) (ucast dayprice) ds;
          PEGS \<leftarrow> upd_peg p (\<lambda>PEG. PEG\<lparr>pg_dayprice := dayprice, pg_day := day, pg_dayprices := ds\<rparr>) PEGS;
          Some (PEGS, bets) }"

definition quorum_met :: "peggy \<Rightarrow> peggy_vote list \<Rightarrow> bool" where
  "quorum_met PEG votes \<longleftrightarrow>
     (let n = of_nat (length (filter (\<lambda>v. vt_pval v \<noteq> 0) votes)) :: u64
      in pl_quorum (pg_pool PEG) \<le> n \<and> pl_decisionthreshold (pg_pool PEG) \<le> n)"

definition peggy_priceconsensus ::
    "nat \<Rightarrow> 's peggy_info \<Rightarrow> peggy_time \<Rightarrow> u64 \<Rightarrow> i16 \<Rightarrow> peggy_vote list \<Rightarrow> peggy_bet list option \<Rightarrow> ('s peggy_info \<times> peggy_bet list option \<times> i64) option" where
  "peggy_priceconsensus weight PEGS T seed pricedpeg votes bets =
     do { PEG \<leftarrow> aget (ps_contracts PEGS) (sint pricedpeg);
          case peggy_find PEGS (ds_name (pg_name PEG)) False of
            None \<Rightarrow> Some (PEGS, bets, 0)
          | Some (p, _) \<Rightarrow> do {
              PEG \<leftarrow> aget (ps_contracts PEGS) (int p);
              if \<exists>i < length votes. PEGGY_NUMCOEFFS \<le> i \<and> vt_pval (votes ! i) \<noteq> 0 then None
              else if \<not> quorum_met PEG votes then Some (PEGS, bets, pg_price PEG)
              else do {
                let half = length (filter (\<lambda>v. vt_pval v \<noteq> 0) votes) div 2;
                let start = ucast (from16 pricedpeg * seed);
                PEGS \<leftarrow> (case find_vote votes half start [0..<length votes] weight of
                    None \<Rightarrow> Some PEGS
                  | Some i \<Rightarrow> do { (PEGS, newprice) \<leftarrow> peggy_newprice PEGS p T (vt_pval (votes ! i));
                                   upd_peg p (\<lambda>PEG. PEG\<lparr>pg_price := newprice\<rparr>) PEGS });
                PEG \<leftarrow> aget (ps_contracts PEGS) (int p);
                let day = (pt_blocktimestamp T - pg_genesistime PEG) div PEGGY_DAYTICKS;
                (PEGS, bets) \<leftarrow> (if day \<noteq> pg_day PEG then change_day PEGS p T bets day else Some (PEGS, bets));
                PEG \<leftarrow> aget (ps_contracts PEGS) (int p);
                short \<leftarrow> peggy_shortprice PEG (pg_price PEG);
                PEGS \<leftarrow> peggy_margincalls PEGS p (pg_price PEG) short;
                PEG \<leftarrow> aget (ps_contracts PEGS) (int p);
                Some (PEGS, bets, pg_price PEG) } } }"

section \<open>The chosen vote is tolerated by a majority\<close>

definition supporters :: "peggy_vote list \<Rightarrow> nat \<Rightarrow> nat set" where
  "supporters votes i = {j. j < length votes \<and> tolerates (votes ! j) (votes ! i)}"

definition voters :: "peggy_vote list \<Rightarrow> nat set" where
  "voters votes = {j. j < length votes \<and> vt_pval (votes ! j) \<noteq> 0}"

lemma weight_loop_eq:
  "weight \<le> half \<Longrightarrow> weight_loop half vi vs weight = min (half + 1) (weight + length (filter (\<lambda>vj. tolerates vj vi) vs))"
  by (induction vs arbitrary: weight) auto

lemma weight_supporters: "weight_loop half (votes ! i) votes 0 > half \<longleftrightarrow> card (supporters votes i) > half"
  by (auto simp: weight_loop_eq supporters_def length_filter_conv_card)

lemma vote_index_less: "votes \<noteq> [] \<Longrightarrow> vote_index (length votes) start k < length votes"
  by (simp add: vote_index_def)

lemma find_vote_Some:
  assumes "find_vote votes half start ks weight = Some i" and "weight \<le> half"
  shows "\<exists>k \<in> set ks. i = vote_index (length votes) start k" "vt_pval (votes ! i) \<noteq> 0" "card (supporters votes i) > half"
  using assms
  by (induction ks arbitrary: weight) (auto simp: Let_def weight_supporters [symmetric] split: if_splits)

lemma find_vote_None:
  assumes "find_vote votes half start ks weight = None" and "k \<in> set ks" and "vt_pval (votes ! vote_index (length votes) start k) \<noteq> 0"
  shows "card (supporters votes (vote_index (length votes) start k)) \<le> half"
  using assms
proof (induction ks arbitrary: weight)
  case (Cons k' ks)
  then show ?case by (cases "k = k'") (auto simp: Let_def weight_supporters not_less [symmetric] split: if_splits)
qed simp

text \<open>Two majorities of the voters have a voter in common.\<close>

lemma majorities_meet:
  assumes "finite V" "A \<subseteq> V" "B \<subseteq> V" "card A > card V div 2" "card B > card V div 2"
  shows "A \<inter> B \<noteq> {}"
proof
  assume "A \<inter> B = {}"
  then have "card A + card B \<le> card V"
    using assms(1-3) by (metis card_Un_disjoint card_mono finite_subset Un_least)
  with assms(4,5) show False by linarith
qed

lemma finite_voters [simp]: "finite (voters votes)"
  by (simp add: voters_def)

lemma supporters_voters: "supporters votes i \<subseteq> voters votes"
  by (auto simp: supporters_def voters_def tolerates_def)

text \<open>The rounds look at every vote.\<close>

lemma Peggy_inds_perm: "sort Peggy_inds = [0..538]"
  by code_simp

lemma mod_cover:
  assumes "i < n"
  shows "\<exists>k < n. (s + k) mod n = (i :: nat)"
proof -
  have "0 < n" using assms by simp
  define k where "k = (i + (n - s mod n)) mod n"
  have "(s + k) mod n = (s mod n + (i + (n - s mod n))) mod n" by (simp add: k_def mod_simps)
  also have "s mod n + (i + (n - s mod n)) = i + n" using mod_less_divisor [OF \<open>0 < n\<close>, of s] by linarith
  finally show ?thesis using assms \<open>0 < n\<close> by (intro exI [of _ k]) (simp add: k_def)
qed

lemma rounds_cover:
  assumes "i < length votes" and "unat start + length votes \<le> 2 ^ 32"
  shows "\<exists>k < length votes. vote_index (length votes) start k = i"
proof (cases "length votes = PEGGY_NUMCOEFFS")
  case True
  have "int i \<in> set (sort Peggy_inds)" using assms(1) True by (simp add: Peggy_inds_perm PEGGY_NUMCOEFFS_def)
  moreover have "length Peggy_inds = 539" using Peggy_inds_perm length_sort [of "\<lambda>x. x" Peggy_inds] by simp
  ultimately obtain q where q: "q < 539" "Peggy_inds ! q = int i" by (auto simp: in_set_conv_nth)
  obtain k where k: "k < 539" "(unat start + k) mod 539 = q" using mod_cover [OF q(1)] by blast
  have "unat (of_nat k + start) = unat start + k"
    using k(1) assms(2) True by (simp add: unat_word_ariths unat_of_nat PEGGY_NUMCOEFFS_def take_bit_nat_def)
  then show ?thesis using k q assms(1) True by (intro exI [of _ k]) (simp add: vote_index_def PEGGY_NUMCOEFFS_def)
next
  case False
  obtain k where k: "k < length votes" "(unat start + k) mod length votes = i" using mod_cover [OF assms(1)] by blast
  have "unat (start + of_nat k) = unat start + k"
    using k(1) assms(2) by (simp add: unat_word_ariths unat_of_nat take_bit_nat_def)
  then show ?thesis using k False by (intro exI [of _ k]) (simp add: vote_index_def)
qed

text \<open>
  C8. With the weight below the threshold at the start and a seed that does not wrap, the search
  for a price finds a vote if and only if some vote is within the tolerance of a majority of the
  voters. The vote it finds has such a majority, and any two votes that are found for different
  seeds lie within the tolerance of a common voter.
\<close>

theorem consensus_by_majority:
  assumes half: "half = length (filter (\<lambda>v. vt_pval v \<noteq> 0) votes) div 2" and "weight \<le> half" and "unat start + length votes \<le> 2 ^ 32"
  shows "case find_vote votes half start [0..<length votes] weight of
      None \<Rightarrow> \<forall>i \<in> voters votes. card (supporters votes i) \<le> half
    | Some i \<Rightarrow> i \<in> voters votes \<and> card (supporters votes i) > half
        \<and> (\<forall>start' weight' i'. weight' \<le> half \<longrightarrow> find_vote votes half start' [0..<length votes] weight' = Some i' \<longrightarrow>
             (\<exists>j \<in> voters votes. tolerates (votes ! j) (votes ! i) \<and> tolerates (votes ! j) (votes ! i')))"
proof (cases "find_vote votes half start [0..<length votes] weight")
  case None
  have "card (supporters votes i) \<le> half" if i: "i \<in> voters votes" for i
  proof -
    obtain k where "k < length votes" "vote_index (length votes) start k = i" using rounds_cover [OF _ assms(3), of i] i by (auto simp: voters_def)
    with find_vote_None [OF None, of k] i show ?thesis by (auto simp: voters_def)
  qed
  with None show ?thesis by simp
next
  case (Some i)
  note i = find_vote_Some [OF Some assms(2)]
  have meet: "\<exists>j \<in> voters votes. tolerates (votes ! j) (votes ! i) \<and> tolerates (votes ! j) (votes ! i')"
    if "weight' \<le> half" "find_vote votes half start' [0..<length votes] weight' = Some i'" for start' weight' i'
    using majorities_meet [OF finite_voters supporters_voters supporters_voters, of votes i i'] i(3) find_vote_Some(3) [OF that(2,1)] half
    by (auto simp: supporters_def voters_def length_filter_conv_card) (auto simp: tolerates_def)
  have "i < length votes" using i(1) vote_index_less [of votes start] by (cases votes) auto
  with Some i meet show ?thesis by (auto simp: voters_def)
qed

text \<open>Three votes of which two agree.\<close>

definition demo_votes :: "peggy_vote list" where
  "demo_votes = [\<lparr>vt_pval = 900, vt_tolerance = 5\<rparr>, \<lparr>vt_pval = 100, vt_tolerance = 5\<rparr>, \<lparr>vt_pval = 103, vt_tolerance = 5\<rparr>]"

theorem consensus_by_majority_witness:
  "\<exists>i \<in> voters demo_votes. find_vote demo_votes 1 0 [0..<3] 0 = Some i \<and> card (supporters demo_votes i) > 1"
proof -
  have f: "find_vote demo_votes 1 0 [0..<3] 0 = Some 1"
    by (simp add: demo_votes_def vote_index_def PEGGY_NUMCOEFFS_def tolerates_def Let_def s_le_def s_lt_def upt_rec)
  have l: "length demo_votes = 3" "(1::nat) = length (filter (\<lambda>v. vt_pval v \<noteq> 0) demo_votes) div 2" by (simp_all add: demo_votes_def)
  from consensus_by_majority [of 1 demo_votes 0 0] f l show ?thesis by auto
qed

end
