(* ===== verification/PeggyBooks.thy ===== *)
theory PeggyBooks
  imports PeggyConsensus
begin

text \<open>
  What the operations on pegged assets keep: the double-entry books over all operations, the stakes
  of the bets, and the range of the smoothed prices.
\<close>

section \<open>The books balance\<close>

lemma setprice_balance: "peggy_setprice PEGS p price minute = Some (PEGS', stop) \<Longrightarrow> imbalance PEGS' = imbalance PEGS"
proof -
  assume a: "peggy_setprice PEGS p price minute = Some (PEGS', stop)"
  then obtain PEG where PEG: "aget (ps_contracts PEGS) (int p) = Some PEG" by (auto simp: peggy_setprice_def bind_Some_conv)
  then have "p < length (ps_contracts PEGS)" "ps_contracts PEGS ! p = PEG" by (auto dest: aget_SomeD)
  then have "map (f \<circ> pl_funds \<circ> pg_pool) ((ps_contracts PEGS)[p := PEG\<lparr>pg_RTminute := minute\<rparr>]) = map (f \<circ> pl_funds \<circ> pg_pool) (ps_contracts PEGS)"
    for f :: "peggy_margin \<Rightarrow> i64" by (simp add: map_update list_update_same_conv)
  moreover have "(ps_contracts PEGS)[p := PEG] = ps_contracts PEGS" using \<open>ps_contracts PEGS ! p = PEG\<close> by auto
  ultimately show ?thesis using a PEG
    by (auto simp: peggy_setprice_def Let_def bind_Some_conv split: if_splits intro!: imbalance_eqI)
qed

lemma newprice_balance: "peggy_newprice PEGS p T newpval = Some (PEGS', newprice) \<Longrightarrow> imbalance PEGS' = imbalance PEGS"
  by (auto simp: peggy_newprice_def Let_def bind_Some_conv dest: setprice_balance split: if_splits)

lemma upd_peg_balance:
  assumes "upd_peg p g PEGS = Some PEGS'" and "\<And>PEG. pg_pool (g PEG) = pg_pool PEG"
  shows "imbalance PEGS' = imbalance PEGS"
proof (rule imbalance_eqI)
  fix f :: "peggy_margin \<Rightarrow> i64"
  have "sum_list (map (f \<circ> pl_funds \<circ> pg_pool) (ps_contracts PEGS')) = sum_list (map (f \<circ> pl_funds \<circ> pg_pool) (ps_contracts PEGS)) + 0"
    by (rule upd_peg_sum [OF assms(1)]) (simp add: assms(2))
  then show "f (bl_funds (ps_bank PEGS')) - sum_list (map (f \<circ> pl_funds \<circ> pg_pool) (ps_contracts PEGS'))
      = f (bl_funds (ps_bank PEGS)) - sum_list (map (f \<circ> pl_funds \<circ> pg_pool) (ps_contracts PEGS))"
    using upd_peg_rest [OF assms(1)] by simp
qed (use upd_peg_rest [OF assms(1)] in simp)

lemma gamblers_balance: "peggy_gamblers PEGS T prevprice newprice bets = Some (PEGS', bets', r) \<Longrightarrow> imbalance PEGS' = imbalance PEGS"
  by (auto simp: peggy_gamblers_def Let_def bind_Some_conv imbalance_def upd_bank_def fund_kinds_def split: option.splits)

lemma margincall_step_balance:
  "margincall_step newprice shortprice i (PEGS, p) = Some (PEGS', p') \<Longrightarrow> imbalance PEGS' = imbalance PEGS"
  by (auto simp: margincall_step_def Let_def bind_Some_conv changereserve_balance split: if_splits)

lemma margincalls_fold_balance:
  "ofold (margincall_step newprice shortprice) is (PEGS, p) = Some (PEGS', p') \<Longrightarrow> imbalance PEGS' = imbalance PEGS"
proof (induction "is" arbitrary: PEGS p)
  case (Cons i "is")
  from Cons.prems obtain P1 p1 where 1: "margincall_step newprice shortprice i (PEGS, p) = Some (P1, p1)"
    "ofold (margincall_step newprice shortprice) is (P1, p1) = Some (PEGS', p')" by (auto simp: bind_Some_conv)
  show ?case using Cons.IH [OF 1(2)] margincall_step_balance [OF 1(1)] by simp
qed simp

lemma margincalls_balance: "peggy_margincalls PEGS p newprice shortprice = Some PEGS' \<Longrightarrow> imbalance PEGS' = imbalance PEGS"
  by (auto simp: peggy_margincalls_def dest: margincalls_fold_balance)

lemma change_day_balance: "change_day PEGS p T bets day = Some (PEGS', bets') \<Longrightarrow> imbalance PEGS' = imbalance PEGS"
  by (auto simp: change_day_def bind_Some_conv dest!: gamblers_balance upd_peg_balance)

text \<open>The price of the vote that was found, and the rest of the consensus, as two steps.\<close>

lemma vote_balance:
  assumes "(case v of None \<Rightarrow> Some PEGS
     | Some i \<Rightarrow> do { (PEGS, newprice) \<leftarrow> peggy_newprice PEGS p T (f i); upd_peg p (\<lambda>PEG. PEG\<lparr>pg_price := newprice\<rparr>) PEGS }) = Some PEGS'"
  shows "imbalance PEGS' = imbalance PEGS"
proof (cases v)
  case (Some i)
  with assms obtain P1 q where "peggy_newprice PEGS p T (f i) = Some (P1, q)" "upd_peg p (\<lambda>PEG. PEG\<lparr>pg_price := q\<rparr>) P1 = Some PEGS'"
    by (auto simp: bind_Some_conv)
  with newprice_balance [OF this(1)] upd_peg_balance [OF this(2)] show ?thesis by simp
qed (use assms in simp)

lemma consensus_balance:
  assumes "peggy_priceconsensus weight PEGS T seed pricedpeg votes bets = Some (PEGS', bets', price)"
  shows "imbalance PEGS' = imbalance PEGS"
proof -
  from assms obtain PEG where PEG: "aget (ps_contracts PEGS) (sint pricedpeg) = Some PEG" by (auto simp: peggy_priceconsensus_def bind_Some_conv)
  show ?thesis
  proof (cases "peggy_find PEGS (ds_name (pg_name PEG)) False")
    case None
    then show ?thesis using assms PEG by (simp add: peggy_priceconsensus_def)
  next
    case (Some q)
    obtain p e where q: "q = (p, e)" by (cases q)
    note run = assms [unfolded peggy_priceconsensus_def Let_def, unfolded PEG Option.bind.simps Some option.case q prod.case]
    show ?thesis using run
      by (auto elim!: bind_SomeE split: if_splits dest!: vote_balance change_day_balance margincalls_balance)
  qed
qed

text \<open>The operations on the books, in any order.\<close>

inductive peggy_runs :: "'s peggy_info \<Rightarrow> 's peggy_info \<Rightarrow> bool" for PEGS where
  start: "peggy_runs PEGS PEGS"
| create: "peggy_runs PEGS Q \<Longrightarrow> peggy_createunit Q T readonly seed pegname lockhash lock amount marginamount = Some (R, satoshis) \<Longrightarrow> peggy_runs PEGS R"
| redeem: "peggy_runs PEGS Q \<Longrightarrow> peggy_redeem lockhash_of Q T readonly name polarity pubkey lockdays chainlen = Some (R, satoshis) \<Longrightarrow> peggy_runs PEGS R"
| consensus: "peggy_runs PEGS Q \<Longrightarrow> peggy_priceconsensus weight Q T seed pricedpeg votes bets = Some (R, bets', price) \<Longrightarrow> peggy_runs PEGS R"
| thanks: "peggy_runs PEGS Q \<Longrightarrow> peggy_runs PEGS (peggy_thanks_you Q tip)"

definition balanced :: "'s peggy_info \<Rightarrow> bool" where
  "balanced PEGS \<longleftrightarrow> (\<forall>f \<in> set fund_kinds. sum_list (map (f \<circ> bl_funds) (ps_basereserves PEGS)) = 0
     \<and> f (bl_funds (ps_bank PEGS)) = sum_list (map (f \<circ> pl_funds \<circ> pg_pool) (ps_contracts PEGS)))"

lemma balanced_imbalance: "balanced PEGS \<longleftrightarrow> (\<forall>x \<in> set (imbalance PEGS). x = (0, 0))"
  by (auto simp: balanced_def imbalance_def)

lemma runs_imbalance: "peggy_runs PEGS PEGS' \<Longrightarrow> imbalance PEGS' = imbalance PEGS"
  by (induction rule: peggy_runs.induct) (simp_all add: createunit_balance redeem_balance consensus_balance thanks_you_balance)

text \<open>
  C7. The books are double-entry: whatever units are created and redeemed, prices voted, bets
  settled and margins called, in any order, the reserves of the currencies add up to zero and the
  bank holds the sum of the pools, in deposits, margin deposits and margin values.
\<close>

theorem books_balance:
  assumes "peggy_runs PEGS PEGS'" and "balanced PEGS"
  shows "balanced PEGS'"
  using assms by (simp add: balanced_imbalance runs_imbalance)

section \<open>Settling bets\<close>

lemma those_map: "\<forall>x \<in> set xs. f x = Some (g x) \<Longrightarrow> those (map f xs) = Some (map g xs)"
  by (induction xs) auto

lemma unat_sum_list:
  fixes f :: "'a \<Rightarrow> u64"
  shows "sum_list (map (\<lambda>x. unat (f x)) xs) < 2 ^ 64 \<Longrightarrow> unat (sum_list (map f xs)) = sum_list (map (\<lambda>x. unat (f x)) xs)"
  by (induction xs) (simp_all add: unat_word_ariths)

lemma sum_list_map_mono_nat: "(\<And>x. x \<in> set xs \<Longrightarrow> f x \<le> g x) \<Longrightarrow> sum_list (map f xs) \<le> sum_list (map (g :: 'a \<Rightarrow> nat) xs)"
  by (rule sum_list_mono) auto

lemma sum_div_le: "sum_list (map (\<lambda>x. f x div w) xs) \<le> sum_list (map f xs) div (w :: nat)"
proof (induction xs)
  case (Cons x xs)
  have "f x div w + sum_list (map f xs) div w \<le> (f x + sum_list (map f xs)) div w"
    using div_add1_eq [of "f x" "sum_list (map f xs)" w] by linarith
  with Cons show ?case by simp
qed simp

text \<open>A pot that is divided in proportion to the shares is not overdrawn.\<close>

lemma shares_le_pot:
  assumes "sum_list (map a xs) \<le> w" and "0 < w"
  shows "sum_list (map (\<lambda>x. a x * l div w) xs) \<le> (l :: nat)"
proof -
  have "sum_list (map (\<lambda>x. a x * l div w) xs) \<le> sum_list (map (\<lambda>x. a x * l) xs) div w" by (rule sum_div_le)
  also have "sum_list (map (\<lambda>x. a x * l) xs) = sum_list (map a xs) * l" by (simp add: sum_list_mult_const)
  also have "sum_list (map a xs) * l div w \<le> w * l div w" using assms by (intro div_le_mono mult_right_mono) auto
  finally show ?thesis using assms(2) by simp
qed

lemma unat_add64: "unat a + unat b < 2 ^ 64 \<Longrightarrow> unat (a + b :: u64) = unat a + unat b"
  by (simp add: unat_word_ariths)

lemma unat_mult64: "unat a * unat b < 2 ^ 64 \<Longrightarrow> unat (a * b :: u64) = unat a * unat b"
  by (simp add: unat_word_ariths)

lemma open_bet_fields [simp]:
  "bt_distbet (open_bet T pp np b) = bt_distbet b" "bt_dirbet (open_bet T pp np b) = bt_dirbet b" "bt_prediction (open_bet T pp np b) = bt_prediction b"
  "bet_side pp np (open_bet T pp np b) = bet_side pp np b" "bt_payout (open_bet T pp np b) = 0"
  "bt_minutes (open_bet T pp np b) = (pt_blocktimestamp T - bt_timestamp b) div PEGGY_MINUTE"
  "bt_shares (open_bet T pp np b) = (if s_lt 0 (bet_side pp np b) then bt_dirbet b * ucast ((pt_blocktimestamp T - bt_timestamp b) div PEGGY_MINUTE) else 0)"
  by (simp_all add: open_bet_def Let_def bet_side_def)

lemma abs_succ_nonzero: "(if s_lt d 0 then - d else d) + 1 \<noteq> (0 :: i64)"
proof
  assume a: "(if s_lt d 0 then - d else d) + 1 = 0"
  have n1: "sint (- 1 :: i64) = - 1" by simp
  show False
  proof (cases "s_lt d 0")
    case True
    with a have "d = 1" by (simp add: add_eq_0_iff2)
    with True show False by (simp add: s_lt_def)
  next
    case False
    with a have "d = - 1" by (simp add: eq_neg_iff_add_eq_0)
    with False show False by (simp add: s_lt_def)
  qed
qed

lemma dist_nonzero: "bt_dist (open_bet T pp np b) \<noteq> 0 \<longleftrightarrow> bt_distbet b \<noteq> 0"
  using abs_succ_nonzero [of "np - bt_prediction b"] by (auto simp: open_bet_def Let_def)

lemma best_dist_step:
  assumes "\<forall>b \<in> set bets. bt_distbet b \<noteq> 0 \<longrightarrow> bt_dist b \<noteq> 0"
  shows "fold (\<lambda>b best. if bt_distbet b \<noteq> 0 \<and> (best = 0 \<or> s_lt (bt_dist b) best) then bt_dist b else best) bets best0 \<in> {best0} \<union> bt_dist ` {b \<in> set bets. bt_distbet b \<noteq> 0}
    \<and> (best0 \<noteq> 0 \<or> (\<exists>b \<in> set bets. bt_distbet b \<noteq> 0) \<longrightarrow>
         fold (\<lambda>b best. if bt_distbet b \<noteq> 0 \<and> (best = 0 \<or> s_lt (bt_dist b) best) then bt_dist b else best) bets best0 \<noteq> 0)"
  using assms
proof (induction bets arbitrary: best0)
  case (Cons b bets)
  then show ?case
    using Cons.IH [of "if bt_distbet b \<noteq> 0 \<and> (best0 = 0 \<or> s_lt (bt_dist b) best0) then bt_dist b else best0"]
    by (auto split: if_splits)
qed simp

lemma best_dist_member:
  assumes "\<forall>b \<in> set bets. bt_distbet b \<noteq> 0 \<longrightarrow> bt_dist b \<noteq> 0" and "\<exists>b \<in> set bets. bt_distbet b \<noteq> 0"
  shows "\<exists>b \<in> set bets. bt_distbet b \<noteq> 0 \<and> bt_dist b = best_dist bets"
  using best_dist_step [OF assms(1), of 0] assms(2) unfolding best_dist_def by (auto simp: image_iff)

text \<open>What the settlement makes of the opened bets.\<close>

definition staked :: "peggy_bet list \<Rightarrow> nat" where
  "staked bets = sum_list (map (\<lambda>b. unat (bt_dirbet b) + unat (bt_distbet b)) bets)"

definition dist_pay :: "u64 \<Rightarrow> nat \<Rightarrow> nat \<Rightarrow> peggy_bet \<Rightarrow> nat" where
  "dist_pay best l w b = (if bt_dist b = best then unat (bt_distbet b) + unat (bt_distbet b) * l div w else 0)"

definition dir_pay :: "nat \<Rightarrow> nat \<Rightarrow> peggy_bet \<Rightarrow> nat" where
  "dir_pay l w b = (if bt_shares b \<noteq> 0 then unat (bt_dirbet b) + unat (bt_shares b) * l div w else 0)"

lemma pay_dist_eq:
  assumes "unat (bt_distbet b) * unat losing < 2 ^ 64" "unat (bt_distbet b) + unat losing < 2 ^ 64" "unat (bt_distbet b) \<le> unat winning" "winning \<noteq> 0" "bt_payout b = 0"
  shows "\<exists>x. pay_dist best losing winning b = Some (b\<lparr>bt_payout := x\<rparr>) \<and> unat x = dist_pay best (unat losing) (unat winning) b"
proof (cases "bt_dist b = best")
  case True
  have "unat (bt_distbet b) * unat losing div unat winning \<le> unat losing"
    using assms(3,4) by (metis div_le_mono mult_le_mono1 nonzero_mult_div_cancel_left unat_eq_zero)
  then have "unat (bt_distbet b + (bt_distbet b * losing) div winning) = unat (bt_distbet b) + unat (bt_distbet b) * unat losing div unat winning"
    using assms(1,2) by (subst unat_add64) (simp_all add: unat_div unat_mult64)
  then show ?thesis using True assms(4)
    by (intro exI [of _ "bt_distbet b + (bt_distbet b * losing) div winning"]) (simp add: pay_dist_def dist_pay_def udiv64_def)
next
  case False
  then show ?thesis using assms(5) by (intro exI [of _ 0]) (auto simp: pay_dist_def dist_pay_def)
qed

lemma pay_dir_eq:
  assumes "unat (bt_shares b) * unat oppo < 2 ^ 64" "unat (bt_dirbet b) + unat oppo < 2 ^ 64" "unat (bt_shares b) \<le> unat shares"
  shows "\<exists>x. pay_dir oppo shares b = Some (b\<lparr>bt_payout := x\<rparr>) \<and> unat x = (if bt_shares b \<noteq> 0 then dir_pay (unat oppo) (unat shares) b else unat (bt_payout b))"
proof (cases "bt_shares b = 0")
  case True
  then show ?thesis by (intro exI [of _ "bt_payout b"]) (auto simp: pay_dir_def)
next
  case False
  then have nz: "shares \<noteq> 0" using assms(3) by (auto simp: unat_eq_0)
  then have "unat (bt_shares b) * unat oppo div unat shares \<le> unat oppo"
    using assms(3) by (metis div_le_mono mult_le_mono1 nonzero_mult_div_cancel_left unat_eq_zero)
  then have "unat (bt_dirbet b + (bt_shares b * oppo) div shares) = unat (bt_dirbet b) + unat (bt_shares b) * unat oppo div unat shares"
    using assms(1,2) by (subst unat_add64) (simp_all add: unat_div unat_mult64)
  then show ?thesis using False nz
    by (intro exI [of _ "bt_dirbet b + (bt_shares b * oppo) div shares"]) (simp add: pay_dir_def dir_pay_def udiv64_def)
qed

lemma sum_if_split: "sum_list (map (\<lambda>b. if P b then f b else 0) xs) + sum_list (map (\<lambda>b. if P b then 0 else f b) xs) = sum_list (map (f :: 'a \<Rightarrow> nat) xs)"
  by (induction xs) auto

lemma if_unat: "unat (if P then x else (0 :: u64)) = (if P then unat x else 0)"
  by simp

text \<open>Both kinds of payment stay within the stakes of their kind.\<close>

lemma dist_pays_le:
  assumes "w = sum_list (map (\<lambda>b. if bt_dist b = best then unat (bt_distbet b) else 0) bs)" and "l = sum_list (map (\<lambda>b. if bt_dist b = best then 0 else unat (bt_distbet b)) bs)"
    and "0 < w"
  shows "sum_list (map (dist_pay best l (w + w div 100)) bs) \<le> sum_list (map (\<lambda>b. unat (bt_distbet b)) bs)"
proof -
  let ?a = "\<lambda>b. if bt_dist b = best then unat (bt_distbet b) else 0"
  have "map (dist_pay best l (w + w div 100)) bs = map (\<lambda>b. ?a b + ?a b * l div (w + w div 100)) bs" by (simp add: dist_pay_def)
  then have "sum_list (map (dist_pay best l (w + w div 100)) bs) = w + sum_list (map (\<lambda>b. ?a b * l div (w + w div 100)) bs)"
    by (simp only: sum_list_addf assms(1) [symmetric])
  moreover have "sum_list (map (\<lambda>b. ?a b * l div (w + w div 100)) bs) \<le> l" using assms by (intro shares_le_pot) auto
  ultimately show ?thesis using sum_if_split [of "\<lambda>b. bt_dist b = best" "\<lambda>b. unat (bt_distbet b)" bs] assms(1,2) by simp
qed

lemma dir_pays_le:
  assumes "sum_list (map (\<lambda>b. unat (bt_shares b)) bs) \<le> w"
  shows "sum_list (map (dir_pay l w) bs) \<le> sum_list (map (\<lambda>b. if bt_shares b \<noteq> 0 then unat (bt_dirbet b) else 0) bs) + l"
proof (cases "w = 0")
  case True
  then have "\<forall>b \<in> set bs. bt_shares b = 0" using assms by (auto simp: sum_list_eq_0_iff unat_eq_0)
  then have "map (dir_pay l w) bs = map (\<lambda>_. 0) bs" by (simp add: dir_pay_def)
  then show ?thesis by (simp only: sum_list_0)
next
  case False
  have "map (dir_pay l w) bs = map (\<lambda>b. (if bt_shares b \<noteq> 0 then unat (bt_dirbet b) else 0) + unat (bt_shares b) * l div w) bs" by (auto simp: dir_pay_def)
  then have "sum_list (map (dir_pay l w) bs)
      = sum_list (map (\<lambda>b. if bt_shares b \<noteq> 0 then unat (bt_dirbet b) else 0) bs) + sum_list (map (\<lambda>b. unat (bt_shares b) * l div w) bs)"
    by (simp only: sum_list_addf)
  with shares_le_pot [OF assms, of l] False show ?thesis by simp
qed

text \<open>The amounts that occur do not overflow when the stakes, squared and times the minutes, fit into 63 bits.\<close>

definition bets_fit :: "peggy_time \<Rightarrow> nat \<Rightarrow> peggy_bet list \<Rightarrow> bool" where
  "bets_fit T M bets \<longleftrightarrow> 2 * (staked bets * staked bets * M) < 2 ^ 64 \<and>
     (\<forall>b \<in> set bets. unat ((pt_blocktimestamp T - bt_timestamp b) div PEGGY_MINUTE) < M)"

lemma staked_member: "b \<in> set bets \<Longrightarrow> unat (bt_dirbet b) + unat (bt_distbet b) \<le> staked bets"
  unfolding staked_def by (rule member_le_sum_list) auto

lemma staked_split: "staked bets = sum_list (map (\<lambda>b. unat (bt_dirbet b)) bets) + sum_list (map (\<lambda>b. unat (bt_distbet b)) bets)"
  by (simp add: staked_def sum_list_addf)

lemma fit_bounds:
  assumes "bets_fit T M bets" "bets \<noteq> []"
  shows "0 < M" "staked bets * staked bets \<le> staked bets * staked bets * M" "staked bets \<le> staked bets * staked bets" "staked bets * M \<le> staked bets * staked bets * M"
proof -
  show M: "0 < M" using assms by (cases bets) (auto simp: bets_fit_def)
  then show "staked bets * staked bets \<le> staked bets * staked bets * M" by simp
  show s: "staked bets \<le> staked bets * staked bets" by (cases "staked bets") auto
  show "staked bets * M \<le> staked bets * staked bets * M" using s by (rule mult_right_mono) simp
qed

lemma open_shares:
  assumes "bets_fit T M bets" and "b \<in> set bets"
  shows "unat (bt_shares (open_bet T pp np b)) = (if s_lt 0 (bet_side pp np b) then unat (bt_dirbet b) * unat ((pt_blocktimestamp T - bt_timestamp b) div PEGGY_MINUTE) else 0)"
    "unat (bt_dirbet b * ucast (1 + (pt_blocktimestamp T - bt_timestamp b) div PEGGY_MINUTE)) = unat (bt_dirbet b) * (1 + unat ((pt_blocktimestamp T - bt_timestamp b) div PEGGY_MINUTE))"
    "unat (bt_dirbet b) * (1 + unat ((pt_blocktimestamp T - bt_timestamp b) div PEGGY_MINUTE)) \<le> unat (bt_dirbet b) * M"
proof -
  let ?m = "(pt_blocktimestamp T - bt_timestamp b) div PEGGY_MINUTE"
  have ne: "bets \<noteq> []" using assms(2) by auto
  have m: "unat ?m < M" using assms by (simp add: bets_fit_def)
  have d: "unat (bt_dirbet b) \<le> staked bets" using staked_member [OF assms(2)] by simp
  have "unat (bt_dirbet b) * M \<le> staked bets * M" using d by (rule mult_right_mono) simp
  also have "\<dots> \<le> staked bets * staked bets * M" by (rule fit_bounds(4) [OF assms(1) ne])
  finally have lt: "unat (bt_dirbet b) * M < 2 ^ 64" using assms(1) unfolding bets_fit_def by linarith
  have "unat ?m div 1 \<le> unat (pt_blocktimestamp T - bt_timestamp b) div 60" by (simp add: unat_div PEGGY_MINUTE_def)
  also have "\<dots> < 2 ^ 32 div 60 + 1" using unsigned_less [where ?'a = nat and ?'b = 32, of "pt_blocktimestamp T - bt_timestamp b"] by (simp add: div_less_iff_less_mult)
  finally have s: "1 + unat ?m < 2 ^ 32" by simp
  have u: "unat (ucast ?m :: u64) = unat ?m" "unat (ucast (1 + ?m) :: u64) = 1 + unat ?m" using s by (simp_all add: unsigned_ucast_eq take_bit_nat_eq_self unat_word_ariths)
  have le: "unat (bt_dirbet b) * (1 + unat ?m) \<le> unat (bt_dirbet b) * M" using m by (intro mult_left_mono) auto
  then show "unat (bt_dirbet b) * (1 + unat ?m) \<le> unat (bt_dirbet b) * M" .
  show "unat (bt_dirbet b * ucast (1 + ?m)) = unat (bt_dirbet b) * (1 + unat ?m)" using le lt u by (subst unat_mult64) simp_all
  have "unat (bt_dirbet b) * unat ?m < 2 ^ 64" using le lt by simp
  then show "unat (bt_shares (open_bet T pp np b)) = (if s_lt 0 (bet_side pp np b) then unat (bt_dirbet b) * unat ?m else 0)"
    using u by (simp add: unat_mult64)
qed

text \<open>The totals of the settlement as numbers.\<close>

lemma word_total:
  fixes f :: "peggy_bet \<Rightarrow> u64"
  assumes "\<And>b. b \<in> set bs \<Longrightarrow> unat (f b) \<le> g b" and "sum_list (map g bs) \<le> n" and "n < 2 ^ 64"
  shows "unat (sum_list (map f bs)) = sum_list (map (\<lambda>b. unat (f b)) bs)" "sum_list (map (\<lambda>b. unat (f b)) bs) \<le> n"
proof -
  have "sum_list (map (\<lambda>b. unat (f b)) bs) \<le> sum_list (map g bs)" using assms(1) by (rule sum_list_map_mono_nat)
  then show le: "sum_list (map (\<lambda>b. unat (f b)) bs) \<le> n" using assms(2) by simp
  then show "unat (sum_list (map f bs)) = sum_list (map (\<lambda>b. unat (f b)) bs)" using assms(3) by (intro unat_sum_list) simp
qed

lemma fit_small:
  assumes "bets_fit T M bets" "bets \<noteq> []"
  shows "staked bets < 2 ^ 63" "staked bets * M < 2 ^ 63" "staked bets * staked bets < 2 ^ 63" "staked bets * staked bets * M < 2 ^ 63"
proof -
  show "staked bets * staked bets * M < 2 ^ 63" using assms(1) by (simp add: bets_fit_def ac_simps)
  with fit_bounds [OF assms] show "staked bets < 2 ^ 63" "staked bets * M < 2 ^ 63" "staked bets * staked bets < 2 ^ 63" by linarith+
qed

lemma of_nat_sum_list: "of_nat (sum_list (map f xs)) = sum_list (map (\<lambda>x. of_nat (f x)) xs)"
  by (induction xs) auto

lemma pay_dist_fun:
  assumes "unat (bt_distbet b) * unat losing < 2 ^ 63" "unat (bt_distbet b) < 2 ^ 63" "unat losing < 2 ^ 63" "unat (bt_distbet b) \<le> unat winning" "winning \<noteq> 0" "bt_payout b = 0"
  shows "pay_dist best losing winning b = Some (b\<lparr>bt_payout := of_nat (dist_pay best (unat losing) (unat winning) b)\<rparr>)"
    "dist_pay best (unat losing) (unat winning) b < 2 ^ 64"
  using pay_dist_eq [of b losing winning best] assms unsigned_less [where ?'a = nat and ?'b = 64] by (fastforce dest: sym)+

lemma pay_dir_fun:
  assumes "unat (bt_shares b) * unat oppo < 2 ^ 63" "unat (bt_dirbet b) < 2 ^ 63" "unat oppo < 2 ^ 63" "unat (bt_shares b) \<le> unat shares"
  shows "pay_dir oppo shares b = Some (b\<lparr>bt_payout := of_nat (if bt_shares b \<noteq> 0 then dir_pay (unat oppo) (unat shares) b else unat (bt_payout b))\<rparr>)"
    "(if bt_shares b \<noteq> 0 then dir_pay (unat oppo) (unat shares) b else unat (bt_payout b)) < 2 ^ 64"
proof -
  obtain x where x: "pay_dir oppo shares b = Some (b\<lparr>bt_payout := x\<rparr>)"
    "unat x = (if bt_shares b \<noteq> 0 then dir_pay (unat oppo) (unat shares) b else unat (bt_payout b))"
    using pay_dir_eq [of b oppo shares] assms by auto
  have "x = of_nat (if bt_shares b \<noteq> 0 then dir_pay (unat oppo) (unat shares) b else unat (bt_payout b))" unfolding x(2) [symmetric] by simp
  with x(1) show "pay_dir oppo shares b = Some (b\<lparr>bt_payout := of_nat (if bt_shares b \<noteq> 0 then dir_pay (unat oppo) (unat shares) b else unat (bt_payout b))\<rparr>)"
    by (simp only:)
  show "(if bt_shares b \<noteq> 0 then dir_pay (unat oppo) (unat shares) b else unat (bt_payout b)) < 2 ^ 64"
    unfolding x(2) [symmetric] using unsigned_less [where ?'a = nat and ?'b = 64, of x] by simp
qed

text \<open>A sum of words that is part of the stakes is the sum of the numbers.\<close>

lemma part_total:
  fixes f :: "peggy_bet \<Rightarrow> u64"
  assumes "sum_list (map (\<lambda>b. unat (f b)) bs) \<le> n" and "n < 2 ^ 63"
  shows "unat (sum_list (map (\<lambda>b. if P b then f b else 0) bs)) = sum_list (map (\<lambda>b. if P b then unat (f b) else 0) bs)"
    "unat (sum_list (map (\<lambda>b. if P b then f b else 0) bs)) \<le> n"
proof -
  have e: "(\<lambda>b. unat (if P b then f b else 0)) = (\<lambda>b. if P b then unat (f b) else 0)" by (auto simp: fun_eq_iff)
  have le: "sum_list (map (\<lambda>b. if P b then unat (f b) else 0) bs) \<le> n"
    by (rule order_trans [OF sum_list_map_mono_nat assms(1)]) simp
  then have "sum_list (map (\<lambda>b. unat (if P b then f b else 0)) bs) < 2 ^ 64" unfolding e using assms(2) by simp
  from unat_sum_list [OF this] show u: "unat (sum_list (map (\<lambda>b. if P b then f b else 0) bs)) = sum_list (map (\<lambda>b. if P b then unat (f b) else 0) bs)"
    by (simp only: e)
  then show "unat (sum_list (map (\<lambda>b. if P b then f b else 0) bs)) \<le> n" using le by simp
qed

lemma add_percent: "unat x < 2 ^ 63 \<Longrightarrow> unat (x + x div 100 :: u64) = unat x + unat x div 100"
proof -
  assume "unat x < 2 ^ 63"
  moreover have "unat x div 100 \<le> unat x" by (rule div_le_dividend)
  ultimately show ?thesis by (subst unat_add64) (simp_all add: unat_div)
qed

lemma if_swap: "(if P then (0 :: u64) else x) = (if \<not> P then x else 0)"
  by simp

text \<open>The bets on the distance.\<close>

lemma settle_dist:
  assumes fit: "bets_fit T M bets" and dist: "\<exists>b \<in> set bets. bt_distbet b \<noteq> 0"
    and ob: "ob = map (open_bet T pp np) bets" and best: "best = best_dist ob"
    and W: "W = sum_list (map (\<lambda>b. if bt_dist b = best then bt_distbet b else 0) ob)"
    and L: "L = sum_list (map (\<lambda>b. if bt_dist b = best then 0 else bt_distbet b) ob)"
  shows "\<exists>p. those (map (pay_dist best L (W + W div 100)) ob) = Some (map (\<lambda>b. b\<lparr>bt_payout := of_nat (p b)\<rparr>) ob)
    \<and> (\<forall>b \<in> set ob. p b < 2 ^ 64) \<and> sum_list (map p ob) \<le> sum_list (map (\<lambda>b. unat (bt_distbet b)) bets)"
proof -
  have ne: "bets \<noteq> []" using dist by auto
  note small = fit_small [OF fit ne]
  have D: "sum_list (map (\<lambda>b. unat (bt_distbet b)) ob) = sum_list (map (\<lambda>b. unat (bt_distbet b)) bets)" by (simp add: ob comp_def)
  then have D': "sum_list (map (\<lambda>b. unat (bt_distbet b)) ob) \<le> staked bets" by (simp add: staked_split)
  note w = part_total [OF D' small(1), of "\<lambda>b. bt_dist b = best", folded W]
  note l = part_total [OF D' small(1), of "\<lambda>b. \<not> bt_dist b = best", folded if_swap, folded L]
  obtain b0 where b0: "b0 \<in> set ob" "bt_distbet b0 \<noteq> 0" "bt_dist b0 = best"
    using best_dist_member [of ob] dist dist_nonzero [of T pp np] unfolding ob best by fastforce
  have "unat (bt_distbet b0) \<le> unat W" unfolding w(1) using b0 member_le_sum_list [of "unat (bt_distbet b0)" "map (\<lambda>b. if bt_dist b = best then unat (bt_distbet b) else 0) ob"]
    by (force simp: image_iff)
  then have Wpos: "0 < unat W" using b0(2) by (metis gr0I le_zero_eq unat_eq_zero)
  have W': "unat (W + W div 100) = unat W + unat W div 100" using w(2) small(1) by (intro add_percent) simp
  let ?p = "\<lambda>b. if bt_dist b = best then dist_pay best (unat L) (unat (W + W div 100)) b else 0"
  have each: "pay_dist best L (W + W div 100) b = Some (b\<lparr>bt_payout := of_nat (?p b)\<rparr>) \<and> ?p b < 2 ^ 64" if b: "b \<in> set ob" for b
  proof (cases "bt_dist b = best")
    case True
    have m: "unat (bt_distbet b) \<le> unat W" unfolding w(1) using b True member_le_sum_list [of "unat (bt_distbet b)" "map (\<lambda>b. if bt_dist b = best then unat (bt_distbet b) else 0) ob"]
      by (force simp: image_iff)
    have "unat (bt_distbet b) * unat L \<le> staked bets * staked bets" using m w(2) l(2) by (intro mult_le_mono) auto
    moreover have "W + W div 100 \<noteq> 0" using W' Wpos by (metis add_is_0 less_not_refl unat_0)
    moreover have "bt_payout b = 0" using b by (auto simp: ob)
    ultimately show ?thesis using pay_dist_fun [of b L "W + W div 100" best] m w(2) l(2) small W' True by simp
  next
    case False
    then show ?thesis using b by (auto simp: pay_dist_def ob)
  qed
  have "map ?p ob = map (dist_pay best (unat L) (unat W + unat W div 100)) ob" by (simp add: W' dist_pay_def)
  moreover have "unat L = sum_list (map (\<lambda>b. if bt_dist b = best then 0 else unat (bt_distbet b)) ob)"
    unfolding l(1) by (rule arg_cong [where f = sum_list]) simp
  ultimately have "sum_list (map ?p ob) \<le> sum_list (map (\<lambda>b. unat (bt_distbet b)) bets)"
    using dist_pays_le [OF w(1) _ Wpos, of "unat L"] D by (simp only:)
  then show ?thesis using each by (intro exI [of _ ?p] conjI ballI those_map) blast+
qed

text \<open>The bets on the direction.\<close>

lemma settle_dir:
  assumes fit: "bets_fit T M bets" and ne: "bets \<noteq> []" and ob: "ob = map (open_bet T pp np) bets"
    and MS: "MS = sum_list (map (\<lambda>b. if s_lt 0 (bet_side pp np b) then bt_dirbet b * ucast (1 + bt_minutes b) else 0) ob)"
    and Opp: "Opp = sum_list (map (\<lambda>b. if s_lt (bet_side pp np b) 0 then bt_dirbet b else 0) ob)"
    and p: "\<forall>b \<in> set ob. p b < 2 ^ 64"
  shows "\<exists>q. those (map (pay_dir Opp (MS + MS div 100)) (map (\<lambda>b. b\<lparr>bt_payout := of_nat (p b)\<rparr>) ob)) = Some (map (\<lambda>b. b\<lparr>bt_payout := of_nat (q b)\<rparr>) ob)
    \<and> (\<forall>b \<in> set ob. q b < 2 ^ 64) \<and> sum_list (map q ob) \<le> sum_list (map p ob) + sum_list (map (\<lambda>b. unat (bt_dirbet b)) bets)"
proof -
  note small = fit_small [OF fit ne]
  let ?m = "\<lambda>b. unat (bt_dirbet b * ucast (1 + bt_minutes b))"
  have D: "sum_list (map (\<lambda>b. unat (bt_dirbet b)) ob) = sum_list (map (\<lambda>b. unat (bt_dirbet b)) bets)" by (simp add: ob comp_def)
  then have D': "sum_list (map (\<lambda>b. unat (bt_dirbet b)) ob) \<le> staked bets" by (simp add: staked_split)
  have "sum_list (map ?m ob) \<le> sum_list (map (\<lambda>b. unat (bt_dirbet b) * M) ob)"
    using open_shares(2,3) [OF fit] by (intro sum_list_map_mono_nat) (auto simp: ob)
  also have "\<dots> = sum_list (map (\<lambda>b. unat (bt_dirbet b)) ob) * M" by (simp add: sum_list_mult_const)
  also have "\<dots> \<le> staked bets * M" using D' by (rule mult_right_mono) simp
  finally have S': "sum_list (map ?m ob) \<le> staked bets * M" .
  note ms = part_total [OF S' small(2), of "\<lambda>b. s_lt 0 (bet_side pp np b)", folded MS]
  note op = part_total [OF D' small(1), of "\<lambda>b. s_lt (bet_side pp np b) 0", folded Opp]
  have MS': "unat (MS + MS div 100) = unat MS + unat MS div 100" using ms(2) small(2) by (intro add_percent) simp
  have "sum_list (map (\<lambda>b. unat (bt_shares b)) ob) \<le> unat MS"
    unfolding ms(1) using open_shares(1) [OF fit, of _ pp np] open_shares(2) [OF fit] by (intro sum_list_map_mono_nat) (auto simp: ob simp del: open_bet_fields(7))
  then have sh: "sum_list (map (\<lambda>b. unat (bt_shares b)) ob) \<le> unat (MS + MS div 100)" using MS' by simp
  let ?q = "\<lambda>b. if bt_shares b \<noteq> 0 then dir_pay (unat Opp) (unat (MS + MS div 100)) b else p b"
  have each: "pay_dir Opp (MS + MS div 100) (b\<lparr>bt_payout := of_nat (p b)\<rparr>) = Some (b\<lparr>bt_payout := of_nat (?q b)\<rparr>) \<and> ?q b < 2 ^ 64" if b: "b \<in> set ob" for b
  proof -
    have s: "unat (bt_shares b) \<le> sum_list (map (\<lambda>b. unat (bt_shares b)) ob)" using b by (intro member_le_sum_list) auto
    have d: "unat (bt_dirbet b) \<le> staked bets" using b D' member_le_sum_list [of "unat (bt_dirbet b)" "map (\<lambda>b. unat (bt_dirbet b)) ob"] by force
    have "unat (bt_shares b) \<le> staked bets * M" using s ms(2) \<open>sum_list (map (\<lambda>b. unat (bt_shares b)) ob) \<le> unat MS\<close> by linarith
    then have "unat (bt_shares b) * unat Opp \<le> staked bets * M * staked bets" using op(2) by (rule mult_le_mono)
    then have "unat (bt_shares b) * unat Opp < 2 ^ 63" using small(4) by (simp add: ac_simps)
    moreover have "unat (of_nat (p b) :: u64) = p b" using p b by (simp add: unat_of_nat take_bit_nat_eq_self)
    ultimately show ?thesis
      using pay_dir_fun [of "b\<lparr>bt_payout := of_nat (p b)\<rparr>" Opp "MS + MS div 100"] d op(2) small(1) s sh by (simp add: dir_pay_def split: if_splits)
  qed
  have "sum_list (map ?q ob) \<le> sum_list (map (\<lambda>b. p b + dir_pay (unat Opp) (unat (MS + MS div 100)) b) ob)" by (intro sum_list_map_mono_nat) simp
  also have "\<dots> \<le> sum_list (map p ob) + (sum_list (map (\<lambda>b. if bt_shares b \<noteq> 0 then unat (bt_dirbet b) else 0) ob) + unat Opp)"
    using dir_pays_le [OF sh, of "unat Opp"] by (simp add: sum_list_addf)
  also have "sum_list (map (\<lambda>b. if bt_shares b \<noteq> 0 then unat (bt_dirbet b) else 0) ob) + unat Opp
      = sum_list (map (\<lambda>b. (if bt_shares b \<noteq> 0 then unat (bt_dirbet b) else 0) + (if s_lt (bet_side pp np b) 0 then unat (bt_dirbet b) else 0)) ob)"
    by (simp only: op(1) sum_list_addf)
  also have "\<dots> \<le> sum_list (map (\<lambda>b. unat (bt_dirbet b)) ob)" by (intro sum_list_map_mono_nat) (auto simp: ob s_lt_def)
  finally have "sum_list (map ?q ob) \<le> sum_list (map p ob) + sum_list (map (\<lambda>b. unat (bt_dirbet b)) bets)" using D by simp
  moreover have "those (map (pay_dir Opp (MS + MS div 100)) (map (\<lambda>b. b\<lparr>bt_payout := of_nat (p b)\<rparr>) ob)) = Some (map (\<lambda>b. b\<lparr>bt_payout := of_nat (?q b)\<rparr>) ob)"
    using those_map [of ob "\<lambda>b. pay_dir Opp (MS + MS div 100) (b\<lparr>bt_payout := of_nat (p b)\<rparr>)" "\<lambda>b. b\<lparr>bt_payout := of_nat (?q b)\<rparr>"] each by (simp add: comp_def)
  ultimately show ?thesis using each by (intro exI [of _ ?q]) blast
qed

text \<open>
  C17. As long as the amounts fit into 64 bits and there is a bet on the distance, the bets are
  settled, the payouts are at most the stakes and the rest of the stakes is booked as fees.
\<close>

theorem payouts_within_stakes:
  assumes fit: "bets_fit T M bets" and dist: "\<exists>b \<in> set bets. bt_distbet b \<noteq> 0"
  shows "\<exists>PEGS' bets'. peggy_gamblers PEGS T prevprice newprice (Some bets) = Some (PEGS', Some bets', 0)
    \<and> sum_list (map (\<lambda>b. unat (bt_payout b)) bets') \<le> staked bets
    \<and> bl_privatebetfees (ps_bank PEGS') = bl_privatebetfees (ps_bank PEGS) + of_nat (staked bets - sum_list (map (\<lambda>b. unat (bt_payout b)) bets'))"
proof -
  have ne: "bets \<noteq> []" using dist by auto
  define ob where "ob = map (open_bet T prevprice newprice) bets"
  from settle_dist [OF fit dist ob_def refl refl refl] obtain p where
    p: "those (map (pay_dist (best_dist ob) (sum_list (map (\<lambda>b. if bt_dist b = best_dist ob then 0 else bt_distbet b) ob))
          (sum_list (map (\<lambda>b. if bt_dist b = best_dist ob then bt_distbet b else 0) ob) + sum_list (map (\<lambda>b. if bt_dist b = best_dist ob then bt_distbet b else 0) ob) div 100)) ob)
        = Some (map (\<lambda>b. b\<lparr>bt_payout := of_nat (p b)\<rparr>) ob)"
      "\<forall>b \<in> set ob. p b < 2 ^ 64" "sum_list (map p ob) \<le> sum_list (map (\<lambda>b. unat (bt_distbet b)) bets)" by blast
  from settle_dir [OF fit ne ob_def refl refl p(2)] obtain q where
    q: "those (map (pay_dir (sum_list (map (\<lambda>b. if s_lt (bet_side prevprice newprice b) 0 then bt_dirbet b else 0) ob))
          (sum_list (map (\<lambda>b. if s_lt 0 (bet_side prevprice newprice b) then bt_dirbet b * ucast (1 + bt_minutes b) else 0) ob)
            + sum_list (map (\<lambda>b. if s_lt 0 (bet_side prevprice newprice b) then bt_dirbet b * ucast (1 + bt_minutes b) else 0) ob) div 100))
          (map (\<lambda>b. b\<lparr>bt_payout := of_nat (p b)\<rparr>) ob)) = Some (map (\<lambda>b. b\<lparr>bt_payout := of_nat (q b)\<rparr>) ob)"
      "\<forall>b \<in> set ob. q b < 2 ^ 64" "sum_list (map q ob) \<le> sum_list (map p ob) + sum_list (map (\<lambda>b. unat (bt_dirbet b)) bets)" by blast
  let ?bets = "map (\<lambda>b. b\<lparr>bt_payout := of_nat (q b)\<rparr>) ob"
  let ?paid = "sum_list (map (\<lambda>b. unat (bt_payout b)) ?bets)"
  have paid: "?paid = sum_list (map q ob)" using q(2) by (simp add: comp_def unat_of_nat take_bit_nat_eq_self cong: map_cong)
  then have le: "?paid \<le> staked bets" using p(3) q(3) by (simp add: staked_split)
  have "sum_list (map bt_payout ?bets) = of_nat (sum_list (map q ob))" by (simp add: of_nat_sum_list comp_def)
  moreover have "sum_list (map (\<lambda>b. bt_dirbet b + bt_distbet b) bets) = of_nat (staked bets)" by (simp add: staked_def of_nat_sum_list)
  ultimately have "sum_list (map (\<lambda>b. bt_dirbet b + bt_distbet b) bets) - sum_list (map bt_payout ?bets) = (of_nat (staked bets - ?paid) :: u64)"
    using le paid by (simp add: of_nat_diff)
  then show ?thesis using le p(1) q(1) by (simp add: peggy_gamblers_def Let_def ob_def upd_bank_def)
qed

text \<open>Without a bet on the distance the settlement divides by zero.\<close>

lemma no_distance_bet_fails:
  assumes "bets \<noteq> []" and "\<forall>b \<in> set bets. bt_distbet b = 0"
  shows "peggy_gamblers PEGS T prevprice newprice (Some bets) = None"
proof -
  let ?ob = "map (open_bet T prevprice newprice) bets"
  have z: "fold (\<lambda>b best. if bt_distbet b \<noteq> 0 \<and> (best = 0 \<or> s_lt (bt_dist b) best) then bt_dist b else best) bs 0 = 0"
    if "\<forall>b \<in> set bs. bt_distbet b = 0" for bs using that by (induction bs) auto
  have best: "best_dist ?ob = 0" unfolding best_dist_def using assms(2) by (intro z) auto
  have d: "bt_dist b = 0 \<and> bt_distbet b = 0" if "b \<in> set ?ob" for b using that assms(2) dist_nonzero by auto
  have "map (\<lambda>b. if bt_dist b = 0 then bt_distbet b else 0) ?ob = map (\<lambda>b. 0) ?ob"
  proof (rule map_cong [OF refl])
    fix b assume "b \<in> set ?ob"
    from d [OF this] show "(if bt_dist b = 0 then bt_distbet b else 0) = 0" by simp
  qed
  then have w: "sum_list (map (\<lambda>b. if bt_dist b = 0 then bt_distbet b else 0) ?ob) = 0" by (simp only: sum_list_0)
  obtain b bs where ob: "?ob = b # bs" using assms(1) by (cases bets) auto
  have "those (map (pay_dist 0 l (0 + 0 div 100)) ?ob) = None" for l using d [of b] by (simp add: ob pay_dist_def udiv64_def)
  then show ?thesis by (simp only: peggy_gamblers_def option.case Let_def best w Option.bind.simps)
qed

section \<open>Smoothed prices stay in range\<close>

lemma coeff_sum: "sum_list (map uint peggy_smooth_coeffs) = 100000000000"
  by code_simp

lemma smooth_bounds:
  assumes "smooth_loop PEGS PEG minute cs acc den = Some (acc', den')"
    and "\<forall>j q. s_lt 0 j \<longrightarrow> peggy_price PEGS PEG j = Some q \<longrightarrow> q = 0 \<or> lo \<le> unat q \<and> unat q \<le> hi"
    and "lo * unat den \<le> unat acc" "unat acc \<le> hi * unat den" "hi * (unat den + sum_list (map (unat \<circ> snd) cs)) < 2 ^ 64" "0 < hi"
  shows "lo * unat den' \<le> unat acc' \<and> unat acc' \<le> hi * unat den' \<and> unat den \<le> unat den'"
  using assms(1,3-)
proof (induction cs arbitrary: acc den)
  case (Cons ic cs)
  obtain i c where ic: "ic = (i, c)" by (cases ic)
  let ?j = "minute - of_nat i"
  show ?case
  proof (cases "s_lt 0 ?j")
    case True
    then obtain q where q: "peggy_price PEGS PEG ?j = Some q" using Cons.prems(1) by (auto simp: ic Let_def bind_Some_conv)
    show ?thesis
    proof (cases "q = 0")
      case True
      with Cons.IH [of acc den] Cons.prems q \<open>s_lt 0 ?j\<close> show ?thesis by (simp add: ic Let_def algebra_simps)
    next
      case False
      have r: "lo \<le> unat q" "unat q \<le> hi" using assms(2) True q False by auto
      have bnd: "hi * (unat den + unat c) < 2 ^ 64" using Cons.prems(4) by (simp add: ic algebra_simps)
      have "unat den + unat c \<le> hi * (unat den + unat c)" using Cons.prems(5) by (cases hi) auto
      then have den: "unat (den + c) = unat den + unat c" using bnd by (intro unat_add64) linarith
      have cq: "lo * unat c \<le> unat c * unat q" "unat c * unat q \<le> hi * unat c" using r by (simp_all add: mult.commute)
      have sum: "hi * (unat den + unat c) = hi * unat den + hi * unat c" by (rule distrib_left)
      have "unat (c * q) = unat c * unat q" using cq(2) bnd sum by (intro unat_mult64) linarith
      moreover have "unat acc + unat c * unat q < 2 ^ 64" using cq(2) Cons.prems(3) bnd sum by linarith
      ultimately have acc: "unat (acc + c * q) = unat acc + unat c * unat q" by (subst unat_add64) simp_all
      have "lo * unat (den + c) \<le> unat (acc + c * q)" "unat (acc + c * q) \<le> hi * unat (den + c)"
        unfolding den acc distrib_left using cq Cons.prems(2,3) by linarith+
      with Cons.IH [of "acc + c * q" "den + c"] Cons.prems q \<open>s_lt 0 ?j\<close> False den show ?thesis
        by (simp add: ic Let_def algebra_simps)
    qed
  next
    case False
    with Cons.prems show ?thesis by (simp add: ic Let_def)
  qed
qed simp

lemma small_sint:
  assumes "unat (x :: i64) < 2 ^ 63"
  shows "sint x = int (unat x)"
proof -
  have "uint x = int (unat x)" by simp
  moreover have "int (unat x) < int (2 ^ 63)" using assms by (simp only: of_nat_less_iff)
  then have "uint x < 2 ^ 63" by simp
  ultimately show ?thesis using sint_word64 [of x] by presburger
qed

text \<open>The division by 8 of a small number.\<close>

lemma sdiv64_small:
  assumes "unat (x :: i64) < 2 ^ 63" "0 < n" "n < 2 ^ 63"
  shows "\<exists>q. sdiv64 x (of_nat n) = Some q \<and> unat q = unat x div n"
proof -
  have n: "unat (of_nat n :: i64) = n" using assms(3) by (simp add: unat_of_nat take_bit_nat_eq_self)
  have "(of_nat n :: i64) \<noteq> 0" using n assms(2) by (metis less_not_refl unat_0)
  moreover have "x \<noteq> - (2 ^ 63)"
  proof
    assume "x = - (2 ^ 63)"
    then have "unat x = 2 ^ 63" by simp
    with assms(1) show False by simp
  qed
  moreover have "sint x sdiv sint (of_nat n :: i64) = int (unat x div n)"
    using small_sint [OF assms(1)] small_sint [of "of_nat n"] n assms(2,3) by (cases "x = 0") (simp_all add: signed_divide_int_def zdiv_int)
  ultimately have "sdiv64 x (of_nat n) = Some (word_of_int (int (unat x div n)))" by (simp add: sdiv64_def)
  moreover have "unat (word_of_int (int (unat x div n)) :: i64) = unat x div n"
  proof -
    have "unat x div n < 2 ^ 64" using assms(1) by (intro le_less_trans [OF div_le_dividend]) simp
    then show ?thesis by (simp add: unat_of_nat take_bit_nat_eq_self)
  qed
  ultimately show ?thesis by blast
qed

lemma mean_bounds: "lo * d \<le> t \<Longrightarrow> t \<le> hi * d \<Longrightarrow> 0 < d \<Longrightarrow> lo \<le> t div d \<and> t div d \<le> (hi :: nat)"
  by (metis div_le_mono less_not_refl nonzero_mult_div_cancel_right)

lemma seven_eighths: "lo \<le> a \<Longrightarrow> a \<le> hi \<Longrightarrow> lo \<le> b \<Longrightarrow> b \<le> hi \<Longrightarrow> lo \<le> (a * 7 + b) div 8 \<and> (a * 7 + b) div 8 \<le> (hi :: nat)"
  by linarith

lemma first_coeff: "peggy_smooth_coeffs ! 0 = 962714545" "peggy_smooth_coeffs = 962714545 # tl peggy_smooth_coeffs"
  by (simp_all add: peggy_smooth_coeffs_def)

lemma coeff_total: "unat (peggy_smooth_coeffs ! 0) + sum_list (map (unat \<circ> snd) (enumerate 1 (tl peggy_smooth_coeffs))) = 100000000000"
proof -
  have "map (unat \<circ> snd) (enumerate 1 (tl peggy_smooth_coeffs)) = map unat (map snd (enumerate 1 (tl peggy_smooth_coeffs)))" by (rule map_map [symmetric])
  also have "map snd (enumerate 1 (tl peggy_smooth_coeffs)) = tl peggy_smooth_coeffs" by (rule map_snd_enumerate)
  finally have "unat (peggy_smooth_coeffs ! 0) + sum_list (map (unat \<circ> snd) (enumerate 1 (tl peggy_smooth_coeffs))) = unat (peggy_smooth_coeffs ! 0) + sum_list (map unat (tl peggy_smooth_coeffs))"
    by (simp only:)
  also have "\<dots> = sum_list (map unat (962714545 # tl peggy_smooth_coeffs))" by (simp add: first_coeff(1))
  finally have "unat (peggy_smooth_coeffs ! 0) + sum_list (map (unat \<circ> snd) (enumerate 1 (tl peggy_smooth_coeffs))) = sum_list (map unat (962714545 # tl peggy_smooth_coeffs))" .
  moreover have "int (sum_list (map unat cs)) = sum_list (map uint cs)" for cs :: "u64 list" by (induction cs) auto
  then have "int (sum_list (map unat peggy_smooth_coeffs)) = 100000000000" by (simp add: coeff_sum)
  ultimately show ?thesis using first_coeff(2) by simp
qed

text \<open>
  C21. Up to a price of 184467440 (18.4 in units of the price resolution) the weighted sum does not
  overflow: the smoothed price lies between the lowest and the highest of the vote and the prices
  before it.
\<close>

theorem newprice_in_range:
  assumes run: "peggy_newprice PEGS p T newpval = Some (PEGS', newprice)" and PEG: "aget (ps_contracts PEGS) (int p) = Some PEG"
    and v: "newpval \<noteq> 0" "lo \<le> unat newpval" "unat newpval \<le> hi" and hi: "hi \<le> 184467440"
    and old: "\<forall>j q. s_lt 0 j \<longrightarrow> peggy_price PEGS PEG j = Some q \<longrightarrow> q = 0 \<or> lo \<le> unat q \<and> unat q \<le> hi"
  shows "lo \<le> unat newprice \<and> unat newprice \<le> hi"
proof -
  let ?c = "peggy_smooth_coeffs ! 0" let ?v = "ucast newpval :: u64"
  have uv: "unat ?v = unat newpval" using unsigned_less [where ?'a = nat and ?'b = 32, of newpval] by (simp add: unsigned_ucast_eq take_bit_nat_eq_self)
  have hi0: "0 < hi" using v by (metis gr0I le_zero_eq unat_eq_zero)
  from run obtain total den gap where s: "smooth_loop PEGS PEG ((pt_blocktimestamp T - pg_genesistime PEG) div PEGGY_MINUTE)
      (enumerate 1 (tl peggy_smooth_coeffs)) (?c * ?v) ?c = Some (total, den)"
    and n: "(if den \<noteq> 0 then (let price = total div den; diff = price - ?v; diff = (if s_lt diff 0 then - diff else diff)
        in if diff < gap then Some price else sdiv64 (price * 7 + ?v) 8) else Some ?v) = Some newprice"
    using PEG v(1) by (auto simp: peggy_newprice_def Let_def bind_Some_conv)
  have "unat ?c * unat ?v \<le> 962714545 * 184467440" using v(3) hi by (intro mult_le_mono) (simp_all add: first_coeff(1) uv)
  then have cv: "unat (?c * ?v) = unat ?c * unat newpval" using uv by (subst unat_mult64) simp_all
  have "hi * 100000000000 \<le> 184467440 * 100000000000" using hi by (rule mult_right_mono) simp
  then have "hi * (unat ?c + sum_list (map (unat \<circ> snd) (enumerate 1 (tl peggy_smooth_coeffs)))) < 2 ^ 64" unfolding coeff_total by simp
  from smooth_bounds [OF s old _ _ this hi0] have b: "lo * unat den \<le> unat total" "unat total \<le> hi * unat den" "unat ?c \<le> unat den"
    using v unfolding cv by (simp_all add: mult.commute)
  then have d: "0 < unat den" by (simp add: first_coeff(1))
  then have price: "lo \<le> unat (total div den)" "unat (total div den) \<le> hi" using mean_bounds [OF b(1,2)] by (simp_all add: unat_div)
  have "unat (total div den * 7 + ?v) = unat (total div den) * 7 + unat newpval"
    using price(2) v(3) hi uv by (subst unat_add64) (simp_all add: unat_mult64)
  with sdiv64_small [of "total div den * 7 + ?v" 8] price v(2,3) hi obtain q where
    q: "sdiv64 (total div den * 7 + ?v) 8 = Some q" "unat q = (unat (total div den) * 7 + unat newpval) div 8" by auto
  have "lo \<le> unat q \<and> unat q \<le> hi" unfolding q(2) using price v(2,3) by (intro seven_eighths)
  then show ?thesis using n q(1) price d by (auto simp: Let_def split: if_splits)
qed

section \<open>An example\<close>

definition zero_margin :: peggy_margin where
  "zero_margin = \<lparr>mg_deposits = 0, mg_margindeposits = 0, mg_marginvalue = 0\<rparr>"

definition zero_balances :: peggy_balances where
  "zero_balances = \<lparr>bl_funds = zero_margin, bl_privatebetfees = 0, bl_crypto777_royalty = 0, bl_APRfund = 0, bl_APRfund_reserved = 0\<rparr>"

definition demo_peg :: "string \<Rightarrow> i16 \<Rightarrow> i16 \<Rightarrow> i16 \<Rightarrow> peggy" where
  "demo_peg s i base rel = \<lparr>pg_name = \<lparr>ds_name = s, ds_assetbits = peggy_assetbits s, ds_id = i, ds_baseid = base, ds_relid = rel, ds_hasprice = 1, ds_enabled = 1\<rparr>,
     pg_pool = \<lparr>pl_funds = zero_margin, pl_liability = zero_units, pl_quorum = 1, pl_decisionthreshold = 1, pl_mainunitsize = 1000\<rparr>,
     pg_lockparms = zero_lock\<lparr>lk_minlockdays := 7, lk_maxlockdays := 180, lk_extralockdays := 6\<rparr>,
     pg_maxsupply = 100000000000000, pg_maxnetbalance = 10000000000000, pg_spread = 100045, pg_mindenomination = 0, pg_genesisprice = 20000000, pg_price = 20000000,
     pg_dayprice = 20000000, pg_day = 0, pg_genesistime = 0, pg_maxdailyrate = 0, pg_unitincr = 100000000, pg_dayprices = [20000000, 20000000, 20000000],
     pg_baseprices = 0, pg_relprices = None, pg_RTminute = 3\<rparr>"

definition demo_PEGS :: "unit peggy_info" where
  "demo_PEGS = \<lparr>ps_bank = zero_balances, ps_basereserves = replicate 2 zero_balances, ps_interesttenths = 0, ps_posboost = 1, ps_negpenalty = 1, ps_feediv = 10, ps_feemult = 1,
     ps_contracts = [demo_peg ''BTCD'' 0 0 1, demo_peg ''USD'' 1 1 0], ps_prices = [[20000000, 20000000, 20000000, 20000000, 0]],
     ps_accts = \<lparr>ac_units = [], ac_hashaddrs = None\<rparr>\<rparr>"

definition demo_time :: peggy_time where "demo_time = \<lparr>pt_blocknum = 0, pt_blocktimestamp = 240\<rparr>"

lemma demo_create:
  "map_option (\<lambda>(P, s). (s, length (ac_units (ps_accts P)))) (peggy_createunit demo_PEGS demo_time False 0 (Some ''USD'')
     (replicate 32 7) (zero_lock\<lparr>lk_denom := 1, lk_minlockdays := 7, lk_maxlockdays := 30\<rparr>) 300000000 0) = Some (201908000, 1)"
  by code_simp

theorem books_balance_witness: "\<exists>P. peggy_runs demo_PEGS P \<and> balanced P \<and> length (ac_units (ps_accts P)) = 1"
proof -
  obtain P s where P: "peggy_createunit demo_PEGS demo_time False 0 (Some ''USD'') (replicate 32 7)
      (zero_lock\<lparr>lk_denom := 1, lk_minlockdays := 7, lk_maxlockdays := 30\<rparr>) 300000000 0 = Some (P, s)" "length (ac_units (ps_accts P)) = 1"
    using demo_create by auto
  have "peggy_runs demo_PEGS P" by (rule peggy_runs.create [OF peggy_runs.start P(1)])
  moreover have "balanced demo_PEGS" by (simp add: balanced_def fund_kinds_def demo_PEGS_def zero_balances_def zero_margin_def demo_peg_def numeral_2_eq_2)
  ultimately show ?thesis using books_balance [of demo_PEGS P] P(2) by blast
qed

definition demo_bets :: "peggy_bet list" where
  "demo_bets = [\<lparr>bt_prediction = 100, bt_distbet = 500, bt_dirbet = 300, bt_payout = 0, bt_shares = 0, bt_dist = 0, bt_timestamp = 0, bt_minutes = 0\<rparr>,
     \<lparr>bt_prediction = 50, bt_distbet = 700, bt_dirbet = 200, bt_payout = 0, bt_shares = 0, bt_dist = 0, bt_timestamp = 60, bt_minutes = 0\<rparr>]"

theorem payouts_within_stakes_witness:
  "\<exists>PEGS' bets'. peggy_gamblers demo_PEGS demo_time 80 101 (Some demo_bets) = Some (PEGS', Some bets', 0)
    \<and> sum_list (map (\<lambda>b. unat (bt_payout b)) bets') \<le> 1700"
proof -
  have "staked demo_bets = 1700" by (simp add: staked_def demo_bets_def)
  moreover have "bets_fit demo_time 5 demo_bets"
    unfolding bets_fit_def \<open>staked demo_bets = 1700\<close> by (simp add: demo_bets_def demo_time_def PEGGY_MINUTE_def unat_div)
  moreover have "\<exists>b \<in> set demo_bets. bt_distbet b \<noteq> 0" by (simp add: demo_bets_def)
  ultimately show ?thesis using payouts_within_stakes [of demo_time 5 demo_bets demo_PEGS 80 101] by auto
qed

lemma last_price_member: "last_price prices m = Some (q, k) \<Longrightarrow> q \<in> set prices"
proof (induction m)
  case 0
  then show ?case by (auto simp: bind_Some_conv dest!: aget_SomeD split: if_splits)
next
  case (Suc m)
  then show ?case by (subst (asm) last_price.simps) (auto simp: bind_Some_conv simp del: last_price.simps dest!: aget_SomeD split: if_splits)
qed

lemma price_member:
  assumes "peggy_price PEGS PEG j = Some q" "ds_hasprice (pg_name PEG) \<noteq> 0" "aget (ps_prices PEGS) (int (pg_baseprices PEG)) = Some prices"
  shows "\<exists>r \<in> set prices. q = ucast r"
  using assms last_price_member [of prices] by (auto simp: peggy_price_def Let_def bind_Some_conv simp del: last_price.simps split: if_splits)

lemma demo_newprice: "\<not> Option.is_none (peggy_newprice demo_PEGS 1 demo_time 20000100)"
  by code_simp

theorem newprice_in_range_witness:
  "\<exists>P q. peggy_newprice demo_PEGS 1 demo_time 20000100 = Some (P, q) \<and> 20000000 \<le> unat q \<and> unat q \<le> 20000100"
proof -
  obtain P q where P: "peggy_newprice demo_PEGS 1 demo_time 20000100 = Some (P, q)" using demo_newprice by (auto simp: Option.is_none_def)
  have PEG: "aget (ps_contracts demo_PEGS) (int 1) = Some (demo_peg ''USD'' 1 1 0)" by (simp add: aget_def demo_PEGS_def)
  have "\<forall>j q. s_lt 0 j \<longrightarrow> peggy_price demo_PEGS (demo_peg ''USD'' 1 1 0) j = Some q \<longrightarrow> q = 0 \<or> 20000000 \<le> unat q \<and> unat q \<le> 20000100"
    using price_member [of demo_PEGS "demo_peg ''USD'' 1 1 0"] by (fastforce simp: demo_peg_def demo_PEGS_def aget_def)
  from newprice_in_range [OF P PEG _ _ _ _ this] P show ?thesis by simp
qed

end
