(* ===== verification/Galois777.thy ===== *)
theory Galois777
  imports Prelude777
begin

text \<open>
  The arithmetic behind \<open>utils/libgfshare.c\<close>: the tables of logarithms and powers, the field with 256
  elements that they compute in, and the polynomials over a field with their interpolation. Bytes
  are added with exclusive or and multiplied by adding logarithms; the tables are those of
  the generator 2 modulo \<open>x ^ 8 + x ^ 4 + x ^ 3 + x ^ 2 + 1\<close>.
\<close>

section \<open>The tables\<close>

definition ctx_logs :: "u8 list" where
  "ctx_logs = [
     0x00, 0x00, 0x01, 0x19, 0x02, 0x32, 0x1a, 0xc6, 0x03, 0xdf, 0x33, 0xee, 0x1b, 0x68, 0xc7, 0x4b,
     0x04, 0x64, 0xe0, 0x0e, 0x34, 0x8d, 0xef, 0x81, 0x1c, 0xc1, 0x69, 0xf8, 0xc8, 0x08, 0x4c, 0x71,
     0x05, 0x8a, 0x65, 0x2f, 0xe1, 0x24, 0x0f, 0x21, 0x35, 0x93, 0x8e, 0xda, 0xf0, 0x12, 0x82, 0x45,
     0x1d, 0xb5, 0xc2, 0x7d, 0x6a, 0x27, 0xf9, 0xb9, 0xc9, 0x9a, 0x09, 0x78, 0x4d, 0xe4, 0x72, 0xa6,
     0x06, 0xbf, 0x8b, 0x62, 0x66, 0xdd, 0x30, 0xfd, 0xe2, 0x98, 0x25, 0xb3, 0x10, 0x91, 0x22, 0x88,
     0x36, 0xd0, 0x94, 0xce, 0x8f, 0x96, 0xdb, 0xbd, 0xf1, 0xd2, 0x13, 0x5c, 0x83, 0x38, 0x46, 0x40,
     0x1e, 0x42, 0xb6, 0xa3, 0xc3, 0x48, 0x7e, 0x6e, 0x6b, 0x3a, 0x28, 0x54, 0xfa, 0x85, 0xba, 0x3d,
     0xca, 0x5e, 0x9b, 0x9f, 0x0a, 0x15, 0x79, 0x2b, 0x4e, 0xd4, 0xe5, 0xac, 0x73, 0xf3, 0xa7, 0x57,
     0x07, 0x70, 0xc0, 0xf7, 0x8c, 0x80, 0x63, 0x0d, 0x67, 0x4a, 0xde, 0xed, 0x31, 0xc5, 0xfe, 0x18,
     0xe3, 0xa5, 0x99, 0x77, 0x26, 0xb8, 0xb4, 0x7c, 0x11, 0x44, 0x92, 0xd9, 0x23, 0x20, 0x89, 0x2e,
     0x37, 0x3f, 0xd1, 0x5b, 0x95, 0xbc, 0xcf, 0xcd, 0x90, 0x87, 0x97, 0xb2, 0xdc, 0xfc, 0xbe, 0x61,
     0xf2, 0x56, 0xd3, 0xab, 0x14, 0x2a, 0x5d, 0x9e, 0x84, 0x3c, 0x39, 0x53, 0x47, 0x6d, 0x41, 0xa2,
     0x1f, 0x2d, 0x43, 0xd8, 0xb7, 0x7b, 0xa4, 0x76, 0xc4, 0x17, 0x49, 0xec, 0x7f, 0x0c, 0x6f, 0xf6,
     0x6c, 0xa1, 0x3b, 0x52, 0x29, 0x9d, 0x55, 0xaa, 0xfb, 0x60, 0x86, 0xb1, 0xbb, 0xcc, 0x3e, 0x5a,
     0xcb, 0x59, 0x5f, 0xb0, 0x9c, 0xa9, 0xa0, 0x51, 0x0b, 0xf5, 0x16, 0xeb, 0x7a, 0x75, 0x2c, 0xd7,
     0x4f, 0xae, 0xd5, 0xe9, 0xe6, 0xe7, 0xad, 0xe8, 0x74, 0xd6, 0xf4, 0xea, 0xa8, 0x50, 0x58, 0xaf]"

definition ctx_exps :: "u8 list" where
  "ctx_exps = [
     0x01, 0x02, 0x04, 0x08, 0x10, 0x20, 0x40, 0x80, 0x1d, 0x3a, 0x74, 0xe8, 0xcd, 0x87, 0x13, 0x26,
     0x4c, 0x98, 0x2d, 0x5a, 0xb4, 0x75, 0xea, 0xc9, 0x8f, 0x03, 0x06, 0x0c, 0x18, 0x30, 0x60, 0xc0,
     0x9d, 0x27, 0x4e, 0x9c, 0x25, 0x4a, 0x94, 0x35, 0x6a, 0xd4, 0xb5, 0x77, 0xee, 0xc1, 0x9f, 0x23,
     0x46, 0x8c, 0x05, 0x0a, 0x14, 0x28, 0x50, 0xa0, 0x5d, 0xba, 0x69, 0xd2, 0xb9, 0x6f, 0xde, 0xa1,
     0x5f, 0xbe, 0x61, 0xc2, 0x99, 0x2f, 0x5e, 0xbc, 0x65, 0xca, 0x89, 0x0f, 0x1e, 0x3c, 0x78, 0xf0,
     0xfd, 0xe7, 0xd3, 0xbb, 0x6b, 0xd6, 0xb1, 0x7f, 0xfe, 0xe1, 0xdf, 0xa3, 0x5b, 0xb6, 0x71, 0xe2,
     0xd9, 0xaf, 0x43, 0x86, 0x11, 0x22, 0x44, 0x88, 0x0d, 0x1a, 0x34, 0x68, 0xd0, 0xbd, 0x67, 0xce,
     0x81, 0x1f, 0x3e, 0x7c, 0xf8, 0xed, 0xc7, 0x93, 0x3b, 0x76, 0xec, 0xc5, 0x97, 0x33, 0x66, 0xcc,
     0x85, 0x17, 0x2e, 0x5c, 0xb8, 0x6d, 0xda, 0xa9, 0x4f, 0x9e, 0x21, 0x42, 0x84, 0x15, 0x2a, 0x54,
     0xa8, 0x4d, 0x9a, 0x29, 0x52, 0xa4, 0x55, 0xaa, 0x49, 0x92, 0x39, 0x72, 0xe4, 0xd5, 0xb7, 0x73,
     0xe6, 0xd1, 0xbf, 0x63, 0xc6, 0x91, 0x3f, 0x7e, 0xfc, 0xe5, 0xd7, 0xb3, 0x7b, 0xf6, 0xf1, 0xff,
     0xe3, 0xdb, 0xab, 0x4b, 0x96, 0x31, 0x62, 0xc4, 0x95, 0x37, 0x6e, 0xdc, 0xa5, 0x57, 0xae, 0x41,
     0x82, 0x19, 0x32, 0x64, 0xc8, 0x8d, 0x07, 0x0e, 0x1c, 0x38, 0x70, 0xe0, 0xdd, 0xa7, 0x53, 0xa6,
     0x51, 0xa2, 0x59, 0xb2, 0x79, 0xf2, 0xf9, 0xef, 0xc3, 0x9b, 0x2b, 0x56, 0xac, 0x45, 0x8a, 0x09,
     0x12, 0x24, 0x48, 0x90, 0x3d, 0x7a, 0xf4, 0xf5, 0xf7, 0xf3, 0xfb, 0xeb, 0xcb, 0x8b, 0x0b, 0x16,
     0x2c, 0x58, 0xb0, 0x7d, 0xfa, 0xe9, 0xcf, 0x83, 0x1b, 0x36, 0x6c, 0xd8, 0xad, 0x47, 0x8e, 0x01,
     0x02, 0x04, 0x08, 0x10, 0x20, 0x40, 0x80, 0x1d, 0x3a, 0x74, 0xe8, 0xcd, 0x87, 0x13, 0x26, 0x4c,
     0x98, 0x2d, 0x5a, 0xb4, 0x75, 0xea, 0xc9, 0x8f, 0x03, 0x06, 0x0c, 0x18, 0x30, 0x60, 0xc0, 0x9d,
     0x27, 0x4e, 0x9c, 0x25, 0x4a, 0x94, 0x35, 0x6a, 0xd4, 0xb5, 0x77, 0xee, 0xc1, 0x9f, 0x23, 0x46,
     0x8c, 0x05, 0x0a, 0x14, 0x28, 0x50, 0xa0, 0x5d, 0xba, 0x69, 0xd2, 0xb9, 0x6f, 0xde, 0xa1, 0x5f,
     0xbe, 0x61, 0xc2, 0x99, 0x2f, 0x5e, 0xbc, 0x65, 0xca, 0x89, 0x0f, 0x1e, 0x3c, 0x78, 0xf0, 0xfd,
     0xe7, 0xd3, 0xbb, 0x6b, 0xd6, 0xb1, 0x7f, 0xfe, 0xe1, 0xdf, 0xa3, 0x5b, 0xb6, 0x71, 0xe2, 0xd9,
     0xaf, 0x43, 0x86, 0x11, 0x22, 0x44, 0x88, 0x0d, 0x1a, 0x34, 0x68, 0xd0, 0xbd, 0x67, 0xce, 0x81,
     0x1f, 0x3e, 0x7c, 0xf8, 0xed, 0xc7, 0x93, 0x3b, 0x76, 0xec, 0xc5, 0x97, 0x33, 0x66, 0xcc, 0x85,
     0x17, 0x2e, 0x5c, 0xb8, 0x6d, 0xda, 0xa9, 0x4f, 0x9e, 0x21, 0x42, 0x84, 0x15, 0x2a, 0x54, 0xa8,
     0x4d, 0x9a, 0x29, 0x52, 0xa4, 0x55, 0xaa, 0x49, 0x92, 0x39, 0x72, 0xe4, 0xd5, 0xb7, 0x73, 0xe6,
     0xd1, 0xbf, 0x63, 0xc6, 0x91, 0x3f, 0x7e, 0xfc, 0xe5, 0xd7, 0xb3, 0x7b, 0xf6, 0xf1, 0xff, 0xe3,
     0xdb, 0xab, 0x4b, 0x96, 0x31, 0x62, 0xc4, 0x95, 0x37, 0x6e, 0xdc, 0xa5, 0x57, 0xae, 0x41, 0x82,
     0x19, 0x32, 0x64, 0xc8, 0x8d, 0x07, 0x0e, 0x1c, 0x38, 0x70, 0xe0, 0xdd, 0xa7, 0x53, 0xa6, 0x51,
     0xa2, 0x59, 0xb2, 0x79, 0xf2, 0xf9, 0xef, 0xc3, 0x9b, 0x2b, 0x56, 0xac, 0x45, 0x8a, 0x09, 0x12,
     0x24, 0x48, 0x90, 0x3d, 0x7a, 0xf4, 0xf5, 0xf7, 0xf3, 0xfb, 0xeb, 0xcb, 0x8b, 0x0b, 0x16, 0x2c,
     0x58, 0xb0, 0x7d, 0xfa, 0xe9, 0xcf, 0x83, 0x1b, 0x36, 0x6c, 0xd8, 0xad, 0x47, 0x8e]"

text \<open>Multiplication by the generator, and the powers of the generator.\<close>

definition xtime :: "u8 \<Rightarrow> u8" where
  "xtime b = push_bit 1 b XOR (if bit b 7 then 0x1d else 0)"

fun xtimes :: "nat \<Rightarrow> u8 \<Rightarrow> u8 list" where
  "xtimes 0 b = []"
| "xtimes (Suc n) b = b # xtimes n (xtime b)"

lemma length_xtimes [simp]: "length (xtimes n b) = n"
  by (induction n arbitrary: b) simp_all

lemma xtimes_nth: "i < n \<Longrightarrow> xtimes n b ! i = (xtime ^^ i) b"
proof (induction n arbitrary: b i)
  case (Suc n)
  then show ?case by (cases i) (simp_all add: funpow_swap1)
qed simp

lemma ctx_exps_powers: "ctx_exps = xtimes 510 1"
  by code_simp

lemma ctx_exps_logs: "map (\<lambda>l. ctx_exps ! unat l) (tl ctx_logs) = map word_of_nat [1..<256]"
  by code_simp

lemma ctx_logs_small: "list_all (\<lambda>l. l < 255) ctx_logs"
  by code_simp

lemma length_ctx_exps [simp]: "length ctx_exps = 510"
  by (simp add: ctx_exps_powers)

lemma length_ctx_logs [simp]: "length ctx_logs = 256"
  by (simp add: ctx_logs_def)

lemma ctx_exps_nth: "i < 510 \<Longrightarrow> ctx_exps ! i = (xtime ^^ i) 1"
  by (simp add: ctx_exps_powers xtimes_nth)

text \<open>The logarithm of a byte; that of 0 is 0 in the table.\<close>

definition glog :: "u8 \<Rightarrow> nat" where
  "glog b = unat (ctx_logs ! unat b)"

lemma unat_u8 [simp]: "unat (b :: u8) < 256"
proof -
  have "unat b < 2 ^ LENGTH(8)" by (rule unsigned_less)
  then show ?thesis by simp
qed

lemma glog_less [simp]: "glog b < 255"
proof -
  have "ctx_logs ! unat b < 255"
    using ctx_logs_small by (simp add: list_all_length)
  then show ?thesis by (simp add: glog_def word_less_nat_alt)
qed

lemma xtime_glog:
  assumes "b \<noteq> 0"
  shows "(xtime ^^ glog b) 1 = b"
proof -
  have b: "0 < unat b" using assms by (simp add: unat_gt_0)
  have l: "unat b - 1 < 255" using unat_u8 [of b] b by linarith
  have "ctx_exps ! glog b = map (\<lambda>l. ctx_exps ! unat l) (tl ctx_logs) ! (unat b - 1)"
    using l b by (simp add: nth_tl glog_def)
  also have "\<dots> = b" unfolding ctx_exps_logs using l b by (simp del: upt_Suc)
  finally show ?thesis using glog_less [of b] by (simp add: ctx_exps_nth)
qed

text \<open>The period of the powers.\<close>

lemma xtime_255_1: "(xtime ^^ 255) 1 = 1"
  using ctx_exps_nth [of 255] by (simp add: ctx_exps_def)

lemma xtime_255: "(xtime ^^ 255) b = b"
proof (cases "b = 0")
  case True
  have "(xtime ^^ n) 0 = 0" for n by (induction n) (simp_all add: xtime_def)
  then show ?thesis using True by simp
next
  case False
  have "(xtime ^^ 255) ((xtime ^^ glog b) 1) = (xtime ^^ glog b) ((xtime ^^ 255) 1)"
    by (simp only: add.commute flip: funpow_add comp_apply [of "xtime ^^ _"])
  then have "(xtime ^^ 255) ((xtime ^^ glog b) 1) = (xtime ^^ glog b) 1" by (simp only: xtime_255_1)
  then show ?thesis by (simp only: xtime_glog [OF False])
qed

lemma xtime_xor: "xtime (a XOR b) = xtime a XOR xtime b"
  by (rule bit_word_eqI) (auto simp: xtime_def bit_simps)

lemma xtimes_xor: "(xtime ^^ n) (a XOR b) = (xtime ^^ n) a XOR (xtime ^^ n) b"
  by (induction n) (simp_all add: xtime_xor)

lemma xtimes_zero [simp]: "(xtime ^^ n) 0 = 0"
  using xtimes_xor [of n 0 0] by simp

section \<open>The field\<close>

datatype gf256 = Gf (ungf: u8)

definition gmul :: "u8 \<Rightarrow> u8 \<Rightarrow> u8" where
  "gmul a b = (if a = 0 \<or> b = 0 then 0 else ctx_exps ! (glog a + glog b))"

lemma gmul_commute: "gmul a b = gmul b a"
  by (simp add: gmul_def add.commute)

lemma gmul_xtimes:
  assumes "a \<noteq> 0"
  shows "gmul a b = (xtime ^^ glog a) b"
proof (cases "b = 0")
  case False
  have "glog a + glog b < 510" using glog_less [of a] glog_less [of b] by linarith
  then show ?thesis using assms False by (simp add: gmul_def ctx_exps_nth funpow_add xtime_glog)
qed (simp add: gmul_def)

lemma gmul_xor: "gmul a (b XOR c) = gmul a b XOR gmul a c"
  by (cases "a = 0") (simp_all add: gmul_xtimes xtimes_xor, simp add: gmul_def)

lemma gmul_one: "gmul 1 b = b"
proof -
  have "glog 1 = 0" by (simp add: glog_def ctx_logs_def)
  then show ?thesis using gmul_xtimes [of 1 b] by simp
qed

lemma gmul_assoc: "gmul (gmul a b) c = gmul a (gmul b c)"
proof (cases "a = 0 \<or> c = 0")
  case True
  then show ?thesis by (auto simp: gmul_def)
next
  case False
  have "gmul (gmul a b) c = gmul c (gmul a b)" by (rule gmul_commute)
  also have "\<dots> = (xtime ^^ (glog c + glog a)) b" using False by (simp add: gmul_xtimes funpow_add)
  also have "\<dots> = (xtime ^^ (glog a + glog c)) b" by (simp only: add.commute)
  also have "\<dots> = gmul a (gmul c b)" using False by (simp add: gmul_xtimes funpow_add)
  finally show ?thesis by (simp only: gmul_commute [of c b])
qed

definition ginv :: "u8 \<Rightarrow> u8" where
  "ginv a = (if a = 0 then 0 else ctx_exps ! (255 - glog a))"

lemma gmul_ginv:
  assumes "a \<noteq> 0"
  shows "gmul a (ginv a) = 1"
proof -
  have "gmul a (ginv a) = (xtime ^^ (glog a + (255 - glog a))) 1"
    using assms by (simp add: gmul_xtimes ginv_def ctx_exps_nth funpow_add)
  then show ?thesis using glog_less [of a] by (simp add: xtime_255_1)
qed

instantiation gf256 :: field
begin

definition zero_gf256 :: gf256 where "0 = Gf 0"
definition one_gf256 :: gf256 where "1 = Gf 1"
definition plus_gf256 :: "gf256 \<Rightarrow> gf256 \<Rightarrow> gf256" where "a + b = Gf (ungf a XOR ungf b)"
definition minus_gf256 :: "gf256 \<Rightarrow> gf256 \<Rightarrow> gf256" where "a - b = Gf (ungf a XOR ungf b)"
definition uminus_gf256 :: "gf256 \<Rightarrow> gf256" where "- a = (a :: gf256)"
definition times_gf256 :: "gf256 \<Rightarrow> gf256 \<Rightarrow> gf256" where "a * b = Gf (gmul (ungf a) (ungf b))"
definition inverse_gf256 :: "gf256 \<Rightarrow> gf256" where "inverse a = Gf (ginv (ungf a))"
definition divide_gf256 :: "gf256 \<Rightarrow> gf256 \<Rightarrow> gf256" where "a div b = Gf (gmul (ungf a) (ginv (ungf b)))"

lemmas gf256_defs = zero_gf256_def one_gf256_def plus_gf256_def minus_gf256_def uminus_gf256_def
  times_gf256_def inverse_gf256_def divide_gf256_def

instance
proof
  fix a b c :: gf256
  show "a * b * c = a * (b * c)" by (simp add: gf256_defs gmul_assoc)
  show "a * b = b * a" by (simp add: gf256_defs gmul_commute)
  show "1 * a = a" by (simp add: gf256_defs gmul_one)
  show "a + b + c = a + (b + c)" by (simp add: gf256_defs xor.assoc)
  show "a + b = b + a" by (simp add: gf256_defs xor.commute)
  show "0 + a = a" by (simp add: gf256_defs)
  show "- a + a = 0" by (simp add: gf256_defs)
  show "a - b = a + - b" by (simp add: gf256_defs)
  show "(a + b) * c = a * c + b * c"
    by (simp add: gf256_defs gmul_commute [of _ "ungf c"] gmul_xor)
  show "(0 :: gf256) \<noteq> 1" by (simp add: gf256_defs)
  show "a \<noteq> 0 \<Longrightarrow> inverse a * a = 1"
    by (cases a) (simp add: gf256_defs gmul_ginv gmul_commute [of "ginv _"])
  show "a div b = a * inverse b" by (simp add: gf256_defs)
  show "inverse (0 :: gf256) = 0" by (simp add: gf256_defs ginv_def)
qed

end

instantiation gf256 :: finite
begin

instance
proof
  have "(UNIV :: gf256 set) = range Gf" by (auto intro: gf256.exhaust)
  then show "finite (UNIV :: gf256 set)" by (metis finite_class.finite_UNIV finite_imageI)
qed

end

lemma Gf_xor: "Gf (a XOR b) = Gf a + Gf b"
  by (simp add: gf256_defs)

lemma Gf_0 [simp]: "Gf 0 = 0"
  by (simp add: gf256_defs)

lemma Gf_eq_0 [simp]: "Gf a = 0 \<longleftrightarrow> a = 0"
  by (simp add: zero_gf256_def del: Gf_0)

lemma gf_minus: "(a :: gf256) - b = a + b"
  by (simp add: gf256_defs)

text \<open>The powers of the generator as powers of the field.\<close>

lemma Gf_xtimes: "Gf ((xtime ^^ n) b) = Gf 2 ^ n * Gf b"
proof (induction n)
  case (Suc n)
  have "glog 2 = 1" by (simp add: glog_def ctx_logs_def)
  then have "xtime c = gmul 2 c" for c using gmul_xtimes [of 2 c] by simp
  then have "Gf (xtime c) = Gf 2 * Gf c" for c by (simp add: times_gf256_def)
  then show ?case using Suc.IH by (simp add: mult.assoc)
qed (simp add: gf256_defs gmul_one)

lemma gen_glog: "b \<noteq> 0 \<Longrightarrow> Gf 2 ^ glog b = Gf b"
  using Gf_xtimes [of "glog b" 1] by (simp add: xtime_glog flip: one_gf256_def)

lemma gen_255: "Gf 2 ^ 255 = 1"
  using Gf_xtimes [of 255 1] by (simp only: xtime_255_1 flip: one_gf256_def) simp

lemma gen_mod: "Gf 2 ^ (n mod 255) = Gf 2 ^ n"
proof -
  have "Gf 2 ^ n = Gf 2 ^ (255 * (n div 255) + n mod 255)" by simp
  also have "\<dots> = Gf 2 ^ (n mod 255)" by (simp only: power_add power_mult gen_255 power_one mult_1)
  finally show ?thesis by simp
qed

lemma gen_nonzero [simp]: "Gf 2 ^ n \<noteq> 0"
  by simp

lemma ctx_exps_gen:
  assumes "t < 255"
  shows "Gf (if b = 0 then 0 else ctx_exps ! (t + glog b)) = Gf 2 ^ t * Gf b"
proof (cases "b = 0")
  case False
  have "t + glog b < 510" using assms glog_less [of b] by linarith
  then show ?thesis using False
    by (simp add: ctx_exps_nth Gf_xtimes power_add gen_glog flip: one_gf256_def)
qed simp


section \<open>Polynomials and interpolation\<close>

text \<open>
  A polynomial is the list of its coefficients, the highest first; its value is computed by the rule
  of Horner, so that the last coefficient is the value at 0.
\<close>

definition horner :: "'a::comm_ring_1 list \<Rightarrow> 'a \<Rightarrow> 'a" where
  "horner cs x = foldl (\<lambda>s c. s * x + c) 0 cs"

lemma horner_Nil [simp]: "horner [] x = 0"
  by (simp add: horner_def)

lemma horner_snoc [simp]: "horner (cs @ [c]) x = horner cs x * x + c"
  by (simp add: horner_def)

lemma horner_zero_Cons [simp]: "horner (0 # cs) x = horner cs x"
  by (simp add: horner_def)

lemma horner_at_0: "cs \<noteq> [] \<Longrightarrow> horner cs 0 = last cs"
  by (cases cs rule: rev_cases) auto

lemma horner_add:
  "length cs = length ds \<Longrightarrow> horner (map2 (+) cs ds) x = horner cs x + horner ds x"
  by (induction cs ds rule: rev_induct2) (auto simp: algebra_simps)

lemma horner_scale: "horner (map ((*) a) cs) x = a * horner cs x"
  by (induction cs rule: rev_induct) (auto simp: algebra_simps)

text \<open>The functions that are given by polynomials with \<open>n\<close> coefficients.\<close>

definition polyfn :: "nat \<Rightarrow> ('a::comm_ring_1 \<Rightarrow> 'a) \<Rightarrow> bool" where
  "polyfn n f \<longleftrightarrow> (\<exists>cs. length cs = n \<and> f = horner cs)"

lemma polyfnI: "length cs = n \<Longrightarrow> (\<And>x. f x = horner cs x) \<Longrightarrow> polyfn n f"
  unfolding polyfn_def by blast

lemma polyfnE:
  assumes "polyfn n f"
  obtains cs where "length cs = n" and "f = horner cs"
  using assms unfolding polyfn_def by blast

lemma polyfn_horner: "polyfn (length cs) (horner cs)"
  by (rule polyfnI) simp_all

lemma polyfn_const: "polyfn 1 (\<lambda>x. c)"
  by (rule polyfnI [of "[] @ [c]"]) (simp_all del: append_Nil)

lemma polyfn_zero: "polyfn n (\<lambda>x. 0)"
proof (rule polyfnI)
  show "0 = horner (replicate n 0) x" for x :: 'a by (induction n) simp_all
qed simp

lemma polyfn_add: "polyfn n f \<Longrightarrow> polyfn n g \<Longrightarrow> polyfn n (\<lambda>x. f x + g x)"
proof (elim polyfnE)
  fix cs ds assume "length cs = n" "f = horner cs" "length ds = n" "g = horner ds"
  then show ?thesis by (intro polyfnI [of "map2 (+) cs ds"]) (simp_all add: horner_add)
qed

lemma polyfn_scale: "polyfn n f \<Longrightarrow> polyfn n (\<lambda>x. a * f x)"
proof (elim polyfnE)
  fix cs assume "length cs = n" "f = horner cs"
  then show ?thesis by (intro polyfnI [of "map ((*) a) cs"]) (simp_all add: horner_scale)
qed

lemma polyfn_diff: "polyfn n f \<Longrightarrow> polyfn n g \<Longrightarrow> polyfn n (\<lambda>x. f x - g x)"
  using polyfn_add [OF _ polyfn_scale [of n g "- 1"], of f] by simp

lemma polyfn_Suc: "polyfn n f \<Longrightarrow> polyfn (Suc n) f"
  by (elim polyfnE, rule polyfnI [of "0 # _"]) auto

lemma polyfn_times_id: "polyfn n f \<Longrightarrow> polyfn (Suc n) (\<lambda>x. f x * x + c)"
  by (elim polyfnE, rule polyfnI [of "_ @ [c]"]) auto

lemma polyfn_times_root: "polyfn n f \<Longrightarrow> polyfn (Suc n) (\<lambda>x. f x * (x - a))"
  using polyfn_diff [OF polyfn_times_id [of n f 0] polyfn_Suc [OF polyfn_scale [of n f a]]]
  by (simp add: algebra_simps)

lemma polyfn_sum: "finite A \<Longrightarrow> (\<And>a. a \<in> A \<Longrightarrow> polyfn n (f a)) \<Longrightarrow> polyfn n (\<lambda>x. \<Sum>a \<in> A. f a x)"
  by (induction A rule: finite_induct) (auto intro: polyfn_zero polyfn_add)

lemma polyfn_roots: "finite A \<Longrightarrow> polyfn (Suc (card A)) (\<lambda>x. \<Prod>a \<in> A. (x - a))"
proof (induction A rule: finite_induct)
  case empty
  then show ?case using polyfn_const [of 1] by simp
next
  case (insert b A)
  then show ?case using polyfn_times_root [OF insert.IH, of b] by (simp add: mult.commute)
qed

text \<open>Division by a linear factor, and the bound on the number of roots.\<close>

lemma horner_factor: "\<exists>g. polyfn (length cs - 1) g \<and> (\<forall>x. horner cs x - horner cs a = g x * (x - a))"
proof (induction cs rule: rev_induct)
  case Nil
  then show ?case using polyfn_zero [of 0] by auto
next
  case (snoc c cs)
  then obtain g where g: "polyfn (length cs - 1) g" "\<forall>x. horner cs x - horner cs a = g x * (x - a)" by blast
  show ?case
  proof (cases "cs = []")
    case True
    then show ?thesis using polyfn_zero [of 0] by (auto simp: horner_def)
  next
    case False
    have h: "horner cs x = g x * (x - a) + horner cs a" for x using g(2) by (simp add: algebra_simps)
    have "horner cs x * x - horner cs a * a = (g x * x + horner cs a) * (x - a)" for x
      by (subst h [of x]) (simp add: algebra_simps)
    moreover have "polyfn (length cs) (\<lambda>x. g x * x + horner cs a)"
      using polyfn_times_id [OF g(1), of "horner cs a"] False by (cases cs) simp_all
    ultimately show ?thesis by (intro exI conjI) auto
  qed
qed

lemma polyfn_zero_everywhere:
  fixes f :: "'a::idom \<Rightarrow> 'a"
  assumes "polyfn n f" and "finite A" and "n \<le> card A" and "\<forall>a \<in> A. f a = 0"
  shows "f x = 0"
  using assms
proof (induction n arbitrary: f A x)
  case 0
  then show ?case by (auto elim: polyfnE)
next
  case (Suc n)
  from Suc.prems obtain a where a: "a \<in> A" by (metis card.empty all_not_in_conv not_less_eq_eq le0 Suc_n_not_le_n)
  from Suc.prems(1) obtain cs where cs: "length cs = Suc n" "f = horner cs" by (rule polyfnE)
  obtain g where g: "polyfn n g" "\<And>x. f x - f a = g x * (x - a)" using horner_factor [of cs a] cs by auto
  then have f: "f x = g x * (x - a)" for x using Suc.prems(4) a by (metis diff_zero)
  have "g b = 0" if "b \<in> A - {a}" for b using f [of b] Suc.prems(4) that by auto
  moreover have "n \<le> card (A - {a})" using Suc.prems(2,3) a by simp
  ultimately have "g x = 0" using Suc.IH [OF g(1), of "A - {a}" x] Suc.prems(2) by auto
  then show ?case using f by simp
qed

text \<open>The interpolation of Lagrange through the points with the abscissas \<open>A\<close>.\<close>

definition lagrange :: "'a::field set \<Rightarrow> ('a \<Rightarrow> 'a) \<Rightarrow> 'a \<Rightarrow> 'a" where
  "lagrange A v z = (\<Sum>a \<in> A. v a * (\<Prod>b \<in> A - {a}. (z - b) / (a - b)))"

lemma polyfn_lagrange:
  assumes "finite A"
  shows "polyfn (card A) (lagrange A v)"
proof -
  have "polyfn (card A) (\<lambda>z. v a * (\<Prod>b \<in> A - {a}. (z - b) / (a - b)))" if "a \<in> A" for a
  proof -
    have c: "card A = Suc (card (A - {a}))" using assms that by (rule card.remove)
    have "polyfn (card A) (\<lambda>z. (v a * (\<Prod>b \<in> A - {a}. inverse (a - b))) * (\<Prod>b \<in> A - {a}. (z - b)))"
      unfolding c using assms by (intro polyfn_scale polyfn_roots) simp
    moreover have "v a * (\<Prod>b \<in> A - {a}. (z - b) / (a - b))
        = (v a * (\<Prod>b \<in> A - {a}. inverse (a - b))) * (\<Prod>b \<in> A - {a}. (z - b))" for z
      unfolding divide_inverse prod.distrib by (simp add: ac_simps)
    ultimately show ?thesis by presburger
  qed
  then show ?thesis unfolding lagrange_def using polyfn_sum [OF assms] by fastforce
qed

lemma lagrange_at:
  assumes "finite A" and "a \<in> A"
  shows "lagrange A v a = v a"
proof -
  have "(\<Prod>c \<in> A - {b}. (a - c) / (b - c)) = (if b = a then 1 else 0)" if "b \<in> A" for b
    using assms that by (auto intro!: prod.neutral prod_zero)
  then have "lagrange A v a = (\<Sum>b \<in> A. v b * (if b = a then 1 else 0))"
    unfolding lagrange_def by (intro sum.cong) auto
  also have "\<dots> = (\<Sum>b \<in> A. if b = a then v b else 0)" by (intro sum.cong) auto
  finally show ?thesis using assms by simp
qed

lemma lagrange_interpolates:
  assumes "polyfn n f" and "finite A" and "n \<le> card A"
  shows "lagrange A f z = f z"
proof -
  have up: "polyfn (n + k) f" for k using assms(1) by (induction k) (auto intro: polyfn_Suc)
  have "polyfn (card A) f" using up [of "card A - n"] assms(3) by simp
  from polyfn_zero_everywhere [OF polyfn_diff [OF polyfn_lagrange [OF assms(2)] this] assms(2), of f z]
  show ?thesis using lagrange_at [OF assms(2)] by simp
qed

text \<open>The coefficients are determined by the values at as many points.\<close>

lemma horner_zero:
  fixes cs :: "'a::idom list"
  assumes "finite A" and "length cs \<le> card A" and "\<forall>a \<in> A. horner cs a = 0"
  shows "\<forall>c \<in> set cs. c = 0"
  using assms
proof (induction cs arbitrary: A rule: rev_induct)
  case (snoc c cs)
  have z: "horner (cs @ [c]) x = 0" for x
    by (rule polyfn_zero_everywhere [OF polyfn_horner snoc.prems])
  have c: "c = 0" using z [of 0] by simp
  have "\<forall>a \<in> A - {0}. horner cs a = 0" using z c by (metis Diff_iff add_0_right horner_snoc insertCI mult_eq_0_iff)
  moreover have "length cs \<le> card (A - {0})"
    using snoc.prems(1,2) by (cases "0 \<in> A") auto
  ultimately have "\<forall>c \<in> set cs. c = 0" using snoc.IH [of "A - {0}"] snoc.prems(1) by blast
  then show ?case using c by simp
qed simp

lemma horner_unique:
  fixes cs ds :: "'a::idom list"
  assumes "length cs = length ds" and "finite A" and "length cs \<le> card A"
    and "\<forall>a \<in> A. horner cs a = horner ds a"
  shows "cs = ds"
proof -
  let ?es = "map2 (+) cs (map ((*) (- 1)) ds)"
  have "\<forall>a \<in> A. horner ?es a = 0"
    using assms(1,4) by (subst horner_add) (auto simp: horner_scale)
  from horner_zero [OF assms(2) _ this] assms(1,3) have z: "\<forall>c \<in> set ?es. c = 0" by simp
  show ?thesis
  proof (rule nth_equalityI [OF assms(1)])
    fix i assume i: "i < length cs"
    then have "?es ! i \<in> set ?es" using assms(1) by (intro nth_mem) simp
    then show "cs ! i = ds ! i" using z i assms(1) by auto
  qed
qed

end
