(* ===== verification/Gfshare777.thy ===== *)
theory Gfshare777
  imports Galois777 "HOL-Library.Multiset"
begin

text \<open>
  Secret sharing, \<open>utils/libgfshare.c\<close>: a secret of \<open>size\<close> bytes is split into shares with a
  threshold \<open>M\<close>, byte by byte, as the values of random polynomials with \<open>M\<close> coefficients, and
  recombined by interpolation at 0. The contexts of the encoder and of the decoder, the choice of the
  numbers of the shares, and the use of the library by the deck of cards (\<open>cards777_calcmofn\<close> and
  \<open>cards777_recover\<close> of \<open>games/cards777.c\<close>).

  Any \<open>M\<close> shares give the secret back, and fewer say nothing about it. Random bytes and the content
  of memory that was allocated and not written are arguments of the definitions. Sizes and counts are
  natural numbers: the callers pass products of a few small numbers.
\<close>

section \<open>Blocks of memory\<close>

definition mread :: "u8 list \<Rightarrow> nat \<Rightarrow> nat \<Rightarrow> u8 list option" where
  "mread buf off len = (if off + len \<le> length buf then Some (take len (drop off buf)) else None)"

definition mwrite :: "u8 list \<Rightarrow> nat \<Rightarrow> u8 list \<Rightarrow> u8 list option" where
  "mwrite buf off bs = (if off + length bs \<le> length buf
     then Some (take off buf @ bs @ drop (off + length bs) buf) else None)"

lemma mread_Some: "off + len \<le> length buf \<Longrightarrow> mread buf off len = Some (take len (drop off buf))"
  by (simp add: mread_def)

lemma mwrite_SomeD:
  assumes "mwrite buf off bs = Some buf'"
  shows "length buf' = length buf" "off + length bs \<le> length buf"
    "\<And>i. i < length buf \<Longrightarrow> buf' ! i = (if off \<le> i \<and> i < off + length bs then bs ! (i - off) else buf ! i)"
proof -
  from assms have s: "off + length bs \<le> length buf" "buf' = take off buf @ bs @ drop (off + length bs) buf"
    by (auto simp: mwrite_def split: if_splits)
  then show "length buf' = length buf" "off + length bs \<le> length buf" by auto
  fix i assume "i < length buf"
  then show "buf' ! i = (if off \<le> i \<and> i < off + length bs then bs ! (i - off) else buf ! i)"
    using s by (auto simp: nth_append)
qed

lemma mwrite_total: "off + length bs \<le> length buf \<Longrightarrow> \<exists>buf'. mwrite buf off bs = Some buf'"
  by (simp add: mwrite_def)

text \<open>
  The contract of a threshold scheme: what \<open>split\<close> makes of a secret, \<open>combine\<close> turns back into
  the secret from any \<open>M\<close> of the \<open>N\<close> parts.
\<close>

locale threshold_scheme =
  fixes split :: "'s \<Rightarrow> 'h list option" and combine :: "'h option list \<Rightarrow> 's option"
    and M N :: nat and ok :: "'s \<Rightarrow> bool"
  assumes recovers: "ok s \<Longrightarrow> M \<le> card {i. i < N \<and> P i} \<Longrightarrow>
    \<exists>hs. split s = Some hs \<and> combine (map (\<lambda>i. if P i then Some (hs ! i) else None) [0..<N]) = Some s"
begin

lemma quorums_agree:
  assumes "ok s" and "split s = Some hs" and "M \<le> card {i. i < N \<and> P i}" and "M \<le> card {i. i < N \<and> Q i}"
  shows "combine (map (\<lambda>i. if P i then Some (hs ! i) else None) [0..<N])
    = combine (map (\<lambda>i. if Q i then Some (hs ! i) else None) [0..<N])"
  using recovers [OF assms(1,3)] recovers [OF assms(1,4)] assms(2) by auto

lemma parts_determine_secret:
  assumes "ok s" and "ok s'" and "split s = Some hs" and "split s' = Some hs'"
    and "M \<le> card {i. i < N \<and> P i}" and "\<forall>i < N. P i \<longrightarrow> hs ! i = hs' ! i"
  shows "s = s'"
proof -
  have "map (\<lambda>i. if P i then Some (hs ! i) else None) [0..<N] = map (\<lambda>i. if P i then Some (hs' ! i) else None) [0..<N]"
    using assms(6) by simp
  moreover have "combine (map (\<lambda>i. if P i then Some (hs ! i) else None) [0..<N]) = Some s"
    using recovers [OF assms(1,5)] assms(3) by auto
  moreover have "combine (map (\<lambda>i. if P i then Some (hs' ! i) else None) [0..<N]) = Some s'"
    using recovers [OF assms(2,5)] assms(4) by auto
  ultimately show ?thesis by (metis option.inject)
qed

end

section \<open>Splitting\<close>

definition share_byte :: "nat \<Rightarrow> u8 \<Rightarrow> u8 \<Rightarrow> u8 option" where
  "share_byte ilog s coeff =
     do { e \<leftarrow> (if s \<noteq> 0
                then do { l \<leftarrow> aget ctx_logs (uint s); aget ctx_exps (int ilog + uint l) }
                else Some 0);
          Some (e XOR coeff) }"

fun calc_share_loop :: "nat \<Rightarrow> nat \<Rightarrow> nat \<Rightarrow> u8 list \<Rightarrow> u8 list \<Rightarrow> u8 list option" where
  "calc_share_loop 0 sz ilog share buffer = Some share"
| "calc_share_loop (Suc n) sz ilog share buffer =
     do { row \<leftarrow> mread buffer 0 sz;
          share' \<leftarrow> those (map2 (share_byte ilog) share row);
          calc_share_loop n sz ilog share' (drop sz buffer) }"

definition calc_share :: "u8 list \<Rightarrow> nat \<Rightarrow> nat \<Rightarrow> nat \<Rightarrow> u8 list option" where
  "calc_share buffer sz M ilog =
     do { share \<leftarrow> mread buffer 0 sz;
          calc_share_loop (M - 1) sz ilog share (drop sz buffer) }"

text \<open>
  \<open>calc_shares\<close>: the random bytes are \<open>rnd 0, rnd 1, \<dots>\<close>. The secret is the last row of the
  coefficients; without a row (\<open>M = 0\<close>) it would be copied to an address before the buffer.
\<close>

definition calc_shares :: "(nat \<Rightarrow> u8) \<Rightarrow> u8 list \<Rightarrow> nat \<Rightarrow> nat \<Rightarrow> nat \<Rightarrow> nat \<Rightarrow> u8 list \<Rightarrow> u8 list option" where
  "calc_shares rnd secret sz width M N nrs =
     (if M = 0 then None
      else do { s \<leftarrow> mread secret 0 sz;
                buffer \<leftarrow> mwrite (replicate (M * width) 0) ((M - 1) * sz) s;
                buffer \<leftarrow> mwrite buffer 0 (map rnd [0..<(M - 1) * sz]);
                ofold (\<lambda>i shares. do { nr \<leftarrow> aget nrs (int i);
                                       ilog \<leftarrow> aget ctx_logs (uint nr);
                                       share \<leftarrow> calc_share buffer sz M (unat ilog);
                                       mwrite shares (i * width) share })
                      [0..<N] (replicate (N * width) 0) })"

section \<open>Recombination\<close>

definition li_step :: "u8 list \<Rightarrow> nat \<Rightarrow> u8 \<Rightarrow> nat \<Rightarrow> nat \<times> nat \<Rightarrow> (nat \<times> nat) option" where
  "li_step nrs i sharei j = (\<lambda>(Li_top, Li_bottom).
     if i = j then Some (Li_top, Li_bottom)
     else do { sharej \<leftarrow> aget nrs (int j);
               if sharej = 0 then Some (Li_top, Li_bottom)
               else do { lt \<leftarrow> aget ctx_logs (uint sharej);
                         lb \<leftarrow> aget ctx_logs (uint (sharei XOR sharej));
                         let top = Li_top + unat lt;
                         let bottom = Li_bottom + unat lb;
                         Some (if top \<ge> 0xff then top - 0xff else top,
                               if bottom \<ge> 0xff then bottom - 0xff else bottom) } })"

definition extract_byte :: "nat \<Rightarrow> u8 \<Rightarrow> u8 \<Rightarrow> u8 option" where
  "extract_byte Li_top secret share =
     (if share \<noteq> 0
      then do { l \<leftarrow> aget ctx_logs (uint share); e \<leftarrow> aget ctx_exps (int Li_top + uint l); Some (secret XOR e) }
      else Some secret)"

definition extract_step :: "u8 list \<Rightarrow> nat \<Rightarrow> u8 list \<Rightarrow> nat \<Rightarrow> nat \<Rightarrow> nat \<Rightarrow> u8 list \<Rightarrow> u8 list option" where
  "extract_step nrs N buffer sz width i secretbuf =
     do { sharei \<leftarrow> aget nrs (int i);
          if sharei = 0 then Some secretbuf
          else do { (top, bottom) \<leftarrow> ofold (li_step nrs i sharei) [0..<N] (0, 0);
                    let Li_top = (if bottom > top then top + 0xff else top) - bottom;
                    share \<leftarrow> mread buffer (width * i) sz;
                    secret \<leftarrow> mread secretbuf 0 sz;
                    bytes \<leftarrow> those (map2 (extract_byte Li_top) secret share);
                    mwrite secretbuf 0 bytes } }"

definition gfshare_extract :: "u8 list \<Rightarrow> nat \<Rightarrow> u8 list \<Rightarrow> nat \<Rightarrow> nat \<Rightarrow> u8 list option" where
  "gfshare_extract nrs N buffer sz width =
     ofold (extract_step nrs N buffer sz width) [0..<N] (replicate width 0)"

section \<open>Contexts\<close>

record gfshare_ctx =
  sharecount :: nat
  threshold :: nat
  ctx_size :: nat
  buffersize :: nat
  sharenrs :: "u8 list"
  buffer :: "u8 list"

text \<open>
  The allocated memory holds the bytes \<open>junk 0, junk 1, \<dots>\<close> of the heap. The threshold is an
  \<open>unsigned char\<close>; the numbers of the shares are copied into an array of 255 bytes.
\<close>

definition gfshare_ctx_init_core :: "(nat \<Rightarrow> u8) \<Rightarrow> u8 list \<Rightarrow> nat \<Rightarrow> nat \<Rightarrow> nat \<Rightarrow> gfshare_ctx option" where
  "gfshare_ctx_init_core junk nrs num thresh sz =
     (let thresh = thresh mod 256 in
      do { src \<leftarrow> mread nrs 0 num;
           nrs \<leftarrow> mwrite (map junk [0..<255]) 0 src;
           Some \<lparr>sharecount = num, threshold = thresh, ctx_size = sz, buffersize = thresh * sz,
                 sharenrs = nrs, buffer = map (\<lambda>k. junk (255 + k)) [0..<thresh * sz]\<rparr> })"

text \<open>The encoder refuses a share with the number 0: \<open>Some None\<close> is the null pointer.\<close>

definition gfshare_ctx_init_enc :: "(nat \<Rightarrow> u8) \<Rightarrow> u8 list \<Rightarrow> nat \<Rightarrow> nat \<Rightarrow> nat \<Rightarrow> gfshare_ctx option option" where
  "gfshare_ctx_init_enc junk nrs num thresh sz =
     do { src \<leftarrow> mread nrs 0 num;
          if 0 \<in> set src then Some None
          else do { ctx \<leftarrow> gfshare_ctx_init_core junk nrs num thresh sz; Some (Some ctx) } }"

definition gfshare_ctx_init_dec :: "(nat \<Rightarrow> u8) \<Rightarrow> u8 list \<Rightarrow> nat \<Rightarrow> nat \<Rightarrow> gfshare_ctx option" where
  "gfshare_ctx_init_dec junk nrs num sz =
     do { ctx \<leftarrow> gfshare_ctx_init_core junk nrs num num sz; Some (ctx\<lparr>threshold := 0\<rparr>) }"

definition gfshare_ctx_enc_setsecret :: "(nat \<Rightarrow> u8) \<Rightarrow> gfshare_ctx \<Rightarrow> u8 list \<Rightarrow> gfshare_ctx option" where
  "gfshare_ctx_enc_setsecret rnd ctx secret =
     (if threshold ctx = 0 then None
      else do { s \<leftarrow> mread secret 0 (ctx_size ctx);
                b \<leftarrow> mwrite (buffer ctx) ((threshold ctx - 1) * ctx_size ctx) s;
                b \<leftarrow> mwrite b 0 (map rnd [0..<(threshold ctx - 1) * ctx_size ctx]);
                Some (ctx\<lparr>buffer := b\<rparr>) })"

definition gfshare_ctx_enc_getshare :: "gfshare_ctx \<Rightarrow> u8 \<Rightarrow> u8 list option" where
  "gfshare_ctx_enc_getshare ctx sharenr =
     do { nr \<leftarrow> aget (sharenrs ctx) (uint sharenr);
          ilog \<leftarrow> aget ctx_logs (uint nr);
          calc_share (buffer ctx) (ctx_size ctx) (threshold ctx) (unat ilog) }"

definition gfshare_ctx_dec_newshares :: "gfshare_ctx \<Rightarrow> u8 list \<Rightarrow> gfshare_ctx option" where
  "gfshare_ctx_dec_newshares ctx nrs =
     do { src \<leftarrow> mread nrs 0 (sharecount ctx);
          nrs \<leftarrow> mwrite (sharenrs ctx) 0 src;
          Some (ctx\<lparr>sharenrs := nrs\<rparr>) }"

definition gfshare_ctx_dec_giveshare :: "gfshare_ctx \<Rightarrow> u8 \<Rightarrow> u8 list \<Rightarrow> gfshare_ctx option" where
  "gfshare_ctx_dec_giveshare ctx sharenr share =
     do { s \<leftarrow> mread share 0 (ctx_size ctx);
          b \<leftarrow> mwrite (buffer ctx) (unat sharenr * ctx_size ctx) s;
          Some (ctx\<lparr>buffer := b\<rparr>) }"

definition gfshare_ctx_dec_extract :: "gfshare_ctx \<Rightarrow> u8 list option" where
  "gfshare_ctx_dec_extract ctx =
     gfshare_extract (sharenrs ctx) (sharecount ctx) (buffer ctx) (ctx_size ctx) (ctx_size ctx)"

section \<open>The numbers of the shares\<close>

text \<open>
  \<open>init_sharenrs\<close> draws the numbers: \<open>fill k i\<close> is byte \<open>i\<close> of the random bytes of the \<open>k\<close>-th call of
  \<open>gfshare_fill_rand\<close>. Without an original set it permutes the numbers 1 to 255; with one it keeps
  \<open>m\<close> of the \<open>n\<close> numbers at their places, drawing places until \<open>m\<close> of them are taken.
\<close>

definition full_step :: "(nat \<Rightarrow> u8) \<Rightarrow> nat \<Rightarrow> u8 list \<times> u8 list \<times> nat \<Rightarrow> (u8 list \<times> u8 list \<times> nat) option" where
  "full_step randvals i = (\<lambda>(nrs, valid, remains).
     if remains = 0 then None
     else do { let r = unat (randvals i) mod remains;
               v \<leftarrow> aget valid (int r);
               nrs \<leftarrow> aput nrs (int i) v;
               let remains = remains - 1;
               w \<leftarrow> aget valid (int remains);
               valid \<leftarrow> aput valid (int r) w;
               Some (nrs, valid, remains) })"

partial_function (option) pick_loop ::
    "(nat \<Rightarrow> nat \<Rightarrow> u8) \<Rightarrow> nat \<Rightarrow> nat \<Rightarrow> nat \<Rightarrow> nat \<Rightarrow> nat \<Rightarrow> u8 list \<Rightarrow> u8 list \<Rightarrow> nat \<Rightarrow> (u8 list \<times> nat) option" where
  [code]: "pick_loop fill m n i j k nrs valid remains =
     (if i < m
      then if n = 0 then None
           else let (j, k) = (if j \<ge> 65536 then (0, k + 1) else (j, k));
                    r = unat (fill k j) mod n
                in do { v \<leftarrow> aget valid (int r);
                        if v \<noteq> 0
                        then do { nrs \<leftarrow> aput nrs (int r) v;
                                  valid \<leftarrow> aput valid (int r) 0;
                                  pick_loop fill m n (i + 1) (j + 1) k nrs valid (remains - 1) }
                        else pick_loop fill m n i (j + 1) k nrs valid remains }
      else Some (nrs, remains))"

definition duplicate :: "u8 list \<Rightarrow> nat \<Rightarrow> bool" where
  "duplicate nrs m = list_ex (\<lambda>i. list_ex (\<lambda>j. i \<noteq> j \<and> nrs ! i \<noteq> 0 \<and> nrs ! i = nrs ! j) [0..<m]) [0..<m]"

definition init_sharenrs :: "(nat \<Rightarrow> nat \<Rightarrow> u8) \<Rightarrow> u8 list \<Rightarrow> u8 list option \<Rightarrow> nat \<Rightarrow> nat \<Rightarrow> (int \<times> u8 list) option" where
  "init_sharenrs fill nrs orig m n =
     (if m > n \<or> n \<ge> 0xff then Some (- 1, nrs)
      else do { nrs \<leftarrow> mwrite nrs 0 (replicate n 0);
                (nrs, remains, orign) \<leftarrow>
                  (if orig = None \<and> n = m
                   then do { (nrs, _, remains) \<leftarrow> ofold (full_step (fill 0)) [0..<n] (nrs, map (\<lambda>i. word_of_nat (i + 1)) [0..<255], 255);
                             Some (nrs, remains, 255) }
                   else case orig of None \<Rightarrow> None
                        | Some orig \<Rightarrow> do { valid \<leftarrow> mread orig 0 n;
                                          (nrs, remains) \<leftarrow> pick_loop fill m n 0 0 0 nrs valid n;
                                          Some (nrs, remains, n) });
                Some (if remains \<noteq> orign - m \<or> duplicate nrs m then - 1 else 0, nrs) })"

section \<open>The deck of cards\<close>

definition cards777_calcmofn :: "(nat \<Rightarrow> u8) \<Rightarrow> u8 list \<Rightarrow> nat \<Rightarrow> u8 list \<Rightarrow> nat \<Rightarrow> nat \<Rightarrow> (u8 list \<times> u8 list list \<times> nat) option" where
  "cards777_calcmofn rnd nrs M xoverz numcards N =
     (let sz = N * 32 * numcards in
      do { allshares \<leftarrow> calc_shares rnd xoverz sz sz M N nrs;
           myshares \<leftarrow> those (map (\<lambda>j. mread allshares (j * sz) sz) [0..<N]);
           Some (allshares, myshares, sz) })"

text \<open>The shares that a player has: \<open>None\<close> for the null pointer of one that is missing.\<close>

definition cards777_recover :: "(nat \<Rightarrow> u8) \<Rightarrow> u8 list option list \<Rightarrow> u8 list \<Rightarrow> nat \<Rightarrow> nat \<Rightarrow> u8 list option" where
  "cards777_recover junk shares nrs numcards N =
     (let sz = N * 32 * numcards in
      do { recovernrs \<leftarrow> ofold (\<lambda>i r. do { s \<leftarrow> aget shares (int i);
                                           if s \<noteq> None then do { nr \<leftarrow> aget nrs (int i); aput r (int i) nr } else Some r })
                               [0..<N] (replicate 255 0);
           ctx \<leftarrow> gfshare_ctx_init_dec junk recovernrs N sz;
           ctx \<leftarrow> ofold (\<lambda>i ctx. do { s \<leftarrow> aget shares (int i);
                                      case s of Some share \<Rightarrow> gfshare_ctx_dec_giveshare ctx (word_of_nat i) share
                                              | None \<Rightarrow> Some ctx })
                        [0..<N] ctx;
           ctx \<leftarrow> gfshare_ctx_dec_newshares ctx recovernrs;
           gfshare_ctx_dec_extract ctx })"

section \<open>Shares as values of polynomials\<close>

definition column :: "u8 list \<Rightarrow> nat \<Rightarrow> nat \<Rightarrow> nat \<Rightarrow> gf256 list" where
  "column buf sz M p = map (\<lambda>k. Gf (buf ! (k * sz + p))) [0..<M]"

lemma aget_logs: "aget ctx_logs (uint (b :: u8)) = Some (ctx_logs ! unat b)"
proof -
  have "unat b < length ctx_logs" using unat_u8 [of b] by (simp only: length_ctx_logs)
  from aget_nat [OF this] show ?thesis by simp
qed

lemma aget_exps:
  assumes "t < 255"
  shows "aget ctx_exps (int t + uint (ctx_logs ! unat b)) = Some (ctx_exps ! (t + glog b))"
proof -
  have "t + glog b < length ctx_exps" unfolding length_ctx_exps using assms glog_less [of b] by linarith
  from aget_nat [OF this] show ?thesis by (simp add: glog_def)
qed

lemma those_map_Some: "those (map (\<lambda>x. Some (f x)) xs) = Some (map f xs)"
  by (induction xs) simp_all

lemma map2_nths: "length xs = n \<Longrightarrow> length ys = n \<Longrightarrow> map2 f xs ys = map (\<lambda>p. f (xs ! p) (ys ! p)) [0..<n]"
  by (intro nth_equalityI) simp_all

lemma ungf_eq: "ungf g = b \<longleftrightarrow> g = Gf b"
  by (cases g) simp

lemma ungf_0 [simp]: "ungf 0 = 0"
  by (simp add: ungf_eq)

lemma share_byte_eq:
  assumes "x \<noteq> 0"
  shows "share_byte (glog x) s c = Some (ungf (Gf s * Gf x + Gf c))"
proof -
  have "Gf (if s = 0 then 0 else ctx_exps ! (glog x + glog s)) = Gf x * Gf s"
    using ctx_exps_gen [of "glog x" s] assms by (simp add: gen_glog)
  then have "Gf ((if s = 0 then 0 else ctx_exps ! (glog x + glog s)) XOR c) = Gf s * Gf x + Gf c"
    by (simp only: Gf_xor mult.commute)
  then have "ungf (Gf s * Gf x + Gf c) = (if s = 0 then 0 else ctx_exps ! (glog x + glog s)) XOR c"
    by (simp only: ungf_eq)
  then show ?thesis by (simp add: share_byte_def aget_logs aget_exps)
qed

lemma calc_share_loop_eq:
  assumes "x \<noteq> 0" and "length share = sz" and "n * sz \<le> length buf"
  shows "calc_share_loop n sz (glog x) share buf
    = Some (map (\<lambda>p. ungf (foldl (\<lambda>s c. s * Gf x + c) (Gf (share ! p)) (column buf sz n p))) [0..<sz])"
  using assms(2,3)
proof (induction n arbitrary: share buf)
  case 0
  then show ?case by (auto simp: column_def intro: nth_equalityI)
next
  case (Suc n)
  let ?s = "map (\<lambda>p. ungf (Gf (share ! p) * Gf x + Gf (buf ! p))) [0..<sz]"
  have r: "mread buf 0 sz = Some (take sz buf)" using Suc.prems by (simp add: mread_def)
  have m: "those (map2 (share_byte (glog x)) share (take sz buf)) = Some ?s"
    using Suc.prems by (subst map2_nths [of _ sz]) (simp_all add: share_byte_eq [OF assms(1)] those_map_Some)
  have c: "column buf sz (Suc n) p = Gf (buf ! p) # column (drop sz buf) sz n p" for p
    unfolding column_def using Suc.prems
    by (simp only: upt_conv_Cons [of 0 "Suc n"] zero_less_Suc list.map map_Suc_upt [symmetric] map_map)
      (simp add: add.assoc)
  have "calc_share_loop (Suc n) sz (glog x) share buf = calc_share_loop n sz (glog x) ?s (drop sz buf)"
    by (simp add: r m)
  also have "\<dots> = Some (map (\<lambda>p. ungf (foldl (\<lambda>s c. s * Gf x + c) (Gf (?s ! p)) (column (drop sz buf) sz n p))) [0..<sz])"
    by (rule Suc.IH) (use Suc.prems in auto)
  finally show ?case unfolding c by simp
qed

lemma calc_share_eq:
  assumes "x \<noteq> 0" and "0 < M" and "M * sz \<le> length buf"
  shows "calc_share buf sz M (glog x) = Some (map (\<lambda>p. ungf (horner (column buf sz M p) (Gf x))) [0..<sz])"
proof -
  obtain n where n: "M = Suc n" using assms(2) by (cases M) auto
  have r: "mread buf 0 sz = Some (take sz buf)" using assms(3) n by (simp add: mread_def)
  have c: "column buf sz M p = Gf (buf ! p) # column (drop sz buf) sz n p" for p
    unfolding column_def n using assms(3) n
    by (simp only: upt_conv_Cons [of 0 "Suc n"] zero_less_Suc list.map map_Suc_upt [symmetric] map_map)
      (simp add: add.assoc)
  have "calc_share buf sz M (glog x) = calc_share_loop n sz (glog x) (take sz buf) (drop sz buf)"
    by (simp add: calc_share_def r n)
  also have "\<dots> = Some (map (\<lambda>p. ungf (foldl (\<lambda>s c. s * Gf x + c) (Gf (take sz buf ! p)) (column (drop sz buf) sz n p))) [0..<sz])"
    by (rule calc_share_loop_eq) (use assms n in auto)
  finally show ?thesis unfolding horner_def c by simp
qed

lemma length_column [simp]: "length (column buf sz M p) = M"
  by (simp add: column_def)

lemma calc_share_length: "x \<noteq> 0 \<Longrightarrow> 0 < M \<Longrightarrow> M * sz \<le> length buf \<Longrightarrow> calc_share buf sz M (glog x) = Some s \<Longrightarrow> length s = sz"
  by (auto simp: calc_share_eq)

section \<open>The coefficients of the interpolation\<close>

text \<open>The indices of the shares that are provided, apart from \<open>i\<close>.\<close>

definition given :: "u8 list \<Rightarrow> nat \<Rightarrow> nat set" where
  "given nrs n = {j. j < n \<and> nrs ! j \<noteq> 0}"

lemma given_Suc: "given nrs (Suc n) = (if nrs ! n \<noteq> 0 then insert n (given nrs n) else given nrs n)"
  by (auto simp: given_def less_Suc_eq)

lemma finite_given [simp]: "finite (given nrs n)"
  by (rule finite_subset [of _ "{..<n}"]) (auto simp: given_def)

lemma given_self [simp]: "n \<notin> given nrs n"
  by (simp add: given_def)

lemma given_less: "j \<in> given nrs n \<Longrightarrow> j < n"
  by (simp add: given_def)

lemma wrap_255: "t < 255 \<Longrightarrow> (if t + glog b \<ge> 255 then t + glog b - 255 else t + glog b) = (t + glog b) mod 255"
proof -
  assume "t < 255"
  then have "t + glog b - 255 < 255" using glog_less [of b] by linarith
  then show ?thesis by (simp add: le_mod_geq)
qed

lemma li_loop:
  assumes "n \<le> length nrs" and "i < length nrs" and "nrs ! i \<noteq> 0"
    and "\<And>j. j \<in> given nrs n - {i} \<Longrightarrow> nrs ! j \<noteq> nrs ! i"
  shows "\<exists>t b. ofold (li_step nrs i (nrs ! i)) [0..<n] (0, 0) = Some (t, b) \<and> t < 255 \<and> b < 255
    \<and> Gf 2 ^ t = (\<Prod>j \<in> given nrs n - {i}. Gf (nrs ! j))
    \<and> Gf 2 ^ b = (\<Prod>j \<in> given nrs n - {i}. Gf (nrs ! i) - Gf (nrs ! j))"
  using assms(1,4)
proof (induction n)
  case 0
  then show ?case by (simp add: given_def)
next
  case (Suc n)
  then obtain t b where tb: "ofold (li_step nrs i (nrs ! i)) [0..<n] (0, 0) = Some (t, b)" "t < 255" "b < 255"
    "Gf 2 ^ t = (\<Prod>j \<in> given nrs n - {i}. Gf (nrs ! j))"
    "Gf 2 ^ b = (\<Prod>j \<in> given nrs n - {i}. Gf (nrs ! i) - Gf (nrs ! j))"
    by (auto simp: given_Suc split: if_splits)
  have a: "aget nrs (int n) = Some (nrs ! n)" using Suc.prems(1) by (simp add: aget_nat)
  show ?case
  proof (cases "n = i \<or> nrs ! n = 0")
    case True
    then have "given nrs (Suc n) - {i} = given nrs n - {i}" by (auto simp: given_Suc)
    moreover have "li_step nrs i (nrs ! i) n (t, b) = Some (t, b)" using True by (auto simp: li_step_def a)
    ultimately show ?thesis using tb by (simp add: ofold_append)
  next
    case False
    let ?x = "nrs ! n" and ?y = "nrs ! i XOR nrs ! n"
    let ?t = "(t + glog ?x) mod 255" and ?b = "(b + glog ?y) mod 255"
    have "nrs ! n \<noteq> nrs ! i" using Suc.prems(2) [of n] False by (auto simp: given_Suc)
    then have "Gf (nrs ! i) - Gf (nrs ! n) \<noteq> 0" by simp
    then have y: "?y \<noteq> 0" by (simp only: gf_minus Gf_xor [symmetric] Gf_eq_0 not_False_eq_True)
    have g: "given nrs (Suc n) - {i} = insert n (given nrs n - {i})" "n \<notin> given nrs n - {i}"
      using False by (auto simp: given_Suc given_def)
    have "li_step nrs i (nrs ! i) n (t, b) = Some (?t, ?b)"
      using False by (simp add: li_step_def a aget_logs Let_def flip: glog_def wrap_255 [OF tb(2)] wrap_255 [OF tb(3)])
    moreover have "Gf 2 ^ ?t = (\<Prod>j \<in> given nrs (Suc n) - {i}. Gf (nrs ! j))"
      using False tb(4) g by (simp add: gen_mod power_add gen_glog mult.commute)
    moreover have "Gf 2 ^ ?b = (\<Prod>j \<in> given nrs (Suc n) - {i}. Gf (nrs ! i) - Gf (nrs ! j))"
      using y tb(5) g by (simp add: gen_mod power_add gen_glog Gf_xor gf_minus mult.commute)
    ultimately show ?thesis using tb(1) by (simp add: ofold_append)
  qed
qed

lemma li_top:
  assumes "t < 255" and "b < 255"
  shows "(if b > t then t + 255 else t) - b < (255 :: nat)"
    and "Gf 2 ^ ((if b > t then t + 255 else t) - b) = Gf 2 ^ t / Gf 2 ^ b"
proof -
  let ?d = "(if b > t then t + 255 else t) - b"
  show "?d < 255" using assms by auto
  have "Gf 2 ^ ?d * Gf 2 ^ b = Gf 2 ^ (if b > t then t + 255 else t)"
    using assms by (simp flip: power_add)
  also have "\<dots> = Gf 2 ^ t" by (simp add: power_add gen_255)
  finally show "Gf 2 ^ ?d = Gf 2 ^ t / Gf 2 ^ b" by (simp add: field_simps)
qed

definition weight :: "u8 list \<Rightarrow> nat \<Rightarrow> nat \<Rightarrow> gf256" where
  "weight nrs n i = (\<Prod>j \<in> given nrs n - {i}. Gf (nrs ! j) / (Gf (nrs ! i) - Gf (nrs ! j)))"

lemma extract_byte_eq:
  assumes "t < 255"
  shows "extract_byte t s b = Some (ungf (Gf s + Gf 2 ^ t * Gf b))"
proof -
  have "Gf (s XOR (if b = 0 then 0 else ctx_exps ! (t + glog b))) = Gf s + Gf 2 ^ t * Gf b"
    using ctx_exps_gen [OF assms, of b] by (simp add: Gf_xor)
  then have "ungf (Gf s + Gf 2 ^ t * Gf b) = s XOR (if b = 0 then 0 else ctx_exps ! (t + glog b))"
    by (simp only: ungf_eq)
  then show ?thesis by (simp add: extract_byte_def aget_logs aget_exps [OF assms])
qed

lemma extract_step_eq:
  assumes "N \<le> length nrs" and "i < N" and "inj_on ((!) nrs) (given nrs N)"
    and "N * width \<le> length buf" and "sz \<le> width" and "length sec = width"
  shows "extract_step nrs N buf sz width i sec
    = Some (if nrs ! i = 0 then sec
            else map (\<lambda>p. ungf (Gf (sec ! p) + weight nrs N i * Gf (buf ! (width * i + p)))) [0..<sz] @ drop sz sec)"
proof (cases "nrs ! i = 0")
  case True
  then show ?thesis using assms by (simp add: extract_step_def aget_nat)
next
  case False
  have a: "aget nrs (int i) = Some (nrs ! i)" using assms by (simp add: aget_nat)
  have ig: "i \<in> given nrs N" using assms False by (simp add: given_def)
  have "nrs ! j \<noteq> nrs ! i" if "j \<in> given nrs N - {i}" for j using that ig assms(3) by (auto dest: inj_onD)
  then obtain t b where tb: "ofold (li_step nrs i (nrs ! i)) [0..<N] (0, 0) = Some (t, b)" "t < 255" "b < 255"
    "Gf 2 ^ t = (\<Prod>j \<in> given nrs N - {i}. Gf (nrs ! j))"
    "Gf 2 ^ b = (\<Prod>j \<in> given nrs N - {i}. Gf (nrs ! i) - Gf (nrs ! j))"
    using li_loop [of N nrs i] assms(1,2) False by auto
  let ?t = "(if b > t then t + 255 else t) - b"
  have w: "Gf 2 ^ ?t = weight nrs N i" using li_top(2) [OF tb(2,3)] tb(4,5) by (simp add: weight_def prod_dividef)
  have "width * i + sz \<le> width * Suc i" using assms(5) by simp
  also have "\<dots> \<le> width * N" using assms(2) by (intro mult_le_mono2) simp
  finally have in_buf: "width * i + sz \<le> length buf" using assms(4) by (simp add: mult.commute)
  let ?b = "map (\<lambda>p. ungf (Gf (sec ! p) + weight nrs N i * Gf (buf ! (width * i + p)))) [0..<sz]"
  have m: "those (map2 (extract_byte ?t) (take sz sec) (take sz (drop (width * i) buf))) = Some ?b"
    using assms(5,6) in_buf by (subst map2_nths [of _ sz]) (simp_all add: extract_byte_eq [OF li_top(1) [OF tb(2,3)]] w those_map_Some)
  show ?thesis using False m assms(5,6) in_buf
    by (simp add: extract_step_def a tb(1) mread_def mwrite_def Let_def)
qed


lemma extract_loop:
  assumes "N \<le> length nrs" and "inj_on ((!) nrs) (given nrs N)"
    and "N * width \<le> length buf" and "sz \<le> width" and "n \<le> N"
  shows "ofold (extract_step nrs N buf sz width) [0..<n] (replicate width 0)
    = Some (map (\<lambda>p. ungf (\<Sum>i \<in> given nrs n. weight nrs N i * Gf (buf ! (width * i + p)))) [0..<sz] @ replicate (width - sz) 0)"
  using assms(5)
proof (induction n)
  case 0
  have "replicate width (0 :: u8) = replicate sz 0 @ replicate (width - sz) 0"
    using assms(4) by (simp flip: replicate_add)
  then show ?case by (simp add: given_def map_replicate_const)
next
  case (Suc n)
  let ?sec = "map (\<lambda>p. ungf (\<Sum>i \<in> given nrs n. weight nrs N i * Gf (buf ! (width * i + p)))) [0..<sz] @ replicate (width - sz) 0"
  have "extract_step nrs N buf sz width n ?sec
    = Some (if nrs ! n = 0 then ?sec
            else map (\<lambda>p. ungf (Gf (?sec ! p) + weight nrs N n * Gf (buf ! (width * n + p)))) [0..<sz] @ drop sz ?sec)"
    by (rule extract_step_eq) (use assms Suc.prems in auto)
  also have "(if nrs ! n = 0 then ?sec
            else map (\<lambda>p. ungf (Gf (?sec ! p) + weight nrs N n * Gf (buf ! (width * n + p)))) [0..<sz] @ drop sz ?sec)
    = map (\<lambda>p. ungf (\<Sum>i \<in> given nrs (Suc n). weight nrs N i * Gf (buf ! (width * i + p)))) [0..<sz] @ replicate (width - sz) 0"
    by (auto simp: given_Suc nth_append add.commute)
  finally show ?case using Suc by (simp add: ofold_append)
qed

lemma sum_weights:
  assumes "inj_on ((!) nrs) (given nrs N)" and "polyfn M f" and "M \<le> card (given nrs N)"
  shows "(\<Sum>i \<in> given nrs N. weight nrs N i * f (Gf (nrs ! i))) = f 0"
proof -
  let ?g = "\<lambda>i. Gf (nrs ! i)" and ?I = "given nrs N"
  have inj: "inj_on ?g ?I" using assms(1) by (auto simp: inj_on_def)
  have "f 0 = lagrange (?g ` ?I) f 0"
    by (rule lagrange_interpolates [symmetric, OF assms(2)]) (use assms(3) inj in \<open>auto simp: card_image\<close>)
  also have "\<dots> = (\<Sum>i \<in> ?I. f (?g i) * (\<Prod>b \<in> ?g ` ?I - {?g i}. (0 - b) / (?g i - b)))"
    unfolding lagrange_def by (simp add: sum.reindex [OF inj])
  also have "\<dots> = (\<Sum>i \<in> ?I. weight nrs N i * f (?g i))"
  proof (rule sum.cong [OF refl])
    fix i assume i: "i \<in> ?I"
    have "?g ` ?I - {?g i} = ?g ` (?I - {i})" using inj i by (auto simp: inj_on_def)
    moreover have "inj_on ?g (?I - {i})" using inj by (rule inj_on_subset) auto
    ultimately show "f (?g i) * (\<Prod>b \<in> ?g ` ?I - {?g i}. (0 - b) / (?g i - b)) = weight nrs N i * f (?g i)"
      by (simp add: prod.reindex weight_def uminus_gf256_def mult.commute)
  qed
  finally show ?thesis by simp
qed

text \<open>Interpolation of rows that are values of polynomials.\<close>

lemma gfshare_extract_eq:
  assumes "N \<le> length nrs" and "inj_on ((!) nrs) (given nrs N)" and "N * width \<le> length buf" and "sz \<le> width"
    and "M \<le> card (given nrs N)" and "\<And>p. p < sz \<Longrightarrow> length (cs p) = M"
    and "\<And>i p. i \<in> given nrs N \<Longrightarrow> p < sz \<Longrightarrow> Gf (buf ! (width * i + p)) = horner (cs p) (Gf (nrs ! i))"
  shows "gfshare_extract nrs N buf sz width = Some (map (\<lambda>p. ungf (horner (cs p) 0)) [0..<sz] @ replicate (width - sz) 0)"
proof -
  have "(\<Sum>i \<in> given nrs N. weight nrs N i * Gf (buf ! (width * i + p))) = horner (cs p) 0" if "p < sz" for p
  proof -
    have "polyfn M (horner (cs p))" using assms(6) [OF that] polyfn_horner [of "cs p"] by simp
    from sum_weights [OF assms(2) this assms(5)] show ?thesis using assms(7) that by (simp cong: sum.cong)
  qed
  then show ?thesis using extract_loop [OF assms(1-4) order_refl] by (simp add: gfshare_extract_def cong: map_cong)
qed


section \<open>Splitting and recombining\<close>

text \<open>The coefficients: rows of random bytes, and the secret as the last row.\<close>

definition coeffs :: "(nat \<Rightarrow> u8) \<Rightarrow> u8 list \<Rightarrow> nat \<Rightarrow> nat \<Rightarrow> u8 list" where
  "coeffs rnd secret sz M = map rnd [0..<(M - 1) * sz] @ take sz secret"

lemma length_coeffs [simp]: "0 < M \<Longrightarrow> sz \<le> length secret \<Longrightarrow> length (coeffs rnd secret sz M) = M * sz"
  by (cases M) (simp_all add: coeffs_def)

lemma column_last:
  assumes "0 < M" and "p < sz" and "sz \<le> length secret"
  shows "horner (column (coeffs rnd secret sz M) sz M p) 0 = Gf (secret ! p)"
proof -
  have "column (coeffs rnd secret sz M) sz M p \<noteq> []" using assms(1) by (simp add: column_def)
  then have "horner (column (coeffs rnd secret sz M) sz M p) 0 = last (column (coeffs rnd secret sz M) sz M p)"
    by (rule horner_at_0)
  also have "\<dots> = Gf (coeffs rnd secret sz M ! ((M - 1) * sz + p))"
    using assms(1) by (simp add: column_def last_map)
  finally show ?thesis using assms by (simp add: coeffs_def nth_append)
qed

text \<open>The rest of a row beyond the first \<open>sz\<close> bytes does not matter.\<close>

lemma column_take: "p < sz \<Longrightarrow> column (take (M * sz) buf) sz M p = column buf sz M p"
proof -
  assume p: "p < sz"
  have "k * sz + p < M * sz" if "k < M" for k
  proof -
    have "k * sz + p < Suc k * sz" using p by simp
    also have "\<dots> \<le> M * sz" using that by (intro mult_le_mono1) simp
    finally show ?thesis .
  qed
  then show ?thesis by (simp add: column_def)
qed

definition shares_of :: "(nat \<Rightarrow> u8) \<Rightarrow> u8 list \<Rightarrow> nat \<Rightarrow> nat \<Rightarrow> u8 \<Rightarrow> u8 list" where
  "shares_of rnd secret sz M x =
     map (\<lambda>p. ungf (horner (column (coeffs rnd secret sz M) sz M p) (Gf x))) [0..<sz]"

lemma length_shares_of [simp]: "length (shares_of rnd secret sz M x) = sz"
  by (simp add: shares_of_def)

lemma calc_shares_loop:
  assumes "\<And>i. i < N \<Longrightarrow> f i = Some (row i) \<and> length (row i) = sz" and "sz \<le> width" and "n \<le> N"
  shows "\<exists>shares. ofold (\<lambda>i shares. do { share \<leftarrow> f i; mwrite shares (i * width) share }) [0..<n] (replicate (N * width) 0) = Some shares
    \<and> length shares = N * width \<and> (\<forall>i < n. \<forall>p < sz. shares ! (i * width + p) = row i ! p)"
  using assms(3)
proof (induction n)
  case (Suc n)
  then obtain sh where sh: "ofold (\<lambda>i shares. do { share \<leftarrow> f i; mwrite shares (i * width) share }) [0..<n] (replicate (N * width) 0) = Some sh"
    "length sh = N * width" "\<forall>i < n. \<forall>p < sz. sh ! (i * width + p) = row i ! p" by auto
  have r: "f n = Some (row n)" "length (row n) = sz" using assms(1) [of n] Suc.prems by auto
  have row: "i * width + p < Suc i * width" if "p < sz" for i p using that assms(2) by simp
  have le: "Suc i * width \<le> N * width" if "i < N" for i using that by (intro mult_le_mono1) simp
  have "n * width + length (row n) \<le> length sh" using le [of n] Suc.prems assms(2) r(2) sh(2) by simp
  from mwrite_total [OF this] obtain sh' where sh': "mwrite sh (n * width) (row n) = Some sh'" by blast
  have "sh' ! (i * width + p) = row i ! p" if ip: "i < Suc n" "p < sz" for i p
  proof -
    have "i * width + p < length sh" using row [OF ip(2), of i] le [of i] ip(1) Suc.prems sh(2) by linarith
    note at = mwrite_SomeD(3) [OF sh' this]
    show ?thesis
    proof (cases "i = n")
      case True
      then show ?thesis using at r(2) ip(2) by simp
    next
      case False
      then have "Suc i * width \<le> n * width" using ip(1) by (intro mult_le_mono1) simp
      then have "\<not> n * width \<le> i * width + p" using row [OF ip(2), of i] by linarith
      then show ?thesis using at sh(3) False ip by simp
    qed
  qed
  then show ?case using sh(1,2) r(1) sh' mwrite_SomeD(1) [OF sh'] by (simp add: ofold_append)
qed simp

lemma take_coeffs:
  assumes "mwrite buf ((M - 1) * sz) (take sz secret) = Some b1" and "mwrite b1 0 (map rnd [0..<(M - 1) * sz]) = Some b2"
    and "sz \<le> length secret" and "0 < M"
  shows "take (M * sz) b2 = coeffs rnd secret sz M"
proof (rule nth_equalityI)
  have last: "(M - 1) * sz + sz = M * sz" using assms(4) by (cases M) simp_all
  have len: "length b1 = length buf" "length b2 = length buf" "M * sz \<le> length buf"
    using mwrite_SomeD(1,2) [OF assms(1)] mwrite_SomeD(1) [OF assms(2)] assms(3) last by auto
  show "length (take (M * sz) b2) = length (coeffs rnd secret sz M)" using len assms(3,4) by simp
  fix i assume "i < length (take (M * sz) b2)"
  then have i: "i < M * sz" "i < length buf" using len by auto
  show "take (M * sz) b2 ! i = coeffs rnd secret sz M ! i"
    using i last len(1) mwrite_SomeD(3) [OF assms(1), of i] mwrite_SomeD(3) [OF assms(2), of i] assms(3)
    by (auto simp: coeffs_def nth_append)
qed

lemma calc_share_coeffs:
  assumes "take (M * sz) buf = coeffs rnd secret sz M" and "0 < M" and "sz \<le> length secret" and "x \<noteq> 0"
  shows "calc_share buf sz M (glog x) = Some (shares_of rnd secret sz M x)"
proof -
  have "length (take (M * sz) buf) = M * sz" using assms(1-3) by simp
  then have "M * sz \<le> length buf" by simp
  then show ?thesis using calc_share_eq [OF assms(4,2), of sz buf] column_take [of _ sz M buf] assms(1)
    by (simp add: shares_of_def cong: map_cong)
qed

lemma calc_shares_eq:
  assumes "0 < M" and "sz \<le> width" and "sz \<le> length secret" and "N \<le> length nrs" and "\<forall>i < N. nrs ! i \<noteq> 0"
  shows "\<exists>shares. calc_shares rnd secret sz width M N nrs = Some shares \<and> length shares = N * width
    \<and> (\<forall>i < N. \<forall>p < sz. shares ! (i * width + p) = shares_of rnd secret sz M (nrs ! i) ! p)"
proof -
  let ?z = "replicate (M * width) (0 :: u8)"
  have mw: "M * sz \<le> M * width" using assms(2) by simp
  have last: "(M - 1) * sz + sz = M * sz" using assms(1) by (cases M) simp_all
  have rd: "mread secret 0 sz = Some (take sz secret)" using assms(3) by (simp add: mread_def)
  obtain b1 where b1: "mwrite ?z ((M - 1) * sz) (take sz secret) = Some b1"
    using mwrite_total [of "(M - 1) * sz" "take sz secret" ?z] last mw assms(3) by auto
  have "(M - 1) * sz \<le> M * width" using last mw by linarith
  then obtain b2 where b2: "mwrite b1 0 (map rnd [0..<(M - 1) * sz]) = Some b2"
    using mwrite_total [of 0 "map rnd [0..<(M - 1) * sz]" b1] mwrite_SomeD(1) [OF b1] by auto
  note sh = calc_share_coeffs [OF take_coeffs [OF b1 b2 assms(3,1)] assms(1,3)]
  have "\<exists>shares. ofold (\<lambda>i shares. do { share \<leftarrow> do { nr \<leftarrow> aget nrs (int i); ilog \<leftarrow> aget ctx_logs (uint nr); calc_share b2 sz M (unat ilog) };
        mwrite shares (i * width) share }) [0..<N] (replicate (N * width) 0) = Some shares
    \<and> length shares = N * width \<and> (\<forall>i < N. \<forall>p < sz. shares ! (i * width + p) = shares_of rnd secret sz M (nrs ! i) ! p)"
  proof (rule calc_shares_loop)
    fix i assume i: "i < N"
    show "do { nr \<leftarrow> aget nrs (int i); ilog \<leftarrow> aget ctx_logs (uint nr); calc_share b2 sz M (unat ilog) } = Some (shares_of rnd secret sz M (nrs ! i))
      \<and> length (shares_of rnd secret sz M (nrs ! i)) = sz"
      using i assms(4,5) sh by (simp add: aget_nat aget_logs flip: glog_def)
  qed (use assms(2) in auto)
  then show ?thesis using assms(1) rd b1 b2 by (simp add: calc_shares_def)
qed


lemma extract_shares:
  assumes "0 < M" and "sz \<le> width" and "sz \<le> length secret" and "distinct (take N nrs)" and "N \<le> length nrs"
    and "N \<le> length rec" and "\<forall>i < N. rec ! i = 0 \<or> rec ! i = nrs ! i" and "M \<le> card (given rec N)"
    and "N * width \<le> length buf"
    and "\<And>i p. i \<in> given rec N \<Longrightarrow> p < sz \<Longrightarrow> buf ! (i * width + p) = shares_of rnd secret sz M (nrs ! i) ! p"
  shows "gfshare_extract rec N buf sz width = Some (take sz secret @ replicate (width - sz) 0)"
proof -
  have eq: "rec ! i = nrs ! i" "i < N" if "i \<in> given rec N" for i using that assms(7) by (auto simp: given_def)
  have "inj_on ((!) nrs) {..<N}" using assms(4,5) by (auto simp: inj_on_def distinct_conv_nth)
  then have "inj_on ((!) rec) (given rec N)" using eq unfolding inj_on_def by (metis lessThan_iff)
  moreover have "Gf (buf ! (width * i + p)) = horner (column (coeffs rnd secret sz M) sz M p) (Gf (rec ! i))"
    if "i \<in> given rec N" "p < sz" for i p
    using assms(10) [OF that] that(2) eq [OF that(1)] by (simp add: shares_of_def mult.commute)
  ultimately have "gfshare_extract rec N buf sz width
      = Some (map (\<lambda>p. ungf (horner (column (coeffs rnd secret sz M) sz M p) 0)) [0..<sz] @ replicate (width - sz) 0)"
    by (intro gfshare_extract_eq) (use assms in auto)
  moreover have "map (\<lambda>p. ungf (horner (column (coeffs rnd secret sz M) sz M p) 0)) [0..<sz] = take sz secret"
    using column_last [OF assms(1) _ assms(3)] assms(3) by (intro nth_equalityI) auto
  ultimately show ?thesis by simp
qed

text \<open>
  C10. Any \<open>M\<close> or more of the shares that \<open>calc_shares\<close> makes of a secret give it back: when \<open>rec\<close>
  keeps the numbers of at least \<open>M\<close> shares and has 0 for the others, and the buffer holds the rows of
  the shares that are kept (whatever the other rows hold), \<open>gfshare_extract\<close> returns the secret.
  The numbers of the shares must be distinct and not 0. Both functions stay inside their arrays.
\<close>

theorem shares_recover_secret:
  assumes "0 < M" and "sz \<le> width" and "sz \<le> length secret"
    and "N \<le> length nrs" and "\<forall>i < N. nrs ! i \<noteq> 0" and "distinct (take N nrs)"
    and "N \<le> length rec" and "\<forall>i < N. rec ! i = 0 \<or> rec ! i = nrs ! i" and "M \<le> card {i. i < N \<and> rec ! i \<noteq> 0}"
  shows "\<exists>shares. calc_shares rnd secret sz width M N nrs = Some shares \<and> length shares = N * width
    \<and> (\<forall>buf. length buf = N * width \<and> (\<forall>i < N. rec ! i \<noteq> 0 \<longrightarrow> (\<forall>p < sz. buf ! (i * width + p) = shares ! (i * width + p)))
         \<longrightarrow> gfshare_extract rec N buf sz width = Some (take sz secret @ replicate (width - sz) 0))"
proof -
  obtain shares where sh: "calc_shares rnd secret sz width M N nrs = Some shares" "length shares = N * width"
    "\<forall>i < N. \<forall>p < sz. shares ! (i * width + p) = shares_of rnd secret sz M (nrs ! i) ! p"
    using calc_shares_eq [OF assms(1-5)] by blast
  have "gfshare_extract rec N buf sz width = Some (take sz secret @ replicate (width - sz) 0)"
    if "length buf = N * width" "\<forall>i < N. rec ! i \<noteq> 0 \<longrightarrow> (\<forall>p < sz. buf ! (i * width + p) = shares ! (i * width + p))" for buf
    by (rule extract_shares [OF assms(1-3,6,4,7,8)]) (use assms(9) that sh(3) in \<open>auto simp: given_def\<close>)
  then show ?thesis using sh by blast
qed

theorem shares_recover_secret_witness:
  "\<exists>shares. calc_shares (\<lambda>k. word_of_nat (7 * k + 3)) [72, 105] 2 2 2 3 [1, 2, 77] = Some shares \<and> length shares = 3 * 2
    \<and> (\<forall>buf. length buf = 3 * 2 \<and> (\<forall>i < 3. [1, 0, 77 :: u8] ! i \<noteq> 0 \<longrightarrow> (\<forall>p < 2. buf ! (i * 2 + p) = shares ! (i * 2 + p)))
         \<longrightarrow> gfshare_extract [1, 0, 77] 3 buf 2 2 = Some (take 2 [72, 105] @ replicate (2 - 2) 0))"
proof (rule shares_recover_secret)
  have "{i. i < 3 \<and> [1, 0, 77 :: u8] ! i \<noteq> 0} = {0, 2}" by (auto simp: less_Suc_eq numeral_3_eq_3)
  then show "2 \<le> card {i. i < 3 \<and> [1, 0, 77 :: u8] ! i \<noteq> 0}" by simp
qed (auto simp: less_Suc_eq numeral_3_eq_3)

text \<open>What the shares say about the secret: the random bytes that lead to given shares.\<close>

lemma interpolating_column:
  fixes v :: "nat \<Rightarrow> gf256"
  assumes "length xs = M - 1" and "0 < M" and "distinct xs" and "0 \<notin> set xs"
  shows "\<exists>!cs. length cs = M \<and> last cs = s \<and> (\<forall>i < M - 1. horner cs (Gf (xs ! i)) = v i)"
proof -
  let ?A = "insert 0 (Gf ` set xs)"
  have "inj_on Gf (set xs)" by (simp add: inj_on_def)
  then have "card (Gf ` set xs) = M - 1" using assms(1,3) by (simp add: card_image distinct_card)
  moreover have nz: "0 \<notin> Gf ` set xs" using assms(4) by (metis Gf_eq_0 imageE)
  ultimately have card: "card ?A = M" using assms(2) by simp
  define w where "w = (\<lambda>a. if a = 0 then s else v (THE i. i < M - 1 \<and> Gf (xs ! i) = a))"
  have w: "w (Gf (xs ! i)) = v i" if "i < M - 1" for i
  proof -
    have "(THE k. k < M - 1 \<and> Gf (xs ! k) = Gf (xs ! i)) = i"
      using that assms(1,3) by (intro the_equality) (auto simp: nth_eq_iff_index_eq)
    moreover have "xs ! i \<noteq> 0" using that assms(1,4) nth_mem [of i xs] by metis
    ultimately show "w (Gf (xs ! i)) = v i" by (simp add: w_def)
  qed
  have w0: "w 0 = s" by (simp add: w_def)
  obtain cs where cs: "length cs = M" "lagrange ?A w = horner cs"
    using polyfn_lagrange [of ?A w] card by (auto elim: polyfnE)
  have at: "horner cs a = w a" if "a \<in> ?A" for a using lagrange_at [OF _ that, of w] cs(2) by simp
  have xs: "Gf (xs ! i) \<in> ?A" if "i < M - 1" for i using that assms(1) by simp
  have last: "last ds = horner ds 0" if "length ds = M" for ds :: "gf256 list"
    using that assms(2) horner_at_0 [of ds] by auto
  show ?thesis
  proof (rule ex1I [of _ cs])
    show "length cs = M \<and> last cs = s \<and> (\<forall>i < M - 1. horner cs (Gf (xs ! i)) = v i)"
      using cs(1) last [OF cs(1)] at w w0 xs by simp
    fix ds assume ds: "length ds = M \<and> last ds = s \<and> (\<forall>i < M - 1. horner ds (Gf (xs ! i)) = v i)"
    have "horner ds a = horner cs a" if "a \<in> ?A" for a
    proof (cases "a = 0")
      case False
      then obtain i where "i < M - 1" "a = Gf (xs ! i)" using \<open>a \<in> ?A\<close> assms(1) by (auto simp: in_set_conv_nth)
      then show ?thesis using ds at [OF xs] w by simp
    qed (use ds last [of ds] at [of 0] w0 in simp)
    then show "ds = cs" using ds cs(1) card by (intro horner_unique [of _ _ ?A]) auto
  qed
qed

lemma coeffs_nth:
  assumes "k < M" and "p < sz" and "length secret = sz"
  shows "coeffs rnd secret sz M ! (k * sz + p) = (if k = M - 1 then secret ! p else rnd (k * sz + p))"
proof (cases "k = M - 1")
  case False
  then have "Suc k * sz \<le> (M - 1) * sz" using assms(1) by (intro mult_le_mono1) simp
  then have "k * sz + p < (M - 1) * sz" using assms(2) by simp
  then show ?thesis using False by (simp add: coeffs_def nth_append)
qed (use assms in \<open>simp add: coeffs_def nth_append\<close>)

lemma column_coeffs:
  assumes "0 < M" and "p < sz" and "length secret = sz" and "length cs = M" and "last cs = Gf (secret ! p)"
  shows "column (coeffs rnd secret sz M) sz M p = cs \<longleftrightarrow> (\<forall>k < M - 1. rnd (k * sz + p) = ungf (cs ! k))"
proof -
  have "cs ! (M - 1) = Gf (secret ! p)" using assms(1,4,5) by (metis last_conv_nth length_0_conv less_numeral_extra(3))
  then have "column (coeffs rnd secret sz M) sz M p = cs \<longleftrightarrow> (\<forall>k < M. k \<noteq> M - 1 \<longrightarrow> Gf (rnd (k * sz + p)) = cs ! k)"
    using assms by (auto simp: list_eq_iff_nth_eq column_def coeffs_nth)
  also have "\<dots> \<longleftrightarrow> (\<forall>k < M - 1. rnd (k * sz + p) = ungf (cs ! k))"
  proof -
    have "k < M \<and> k \<noteq> M - 1 \<longleftrightarrow> k < M - 1" for k using assms(1) by linarith
    then show ?thesis by (metis gf256.exhaust_sel gf256.sel)
  qed
  finally show ?thesis .
qed

lemma calc_shares_columns:
  assumes "0 < M" and "length secret = sz" and "n \<le> length xs" and "0 \<notin> set xs" and "length rows = n * sz"
  shows "calc_shares rnd secret sz sz M n xs = Some rows
    \<longleftrightarrow> (\<forall>p < sz. \<forall>i < n. horner (column (coeffs rnd secret sz M) sz M p) (Gf (xs ! i)) = Gf (rows ! (i * sz + p)))"
proof -
  have "\<forall>i < n. xs ! i \<noteq> 0" using assms(3,4) by (metis nth_mem order_less_le_trans)
  then obtain shares where sh: "calc_shares rnd secret sz sz M n xs = Some shares" "length shares = n * sz"
    "\<forall>i < n. \<forall>p < sz. shares ! (i * sz + p) = shares_of rnd secret sz M (xs ! i) ! p"
    using calc_shares_eq [of M sz sz secret n xs rnd] assms by auto
  have rowcol: "j < n * sz \<longleftrightarrow> (\<exists>i < n. \<exists>p < sz. j = i * sz + p)" for j
  proof
    assume j: "j < n * sz"
    then have "0 < sz" by (cases sz) auto
    then show "\<exists>i < n. \<exists>p < sz. j = i * sz + p"
      using j by (intro exI [of _ "j div sz"] conjI exI [of _ "j mod sz"]) (simp_all add: less_mult_imp_div_less)
  next
    assume "\<exists>i < n. \<exists>p < sz. j = i * sz + p"
    then obtain i p where ip: "i < n" "p < sz" "j = i * sz + p" by blast
    then have "j < Suc i * sz" by simp
    also have "\<dots> \<le> n * sz" using ip(1) by (intro mult_le_mono1) simp
    finally show "j < n * sz" .
  qed
  have "shares = rows \<longleftrightarrow> (\<forall>j < n * sz. shares ! j = rows ! j)" using sh(2) assms(5) by (auto simp: list_eq_iff_nth_eq)
  also have "\<dots> \<longleftrightarrow> (\<forall>p < sz. \<forall>i < n. shares ! (i * sz + p) = rows ! (i * sz + p))" unfolding rowcol by blast
  also have "\<dots> \<longleftrightarrow> (\<forall>p < sz. \<forall>i < n. horner (column (coeffs rnd secret sz M) sz M p) (Gf (xs ! i)) = Gf (rows ! (i * sz + p)))"
    using sh(3) by (simp add: shares_of_def ungf_eq)
  finally show ?thesis using sh(1) by simp
qed

text \<open>
  C11. Fewer than \<open>M\<close> shares say nothing about the secret: for every secret and every content of
  \<open>M - 1\<close> shares with distinct numbers there is exactly one choice of the random bytes that
  makes \<open>calc_shares\<close> produce these shares of this secret. So all secrets of the size are equally
  likely for who knows the shares.
\<close>

theorem fewer_shares_say_nothing:
  assumes "0 < M" and "length secret = sz" and "length xs = M - 1" and "distinct xs" and "0 \<notin> set xs"
    and "length rows = (M - 1) * sz"
  shows "\<exists>!r. length r = (M - 1) * sz \<and> calc_shares ((!) r) secret sz sz M (M - 1) xs = Some rows"
proof -
  let ?n = "M - 1"
  have "\<forall>p. \<exists>!cs. length cs = M \<and> last cs = Gf (secret ! p) \<and> (\<forall>i < ?n. horner cs (Gf (xs ! i)) = Gf (rows ! (i * sz + p)))"
    by (intro allI interpolating_column [OF assms(3,1,4,5)])
  then obtain cs where cs: "\<And>p. length (cs p) = M \<and> last (cs p) = Gf (secret ! p) \<and> (\<forall>i < ?n. horner (cs p) (Gf (xs ! i)) = Gf (rows ! (i * sz + p)))"
    and uniq: "\<And>p ds. length ds = M \<and> last ds = Gf (secret ! p) \<and> (\<forall>i < ?n. horner ds (Gf (xs ! i)) = Gf (rows ! (i * sz + p))) \<Longrightarrow> ds = cs p"
    by metis
  have last: "last (column (coeffs rnd secret sz M) sz M p) = Gf (secret ! p)" if "p < sz" for rnd p
    using column_last [OF assms(1) that, of secret rnd] horner_at_0 [of "column (coeffs rnd secret sz M) sz M p"] assms(1,2)
    by (simp flip: length_greater_0_conv)
  have iff: "calc_shares rnd secret sz sz M ?n xs = Some rows \<longleftrightarrow> (\<forall>p < sz. \<forall>k < ?n. rnd (k * sz + p) = ungf (cs p ! k))" for rnd
  proof -
    have "(\<forall>i < ?n. horner (column (coeffs rnd secret sz M) sz M p) (Gf (xs ! i)) = Gf (rows ! (i * sz + p)))
      \<longleftrightarrow> column (coeffs rnd secret sz M) sz M p = cs p" if "p < sz" for p
      using uniq [of "column (coeffs rnd secret sz M) sz M p" p] last [OF that] cs [of p] by auto
    then show ?thesis
      using calc_shares_columns [OF assms(1,2) _ assms(5,6)] assms(1,2,3) column_coeffs [OF assms(1) _ assms(2)] cs by simp
  qed
  let ?r = "map (\<lambda>j. ungf (cs (j mod sz) ! (j div sz))) [0..<?n * sz]"
  have in_r: "k * sz + p < ?n * sz" if "p < sz" "k < ?n" for k p
  proof -
    have "k * sz + p < Suc k * sz" using that by simp
    also have "\<dots> \<le> ?n * sz" using that by (intro mult_le_mono1) simp
    finally show ?thesis .
  qed
  show ?thesis unfolding iff
  proof (rule ex1I [of _ ?r])
    show "length ?r = ?n * sz \<and> (\<forall>p < sz. \<forall>k < ?n. ?r ! (k * sz + p) = ungf (cs p ! k))"
      using in_r by simp
    fix r assume r: "length r = ?n * sz \<and> (\<forall>p < sz. \<forall>k < ?n. r ! (k * sz + p) = ungf (cs p ! k))"
    show "r = ?r"
    proof (rule nth_equalityI)
      fix j assume "j < length r"
      then have j: "j < ?n * sz" using r by simp
      then have "0 < sz" by (cases sz) auto
      then have "j mod sz < sz" "j div sz < ?n" using j by (simp_all add: less_mult_imp_div_less)
      then have "r ! (j div sz * sz + j mod sz) = ungf (cs (j mod sz) ! (j div sz))" using r by blast
      then show "r ! j = ?r ! j" using j by simp
    qed (use r in simp)
  qed
qed

theorem fewer_shares_say_nothing_witness:
  "\<exists>!r. length r = (3 - 1) * 1 \<and> calc_shares ((!) r) [42] 1 1 3 (3 - 1) [5, 9] = Some [200, 17]"
  by (rule fewer_shares_say_nothing) auto


section \<open>The contexts\<close>

text \<open>The encoder with a context makes the shares of \<open>calc_shares\<close>.\<close>

lemma ctx_encoder:
  assumes "0 < M" and "M < 256" and "sz \<le> length secret" and "N \<le> length nrs" and "\<forall>i < N. nrs ! i \<noteq> 0" and "N \<le> 255"
  shows "\<exists>ctx ctx'. gfshare_ctx_init_enc junk nrs N M sz = Some (Some ctx) \<and> gfshare_ctx_enc_setsecret rnd ctx secret = Some ctx'
    \<and> (\<forall>i < N. gfshare_ctx_enc_getshare ctx' (word_of_nat i) = Some (shares_of rnd secret sz M (nrs ! i)))"
proof -
  have "(M - 1) * sz + sz = M * sz" using assms(1) by (cases M) simp_all
  then have le: "(M - 1) * sz + sz \<le> M * sz" "(M - 1) * sz \<le> M * sz" by simp_all
  let ?buf = "map (\<lambda>k. junk (255 + k)) [0..<M * sz]"
  obtain b1 where b1: "mwrite ?buf ((M - 1) * sz) (take sz secret) = Some b1"
    using mwrite_total [of "(M - 1) * sz" "take sz secret" ?buf] le(1) assms(3) by auto
  obtain b2 where b2: "mwrite b1 0 (map rnd [0..<(M - 1) * sz]) = Some b2"
    using mwrite_total [of 0 "map rnd [0..<(M - 1) * sz]" b1] mwrite_SomeD(1) [OF b1] le(2) by auto
  note sh = calc_share_coeffs [OF take_coeffs [OF b1 b2 assms(3,1)] assms(1,3)]
  let ?nrs = "take N nrs @ drop N (map junk [0..<255])"
  let ?ctx = "\<lparr>sharecount = N, threshold = M, ctx_size = sz, buffersize = M * sz, sharenrs = ?nrs, buffer = ?buf\<rparr>"
  have "0 \<notin> set (take N nrs)" using assms(4,5) by (auto simp: in_set_conv_nth)
  then have "gfshare_ctx_init_enc junk nrs N M sz = Some (Some ?ctx)"
    using assms by (simp add: gfshare_ctx_init_enc_def gfshare_ctx_init_core_def mread_def mwrite_def min_absorb2)
  moreover have "gfshare_ctx_enc_setsecret rnd ?ctx secret = Some (?ctx\<lparr>buffer := b2\<rparr>)"
    using assms b1 b2 by (simp add: gfshare_ctx_enc_setsecret_def mread_def)
  moreover have "gfshare_ctx_enc_getshare (?ctx\<lparr>buffer := b2\<rparr>) (word_of_nat i) = Some (shares_of rnd secret sz M (nrs ! i))"
    if i: "i < N" for i
  proof -
    have "uint (word_of_nat i :: u8) = int i" using i assms(6) by (simp add: unsigned_of_nat take_bit_eq_mod)
    moreover have "aget ?nrs (int i) = Some (nrs ! i)" using i assms(4,6) by (simp add: aget_nat nth_append)
    ultimately show ?thesis using sh assms(5) i
      by (simp add: gfshare_ctx_enc_getshare_def aget_logs flip: glog_def)
  qed
  ultimately show ?thesis by blast
qed

lemma recovernrs_loop:
  assumes "length shares = N" and "N \<le> length nrs" and "N \<le> 255" and "n \<le> N"
  shows "\<exists>r. ofold (\<lambda>i r. do { s \<leftarrow> aget shares (int i); if s \<noteq> None then do { nr \<leftarrow> aget nrs (int i); aput r (int i) nr } else Some r })
       [0..<n] (replicate 255 0) = Some r \<and> length r = 255
     \<and> (\<forall>i < 255. r ! i = (if i < n \<and> shares ! i \<noteq> None then nrs ! i else (0 :: u8)))"
  using assms(4)
proof (induction n)
  case (Suc n)
  then obtain r where r: "ofold (\<lambda>i r. do { s \<leftarrow> aget shares (int i); if s \<noteq> None then do { nr \<leftarrow> aget nrs (int i); aput r (int i) nr } else Some r })
       [0..<n] (replicate 255 0) = Some r" "length r = 255"
     "\<forall>i < 255. r ! i = (if i < n \<and> shares ! i \<noteq> None then nrs ! i else 0)" by auto
  then show ?case using Suc.prems assms(1-3)
    by (auto simp: ofold_append aget_nat aput_nat nth_list_update less_Suc_eq)
qed simp

lemma giveshare_loop:
  assumes "length shares = N" and "N \<le> 255" and "n \<le> N" and "length (buffer ctx) = N * sz" and "ctx_size ctx = sz"
    and "\<And>i s. i < N \<Longrightarrow> shares ! i = Some s \<Longrightarrow> length s = sz"
  shows "\<exists>b. ofold (\<lambda>i ctx. do { s \<leftarrow> aget shares (int i);
                                 case s of Some share \<Rightarrow> gfshare_ctx_dec_giveshare ctx (word_of_nat i) share | None \<Rightarrow> Some ctx })
       [0..<n] ctx = Some (ctx\<lparr>buffer := b\<rparr>) \<and> length b = N * sz
     \<and> (\<forall>i < n. \<forall>p < sz. \<forall>s. shares ! i = Some s \<longrightarrow> b ! (i * sz + p) = s ! p)"
  using assms(3)
proof (induction n)
  case 0
  then show ?case using assms(4) by (intro exI [of _ "buffer ctx"]) simp
next
  case (Suc n)
  let ?f = "\<lambda>i ctx. do { s \<leftarrow> aget shares (int i);
                 case s of Some share \<Rightarrow> gfshare_ctx_dec_giveshare ctx (word_of_nat i) share | None \<Rightarrow> Some ctx }"
  obtain b where b: "ofold ?f [0..<n] ctx = Some (ctx\<lparr>buffer := b\<rparr>)" "length b = N * sz"
    "\<forall>i < n. \<forall>p < sz. \<forall>s. shares ! i = Some s \<longrightarrow> b ! (i * sz + p) = s ! p" using Suc by auto
  have a: "aget shares (int n) = Some (shares ! n)" using Suc.prems assms(1) by (simp add: aget_nat)
  show ?case
  proof (cases "shares ! n")
    case None
    then show ?thesis using b a by (intro exI [of _ b]) (auto simp: ofold_append less_Suc_eq)
  next
    case (Some s)
    have len: "length s = sz" using assms(6) [of n s] Some Suc.prems by simp
    have "Suc n * sz \<le> N * sz" using Suc.prems by (intro mult_le_mono1) simp
    then have "n * sz + length s \<le> length b" using b(2) len by simp
    from mwrite_total [OF this] obtain b' where b': "mwrite b (n * sz) s = Some b'" by blast
    have "unat (word_of_nat n :: u8) = n" using Suc.prems assms(2) by (simp add: unat_of_nat)
    then have step: "?f n (ctx\<lparr>buffer := b\<rparr>) = Some (ctx\<lparr>buffer := b'\<rparr>)"
      using a Some b' len assms(5) by (simp add: gfshare_ctx_dec_giveshare_def mread_def)
    have "b' ! (i * sz + p) = t ! p" if ip: "i < Suc n" "p < sz" "shares ! i = Some t" for i p t
    proof -
      have row: "i * sz + p < Suc i * sz" using ip(2) by simp
      have "Suc i * sz \<le> N * sz" using ip(1) Suc.prems by (intro mult_le_mono1) simp
      then have "i * sz + p < length b" using row b(2) by simp
      note at = mwrite_SomeD(3) [OF b' this]
      show ?thesis
      proof (cases "i = n")
        case False
        then have "Suc i * sz \<le> n * sz" using ip(1) by (intro mult_le_mono1) simp
        then have "\<not> n * sz \<le> i * sz + p" using row by linarith
        then show ?thesis using at b(3) False ip by simp
      qed (use at len ip Some in simp)
    qed
    then show ?thesis using b(1) step mwrite_SomeD(1) [OF b'] b(2)
      by (intro exI [of _ b']) (simp add: ofold_append)
  qed
qed


lemma cards777_recover_extract:
  assumes "sz = N * 32 * numcards" and "length shares = N" and "N \<le> 255" and "length nrs = 255"
    and "\<And>i s. i < N \<Longrightarrow> shares ! i = Some s \<Longrightarrow> length s = sz"
  shows "\<exists>rec b. cards777_recover junk shares nrs numcards N = gfshare_extract rec N b sz sz
    \<and> length rec = 255 \<and> length b = N * sz \<and> (\<forall>i < N. rec ! i = (if shares ! i \<noteq> None then nrs ! i else 0))
    \<and> (\<forall>i < N. \<forall>p < sz. \<forall>s. shares ! i = Some s \<longrightarrow> b ! (i * sz + p) = s ! p)"
proof -
  obtain r where r: "ofold (\<lambda>i r. do { s \<leftarrow> aget shares (int i); if s \<noteq> None then do { nr \<leftarrow> aget nrs (int i); aput r (int i) nr } else Some r })
       [0..<N] (replicate 255 0) = Some r" "length r = 255"
     "\<forall>i < 255. r ! i = (if i < N \<and> shares ! i \<noteq> None then nrs ! i else 0)"
    using recovernrs_loop [of shares N nrs N] assms(2-4) by auto
  let ?nrs = "take N r @ drop N (map junk [0..<255])"
  let ?ctx = "\<lparr>sharecount = N, threshold = 0, ctx_size = sz, buffersize = N * sz,
      sharenrs = ?nrs, buffer = map (\<lambda>k. junk (255 + k)) [0..<N * sz]\<rparr>"
  have init: "gfshare_ctx_init_dec junk r N sz = Some ?ctx"
    using r(2) assms(3) by (simp add: gfshare_ctx_init_dec_def gfshare_ctx_init_core_def mread_def mwrite_def min_absorb2)
  obtain b where b: "ofold (\<lambda>i ctx. do { s \<leftarrow> aget shares (int i);
         case s of Some share \<Rightarrow> gfshare_ctx_dec_giveshare ctx (word_of_nat i) share | None \<Rightarrow> Some ctx }) [0..<N] ?ctx = Some (?ctx\<lparr>buffer := b\<rparr>)"
     "length b = N * sz" "\<forall>i < N. \<forall>p < sz. \<forall>s. shares ! i = Some s \<longrightarrow> b ! (i * sz + p) = s ! p"
    using giveshare_loop [of shares N N ?ctx sz] assms(2,3,5) by auto
  let ?rec = "take N r @ drop N ?nrs"
  have new: "gfshare_ctx_dec_newshares (?ctx\<lparr>buffer := b\<rparr>) r = Some (?ctx\<lparr>buffer := b, sharenrs := ?rec\<rparr>)"
    using r(2) assms(3) by (simp add: gfshare_ctx_dec_newshares_def mread_def mwrite_def min_absorb2)
  have "cards777_recover junk shares nrs numcards N = gfshare_extract ?rec N b sz sz"
    using r(1) init b(1) new by (simp add: cards777_recover_def Let_def gfshare_ctx_dec_extract_def flip: assms(1))
  moreover have "\<forall>i < N. ?rec ! i = (if shares ! i \<noteq> None then nrs ! i else 0)" "length ?rec = 255"
    using r(2,3) assms(3) by (auto simp: nth_append)
  ultimately show ?thesis using b(2,3) by blast
qed

lemma recover_calcmofn:
  assumes "0 < M" and "N \<le> 255" and "length xoverz = N * 32 * numcards"
    and "length nrs = 255" and "\<forall>i < N. nrs ! i \<noteq> 0" and "distinct (take N nrs)"
    and "M \<le> card {i. i < N \<and> present i}"
  shows "\<exists>allshares myshares. cards777_calcmofn rnd nrs M xoverz numcards N = Some (allshares, myshares, N * 32 * numcards)
    \<and> cards777_recover junk (map (\<lambda>i. if present i then Some (myshares ! i) else None) [0..<N]) nrs numcards N = Some xoverz"
proof -
  define sz where sz: "sz = N * 32 * numcards"
  obtain all where all: "calc_shares rnd xoverz sz sz M N nrs = Some all" "length all = N * sz"
    "\<forall>i < N. \<forall>p < sz. all ! (i * sz + p) = shares_of rnd xoverz sz M (nrs ! i) ! p"
    using calc_shares_eq [of M sz sz xoverz N nrs rnd] assms sz by auto
  let ?my = "map (\<lambda>j. take sz (drop (j * sz) all)) [0..<N]"
  have in_all: "j * sz + sz \<le> length all" if "j < N" for j
  proof -
    have "Suc j * sz \<le> N * sz" using that by (intro mult_le_mono1) simp
    then show ?thesis using all(2) by simp
  qed
  have "those (map (\<lambda>j. mread all (j * sz) sz) [0..<N]) = Some ?my"
    unfolding those_map_Some [symmetric] by (intro arg_cong [of _ _ those] map_cong refl mread_Some in_all) auto
  then have calc: "cards777_calcmofn rnd nrs M xoverz numcards N = Some (all, ?my, sz)"
    using all(1) by (simp add: cards777_calcmofn_def Let_def flip: sz)
  let ?shares = "map (\<lambda>i. if present i then Some (?my ! i) else None) [0..<N]"
  have "length s = sz" if "i < N" "?shares ! i = Some s" for i s
    using that in_all [of i] by (auto split: if_splits)
  then obtain rec b where rec: "cards777_recover junk ?shares nrs numcards N = gfshare_extract rec N b sz sz"
    "length rec = 255" "length b = N * sz" "\<forall>i < N. rec ! i = (if ?shares ! i \<noteq> None then nrs ! i else 0)"
    "\<forall>i < N. \<forall>p < sz. \<forall>s. ?shares ! i = Some s \<longrightarrow> b ! (i * sz + p) = s ! p"
    using cards777_recover_extract [OF sz, of ?shares nrs junk] assms(2,4) by auto
  have "rec ! i = (if present i then nrs ! i else 0)" if "i < N" for i
    using rec(4) that by (cases "present i") auto
  then have given: "given rec N = {i. i < N \<and> present i}" using assms(5) by (auto simp: given_def split: if_splits)
  have "b ! (i * sz + p) = shares_of rnd xoverz sz M (nrs ! i) ! p" if "i \<in> given rec N" "p < sz" for i p
    using that rec(5) in_all [of i] all(3) unfolding given by simp
  then have "gfshare_extract rec N b sz sz = Some (take sz xoverz @ replicate (sz - sz) 0)"
    by (intro extract_shares [of M sz sz xoverz N nrs _ b rnd]) (use assms rec sz given in auto)
  then show ?thesis using calc rec(1) assms(3) sz by auto
qed

text \<open>The sharing of the factors of a deck as a threshold scheme.\<close>

definition deck_split :: "(nat \<Rightarrow> u8) \<Rightarrow> u8 list \<Rightarrow> nat \<Rightarrow> nat \<Rightarrow> nat \<Rightarrow> u8 list \<Rightarrow> u8 list list option" where
  "deck_split rnd nrs M numcards N xoverz =
     map_option (fst \<circ> snd) (cards777_calcmofn rnd nrs M xoverz numcards N)"

definition deck_ok :: "u8 list \<Rightarrow> nat \<Rightarrow> nat \<Rightarrow> nat \<Rightarrow> u8 list \<Rightarrow> bool" where
  "deck_ok nrs M numcards N xoverz \<longleftrightarrow> 0 < M \<and> N \<le> 255 \<and> length xoverz = N * 32 * numcards \<and> length nrs = 255
     \<and> (\<forall>i < N. nrs ! i \<noteq> 0) \<and> distinct (take N nrs)"

interpretation deck: threshold_scheme "deck_split rnd nrs M numcards N" "\<lambda>shares. cards777_recover junk shares nrs numcards N"
  M N "deck_ok nrs M numcards N" for rnd junk nrs M numcards N
proof
  fix xoverz P
  assume "deck_ok nrs M numcards N xoverz" and "M \<le> card {i. i < N \<and> P i}"
  then show "\<exists>hs. deck_split rnd nrs M numcards N xoverz = Some hs
    \<and> cards777_recover junk (map (\<lambda>i. if P i then Some (hs ! i) else None) [0..<N]) nrs numcards N = Some xoverz"
    using recover_calcmofn [of M N xoverz numcards nrs P rnd junk] by (fastforce simp: deck_ok_def deck_split_def)
qed

lemma deck_quorums_agree:
  assumes "deck_ok nrs M numcards N xoverz" and "deck_split rnd nrs M numcards N xoverz = Some hs"
    and "M \<le> card {i. i < N \<and> P i}" and "M \<le> card {i. i < N \<and> Q i}"
  shows "cards777_recover junk (map (\<lambda>i. if P i then Some (hs ! i) else None) [0..<N]) nrs numcards N
    = cards777_recover junk (map (\<lambda>i. if Q i then Some (hs ! i) else None) [0..<N]) nrs numcards N"
  by (rule deck.quorums_agree [OF assms])

text \<open>
  C25. The players of a hand recover the factors of an absent player: whatever \<open>M\<close> or more of the
  shares from \<open>cards777_calcmofn\<close> are still there, \<open>cards777_recover\<close> returns the factors, through a
  context whose memory held anything before.
\<close>

theorem deck_factors_recovered:
  assumes "0 < M" and "N \<le> 255" and "length xoverz = N * 32 * numcards"
    and "length nrs = 255" and "\<forall>i < N. nrs ! i \<noteq> 0" and "distinct (take N nrs)"
    and "M \<le> card {i. i < N \<and> present i}"
  shows "\<exists>allshares myshares. cards777_calcmofn rnd nrs M xoverz numcards N = Some (allshares, myshares, N * 32 * numcards)
    \<and> cards777_recover junk (map (\<lambda>i. if present i then Some (myshares ! i) else None) [0..<N]) nrs numcards N = Some xoverz"
  using assms by (rule recover_calcmofn)

theorem deck_factors_recovered_witness:
  "\<exists>allshares myshares. cards777_calcmofn (\<lambda>k. word_of_nat k) ([4, 5, 6] @ replicate 252 0) 2 (replicate 96 7) 1 3 = Some (allshares, myshares, 3 * 32 * 1)
    \<and> cards777_recover (\<lambda>k. 0) (map (\<lambda>i. if i \<noteq> 1 then Some (myshares ! i) else None) [0..<3]) ([4, 5, 6] @ replicate 252 0) 1 3 = Some (replicate 96 7)"
proof (rule deck_factors_recovered)
  have "{i. i < 3 \<and> i \<noteq> 1} = {0, 2 :: nat}" by auto
  then show "2 \<le> card {i. i < 3 \<and> i \<noteq> (1 :: nat)}" by simp
qed (auto simp: less_Suc_eq numeral_3_eq_3)

section \<open>Drawing the numbers\<close>

lemma full_step_eq:
  assumes "0 < rem" and "rem \<le> length valid" and "i < length nrs"
  shows "full_step rv i (nrs, valid, rem) = (let r = unat (rv i) mod rem in
    Some (nrs[i := valid ! r], valid[r := valid ! (rem - 1)], rem - 1))"
proof -
  have "unat (rv i) mod rem < length valid" using assms by (metis mod_less_divisor order_less_le_trans)
  then show ?thesis using assms by (simp add: full_step_def aget_nat aput_nat Let_def flip: of_nat_diff)
qed

text \<open>The numbers that are left are distinct, not 0 and not drawn yet.\<close>

lemma full_loop:
  assumes "n < 255" and "n \<le> length nrs" and "k \<le> n"
  shows "\<exists>s v. ofold (full_step rv) [0..<k] (nrs, map (\<lambda>i. word_of_nat (i + 1)) [0..<255], 255) = Some (s, v, 255 - k)
    \<and> length s = length nrs \<and> length v = 255 \<and> distinct (take k s @ take (255 - k) v) \<and> 0 \<notin> set (take k s @ take (255 - k) v)"
  using assms(3)
proof (induction k)
  case 0
  let ?v = "map (\<lambda>i. word_of_nat (i + 1) :: u8) [0..<255]"
  have u: "unat (word_of_nat (i + 1) :: u8) = i + 1" if "i < 255" for i
    using that by (simp add: unsigned_of_nat take_bit_eq_mod del: of_nat_Suc of_nat_add)
  have "inj_on (\<lambda>i. word_of_nat (i + 1) :: u8) {0..<255}"
    by (rule inj_onI) (metis u atLeastLessThan_iff add_right_cancel)
  moreover have "word_of_nat (i + 1) \<noteq> (0 :: u8)" if "i < 255" for i
    using u [OF that] by (metis add_is_0 one_neq_zero unat_eq_zero)
  ultimately show ?case by (auto simp: distinct_map simp del: of_nat_Suc of_nat_add upt_rec_numeral)
next
  case (Suc k)
  then obtain s v where sv: "ofold (full_step rv) [0..<k] (nrs, map (\<lambda>i. word_of_nat (i + 1)) [0..<255], 255) = Some (s, v, 255 - k)"
    "length s = length nrs" "length v = 255" "distinct (take k s @ take (255 - k) v)" "0 \<notin> set (take k s @ take (255 - k) v)"
    by auto
  let ?R = "255 - k" and ?r = "unat (rv k) mod (255 - k)"
  have R: "0 < ?R" "?R \<le> length v" "k < length s" using Suc.prems assms(1,2) sv by auto
  have r: "?r < ?R" using R by simp
  let ?s = "s[k := v ! ?r]" and ?v = "v[?r := v ! (?R - 1)]"
  have step: "full_step rv k (s, v, ?R) = Some (?s, ?v, 255 - Suc k)"
    using full_step_eq [OF R] by (simp add: Let_def)
  have t: "take (Suc k) ?s = take k s @ [v ! ?r]" using R(3) by (simp add: take_Suc_conv_app_nth)
  let ?w = "take ?R v"
  have w: "?w = butlast ?w @ [v ! (?R - 1)]"
  proof -
    have "last ?w = v ! (?R - 1)" using R by (subst last_conv_nth) auto
    then show ?thesis using R append_butlast_last_id [of ?w] by fastforce
  qed
  have lw: "length (butlast ?w) = ?R - 1" using R by simp
  have "mset (take (?R - 1) ?v @ [v ! ?r]) = mset ?w"
  proof (cases "?r = ?R - 1")
    case True
    then show ?thesis using R by (subst w) (simp add: butlast_take)
  next
    case False
    then have "?r < ?R - 1" using r by simp
    then have "take (?R - 1) ?v = (butlast ?w)[?r := v ! (?R - 1)]" using R by (simp add: take_update_swap butlast_take)
    moreover have "butlast ?w ! ?r = v ! ?r" using \<open>?r < ?R - 1\<close> R by (simp add: nth_butlast)
    moreover have "butlast ?w ! ?r \<in> set (butlast ?w)" using \<open>?r < ?R - 1\<close> lw by (intro nth_mem) linarith
    ultimately show ?thesis using \<open>?r < ?R - 1\<close> lw by (subst w) (simp add: mset_update)
  qed
  then have "mset (take (Suc k) ?s @ take (255 - Suc k) ?v) = mset (take k s @ ?w)"
    unfolding t by (simp add: ac_simps)
  then have "distinct (take (Suc k) ?s @ take (255 - Suc k) ?v)" "0 \<notin> set (take (Suc k) ?s @ take (255 - Suc k) ?v)"
    using sv(4,5) by (metis mset_eq_imp_distinct_iff, metis mset_eq_setD)
  then show ?case using sv(1-3) step by (simp add: ofold_append)
qed

lemma duplicate_iff: "duplicate nrs m \<longleftrightarrow> (\<exists>i < m. \<exists>j < m. i \<noteq> j \<and> nrs ! i \<noteq> 0 \<and> nrs ! i = nrs ! j)"
  unfolding duplicate_def list_ex_iff set_upt by (simp add: Bex_def)

text \<open>
  A full set of numbers: \<open>init_sharenrs\<close> without an original set returns 0 and fills
  the array with distinct numbers that are not 0, whatever bytes are drawn. These are the numbers
  that splitting and recombining need.
\<close>

theorem init_sharenrs_distinct:
  assumes "n < 255" and "length nrs = 255"
  shows "\<exists>s. init_sharenrs fill nrs None n n = Some (0, s) \<and> length s = 255 \<and> distinct (take n s) \<and> (\<forall>i < n. s ! i \<noteq> 0)"
proof -
  obtain z where z: "mwrite nrs 0 (replicate n 0) = Some z" "length z = 255"
    using mwrite_total [of 0 "replicate n 0" nrs] mwrite_SomeD(1) [of nrs 0 "replicate n 0"] assms by auto
  obtain s v where sv: "ofold (full_step (fill 0)) [0..<n] (z, map (\<lambda>i. word_of_nat (i + 1)) [0..<255], 255) = Some (s, v, 255 - n)"
    "length s = 255" "distinct (take n s @ take (255 - n) v)" "0 \<notin> set (take n s @ take (255 - n) v)"
    using full_loop [of n z n "fill 0"] assms z(2) by auto
  have d: "distinct (take n s)" "0 \<notin> set (take n s)" using sv(3,4) by auto
  have "\<not> duplicate s n" using d sv(2) assms(1) by (auto simp: duplicate_iff distinct_conv_nth)
  moreover have "\<forall>i < n. s ! i \<noteq> 0" using d(2) sv(2) assms(1) by (auto simp: in_set_conv_nth)
  ultimately show ?thesis using assms(1) z(1) sv(1,2) d(1) by (simp add: init_sharenrs_def)
qed

theorem init_sharenrs_distinct_witness:
  "\<exists>s. init_sharenrs (\<lambda>k i. 0) (replicate 255 0) None 9 9 = Some (0, s) \<and> length s = 255 \<and> distinct (take 9 s) \<and> (\<forall>i < 9. s ! i \<noteq> 0)"
  by (rule init_sharenrs_distinct) simp_all


text \<open>The position that the draw at time \<open>t\<close> picks.\<close>

definition draw :: "(nat \<Rightarrow> nat \<Rightarrow> u8) \<Rightarrow> nat \<Rightarrow> nat \<Rightarrow> nat" where
  "draw fill n t = unat (fill (t div 65536) (t mod 65536)) mod n"

definition open_slots :: "nat \<Rightarrow> u8 list \<Rightarrow> nat set" where
  "open_slots n v = {p. p < n \<and> v ! p \<noteq> 0}"

lemma finite_open_slots [simp]: "finite (open_slots n v)"
  by (rule finite_subset [of _ "{..<n}"]) (auto simp: open_slots_def)

lemma pick_loop_done: "\<not> i < m \<Longrightarrow> pick_loop fill m n i j k s v rem = Some (s, rem)"
  by (subst pick_loop.simps) simp

lemma pick_loop_step:
  assumes "i < m" and "0 < n" and "length v = n" and "n \<le> length s" and "j \<le> 65536" and "k * 65536 + j = t"
  shows "\<exists>j' k'. j' \<le> 65536 \<and> k' * 65536 + j' = Suc t \<and>
    pick_loop fill m n i j k s v rem =
      (let r = draw fill n t in
       if v ! r \<noteq> 0 then pick_loop fill m n (i + 1) j' k' (s[r := v ! r]) (v[r := 0]) (rem - 1)
       else pick_loop fill m n i j' k' s v rem)"
proof -
  obtain j1 k1 where jk: "(j1, k1) = (if j \<ge> 65536 then (0, k + 1) else (j, k))" by (metis surj_pair)
  then have t: "j1 < 65536" "k1 * 65536 + j1 = t" using assms(5,6) by (auto split: if_splits)
  then have "t div 65536 = k1" "t mod 65536 = j1" by auto
  then have d: "unat (fill k1 j1) mod n = draw fill n t" by (simp add: draw_def)
  have r: "draw fill n t < n" using assms(2) by (simp add: draw_def)
  have "pick_loop fill m n i j k s v rem =
      (let r = draw fill n t in
       if v ! r \<noteq> 0 then pick_loop fill m n (i + 1) (j1 + 1) k1 (s[r := v ! r]) (v[r := 0]) (rem - 1)
       else pick_loop fill m n i (j1 + 1) k1 s v rem)"
    using assms(1-4) r
    by (subst pick_loop.simps) (simp add: jk [symmetric] d Let_def aget_nat aput_nat del: of_nat_Suc)
  then show ?thesis using t by (intro exI [of _ "j1 + 1"] exI [of _ k1]) auto
qed

text \<open>Skipping draws of places that are taken, up to the next one that is open.\<close>

lemma pick_loop_skip:
  assumes "i < m" and "0 < n" and "length v = n" and "n \<le> length s" and "j \<le> 65536" and "k * 65536 + j = t"
    and "t \<le> t'" and "v ! draw fill n t' \<noteq> 0"
  shows "\<exists>j' k' r. j' \<le> 65536 \<and> r \<in> open_slots n v
    \<and> pick_loop fill m n i j k s v rem = pick_loop fill m n (i + 1) j' k' (s[r := v ! r]) (v[r := 0]) (rem - 1)"
  using assms(5-7)
proof (induction "t' - t" arbitrary: t j k)
  case 0
  then have [simp]: "t' = t" by simp
  have "draw fill n t \<in> open_slots n v" using assms(2,8) by (simp add: open_slots_def draw_def)
  then show ?case using pick_loop_step [OF assms(1-4) 0(2,3), of fill rem] assms(8) by (auto simp: Let_def)
next
  case (Suc d)
  from pick_loop_step [OF assms(1-4) Suc.prems(1,2), of fill rem] obtain j' k' where jk: "j' \<le> 65536" "k' * 65536 + j' = Suc t"
    "pick_loop fill m n i j k s v rem =
      (let r = draw fill n t in
       if v ! r \<noteq> 0 then pick_loop fill m n (i + 1) j' k' (s[r := v ! r]) (v[r := 0]) (rem - 1)
       else pick_loop fill m n i j' k' s v rem)" by blast
  show ?case
  proof (cases "v ! draw fill n t = 0")
    case True
    then show ?thesis using Suc.hyps(1) [of "Suc t" j' k'] Suc.hyps(2) jk by (simp add: Let_def)
  next
    case False
    then have "draw fill n t \<in> open_slots n v" using assms(2) by (simp add: open_slots_def draw_def)
    then show ?thesis using jk False by (auto simp: Let_def)
  qed
qed

definition fair :: "(nat \<Rightarrow> nat \<Rightarrow> u8) \<Rightarrow> nat \<Rightarrow> bool" where
  "fair fill n \<longleftrightarrow> (\<forall>p < n. \<forall>t. \<exists>t' \<ge> t. draw fill n t' = p)"

lemma pick_loop_ends:
  assumes "fair fill n" and "0 < n" and "length v = n" and "n \<le> length s" and "j \<le> 65536"
    and "m - i \<le> card (open_slots n v)"
  shows "\<exists>s' C. pick_loop fill m n i j k s v rem = Some (s', rem - (m - i)) \<and> C \<subseteq> open_slots n v \<and> card C = m - i
    \<and> length s' = length s \<and> (\<forall>p < length s. s' ! p = (if p \<in> C then v ! p else s ! p))"
  using assms(3-6)
proof (induction "m - i" arbitrary: i j k s v rem)
  case 0
  then show ?case by (intro exI [of _ s] exI [of _ "{}"]) (simp add: pick_loop_done)
next
  case (Suc d)
  then have im: "i < m" by simp
  have "open_slots n v \<noteq> {}" using Suc.hyps(2) Suc.prems(4) by force
  then obtain p where "p < n" "v ! p \<noteq> 0" by (auto simp: open_slots_def)
  then obtain t' where "k * 65536 + j \<le> t'" "v ! draw fill n t' \<noteq> 0" using assms(1) by (metis fair_def)
  from pick_loop_skip [OF im assms(2) Suc.prems(1-3) refl this, of rem] obtain j' k' r where r: "j' \<le> 65536" "r \<in> open_slots n v"
    "pick_loop fill m n i j k s v rem = pick_loop fill m n (i + 1) j' k' (s[r := v ! r]) (v[r := 0]) (rem - 1)" by blast
  have o: "open_slots n (v[r := 0]) = open_slots n v - {r}"
    using Suc.prems(1) r(2) by (auto simp: open_slots_def nth_list_update split: if_splits)
  have d: "d = m - (i + 1)" "m - (i + 1) \<le> card (open_slots n v - {r})" using Suc.hyps(2) Suc.prems(4) r(2) by auto
  obtain s' C where ih: "pick_loop fill m n (i + 1) j' k' (s[r := v ! r]) (v[r := 0]) (rem - 1) = Some (s', rem - 1 - (m - (i + 1)))"
    "C \<subseteq> open_slots n v - {r}" "card C = m - (i + 1)" "length s' = length s"
    "\<forall>p < length s. s' ! p = (if p \<in> C then v[r := 0] ! p else s[r := v ! r] ! p)"
    using Suc.hyps(1) [of "i + 1" "v[r := 0]" "s[r := v ! r]" j' k' "rem - 1", unfolded o, OF d(1) _ _ r(1) d(2)] Suc.prems(1,2) by auto
  have rn: "r < n" "r < length s" using r(2) Suc.prems(2) by (auto simp: open_slots_def)
  have "finite C" using ih(2) finite_subset by (metis finite_Diff finite_open_slots)
  moreover have "r \<notin> C" using ih(2) by blast
  ultimately have "card (insert r C) = m - i" using ih(3) im by simp
  moreover have "\<forall>p < length s. s' ! p = (if p \<in> insert r C then v ! p else s ! p)"
    using ih(2,5) rn \<open>r \<notin> C\<close> Suc.prems(1) by (auto simp: nth_list_update)
  moreover have "insert r C \<subseteq> open_slots n v" using ih(2) r(2) by blast
  ultimately show ?case using r(3) ih(1,4) im by (intro exI [of _ s'] exI [of _ "insert r C"]) auto
qed

text \<open>
  C14. The loop that draws places ends: if every place keeps being drawn, and the original set has
  at least \<open>m\<close> numbers among its first \<open>n\<close> that are not 0, \<open>init_sharenrs\<close> returns 0 with exactly \<open>m\<close>
  of the numbers kept at their places and 0 elsewhere. The numbers of the original set are distinct.
\<close>

theorem init_sharenrs_terminates:
  assumes "m \<le> n" and "0 < n" and "n < 255" and "length nrs = 255" and "n \<le> length orig"
    and "\<forall>p < n. \<forall>q < n. p \<noteq> q \<and> orig ! p \<noteq> 0 \<longrightarrow> orig ! p \<noteq> orig ! q" and "m \<le> card {p. p < n \<and> orig ! p \<noteq> 0}"
    and "\<forall>p < n. \<forall>t. \<exists>t' \<ge> t. unat (fill (t' div 65536) (t' mod 65536)) mod n = p"
  shows "\<exists>s. init_sharenrs fill nrs (Some orig) m n = Some (0, s) \<and> length s = 255
    \<and> card {p. p < n \<and> s ! p \<noteq> 0} = m \<and> (\<forall>p < n. s ! p = 0 \<or> s ! p = orig ! p)"
proof -
  obtain z where z: "mwrite nrs 0 (replicate n 0) = Some z" "length z = 255"
    using mwrite_total [of 0 "replicate n 0" nrs] mwrite_SomeD(1) [of nrs 0 "replicate n 0"] assms(3,4) by auto
  have z0: "z ! p = 0" if "p < n" for p using mwrite_SomeD(3) [OF z(1), of p] that assms(3,4) by simp
  have o: "open_slots n (take n orig) = {p. p < n \<and> orig ! p \<noteq> 0}" by (auto simp: open_slots_def)
  have fair: "fair fill n" using assms(8) by (simp add: fair_def draw_def)
  obtain s C where sC: "pick_loop fill m n 0 0 0 z (take n orig) n = Some (s, n - m)" "C \<subseteq> {p. p < n \<and> orig ! p \<noteq> 0}"
    "card C = m" "length s = 255" "\<forall>p < 255. s ! p = (if p \<in> C then take n orig ! p else z ! p)"
    using pick_loop_ends [OF fair assms(2), of "take n orig" z 0 m 0 0 n] assms(3,5,7) z(2) unfolding o by auto
  have s: "s ! p = (if p \<in> C then orig ! p else 0)" if "p < n" for p using sC(5) z0 that assms(3) by auto
  have set: "{p. p < n \<and> s ! p \<noteq> 0} = C" using s sC(2) by (auto split: if_splits)
  have "\<not> duplicate s m"
    unfolding duplicate_iff using s assms(1,6) by (metis (no_types, lifting) order_less_le_trans)
  then have "init_sharenrs fill nrs (Some orig) m n = Some (0, s)"
    using assms(1,3,5) z(1) sC(1) by (simp add: init_sharenrs_def mread_def)
  moreover have "\<forall>p < n. s ! p = 0 \<or> s ! p = orig ! p" using s by simp
  ultimately show ?thesis using set sC(3,4) by blast
qed


theorem init_sharenrs_terminates_witness:
  "\<exists>s. init_sharenrs (\<lambda>k i. word_of_nat i) (replicate 255 0) (Some [7, 0, 9]) 2 3 = Some (0, s) \<and> length s = 255
    \<and> card {p. p < 3 \<and> s ! p \<noteq> 0} = 2 \<and> (\<forall>p < 3. s ! p = 0 \<or> s ! p = [7, 0, 9] ! p)"
proof (rule init_sharenrs_terminates)
  have "{p. p < 3 \<and> [7, 0, 9 :: u8] ! p \<noteq> 0} = {0, 2}" by (auto simp: less_Suc_eq numeral_3_eq_3)
  then show "2 \<le> card {p. p < 3 \<and> [7, 0, 9 :: u8] ! p \<noteq> 0}" by simp
  show "\<forall>p < 3. \<forall>t. \<exists>t' \<ge> t. unat (word_of_nat (t' mod 65536) :: u8) mod 3 = p"
  proof (intro allI impI)
    fix p t :: nat assume "p < 3"
    then show "\<exists>t' \<ge> t. unat (word_of_nat (t' mod 65536) :: u8) mod 3 = p"
      by (intro exI [of _ "65536 * t + p"]) (simp add: unsigned_of_nat take_bit_eq_mod)
  qed
qed (auto simp: less_Suc_eq numeral_3_eq_3)

section \<open>The decoder in any order of calls\<close>

text \<open>
  The contexts that a program can reach with the calls of the decoder: the numbers of the shares
  may change between the shares, shares may be given twice, and numbers may repeat.
\<close>

inductive dec_run :: "(nat \<Rightarrow> u8) \<Rightarrow> nat \<Rightarrow> nat \<Rightarrow> gfshare_ctx \<Rightarrow> bool" for junk N sz where
  dec_init: "gfshare_ctx_init_dec junk nrs N sz = Some ctx \<Longrightarrow> dec_run junk N sz ctx"
| dec_give: "dec_run junk N sz ctx \<Longrightarrow> unat nr < N \<Longrightarrow> gfshare_ctx_dec_giveshare ctx nr share = Some ctx' \<Longrightarrow> dec_run junk N sz ctx'"
| dec_new: "dec_run junk N sz ctx \<Longrightarrow> gfshare_ctx_dec_newshares ctx nrs = Some ctx' \<Longrightarrow> dec_run junk N sz ctx'"

definition dec_ok :: "nat \<Rightarrow> nat \<Rightarrow> gfshare_ctx \<Rightarrow> bool" where
  "dec_ok N sz ctx \<longleftrightarrow> N \<le> 255 \<and> sharecount ctx = N \<and> ctx_size ctx = sz \<and> threshold ctx = 0 \<and> buffersize ctx = N * sz
     \<and> length (sharenrs ctx) = 255 \<and> length (buffer ctx) = N * sz"

lemma dec_run_ok: "dec_run junk N sz ctx \<Longrightarrow> dec_ok N sz ctx"
proof (induction rule: dec_run.induct)
  case (dec_init nrs ctx)
  then have "N \<le> 255"
    by (auto simp: gfshare_ctx_init_dec_def gfshare_ctx_init_core_def mread_def mwrite_def Let_def bind_Some_conv split: if_splits)
  then show ?case using dec_init
    by (auto simp: dec_ok_def gfshare_ctx_init_dec_def gfshare_ctx_init_core_def bind_Some_conv dest: mwrite_SomeD(1))
qed (auto simp: dec_ok_def gfshare_ctx_dec_giveshare_def gfshare_ctx_dec_newshares_def bind_Some_conv dest: mwrite_SomeD(1))

lemma li_loop_total:
  assumes "N \<le> length nrs"
  shows "\<exists>t b. ofold (li_step nrs i x) [0..<N] (0, 0) = Some (t, b) \<and> t < 255 \<and> b < 255"
proof -
  have "\<exists>s'. li_step nrs i x j s = Some s' \<and> fst s' < 255 \<and> snd s' < 255"
    if "j \<in> set [0..<N]" "fst s < 255 \<and> snd s < 255" for j s
    using that assms wrap_255 [of "fst s" "nrs ! j"] wrap_255 [of "snd s" "x XOR nrs ! j"]
    by (cases s) (auto simp: li_step_def aget_nat aget_logs Let_def simp flip: glog_def)
  from ofold_keeps [of "[0..<N]" "\<lambda>s. fst s < 255 \<and> snd s < 255" "li_step nrs i x" "(0, 0)", OF this]
  show ?thesis by auto
qed

lemma extract_step_total:
  assumes "N \<le> length nrs" and "i < N" and "N * sz \<le> length buf" and "length sec = sz"
  shows "\<exists>sec'. extract_step nrs N buf sz sz i sec = Some sec' \<and> length sec' = sz"
proof -
  obtain t b where tb: "ofold (li_step nrs i (nrs ! i)) [0..<N] (0, 0) = Some (t, b)" "t < 255" "b < 255"
    using li_loop_total [OF assms(1)] by blast
  have "Suc i * sz \<le> N * sz" using assms(2) by (intro mult_le_mono1) simp
  then have r: "mread buf (sz * i) sz = Some (take sz (drop (sz * i) buf))" and l: "sz * i + sz \<le> length buf"
    using assms(3) by (simp_all add: mread_def mult.commute)
  let ?t = "(if b > t then t + 255 else t) - b"
  have "those (map2 (extract_byte ?t) sec (take sz (drop (sz * i) buf)))
    = Some (map (\<lambda>p. ungf (Gf (sec ! p) + Gf 2 ^ ?t * Gf (take sz (drop (sz * i) buf) ! p))) [0..<sz])"
    using assms(4) l by (subst map2_nths [of _ sz]) (simp_all add: extract_byte_eq [OF li_top(1) [OF tb(2,3)]] those_map_Some)
  then show ?thesis using assms(1,2,4) tb(1) r
    by (auto simp: extract_step_def aget_nat mread_def [of sec] mwrite_def Let_def)
qed

text \<open>
  C26. The decoder keeps its type: after any calls of \<open>gfshare_ctx_dec_giveshare\<close> (for an index below
  the count) and \<open>gfshare_ctx_dec_newshares\<close>, in any order and with any content, the context has the
  count, the size and the arrays that \<open>gfshare_ctx_init_dec\<close> gave it, and \<open>gfshare_ctx_dec_extract\<close>
  returns \<open>size\<close> bytes without leaving an array or a table, even when numbers are repeated.
\<close>

theorem decoder_well_typed:
  assumes "dec_run junk N sz ctx"
  shows "dec_ok N sz ctx \<and> (\<exists>secret. gfshare_ctx_dec_extract ctx = Some secret \<and> length secret = sz)"
proof -
  have ok: "dec_ok N sz ctx" using assms by (rule dec_run_ok)
  have "\<exists>s'. ofold (extract_step (sharenrs ctx) N (buffer ctx) sz sz) [0..<N] (replicate sz 0) = Some s' \<and> length s' = sz"
    by (rule ofold_keeps) (use ok extract_step_total in \<open>auto simp: dec_ok_def\<close>)
  then show ?thesis using ok by (auto simp: dec_ok_def gfshare_ctx_dec_extract_def gfshare_extract_def)
qed

theorem decoder_well_typed_witness:
  "\<exists>ctx. dec_run (\<lambda>k. 5) 2 1 ctx \<and> dec_ok 2 1 ctx \<and> (\<exists>secret. gfshare_ctx_dec_extract ctx = Some secret \<and> length secret = 1)"
proof -
  have "\<exists>ctx. gfshare_ctx_init_dec (\<lambda>k. 5) [3, 3] 2 1 = Some ctx"
    by (simp add: gfshare_ctx_init_dec_def gfshare_ctx_init_core_def mread_def mwrite_def)
  then obtain ctx where "dec_run (\<lambda>k. 5) 2 1 ctx" by (auto intro: dec_init)
  with decoder_well_typed [OF this] show ?thesis by blast
qed


end
