(* ===== verification/Files777.thy ===== *)
theory Files777
  imports Prelude777
begin

text \<open>
  Files as the stores use them through \<open>stdio\<close>: byte sequences with a position, read and written at the
  position. Writes succeed; a full disk is not modelled.
\<close>

section \<open>Files\<close>

record dfile =
  fdata :: "u8 list"
  fpos :: nat

definition fseek :: "dfile \<Rightarrow> nat \<Rightarrow> dfile" where
  "fseek f n = f\<lparr>fpos := n\<rparr>"

definition fread :: "dfile \<Rightarrow> nat \<Rightarrow> u8 list \<times> dfile" where
  "fread f n = (let bs = take n (drop (fpos f) (fdata f)) in (bs, f\<lparr>fpos := fpos f + length bs\<rparr>))"

text \<open>A write behind the end of the file fills the gap with zeros.\<close>

definition fwrite :: "dfile \<Rightarrow> u8 list \<Rightarrow> dfile" where
  "fwrite f bs = f\<lparr>fdata := take (fpos f) (fdata f) @ replicate (fpos f - length (fdata f)) 0 @ bs @ drop (fpos f + length bs) (fdata f),
                   fpos := fpos f + length bs\<rparr>"

section \<open>Lemmas\<close>

lemma fseek_fdata [simp]: "fdata (fseek f n) = fdata f"
  by (simp add: fseek_def)

lemma fread_fdata: "fread f n = (bs, f') \<Longrightarrow> fdata f' = fdata f"
  by (auto simp: fread_def Let_def)

lemma take_fwrite:
  assumes "take (length old) (fdata f) = old"
  shows "take (length old + length bs) (fdata (fwrite (fseek f (length old)) bs)) = old @ bs"
    and "fpos (fwrite (fseek f (length old)) bs) = length old + length bs"
proof -
  have "length old \<le> length (fdata f)" using assms by (metis length_take min.cobounded1 nat_le_linear take_all)
  then show "take (length old + length bs) (fdata (fwrite (fseek f (length old)) bs)) = old @ bs"
    using assms by (simp add: fwrite_def fseek_def)
qed (simp add: fwrite_def fseek_def)

lemma take_fwrite2:
  assumes "take (length old) (fdata f) = old"
  shows "take (length old + (length as + length bs)) (fdata (fwrite (fwrite (fseek f (length old)) as) bs)) = old @ as @ bs"
proof -
  let ?g = "fwrite (fseek f (length old)) as"
  note 1 = take_fwrite [OF assms, of as]
  have "fseek ?g (length (old @ as)) = ?g" using 1(2) by (simp add: fseek_def)
  then show ?thesis using take_fwrite(1) [of "old @ as" ?g bs] 1(1) by (simp add: add.assoc)
qed

text \<open>Reading inside the first bytes of a file.\<close>

lemma fread_prefix:
  assumes "take n (fdata f) = bs" and "fpos f + k \<le> n" and "length bs = n"
  shows "fread f k = (take k (drop (fpos f) bs), f\<lparr>fpos := fpos f + k\<rparr>)"
proof -
  have n: "n \<le> length (fdata f)" using assms(1,3) by auto
  have "take k (drop (fpos f) bs) = take k (drop (fpos f) (fdata f))"
    using assms(2) unfolding assms(1) [symmetric] by (simp add: drop_take min_def)
  then show ?thesis using assms(2) n by (simp add: fread_def Let_def)
qed

end
