(* ===== verification/Txind777.thy ===== *)
theory Txind777
  imports Files777
begin

text \<open>
  The transaction log, \<open>common/txind777.c\<close>: a log file with the transactions, each behind its length,
  block and time, an index file with a position and length per transaction, and a header file to which
  every flush appends the state. The operations append, look up by block and read transactions, and
  rebuild the state from the files after a restart.

  Files are those of \<^theory_text>\<open>Files777\<close>. The header file holds whole headers. Writes
  succeed; a full disk is not modelled. The hash of the transactions and the content of memory that
  \<open>realloc\<close> adds are arguments.
\<close>

section \<open>The state\<close>

text \<open>\<open>'s\<close> is the state and value of the hash.\<close>

record 's txinds777_hdr =
  num :: nat
  nextpos :: nat
  blocknum :: u32
  timestamp :: u32
  firstblocknum :: u32
  lastblocknum :: u32
  state :: 's

record 's hdrfile =
  hdrs :: "'s txinds777_hdr list"
  hpos :: nat

record 's txinds777_info =
  H :: "'s txinds777_hdr"
  txlogfp :: "dfile option"
  indexfp :: "dfile option"
  fp :: "'s hdrfile option"
  curitem :: nat
  blockitems :: "u64 list option"

section \<open>Blocks\<close>

definition txinds777_seek :: "'s txinds777_info \<Rightarrow> u32 \<Rightarrow> (u64 \<times> 's txinds777_info) option" where
  "txinds777_seek txinds block =
     (case blockitems txinds of
        Some items \<Rightarrow>
          if firstblocknum (H txinds) \<le> block \<and> block \<le> lastblocknum (H txinds)
          then do { item \<leftarrow> aget items (uint (block - firstblocknum (H txinds)));
                    Some (item, txinds\<lparr>curitem := unat item\<rparr>) }
          else Some (0, txinds\<lparr>curitem := 0\<rparr>)
      | None \<Rightarrow> Some (0, txinds\<lparr>curitem := 0\<rparr>))"

text \<open>
  \<open>memset\<close> over \<open>n\<close> bytes of an array of 64-bit integers, from the cell \<open>k\<close> on: whole cells become 0, the
  last one loses its low bytes.
\<close>

definition memset_bytes :: "u64 list \<Rightarrow> nat \<Rightarrow> nat \<Rightarrow> u64 list" where
  "memset_bytes items k n =
     map (\<lambda>i. if i < k \<or> k + n div 8 < i then items ! i
              else if i < k + n div 8 then 0
              else push_bit (8 * (n mod 8)) (drop_bit (8 * (n mod 8)) (items ! i)))
         [0..<length items]"

definition txinds777_ensure :: "(nat \<Rightarrow> u64) \<Rightarrow> 's txinds777_info \<Rightarrow> u32 \<Rightarrow> u64 \<Rightarrow> 's txinds777_info option" where
  "txinds777_ensure junk txinds block item =
     do { (items, h) \<leftarrow>
            (case blockitems txinds of
               None \<Rightarrow> Some ([junk 0], (H txinds)\<lparr>firstblocknum := block, lastblocknum := block\<rparr>)
             | Some items \<Rightarrow>
                 if lastblocknum (H txinds) < block
                 then let oldrange = sint (lastblocknum (H txinds) - firstblocknum (H txinds) + 1);
                          newrange = sint (block - firstblocknum (H txinds) + 1)
                      in if oldrange < 0 \<or> newrange < oldrange then None
                         else let items = take (nat newrange) (items @ map junk [length items..<nat newrange]);
                                  items = (if newrange > oldrange + 1
                                           then memset_bytes items (nat oldrange) (nat (newrange - oldrange)) else items)
                              in Some (items, (H txinds)\<lparr>lastblocknum := block\<rparr>)
                 else Some (items, H txinds));
          items \<leftarrow> aput items (sint (block - firstblocknum h)) item;
          Some (txinds\<lparr>H := h, blockitems := Some items\<rparr>) }"

section \<open>Appending and reading\<close>

definition triplet :: "u16 \<Rightarrow> u32 \<Rightarrow> u32 \<Rightarrow> u8 list" where
  "triplet len block time = le_bytes 4 (ucast len :: u32) @ le_bytes 4 block @ le_bytes 4 time"

text \<open>\<open>upd\<close> is \<open>update_sha256\<close>. A null pointer for the data is \<open>None\<close>.\<close>

definition txind777_create ::
    "('s \<Rightarrow> u8 list \<Rightarrow> 's) \<Rightarrow> (nat \<Rightarrow> u64) \<Rightarrow> 's txinds777_info \<Rightarrow> u32 \<Rightarrow> u32 \<Rightarrow> u8 list option \<Rightarrow> u16 \<Rightarrow> (i64 \<times> 's txinds777_info) option" where
  "txind777_create upd junk txinds block time txdata len =
     (case txdata of
        None \<Rightarrow> Some (0, txinds)
      | Some txdata \<Rightarrow>
          if len = 0 then Some (- 1, txinds)
          else if length txdata < unat len then None
          else let data = take (unat len) txdata;
                   txind = push_bit 16 (word_of_nat (nextpos (H txinds))) OR (word_of_nat (unat len + 12) :: i64);
                   txinds = txinds\<lparr>txlogfp := map_option (\<lambda>f. fwrite (fwrite (fseek f (nextpos (H txinds))) (triplet len block time)) data) (txlogfp txinds)\<rparr>
               in do { txinds \<leftarrow>
                         (case indexfp txinds of
                            None \<Rightarrow> Some txinds
                          | Some f \<Rightarrow>
                              do { txinds \<leftarrow> txinds777_ensure junk txinds block (word_of_nat (num (H txinds)));
                                   Some (txinds\<lparr>indexfp := Some (fwrite (fseek f (num (H txinds) * 8)) (le_bytes 8 txind)),
                                                H := (H txinds)\<lparr>num := num (H txinds) + 1\<rparr>\<rparr>) });
                       Some (txind, txinds\<lparr>H := (H txinds)\<lparr>state := upd (state (H txinds)) data,
                                                            nextpos := nextpos (H txinds) + unat len + 12\<rparr>\<rparr>) })"

text \<open>
  \<open>txind777_bundle\<close> passes the size of the log's structure (here \<open>sizeof_info\<close>) where the size of an
  entry of the bundle is meant.
\<close>

definition txind777_bundle ::
    "nat \<Rightarrow> ('s \<Rightarrow> u8 list \<Rightarrow> 's) \<Rightarrow> (nat \<Rightarrow> u64) \<Rightarrow> 's txinds777_info \<Rightarrow> u32 \<Rightarrow> u32 \<Rightarrow> i64 list option \<Rightarrow> nat \<Rightarrow> (i64 \<times> 's txinds777_info) option" where
  "txind777_bundle sizeof_info upd junk txinds block time bundle numtx =
     (case bundle of
        None \<Rightarrow> Some (0, txinds)
      | Some b \<Rightarrow> txind777_create upd junk txinds block time (Some (concat (map (le_bytes 8) b))) (word_of_nat (numtx * sizeof_info)))"

text \<open>
  The transaction at the current item; the result is \<open>None\<close> for the null pointer. A seek to a negative
  position fails and leaves the position.
\<close>

definition txinds777_read :: "'s txinds777_info \<Rightarrow> u8 list option \<times> 's txinds777_info" where
  "txinds777_read txinds =
     (case (indexfp txinds, txlogfp txinds) of
        (Some ix, Some lg) \<Rightarrow>
          (let (bs, ix) = fread (fseek ix (curitem txinds * 8)) 8;
               txinds = txinds\<lparr>indexfp := Some ix\<rparr>
           in if length bs \<noteq> 8 then (None, txinds)
              else let txind = (le_val bs :: i64);
                       len = unat (txind AND 0xffff);
                       pos = sint (signed_drop_bit 16 txind)
                   in if pos + int len > int (nextpos (H txinds)) then (None, txinds)
                      else let lg = (if pos < 0 then lg else fseek lg (nat pos))
                           in if len < 12 then (None, txinds\<lparr>txlogfp := Some lg\<rparr>)
                              else let (t, lg) = fread lg 12
                                   in if length t \<noteq> 12 \<or> len = 12 then (None, txinds\<lparr>txlogfp := Some lg\<rparr>)
                                      else let (buf, lg) = fread lg (len - 12);
                                               txinds = txinds\<lparr>txlogfp := Some lg\<rparr>
                                           in (if length buf = len - 12 then Some buf else None, txinds))
      | _ \<Rightarrow> (None, txinds))"

section \<open>Flushing and restarting\<close>

definition hwrite :: "'s hdrfile \<Rightarrow> 's txinds777_hdr \<Rightarrow> 's hdrfile" where
  "hwrite f h = f\<lparr>hdrs := take (hpos f) (hdrs f) @ [h] @ drop (hpos f + 1) (hdrs f), hpos := hpos f + 1\<rparr>"

definition txinds777_flush :: "'s txinds777_info \<Rightarrow> u32 \<Rightarrow> u32 \<Rightarrow> 's txinds777_info" where
  "txinds777_flush txinds block time =
     (let h = (H txinds)\<lparr>blocknum := block, timestamp := time\<rparr>
      in txinds\<lparr>H := h,
                fp := map_option (\<lambda>f. let f1 = hwrite f h; f2 = hwrite (f1\<lparr>hpos := 0\<rparr>) h in f2\<lparr>hpos := hpos f1\<rparr>) (fp txinds)\<rparr>)"

text \<open>What a process finds on the disk.\<close>

record 's disk =
  d_hdrs :: "'s txinds777_hdr list option"
  d_log :: "u8 list option"
  d_index :: "u8 list option"

definition txinds777_initfile :: "u8 list option \<Rightarrow> nat \<Rightarrow> dfile \<times> nat" where
  "txinds777_initfile content expected =
     (case content of
        Some bs \<Rightarrow> if length bs \<noteq> expected then (\<lparr>fdata = bs, fpos = expected\<rparr>, expected)
                   else (\<lparr>fdata = bs, fpos = length bs\<rparr>, length bs)
      | None \<Rightarrow> (\<lparr>fdata = [], fpos = 0\<rparr>, 0))"

text \<open>The headers behind the first one: the last that fits to the files, and the number of headers read.\<close>

fun good_header :: "nat \<Rightarrow> nat \<Rightarrow> 's txinds777_hdr list \<Rightarrow> 's txinds777_hdr \<Rightarrow> 's txinds777_hdr \<times> nat" where
  "good_header indexpos logpos [] good = (good, 0)"
| "good_header indexpos logpos (h # hs) good =
     (if num h * 8 > indexpos \<or> nextpos h > logpos then (good, 1)
      else let (g, n) = good_header indexpos logpos hs h in (g, n + 1))"

function verify_items :: "(nat \<Rightarrow> u64) \<Rightarrow> 's txinds777_info \<Rightarrow> dfile \<Rightarrow> dfile \<Rightarrow> ('s txinds777_info \<times> dfile \<times> dfile) option" where
  "verify_items junk txinds ix lg =
     (if curitem txinds < num (H txinds)
      then let (bs, ix') = fread ix 8
           in if length bs \<noteq> 8 then Some (txinds, ix', lg)
              else let txind = (le_val bs :: i64); logpos = fpos lg; (t, lg) = fread lg 12
                   in if length t \<noteq> 12 then verify_items junk txinds ix' lg
                      else let len = unat (le_val (take 4 t) :: u32); block = (le_val (take 4 (drop 4 t)) :: u32)
                           in if len + logpos > nextpos (H txinds) then Some (txinds, ix', lg)
                              else if push_bit 16 (word_of_nat logpos) OR (word_of_nat (len + 12) :: i64) \<noteq> txind
                              then Some (txinds\<lparr>H := (H txinds)\<lparr>num := curitem txinds, nextpos := logpos\<rparr>\<rparr>, ix', lg)
                              else do { txinds \<leftarrow> txinds777_ensure junk txinds block (word_of_nat (curitem txinds));
                                        verify_items junk (txinds\<lparr>curitem := curitem txinds + 1\<rparr>) ix' (fseek lg (logpos + (len + 12))) }
      else Some (txinds, ix, lg))"
  by pat_completeness auto

termination
  by (relation "measure (\<lambda>(_, _, ix, _). length (fdata ix) - fpos ix)")
    (auto simp: fread_def Let_def min_def split: if_splits)

declare verify_items.simps [simp del]

definition zero_hdr :: "'s \<Rightarrow> 's txinds777_hdr" where
  "zero_hdr z = \<lparr>num = 0, nextpos = 0, blocknum = 0, timestamp = 0, firstblocknum = 0, lastblocknum = 0, state = z\<rparr>"

text \<open>Closing the log clears its state.\<close>

definition txinds777_purge :: "'s \<Rightarrow> 's txinds777_info \<Rightarrow> 's txinds777_info" where
  "txinds777_purge z txinds = \<lparr>H = zero_hdr z, txlogfp = None, indexfp = None, fp = None, curitem = 0, blockitems = None\<rparr>"

text \<open>
  \<open>z\<close> is the zeroed state of the hash and \<open>start\<close> makes it ready for the first update.
\<close>

definition txinds777_init :: "'s \<Rightarrow> ('s \<Rightarrow> 's) \<Rightarrow> (nat \<Rightarrow> u64) \<Rightarrow> 's disk \<Rightarrow> 's txinds777_info option" where
  "txinds777_init z start junk d =
     (let txinds = \<lparr>H = zero_hdr z, txlogfp = None, indexfp = None, fp = None, curitem = 0, blockitems = None\<rparr>
      in do { txinds \<leftarrow>
                (case d_hdrs d of
                   None \<Rightarrow> Some (txinds\<lparr>fp := Some \<lparr>hdrs = [H txinds], hpos = 1\<rparr>\<rparr>)
                 | Some [] \<Rightarrow> Some (txinds\<lparr>fp := Some \<lparr>hdrs = [], hpos = 0\<rparr>\<rparr>)
                 | Some (h # hs) \<Rightarrow>
                     (let (lg, logpos) = txinds777_initfile (d_log d) (nextpos h);
                          (ix, indexpos) = txinds777_initfile (d_index d) (8 * num h);
                          (good, n) = good_header indexpos logpos hs (zero_hdr z);
                          txinds = txinds\<lparr>H := good, fp := Some \<lparr>hdrs = h # hs, hpos = 1 + n\<rparr>\<rparr>
                      in if nextpos good > 0
                         then do { (txinds, ix, lg) \<leftarrow> verify_items junk txinds (fseek ix 0) (fseek lg 0);
                                   Some (txinds\<lparr>txlogfp := Some lg, indexfp := Some ix\<rparr>) }
                         else Some (txinds\<lparr>txlogfp := Some lg, indexfp := Some ix\<rparr>)));
              let txinds = (if txlogfp txinds = None \<or> indexfp txinds = None
                            then txinds\<lparr>H := (H txinds)\<lparr>state := start (state (H txinds))\<rparr>\<rparr> else txinds);
              let txinds = (if txlogfp txinds = None then txinds\<lparr>txlogfp := Some (fst (txinds777_initfile (d_log d) 0))\<rparr> else txinds);
              Some (if indexfp txinds = None then txinds\<lparr>indexfp := Some (fst (txinds777_initfile (d_index d) 0))\<rparr> else txinds) })"

definition txind777_txbuf :: "u8 list \<Rightarrow> nat \<Rightarrow> u64 \<Rightarrow> nat \<Rightarrow> (u8 list \<times> nat) option" where
  "txind777_txbuf txbuf len val sz =
     (if len + sz \<le> length txbuf then Some (take len txbuf @ le_bytes sz val @ drop (len + sz) txbuf, len + sz) else None)"

section \<open>The content of the files\<close>

text \<open>A transaction is its block, its time and its bytes.\<close>

type_synonym item = "u32 \<times> u32 \<times> u8 list"

definition item_data :: "item \<Rightarrow> u8 list" where "item_data it = snd (snd it)"
definition item_block :: "item \<Rightarrow> u32" where "item_block it = fst it"

definition item_bytes :: "item \<Rightarrow> u8 list" where
  "item_bytes it = (case it of (b, t, d) \<Rightarrow> triplet (word_of_nat (length d)) b t @ d)"

definition item_ok :: "item \<Rightarrow> bool" where
  "item_ok it \<longleftrightarrow> 0 < length (item_data it) \<and> length (item_data it) \<le> 65523"

definition log_bytes :: "item list \<Rightarrow> u8 list" where
  "log_bytes items = concat (map item_bytes items)"

definition txind_of :: "nat \<Rightarrow> nat \<Rightarrow> i64" where
  "txind_of pos len = push_bit 16 (word_of_nat pos) OR word_of_nat (len + 12)"

definition index_entry :: "item list \<Rightarrow> nat \<Rightarrow> u8 list" where
  "index_entry items k = le_bytes 8 (txind_of (length (log_bytes (take k items))) (length (item_data (items ! k))))"

lemma length_index_entry: "length (index_entry items k) = 8"
  by (simp add: index_entry_def)

definition index_bytes :: "item list \<Rightarrow> u8 list" where
  "index_bytes items = concat (map (index_entry items) [0..<length items])"

lemma length_triplet [simp]: "length (triplet l b t) = 12"
  by (simp add: triplet_def)

lemma length_item_bytes [simp]: "length (item_bytes it) = 12 + length (item_data it)"
  by (cases it) (simp add: item_bytes_def item_data_def)

lemma log_bytes_snoc [simp]: "log_bytes (items @ [it]) = log_bytes items @ item_bytes it"
  by (simp add: log_bytes_def)

lemma log_bytes_Nil [simp]: "log_bytes [] = []" "index_bytes [] = []"
  by (simp_all add: log_bytes_def index_bytes_def)

lemma index_bytes_snoc:
  "index_bytes (items @ [it]) = index_bytes items @ le_bytes 8 (txind_of (length (log_bytes items)) (length (item_data it)))"
proof -
  have "map (index_entry (items @ [it])) [0..<length items] = map (index_entry items) [0..<length items]"
    by (simp add: index_entry_def nth_append)
  then have "concat (map (index_entry (items @ [it])) [0..<length items]) = index_bytes items"
    by (simp only: index_bytes_def)
  then show ?thesis by (simp add: index_bytes_def [of "items @ [it]"] index_entry_def [of "items @ [it]" "length items"])
qed

lemma length_index_bytes [simp]: "length (index_bytes items) = 8 * length items"
  by (induction items rule: rev_induct) (simp_all add: index_bytes_snoc)

lemma log_bytes_take:
  assumes "k < length items"
  shows "take (12 + length (item_data (items ! k))) (drop (length (log_bytes (take k items))) (log_bytes items)) = item_bytes (items ! k)"
    and "length (log_bytes (take k items)) + 12 + length (item_data (items ! k)) \<le> length (log_bytes items)"
    and "length (log_bytes (take (Suc k) items)) = length (log_bytes (take k items)) + 12 + length (item_data (items ! k))"
proof -
  have "items = take k items @ [items ! k] @ drop (Suc k) items" using assms by (simp add: id_take_nth_drop)
  then have e: "log_bytes items = log_bytes (take k items) @ item_bytes (items ! k) @ log_bytes (drop (Suc k) items)"
    by (metis concat_append log_bytes_def map_append append_assoc log_bytes_snoc)
  show "take (12 + length (item_data (items ! k))) (drop (length (log_bytes (take k items))) (log_bytes items)) = item_bytes (items ! k)"
    unfolding e by simp
  show "length (log_bytes (take k items)) + 12 + length (item_data (items ! k)) \<le> length (log_bytes items)"
    unfolding e by simp
  show "length (log_bytes (take (Suc k) items)) = length (log_bytes (take k items)) + 12 + length (item_data (items ! k))"
    using assms by (simp add: take_Suc_conv_app_nth)
qed

lemma index_bytes_take:
  assumes "k < length items"
  shows "take 8 (drop (8 * k) (index_bytes items)) = index_entry items k"
proof -
  have "concat (map (index_entry items) [0..<length items])
    = concat (map (index_entry items) [0..<k]) @ index_entry items k @ concat (map (index_entry items) [Suc k..<length items])"
  proof -
    have "[0..<length items] = [0..<k] @ [k] @ [Suc k..<length items]"
      using assms by (metis append_Cons append_Nil less_imp_le_nat upt_add_eq_append upt_conv_Cons zero_le le_add_diff_inverse)
    then show ?thesis by simp
  qed
  moreover have "length (concat (map (index_entry items) [0..<k])) = 8 * k"
    by (induction k) (simp_all add: index_entry_def)
  ultimately show ?thesis by (simp add: index_bytes_def index_entry_def)
qed

text \<open>The packed index entry.\<close>

lemma bit_txind_of: "len + 12 < 65536 \<Longrightarrow> bit (txind_of pos len) n \<longleftrightarrow> n < 64 \<and> (if n < 16 then bit (len + 12) n else bit pos (n - 16))"
proof -
  assume l: "len + 12 < 65536"
  have "\<not> bit (len + 12) n" if "16 \<le> n"
  proof -
    have "len + 12 < 2 ^ n" using l that power_increasing [of 16 n "2 :: nat"] by simp
    then show ?thesis by (simp add: bit_iff_odd)
  qed
  then show ?thesis by (auto simp: txind_of_def bit_simps simp del: of_nat_add)
qed

lemma txind_of_len: "len + 12 < 65536 \<Longrightarrow> unat (txind_of pos len AND 0xffff) = len + 12"
proof -
  assume l: "len + 12 < 65536"
  have "txind_of pos len AND mask 16 = word_of_nat (len + 12)"
  proof (rule bit_word_eqI)
    fix n assume "n < LENGTH(64)"
    moreover have "\<not> bit (len + 12) n" if "16 \<le> n"
    proof -
      have "len + 12 < 2 ^ n" using l that power_increasing [of 16 n "2 :: nat"] by simp
      then show ?thesis by (simp add: bit_iff_odd)
    qed
    ultimately show "bit (txind_of pos len AND mask 16) n = bit (word_of_nat (len + 12) :: i64) n"
      by (auto simp: bit_and_iff bit_mask_iff bit_txind_of [OF l] bit_of_nat_iff simp del: of_nat_add)
  qed
  then have "txind_of pos len AND 0xffff = word_of_nat (len + 12)" by (simp add: mask_eq_exp_minus_1)
  then show ?thesis using l by (simp add: unsigned_of_nat take_bit_eq_mod del: of_nat_add)
qed

lemma txind_of_pos:
  assumes "len + 12 < 65536" and "pos < 2 ^ 47"
  shows "sint (signed_drop_bit 16 (txind_of pos len)) = int pos"
proof -
  have top: "\<not> bit pos n" if "47 \<le> n" for n
  proof -
    have "(2 :: nat) ^ 47 \<le> 2 ^ n" using that by (intro power_increasing) simp_all
    then have "pos < 2 ^ n" using assms(2) by linarith
    then show ?thesis by (simp add: bit_iff_odd)
  qed
  have e: "signed_drop_bit 16 (txind_of pos len) = word_of_nat pos"
  proof (rule bit_word_eqI)
    fix n assume n: "n < LENGTH(64)"
    show "bit (signed_drop_bit 16 (txind_of pos len)) n = bit (word_of_nat pos :: i64) n"
      using n top by (auto simp: bit_signed_drop_bit_iff bit_txind_of [OF assms(1)] bit_of_nat_iff)
  qed
  have "uint (word_of_nat pos :: i64) = int pos" using assms(2) by (simp add: unsigned_of_nat take_bit_eq_mod)
  then show ?thesis unfolding e sint_word64 using assms(2) by simp
qed


section \<open>The items of the blocks\<close>

text \<open>
  The table of blocks starts at the block of the first item, and has for every block the index of
  its last item; what it has for a block without items is not determined.
\<close>

definition blocks_ok :: "'s txinds777_info \<Rightarrow> item list \<Rightarrow> bool" where
  "blocks_ok tx items \<longleftrightarrow>
     (case blockitems tx of
        None \<Rightarrow> items = []
      | Some bl \<Rightarrow> items \<noteq> [] \<and> firstblocknum (H tx) = item_block (items ! 0)
          \<and> (\<forall>it \<in> set items. firstblocknum (H tx) \<le> item_block it \<and> item_block it \<le> lastblocknum (H tx))
          \<and> unat (lastblocknum (H tx)) - unat (firstblocknum (H tx)) < 2147483647
          \<and> length bl = Suc (unat (lastblocknum (H tx)) - unat (firstblocknum (H tx)))
          \<and> (\<forall>k < length items. (\<forall>j < length items. k < j \<longrightarrow> item_block (items ! j) \<noteq> item_block (items ! k))
               \<longrightarrow> bl ! (unat (item_block (items ! k)) - unat (firstblocknum (H tx))) = word_of_nat k))"

lemma blocks_ok_cong:
  "firstblocknum (H tx') = firstblocknum (H tx) \<Longrightarrow> lastblocknum (H tx') = lastblocknum (H tx)
    \<Longrightarrow> blockitems tx' = blockitems tx \<Longrightarrow> blocks_ok tx' items = blocks_ok tx items"
  by (cases "blockitems tx") (simp_all add: blocks_ok_def)

definition block_fits :: "item list \<Rightarrow> u32 \<Rightarrow> bool" where
  "block_fits items b \<longleftrightarrow> items = [] \<or> item_block (items ! 0) \<le> b \<and> unat b - unat (item_block (items ! 0)) < 2147483647"

lemma sint_small32:
  assumes "unat (w :: u32) \<le> 2147483647"
  shows "sint w = int (unat w)"
proof -
  have "sint (word_of_int (int (unat w)) :: u32) = (int (unat w) + 2147483648) mod 4294967296 - 2147483648"
    unfolding int_word_sint by simp
  moreover have "(int (unat w) + 2147483648) mod 4294967296 = int (unat w) + 2147483648"
    using assms by (intro mod_pos_pos_trivial) linarith+
  ultimately show ?thesis by simp
qed

lemma sint_block_diff:
  assumes "f \<le> (x :: u32)" and "unat x - unat f < 2147483647"
  shows "sint (x - f) = int (unat x - unat f)" and "sint (x - f + 1) = int (unat x - unat f) + 1"
proof -
  have u: "unat (x - f) = unat x - unat f" using assms(1) by (rule unat_sub)
  then show "sint (x - f) = int (unat x - unat f)" using assms(2) by (subst sint_small32) auto
  have "unat (x - f + 1) = unat x - unat f + 1"
    using u assms(2) unat_plus_if' [of "x - f" 1] by simp
  then show "sint (x - f + 1) = int (unat x - unat f) + 1" using assms(2) by (subst sint_small32) auto
qed

lemma length_memset_bytes [simp]: "length (memset_bytes items k n) = length items"
  by (simp add: memset_bytes_def)

lemma memset_bytes_before: "i < k \<Longrightarrow> i < length items \<Longrightarrow> memset_bytes items k n ! i = items ! i"
  by (simp add: memset_bytes_def)

text \<open>The table of blocks that \<open>txinds777_ensure\<close> leaves: longer at the end, and with the new item.\<close>

definition grown :: "u64 list \<Rightarrow> nat \<Rightarrow> u64 list \<Rightarrow> bool" where
  "grown bl n bl' \<longleftrightarrow> length bl' = n \<and> length bl \<le> n \<and> (\<forall>i < length bl. bl' ! i = bl ! i)"

lemma ensure_grows:
  assumes "blocks_ok tx items" and "block_fits items b"
  shows "\<exists>f l bl. txinds777_ensure junk tx b v
      = Some (tx\<lparr>H := (H tx)\<lparr>firstblocknum := f, lastblocknum := l\<rparr>, blockitems := Some (bl[unat b - unat f := v])\<rparr>)
    \<and> f = (if items = [] then b else item_block (items ! 0)) \<and> f \<le> b \<and> b \<le> l \<and> unat l - unat f < 2147483647
    \<and> (\<forall>it \<in> set items. item_block it \<le> l) \<and> length bl = Suc (unat l - unat f)
    \<and> (\<forall>old. blockitems tx = Some old \<longrightarrow> grown old (length bl) bl)"
proof (cases "blockitems tx")
  case None
  then have "items = []" using assms(1) by (simp add: blocks_ok_def)
  then show ?thesis using None
    by (intro exI [of _ b] exI [of _ "[junk 0]"]) (simp add: txinds777_ensure_def aput_def)
next
  case (Some old)
  define f l where "f = firstblocknum (H tx)" and "l = lastblocknum (H tx)"
  note ok = assms(1) [unfolded blocks_ok_def Some option.case, folded f_def l_def]
  have ne: "items \<noteq> []" "f = item_block (items ! 0)" using ok by auto
  then have fit: "f \<le> b" "unat b - unat f < 2147483647" using assms(2) by (auto simp: block_fits_def)
  have fl: "f \<le> l" using ok ne by (metis hd_conv_nth hd_in_set)
  have range: "unat l - unat f < 2147483647" "length old = Suc (unat l - unat f)" using ok by auto
  show ?thesis
  proof (cases "l < b")
    case True
    then have lb: "unat l - unat f < unat b - unat f" using fl by (simp add: word_less_nat_alt word_le_nat_alt)
    define nx new where "nx = unat b - unat f" and "new = Suc nx"
    let ?grow = "take new (old @ map junk [length old..<new])"
    let ?bl = "if new > Suc (length old) then memset_bytes ?grow (length old) (new - length old) else ?grow"
    have s: "sint (l - f + 1) = int (length old)" "sint (b - f + 1) = int new" "sint (b - f) = int nx"
      using sint_block_diff(2) [OF fl range(1)] sint_block_diff [OF fit] range(2) by (simp_all add: new_def nx_def)
    have len: "length old \<le> new" "length ?bl = new" using lb range(2) by (auto simp: new_def nx_def)
    have nx: "nx < length ?bl" unfolding len(2) new_def by simp
    have "txinds777_ensure junk tx b v = do { items \<leftarrow> aput ?bl (int nx) v;
        Some (tx\<lparr>H := (H tx)\<lparr>lastblocknum := b\<rparr>, blockitems := Some items\<rparr>) }"
      unfolding txinds777_ensure_def Some option.case f_def [symmetric] l_def [symmetric] s if_P [OF True] Let_def
      using len(1) by (simp add: s(3) f_def [symmetric] nat_diff_distrib')
    then have "txinds777_ensure junk tx b v = Some (tx\<lparr>H := (H tx)\<lparr>lastblocknum := b\<rparr>, blockitems := Some (?bl[nx := v])\<rparr>)"
      unfolding aput_nat [OF nx] by simp
    moreover have "grown old new ?bl" using len by (auto simp: grown_def memset_bytes_before nth_append)
    moreover have "\<forall>it \<in> set items. item_block it \<le> b" using ok True by (meson less_imp_le order_trans)
    ultimately show ?thesis using ne fit Some len(2)
      by (intro exI [of _ f] exI [of _ b] exI [of _ ?bl]) (auto simp: f_def new_def nx_def)
  next
    case False
    then have bl: "b \<le> l" by simp
    then have "unat b - unat f < length old" using range(2) fit(1) by (simp add: word_le_nat_alt)
    then have "txinds777_ensure junk tx b v = Some (tx\<lparr>blockitems := Some (old[unat b - unat f := v])\<rparr>)"
      using Some False sint_block_diff(1) [OF fit] by (simp add: txinds777_ensure_def aput_def flip: f_def l_def)
    then show ?thesis using ne fit Some bl range ok
      by (intro exI [of _ f] exI [of _ l] exI [of _ old]) (auto simp: f_def l_def grown_def)
  qed
qed

lemma ensure_blocks_ok:
  assumes "blocks_ok tx items" and "block_fits items (item_block it)"
  shows "\<exists>f l bl. txinds777_ensure junk tx (item_block it) (word_of_nat (length items))
      = Some (tx\<lparr>H := (H tx)\<lparr>firstblocknum := f, lastblocknum := l\<rparr>, blockitems := Some bl\<rparr>)
    \<and> blocks_ok (tx\<lparr>H := (H tx)\<lparr>firstblocknum := f, lastblocknum := l\<rparr>, blockitems := Some bl\<rparr>) (items @ [it])"
proof -
  let ?b = "item_block it" and ?v = "word_of_nat (length items)"
  from ensure_grows [OF assms, of junk ?v] obtain f l bl where e:
    "txinds777_ensure junk tx ?b ?v = Some (tx\<lparr>H := (H tx)\<lparr>firstblocknum := f, lastblocknum := l\<rparr>, blockitems := Some (bl[unat ?b - unat f := ?v])\<rparr>)"
    and p: "f = (if items = [] then ?b else item_block (items ! 0))" "f \<le> ?b" "?b \<le> l" "unat l - unat f < 2147483647"
    "\<forall>it \<in> set items. item_block it \<le> l" "length bl = Suc (unat l - unat f)" "\<forall>old. blockitems tx = Some old \<longrightarrow> grown old (length bl) bl"
    by blast
  have ge: "f \<le> item_block x \<and> item_block x \<le> l" if "x \<in> set (items @ [it])" for x
  proof (cases "x \<in> set items")
    case True
    then obtain old where "blockitems tx = Some old" using assms(1) by (cases "blockitems tx") (auto simp: blocks_ok_def)
    then show ?thesis using True assms(1) p(1,5) by (auto simp: blocks_ok_def)
  qed (use that p(2,3) in auto)
  let ?bl = "bl[unat ?b - unat f := ?v]"
  have last: "?bl ! (unat (item_block ((items @ [it]) ! k)) - unat f) = word_of_nat k"
    if k: "k < Suc (length items)" and nl: "\<forall>j < Suc (length items). k < j \<longrightarrow> item_block ((items @ [it]) ! j) \<noteq> item_block ((items @ [it]) ! k)" for k
  proof (cases "k = length items")
    case True
    have "unat ?b - unat f < length bl" using p(2,3,6) by (simp add: word_le_nat_alt)
    then show ?thesis using True by simp
  next
    case False
    then have k': "k < length items" using k by simp
    then obtain old where old: "blockitems tx = Some old" using assms(1) by (cases "blockitems tx") (auto simp: blocks_ok_def)
    let ?x = "item_block (items ! k)"
    have "?x \<noteq> ?b" using nl k' by (metis lessI nth_append nth_append_length)
    moreover have fx: "f \<le> ?x" "?x \<le> l" using ge [of "items ! k"] k' by auto
    ultimately have ne: "unat ?x - unat f \<noteq> unat ?b - unat f" using p(2)
      by (simp add: word_le_nat_alt word_unat_eq_iff eq_diff_iff)
    have "\<forall>j < length items. k < j \<longrightarrow> item_block (items ! j) \<noteq> ?x" using nl k' by (metis less_SucI nth_append)
    then have "old ! (unat ?x - unat f) = word_of_nat k" "unat ?x - unat f < length old"
      using assms(1) old k' p(1) nth_mem [OF k'] by (auto simp: blocks_ok_def word_le_nat_alt less_Suc_eq_le intro: diff_le_mono)
    then show ?thesis using ne k' p(7) old by (auto simp: nth_append grown_def)
  qed
  have "blocks_ok (tx\<lparr>H := (H tx)\<lparr>firstblocknum := f, lastblocknum := l\<rparr>, blockitems := Some ?bl\<rparr>) (items @ [it])"
    unfolding blocks_ok_def using p(1,4,6) ge last by (auto simp: nth_append)
  then show ?thesis using e by blast
qed


section \<open>The log\<close>

text \<open>The files begin with the items; what follows is left over from before a restart.\<close>

definition log_ok :: "'s txinds777_info \<Rightarrow> item list \<Rightarrow> bool" where
  "log_ok tx items \<longleftrightarrow>
     (\<exists>lg ix. txlogfp tx = Some lg \<and> indexfp tx = Some ix
        \<and> take (length (log_bytes items)) (fdata lg) = log_bytes items
        \<and> take (8 * length items) (fdata ix) = index_bytes items)
     \<and> num (H tx) = length items \<and> nextpos (H tx) = length (log_bytes items)
     \<and> (\<forall>it \<in> set items. item_ok it) \<and> length (log_bytes items) < 2 ^ 47 \<and> blocks_ok tx items"

lemma create_step:
  assumes "log_ok tx items" and "item_ok (b, t, d)" and "block_fits items b"
    and "length (log_bytes items) + 12 + length d < 2 ^ 47"
  shows "\<exists>tx'. txind777_create upd junk tx b t (Some d) (word_of_nat (length d)) = Some (txind_of (nextpos (H tx)) (length d), tx')
    \<and> log_ok tx' (items @ [(b, t, d)]) \<and> fp tx' = fp tx \<and> curitem tx' = curitem tx \<and> state (H tx') = upd (state (H tx)) d"
proof -
  obtain lg ix where f: "txlogfp tx = Some lg" "indexfp tx = Some ix"
    "take (length (log_bytes items)) (fdata lg) = log_bytes items" "take (8 * length items) (fdata ix) = index_bytes items"
    and n: "num (H tx) = length items" "nextpos (H tx) = length (log_bytes items)"
    and ok: "\<forall>it \<in> set items. item_ok it" "blocks_ok tx items"
    using assms(1) by (auto simp: log_ok_def)
  have len: "unat (word_of_nat (length d) :: u16) = length d" "(word_of_nat (length d) :: u16) \<noteq> 0" "0 < length d"
    using assms(2) by (auto simp: item_ok_def item_data_def unsigned_of_nat take_bit_eq_mod word_unat_eq_iff)
  let ?it = "(b, t, d)"
  let ?lg = "fwrite (fwrite (fseek lg (length (log_bytes items))) (triplet (word_of_nat (length d)) b t)) d"
  let ?ti = "txind_of (length (log_bytes items)) (length d)"
  let ?ix = "fwrite (fseek ix (length items * 8)) (le_bytes 8 ?ti)"
  have "blocks_ok (tx\<lparr>txlogfp := Some ?lg\<rparr>) items" using ok(2) by (subst blocks_ok_cong [of _ tx]) simp_all
  from ensure_blocks_ok [OF this, of ?it junk] assms(3) obtain g l bl where e:
    "txinds777_ensure junk (tx\<lparr>txlogfp := Some ?lg\<rparr>) b (word_of_nat (length items))
      = Some (tx\<lparr>txlogfp := Some ?lg, H := (H tx)\<lparr>firstblocknum := g, lastblocknum := l\<rparr>, blockitems := Some bl\<rparr>)"
    "blocks_ok (tx\<lparr>txlogfp := Some ?lg, H := (H tx)\<lparr>firstblocknum := g, lastblocknum := l\<rparr>, blockitems := Some bl\<rparr>) (items @ [?it])"
    by (auto simp: item_block_def)
  let ?tx = "tx\<lparr>txlogfp := Some ?lg, blockitems := Some bl, indexfp := Some ?ix,
      H := (H tx)\<lparr>firstblocknum := g, lastblocknum := l, num := length items + 1, state := upd (state (H tx)) d,
                  nextpos := length (log_bytes items) + length d + 12\<rparr>\<rparr>"
  have "txind777_create upd junk tx b t (Some d) (word_of_nat (length d)) = Some (?ti, ?tx)"
    using len e(1) f(1,2) n by (simp add: txind777_create_def Let_def txind_of_def)
  moreover have "take (length (log_bytes (items @ [?it]))) (fdata ?lg) = log_bytes (items @ [?it])"
    using take_fwrite2 [OF f(3), of "triplet (word_of_nat (length d)) b t" d] by (simp add: item_bytes_def item_data_def)
  moreover have "take (8 * length (items @ [?it])) (fdata ?ix) = index_bytes (items @ [?it])"
    using take_fwrite(1) [of "index_bytes items" ix "le_bytes 8 ?ti"] f(4)
    by (simp add: index_bytes_snoc item_data_def mult.commute add.commute)
  moreover have "blocks_ok ?tx (items @ [?it])" using e(2) by (subst (asm) blocks_ok_cong [of _ ?tx]) simp_all
  ultimately show ?thesis using ok(1) assms(2,4) n by (intro exI [of _ ?tx]) (auto simp: log_ok_def item_data_def)
qed

lemma read_item:
  assumes "log_ok tx items" and "curitem tx < length items"
  shows "\<exists>tx'. txinds777_read tx = (Some (item_data (items ! curitem tx)), tx') \<and> log_ok tx' items \<and> fp tx' = fp tx
    \<and> curitem tx' = curitem tx \<and> H tx' = H tx \<and> blockitems tx' = blockitems tx"
proof -
  obtain lg ix where f: "txlogfp tx = Some lg" "indexfp tx = Some ix"
    "take (length (log_bytes items)) (fdata lg) = log_bytes items" "take (8 * length items) (fdata ix) = index_bytes items"
    and n: "nextpos (H tx) = length (log_bytes items)" "length (log_bytes items) < 2 ^ 47" "\<forall>it \<in> set items. item_ok it"
    using assms(1) by (auto simp: log_ok_def)
  let ?k = "curitem tx"
  let ?d = "item_data (items ! ?k)" and ?p = "length (log_bytes (take ?k items))"
  have l: "0 < length ?d" "length ?d + 12 < 65536" using n(3) nth_mem [OF assms(2)] by (auto simp: item_ok_def)
  note tk = log_bytes_take [OF assms(2)]
  have p: "?p < 2 ^ 47" using tk(2) n(2) by linarith
  have ix: "fread (fseek ix (?k * 8)) 8 = (index_entry items ?k, ix\<lparr>fpos := ?k * 8 + 8\<rparr>)"
    using fread_prefix [of "8 * length items" "fseek ix (?k * 8)" "index_bytes items" 8] f(4) assms(2) index_bytes_take [OF assms(2)]
    by (simp add: fseek_def mult.commute)
  have val: "(le_val (index_entry items ?k) :: i64) = txind_of ?p (length ?d)"
    by (simp add: index_entry_def le_val_le_bytes)
  have split: "take 12 (drop ?p (log_bytes items)) = take 12 (item_bytes (items ! ?k))"
    "take (length ?d) (drop (?p + 12) (log_bytes items)) = ?d"
  proof -
    have "take 12 (take (12 + length ?d) (drop ?p (log_bytes items))) = take 12 (item_bytes (items ! ?k))" by (simp only: tk(1))
    then show "take 12 (drop ?p (log_bytes items)) = take 12 (item_bytes (items ! ?k))" by simp
    have "drop 12 (take (12 + length ?d) (drop ?p (log_bytes items))) = drop 12 (item_bytes (items ! ?k))" by (simp only: tk(1))
    then show "take (length ?d) (drop (?p + 12) (log_bytes items)) = ?d"
      by (cases "items ! ?k") (simp add: drop_take item_bytes_def item_data_def add.commute)
  qed
  have t: "fread (fseek lg ?p) 12 = (take 12 (item_bytes (items ! ?k)), lg\<lparr>fpos := ?p + 12\<rparr>)"
    using fread_prefix [OF f(3), of 12] fread_prefix [of _ "lg\<lparr>fpos := ?p\<rparr>" _ 12, simplified, OF f(3)] tk(2) split(1) by (simp add: fseek_def)
  have dt: "fread (lg\<lparr>fpos := ?p + 12\<rparr>) (length ?d) = (?d, lg\<lparr>fpos := ?p + 12 + length ?d\<rparr>)"
    using fread_prefix [of _ "lg\<lparr>fpos := ?p + 12\<rparr>" _ "length ?d", simplified, OF f(3)] tk(2) split(2) by simp
  let ?tx = "tx\<lparr>indexfp := Some (ix\<lparr>fpos := ?k * 8 + 8\<rparr>), txlogfp := Some (lg\<lparr>fpos := ?p + 12 + length ?d\<rparr>)\<rparr>"
  have le: "\<not> int ?p + int (length ?d + 12) > int (nextpos (H tx))" using tk(2) n(1) by linarith
  have u: "uint (txind_of ?p (length ?d) AND 0xffff) = int (length ?d + 12)"
    using arg_cong [OF txind_of_len [OF l(2), of ?p], of int] by simp
  have "txinds777_read tx = (Some ?d, ?tx)"
    using f(1,2) l le t dt u
    by (simp add: txinds777_read_def ix val txind_of_len [OF l(2)] txind_of_pos [OF l(2) p] length_index_entry Let_def)
  moreover have "log_ok ?tx items" using assms(1) f blocks_ok_cong [of ?tx tx items] by (simp add: log_ok_def)
  ultimately show ?thesis by (intro exI [of _ ?tx]) simp
qed


section \<open>Restarting\<close>

lemma good_header_all:
  assumes "\<forall>h \<in> set hs. num h * 8 \<le> indexpos \<and> nextpos h \<le> logpos"
  shows "good_header indexpos logpos hs g = (if hs = [] then g else last hs, length hs)"
  using assms by (induction hs arbitrary: g) auto

lemma initfile_pos: "snd (txinds777_initfile (Some bs) n) = n" "fdata (fst (txinds777_initfile (Some bs) n)) = bs"
  by (simp_all add: txinds777_initfile_def)

lemma item_header:
  assumes "item_ok it"
  shows "unat (le_val (take 4 (take 12 (item_bytes it))) :: u32) = length (item_data it)"
    and "(le_val (take 4 (drop 4 (take 12 (item_bytes it)))) :: u32) = item_block it"
proof -
  obtain b t d where it: "it = (b, t, d)" by (cases it)
  have "length d < 65536" using assms it by (simp add: item_ok_def item_data_def)
  then have "unat (word_of_nat (length d) :: u16) = length d" by (simp add: unsigned_of_nat take_bit_eq_mod)
  then have u: "unat (ucast (word_of_nat (length d) :: u16) :: u32) = length d"
    using \<open>length d < 65536\<close> by (simp add: unsigned_ucast_eq take_bit_eq_mod)
  have e: "take 12 (item_bytes it) = triplet (word_of_nat (length d)) b t" by (simp add: it item_bytes_def)
  show "unat (le_val (take 4 (take 12 (item_bytes it))) :: u32) = length (item_data it)"
    unfolding e by (simp add: triplet_def le_val_le_bytes it item_data_def u)
  show "(le_val (take 4 (drop 4 (take 12 (item_bytes it)))) :: u32) = item_block it"
    unfolding e by (simp add: triplet_def le_val_le_bytes it item_block_def)
qed

text \<open>Verifying the files item by item.\<close>

lemma verify_items_eq:
  assumes "take (length (log_bytes items)) L = log_bytes items" and "take (8 * length items) I = index_bytes items"
    and "\<forall>it \<in> set items. item_ok it" and "\<forall>k < length items. block_fits (take k items) (item_block (items ! k))"
    and "num (H tx) = length items" and "nextpos (H tx) = length (log_bytes items)"
    and "curitem tx = k" and "k \<le> length items" and "blocks_ok tx (take k items)"
  shows "\<exists>f l bl. verify_items junk tx \<lparr>fdata = I, fpos = 8 * k\<rparr> \<lparr>fdata = L, fpos = length (log_bytes (take k items))\<rparr>
      = Some (tx\<lparr>H := (H tx)\<lparr>firstblocknum := f, lastblocknum := l\<rparr>, curitem := length items, blockitems := bl\<rparr>,
              \<lparr>fdata = I, fpos = 8 * length items\<rparr>, \<lparr>fdata = L, fpos = length (log_bytes items)\<rparr>)
    \<and> blocks_ok (tx\<lparr>H := (H tx)\<lparr>firstblocknum := f, lastblocknum := l\<rparr>, curitem := length items, blockitems := bl\<rparr>) items"
  using assms(5-9)
proof (induction "length items - k" arbitrary: tx k)
  case 0
  then have k: "k = length items" by simp
  have "verify_items junk tx \<lparr>fdata = I, fpos = 8 * k\<rparr> \<lparr>fdata = L, fpos = length (log_bytes (take k items))\<rparr>
    = Some (tx, \<lparr>fdata = I, fpos = 8 * k\<rparr>, \<lparr>fdata = L, fpos = length (log_bytes (take k items))\<rparr>)"
    using 0 k by (subst verify_items.simps) simp
  moreover have "tx\<lparr>H := (H tx)\<lparr>firstblocknum := firstblocknum (H tx), lastblocknum := lastblocknum (H tx)\<rparr>,
      curitem := length items, blockitems := blockitems tx\<rparr> = tx" using 0 k by simp
  ultimately show ?case using 0(6) k
    by (intro exI [of _ "firstblocknum (H tx)"] exI [of _ "lastblocknum (H tx)"] exI [of _ "blockitems tx"]) simp
next
  case (Suc d)
  then have k: "k < length items" by simp
  let ?it = "items ! k" and ?p = "length (log_bytes (take k items))"
  have iok: "item_ok ?it" using assms(3) nth_mem [OF k] by blast
  note tk = log_bytes_take [OF k]
  have ix: "fread \<lparr>fdata = I, fpos = 8 * k\<rparr> 8 = (index_entry items k, \<lparr>fdata = I, fpos = 8 * Suc k\<rparr>)"
    using fread_prefix [of "8 * length items" "\<lparr>fdata = I, fpos = 8 * k\<rparr>" "index_bytes items" 8] assms(2) k index_bytes_take [OF k]
    by simp
  have "take 12 (take (12 + length (item_data ?it)) (drop ?p (log_bytes items))) = take 12 (item_bytes ?it)" by (simp only: tk(1))
  then have "fread \<lparr>fdata = L, fpos = ?p\<rparr> 12 = (take 12 (item_bytes ?it), \<lparr>fdata = L, fpos = ?p + 12\<rparr>)"
    using fread_prefix [of "length (log_bytes items)" "\<lparr>fdata = L, fpos = ?p\<rparr>" "log_bytes items" 12] assms(1) tk(2) by simp
  then obtain t where lg: "fread \<lparr>fdata = L, fpos = ?p\<rparr> 12 = (t, \<lparr>fdata = L, fpos = ?p + 12\<rparr>)" "length t = 12"
    "unat (le_val (take 4 t) :: u32) = length (item_data ?it)" "(le_val (take 4 (drop 4 t)) :: u32) = item_block ?it"
    using item_header [OF iok] by force
  have val: "(le_val (index_entry items k) :: i64) = txind_of ?p (length (item_data ?it))"
    by (simp add: index_entry_def le_val_le_bytes)
  from ensure_blocks_ok [OF Suc.prems(5), of ?it junk] assms(4) k obtain f l bl where e:
    "txinds777_ensure junk tx (item_block ?it) (word_of_nat k) = Some (tx\<lparr>H := (H tx)\<lparr>firstblocknum := f, lastblocknum := l\<rparr>, blockitems := Some bl\<rparr>)"
    "blocks_ok (tx\<lparr>H := (H tx)\<lparr>firstblocknum := f, lastblocknum := l\<rparr>, blockitems := Some bl\<rparr>) (take (Suc k) items)"
    by (auto simp: min_def take_Suc_conv_app_nth)
  have pe: "length (log_bytes (take (Suc k) items)) = ?p + (length (item_data ?it) + 12)" using tk(3) by simp
  let ?tx = "tx\<lparr>H := (H tx)\<lparr>firstblocknum := f, lastblocknum := l\<rparr>, blockitems := Some bl, curitem := k + 1\<rparr>"
  have step: "verify_items junk tx \<lparr>fdata = I, fpos = 8 * k\<rparr> \<lparr>fdata = L, fpos = ?p\<rparr>
    = verify_items junk ?tx \<lparr>fdata = I, fpos = 8 * Suc k\<rparr> \<lparr>fdata = L, fpos = length (log_bytes (take (Suc k) items))\<rparr>"
    using Suc.prems(1-3) k tk(2)
    by (subst verify_items.simps) (simp add: ix lg val txind_of_def length_index_entry e(1) fseek_def pe Let_def del: of_nat_add)
  have d: "d = length items - Suc k" using Suc.hyps(2) by simp
  have "blocks_ok ?tx (take (Suc k) items)" using e(2) by (subst (asm) blocks_ok_cong [of _ ?tx]) simp_all
  then obtain f' l' bl' where "verify_items junk ?tx \<lparr>fdata = I, fpos = 8 * Suc k\<rparr> \<lparr>fdata = L, fpos = length (log_bytes (take (Suc k) items))\<rparr>
      = Some (?tx\<lparr>H := (H ?tx)\<lparr>firstblocknum := f', lastblocknum := l'\<rparr>, curitem := length items, blockitems := bl'\<rparr>,
              \<lparr>fdata = I, fpos = 8 * length items\<rparr>, \<lparr>fdata = L, fpos = length (log_bytes items)\<rparr>)"
    "blocks_ok (?tx\<lparr>H := (H ?tx)\<lparr>firstblocknum := f', lastblocknum := l'\<rparr>, curitem := length items, blockitems := bl'\<rparr>) items"
    using Suc.hyps(1) [OF d, of ?tx] Suc.prems k by auto
  then show ?case using step by (intro exI [of _ f'] exI [of _ l'] exI [of _ bl']) simp
qed


text \<open>The header file: its first and its last header are those of the last flush.\<close>

definition hdrs_ok :: "'s hdrfile \<Rightarrow> item list \<Rightarrow> bool" where
  "hdrs_ok hf flushed \<longleftrightarrow> hpos hf = length (hdrs hf) \<and>
     (\<exists>h hs. hdrs hf = h # hs \<and> num h = length flushed \<and> nextpos h = length (log_bytes flushed)
        \<and> (\<forall>x \<in> set hs. num x \<le> length flushed \<and> nextpos x \<le> length (log_bytes flushed))
        \<and> (if hs = [] then flushed = [] else num (last hs) = length flushed \<and> nextpos (last hs) = length (log_bytes flushed)))"

lemma flush_ok:
  assumes "log_ok tx items" and "fp tx = Some hf" and "hdrs_ok hf flushed" and "length flushed \<le> length items"
    and "length (log_bytes flushed) \<le> length (log_bytes items)"
  shows "log_ok (txinds777_flush tx b t) items" and "\<exists>hf'. fp (txinds777_flush tx b t) = Some hf' \<and> hdrs_ok hf' items"
proof -
  let ?tx = "txinds777_flush tx b t"
  let ?h = "(H tx)\<lparr>blocknum := b, timestamp := t\<rparr>"
  have "blocks_ok ?tx items = blocks_ok tx items" by (rule blocks_ok_cong) (simp_all add: txinds777_flush_def Let_def)
  then show "log_ok ?tx items" using assms(1) by (simp add: log_ok_def txinds777_flush_def Let_def)
  obtain h hs where hf: "hpos hf = Suc (length hs)" "hdrs hf = h # hs"
    "\<forall>x \<in> set hs. num x \<le> length flushed \<and> nextpos x \<le> length (log_bytes flushed)"
    using assms(3) by (auto simp: hdrs_ok_def)
  have "fp ?tx = Some (hf\<lparr>hdrs := ?h # hs @ [?h], hpos := Suc (Suc (length hs))\<rparr>)"
    using assms(2) hf by (simp add: txinds777_flush_def hwrite_def Let_def)
  moreover have "hdrs_ok (hf\<lparr>hdrs := ?h # hs @ [?h], hpos := Suc (Suc (length hs))\<rparr>) items"
    using assms(1,4,5) hf(3) by (force simp: hdrs_ok_def log_ok_def)
  ultimately show "\<exists>hf'. fp ?tx = Some hf' \<and> hdrs_ok hf' items" by blast
qed

text \<open>
  What survives a crash: the header file, and log and index files that begin with what was there at
  the last flush.
\<close>

definition survives :: "'s disk \<Rightarrow> 's hdrfile \<Rightarrow> item list \<Rightarrow> bool" where
  "survives d hf flushed \<longleftrightarrow> d_hdrs d = Some (hdrs hf)
     \<and> (\<exists>L I. d_log d = Some L \<and> d_index d = Some I
          \<and> take (length (log_bytes flushed)) L = log_bytes flushed \<and> take (8 * length flushed) I = index_bytes flushed)"

definition items_fit :: "item list \<Rightarrow> bool" where
  "items_fit items \<longleftrightarrow> (\<forall>it \<in> set items. item_ok it) \<and> length (log_bytes items) < 2 ^ 47
     \<and> (\<forall>k < length items. block_fits (take k items) (item_block (items ! k)))"

lemma restart_ok:
  assumes "hdrs_ok hf flushed" and "survives d hf flushed" and "items_fit flushed"
  shows "\<exists>tx. txinds777_init z start junk d = Some tx \<and> log_ok tx flushed \<and> (\<exists>hf'. fp tx = Some hf' \<and> hdrs_ok hf' flushed)"
proof -
  obtain h hs where hf: "hdrs hf = h # hs" "num h = length flushed" "nextpos h = length (log_bytes flushed)"
    "\<forall>x \<in> set hs. num x \<le> length flushed \<and> nextpos x \<le> length (log_bytes flushed)"
    "if hs = [] then flushed = [] else num (last hs) = length flushed \<and> nextpos (last hs) = length (log_bytes flushed)"
    using assms(1) by (auto simp: hdrs_ok_def)
  obtain L I where d: "d_hdrs d = Some (h # hs)" "d_log d = Some L" "d_index d = Some I"
    "take (length (log_bytes flushed)) L = log_bytes flushed" "take (8 * length flushed) I = index_bytes flushed"
    using assms(2) hf(1) by (auto simp: survives_def)
  define g where "g = (if hs = [] then zero_hdr z else last hs)"
  have g: "num g = length flushed" "nextpos g = length (log_bytes flushed)"
    using hf(5) by (auto simp: g_def zero_hdr_def split: if_splits)
  have good: "good_header (8 * length flushed) (length (log_bytes flushed)) hs (zero_hdr z) = (g, length hs)"
    unfolding g_def by (rule good_header_all) (use hf(4) in auto)
  let ?hf = "\<lparr>hdrs = h # hs, hpos = 1 + length hs\<rparr>"
  have hok: "hdrs_ok ?hf flushed" using hf by (simp add: hdrs_ok_def)
  obtain flg fx where files: "txinds777_initfile (Some L) (length (log_bytes flushed)) = (flg, length (log_bytes flushed))"
    "txinds777_initfile (Some I) (8 * length flushed) = (fx, 8 * length flushed)" "fdata flg = L" "fdata fx = I"
    using initfile_pos by (metis prod.collapse)
  let ?tx0 = "\<lparr>H = g, txlogfp = None, indexfp = None, fp = Some ?hf, curitem = 0, blockitems = None\<rparr>"
  show ?thesis
  proof (cases "flushed = []")
    case True
    let ?tx = "?tx0\<lparr>txlogfp := Some flg, indexfp := Some fx\<rparr>"
    have "txinds777_init z start junk d = Some ?tx"
      using d files good g True hf(2,3) by (simp add: txinds777_init_def Let_def)
    moreover have "log_ok ?tx flushed" using True g by (simp add: log_ok_def blocks_ok_def)
    ultimately show ?thesis using hok by (intro exI [of _ ?tx]) simp
  next
    case False
    then have pos: "0 < length (log_bytes flushed)" by (cases flushed) (auto simp: log_bytes_def)
    have seek: "fseek fx 0 = \<lparr>fdata = I, fpos = 8 * 0\<rparr>" "fseek flg 0 = \<lparr>fdata = L, fpos = length (log_bytes (take 0 flushed))\<rparr>"
      using files(3,4) by (simp_all add: fseek_def)
    have "blocks_ok ?tx0 (take 0 flushed)" by (simp add: blocks_ok_def)
    from verify_items_eq [OF d(4,5) _ _ _ _ _ _ this, of junk] assms(3) g obtain f l bl where v:
      "verify_items junk ?tx0 (fseek fx 0) (fseek flg 0) = Some (?tx0\<lparr>H := g\<lparr>firstblocknum := f, lastblocknum := l\<rparr>, curitem := length flushed, blockitems := bl\<rparr>,
         \<lparr>fdata = I, fpos = 8 * length flushed\<rparr>, \<lparr>fdata = L, fpos = length (log_bytes flushed)\<rparr>)"
      "blocks_ok (?tx0\<lparr>H := g\<lparr>firstblocknum := f, lastblocknum := l\<rparr>, curitem := length flushed, blockitems := bl\<rparr>) flushed"
      unfolding seek by (auto simp: items_fit_def)
    let ?tx = "?tx0\<lparr>H := g\<lparr>firstblocknum := f, lastblocknum := l\<rparr>, curitem := length flushed, blockitems := bl,
       txlogfp := Some \<lparr>fdata = L, fpos = length (log_bytes flushed)\<rparr>, indexfp := Some \<lparr>fdata = I, fpos = 8 * length flushed\<rparr>\<rparr>"
    have "txinds777_init z start junk d = Some ?tx"
      using d files good g pos hf(2,3) v(1) by (simp add: txinds777_init_def Let_def)
    moreover have "blocks_ok ?tx flushed" using v(2) by (subst (asm) blocks_ok_cong [of _ ?tx]) simp_all
    then have "log_ok ?tx flushed" using d(4,5) g assms(3) by (simp add: log_ok_def items_fit_def)
    ultimately show ?thesis using hok by (intro exI [of _ ?tx]) simp
  qed
qed


section \<open>Runs of the log\<close>

text \<open>
  The states of a log that is opened, written, flushed, read and restarted after crashes: \<open>flushed\<close> are the
  items of the last flush, \<open>items\<close> all that were written since the last start on top of them. The
  guards of \<open>run_create\<close> are the limits of the format: 65523 bytes for an item, 47 bits for a position,
  blocks not before the first one.
\<close>

inductive log_run ::
    "('s \<Rightarrow> u8 list \<Rightarrow> 's) \<Rightarrow> 's \<Rightarrow> ('s \<Rightarrow> 's) \<Rightarrow> (nat \<Rightarrow> u64) \<Rightarrow> 's txinds777_info \<Rightarrow> item list \<Rightarrow> item list \<Rightarrow> bool"
  for upd z start junk where
  run_open: "txinds777_init z start junk \<lparr>d_hdrs = None, d_log = None, d_index = None\<rparr> = Some tx \<Longrightarrow> log_run upd z start junk tx [] []"
| run_create: "log_run upd z start junk tx flushed items \<Longrightarrow> item_ok (b, t, d) \<Longrightarrow> block_fits items b
    \<Longrightarrow> length (log_bytes items) + 12 + length d < 2 ^ 47
    \<Longrightarrow> txind777_create upd junk tx b t (Some d) (word_of_nat (length d)) = Some (ti, tx')
    \<Longrightarrow> log_run upd z start junk tx' flushed (items @ [(b, t, d)])"
| run_flush: "log_run upd z start junk tx flushed items \<Longrightarrow> log_run upd z start junk (txinds777_flush tx b t) items items"
| run_seek: "log_run upd z start junk tx flushed items \<Longrightarrow> txinds777_seek tx b = Some (i, tx') \<Longrightarrow> log_run upd z start junk tx' flushed items"
| run_read: "log_run upd z start junk tx flushed items \<Longrightarrow> log_run upd z start junk (snd (txinds777_read tx)) flushed items"
| run_crash: "log_run upd z start junk tx flushed items \<Longrightarrow> fp tx = Some hf \<Longrightarrow> survives d hf flushed
    \<Longrightarrow> txinds777_init z start junk d = Some tx' \<Longrightarrow> log_run upd z start junk tx' flushed flushed"

definition run_ok :: "'s txinds777_info \<Rightarrow> item list \<Rightarrow> item list \<Rightarrow> bool" where
  "run_ok tx flushed items \<longleftrightarrow> log_ok tx items \<and> items_fit items \<and> (\<exists>new. items = flushed @ new)
     \<and> (\<exists>hf. fp tx = Some hf \<and> hdrs_ok hf flushed)"

lemma items_fit_prefix: "items_fit (xs @ ys) \<Longrightarrow> items_fit xs"
proof -
  assume a: "items_fit (xs @ ys)"
  have "block_fits (take k xs) (item_block (xs ! k))" if "k < length xs" for k
    using a that by (auto simp: items_fit_def nth_append dest: spec [of _ k])
  then show ?thesis using a by (simp add: items_fit_def log_bytes_def)
qed

lemma items_fit_snoc:
  "items_fit items \<Longrightarrow> item_ok it \<Longrightarrow> block_fits items (item_block it)
    \<Longrightarrow> length (log_bytes items) + 12 + length (item_data it) < 2 ^ 47 \<Longrightarrow> items_fit (items @ [it])"
  by (auto simp: items_fit_def nth_append less_Suc_eq)

text \<open>Seeking and reading move positions only.\<close>

lemma seek_frame:
  "txinds777_seek tx b = Some (i, tx') \<Longrightarrow> tx' = tx\<lparr>curitem := unat i\<rparr>"
  by (auto simp: txinds777_seek_def bind_Some_conv split: option.splits if_splits)

lemma read_frame:
  "H (snd (txinds777_read tx)) = H tx" "blockitems (snd (txinds777_read tx)) = blockitems tx" "fp (snd (txinds777_read tx)) = fp tx"
  "map_option fdata (indexfp (snd (txinds777_read tx))) = map_option fdata (indexfp tx)"
  "map_option fdata (txlogfp (snd (txinds777_read tx))) = map_option fdata (txlogfp tx)"
  by (simp_all add: txinds777_read_def Let_def split: option.split prod.split) (auto dest!: fread_fdata)

lemma log_ok_frame:
  assumes "log_ok tx items" and "H tx' = H tx" and "blockitems tx' = blockitems tx"
    and "map_option fdata (indexfp tx') = map_option fdata (indexfp tx)" and "map_option fdata (txlogfp tx') = map_option fdata (txlogfp tx)"
  shows "log_ok tx' items"
  using assms blocks_ok_cong [of tx' tx items] by (auto simp: log_ok_def)

lemma run_invariant: "log_run upd z start junk tx flushed items \<Longrightarrow> run_ok tx flushed items"
proof (induction rule: log_run.induct)
  case (run_open tx)
  then show ?case
    by (auto simp: txinds777_init_def txinds777_initfile_def Let_def run_ok_def log_ok_def blocks_ok_def items_fit_def hdrs_ok_def zero_hdr_def)
next
  case (run_create tx flushed items b t d ti tx')
  have inv: "log_ok tx items" "items_fit items" "\<exists>new. items = flushed @ new" "\<exists>hf. fp tx = Some hf \<and> hdrs_ok hf flushed"
    using run_create.IH by (auto simp: run_ok_def)
  from create_step [OF inv(1) run_create.hyps(2-4), of upd junk] run_create.hyps(5)
  have "log_ok tx' (items @ [(b, t, d)])" "fp tx' = fp tx" by auto
  moreover have "items_fit (items @ [(b, t, d)])"
    using items_fit_snoc [OF inv(2) run_create.hyps(2)] run_create.hyps(3,4) by (simp add: item_block_def item_data_def)
  ultimately show ?case using inv(3,4) by (auto simp: run_ok_def)
next
  case (run_flush tx flushed items b t)
  then obtain hf new where "log_ok tx items" "items_fit items" "items = flushed @ new" "fp tx = Some hf" "hdrs_ok hf flushed"
    by (auto simp: run_ok_def)
  then show ?case using flush_ok [of tx items hf flushed b t] by (auto simp: run_ok_def log_bytes_def)
next
  case (run_seek tx flushed items b i tx')
  then show ?case using seek_frame [OF run_seek.hyps(2)] log_ok_frame [of tx items tx'] by (simp add: run_ok_def)
next
  case (run_read tx flushed items)
  then show ?case using log_ok_frame [of tx items "snd (txinds777_read tx)"] by (simp add: run_ok_def read_frame)
next
  case (run_crash tx flushed items hf d tx')
  then have "hdrs_ok hf flushed" "items_fit flushed" by (auto simp: run_ok_def dest: items_fit_prefix)
  from restart_ok [OF this(1) run_crash.hyps(3) this(2), of z start junk] run_crash.hyps(4) \<open>items_fit flushed\<close>
  show ?case by (auto simp: run_ok_def)
qed

lemma run_reads:
  assumes "run_ok tx flushed items" and "k < length items"
  shows "fst (txinds777_read (tx\<lparr>curitem := k\<rparr>)) = Some (item_data (items ! k))"
proof -
  have "log_ok (tx\<lparr>curitem := k\<rparr>) items" using assms(1) log_ok_frame [of tx items "tx\<lparr>curitem := k\<rparr>"] by (simp add: run_ok_def)
  from read_item [OF this] assms(2) show ?thesis by auto
qed

text \<open>
  C12. The log survives crashes: in any run of opening, appending, flushing, seeking, reading and
  restarting, every item that was written can be read, and after a crash that keeps at least what
  was there at the last flush (with anything behind it in the log and the index) the restart succeeds
  and every flushed item is read back unchanged.
\<close>

theorem log_survives_crashes:
  assumes "log_run upd z start junk tx flushed items"
  shows "(\<forall>k < length items. fst (txinds777_read (tx\<lparr>curitem := k\<rparr>)) = Some (item_data (items ! k)))
    \<and> (\<exists>hf. fp tx = Some hf \<and> (\<forall>d. survives d hf flushed \<longrightarrow>
         (\<exists>tx'. txinds777_init z start junk d = Some tx' \<and> num (H tx') = length flushed
            \<and> (\<forall>k < length flushed. fst (txinds777_read (tx'\<lparr>curitem := k\<rparr>)) = Some (item_data (flushed ! k))))))"
proof -
  have inv: "run_ok tx flushed items" using assms by (rule run_invariant)
  then obtain hf where hf: "fp tx = Some hf" "hdrs_ok hf flushed" "items_fit flushed"
    by (auto simp: run_ok_def dest: items_fit_prefix)
  have "\<exists>tx'. txinds777_init z start junk d = Some tx' \<and> num (H tx') = length flushed
      \<and> (\<forall>k < length flushed. fst (txinds777_read (tx'\<lparr>curitem := k\<rparr>)) = Some (item_data (flushed ! k)))"
    if sv: "survives d hf flushed" for d
  proof -
    obtain tx' where tx': "txinds777_init z start junk d = Some tx'" "log_ok tx' flushed"
      "\<exists>hf'. fp tx' = Some hf' \<and> hdrs_ok hf' flushed"
      using restart_ok [OF hf(2) sv hf(3), of z start junk] by blast
    then have "run_ok tx' flushed flushed" using hf(3) by (simp add: run_ok_def)
    then show ?thesis using tx'(1,2) run_reads by (intro exI [of _ tx']) (auto simp: log_ok_def)
  qed
  then show ?thesis using inv hf(1) run_reads by blast
qed


lemma example_run:
  "\<exists>tx. log_run (\<lambda>s d. ()) () (\<lambda>s. s) (\<lambda>k. 7) tx [(5, 100, [1, 2, 3])] [(5, 100, [1, 2, 3])]"
proof -
  obtain tx0 where "txinds777_init () (\<lambda>s. s) (\<lambda>k. 7) \<lparr>d_hdrs = None, d_log = None, d_index = None\<rparr> = Some tx0"
    by (simp add: txinds777_init_def Let_def)
  then have r0: "log_run (\<lambda>s d. ()) () (\<lambda>s. s) (\<lambda>k. 7) tx0 [] []" by (rule run_open)
  then have ok: "log_ok tx0 []" using run_invariant [OF r0] by (simp add: run_ok_def)
  have g: "item_ok (5, 100, [1, 2, 3])" "block_fits [] 5" "length (log_bytes []) + 12 + length [1 :: u8, 2, 3] < 2 ^ 47"
    by (simp_all add: item_ok_def item_data_def block_fits_def)
  from create_step [OF ok g, of "\<lambda>s d. ()" "\<lambda>k. 7"] obtain ti tx1
    where c: "txind777_create (\<lambda>s d. ()) (\<lambda>k. 7) tx0 5 100 (Some [1, 2, 3]) (word_of_nat (length [1 :: u8, 2, 3])) = Some (ti, tx1)" by blast
  from run_flush [OF run_create [OF r0 g c], of 5 100] show ?thesis by auto
qed

theorem log_survives_crashes_witness:
  "\<exists>tx hf. log_run (\<lambda>s d. ()) () (\<lambda>s. s) (\<lambda>k. 7) tx [(5, 100, [1, 2, 3])] [(5, 100, [1, 2, 3])]
    \<and> fst (txinds777_read (tx\<lparr>curitem := 0\<rparr>)) = Some [1, 2, 3] \<and> fp tx = Some hf
    \<and> (\<exists>tx'. txinds777_init () (\<lambda>s. s) (\<lambda>k. 7) \<lparr>d_hdrs = Some (hdrs hf), d_log = Some (log_bytes [(5, 100, [1, 2, 3])] @ [9, 9]),
                d_index = Some (index_bytes [(5, 100, [1, 2, 3])])\<rparr> = Some tx'
         \<and> fst (txinds777_read (tx'\<lparr>curitem := 0\<rparr>)) = Some [1, 2, 3])"
proof -
  obtain tx where r: "log_run (\<lambda>s d. ()) () (\<lambda>s. s) (\<lambda>k. 7) tx [(5, 100, [1, 2, 3])] [(5, 100, [1, 2, 3])]" using example_run by blast
  let ?d = "\<lambda>hf. \<lparr>d_hdrs = Some (hdrs hf), d_log = Some (log_bytes [(5, 100, [1, 2, 3])] @ [9, 9]), d_index = Some (index_bytes [(5, 100, [1, 2, 3])])\<rparr>"
  have "survives (?d hf) hf [(5, 100, [1, 2, 3])]" for hf :: "unit hdrfile" by (simp add: survives_def)
  then show ?thesis using log_survives_crashes [OF r] r by (fastforce simp: item_data_def)
qed

text \<open>
  C27. \<open>txinds777_seek\<close> to a block with items finds the last of its items, and \<open>txinds777_read\<close> then
  returns its bytes, in every state of a run.
\<close>

theorem seek_reads_last_item_of_block:
  assumes "log_run upd z start junk tx flushed items" and "k < length items" and "length items < 2 ^ 64"
    and "\<forall>j < length items. k < j \<longrightarrow> fst (items ! j) \<noteq> fst (items ! k)"
  shows "\<exists>tx'. txinds777_seek tx (fst (items ! k)) = Some (word_of_nat k, tx') \<and> fst (txinds777_read tx') = Some (item_data (items ! k))"
proof -
  have inv: "run_ok tx flushed items" using assms(1) by (rule run_invariant)
  then have b: "blocks_ok tx items" by (simp add: run_ok_def log_ok_def)
  obtain bl where bl: "blockitems tx = Some bl" using b assms(2) by (cases "blockitems tx") (auto simp: blocks_ok_def)
  let ?b = "fst (items ! k)" and ?f = "firstblocknum (H tx)" and ?l = "lastblocknum (H tx)"
  have r: "?f \<le> ?b" "?b \<le> ?l" "length bl = Suc (unat ?l - unat ?f)" "bl ! (unat ?b - unat ?f) = word_of_nat k"
    using b bl assms(2,4) nth_mem [OF assms(2)] by (auto simp: blocks_ok_def item_block_def)
  have u: "unat (?b - ?f) = unat ?b - unat ?f" using r(1) by (rule unat_sub)
  have "unat ?b - unat ?f < length bl" using r(2,3) by (simp add: word_le_nat_alt less_Suc_eq_le diff_le_mono)
  moreover have "uint (?b - ?f) = int (unat ?b - unat ?f)" using arg_cong [OF u, of int] by simp
  ultimately have "aget bl (uint (?b - ?f)) = Some (word_of_nat k)" using r(4) by (simp add: aget_nat)
  then have "txinds777_seek tx ?b = Some (word_of_nat k, tx\<lparr>curitem := k\<rparr>)"
    using bl r(1,2) assms(2,3) by (simp add: txinds777_seek_def unsigned_of_nat take_bit_eq_mod)
  then show ?thesis using run_reads [OF inv assms(2)] by blast
qed

theorem seek_reads_last_item_of_block_witness:
  "\<exists>tx tx'. log_run (\<lambda>s d. ()) () (\<lambda>s. s) (\<lambda>k. 7) tx [(5, 100, [1, 2, 3])] [(5, 100, [1, 2, 3])]
    \<and> txinds777_seek tx 5 = Some (word_of_nat 0, tx') \<and> fst (txinds777_read tx') = Some [1, 2, 3]"
proof -
  obtain tx where r: "log_run (\<lambda>s d. ()) () (\<lambda>s. s) (\<lambda>k. 7) tx [(5, 100, [1, 2, 3])] [(5, 100, [1, 2, 3])]" using example_run by blast
  from seek_reads_last_item_of_block [OF r, of 0] r show ?thesis by (auto simp: item_data_def)
qed

section \<open>Limits of the format\<close>

text \<open>
  An item of more than 65523 bytes is accepted, but its length does not fit into the 16 bits of
  the index, and it is never read back.
\<close>

lemma long_item_len:
  assumes "65523 < len" and "len < 65536"
  shows "unat (txind_of pos len AND 0xffff) < 12"
proof -
  have "txind_of pos len AND mask 16 = word_of_nat (len + 12 - 65536)"
  proof (rule bit_word_eqI)
    fix n assume n: "n < LENGTH(64)"
    have "bit (len + 12) n = bit (len + 12 - 65536) n" if "n < 16" for n
    proof -
      have "take_bit 16 (len + 12) = len + 12 - 65536" using assms by (simp add: take_bit_eq_mod le_mod_geq)
      then show ?thesis using that by (metis bit_take_bit_iff)
    qed
    moreover have "\<not> bit (len + 12 - 65536) n" if "16 \<le> n"
    proof -
      have "len + 12 - 65536 < 2 ^ n" using assms that power_increasing [of 16 n "2 :: nat"] by simp
      then show ?thesis by (simp add: bit_iff_odd)
    qed
    ultimately show "bit (txind_of pos len AND mask 16) n = bit (word_of_nat (len + 12 - 65536) :: i64) n"
      using n by (cases "n < 16") (auto simp: txind_of_def bit_simps simp del: of_nat_add)
  qed
  then obtain m where "txind_of pos len AND 0xffff = word_of_nat m" "m < 12"
    using assms by (simp add: mask_eq_exp_minus_1 del: of_nat_diff)
  then show ?thesis by (simp add: unsigned_of_nat take_bit_eq_mod)
qed

lemma long_item_lost:
  assumes "log_ok tx items" and "65523 < length d" and "length d < 65536" and "block_fits items b"
    and "txind777_create upd junk tx b t (Some d) (word_of_nat (length d)) = Some (ti, tx')"
  shows "fst (txinds777_read (tx'\<lparr>curitem := length items\<rparr>)) = None"
proof -
  obtain lg ix where f: "txlogfp tx = Some lg" "indexfp tx = Some ix" "take (8 * length items) (fdata ix) = index_bytes items"
    and n: "num (H tx) = length items" using assms(1) by (auto simp: log_ok_def)
  have len: "unat (word_of_nat (length d) :: u16) = length d" "(word_of_nat (length d) :: u16) \<noteq> 0"
    using assms(2,3) by (auto simp: unsigned_of_nat take_bit_eq_mod word_unat_eq_iff)
  let ?ti = "txind_of (nextpos (H tx)) (length d)"
  have nat_ens: "num (H x') = num (H x) \<and> indexfp x' = indexfp x \<and> txlogfp x' = txlogfp x"
    if "txinds777_ensure junk x b v = Some x'" for x x' v
    using that by (auto simp: txinds777_ensure_def bind_Some_conv Let_def split: option.splits if_splits)
  from assms(5) have ix': "indexfp tx' = Some (fwrite (fseek ix (length items * 8)) (le_bytes 8 ?ti))" "\<exists>lg. txlogfp tx' = Some lg"
    using len f n by (auto simp: txind777_create_def Let_def bind_Some_conv txind_of_def dest!: nat_ens)
  then obtain lg' where lg': "txlogfp tx' = Some lg'" by blast
  let ?g = "fwrite (fseek ix (length items * 8)) (le_bytes 8 ?ti)"
  have "take (8 * length items + 8) (fdata ?g) = index_bytes items @ le_bytes 8 ?ti"
    using take_fwrite(1) [of "index_bytes items" ix "le_bytes 8 ?ti"] f(3) by (simp add: mult.commute)
  from fread_prefix [of "8 * length items + 8" "fseek ?g (length items * 8)" _ 8, simplified, OF this]
  have "fread (fseek ?g (length items * 8)) 8 = (le_bytes 8 ?ti, ?g\<lparr>fpos := length items * 8 + 8\<rparr>)"
    by (simp add: fseek_def mult.commute)
  then show ?thesis using ix'(1) lg' long_item_len [OF assms(2,3), of "nextpos (H tx)"]
    by (simp add: txinds777_read_def le_val_le_bytes Let_def)
qed

text \<open>A bundle of indices is read far behind its end.\<close>

lemma bundle_reads_outside:
  assumes "8 < sizeof_info" and "0 < length b" and "length b * sizeof_info < 65536"
  shows "txind777_bundle sizeof_info upd junk tx block time (Some b) (length b) = None"
proof -
  have u: "unat (word_of_nat (length b * sizeof_info) :: u16) = length b * sizeof_info"
    using assms(3) by (simp add: unsigned_of_nat take_bit_eq_mod del: of_nat_mult)
  have "length (concat (map (le_bytes 8) b)) = 8 * length b" by (induction b) simp_all
  moreover have "8 * length b < length b * sizeof_info" using assms(1,2) by (simp add: mult.commute)
  moreover have "(word_of_nat (length b * sizeof_info) :: u16) \<noteq> 0" using u assms by (metis mult_is_0 not_less0 unat_0)
  ultimately show ?thesis using u by (simp add: txind777_bundle_def txind777_create_def del: of_nat_mult)
qed

text \<open>
  When blocks are skipped, the new part of the table is cleared for a number of bytes instead of
  entries: a block without items keeps what the memory held.
\<close>

lemma skipped_block_is_junk:
  "do { tx1 \<leftarrow> txinds777_ensure (\<lambda>k. 77) \<lparr>H = zero_hdr (), txlogfp = None, indexfp = None, fp = None, curitem = 0, blockitems = None\<rparr> 0 0;
        tx2 \<leftarrow> txinds777_ensure (\<lambda>k. 77) tx1 20 1;
        map_option fst (txinds777_seek tx2 10) } = Some 77"
  by code_simp

end
