(* ===== verification/Kv777.thy ===== *)
theory Kv777
  imports Files777 Bits777
begin

text \<open>
  The persistent key-value store, \<open>KV/kv777.c\<close>: a hash table in memory and a file that is a sequence of
  records, each with a checksum, two sizes, the value and the key. Every write goes to the
  file at once; opening the store reads the records back up to the first one that is not good.

  The hash table of \<open>uthash\<close> is the list of its elements in the order of insertion. The handle of an element
  points to the key inside the record it was added with; when a write replaces the record,
  that memory is freed and the handle is stale. A lookup compares the handles with a key
  of the same length, so it has no defined result when one of them is stale (\<open>hash_find\<close> asks this
  of all elements, while the code compares those of one bucket, to which the same key always belongs).

  Memory-mapped files and the queue of writes (\<open>writebehind\<close>) are off by default and not modelled. A write
  reaches the disk with the \<open>fflush\<close> that follows it. A mutex that is locked twice stops the
  thread, which is \<open>None\<close>.
\<close>

unbundle bit_operations_syntax

section \<open>Records\<close>

record hdditem =
  crc :: u32
  valuesize :: u32
  keysize :: u32
  valuedata :: "u8 list"

definition item_bytes :: "hdditem \<Rightarrow> u8 list" where
  "item_bytes it = le_bytes 4 (crc it) @ le_bytes 4 (valuesize it) @ le_bytes 4 (keysize it) @ valuedata it"

definition kv777_isdeleted :: "hdditem \<Rightarrow> bool" where
  "kv777_isdeleted it \<longleftrightarrow> valuesize it AND 0x80000000 \<noteq> 0"

definition kv777_setdeleted :: "hdditem \<Rightarrow> hdditem" where
  "kv777_setdeleted it = it\<lparr>valuesize := valuesize it OR 0x80000000\<rparr>"

definition kv777_valuesize :: "u32 \<Rightarrow> u32" where
  "kv777_valuesize sz = sz AND NOT 0x80000000"

definition kv777_itemsize :: "u32 \<Rightarrow> u32 \<Rightarrow> u32" where
  "kv777_itemsize ksize vsize =
     (let vsize = kv777_valuesize vsize;
          sz = 12 + vsize + ksize;
          sz = (if vsize AND 3 \<noteq> 0 then sz + (4 - (vsize AND 3)) else sz)
      in if ksize AND 3 \<noteq> 0 then sz + (4 - (ksize AND 3)) else sz)"

text \<open>The index of the key in the data of a record, and the bytes there.\<close>

definition kv777_itemkey :: "hdditem \<Rightarrow> int" where
  "kv777_itemkey it =
     (let sz = valuesize it in sint (if sz AND 3 \<noteq> 0 then sz + (4 - (sz AND 3)) else sz))"

definition itemkey_bytes :: "hdditem \<Rightarrow> u8 list option" where
  "itemkey_bytes it =
     (let p = kv777_itemkey it
      in if p < 0 \<or> nat p + unat (keysize it) > length (valuedata it) then None
         else Some (take (unat (keysize it)) (drop (nat p) (valuedata it))))"

definition memcpy_at :: "u8 list \<Rightarrow> int \<Rightarrow> u8 list \<Rightarrow> u8 list option" where
  "memcpy_at dst p src =
     (if p < 0 \<or> nat p + length src > length dst then None
      else Some (take (nat p) dst @ src @ drop (nat p + length src) dst))"

definition set_crc :: "hdditem \<Rightarrow> u32 \<Rightarrow> hdditem" where
  "set_crc it sz = it\<lparr>crc := crc32 0 (take (unat sz - 4) (drop 4 (item_bytes it)))\<rparr>"

text \<open>The new record and its size; \<open>calloc\<close> gives zeros.\<close>

definition kv777_hdditem :: "u8 list \<Rightarrow> u8 list \<Rightarrow> (hdditem \<times> u32) option" where
  "kv777_hdditem key val =
     (let vsize = word_of_nat (length val); ksize = word_of_nat (length key);
          sz = kv777_itemsize ksize vsize;
          it = \<lparr>crc = 0, valuesize = vsize, keysize = ksize, valuedata = replicate (unat sz - 12) 0\<rparr>
      in if sz < 12 then None
         else do { d \<leftarrow> memcpy_at (valuedata it) 0 val;
                   d \<leftarrow> memcpy_at d (kv777_itemkey it) key;
                   Some (set_crc (it\<lparr>valuedata := d\<rparr>) sz, sz) })"

section \<open>The store\<close>

record kv777_item =
  hh_key :: "u8 list"
  stale :: bool
  item_offset :: int
  ind :: u32
  itemsize :: u32
  item :: hdditem

record kv777_flags =
  rw :: bool
  hdd :: bool
  threadsafe :: bool

record kv777 =
  table :: "kv777_item list"
  flags :: kv777_flags
  locked :: bool
  fp :: "dfile option"
  offset :: nat
  totalkeys :: i64
  totalvalues :: i64
  numkeys :: i32
  netkeys :: i32
  netvalues :: i32

definition kv777_defaultflags :: kv777_flags where
  "kv777_defaultflags = \<lparr>rw = True, hdd = True, threadsafe = True\<rparr>"

definition kv777_lock :: "kv777 \<Rightarrow> kv777 option" where
  "kv777_lock kv = (if threadsafe (flags kv) then if locked kv then None else Some (kv\<lparr>locked := True\<rparr>) else Some kv)"

definition kv777_unlock :: "kv777 \<Rightarrow> kv777" where
  "kv777_unlock kv = (if threadsafe (flags kv) then kv\<lparr>locked := False\<rparr> else kv)"

definition hash_find :: "kv777_item list \<Rightarrow> u8 list \<Rightarrow> nat option option" where
  "hash_find tab key =
     (if \<exists>e \<in> set tab. stale e \<and> length (hh_key e) = length key then None
      else Some (find (\<lambda>i. hh_key (tab ! i) = key) [0..<length tab]))"

text \<open>
  Writing an element to the file. The third component of the result is the store; the second one
  the element, whose offset is set when it is appended.
\<close>

definition kv777_update :: "kv777 \<Rightarrow> kv777_item \<Rightarrow> i32 \<times> kv777_item \<times> kv777" where
  "kv777_update kv ptr =
     (case fp kv of
        None \<Rightarrow> (- 1, ptr, kv)
      | Some f \<Rightarrow>
          let savepos = fpos f; it = item ptr in
          if kv777_isdeleted it
          then let (bs, f) = fread (fseek f (nat (item_offset ptr + 4))) 4;
                   (retval, f) =
                     (if length bs = 4 \<and> \<not> kv777_isdeleted it
                      then (0, fwrite (fseek f (nat (item_offset ptr + 4))) (le_bytes 4 (valuesize (kv777_setdeleted it))))
                      else (- 1, f))
               in (retval, ptr, kv\<lparr>fp := Some (fseek f savepos)\<rparr>)
          else let bytes = take (unat (itemsize ptr)) (item_bytes it)
               in if item_offset ptr < 0
                  then (0, ptr\<lparr>item_offset := int savepos\<rparr>, kv\<lparr>fp := Some (fwrite f bytes)\<rparr>)
                  else (0, ptr, kv\<lparr>fp := Some (fseek (fwrite (fseek f (nat (item_offset ptr))) bytes) savepos)\<rparr>))"

text \<open>
  The product of \<open>polarity\<close> with an unsigned size is unsigned, and is extended with zeros when it is added to a
  counter of 64 bits.
\<close>

definition kv777_counters :: "kv777 \<Rightarrow> i32 \<Rightarrow> u32 \<Rightarrow> u32 \<Rightarrow> kv777_item option \<Rightarrow> kv777_item option \<times> kv777" where
  "kv777_counters kv polarity ksize vsize ptr =
     (let kv = kv\<lparr>totalvalues := totalvalues kv + ucast (polarity * kv777_valuesize vsize), netvalues := netvalues kv + polarity,
                  totalkeys := totalkeys kv + ucast (polarity * ksize), netkeys := netkeys kv + polarity\<rparr>
      in case ptr of
           None \<Rightarrow> (None, kv)
         | Some p \<Rightarrow>
             if hdd (flags kv) \<and> rw (flags kv) \<and> fp kv \<noteq> None
             then let (_, p, kv) = kv777_update kv p in (Some p, kv)
             else (Some p, kv))"

definition kv777_add :: "kv777 \<Rightarrow> kv777_item \<Rightarrow> bool \<Rightarrow> (kv777_item \<times> kv777) option" where
  "kv777_add kv ptr updatehdd =
     do { key \<leftarrow> itemkey_bytes (item ptr);
          let kv = kv\<lparr>numkeys := numkeys kv + 1\<rparr>;
          let ptr = ptr\<lparr>hh_key := key, stale := False\<rparr>;
          let (p, kv) = kv777_counters kv 1 (keysize (item ptr)) (valuesize (item ptr)) (if updatehdd then Some ptr else None);
          let ptr = (case p of None \<Rightarrow> ptr | Some p \<Rightarrow> p);
          Some (ptr, kv\<lparr>table := table kv @ [ptr]\<rparr>) }"

text \<open>
  The element leaves the table, is marked as deleted and counted off. \<open>kv777_delete\<close> ends with another lock where
  it means to unlock.
\<close>

definition delete_at :: "kv777 \<Rightarrow> nat \<Rightarrow> kv777" where
  "delete_at kv i =
     (let ptr = table kv ! i;
          kv = kv\<lparr>table := take i (table kv) @ drop (Suc i) (table kv)\<rparr>;
          it = kv777_setdeleted (item ptr)
      in snd (kv777_counters kv (- 1) (keysize it) (valuesize it) (Some (ptr\<lparr>item := it\<rparr>))))"

definition kv777_delete :: "kv777 \<Rightarrow> u8 list \<Rightarrow> (i32 \<times> kv777) option" where
  "kv777_delete kv key =
     do { kv \<leftarrow> kv777_lock kv;
          i \<leftarrow> hash_find (table kv) key;
          let (retval, kv) = (case i of None \<Rightarrow> (- 1, kv) | Some i \<Rightarrow> (0, delete_at kv i));
          kv \<leftarrow> kv777_lock kv;
          Some (retval, kv) }"

definition kv777_write :: "kv777 \<Rightarrow> u8 list \<Rightarrow> u8 list \<Rightarrow> (kv777_item \<times> kv777) option" where
  "kv777_write kv key val =
     do { kv \<leftarrow> kv777_lock kv;
          i \<leftarrow> hash_find (table kv) key;
          let vsize = word_of_nat (length val);
          let ksize = word_of_nat (length key);
          (ptr, kv) \<leftarrow>
            (case i of
               Some i \<Rightarrow>
                 let ptr = table kv ! i; it = item ptr in
                 if vsize = valuesize it
                 then if take (length val) (valuedata it) = val then Some (ptr, kv)
                      else do { d \<leftarrow> memcpy_at (valuedata it) 0 val;
                                let ptr = ptr\<lparr>item := set_crc (it\<lparr>valuedata := d\<rparr>) (kv777_itemsize ksize vsize)\<rparr>;
                                let (_, ptr, kv) = (if fp kv \<noteq> None then kv777_update kv ptr else (0, ptr, kv));
                                Some (ptr, kv\<lparr>table := (table kv)[i := ptr]\<rparr>) }
                 else do { let (_, kv) = kv777_counters kv (- 1) (keysize it) (valuesize it) None;
                           let off = (if kv777_itemsize ksize vsize > itemsize ptr then - 1 else item_offset ptr);
                           (it, sz) \<leftarrow> kv777_hdditem key val;
                           let ptr = ptr\<lparr>stale := True, item_offset := off, itemsize := sz, item := it\<rparr>;
                           let (p, kv) = kv777_counters kv 1 ksize vsize (Some ptr);
                           let ptr = (case p of None \<Rightarrow> ptr | Some p \<Rightarrow> p);
                           Some (ptr, kv\<lparr>table := (table kv)[i := ptr]\<rparr>) }
             | None \<Rightarrow>
                 do { (it, sz) \<leftarrow> kv777_hdditem key val;
                      kv777_add kv \<lparr>hh_key = [], stale = False, item_offset = - 1, ind = numkeys kv, itemsize = sz, item = it\<rparr> True });
          Some (ptr, kv777_unlock kv) }"

text \<open>
  The result of \<open>kv777_read\<close> is the record (its value, in the code, when \<open>retitem\<close> is 0), the buffer \<open>buf\<close> and
  the size \<open>sizep\<close>, of which either can be null.
\<close>

definition kv777_read ::
    "kv777 \<Rightarrow> u8 list \<Rightarrow> u8 list option \<Rightarrow> u32 option \<Rightarrow> (hdditem option \<times> u8 list option \<times> u32 option) option" where
  "kv777_read kv key buf sizep =
     do { kv \<leftarrow> kv777_lock kv;
          i \<leftarrow> hash_find (table kv) key;
          case i of
            Some i \<Rightarrow>
              let it = item (table kv ! i) in
              if kv777_isdeleted it then Some (None, buf, map_option (\<lambda>_. 0) sizep)
              else (case (sizep, buf) of
                      (Some sz, Some b) \<Rightarrow>
                        if valuesize it \<le> sz
                        then if unat (valuesize it) > length (valuedata it) then None
                             else do { b \<leftarrow> memcpy_at b 0 (take (unat (valuesize it)) (valuedata it));
                                       Some (Some it, Some b, Some (valuesize it)) }
                        else Some (Some it, buf, Some (valuesize it))
                    | _ \<Rightarrow> Some (Some it, buf, map_option (\<lambda>_. valuesize it) sizep))
          | None \<Rightarrow> Some (None, buf, map_option (\<lambda>_. 0) sizep) }"

text \<open>The value of a record, as the callers take it from the result.\<close>

definition item_value :: "hdditem \<Rightarrow> u8 list" where
  "item_value it = take (unat (valuesize it)) (valuedata it)"

text \<open>Strings are stored with their final zero.\<close>

definition kv777_addstr :: "kv777 \<Rightarrow> u8 list \<Rightarrow> u8 list \<Rightarrow> (i32 \<times> kv777) option" where
  "kv777_addstr kv key val = map_option (\<lambda>(ptr, kv). (ind ptr, kv)) (kv777_write kv (key @ [0]) (val @ [0]))"

definition kv777_findstr :: "u8 list \<Rightarrow> u32 \<Rightarrow> kv777 \<Rightarrow> u8 list \<Rightarrow> (hdditem option \<times> u8 list option) option" where
  "kv777_findstr retbuf maxlen kv key = map_option (\<lambda>(r, b, _). (r, b)) (kv777_read kv (key @ [0]) (Some retbuf) (Some maxlen))"

section \<open>Iteration and purging\<close>

text \<open>The iterator is called on every element that is not deleted, until it returns something.\<close>

fun iterate_loop :: "(kv777 \<Rightarrow> kv777_item \<Rightarrow> 'r option \<times> kv777) \<Rightarrow> bool \<Rightarrow> kv777_item list \<Rightarrow> kv777 \<Rightarrow> 'r option \<times> kv777" where
  "iterate_loop iterator allitems [] kv = (None, kv)"
| "iterate_loop iterator allitems (ptr # ptrs) kv =
     (if allitems \<or> \<not> kv777_isdeleted (item ptr)
      then case iterator kv ptr of
             (Some r, kv) \<Rightarrow> (Some r, kv)
           | (None, kv) \<Rightarrow> iterate_loop iterator allitems ptrs kv
      else iterate_loop iterator allitems ptrs kv)"

definition kv777_iterate :: "kv777 \<Rightarrow> bool \<Rightarrow> (kv777 \<Rightarrow> kv777_item \<Rightarrow> 'r option \<times> kv777) \<Rightarrow> 'r option \<times> kv777" where
  "kv777_iterate kv allitems iterator = iterate_loop iterator allitems (table kv) kv"

definition kv777_deliterator :: "kv777 \<Rightarrow> kv777_item \<Rightarrow> unit option \<times> kv777" where
  "kv777_deliterator kv ptr = (None, kv\<lparr>table := remove1 ptr (table kv)\<rparr>)"

text \<open>The file is closed and deleted.\<close>

definition kv777_clear :: "kv777 \<Rightarrow> kv777" where
  "kv777_clear kv = kv\<lparr>totalkeys := 0, totalvalues := 0, netkeys := 0, netvalues := 0, fp := None\<rparr>"

definition kv777_purge :: "kv777 \<Rightarrow> (i32 \<times> kv777) option" where
  "kv777_purge kv =
     do { kv \<leftarrow> kv777_lock kv;
          let kv = kv777_unlock kv;
          let (_, kv) = kv777_iterate kv True kv777_deliterator;
          Some (0, kv777_clear kv) }"

section \<open>Opening\<close>

text \<open>The next record of the file with its size, or the null pointer at the end and for a record that is not good.\<close>

definition kv777_load :: "kv777 \<Rightarrow> (hdditem \<times> u32) option \<times> kv777" where
  "kv777_load kv =
     (case fp kv of
        None \<Rightarrow> (None, kv)
      | Some f \<Rightarrow>
          let (c, f) = fread (fseek f (offset kv)) 4 in
          if length c = 4 \<and> (le_val c :: u32) \<noteq> 0
          then let (v, f) = fread f 4 in
               if length v \<noteq> 4 then (None, kv\<lparr>fp := Some f\<rparr>)
               else let (k, f) = fread f 4; vsize = (le_val v :: u32); ksize = (le_val k :: u32) in
                    if length k \<noteq> 4 \<or> ksize > 65536 \<or> vsize > 0x40000000 then (None, kv\<lparr>fp := Some f\<rparr>)
                    else let sz = kv777_itemsize ksize vsize;
                             (d, f) = fread f (unat sz - 12);
                             it = set_crc \<lparr>crc = 0, valuesize = vsize, keysize = ksize, valuedata = d\<rparr> sz
                         in if length d \<noteq> unat sz - 12 \<or> le_val c \<noteq> crc it then (None, kv\<lparr>fp := Some f\<rparr>)
                            else (Some (it, sz), kv\<lparr>fp := Some f, offset := fpos f\<rparr>)
          else (None, kv\<lparr>fp := Some f, offset := fpos f\<rparr>))"

text \<open>A record with a known key replaces the earlier one.\<close>

definition init_item :: "kv777 \<Rightarrow> hdditem \<Rightarrow> u32 \<Rightarrow> nat \<Rightarrow> kv777 option" where
  "init_item kv it sz off =
     (if kv777_isdeleted it then Some kv
      else do { key \<leftarrow> itemkey_bytes it;
                (checkitem, _) \<leftarrow> kv777_read kv key None None;
                kv \<leftarrow> (if checkitem \<noteq> None then map_option snd (kv777_delete kv key) else Some kv);
                (_, kv) \<leftarrow> kv777_add kv \<lparr>hh_key = [], stale = False, item_offset = int off, ind = numkeys kv, itemsize = sz, item = it\<rparr> False;
                Some kv })"

function load_loop :: "kv777 \<Rightarrow> nat \<Rightarrow> (kv777 \<times> nat) option" where
  "load_loop kv off =
     (case kv777_load kv of
        (None, kv) \<Rightarrow> Some (kv, off)
      | (Some (it, sz), kv) \<Rightarrow>
          (case init_item kv it sz off of
             None \<Rightarrow> None
           | Some kv \<Rightarrow> load_loop kv (offset kv)))"
  by pat_completeness auto

text \<open>A load moves forward, and the work on a record leaves the bytes of the file and the offset.\<close>

lemma load_forward:
  assumes "kv777_load kv = (Some (it, sz), kv')"
  shows "offset kv < offset kv' \<and> offset kv' \<le> length (fdata (the (fp kv'))) \<and> fdata (the (fp kv')) = fdata (the (fp kv))"
proof -
  obtain f where f: "fp kv = Some f" using assms by (cases "fp kv") (simp_all add: kv777_load_def)
  let ?d = "drop (offset kv) (fdata f)"
  have n: "length (take 4 ?d) = 4" using assms f by (simp add: kv777_load_def fread_def fseek_def Let_def split: if_splits)
  have "\<exists>g. fp kv' = Some g \<and> offset kv' = fpos g \<and> fdata g = fdata f \<and> offset kv + 4 \<le> fpos g \<and> fpos g \<le> length (fdata f)"
    using assms f n by (auto simp: kv777_load_def fread_def fseek_def Let_def split: if_splits)
  then show ?thesis using f by auto
qed

lemma isdeleted_setdeleted [simp]: "kv777_isdeleted (kv777_setdeleted it)"
proof -
  have "bit ((valuesize it OR 0x80000000) AND 0x80000000) 31" by (simp add: bit_simps)
  then show ?thesis by (auto simp: kv777_isdeleted_def kv777_setdeleted_def simp del: bit.conj_disj_distrib2)
qed

lemma counters_frame [simp]:
  "offset (snd (kv777_counters kv pol ks vs None)) = offset kv" "fp (snd (kv777_counters kv pol ks vs None)) = fp kv"
  "fst (kv777_counters kv pol ks vs None) = None"
  "table (snd (kv777_counters kv pol ks vs None)) = table kv" "flags (snd (kv777_counters kv pol ks vs None)) = flags kv"
  "locked (snd (kv777_counters kv pol ks vs None)) = locked kv"
  by (simp_all add: kv777_counters_def)

lemma counters_deleted:
  assumes "kv777_isdeleted (item ptr)"
  shows "offset (snd (kv777_counters kv pol ks vs (Some ptr))) = offset kv" "fp (snd (kv777_counters kv pol ks vs (Some ptr))) = fp kv"
    "table (snd (kv777_counters kv pol ks vs (Some ptr))) = table kv" "flags (snd (kv777_counters kv pol ks vs (Some ptr))) = flags kv"
    "locked (snd (kv777_counters kv pol ks vs (Some ptr))) = locked kv"
  using assms by (auto simp: kv777_counters_def kv777_update_def fread_def fseek_def Let_def split: option.splits)

lemma delete_at_frame [simp]:
  "offset (delete_at kv i) = offset kv" "fp (delete_at kv i) = fp kv" "flags (delete_at kv i) = flags kv"
  "locked (delete_at kv i) = locked kv" "table (delete_at kv i) = take i (table kv) @ drop (Suc i) (table kv)"
  by (simp_all add: delete_at_def Let_def counters_deleted)

lemma lock_frame:
  assumes "kv777_lock kv = Some kv'"
  shows "offset kv' = offset kv \<and> fp kv' = fp kv \<and> table kv' = table kv \<and> flags kv' = flags kv"
  using assms by (auto simp: kv777_lock_def split: if_splits)

lemma delete_frame:
  assumes "kv777_delete kv key = Some (r, kv')"
  shows "offset kv' = offset kv \<and> fp kv' = fp kv"
  using assms by (auto simp: kv777_delete_def bind_Some_conv Let_def split: option.splits prod.splits dest!: lock_frame)

lemma add_frame:
  assumes "kv777_add kv ptr False = Some (p, kv')"
  shows "offset kv' = offset kv \<and> fp kv' = fp kv"
  using assms by (auto simp: kv777_add_def bind_Some_conv Let_def kv777_counters_def)

lemma init_item_frame:
  assumes "init_item kv it sz off = Some kv'"
  shows "offset kv' = offset kv \<and> fp kv' = fp kv"
  using assms by (auto simp: init_item_def bind_Some_conv split: if_splits dest!: add_frame delete_frame)

termination load_loop
proof (relation "measure (\<lambda>(kv, off). length (fdata (the (fp kv))) - offset kv)", goal_cases)
  case (2 kv off x y x2 xa ya x2a)
  then have l: "kv777_load kv = (Some (xa, ya), y)" by simp
  show ?case using load_forward [OF l] init_item_frame [OF 2(4)] by (auto simp: diff_less_mono2)
qed simp

declare load_loop.simps [simp del]

text \<open>\<open>disk\<close> is the file, if there is one; without \<open>hdd\<close> the store is in memory only.\<close>

definition kv777_init :: "kv777_flags \<Rightarrow> u8 list option \<Rightarrow> kv777 option" where
  "kv777_init fl disk =
     (let file = (case disk of None \<Rightarrow> [] | Some d \<Rightarrow> d);
          kv = \<lparr>table = [], flags = fl\<lparr>threadsafe := False\<rparr>, locked = False,
                fp = (if hdd fl then Some \<lparr>fdata = file, fpos = 0\<rparr> else None),
                offset = 0, totalkeys = 0, totalvalues = 0, numkeys = 0, netkeys = 0, netvalues = 0\<rparr>
      in if fp kv = None then Some (kv\<lparr>flags := fl\<rparr>)
         else do { (kv, off) \<leftarrow> load_loop kv 0;
                   Some (kv\<lparr>flags := fl, fp := map_option (\<lambda>f. fseek f off) (fp kv)\<rparr>) })"

section \<open>The layout of a record\<close>

definition pad4 :: "nat \<Rightarrow> nat" where
  "pad4 n = (n + 3) div 4 * 4"

definition rsize :: "u8 list \<Rightarrow> u8 list \<Rightarrow> nat" where
  "rsize k v = 12 + pad4 (length v) + pad4 (length k)"

definition rdata :: "u8 list \<Rightarrow> u8 list \<Rightarrow> u8 list" where
  "rdata k v = v @ replicate (pad4 (length v) - length v) 0 @ k @ replicate (pad4 (length k) - length k) 0"

definition record_of :: "u8 list \<Rightarrow> u8 list \<Rightarrow> hdditem" where
  "record_of k v =
     (let vs = word_of_nat (length v) :: u32; ks = word_of_nat (length k) :: u32
      in \<lparr>crc = crc32 0 (le_bytes 4 vs @ le_bytes 4 ks @ rdata k v), valuesize = vs, keysize = ks, valuedata = rdata k v\<rparr>)"

definition sizes_ok :: "u8 list \<Rightarrow> u8 list \<Rightarrow> bool" where
  "sizes_ok k v \<longleftrightarrow> length k \<le> 65536 \<and> length v \<le> 1073741824"

lemma pad4_ge [simp]: "n \<le> pad4 n" "pad4 n \<le> n + 3"
  by (simp_all add: pad4_def)

lemma length_rdata [simp]: "length (rdata k v) = rsize k v - 12"
  using pad4_ge(1) [of "length v"] pad4_ge(1) [of "length k"] by (simp add: rdata_def rsize_def del: pad4_ge)

lemma and3: "(word_of_nat n :: u32) AND 3 = word_of_nat (n mod 4)"
proof -
  have "(word_of_nat n :: u32) AND 3 = take_bit 2 (word_of_nat n)" by (simp add: take_bit_eq_mask mask_eq_exp_minus_1)
  also have "\<dots> = word_of_nat (take_bit 2 n)" by (simp add: take_bit_of_nat flip: of_nat_mod)
  finally show ?thesis by (simp add: take_bit_eq_mod)
qed

lemma pad4_mod: "pad4 n = (if n mod 4 = 0 then n else n + (4 - n mod 4))"
  unfolding pad4_def by presburger

lemma pad_word:
  "(if (word_of_nat n :: u32) AND 3 \<noteq> 0 then (s :: u32) + (4 - (word_of_nat n AND 3)) else s) = s + word_of_nat (pad4 n - n)"
proof -
  have "(word_of_nat (n mod 4) :: u32) = 0 \<longleftrightarrow> n mod 4 = 0"
    using mod_less_divisor [of 4 n] by (auto simp: word_unat_eq_iff unsigned_of_nat take_bit_eq_mod)
  moreover have "(4 :: u32) - word_of_nat (n mod 4) = word_of_nat (4 - n mod 4)"
    using mod_less_divisor [of 4 n] by (simp add: of_nat_diff)
  ultimately show ?thesis unfolding and3 pad4_mod by simp
qed

lemma valuesize_small: "unat x < 2 ^ 31 \<Longrightarrow> kv777_valuesize x = x"
proof -
  assume "unat x < 2 ^ 31"
  then have "take_bit 31 x = x" by (simp only: word_unat_eq_iff unsigned_take_bit_eq take_bit_nat_eq_self_iff)
  moreover have "(NOT 0x80000000 :: u32) = mask 31" by (subst word_uint_eq_iff) (simp add: mask_eq_exp_minus_1)
  ultimately show ?thesis by (simp only: kv777_valuesize_def take_bit_eq_mask)
qed

lemma unat_length: "length xs < 2 ^ 32 \<Longrightarrow> unat (word_of_nat (length xs) :: u32) = length xs"
  by (simp add: unsigned_of_nat take_bit_eq_mod)

lemma rsize_bound: "sizes_ok k v \<Longrightarrow> rsize k v < 2 ^ 31"
  using pad4_ge(2) [of "length v"] pad4_ge(2) [of "length k"] unfolding rsize_def sizes_ok_def by (auto simp del: pad4_ge)

lemma itemsize_eq:
  assumes "sizes_ok k v"
  shows "kv777_itemsize (word_of_nat (length k)) (word_of_nat (length v)) = word_of_nat (rsize k v)"
    and "unat (word_of_nat (rsize k v) :: u32) = rsize k v"
proof -
  have v: "kv777_valuesize (word_of_nat (length v)) = word_of_nat (length v)"
    using assms by (intro valuesize_small) (simp add: unat_length sizes_ok_def)
  have "kv777_itemsize (word_of_nat (length k)) (word_of_nat (length v))
      = 12 + word_of_nat (length v) + word_of_nat (length k) + word_of_nat (pad4 (length v) - length v) + word_of_nat (pad4 (length k) - length k)"
    unfolding kv777_itemsize_def Let_def v pad_word by simp
  also have "\<dots> = word_of_nat (rsize k v)"
    by (simp add: rsize_def of_nat_diff)
  finally show "kv777_itemsize (word_of_nat (length k)) (word_of_nat (length v)) = word_of_nat (rsize k v)" .
  show "unat (word_of_nat (rsize k v) :: u32) = rsize k v"
    using rsize_bound [OF assms] by (simp add: unsigned_of_nat take_bit_eq_mod)
qed

lemma unat_sizes:
  assumes "sizes_ok k v"
  shows "unat (word_of_nat (length k) :: u32) = length k" "unat (word_of_nat (length v) :: u32) = length v"
  using assms by (simp_all add: unat_length sizes_ok_def)

lemma itemkey_eq:
  assumes "sizes_ok k v" and "valuesize it = word_of_nat (length v)"
  shows "kv777_itemkey it = int (pad4 (length v))"
proof -
  have "pad4 (length v) < 2 ^ 31" using rsize_bound [OF assms(1)] by (simp add: rsize_def)
  then have "sint (word_of_nat (pad4 (length v)) :: u32) = int (pad4 (length v))"
    by (simp add: signed_of_nat signed_take_bit_int_eq_self)
  moreover have "(word_of_nat (length v) :: u32) + word_of_nat (pad4 (length v) - length v) = word_of_nat (pad4 (length v))"
    by (simp add: of_nat_diff)
  ultimately show ?thesis by (simp only: kv777_itemkey_def Let_def assms(2) pad_word)
qed

lemma set_crc_record:
  assumes "sizes_ok k v"
  shows "set_crc \<lparr>crc = c, valuesize = word_of_nat (length v), keysize = word_of_nat (length k), valuedata = rdata k v\<rparr> (word_of_nat (rsize k v)) = record_of k v"
proof -
  have "12 \<le> rsize k v" by (simp add: rsize_def)
  then show ?thesis using itemsize_eq(2) [OF assms] by (simp add: set_crc_def item_bytes_def record_of_def Let_def)
qed

lemma record_fields [simp]:
  "valuesize (record_of k v) = word_of_nat (length v)" "keysize (record_of k v) = word_of_nat (length k)"
  "valuedata (record_of k v) = rdata k v"
  by (simp_all add: record_of_def Let_def)

lemma hdditem_eq:
  assumes "sizes_ok k v"
  shows "kv777_hdditem k v = Some (record_of k v, word_of_nat (rsize k v))"
proof -
  let ?n = "rsize k v - 12"
  have n: "?n = pad4 (length v) + pad4 (length k)" by (simp add: rsize_def)
  have "\<not> (word_of_nat (rsize k v) :: u32) < 12"
    using itemsize_eq(2) [OF assms] by (simp add: word_less_nat_alt rsize_def)
  moreover have "memcpy_at (replicate ?n 0) 0 v = Some (v @ replicate (?n - length v) 0)"
    using pad4_ge(1) [of "length v"] by (simp add: memcpy_at_def n del: pad4_ge)
  moreover have "memcpy_at (v @ replicate (?n - length v) 0) (int (pad4 (length v))) k = Some (rdata k v)"
    using pad4_ge(1) [of "length v"] pad4_ge(1) [of "length k"]
    by (simp add: memcpy_at_def n rdata_def min_def del: pad4_ge)
  ultimately show ?thesis
    using itemkey_eq [OF assms] itemsize_eq [OF assms] set_crc_record [OF assms, of 0]
    by (simp add: kv777_hdditem_def Let_def)
qed

lemma itemkey_bytes_eq:
  assumes "sizes_ok k v"
  shows "itemkey_bytes (record_of k v) = Some k"
  using itemkey_eq [OF assms, of "record_of k v"] unat_sizes [OF assms] pad4_ge(1) [of "length v"] pad4_ge(1) [of "length k"]
  by (simp add: itemkey_bytes_def rdata_def rsize_def del: pad4_ge)

lemma item_value_eq: "sizes_ok k v \<Longrightarrow> item_value (record_of k v) = v"
  using unat_sizes [of k v] by (simp add: item_value_def rdata_def)

lemma isdeleted_record: "sizes_ok k v \<Longrightarrow> \<not> kv777_isdeleted (record_of k v)"
proof -
  assume s: "sizes_ok k v"
  have "(word_of_nat (length v) :: u32) AND NOT 0x80000000 = word_of_nat (length v)"
    using valuesize_small [of "word_of_nat (length v)"] unat_sizes(2) [OF s] s by (simp add: kv777_valuesize_def sizes_ok_def)
  then have "(word_of_nat (length v) :: u32) AND 0x80000000 = (word_of_nat (length v) AND NOT 0x80000000) AND 0x80000000" by (simp only:)
  also have "\<dots> = 0" by (rule bit_word_eqI) (simp only: bit_and_iff bit_not_iff, simp)
  finally show ?thesis by (simp add: kv777_isdeleted_def)
qed

lemma length_record_bytes: "sizes_ok k v \<Longrightarrow> length (item_bytes (record_of k v)) = rsize k v"
  by (simp add: item_bytes_def rsize_def)

text \<open>A record that was written is read, and the end of the file ends the loop.\<close>

lemma load_record:
  assumes "sizes_ok k v" and "crc (record_of k v) \<noteq> 0" and "fp kv = Some f"
    and "drop (offset kv) (fdata f) = item_bytes (record_of k v) @ rest"
  shows "kv777_load kv = (Some (record_of k v, word_of_nat (rsize k v)),
    kv\<lparr>fp := Some (f\<lparr>fpos := offset kv + rsize k v\<rparr>), offset := offset kv + rsize k v\<rparr>)"
proof -
  let ?it = "record_of k v"
  have d: "drop (offset kv) (fdata f) = le_bytes 4 (crc ?it) @ le_bytes 4 (valuesize ?it) @ le_bytes 4 (keysize ?it) @ rdata k v @ rest"
    using assms(4) by (simp add: item_bytes_def)
  have d4: "drop (offset kv + 4) (fdata f) = le_bytes 4 (valuesize ?it) @ le_bytes 4 (keysize ?it) @ rdata k v @ rest"
    using arg_cong [OF d, of "drop 4"] by (simp add: add.commute)
  have d8: "drop (offset kv + 8) (fdata f) = le_bytes 4 (keysize ?it) @ rdata k v @ rest"
    using arg_cong [OF d, of "drop 8"] by (simp add: add.commute)
  have d12: "drop (offset kv + 12) (fdata f) = rdata k v @ rest"
    using arg_cong [OF d, of "drop 12"] by (simp add: add.commute)
  have val: "le_val (le_bytes 4 x) = (x :: u32)" for x by (rule le_val_le_bytes) simp
  have small: "\<not> (65536 :: u32) < word_of_nat (length k)" "\<not> (0x40000000 :: u32) < word_of_nat (length v)"
    using unat_sizes [OF assms(1)] assms(1) by (simp_all add: word_less_nat_alt sizes_ok_def)
  have r12: "12 \<le> rsize k v" by (simp add: rsize_def)
  have fr: "fread (fseek f (offset kv)) 4 = (le_bytes 4 (crc ?it), f\<lparr>fpos := offset kv + 4\<rparr>)"
    "fread (f\<lparr>fpos := offset kv + 4\<rparr>) 4 = (le_bytes 4 (valuesize ?it), f\<lparr>fpos := offset kv + 8\<rparr>)"
    "fread (f\<lparr>fpos := offset kv + 8\<rparr>) 4 = (le_bytes 4 (keysize ?it), f\<lparr>fpos := offset kv + 12\<rparr>)"
    "fread (f\<lparr>fpos := offset kv + 12\<rparr>) (rsize k v - 12) = (rdata k v, f\<lparr>fpos := offset kv + rsize k v\<rparr>)"
    using d d4 d8 d12 r12 by (simp_all add: fread_def fseek_def Let_def)
  show ?thesis
    using assms(2,3) small by (simp add: kv777_load_def fr val itemsize_eq [OF assms(1)] set_crc_record [OF assms(1)])
qed

text \<open>The loop ends at the end of the file and at four zeros, so a record whose checksum is zero is never read back.\<close>

definition stops :: "u8 list \<Rightarrow> bool" where
  "stops bs \<longleftrightarrow> bs = [] \<or> take 4 bs = replicate 4 0"

lemma load_stops:
  assumes "fp kv = Some f" and "stops (drop (offset kv) (fdata f))"
  shows "\<exists>kv' f'. kv777_load kv = (None, kv') \<and> table kv' = table kv \<and> flags kv' = flags kv \<and> locked kv' = locked kv
    \<and> fp kv' = Some f' \<and> fdata f' = fdata f"
proof -
  have z: "(le_val (replicate 4 0) :: u32) = 0" by (simp add: numeral_eq_Suc)
  show ?thesis
  proof (cases "drop (offset kv) (fdata f) = []")
    case True
    then show ?thesis using assms(1) by (simp add: kv777_load_def fread_def fseek_def)
  next
    case False
    then show ?thesis using assms z by (simp add: stops_def kv777_load_def fread_def fseek_def Let_def)
  qed
qed

section \<open>The table as a map\<close>

text \<open>
  The map gives every key its value and the place of its record in the file; \<open>st\<close> holds the keys whose
  handles may be stale.
\<close>

definition holds :: "kv777_item \<Rightarrow> u8 list \<Rightarrow> nat \<times> u8 list \<Rightarrow> bool" where
  "holds e k p \<longleftrightarrow> hh_key e = k \<and> item_offset e = int (fst p) \<and> itemsize e = word_of_nat (rsize k (snd p))
     \<and> item e = record_of k (snd p) \<and> sizes_ok k (snd p)"

definition tab_ok :: "kv777_item list \<Rightarrow> u8 list set \<Rightarrow> (u8 list \<rightharpoonup> nat \<times> u8 list) \<Rightarrow> bool" where
  "tab_ok tab st m \<longleftrightarrow> distinct (map hh_key tab) \<and> dom m = hh_key ` set tab
     \<and> (\<forall>e \<in> set tab. holds e (hh_key e) (the (m (hh_key e))) \<and> (stale e \<longrightarrow> hh_key e \<in> st))"

lemma tab_ok_Nil: "tab_ok [] st Map.empty"
  by (simp add: tab_ok_def)

lemma find_index_Some:
  assumes "find P [0..<n] = Some i"
  shows "i < n \<and> P i"
  using assms by (auto simp: find_Some_iff)

lemma hash_find_absent:
  assumes "tab_ok tab st m" and "\<forall>s \<in> st. length s \<noteq> length k" and "m k = None"
  shows "hash_find tab k = Some None"
proof -
  have "k \<notin> hh_key ` set tab" using assms(1,3) by (auto simp: tab_ok_def)
  then have "find (\<lambda>i. hh_key (tab ! i) = k) [0..<length tab] = None" by (fastforce simp: find_None_iff)
  then show ?thesis using assms(1,2) by (auto simp: hash_find_def tab_ok_def)
qed

lemma hash_find_present:
  assumes "tab_ok tab st m" and "\<forall>s \<in> st. length s \<noteq> length k" and "m k = Some p"
  obtains i where "hash_find tab k = Some (Some i)" "i < length tab" "holds (tab ! i) k p" "\<not> stale (tab ! i)"
proof -
  have "k \<in> hh_key ` set tab" using assms(1,3) by (auto simp: tab_ok_def)
  then obtain j where "j < length tab" "hh_key (tab ! j) = k" by (auto simp: in_set_conv_nth)
  then have "find (\<lambda>i. hh_key (tab ! i) = k) [0..<length tab] \<noteq> None" unfolding find_None_iff by auto
  then obtain i where i: "find (\<lambda>i. hh_key (tab ! i) = k) [0..<length tab] = Some i" by blast
  then have l: "i < length tab" "hh_key (tab ! i) = k" using find_index_Some by blast+
  then have "holds (tab ! i) k p" "\<not> stale (tab ! i)"
    using assms unfolding tab_ok_def by (metis nth_mem option.sel)+
  moreover have "hash_find tab k = Some (Some i)" using assms(1,2) i by (auto simp: hash_find_def tab_ok_def)
  ultimately show thesis using that l(1) by blast
qed

lemma tab_ok_append:
  assumes "tab_ok tab st m" and "m k = None" and "holds e k p" and "stale e \<longrightarrow> k \<in> st"
  shows "tab_ok (tab @ [e]) st (m(k \<mapsto> p))"
proof -
  have "k \<notin> hh_key ` set tab" using assms(1,2) by (auto simp: tab_ok_def)
  moreover have "hh_key e = k" using assms(3) by (simp add: holds_def)
  ultimately show ?thesis using assms(1,3,4) unfolding tab_ok_def by (auto simp: image_iff)
qed

lemma tab_ok_update:
  assumes "tab_ok tab st m" and "i < length tab" and "hh_key (tab ! i) = k" and "holds e k p"
    and "st \<subseteq> st'" and "stale e \<longrightarrow> k \<in> st'"
  shows "tab_ok (tab[i := e]) st' (m(k \<mapsto> p))"
proof -
  let ?a = "take i tab" and ?b = "drop (Suc i) tab"
  have t: "tab = ?a @ tab ! i # ?b" using assms(2) by (rule id_take_nth_drop)
  have u: "tab[i := e] = ?a @ e # ?b" using assms(2) by (rule upd_conv_take_nth_drop)
  have d: "distinct (map hh_key (?a @ tab ! i # ?b))" using assms(1) unfolding tab_ok_def by (subst t [symmetric]) simp
  have dom: "dom m = hh_key ` set (?a @ tab ! i # ?b)" using assms(1) unfolding tab_ok_def by (subst t [symmetric]) simp
  have all: "\<forall>x \<in> set (?a @ ?b). holds x (hh_key x) (the (m (hh_key x))) \<and> (stale x \<longrightarrow> hh_key x \<in> st)"
    using assms(1) unfolding tab_ok_def by (auto dest: in_set_takeD in_set_dropD)
  have k: "k \<notin> hh_key ` set (?a @ ?b)" using d assms(3) by auto
  have e: "hh_key e = k" using assms(4) by (simp add: holds_def)
  have "\<forall>x \<in> set (?a @ ?b). hh_key x \<noteq> k" using k by auto
  then have "\<forall>x \<in> set (?a @ e # ?b). holds x (hh_key x) (the ((m(k \<mapsto> p)) (hh_key x))) \<and> (stale x \<longrightarrow> hh_key x \<in> st')"
    using all assms(4-6) e by auto
  moreover have "distinct (map hh_key (?a @ e # ?b))" using d e assms(3) by simp
  moreover have "dom (m(k \<mapsto> p)) = hh_key ` set (?a @ e # ?b)" using dom e assms(3) by auto
  ultimately show ?thesis unfolding u tab_ok_def by blast
qed

lemma tab_ok_delete:
  assumes "tab_ok tab st m" and "i < length tab" and "hh_key (tab ! i) = k"
  shows "tab_ok (take i tab @ drop (Suc i) tab) st (m(k := None))"
proof -
  let ?a = "take i tab" and ?b = "drop (Suc i) tab"
  have t: "tab = ?a @ tab ! i # ?b" using assms(2) by (rule id_take_nth_drop)
  have d: "distinct (map hh_key (?a @ tab ! i # ?b))" using assms(1) unfolding tab_ok_def by (subst t [symmetric]) simp
  have dom: "dom m = hh_key ` set (?a @ tab ! i # ?b)" using assms(1) unfolding tab_ok_def by (subst t [symmetric]) simp
  have all: "\<forall>x \<in> set (?a @ ?b). holds x (hh_key x) (the (m (hh_key x))) \<and> (stale x \<longrightarrow> hh_key x \<in> st)"
    using assms(1) unfolding tab_ok_def by (auto dest: in_set_takeD in_set_dropD)
  have k: "k \<notin> hh_key ` set (?a @ ?b)" using d assms(3) by auto
  then have ne: "\<forall>x \<in> set (?a @ ?b). hh_key x \<noteq> k" by auto
  have "dom (m(k := None)) = hh_key ` set (?a @ ?b)" using dom assms(3) k by auto
  then show ?thesis using d all ne unfolding tab_ok_def by auto
qed

section \<open>Opening restores the records\<close>

text \<open>The places of the records of a file, from the position \<open>n\<close> on: the last record of a key counts.\<close>

fun places :: "nat \<Rightarrow> (u8 list \<times> u8 list) list \<Rightarrow> (u8 list \<rightharpoonup> nat \<times> u8 list) \<Rightarrow> (u8 list \<rightharpoonup> nat \<times> u8 list)" where
  "places n [] m = m"
| "places n ((k, v) # rs) m = places (n + rsize k v) rs (m(k \<mapsto> (n, v)))"

definition file_bytes :: "(u8 list \<times> u8 list) list \<Rightarrow> u8 list" where
  "file_bytes rs = concat (map (\<lambda>(k, v). item_bytes (record_of k v)) rs)"

definition storable :: "u8 list \<Rightarrow> u8 list \<Rightarrow> bool" where
  "storable k v \<longleftrightarrow> sizes_ok k v \<and> crc (record_of k v) \<noteq> 0"

lemma read_absent:
  assumes "kv777_lock kv = Some kv'" and "hash_find (table kv) k = Some None"
  shows "kv777_read kv k b s = Some (None, b, map_option (\<lambda>_. 0) s)"
  using assms lock_frame [OF assms(1)] by (simp add: kv777_read_def)

lemma init_record:
  assumes "sizes_ok k v" and "\<not> threadsafe (flags kv)" and "tab_ok (table kv) {} m"
  shows "\<exists>kv'. init_item kv (record_of k v) (word_of_nat (rsize k v)) off = Some kv'
    \<and> tab_ok (table kv') {} (m(k \<mapsto> (off, v))) \<and> flags kv' = flags kv \<and> locked kv' = locked kv"
proof -
  let ?p = "\<lambda>n. \<lparr>hh_key = k, stale = False, item_offset = int off, ind = n, itemsize = word_of_nat (rsize k v), item = record_of k v\<rparr>"
  have lock: "kv777_lock x = Some x" if "flags x = flags kv" for x using assms(2) that by (simp add: kv777_lock_def)
  have e: "holds (?p n) k (off, v)" for n using assms(1) by (simp add: holds_def)
  show ?thesis
  proof (cases "m k")
    case None
    then have h: "hash_find (table kv) k = Some None" using hash_find_absent [OF assms(3)] by simp
    show ?thesis
      using tab_ok_append [OF assms(3) None e [of "numkeys kv"]] read_absent [OF lock [OF refl] h]
      by (simp add: init_item_def isdeleted_record [OF assms(1)] itemkey_bytes_eq [OF assms(1)] kv777_add_def kv777_counters_def Let_def)
  next
    case (Some p)
    then obtain i where i: "hash_find (table kv) k = Some (Some i)" "i < length (table kv)" "holds (table kv ! i) k p"
      using hash_find_present [OF assms(3) _ Some] by auto
    have hk: "hh_key (table kv ! i) = k" and it: "\<not> kv777_isdeleted (item (table kv ! i))"
      using i(3) isdeleted_record by (auto simp: holds_def)
    have r: "kv777_read kv k None None = Some (Some (item (table kv ! i)), None, None)"
      using i(1) it by (simp add: kv777_read_def lock [OF refl])
    have d: "kv777_delete kv k = Some (0, delete_at kv i)"
      using i(1) by (simp add: kv777_delete_def lock)
    have "tab_ok (table (delete_at kv i) @ [?p (numkeys (delete_at kv i))]) {} (m(k := None, k \<mapsto> (off, v)))"
      using tab_ok_append [OF tab_ok_delete [OF assms(3) i(2) hk] _ e] by simp
    then show ?thesis using r d
      by (simp add: init_item_def isdeleted_record [OF assms(1)] itemkey_bytes_eq [OF assms(1)] kv777_add_def kv777_counters_def Let_def)
  qed
qed

lemma load_records:
  assumes "\<forall>(k, v) \<in> set rs. storable k v" and "fp kv = Some f" and "drop (offset kv) (fdata f) = file_bytes rs @ rest"
    and "\<not> threadsafe (flags kv)" and "tab_ok (table kv) {} m" and "off = offset kv" and "stops rest"
  shows "\<exists>kv'. load_loop kv off = Some (kv', off + length (file_bytes rs))
    \<and> tab_ok (table kv') {} (places off rs m) \<and> flags kv' = flags kv \<and> locked kv' = locked kv
    \<and> (\<exists>f'. fp kv' = Some f' \<and> fdata f' = fdata f)"
  using assms
proof (induction rs arbitrary: kv f m off)
  case Nil
  then obtain kv' f' where "kv777_load kv = (None, kv')" "table kv' = table kv" "flags kv' = flags kv" "locked kv' = locked kv"
    "fp kv' = Some f'" "fdata f' = fdata f" using load_stops [of kv f] by (auto simp: file_bytes_def)
  then show ?case using Nil.prems(5) by (subst load_loop.simps) (simp add: file_bytes_def)
next
  case (Cons r rs)
  obtain k v where r: "r = (k, v)" by (cases r)
  have s: "sizes_ok k v" "crc (record_of k v) \<noteq> 0" using Cons.prems(1) r by (simp_all add: storable_def)
  have bytes: "file_bytes (r # rs) = item_bytes (record_of k v) @ file_bytes rs" by (simp add: file_bytes_def r)
  let ?n = "offset kv + rsize k v"
  let ?kv = "kv\<lparr>fp := Some (f\<lparr>fpos := ?n\<rparr>), offset := ?n\<rparr>"
  have l: "kv777_load kv = (Some (record_of k v, word_of_nat (rsize k v)), ?kv)"
    using load_record [OF s Cons.prems(2), of "file_bytes rs @ rest"] Cons.prems(3) bytes by simp
  obtain kv1 where i: "init_item ?kv (record_of k v) (word_of_nat (rsize k v)) off = Some kv1"
    "tab_ok (table kv1) {} (m(k \<mapsto> (off, v)))" "flags kv1 = flags kv" "locked kv1 = locked kv"
    using init_record [OF s(1), of ?kv m off] Cons.prems(4,5) by auto
  have fr: "offset kv1 = ?n" "fp kv1 = Some (f\<lparr>fpos := ?n\<rparr>)" using init_item_frame [OF i(1)] by simp_all
  have dr: "drop ?n (fdata f) = file_bytes rs @ rest"
    using arg_cong [OF Cons.prems(3), of "drop (rsize k v)"] bytes length_record_bytes [OF s(1)] by (simp add: add.commute)
  have "load_loop kv off = load_loop kv1 ?n" using l i(1) fr(1) by (subst load_loop.simps) simp
  moreover have "\<exists>kv'. load_loop kv1 ?n = Some (kv', ?n + length (file_bytes rs)) \<and> tab_ok (table kv') {} (places ?n rs (m(k \<mapsto> (off, v))))
    \<and> flags kv' = flags kv1 \<and> locked kv' = locked kv1 \<and> (\<exists>f'. fp kv' = Some f' \<and> fdata f' = fdata (f\<lparr>fpos := ?n\<rparr>))"
    using Cons.prems(1,4,7) dr fr i(3) by (intro Cons.IH [OF _ _ _ _ i(2)]) auto
  ultimately show ?case using Cons.prems(6) i(3,4) bytes length_record_bytes [OF s(1)] r by (simp add: add.assoc)
qed

definition records_length :: "(u8 list \<times> u8 list) list \<Rightarrow> nat" where
  "records_length rs = (\<Sum>(k, v) \<leftarrow> rs. rsize k v)"

lemma records_length_simps [simp]:
  "records_length [] = 0" "records_length ((k, v) # rs) = rsize k v + records_length rs"
  "records_length (rs @ rs') = records_length rs + records_length rs'"
  by (simp_all add: records_length_def)

lemma file_bytes_simps [simp]:
  "file_bytes [] = []" "file_bytes ((k, v) # rs) = item_bytes (record_of k v) @ file_bytes rs"
  "file_bytes (rs @ rs') = file_bytes rs @ file_bytes rs'"
  by (simp_all add: file_bytes_def)

lemma length_file_bytes: "\<forall>(k, v) \<in> set rs. storable k v \<Longrightarrow> length (file_bytes rs) = records_length rs"
  by (induction rs) (auto simp: length_record_bytes storable_def)

lemma places_append: "places n (rs @ rs') m = places (n + records_length rs) rs' (places n rs m)"
proof (induction rs arbitrary: n m)
  case (Cons r rs)
  then show ?case by (cases r) (simp only: append_Cons places.simps records_length_simps add.assoc)
qed simp

lemma places_other: "k \<notin> fst ` set rs \<Longrightarrow> places n rs (m(k \<mapsto> p)) = (places n rs m)(k \<mapsto> p)"
proof (induction rs arbitrary: n m)
  case (Cons r rs)
  obtain k' v where r: "r = (k', v)" by (cases r)
  then have k: "k \<noteq> k'" "k \<notin> fst ` set rs" using Cons.prems by auto
  have "m(k \<mapsto> p, k' \<mapsto> (n, v)) = m(k' \<mapsto> (n, v), k \<mapsto> p)" using k(1) by (rule fun_upd_twist)
  then show ?case using Cons.IH [OF k(2)] r by (simp only: places.simps)
qed simp

lemma places_replace:
  assumes "k \<notin> fst ` set post" and "rsize k v' = rsize k v"
  shows "places n (pre @ (k, v') # post) m = (places n (pre @ (k, v) # post) m)(k \<mapsto> (n + records_length pre, v'))"
  using assms by (simp add: places_append places_other)

lemma places_at:
  "places n rs Map.empty k = Some (off, v) \<Longrightarrow>
     \<exists>pre post. rs = pre @ (k, v) # post \<and> off = n + records_length pre \<and> k \<notin> fst ` set post"
proof (induction rs rule: rev_induct)
  case (snoc r rs)
  obtain k' v' where r: "r = (k', v')" by (cases r)
  show ?case
  proof (cases "k = k'")
    case True
    then have "rs @ [r] = rs @ (k, v) # []" "off = n + records_length rs" using snoc.prems r by (simp_all add: places_append)
    then show ?thesis by fastforce
  next
    case False
    then obtain pre post where "rs = pre @ (k, v) # post" "off = n + records_length pre" "k \<notin> fst ` set post"
      using snoc r by (auto simp: places_append)
    then show ?thesis using False r by (intro exI [of _ pre] exI [of _ "post @ [r]"]) auto
  qed
qed simp

section \<open>Writing\<close>

lemma update_append:
  assumes "fp kv = Some f" and "fpos f = length (fdata f)" and "item p = record_of k v" and "itemsize p = word_of_nat (rsize k v)"
    and "sizes_ok k v" and "item_offset p < 0"
  shows "kv777_update kv p = (0, p\<lparr>item_offset := int (fpos f)\<rparr>,
    kv\<lparr>fp := Some (f\<lparr>fdata := fdata f @ item_bytes (record_of k v), fpos := fpos f + rsize k v\<rparr>)\<rparr>)"
  using assms isdeleted_record [OF assms(5)] itemsize_eq(2) [OF assms(5)] length_record_bytes [OF assms(5)]
  by (simp add: kv777_update_def fwrite_def Let_def)

lemma update_in_place:
  assumes "fp kv = Some f" and "fdata f = A @ old @ B" and "length old = rsize k v"
    and "item p = record_of k v" and "itemsize p = word_of_nat (rsize k v)"
    and "sizes_ok k v" and "item_offset p = int (length A)"
  shows "kv777_update kv p = (0, p, kv\<lparr>fp := Some (f\<lparr>fdata := A @ item_bytes (record_of k v) @ B\<rparr>)\<rparr>)"
  using assms isdeleted_record [OF assms(6)] itemsize_eq(2) [OF assms(6)] length_record_bytes [OF assms(6)]
  by (simp add: kv777_update_def fwrite_def fseek_def Let_def)

definition vals :: "(u8 list \<times> u8 list) list \<Rightarrow> u8 list \<rightharpoonup> u8 list" where
  "vals rs k = map_option snd (places 0 rs Map.empty k)"

definition store_ok :: "kv777 \<Rightarrow> kv777_flags \<Rightarrow> (u8 list \<times> u8 list) list \<Rightarrow> u8 list set \<Rightarrow> bool" where
  "store_ok kv fl rs st \<longleftrightarrow> flags kv = fl \<and> \<not> locked kv \<and> hdd fl \<and> rw fl
     \<and> (\<exists>f. fp kv = Some f \<and> fdata f = file_bytes rs \<and> fpos f = length (file_bytes rs))
     \<and> (\<forall>(k, v) \<in> set rs. storable k v) \<and> tab_ok (table kv) st (places 0 rs Map.empty)"

text \<open>Opening a file of good records that ends there or goes on with four zeros.\<close>

lemma kv_init_ok:
  assumes "\<forall>(k, v) \<in> set rs. storable k v" and "hdd fl" and "rw fl" and "stops rest"
  shows "\<exists>kv' f. kv777_init fl (Some (file_bytes rs @ rest)) = Some kv' \<and> tab_ok (table kv') {} (places 0 rs Map.empty)
    \<and> flags kv' = fl \<and> \<not> locked kv' \<and> fp kv' = Some f \<and> fdata f = file_bytes rs @ rest \<and> fpos f = length (file_bytes rs)"
proof -
  let ?kv = "\<lparr>table = [], flags = fl\<lparr>threadsafe := False\<rparr>, locked = False, fp = Some \<lparr>fdata = file_bytes rs @ rest, fpos = 0\<rparr>,
                offset = 0, totalkeys = 0, totalvalues = 0, numkeys = 0, netkeys = 0, netvalues = 0\<rparr>"
  obtain kv' f' where l: "load_loop ?kv 0 = Some (kv', length (file_bytes rs))" "tab_ok (table kv') {} (places 0 rs Map.empty)"
    "\<not> locked kv'" "fp kv' = Some f'" "fdata f' = file_bytes rs @ rest"
    using load_records [OF assms(1), of ?kv _ rest Map.empty 0] tab_ok_Nil assms(4) by auto
  then show ?thesis using assms(2,3) by (simp add: kv777_init_def fseek_def)
qed

lemma reopen_ok:
  assumes "store_ok kv fl rs st"
  shows "\<exists>kv'. kv777_init fl (map_option fdata (fp kv)) = Some kv' \<and> store_ok kv' fl rs {}"
  using kv_init_ok [of rs fl "[]"] assms by (auto simp: store_ok_def stops_def)

lemma vals_snoc: "\<forall>(k, v) \<in> set rs. storable k v \<Longrightarrow> places 0 (rs @ [(k, v)]) Map.empty = (places 0 rs Map.empty)(k \<mapsto> (length (file_bytes rs), v))"
  by (simp add: places_append length_file_bytes)

lemma store_ok_lock:
  assumes "store_ok kv fl rs st"
  obtains kv1 where "kv777_lock kv = Some kv1" "flags kv1 = fl" "table kv1 = table kv" "fp kv1 = fp kv"
  using assms by (cases "threadsafe fl") (auto simp: kv777_lock_def store_ok_def)

lemma unlock_simps [simp]:
  "table (kv777_unlock kv) = table kv" "fp (kv777_unlock kv) = fp kv" "flags (kv777_unlock kv) = flags kv"
  by (simp_all add: kv777_unlock_def)

lemma write_new:
  assumes "store_ok kv fl rs st" and "storable k v" and "\<forall>s \<in> st. length s \<noteq> length k" and "vals rs k = None"
  shows "\<exists>p kv'. kv777_write kv k v = Some (p, kv') \<and> store_ok kv' fl (rs @ [(k, v)]) st"
proof -
  from assms(1) obtain kv1 where l: "kv777_lock kv = Some kv1" "flags kv1 = fl" "table kv1 = table kv" "fp kv1 = fp kv"
    by (rule store_ok_lock)
  from assms(1) obtain f where f: "fp kv = Some f" "fdata f = file_bytes rs" "fpos f = length (file_bytes rs)"
    and rs: "\<forall>(k, v) \<in> set rs. storable k v" and t: "tab_ok (table kv) st (places 0 rs Map.empty)" and fl: "hdd fl" "rw fl" "\<not> locked kv"
    by (auto simp: store_ok_def)
  have s: "sizes_ok k v" using assms(2) by (simp add: storable_def)
  have n: "places 0 rs Map.empty k = None" using assms(4) by (simp add: vals_def)
  have h: "hash_find (table kv) k = Some None" by (rule hash_find_absent [OF t assms(3) n])
  let ?p = "\<lparr>hh_key = k, stale = False, item_offset = int (length (file_bytes rs)), ind = numkeys kv1, itemsize = word_of_nat (rsize k v), item = record_of k v\<rparr>"
  have "\<exists>kv2. kv777_write kv k v = Some (?p, kv777_unlock kv2) \<and> table kv2 = table kv @ [?p] \<and> flags kv2 = fl
    \<and> fp kv2 = Some (f\<lparr>fdata := file_bytes (rs @ [(k, v)]), fpos := length (file_bytes rs) + rsize k v\<rparr>) \<and> locked kv2 = locked kv1"
    using l h f fl
    by (simp add: kv777_write_def hdditem_eq [OF s] kv777_add_def itemkey_bytes_eq [OF s] kv777_counters_def Let_def
        update_append [OF _ _ _ _ s]) (intro exI conjI, rule refl, simp_all)
  then obtain kv2 where w: "kv777_write kv k v = Some (?p, kv777_unlock kv2)" "table kv2 = table kv @ [?p]" "flags kv2 = fl"
    "fp kv2 = Some (f\<lparr>fdata := file_bytes (rs @ [(k, v)]), fpos := length (file_bytes rs) + rsize k v\<rparr>)" "locked kv2 = locked kv1" by blast
  have "tab_ok (table kv @ [?p]) st (places 0 (rs @ [(k, v)]) Map.empty)"
    unfolding vals_snoc [OF rs] by (rule tab_ok_append [OF t n]) (simp_all add: holds_def s)
  moreover have "\<not> locked (kv777_unlock kv2)"
    using l(1) w(3,5) fl(3) l(2) by (auto simp: kv777_unlock_def kv777_lock_def split: if_splits)
  ultimately have "store_ok (kv777_unlock kv2) fl (rs @ [(k, v)]) st"
    using w fl rs assms(2) length_record_bytes [OF s] by (simp add: store_ok_def)
  then show ?thesis using w(1) by blast
qed

lemma store_present:
  assumes "store_ok kv fl rs st" and "\<forall>s \<in> st. length s \<noteq> length k" and "vals rs k = Some v0"
  obtains i pre post where "hash_find (table kv) k = Some (Some i)" "i < length (table kv)"
    "holds (table kv ! i) k (length (file_bytes pre), v0)" "\<not> stale (table kv ! i)"
    "rs = pre @ (k, v0) # post" "k \<notin> fst ` set post" "storable k v0"
proof -
  obtain off where off: "places 0 rs Map.empty k = Some (off, v0)" using assms(3) by (auto simp: vals_def)
  then obtain pre post where r: "rs = pre @ (k, v0) # post" "off = records_length pre" "k \<notin> fst ` set post"
    using places_at by fastforce
  have st: "\<forall>(k, v) \<in> set rs. storable k v" "tab_ok (table kv) st (places 0 rs Map.empty)" using assms(1) by (simp_all add: store_ok_def)
  then have "off = length (file_bytes pre)" "storable k v0" using r length_file_bytes [of pre] by auto
  then show thesis using hash_find_present [OF st(2) assms(2) off] that r by metis
qed

lemma store_replaced:
  assumes "store_ok kv fl (pre @ (k, v0) # post) st" and "k \<notin> fst ` set post" and "rsize k v = rsize k v0" and "storable k v"
    and "i < length (table kv)" and "hh_key (table kv ! i) = k" and "holds e k (length (file_bytes pre), v)"
    and "st \<subseteq> st'" and "stale e \<longrightarrow> k \<in> st'" and "fp kv = Some f"
    and "table kv' = (table kv)[i := e]" and "flags kv' = fl" and "\<not> locked kv'"
    and "fp kv' = Some (f\<lparr>fdata := file_bytes (pre @ (k, v) # post)\<rparr>)"
  shows "store_ok kv' fl (pre @ (k, v) # post) st'"
proof -
  have o: "\<forall>(k, v) \<in> set (pre @ (k, v0) # post). storable k v" "tab_ok (table kv) st (places 0 (pre @ (k, v0) # post) Map.empty)"
    "fpos f = length (file_bytes (pre @ (k, v0) # post))" "hdd fl" "rw fl"
    using assms(1,10) by (simp_all add: store_ok_def)
  have p: "length (file_bytes pre) = 0 + records_length pre" using o(1) length_file_bytes [of pre] by auto
  have "tab_ok ((table kv)[i := e]) st' ((places 0 (pre @ (k, v0) # post) Map.empty)(k \<mapsto> (length (file_bytes pre), v)))"
    using tab_ok_update [OF o(2) assms(5-9)] .
  then have "tab_ok (table kv') st' (places 0 (pre @ (k, v) # post) Map.empty)"
    unfolding places_replace [OF assms(2,3)] assms(11) p .
  moreover have "length (item_bytes (record_of k v)) = length (item_bytes (record_of k v0))"
    using length_record_bytes assms(3,4) o(1) by (simp add: storable_def)
  ultimately show ?thesis using assms(4,12-14) o by (simp add: store_ok_def)
qed

lemma vals_replace:
  "k \<notin> fst ` set post \<Longrightarrow> rsize k v = rsize k v0 \<Longrightarrow> vals (pre @ (k, v) # post) = (vals (pre @ (k, v0) # post))(k \<mapsto> v)"
  by (rule ext) (simp add: vals_def places_replace [of k post v v0])

lemma vals_append: "vals (rs @ [(k, v)]) = (vals rs)(k \<mapsto> v)"
  by (rule ext) (simp add: vals_def places_append)

lemma unlocked: "\<not> locked kv \<Longrightarrow> kv777_lock kv = Some kv1 \<Longrightarrow> locked kv2 = locked kv1 \<Longrightarrow> flags kv2 = flags kv \<Longrightarrow> \<not> locked (kv777_unlock kv2)"
  by (auto simp: kv777_unlock_def kv777_lock_def split: if_splits)

lemma length_word_eq:
  "sizes_ok k v \<Longrightarrow> sizes_ok k v0 \<Longrightarrow> (word_of_nat (length v) :: u32) = word_of_nat (length v0) \<longleftrightarrow> length v = length v0"
  by (metis unat_sizes(2))

text \<open>A value of the same length replaces the old one in place.\<close>

lemma write_same_length:
  assumes "store_ok kv fl rs st" and "storable k v" and "\<forall>s \<in> st. length s \<noteq> length k" and "vals rs k = Some v0" and "length v = length v0"
  shows "\<exists>p kv' rs'. kv777_write kv k v = Some (p, kv') \<and> store_ok kv' fl rs' st \<and> vals rs' = (vals rs)(k \<mapsto> v)"
proof -
  from assms(1) obtain kv1 where l: "kv777_lock kv = Some kv1" "flags kv1 = fl" "table kv1 = table kv" "fp kv1 = fp kv"
    by (rule store_ok_lock)
  from store_present [OF assms(1,3,4)] obtain i pre post where i: "hash_find (table kv) k = Some (Some i)" "i < length (table kv)"
    "holds (table kv ! i) k (length (file_bytes pre), v0)" "\<not> stale (table kv ! i)" "rs = pre @ (k, v0) # post" "k \<notin> fst ` set post" "storable k v0"
    by blast
  from assms(1) obtain f where f: "fp kv = Some f" "fdata f = file_bytes rs" "flags kv = fl" "\<not> locked kv" by (auto simp: store_ok_def)
  have s: "sizes_ok k v" "sizes_ok k v0" using assms(2) i(7) by (simp_all add: storable_def)
  have hk: "hh_key (table kv ! i) = k" "item (table kv ! i) = record_of k v0" "item_offset (table kv ! i) = int (length (file_bytes pre))"
    "itemsize (table kv ! i) = word_of_nat (rsize k v0)" using i(3) by (simp_all add: holds_def)
  have rs: "rsize k v = rsize k v0" using assms(5) by (simp add: rsize_def)
  show ?thesis
  proof (cases "v = v0")
    case True
    have "kv777_write kv k v = Some (table kv ! i, kv777_unlock kv1)"
      using l i(1) hk True by (simp add: kv777_write_def rdata_def)
    moreover have "store_ok (kv777_unlock kv1) fl rs st" using assms(1) l unlocked [OF f(4) l(1) refl] f(3) by (simp add: store_ok_def)
    moreover have "vals rs = (vals rs)(k \<mapsto> v)" using True assms(4) by auto
    ultimately show ?thesis by metis
  next
    case False
    let ?e = "(table kv ! i)\<lparr>item := record_of k v\<rparr>"
    have d: "memcpy_at (rdata k v0) 0 v = Some (rdata k v)" using assms(5) by (simp add: memcpy_at_def rdata_def rsize_def)
    have crc: "set_crc ((record_of k v0)\<lparr>valuedata := rdata k v\<rparr>) (word_of_nat (rsize k v)) = record_of k v"
      using set_crc_record [OF s(1), of "crc (record_of k v0)"] assms(5) by (simp add: record_of_def Let_def)
    have ne: "take (length v) (rdata k v0) \<noteq> v" using False assms(5) by (simp add: rdata_def)
    have e: "holds ?e k (length (file_bytes pre), v)" using i(3) s(1) rs by (simp add: holds_def)
    have u: "kv777_update kv1 ?e = (0, ?e, kv1\<lparr>fp := Some (f\<lparr>fdata := file_bytes (pre @ (k, v) # post)\<rparr>)\<rparr>)"
      using update_in_place [of kv1 f "file_bytes pre" "item_bytes (record_of k v0)" "file_bytes post" k v ?e] l(4) f(1,2) i(5) s hk rs
        length_record_bytes [OF s(2)] by simp
    let ?kv2 = "kv1\<lparr>fp := Some (f\<lparr>fdata := file_bytes (pre @ (k, v) # post)\<rparr>), table := (table kv)[i := ?e]\<rparr>"
    have w: "kv777_write kv k v = Some (?e, kv777_unlock ?kv2)"
      using l i(1) hk f(1) ne assms(5) d crc itemsize_eq(1) [OF s(1)] u by (simp add: kv777_write_def Let_def)
    have "store_ok (kv777_unlock ?kv2) fl (pre @ (k, v) # post) st"
      by (rule store_replaced [OF assms(1) [unfolded i(5)] i(6) rs assms(2) i(2) hk(1) e subset_refl _ f(1)])
        (use i(4) l f unlocked [OF f(4) l(1), of ?kv2] in simp_all)
    then show ?thesis using w vals_replace [OF i(6) rs] i(5) by metis
  qed
qed

text \<open>A value of another length needs a new record, in place if the record keeps its size, else at the end of the file.\<close>

lemma write_other_length:
  assumes "store_ok kv fl rs st" and "storable k v" and "\<forall>s \<in> st. length s \<noteq> length k" and "vals rs k = Some v0"
    and "length v \<noteq> length v0" and "rsize k v0 \<le> rsize k v"
  shows "\<exists>p kv' rs'. kv777_write kv k v = Some (p, kv') \<and> store_ok kv' fl rs' (insert k st) \<and> vals rs' = (vals rs)(k \<mapsto> v)"
proof -
  from assms(1) obtain kv1 where l: "kv777_lock kv = Some kv1" "flags kv1 = fl" "table kv1 = table kv" "fp kv1 = fp kv"
    by (rule store_ok_lock)
  from store_present [OF assms(1,3,4)] obtain i pre post where i: "hash_find (table kv) k = Some (Some i)" "i < length (table kv)"
    "holds (table kv ! i) k (length (file_bytes pre), v0)" "\<not> stale (table kv ! i)" "rs = pre @ (k, v0) # post" "k \<notin> fst ` set post" "storable k v0"
    by blast
  from assms(1) obtain f where f: "fp kv = Some f" "fdata f = file_bytes rs" "flags kv = fl" "\<not> locked kv" "fpos f = length (file_bytes rs)"
    and fl: "hdd fl" "rw fl" and rs: "\<forall>(k, v) \<in> set rs. storable k v" and t: "tab_ok (table kv) st (places 0 rs Map.empty)"
    by (auto simp: store_ok_def)
  have s: "sizes_ok k v" "sizes_ok k v0" using assms(2) i(7) by (simp_all add: storable_def)
  have hk: "hh_key (table kv ! i) = k" "item (table kv ! i) = record_of k v0" "item_offset (table kv ! i) = int (length (file_bytes pre))"
    "itemsize (table kv ! i) = word_of_nat (rsize k v0)" using i(3) by (simp_all add: holds_def)
  have ne: "(word_of_nat (length v) :: u32) \<noteq> word_of_nat (length v0)" using length_word_eq [OF s] assms(5) by simp
  have gt: "(word_of_nat (rsize k v0) :: u32) < word_of_nat (rsize k v) \<longleftrightarrow> rsize k v0 \<noteq> rsize k v"
    using itemsize_eq(2) [OF s(1)] itemsize_eq(2) [OF s(2)] assms(6) by (auto simp: word_less_nat_alt)
  let ?p = "(table kv ! i)\<lparr>stale := True, item_offset := if rsize k v0 \<noteq> rsize k v then - 1 else int (length (file_bytes pre)),
      itemsize := word_of_nat (rsize k v), item := record_of k v\<rparr>"
  let ?kv1 = "snd (kv777_counters kv1 (- 1) (word_of_nat (length k)) (word_of_nat (length v0)) None)"
  obtain q kv2 where q: "kv777_counters ?kv1 1 (word_of_nat (length k)) (word_of_nat (length v)) (Some ?p) = (Some q, kv2)"
    by (fastforce simp: kv777_counters_def Let_def split: prod.splits)
  have w: "kv777_write kv k v = Some (q, kv777_unlock (kv2\<lparr>table := (table kv2)[i := q]\<rparr>))"
    using l i(1) hk ne gt q
    by (cases "rsize k v0 = rsize k v") (simp_all add: kv777_write_def hdditem_eq [OF s(1)] itemsize_eq(1) [OF s(1)] split_beta Let_def)
  let ?kv3 = "kv2\<lparr>table := (table kv2)[i := q]\<rparr>"
  show ?thesis
  proof (cases "rsize k v0 = rsize k v")
    case True
    have u: "kv777_update kvx ?p = (0, ?p, kvx\<lparr>fp := Some (f\<lparr>fdata := file_bytes (pre @ (k, v) # post)\<rparr>)\<rparr>)" if "fp kvx = Some f" for kvx
      using update_in_place [of kvx f "file_bytes pre" "item_bytes (record_of k v0)" "file_bytes post" k v ?p] that f(2) i(5) s True
        length_record_bytes [OF s(2)] by simp
    have kv2: "q = ?p" "table kv2 = table kv" "flags kv2 = fl" "locked kv2 = locked kv1" "fp kv2 = Some (f\<lparr>fdata := file_bytes (pre @ (k, v) # post)\<rparr>)"
      using q u l f(1) fl by (auto simp: kv777_counters_def Let_def)
    have e: "holds q k (length (file_bytes pre), v)" using hk s(1) True kv2(1) by (simp add: holds_def)
    have "store_ok (kv777_unlock ?kv3) fl (pre @ (k, v) # post) (insert k st)"
      by (rule store_replaced [OF assms(1) [unfolded i(5)] i(6) True [symmetric] assms(2) i(2) hk(1) e subset_insertI _ f(1)])
        (use kv2 f unlocked [OF f(4) l(1), of ?kv3] in simp_all)
    then show ?thesis using w vals_replace [OF i(6) True [symmetric]] i(5) by metis
  next
    case False
    have u: "kv777_update kvx ?p = (0, ?p\<lparr>item_offset := int (length (file_bytes rs))\<rparr>,
        kvx\<lparr>fp := Some (f\<lparr>fdata := file_bytes (rs @ [(k, v)]), fpos := length (file_bytes rs) + rsize k v\<rparr>)\<rparr>)" if "fp kvx = Some f" for kvx
      using update_append [of kvx f ?p k v] that f(2,5) s(1) False by simp
    have kv2: "q = ?p\<lparr>item_offset := int (length (file_bytes rs))\<rparr>" "table kv2 = table kv" "flags kv2 = fl" "locked kv2 = locked kv1"
      "fp kv2 = Some (f\<lparr>fdata := file_bytes (rs @ [(k, v)]), fpos := length (file_bytes rs) + rsize k v\<rparr>)"
      using q u l f(1) fl by (auto simp: kv777_counters_def Let_def)
    have e: "holds q k (length (file_bytes rs), v)" using hk s(1) kv2(1) by (simp add: holds_def)
    have "tab_ok ((table kv)[i := q]) (insert k st) (places 0 (rs @ [(k, v)]) Map.empty)"
      unfolding vals_snoc [OF rs] by (rule tab_ok_update [OF t i(2) hk(1) e]) auto
    then have "store_ok (kv777_unlock ?kv3) fl (rs @ [(k, v)]) (insert k st)"
      using kv2 f fl rs assms(2) length_record_bytes [OF s(1)] unlocked [OF f(4) l(1), of ?kv3] by (simp add: store_ok_def)
    then show ?thesis using w vals_append by metis
  qed
qed

section \<open>The store as a map that survives\<close>

text \<open>
  A program that writes and restarts. The specification is a map and the set of keys whose lookup is
  undefined until the next restart.
\<close>

datatype kv_op = Put "u8 list" "u8 list" | Reopen

fun kv_step :: "kv777_flags \<Rightarrow> kv_op \<Rightarrow> kv777 \<Rightarrow> kv777 option" where
  "kv_step fl (Put k v) kv = map_option snd (kv777_write kv k v)"
| "kv_step fl Reopen kv = kv777_init fl (map_option fdata (fp kv))"

type_synonym kv_spec = "(u8 list \<rightharpoonup> u8 list) \<times> u8 list list"

fun spec_step :: "kv_op \<Rightarrow> kv_spec \<Rightarrow> kv_spec" where
  "spec_step (Put k v) (m, st) = (m(k \<mapsto> v), case m k of None \<Rightarrow> st | Some v0 \<Rightarrow> if length v = length v0 then st else k # st)"
| "spec_step Reopen (m, st) = (m, [])"

text \<open>
  What a caller has to keep to: a record that can be stored, no lookup of a length with a stale handle, and
  no record that shrinks.
\<close>

fun spec_allows :: "kv_op \<Rightarrow> kv_spec \<Rightarrow> bool" where
  "spec_allows (Put k v) (m, st) \<longleftrightarrow> storable k v \<and> (\<forall>s \<in> set st. length s \<noteq> length k)
     \<and> (case m k of None \<Rightarrow> True | Some v0 \<Rightarrow> rsize k v0 \<le> rsize k v)"
| "spec_allows Reopen s \<longleftrightarrow> True"

lemma step_refines:
  assumes "store_ok kv fl rs (set (snd s))" and "vals rs = fst s" and "spec_allows x s"
  shows "\<exists>kv' rs'. kv_step fl x kv = Some kv' \<and> store_ok kv' fl rs' (set (snd (spec_step x s))) \<and> vals rs' = fst (spec_step x s)"
proof (cases x)
  case (Put k v)
  obtain m st where sp: "s = (m, st)" by (cases s)
  have st: "store_ok kv fl rs (set st)" "vals rs = m" using assms(1,2) sp by simp_all
  have a: "storable k v" "\<forall>s \<in> set st. length s \<noteq> length k" using assms(3) Put sp by simp_all
  have "\<exists>p kv' rs'. kv777_write kv k v = Some (p, kv') \<and> store_ok kv' fl rs' (set (snd (spec_step x s))) \<and> vals rs' = m(k \<mapsto> v)"
  proof (cases "m k")
    case None
    then show ?thesis using write_new [OF st(1) a] st(2) vals_append [of rs k v] Put sp by auto
  next
    case (Some v0)
    then have r: "rsize k v0 \<le> rsize k v" "vals rs k = Some v0" using assms(3) Put sp st(2) by simp_all
    show ?thesis
    proof (cases "length v = length v0")
      case True
      then show ?thesis using write_same_length [OF st(1) a r(2)] st(2) Some Put sp by simp
    next
      case False
      then show ?thesis using write_other_length [OF st(1) a r(2) _ r(1)] st(2) Some Put sp by simp
    qed
  qed
  then show ?thesis using Put sp by auto
next
  case Reopen
  then show ?thesis using reopen_ok [OF assms(1)] assms(2) by (cases s) fastforce
qed

lemma kv_read_ok:
  assumes "store_ok kv fl rs st" and "\<forall>s \<in> st. length s \<noteq> length k"
  shows "kv777_read kv k None None = Some (map_option (record_of k) (vals rs k), None, None)"
    and "vals rs k = Some v \<Longrightarrow> sizes_ok k v"
proof -
  from assms(1) obtain kv1 where l: "kv777_lock kv = Some kv1" "flags kv1 = fl" "table kv1 = table kv" "fp kv1 = fp kv"
    by (rule store_ok_lock)
  have t: "tab_ok (table kv) st (places 0 rs Map.empty)" using assms(1) by (simp add: store_ok_def)
  show "kv777_read kv k None None = Some (map_option (record_of k) (vals rs k), None, None)"
  proof (cases "vals rs k")
    case None
    then show ?thesis using read_absent [OF l(1) hash_find_absent [OF t assms(2)]] by (simp add: vals_def)
  next
    case (Some v0)
    from store_present [OF assms Some] obtain i where i: "hash_find (table kv) k = Some (Some i)" "item (table kv ! i) = record_of k v0" "sizes_ok k v0"
      unfolding holds_def snd_conv by metis
    then show ?thesis using l Some isdeleted_record [OF i(3)] by (simp add: kv777_read_def Let_def)
  qed
  show "sizes_ok k v" if "vals rs k = Some v" using store_present [OF assms that] unfolding storable_def by metis
qed

text \<open>A sequence of steps that is allowed at every point keeps the simulation.\<close>

fun allows_all :: "('o \<Rightarrow> 'a \<Rightarrow> bool) \<Rightarrow> ('o \<Rightarrow> 'a \<Rightarrow> 'a) \<Rightarrow> 'o list \<Rightarrow> 'a \<Rightarrow> bool" where
  "allows_all allows sstep [] a \<longleftrightarrow> True"
| "allows_all allows sstep (x # xs) a \<longleftrightarrow> allows x a \<and> allows_all allows sstep xs (sstep x a)"

locale guarded_simulation =
  fixes rel :: "'s \<Rightarrow> 'a \<Rightarrow> bool" and step :: "'o \<Rightarrow> 's \<Rightarrow> 's option" and sstep :: "'o \<Rightarrow> 'a \<Rightarrow> 'a"
    and allows :: "'o \<Rightarrow> 'a \<Rightarrow> bool"
  assumes step_law: "rel s a \<Longrightarrow> allows x a \<Longrightarrow> \<exists>s'. step x s = Some s' \<and> rel s' (sstep x a)"
begin

lemma run_law: "rel s a \<Longrightarrow> allows_all allows sstep xs a \<Longrightarrow> \<exists>s'. ofold step xs s = Some s' \<and> rel s' (fold sstep xs a)"
proof (induction xs arbitrary: s a)
  case (Cons x xs)
  then obtain s' where "step x s = Some s'" "rel s' (sstep x a)" using step_law [of s a x] by auto
  then show ?case using Cons.IH [of s' "sstep x a"] Cons.prems(2) by simp
qed simp

end

definition store_rel :: "kv777_flags \<Rightarrow> kv777 \<Rightarrow> kv_spec \<Rightarrow> bool" where
  "store_rel fl kv s \<longleftrightarrow> (\<exists>rs. store_ok kv fl rs (set (snd s)) \<and> vals rs = fst s)"

interpretation kvs: guarded_simulation "store_rel fl" "kv_step fl" spec_step spec_allows for fl
  by unfold_locales (use step_refines in \<open>fastforce simp: store_rel_def\<close>)

definition kv_get :: "kv777 \<Rightarrow> u8 list \<Rightarrow> u8 list option option" where
  "kv_get kv k = map_option (\<lambda>(it, _). map_option item_value it) (kv777_read kv k None None)"

lemma get_ok:
  assumes "store_ok kv fl rs st" and "\<forall>s \<in> st. length s \<noteq> length k"
  shows "kv_get kv k = Some (vals rs k)"
  using kv_read_ok [OF assms] item_value_eq by (cases "vals rs k") (simp_all add: kv_get_def)

lemma fresh_ok:
  assumes "hdd fl" and "rw fl"
  shows "\<exists>kv. kv777_init fl None = Some kv \<and> store_rel fl kv (Map.empty, [])"
proof -
  have "kv777_init fl None = kv777_init fl (Some (file_bytes [] @ []))" by (simp add: kv777_init_def)
  moreover have "vals [] = Map.empty" by (rule ext) (simp add: vals_def)
  moreover obtain kv where "kv777_init fl (Some (file_bytes [] @ [])) = Some kv" "store_ok kv fl [] {}"
    using kv_init_ok [of "[]" fl "[]"] assms by (auto simp: store_ok_def stops_def)
  ultimately show ?thesis by (intro exI [of _ kv]) (auto simp: store_rel_def)
qed

lemma history_ok:
  assumes "hdd fl" and "rw fl" and "allows_all spec_allows spec_step ops (Map.empty, [])"
  shows "\<exists>kv0 kv. kv777_init fl None = Some kv0 \<and> ofold (kv_step fl) ops kv0 = Some kv \<and> store_rel fl kv (fold spec_step ops (Map.empty, []))"
  using fresh_ok [OF assms(1,2)] kvs.run_law [OF _ assms(3)] by blast

lemma crc32_loop_byte: "crc32_loop c (p # buf) = crc32_loop (crc32_byte (c XOR ucast p)) buf"
  by (simp only: crc32_loop.simps crc32_step)

lemmas eval_crc = crc32_loop_byte crc32_byte_unfold crc32_bit_def

lemma storableI:
  assumes "sizes_ok k v" and "le_bytes 4 (word_of_nat (length v) :: u32) @ le_bytes 4 (word_of_nat (length k) :: u32) @ rdata k v = bs"
    and "crc32_loop 0xFFFFFFFF bs \<noteq> 0xFFFFFFFF"
  shows "storable k v"
proof -
  have "(NOT 0 :: u32) = 0xFFFFFFFF" by simp
  moreover have "a XOR b = 0 \<Longrightarrow> a = b" for a b :: u32
    by (metis xor.assoc xor.left_neutral xor.right_neutral xor_self_eq)
  ultimately show ?thesis using assms by (auto simp only: storable_def record_of_def Let_def crc32_def hdditem.simps xor.left_neutral)
qed

text \<open>
  C13. A store on disk that starts without a file is a map that survives every restart, for the writes that
  \<open>spec_allows\<close>: the record has a key of at most 65536 bytes and a value of at most \<open>2 ^ 30\<close>, its checksum is not zero, it is not
  smaller than the record it replaces, and no key of the same length was written with a value of another size since
  the store was opened. Then each write and each opening completes, a key of a length that no such stale handle has
  reads as its last value, and after the next opening of the file every key does. Deletions are not among the
  operations: \<open>kv777_delete\<close> does not return.
\<close>

theorem store_survives_restarts:
  assumes "hdd fl" and "rw fl" and "allows_all spec_allows spec_step ops (Map.empty, [])"
    and "fold spec_step ops (Map.empty, []) = (m, st)"
  shows "\<exists>kv0 kv kv'. kv777_init fl None = Some kv0 \<and> ofold (kv_step fl) ops kv0 = Some kv
    \<and> (\<forall>k. length k \<notin> length ` set st \<longrightarrow> kv_get kv k = Some (m k))
    \<and> kv777_init fl (map_option fdata (fp kv)) = Some kv' \<and> (\<forall>k. kv_get kv' k = Some (m k))"
proof -
  obtain kv0 kv rs where h: "kv777_init fl None = Some kv0" "ofold (kv_step fl) ops kv0 = Some kv"
    "store_ok kv fl rs (set st)" "vals rs = m"
    using history_ok [OF assms(1-3)] assms(4) by (auto simp: store_rel_def)
  obtain kv' where k: "kv777_init fl (map_option fdata (fp kv)) = Some kv'" "store_ok kv' fl rs {}"
    using reopen_ok [OF h(3)] by blast
  have "\<forall>k. length k \<notin> length ` set st \<longrightarrow> kv_get kv k = Some (m k)" using get_ok [OF h(3)] h(4) by (metis imageI)
  moreover have "\<forall>k. kv_get kv' k = Some (m k)" using get_ok [OF k(2)] h(4) by simp
  ultimately show ?thesis using h(1,2) k(1) by blast
qed

theorem store_survives_restarts_witness:
  "\<exists>kv0 kv kv'. kv777_init kv777_defaultflags None = Some kv0
    \<and> ofold (kv_step kv777_defaultflags) [Put [1, 0] [2], Put [1, 0] [3], Put [7] [1], Reopen, Put [1, 0] [3, 4, 5, 6, 7]] kv0 = Some kv
    \<and> kv_get kv [7] = Some (Some [1])
    \<and> kv777_init kv777_defaultflags (map_option fdata (fp kv)) = Some kv'
    \<and> kv_get kv' [1, 0] = Some (Some [3, 4, 5, 6, 7]) \<and> kv_get kv' [9] = Some None"
proof -
  let ?ops = "[Put [1, 0] [2], Put [1, 0] [3], Put [7] [1], Reopen, Put [1, 0] [3, 4, 5, 6, 7]]"
  have "storable [1, 0] [2]"
    by (rule storableI [of _ _ "[1, 0, 0, 0, 2, 0, 0, 0, 2, 0, 0, 0, 1, 0, 0, 0]"], simp add: sizes_ok_def, code_simp) (simp add: eval_crc del: crc32_loop.simps(2))
  moreover have "storable [1, 0] [3]"
    by (rule storableI [of _ _ "[1, 0, 0, 0, 2, 0, 0, 0, 3, 0, 0, 0, 1, 0, 0, 0]"], simp add: sizes_ok_def, code_simp) (simp add: eval_crc del: crc32_loop.simps(2))
  moreover have "storable [7] [1]"
    by (rule storableI [of _ _ "[1, 0, 0, 0, 1, 0, 0, 0, 1, 0, 0, 0, 7, 0, 0, 0]"], simp add: sizes_ok_def, code_simp) (simp add: eval_crc del: crc32_loop.simps(2))
  moreover have "storable [1, 0] [3, 4, 5, 6, 7]"
    by (rule storableI [of _ _ "[5, 0, 0, 0, 2, 0, 0, 0, 3, 4, 5, 6, 7, 0, 0, 0, 1, 0, 0, 0]"], simp add: sizes_ok_def, code_simp) (simp add: eval_crc del: crc32_loop.simps(2))
  ultimately have a: "allows_all spec_allows spec_step ?ops (Map.empty, [])"
    by (simp add: rsize_def pad4_def)
  have b: "fold spec_step ?ops (Map.empty, []) = (Map.empty([1, 0] \<mapsto> [2], [1, 0] \<mapsto> [3], [7] \<mapsto> [1], [1, 0] \<mapsto> [3, 4, 5, 6, 7]), [[1, 0]])"
    by simp
  have fl: "hdd kv777_defaultflags" "rw kv777_defaultflags" by (simp_all add: kv777_defaultflags_def)
  from store_survives_restarts [OF fl a b] obtain kv0 kv kv' where k: "kv777_init kv777_defaultflags None = Some kv0" "ofold (kv_step kv777_defaultflags) ?ops kv0 = Some kv"
    "\<forall>k. length k \<notin> length ` set [[1, 0 :: u8]] \<longrightarrow> kv_get kv k = Some ((Map.empty([1, 0] \<mapsto> [2], [1, 0] \<mapsto> [3], [7] \<mapsto> [1], [1, 0] \<mapsto> [3, 4, 5, 6, 7])) k)"
    "kv777_init kv777_defaultflags (map_option fdata (fp kv)) = Some kv'"
    "\<forall>k. kv_get kv' k = Some ((Map.empty([1, 0] \<mapsto> [2], [1, 0] \<mapsto> [3], [7] \<mapsto> [1], [1, 0] \<mapsto> [3, 4, 5, 6, 7])) k)" by blast
  have "kv_get kv [7] = Some (Some [1])" using k(3) [rule_format, of "[7]"] by simp
  moreover have "kv_get kv' [1, 0] = Some (Some [3, 4, 5, 6, 7])" "kv_get kv' [9] = Some None" using k(5) by simp_all
  ultimately show ?thesis using k(1,2,4) by blast
qed

section \<open>Deleting\<close>

text \<open>With the default flags \<open>kv777_delete\<close> never returns: it locks the mutex of the store twice.\<close>

lemma delete_never_returns: "threadsafe (flags kv) \<Longrightarrow> kv777_delete kv k = None"
  by (auto simp: kv777_delete_def kv777_lock_def Let_def split: option.splits prod.splits bind_splits)

text \<open>
  Without the mutex a deleted key is gone from the table, but the mark is not written to the file: the key is there
  again after the next opening.
\<close>

lemma deleted_key_returns:
  assumes "store_ok kv fl rs st" and "\<not> threadsafe fl" and "\<forall>s \<in> st. length s \<noteq> length k" and "vals rs k = Some v"
  shows "\<exists>kv1 kv2. kv777_delete kv k = Some (0, kv1) \<and> kv_get kv1 k = Some None
    \<and> kv777_init fl (map_option fdata (fp kv1)) = Some kv2 \<and> kv_get kv2 k = Some (Some v)"
proof -
  obtain i where i: "hash_find (table kv) k = Some (Some i)" "i < length (table kv)" "hh_key (table kv ! i) = k"
    using store_present [OF assms(1,3,4)] unfolding holds_def by metis
  have fl: "flags kv = fl" and t: "tab_ok (table kv) st (places 0 rs Map.empty)" using assms(1) by (simp_all add: store_ok_def)
  have lock: "kv777_lock x = Some x" if "flags x = fl" for x using that assms(2) by (simp add: kv777_lock_def)
  have d: "kv777_delete kv k = Some (0, delete_at kv i)" using i(1) fl lock by (simp add: kv777_delete_def)
  have "hash_find (table (delete_at kv i)) k = Some None"
    using hash_find_absent [OF tab_ok_delete [OF t i(2,3)] assms(3)] by simp
  then have "kv_get (delete_at kv i) k = Some None" using fl by (simp add: kv_get_def read_absent [OF lock])
  moreover obtain kv2 where "kv777_init fl (map_option fdata (fp kv)) = Some kv2" "store_ok kv2 fl rs {}"
    using reopen_ok [OF assms(1)] by blast
  ultimately show ?thesis using d get_ok [of kv2 fl rs "{}" k] assms(4) by (intro exI [of _ "delete_at kv i"] exI [of _ kv2]) simp
qed

text \<open>Sizes are not taken off the totals: \<open>2 ^ 32\<close> minus the size is added.\<close>

lemma total_after_removal:
  assumes "0 < n" and "n < 2 ^ 32"
  shows "totalkeys (snd (kv777_counters kv (- 1) (word_of_nat n) vs None)) = totalkeys kv + word_of_nat (2 ^ 32 - n)"
proof -
  have "- 1 * (word_of_nat n :: u32) = word_of_nat (2 ^ 32 - n)" using assms by (simp add: of_nat_diff)
  moreover have "(ucast (word_of_nat (2 ^ 32 - n) :: u32) :: i64) = word_of_nat (2 ^ 32 - n)"
    using assms by (simp only: unsigned_of_nat) (simp add: take_bit_eq_mod)
  ultimately show ?thesis by (simp add: kv777_counters_def)
qed

section \<open>Shrinking records and purging\<close>

text \<open>A smaller record overwrites the beginning of the larger one and leaves the rest of it in the file.\<close>

lemma write_smaller:
  assumes "store_ok kv fl rs st" and "storable k v" and "\<forall>s \<in> st. length s \<noteq> length k" and "vals rs k = Some v0" and "rsize k v < rsize k v0"
  shows "\<exists>p kv' f pre post. kv777_write kv k v = Some (p, kv') \<and> rs = pre @ (k, v0) # post \<and> k \<notin> fst ` set post \<and> fp kv' = Some f
    \<and> fdata f = file_bytes pre @ item_bytes (record_of k v) @ drop (rsize k v) (item_bytes (record_of k v0)) @ file_bytes post"
proof -
  from assms(1) obtain kv1 where l: "kv777_lock kv = Some kv1" "flags kv1 = fl" "table kv1 = table kv" "fp kv1 = fp kv"
    by (rule store_ok_lock)
  from store_present [OF assms(1,3,4)] obtain i pre post where i: "hash_find (table kv) k = Some (Some i)" "i < length (table kv)"
    "holds (table kv ! i) k (length (file_bytes pre), v0)" "\<not> stale (table kv ! i)" "rs = pre @ (k, v0) # post" "k \<notin> fst ` set post" "storable k v0"
    by blast
  from assms(1) obtain f where f: "fp kv = Some f" "fdata f = file_bytes rs" and fl: "hdd fl" "rw fl" by (auto simp: store_ok_def)
  have s: "sizes_ok k v" "sizes_ok k v0" using assms(2) i(7) by (simp_all add: storable_def)
  have hk: "hh_key (table kv ! i) = k" "item (table kv ! i) = record_of k v0" "item_offset (table kv ! i) = int (length (file_bytes pre))"
    "itemsize (table kv ! i) = word_of_nat (rsize k v0)" using i(3) by (simp_all add: holds_def)
  have ne: "(word_of_nat (length v) :: u32) \<noteq> word_of_nat (length v0)" using length_word_eq [OF s] assms(5) by (auto simp: rsize_def)
  have gt: "\<not> (word_of_nat (rsize k v0) :: u32) < word_of_nat (rsize k v)"
    using itemsize_eq(2) [OF s(1)] itemsize_eq(2) [OF s(2)] assms(5) by (auto simp: word_less_nat_alt)
  let ?p = "(table kv ! i)\<lparr>stale := True, item_offset := int (length (file_bytes pre)), itemsize := word_of_nat (rsize k v), item := record_of k v\<rparr>"
  let ?kv1 = "snd (kv777_counters kv1 (- 1) (word_of_nat (length k)) (word_of_nat (length v0)) None)"
  obtain q kv2 where q: "kv777_counters ?kv1 1 (word_of_nat (length k)) (word_of_nat (length v)) (Some ?p) = (Some q, kv2)"
    by (fastforce simp: kv777_counters_def Let_def split: prod.splits)
  have w: "kv777_write kv k v = Some (q, kv777_unlock (kv2\<lparr>table := (table kv2)[i := q]\<rparr>))"
    using l i(1) hk ne gt q by (simp add: kv777_write_def hdditem_eq [OF s(1)] itemsize_eq(1) [OF s(1)] split_beta Let_def)
  let ?old = "item_bytes (record_of k v0)"
  let ?new = "file_bytes pre @ item_bytes (record_of k v) @ drop (rsize k v) ?old @ file_bytes post"
  have "fdata f = file_bytes pre @ take (rsize k v) ?old @ drop (rsize k v) ?old @ file_bytes post" using f(2) i(5) by simp
  moreover have "length (take (rsize k v) ?old) = rsize k v" using length_record_bytes [OF s(2)] assms(5) by simp
  ultimately have u: "kv777_update kvx ?p = (0, ?p, kvx\<lparr>fp := Some (f\<lparr>fdata := ?new\<rparr>)\<rparr>)" if "fp kvx = Some f" for kvx
    using update_in_place [of kvx f "file_bytes pre" "take (rsize k v) ?old" "drop (rsize k v) ?old @ file_bytes post" k v ?p] that s(1) by simp
  have "fp kv2 = Some (f\<lparr>fdata := ?new\<rparr>)" using q u l f(1) fl by (auto simp: kv777_counters_def Let_def)
  then show ?thesis using w i(5,6) by (intro exI [of _ q]) auto
qed

text \<open>
  So a shorter value can lose the keys behind it: with the key 0 of four bytes, the bytes that are left over read as
  the checksum 0, where the next opening stops.
\<close>

lemma shrinking_loses_keys:
  assumes "store_ok kv fl [(zero, old), (k, v)] {}" and "zero = replicate 4 0" and "k \<noteq> zero" and "storable zero new"
    and "length old = 8" and "length new = 4"
  shows "\<exists>p kv1 kv2. kv_get kv k = Some (Some v) \<and> kv777_write kv zero new = Some (p, kv1)
    \<and> kv777_init fl (map_option fdata (fp kv1)) = Some kv2 \<and> kv_get kv2 k = Some None"
proof -
  have vals: "vals [(zero, old), (k, v)] zero = Some old" "vals [(zero, old), (k, v)] k = Some v" using assms(3) by (simp_all add: vals_def)
  have sz: "rsize zero new = 20" "rsize zero old = 24" using assms(2,5,6) by (simp_all add: rsize_def pad4_def)
  have st: "storable zero old" "hdd fl" "rw fl" using assms(1) by (simp_all add: store_ok_def)
  obtain p kv1 f pre post where w: "kv777_write kv zero new = Some (p, kv1)" "[(zero, old), (k, v)] = pre @ (zero, old) # post"
    "fp kv1 = Some f" "fdata f = file_bytes pre @ item_bytes (record_of zero new) @ drop 20 (item_bytes (record_of zero old)) @ file_bytes post"
    using write_smaller [OF assms(1,4) _ vals(1)] sz by auto
  have pre: "pre = []" "post = [(k, v)]" using w(2) assms(3) by (auto simp: Cons_eq_append_conv append_eq_Cons_conv)
  have "drop 20 (item_bytes (record_of zero old)) = replicate 4 0"
    using assms(2,5) by (simp add: item_bytes_def rdata_def pad4_def)
  then have fd: "fdata f = file_bytes [(zero, new)] @ replicate 4 0 @ file_bytes [(k, v)]" "stops (replicate 4 0 @ file_bytes [(k, v)])"
    using w(4) pre by (simp_all add: stops_def)
  obtain kv2 where i: "kv777_init fl (Some (fdata f)) = Some kv2" "tab_ok (table kv2) {} (places 0 [(zero, new)] Map.empty)" "flags kv2 = fl" "\<not> locked kv2"
    using kv_init_ok [OF _ st(2,3) fd(2), of "[(zero, new)]"] assms(4) fd(1) by auto
  have "places 0 [(zero, new)] Map.empty k = None" using assms(3) by simp
  then have h: "hash_find (table kv2) k = Some None" using hash_find_absent [OF i(2)] by simp
  have "\<exists>kv3. kv777_lock kv2 = Some kv3" using i(4) by (simp add: kv777_lock_def)
  then have "kv_get kv2 k = Some None" using h read_absent by (auto simp: kv_get_def)
  moreover have "kv_get kv k = Some (Some v)" using get_ok [OF assms(1)] vals(2) by simp
  ultimately show ?thesis using w(1,3) i(1) by (intro exI [of _ p] exI [of _ kv1] exI [of _ kv2]) simp
qed

lemma purge_loop: "table kv = ptrs \<Longrightarrow> iterate_loop kv777_deliterator True ptrs kv = (None, kv\<lparr>table := []\<rparr>)"
proof (induction ptrs arbitrary: kv)
  case (Cons p ptrs)
  then show ?case using Cons.IH [of "kv\<lparr>table := ptrs\<rparr>"] by (simp add: kv777_deliterator_def)
qed simp

text \<open>A purge empties the table and the counters; the store goes on in memory only.\<close>

lemma purge_empties:
  assumes "threadsafe (flags kv) \<longrightarrow> \<not> locked kv"
  shows "\<exists>kv'. kv777_purge kv = Some (0, kv') \<and> table kv' = [] \<and> fp kv' = None \<and> netkeys kv' = 0 \<and> (\<forall>k. kv_get kv' k = Some None)"
proof -
  obtain kv1 where l: "kv777_lock kv = Some kv1" using assms by (fastforce simp: kv777_lock_def)
  let ?kv = "kv777_clear ((kv777_unlock kv1)\<lparr>table := []\<rparr>)"
  have "kv777_purge kv = Some (0, ?kv)" using l purge_loop [of "kv777_unlock kv1"] by (simp add: kv777_purge_def kv777_iterate_def)
  moreover have "kv_get ?kv k = Some None" for k
  proof -
    obtain kv2 where lk: "kv777_lock ?kv = Some kv2" by (fastforce simp: kv777_lock_def kv777_clear_def kv777_unlock_def)
    have h: "hash_find (table ?kv) k = Some None" by (simp add: hash_find_def kv777_clear_def)
    show ?thesis by (simp only: kv_get_def read_absent [OF lk h]) simp
  qed
  moreover have "table ?kv = []" "fp ?kv = None" "netkeys ?kv = 0" by (simp_all add: kv777_clear_def)
  ultimately show ?thesis by blast
qed

section \<open>Strings\<close>

lemma read_copies:
  assumes "store_ok kv fl rs st" and "\<forall>s \<in> st. length s \<noteq> length k" and "vals rs k = Some v"
    and "length v \<le> unat maxlen" and "unat maxlen \<le> length b"
  shows "kv777_read kv k (Some b) (Some maxlen) = Some (Some (record_of k v), Some (v @ drop (length v) b), Some (word_of_nat (length v)))"
proof -
  from assms(1) obtain kv1 where l: "kv777_lock kv = Some kv1" "table kv1 = table kv" by (rule store_ok_lock)
  obtain i where i: "hash_find (table kv) k = Some (Some i)" "item (table kv ! i) = record_of k v" "sizes_ok k v"
    using store_present [OF assms(1-3)] unfolding holds_def snd_conv by metis
  have "(word_of_nat (length v) :: u32) \<le> maxlen" using unat_sizes(2) [OF i(3)] assms(4) by (simp add: word_le_nat_alt)
  moreover have "take (length v) (rdata k v) = v" "length v \<le> rsize k v - 12" by (simp_all add: rdata_def rsize_def trans_le_add1)
  ultimately show ?thesis
    using l i(1,2) isdeleted_record [OF i(3)] unat_sizes(2) [OF i(3)] assms(4,5) by (simp add: kv777_read_def memcpy_at_def Let_def)
qed

text \<open>A string that was added for a new key, or in place of one of the same length, is found.\<close>

lemma string_found:
  assumes "store_ok kv fl rs st" and "storable (key @ [0]) (val @ [0])" and "\<forall>s \<in> st. length s \<noteq> length key + 1"
    and "case vals rs (key @ [0]) of None \<Rightarrow> True | Some v0 \<Rightarrow> length v0 = length val + 1"
    and "length val < unat maxlen" and "unat maxlen \<le> length retbuf"
  shows "\<exists>n kv'. kv777_addstr kv key val = Some (n, kv')
    \<and> kv777_findstr retbuf maxlen kv' key = Some (Some (record_of (key @ [0]) (val @ [0])), Some (val @ 0 # drop (length val + 1) retbuf))"
proof -
  have st: "\<forall>s \<in> st. length s \<noteq> length (key @ [0])" using assms(3) by simp
  have "\<exists>p kv' rs'. kv777_write kv (key @ [0]) (val @ [0]) = Some (p, kv') \<and> store_ok kv' fl rs' st \<and> vals rs' (key @ [0]) = Some (val @ [0])"
  proof (cases "vals rs (key @ [0])")
    case None
    then show ?thesis using write_new [OF assms(1,2) st] vals_append [of rs "key @ [0]" "val @ [0]"] by (metis fun_upd_same)
  next
    case (Some v0)
    then have "length (val @ [0]) = length v0" using assms(4) by simp
    then show ?thesis using write_same_length [OF assms(1,2) st Some] by (metis fun_upd_same)
  qed
  then obtain p kv' rs' where w: "kv777_write kv (key @ [0]) (val @ [0]) = Some (p, kv')" "store_ok kv' fl rs' st" "vals rs' (key @ [0]) = Some (val @ [0])"
    by blast
  then show ?thesis using read_copies [OF w(2) st w(3), of maxlen retbuf] assms(5,6)
    by (simp add: kv777_addstr_def kv777_findstr_def)
qed

section \<open>Any file opens\<close>









end
