(* ===== verification/SaM777.thy ===== *)
theory SaM777
  imports Prelude777
begin

text \<open>
  The hash \<open>utils/SaM.c\<close>: a sponge over a state of 729 trits, with absorbing, squeezing, the encoding
  of the result in 384 bits, encryption with the hash as a stream, and the proof of work.

  Trits are the integers -1, 0 and 1. The tables are indexed by trits, so a state with another value would
  leave a table; the state after \<open>SaM_Initialize\<close> has 243 trits that were not written, which are an
  argument (\<open>junk\<close>). The table \<open>SAM_INDICES\<close> is the one that \<open>SaM_PrepareIndices\<close> leaves: the program
  fills it once when it starts (\<open>common/system777.c\<close>), before any hash is taken.

  A buffer that the code takes as a pointer is an optional list of bytes, where \<open>None\<close> is the null pointer,
  beside the size that the code takes with it; reading or writing behind the list is the result \<open>None\<close>.
  \<open>malloc\<close> gives memory for every size but those above 2 GB, which come from a negative \<open>size\<close>.
\<close>

section \<open>The state\<close>

record SaM_info =
  trits :: "int list"
  hash :: "int list"
  bits :: "u8 list"

definition SAM_DELTA :: nat where "SAM_DELTA = 254"

fun prepare_indices :: "nat \<Rightarrow> nat \<Rightarrow> nat list" where
  "prepare_indices 0 currentIndex = []"
| "prepare_indices (Suc n) currentIndex =
     (let nextIndex = (currentIndex + SAM_DELTA) mod 729 in nextIndex # prepare_indices n nextIndex)"

definition SAM_INDICES :: "nat list" where
  "SAM_INDICES = prepare_indices 729 0"

definition SaM_Bias :: "int \<Rightarrow> int \<Rightarrow> int" where
  "SaM_Bias a b = (if a = 0 then 0 else if a = - b then a else - a)"

definition SaM_Sum :: "int \<Rightarrow> int \<Rightarrow> int" where
  "SaM_Sum a b = (if a = b then - a else a + b)"

definition SAMSUM :: "int list list" where
  "SAMSUM = [[1, -1, 0], [-1, 0, 1], [0, 1, -1]]"

definition SAMBIAS :: "int list list" where
  "SAMBIAS = [[1, 1, -1], [0, 0, 0], [1, -1, -1]]"

definition lookup :: "int list list \<Rightarrow> int \<Rightarrow> int \<Rightarrow> int option" where
  "lookup tab a b = do { row \<leftarrow> aget tab (a + 1); aget row (1 + b) }"

section \<open>Rounds\<close>

definition split_step :: "int list \<Rightarrow> nat \<Rightarrow> nat \<times> int list \<times> int list \<Rightarrow> (nat \<times> int list \<times> int list) option" where
  "split_step st nextIndex = (\<lambda>(currentIndex, left, right).
     do { a \<leftarrow> aget st (int currentIndex);
          b \<leftarrow> aget st (int nextIndex);
          l \<leftarrow> lookup SAMBIAS a b;
          r \<leftarrow> lookup SAMBIAS b a;
          Some (nextIndex, left @ [l], right @ [r]) })"

definition merge_step :: "int list \<Rightarrow> int list \<Rightarrow> nat \<Rightarrow> nat \<times> int list \<Rightarrow> (nat \<times> int list) option" where
  "merge_step left right nextIndex = (\<lambda>(currentIndex, out).
     do { l \<leftarrow> aget left (int currentIndex);
          r \<leftarrow> aget right (int nextIndex);
          s \<leftarrow> lookup SAMSUM l r;
          Some (nextIndex, out @ [s]) })"

definition sam_round :: "nat \<Rightarrow> nat \<times> int list \<Rightarrow> (nat \<times> int list) option" where
  "sam_round _ = (\<lambda>(currentIndex, st).
     do { (currentIndex, left, right) \<leftarrow> ofold (split_step st) SAM_INDICES (currentIndex, [], []);
          ofold (merge_step left right) SAM_INDICES (currentIndex, []) })"

definition SaM_SplitAndMerge :: "SaM_info \<Rightarrow> SaM_info option" where
  "SaM_SplitAndMerge state =
     do { (_, st) \<leftarrow> ofold sam_round [0..<9] (0, trits state); Some (state\<lparr>trits := st\<rparr>) }"

section \<open>Absorbing and squeezing\<close>

definition pad_trit :: "nat \<Rightarrow> int" where
  "pad_trit i = (if odd i then 1 else - 1)"

definition SaM_Initialize :: "int list \<Rightarrow> SaM_info" where
  "SaM_Initialize junk = \<lparr>trits = take 243 junk @ map pad_trit [243..<729], hash = [], bits = []\<rparr>"

definition SaM_Squeeze :: "SaM_info \<Rightarrow> SaM_info option" where
  "SaM_Squeeze state = SaM_SplitAndMerge (state\<lparr>hash := take 243 (trits state)\<rparr>)"

function absorb_trits :: "SaM_info \<Rightarrow> int list \<Rightarrow> SaM_info option" where
  "absorb_trits state input =
     (let sz = min 243 (length input)
      in do { state \<leftarrow> SaM_SplitAndMerge (state\<lparr>trits := take sz input @ map pad_trit [sz..<243] @ drop 243 (trits state)\<rparr>);
              if length input > 243 then absorb_trits state (drop 243 input) else Some state })"
  by pat_completeness auto

termination
  by (relation "measure (\<lambda>(_, input). length input)") auto

declare absorb_trits.simps [simp del]

definition bits_of :: "u8 list \<Rightarrow> int list" where
  "bits_of input = concat (map (\<lambda>b. map (\<lambda>i. of_bool (bit b i)) [0..<8]) input)"

definition input_trits :: "u8 list option \<Rightarrow> u32 \<Rightarrow> int list option" where
  "input_trits input inputSize =
     (case input of
        None \<Rightarrow> Some []
      | Some bs \<Rightarrow> if inputSize = 0 then Some []
                   else let n = unat (push_bit 3 inputSize)
                        in if n > 8 * length bs then None else Some (take n (bits_of bs)))"

text \<open>
  The trits go to \<open>tritbuf\<close>, which has 4096 of them, or to \<open>size\<close> bytes from \<open>malloc\<close>. The comparison with
  \<open>sizeof(tritbuf)\<close> is unsigned, so a negative \<open>size\<close> goes to \<open>malloc\<close>, which has no room for it.
\<close>

definition SaM_Absorb :: "SaM_info \<Rightarrow> u8 list option \<Rightarrow> u32 \<Rightarrow> u8 list option \<Rightarrow> u32 \<Rightarrow> (nat \<times> SaM_info) option" where
  "SaM_Absorb state input inputSize input2 inputSize2 =
     do { let sz = sint (push_bit 3 (inputSize + inputSize2) :: i32);
          let room = (if 0 \<le> sz \<and> sz < 4096 then 4096 else nat sz);
          ts \<leftarrow> input_trits input inputSize;
          ts2 \<leftarrow> input_trits input2 inputSize2;
          let n = length ts + length ts2;
          if n > room then None
          else do { state \<leftarrow> absorb_trits state (ts @ ts2); Some (n, state) } }"

section \<open>The result\<close>

definition rawbits :: "int list \<Rightarrow> u32" where
  "rawbits ts = foldl (\<lambda>acc t. acc * 3 + word_of_int t + 1) 0 ts"

definition bits19 :: "int list \<Rightarrow> nat \<Rightarrow> u32" where
  "bits19 h i = ucast (push_bit 19 (ucast (rawbits (take 12 (drop (12 * i) h))) :: u64) div 531441) AND 0x7ffff"

definition SaM_emit :: "SaM_info \<Rightarrow> (u8 list \<times> SaM_info) option" where
  "SaM_emit state =
     do { state \<leftarrow> SaM_Squeeze state;
          let h = hash state;
          let raw = (push_bit 4 (rawbits (drop 240 h)) div 27) AND 0xf;
          let bits64 = foldl (\<lambda>acc i. push_bit 3 acc OR ucast (drop_bit 16 (bits19 h i) AND 7)) (0 :: u64) [0..<20];
          let bits64 = push_bit 4 bits64 OR ucast (raw AND 0xf);
          let bs = concat (map (\<lambda>i. le_bytes 2 (bits19 h i)) [0..<20]) @ le_bytes 8 bits64;
          Some (bs, state\<lparr>bits := bs\<rparr>) }"

definition SaM_hit :: "SaM_info \<Rightarrow> u64" where
  "SaM_hit state = foldl (\<lambda>acc t. acc * 3 + word_of_int t + 1) 0 (take 27 (hash state))"

definition SaM :: "int list \<Rightarrow> u8 list option \<Rightarrow> i32 \<Rightarrow> u8 list option \<Rightarrow> i32 \<Rightarrow> (u8 list \<times> u64) option" where
  "SaM junk input inputSize input2 inputSize2 =
     do { (_, state) \<leftarrow> SaM_Absorb (SaM_Initialize junk) input inputSize input2 inputSize2;
          (sig, state) \<leftarrow> SaM_emit state;
          Some (sig, SaM_hit state) }"

section \<open>Encryption\<close>

text \<open>
  The loop runs while \<open>len \<ge> 0\<close>: it takes \<open>len + 1\<close> bytes of the source and writes as many to the destination,
  which may be null. The last block is returned in \<open>xorpad\<close>, which starts with what its memory held. The
  destination is not the source.
\<close>

definition write_fits :: "u8 list option \<Rightarrow> nat \<Rightarrow> bool" where
  "write_fits dest n = (case dest of None \<Rightarrow> True | Some d \<Rightarrow> n \<le> length d)"

function encrypt_loop :: "SaM_info \<Rightarrow> u8 list option \<Rightarrow> u8 list \<Rightarrow> int \<Rightarrow> u8 list \<Rightarrow> (u8 list option \<times> u8 list) option" where
  "encrypt_loop pad dest src len xorpad =
     (if len < 0 then Some (dest, xorpad)
      else do { (bs, pad) \<leftarrow> SaM_emit pad;
                let n = min 48 (nat (len + 1));
                if length src < n \<or> \<not> write_fits dest n then None
                else do { let out = map2 (XOR) (take n bs) (take n src);
                          (rest, xorpad) \<leftarrow> encrypt_loop pad (map_option (drop n) dest) (drop n src) (len - int n) (out @ drop n xorpad);
                          Some (map_option ((@) out) rest, xorpad) } })"
  by pat_completeness auto

termination
  by (relation "measure (\<lambda>(_, _, _, len, _). nat (len + 1))") auto

declare encrypt_loop.simps [simp del]

definition SaM_encrypt :: "int list \<Rightarrow> u8 list \<Rightarrow> u8 list option \<Rightarrow> u8 list \<Rightarrow> int \<Rightarrow> u8 list \<Rightarrow> u32 \<Rightarrow> (u8 list option \<times> u8 list) option" where
  "SaM_encrypt junk xorpad dest src len password timestamp =
     do { (_, pad) \<leftarrow> SaM_Absorb (SaM_Initialize junk) (Some password) 48 (Some (le_bytes 4 timestamp)) 4;
          encrypt_loop pad dest src len xorpad }"

section \<open>Proof of work\<close>

definition SAMHIT_LIMIT :: u64 where "SAMHIT_LIMIT = 7625597484987"

definition SaM_threshold :: "int \<Rightarrow> u64" where
  "SaM_threshold leverage =
     (let leverage = (if leverage > 26 then 26 else leverage);
          divisor = foldl (\<lambda>d _. d * 3) 1 [0..<nat leverage]
      in SAMHIT_LIMIT div divisor)"

text \<open>
  \<open>SaM_nonce\<close> with \<open>maxmillis = 0\<close> checks a nonce; otherwise it tries random nonces until the time is over.
  The list holds the nonces that are drawn in the given time.
\<close>

definition nonce_check :: "int list \<Rightarrow> u8 list option \<Rightarrow> i32 \<Rightarrow> int \<Rightarrow> u32 \<Rightarrow> u32 option" where
  "nonce_check junk data datalen leverage nonce =
     do { (_, hit) \<leftarrow> SaM junk data datalen (Some (le_bytes 4 nonce)) 4;
          let threshold = SaM_threshold leverage;
          Some (if hit \<ge> threshold
                then if threshold - hit > push_bit 32 1 then 0xffffffff else ucast (threshold - hit)
                else 0) }"

fun nonce_search :: "int list \<Rightarrow> u8 list option \<Rightarrow> i32 \<Rightarrow> u64 \<Rightarrow> u32 list \<Rightarrow> u32 option" where
  "nonce_search junk data datalen threshold [] = Some 0"
| "nonce_search junk data datalen threshold (nonce # draws) =
     do { (_, hit) \<leftarrow> SaM junk data datalen (Some (le_bytes 4 nonce)) 4;
          if hit < threshold then Some nonce else nonce_search junk data datalen threshold draws }"

definition SaM_nonce :: "int list \<Rightarrow> u8 list option \<Rightarrow> i32 \<Rightarrow> int \<Rightarrow> int \<Rightarrow> u32 list \<Rightarrow> u32 \<Rightarrow> u32 option" where
  "SaM_nonce junk data datalen leverage maxmillis draws nonce =
     (if leverage = 0 then Some 0
      else if maxmillis = 0 then nonce_check junk data datalen leverage nonce
      else nonce_search junk data datalen (SaM_threshold leverage) draws)"

section \<open>Trits stay trits\<close>

definition trit :: "int \<Rightarrow> bool" where
  "trit t \<longleftrightarrow> t = - 1 \<or> t = 0 \<or> t = 1"

text \<open>The tables are the functions that the comments of the source give.\<close>

lemma SAMBIAS_eq: "trit a \<Longrightarrow> trit b \<Longrightarrow> lookup SAMBIAS a b = Some (SaM_Bias a b)"
  unfolding trit_def by (elim disjE) (simp_all add: lookup_def aget_def SAMBIAS_def SaM_Bias_def)

lemma SAMSUM_eq: "trit a \<Longrightarrow> trit b \<Longrightarrow> lookup SAMSUM a b = Some (SaM_Sum a b)"
  unfolding trit_def by (elim disjE) (simp_all add: lookup_def aget_def SAMSUM_def SaM_Sum_def)

lemma trit_Bias [simp]: "trit a \<Longrightarrow> trit (SaM_Bias a b)"
  by (auto simp: trit_def SaM_Bias_def)

lemma trit_Sum [simp]: "trit a \<Longrightarrow> trit b \<Longrightarrow> trit (SaM_Sum a b)"
  by (auto simp: trit_def SaM_Sum_def)

lemma trit_pad [simp]: "trit (pad_trit i)"
  by (simp add: trit_def pad_trit_def)

lemma prepare_indices_nth: "i < n \<Longrightarrow> prepare_indices n c ! i = (c + 254 * Suc i) mod 729"
proof (induction n arbitrary: c i)
  case (Suc n)
  show ?case
  proof (cases i)
    case (Suc j)
    have "prepare_indices (Suc n) c ! i = ((c + 254) mod 729 + 254 * Suc j) mod 729"
      using Suc Suc.prems Suc.IH [of j "(c + 254) mod 729"] by (simp add: SAM_DELTA_def Let_def)
    also have "\<dots> = (c + 254 + 254 * Suc j) mod 729" by (rule mod_add_left_eq)
    finally show ?thesis using Suc by (simp add: algebra_simps)
  qed (simp add: SAM_DELTA_def Let_def)
qed simp

lemma length_prepare_indices [simp]: "length (prepare_indices n c) = n"
  by (induction n arbitrary: c) (simp_all add: Let_def)

lemma length_SAM_INDICES [simp]: "length SAM_INDICES = 729"
  by (simp add: SAM_INDICES_def)

lemma SAM_INDICES_nth: "i < 729 \<Longrightarrow> SAM_INDICES ! i = 254 * Suc i mod 729"
  unfolding SAM_INDICES_def by (subst prepare_indices_nth) simp_all

lemma SAM_INDICES_less: "k \<in> set SAM_INDICES \<Longrightarrow> k < 729"
  by (auto simp: in_set_conv_nth SAM_INDICES_nth)

text \<open>The walk over the state visits every trit once and ends where it began.\<close>

lemma SAM_INDICES_permutation: "distinct SAM_INDICES \<and> set SAM_INDICES = {..<729} \<and> last SAM_INDICES = 0"
proof -
  have "distinct SAM_INDICES"
  proof (unfold distinct_conv_nth, intro allI impI)
    fix i j assume ij: "i < length SAM_INDICES" "j < length SAM_INDICES" "i \<noteq> j"
    have "254 * Suc i mod 729 \<noteq> 254 * Suc j mod 729"
    proof
      assume "254 * Suc i mod 729 = 254 * Suc j mod 729"
      then have "287 * (254 * Suc i) mod 729 = 287 * (254 * Suc j) mod 729" by (metis mod_mult_right_eq)
      then have "(72898 * Suc i) mod 729 = (72898 * Suc j) mod 729" by simp
      then have "(729 * (99 * Suc i) + 727 * Suc i) mod 729 = (729 * (99 * Suc j) + 727 * Suc j) mod 729" by simp
      then have "727 * Suc i mod 729 = 727 * Suc j mod 729" by (simp only: mod_mult_self4)
      then have "364 * (727 * Suc i) mod 729 = 364 * (727 * Suc j) mod 729" by (metis mod_mult_right_eq)
      then have "(729 * (363 * Suc i) + Suc i) mod 729 = (729 * (363 * Suc j) + Suc j) mod 729" by simp
      then have "Suc i mod 729 = Suc j mod 729" by (simp only: mod_mult_self4)
      then show False using ij by (auto simp: mod_Suc split: if_splits)
    qed
    then show "SAM_INDICES ! i \<noteq> SAM_INDICES ! j" using ij by (simp add: SAM_INDICES_nth)
  qed
  moreover have "set SAM_INDICES = {..<729}"
    using calculation SAM_INDICES_less by (intro card_subset_eq) (auto simp: distinct_card)
  moreover have "last SAM_INDICES = 0"
  proof -
    have "SAM_INDICES \<noteq> []" using length_SAM_INDICES by fastforce
    then have "last SAM_INDICES = SAM_INDICES ! 728" by (simp add: last_conv_nth)
    then show ?thesis by (simp add: SAM_INDICES_nth)
  qed
  ultimately show ?thesis by blast
qed

definition state_ok :: "int list \<Rightarrow> bool" where
  "state_ok st \<longleftrightarrow> length st = 729 \<and> (\<forall>t \<in> set st. trit t)"

lemma split_ok:
  assumes "state_ok st" and "cur < 729"
  shows "\<exists>c l r. ofold (split_step st) SAM_INDICES (cur, [], []) = Some (c, l, r) \<and> c < 729 \<and> state_ok l \<and> state_ok r"
proof -
  let ?I = "\<lambda>k (c :: nat, l, r). c < 729 \<and> length l = 729 - k \<and> length r = 729 - k \<and> (\<forall>t \<in> set l. trit t) \<and> (\<forall>t \<in> set r. trit t) \<and> k \<le> 729"
  have "\<exists>s'. ofold (split_step st) SAM_INDICES (cur, [], []) = Some s' \<and> ?I 0 s'"
  proof (rule ofold_total)
    show "?I (length SAM_INDICES) (cur, [], [])" using assms(2) by simp
    fix x s k assume x: "x \<in> set SAM_INDICES" and s: "?I (Suc k) s"
    obtain c l r where cs: "s = (c, l, r)" by (cases s)
    have "c < length st" "x < length st" using s cs x SAM_INDICES_less assms(1) by (auto simp: state_ok_def)
    moreover from this have "trit (st ! c)" "trit (st ! x)" using assms(1) by (auto simp: state_ok_def)
    ultimately show "\<exists>s'. split_step st x s = Some s' \<and> ?I k s'"
      using s cs SAM_INDICES_less [OF x] by (auto simp: split_step_def aget_nat SAMBIAS_eq)
  qed
  then show ?thesis by (auto simp: state_ok_def)
qed

lemma merge_ok:
  assumes "state_ok l" and "state_ok r" and "cur < 729"
  shows "\<exists>c out. ofold (merge_step l r) SAM_INDICES (cur, []) = Some (c, out) \<and> c < 729 \<and> state_ok out"
proof -
  let ?I = "\<lambda>k (c :: nat, out). c < 729 \<and> length out = 729 - k \<and> (\<forall>t \<in> set out. trit t) \<and> k \<le> 729"
  have "\<exists>s'. ofold (merge_step l r) SAM_INDICES (cur, []) = Some s' \<and> ?I 0 s'"
  proof (rule ofold_total)
    show "?I (length SAM_INDICES) (cur, [])" using assms(3) by simp
    fix x s k assume x: "x \<in> set SAM_INDICES" and s: "?I (Suc k) s"
    obtain c out where cs: "s = (c, out)" by (cases s)
    have "c < length l" "x < length r" using s cs x SAM_INDICES_less assms(1,2) by (auto simp: state_ok_def)
    moreover from this have "trit (l ! c)" "trit (r ! x)" using assms(1,2) by (auto simp: state_ok_def)
    ultimately show "\<exists>s'. merge_step l r x s = Some s' \<and> ?I k s'"
      using s cs SAM_INDICES_less [OF x] by (auto simp: merge_step_def aget_nat SAMSUM_eq)
  qed
  then show ?thesis by (auto simp: state_ok_def)
qed

lemma SplitAndMerge_ok:
  assumes "state_ok (trits state)"
  shows "\<exists>st. SaM_SplitAndMerge state = Some (state\<lparr>trits := st\<rparr>) \<and> state_ok st"
proof -
  have "\<exists>s'. ofold sam_round [0..<9] (0, trits state) = Some s' \<and> fst s' < 729 \<and> state_ok (snd s')"
  proof (rule ofold_keeps)
    fix x and s :: "nat \<times> int list" assume "fst s < 729 \<and> state_ok (snd s)"
    then show "\<exists>s'. sam_round x s = Some s' \<and> fst s' < 729 \<and> state_ok (snd s')"
      using split_ok [of "snd s" "fst s"] merge_ok by (cases s) (fastforce simp: sam_round_def)
  qed (use assms in auto)
  then show ?thesis by (auto simp: SaM_SplitAndMerge_def)
qed

lemma absorb_ok:
  assumes "state_ok (drop 243 (trits state) @ replicate 243 0)" and "\<forall>t \<in> set input. trit t" and "length (trits state) = 729"
  shows "\<exists>st. absorb_trits state input = Some (state\<lparr>trits := st\<rparr>) \<and> state_ok st"
  using assms
proof (induction state input rule: absorb_trits.induct)
  case (1 state input)
  let ?sz = "min 243 (length input)"
  let ?s = "state\<lparr>trits := take ?sz input @ map pad_trit [?sz..<243] @ drop 243 (trits state)\<rparr>"
  have "state_ok (trits ?s)" using 1(2,3) set_take_subset [of ?sz input] by (auto simp: state_ok_def)
  from SplitAndMerge_ok [OF this] obtain st where st: "SaM_SplitAndMerge ?s = Some (state\<lparr>trits := st\<rparr>)" "state_ok st" by auto
  show ?case
  proof (cases "length input > 243")
    case True
    have "state_ok (drop 243 st @ replicate 243 0)" using st(2) set_drop_subset [of 243 st] by (auto simp: state_ok_def trit_def)
    then obtain st' where "absorb_trits (state\<lparr>trits := st\<rparr>) (drop 243 input) = Some (state\<lparr>trits := st'\<rparr>)" "state_ok st'"
      using 1(1) [OF refl st(1) True] 1(3) set_drop_subset [of 243 input] st(2) by (auto simp: state_ok_def)
    moreover have "absorb_trits state input = absorb_trits (state\<lparr>trits := st\<rparr>) (drop 243 input)"
      using st(1) True by (subst absorb_trits.simps) (simp add: Let_def)
    ultimately show ?thesis by auto
  next
    case False
    then have "absorb_trits state input = Some (state\<lparr>trits := st\<rparr>)"
      using st by (subst absorb_trits.simps) (simp add: Let_def)
    then show ?thesis using st(2) by blast
  qed
qed

text \<open>What the first 243 trits hold before absorbing does not matter.\<close>

lemma absorb_forgets:
  assumes "drop 243 (trits a) = drop 243 (trits b)" and "hash a = hash b" and "bits a = bits b"
  shows "absorb_trits a input = absorb_trits b input"
proof -
  have "a\<lparr>trits := take n input @ map pad_trit [n..<243] @ drop 243 (trits a)\<rparr>
      = b\<lparr>trits := take n input @ map pad_trit [n..<243] @ drop 243 (trits b)\<rparr>" for n
    using assms by (cases a, cases b) simp
  then show ?thesis by (subst (1 2) absorb_trits.simps) (simp only: Let_def)
qed

lemma trit_bits_of: "t \<in> set (bits_of input) \<Longrightarrow> trit t"
  by (auto simp: bits_of_def trit_def)


section \<open>The hash of any input\<close>

text \<open>Numbers in base 3 do not wrap as long as they fit into the word.\<close>

lemma base3:
  fixes ts :: "int list"
  assumes "\<forall>t \<in> set ts. trit t" and "3 ^ length ts \<le> (2 :: nat) ^ LENGTH('a::len)"
  shows "unat (foldl (\<lambda>acc t. acc * 3 + word_of_int t + 1) (0 :: 'a word) ts) = foldl (\<lambda>acc t. acc * 3 + nat (t + 1)) 0 ts
    \<and> foldl (\<lambda>acc t. acc * 3 + nat (t + 1)) 0 ts < 3 ^ length ts"
  using assms
proof (induction ts rule: rev_induct)
  case (snoc t ts)
  let ?w = "foldl (\<lambda>acc t. acc * 3 + word_of_int t + 1) (0 :: 'a word) ts"
  let ?n = "foldl (\<lambda>acc t. acc * 3 + nat (t + 1)) 0 ts"
  have "3 ^ length ts \<le> (2 :: nat) ^ LENGTH('a)" using snoc.prems(2) by simp
  then have ih: "unat ?w = ?n" "?n < 3 ^ length ts" using snoc.IH snoc.prems(1) by auto
  have t: "nat (t + 1) \<le> 2" "0 \<le> t + 1" using snoc.prems(1) by (auto simp: trit_def)
  have less: "?n * 3 + nat (t + 1) < 3 ^ Suc (length ts)" using ih(2) t(1) by simp
  have "?w * 3 + word_of_int t + 1 = word_of_nat (?n * 3 + nat (t + 1))"
  proof -
    have "?w = word_of_nat ?n" using arg_cong [OF ih(1), of "word_of_nat :: nat \<Rightarrow> 'a word"] by simp
    moreover have "(word_of_nat (nat (t + 1)) :: 'a word) = word_of_int t + 1" using t(2) by (simp add: word_of_nat_eq_iff)
    ultimately show ?thesis by (simp add: add.assoc)
  qed
  moreover have "?n * 3 + nat (t + 1) < 2 ^ LENGTH('a)" using less snoc.prems(2) by simp
  ultimately have "unat (?w * 3 + word_of_int t + 1) = ?n * 3 + nat (t + 1)"
    by (simp add: unsigned_of_nat take_bit_eq_mod del: of_nat_add of_nat_mult)
  then show ?case using less by simp
qed simp

lemma emit_ok:
  assumes "state_ok (trits state)"
  shows "\<exists>bs st. SaM_emit state = Some (bs, state\<lparr>hash := take 243 (trits state), trits := st, bits := bs\<rparr>) \<and> length bs = 48 \<and> state_ok st"
proof -
  from SplitAndMerge_ok [of "state\<lparr>hash := take 243 (trits state)\<rparr>"] assms obtain st where
    "SaM_Squeeze state = Some (state\<lparr>hash := take 243 (trits state), trits := st\<rparr>)" "state_ok st"
    by (auto simp: SaM_Squeeze_def)
  then show ?thesis by (auto simp: SaM_emit_def Let_def length_concat comp_def sum_list_triv)
qed

lemma input_trits_ok: "input_trits input sz = Some ts \<Longrightarrow> \<forall>t \<in> set ts. trit t"
  by (auto simp: input_trits_def Let_def trit_bits_of dest: in_set_takeD split: option.splits if_splits)

lemma drop_init: "243 \<le> length j \<Longrightarrow> drop 243 (trits (SaM_Initialize j)) = map pad_trit [243..<729]"
  by (simp add: SaM_Initialize_def del: upt_rec_numeral)

lemma init_absorb_trits:
  assumes "243 \<le> length junk" and "\<forall>t \<in> set ts. trit t"
  shows "\<exists>state. absorb_trits (SaM_Initialize junk) ts = Some state \<and> state_ok (trits state)"
proof -
  let ?s = "SaM_Initialize junk"
  have "state_ok (drop 243 (trits ?s) @ replicate 243 0)"
    unfolding drop_init [OF assms(1)] by (auto simp: state_ok_def trit_def [of 0] simp del: upt_rec_numeral)
  moreover have "length (trits ?s) = 729" using assms(1) by (simp add: SaM_Initialize_def del: upt_rec_numeral)
  ultimately show ?thesis using absorb_ok assms(2) by fastforce
qed

lemma absorbed_ok:
  assumes "243 \<le> length junk" and "SaM_Absorb (SaM_Initialize junk) input sz input2 sz2 = Some (n, state)"
  shows "state_ok (trits state)"
proof -
  obtain ts ts2 where "input_trits input sz = Some ts" "input_trits input2 sz2 = Some ts2"
    "absorb_trits (SaM_Initialize junk) (ts @ ts2) = Some state"
    using assms(2) by (auto simp: SaM_Absorb_def Let_def bind_Some_conv split: if_splits)
  moreover from this have "\<forall>t \<in> set (ts @ ts2). trit t" using input_trits_ok by fastforce
  ultimately show ?thesis using init_absorb_trits [OF assms(1), of "ts @ ts2"] by simp
qed

lemma absorb_junk:
  assumes "243 \<le> length junk" and "243 \<le> length junk'"
  shows "SaM_Absorb (SaM_Initialize junk) input sz input2 sz2 = SaM_Absorb (SaM_Initialize junk') input sz input2 sz2"
proof -
  have "absorb_trits (SaM_Initialize junk) ts = absorb_trits (SaM_Initialize junk') ts" for ts
    using absorb_forgets [of "SaM_Initialize junk" "SaM_Initialize junk'"] drop_init [OF assms(1)] drop_init [OF assms(2)]
    by (simp add: SaM_Initialize_def del: upt_rec_numeral)
  then show ?thesis by (simp only: SaM_Absorb_def)
qed

text \<open>Buffers with their own sizes: below \<open>2 ^ 28\<close> bytes all trits fit into the buffer.\<close>

definition buffer_size :: "u8 list option \<Rightarrow> nat" where
  "buffer_size p = (case p of None \<Rightarrow> 0 | Some bs \<Rightarrow> length bs)"

definition buffer_bits :: "u8 list option \<Rightarrow> int list" where
  "buffer_bits p = (case p of None \<Rightarrow> [] | Some bs \<Rightarrow> bits_of bs)"

lemma length_bits_of [simp]: "length (bits_of bs) = 8 * length bs"
  by (induction bs) (simp_all add: bits_of_def)

lemma length_buffer_bits [simp]: "length (buffer_bits p) = 8 * buffer_size p"
  by (simp add: buffer_bits_def buffer_size_def split: option.splits)

lemma unat_bits_size: "k < 2 ^ 29 \<Longrightarrow> unat (push_bit 3 (of_nat k) :: u32) = 8 * k"
  by (simp add: push_bit_eq_mult unat_word_ariths unsigned_of_nat take_bit_eq_mod)

lemma input_trits_buffer: "buffer_size p < 2 ^ 29 \<Longrightarrow> input_trits p (of_nat (buffer_size p)) = Some (buffer_bits p)"
proof (cases p)
  case (Some bs)
  assume "buffer_size p < 2 ^ 29"
  then have l: "length bs < 2 ^ 29" using Some by (simp add: buffer_size_def)
  show ?thesis
  proof (cases "bs = []")
    case False
    have "(of_nat (length bs) :: u32) \<noteq> 0"
      using l False by (metis length_0_conv unat_bits_size mult_eq_0_iff push_bit_of_0 unat_0 zero_neq_numeral)
    then show ?thesis using Some l unat_bits_size [OF l] by (simp add: input_trits_def buffer_bits_def buffer_size_def Let_def)
  qed (simp add: Some input_trits_def buffer_bits_def buffer_size_def bits_of_def)
qed (simp add: input_trits_def buffer_bits_def)

lemma absorb_buffers:
  assumes "buffer_size p + buffer_size q < 2 ^ 28"
  shows "SaM_Absorb st p (of_nat (buffer_size p)) q (of_nat (buffer_size q)) =
    do { st \<leftarrow> absorb_trits st (buffer_bits p @ buffer_bits q); Some (8 * (buffer_size p + buffer_size q), st) }"
proof -
  let ?k = "buffer_size p + buffer_size q"
  have "push_bit 3 (of_nat (buffer_size p) + of_nat (buffer_size q)) = (word_of_int (8 * int ?k) :: i32)"
    by (simp add: push_bit_eq_mult)
  then have "sint (push_bit 3 (of_nat (buffer_size p) + of_nat (buffer_size q)) :: i32) = 8 * int ?k"
    using assms by (simp add: signed_of_int signed_take_bit_int_eq_self del: of_int_add of_int_mult of_int_diff)
  then show ?thesis
    using input_trits_buffer [of p] input_trits_buffer [of q] assms by (auto simp: SaM_Absorb_def Let_def nat_add_distrib nat_mult_distrib)
qed

text \<open>
  From \<open>2 ^ 28\<close> bytes on the size in bits is negative, and the hash writes where it has no buffer.
\<close>

lemma absorb_too_long:
  assumes "2 ^ 28 \<le> buffer_size p + buffer_size q" and "buffer_size p + buffer_size q < 2 ^ 29"
  shows "SaM_Absorb st p (of_nat (buffer_size p)) q (of_nat (buffer_size q)) = None"
proof -
  let ?k = "buffer_size p + buffer_size q"
  have "push_bit 3 (of_nat (buffer_size p) + of_nat (buffer_size q)) = (word_of_int (8 * int ?k - 2 ^ 32) :: i32)"
    by (simp add: push_bit_eq_mult)
  then have "sint (push_bit 3 (of_nat (buffer_size p) + of_nat (buffer_size q)) :: i32) = 8 * int ?k - 2 ^ 32"
    using assms by (simp add: signed_of_int signed_take_bit_int_eq_self del: of_int_add of_int_mult of_int_diff)
  then show ?thesis
    using input_trits_buffer [of p] input_trits_buffer [of q] assms by (auto simp: SaM_Absorb_def Let_def)
qed

lemma SaM_bounds:
  assumes "243 \<le> length junk" and "SaM_Absorb (SaM_Initialize junk) input sz input2 sz2 = Some (n, state)"
  shows "\<exists>sig hit. SaM junk input sz input2 sz2 = Some (sig, hit) \<and> length sig = 48 \<and> unat hit < 3 ^ 27"
proof -
  have st: "state_ok (trits state)" using absorbed_ok [OF assms] .
  obtain bs st' where e: "SaM_emit state = Some (bs, state\<lparr>hash := take 243 (trits state), trits := st', bits := bs\<rparr>)" "length bs = 48"
    using emit_ok [OF st] by blast
  let ?h = "take 27 (take 243 (trits state))"
  have "\<forall>t \<in> set ?h. trit t" using st set_take_subset by (fastforce simp: state_ok_def)
  moreover have "length ?h = 27" using st by (simp add: state_ok_def)
  ultimately have "unat (SaM_hit (state\<lparr>hash := take 243 (trits state), trits := st', bits := bs\<rparr>)) < 3 ^ 27"
    using base3 [of ?h, where 'a = 64] by (simp add: SaM_hit_def)
  then show ?thesis using assms(2) e by (simp add: SaM_def)
qed

lemma SaM_hit_bound:
  assumes "243 \<le> length junk" and "SaM junk input sz input2 sz2 = Some (sig, hit)"
  shows "unat hit < 3 ^ 27"
proof -
  obtain n state where "SaM_Absorb (SaM_Initialize junk) input sz input2 sz2 = Some (n, state)"
    using assms(2) by (auto simp: SaM_def bind_Some_conv)
  from SaM_bounds [OF assms(1) this] assms(2) show ?thesis by auto
qed

lemma SaM_result:
  assumes "length junk = 729" and "length junk' = 729" and "buffer_size p + buffer_size q < 2 ^ 28"
  shows "\<exists>sig hit. SaM junk p (of_nat (buffer_size p)) q (of_nat (buffer_size q)) = Some (sig, hit)
    \<and> SaM junk' p (of_nat (buffer_size p)) q (of_nat (buffer_size q)) = Some (sig, hit)
    \<and> length sig = 48 \<and> unat hit < 3 ^ 27"
proof -
  have l: "243 \<le> length junk" "243 \<le> length junk'" using assms by simp_all
  have "\<forall>t \<in> set (buffer_bits p @ buffer_bits q). trit t" using trit_bits_of by (auto simp: buffer_bits_def split: option.splits)
  then obtain state where "SaM_Absorb (SaM_Initialize junk) p (of_nat (buffer_size p)) q (of_nat (buffer_size q))
      = Some (8 * (buffer_size p + buffer_size q), state)"
    using init_absorb_trits [OF l(1)] absorb_buffers [OF assms(3)] by fastforce
  from SaM_bounds [OF l(1) this] show ?thesis using absorb_junk [OF l] by (auto simp: SaM_def)
qed

text \<open>
  C31. The hash of two buffers of together less than \<open>2 ^ 28\<close> bytes (either may be null) is total and well-typed:
  whatever the memory held that \<open>SaM_Initialize\<close> leaves unset, all 729 trits of the state stay trits, the trits
  of the input fit into the buffer that is chosen for them, no table or array is left, the result has 384 bits and
  a hit below \<open>3 ^ 27\<close>, and neither depends on the unset memory. From \<open>2 ^ 28\<close> bytes up to \<open>2 ^ 29\<close> there is no
  hash: the size in bits is negative as an \<open>int32_t\<close>, and the code writes where it has no buffer.
\<close>

theorem SaM_total:
  assumes "length junk = 729" and "length junk' = 729" and "buffer_size p + buffer_size q < 2 ^ 29"
  shows "if buffer_size p + buffer_size q < 2 ^ 28
    then \<exists>sig hit. SaM junk p (of_nat (buffer_size p)) q (of_nat (buffer_size q)) = Some (sig, hit)
      \<and> SaM junk' p (of_nat (buffer_size p)) q (of_nat (buffer_size q)) = Some (sig, hit)
      \<and> length sig = 48 \<and> unat hit < 3 ^ 27
    else SaM junk p (of_nat (buffer_size p)) q (of_nat (buffer_size q)) = None"
proof (cases "buffer_size p + buffer_size q < 2 ^ 28")
  case True
  then show ?thesis using SaM_result [OF assms(1,2) True] by (simp only: if_True)
next
  case False
  then show ?thesis using absorb_too_long [of p q] assms(3) by (simp add: SaM_def)
qed

theorem SaM_total_witness:
  "\<exists>sig hit. SaM (replicate 729 5) (Some (replicate 600 7)) 600 None 0 = Some (sig, hit)
    \<and> SaM (replicate 729 (- 9)) (Some (replicate 600 7)) 600 None 0 = Some (sig, hit)
    \<and> length sig = 48 \<and> unat hit < 3 ^ 27"
  using SaM_total [of "replicate 729 5" "replicate 729 (- 9)" "Some (replicate 600 7)" None]
  by (simp add: buffer_size_def del: upt_rec_numeral)

section \<open>Encryption\<close>

lemma xor_twice: "length ks = length bs \<Longrightarrow> map2 (XOR) ks (map2 (XOR) ks bs) = (bs :: u8 list)"
  by (induction ks bs rule: list_induct2) (simp_all flip: xor.assoc)

text \<open>
  The loop XORs \<open>len + 1\<close> bytes of a key stream, which only depends on the state it starts from, into the source,
  and it leaves its buffers exactly when one of them has fewer bytes.
\<close>

lemma encrypt_loop_stream:
  assumes "state_ok (trits pad)"
  shows "\<exists>ks. length ks = nat (len + 1) \<and> (\<forall>dest src x.
    if length ks \<le> length src \<and> write_fits dest (length ks)
    then \<exists>x'. encrypt_loop pad dest src len x
      = Some (map_option (\<lambda>d. map2 (XOR) ks (take (length ks) src) @ drop (length ks) d) dest, x')
    else encrypt_loop pad dest src len x = None)"
  using assms
proof (induction "nat (len + 1)" arbitrary: len pad rule: less_induct)
  case less
  show ?case
  proof (cases "len < 0")
    case True
    then show ?thesis by (intro exI [of _ "[]"]) (auto simp: encrypt_loop.simps [of pad] write_fits_def option.map_id0 split: option.splits)
  next
    case False
    obtain bs st where e: "SaM_emit pad = Some (bs, pad\<lparr>hash := take 243 (trits pad), trits := st, bits := bs\<rparr>)" "length bs = 48" "state_ok st"
      using emit_ok [OF less.prems] by blast
    let ?pad = "pad\<lparr>hash := take 243 (trits pad), trits := st, bits := bs\<rparr>"
    define n where "n = min 48 (nat (len + 1))"
    have n: "n \<le> 48" "0 < n" "nat (len - int n + 1) = nat (len + 1) - n" "n \<le> nat (len + 1)" using False by (auto simp: n_def)
    have "nat (len - int n + 1) < nat (len + 1)" "state_ok (trits ?pad)" using n False e(3) by auto
    from less.hyps [OF this] obtain ks where ks: "length ks = nat (len + 1) - n" "\<And>dest src x.
      if length ks \<le> length src \<and> write_fits dest (length ks)
      then \<exists>x'. encrypt_loop ?pad dest src (len - int n) x
        = Some (map_option (\<lambda>d. map2 (XOR) ks (take (length ks) src) @ drop (length ks) d) dest, x')
      else encrypt_loop ?pad dest src (len - int n) x = None"
      unfolding n(3) by blast
    let ?ks = "take n bs @ ks"
    have lk: "length ?ks = nat (len + 1)" "length (take n bs) = n" using ks(1) e(2) n by auto
    show ?thesis
    proof (intro exI [of _ ?ks] conjI allI lk(1))
      fix dest src x
      let ?out = "map2 (XOR) (take n bs) (take n src)"
      have loop: "encrypt_loop pad dest src len x =
          (if length src < n \<or> \<not> write_fits dest n then None
           else do { (rest, xorpad) \<leftarrow> encrypt_loop ?pad (map_option (drop n) dest) (drop n src) (len - int n) (?out @ drop n x);
                     Some (map_option ((@) ?out) rest, xorpad) })"
        using False e(1) by (subst encrypt_loop.simps) (simp add: Let_def flip: n_def)
      have out: "map2 (XOR) ?ks (take (length ?ks) src) = ?out @ map2 (XOR) ks (take (length ks) (drop n src))" if "n \<le> length src"
        using that lk by (simp add: zip_append1 take_drop min_def add.commute)
      let ?rest = "encrypt_loop ?pad (map_option (drop n) dest) (drop n src) (len - int n) (?out @ drop n x)"
      have lks: "length ?ks = n + length ks" using lk(2) by simp
      have fits: "length ?ks \<le> length src \<and> write_fits dest (length ?ks) \<longleftrightarrow> n \<le> length src \<and> write_fits dest n
          \<and> length ks \<le> length (drop n src) \<and> write_fits (map_option (drop n) dest) (length ks)"
        unfolding lks by (auto simp: write_fits_def split: option.splits)
      show "if length ?ks \<le> length src \<and> write_fits dest (length ?ks)
        then \<exists>x'. encrypt_loop pad dest src len x
          = Some (map_option (\<lambda>d. map2 (XOR) ?ks (take (length ?ks) src) @ drop (length ?ks) d) dest, x')
        else encrypt_loop pad dest src len x = None"
      proof (cases "length ?ks \<le> length src \<and> write_fits dest (length ?ks)")
        case True
        then have r: "n \<le> length src" "write_fits dest n" "length ks \<le> length (drop n src)"
          "write_fits (map_option (drop n) dest) (length ks)" unfolding fits by auto
        with ks(2) [of "drop n src" "map_option (drop n) dest" "?out @ drop n x"] obtain x' where
          "?rest = Some (map_option (\<lambda>d. map2 (XOR) ks (take (length ks) (drop n src)) @ drop (length ks) d) (map_option (drop n) dest), x')"
          by (simp only: if_True simp_thms) blast
        then have "encrypt_loop pad dest src len x
          = Some (map_option (\<lambda>d. map2 (XOR) ?ks (take (length ?ks) src) @ drop (length ?ks) d) dest, x')"
          unfolding loop out [OF r(1)] unfolding lks using r(1,2)
          by (simp add: option.map_comp comp_def add.commute)
        then show ?thesis using True by (simp only: if_True simp_thms) blast
      next
        case False
        then have "encrypt_loop pad dest src len x = None"
          using ks(2) [of "drop n src" "map_option (drop n) dest" "?out @ drop n x"] unfolding fits loop by (auto split: if_splits)
        then show ?thesis using False by (simp only: if_False)
      qed
    qed
  qed
qed

lemma encrypt_stream:
  assumes "243 \<le> length junk" and "243 \<le> length junk'" and "length password = 48" and "0 \<le> len"
  shows "\<exists>ks. length ks = nat len + 1 \<and> (\<forall>j \<in> {junk, junk'}. \<forall>dest src x.
    if nat len + 1 \<le> length src \<and> write_fits dest (nat len + 1)
    then \<exists>x'. SaM_encrypt j x dest src len password timestamp
      = Some (map_option (\<lambda>d. map2 (XOR) ks (take (nat len + 1) src) @ drop (nat len + 1) d) dest, x')
    else SaM_encrypt j x dest src len password timestamp = None)"
proof -
  let ?p = "Some password" and ?q = "Some (le_bytes 4 timestamp)"
  have b: "SaM_Absorb st ?p 48 ?q 4 = do { st \<leftarrow> absorb_trits st (buffer_bits ?p @ buffer_bits ?q); Some (8 * 52, st) }" for st
    using absorb_buffers [of ?p ?q st] assms(3) by (simp add: buffer_size_def)
  have "\<forall>t \<in> set (buffer_bits ?p @ buffer_bits ?q). trit t" using trit_bits_of by (auto simp: buffer_bits_def)
  then obtain pad where pad: "SaM_Absorb (SaM_Initialize junk) ?p 48 ?q 4 = Some (416, pad)" "state_ok (trits pad)"
    using init_absorb_trits [OF assms(1)] b by fastforce
  have enc: "SaM_encrypt j x dest src len password timestamp = encrypt_loop pad dest src len x" if "j \<in> {junk, junk'}" for j x dest src
    using that pad(1) absorb_junk [OF assms(1,2), of ?p 48 ?q 4] by (auto simp: SaM_encrypt_def)
  have len: "nat (len + 1) = nat len + 1" using assms(4) by simp
  from encrypt_loop_stream [OF pad(2), of len, unfolded len] obtain ks where ks: "length ks = nat len + 1" and loop: "\<forall>dest src x.
    if length ks \<le> length src \<and> write_fits dest (length ks)
    then \<exists>x'. encrypt_loop pad dest src len x
      = Some (map_option (\<lambda>d. map2 (XOR) ks (take (length ks) src) @ drop (length ks) d) dest, x')
    else encrypt_loop pad dest src len x = None" by blast
  show ?thesis
    by (intro exI [of _ ks] conjI ballI ks) (use loop [unfolded ks] in \<open>simp only: enc\<close>)
qed

text \<open>
  C29. Encryption is undone by encrypting again with the same password and time. The loop takes \<open>len + 1\<close> bytes:
  when the source has at least that many, and the destination too unless it is null, the call returns, the bytes
  behind the first \<open>len + 1\<close> of the destination stay, and the same call on the result gives the \<open>len + 1\<close> bytes of
  the source back. When the source or a destination has only \<open>len\<close> bytes the loop leaves that buffer; the callers in
  the program (\<open>common/txnet777.c\<close>) pass such a source.
\<close>

theorem SaM_encrypt_involution:
  assumes "length junk = 729" and "length junk' = 729" and "length password = 48" and "0 \<le> len"
  shows "if nat len + 1 \<le> length src \<and> write_fits dest (nat len + 1)
    then \<exists>out x'. length out = nat len + 1
      \<and> SaM_encrypt junk x dest src len password timestamp = Some (map_option (\<lambda>d. out @ drop (nat len + 1) d) dest, x')
      \<and> (\<forall>e rest. nat len + 1 \<le> length e \<longrightarrow> (\<exists>y'. SaM_encrypt junk' y (Some e) (out @ rest) len password timestamp
           = Some (Some (take (nat len + 1) src @ drop (nat len + 1) e), y')))
    else SaM_encrypt junk x dest src len password timestamp = None"
proof -
  have l: "243 \<le> length junk" "243 \<le> length junk'" using assms by simp_all
  obtain ks where ks: "length ks = nat len + 1" and enc: "\<And>j dest src x. j \<in> {junk, junk'} \<Longrightarrow>
    if nat len + 1 \<le> length src \<and> write_fits dest (nat len + 1)
    then \<exists>x'. SaM_encrypt j x dest src len password timestamp
      = Some (map_option (\<lambda>d. map2 (XOR) ks (take (nat len + 1) src) @ drop (nat len + 1) d) dest, x')
    else SaM_encrypt j x dest src len password timestamp = None"
    using encrypt_stream [OF l assms(3,4), of timestamp] by blast
  show ?thesis
  proof (cases "nat len + 1 \<le> length src \<and> write_fits dest (nat len + 1)")
    case True
    let ?out = "map2 (XOR) ks (take (nat len + 1) src)"
    have lo: "length ?out = nat len + 1" using True ks by simp
    have "map2 (XOR) ks ?out = take (nat len + 1) src" using xor_twice True ks by simp
    then have "\<exists>y'. SaM_encrypt junk' y (Some e) (?out @ rest) len password timestamp
        = Some (Some (take (nat len + 1) src @ drop (nat len + 1) e), y')" if "nat len + 1 \<le> length e" for e rest
      using enc [of junk' "?out @ rest" "Some e" y] that lo by (simp add: write_fits_def)
    moreover have "\<exists>x'. SaM_encrypt junk x dest src len password timestamp = Some (map_option (\<lambda>d. ?out @ drop (nat len + 1) d) dest, x')"
      using enc [of junk src dest x] True by simp
    ultimately show ?thesis unfolding if_P [OF True] using lo by blast
  next
    case False
    then show ?thesis using enc [of junk src dest x] by (simp only: insertI1 if_False simp_thms)
  qed
qed

theorem SaM_encrypt_involution_witness:
  "\<exists>out x'. length out = 3 \<and> SaM_encrypt (replicate 729 0) [] (Some [0, 0, 0, 77]) [10, 20, 30] 2 (replicate 48 9) 99 = Some (Some (out @ [77]), x')
    \<and> (\<exists>y'. SaM_encrypt (replicate 729 1) [] (Some [0, 0, 0]) (out @ [77]) 2 (replicate 48 9) 99 = Some (Some [10, 20, 30], y'))"
proof -
  have "nat 2 + 1 = (3 :: nat)" by simp
  with SaM_encrypt_involution [of "replicate 729 0" "replicate 729 1" "replicate 48 9" 2 "[10, 20, 30]" "Some [0, 0, 0, 77]" "[]" 99 "[]"]
  obtain out x' where o: "length out = 3"
    "SaM_encrypt (replicate 729 0) [] (Some [0, 0, 0, 77]) [10, 20, 30] 2 (replicate 48 9) 99 = Some (Some (out @ [77]), x')"
    "\<And>e rest. 3 \<le> length e \<Longrightarrow> \<exists>y'. SaM_encrypt (replicate 729 1) [] (Some e) (out @ rest) 2 (replicate 48 9) 99
           = Some (Some ([10, 20, 30] @ drop 3 e), y')"
    by (auto simp: write_fits_def simp del: upt_rec_numeral)
  show ?thesis using o(1,2) o(3) [of "[0, 0, 0]" "[77]"] by (auto simp del: upt_rec_numeral)
qed

section \<open>Proof of work\<close>

lemma pow3: "foldl (\<lambda>d _. d * 3) (1 :: u64) [0..<n] = 3 ^ n"
  by (induction n) simp_all

lemma threshold_eq: "unat (SaM_threshold leverage) = 3 ^ (27 - min 26 (nat leverage))"
proof -
  let ?n = "min 26 (nat leverage)"
  have n: "nat (if leverage > 26 then 26 else leverage) = ?n" by auto
  have le: "(3 :: nat) ^ ?n \<le> 3 ^ 26" by (intro power_increasing) auto
  have "unat (3 ^ ?n :: u64) = 3 ^ ?n"
  proof -
    have "(3 ^ ?n :: u64) = word_of_nat (3 ^ ?n)" by simp
    then show ?thesis using le by (simp add: unsigned_of_nat take_bit_eq_mod del: of_nat_power)
  qed
  moreover have "(3 :: nat) ^ 27 div 3 ^ ?n = 3 ^ (27 - ?n)" by (simp add: power_diff)
  ultimately show ?thesis by (simp add: SaM_threshold_def Let_def n pow3 unat_div SAMHIT_LIMIT_def)
qed

lemma nonce_check_iff:
  assumes "length junk = 729" and "leverage \<noteq> 0" and "SaM junk data datalen (Some (le_bytes 4 nonce)) 4 = Some (sig, hit)"
  shows "nonce_check junk data datalen leverage nonce = Some 0 \<longleftrightarrow> hit \<le> SaM_threshold leverage"
proof -
  let ?t = "SaM_threshold leverage"
  have hit: "unat hit < 3 ^ 27" using SaM_hit_bound [OF _ assms(3)] assms(1) by simp
  have big: "push_bit 32 1 < ?t - hit" if "?t < hit"
  proof -
    have "unat (?t - hit) = 2 ^ 64 + unat ?t - unat hit"
      using that by (simp add: unat_sub_if' word_less_nat_alt)
    then show ?thesis using hit by (simp add: word_less_nat_alt push_bit_eq_mult)
  qed
  have "nonce_check junk data datalen leverage nonce = Some 0 \<longleftrightarrow> hit < ?t \<or> (\<not> push_bit 32 1 < ?t - hit \<and> ucast (?t - hit) = (0 :: u32))"
    using assms(2,3) by (auto simp: nonce_check_def Let_def)
  also have "\<dots> \<longleftrightarrow> hit \<le> ?t"
  proof (cases "hit = ?t")
    case False
    then show ?thesis using big by (metis linorder_less_linear order_less_imp_le leD)
  qed simp
  finally show ?thesis .
qed

lemma nonce_search_found:
  assumes "nonce_search junk data datalen threshold draws = Some nonce" and "nonce \<noteq> 0"
  shows "\<exists>sig hit. SaM junk data datalen (Some (le_bytes 4 nonce)) 4 = Some (sig, hit) \<and> hit < threshold"
  using assms by (induction draws) (auto simp: bind_Some_conv split: if_splits prod.splits)

text \<open>
  C30. Proof of work: every nonce but 0 that the search returns is accepted by the check, and
  the check accepts exactly the nonces whose hit does not exceed \<open>3 ^ (27 - leverage)\<close>, so one with the
  hit equal to the threshold too, although the search and the message of the check ask for less.
\<close>

theorem nonce_found_is_accepted:
  assumes "length junk = 729" and "leverage \<noteq> 0" and "maxmillis \<noteq> 0"
    and "SaM_nonce junk data datalen leverage maxmillis draws nonce0 = Some nonce" and "nonce \<noteq> 0"
  shows "SaM_nonce junk data datalen leverage 0 [] nonce = Some 0
    \<and> (\<exists>sig hit. SaM junk data datalen (Some (le_bytes 4 nonce)) 4 = Some (sig, hit) \<and> unat hit < 3 ^ (27 - min 26 (nat leverage)))
    \<and> (\<forall>n sig hit. SaM junk data datalen (Some (le_bytes 4 n)) 4 = Some (sig, hit) \<longrightarrow>
         (SaM_nonce junk data datalen leverage 0 [] n = Some 0 \<longleftrightarrow> unat hit \<le> 3 ^ (27 - min 26 (nat leverage))))"
proof -
  obtain sig hit where h: "SaM junk data datalen (Some (le_bytes 4 nonce)) 4 = Some (sig, hit)" "hit < SaM_threshold leverage"
    using nonce_search_found [of junk data datalen "SaM_threshold leverage" draws nonce] assms by (auto simp: SaM_nonce_def)
  have iff: "SaM_nonce junk data datalen leverage 0 [] n = Some 0 \<longleftrightarrow> unat hit \<le> 3 ^ (27 - min 26 (nat leverage))"
    if "SaM junk data datalen (Some (le_bytes 4 n)) 4 = Some (sig, hit)" for n sig hit
    using nonce_check_iff [OF assms(1,2) that] assms(2) by (simp add: SaM_nonce_def word_le_nat_alt threshold_eq)
  show ?thesis using iff h threshold_eq [of leverage] by (auto simp: word_less_nat_alt)
qed

theorem nonce_found_is_accepted_witness:
  "SaM_nonce (replicate 729 0) (Some [1, 2, 3]) 3 (- 1) 1 [5] 0 = Some 5 \<and> SaM_nonce (replicate 729 0) (Some [1, 2, 3]) 3 (- 1) 0 [] 5 = Some 0"
proof -
  obtain sig hit where h: "SaM (replicate 729 0) (Some [1, 2, 3]) 3 (Some (le_bytes 4 (5 :: u32))) 4 = Some (sig, hit)" "unat hit < 3 ^ 27"
    using SaM_result [of "replicate 729 0" "replicate 729 0" "Some [1, 2, 3]" "Some (le_bytes 4 (5 :: u32))"]
    by (auto simp: buffer_size_def simp del: upt_rec_numeral)
  have "hit < SaM_threshold (- 1)" using h(2) threshold_eq [of "- 1"] by (simp add: word_less_nat_alt)
  then have f: "SaM_nonce (replicate 729 0) (Some [1, 2, 3]) 3 (- 1) 1 [5] 0 = Some 5" using h(1) by (simp add: SaM_nonce_def del: upt_rec_numeral)
  show ?thesis using f nonce_found_is_accepted [OF _ _ _ f] by (simp del: upt_rec_numeral)
qed

end
