(* ===== verification/Spec2Isabelle.thy ===== *)
theory Spec2Isabelle
  imports Bits777 Hostnet777 PangeaTable PangeaFunds PangeaPots Poker777 PangeaHand Utils777 Queue777 PangeaWire Huffstream777 RamcoderMessages Cards777 PangeaNetwork Cointx PeggyBooks Gfshare777 Txind777 Kv777 SaM777
begin

text \<open>
  A verification development for libjl777 (SuperNET). The sources are C files under \<open>src/\<close>; most
  of a file is included by others with \<open>DEFINES_ONLY\<close> and once in full. The program is a set of
  agents around shared utilities: the Pangea poker table with its encrypted deck, the pegged
  assets, the coin and transaction code, the stores and the network layer.

  \<^bold>\<open>Conventions.\<close> A machine integer is a word of its width with the wrap-around of the machine; where
  C compares or divides signed values the definitions use \<open>sint\<close>. A structure is a \<open>record\<close>, a
  buffer a list. \<open>None\<close> stands for what has no defined result in C or stops the thread for good: an
  access outside an array, a division by zero, a null pointer, a mutex that is locked twice. So a
  theorem that says that an operation returns \<open>Some\<close> also says that it stays inside its arrays.
  Loops over arrays are folds or structural recursion; loops that stop at a condition recurse on a
  bound that the code has (the length of a buffer, the number of units or items), so every
  definition is total and executable. Printing, clocks and sockets are left out. Code that is not
  modelled but used (the elliptic curve, SHA-256, random bytes, uninitialised memory) is an
  argument of the definitions that use it; the theorems that need a law of it name the law as a
  hypothesis and have a witness on a concrete instance.

  \<^bold>\<open>Prelude.\<close> \<^theory_text>\<open>Prelude777\<close>: words, checked array access, little-endian layout, sums over
  updated arrays, the option monad and its loop rules, the contract of a lossless code.

  \<^bold>\<open>Utilities.\<close> \<^theory_text>\<open>Bits777\<close> (\<open>utils/bits777.c\<close>): bit arrays, Hamming distances, bloom filters and
  the table-driven CRC-32, which is shown equal to the bitwise definition. \<^theory_text>\<open>Utils777\<close>
  (\<open>utils/utils777.c\<close>): strings, hexadecimal and base 32, small sets of integers, comparison
  functions, dates.
  \<^theory_text>\<open>Queue777\<close> (\<open>common/system777.c\<close>, \<open>includes/utlist.h\<close>): message queues as doubly linked lists
  in a heap, refined to lists, and the arena allocator with disjoint blocks. \<^theory_text>\<open>Ramkv777\<close>
  (\<open>KV/ramkv777.c\<close>): the in-memory key-value store, refined to maps as long as nothing is deleted
  under its mutex. \<^theory_text>\<open>Files777\<close>: files with a position, as the stores on disk use them. \<^theory_text>\<open>Txind777\<close>
  (\<open>common/txind777.c\<close>): the transaction log with its files; a step relation of writes, flushes, reads
  and crashes, whose invariant says that nothing that was flushed is lost (that a flushed file survives a crash is
  part of the step relation; \<open>fflush\<close> has no definition of its own). \<^theory_text>\<open>Kv777\<close>
  (\<open>KV/kv777.c\<close>): the persistent key-value store with its default flags; a simulation by a map over writes and
  restarts, guarded by what the callers have to keep to, and opening, which ends on every file. \<^theory_text>\<open>SaM777\<close>
  (\<open>utils/SaM.c\<close>): the sponge hash over trits, which has a result for inputs below \<open>2 ^ 28\<close> bytes, its stream
  cipher, which undoes itself on buffers of \<open>len + 1\<close> bytes, and the proof of work, whose nonces are accepted when they are checked.

  \<^bold>\<open>Secret sharing.\<close> \<^theory_text>\<open>Galois777\<close> (\<open>utils/libgfshare.c\<close>): the tables of logarithms and powers, shown to
  compute in a field of 256 elements, and interpolation over any field. \<^theory_text>\<open>Gfshare777\<close>: splitting and
  recombining, with the contexts, the numbers of the shares and the use by the deck of cards. Enough
  shares give the secret and fewer say nothing about it; a locale states the contract of a threshold
  scheme, interpreted on the factors of a deck.

  \<^bold>\<open>Codes.\<close> \<^theory_text>\<open>Huffstream777\<close> (\<open>utils/huffstream.c\<close>): bit streams and variable-length integers, with
  one locale for the contract of a code and an interpretation for each of them. \<^theory_text>\<open>Ramcoder777\<close>,
  \<^theory_text>\<open>RamcoderSymbols\<close> and \<^theory_text>\<open>RamcoderMessages\<close> (\<open>utils/ramcoder.c\<close>): the adaptive arithmetic coder;
  the interval of the coder is followed through the carry-free renormalisation, and a message that
  was encoded is decoded again, also through the compression of \<open>hostnet777\<close>. \<^theory_text>\<open>Cointx\<close>
  (\<open>coins/cointx.c\<close>): coin transactions and their wire format, with the round trip of a whole
  transaction.

  \<^bold>\<open>Network layer.\<close> \<^theory_text>\<open>Hostnet777\<close> (\<open>common/hostnet777.c\<close>): byte copying, packet headers and the filter
  of duplicates.

  \<^bold>\<open>Pangea.\<close> \<^theory_text>\<open>PangeaTable\<close>: the table, the seats and the two numberings of players.
  \<^theory_text>\<open>PangeaFunds\<close> and \<^theory_text>\<open>PangeaPots\<close> (\<open>games/pangea/pangeafunds.c\<close>): bets, antes and blinds, side
  pots, rake and payout; chips are conserved and the best hands are paid. \<^theory_text>\<open>Poker777\<close>
  (\<open>games/pangea/poker.c\<close>): the evaluators of five and seven cards against the rules of poker.
  \<^theory_text>\<open>PangeaHand\<close>: the handlers that play a hand, with the conservation of all chips by an action and
  by the end of a hand. \<^theory_text>\<open>PangeaWire\<close>: the run-length coding of the preflop messages.
  \<^theory_text>\<open>Cards777\<close> (\<open>games/cards777.c\<close>): encryption, shuffling and decoding of the deck by several
  players, a fair deal for any honest player. \<^theory_text>\<open>PangeaDeal\<close>, \<^theory_text>\<open>PangeaServer\<close> and \<^theory_text>\<open>PangeaNetwork\<close>
  (\<open>games/pangea/pangea777.c\<close>): the handlers of the deal, the host and its message loop, and the
  nodes of a table that exchange the messages of the deal in any order; every run of a deal of good luck (no two equal
  ciphers, no zero byte at the end of the \<open>preflop\<close> message) ends with the cards in the hands of their players and the
  betting opened.

  \<^bold>\<open>Pegged assets.\<close> \<^theory_text>\<open>Peggy777\<close> (\<open>peggy/peggy777.c\<close>, \<open>peggy/quotes777.c\<close>, \<open>peggy/accts777.c\<close>): prices,
  interest, units and their redemption, the books. \<^theory_text>\<open>PeggyConsensus\<close>: smoothing, votes, bets and
  margin calls, and the majority behind a price. \<^theory_text>\<open>PeggyBooks\<close>: the double-entry invariant over all
  operations, the limits of payouts and prices.

  \<^bold>\<open>Bounds.\<close> The theorems keep the limits of the code: 64 bytes of a summary entry and the
  size of the summary for bets, 8192 bytes for a raw transaction, 65535 bytes for a stored value,
  539 smoothing coefficients, 65523 bytes for an item of the transaction log and 47 bits for its
  position, 255 shares. The only loop without a bound in the code, the drawing of share numbers, is a
  \<open>partial_function\<close>, shown to return when every place keeps being drawn. Where a bound is stronger than the code's own (stakes whose square
  fits into 63 bits, prices up to 184467440) it is where the arithmetic of the code starts to wrap. The sizes of
  buffers in \<^theory_text>\<open>Gfshare777\<close> and \<^theory_text>\<open>Huffstream777\<close> are natural numbers where the code has \<open>unsigned int\<close>.

  \<^bold>\<open>Choices.\<close> Where C leaves the order of two calls in an expression open (the calls of \<open>hgetbit\<close> in
  \<open>utils/huffstream.c\<close>) they run from left to right.

  \<^bold>\<open>Not modelled.\<close> Code of other authors that the repository carries (JSON, hash functions, curve
  arithmetic, nanomsg, miniupnpc, sophia, raft, ccgi); floating-point code
  (\<open>common/prices777.c\<close>, the quotes of \<open>peggy\<close>, the poker bot); sockets, threads, files and processes
  (\<open>SuperNET.c\<close>, relays, bus, console, the distributed store in \<open>KV/kv777.c\<close>, \<open>coins/coins777.c\<close>, \<open>ramchain\<close>, \<open>mgw\<close>); JSON
  interfaces of the agents and of InstantDEX; everything under \<open>deprecated\<close>. Of modelled functions: the text buffer of
  \<open>pangea_sendcmd\<close>; the check of \<open>pangea_summary\<close> that parses an entry again after writing it and prints what differs, and its
  wait for a key when the type is 0 (\<open>pangeafunds.c\<close>, 152 to 190); the report of the table status that the host prints
  in \<open>pangea_finish\<close>; \<open>sort32s\<close>, \<open>sort64s\<close> and their kin, which call \<open>qsort\<close>.
\<close>

end
